(* ===== verification/Go_Prelude.thy ===== *)
theory Go_Prelude
  imports Main "HOL-Library.Char_ord" "HOL-Library.List_Lexorder" "HOL-Library.AList"
begin

text \<open>
  Shared vocabulary of the development: what the components use of the Go language and of its
  standard library (byte strings and the \<^verbatim>\<open>strings\<close> package, UTF-8 decoding, error results,
  \<^verbatim>\<open>sort.Strings\<close>, maps with an iteration order), and the generic lemmas on results, lists and
  association lists that the component proofs share.

  A Go \<^verbatim>\<open>string\<close> is a sequence of bytes, so it is a HOL \<open>string\<close>, whose characters are bytes, and
  \<open>length\<close> is Go's \<^verbatim>\<open>len\<close>. \<^verbatim>\<open><\<close> on Go strings is bytewise lexicographic, which is the order of
  \<open>List_Lexorder\<close> over \<open>Char_ord\<close>.
\<close>

named_theorems result_simps \<open>equations of the error-result combinators\<close>
named_theorems alist_simps \<open>lookup, update and delete on association lists\<close>

section \<open>Results\<close>

text \<open>A Go pair \<^verbatim>\<open>(value, error)\<close> is a sum: \<open>Inl\<close> the error, \<open>Inr\<close> the value.\<close>

type_synonym ('e, 'a) result = "'e + 'a"

fun bind_result :: "('e, 'a) result \<Rightarrow> ('a \<Rightarrow> ('e, 'b) result) \<Rightarrow> ('e, 'b) result" where
  "bind_result (Inl e) f = Inl e"
| "bind_result (Inr x) f = f x"

text \<open>The loop \<^verbatim>\<open>for x in xs: y, err := f(x); if err return; out = append(out, y)\<close>.\<close>

fun map_result :: "('a \<Rightarrow> ('e, 'b) result) \<Rightarrow> 'a list \<Rightarrow> ('e, 'b list) result" where
  "map_result f [] = Inr []"
| "map_result f (x # xs) =
     (case f x of
        Inl e \<Rightarrow> Inl e
      | Inr y \<Rightarrow> (case map_result f xs of Inl e \<Rightarrow> Inl e | Inr ys \<Rightarrow> Inr (y # ys)))"

definition is_ok :: "('e, 'a) result \<Rightarrow> bool" where
  "is_ok r = (case r of Inl _ \<Rightarrow> False | Inr _ \<Rightarrow> True)"

lemma is_ok_simps [simp, result_simps]: "\<not> is_ok (Inl e)" "is_ok (Inr x)"
  by (simp_all add: is_ok_def)

lemma bind_result_Inr [result_simps]:
  "bind_result r f = Inr y \<longleftrightarrow> (\<exists>x. r = Inr x \<and> f x = Inr y)"
  by (cases r) auto

lemma map_result_cong [fundef_cong]:
  "xs = ys \<Longrightarrow> (\<And>x. x \<in> set ys \<Longrightarrow> f x = g x) \<Longrightarrow> map_result f xs = map_result g ys"
proof (induction ys arbitrary: xs)
  case Nil
  then show ?case by simp
next
  case (Cons y ys)
  then have "map_result f ys = map_result g ys" by simp
  with Cons.prems show ?case by (simp split: sum.split)
qed

lemma map_result_Inr [result_simps]:
  "map_result f xs = Inr ys \<longleftrightarrow> list_all2 (\<lambda>x y. f x = Inr y) xs ys"
proof (induction xs arbitrary: ys)
  case Nil
  then show ?case by (cases ys) auto
next
  case (Cons x xs)
  show ?case
    by (cases ys; cases "f x"; cases "map_result f xs") (auto simp: Cons.IH [symmetric])
qed

lemma map_result_set:
  "map_result f xs = Inr ys \<Longrightarrow> y \<in> set ys \<Longrightarrow> \<exists>x \<in> set xs. f x = Inr y"
  by (auto simp: map_result_Inr in_set_conv_nth list_all2_conv_all_nth) (metis nth_mem)

section \<open>Lists\<close>

lemma successively_conj:
  "successively P xs \<Longrightarrow> successively Q xs \<Longrightarrow> successively (\<lambda>x y. P x y \<and> Q x y) xs"
  by (induction xs) (auto simp: successively_Cons)

text \<open>The loop \<^verbatim>\<open>for x in xs: if y, ok := f(x); ok { return y, true }\<close>.\<close>

fun firstSome :: "('a \<Rightarrow> 'b option) \<Rightarrow> 'a list \<Rightarrow> 'b option" where
  "firstSome f [] = None"
| "firstSome f (x # xs) = (case f x of None \<Rightarrow> firstSome f xs | Some y \<Rightarrow> Some y)"

lemma firstSome_cong [fundef_cong]:
  "xs = ys \<Longrightarrow> (\<And>x. x \<in> set ys \<Longrightarrow> f x = g x) \<Longrightarrow> firstSome f xs = firstSome g ys"
  by (induction ys arbitrary: xs) (auto split: option.split)

lemma firstSome_None [simp]: "firstSome f xs = None \<longleftrightarrow> (\<forall>x \<in> set xs. f x = None)"
  by (induction xs) (auto split: option.split)

lemma firstSome_Some: "firstSome f xs = Some y \<Longrightarrow> \<exists>x \<in> set xs. f x = Some y"
  by (induction xs) (auto split: option.splits)

section \<open>Strings\<close>

text \<open>\<open>code c\<close> is the byte.\<close>

definition code :: "char \<Rightarrow> nat" where
  "code c = of_char c"

definition byte_in :: "nat \<Rightarrow> nat \<Rightarrow> char \<Rightarrow> bool" where
  "byte_in lo hi c \<longleftrightarrow> lo \<le> code c \<and> code c \<le> hi"

definition is_lower :: "char \<Rightarrow> bool" where
  "is_lower c \<longleftrightarrow> byte_in 97 122 c"

definition is_upper :: "char \<Rightarrow> bool" where
  "is_upper c \<longleftrightarrow> byte_in 65 90 c"

definition is_digit :: "char \<Rightarrow> bool" where
  "is_digit c \<longleftrightarrow> byte_in 48 57 c"

definition hasPrefix :: "string \<Rightarrow> string \<Rightarrow> bool" where
  "hasPrefix s p \<longleftrightarrow> take (length p) s = p"

lemma hasPrefix_Cons_Cons [simp]: "hasPrefix (c # s) (d # p) \<longleftrightarrow> c = d \<and> hasPrefix s p"
  by (auto simp: hasPrefix_def)

lemma hasPrefix_Nil [simp]: "hasPrefix s []" "hasPrefix [] p \<longleftrightarrow> p = []"
  by (auto simp: hasPrefix_def)

lemma hasPrefix_append [simp]: "hasPrefix (p @ s) p"
  by (simp add: hasPrefix_def)

lemma hasPrefix_iff: "hasPrefix s p \<longleftrightarrow> (\<exists>t. s = p @ t)"
  unfolding hasPrefix_def by (metis append_eq_conv_conj append_take_drop_id)

text \<open>\<open>strings.Index\<close>: the first position where the pattern stands, if any.\<close>

fun str_index :: "string \<Rightarrow> string \<Rightarrow> nat option" where
  "str_index [] p = (if p = [] then Some 0 else None)"
| "str_index (c # s) p =
     (if hasPrefix (c # s) p then Some 0 else map_option Suc (str_index s p))"

definition str_contains :: "string \<Rightarrow> string \<Rightarrow> bool" where
  "str_contains s p \<longleftrightarrow> str_index s p \<noteq> None"

text \<open>\<open>strings.Split\<close> on a one-byte separator.\<close>

fun split_on :: "char \<Rightarrow> string \<Rightarrow> string list" where
  "split_on d [] = [[]]"
| "split_on d (c # s) =
     (if c = d then [] # split_on d s
      else (case split_on d s of [] \<Rightarrow> [[c]] | w # ws \<Rightarrow> (c # w) # ws))"

fun join :: "string \<Rightarrow> string list \<Rightarrow> string" where
  "join sep [] = []"
| "join sep [x] = x"
| "join sep (x # y # ys) = x @ sep @ join sep (y # ys)"

lemma split_on_clean: "d \<notin> set s \<Longrightarrow> split_on d s = [s]"
  by (induction s) auto

lemma split_on_append: "d \<notin> set s \<Longrightarrow> split_on d (s @ d # t) = s # split_on d t"
  by (induction s) auto

lemma split_on_join:
  "xs \<noteq> [] \<Longrightarrow> list_all (\<lambda>x. d \<notin> set x) xs \<Longrightarrow> split_on d (join [d] xs) = xs"
  by (induction "[d]" xs rule: join.induct) (auto simp: split_on_clean split_on_append)

definition ascii_lower :: "char \<Rightarrow> char" where
  "ascii_lower c = (if is_upper c then char_of (code c + 32) else c)"

text \<open>
  \<open>strings.EqualFold\<close> on ASCII operands, which is all the sources call it on: a bareword of the
  scope lexer is ASCII, and so are the keywords. (Beyond ASCII Go also folds U+212A and U+017F.)
\<close>

definition equalFold :: "string \<Rightarrow> string \<Rightarrow> bool" where
  "equalFold s t \<longleftrightarrow> map ascii_lower s = map ascii_lower t"

text \<open>
  \<open>strings.TrimSpace\<close> cuts every code point of \<open>unicode.IsSpace\<close> off both ends. On bytes that
  is: cut the UTF-8 encodings of those code points. A suffix that is such an encoding is also what
  \<open>utf8.DecodeLastRune\<close> finds at the end, since its first byte is the nearest rune start.
\<close>

definition space_seqs :: "string list" where
  "space_seqs =
    [[CHR 0x09],
     [CHR 0x0A],
     [CHR 0x0B],
     [CHR 0x0C],
     [CHR 0x0D],
     [CHR 0x20],
     [CHR 0xC2, CHR 0x85],
     [CHR 0xC2, CHR 0xA0],
     [CHR 0xE1, CHR 0x9A, CHR 0x80],
     [CHR 0xE2, CHR 0x80, CHR 0x80],
     [CHR 0xE2, CHR 0x80, CHR 0x81],
     [CHR 0xE2, CHR 0x80, CHR 0x82],
     [CHR 0xE2, CHR 0x80, CHR 0x83],
     [CHR 0xE2, CHR 0x80, CHR 0x84],
     [CHR 0xE2, CHR 0x80, CHR 0x85],
     [CHR 0xE2, CHR 0x80, CHR 0x86],
     [CHR 0xE2, CHR 0x80, CHR 0x87],
     [CHR 0xE2, CHR 0x80, CHR 0x88],
     [CHR 0xE2, CHR 0x80, CHR 0x89],
     [CHR 0xE2, CHR 0x80, CHR 0x8A],
     [CHR 0xE2, CHR 0x80, CHR 0xA8],
     [CHR 0xE2, CHR 0x80, CHR 0xA9],
     [CHR 0xE2, CHR 0x80, CHR 0xAF],
     [CHR 0xE2, CHR 0x81, CHR 0x9F],
     [CHR 0xE3, CHR 0x80, CHR 0x80]]"

function trimLeft :: "string list \<Rightarrow> string \<Rightarrow> string" where
  "trimLeft seqs s =
     (case find (\<lambda>q. q \<noteq> [] \<and> hasPrefix s q) seqs of
        None \<Rightarrow> s
      | Some q \<Rightarrow> trimLeft seqs (drop (length q) s))"
  by pat_completeness auto
termination
proof (relation "measure (\<lambda>(seqs, s). length s)")
  fix seqs :: "string list" and s q :: string
  assume "find (\<lambda>q. q \<noteq> [] \<and> hasPrefix s q) seqs = Some q"
  then have "q \<noteq> []" and "hasPrefix s q" by (auto simp: find_Some_iff)
  then show "((seqs, drop (length q) s), (seqs, s)) \<in> measure (\<lambda>(seqs, s). length s)"
    by (auto simp: hasPrefix_iff)
qed simp

declare trimLeft.simps [simp del]

definition trimSpace :: "string \<Rightarrow> string" where
  "trimSpace s = rev (trimLeft (map rev space_seqs) (rev (trimLeft space_seqs s)))"

text \<open>A string that starts and ends with a visible ASCII character is already trimmed.\<close>

definition visible :: "char \<Rightarrow> bool" where
  "visible c \<longleftrightarrow> 32 < code c \<and> code c < 128"

lemma space_seqs_visible:
  assumes "visible c" and "q \<in> set space_seqs \<union> set (map rev space_seqs)"
  shows "q = [] \<or> hd q \<noteq> c"
  using assms by (auto simp: space_seqs_def visible_def code_def)

lemma trimLeft_visible:
  assumes "visible c" and "set seqs \<subseteq> set space_seqs \<union> set (map rev space_seqs)"
  shows "trimLeft seqs (c # s) = c # s"
proof -
  have "\<not> (q \<noteq> [] \<and> hasPrefix (c # s) q)" if "q \<in> set seqs" for q
    using space_seqs_visible [OF assms(1), of q] that assms(2) by (cases q) auto
  then have "find (\<lambda>q. q \<noteq> [] \<and> hasPrefix (c # s) q) seqs = None"
    by (simp add: find_None_iff)
  then show ?thesis by (subst trimLeft.simps) simp
qed

lemma trimSpace_visible:
  assumes "s \<noteq> []" and "visible (hd s)" and "visible (last s)"
  shows "trimSpace s = s"
proof -
  obtain c s' where s: "s = c # s'" using assms(1) by (cases s) auto
  then have l: "trimLeft space_seqs s = s"
    using trimLeft_visible [of c space_seqs s'] assms(2) by simp
  obtain d t where t: "rev s = d # t" using assms(1) by (cases "rev s") auto
  with assms(3) have "visible d" by (metis hd_rev list.sel(1))
  then have "trimLeft (map rev space_seqs) (rev s) = rev s"
    using t trimLeft_visible [of d "map rev space_seqs" t] by simp
  with l show ?thesis by (simp add: trimSpace_def)
qed

section \<open>UTF-8\<close>

text \<open>
  \<open>utf8.DecodeRune\<close> on the bytes after a non-ASCII first byte: the code point and the number of
  continuation bytes, or \<open>None\<close> where Go yields U+FFFD with width one. The ranges are Go's
  \<open>first\<close>/\<open>acceptRanges\<close> tables.
\<close>

definition cont :: "nat \<Rightarrow> nat \<Rightarrow> nat \<Rightarrow> bool" where
  "cont lo hi b \<longleftrightarrow> lo \<le> b \<and> b \<le> hi"

fun decode_multi :: "nat \<Rightarrow> nat list \<Rightarrow> (nat \<times> nat) option" where
  "decode_multi b0 bs =
     (if 194 \<le> b0 \<and> b0 \<le> 223 then
        (case bs of
           b1 # _ \<Rightarrow> if cont 128 191 b1 then Some ((b0 - 192) * 64 + (b1 - 128), 1) else None
         | _ \<Rightarrow> None)
      else if 224 \<le> b0 \<and> b0 \<le> 239 then
        (case bs of
           b1 # b2 # _ \<Rightarrow>
             if cont (if b0 = 224 then 160 else 128) (if b0 = 237 then 159 else 191) b1
                \<and> cont 128 191 b2
             then Some ((b0 - 224) * 4096 + (b1 - 128) * 64 + (b2 - 128), 2) else None
         | _ \<Rightarrow> None)
      else if 240 \<le> b0 \<and> b0 \<le> 244 then
        (case bs of
           b1 # b2 # b3 # _ \<Rightarrow>
             if cont (if b0 = 240 then 144 else 128) (if b0 = 244 then 143 else 191) b1
                \<and> cont 128 191 b2 \<and> cont 128 191 b3
             then Some ((b0 - 240) * 262144 + (b1 - 128) * 4096 + (b2 - 128) * 64 + (b3 - 128), 3)
             else None
         | _ \<Rightarrow> None)
      else None)"

function decode_runes :: "nat list \<Rightarrow> nat list" where
  "decode_runes [] = []"
| "decode_runes (b # bs) =
     (if b < 128 then b # decode_runes bs
      else (case decode_multi b bs of
              None \<Rightarrow> 65533 # decode_runes bs
            | Some (r, n) \<Rightarrow> r # decode_runes (drop n bs)))"
  by pat_completeness auto
termination
  by (relation "measure length") auto

text \<open>The code points a Go \<open>range\<close> loop, or a compiled regular expression, sees of a string.\<close>

definition runes :: "string \<Rightarrow> nat list" where
  "runes s = decode_runes (map code s)"

definition is_ascii :: "string \<Rightarrow> bool" where
  "is_ascii s \<longleftrightarrow> list_all (\<lambda>c. code c < 128) s"

lemma runes_ascii: "is_ascii s \<Longrightarrow> runes s = map code s"
  by (induction s) (auto simp: is_ascii_def runes_def)

end
