(* ===== verification/Rbac_Scope.thy ===== *)
theory Rbac_Scope
  imports Go_Prelude
begin

text \<open>
  The boolean scope predicate of the RBAC subsystem (\<^verbatim>\<open>keeper/internal/rbac\<close>): the syntax tree of
  \<^verbatim>\<open>scope_ast.go\<close>, the host globs of \<^verbatim>\<open>scope_glob.go\<close>, the evaluation of \<^verbatim>\<open>permission.go\<close> and
  the normalisation \<open>toDNF\<close> that every containment check reads. The lemmas show that \<open>toDNF\<close>
  keeps the meaning of a predicate, that its size cap holds, and exactly when it succeeds.
\<close>

section \<open>Dimensions and caps\<close>

definition dimCoven :: string where "dimCoven = ''coven''"
definition dimService :: string where "dimService = ''service''"
definition dimIncarnation :: string where "dimIncarnation = ''incarnation''"
definition dimHost :: string where "dimHost = ''host''"
definition dimTrait :: string where "dimTrait = ''trait''"

lemmas dim_defs = dimCoven_def dimService_def dimIncarnation_def dimHost_def dimTrait_def

definition scopeDims :: "string list" where
  "scopeDims = [dimCoven, dimService, dimIncarnation, dimHost, dimTrait]"

definition maxScopeAtoms :: nat where "maxScopeAtoms = 32"
definition maxScopeDepth :: nat where "maxScopeDepth = 4"
definition maxScopeValueLen :: nat where "maxScopeValueLen = 256"
definition maxDNFConjuncts :: nat where "maxDNFConjuncts = 256"
definition maxScopeTotalLen :: nat where "maxScopeTotalLen = 4096"

section \<open>Globs\<close>

text \<open>
  \<open>globToRE2\<close> turns a glob into an anchored regular expression byte by byte: \<open>*\<close> into
  \<^verbatim>\<open>.*\<close>, \<open>?\<close> into \<^verbatim>\<open>.\<close>, and any other byte \<open>c\<close> into the quoted text of
  \<^verbatim>\<open>string(c)\<close>, which Go reads as the code point with the number \<open>c\<close>. A compiled glob is
  therefore a list of items over code points; \<^verbatim>\<open>.\<close> matches every code point but the newline.
\<close>

datatype glob_item = GStar | GAny | GLit nat

fun globItem :: "char \<Rightarrow> glob_item" where
  "globItem c = (if c = CHR ''*'' then GStar else if c = CHR ''?'' then GAny else GLit (code c))"

definition compileGlob :: "string \<Rightarrow> glob_item list" where
  "compileGlob g = map globItem g"

fun glob_runes :: "glob_item list \<Rightarrow> nat list \<Rightarrow> bool" where
  "glob_runes [] rs \<longleftrightarrow> rs = []"
| "glob_runes (GLit k # ps) rs \<longleftrightarrow>
     (case rs of [] \<Rightarrow> False | r # rs' \<Rightarrow> r = k \<and> glob_runes ps rs')"
| "glob_runes (GAny # ps) rs \<longleftrightarrow>
     (case rs of [] \<Rightarrow> False | r # rs' \<Rightarrow> r \<noteq> 10 \<and> glob_runes ps rs')"
| "glob_runes (GStar # ps) [] \<longleftrightarrow> glob_runes ps []"
| "glob_runes (GStar # ps) (r # rs) \<longleftrightarrow>
     glob_runes ps (r # rs) \<or> (r \<noteq> 10 \<and> glob_runes (GStar # ps) rs)"

text \<open>\<open>regexp.MatchString\<close> of a compiled glob.\<close>

definition matchString :: "glob_item list \<Rightarrow> string \<Rightarrow> bool" where
  "matchString ps s = glob_runes ps (runes s)"

section \<open>The predicate tree\<close>

datatype match_op = MatchIn | MatchGlob

record scope_cond =
  cDim :: string
  cKey :: string
  cMatch :: match_op
  cValues :: "string list"
  cGlob :: "glob_item list option"

text \<open>
  A \<^verbatim>\<open>*ScopeExpr\<close> is \<open>scope_expr option\<close>: \<open>None\<close> is the nil predicate, no restriction. The
  node kinds are the three of \<^verbatim>\<open>ScopeOp\<close>.
\<close>

datatype scope_expr =
    OpLeaf scope_cond
  | OpAnd "scope_expr list"
  | OpOr "scope_expr list"

definition newGlobCond :: "string \<Rightarrow> string \<Rightarrow> scope_cond" where
  "newGlobCond dim g =
     \<lparr>cDim = dim, cKey = [], cMatch = MatchGlob, cValues = [g], cGlob = Some (compileGlob g)\<rparr>"

definition inCond :: "string \<Rightarrow> string \<Rightarrow> string list \<Rightarrow> scope_cond" where
  "inCond dim key vs = \<lparr>cDim = dim, cKey = key, cMatch = MatchIn, cValues = vs, cGlob = None\<rparr>"

definition anyGlobMatch :: "scope_cond \<Rightarrow> string list \<Rightarrow> bool" where
  "anyGlobMatch c have =
     (case cGlob c of None \<Rightarrow> False | Some ps \<Rightarrow> list_ex (matchString ps) have)"

definition matchGlob :: "scope_cond \<Rightarrow> string \<Rightarrow> bool" where
  "matchGlob c target =
     (case cGlob c of None \<Rightarrow> False | Some ps \<Rightarrow> matchString ps target)"

section \<open>Evaluation\<close>

record scope_input =
  inCovens :: "string list"
  inServices :: "string list"
  inIncarnations :: "string list"
  inHosts :: "string list"
  inTraits :: "string \<rightharpoonup> string list"

definition anyInSet :: "string list \<Rightarrow> string list \<Rightarrow> bool" where
  "anyInSet have want = list_ex (\<lambda>h. h \<in> set want) have"

definition traitsOf :: "scope_input \<Rightarrow> string \<Rightarrow> string list" where
  "traitsOf inp k = (case inTraits inp k of None \<Rightarrow> [] | Some vs \<Rightarrow> vs)"

definition evalCond :: "scope_cond \<Rightarrow> scope_input \<Rightarrow> bool" where
  "evalCond c inp =
     (if cDim c = dimCoven then anyInSet (inCovens inp) (cValues c)
      else if cDim c = dimService then anyInSet (inServices inp) (cValues c)
      else if cDim c = dimIncarnation then
        (if cMatch c = MatchGlob then anyGlobMatch c (inIncarnations inp)
         else anyInSet (inIncarnations inp) (cValues c))
      else if cDim c = dimHost then
        (if cMatch c = MatchGlob then anyGlobMatch c (inHosts inp)
         else anyInSet (inHosts inp) (cValues c))
      else if cDim c = dimTrait then anyInSet (traitsOf inp (cKey c)) (cValues c)
      else False)"

fun evalNode :: "scope_expr \<Rightarrow> scope_input \<Rightarrow> bool" where
  "evalNode (OpLeaf c) inp = evalCond c inp"
| "evalNode (OpAnd cs) inp = list_all (\<lambda>c. evalNode c inp) cs"
| "evalNode (OpOr cs) inp = list_ex (\<lambda>c. evalNode c inp) cs"

definition evalScope :: "scope_expr option \<Rightarrow> scope_input \<Rightarrow> bool" where
  "evalScope e inp = (case e of None \<Rightarrow> True | Some n \<Rightarrow> evalNode n inp)"

lemma evalScope_simps [simp]:
  "evalScope None inp" "evalScope (Some e) inp = evalNode e inp"
  by (simp_all add: evalScope_def)

section \<open>Errors\<close>

text \<open>One constructor per error return of \<^verbatim>\<open>scope_ast.go\<close>, with what its message names.\<close>

datatype scope_error =
    ErrEmptyExpr
  | ErrTooLong nat
  | ErrUnterminatedQuote nat
  | ErrUnexpectedChar char nat
  | ErrTrailing string
  | ErrTooManyConditions nat
  | ErrNestingTooDeep
  | ErrExpectedRParen string
  | ErrExpectedCondition string
  | ErrUnexpectedKeyword string
  | ErrBadTraitKey string
  | ErrTraitNeedsEq string
  | ErrUnknownDimension string
  | ErrInNeedsLParen string
  | ErrInNeedsRParen string string
  | ErrMatchesDimension string
  | ErrExpectedOperator string string
  | ErrEmptyValue
  | ErrValueTooLong nat
  | ErrBadGlob string
  | ErrBadValue string
  | ErrExpectedValue string
  | ErrTooComplex
  | ErrOutOfFuel

section \<open>Size and normal form\<close>

fun countLeaves :: "scope_expr \<Rightarrow> nat" where
  "countLeaves (OpLeaf c) = 1"
| "countLeaves (OpAnd cs) = sum_list (map countLeaves cs)"
| "countLeaves (OpOr cs) = sum_list (map countLeaves cs)"

type_synonym conj = "scope_cond list"
type_synonym dnf = "conj list"

text \<open>
  The two loops of \<open>toDNF\<close> over the results of the children. The \<open>OpAnd\<close> loop of the source
  checks the cap after each appended conjunct; the list only grows, so the one check after the
  inner loops refuses the same inputs with the same error.
\<close>

fun dnfOrLoop :: "dnf \<Rightarrow> (scope_error, dnf) result list \<Rightarrow> (scope_error, dnf) result" where
  "dnfOrLoop out [] = Inr out"
| "dnfOrLoop out (Inl e # ds) = Inl e"
| "dnfOrLoop out (Inr d # ds) =
     (if maxDNFConjuncts < length (out @ d) then Inl ErrTooComplex else dnfOrLoop (out @ d) ds)"

definition dnfProduct :: "dnf \<Rightarrow> dnf \<Rightarrow> dnf" where
  "dnfProduct rs ds = concat (map (\<lambda>r. map (\<lambda>d. r @ d) ds) rs)"

fun dnfAndLoop :: "dnf \<Rightarrow> (scope_error, dnf) result list \<Rightarrow> (scope_error, dnf) result" where
  "dnfAndLoop res [] = Inr res"
| "dnfAndLoop res (Inl e # ds) = Inl e"
| "dnfAndLoop res (Inr d # ds) =
     (if maxDNFConjuncts < length (dnfProduct res d) then Inl ErrTooComplex
      else dnfAndLoop (dnfProduct res d) ds)"

fun toDNF :: "scope_expr \<Rightarrow> (scope_error, dnf) result" where
  "toDNF (OpLeaf c) = Inr [[c]]"
| "toDNF (OpOr cs) = dnfOrLoop [] (map toDNF cs)"
| "toDNF (OpAnd cs) = dnfAndLoop [[]] (map toDNF cs)"

section \<open>What the normal form means\<close>

definition evalConj :: "conj \<Rightarrow> scope_input \<Rightarrow> bool" where
  "evalConj cj inp = list_all (\<lambda>c. evalCond c inp) cj"

definition evalDNF :: "dnf \<Rightarrow> scope_input \<Rightarrow> bool" where
  "evalDNF d inp = list_ex (\<lambda>cj. evalConj cj inp) d"

lemma evalConj_simps [simp]:
  "evalConj [] inp"
  "evalConj (c # cj) inp \<longleftrightarrow> evalCond c inp \<and> evalConj cj inp"
  "evalConj (a @ b) inp \<longleftrightarrow> evalConj a inp \<and> evalConj b inp"
  by (auto simp: evalConj_def)

lemma evalDNF_simps [simp]:
  "\<not> evalDNF [] inp"
  "evalDNF (cj # d) inp \<longleftrightarrow> evalConj cj inp \<or> evalDNF d inp"
  "evalDNF (a @ b) inp \<longleftrightarrow> evalDNF a inp \<or> evalDNF b inp"
  by (auto simp: evalDNF_def)

lemma evalDNF_iff: "evalDNF d inp \<longleftrightarrow> (\<exists>cj \<in> set d. evalConj cj inp)"
  by (simp add: evalDNF_def list_ex_iff)

lemma evalDNF_product [simp]:
  "evalDNF (dnfProduct a b) inp \<longleftrightarrow> evalDNF a inp \<and> evalDNF b inp"
  by (auto simp: evalDNF_iff dnfProduct_def)

lemma length_dnfProduct [simp]: "length (dnfProduct a b) = length a * length b"
  by (induction a) (simp_all add: dnfProduct_def)

lemma dnfOrLoop_sound:
  assumes "dnfOrLoop out rs = Inr d"
  shows "\<exists>ds. rs = map Inr ds \<and> d = out @ concat ds"
  using assms
proof (induction out rs rule: dnfOrLoop.induct)
  case (3 out d' rs)
  then obtain ds where "rs = map Inr ds" "d = (out @ d') @ concat ds"
    by (auto split: if_splits)
  then show ?case by (intro exI [of _ "d' # ds"]) simp
qed auto

lemma dnfAndLoop_sound:
  assumes "dnfAndLoop res rs = Inr d"
  shows "\<exists>ds. rs = map Inr ds \<and> d = foldl dnfProduct res ds"
  using assms
proof (induction res rs rule: dnfAndLoop.induct)
  case (3 res d' rs)
  then obtain ds where "rs = map Inr ds" "d = foldl dnfProduct (dnfProduct res d') ds"
    by (auto split: if_splits)
  then show ?case by (intro exI [of _ "d' # ds"]) simp
qed auto

lemma dnfOrLoop_children: "is_ok (dnfOrLoop out rs) \<Longrightarrow> \<exists>ds. rs = map Inr ds"
  by (cases "dnfOrLoop out rs") (auto dest: dnfOrLoop_sound)

lemma dnfAndLoop_children: "is_ok (dnfAndLoop res rs) \<Longrightarrow> \<exists>ds. rs = map Inr ds"
  by (cases "dnfAndLoop res rs") (auto dest: dnfAndLoop_sound)

lemma evalDNF_foldl:
  "evalDNF (foldl dnfProduct res ds) inp \<longleftrightarrow> evalDNF res inp \<and> (\<forall>d \<in> set ds. evalDNF d inp)"
  by (induction ds arbitrary: res) auto

lemma map_Inr_children:
  assumes "map f cs = map Inr ds"
    and "\<And>c d. c \<in> set cs \<Longrightarrow> f c = Inr d \<Longrightarrow> P c = Q d"
  shows "list_all2 (\<lambda>c d. f c = Inr d \<and> P c = Q d) cs ds"
  using assms
  by (auto simp: list_all2_conv_all_nth list_eq_iff_nth_eq)

lemma toDNF_eval: "toDNF e = Inr d \<Longrightarrow> evalNode e inp \<longleftrightarrow> evalDNF d inp"
proof (induction e arbitrary: d)
  case (OpLeaf c)
  then show ?case by auto
next
  case (OpAnd cs)
  then obtain ds where ds: "map toDNF cs = map Inr ds" "d = foldl dnfProduct [[]] ds"
    using dnfAndLoop_sound by fastforce
  from OpAnd.IH have
    "list_all2 (\<lambda>c d. toDNF c = Inr d \<and> evalNode c inp = evalDNF d inp) cs ds"
    by (intro map_Inr_children [OF ds(1)]) blast
  then have "list_all (\<lambda>c. evalNode c inp) cs \<longleftrightarrow> (\<forall>d \<in> set ds. evalDNF d inp)"
    by (induction rule: list_all2_induct) auto
  then show ?case using ds(2) by (simp add: evalDNF_foldl)
next
  case (OpOr cs)
  then obtain ds where ds: "map toDNF cs = map Inr ds" "d = concat ds"
    using dnfOrLoop_sound by fastforce
  from OpOr.IH have
    "list_all2 (\<lambda>c d. toDNF c = Inr d \<and> evalNode c inp = evalDNF d inp) cs ds"
    by (intro map_Inr_children [OF ds(1)]) blast
  then have "list_ex (\<lambda>c. evalNode c inp) cs \<longleftrightarrow> evalDNF (concat ds) inp"
    by (induction rule: list_all2_induct) auto
  then show ?case using ds(2) by simp
qed

section \<open>When the normal form exists\<close>

text \<open>
  The number of conjuncts, computed without building them. It is at least one where every \<open>OpOr\<close>
  node has a child, which the parser guarantees.
\<close>

fun dnfCount :: "scope_expr \<Rightarrow> nat" where
  "dnfCount (OpLeaf c) = 1"
| "dnfCount (OpAnd cs) = prod_list (map dnfCount cs)"
| "dnfCount (OpOr cs) = sum_list (map dnfCount cs)"

fun orNonempty :: "scope_expr \<Rightarrow> bool" where
  "orNonempty (OpLeaf c) = True"
| "orNonempty (OpAnd cs) = list_all orNonempty cs"
| "orNonempty (OpOr cs) = (cs \<noteq> [] \<and> list_all orNonempty cs)"

lemma length_foldl_dnfProduct:
  "length (foldl dnfProduct res ds) = length res * prod_list (map length ds)"
  by (induction ds arbitrary: res) simp_all

lemma toDNF_length: "toDNF e = Inr d \<Longrightarrow> length d = dnfCount e"
proof (induction e arbitrary: d)
  case (OpLeaf c)
  then show ?case by auto
next
  case (OpAnd cs)
  then obtain ds where ds: "map toDNF cs = map Inr ds" "d = foldl dnfProduct [[]] ds"
    using dnfAndLoop_sound by fastforce
  from OpAnd.IH have "list_all2 (\<lambda>c d. toDNF c = Inr d \<and> dnfCount c = length d) cs ds"
    by (intro map_Inr_children [OF ds(1)]) (metis)
  then have "map dnfCount cs = map length ds"
    by (induction rule: list_all2_induct) auto
  then show ?case using ds(2) by (simp add: length_foldl_dnfProduct)
next
  case (OpOr cs)
  then obtain ds where ds: "map toDNF cs = map Inr ds" "d = concat ds"
    using dnfOrLoop_sound by fastforce
  from OpOr.IH have "list_all2 (\<lambda>c d. toDNF c = Inr d \<and> dnfCount c = length d) cs ds"
    by (intro map_Inr_children [OF ds(1)]) (metis)
  then have "map dnfCount cs = map length ds"
    by (induction rule: list_all2_induct) auto
  then show ?case using ds(2) by (simp add: length_concat)
qed

lemma dnfCount_pos: "orNonempty e \<Longrightarrow> 0 < dnfCount e"
proof (induction e)
  case (OpAnd cs)
  then have "\<forall>n \<in> set (map dnfCount cs). 0 < n" by (auto simp: list_all_iff)
  then have "prod_list (map dnfCount cs) \<noteq> 0"
    by (auto simp: prod_list_zero_iff)
  then show ?case by simp
next
  case (OpOr cs)
  then show ?case by (cases cs) auto
qed simp

lemma dnfOrLoop_ok:
  "dnfOrLoop out (map Inr ds) =
     (if length out + sum_list (map length ds) \<le> maxDNFConjuncts \<or> ds = []
      then Inr (out @ concat ds) else Inl ErrTooComplex)"
  by (induction ds arbitrary: out) auto

lemma prod_list_ge_one: "\<forall>n \<in> set ns. (0::nat) < n \<Longrightarrow> 1 \<le> prod_list ns"
  by (induction ns) (auto simp: Suc_le_eq)

lemma dnfAndLoop_ok:
  assumes "\<forall>d \<in> set ds. d \<noteq> []"
  shows "dnfAndLoop res (map Inr ds) =
     (if length res * prod_list (map length ds) \<le> maxDNFConjuncts \<or> ds = []
      then Inr (foldl dnfProduct res ds) else Inl ErrTooComplex)"
  using assms
proof (induction ds arbitrary: res)
  case (Cons d ds)
  then have ge: "1 \<le> prod_list (map length ds)"
    by (intro prod_list_ge_one) auto
  have le: "length res * length d \<le> length res * length d * prod_list (map length ds)"
    using ge by (cases "prod_list (map length ds)") auto
  show ?case
  proof (cases "maxDNFConjuncts < length (dnfProduct res d)")
    case True
    then have "maxDNFConjuncts < length res * length d * prod_list (map length ds)"
      using less_le_trans [OF _ le, of maxDNFConjuncts] by simp
    with True show ?thesis by (simp add: mult.assoc)
  next
    case False
    with Cons.IH [of "dnfProduct res d"] Cons.prems show ?thesis
      by (auto simp: mult.assoc)
  qed
qed simp

lemma all_ok_map: "\<forall>x \<in> set xs. is_ok (f x) \<Longrightarrow> \<exists>ys. map f xs = map Inr ys"
proof (induction xs)
  case (Cons x xs)
  then obtain ys y where "map f xs = map Inr ys" "f x = Inr y"
    by (cases "f x") auto
  then show ?case by (intro exI [of _ "y # ys"]) simp
qed simp

lemma prod_list_ge_member:
  "n \<in> set ns \<Longrightarrow> \<forall>k \<in> set ns. (0::nat) < k \<Longrightarrow> n \<le> prod_list ns"
proof (induction ns)
  case (Cons k ns)
  then have "1 \<le> k" and "1 \<le> prod_list ns"
    using prod_list_ge_one [of ns] by auto
  with Cons show ?case
    by (auto simp: order_trans [OF Cons.IH])
qed simp

lemma toDNF_ok_iff:
  assumes "orNonempty e"
  shows "is_ok (toDNF e) \<longleftrightarrow> dnfCount e \<le> maxDNFConjuncts"
  using assms
proof (induction e)
  case (OpLeaf c)
  then show ?case by (simp add: maxDNFConjuncts_def)
next
  case (OpAnd cs)
  have pos: "\<forall>k \<in> set (map dnfCount cs). 0 < k"
    using OpAnd.prems by (auto simp: list_all_iff dnfCount_pos)
  show ?case
  proof (cases "\<exists>ds. map toDNF cs = map Inr ds")
    case True
    then obtain ds where ds: "map toDNF cs = map Inr ds" by blast
    then have len: "map length ds = map dnfCount cs"
      by (auto simp: list_eq_iff_nth_eq intro!: toDNF_length)
    with pos have "\<forall>d \<in> set ds. d \<noteq> []"
      by (metis (no_types, opaque_lifting) image_eqI length_0_conv list.set_map less_irrefl)
    with ds len show ?thesis
      by (cases cs) (auto simp: dnfAndLoop_ok maxDNFConjuncts_def)
  next
    case False
    then have "\<not> is_ok (toDNF (OpAnd cs))"
      unfolding toDNF.simps using dnfAndLoop_children by blast
    moreover obtain c where c: "c \<in> set cs" "\<not> is_ok (toDNF c)"
      using False all_ok_map [of cs toDNF] by blast
    with OpAnd have "maxDNFConjuncts < dnfCount c" by (auto simp: list_all_iff)
    moreover have "dnfCount c \<le> dnfCount (OpAnd cs)"
      using c pos by (auto intro!: prod_list_ge_member)
    ultimately show ?thesis by simp
  qed
next
  case (OpOr cs)
  show ?case
  proof (cases "\<exists>ds. map toDNF cs = map Inr ds")
    case True
    then obtain ds where ds: "map toDNF cs = map Inr ds" by blast
    then have "map length ds = map dnfCount cs"
      by (auto simp: list_eq_iff_nth_eq intro!: toDNF_length)
    with ds OpOr.prems show ?thesis by (auto simp: dnfOrLoop_ok)
  next
    case False
    then have "\<not> is_ok (toDNF (OpOr cs))"
      unfolding toDNF.simps using dnfOrLoop_children by blast
    moreover obtain c where c: "c \<in> set cs" "\<not> is_ok (toDNF c)"
      using False all_ok_map [of cs toDNF] by blast
    with OpOr have "maxDNFConjuncts < dnfCount c" by (auto simp: list_all_iff)
    moreover have "dnfCount c \<le> dnfCount (OpOr cs)"
      using c by (auto intro!: member_le_sum_list)
    ultimately show ?thesis by simp
  qed
qed

section \<open>Properties\<close>

lemma dnfOrLoop_cap:
  "dnfOrLoop out rs = Inr d \<Longrightarrow> length out \<le> maxDNFConjuncts \<Longrightarrow> length d \<le> maxDNFConjuncts"
  by (induction out rs rule: dnfOrLoop.induct) (auto split: if_splits)

lemma dnfAndLoop_cap:
  "dnfAndLoop res rs = Inr d \<Longrightarrow> length res \<le> maxDNFConjuncts \<Longrightarrow> length d \<le> maxDNFConjuncts"
  by (induction res rs rule: dnfAndLoop.induct) (auto split: if_splits)

lemma toDNF_cap: "toDNF e = Inr d \<Longrightarrow> length d \<le> maxDNFConjuncts"
  using dnfOrLoop_cap [of "[]"] dnfAndLoop_cap [of "[[]]"]
  by (cases e) (auto simp: maxDNFConjuncts_def)

text \<open>
  (C38) Normalisation is faithful and bounded: where \<open>toDNF\<close> succeeds, a node satisfies the predicate
  exactly when it satisfies every condition of some conjunct, and there are at most
  \<open>maxDNFConjuncts\<close> conjuncts.
\<close>

theorem toDNF_faithful:
  assumes "toDNF e = Inr d"
  shows "(evalScope (Some e) inp \<longleftrightarrow> (\<exists>cj \<in> set d. \<forall>c \<in> set cj. evalCond c inp))
    \<and> length d \<le> maxDNFConjuncts"
  using toDNF_eval [OF assms, of inp] toDNF_cap [OF assms]
  by (simp add: evalDNF_iff evalConj_def list_all_iff)

theorem toDNF_faithful_witness:
  "(\<forall>inp. evalScope (Some (OpAnd [OpLeaf (inCond dimCoven [] [''a'']),
        OpOr [OpLeaf (inCond dimHost [] [''h'']), OpLeaf (newGlobCond dimHost ''w*'')]])) inp \<longleftrightarrow>
     (\<exists>cj \<in> set [[inCond dimCoven [] [''a''], inCond dimHost [] [''h'']],
                  [inCond dimCoven [] [''a''], newGlobCond dimHost ''w*'']].
        \<forall>c \<in> set cj. evalCond c inp))"
proof
  fix inp
  have "toDNF (OpAnd [OpLeaf (inCond dimCoven [] [''a'']),
      OpOr [OpLeaf (inCond dimHost [] [''h'']), OpLeaf (newGlobCond dimHost ''w*'')]]) =
    Inr [[inCond dimCoven [] [''a''], inCond dimHost [] [''h'']],
         [inCond dimCoven [] [''a''], newGlobCond dimHost ''w*'']]"
    by (simp add: dnfProduct_def maxDNFConjuncts_def)
  from toDNF_faithful [OF this, of inp]
  show "evalScope (Some (OpAnd [OpLeaf (inCond dimCoven [] [''a'']),
        OpOr [OpLeaf (inCond dimHost [] [''h'']), OpLeaf (newGlobCond dimHost ''w*'')]])) inp \<longleftrightarrow>
     (\<exists>cj \<in> set [[inCond dimCoven [] [''a''], inCond dimHost [] [''h'']],
                  [inCond dimCoven [] [''a''], newGlobCond dimHost ''w*'']].
        \<forall>c \<in> set cj. evalCond c inp)"
    by blast
qed

text \<open>
  Normalisation succeeds exactly when the number of conjuncts, computed from the tree without
  building them, fits the cap: a scope is refused as too complex for that reason alone. The
  hypothesis, no \<open>OpOr\<close> node without a child, holds of everything the parser accepts.
\<close>

theorem toDNF_succeeds_iff:
  assumes "orNonempty e"
  shows "(\<exists>d. toDNF e = Inr d) \<longleftrightarrow> dnfCount e \<le> maxDNFConjuncts"
  using toDNF_ok_iff [OF assms] by (cases "toDNF e") auto

theorem toDNF_succeeds_iff_witness:
  "orNonempty (OpAnd (replicate 9 (OpOr [OpLeaf (inCond dimHost [] [''a'']), OpLeaf (inCond dimHost [] [''b''])])))
   \<and> \<not> (\<exists>d. toDNF (OpAnd (replicate 9
          (OpOr [OpLeaf (inCond dimHost [] [''a'']), OpLeaf (inCond dimHost [] [''b''])]))) = Inr d)"
  using toDNF_succeeds_iff [of "OpAnd (replicate 9
      (OpOr [OpLeaf (inCond dimHost [] [''a'']), OpLeaf (inCond dimHost [] [''b''])]))"]
  by (simp add: maxDNFConjuncts_def list_all_iff numeral_2_eq_2 [symmetric])

end
