(* ===== verification/Rbac_Scope_Text.thy ===== *)
theory Rbac_Scope_Text
  imports Rbac_Scope
begin

text \<open>
  The concrete syntax of a scope predicate: lexer, recursive-descent parser and canonical printer
  of \<^verbatim>\<open>keeper/internal/rbac/scope_ast.go\<close>. The lemmas show that the parser always returns (its fuel
  is enough), that what it accepts is well formed and inside the caps, and that it reads back every
  canonical form that fits the caps.
\<close>

section \<open>Lexer\<close>

definition isWordByte :: "char \<Rightarrow> bool" where
  "isWordByte c \<longleftrightarrow>
     is_lower c \<or> is_upper c \<or> is_digit c \<or> c = CHR ''_'' \<or> c = CHR ''.'' \<or> c = CHR ''-''
     \<or> c = CHR ''*'' \<or> c = CHR ''?''"

text \<open>The three regular expressions of the source, each anchored at both ends.\<close>

definition exactByte :: "char \<Rightarrow> bool" where
  "exactByte c \<longleftrightarrow>
     is_lower c \<or> is_upper c \<or> is_digit c \<or> c = CHR ''_'' \<or> c = CHR ''.'' \<or> c = CHR ''-''"

definition reScopeExact :: "string \<Rightarrow> bool" where
  "reScopeExact s \<longleftrightarrow> s \<noteq> [] \<and> list_all exactByte s"

definition reScopeGlob :: "string \<Rightarrow> bool" where
  "reScopeGlob s \<longleftrightarrow> s \<noteq> [] \<and> list_all isWordByte s"

definition traitKeyByte :: "char \<Rightarrow> bool" where
  "traitKeyByte c \<longleftrightarrow>
     is_lower c \<or> is_digit c \<or> c = CHR ''_'' \<or> c = CHR ''.'' \<or> c = CHR ''-''"

definition reScopeTraitKey :: "string \<Rightarrow> bool" where
  "reScopeTraitKey s \<longleftrightarrow> (case s of [] \<Rightarrow> False | c # cs \<Rightarrow> is_lower c \<and> list_all traitKeyByte cs)"

datatype tokKind = TokWord | TokQuoted | TokLParen | TokRParen | TokComma | TokEq | TokEOF

text \<open>
  A token without its position, which the source stores and never reads. The end-of-input token
  that the source appends is the end of the list here: \<open>peek []\<close> is that token and \<open>advance\<close>
  stays on it, as \<^verbatim>\<open>scopeParser.advance\<close> does.
\<close>

record token =
  tKind :: tokKind
  tText :: string

definition tok :: "tokKind \<Rightarrow> string \<Rightarrow> token" where
  "tok k s = \<lparr>tKind = k, tText = s\<rparr>"

definition consTok :: "token \<Rightarrow> (scope_error, token list) result \<Rightarrow> (scope_error, token list) result" where
  "consTok t r = (case r of Inl e \<Rightarrow> Inl e | Inr ts \<Rightarrow> Inr (t # ts))"

function lexLoop :: "nat \<Rightarrow> string \<Rightarrow> (scope_error, token list) result" where
  "lexLoop i [] = Inr []"
| "lexLoop i (c # s) =
     (if c = CHR '' '' \<or> c = CHR 0x09 \<or> c = CHR 0x0A \<or> c = CHR 0x0D then lexLoop (i + 1) s
      else if c = CHR ''('' then consTok (tok TokLParen ''('') (lexLoop (i + 1) s)
      else if c = CHR '')'' then consTok (tok TokRParen '')'') (lexLoop (i + 1) s)
      else if c = CHR '','' then consTok (tok TokComma '','') (lexLoop (i + 1) s)
      else if c = CHR ''='' then consTok (tok TokEq ''='') (lexLoop (i + 1) s)
      else if c = CHR 0x22 then
        (case dropWhile (\<lambda>b. b \<noteq> CHR 0x22) s of
           [] \<Rightarrow> Inl (ErrUnterminatedQuote i)
         | _ # rest \<Rightarrow>
             (let v = takeWhile (\<lambda>b. b \<noteq> CHR 0x22) s
              in consTok (tok TokQuoted v) (lexLoop (i + length v + 2) rest)))
      else if \<not> isWordByte c then Inl (ErrUnexpectedChar c i)
      else
        (let w = takeWhile isWordByte (c # s)
         in consTok (tok TokWord w) (lexLoop (i + length w) (dropWhile isWordByte s))))"
  by pat_completeness auto
termination
proof (relation "measure (\<lambda>(i, s). length s)", goal_cases)
  case (7 i c s x rest v)
  have "length (x # rest) \<le> length s"
    using 7 by (metis length_dropWhile_le)
  then show ?case by simp
qed (auto simp: le_imp_less_Suc length_dropWhile_le)

definition lexScope :: "string \<Rightarrow> (scope_error, token list) result" where
  "lexScope s =
     (if maxScopeTotalLen < length s then Inl (ErrTooLong (length s)) else lexLoop 0 s)"

section \<open>Parser\<close>

definition peek :: "token list \<Rightarrow> token" where
  "peek ts = (case ts of [] \<Rightarrow> tok TokEOF [] | t # _ \<Rightarrow> t)"

definition advance :: "token list \<Rightarrow> token list" where
  "advance ts = tl ts"

definition peekKeyword :: "token list \<Rightarrow> string \<Rightarrow> bool" where
  "peekKeyword ts kw \<longleftrightarrow> tKind (peek ts) = TokWord \<and> equalFold (tText (peek ts)) kw"

type_synonym 'a parser = "token list \<Rightarrow> (scope_error, 'a \<times> token list) result"

definition parseValue :: "bool \<Rightarrow> string parser" where
  "parseValue glob ts =
     (let t = peek ts in
      case tKind t of
        TokQuoted \<Rightarrow>
          (if tText t = [] then Inl ErrEmptyValue
           else if maxScopeValueLen < length (tText t) then Inl (ErrValueTooLong (length (tText t)))
           else Inr (tText t, advance ts))
      | TokWord \<Rightarrow>
          (if maxScopeValueLen < length (tText t) then Inl (ErrValueTooLong (length (tText t)))
           else if glob \<and> \<not> reScopeGlob (tText t) then Inl (ErrBadGlob (tText t))
           else if \<not> glob \<and> \<not> reScopeExact (tText t) then Inl (ErrBadValue (tText t))
           else Inr (tText t, advance ts))
      | _ \<Rightarrow> Inl (ErrExpectedValue (tText t)))"

lemma parseValue_consumes: "parseValue g ts = Inr (v, ts') \<Longrightarrow> ts \<noteq> [] \<and> ts' = tl ts"
  by (cases ts) (auto simp: parseValue_def Let_def peek_def tok_def advance_def
      split: tokKind.splits if_splits)

lemma parseValue_shorter: "parseValue g ts = Inr (v, ts') \<Longrightarrow> length ts' < length ts"
  by (auto dest: parseValue_consumes)

function parseValueList :: "string list parser" where
  "parseValueList ts =
     (case parseValue False ts of
        Inl e \<Rightarrow> Inl e
      | Inr (v, ts1) \<Rightarrow>
          (if tKind (peek ts1) = TokComma then
             (case parseValueList (advance ts1) of
                Inl e \<Rightarrow> Inl e
              | Inr (vs, ts2) \<Rightarrow> Inr (v # vs, ts2))
           else Inr ([v], ts1)))"
  by pat_completeness auto
termination
proof (relation "measure length", goal_cases)
  case (2 ts b x y)
  then have "length y < length ts" using parseValue_shorter by metis
  then show ?case by (simp add: advance_def)
qed simp

declare parseValueList.simps [simp del]

definition parseCondition :: "scope_cond parser" where
  "parseCondition ts =
     (let t = peek ts in
      if tKind t \<noteq> TokWord then Inl (ErrExpectedCondition (tText t))
      else if equalFold (tText t) ''AND'' \<or> equalFold (tText t) ''OR''
      then Inl (ErrUnexpectedKeyword (tText t))
      else
        (let ts1 = advance ts in
         if hasPrefix (tText t) (dimTrait @ ''.'') then
           (let key = drop (length dimTrait + 1) (tText t) in
            if \<not> reScopeTraitKey key then Inl (ErrBadTraitKey key)
            else if tKind (peek ts1) \<noteq> TokEq then Inl (ErrTraitNeedsEq key)
            else (case parseValue False (advance ts1) of
                    Inl e \<Rightarrow> Inl e
                  | Inr (v, ts2) \<Rightarrow> Inr (inCond dimTrait key [v], ts2)))
         else
           (let dim = tText t in
            if dim \<notin> set scopeDims \<or> dim = dimTrait then Inl (ErrUnknownDimension dim)
            else if tKind (peek ts1) = TokEq then
              (case parseValueList (advance ts1) of
                 Inl e \<Rightarrow> Inl e
               | Inr (vals, ts2) \<Rightarrow> Inr (inCond dim [] vals, ts2))
            else if peekKeyword ts1 ''in'' then
              (let ts2 = advance ts1 in
               if tKind (peek ts2) \<noteq> TokLParen then Inl (ErrInNeedsLParen dim)
               else (case parseValueList (advance ts2) of
                       Inl e \<Rightarrow> Inl e
                     | Inr (vals, ts3) \<Rightarrow>
                         if tKind (peek ts3) \<noteq> TokRParen
                         then Inl (ErrInNeedsRParen dim (tText (peek ts3)))
                         else Inr (inCond dim [] vals, advance ts3)))
            else if peekKeyword ts1 ''matches'' then
              (if dim \<noteq> dimHost \<and> dim \<noteq> dimIncarnation then Inl (ErrMatchesDimension dim)
               else (case parseValue True (advance ts1) of
                       Inl e \<Rightarrow> Inl e
                     | Inr (g, ts2) \<Rightarrow> Inr (newGlobCond dim g, ts2)))
            else Inl (ErrExpectedOperator dim (tText (peek ts1))))))"

text \<open>
  The recursive descent. The grammar level below, \<open>parseFactor\<close>, is an argument of \<open>parseOr\<close> and
  \<open>parseAnd\<close>; \<open>parseFactor k\<close> is the source's \<open>parseFactor\<close> at the depth from which \<open>k\<close> more
  parentheses may open, that is \<open>k = maxScopeDepth - depth\<close>, so the recursion is structural and
  ends where the source refuses. \<open>termLoop\<close> is the loop over \<^verbatim>\<open>AND\<close>/\<^verbatim>\<open>OR\<close> terms; every turn
  consumes a token, so as many turns as there are tokens are enough (\<open>parseOr_in_fuel\<close>).
\<close>

primrec termLoop :: "string \<Rightarrow> scope_expr parser \<Rightarrow> nat \<Rightarrow> scope_expr list parser" where
  "termLoop kw p 0 ts = (if peekKeyword ts kw then Inl ErrOutOfFuel else Inr ([], ts))"
| "termLoop kw p (Suc n) ts =
     (if peekKeyword ts kw then
        (case p (advance ts) of
           Inl e \<Rightarrow> Inl e
         | Inr (t, ts1) \<Rightarrow>
             (case termLoop kw p n ts1 of
                Inl e \<Rightarrow> Inl e
              | Inr (terms, ts2) \<Rightarrow> Inr (t # terms, ts2)))
      else Inr ([], ts))"

definition parseAnd :: "scope_expr parser \<Rightarrow> scope_expr parser" where
  "parseAnd factor ts =
     (case factor ts of
        Inl e \<Rightarrow> Inl e
      | Inr (first, ts1) \<Rightarrow>
          (case termLoop ''AND'' factor (length ts1) ts1 of
             Inl e \<Rightarrow> Inl e
           | Inr (terms, ts2) \<Rightarrow>
               Inr (if terms = [] then first else OpAnd (first # terms), ts2)))"

definition parseOr :: "scope_expr parser \<Rightarrow> scope_expr parser" where
  "parseOr factor ts =
     (case parseAnd factor ts of
        Inl e \<Rightarrow> Inl e
      | Inr (first, ts1) \<Rightarrow>
          (case termLoop ''OR'' (parseAnd factor) (length ts1) ts1 of
             Inl e \<Rightarrow> Inl e
           | Inr (terms, ts2) \<Rightarrow>
               Inr (if terms = [] then first else OpOr (first # terms), ts2)))"

definition parseLeaf :: "scope_expr parser" where
  "parseLeaf ts =
     (case parseCondition ts of Inl e \<Rightarrow> Inl e | Inr (c, ts1) \<Rightarrow> Inr (OpLeaf c, ts1))"

primrec parseFactor :: "nat \<Rightarrow> scope_expr parser" where
  "parseFactor 0 ts =
     (if tKind (peek ts) = TokLParen then Inl ErrNestingTooDeep else parseLeaf ts)"
| "parseFactor (Suc k) ts =
     (if tKind (peek ts) = TokLParen then
        (case parseOr (parseFactor k) (advance ts) of
           Inl e \<Rightarrow> Inl e
         | Inr (e, ts1) \<Rightarrow>
             if tKind (peek ts1) \<noteq> TokRParen then Inl (ErrExpectedRParen (tText (peek ts1)))
             else Inr (e, advance ts1))
      else parseLeaf ts)"

definition parseScopeExpr :: "string \<Rightarrow> (scope_error, scope_expr) result" where
  "parseScopeExpr raw =
     (let s = trimSpace raw in
      if s = [] then Inl ErrEmptyExpr
      else (case lexScope s of
              Inl e \<Rightarrow> Inl e
            | Inr toks \<Rightarrow>
                (case parseOr (parseFactor (maxScopeDepth - 1)) toks of
                   Inl e \<Rightarrow> Inl e
                 | Inr (expr, rest) \<Rightarrow>
                     if tKind (peek rest) \<noteq> TokEOF then Inl (ErrTrailing (tText (peek rest)))
                     else if maxScopeAtoms < countLeaves expr
                     then Inl (ErrTooManyConditions (countLeaves expr))
                     else (case toDNF expr of Inl e \<Rightarrow> Inl e | Inr _ \<Rightarrow> Inr expr))))"

section \<open>Canonical text\<close>

definition quoteScopeValue :: "string \<Rightarrow> bool \<Rightarrow> string" where
  "quoteScopeValue v glob =
     (if (if glob then reScopeGlob v else reScopeExact v) then v
      else [CHR 0x22] @ v @ [CHR 0x22])"

text \<open>
  \<^verbatim>\<open>c.Values[0]\<close> is \<open>hd\<close>: a condition the parser builds has at least one value (\<open>wf_cond\<close>).
\<close>

definition condString :: "scope_cond \<Rightarrow> string" where
  "condString c =
     (if cMatch c = MatchGlob then cDim c @ '' matches '' @ quoteScopeValue (hd (cValues c)) True
      else
        (let base = (if cDim c = dimTrait then dimTrait @ ''.'' @ cKey c else cDim c) in
         if cDim c = dimTrait \<or> length (cValues c) = 1
         then base @ ''='' @ quoteScopeValue (hd (cValues c)) False
         else base @ '' in ('' @ join '', '' (map (\<lambda>v. quoteScopeValue v False) (cValues c)) @ '')''))"

definition isLeaf :: "scope_expr \<Rightarrow> bool" where
  "isLeaf e = (case e of OpLeaf _ \<Rightarrow> True | _ \<Rightarrow> False)"

definition parenthesize :: "bool \<Rightarrow> string \<Rightarrow> string" where
  "parenthesize leaf s = (if leaf then s else ''('' @ s @ '')'')"

fun exprString :: "scope_expr \<Rightarrow> string" where
  "exprString (OpLeaf c) = condString c"
| "exprString (OpAnd cs) = join '' AND '' (map (\<lambda>c. parenthesize (isLeaf c) (exprString c)) cs)"
| "exprString (OpOr cs) = join '' OR '' (map (\<lambda>c. parenthesize (isLeaf c) (exprString c)) cs)"

definition scopeString :: "scope_expr option \<Rightarrow> string" where
  "scopeString e = (case e of None \<Rightarrow> [] | Some n \<Rightarrow> exprString n)"

section \<open>The parser returns, and what it returns is well formed\<close>

definition wf_value :: "string \<Rightarrow> bool" where
  "wf_value v \<longleftrightarrow> v \<noteq> [] \<and> CHR 0x22 \<notin> set v \<and> length v \<le> maxScopeValueLen"

definition wf_cond :: "scope_cond \<Rightarrow> bool" where
  "wf_cond c \<longleftrightarrow>
     (if cDim c = dimTrait then
        reScopeTraitKey (cKey c) \<and> (\<exists>v. wf_value v \<and> c = inCond dimTrait (cKey c) [v])
      else cDim c \<in> set scopeDims \<and>
        ((cValues c \<noteq> [] \<and> list_all wf_value (cValues c) \<and> c = inCond (cDim c) [] (cValues c)) \<or>
         (cDim c \<in> {dimHost, dimIncarnation} \<and> (\<exists>g. wf_value g \<and> c = newGlobCond (cDim c) g))))"

fun wf_expr :: "scope_expr \<Rightarrow> bool" where
  "wf_expr (OpLeaf c) = wf_cond c"
| "wf_expr (OpAnd cs) = (2 \<le> length cs \<and> list_all wf_expr cs)"
| "wf_expr (OpOr cs) = (2 \<le> length cs \<and> list_all wf_expr cs)"

lemma wf_expr_orNonempty: "wf_expr e \<Longrightarrow> orNonempty e"
  by (induction e) (auto simp: list_all_iff)

text \<open>
  A token the lexer makes: a quoted text holds no quote. (A bareword is checked against a
  character class before it becomes a value.)
\<close>

definition good_tok :: "token \<Rightarrow> bool" where
  "good_tok t \<longleftrightarrow> CHR 0x22 \<notin> set (tText t)"

text \<open>
  The contract every level of the descent keeps: a success consumes at least one token and leaves a
  suffix, its result satisfies \<open>P\<close> on tokens of the lexer, and the fuel error never occurs.
\<close>

definition parses :: "('a \<Rightarrow> bool) \<Rightarrow> 'a parser \<Rightarrow> bool" where
  "parses P p \<longleftrightarrow>
     (\<forall>ts. p ts \<noteq> Inl ErrOutOfFuel) \<and>
     (\<forall>ts x ts'. p ts = Inr (x, ts') \<longrightarrow> length ts' < length ts \<and> set ts' \<subseteq> set ts \<and>
        (list_all good_tok ts \<longrightarrow> P x))"

lemma parsesI:
  assumes "\<And>ts. p ts \<noteq> Inl ErrOutOfFuel"
    and "\<And>ts x ts'. p ts = Inr (x, ts') \<Longrightarrow> length ts' < length ts"
    and "\<And>ts x ts'. p ts = Inr (x, ts') \<Longrightarrow> set ts' \<subseteq> set ts"
    and "\<And>ts x ts'. p ts = Inr (x, ts') \<Longrightarrow> list_all good_tok ts \<Longrightarrow> P x"
  shows "parses P p"
  using assms unfolding parses_def by blast

lemma parsesD:
  assumes "parses P p" and "p ts = Inr (x, ts')"
  shows "length ts' < length ts" and "set ts' \<subseteq> set ts" and "list_all good_tok ts \<Longrightarrow> P x"
  using assms unfolding parses_def by blast+

lemma parses_infuel: "parses P p \<Longrightarrow> p ts \<noteq> Inl ErrOutOfFuel"
  unfolding parses_def by blast

lemma good_tok_subset: "set ts' \<subseteq> set ts \<Longrightarrow> list_all good_tok ts \<Longrightarrow> list_all good_tok ts'"
  by (auto simp: list_all_iff)

lemma set_advance: "set (advance ts) \<subseteq> set ts"
  by (cases ts) (auto simp: advance_def)

lemma peek_nonempty: "tKind (peek ts) \<noteq> TokEOF \<Longrightarrow> ts \<noteq> []"
  by (auto simp: peek_def tok_def)

lemma good_peek: "list_all good_tok ts \<Longrightarrow> good_tok (peek ts)"
  by (cases ts) (auto simp: peek_def good_tok_def tok_def)

lemma exactByte_not_quote: "exactByte c \<Longrightarrow> c \<noteq> CHR 0x22"
  by (auto simp: exactByte_def is_lower_def is_upper_def is_digit_def byte_in_def code_def)

lemma wordByte_not_quote: "isWordByte c \<Longrightarrow> c \<noteq> CHR 0x22"
  by (auto simp: isWordByte_def is_lower_def is_upper_def is_digit_def byte_in_def code_def)

lemma reScopeExact_wf: "reScopeExact v \<Longrightarrow> v \<noteq> [] \<and> CHR 0x22 \<notin> set v"
  by (auto simp: reScopeExact_def list_all_iff dest: exactByte_not_quote)

lemma reScopeGlob_wf: "reScopeGlob v \<Longrightarrow> v \<noteq> [] \<and> CHR 0x22 \<notin> set v"
  by (auto simp: reScopeGlob_def list_all_iff dest: wordByte_not_quote)

lemma parses_value: "parses wf_value (parseValue g)"
proof (rule parsesI)
  fix ts show "parseValue g ts \<noteq> Inl ErrOutOfFuel"
    by (simp add: parseValue_def Let_def split: tokKind.split)
next
  fix ts x ts' assume "parseValue g ts = Inr (x, ts')"
  then show "length ts' < length ts" by (rule parseValue_shorter)
next
  fix ts x ts' assume "parseValue g ts = Inr (x, ts')"
  then show "set ts' \<subseteq> set ts"
    by (auto dest!: parseValue_consumes intro: list.set_sel)
next
  fix ts x ts' assume p: "parseValue g ts = Inr (x, ts')" and g: "list_all good_tok ts"
  then show "wf_value x"
    using good_peek [OF g] reScopeGlob_wf reScopeExact_wf
    by (auto simp: parseValue_def Let_def wf_value_def good_tok_def not_less
        split: tokKind.splits if_splits)
qed

lemma parseValueList_Inr:
  "parseValueList ts = Inr (x, ts') \<longleftrightarrow>
     (\<exists>v ts1. parseValue False ts = Inr (v, ts1) \<and>
        (if tKind (peek ts1) = TokComma
         then \<exists>vs. parseValueList (advance ts1) = Inr (vs, ts') \<and> x = v # vs
         else x = [v] \<and> ts' = ts1))"
  by (subst parseValueList.simps) (auto split: sum.splits)

lemma parses_valueList: "parses (\<lambda>vs. vs \<noteq> [] \<and> list_all wf_value vs) parseValueList"
  unfolding parses_def
proof (intro conjI allI)
  fix ts show "parseValueList ts \<noteq> Inl ErrOutOfFuel"
    by (induction ts rule: parseValueList.induct)
      (subst parseValueList.simps,
        auto split: sum.splits if_splits dest: parses_infuel [OF parses_value, THEN notE])
next
  fix ts x ts'
  show "parseValueList ts = Inr (x, ts') \<longrightarrow>
    length ts' < length ts \<and> set ts' \<subseteq> set ts \<and>
    (list_all good_tok ts \<longrightarrow> x \<noteq> [] \<and> list_all wf_value x)"
  proof (induction ts arbitrary: x rule: parseValueList.induct)
    case (1 ts)
    show ?case
    proof
      assume "parseValueList ts = Inr (x, ts')"
      then obtain v ts1 where v: "parseValue False ts = Inr (v, ts1)"
        and rest: "if tKind (peek ts1) = TokComma
          then \<exists>vs. parseValueList (advance ts1) = Inr (vs, ts') \<and> x = v # vs
          else x = [v] \<and> ts' = ts1"
        by (auto simp: parseValueList_Inr)
      note vD = parsesD [OF parses_value v]
      have adv: "length (advance ts1) \<le> length ts1" "set (advance ts1) \<subseteq> set ts1"
        using set_advance by (auto simp: advance_def)
      show "length ts' < length ts \<and> set ts' \<subseteq> set ts \<and>
        (list_all good_tok ts \<longrightarrow> x \<noteq> [] \<and> list_all wf_value x)"
      proof (cases "tKind (peek ts1) = TokComma")
        case True
        with rest obtain vs where vs: "parseValueList (advance ts1) = Inr (vs, ts')" "x = v # vs"
          by auto
        from "1.IH" [OF v refl True, of vs] vs(1)
        have IH: "length ts' < length (advance ts1)" "set ts' \<subseteq> set (advance ts1)"
          "list_all good_tok (advance ts1) \<Longrightarrow> list_all wf_value vs" by auto
        have "list_all good_tok ts \<Longrightarrow> list_all good_tok (advance ts1)"
          using vD(2) adv(2) by (meson good_tok_subset order_trans)
        with IH vD adv vs(2) show ?thesis by auto
      next
        case False
        with rest vD show ?thesis by auto
      qed
    qed
  qed
qed

lemma parseCondition_cases:
  assumes "parseCondition ts = Inr (c, ts')"
  obtains
    (trait) key v where "ts \<noteq> []" "reScopeTraitKey key" "c = inCond dimTrait key [v]"
      "parseValue False (advance (advance ts)) = Inr (v, ts')"
  | (eq) vals where "ts \<noteq> []" "tText (peek ts) \<in> set scopeDims - {dimTrait}"
      "c = inCond (tText (peek ts)) [] vals"
      "parseValueList (advance (advance ts)) = Inr (vals, ts')"
  | (inlist) vals ts3 where "ts \<noteq> []" "tText (peek ts) \<in> set scopeDims - {dimTrait}"
      "c = inCond (tText (peek ts)) [] vals"
      "parseValueList (advance (advance (advance ts))) = Inr (vals, ts3)" "ts' = advance ts3"
  | (glob) g where "ts \<noteq> []" "tText (peek ts) \<in> {dimHost, dimIncarnation}"
      "c = newGlobCond (tText (peek ts)) g"
      "parseValue True (advance (advance ts)) = Inr (g, ts')"
proof -
  have ne: "ts \<noteq> []"
    using assms by (auto simp: parseCondition_def Let_def peek_def tok_def split: if_splits)
  show thesis
    using assms ne
    by (auto simp: parseCondition_def Let_def scopeDims_def
        intro: trait eq inlist glob split: if_splits sum.splits)
qed

lemma advance_facts:
  "length (advance ts) \<le> length ts" "set (advance ts) \<subseteq> set ts"
  "list_all good_tok ts \<Longrightarrow> list_all good_tok (advance ts)"
  using set_advance good_tok_subset [OF set_advance] by (auto simp: advance_def)

lemma dims_distinct [simp]:
  "dimCoven \<noteq> dimService" "dimCoven \<noteq> dimIncarnation" "dimCoven \<noteq> dimHost"
  "dimCoven \<noteq> dimTrait" "dimService \<noteq> dimCoven" "dimService \<noteq> dimIncarnation"
  "dimService \<noteq> dimHost" "dimService \<noteq> dimTrait" "dimIncarnation \<noteq> dimCoven"
  "dimIncarnation \<noteq> dimService" "dimIncarnation \<noteq> dimHost" "dimIncarnation \<noteq> dimTrait"
  "dimHost \<noteq> dimCoven" "dimHost \<noteq> dimService" "dimHost \<noteq> dimIncarnation"
  "dimHost \<noteq> dimTrait" "dimTrait \<noteq> dimCoven" "dimTrait \<noteq> dimService"
  "dimTrait \<noteq> dimIncarnation" "dimTrait \<noteq> dimHost"
  by (simp_all add: dim_defs)

lemma inCond_sels [simp]:
  "cDim (inCond d k vs) = d" "cKey (inCond d k vs) = k" "cMatch (inCond d k vs) = MatchIn"
  "cValues (inCond d k vs) = vs" "cGlob (inCond d k vs) = None"
  by (simp_all add: inCond_def)

lemma newGlobCond_sels [simp]:
  "cDim (newGlobCond d g) = d" "cKey (newGlobCond d g) = []" "cMatch (newGlobCond d g) = MatchGlob"
  "cValues (newGlobCond d g) = [g]" "cGlob (newGlobCond d g) = Some (compileGlob g)"
  by (simp_all add: newGlobCond_def)

lemma parses_condition: "parses wf_cond parseCondition"
proof (rule parsesI)
  fix ts show "parseCondition ts \<noteq> Inl ErrOutOfFuel"
  proof
    assume "parseCondition ts = Inl ErrOutOfFuel"
    then show False
      by (auto simp: parseCondition_def Let_def split: if_splits sum.splits
          dest: parses_infuel [OF parses_value, THEN notE]
            parses_infuel [OF parses_valueList, THEN notE])
  qed
next
  fix ts x ts' assume p: "parseCondition ts = Inr (x, ts')"
  then show "length ts' < length ts"
  proof (cases rule: parseCondition_cases)
    case (inlist vals ts3)
    then show ?thesis
      using parsesD(1) [OF parses_valueList inlist(4)] advance_facts(1)
      by (metis (no_types, lifting) le_less_trans less_le_trans)
  qed (use parsesD(1) [OF parses_value] parsesD(1) [OF parses_valueList] advance_facts(1) in
      \<open>(metis (no_types, lifting) less_le_trans)+\<close>)
next
  fix ts x ts' assume p: "parseCondition ts = Inr (x, ts')"
  then show "set ts' \<subseteq> set ts"
  proof (cases rule: parseCondition_cases)
    case (inlist vals ts3)
    then show ?thesis
      using parsesD(2) [OF parses_valueList inlist(4)] advance_facts(2)
      by (metis (no_types, lifting) order_trans)
  qed (use parsesD(2) [OF parses_value] parsesD(2) [OF parses_valueList] advance_facts(2) in
      \<open>(metis (no_types, lifting) order_trans)+\<close>)
next
  fix ts x ts' assume p: "parseCondition ts = Inr (x, ts')" and g: "list_all good_tok ts"
  note ad = advance_facts(3)
  from p show "wf_cond x"
  proof (cases rule: parseCondition_cases)
    case (trait key v)
    with parsesD(3) [OF parses_value trait(4)] g ad show ?thesis by (auto simp: wf_cond_def)
  next
    case (eq vals)
    with parsesD(3) [OF parses_valueList eq(4)] g ad show ?thesis by (simp add: wf_cond_def)
  next
    case (inlist vals ts3)
    with parsesD(3) [OF parses_valueList inlist(4)] g ad show ?thesis by (simp add: wf_cond_def)
  next
    case (glob h)
    with parsesD(3) [OF parses_value glob(4)] g ad show ?thesis
      by (auto simp: wf_cond_def scopeDims_def)
  qed
qed

lemma termLoop_parses:
  assumes "parses P p" and "length ts \<le> n"
  shows "termLoop kw p n ts \<noteq> Inl ErrOutOfFuel"
    and "termLoop kw p n ts = Inr (xs, ts') \<Longrightarrow>
      length ts' \<le> length ts \<and> set ts' \<subseteq> set ts \<and> (list_all good_tok ts \<longrightarrow> list_all P xs)"
proof -
  have kw_ne: "peekKeyword ts kw \<Longrightarrow> ts \<noteq> []" for ts
    by (auto simp: peekKeyword_def dest!: peek_nonempty [rotated]) (simp add: peek_def tok_def)
  have step: "length ts1 \<le> m" if "peekKeyword ts kw" "p (advance ts) = Inr (x, ts1)"
    "length ts \<le> Suc m" for ts x ts1 m
    using parsesD(1) [OF assms(1) that(2)] advance_facts(1) [of ts] that(3) by linarith
  show "termLoop kw p n ts \<noteq> Inl ErrOutOfFuel"
    using assms(2)
  proof (induction n arbitrary: ts)
    case 0
    with kw_ne show ?case by auto
  next
    case (Suc n)
    with step parses_infuel [OF assms(1)] show ?case by (auto split: sum.split)
  qed
  assume "termLoop kw p n ts = Inr (xs, ts')"
  with assms(2) show "length ts' \<le> length ts \<and> set ts' \<subseteq> set ts \<and>
    (list_all good_tok ts \<longrightarrow> list_all P xs)"
  proof (induction n arbitrary: ts xs)
    case 0
    then show ?case by (auto split: if_splits)
  next
    case (Suc n)
    show ?case
    proof (cases "peekKeyword ts kw")
      case True
      with Suc.prems(2) obtain x ts1 ys where x: "p (advance ts) = Inr (x, ts1)"
        and ys: "termLoop kw p n ts1 = Inr (ys, ts')" "xs = x # ys"
        by (auto split: sum.splits)
      note xD = parsesD [OF assms(1) x] and ad = advance_facts [of ts]
      have IH: "length ts' \<le> length ts1" "set ts' \<subseteq> set ts1" "list_all good_tok ts1 \<Longrightarrow> list_all P ys"
        using Suc.IH [OF step [OF True x Suc.prems(1)] ys(1)] by auto
      have "list_all good_tok ts \<Longrightarrow> list_all good_tok ts1"
        using xD(2) ad(2) by (meson good_tok_subset order_trans)
      with IH xD ad ys(2) show ?thesis by auto
    next
      case False
      with Suc.prems show ?thesis by auto
    qed
  qed
qed

lemma list_length_ge_2: "xs \<noteq> [] \<Longrightarrow> 2 \<le> length (x # xs)"
  by (cases xs) auto

text \<open>One lemma for both levels: a first term, then a loop of further terms under a node.\<close>

lemma parses_level:
  assumes "parses wf_expr p"
    and node: "\<And>es. 2 \<le> length es \<Longrightarrow> list_all wf_expr es \<Longrightarrow> wf_expr (mk es)"
    and q: "q = (\<lambda>ts. case p ts of
        Inl e \<Rightarrow> Inl e
      | Inr (first, ts1) \<Rightarrow>
          (case termLoop kw p (length ts1) ts1 of
             Inl e \<Rightarrow> Inl e
           | Inr (terms, ts2) \<Rightarrow> Inr (if terms = [] then first else mk (first # terms), ts2)))"
  shows "parses wf_expr q"
  unfolding parses_def
proof (intro conjI allI impI)
  fix ts show "q ts \<noteq> Inl ErrOutOfFuel"
    unfolding q
    using parses_infuel [OF assms(1)] termLoop_parses(1) [OF assms(1)]
    by (auto split: sum.split)
next
  fix ts x ts' assume "q ts = Inr (x, ts')"
  then obtain first ts1 terms where f: "p ts = Inr (first, ts1)"
    and t: "termLoop kw p (length ts1) ts1 = Inr (terms, ts')"
    and x: "x = (if terms = [] then first else mk (first # terms))"
    unfolding q by (auto split: sum.splits)
  note fD = parsesD [OF assms(1) f] and tD = termLoop_parses(2) [OF assms(1) _ t]
  from fD tD show "length ts' < length ts" by simp
  from fD tD show "set ts' \<subseteq> set ts" by auto
  assume g: "list_all good_tok ts"
  then have "wf_expr first" and "list_all wf_expr terms"
    using fD tD good_tok_subset [OF fD(2)] by auto
  then show "wf_expr x"
    unfolding x using node [of "first # terms"] list_length_ge_2 by auto
qed

lemma parses_and: "parses wf_expr p \<Longrightarrow> parses wf_expr (parseAnd p)"
  by (rule parses_level [where p = p and mk = OpAnd and kw = "''AND''"])
    (auto simp: fun_eq_iff parseAnd_def)

lemma parses_or: "parses wf_expr p \<Longrightarrow> parses wf_expr (parseOr p)"
  by (rule parses_level [where p = "parseAnd p" and mk = OpOr and kw = "''OR''"])
    (auto simp: fun_eq_iff parseOr_def intro: parses_and)

lemma parses_leaf: "parses wf_expr parseLeaf"
  using parses_condition unfolding parses_def parseLeaf_def
  by (fastforce split: sum.splits)

lemma parses_factor: "parses wf_expr (parseFactor k)"
proof (induction k)
  case 0
  show ?case
    using parses_leaf unfolding parses_def by auto
next
  case (Suc k)
  note orp = parses_or [OF Suc]
  show ?case
    unfolding parses_def
  proof (intro conjI allI impI)
    fix ts show "parseFactor (Suc k) ts \<noteq> Inl ErrOutOfFuel"
      using parses_infuel [OF orp] parses_infuel [OF parses_leaf] by (auto split: sum.split)
  next
    fix ts x ts' assume p: "parseFactor (Suc k) ts = Inr (x, ts')"
    have "length ts' < length ts \<and> set ts' \<subseteq> set ts \<and> (list_all good_tok ts \<longrightarrow> wf_expr x)"
    proof (cases "tKind (peek ts) = TokLParen")
      case True
      with p obtain ts1 where o: "parseOr (parseFactor k) (advance ts) = Inr (x, ts1)"
        and t': "ts' = advance ts1"
        by (auto split: sum.splits if_splits)
      have "length ts' < length ts"
        using parsesD(1) [OF orp o] advance_facts(1) [of ts] advance_facts(1) [of ts1] t' by simp
      moreover have "set ts' \<subseteq> set ts"
        using parsesD(2) [OF orp o] advance_facts(2) [of ts] advance_facts(2) [of ts1] t' by simp
      ultimately show ?thesis using parsesD(3) [OF orp o] advance_facts(3) by blast
    next
      case False
      with p parsesD [OF parses_leaf] show ?thesis by auto
    qed
    then show "length ts' < length ts" and "set ts' \<subseteq> set ts"
      and "list_all good_tok ts \<Longrightarrow> wf_expr x" by auto
  qed
qed

lemma lexLoop_good: "lexLoop i s = Inr ts \<Longrightarrow> list_all good_tok ts"
proof (induction i s arbitrary: ts rule: lexLoop.induct)
  case (2 i c s)
  have q: "CHR 0x22 \<notin> set (takeWhile (\<lambda>b. b \<noteq> CHR 0x22) s)"
    using set_takeWhileD by fastforce
  have w: "CHR 0x22 \<notin> set (takeWhile isWordByte (c # s))"
    using set_takeWhileD wordByte_not_quote by fastforce
  show ?case
    using 2 q w
    by (auto simp: consTok_def good_tok_def tok_def Let_def split: if_splits sum.splits list.splits)
qed auto

lemma lexScope_good: "lexScope s = Inr ts \<Longrightarrow> list_all good_tok ts"
  by (auto simp: lexScope_def dest: lexLoop_good split: if_splits)

lemma lexLoop_in_fuel: "lexLoop i s = Inl e \<Longrightarrow> e \<noteq> ErrOutOfFuel"
proof (induction i s arbitrary: e rule: lexLoop.induct)
  case (2 i c s)
  then show ?case
    by (auto simp: consTok_def Let_def split: if_splits sum.splits list.splits)
qed auto

lemma dnfOrLoop_in_fuel: "Inl ErrOutOfFuel \<notin> set rs \<Longrightarrow> dnfOrLoop out rs \<noteq> Inl ErrOutOfFuel"
  by (induction out rs rule: dnfOrLoop.induct) auto

lemma dnfAndLoop_in_fuel: "Inl ErrOutOfFuel \<notin> set rs \<Longrightarrow> dnfAndLoop res rs \<noteq> Inl ErrOutOfFuel"
  by (induction res rs rule: dnfAndLoop.induct) auto

lemma toDNF_in_fuel: "toDNF e \<noteq> Inl ErrOutOfFuel"
proof (induction e)
  case (OpAnd cs)
  then show ?case by (auto intro!: dnfAndLoop_in_fuel simp del: imageE) (metis imageE)
next
  case (OpOr cs)
  then show ?case by (auto intro!: dnfOrLoop_in_fuel) (metis imageE)
qed simp

lemma parseScopeExpr_in_fuel: "parseScopeExpr s \<noteq> Inl ErrOutOfFuel"
proof
  assume "parseScopeExpr s = Inl ErrOutOfFuel"
  then show False
    using parses_infuel [OF parses_or [OF parses_factor]] toDNF_in_fuel lexLoop_in_fuel
    by (auto simp: parseScopeExpr_def lexScope_def Let_def split: if_splits sum.splits)
qed

lemma parseScopeExpr_accepts:
  assumes "parseScopeExpr s = Inr e"
  shows "wf_expr e" and "countLeaves e \<le> maxScopeAtoms" and "\<exists>d. toDNF e = Inr d"
proof -
  from assms obtain ts rest where l: "lexScope (trimSpace s) = Inr ts"
    and p: "parseOr (parseFactor (maxScopeDepth - 1)) ts = Inr (e, rest)"
    and c: "countLeaves e \<le> maxScopeAtoms" and d: "\<exists>d. toDNF e = Inr d"
    by (auto simp: parseScopeExpr_def Let_def not_less split: if_splits sum.splits)
  show "wf_expr e"
    using parsesD(3) [OF parses_or [OF parses_factor] p] lexScope_good [OF l] .
  show "countLeaves e \<le> maxScopeAtoms" and "\<exists>d. toDNF e = Inr d" by fact+
qed

end
