(* ===== verification/Rbac_Scope_Roundtrip.thy ===== *)
theory Rbac_Scope_Roundtrip
  imports Rbac_Scope_Text
begin

text \<open>
  The canonical text of a scope predicate reads back as the predicate itself, whenever it fits the
  caps of the parser: the printer and the lexer agree token by token, and the descent rebuilds the
  tree from those tokens. Two predicates with the same canonical text are therefore equal, which is
  what the code relies on wherever it removes duplicates by canonical text.
\<close>

section \<open>The tokens of the canonical text\<close>

definition word :: "string \<Rightarrow> token" where
  "word s = tok TokWord s"

definition valueTok :: "string \<Rightarrow> bool \<Rightarrow> token" where
  "valueTok v glob =
     (if (if glob then reScopeGlob v else reScopeExact v) then word v else tok TokQuoted v)"

fun joinToks :: "token \<Rightarrow> token list list \<Rightarrow> token list" where
  "joinToks sep [] = []"
| "joinToks sep [x] = x"
| "joinToks sep (x # y # ys) = x @ sep # joinToks sep (y # ys)"

definition valueToks :: "string list \<Rightarrow> token list" where
  "valueToks vs = joinToks (tok TokComma '','') (map (\<lambda>v. [valueTok v False]) vs)"

definition condToks :: "scope_cond \<Rightarrow> token list" where
  "condToks c =
     (if cMatch c = MatchGlob then [word (cDim c), word ''matches'', valueTok (hd (cValues c)) True]
      else
        (let base = word (if cDim c = dimTrait then dimTrait @ ''.'' @ cKey c else cDim c) in
         if cDim c = dimTrait \<or> length (cValues c) = 1
         then [base, tok TokEq ''='', valueTok (hd (cValues c)) False]
         else [base, word ''in'', tok TokLParen ''(''] @ valueToks (cValues c) @ [tok TokRParen '')'']))"

definition parenToks :: "bool \<Rightarrow> token list \<Rightarrow> token list" where
  "parenToks leaf ts = (if leaf then ts else [tok TokLParen ''(''] @ ts @ [tok TokRParen '')''])"

fun exprToks :: "scope_expr \<Rightarrow> token list" where
  "exprToks (OpLeaf c) = condToks c"
| "exprToks (OpAnd cs) =
     joinToks (word ''AND'') (map (\<lambda>c. parenToks (isLeaf c) (exprToks c)) cs)"
| "exprToks (OpOr cs) =
     joinToks (word ''OR'') (map (\<lambda>c. parenToks (isLeaf c) (exprToks c)) cs)"

section \<open>The lexer on the canonical text\<close>

definition delim :: "string \<Rightarrow> bool" where
  "delim s \<longleftrightarrow> (case s of [] \<Rightarrow> True | c # _ \<Rightarrow> \<not> isWordByte c)"

definition consToks :: "token list \<Rightarrow> (scope_error, token list) result \<Rightarrow> (scope_error, token list) result" where
  "consToks ts r = (case r of Inl e \<Rightarrow> Inl e | Inr us \<Rightarrow> Inr (ts @ us))"

text \<open>
  \<open>lexes s ts\<close>: the text \<open>s\<close> gives the tokens \<open>ts\<close> wherever a delimiter follows it;
  \<open>lexes_closed\<close> wherever anything follows it.
\<close>

definition lexes :: "string \<Rightarrow> token list \<Rightarrow> bool" where
  "lexes s ts \<longleftrightarrow>
     (\<forall>i rest. delim rest \<longrightarrow> (\<exists>j. lexLoop i (s @ rest) = consToks ts (lexLoop j rest)))"

definition lexes_closed :: "string \<Rightarrow> token list \<Rightarrow> bool" where
  "lexes_closed s ts \<longleftrightarrow> (\<forall>i rest. \<exists>j. lexLoop i (s @ rest) = consToks ts (lexLoop j rest))"

lemma consToks_simps [simp]:
  "consToks [] r = r" "consTok t r = consToks [t] r"
  "consToks ts (consToks us r) = consToks (ts @ us) r"
  by (auto simp: consToks_def consTok_def split: sum.split)

lemma lexes_closed_lexes: "lexes_closed s ts \<Longrightarrow> lexes s ts"
  by (simp add: lexes_closed_def lexes_def)

lemma lexes_append:
  assumes "lexes s ts" and "lexes s' ts'" and "delim s'" and "s' \<noteq> []"
  shows "lexes (s @ s') (ts @ ts')"
  unfolding lexes_def
proof (intro allI impI)
  fix i and rest :: string assume "delim rest"
  have "delim (s' @ rest)" using assms(3,4) by (cases s') (auto simp: delim_def)
  then obtain j where "lexLoop i (s @ s' @ rest) = consToks ts (lexLoop j (s' @ rest))"
    using assms(1) unfolding lexes_def by blast
  moreover obtain k where "lexLoop j (s' @ rest) = consToks ts' (lexLoop k rest)"
    using assms(2) \<open>delim rest\<close> unfolding lexes_def by blast
  ultimately show "\<exists>j. lexLoop i ((s @ s') @ rest) = consToks (ts @ ts') (lexLoop j rest)"
    by auto
qed

lemma lexes_closed_append:
  assumes "lexes_closed s ts" and "lexes s' ts'"
  shows "lexes (s @ s') (ts @ ts')"
  using assms unfolding lexes_closed_def lexes_def
  by (metis append_assoc consToks_simps(3))

lemma lexes_append_closed:
  assumes "lexes s ts" and "lexes_closed s' ts'" and "delim s'" and "s' \<noteq> []"
  shows "lexes_closed (s @ s') (ts @ ts')"
  unfolding lexes_closed_def
proof (intro allI)
  fix i and rest :: string
  have "delim (s' @ rest)" using assms(3,4) by (cases s') (auto simp: delim_def)
  then obtain j where "lexLoop i (s @ s' @ rest) = consToks ts (lexLoop j (s' @ rest))"
    using assms(1) unfolding lexes_def by blast
  moreover obtain k where "lexLoop j (s' @ rest) = consToks ts' (lexLoop k rest)"
    using assms(2) unfolding lexes_closed_def by blast
  ultimately show "\<exists>j. lexLoop i ((s @ s') @ rest) = consToks (ts @ ts') (lexLoop j rest)"
    by auto
qed

lemma wordByte_plain:
  "isWordByte c \<Longrightarrow> c \<noteq> CHR '' '' \<and> c \<noteq> CHR 0x09 \<and> c \<noteq> CHR 0x0A \<and> c \<noteq> CHR 0x0D \<and>
     c \<noteq> CHR ''('' \<and> c \<noteq> CHR '')'' \<and> c \<noteq> CHR '','' \<and> c \<noteq> CHR ''='' \<and> c \<noteq> CHR 0x22"
  by (auto simp: isWordByte_def is_lower_def is_upper_def is_digit_def byte_in_def code_def)

lemma lexes_word:
  assumes "w \<noteq> []" and "list_all isWordByte w"
  shows "lexes w [word w]"
  unfolding lexes_def
proof (intro allI impI)
  fix i and rest :: string assume rest: "delim rest"
  obtain c w' where w: "w = c # w'" using assms(1) by (cases w) auto
  have c: "isWordByte c" and w': "\<forall>b \<in> set w'. isWordByte b"
    using assms(2) w by (auto simp: list_all_iff)
  have t: "takeWhile isWordByte (w' @ rest) = w'" and d: "dropWhile isWordByte (w' @ rest) = rest"
    using w' rest by (auto simp: delim_def takeWhile_append dropWhile_append split: list.splits)
  show "\<exists>j. lexLoop i (w @ rest) = consToks [word w] (lexLoop j rest)"
    using c t d wordByte_plain [OF c] by (auto simp: w word_def)
qed

lemma lexes_quoted:
  assumes "CHR 0x22 \<notin> set v"
  shows "lexes_closed ([CHR 0x22] @ v @ [CHR 0x22]) [tok TokQuoted v]"
  unfolding lexes_closed_def
proof (intro allI)
  fix i rest
  have v: "\<forall>b \<in> set v. b \<noteq> CHR 0x22" using assms by auto
  have t: "takeWhile (\<lambda>b. b \<noteq> CHR 0x22) (v @ CHR 0x22 # rest) = v"
    and d: "dropWhile (\<lambda>b. b \<noteq> CHR 0x22) (v @ CHR 0x22 # rest) = CHR 0x22 # rest"
    using v by (auto simp: takeWhile_append dropWhile_append)
  show "\<exists>j. lexLoop i (([CHR 0x22] @ v @ [CHR 0x22]) @ rest) =
      consToks [tok TokQuoted v] (lexLoop j rest)"
    by (auto simp: t d Let_def)
qed

lemma lexes_punct:
  "lexes_closed '' '' []" "lexes_closed ''='' [tok TokEq ''='']" "lexes_closed '','' [tok TokComma '','']"
  "lexes_closed ''('' [tok TokLParen ''('']" "lexes_closed '')'' [tok TokRParen '')'']"
  unfolding lexes_closed_def by auto

lemma exactByte_word: "exactByte c \<Longrightarrow> isWordByte c"
  by (auto simp: exactByte_def isWordByte_def)

lemma traitKeyByte_word: "traitKeyByte c \<Longrightarrow> isWordByte c"
  by (auto simp: traitKeyByte_def isWordByte_def)

lemma traitKey_word:
  "reScopeTraitKey k \<Longrightarrow> list_all isWordByte k"
  by (auto simp: reScopeTraitKey_def list_all_iff isWordByte_def traitKeyByte_def split: list.splits)

lemma keyword_bytes:
  "list_all isWordByte ''AND''" "list_all isWordByte ''OR''" "list_all isWordByte ''in''"
  "list_all isWordByte ''matches''" "list_all isWordByte (dimTrait @ ''.'')"
  by (simp_all add: dim_defs isWordByte_def is_lower_def is_upper_def byte_in_def code_def)

lemma dim_bytes: "d \<in> set scopeDims \<Longrightarrow> d \<noteq> [] \<and> list_all isWordByte d"
  by (auto simp: scopeDims_def dim_defs isWordByte_def is_lower_def byte_in_def code_def)

lemma lexes_value: "wf_value v \<Longrightarrow> lexes (quoteScopeValue v g) [valueTok v g]"
  using lexes_word [of v] lexes_closed_lexes [OF lexes_quoted, of v]
  by (auto simp: quoteScopeValue_def valueTok_def wf_value_def reScopeExact_def reScopeGlob_def
      list_all_iff exactByte_word)

lemma lexes_Nil: "lexes [] []"
  by (auto simp: lexes_def)

lemma lexes_join:
  assumes "lexes_closed sep [t]" and "delim sep" and "sep \<noteq> []"
    and "list_all2 lexes xs tss"
  shows "lexes (join sep xs) (joinToks t tss)"
  using assms(4)
proof (induction xs tss rule: list_all2_induct)
  case Nil
  show ?case by (simp add: lexes_Nil)
next
  case (Cons x xs ts tss)
  show ?case
  proof (cases xs)
    case Nil
    with Cons show ?thesis by simp
  next
    case (Cons y ys)
    then obtain us uss where tss: "tss = us # uss"
      using Cons.hyps(2) by (cases tss) auto
    have "lexes (sep @ join sep xs) ([t] @ joinToks t tss)"
      using assms(1) Cons.IH by (rule lexes_closed_append)
    moreover have "delim (sep @ join sep xs)" and "sep @ join sep xs \<noteq> []"
      using assms(2,3) by (auto simp: delim_def split: list.splits)
    ultimately have "lexes (x @ sep @ join sep xs) (ts @ [t] @ joinToks t tss)"
      using lexes_append [OF Cons.hyps(1)] by blast
    then show ?thesis by (simp add: Cons tss)
  qed
qed

lemma lexes_sep:
  assumes "w \<noteq> []" and "list_all isWordByte w"
  shows "lexes_closed ('' '' @ w @ '' '') [word w]"
proof -
  have "lexes_closed (w @ '' '') ([word w] @ [])"
    by (rule lexes_append_closed [OF lexes_word [OF assms] lexes_punct(1)])
      (auto simp: delim_def isWordByte_def is_lower_def is_upper_def is_digit_def byte_in_def code_def)
  then show ?thesis
    using lexes_punct(1) unfolding lexes_closed_def by auto
qed

lemma delim_chars:
  "delim (CHR '' '' # s)" "delim (CHR ''='' # s)" "delim (CHR '','' # s)" "delim (CHR '')'' # s)"
  by (auto simp: delim_def isWordByte_def is_lower_def is_upper_def is_digit_def byte_in_def code_def)

lemma lexes_values:
  assumes "list_all wf_value vs"
  shows "lexes (join '', '' (map (\<lambda>v. quoteScopeValue v False) vs)) (valueToks vs)"
  unfolding valueToks_def
proof (rule lexes_join)
  show "lexes_closed '', '' [tok TokComma '','']"
    using lexes_punct(1,3) unfolding lexes_closed_def by auto
  show "list_all2 lexes (map (\<lambda>v. quoteScopeValue v False) vs) (map (\<lambda>v. [valueTok v False]) vs)"
    using assms by (auto simp: list_all2_conv_all_nth list_all_length lexes_value)
qed (auto simp: delim_chars)

lemma lexes_eq:
  assumes "w \<noteq> []" and "list_all isWordByte w" and "wf_value v"
  shows "lexes (w @ ''='' @ quoteScopeValue v g) [word w, tok TokEq ''='', valueTok v g]"
proof -
  have "lexes (''='' @ quoteScopeValue v g) ([tok TokEq ''=''] @ [valueTok v g])"
    by (rule lexes_closed_append [OF lexes_punct(2) lexes_value [OF assms(3)]])
  from lexes_append [OF lexes_word [OF assms(1,2)] this] show ?thesis
    by (simp add: delim_chars)
qed

lemma lexes_matches:
  assumes "w \<noteq> []" and "list_all isWordByte w" and "wf_value v"
  shows "lexes (w @ '' matches '' @ quoteScopeValue v True) [word w, word ''matches'', valueTok v True]"
proof -
  have "lexes ('' matches '' @ quoteScopeValue v True) ([word ''matches''] @ [valueTok v True])"
    using lexes_closed_append [OF lexes_sep lexes_value [OF assms(3)], of "''matches''"] keyword_bytes
    by simp
  from lexes_append [OF lexes_word [OF assms(1,2)] this] show ?thesis
    by (simp add: delim_chars)
qed

lemma lexes_in:
  assumes "w \<noteq> []" and "list_all isWordByte w" and "list_all wf_value vs"
  shows "lexes (w @ '' in ('' @ join '', '' (map (\<lambda>v. quoteScopeValue v False) vs) @ '')'')
     ([word w, word ''in'', tok TokLParen ''(''] @ valueToks vs @ [tok TokRParen '')''])"
proof -
  let ?vs = "join '', '' (map (\<lambda>v. quoteScopeValue v False) vs)"
  have "lexes (?vs @ '')'') (valueToks vs @ [tok TokRParen '')''])"
    by (rule lexes_append [OF lexes_values [OF assms(3)] lexes_closed_lexes [OF lexes_punct(5)]])
      (auto simp: delim_chars)
  from lexes_closed_append [OF lexes_punct(4) this]
  have "lexes (''('' @ ?vs @ '')'') ([tok TokLParen ''(''] @ valueToks vs @ [tok TokRParen '')''])" .
  from lexes_closed_append [OF lexes_sep this, of "''in''"] keyword_bytes
  have "lexes ('' in ('' @ ?vs @ '')'')
      ([word ''in'', tok TokLParen ''(''] @ valueToks vs @ [tok TokRParen '')''])" by simp
  from lexes_append [OF lexes_word [OF assms(1,2)] this] show ?thesis
    by (simp add: delim_chars)
qed

lemma wf_cond_cases:
  assumes "wf_cond c"
  obtains
    (trait) k v where "c = inCond dimTrait k [v]" "reScopeTraitKey k" "wf_value v"
  | (inlist) d vs where "c = inCond d [] vs" "d \<in> set scopeDims" "d \<noteq> dimTrait" "vs \<noteq> []"
      "list_all wf_value vs"
  | (glob) d g where "c = newGlobCond d g" "d \<in> {dimHost, dimIncarnation}" "wf_value g"
  using assms unfolding wf_cond_def by (auto split: if_splits)

lemma lexes_cond:
  assumes "wf_cond c"
  shows "lexes (condString c) (condToks c)"
  using assms
proof (cases rule: wf_cond_cases)
  case (trait k v)
  then show ?thesis
    using lexes_eq [of "dimTrait @ ''.'' @ k" v False] traitKey_word [of k] keyword_bytes(5)
    by (simp add: condString_def condToks_def)
next
  case (inlist d vs)
  then show ?thesis
    using lexes_eq [of d "hd vs" False] lexes_in [of d vs] dim_bytes [of d]
    by (cases vs) (auto simp: condString_def condToks_def)
next
  case (glob d g)
  then have "d \<in> set scopeDims" by (auto simp: scopeDims_def)
  with glob show ?thesis
    using lexes_matches [of d g] dim_bytes [of d]
    by (simp add: condString_def condToks_def)
qed

lemma lexes_paren:
  assumes "lexes s ts"
  shows "lexes (parenthesize l s) (parenToks l ts)"
proof -
  have "lexes (s @ '')'') (ts @ [tok TokRParen '')''])"
    by (rule lexes_append [OF assms lexes_closed_lexes [OF lexes_punct(5)]])
      (auto simp: delim_chars)
  from lexes_closed_append [OF lexes_punct(4) this] assms show ?thesis
    by (simp add: parenthesize_def parenToks_def)
qed

lemma lexes_children:
  assumes "\<And>c. c \<in> set cs \<Longrightarrow> lexes (exprString c) (exprToks c)" and "w \<noteq> []" and "list_all isWordByte w"
  shows "lexes (join ('' '' @ w @ '' '') (map (\<lambda>c. parenthesize (isLeaf c) (exprString c)) cs))
     (joinToks (word w) (map (\<lambda>c. parenToks (isLeaf c) (exprToks c)) cs))"
  by (rule lexes_join [OF lexes_sep [OF assms(2,3)]])
    (auto simp: delim_chars list_all2_conv_all_nth intro!: lexes_paren assms(1))

lemma lexes_expr: "wf_expr e \<Longrightarrow> lexes (exprString e) (exprToks e)"
proof (induction e)
  case (OpLeaf c)
  then show ?case by (simp add: lexes_cond)
next
  case (OpAnd cs)
  then show ?case
    using lexes_children [of cs "''AND''"] keyword_bytes(1) by (simp add: list_all_iff)
next
  case (OpOr cs)
  then show ?case
    using lexes_children [of cs "''OR''"] keyword_bytes(2) by (simp add: list_all_iff)
qed

lemma lexScope_canonical:
  assumes "wf_expr e" and "length (exprString e) \<le> maxScopeTotalLen"
  shows "lexScope (exprString e) = Inr (exprToks e)"
proof -
  have "delim []" by (simp add: delim_def)
  then obtain j where "lexLoop 0 (exprString e @ []) = consToks (exprToks e) (lexLoop j [])"
    using lexes_expr [OF assms(1)] unfolding lexes_def by blast
  with assms(2) show ?thesis by (simp add: lexScope_def consToks_def)
qed

section \<open>The parser on those tokens\<close>

lemma tok_sels [simp]: "tKind (tok k s) = k" "tText (tok k s) = s"
  by (simp_all add: tok_def)

lemma word_sels [simp]: "tKind (word s) = TokWord" "tText (word s) = s"
  by (simp_all add: word_def)

lemma peek_Cons [simp]: "peek (t # ts) = t" "advance (t # ts) = ts"
  by (simp_all add: peek_def advance_def)

lemma parseValue_tok: "wf_value v \<Longrightarrow> parseValue g (valueTok v g # rest) = Inr (v, rest)"
  by (auto simp: valueTok_def parseValue_def Let_def wf_value_def)

lemma joinToks_Cons: "joinToks sep (x # xs) = x @ concat (map (\<lambda>y. sep # y) xs)"
  by (induction xs arbitrary: x) auto

lemma parseValueList_toks:
  assumes "vs \<noteq> []" and "list_all wf_value vs" and "tKind (peek rest) \<noteq> TokComma"
  shows "parseValueList (valueToks vs @ rest) = Inr (vs, rest)"
  using assms(1,2)
proof (induction vs)
  case (Cons v vs)
  show ?case
  proof (cases vs)
    case Nil
    with Cons.prems assms(3) show ?thesis
      by (subst parseValueList.simps) (simp add: valueToks_def parseValue_tok)
  next
    case (Cons w ws)
    then have "valueToks (v # vs) @ rest = valueTok v False # tok TokComma '','' # valueToks vs @ rest"
      by (simp add: valueToks_def)
    moreover have "parseValueList (valueToks vs @ rest) = Inr (vs, rest)"
      using Cons.IH Cons.prems Cons by simp
    ultimately show ?thesis
      using Cons.prems by (subst parseValueList.simps) (simp add: parseValue_tok)
  qed
qed simp

lemma keyword_fold [simp]:
  "equalFold ''AND'' ''AND''" "equalFold ''OR'' ''OR''" "equalFold ''in'' ''in''"
  "equalFold ''matches'' ''matches''" "\<not> equalFold ''OR'' ''AND''" "\<not> equalFold ''AND'' ''OR''"
  "\<not> equalFold ''matches'' ''in''"
  by (simp_all add: equalFold_def ascii_lower_def is_upper_def byte_in_def code_def)

lemma dim_not_keyword:
  "d \<in> set scopeDims \<Longrightarrow> \<not> equalFold d ''AND'' \<and> \<not> equalFold d ''OR''"
  by (auto simp: scopeDims_def dim_defs equalFold_def ascii_lower_def is_upper_def byte_in_def code_def)

lemma traitWord_not_keyword:
  "\<not> equalFold (dimTrait @ ''.'' @ k) ''AND''" "\<not> equalFold (dimTrait @ ''.'' @ k) ''OR''"
  by (simp_all add: dim_defs equalFold_def ascii_lower_def is_upper_def byte_in_def code_def)

lemma dim_not_traitWord: "d \<in> set scopeDims \<Longrightarrow> \<not> hasPrefix d (dimTrait @ ''.'')"
  by (auto simp: scopeDims_def dim_defs)

lemma parseCondition_toks:
  assumes "wf_cond c" and "tKind (peek rest) \<noteq> TokComma"
  shows "parseCondition (condToks c @ rest) = Inr (c, rest)"
  using assms(1)
proof (cases rule: wf_cond_cases)
  case (trait k v)
  then show ?thesis
    using traitWord_not_keyword [of k] hasPrefix_append [of "dimTrait @ ''.''" k]
    by (simp add: condToks_def parseCondition_def parseValue_tok)
next
  case (inlist d vs)
  note facts = dim_not_keyword [OF inlist(2)] dim_not_traitWord [OF inlist(2)]
  show ?thesis
  proof (cases "length vs = 1")
    case True
    then obtain v where vs: "vs = [v]" by (cases vs) auto
    have "parseValueList (valueToks [v] @ rest) = Inr ([v], rest)"
      using inlist assms(2) vs by (intro parseValueList_toks) auto
    then have "parseValueList (valueTok v False # rest) = Inr ([v], rest)"
      by (simp add: valueToks_def)
    with inlist facts vs show ?thesis
      by (simp add: condToks_def parseCondition_def peekKeyword_def)
  next
    case False
    have "parseValueList (valueToks vs @ tok TokRParen '')'' # rest) = Inr (vs, tok TokRParen '')'' # rest)"
      using inlist by (intro parseValueList_toks) auto
    with inlist facts False show ?thesis
      by (simp add: condToks_def parseCondition_def peekKeyword_def)
  qed
next
  case (glob d g)
  then have d: "d \<in> set scopeDims" "d \<noteq> dimTrait" by (auto simp: scopeDims_def)
  show ?thesis
    using glob dim_not_keyword [OF d(1)] dim_not_traitWord [OF d(1)] d
    by (auto simp: condToks_def parseCondition_def peekKeyword_def parseValue_tok)
qed

text \<open>The parentheses the canonical text nests.\<close>

fun nest :: "scope_expr \<Rightarrow> nat" where
  "nest (OpLeaf c) = 0"
| "nest (OpAnd cs) = foldr max (map (\<lambda>c. if isLeaf c then 0 else Suc (nest c)) cs) 0"
| "nest (OpOr cs) = foldr max (map (\<lambda>c. if isLeaf c then 0 else Suc (nest c)) cs) 0"

lemma foldr_max_ge: "x \<in> set xs \<Longrightarrow> (x::nat) \<le> foldr max xs 0"
  by (induction xs) auto

definition stop :: "token list \<Rightarrow> bool" where
  "stop rest \<longleftrightarrow> \<not> peekKeyword rest ''AND'' \<and> \<not> peekKeyword rest ''OR'' \<and>
     tKind (peek rest) \<noteq> TokComma"

lemma termLoop_stop: "\<not> peekKeyword ts kw \<Longrightarrow> termLoop kw p n ts = Inr ([], ts)"
  by (cases n) auto

lemma parseAnd_single:
  "p ts = Inr (e, rest) \<Longrightarrow> \<not> peekKeyword rest ''AND'' \<Longrightarrow> parseAnd p ts = Inr (e, rest)"
  by (simp add: parseAnd_def termLoop_stop)

lemma termLoop_toks:
  assumes "\<And>c rest. c \<in> set cs \<Longrightarrow> Q rest \<Longrightarrow> p (toks c @ rest) = Inr (c, rest)"
    and "\<And>us. Q (word kw # us)" and "Q rest" and "\<not> peekKeyword rest kw" and "equalFold kw kw"
    and "length cs \<le> n"
  shows "termLoop kw p n (concat (map (\<lambda>c. word kw # toks c) cs) @ rest) = Inr (cs, rest)"
  using assms(1,6)
proof (induction cs arbitrary: n)
  case Nil
  with assms(4) show ?case by (simp add: termLoop_stop)
next
  case (Cons c cs)
  then obtain m where n: "n = Suc m" by (cases n) auto
  let ?tail = "concat (map (\<lambda>c. word kw # toks c) cs) @ rest"
  have "Q ?tail" using assms(2,3) by (cases cs) auto
  with Cons.prems have "p (toks c @ ?tail) = Inr (c, ?tail)" by simp
  moreover have "termLoop kw p m ?tail = Inr (cs, rest)"
    using Cons n by auto
  ultimately show ?case by (simp add: n peekKeyword_def assms(5))
qed


lemma parseFactor_leaf:
  assumes "wf_cond c" and "tKind (peek rest) \<noteq> TokComma"
  shows "parseFactor k (condToks c @ rest) = Inr (OpLeaf c, rest)"
proof -
  have "tKind (peek (condToks c @ rest)) = TokWord"
    by (simp add: condToks_def Let_def)
  with parseCondition_toks [OF assms] show ?thesis
    by (cases k) (simp_all add: parseLeaf_def)
qed

lemma parseFactor_child:
  assumes IH: "\<And>k rest. wf_expr c \<Longrightarrow> nest c \<le> k \<Longrightarrow> stop rest \<Longrightarrow>
      parseOr (parseFactor k) (exprToks c @ rest) = Inr (c, rest)"
    and "wf_expr c" and "(if isLeaf c then 0 else Suc (nest c)) \<le> k" and "tKind (peek rest) \<noteq> TokComma"
  shows "parseFactor k (parenToks (isLeaf c) (exprToks c) @ rest) = Inr (c, rest)"
proof (cases "isLeaf c")
  case True
  then obtain d where "c = OpLeaf d" by (auto simp: isLeaf_def split: scope_expr.splits)
  with True assms(2,4) show ?thesis by (simp add: parenToks_def parseFactor_leaf)
next
  case False
  with assms(3) obtain m where k: "k = Suc m" and m: "nest c \<le> m" by (cases k) auto
  let ?rest = "tok TokRParen '')'' # rest"
  have "stop ?rest" by (simp add: stop_def peekKeyword_def)
  from IH [OF assms(2) m this] False k show ?thesis by (simp add: parenToks_def)
qed

lemma foldr_max_map_ge: "c \<in> set cs \<Longrightarrow> foldr max (map f cs) 0 \<le> k \<Longrightarrow> (f c :: nat) \<le> k"
  by (induction cs) auto

lemma nest_child:
  "c \<in> set cs \<Longrightarrow> nest (OpAnd cs) \<le> k \<Longrightarrow> (if isLeaf c then 0 else Suc (nest c)) \<le> k"
  "c \<in> set cs \<Longrightarrow> nest (OpOr cs) \<le> k \<Longrightarrow> (if isLeaf c then 0 else Suc (nest c)) \<le> k"
  by (simp_all only: nest.simps foldr_max_map_ge [where f = "\<lambda>c. if isLeaf c then 0 else Suc (nest c)"])

lemma length_concat_seps: "length cs \<le> length (concat (map (\<lambda>c. w # toks c) cs) @ rest)"
  by (induction cs) auto

lemma list_ge_2: "2 \<le> length xs \<Longrightarrow> \<exists>y ys. xs = y # ys \<and> ys \<noteq> []"
  by (cases xs) auto

lemma parseOr_toks:
  "wf_expr e \<Longrightarrow> nest e \<le> k \<Longrightarrow> stop rest \<Longrightarrow>
     parseOr (parseFactor k) (exprToks e @ rest) = Inr (e, rest)"
proof (induction e arbitrary: k rest)
  case (OpLeaf c)
  then have "parseFactor k (condToks c @ rest) = Inr (OpLeaf c, rest)"
    by (simp add: parseFactor_leaf stop_def)
  with OpLeaf.prems(3) show ?case
    by (simp add: parseOr_def parseAnd_single termLoop_stop stop_def)
next
  case (OpAnd cs)
  let ?toks = "\<lambda>c. parenToks (isLeaf c) (exprToks c)"
  let ?Q = "\<lambda>rest. tKind (peek rest) \<noteq> TokComma"
  from OpAnd.prems obtain c cs' where cs: "cs = c # cs'" and ne: "cs' \<noteq> []"
    by (metis list_ge_2 wf_expr.simps(2,3))
  have child: "parseFactor k (?toks d @ us) = Inr (d, us)" if "d \<in> set cs" "?Q us" for d us
    using parseFactor_child [of d k us] OpAnd.IH [OF that(1)] that OpAnd.prems(1)
      nest_child(1) [OF that(1) OpAnd.prems(2)] by (simp add: list_all_iff)
  let ?tail = "concat (map (\<lambda>c. word ''AND'' # ?toks c) cs') @ rest"
  have "termLoop ''AND'' (parseFactor k) (length ?tail) ?tail = Inr (cs', rest)"
    by (rule termLoop_toks [where Q = ?Q])
      (use child OpAnd.prems(3) cs length_concat_seps in \<open>auto simp: stop_def\<close>)
  moreover have "?Q ?tail" using ne by (cases cs') auto
  ultimately have "parseAnd (parseFactor k) (?toks c @ ?tail) = Inr (OpAnd cs, rest)"
    using child [of c ?tail] cs ne by (simp add: parseAnd_def)
  moreover have "exprToks (OpAnd cs) @ rest = ?toks c @ ?tail"
    by (simp add: cs joinToks_Cons comp_def)
  ultimately show ?case
    using OpAnd.prems(3) by (simp add: parseOr_def termLoop_stop stop_def)
next
  case (OpOr cs)
  let ?toks = "\<lambda>c. parenToks (isLeaf c) (exprToks c)"
  let ?Q = "\<lambda>rest. tKind (peek rest) \<noteq> TokComma \<and> \<not> peekKeyword rest ''AND''"
  from OpOr.prems obtain c cs' where cs: "cs = c # cs'" and ne: "cs' \<noteq> []"
    by (metis list_ge_2 wf_expr.simps(2,3))
  have child: "parseAnd (parseFactor k) (?toks d @ us) = Inr (d, us)" if "d \<in> set cs" "?Q us" for d us
    using parseFactor_child [of d k us] OpOr.IH [OF that(1)] that OpOr.prems(1)
      nest_child(2) [OF that(1) OpOr.prems(2)] by (simp add: list_all_iff parseAnd_single)
  let ?tail = "concat (map (\<lambda>c. word ''OR'' # ?toks c) cs') @ rest"
  have "termLoop ''OR'' (parseAnd (parseFactor k)) (length ?tail) ?tail = Inr (cs', rest)"
    by (rule termLoop_toks [where Q = ?Q])
      (use child OpOr.prems(3) cs length_concat_seps in \<open>auto simp: stop_def peekKeyword_def\<close>)
  moreover have "?Q ?tail" using ne by (cases cs') (auto simp: peekKeyword_def)
  ultimately have "parseOr (parseFactor k) (?toks c @ ?tail) = Inr (OpOr cs, rest)"
    using child [of c ?tail] cs ne by (simp add: parseOr_def)
  moreover have "exprToks (OpOr cs) @ rest = ?toks c @ ?tail"
    by (simp add: cs joinToks_Cons comp_def)
  ultimately show ?case by simp
qed


section \<open>The round trip\<close>

lemma visible_chars:
  "isWordByte c \<Longrightarrow> visible c" "visible (CHR ''('')" "visible (CHR '')'')" "visible (CHR 0x22)"
  by (auto simp: isWordByte_def is_lower_def is_upper_def is_digit_def byte_in_def visible_def code_def)

definition trimmed :: "string \<Rightarrow> bool" where
  "trimmed s \<longleftrightarrow> s \<noteq> [] \<and> visible (hd s) \<and> visible (last s)"

lemma trimmed_append: "trimmed s \<Longrightarrow> trimmed u \<Longrightarrow> trimmed (s @ t @ u)"
  by (simp add: trimmed_def)

lemma trimmed_word: "w \<noteq> [] \<Longrightarrow> list_all isWordByte w \<Longrightarrow> trimmed w"
  by (auto simp: trimmed_def list_all_iff visible_chars)

lemma trimmed_value: "wf_value v \<Longrightarrow> trimmed (quoteScopeValue v g)"
  by (auto simp: quoteScopeValue_def reScopeExact_def reScopeGlob_def list_all_iff exactByte_word
      trimmed_def visible_chars wf_value_def)

lemma trimmed_cond:
  assumes "wf_cond c"
  shows "trimmed (condString c)"
  using assms
proof (cases rule: wf_cond_cases)
  case (trait k v)
  moreover have "trimmed (dimTrait @ ''.'' @ k)"
    using keyword_bytes(5) traitKey_word [OF trait(2)] by (intro trimmed_word) auto
  ultimately show ?thesis
    using trimmed_append [OF _ trimmed_value [of v False], of "dimTrait @ ''.'' @ k" "''=''"]
    by (simp add: condString_def)
next
  case (inlist d vs)
  have d: "trimmed d" using dim_bytes [OF inlist(2)] by (intro trimmed_word) auto
  have p: "trimmed '')''" by (simp add: trimmed_def visible_chars)
  show ?thesis
  proof (cases "length vs = 1")
    case True
    then obtain v where "vs = [v]" by (cases vs) auto
    with inlist trimmed_append [OF d trimmed_value [of v False], of "''=''"] show ?thesis
      by (simp add: condString_def)
  next
    case False
    with inlist trimmed_append [OF d p,
        of "'' in ('' @ join '', '' (map (\<lambda>v. quoteScopeValue v False) vs)"]
    show ?thesis by (simp add: condString_def)
  qed
next
  case (glob d g)
  then have "d \<in> set scopeDims" by (auto simp: scopeDims_def)
  then have "trimmed d" using dim_bytes by (intro trimmed_word) auto
  with glob trimmed_append [OF _ trimmed_value [of g True], of d "'' matches ''"] show ?thesis
    by (simp add: condString_def)
qed

lemma trimmed_join:
  "xs \<noteq> [] \<Longrightarrow> list_all trimmed xs \<Longrightarrow> trimmed (join sep xs)"
proof (induction sep xs rule: join.induct)
  case (3 sep x y ys)
  then show ?case using trimmed_append [of x "join sep (y # ys)" sep] by simp
qed simp_all

lemma trimmed_children:
  assumes "\<And>c. c \<in> set cs \<Longrightarrow> trimmed (exprString c)" and "2 \<le> length cs"
  shows "trimmed (join sep (map (\<lambda>c. parenthesize (isLeaf c) (exprString c)) cs))"
proof (rule trimmed_join)
  have p: "trimmed (''('' @ s @ '')'')" for s by (simp add: trimmed_def visible_chars)
  then show "list_all trimmed (map (\<lambda>c. parenthesize (isLeaf c) (exprString c)) cs)"
    using assms(1) by (auto simp: list_all_iff parenthesize_def)
qed (use assms(2) in auto)

lemma trimmed_expr: "wf_expr e \<Longrightarrow> trimmed (exprString e)"
proof (induction e)
  case (OpLeaf c)
  then show ?case by (simp add: trimmed_cond)
qed (simp_all add: trimmed_children list_all_iff)

lemma stop_Nil: "stop []"
  by (simp add: stop_def peekKeyword_def peek_def)

lemma parseOr_canonical: "wf_expr e \<Longrightarrow> nest e \<le> k \<Longrightarrow> parseOr (parseFactor k) (exprToks e) = Inr (e, [])"
  using parseOr_toks [OF _ _ stop_Nil, of e k] by simp

lemma parseScopeExpr_canonical:
  assumes "wf_expr e" and "nest e < maxScopeDepth" and "length (exprString e) \<le> maxScopeTotalLen"
    and "countLeaves e \<le> maxScopeAtoms" and "dnfCount e \<le> maxDNFConjuncts"
  shows "parseScopeExpr (exprString e) = Inr e"
proof -
  have t: "trimSpace (exprString e) = exprString e" "exprString e \<noteq> []"
    using trimmed_expr [OF assms(1)] by (auto simp: trimmed_def trimSpace_visible)
  have "is_ok (toDNF e)"
    using toDNF_ok_iff wf_expr_orNonempty assms(1,5) by blast
  then obtain d where d: "toDNF e = Inr d" by (cases "toDNF e") auto
  have "parseOr (parseFactor (maxScopeDepth - 1)) (exprToks e) = Inr (e, [])"
    using assms(1,2) by (intro parseOr_canonical) auto
  with t d lexScope_canonical [OF assms(1,3)] assms(4) show ?thesis
    by (simp add: parseScopeExpr_def peek_def)
qed

lemma exprString_inject:
  assumes "wf_expr e" and "wf_expr e'" and "exprString e = exprString e'"
  shows "e = e'"
proof -
  have lexed: "lexLoop 0 (exprString x) = Inr (exprToks x)" if wf: "wf_expr x" for x
  proof -
    have "delim []" by (simp add: delim_def)
    then obtain j where "lexLoop 0 (exprString x @ []) = consToks (exprToks x) (lexLoop j [])"
      using lexes_expr [OF wf] unfolding lexes_def by blast
    then show ?thesis by (simp add: consToks_def)
  qed
  have "exprToks e = exprToks e'"
    using lexed [OF assms(1)] lexed [OF assms(2)] assms(3) by simp
  moreover have "parseOr (parseFactor (max (nest e) (nest e'))) (exprToks e) = Inr (e, [])"
    by (rule parseOr_canonical [OF assms(1) max.cobounded1])
  moreover have "parseOr (parseFactor (max (nest e) (nest e'))) (exprToks e') = Inr (e', [])"
    by (rule parseOr_canonical [OF assms(2) max.cobounded2])
  ultimately show ?thesis by (metis Inr_inject prod.inject)
qed

section \<open>A predicate whose canonical text is refused\<close>

text \<open>
  The printer puts parentheses around every operator child, the parser only needs them against the
  precedence of \<^verbatim>\<open>AND\<close> over \<^verbatim>\<open>OR\<close>. A text with two nested parentheses can therefore print with
  four, one more than the parser admits.
\<close>

definition deepText :: string where
  "deepText = ''((host=a AND host=b OR host=c) AND host=d OR host=e) AND host=f''"

definition deepExpr :: scope_expr where
  "deepExpr =
     (let h = (\<lambda>v. OpLeaf (inCond dimHost [] [v])) in
      OpAnd [OpOr [OpAnd [OpOr [OpAnd [h ''a'', h ''b''], h ''c''], h ''d''], h ''e''], h ''f''])"

definition deepToks :: "token list" where
  "deepToks =
    [tok TokLParen ''('', tok TokLParen ''('', tok TokWord ''host'', tok TokEq ''='', tok TokWord ''a'',
     tok TokWord ''AND'', tok TokWord ''host'', tok TokEq ''='', tok TokWord ''b'',
     tok TokWord ''OR'', tok TokWord ''host'', tok TokEq ''='', tok TokWord ''c'', tok TokRParen '')'',
     tok TokWord ''AND'', tok TokWord ''host'', tok TokEq ''='', tok TokWord ''d'',
     tok TokWord ''OR'', tok TokWord ''host'', tok TokEq ''='', tok TokWord ''e'', tok TokRParen '')'',
     tok TokWord ''AND'', tok TokWord ''host'', tok TokEq ''='', tok TokWord ''f'']"

lemma wf_value_char: "c \<noteq> CHR 0x22 \<Longrightarrow> wf_value [c]"
  by (auto simp: wf_value_def maxScopeValueLen_def)

lemma deepExpr_wf: "wf_expr deepExpr"
  by (simp add: deepExpr_def wf_cond_def wf_value_char scopeDims_def)

lemmas byte_eval = isWordByte_def is_lower_def is_upper_def is_digit_def byte_in_def code_def

lemma deepText_lexed: "lexLoop 0 deepText = Inr deepToks"
  by (simp add: deepText_def deepToks_def consToks_def consTok_def Let_def byte_eval)

lemma deepText_trimmed: "trimSpace deepText = deepText"
  by (rule trimSpace_visible) (simp_all add: deepText_def visible_def code_def)

lemma parseFactor_host:
  assumes "is_lower c" and "tKind (peek rest) \<noteq> TokComma"
  shows "parseFactor k (tok TokWord ''host'' # tok TokEq ''='' # tok TokWord [c] # rest) =
    Inr (OpLeaf (inCond dimHost [] [[c]]), rest)"
proof -
  have "c \<noteq> CHR 0x22" using assms(1) by (auto simp: is_lower_def byte_in_def code_def)
  then show ?thesis
    using parseFactor_leaf [of "inCond dimHost [] [[c]]" rest k] assms
    by (simp add: condToks_def valueTok_def reScopeExact_def word_def dim_defs wf_cond_def
        scopeDims_def exactByte_def wf_value_def maxScopeValueLen_def)
qed

lemma lower_letters:
  "is_lower (CHR ''a'')" "is_lower (CHR ''b'')" "is_lower (CHR ''c'')"
  "is_lower (CHR ''d'')" "is_lower (CHR ''e'')" "is_lower (CHR ''f'')"
  by (simp_all add: is_lower_def byte_in_def code_def)

lemma deepToks_parsed: "parseOr (parseFactor (Suc (Suc (Suc 0)))) deepToks = Inr (deepExpr, [])"
  by (simp add: deepToks_def deepExpr_def Let_def parseOr_def parseAnd_def parseFactor_host
      lower_letters peekKeyword_def peek_def [of "[]"]
      del: parseFactor.simps
      add: parseFactor.simps(2) [where ts = "tok TokLParen x # y" for x y])

lemma deepText_accepted: "parseScopeExpr deepText = Inr deepExpr"
proof -
  have "lexScope deepText = Inr deepToks"
    using deepText_lexed by (simp add: lexScope_def maxScopeTotalLen_def) (simp add: deepText_def)
  moreover have "deepText \<noteq> []" by (simp add: deepText_def)
  moreover have "countLeaves deepExpr \<le> maxScopeAtoms"
    by (simp add: deepExpr_def Let_def maxScopeAtoms_def)
  moreover have "dnfCount deepExpr \<le> maxDNFConjuncts"
    by (simp add: deepExpr_def Let_def maxDNFConjuncts_def)
  then have "is_ok (toDNF deepExpr)"
    using toDNF_ok_iff wf_expr_orNonempty deepExpr_wf by blast
  then obtain d where "toDNF deepExpr = Inr d" by (cases "toDNF deepExpr") auto
  ultimately show ?thesis
    using deepToks_parsed deepText_trimmed
    by (simp add: parseScopeExpr_def maxScopeDepth_def peek_def eval_nat_numeral)
qed

lemma deepExpr_text_short: "length (exprString deepExpr) \<le> maxScopeTotalLen"
  by (simp add: deepExpr_def Let_def parenthesize_def isLeaf_def condString_def quoteScopeValue_def
      reScopeExact_def exactByte_def byte_eval dim_defs maxScopeTotalLen_def)

lemma deepExpr_refused: "parseScopeExpr (exprString deepExpr) = Inl ErrNestingTooDeep"
proof -
  let ?l = "tok TokLParen ''(''"
  have t: "trimSpace (exprString deepExpr) = exprString deepExpr" "exprString deepExpr \<noteq> []"
    using trimmed_expr [OF deepExpr_wf] by (auto simp: trimmed_def trimSpace_visible)
  have "\<exists>rest. exprToks deepExpr = ?l # ?l # ?l # ?l # rest"
    by (simp add: deepExpr_def Let_def parenToks_def isLeaf_def)
  then have "parseOr (parseFactor 3) (exprToks deepExpr) = Inl ErrNestingTooDeep"
    by (auto simp: parseOr_def parseAnd_def eval_nat_numeral)
  with t lexScope_canonical [OF deepExpr_wf deepExpr_text_short] show ?thesis
    by (simp add: parseScopeExpr_def maxScopeDepth_def)
qed

section \<open>Properties\<close>

text \<open>A small predicate the witnesses share.\<close>

definition sampleExpr :: scope_expr where
  "sampleExpr = OpAnd [OpLeaf (inCond dimHost [] [''a'', ''b'']), OpLeaf (newGlobCond dimHost ''w?'')]"

lemma wf_newGlobCond: "d = dimHost \<or> d = dimIncarnation \<Longrightarrow> wf_value g \<Longrightarrow> wf_cond (newGlobCond d g)"
  by (auto simp: wf_cond_def scopeDims_def)

lemma wf_inCond:
  "d \<in> set scopeDims \<Longrightarrow> d \<noteq> dimTrait \<Longrightarrow> vs \<noteq> [] \<Longrightarrow> list_all wf_value vs \<Longrightarrow> wf_cond (inCond d [] vs)"
  by (auto simp: wf_cond_def)

lemma sampleExpr_wf: "wf_expr sampleExpr"
  by (simp add: sampleExpr_def wf_newGlobCond wf_inCond wf_value_def scopeDims_def maxScopeValueLen_def)

lemma sampleExpr_text: "exprString sampleExpr = ''host in (a, b) AND host matches w?''"
  by (simp add: sampleExpr_def isLeaf_def parenthesize_def condString_def quoteScopeValue_def
      reScopeExact_def reScopeGlob_def exactByte_def byte_eval dim_defs)

lemma sampleExpr_facts:
  "wf_expr sampleExpr" "nest sampleExpr < maxScopeDepth" "countLeaves sampleExpr \<le> maxScopeAtoms"
  "dnfCount sampleExpr \<le> maxDNFConjuncts" "length (exprString sampleExpr) \<le> maxScopeTotalLen"
  using sampleExpr_wf
  by (simp_all add: sampleExpr_text maxScopeTotalLen_def)
    (simp_all add: sampleExpr_def maxScopeDepth_def isLeaf_def maxScopeAtoms_def maxDNFConjuncts_def)

text \<open>
  The parser always comes back with a predicate or one of the source's own errors: the fuel of
  its two loops, the number of tokens left, never runs out.
\<close>

theorem parser_terminates: "parseScopeExpr s \<noteq> Inl ErrOutOfFuel"
  by (rule parseScopeExpr_in_fuel)

text \<open>
  What the parser accepts is well formed (known dimensions, a trait key only on a trait, globs
  only on hosts and incarnations and compiled from their own text, no empty value, values inside the
  length cap, at least two terms under an operator), has at most \<open>maxScopeAtoms\<close> conditions and has a
  normal form, so no later containment check fails on it.
\<close>

theorem parser_output_wf:
  assumes "parseScopeExpr s = Inr e"
  shows "wf_expr e \<and> countLeaves e \<le> maxScopeAtoms \<and> (\<exists>d. toDNF e = Inr d)"
  using parseScopeExpr_accepts [OF assms] by blast

theorem parser_output_wf_witness:
  "parseScopeExpr deepText = Inr deepExpr \<and> countLeaves deepExpr \<le> maxScopeAtoms"
  using parser_output_wf [OF deepText_accepted] deepText_accepted by blast

text \<open>
  (C39) Round trip: the canonical text of a well-formed predicate inside the caps (three levels of
  printed parentheses, 4096 bytes, 32 conditions, 256 conjuncts) parses back to that predicate.
\<close>

theorem scope_text_roundtrip:
  assumes "wf_expr e" and "nest e < maxScopeDepth" and "length (exprString e) \<le> maxScopeTotalLen"
    and "countLeaves e \<le> maxScopeAtoms" and "dnfCount e \<le> maxDNFConjuncts"
  shows "parseScopeExpr (scopeString (Some e)) = Inr e"
  using parseScopeExpr_canonical [OF assms] by (simp add: scopeString_def)

theorem scope_text_roundtrip_witness:
  "parseScopeExpr ''host in (a, b) AND host matches w?'' = Inr sampleExpr"
  using scope_text_roundtrip [of sampleExpr] sampleExpr_facts sampleExpr_text
  by (simp add: scopeString_def)

text \<open>
  The canonical text identifies the predicate: two well-formed predicates with the same text are
  equal. The code removes duplicate scopes by this text, in the purview, in the conjunction of a role
  chain and in the list of effective permissions, and so never merges two different scopes.
\<close>

theorem scope_text_injective:
  assumes "wf_expr e" and "wf_expr e'" and "scopeString (Some e) = scopeString (Some e')"
  shows "e = e'"
  using exprString_inject [OF assms(1,2)] assms(3) by (simp add: scopeString_def)

theorem scope_text_injective_witness: "deepExpr \<noteq> sampleExpr \<and> scopeString (Some deepExpr) \<noteq> scopeString (Some sampleExpr)"
proof -
  have "deepExpr \<noteq> sampleExpr" by (simp add: deepExpr_def sampleExpr_def Let_def)
  then show ?thesis
    using scope_text_injective [OF deepExpr_wf sampleExpr_facts(1)] by blast
qed

text \<open>
  The round trip needs its caps: a text the parser accepts can print as a canonical text the
  parser refuses, because printing adds parentheses. Code that stores or re-reads canonical texts
  (the pinned delta of a derived role, the rendered effective permissions) can meet this error.
\<close>

theorem canonical_text_can_be_refused:
  "\<exists>e. parseScopeExpr ''((host=a AND host=b OR host=c) AND host=d OR host=e) AND host=f'' = Inr e
     \<and> parseScopeExpr (scopeString (Some e)) = Inl ErrNestingTooDeep"
  using deepText_accepted deepExpr_refused
  by (intro exI [of _ deepExpr]) (simp add: scopeString_def deepText_def)

end
