(* ===== verification/Rbac_Permission.thy ===== *)
theory Rbac_Permission
  imports Rbac_Scope_Roundtrip
begin

text \<open>
  Permissions (\<^verbatim>\<open>permission.go\<close>, \<^verbatim>\<open>parser.go\<close>, \<^verbatim>\<open>catalog.go\<close> of \<^verbatim>\<open>keeper/internal/rbac\<close>): the
  record, the closed catalog of names, the parser of a permission string, the canonical text, and
  what a permission grants alone and through a role. The lemmas show what the parser guarantees of
  a permission it accepts and that the canonical text reads back.
\<close>

section \<open>The record and what it grants\<close>

record permission =
  IsWildcard :: bool
  Resource :: string
  Action :: string
  Scope :: "scope_expr option"

definition covers :: "permission \<Rightarrow> string \<Rightarrow> string \<Rightarrow> bool" where
  "covers p resource action =
     (if IsWildcard p then True
      else if Resource p \<noteq> resource then False
      else Action p = ''*'' \<or> Action p = action)"

definition effectiveScope :: "permission \<Rightarrow> scope_expr option \<Rightarrow> scope_expr option" where
  "effectiveScope p roleScope =
     (if Scope p \<noteq> None then Scope p else if IsWildcard p then None else roleScope)"

text \<open>The request context is a Go \<^verbatim>\<open>map[string]string\<close>; \<^verbatim>\<open>nil\<close> is the empty map.\<close>

type_synonym req_context = "string \<rightharpoonup> string"

definition scopeInputFromContext :: "req_context \<Rightarrow> scope_input" where
  "scopeInputFromContext ctx =
     \<lparr>inCovens = (case ctx dimCoven of None \<Rightarrow> [] | Some v \<Rightarrow> [v]),
      inServices = (case ctx dimService of None \<Rightarrow> [] | Some v \<Rightarrow> [v]),
      inIncarnations = (case ctx dimIncarnation of None \<Rightarrow> [] | Some v \<Rightarrow> [v]),
      inHosts = (case ctx ''host'' of None \<Rightarrow> [] | Some v \<Rightarrow> [v]) @
        (case ctx ''sid'' of None \<Rightarrow> [] | Some v \<Rightarrow> [v]),
      inTraits = Map.empty\<rparr>"

definition MatchesInRole ::
  "permission \<Rightarrow> string \<Rightarrow> string \<Rightarrow> scope_expr option \<Rightarrow> req_context \<Rightarrow> bool" where
  "MatchesInRole p resource action roleScope ctx =
     (if \<not> covers p resource action then False
      else evalScope (effectiveScope p roleScope) (scopeInputFromContext ctx))"

definition Matches :: "permission \<Rightarrow> string \<Rightarrow> string \<Rightarrow> req_context \<Rightarrow> bool" where
  "Matches p resource action ctx = MatchesInRole p resource action None ctx"

text \<open>
  What a permission means on a full node context: \<open>MatchesInRole\<close> is this at the input built from
  the flat request context.
\<close>

definition grants :: "permission \<Rightarrow> string \<Rightarrow> string \<Rightarrow> scope_input \<Rightarrow> bool" where
  "grants p resource action inp \<longleftrightarrow> covers p resource action \<and> evalScope (Scope p) inp"

definition grantsInRole ::
  "permission \<Rightarrow> scope_expr option \<Rightarrow> string \<Rightarrow> string \<Rightarrow> scope_input \<Rightarrow> bool" where
  "grantsInRole p roleScope resource action inp \<longleftrightarrow>
     covers p resource action \<and> evalScope (effectiveScope p roleScope) inp"

lemma MatchesInRole_grants:
  "MatchesInRole p r a s ctx \<longleftrightarrow> grantsInRole p s r a (scopeInputFromContext ctx)"
  by (simp add: MatchesInRole_def grantsInRole_def)

section \<open>The catalog\<close>

definition catalogAccess :: "string list" where
  "catalogAccess =
    [''operator.create'', ''operator.revoke'', ''operator.issue-token'',
     ''operator.jwt-revoke'', ''operator.set-password'', ''operator.set-owner'',
     ''operator.list'', ''operator.read'', ''role.create'',
     ''role.delete'', ''role.list'', ''role.update'',
     ''role.grant-operator'', ''role.revoke-operator'', ''role.create-root'',
     ''role.list-all'', ''synod.create'', ''synod.update'',
     ''synod.delete'', ''synod.list'', ''synod.list-all'',
     ''synod.add-operator'', ''synod.remove-operator'', ''synod.grant-role'',
     ''synod.revoke-role'', ''incarnation.create'', ''incarnation.rerun-last'',
     ''incarnation.run'', ''incarnation.get'', ''incarnation.list'',
     ''incarnation.history'', ''incarnation.unlock'', ''incarnation.upgrade'',
     ''incarnation.destroy'', ''incarnation.traits-set'', ''incarnation.bind-member'',
     ''incarnation.unbind-member'', ''incarnation.view-secrets'']"

definition catalogFleet :: "string list" where
  "catalogFleet =
    [''soul.list'', ''soul.create'', ''soul.issue-token'',
     ''soul.coven-assign'', ''soul.traits-assign'', ''soul.ssh-target-update'',
     ''soul.console'', ''soul.forget'', ''plugin.allow'',
     ''plugin.revoke'', ''plugin.list'', ''sigil.key-introduce'',
     ''sigil.key-retire'', ''sigil.key-list'', ''sigil.key-set-primary'',
     ''service.register'', ''service.update'', ''service.list'',
     ''service.deregister'', ''omen.create'', ''omen.list'',
     ''omen.delete'', ''rite.create'', ''rite.list'',
     ''rite.delete'', ''vigil.create'', ''vigil.list'',
     ''vigil.delete'', ''decree.create'', ''decree.list'',
     ''decree.delete'']"

definition catalogDelivery :: "string list" where
  "catalogDelivery =
    [''push.apply'', ''push.cleanup'', ''push.read'',
     ''push-provider.create'', ''push-provider.update'', ''push-provider.delete'',
     ''push-provider.list'', ''push-provider.read'', ''errand.run'',
     ''errand.cancel'', ''errand.list'', ''choir.create'',
     ''choir.delete'', ''choir.list'', ''choir.add-voice'',
     ''choir.remove-voice'', ''cadence.create'', ''cadence.list'',
     ''cadence.update'', ''cadence.delete'', ''cadence.enable'',
     ''cadence.disable'', ''herald.create'', ''herald.read'',
     ''herald.list'', ''herald.update'', ''herald.delete'',
     ''tiding.create'', ''tiding.read'', ''tiding.list'',
     ''tiding.update'', ''tiding.delete'']"

definition catalogOperations :: "string list" where
  "catalogOperations =
    [''provisioning.read'', ''provisioning.update'', ''setting.read'',
     ''setting.update'', ''setting.delete'', ''audit.read'',
     ''provider.create'', ''provider.read'', ''provider.delete'',
     ''profile.create'', ''profile.read'', ''profile.delete'',
     ''incarnation.label-set'', ''service.label-set'', ''provider.label-set'',
     ''profile.label-set'', ''push-provider.label-set'', ''omen.label-set'',
     ''herald.label-set'', ''tiding.label-set'', ''vigil.label-set'',
     ''decree.label-set'', ''incarnation.maintenance-set'']"

definition AllowedPermissions :: "string list" where
  "AllowedPermissions = catalogAccess @ catalogFleet @ catalogDelivery @ catalogOperations"

definition IsAllowedPermission :: "string \<Rightarrow> string \<Rightarrow> bool" where
  "IsAllowedPermission resource action =
     (if action = ''*'' then
        list_ex (\<lambda>name. length name > length resource + 1 \<and>
          take (length resource) name = resource \<and> name ! length resource = CHR ''.'')
          AllowedPermissions
      else resource @ ''.'' @ action \<in> set AllowedPermissions)"

definition SelectorKeys :: "string list" where
  "SelectorKeys = sort scopeDims"

section \<open>Parsing\<close>

datatype perm_error =
    PermEmpty
  | PermEmptyScope
  | PermBadScope scope_error
  | PermNoDot
  | PermThreeSegments
  | PermEmptySegment
  | PermWildcardResource
  | PermBadResource string
  | PermBadAction string
  | PermUnknown string string

definition nameByte :: "char \<Rightarrow> bool" where
  "nameByte c \<longleftrightarrow> is_lower c \<or> is_digit c \<or> c = CHR ''-''"

definition reResource :: "string \<Rightarrow> bool" where
  "reResource s \<longleftrightarrow> (case s of [] \<Rightarrow> False | c # cs \<Rightarrow> is_lower c \<and> list_all nameByte cs)"

definition reAction :: "string \<Rightarrow> bool" where
  "reAction s \<longleftrightarrow> (case s of [] \<Rightarrow> False | c # cs \<Rightarrow> is_lower c \<and> list_all nameByte cs)"

text \<open>The optional scope of a permission string: \<open>tail = []\<close> is Go's empty \<^verbatim>\<open>tail\<close>, no scope.\<close>

definition parseTail :: "string \<Rightarrow> (perm_error, scope_expr option) result" where
  "parseTail tail =
     (if tail = [] then Inr None
      else (case parseScopeExpr tail of
              Inl e \<Rightarrow> Inl (PermBadScope e)
            | Inr expr \<Rightarrow> Inr (Some expr)))"

definition parseHead :: "string \<Rightarrow> (perm_error, string \<times> string) result" where
  "parseHead head =
     (if CHR ''.'' \<notin> set head then Inl PermNoDot
      else
        (let resource = takeWhile (\<lambda>c. c \<noteq> CHR ''.'') head;
             action = tl (dropWhile (\<lambda>c. c \<noteq> CHR ''.'') head)
         in if CHR ''.'' \<in> set action then Inl PermThreeSegments
            else if resource = [] \<or> action = [] then Inl PermEmptySegment
            else if resource = ''*'' then Inl PermWildcardResource
            else if \<not> reResource resource then Inl (PermBadResource resource)
            else if action \<noteq> ''*'' \<and> \<not> reAction action then Inl (PermBadAction action)
            else if \<not> IsAllowedPermission resource action then Inl (PermUnknown resource action)
            else Inr (resource, action)))"

definition splitOn :: "string \<Rightarrow> (perm_error, string \<times> string) result" where
  "splitOn s =
     (case str_index s '' on '' of
        None \<Rightarrow> Inr (s, [])
      | Some idx \<Rightarrow>
          (let head = trimSpace (take idx s);
               tail = trimSpace (drop (idx + length '' on '') s)
           in if tail = [] then Inl PermEmptyScope else Inr (head, tail)))"

definition ParsePermission :: "string \<Rightarrow> (perm_error, permission) result" where
  "ParsePermission raw =
     (let s = trimSpace raw in
      if s = [] then Inl PermEmpty
      else (case splitOn s of
              Inl e \<Rightarrow> Inl e
            | Inr (head, tail) \<Rightarrow>
                if head = ''*'' then
                  (case parseTail tail of
                     Inl e \<Rightarrow> Inl e
                   | Inr sc \<Rightarrow> Inr \<lparr>IsWildcard = True, Resource = [], Action = [], Scope = sc\<rparr>)
                else
                  (case parseHead head of
                     Inl e \<Rightarrow> Inl e
                   | Inr (resource, action) \<Rightarrow>
                       (case parseTail tail of
                          Inl e \<Rightarrow> Inl e
                        | Inr sc \<Rightarrow> Inr \<lparr>IsWildcard = False, Resource = resource, Action = action,
                                         Scope = sc\<rparr>))))"

definition ParseDefaultScope :: "string \<Rightarrow> (scope_error, scope_expr option) result" where
  "ParseDefaultScope raw =
     (let s = trimSpace raw in
      if s = [] then Inr None
      else (case parseScopeExpr s of Inl e \<Rightarrow> Inl e | Inr expr \<Rightarrow> Inr (Some expr)))"

definition permString :: "permission \<Rightarrow> string" where
  "permString p =
     (let s = (if IsWildcard p then ''*'' else Resource p @ ''.'' @ Action p)
      in case Scope p of None \<Rightarrow> s | Some e \<Rightarrow> s @ '' on '' @ exprString e)"

definition permStrings :: "permission list \<Rightarrow> string list" where
  "permStrings perms = map permString perms"

section \<open>What the parser guarantees\<close>

definition wf_scope :: "scope_expr option \<Rightarrow> bool" where
  "wf_scope s = (case s of None \<Rightarrow> True | Some e \<Rightarrow> wf_expr e)"

definition wf_perm :: "permission \<Rightarrow> bool" where
  "wf_perm p \<longleftrightarrow>
     (if IsWildcard p then Resource p = [] \<and> Action p = []
      else reResource (Resource p) \<and> (Action p = ''*'' \<or> reAction (Action p))
        \<and> IsAllowedPermission (Resource p) (Action p))
     \<and> wf_scope (Scope p)"

lemma wf_scope_simps [simp]: "wf_scope None" "wf_scope (Some e) = wf_expr e"
  by (simp_all add: wf_scope_def)

lemma wf_perm_scope: "wf_perm p \<Longrightarrow> wf_scope (Scope p)"
  by (simp add: wf_perm_def)


lemma parseTail_Inr:
  assumes "parseTail t = Inr sc"
  shows "wf_scope sc" and "\<And>e. sc = Some e \<Longrightarrow> is_ok (toDNF e) \<and> countLeaves e \<le> maxScopeAtoms"
proof -
  have "sc = None \<or> (\<exists>e. sc = Some e \<and> parseScopeExpr t = Inr e)"
    using assms by (auto simp: parseTail_def split: if_splits sum.splits)
  then show "wf_scope sc" and "\<And>e. sc = Some e \<Longrightarrow> is_ok (toDNF e) \<and> countLeaves e \<le> maxScopeAtoms"
    using parseScopeExpr_accepts [of t] by fastforce+
qed

lemma parseHead_Inr:
  assumes "parseHead h = Inr (r, a)"
  shows "reResource r" and "a = ''*'' \<or> reAction a" and "IsAllowedPermission r a"
  using assms by (auto simp: parseHead_def Let_def split: if_splits)

lemma ParsePermission_Inr:
  assumes "ParsePermission raw = Inr p"
  shows "wf_perm p" and "Scope p = Some e \<Longrightarrow> is_ok (toDNF e) \<and> countLeaves e \<le> maxScopeAtoms"
proof -
  obtain t where t: "parseTail t = Inr (Scope p)" and
    h: "(IsWildcard p \<and> Resource p = [] \<and> Action p = []) \<or>
        (\<not> IsWildcard p \<and> (\<exists>h. parseHead h = Inr (Resource p, Action p)))"
    using assms by (force simp: ParsePermission_def Let_def split: if_splits sum.splits prod.splits)
  show "wf_perm p"
    using h parseTail_Inr(1) [OF t] parseHead_Inr unfolding wf_perm_def by metis
  show "Scope p = Some e \<Longrightarrow> is_ok (toDNF e) \<and> countLeaves e \<le> maxScopeAtoms"
    using parseTail_Inr(2) [OF t] by simp
qed

lemma ParseDefaultScope_Inr: "ParseDefaultScope raw = Inr s \<Longrightarrow> wf_scope s"
  using parseScopeExpr_accepts(1) [of "trimSpace raw"]
  by (auto simp: ParseDefaultScope_def Let_def split: if_splits sum.splits)

section \<open>The canonical text reads back\<close>

text \<open>The canonical text of a scope is readable when it stays inside the parser's caps.\<close>

definition readable :: "scope_expr option \<Rightarrow> bool" where
  "readable s = (case s of None \<Rightarrow> True | Some e \<Rightarrow>
     nest e < maxScopeDepth \<and> length (exprString e) \<le> maxScopeTotalLen
     \<and> countLeaves e \<le> maxScopeAtoms \<and> dnfCount e \<le> maxDNFConjuncts)"

lemma str_index_none: "CHR '' '' \<notin> set h \<Longrightarrow> str_index h '' on '' = None"
  by (induction h) auto

lemma str_index_first: "CHR '' '' \<notin> set h \<Longrightarrow> str_index (h @ '' on '' @ t) '' on '' = Some (length h)"
  by (induction h) auto

definition permHead :: "permission \<Rightarrow> string" where
  "permHead p = (if IsWildcard p then ''*'' else Resource p @ ''.'' @ Action p)"

lemma lower_facts: "is_lower c \<Longrightarrow> c \<noteq> CHR '' '' \<and> c \<noteq> CHR ''.'' \<and> c \<noteq> CHR ''*'' \<and> visible c"
  by (auto simp: is_lower_def byte_in_def visible_def code_def)

lemma nameByte_facts: "nameByte c \<Longrightarrow> c \<noteq> CHR '' '' \<and> c \<noteq> CHR ''.'' \<and> c \<noteq> CHR ''*'' \<and> visible c"
  by (auto simp: nameByte_def is_digit_def byte_in_def visible_def code_def dest: lower_facts)

lemma name_facts:
  assumes "reResource s \<or> reAction s"
  shows "CHR '' '' \<notin> set s" and "CHR ''.'' \<notin> set s" and "CHR ''*'' \<notin> set s" and "trimmed s"
proof -
  have "s \<noteq> [] \<and> (\<forall>c \<in> set s. c \<noteq> CHR '' '' \<and> c \<noteq> CHR ''.'' \<and> c \<noteq> CHR ''*'' \<and> visible c)"
    using assms lower_facts nameByte_facts
    by (auto simp: reResource_def reAction_def list_all_iff split: list.splits)
  then show "CHR '' '' \<notin> set s" and "CHR ''.'' \<notin> set s" and "CHR ''*'' \<notin> set s" and "trimmed s"
    by (auto simp: trimmed_def)
qed

lemma trimmed_star: "trimmed ''*''"
  by (simp add: trimmed_def visible_def code_def)

lemma trimmed_trimSpace: "trimmed s \<Longrightarrow> trimSpace s = s"
  by (simp add: trimmed_def trimSpace_visible)

lemma permHead_facts:
  assumes "wf_perm p"
  shows "CHR '' '' \<notin> set (permHead p)" and "trimmed (permHead p)"
proof -
  have a: "CHR '' '' \<notin> set (Action p) \<and> trimmed (Action p)" if "\<not> IsWildcard p"
    using assms that name_facts [of "Action p"] trimmed_star by (auto simp: wf_perm_def)
  have r: "CHR '' '' \<notin> set (Resource p) \<and> trimmed (Resource p)" if "\<not> IsWildcard p"
    using assms that name_facts [of "Resource p"] by (auto simp: wf_perm_def)
  show "CHR '' '' \<notin> set (permHead p)" using a r by (auto simp: permHead_def)
  show "trimmed (permHead p)"
    using a r trimmed_append [of "Resource p" "Action p" "''.''"] trimmed_star
    by (auto simp: permHead_def)
qed

lemma parseHead_canonical:
  assumes "wf_perm p" and "\<not> IsWildcard p"
  shows "parseHead (Resource p @ ''.'' @ Action p) = Inr (Resource p, Action p)"
proof -
  have dots: "CHR ''.'' \<notin> set (Resource p)" "CHR ''.'' \<notin> set (Action p)"
    and ne: "Resource p \<noteq> []" "Action p \<noteq> []" "Resource p \<noteq> ''*''"
    using assms name_facts [of "Resource p"] name_facts [of "Action p"]
    by (auto simp: wf_perm_def trimmed_def)
  have "takeWhile (\<lambda>c. c \<noteq> CHR ''.'') (Resource p @ ''.'' @ Action p) = Resource p"
    and "dropWhile (\<lambda>c. c \<noteq> CHR ''.'') (Resource p @ ''.'' @ Action p) = CHR ''.'' # Action p"
    using dots by (auto simp: takeWhile_append dropWhile_append)
  with assms dots ne show ?thesis
    by (auto simp: parseHead_def Let_def wf_perm_def)
qed

lemma splitOn_canonical:
  assumes "CHR '' '' \<notin> set h" and "trimmed h"
  shows "splitOn h = Inr (h, [])"
    and "trimmed t \<Longrightarrow> splitOn (h @ '' on '' @ t) = Inr (h, t)"
proof -
  show "splitOn h = Inr (h, [])" using assms by (simp add: splitOn_def str_index_none)
  show "splitOn (h @ '' on '' @ t) = Inr (h, t)" if "trimmed t"
  proof -
    have "str_index (h @ '' on '' @ t) '' on '' = Some (length h)"
      using assms(1) by (rule str_index_first)
    then show ?thesis
      using that assms(2) by (simp add: splitOn_def trimmed_trimSpace) (simp add: trimmed_def)
  qed
qed

lemma parseTail_canonical:
  "wf_expr e \<Longrightarrow> readable (Some e) \<Longrightarrow> parseTail (exprString e) = Inr (Some e)"
  using trimmed_expr [of e] parseScopeExpr_canonical [of e]
  by (simp add: parseTail_def readable_def trimmed_def)

lemma ParsePermission_split:
  assumes "splitOn s = Inr (permHead p, t)" and "trimmed s" and "parseTail t = Inr (Scope p)"
    and "wf_perm p"
  shows "ParsePermission s = Inr p"
proof (cases "IsWildcard p")
  case True
  with assms have "p = \<lparr>IsWildcard = True, Resource = [], Action = [], Scope = Scope p\<rparr>"
    by (simp add: wf_perm_def)
  with assms True show ?thesis
    by (simp add: ParsePermission_def trimmed_trimSpace permHead_def trimmed_def)
next
  case False
  then have ne: "Resource p @ ''.'' @ Action p \<noteq> ''*''"
    by (cases "Resource p") auto
  with assms False show ?thesis
    using parseHead_canonical [OF assms(4) False]
    by (simp add: ParsePermission_def trimmed_trimSpace permHead_def trimmed_def)
qed

lemma ParsePermission_canonical:
  assumes "wf_perm p" and "readable (Scope p)"
  shows "ParsePermission (permString p) = Inr p"
proof (cases "Scope p")
  case None
  with assms have "permString p = permHead p" by (simp add: permString_def permHead_def)
  with None show ?thesis
    using ParsePermission_split [OF splitOn_canonical(1)] permHead_facts [OF assms(1)] assms(1)
    by (simp add: parseTail_def)
next
  case (Some e)
  with assms have e: "wf_expr e" "trimmed (exprString e)"
    using wf_perm_scope [OF assms(1)] trimmed_expr [of e] by simp_all
  have s: "permString p = permHead p @ '' on '' @ exprString e"
    using Some by (simp add: permString_def permHead_def)
  note head = permHead_facts [OF assms(1)]
  have "parseTail (exprString e) = Inr (Scope p)"
    using parseTail_canonical [OF e(1)] assms(2) Some by simp
  from ParsePermission_split [OF splitOn_canonical(2) [OF head e(2)] trimmed_append [OF head(2) e(2)]
      this assms(1)]
  show ?thesis unfolding s .
qed

section \<open>Properties\<close>

definition catalogName :: "string \<Rightarrow> bool" where
  "catalogName n \<longleftrightarrow>
     (let r = takeWhile (\<lambda>c. c \<noteq> CHR ''.'') n; a = tl (dropWhile (\<lambda>c. c \<noteq> CHR ''.'') n)
      in n = r @ ''.'' @ a \<and> reResource r \<and> reAction a)"

lemmas name_eval = reResource_def reAction_def nameByte_def is_lower_def is_digit_def byte_in_def code_def

lemma catalog_names:
  "list_all catalogName catalogAccess" "list_all catalogName catalogFleet"
  "list_all catalogName catalogDelivery" "list_all catalogName catalogOperations"
  by (simp_all add: catalogName_def catalogAccess_def catalogFleet_def catalogDelivery_def
      catalogOperations_def Let_def name_eval)

lemma catalog_accepted:
  assumes "n \<in> set AllowedPermissions"
  shows "\<exists>p. ParsePermission n = Inr p \<and> \<not> IsWildcard p \<and> Scope p = None \<and> permString p = n"
proof -
  let ?r = "takeWhile (\<lambda>c. c \<noteq> CHR ''.'') n" and ?a = "tl (dropWhile (\<lambda>c. c \<noteq> CHR ''.'') n)"
  have "catalogName n"
    using assms catalog_names by (auto simp: AllowedPermissions_def list_all_iff)
  then have n: "n = ?r @ ''.'' @ ?a" and r: "reResource ?r" and a: "reAction ?a"
    by (auto simp: catalogName_def Let_def)
  define p where "p = \<lparr>IsWildcard = False, Resource = ?r, Action = ?a, Scope = None\<rparr>"
  have "?a \<noteq> ''*''" using a by (auto simp: name_eval)
  then have "IsAllowedPermission ?r ?a" using assms n by (simp add: IsAllowedPermission_def)
  then have "wf_perm p" using r a by (simp add: wf_perm_def p_def)
  moreover have "permString p = n" using n by (simp add: permString_def p_def)
  ultimately show ?thesis
    using ParsePermission_canonical [of p] by (intro exI [of _ p]) (simp add: p_def readable_def)
qed

definition samplePerm :: permission where
  "samplePerm = \<lparr>IsWildcard = False, Resource = ''incarnation'', Action = ''run'', Scope = Some sampleExpr\<rparr>"

lemma samplePerm_facts: "wf_perm samplePerm" "readable (Scope samplePerm)"
  using sampleExpr_facts
  by (simp_all add: samplePerm_def wf_perm_def readable_def name_eval IsAllowedPermission_def
      AllowedPermissions_def catalogAccess_def)

lemma samplePerm_text: "permString samplePerm = ''incarnation.run on host in (a, b) AND host matches w?''"
  by (simp add: permString_def samplePerm_def sampleExpr_text)

lemma samplePerm_parsed: "ParsePermission (permString samplePerm) = Inr samplePerm"
  using ParsePermission_canonical samplePerm_facts by blast

text \<open>
  A permission string is accepted only if it names the catalog: the permission is the wildcard
  with empty segments, or a well-formed resource and action that the closed catalog knows; its scope
  is well formed and has a normal form.
\<close>

theorem ParsePermission_closed:
  assumes "ParsePermission raw = Inr p"
  shows "wf_perm p \<and> (\<forall>e. Scope p = Some e \<longrightarrow> (\<exists>d. toDNF e = Inr d))"
proof (intro conjI allI impI)
  show "wf_perm p" using ParsePermission_Inr(1) [OF assms] .
  show "\<exists>d. toDNF e = Inr d" if "Scope p = Some e" for e
    using ParsePermission_Inr(2) [OF assms that] by (cases "toDNF e") auto
qed

theorem ParsePermission_closed_witness:
  "ParsePermission ''incarnation.run on host in (a, b) AND host matches w?'' = Inr samplePerm
   \<and> wf_perm samplePerm"
  using ParsePermission_closed [OF samplePerm_parsed] samplePerm_parsed samplePerm_text by simp

text \<open>
  Round trip: the canonical text of a permission parses back to the same permission, with its
  scope, for every well-formed permission whose scope text fits the parser's caps.
\<close>

theorem permission_text_roundtrip:
  assumes "wf_perm p" and "readable (Scope p)"
  shows "ParsePermission (permString p) = Inr p"
  using assms by (rule ParsePermission_canonical)

theorem permission_text_roundtrip_witness:
  "ParsePermission ''incarnation.run on host in (a, b) AND host matches w?'' = Inr samplePerm"
  using permission_text_roundtrip [OF samplePerm_facts] samplePerm_text by simp

text \<open>
  Every name of the catalog is itself a valid permission string that parses to the unscoped
  permission it spells, and the catalog has the 124 distinct names its comment counts.
\<close>

theorem catalog_is_parseable:
  "list_all (\<lambda>n. \<exists>p. ParsePermission n = Inr p \<and> \<not> IsWildcard p \<and> Scope p = None \<and> permString p = n)
     AllowedPermissions
   \<and> length AllowedPermissions = 124 \<and> distinct AllowedPermissions"
proof (intro conjI)
  show "length AllowedPermissions = 124"
    by (simp add: AllowedPermissions_def catalogAccess_def catalogFleet_def catalogDelivery_def
        catalogOperations_def)
  show "distinct AllowedPermissions"
    by (simp add: AllowedPermissions_def catalogAccess_def catalogFleet_def catalogDelivery_def
        catalogOperations_def)
qed (simp add: list_all_iff catalog_accepted)

end
