(* ===== verification/Rbac_Subset.thy ===== *)
theory Rbac_Subset
  imports Rbac_Permission
begin

text \<open>
  Least privilege (\<^verbatim>\<open>keeper/internal/rbac/subset.go\<close>): the containment predicate \<open>callerHolds\<close> and
  the gates over it. \<open>callerHolds\<close> compares normal forms and is conservative; the lemmas show that it
  is sound (what it admits, the caller already has on every node and every action), that it accepts
  what the caller holds, and that it is monotone in the caller's set.

  The interface the rest of the subsystem relies on is the locale \<open>containment\<close>. Its clients, the
  grant gate and the widening diff, are proved once inside it; it is interpreted here on
  \<open>callerHolds\<close>.
\<close>

section \<open>Containment of conditions\<close>

definition atomSubset :: "scope_cond \<Rightarrow> scope_cond \<Rightarrow> bool" where
  "atomSubset ar ac =
     (case (cMatch ar, cMatch ac) of
        (MatchIn, MatchIn) \<Rightarrow> list_all (\<lambda>v. v \<in> set (cValues ac)) (cValues ar)
      | (MatchIn, MatchGlob) \<Rightarrow> list_all (matchGlob ac) (cValues ar)
      | (MatchGlob, MatchGlob) \<Rightarrow> cValues ar ! 0 = cValues ac ! 0
      | _ \<Rightarrow> False)"

definition impliesConj :: "conj \<Rightarrow> conj \<Rightarrow> bool" where
  "impliesConj ri cj =
     list_all (\<lambda>ac. list_ex (\<lambda>ar. cDim ar = cDim ac \<and> cKey ar = cKey ac \<and> atomSubset ar ac) ri) cj"

definition disjunctCovered :: "conj \<Rightarrow> dnf \<Rightarrow> bool" where
  "disjunctCovered ri callerConjs =
     (if list_ex (impliesConj ri) callerConjs then True
      else
        (case ri of
           [atom] \<Rightarrow>
             cMatch atom = MatchIn \<and> length (cValues atom) > 1 \<and>
             list_all (\<lambda>v. list_ex (impliesConj [inCond (cDim atom) (cKey atom) [v]]) callerConjs)
               (cValues atom)
         | _ \<Rightarrow> False))"

section \<open>Containment of permissions\<close>

definition callerUnrestrictedOn :: "permission list \<Rightarrow> string \<Rightarrow> string \<Rightarrow> bool" where
  "callerUnrestrictedOn callerPerms resource action =
     list_ex (\<lambda>cp.
       if IsWildcard cp \<and> Scope cp = None then True
       else if IsWildcard cp then False
       else if Resource cp \<noteq> resource then False
       else if Action cp \<noteq> ''*'' \<and> Action cp \<noteq> action then False
       else Scope cp = None) callerPerms"

text \<open>
  The nil sentinel of \<open>callerScopeConjuncts\<close>, "unrestricted", is \<open>None\<close>; the empty non-nil slice
  is \<open>Some []\<close>.
\<close>

definition dnfOrNothing :: "scope_expr \<Rightarrow> dnf" where
  "dnfOrNothing e = (case toDNF e of Inl _ \<Rightarrow> [] | Inr d \<Rightarrow> d)"

fun callerScopeConjunctsLoop :: "dnf \<Rightarrow> permission list \<Rightarrow> string \<Rightarrow> string \<Rightarrow> dnf option" where
  "callerScopeConjunctsLoop conjs [] resource action = Some conjs"
| "callerScopeConjunctsLoop conjs (cp # cps) resource action =
     (if IsWildcard cp then
        (case Scope cp of
           None \<Rightarrow> None
         | Some e \<Rightarrow> callerScopeConjunctsLoop (conjs @ dnfOrNothing e) cps resource action)
      else if Resource cp \<noteq> resource then callerScopeConjunctsLoop conjs cps resource action
      else if Action cp \<noteq> ''*'' \<and> Action cp \<noteq> action
      then callerScopeConjunctsLoop conjs cps resource action
      else
        (case Scope cp of
           None \<Rightarrow> None
         | Some e \<Rightarrow> callerScopeConjunctsLoop (conjs @ dnfOrNothing e) cps resource action))"

definition callerScopeConjuncts :: "permission list \<Rightarrow> string \<Rightarrow> string \<Rightarrow> dnf option" where
  "callerScopeConjuncts callerPerms resource action =
     callerScopeConjunctsLoop [] callerPerms resource action"

definition callerWildcardConjuncts :: "permission list \<Rightarrow> dnf" where
  "callerWildcardConjuncts callerPerms =
     concat (map (\<lambda>cp. if \<not> IsWildcard cp then []
                       else (case Scope cp of None \<Rightarrow> [] | Some e \<Rightarrow> dnfOrNothing e)) callerPerms)"

definition callerHolds :: "permission list \<Rightarrow> permission \<Rightarrow> bool" where
  "callerHolds callerPerms req =
     (if IsWildcard req then
        (if list_ex (\<lambda>cp. IsWildcard cp \<and> Scope cp = None) callerPerms then True
         else
           (case Scope req of
              None \<Rightarrow> False
            | Some e \<Rightarrow>
                (let callerWild = callerWildcardConjuncts callerPerms in
                 if callerWild = [] then False
                 else
                   (case toDNF e of
                      Inl _ \<Rightarrow> False
                    | Inr dnf \<Rightarrow> list_all (\<lambda>ri. disjunctCovered ri callerWild) dnf))))
      else
        (case Scope req of
           None \<Rightarrow> callerUnrestrictedOn callerPerms (Resource req) (Action req)
         | Some e \<Rightarrow>
             (case toDNF e of
                Inl _ \<Rightarrow> False
              | Inr dnf \<Rightarrow>
                  (case callerScopeConjuncts callerPerms (Resource req) (Action req) of
                     None \<Rightarrow> True
                   | Some callerConjs \<Rightarrow> list_all (\<lambda>ri. disjunctCovered ri callerConjs) dnf))))"

section \<open>The gates\<close>

text \<open>\<^verbatim>\<open>ErrPermissionNotHeld\<close>, with the permission the message names.\<close>

datatype grant_error = ErrMissingCaller | ErrPermissionNotHeld permission

fun assertCallerCovers :: "permission list \<Rightarrow> permission list \<Rightarrow> (grant_error, unit) result" where
  "assertCallerCovers callerPerms [] = Inr ()"
| "assertCallerCovers callerPerms (req # required) =
     (if \<not> callerHolds callerPerms req then Inl (ErrPermissionNotHeld req)
      else assertCallerCovers callerPerms required)"

definition widenedRights :: "permission list \<Rightarrow> permission list \<Rightarrow> permission list" where
  "widenedRights was now = filter (\<lambda>p. \<not> callerHolds was p) now"

definition uncovered :: "permission list \<Rightarrow> permission list \<Rightarrow> bool" where
  "uncovered have want = (widenedRights have want \<noteq> [])"

definition effectivePermissions :: "permission list \<Rightarrow> scope_expr option \<Rightarrow> permission list" where
  "effectivePermissions perms scope =
     (case scope of
        None \<Rightarrow> perms
      | Some s \<Rightarrow> map (\<lambda>p. if \<not> IsWildcard p \<and> Scope p = None then p\<lparr>Scope := Some s\<rparr> else p) perms)"

text \<open>One row of \<^verbatim>\<open>selectAIDPermissionsSQL\<close>: the permission text and its role's default scope.\<close>

datatype load_error = BadPermission perm_error | BadDefaultScope scope_error

definition callerRow :: "string \<times> string option \<Rightarrow> (load_error, permission) result" where
  "callerRow row =
     (case row of (raw, rawScope) \<Rightarrow>
        (case ParsePermission raw of
           Inl e \<Rightarrow> Inl (BadPermission e)
         | Inr p \<Rightarrow>
             (case (case rawScope of None \<Rightarrow> Inr None | Some rs \<Rightarrow> ParseDefaultScope rs) of
                Inl e \<Rightarrow> Inl (BadDefaultScope e)
              | Inr scope \<Rightarrow>
                  Inr (if \<not> IsWildcard p \<and> Scope p = None \<and> scope \<noteq> None
                       then p\<lparr>Scope := scope\<rparr> else p))))"

text \<open>The rows the query returns are an argument: \<^verbatim>\<open>db.Query\<close> and \<^verbatim>\<open>rows.Scan\<close> are the database's.\<close>

definition callerPermissions :: "(string \<times> string option) list \<Rightarrow> (load_error, permission list) result" where
  "callerPermissions rows = map_result callerRow rows"

datatype may_grant_error = GrantLoad load_error | GrantRefused grant_error

definition assertCallerMayGrant ::
  "(string \<Rightarrow> (string \<times> string option) list) \<Rightarrow> string \<Rightarrow> permission list
     \<Rightarrow> (may_grant_error, unit) result" where
  "assertCallerMayGrant query callerAID required =
     (if required = [] then Inr ()
      else if callerAID = [] then Inl (GrantRefused ErrMissingCaller)
      else
        (case callerPermissions (query callerAID) of
           Inl e \<Rightarrow> Inl (GrantLoad e)
         | Inr callerPerms \<Rightarrow>
             (case assertCallerCovers callerPerms required of
                Inl e \<Rightarrow> Inl (GrantRefused e)
              | Inr u \<Rightarrow> Inr u)))"

section \<open>Soundness of the condition level\<close>

text \<open>The values of a node that a condition on a dimension is compared with.\<close>

definition candidates :: "string \<Rightarrow> string \<Rightarrow> scope_input \<Rightarrow> string list" where
  "candidates dim key inp =
     (if dim = dimCoven then inCovens inp
      else if dim = dimService then inServices inp
      else if dim = dimIncarnation then inIncarnations inp
      else if dim = dimHost then inHosts inp
      else if dim = dimTrait then traitsOf inp key
      else [])"

lemma evalCond_in:
  "cMatch c = MatchIn \<Longrightarrow> evalCond c inp = anyInSet (candidates (cDim c) (cKey c) inp) (cValues c)"
  by (simp add: evalCond_def candidates_def anyInSet_def)

lemma evalCond_glob:
  assumes "wf_cond c" and "cMatch c = MatchGlob"
  shows "evalCond c inp = list_ex (matchGlob c) (candidates (cDim c) (cKey c) inp)"
  using assms(1)
proof (cases rule: wf_cond_cases)
  case (glob d g)
  then have "matchGlob c = matchString (compileGlob g)"
    by (intro ext) (simp add: matchGlob_def)
  moreover consider "d = dimHost" | "d = dimIncarnation" using glob(2) by blast
  then have "evalCond c inp = list_ex (matchString (compileGlob g)) (candidates (cDim c) (cKey c) inp)"
    by cases (simp_all add: glob(1) evalCond_def candidates_def anyGlobMatch_def)
  ultimately show ?thesis by simp
qed (use assms(2) in simp_all)

lemma wf_glob_eq:
  assumes "wf_cond c" and "wf_cond d" and "cMatch c = MatchGlob" and "cMatch d = MatchGlob"
    and "cDim c = cDim d" and "cValues c ! 0 = cValues d ! 0"
  shows "c = d"
  using assms(1)
proof (cases rule: wf_cond_cases)
  case (glob x g)
  note c = this
  show ?thesis
    using assms(2) by (cases rule: wf_cond_cases) (use c assms(3-) in auto)
qed (use assms in auto)

lemma atomSubset_sound:
  assumes "cMatch ar = MatchGlob \<Longrightarrow> wf_cond ar" and "wf_cond ac"
    and "cDim ar = cDim ac" and "cKey ar = cKey ac" and "atomSubset ar ac" and "evalCond ar inp"
  shows "evalCond ac inp"
proof (cases "cMatch ar")
  case MatchIn
  then obtain h where h: "h \<in> set (candidates (cDim ac) (cKey ac) inp)" "h \<in> set (cValues ar)"
    using assms(3,4,6) by (auto simp: evalCond_in anyInSet_def list_ex_iff)
  show ?thesis
  proof (cases "cMatch ac")
    case MatchIn
    with h assms(5) \<open>cMatch ar = MatchIn\<close> show ?thesis
      by (auto simp: atomSubset_def evalCond_in anyInSet_def list_ex_iff list_all_iff)
  next
    case MatchGlob
    with h assms(2,5) \<open>cMatch ar = MatchIn\<close> show ?thesis
      by (auto simp: atomSubset_def evalCond_glob list_ex_iff list_all_iff)
  qed
next
  case MatchGlob
  with assms(5) have "cMatch ac = MatchGlob" "cValues ar ! 0 = cValues ac ! 0"
    by (auto simp: atomSubset_def split: match_op.splits)
  with assms MatchGlob have "ar = ac" by (intro wf_glob_eq) auto
  with assms(6) show ?thesis by simp
qed

lemma impliesConj_sound:
  assumes "\<forall>ar \<in> set ri. cMatch ar = MatchGlob \<longrightarrow> wf_cond ar" and "list_all wf_cond cj"
    and "impliesConj ri cj" and "evalConj ri inp"
  shows "evalConj cj inp"
  unfolding evalConj_def list_all_iff
proof
  fix ac
  assume ac: "ac \<in> set cj"
  then obtain ar where "ar \<in> set ri" "cDim ar = cDim ac" "cKey ar = cKey ac" "atomSubset ar ac"
    using assms(3) by (auto simp: impliesConj_def list_all_iff list_ex_iff)
  with ac assms show "evalCond ac inp"
    by (intro atomSubset_sound [of ar ac]) (auto simp: list_all_iff evalConj_def)
qed

lemma impliesConj_refl: "impliesConj cj cj"
  unfolding impliesConj_def list_all_iff list_ex_iff
proof
  fix ac
  assume "ac \<in> set cj"
  moreover have "atomSubset ac ac" by (cases "cMatch ac") (auto simp: atomSubset_def list_all_iff)
  ultimately show "\<exists>ar\<in>set cj. cDim ar = cDim ac \<and> cKey ar = cKey ac \<and> atomSubset ar ac" by blast
qed

lemma disjunctCovered_sound:
  assumes wf: "list_all wf_cond ri" "list_all (list_all wf_cond) D"
    and cov: "disjunctCovered ri D" and ev: "evalConj ri inp"
  shows "evalDNF D inp"
proof (cases "list_ex (impliesConj ri) D")
  case True
  then obtain cj where cj: "cj \<in> set D" "impliesConj ri cj" by (auto simp: list_ex_iff)
  with wf ev have "evalConj cj inp"
    by (intro impliesConj_sound [of ri cj]) (auto simp: list_all_iff)
  with cj show ?thesis by (auto simp: evalDNF_iff)
next
  case False
  with cov obtain atom where ri: "ri = [atom]" and m: "cMatch atom = MatchIn"
    and vs: "\<forall>v \<in> set (cValues atom). \<exists>cj \<in> set D. impliesConj [inCond (cDim atom) (cKey atom) [v]] cj"
    by (auto simp: disjunctCovered_def list_all_iff list_ex_iff split: list.splits)
  from ev ri m obtain v where v: "v \<in> set (cValues atom)"
    and h: "v \<in> set (candidates (cDim atom) (cKey atom) inp)"
    by (auto simp: evalCond_in anyInSet_def list_ex_iff)
  from vs v obtain cj where cj: "cj \<in> set D" "impliesConj [inCond (cDim atom) (cKey atom) [v]] cj"
    by blast
  moreover have "evalConj [inCond (cDim atom) (cKey atom) [v]] inp"
    using h by (auto simp: evalCond_in anyInSet_def list_ex_iff)
  ultimately have "evalConj cj inp"
    using wf(2) by (intro impliesConj_sound [OF _ _ cj(2)]) (auto simp: list_all_iff)
  with cj show ?thesis by (auto simp: evalDNF_iff)
qed

lemma disjunctCovered_member: "ri \<in> set D \<Longrightarrow> disjunctCovered ri D"
  using impliesConj_refl by (auto simp: disjunctCovered_def list_ex_iff)

lemma disjunctCovered_mono:
  assumes "set D \<subseteq> set D'" and "disjunctCovered ri D"
  shows "disjunctCovered ri D'"
  using assms unfolding disjunctCovered_def
  by (auto simp: list_ex_iff list_all_iff split: list.splits if_splits) (meson subsetD)+

section \<open>Soundness of the permission level\<close>

fun leafConds :: "scope_expr \<Rightarrow> scope_cond list" where
  "leafConds (OpLeaf c) = [c]"
| "leafConds (OpAnd cs) = concat (map leafConds cs)"
| "leafConds (OpOr cs) = concat (map leafConds cs)"

lemma wf_leafConds: "wf_expr e \<Longrightarrow> list_all wf_cond (leafConds e)"
  by (induction e) (auto simp: list_all_iff)

lemma foldl_dnfProduct_conds:
  "cj \<in> set (foldl dnfProduct res ds) \<Longrightarrow>
     \<exists>r \<in> set res. set cj \<subseteq> set r \<union> (\<Union>d \<in> set ds. \<Union>c \<in> set d. set c)"
proof (induction ds arbitrary: res)
  case (Cons d ds)
  then obtain r where "r \<in> set (dnfProduct res d)" "set cj \<subseteq> set r \<union> (\<Union>d \<in> set ds. \<Union>c \<in> set d. set c)"
    by auto
  moreover from this(1) obtain r0 d0 where "r0 \<in> set res" "d0 \<in> set d" "r = r0 @ d0"
    by (auto simp: dnfProduct_def)
  ultimately show ?case by (intro bexI [of _ r0]) auto
qed auto

lemma toDNF_conds: "toDNF e = Inr d \<Longrightarrow> cj \<in> set d \<Longrightarrow> set cj \<subseteq> set (leafConds e)"
proof (induction e arbitrary: d cj)
  case (OpLeaf c)
  then show ?case by auto
next
  case (OpAnd cs)
  from OpAnd.prems obtain ds where ds: "map toDNF cs = map Inr ds" and d: "d = foldl dnfProduct [[]] ds"
    using dnfAndLoop_sound by fastforce
  have "\<exists>c \<in> set cs. toDNF c = Inr x" if "x \<in> set ds" for x
    using that ds by (metis (mono_tags, lifting) image_eqI image_iff list.set_map)
  then have child: "set y \<subseteq> set (leafConds (OpAnd cs))" if "x \<in> set ds" "y \<in> set x" for x y
    using that OpAnd.IH by fastforce
  have "set cj \<subseteq> (\<Union>d \<in> set ds. \<Union>c \<in> set d. set c)"
    using foldl_dnfProduct_conds [of cj "[[]]" ds] OpAnd.prems(2) d by auto
  with child show ?case by blast
next
  case (OpOr cs)
  from OpOr.prems obtain ds where ds: "map toDNF cs = map Inr ds" and d: "d = concat ds"
    using dnfOrLoop_sound by fastforce
  then obtain x where x: "x \<in> set ds" "cj \<in> set x" using OpOr.prems(2) by auto
  then obtain c where "c \<in> set cs" "toDNF c = Inr x"
    using ds by (metis (mono_tags, lifting) image_eqI image_iff list.set_map)
  with OpOr.IH x show ?case by fastforce
qed

lemma toDNF_wf: "wf_expr e \<Longrightarrow> toDNF e = Inr d \<Longrightarrow> list_all (list_all wf_cond) d"
  using toDNF_conds wf_leafConds by (fastforce simp: list_all_iff)

lemma dnfOrNothing_sound:
  assumes "wf_expr e"
  shows "list_all (list_all wf_cond) (dnfOrNothing e)"
    and "evalDNF (dnfOrNothing e) inp \<Longrightarrow> evalNode e inp"
  using toDNF_wf [OF assms] toDNF_eval [of e]
  by (auto simp: dnfOrNothing_def split: sum.splits)

lemma callerUnrestrictedOn_iff:
  "callerUnrestrictedOn ps r a \<longleftrightarrow> (\<exists>p \<in> set ps. covers p r a \<and> Scope p = None)"
  by (auto simp: callerUnrestrictedOn_def covers_def list_ex_iff split: if_splits)

definition scopeConjuncts :: "permission \<Rightarrow> dnf" where
  "scopeConjuncts p = (case Scope p of None \<Rightarrow> [] | Some e \<Rightarrow> dnfOrNothing e)"

lemma callerScopeConjunctsLoop_eq:
  "callerScopeConjunctsLoop acc ps r a =
     (if callerUnrestrictedOn ps r a then None
      else Some (acc @ concat (map scopeConjuncts (filter (\<lambda>p. covers p r a) ps))))"
proof (induction ps arbitrary: acc)
  case (Cons p ps)
  have step: "callerScopeConjunctsLoop acc (p # ps) r a =
      (if covers p r a
       then (case Scope p of None \<Rightarrow> None
             | Some e \<Rightarrow> callerScopeConjunctsLoop (acc @ dnfOrNothing e) ps r a)
       else callerScopeConjunctsLoop acc ps r a)"
    by (simp add: covers_def)
  have un: "callerUnrestrictedOn (p # ps) r a \<longleftrightarrow>
      (covers p r a \<and> Scope p = None) \<or> callerUnrestrictedOn ps r a"
    by (auto simp: callerUnrestrictedOn_iff)
  show ?case unfolding step un
    by (cases "Scope p") (simp_all add: Cons.IH scopeConjuncts_def [of p])
qed (simp add: callerUnrestrictedOn_iff)

lemma callerScopeConjuncts_eq:
  "callerScopeConjuncts ps r a =
     (if callerUnrestrictedOn ps r a then None
      else Some (concat (map scopeConjuncts (filter (\<lambda>p. covers p r a) ps))))"
  by (simp add: callerScopeConjuncts_def callerScopeConjunctsLoop_eq)

lemma callerWildcardConjuncts_eq:
  "callerWildcardConjuncts ps = concat (map scopeConjuncts (filter IsWildcard ps))"
  by (induction ps) (auto simp: callerWildcardConjuncts_def scopeConjuncts_def)

lemma covered_dnf:
  assumes wf: "\<forall>p \<in> set ps. wf_scope (Scope p)" "wf_expr e" and e: "toDNF e = Inr d"
    and cov: "list_all (\<lambda>ri. disjunctCovered ri (concat (map scopeConjuncts ps))) d"
    and ev: "evalNode e inp"
  shows "\<exists>p \<in> set ps. evalScope (Scope p) inp"
proof -
  have wfp: "list_all (list_all wf_cond) (scopeConjuncts p)"
    and evp: "evalDNF (scopeConjuncts p) inp \<Longrightarrow> evalScope (Scope p) inp" if "p \<in> set ps" for p
    using wf(1) that dnfOrNothing_sound by (auto simp: scopeConjuncts_def split: option.splits)
  from ev e obtain ri where ri: "ri \<in> set d" "evalConj ri inp"
    by (auto simp: toDNF_eval evalDNF_iff)
  have "evalDNF (concat (map scopeConjuncts ps)) inp"
    by (rule disjunctCovered_sound [OF _ _ _ ri(2)])
      (use ri(1) toDNF_wf [OF wf(2) e] wfp cov in \<open>auto simp: list_all_iff\<close>)
  then obtain p where "p \<in> set ps" "evalDNF (scopeConjuncts p) inp" by (auto simp: evalDNF_iff)
  with evp show ?thesis by blast
qed

lemma covers_trans:
  "\<not> IsWildcard req \<Longrightarrow> covers p (Resource req) (Action req) \<Longrightarrow> covers req r a \<Longrightarrow> covers p r a"
  by (auto simp: covers_def split: if_splits)

lemma callerHolds_sound:
  assumes wf: "\<forall>p \<in> set ps. wf_scope (Scope p)" "wf_scope (Scope req)"
    and holds: "callerHolds ps req" and gr: "grants req r a inp"
  shows "\<exists>p \<in> set ps. grants p r a inp"
proof (cases "IsWildcard req")
  case True
  show ?thesis
  proof (cases "list_ex (\<lambda>cp. IsWildcard cp \<and> Scope cp = None) ps")
    case True
    then obtain p where "p \<in> set ps" "IsWildcard p" "Scope p = None" by (auto simp: list_ex_iff)
    then show ?thesis by (intro bexI [of _ p]) (auto simp: grants_def covers_def)
  next
    case False
    with holds \<open>IsWildcard req\<close> obtain e d where e: "Scope req = Some e" "toDNF e = Inr d"
      and cov: "list_all (\<lambda>ri. disjunctCovered ri (concat (map scopeConjuncts (filter IsWildcard ps)))) d"
      by (auto simp: callerHolds_def callerWildcardConjuncts_eq Let_def
          split: option.splits sum.splits if_splits)
    with gr wf have "\<exists>p \<in> set (filter IsWildcard ps). evalScope (Scope p) inp"
      by (intro covered_dnf [of _ e d]) (auto simp: grants_def)
    then show ?thesis by (auto simp: grants_def covers_def)
  qed
next
  case False
  let ?R = "Resource req" and ?A = "Action req"
  have cases: "callerUnrestrictedOn ps ?R ?A \<or>
      (\<exists>e d. Scope req = Some e \<and> toDNF e = Inr d \<and>
        list_all (\<lambda>ri. disjunctCovered ri (concat (map scopeConjuncts (filter (\<lambda>p. covers p ?R ?A) ps)))) d)"
    using holds False
    by (auto simp: callerHolds_def callerScopeConjuncts_eq split: option.splits sum.splits if_splits)
  then have "\<exists>p \<in> set ps. covers p ?R ?A \<and> evalScope (Scope p) inp"
  proof
    assume "callerUnrestrictedOn ps ?R ?A"
    then show ?thesis unfolding callerUnrestrictedOn_iff by fastforce
  next
    assume "\<exists>e d. Scope req = Some e \<and> toDNF e = Inr d \<and>
      list_all (\<lambda>ri. disjunctCovered ri (concat (map scopeConjuncts (filter (\<lambda>p. covers p ?R ?A) ps)))) d"
    then obtain e d where "Scope req = Some e" "toDNF e = Inr d"
      "list_all (\<lambda>ri. disjunctCovered ri (concat (map scopeConjuncts (filter (\<lambda>p. covers p ?R ?A) ps)))) d"
      by blast
    with gr wf have "\<exists>p \<in> set (filter (\<lambda>p. covers p ?R ?A) ps). evalScope (Scope p) inp"
      by (intro covered_dnf [of _ e d]) (auto simp: grants_def)
    then show ?thesis by auto
  qed
  with gr covers_trans [OF False] show ?thesis by (auto simp: grants_def)
qed

section \<open>Reflexivity and monotonicity\<close>

definition resolvable :: "permission \<Rightarrow> bool" where
  "resolvable p = (case Scope p of None \<Rightarrow> True | Some e \<Rightarrow> is_ok (toDNF e))"

lemma scopeConjuncts_resolved: "Scope p = Some e \<Longrightarrow> toDNF e = Inr d \<Longrightarrow> scopeConjuncts p = d"
  by (simp add: scopeConjuncts_def dnfOrNothing_def)

lemma covers_self: "covers p (Resource p) (Action p)"
  by (simp add: covers_def)

lemma disjunctCovered_concat:
  assumes "p \<in> set ps" and "ri \<in> set (scopeConjuncts p)"
  shows "disjunctCovered ri (concat (map scopeConjuncts ps))"
  using assms by (intro disjunctCovered_member) auto

lemma callerHolds_refl:
  assumes "resolvable p" and "p \<in> set ps" and "wf_scope (Scope p)"
  shows "callerHolds ps p"
proof (cases "Scope p")
  case None
  with assms(2) covers_self [of p] show ?thesis
    by (auto simp: callerHolds_def list_ex_iff callerUnrestrictedOn_iff)
next
  case (Some e)
  with assms(1) obtain d where d: "toDNF e = Inr d"
    by (cases "toDNF e") (auto simp: resolvable_def)
  note sc = scopeConjuncts_resolved [OF Some d]
  have cov: "list_all (\<lambda>ri. disjunctCovered ri (concat (map scopeConjuncts (filter P ps)))) d" if "P p" for P
    using that assms(2) sc by (auto simp: list_all_iff intro!: disjunctCovered_concat [of p])
  have "0 < length d"
    using toDNF_length [OF d] dnfCount_pos wf_expr_orNonempty Some assms(3) by simp
  then have ne: "concat (map scopeConjuncts (filter IsWildcard ps)) \<noteq> []" if "IsWildcard p"
    using that assms(2) sc by auto
  show ?thesis
  proof (cases "IsWildcard p")
    case True
    with Some d cov [of IsWildcard] ne show ?thesis
      unfolding callerHolds_def callerWildcardConjuncts_eq Let_def by (simp del: concat_eq_Nil_conv)
  next
    case False
    with Some d cov [of "\<lambda>q. covers q (Resource p) (Action p)"] covers_self [of p] show ?thesis
      unfolding callerHolds_def callerScopeConjuncts_eq by simp
  qed
qed

lemma callerHolds_mono:
  assumes "set ps \<subseteq> set qs" and "callerHolds ps req"
  shows "callerHolds qs req"
proof -
  have sub: "set (concat (map scopeConjuncts (filter P ps))) \<subseteq> set (concat (map scopeConjuncts (filter P qs)))" for P
    using assms(1) by auto
  have un: "callerUnrestrictedOn ps r a \<Longrightarrow> callerUnrestrictedOn qs r a" for r a
    using assms(1) by (auto simp: callerUnrestrictedOn_iff)
  have wild: "list_ex (\<lambda>cp. IsWildcard cp \<and> Scope cp = None) ps \<Longrightarrow>
      list_ex (\<lambda>cp. IsWildcard cp \<and> Scope cp = None) qs"
    using assms(1) by (auto simp: list_ex_iff)
  have cov: "list_all (\<lambda>ri. disjunctCovered ri (concat (map scopeConjuncts (filter P ps)))) d \<Longrightarrow>
      list_all (\<lambda>ri. disjunctCovered ri (concat (map scopeConjuncts (filter P qs)))) d" for P d
    using disjunctCovered_mono [OF sub] by (simp add: list_all_iff)
  have ne: "concat (map scopeConjuncts (filter IsWildcard ps)) \<noteq> [] \<Longrightarrow>
      concat (map scopeConjuncts (filter IsWildcard qs)) \<noteq> []"
    using sub [of IsWildcard] by (metis empty_set set_empty subset_empty)
  show ?thesis
    using assms(2) un [of "Resource req" "Action req"] wild cov [of IsWildcard] ne
      cov [of "\<lambda>p. covers p (Resource req) (Action req)"]
    unfolding callerHolds_def callerWildcardConjuncts_eq callerScopeConjuncts_eq Let_def
    by (simp split: option.splits sum.splits if_splits)
qed

section \<open>The containment interface\<close>

text \<open>
  What the gates rely on, with a request as the thing a right grants: a containment test that is
  sound on well-formed rights, admits a right the holder has, and never loses by holding more.
\<close>

locale containment =
  fixes gives :: "'p \<Rightarrow> 'q \<Rightarrow> bool"
    and holds :: "'p list \<Rightarrow> 'p \<Rightarrow> bool"
    and wf :: "'p \<Rightarrow> bool"
    and known :: "'p \<Rightarrow> bool"
  assumes holds_sound:
      "list_all wf ps \<Longrightarrow> wf p \<Longrightarrow> holds ps p \<Longrightarrow> gives p q \<Longrightarrow> \<exists>c \<in> set ps. gives c q"
    and holds_refl: "known p \<Longrightarrow> wf p \<Longrightarrow> p \<in> set ps \<Longrightarrow> holds ps p"
    and holds_mono: "set ps \<subseteq> set qs \<Longrightarrow> holds ps p \<Longrightarrow> holds qs p"
begin

definition gives_any :: "'p list \<Rightarrow> 'q \<Rightarrow> bool" where
  "gives_any ps q \<longleftrightarrow> (\<exists>p \<in> set ps. gives p q)"

lemma all_held_within:
  assumes "list_all wf ps" and "list_all wf req" and "list_all (holds ps) req" and "gives_any req q"
  shows "gives_any ps q"
  using assms holds_sound unfolding gives_any_def list_all_iff by blast

lemma gained_is_reported:
  assumes "list_all wf was" and "list_all wf now" and "gives_any now q" and "\<not> gives_any was q"
  shows "filter (\<lambda>p. \<not> holds was p) now \<noteq> []"
proof -
  have "\<not> list_all (holds was) now" using assms all_held_within by blast
  then show ?thesis by (auto simp: list_all_iff filter_empty_conv)
qed

lemma unchanged_is_quiet:
  assumes "list_all known now" and "list_all wf now" and "set now \<subseteq> set was"
  shows "filter (\<lambda>p. \<not> holds was p) now = []"
  using assms holds_refl by (fastforce simp: filter_empty_conv list_all_iff)

lemma more_held_less_gained:
  assumes "set was \<subseteq> set was'"
  shows "set (filter (\<lambda>p. \<not> holds was' p) now) \<subseteq> set (filter (\<lambda>p. \<not> holds was p) now)"
  using holds_mono [OF assms] by auto

end

definition gives_request :: "permission \<Rightarrow> string \<times> string \<times> scope_input \<Rightarrow> bool" where
  "gives_request p q = (case q of (r, a, inp) \<Rightarrow> grants p r a inp)"

lemma gives_request_simp [simp]: "gives_request p (r, a, inp) = grants p r a inp"
  by (simp add: gives_request_def)

definition scoped_wf :: "permission \<Rightarrow> bool" where
  "scoped_wf p = wf_scope (Scope p)"

interpretation subset: containment gives_request callerHolds scoped_wf resolvable
proof
  show "\<exists>c \<in> set ps. gives_request c q"
    if "list_all scoped_wf ps" "scoped_wf p" "callerHolds ps p" "gives_request p q" for ps p q
    using that callerHolds_sound [of ps p]
    by (cases q) (auto simp: list_all_iff scoped_wf_def)
  show "callerHolds ps p" if "resolvable p" "scoped_wf p" "p \<in> set ps" for p ps
    using that callerHolds_refl by (simp add: scoped_wf_def)
  show "callerHolds qs p" if "set ps \<subseteq> set qs" "callerHolds ps p" for ps qs p
    using that by (rule callerHolds_mono)
qed

definition grantsAny :: "permission list \<Rightarrow> string \<Rightarrow> string \<Rightarrow> scope_input \<Rightarrow> bool" where
  "grantsAny ps r a inp = list_ex (\<lambda>p. grants p r a inp) ps"

lemma grantsAny_gives: "subset.gives_any ps (r, a, inp) = grantsAny ps r a inp"
  by (simp add: subset.gives_any_def grantsAny_def list_ex_iff)

lemma assertCallerCovers_iff:
  "assertCallerCovers ps required = Inr u \<longleftrightarrow> list_all (callerHolds ps) required"
  by (induction required) auto

lemma assertCallerCovers_within:
  assumes "list_all scoped_wf ps" and "list_all scoped_wf required"
    and "assertCallerCovers ps required = Inr ()" and "grantsAny required r a inp"
  shows "grantsAny ps r a inp"
  using subset.all_held_within [of ps required "(r, a, inp)"] assms
  by (simp add: assertCallerCovers_iff grantsAny_gives)

lemma uncovered_gained:
  assumes "list_all scoped_wf was" and "list_all scoped_wf now"
    and "grantsAny now r a inp" and "\<not> grantsAny was r a inp"
  shows "uncovered was now"
  using subset.gained_is_reported [of was now "(r, a, inp)"] assms
  by (simp add: uncovered_def widenedRights_def grantsAny_gives)

section \<open>Role scope on the rows\<close>

lemma effectivePermissions_grants:
  "grantsAny (effectivePermissions ps s) r a inp \<longleftrightarrow> list_ex (\<lambda>p. grantsInRole p s r a inp) ps"
proof (induction ps)
  case Nil
  then show ?case by (simp add: grantsAny_def effectivePermissions_def split: option.split)
next
  case (Cons p ps)
  then show ?case
    by (cases s; cases "Scope p")
      (auto simp: grantsAny_def effectivePermissions_def grantsInRole_def grants_def
        effectiveScope_def covers_def)
qed

lemma effectivePermissions_wf:
  "list_all scoped_wf ps \<Longrightarrow> wf_scope s \<Longrightarrow> list_all scoped_wf (effectivePermissions ps s)"
  by (cases s) (auto simp: effectivePermissions_def list_all_iff scoped_wf_def)

lemma callerRow_wf:
  assumes "callerRow row = Inr p"
  shows "scoped_wf p"
proof -
  obtain raw rawScope where row: "row = (raw, rawScope)" by (cases row)
  with assms obtain q scope where q: "ParsePermission raw = Inr q"
    and scope: "(case rawScope of None \<Rightarrow> Inr None | Some rs \<Rightarrow> ParseDefaultScope rs) = Inr scope"
    and p: "p = (if \<not> IsWildcard q \<and> Scope q = None \<and> scope \<noteq> None then q\<lparr>Scope := scope\<rparr> else q)"
    by (auto simp: callerRow_def split: sum.splits)
  have "wf_scope scope"
    using scope by (auto split: option.splits dest: ParseDefaultScope_Inr)
  with p ParsePermission_Inr(1) [OF q] show ?thesis
    by (auto simp: scoped_wf_def wf_perm_scope)
qed

lemma callerPermissions_wf: "callerPermissions rows = Inr ps \<Longrightarrow> list_all scoped_wf ps"
  unfolding callerPermissions_def list_all_iff
  by (meson callerRow_wf map_result_set)

section \<open>Properties\<close>

text \<open>Permissions the witnesses share: a caller bound to two hosts, and a narrower grant.\<close>

definition onHosts :: "string list \<Rightarrow> permission" where
  "onHosts hs = \<lparr>IsWildcard = False, Resource = ''incarnation'', Action = ''run'',
     Scope = Some (OpLeaf (inCond dimHost [] hs))\<rparr>"

definition onHostGlob :: "string \<Rightarrow> permission" where
  "onHostGlob g = \<lparr>IsWildcard = False, Resource = ''incarnation'', Action = ''*'',
     Scope = Some (OpLeaf (newGlobCond dimHost g))\<rparr>"

definition hostInput :: "string \<Rightarrow> scope_input" where
  "hostInput h = \<lparr>inCovens = [], inServices = [], inIncarnations = [], inHosts = [h], inTraits = Map.empty\<rparr>"

lemma onHosts_wf: "hs \<noteq> [] \<Longrightarrow> list_all wf_value hs \<Longrightarrow> scoped_wf (onHosts hs)"
  by (simp add: scoped_wf_def onHosts_def wf_inCond scopeDims_def)

lemma onHostGlob_wf: "wf_value g \<Longrightarrow> scoped_wf (onHostGlob g)"
  by (simp add: scoped_wf_def onHostGlob_def wf_newGlobCond)

lemma wf_value_w: "wf_value (CHR ''w'' # s)" if "CHR 0x22 \<notin> set s" "length s < 256"
  using that by (simp add: wf_value_def maxScopeValueLen_def)

lemma sample_holds: "callerHolds [onHostGlob ''w*''] (onHosts [''w1'', ''w2''])"
  by (simp add: callerHolds_def onHostGlob_def onHosts_def callerScopeConjuncts_def dnfOrNothing_def
      disjunctCovered_def impliesConj_def atomSubset_def matchGlob_def matchString_def compileGlob_def
      runes_def code_def)

lemma sample_grants: "grants (onHosts [''w1'', ''w2'']) ''incarnation'' ''run'' (hostInput ''w2'')"
  by (simp add: grants_def covers_def onHosts_def evalCond_def anyInSet_def hostInput_def)

text \<open>
  (C2) No escalation: a right the containment check lets the caller pass on gives nothing, on any
  resource, action and node, that one of the caller's own rights does not already give. Both sides
  are permissions as the parser builds them.
\<close>

theorem callerHolds_no_escalation:
  assumes "\<forall>p \<in> set callerPerms. wf_scope (Scope p)" and "wf_scope (Scope req)"
    and "callerHolds callerPerms req" and "grants req resource action inp"
  shows "\<exists>p \<in> set callerPerms. grants p resource action inp"
  using callerHolds_sound [OF assms] .

theorem callerHolds_no_escalation_witness:
  "callerHolds [onHostGlob ''w*''] (onHosts [''w1'', ''w2''])
   \<and> grants (onHostGlob ''w*'') ''incarnation'' ''run'' (hostInput ''w2'')"
  using callerHolds_no_escalation [OF _ _ sample_holds sample_grants] sample_holds
    onHostGlob_wf [of "''w*''"] onHosts_wf [of "[''w1'', ''w2'']"]
  by (simp add: wf_value_w scoped_wf_def)

text \<open>
  What is held can be passed on: a permission with a normal form is contained in every set of
  permissions it belongs to, and holding more never refuses a grant that was allowed.
\<close>

theorem callerHolds_held_and_monotone:
  assumes "wf_scope (Scope req)" and "resolvable req"
    and "req \<in> set callerPerms \<or> callerHolds fewer req" and "set fewer \<subseteq> set callerPerms"
  shows "callerHolds callerPerms req"
  using assms callerHolds_refl callerHolds_mono by blast

theorem callerHolds_held_and_monotone_witness:
  "callerHolds [onHosts [''x''], onHostGlob ''w*''] (onHosts [''w1'', ''w2''])"
  using callerHolds_held_and_monotone [of "onHosts [''w1'', ''w2'']" "[onHosts [''x''], onHostGlob ''w*'']"
      "[onHostGlob ''w*'']"] sample_holds onHosts_wf [of "[''w1'', ''w2'']"]
  by (simp add: wf_value_w scoped_wf_def resolvable_def onHosts_def)

text \<open>
  The grant gate: when \<open>assertCallerMayGrant\<close> lets a non-empty grant pass, the caller is named,
  its stored rows parse, and every request the granted permissions satisfy is one the caller's own
  effective permissions satisfy. The rows the query returns are arbitrary.
\<close>

theorem assertCallerMayGrant_within_caller:
  assumes "assertCallerMayGrant query callerAID required = Inr ()" and "required \<noteq> []"
    and "\<forall>p \<in> set required. wf_scope (Scope p)"
  shows "callerAID \<noteq> [] \<and> (\<exists>own. callerPermissions (query callerAID) = Inr own \<and>
     (\<forall>r a inp. grantsAny required r a inp \<longrightarrow> grantsAny own r a inp))"
proof -
  obtain own where own: "callerPermissions (query callerAID) = Inr own"
    and cov: "assertCallerCovers own required = Inr ()" and aid: "callerAID \<noteq> []"
    using assms(1,2) by (auto simp: assertCallerMayGrant_def split: if_splits sum.splits)
  have "list_all scoped_wf required" using assms(3) by (simp add: list_all_iff scoped_wf_def)
  then show ?thesis
    using aid own assertCallerCovers_within [OF callerPermissions_wf [OF own] _ cov] by blast
qed

lemma sample_query: "callerPermissions [(permString samplePerm, None)] = Inr [samplePerm]"
  using samplePerm_parsed by (simp add: callerPermissions_def callerRow_def)

theorem assertCallerMayGrant_within_caller_witness:
  "assertCallerMayGrant (\<lambda>_. [(permString samplePerm, None)]) ''archon'' [samplePerm] = Inr ()
   \<and> (\<exists>own. callerPermissions [(permString samplePerm, None)] = Inr own)"
proof -
  have "is_ok (toDNF sampleExpr)"
    using toDNF_ok_iff [OF wf_expr_orNonempty] sampleExpr_facts by blast
  then have "callerHolds [samplePerm] samplePerm"
    using sampleExpr_wf by (intro callerHolds_refl) (auto simp: resolvable_def samplePerm_def)
  then have "assertCallerMayGrant (\<lambda>_. [(permString samplePerm, None)]) ''archon'' [samplePerm] = Inr ()"
    using sample_query by (simp add: assertCallerMayGrant_def)
  from assertCallerMayGrant_within_caller [OF this] this samplePerm_facts(1) wf_perm_scope
  show ?thesis by auto
qed

text \<open>
  A gained right is reported: if the new form of a role satisfies a request that its old form
  did not, then \<open>widenedRights\<close> names at least one permission, so the gates that read it judge the
  change.
\<close>

theorem widenedRights_reports_gain:
  assumes "\<forall>p \<in> set was \<union> set now. wf_scope (Scope p)"
    and "grantsAny now r a inp" and "\<not> grantsAny was r a inp"
  shows "\<exists>p \<in> set (widenedRights was now). p \<in> set now \<and> \<not> callerHolds was p"
proof -
  have "uncovered was now"
    using assms by (intro uncovered_gained) (auto simp: list_all_iff scoped_wf_def)
  then obtain p where "p \<in> set (widenedRights was now)"
    unfolding uncovered_def by (metis list.set_intros(1) neq_Nil_conv)
  then show ?thesis by (auto simp: widenedRights_def)
qed

lemma sample_gain:
  "grantsAny [onHostGlob ''w*''] ''incarnation'' ''run'' (hostInput ''w2'')"
  "\<not> grantsAny [onHosts [''w1'']] ''incarnation'' ''run'' (hostInput ''w2'')"
  by (simp_all add: grantsAny_def grants_def covers_def onHosts_def onHostGlob_def evalCond_def anyInSet_def
      hostInput_def anyGlobMatch_def matchString_def compileGlob_def runes_def code_def)

theorem widenedRights_reports_gain_witness:
  "\<exists>p \<in> set (widenedRights [onHosts [''w1'']] [onHostGlob ''w*'']).
     p \<in> set [onHostGlob ''w*''] \<and> \<not> callerHolds [onHosts [''w1'']] p"
  using onHostGlob_wf [of "''w*''"] onHosts_wf [of "[''w1'']"]
  by (intro widenedRights_reports_gain [OF _ sample_gain]) (auto simp: wf_value_w scoped_wf_def)

end
