(* ===== verification/Rbac_Roles.thy ===== *)
theory Rbac_Roles
  imports Rbac_Subset
begin

text \<open>
  Derived roles (\<^verbatim>\<open>derived.go\<close> and \<^verbatim>\<open>flatten.go\<close> of \<^verbatim>\<open>keeper/internal/rbac\<close>): the parent graph and
  its validation, the conjunction of scopes, the attenuation of a child by its parent, and the
  resolution of a whole catalog. The lemmas show that validation leaves an acyclic graph of bounded
  depth, that resolution then never fails for depth or a missing parent, that its result is the one
  the definition of a derived role asks for whatever the order of the roles, and that a resolved role
  gives nothing its ancestors do not give.
\<close>

section \<open>Roles\<close>

record role =
  Name :: string
  Permissions :: "permission list"
  DefaultScope :: "scope_expr option"
  ParentRole :: string
  InertPermissions :: "permission list"

text \<open>What a role gives: the form \<open>Enforcer.Check\<close> decides on.\<close>

definition roleGrants :: "role \<Rightarrow> string \<Rightarrow> string \<Rightarrow> scope_input \<Rightarrow> bool" where
  "roleGrants role r a inp =
     list_ex (\<lambda>p. grantsInRole p (DefaultScope role) r a inp) (Permissions role)"

section \<open>The parent graph\<close>

definition maxRoleChainDepth :: nat where "maxRoleChainDepth = 4"

datatype role_error =
    ErrRoleParentUnknown string string
  | ErrRoleParentCycle string string
  | ErrRoleChainTooDeep string
  | ErrRoleScopeTooComplex string scope_error
  | NilRole string

text \<open>
  The walk up from one child: \<open>seen\<close>, \<open>cur\<close> and \<open>depth\<close> are the loop's variables. The cap ends it.
\<close>

function walkChain ::
  "string list \<Rightarrow> (string \<times> string) list \<Rightarrow> string \<Rightarrow> string list \<Rightarrow> string \<Rightarrow> nat
     \<Rightarrow> (role_error, unit) result" where
  "walkChain roles parents name seen cur depth =
     (case map_of parents cur of
        None \<Rightarrow> Inr ()
      | Some parent \<Rightarrow>
          if parent \<notin> set roles then Inl (ErrRoleParentUnknown cur parent)
          else if parent \<in> set seen then Inl (ErrRoleParentCycle name parent)
          else if maxRoleChainDepth < depth + 1 then Inl (ErrRoleChainTooDeep name)
          else walkChain roles parents name (parent # seen) parent (depth + 1))"
  by pat_completeness auto
termination
  by (relation "measure (\<lambda>(roles, parents, name, seen, cur, depth). maxRoleChainDepth - depth)") auto

declare walkChain.simps [simp del]

text \<open>
  Go ranges over the map of parents in no fixed order; the model takes the order of its list. The
  order only chooses which error is reported.
\<close>

fun validateLoop ::
  "string list \<Rightarrow> (string \<times> string) list \<Rightarrow> string list \<Rightarrow> (role_error, unit) result" where
  "validateLoop roles parents [] = Inr ()"
| "validateLoop roles parents (name # names) =
     (case walkChain roles parents name [name] name 1 of
        Inl e \<Rightarrow> Inl e
      | Inr _ \<Rightarrow> validateLoop roles parents names)"

definition validateRoleGraph ::
  "string list \<Rightarrow> (string \<times> string) list \<Rightarrow> (role_error, unit) result" where
  "validateRoleGraph roles parents = validateLoop roles parents (map fst parents)"

section \<open>Conjunction of scopes\<close>

definition appendConjuncts :: "scope_expr list \<Rightarrow> scope_expr \<Rightarrow> scope_expr list" where
  "appendConjuncts dst e = (case e of OpAnd cs \<Rightarrow> dst @ cs | _ \<Rightarrow> dst @ [e])"

text \<open>The loop that drops a term whose canonical text was seen before.\<close>

fun uniqueTerms :: "string list \<Rightarrow> scope_expr list \<Rightarrow> scope_expr list" where
  "uniqueTerms seen [] = []"
| "uniqueTerms seen (t # ts) =
     (if exprString t \<in> set seen then uniqueTerms seen ts
      else t # uniqueTerms (exprString t # seen) ts)"

definition andScopes :: "scope_expr option \<Rightarrow> scope_expr option \<Rightarrow> scope_expr option" where
  "andScopes outer inner =
     (case (outer, inner) of
        (None, _) \<Rightarrow> inner
      | (Some _, None) \<Rightarrow> outer
      | (Some x, Some y) \<Rightarrow>
          (let uniq = uniqueTerms [] (appendConjuncts (appendConjuncts [] x) y)
           in case uniq of [t] \<Rightarrow> Some t | _ \<Rightarrow> Some (OpAnd uniq)))"

definition checkScopeResolvable :: "scope_expr option \<Rightarrow> (scope_error, unit) result" where
  "checkScopeResolvable e =
     (case e of None \<Rightarrow> Inr ()
      | Some x \<Rightarrow> (case toDNF x of Inl err \<Rightarrow> Inl err | Inr _ \<Rightarrow> Inr ()))"

section \<open>Attenuation\<close>

record attenuation =
  aScope :: "scope_expr option"
  aKept :: "permission list"
  aRejected :: "permission list"

text \<open>One own permission under the parent's ceiling, as it is kept.\<close>

definition cappedPerm :: "scope_expr option \<Rightarrow> permission \<Rightarrow> permission" where
  "cappedPerm ceiling p =
     (if Scope p \<noteq> None then p\<lparr>Scope := andScopes ceiling (Scope p)\<rparr>
      else if IsWildcard p then p\<lparr>Scope := ceiling\<rparr>
      else p)"

text \<open>The form the containment check reads: a bare permission under the role's effective scope.\<close>

definition requestedPerm :: "scope_expr option \<Rightarrow> permission \<Rightarrow> permission" where
  "requestedPerm scope p =
     (if \<not> IsWildcard p \<and> Scope p = None then p\<lparr>Scope := scope\<rparr> else p)"

fun attenuateLoop ::
  "scope_expr option \<Rightarrow> permission list \<Rightarrow> attenuation \<Rightarrow> permission list
     \<Rightarrow> (scope_error, attenuation) result" where
  "attenuateLoop ceiling parentEff out [] = Inr out"
| "attenuateLoop ceiling parentEff out (own # ownPerms) =
     (let p = cappedPerm ceiling own in
      case checkScopeResolvable (Scope p) of
        Inl e \<Rightarrow> Inl e
      | Inr _ \<Rightarrow>
          (let req = requestedPerm (aScope out) p in
           if callerHolds parentEff req
           then attenuateLoop ceiling parentEff (out\<lparr>aKept := aKept out @ [p]\<rparr>) ownPerms
           else attenuateLoop ceiling parentEff (out\<lparr>aRejected := aRejected out @ [req]\<rparr>) ownPerms))"

definition attenuate ::
  "role \<Rightarrow> permission list \<Rightarrow> scope_expr option \<Rightarrow> (scope_error, attenuation) result" where
  "attenuate parent ownPerms ownScope =
     (let ceiling = DefaultScope parent;
          scope = andScopes ceiling ownScope
      in case checkScopeResolvable scope of
           Inl e \<Rightarrow> Inl e
         | Inr _ \<Rightarrow>
             attenuateLoop ceiling (effectivePermissions (Permissions parent) (DefaultScope parent))
               \<lparr>aScope = scope, aKept = [], aRejected = []\<rparr> ownPerms)"

section \<open>Resolution of the catalog\<close>

text \<open>
  The catalog \<^verbatim>\<open>map[string]*Role\<close> is an association list from names to roles; a write through the
  pointer is an update at the role's name. \<open>flattenRole k\<close> is the source's function at the depth from
  which \<open>k\<close> roles may still be entered, \<open>k = maxRoleChainDepth + 1 - depth\<close>, so the recursion is
  structural and ends where the source refuses. The role is passed by its name and read where the
  source reads through the pointer: once at the start and again after its parent is resolved. A nil
  pointer, which would panic, is the error \<open>NilRole\<close>; it never happens (\<open>flattenRole_errors\<close>).
\<close>

type_synonym catalog = "(string \<times> role) list"

definition writeRole :: "catalog \<Rightarrow> string \<Rightarrow> attenuation \<Rightarrow> catalog" where
  "writeRole byName name att =
     map (\<lambda>(n, r). (n, if n = name
        then r\<lparr>DefaultScope := aScope att, Permissions := aKept att, InertPermissions := aRejected att\<rparr>
        else r)) byName"

primrec flattenRole ::
  "nat \<Rightarrow> catalog \<Rightarrow> string \<Rightarrow> string list \<Rightarrow> (role_error, catalog \<times> string list) result" where
  "flattenRole 0 byName name ready =
     (if name \<in> set ready then Inr (byName, ready) else Inl (ErrRoleChainTooDeep name))"
| "flattenRole (Suc k) byName name ready =
     (if name \<in> set ready then Inr (byName, ready)
      else
        (case map_of byName name of
           None \<Rightarrow> Inl (NilRole name)
         | Some r \<Rightarrow>
             if ParentRole r = [] then Inr (byName, name # ready)
             else if map_of byName (ParentRole r) = None
             then Inl (ErrRoleParentUnknown name (ParentRole r))
             else
               (case flattenRole k byName (ParentRole r) ready of
                  Inl e \<Rightarrow> Inl e
                | Inr (byName1, ready1) \<Rightarrow>
                    (case (map_of byName1 (ParentRole r), map_of byName1 name) of
                       (Some parent, Some r1) \<Rightarrow>
                         (case attenuate parent (Permissions r1) (DefaultScope r1) of
                            Inl e \<Rightarrow> Inl (ErrRoleScopeTooComplex name e)
                          | Inr att \<Rightarrow> Inr (writeRole byName1 name att, name # ready1))
                     | _ \<Rightarrow> Inl (NilRole name)))))"

fun flattenAll ::
  "catalog \<Rightarrow> string list \<Rightarrow> string list \<Rightarrow> (role_error, catalog) result" where
  "flattenAll byName ready [] = Inr byName"
| "flattenAll byName ready (name # names) =
     (case flattenRole maxRoleChainDepth byName name ready of
        Inl e \<Rightarrow> Inl e
      | Inr (byName1, ready1) \<Rightarrow> flattenAll byName1 ready1 names)"

definition flattenRoleGraph :: "catalog \<Rightarrow> (role_error, catalog) result" where
  "flattenRoleGraph byName = flattenAll byName [] (sort (map fst byName))"

section \<open>Conjunction means conjunction\<close>

lemma uniqueTerms_subset: "set (uniqueTerms seen ts) \<subseteq> set ts"
  by (induction seen ts rule: uniqueTerms.induct) auto

lemma uniqueTerms_keeps:
  "list_all wf_expr ts \<Longrightarrow> t \<in> set ts \<Longrightarrow> exprString t \<notin> set seen \<Longrightarrow> t \<in> set (uniqueTerms seen ts)"
proof (induction seen ts rule: uniqueTerms.induct)
  case (2 seen u us)
  show ?case
  proof (cases "t = u")
    case True
    with 2 show ?thesis by simp
  next
    case False
    with 2 have "exprString t \<noteq> exprString u"
      using exprString_inject [of t u] by (auto simp: list_all_iff)
    with False 2 show ?thesis by auto
  qed
qed simp

lemma set_uniqueTerms: "list_all wf_expr ts \<Longrightarrow> set (uniqueTerms [] ts) = set ts"
  using uniqueTerms_subset [of "[]" ts] uniqueTerms_keeps [of ts _ "[]"] by auto

lemma appendConjuncts_facts:
  assumes "wf_expr e" and "list_all wf_expr dst"
  shows "list_all wf_expr (appendConjuncts dst e)" and "appendConjuncts dst e \<noteq> []"
    and "(\<forall>t \<in> set (appendConjuncts dst e). evalNode t inp) \<longleftrightarrow>
      (\<forall>t \<in> set dst. evalNode t inp) \<and> evalNode e inp"
  using assms by (cases e; auto simp: appendConjuncts_def list_all_iff)+

lemma andScopes_Some:
  assumes "wf_expr x" and "wf_expr y"
  obtains e where "andScopes (Some x) (Some y) = Some e" "wf_expr e"
    "\<And>inp. evalNode e inp \<longleftrightarrow> evalNode x inp \<and> evalNode y inp"
proof -
  let ?ts = "appendConjuncts (appendConjuncts [] x) y"
  let ?u = "uniqueTerms [] ?ts"
  have wf: "list_all wf_expr ?ts" and ne: "?ts \<noteq> []"
    and ev: "\<And>inp. (\<forall>t \<in> set ?ts. evalNode t inp) \<longleftrightarrow> evalNode x inp \<and> evalNode y inp"
    using appendConjuncts_facts [OF assms(2)] appendConjuncts_facts [OF assms(1), of "[]"] by auto
  have set: "set ?u = set ?ts" using wf by (rule set_uniqueTerms)
  have u: "\<And>inp. (\<forall>t \<in> set ?u. evalNode t inp) \<longleftrightarrow> evalNode x inp \<and> evalNode y inp"
    and wfu: "\<forall>t \<in> set ?u. wf_expr t"
    using ev wf unfolding set list_all_iff by auto
  have "?u \<noteq> []" using set ne by (metis set_empty)
  then consider t where "?u = [t]" | t t' ts where "?u = t # t' # ts"
    by (metis neq_Nil_conv)
  then show thesis
  proof cases
    case 1
    then show thesis using u wfu by (intro that [of t]) (auto simp: andScopes_def)
  next
    case 2
    then have "andScopes (Some x) (Some y) = Some (OpAnd ?u)" by (simp add: andScopes_def)
    moreover have "wf_expr (OpAnd ?u)" using wfu 2 by (simp add: list_all_iff)
    moreover have "evalNode (OpAnd ?u) inp \<longleftrightarrow> evalNode x inp \<and> evalNode y inp" for inp
      using u [of inp] by (simp add: list_all_iff)
    ultimately show thesis by (rule that)
  qed
qed

lemma andScopes_wf: "wf_scope s \<Longrightarrow> wf_scope t \<Longrightarrow> wf_scope (andScopes s t)"
proof (cases s; cases t)
  fix x y
  assume "wf_scope s" "wf_scope t" "s = Some x" "t = Some y"
  then show ?thesis by (metis andScopes_Some wf_scope_simps(2))
qed (auto simp: andScopes_def)

lemma andScopes_eval:
  assumes "wf_scope s" and "wf_scope t"
  shows "evalScope (andScopes s t) inp \<longleftrightarrow> evalScope s inp \<and> evalScope t inp"
proof (cases s; cases t)
  fix x y
  assume st: "s = Some x" "t = Some y"
  with assms obtain e where "andScopes s t = Some e"
    "evalNode e inp \<longleftrightarrow> evalNode x inp \<and> evalNode y inp"
    by (metis andScopes_Some wf_scope_simps(2))
  with st show ?thesis by simp
qed (auto simp: andScopes_def)

section \<open>What attenuation keeps\<close>

definition wf_role :: "role \<Rightarrow> bool" where
  "wf_role r \<longleftrightarrow> list_all scoped_wf (Permissions r) \<and> wf_scope (DefaultScope r)"

lemma attenuateLoop_Inr:
  assumes "attenuateLoop ceiling pe out ps = Inr att"
  shows "aScope att = aScope out"
    and "aKept att = aKept out @
      filter (\<lambda>p. callerHolds pe (requestedPerm (aScope out) p)) (map (cappedPerm ceiling) ps)"
    and "aRejected att = aRejected out @ map (requestedPerm (aScope out))
      (filter (\<lambda>p. \<not> callerHolds pe (requestedPerm (aScope out) p)) (map (cappedPerm ceiling) ps))"
  using assms
  by (induction ceiling pe out ps rule: attenuateLoop.induct)
    (auto simp: Let_def split: sum.splits if_splits)

lemma attenuate_Inr:
  assumes "attenuate parent ps s = Inr att"
  shows "aScope att = andScopes (DefaultScope parent) s"
    and "aKept att =
      filter (\<lambda>p. callerHolds (effectivePermissions (Permissions parent) (DefaultScope parent))
          (requestedPerm (aScope att) p)) (map (cappedPerm (DefaultScope parent)) ps)"
    and "aRejected att = map (requestedPerm (aScope att))
      (filter (\<lambda>p. \<not> callerHolds (effectivePermissions (Permissions parent) (DefaultScope parent))
          (requestedPerm (aScope att) p)) (map (cappedPerm (DefaultScope parent)) ps))"
proof -
  from assms have l: "attenuateLoop (DefaultScope parent)
      (effectivePermissions (Permissions parent) (DefaultScope parent))
      \<lparr>aScope = andScopes (DefaultScope parent) s, aKept = [], aRejected = []\<rparr> ps = Inr att"
    by (auto simp: attenuate_def Let_def split: sum.splits)
  note f = attenuateLoop_Inr [OF l]
  show "aScope att = andScopes (DefaultScope parent) s" using f(1) by simp
  with f(2,3) show "aKept att =
      filter (\<lambda>p. callerHolds (effectivePermissions (Permissions parent) (DefaultScope parent))
          (requestedPerm (aScope att) p)) (map (cappedPerm (DefaultScope parent)) ps)"
    and "aRejected att = map (requestedPerm (aScope att))
      (filter (\<lambda>p. \<not> callerHolds (effectivePermissions (Permissions parent) (DefaultScope parent))
          (requestedPerm (aScope att) p)) (map (cappedPerm (DefaultScope parent)) ps))"
    by simp_all
qed

lemma cappedPerm_wf: "wf_scope c \<Longrightarrow> scoped_wf p \<Longrightarrow> scoped_wf (cappedPerm c p)"
  using andScopes_wf [of c "Scope p"] by (auto simp: cappedPerm_def scoped_wf_def)

lemma requestedPerm_wf: "wf_scope s \<Longrightarrow> scoped_wf p \<Longrightarrow> scoped_wf (requestedPerm s p)"
  by (auto simp: requestedPerm_def scoped_wf_def)

lemma requestedPerm_grants: "grants (requestedPerm s p) r a inp = grantsInRole p s r a inp"
  by (auto simp: requestedPerm_def grants_def grantsInRole_def effectiveScope_def covers_def)

lemma cappedPerm_own:
  assumes "wf_scope c" and "scoped_wf p" and "wf_scope s"
    and "grantsInRole (cappedPerm c p) (andScopes c s) r a inp"
  shows "grantsInRole p s r a inp"
  using assms andScopes_eval [of c s inp] andScopes_eval [of c "Scope p" inp]
  by (auto simp: cappedPerm_def grantsInRole_def effectiveScope_def covers_def scoped_wf_def
      split: if_splits)

text \<open>A role as \<open>flattenRole\<close> writes it.\<close>

definition attenuatedRole :: "role \<Rightarrow> attenuation \<Rightarrow> role" where
  "attenuatedRole r att =
     r\<lparr>DefaultScope := aScope att, Permissions := aKept att, InertPermissions := aRejected att\<rparr>"

definition derivesFrom :: "role \<Rightarrow> role \<Rightarrow> bool" where
  "derivesFrom parent child \<longleftrightarrow> wf_role parent \<and>
     (\<exists>r att. wf_role r \<and> attenuate parent (Permissions r) (DefaultScope r) = Inr att
        \<and> Permissions child = aKept att \<and> DefaultScope child = aScope att)"

lemma attenuate_wf:
  assumes "wf_role parent" and "list_all scoped_wf ps" and "wf_scope s" and "attenuate parent ps s = Inr att"
  shows "wf_scope (aScope att)" and "list_all scoped_wf (aKept att)"
proof -
  show "wf_scope (aScope att)"
    using assms by (simp add: attenuate_Inr(1) andScopes_wf wf_role_def)
  show "list_all scoped_wf (aKept att)"
    using assms by (subst attenuate_Inr(2) [OF assms(4)])
      (auto simp: list_all_iff wf_role_def intro!: cappedPerm_wf)
qed

lemma attenuate_within_parent:
  assumes "wf_role parent" and "list_all scoped_wf ps" and "wf_scope s" and att: "attenuate parent ps s = Inr att"
    and "p \<in> set (aKept att)" and "grantsInRole p (aScope att) r a inp"
  shows "roleGrants parent r a inp"
proof -
  let ?eff = "effectivePermissions (Permissions parent) (DefaultScope parent)"
  have "callerHolds ?eff (requestedPerm (aScope att) p)"
    using assms(5) by (subst (asm) attenuate_Inr(2) [OF att]) auto
  moreover have "list_all scoped_wf ?eff"
    using assms(1) by (simp add: wf_role_def effectivePermissions_wf)
  moreover have "scoped_wf (requestedPerm (aScope att) p)"
    using attenuate_wf [OF assms(1-4)] assms(5) by (intro requestedPerm_wf) (auto simp: list_all_iff)
  ultimately have "grantsAny ?eff r a inp"
    using callerHolds_sound [of ?eff "requestedPerm (aScope att) p" r a inp] assms(6)
    by (auto simp: requestedPerm_grants list_all_iff scoped_wf_def grantsAny_def list_ex_iff)
  then show ?thesis by (simp add: effectivePermissions_grants roleGrants_def)
qed

section \<open>The narrowing interface\<close>

text \<open>
  What the role chain relies on: one step of derivation keeps well-formedness and gives nothing new.
\<close>

locale narrowing =
  fixes gives :: "'r \<Rightarrow> 'q \<Rightarrow> bool"
    and step :: "'r \<Rightarrow> 'r \<Rightarrow> bool"
    and wf :: "'r \<Rightarrow> bool"
  assumes step_gives: "step parent child \<Longrightarrow> gives child q \<Longrightarrow> gives parent q"
    and step_wf: "step parent child \<Longrightarrow> wf child"
begin

lemma chain_gives: "step\<^sup>*\<^sup>* root leaf \<Longrightarrow> gives leaf q \<Longrightarrow> gives root q"
  by (induction rule: rtranclp_induct) (auto dest: step_gives)

lemma chain_wf: "step\<^sup>*\<^sup>* root leaf \<Longrightarrow> wf root \<Longrightarrow> wf leaf"
  by (induction rule: rtranclp_induct) (auto dest: step_wf)

lemma siblings_meet:
  assumes "step\<^sup>*\<^sup>* root a" and "step\<^sup>*\<^sup>* root b" and "gives a q \<or> gives b q"
  shows "gives root q"
  using assms chain_gives by blast

end

definition role_gives :: "role \<Rightarrow> string \<times> string \<times> scope_input \<Rightarrow> bool" where
  "role_gives role q = (case q of (r, a, inp) \<Rightarrow> roleGrants role r a inp)"

interpretation derivation: narrowing role_gives derivesFrom wf_role
proof
  show "role_gives parent q" if d: "derivesFrom parent child" and "role_gives child q" for parent child q
  proof -
    obtain r a inp where q: "q = (r, a, inp)" by (cases q)
    from d obtain own att where own: "wf_role parent" "wf_role own"
      "attenuate parent (Permissions own) (DefaultScope own) = Inr att"
      and child: "Permissions child = aKept att" "DefaultScope child = aScope att"
      by (auto simp: derivesFrom_def)
    with that(2) q obtain p where "p \<in> set (aKept att)" "grantsInRole p (aScope att) r a inp"
      by (auto simp: role_gives_def roleGrants_def list_ex_iff)
    with own have "roleGrants parent r a inp"
      by (intro attenuate_within_parent [of parent "Permissions own" "DefaultScope own" att])
        (auto simp: wf_role_def)
    then show ?thesis by (simp add: role_gives_def q)
  qed
  show "wf_role child" if "derivesFrom parent child" for parent child
    using that attenuate_wf unfolding derivesFrom_def wf_role_def by metis
qed

section \<open>Validation bounds the graph\<close>

text \<open>The number of roles on the chain up from a name, if it is at most \<open>k\<close>.\<close>

fun chainLen :: "(string \<times> string) list \<Rightarrow> nat \<Rightarrow> string \<Rightarrow> nat option" where
  "chainLen parents 0 n = None"
| "chainLen parents (Suc k) n =
     (case map_of parents n of None \<Rightarrow> Some 1 | Some p \<Rightarrow> map_option Suc (chainLen parents k p))"

lemma chainLen_mono: "chainLen parents k n = Some l \<Longrightarrow> k \<le> m \<Longrightarrow> chainLen parents m n = Some l"
proof (induction k arbitrary: n l m)
  case (Suc k)
  then obtain m' where m: "m = Suc m'" "k \<le> m'" by (cases m) auto
  show ?case
  proof (cases "map_of parents n")
    case (Some p)
    with Suc.prems obtain l' where "chainLen parents k p = Some l'" "l = Suc l'" by auto
    with Suc.IH [of p l' m'] m Some show ?thesis by simp
  qed (use Suc.prems m in simp)
qed simp

lemma chainLen_le: "chainLen parents k n = Some l \<Longrightarrow> 1 \<le> l \<and> l \<le> k"
proof (induction k arbitrary: n l)
  case (Suc k)
  show ?case
  proof (cases "map_of parents n")
    case (Some p)
    with Suc.prems obtain l' where "chainLen parents k p = Some l'" "l = Suc l'" by auto
    with Suc.IH [of p l'] show ?thesis by simp
  qed (use Suc.prems in simp)
qed simp

lemma walkChain_known:
  "walkChain roles parents name seen cur depth = Inr () \<Longrightarrow> map_of parents cur = Some p \<Longrightarrow> p \<in> set roles"
  by (subst (asm) walkChain.simps) (auto split: if_splits)

lemma walkChain_len:
  "walkChain roles parents name seen cur depth = Inr () \<Longrightarrow> depth \<le> maxRoleChainDepth \<Longrightarrow>
     chainLen parents (Suc (maxRoleChainDepth - depth)) cur \<noteq> None"
proof (induction roles parents name seen cur depth rule: walkChain.induct)
  case (1 roles parents name seen cur depth)
  show ?case
  proof (cases "map_of parents cur")
    case (Some q)
    have g: "q \<in> set roles" "q \<notin> set seen" "\<not> maxRoleChainDepth < depth + 1"
      and w: "walkChain roles parents name (q # seen) q (depth + 1) = Inr ()"
      using 1(2) Some by (auto simp: walkChain.simps [of roles parents name seen cur depth] split: if_splits)
    have d: "Suc (maxRoleChainDepth - (depth + 1)) = maxRoleChainDepth - depth" using g(3) by simp
    have "chainLen parents (Suc (maxRoleChainDepth - (depth + 1))) q \<noteq> None"
      using 1(1) [OF Some _ _ _ w] g by simp
    with Some d show ?thesis by (auto split: option.split)
  qed simp
qed

lemma validateLoop_ok:
  "validateLoop roles parents names = Inr () \<Longrightarrow> n \<in> set names \<Longrightarrow>
     walkChain roles parents n [n] n 1 = Inr ()"
  by (induction roles parents names rule: validateLoop.induct) (auto split: sum.splits)

lemma validateRoleGraph_ok:
  assumes "validateRoleGraph roles parents = Inr ()"
  shows "chainLen parents maxRoleChainDepth n \<noteq> None"
    and "map_of parents n = Some p \<Longrightarrow> p \<in> set roles"
proof -
  have w: "walkChain roles parents n [n] n 1 = Inr ()" if "map_of parents n = Some p" for p
    using validateLoop_ok assms that unfolding validateRoleGraph_def
    by (metis map_of_SomeD fst_conv image_eqI list.set_map)
  show "chainLen parents maxRoleChainDepth n \<noteq> None"
  proof (cases "map_of parents n")
    case None
    then show ?thesis by (simp add: maxRoleChainDepth_def eval_nat_numeral)
  next
    case (Some p)
    from walkChain_len [OF w [OF this]] show ?thesis
      by (simp add: maxRoleChainDepth_def eval_nat_numeral)
  qed
  show "p \<in> set roles" if "map_of parents n = Some p"
    using walkChain_known [OF w [OF that] that] .
qed

definition chainRank :: "(string \<times> string) list \<Rightarrow> string \<Rightarrow> nat" where
  "chainRank parents n = (case chainLen parents maxRoleChainDepth n of None \<Rightarrow> 0 | Some l \<Rightarrow> l)"

lemma chainRank_dec:
  assumes "chainLen parents maxRoleChainDepth n = Some l" and p: "map_of parents n = Some p"
  shows "chainRank parents p < chainRank parents n"
proof -
  obtain k where k: "maxRoleChainDepth = Suc k" by (simp add: maxRoleChainDepth_def eval_nat_numeral)
  from assms(1) have "chainLen parents (Suc k) n = Some l" unfolding k .
  with p obtain l' where "chainLen parents k p = Some l'" "l = Suc l'" by auto
  moreover from this(1) have "chainLen parents maxRoleChainDepth p = Some l'"
    by (rule chainLen_mono) (simp add: k)
  ultimately show ?thesis using assms(1) by (simp add: chainRank_def)
qed

lemma chainRank_bounds:
  "chainLen parents maxRoleChainDepth n = Some l \<Longrightarrow>
     1 \<le> chainRank parents n \<and> chainRank parents n \<le> maxRoleChainDepth"
  using chainLen_le by (auto simp: chainRank_def)

lemma chainRank_facts:
  assumes "validateRoleGraph roles parents = Inr ()"
  shows "1 \<le> chainRank parents n" and "chainRank parents n \<le> maxRoleChainDepth"
    and "map_of parents n = Some p \<Longrightarrow> chainRank parents p < chainRank parents n"
  using validateRoleGraph_ok(1) [OF assms, of n] chainRank_bounds chainRank_dec by blast+

lemma walkChain_complete:
  assumes "\<forall>n. chainLen parents maxRoleChainDepth n \<noteq> None"
    and "\<forall>n p. map_of parents n = Some p \<longrightarrow> p \<in> set roles"
    and "\<forall>s \<in> set seen. chainRank parents cur \<le> chainRank parents s"
    and "chainRank parents cur + depth \<le> maxRoleChainDepth + 1"
  shows "walkChain roles parents name seen cur depth = Inr ()"
  using assms
proof (induction roles parents name seen cur depth rule: walkChain.induct)
  case (1 roles parents name seen cur depth)
  show ?case
  proof (cases "map_of parents cur")
    case None
    then show ?thesis by (subst walkChain.simps) simp
  next
    case (Some p)
    have less: "chainRank parents p < chainRank parents cur"
      using 1(2) Some chainRank_dec by blast
    have "1 \<le> chainRank parents p" using 1(2) chainRank_bounds by blast
    with less 1(5) have cap: "\<not> maxRoleChainDepth < depth + 1" by simp
    have new: "p \<notin> set seen" using 1(4) less by fastforce
    have "walkChain roles parents name (p # seen) p (depth + 1) = Inr ()"
      using 1(1) [OF Some _ new cap 1(2,3)] 1(3-5) Some less by fastforce
    with Some new cap 1(3) show ?thesis by (subst walkChain.simps) simp
  qed
qed

lemma validateRoleGraph_iff:
  "validateRoleGraph roles parents = Inr () \<longleftrightarrow>
     (\<forall>n. chainLen parents maxRoleChainDepth n \<noteq> None) \<and>
     (\<forall>n p. map_of parents n = Some p \<longrightarrow> p \<in> set roles)"
proof
  assume "validateRoleGraph roles parents = Inr ()"
  then show "(\<forall>n. chainLen parents maxRoleChainDepth n \<noteq> None) \<and>
     (\<forall>n p. map_of parents n = Some p \<longrightarrow> p \<in> set roles)"
    using validateRoleGraph_ok by blast
next
  assume a: "(\<forall>n. chainLen parents maxRoleChainDepth n \<noteq> None) \<and>
     (\<forall>n p. map_of parents n = Some p \<longrightarrow> p \<in> set roles)"
  have "walkChain roles parents name [name] name 1 = Inr ()" for name
  proof -
    have "chainRank parents name \<le> maxRoleChainDepth" using a chainRank_bounds by blast
    with a show ?thesis by (intro walkChain_complete) simp_all
  qed
  then have "validateLoop roles parents names = Inr ()" for names
    by (induction names) auto
  then show "validateRoleGraph roles parents = Inr ()" by (simp add: validateRoleGraph_def)
qed

section \<open>Resolution computes the effective catalog\<close>

text \<open>
  \<open>resolvedAt cat0 cat n\<close>: in \<open>cat\<close> the role \<open>n\<close> of the stored catalog \<open>cat0\<close> has its effective form,
  its own rows attenuated by its parent's effective form.
\<close>

definition resolvedAt :: "catalog \<Rightarrow> catalog \<Rightarrow> string \<Rightarrow> bool" where
  "resolvedAt cat0 cat n \<longleftrightarrow>
     (case map_of cat0 n of
        None \<Rightarrow> map_of cat n = None
      | Some r \<Rightarrow>
          if ParentRole r = [] then map_of cat n = Some r
          else (case map_of cat (ParentRole r) of
                  None \<Rightarrow> False
                | Some parent \<Rightarrow>
                    (case attenuate parent (Permissions r) (DefaultScope r) of
                       Inl e \<Rightarrow> False
                     | Inr att \<Rightarrow> map_of cat n = Some (attenuatedRole r att))))"

definition parentOf :: "catalog \<Rightarrow> string \<Rightarrow> string option" where
  "parentOf cat n =
     (case map_of cat n of None \<Rightarrow> None
      | Some r \<Rightarrow> if ParentRole r = [] then None else Some (ParentRole r))"

definition flatInv :: "catalog \<Rightarrow> catalog \<Rightarrow> string list \<Rightarrow> bool" where
  "flatInv cat0 cat ready \<longleftrightarrow>
     map fst cat = map fst cat0 \<and>
     (\<forall>n \<in> set ready. resolvedAt cat0 cat n \<and> (\<forall>p. parentOf cat0 n = Some p \<longrightarrow> p \<in> set ready)) \<and>
     (\<forall>n. n \<notin> set ready \<longrightarrow> map_of cat n = map_of cat0 n)"

lemma map_of_writeRole:
  "map_of (writeRole cat name att) n =
     (if n = name then map_option (\<lambda>r. attenuatedRole r att) (map_of cat n) else map_of cat n)"
  by (induction cat) (auto simp: writeRole_def attenuatedRole_def)

lemma fst_writeRole: "map fst (writeRole cat name att) = map fst cat"
  by (auto simp: writeRole_def)

lemma map_of_same_dom: "map fst c = map fst c' \<Longrightarrow> (map_of c n = None) = (map_of c' n = None)"
  by (metis map_of_eq_None_iff list.set_map)

lemma flatInv_parent:
  assumes "flatInv cat0 cat ready"
  shows "parentOf cat n = parentOf cat0 n"
proof (cases "n \<in> set ready")
  case True
  with assms have "resolvedAt cat0 cat n" by (simp add: flatInv_def)
  then show ?thesis
    by (auto simp: parentOf_def resolvedAt_def attenuatedRole_def
        split: option.splits sum.splits if_splits)
next
  case False
  with assms show ?thesis by (simp add: flatInv_def parentOf_def)
qed

lemma flatInv_write:
  assumes inv: "flatInv cat0 cat ready" and n: "n \<notin> set ready" "map_of cat0 n = Some r" "ParentRole r \<noteq> []"
    and p: "ParentRole r \<in> set ready" "map_of cat (ParentRole r) = Some parent"
    and att: "attenuate parent (Permissions r) (DefaultScope r) = Inr att"
  shows "flatInv cat0 (writeRole cat n att) (n # ready)"
proof -
  let ?cat = "writeRole cat n att"
  have pn: "ParentRole r \<noteq> n" using p(1) n(1) by auto
  have "map_of cat n = Some r" using inv n by (simp add: flatInv_def)
  then have rn: "resolvedAt cat0 ?cat n"
    using n p att pn by (simp add: resolvedAt_def map_of_writeRole)
  have rm: "resolvedAt cat0 ?cat m" if "m \<in> set ready" for m
  proof -
    have "m \<noteq> n" using that n(1) by auto
    moreover have "q \<noteq> n" if "parentOf cat0 m = Some q" for q
      using inv \<open>m \<in> set ready\<close> that n(1) by (auto simp: flatInv_def)
    moreover have "resolvedAt cat0 cat m" using inv that by (simp add: flatInv_def)
    ultimately show ?thesis
      by (auto simp: resolvedAt_def map_of_writeRole parentOf_def split: option.splits if_splits sum.splits)
  qed
  have "parentOf cat0 n = Some (ParentRole r)" using n by (simp add: parentOf_def)
  then show ?thesis
    using inv rn rm p(1) by (auto simp: flatInv_def fst_writeRole map_of_writeRole)
qed

lemma flattenRole_step:
  assumes "flattenRole (Suc k) cat n ready = Inr (cat', ready')" and "n \<notin> set ready"
  shows "\<exists>r. map_of cat n = Some r \<and>
     (if ParentRole r = [] then cat' = cat \<and> ready' = n # ready
      else \<exists>cat1 ready1 parent r1 att. flattenRole k cat (ParentRole r) ready = Inr (cat1, ready1) \<and>
        map_of cat (ParentRole r) \<noteq> None \<and>
        map_of cat1 (ParentRole r) = Some parent \<and> map_of cat1 n = Some r1 \<and>
        attenuate parent (Permissions r1) (DefaultScope r1) = Inr att \<and>
        cat' = writeRole cat1 n att \<and> ready' = n # ready1)"
  using assms by (auto split: option.splits if_splits sum.splits prod.splits)

definition ranked :: "catalog \<Rightarrow> (string \<Rightarrow> nat) \<Rightarrow> bool" where
  "ranked cat rank \<longleftrightarrow> (\<forall>m p. parentOf cat m = Some p \<longrightarrow> rank p < rank m)"

lemma rankedD: "ranked cat rank \<Longrightarrow> parentOf cat m = Some p \<Longrightarrow> rank p < rank m"
  by (simp add: ranked_def)

lemma flattenRole_inv:
  assumes rank: "ranked cat0 rank"
  shows "flatInv cat0 cat ready \<Longrightarrow> flattenRole k cat n ready = Inr (cat', ready') \<Longrightarrow>
    flatInv cat0 cat' ready' \<and> n \<in> set ready' \<and> set ready \<subseteq> set ready' \<and>
    (\<forall>m \<in> set ready' - set ready. rank m \<le> rank n)"
proof (induction k arbitrary: cat n ready cat' ready')
  case 0
  then show ?case by (auto split: if_splits)
next
  case (Suc k)
  show ?case
  proof (cases "n \<in> set ready")
    case True
    with Suc.prems show ?thesis by auto
  next
    case False
    from flattenRole_step [OF Suc.prems(2) False] obtain r where r: "map_of cat n = Some r"
      and body: "if ParentRole r = [] then cat' = cat \<and> ready' = n # ready
        else \<exists>cat1 ready1 parent r1 att. flattenRole k cat (ParentRole r) ready = Inr (cat1, ready1) \<and>
          map_of cat (ParentRole r) \<noteq> None \<and>
          map_of cat1 (ParentRole r) = Some parent \<and> map_of cat1 n = Some r1 \<and>
          attenuate parent (Permissions r1) (DefaultScope r1) = Inr att \<and>
          cat' = writeRole cat1 n att \<and> ready' = n # ready1" by blast
    have r0: "map_of cat0 n = Some r" using r False Suc.prems(1) by (simp add: flatInv_def)
    show ?thesis
    proof (cases "ParentRole r = []")
      case True
      with body r0 have "resolvedAt cat0 cat n" using r by (simp add: resolvedAt_def)
      with True body r0 Suc.prems(1) show ?thesis by (auto simp: flatInv_def parentOf_def)
    next
      case root: False
      with body obtain cat1 ready1 parent r1 att where
        b: "flattenRole k cat (ParentRole r) ready = Inr (cat1, ready1)"
          "map_of cat1 (ParentRole r) = Some parent" "map_of cat1 n = Some r1"
          "attenuate parent (Permissions r1) (DefaultScope r1) = Inr att"
          "cat' = writeRole cat1 n att" "ready' = n # ready1" by auto
      have less: "rank (ParentRole r) < rank n" using rankedD [OF rank, of n] r0 root by (simp add: parentOf_def)
      from Suc.IH [OF Suc.prems(1) b(1)] have ih: "flatInv cat0 cat1 ready1"
        "ParentRole r \<in> set ready1" "set ready \<subseteq> set ready1"
        "\<forall>m \<in> set ready1 - set ready. rank m \<le> rank (ParentRole r)" by auto
      with less False have n1: "n \<notin> set ready1" by (metis Diff_iff leD)
      with ih(1) r0 b(3) have "r1 = r" by (simp add: flatInv_def)
      with flatInv_write [OF ih(1) n1 r0 root ih(2) b(2)] b(4-6) have "flatInv cat0 cat' ready'" by simp
      moreover have "rank m \<le> rank n" if "m \<in> set ready' - set ready" for m
      proof -
        have "m = n \<or> m \<in> set ready1 - set ready" using that b(6) by auto
        then show ?thesis using bspec [OF ih(4), of m] less by auto
      qed
      ultimately show ?thesis using b(6) ih(3) by auto
    qed
  qed
qed

text \<open>Once the graph is validated, only a scope that is too complex can stop the resolution.\<close>

definition parentsKnown :: "catalog \<Rightarrow> bool" where
  "parentsKnown cat \<longleftrightarrow> (\<forall>n p. parentOf cat n = Some p \<longrightarrow> map_of cat p \<noteq> None)"

lemma flattenRole_errors:
  assumes rank: "ranked cat0 rank" and pos: "\<forall>m. 1 \<le> rank m"
    and known: "parentsKnown cat0"
  shows "flatInv cat0 cat ready \<Longrightarrow> map_of cat0 n \<noteq> None \<Longrightarrow> rank n \<le> k \<Longrightarrow>
    flattenRole k cat n ready = Inl e \<Longrightarrow> \<exists>m se. e = ErrRoleScopeTooComplex m se"
proof (induction k arbitrary: cat n ready e)
  case 0
  then show ?case using pos [rule_format, of n] by simp
next
  case (Suc k)
  have n: "n \<notin> set ready" using Suc.prems(4) by (auto split: if_splits)
  then obtain r where r: "map_of cat n = Some r" "map_of cat0 n = Some r"
    using Suc.prems(1,2) by (auto simp: flatInv_def)
  have root: "ParentRole r \<noteq> []" using Suc.prems(4) n r by auto
  then have p: "parentOf cat0 n = Some (ParentRole r)" using r by (simp add: parentOf_def)
  then have pk: "map_of cat0 (ParentRole r) \<noteq> None" using known by (auto simp: parentsKnown_def)
  then have pc: "map_of cat (ParentRole r) \<noteq> None"
    using Suc.prems(1) map_of_same_dom [of cat cat0] by (auto simp: flatInv_def)
  have rk: "rank (ParentRole r) \<le> k" using rankedD [OF rank p] Suc.prems(3) by simp
  show ?case
  proof (cases "flattenRole k cat (ParentRole r) ready")
    case (Inl e')
    with Suc.prems(4) n r root pc have "e = e'" by auto
    with Inl Suc.IH [OF Suc.prems(1) pk rk] show ?thesis by simp
  next
    case (Inr res)
    then obtain cat1 ready1 where i: "flattenRole k cat (ParentRole r) ready = Inr (cat1, ready1)"
      by (cases res) auto
    have "flatInv cat0 cat1 ready1"
      using flattenRole_inv [OF rank Suc.prems(1) i] by blast
    then have "map_of cat1 (ParentRole r) \<noteq> None" "map_of cat1 n \<noteq> None"
      using pk r(2) map_of_same_dom [of cat1 cat0] by (auto simp: flatInv_def)
    with Suc.prems(4) n r root pc i show ?thesis by (auto split: sum.splits)
  qed
qed

lemma flattenAll_inv:
  assumes rank: "ranked cat0 rank"
  shows "flatInv cat0 cat ready \<Longrightarrow> flattenAll cat ready names = Inr cat' \<Longrightarrow>
    \<exists>ready'. flatInv cat0 cat' ready' \<and> set names \<subseteq> set ready'
      \<and> set ready \<subseteq> set ready'"
proof (induction cat ready names rule: flattenAll.induct)
  case (1 cat ready)
  then show ?case by auto
next
  case (2 cat ready name names)
  then obtain cat1 ready1 where f: "flattenRole maxRoleChainDepth cat name ready = Inr (cat1, ready1)"
    and a: "flattenAll cat1 ready1 names = Inr cat'" by (auto split: sum.splits)
  have inv: "flatInv cat0 cat1 ready1" "name \<in> set ready1" "set ready \<subseteq> set ready1"
    using flattenRole_inv [OF rank "2.prems"(1) f] by auto
  from "2.IH" [OF f refl inv(1) a] obtain ready' where "flatInv cat0 cat' ready'"
    "set names \<subseteq> set ready'" "set ready1 \<subseteq> set ready'" by blast
  with inv show ?case by auto
qed

lemma flattenAll_errors:
  assumes rank: "ranked cat0 rank"
    and pos: "\<forall>m. 1 \<le> rank m" and cap: "\<forall>m. rank m \<le> maxRoleChainDepth" and known: "parentsKnown cat0"
  shows "flatInv cat0 cat ready \<Longrightarrow> \<forall>n \<in> set names. map_of cat0 n \<noteq> None \<Longrightarrow>
    flattenAll cat ready names = Inl e \<Longrightarrow> \<exists>m se. e = ErrRoleScopeTooComplex m se"
proof (induction cat ready names rule: flattenAll.induct)
  case (1 cat ready)
  then show ?case by simp
next
  case (2 cat ready name names)
  show ?case
  proof (cases "flattenRole maxRoleChainDepth cat name ready")
    case (Inl e')
    with "2.prems"(3) have "e = e'" by simp
    with Inl flattenRole_errors [OF rank pos known "2.prems"(1) _ cap [rule_format], of name] "2.prems"(2)
    show ?thesis by simp
  next
    case (Inr res)
    then obtain cat1 ready1 where f: "flattenRole maxRoleChainDepth cat name ready = Inr (cat1, ready1)"
      by (cases res) auto
    have "flatInv cat0 cat1 ready1" using flattenRole_inv [OF rank "2.prems"(1) f] by blast
    with "2.IH" [OF f refl] "2.prems"(2,3) f show ?thesis by simp
  qed
qed

text \<open>The roles of a snapshot are built from the graph that was validated.\<close>

definition graphOf :: "catalog \<Rightarrow> (string \<times> string) list \<Rightarrow> bool" where
  "graphOf cat parents \<longleftrightarrow> (\<forall>n p. parentOf cat n = Some p \<longrightarrow> map_of parents n = Some p)"

lemma graph_rank:
  assumes "validateRoleGraph roles parents = Inr ()" and "graphOf cat parents"
  shows "ranked cat (chainRank parents)"
  using chainRank_facts(3) [OF assms(1)] assms(2) by (auto simp: graphOf_def ranked_def)

lemma flatInv_start: "flatInv cat cat []"
  by (simp add: flatInv_def)

lemma flattenRoleGraph_resolved:
  assumes v: "validateRoleGraph roles parents = Inr ()" and g: "graphOf cat parents"
    and f: "flattenRoleGraph cat = Inr cat'"
  shows "map fst cat' = map fst cat" and "resolvedAt cat cat' n"
proof -
  obtain ready where r: "flatInv cat cat' ready" "set (sort (map fst cat)) \<subseteq> set ready"
    using flattenAll_inv [OF graph_rank [OF v g] flatInv_start f [unfolded flattenRoleGraph_def]] by auto
  show dom: "map fst cat' = map fst cat" using r(1) by (simp add: flatInv_def)
  show "resolvedAt cat cat' n"
  proof (cases "map_of cat n")
    case None
    then show ?thesis using map_of_same_dom [OF dom, of n] by (simp add: resolvedAt_def)
  next
    case (Some x)
    then have "n \<in> set ready" using r(2) by (force dest: map_of_SomeD)
    with r(1) show ?thesis by (simp add: flatInv_def)
  qed
qed

lemma flattenRoleGraph_errors:
  assumes v: "validateRoleGraph (map fst cat) parents = Inr ()" and g: "graphOf cat parents"
    and f: "flattenRoleGraph cat = Inl e"
  shows "\<exists>m se. e = ErrRoleScopeTooComplex m se"
proof -
  have "parentsKnown cat"
    unfolding parentsKnown_def
  proof (intro allI impI)
    fix n p
    assume "parentOf cat n = Some p"
    then have "map_of parents n = Some p" using g by (simp add: graphOf_def)
    then have "p \<in> set (map fst cat)" using validateRoleGraph_ok(2) [OF v] by blast
    then show "map_of cat p \<noteq> None" by (simp add: map_of_eq_None_iff)
  qed
  moreover have "\<forall>n \<in> set (sort (map fst cat)). map_of cat n \<noteq> None"
    by (simp add: map_of_eq_None_iff)
  ultimately show ?thesis
    using flattenAll_errors [OF graph_rank [OF v g] _ _ _ flatInv_start _ f [unfolded flattenRoleGraph_def]] chainRank_facts(1,2) [OF v] by blast
qed

section \<open>A resolved role stays inside its ancestors\<close>

inductive ancestor :: "catalog \<Rightarrow> string \<Rightarrow> string \<Rightarrow> bool" for cat where
  parent: "parentOf cat n = Some p \<Longrightarrow> ancestor cat n p"
| up: "ancestor cat n m \<Longrightarrow> parentOf cat m = Some p \<Longrightarrow> ancestor cat n p"

inductive_cases ancestorE: "ancestor cat n p"

definition wf_catalog :: "catalog \<Rightarrow> bool" where
  "wf_catalog cat \<longleftrightarrow> list_all (wf_role \<circ> snd) cat"

lemma wf_catalog_lookup: "wf_catalog cat \<Longrightarrow> map_of cat n = Some r \<Longrightarrow> wf_role r"
  unfolding wf_catalog_def list_all_iff by (auto dest!: map_of_SomeD)

lemma resolved_wf:
  assumes v: "validateRoleGraph roles parents = Inr ()" and g: "graphOf cat parents"
    and f: "flattenRoleGraph cat = Inr cat'" and wf: "wf_catalog cat"
  shows "map_of cat' n = Some r' \<Longrightarrow> wf_role r'"
proof (induction "chainRank parents n" arbitrary: n r' rule: less_induct)
  case less
  have res: "resolvedAt cat cat' n" by (rule flattenRoleGraph_resolved(2) [OF v g f])
  with less.prems obtain r where r: "map_of cat n = Some r"
    by (auto simp: resolvedAt_def split: option.splits)
  then have wr: "wf_role r" using wf wf_catalog_lookup by blast
  show ?case
  proof (cases "ParentRole r = []")
    case True
    with res r less.prems wr show ?thesis by (simp add: resolvedAt_def)
  next
    case False
    with res r obtain P att where P: "map_of cat' (ParentRole r) = Some P"
      "attenuate P (Permissions r) (DefaultScope r) = Inr att" and r': "map_of cat' n = Some (attenuatedRole r att)"
      by (auto simp: resolvedAt_def split: option.splits sum.splits)
    have "parentOf cat n = Some (ParentRole r)" using r False by (simp add: parentOf_def)
    then have "wf_role P" using less.hyps [OF rankedD [OF graph_rank [OF v g]] P(1)] by blast
    from attenuate_wf [OF this _ _ P(2)] wr r' less.prems show ?thesis
      by (auto simp: wf_role_def attenuatedRole_def)
  qed
qed

lemma resolved_derives:
  assumes v: "validateRoleGraph roles parents = Inr ()" and g: "graphOf cat parents"
    and f: "flattenRoleGraph cat = Inr cat'" and wf: "wf_catalog cat"
    and n: "map_of cat' n = Some r'" and p: "parentOf cat n = Some p"
  shows "\<exists>P. map_of cat' p = Some P \<and> derivesFrom P r'"
proof -
  from p obtain r where r: "map_of cat n = Some r" "ParentRole r = p" "p \<noteq> []"
    by (auto simp: parentOf_def split: option.splits if_splits)
  with flattenRoleGraph_resolved(2) [OF v g f, of n] obtain P att where P: "map_of cat' p = Some P"
    "attenuate P (Permissions r) (DefaultScope r) = Inr att" "map_of cat' n = Some (attenuatedRole r att)"
    by (auto simp: resolvedAt_def split: option.splits sum.splits)
  moreover have "wf_role P" using resolved_wf [OF v g f wf P(1)] .
  moreover have "wf_role r" using wf r wf_catalog_lookup by blast
  ultimately show ?thesis using n by (auto simp: derivesFrom_def attenuatedRole_def)
qed

lemma ancestor_derives:
  assumes "ancestor cat n m"
    and "validateRoleGraph roles parents = Inr ()" and "graphOf cat parents"
    and "flattenRoleGraph cat = Inr cat'" and "wf_catalog cat" and "map_of cat' n = Some r'"
  shows "\<exists>M. map_of cat' m = Some M \<and> derivesFrom\<^sup>*\<^sup>* M r'"
  using assms
proof (induction rule: ancestor.induct)
  case (parent n p)
  then show ?case using resolved_derives [of roles parents cat cat' n r' p] by blast
next
  case (up n m p)
  then obtain M where M: "map_of cat' m = Some M" "derivesFrom\<^sup>*\<^sup>* M r'" by blast
  with up obtain P where "map_of cat' p = Some P" "derivesFrom P M"
    using resolved_derives [of roles parents cat cat' m M p] by blast
  with M show ?case by (blast intro: converse_rtranclp_into_rtranclp)
qed

section \<open>Properties\<close>

text \<open>A stored catalog the witnesses share: \<open>web\<close> derives from \<open>base\<close>.\<close>

definition baseRole :: role where
  "baseRole = \<lparr>Name = ''base'', Permissions = [onHostGlob ''w*''], DefaultScope = None, ParentRole = [],
     InertPermissions = []\<rparr>"

definition webRole :: role where
  "webRole = \<lparr>Name = ''web'', Permissions = [onHosts [''w1'', ''w2''], onHosts [''db'']], DefaultScope = None,
     ParentRole = ''base'', InertPermissions = []\<rparr>"

definition webAtt :: attenuation where
  "webAtt = \<lparr>aScope = None, aKept = [onHosts [''w1'', ''w2'']], aRejected = [onHosts [''db'']]\<rparr>"

definition sampleCatalog :: catalog where
  "sampleCatalog = [(''web'', webRole), (''base'', baseRole)]"

lemma sample_not_held: "\<not> callerHolds [onHostGlob ''w*''] (onHosts [''db''])"
  by (simp add: callerHolds_def onHostGlob_def onHosts_def callerScopeConjuncts_def dnfOrNothing_def
      disjunctCovered_def impliesConj_def atomSubset_def matchGlob_def matchString_def compileGlob_def
      runes_def code_def)

lemma requestedPerm_scoped: "Scope p \<noteq> None \<Longrightarrow> requestedPerm s p = p"
  by (auto simp: requestedPerm_def)

lemma cappedPerm_top: "cappedPerm None p = p"
  by (auto simp: cappedPerm_def andScopes_def)

lemma onHosts_scope: "Scope (onHosts hs) = Some (OpLeaf (inCond dimHost [] hs))"
  by (simp add: onHosts_def)

lemma sample_attenuate: "attenuate baseRole (Permissions webRole) (DefaultScope webRole) = Inr webAtt"
  using sample_holds sample_not_held
  by (simp add: attenuate_def Let_def baseRole_def webRole_def webAtt_def andScopes_def
      checkScopeResolvable_def cappedPerm_top requestedPerm_scoped onHosts_scope effectivePermissions_def)

lemma sample_valid: "validateRoleGraph (map fst sampleCatalog) [(''web'', ''base'')] = Inr ()"
  by (simp add: validateRoleGraph_def walkChain.simps sampleCatalog_def maxRoleChainDepth_def)

lemma sample_parents: "parentOf sampleCatalog n = (if n = ''web'' then Some ''base'' else None)"
  by (auto simp: parentOf_def sampleCatalog_def webRole_def baseRole_def)

lemma sample_graph: "graphOf sampleCatalog [(''web'', ''base'')]"
  by (simp add: graphOf_def sample_parents)

lemma sample_wf: "wf_role baseRole" "wf_role webRole" "wf_catalog sampleCatalog"
proof -
  have "list_all wf_value [''w1'', ''w2'', ''db'', ''w*'']"
    by (simp add: wf_value_def maxScopeValueLen_def)
  then show "wf_role baseRole" "wf_role webRole" "wf_catalog sampleCatalog"
    using onHosts_wf onHostGlob_wf
    by (simp_all add: wf_catalog_def sampleCatalog_def wf_role_def baseRole_def webRole_def)
qed

lemma sample_flat:
  "flattenRoleGraph sampleCatalog = Inr [(''web'', attenuatedRole webRole webAtt), (''base'', baseRole)]"
proof -
  have order: "sort (map fst sampleCatalog) = [''base'', ''web'']"
    by (simp add: sampleCatalog_def)
  have base: "flattenRole maxRoleChainDepth sampleCatalog ''base'' [] = Inr (sampleCatalog, [''base''])"
    by (simp add: maxRoleChainDepth_def eval_nat_numeral sampleCatalog_def baseRole_def)
  have web: "flattenRole maxRoleChainDepth sampleCatalog ''web'' [''base''] =
      Inr ([(''web'', attenuatedRole webRole webAtt), (''base'', baseRole)], [''web'', ''base''])"
    using sample_attenuate
    by (simp add: maxRoleChainDepth_def eval_nat_numeral sampleCatalog_def attenuatedRole_def
        writeRole_def webRole_def)
  show ?thesis using base web by (simp add: flattenRoleGraph_def order)
qed

text \<open>
  The conjunction of two scopes means both: \<open>andScopes\<close>, which flattens nested conjunctions and
  drops repeated terms by their text, is satisfied exactly where both operands are, and is again well
  formed. The nil scope is the unrestricted top.
\<close>

theorem andScopes_conjunction:
  assumes "wf_scope outer" and "wf_scope inner"
  shows "wf_scope (andScopes outer inner) \<and>
    (evalScope (andScopes outer inner) inp \<longleftrightarrow> evalScope outer inp \<and> evalScope inner inp)"
  using andScopes_wf [OF assms] andScopes_eval [OF assms] by blast

theorem andScopes_conjunction_witness:
  "\<forall>inp. evalScope (andScopes (Some sampleExpr) (Some deepExpr)) inp \<longleftrightarrow>
     evalScope (Some sampleExpr) inp \<and> evalScope (Some deepExpr) inp"
  using andScopes_conjunction [of "Some sampleExpr" "Some deepExpr"] sampleExpr_wf deepExpr_wf by simp

text \<open>
  Attenuation only narrows: what a derived role gives after \<open>attenuate\<close> is within what its parent
  gives and within what its own stored rows would give alone. Rows the parent does not cover are kept
  apart and give nothing.
\<close>

theorem attenuate_narrows:
  assumes "wf_role parent" and "wf_role own"
    and "attenuate parent (Permissions own) (DefaultScope own) = Inr att"
    and "roleGrants (attenuatedRole own att) r a inp"
  shows "roleGrants parent r a inp \<and> roleGrants own r a inp"
proof
  from assms(4) obtain p where p: "p \<in> set (aKept att)" "grantsInRole p (aScope att) r a inp"
    by (auto simp: roleGrants_def attenuatedRole_def list_ex_iff)
  then show "roleGrants parent r a inp"
    using assms(1-3) by (intro attenuate_within_parent [of parent "Permissions own" "DefaultScope own" att])
      (auto simp: wf_role_def)
  from p(1) obtain q where "q \<in> set (Permissions own)" "p = cappedPerm (DefaultScope parent) q"
    by (subst (asm) attenuate_Inr(2) [OF assms(3)]) auto
  with p(2) assms(1,2) show "roleGrants own r a inp"
    unfolding attenuate_Inr(1) [OF assms(3)]
    by (auto simp: roleGrants_def list_ex_iff wf_role_def list_all_iff
        intro!: bexI [of _ q] cappedPerm_own [of "DefaultScope parent" q])
qed

theorem attenuate_narrows_witness:
  "attenuate baseRole (Permissions webRole) (DefaultScope webRole) = Inr webAtt
   \<and> roleGrants baseRole ''incarnation'' ''run'' (hostInput ''w2'')"
proof -
  have "roleGrants (attenuatedRole webRole webAtt) ''incarnation'' ''run'' (hostInput ''w2'')"
    using sample_grants
    by (simp add: roleGrants_def attenuatedRole_def webAtt_def grantsInRole_def effectiveScope_def
        grants_def onHosts_scope)
  from attenuate_narrows [OF sample_wf(1,2) sample_attenuate this] sample_attenuate
  show ?thesis by blast
qed

text \<open>
  The graph check is exact: it accepts precisely the parent graphs in which every chain ends at a
  root within \<open>maxRoleChainDepth\<close> roles (so there is no cycle) and every named parent is a known role.
\<close>

theorem validateRoleGraph_exact:
  "validateRoleGraph roles parents = Inr () \<longleftrightarrow>
     (\<forall>n. \<exists>l. chainLen parents maxRoleChainDepth n = Some l) \<and>
     (\<forall>n. \<forall>p. map_of parents n = Some p \<longrightarrow> p \<in> set roles)"
  using validateRoleGraph_iff [of roles parents] by auto

theorem validateRoleGraph_exact_witness:
  "validateRoleGraph [''web'', ''base''] [(''web'', ''base'')] = Inr () \<and>
   chainLen [(''web'', ''base'')] maxRoleChainDepth ''web'' = Some 2"
  using validateRoleGraph_exact [of "[''web'', ''base'']" "[(''web'', ''base'')]"]
  by (auto simp: maxRoleChainDepth_def eval_nat_numeral split: option.split)

text \<open>
  On a validated graph the resolution of the catalog never fails for depth, for a missing parent
  or on a nil role: it returns a catalog, or the error that a role's conjoined scope has no normal form.
\<close>

theorem flattenRoleGraph_total:
  assumes "validateRoleGraph (map fst cat) parents = Inr ()" and "graphOf cat parents"
  shows "(\<exists>cat'. flattenRoleGraph cat = Inr cat') \<or>
    (\<exists>name se. flattenRoleGraph cat = Inl (ErrRoleScopeTooComplex name se))"
  using flattenRoleGraph_errors [OF assms] by (cases "flattenRoleGraph cat") auto

theorem flattenRoleGraph_total_witness:
  "(\<exists>cat'. flattenRoleGraph sampleCatalog = Inr cat') \<or>
    (\<exists>name se. flattenRoleGraph sampleCatalog = Inl (ErrRoleScopeTooComplex name se))"
  using flattenRoleGraph_total [OF sample_valid sample_graph] .

text \<open>
  Resolution computes the effective form of every role, whatever the order of the catalog: a plain
  role is unchanged, and a derived role is its stored rows attenuated by its parent's effective form in
  the same result.
\<close>

theorem flattenRoleGraph_resolves:
  assumes "validateRoleGraph roles parents = Inr ()" and "graphOf cat parents"
    and "flattenRoleGraph cat = Inr cat'" and "map_of cat name = Some role"
  shows "if ParentRole role = [] then map_of cat' name = Some role
    else \<exists>parent att. map_of cat' (ParentRole role) = Some parent
      \<and> attenuate parent (Permissions role) (DefaultScope role) = Inr att
      \<and> map_of cat' name = Some (attenuatedRole role att)"
  using flattenRoleGraph_resolved(2) [OF assms(1-3), of name] assms(4)
  by (auto simp: resolvedAt_def split: option.splits sum.splits if_splits)

theorem flattenRoleGraph_resolves_witness:
  "\<exists>parent att. map_of [(''web'', attenuatedRole webRole webAtt), (''base'', baseRole)] ''base'' = Some parent
     \<and> attenuate parent (Permissions webRole) (DefaultScope webRole) = Inr att"
proof -
  have "map_of sampleCatalog ''web'' = Some webRole" and "ParentRole webRole = ''base''"
    by (simp_all add: sampleCatalog_def webRole_def)
  with flattenRoleGraph_resolves [OF sample_valid sample_graph sample_flat] show ?thesis by fastforce
qed

text \<open>
  (C23) A resolved role never exceeds any of its ancestors: every request it satisfies is satisfied by
  the effective form of its parent, of its parent's parent, and so on to the root.
\<close>

theorem resolved_role_within_ancestors:
  assumes "validateRoleGraph roles parents = Inr ()" and "graphOf cat parents" and "wf_catalog cat"
    and "flattenRoleGraph cat = Inr cat'" and "ancestor cat name up"
    and "map_of cat' name = Some role" and "roleGrants role r a inp"
  shows "\<exists>top. map_of cat' up = Some top \<and> roleGrants top r a inp"
proof -
  obtain top where "map_of cat' up = Some top" and "derivesFrom\<^sup>*\<^sup>* top role"
    using ancestor_derives [OF assms(5,1,2,4,3,6)] by blast
  moreover from derivation.chain_gives [OF this(2), of "(r, a, inp)"] assms(7)
  have "roleGrants top r a inp" by (simp add: role_gives_def)
  ultimately show ?thesis by blast
qed

theorem resolved_role_within_ancestors_witness:
  "ancestor sampleCatalog ''web'' ''base'' \<and>
   (\<exists>top. map_of [(''web'', attenuatedRole webRole webAtt), (''base'', baseRole)] ''base'' = Some top
      \<and> roleGrants top ''incarnation'' ''run'' (hostInput ''w2''))"
proof -
  have anc: "ancestor sampleCatalog ''web'' ''base''"
    by (rule ancestor.parent) (simp add: sample_parents)
  have g: "roleGrants (attenuatedRole webRole webAtt) ''incarnation'' ''run'' (hostInput ''w2'')"
    using sample_grants
    by (simp add: roleGrants_def attenuatedRole_def webAtt_def grantsInRole_def effectiveScope_def
        grants_def onHosts_scope)
  show ?thesis
    using resolved_role_within_ancestors [OF sample_valid sample_graph sample_wf(3) sample_flat anc _ g] anc
    by simp
qed

end
