(* ===== verification/Rbac_Enforcer.thy ===== *)
theory Rbac_Enforcer
  imports Rbac_Roles "HOL-Library.Product_Lexorder"
begin

text \<open>
  The decision layer (\<^verbatim>\<open>enforcer.go\<close> and \<^verbatim>\<open>purview.go\<close> of \<^verbatim>\<open>keeper/internal/rbac\<close>): building an
  enforcer from a database snapshot, the gate \<open>Check\<close>, the resolver \<open>ResolvePurview\<close> and the
  projections of it. The lemmas show that gate and resolver agree on every request, that a decision
  stays inside the whole chain of the role it rests on, that a revoked operator has nothing, and what
  the projections onto a single dimension do and do not guarantee.

  Go maps whose iteration order the code observes are association lists in that order.
\<close>

section \<open>Snapshot and enforcer\<close>

text \<open>A revocation time is a number; the code only prints it.\<close>

record snapshot =
  snapRoles :: "(string \<times> string list) list"
  snapScopes :: "(string \<times> string) list"
  snapParents :: "(string \<times> string) list"
  snapMembership :: "(string \<times> string list) list"
  snapRevoked :: "(string \<times> nat) list"
  snapRevokedJWTs :: "string list"

record enforcer =
  rolesByAID :: "(string \<times> role list) list"
  allRoles :: "role list"
  revokedAIDs :: "(string \<times> nat) list"
  revokedJWTs :: "string list"

datatype enforcer_error =
    SnapshotGraph role_error
  | SnapshotPermission string string perm_error
  | SnapshotScope string string scope_error

definition parseRow :: "string \<Rightarrow> string \<Rightarrow> (enforcer_error, permission) result" where
  "parseRow name raw =
     (case ParsePermission raw of Inl e \<Rightarrow> Inl (SnapshotPermission name raw e) | Inr p \<Rightarrow> Inr p)"

definition buildRole :: "snapshot \<Rightarrow> string \<times> string list \<Rightarrow> (enforcer_error, string \<times> role) result" where
  "buildRole snap row =
     (case row of (name, rawPerms) \<Rightarrow>
        (case map_result (parseRow name) rawPerms of
           Inl e \<Rightarrow> Inl e
         | Inr perms \<Rightarrow>
             (case (case map_of (snapScopes snap) name of
                      None \<Rightarrow> Inr None
                    | Some rawScope \<Rightarrow>
                        (case ParseDefaultScope rawScope of
                           Inl e \<Rightarrow> Inl (SnapshotScope name rawScope e)
                         | Inr s \<Rightarrow> Inr s)) of
                Inl e \<Rightarrow> Inl e
              | Inr scope \<Rightarrow>
                  Inr (name, \<lparr>Name = name, Permissions = perms, DefaultScope = scope,
                    ParentRole = (case map_of (snapParents snap) name of None \<Rightarrow> [] | Some p \<Rightarrow> p),
                    InertPermissions = []\<rparr>))))"

text \<open>The roles a membership row binds; a name outside the catalog binds nothing.\<close>

definition boundRoles :: "catalog \<Rightarrow> string list \<Rightarrow> role list" where
  "boundRoles byName names = List.map_filter (map_of byName) names"

definition bindMembers :: "catalog \<Rightarrow> (string \<times> string list) list \<Rightarrow> (string \<times> role list) list" where
  "bindMembers byName membership =
     filter (\<lambda>(aid, rs). rs \<noteq> []) (map (\<lambda>(aid, names). (aid, boundRoles byName names)) membership)"

definition NewEnforcerFromSnapshot :: "snapshot option \<Rightarrow> (enforcer_error, enforcer) result" where
  "NewEnforcerFromSnapshot osnap =
     (case osnap of
        None \<Rightarrow> Inr \<lparr>rolesByAID = [], allRoles = [], revokedAIDs = [], revokedJWTs = []\<rparr>
      | Some snap \<Rightarrow>
          (case validateRoleGraph (map fst (snapRoles snap)) (snapParents snap) of
             Inl e \<Rightarrow> Inl (SnapshotGraph e)
           | Inr _ \<Rightarrow>
               (case map_result (buildRole snap) (snapRoles snap) of
                  Inl e \<Rightarrow> Inl e
                | Inr byName \<Rightarrow>
                    (case flattenRoleGraph byName of
                       Inl e \<Rightarrow> Inl (SnapshotGraph e)
                     | Inr flat \<Rightarrow>
                         Inr \<lparr>rolesByAID = bindMembers flat (snapMembership snap),
                              allRoles = map snd flat,
                              revokedAIDs = snapRevoked snap,
                              revokedJWTs = snapRevokedJWTs snap\<rparr>))))"

definition rolesFor :: "enforcer \<Rightarrow> string \<Rightarrow> role list" where
  "rolesFor e aid = (case map_of (rolesByAID e) aid of None \<Rightarrow> [] | Some rs \<Rightarrow> rs)"

section \<open>The gate\<close>

datatype check_error =
    ErrEmptyRequest
  | ErrOperatorRevoked string nat
  | ErrNoRoles string
  | ErrPermissionDenied string string string

definition Check :: "enforcer \<Rightarrow> string \<Rightarrow> string \<Rightarrow> string \<Rightarrow> req_context \<Rightarrow> (check_error, unit) result" where
  "Check e aid resource action ctx =
     (if resource = [] \<or> action = [] then Inl ErrEmptyRequest
      else
        (case map_of (revokedAIDs e) aid of
           Some t \<Rightarrow> Inl (ErrOperatorRevoked aid t)
         | None \<Rightarrow>
             if rolesFor e aid = [] then Inl (ErrNoRoles aid)
             else if list_ex (\<lambda>role. list_ex
                    (\<lambda>p. MatchesInRole p resource action (DefaultScope role) ctx) (Permissions role))
                  (rolesFor e aid)
             then Inr ()
             else Inl (ErrPermissionDenied aid resource action)))"

definition IsRevoked :: "enforcer \<Rightarrow> string \<Rightarrow> bool" where
  "IsRevoked e aid = (map_of (revokedAIDs e) aid \<noteq> None)"

definition IsJWTRevoked :: "enforcer \<Rightarrow> string \<Rightarrow> bool" where
  "IsJWTRevoked e i = (i \<in> set (revokedJWTs e))"

definition HasWildcard :: "enforcer \<Rightarrow> string \<Rightarrow> bool" where
  "HasWildcard e aid =
     list_ex (\<lambda>role. ParentRole role = [] \<and>
       list_ex (\<lambda>p. IsWildcard p \<and> Scope p = None) (Permissions role)) (rolesFor e aid)"

definition ClusterAdmins :: "enforcer \<Rightarrow> string list" where
  "ClusterAdmins e = remdups (filter (HasWildcard e) (map fst (rolesByAID e)))"

section \<open>The purview\<close>

record purview =
  Unrestricted :: bool
  Deny :: bool
  Exprs :: "scope_expr list"

definition noPurview :: purview where
  "noPurview = \<lparr>Unrestricted = False, Deny = False, Exprs = []\<rparr>"

definition Holds :: "purview \<Rightarrow> bool" where
  "Holds p = (if Deny p then False else Unrestricted p \<or> Exprs p \<noteq> [])"

definition IsEmpty :: "purview \<Rightarrow> bool" where
  "IsEmpty p = (\<not> Unrestricted p \<and> \<not> Deny p \<and> Exprs p = [])"

definition Match :: "purview \<Rightarrow> scope_input \<Rightarrow> bool" where
  "Match p inp =
     (if Deny p then False
      else if Unrestricted p then True
      else list_ex (\<lambda>x. evalScope (Some x) inp) (Exprs p))"

text \<open>
  The two nested loops of \<open>ResolvePurview\<close>, over the pairs of a permission and its role's scope in
  order. \<open>None\<close> is the early return of an unrestricted purview.
\<close>

fun purviewLoop ::
  "string \<Rightarrow> string \<Rightarrow> string list \<Rightarrow> (permission \<times> scope_expr option) list \<Rightarrow> scope_expr list option" where
  "purviewLoop resource action seen [] = Some []"
| "purviewLoop resource action seen ((p, roleScope) # rest) =
     (if \<not> covers p resource action then purviewLoop resource action seen rest
      else
        (case effectiveScope p roleScope of
           None \<Rightarrow> None
         | Some eff \<Rightarrow>
             if exprString eff \<in> set seen then purviewLoop resource action seen rest
             else map_option (\<lambda>xs. eff # xs) (purviewLoop resource action (exprString eff # seen) rest)))"

definition heldPairs :: "role list \<Rightarrow> (permission \<times> scope_expr option) list" where
  "heldPairs roles = concat (map (\<lambda>role. map (\<lambda>p. (p, DefaultScope role)) (Permissions role)) roles)"

definition ResolvePurview :: "enforcer \<Rightarrow> string \<Rightarrow> string \<Rightarrow> string \<Rightarrow> purview" where
  "ResolvePurview e aid resource action =
     (if IsRevoked e aid then noPurview\<lparr>Deny := True\<rparr>
      else
        (case map_of (rolesByAID e) aid of
           None \<Rightarrow> noPurview
         | Some roles \<Rightarrow>
             (case purviewLoop resource action [] (heldPairs roles) of
                None \<Rightarrow> noPurview\<lparr>Unrestricted := True\<rparr>
              | Some exprs \<Rightarrow>
                  if exprs = [] then noPurview
                  else noPurview\<lparr>Exprs := sort_key exprString exprs\<rparr>)))"

section \<open>Projections\<close>

definition sortedKeys :: "string list \<Rightarrow> string list" where
  "sortedKeys ks = sort (remdups ks)"

text \<open>A disjunct that constrains covens alone, and one that constrains traits alone.\<close>

definition pureCoven :: "conj \<Rightarrow> bool" where
  "pureCoven cj = list_all (\<lambda>c. cDim c = dimCoven \<and> cMatch c = MatchIn) cj"

definition pureTrait :: "conj \<Rightarrow> bool" where
  "pureTrait cj = list_all (\<lambda>c. cDim c = dimTrait) cj"

definition covensFromPurview :: "purview \<Rightarrow> string list" where
  "covensFromPurview p =
     sortedKeys (concat (map (\<lambda>x. concat (map (\<lambda>cj. concat (map cValues cj))
       (filter pureCoven (dnfOrNothing x)))) (Exprs p)))"

definition traitPairs :: "purview \<Rightarrow> (string \<times> string list) list" where
  "traitPairs p =
     concat (map (\<lambda>x. concat (map (\<lambda>cj. map (\<lambda>c. (cKey c, cValues c)) cj)
       (filter pureTrait (dnfOrNothing x)))) (Exprs p))"

text \<open>The result map, from a trait key to its sorted values.\<close>

definition traitsFromPurview :: "purview \<Rightarrow> string \<rightharpoonup> string list" where
  "traitsFromPurview p key =
     (if key \<in> set (map fst (traitPairs p))
      then Some (sortedKeys (concat (map snd (filter (\<lambda>kv. fst kv = key) (traitPairs p)))))
      else None)"

definition CovenScope :: "enforcer \<Rightarrow> string \<Rightarrow> string \<Rightarrow> string \<Rightarrow> string list \<times> bool" where
  "CovenScope e aid resource action =
     (let p = ResolvePurview e aid resource action in
      if Unrestricted p then ([], True) else (covensFromPurview p, False))"

definition TraitScope :: "enforcer \<Rightarrow> string \<Rightarrow> string \<Rightarrow> string \<Rightarrow> (string \<rightharpoonup> string list) \<times> bool" where
  "TraitScope e aid resource action =
     (let p = ResolvePurview e aid resource action in
      if Unrestricted p then (Map.empty, True) else (traitsFromPurview p, False))"

definition holdsFromPurview :: "purview \<Rightarrow> bool" where
  "holdsFromPurview p = Holds p"

definition HoldsAction :: "enforcer \<Rightarrow> string \<Rightarrow> string \<Rightarrow> string \<Rightarrow> bool" where
  "HoldsAction e aid resource action = holdsFromPurview (ResolvePurview e aid resource action)"

definition RolesOf :: "enforcer \<Rightarrow> string \<Rightarrow> string list" where
  "RolesOf e aid = map Name (rolesFor e aid)"

definition RoleCount :: "enforcer \<Rightarrow> nat" where
  "RoleCount e = length (allRoles e)"

definition OperatorCount :: "enforcer \<Rightarrow> nat" where
  "OperatorCount e = length (rolesByAID e)"

definition joinRoleNames :: "role list \<Rightarrow> string" where
  "joinRoleNames roles = (if roles = [] then ''<none>'' else join '','' (map Name roles))"

section \<open>Effective permissions of an operator\<close>

record effective_permission =
  epWildcard :: bool
  epResource :: string
  epAction :: string
  epScope :: purview

text \<open>
  The loop of \<open>PermissionsOf\<close>: \<open>None\<close> is the early return at a bare wildcard; otherwise the pairs of
  resource and action seen, and the scopes of the scoped wildcards without repetition.
\<close>

fun permissionsLoop ::
  "string list \<Rightarrow> permission list \<Rightarrow> ((string \<times> string) list \<times> scope_expr list) option" where
  "permissionsLoop seenWild [] = Some ([], [])"
| "permissionsLoop seenWild (p # ps) =
     (if IsWildcard p then
        (case Scope p of
           None \<Rightarrow> None
         | Some s \<Rightarrow>
             if exprString s = [] \<or> exprString s \<in> set seenWild then permissionsLoop seenWild ps
             else map_option (\<lambda>(prs, ws). (prs, s # ws)) (permissionsLoop (exprString s # seenWild) ps))
      else map_option (\<lambda>(prs, ws). ((Resource p, Action p) # prs, ws)) (permissionsLoop seenWild ps))"

definition wildcardEntry :: "scope_expr list \<Rightarrow> effective_permission" where
  "wildcardEntry ws = \<lparr>epWildcard = True, epResource = [], epAction = [],
     epScope = noPurview\<lparr>Exprs := ws\<rparr>\<rparr>"

definition PermissionsOf :: "enforcer \<Rightarrow> string \<Rightarrow> effective_permission list" where
  "PermissionsOf e aid =
     (if IsRevoked e aid then []
      else if rolesFor e aid = [] then []
      else
        (case permissionsLoop [] (concat (map Permissions (rolesFor e aid))) of
           None \<Rightarrow> [wildcardEntry []]
         | Some (prs, ws) \<Rightarrow>
             sort_key (\<lambda>x. (epResource x, epAction x))
               ((if ws \<noteq> [] then [wildcardEntry (sort_key exprString ws)] else []) @
                map (\<lambda>(r, a). \<lparr>epWildcard = False, epResource = r, epAction = a,
                    epScope = ResolvePurview e aid r a\<rparr>) (remdups prs))))"

section \<open>An enforcer's roles are well formed\<close>

definition wf_enforcer :: "enforcer \<Rightarrow> bool" where
  "wf_enforcer e \<longleftrightarrow> list_all (\<lambda>(aid, rs). list_all wf_role rs) (rolesByAID e)"

lemma wf_enforcer_roles: "wf_enforcer e \<Longrightarrow> role \<in> set (rolesFor e aid) \<Longrightarrow> wf_role role"
  unfolding wf_enforcer_def rolesFor_def list_all_iff
  by (cases "map_of (rolesByAID e) aid") (auto dest!: map_of_SomeD)

lemma rolesFor_bound:
  "role \<in> set (rolesFor e aid) \<Longrightarrow>
     \<exists>rs. map_of (rolesByAID e) aid = Some rs \<and> rolesFor e aid = rs \<and> role \<in> set rs"
  by (cases "map_of (rolesByAID e) aid") (auto simp: rolesFor_def)

lemma buildRole_Inr:
  assumes "buildRole snap row = Inr nr"
  shows "fst nr = fst row" and "wf_role (snd nr)"
    and "ParentRole (snd nr) = (case map_of (snapParents snap) (fst nr) of None \<Rightarrow> [] | Some p \<Rightarrow> p)"
proof -
  obtain name raws where row: "row = (name, raws)" by (cases row)
  with assms obtain perms scope where ps: "map_result (parseRow name) raws = Inr perms"
    and sc: "(case map_of (snapScopes snap) name of
        None \<Rightarrow> Inr None
      | Some rawScope \<Rightarrow> (case ParseDefaultScope rawScope of
          Inl e \<Rightarrow> Inl (SnapshotScope name rawScope e) | Inr s \<Rightarrow> Inr s)) = Inr scope"
    and nr: "nr = (name, \<lparr>Name = name, Permissions = perms, DefaultScope = scope,
      ParentRole = (case map_of (snapParents snap) name of None \<Rightarrow> [] | Some p \<Rightarrow> p),
      InertPermissions = []\<rparr>)"
    unfolding buildRole_def by (auto split: sum.splits)
  show "fst nr = fst row" using nr row by simp
  show "ParentRole (snd nr) = (case map_of (snapParents snap) (fst nr) of None \<Rightarrow> [] | Some p \<Rightarrow> p)"
    using nr by simp
  have "scoped_wf p" if "p \<in> set perms" for p
  proof -
    obtain raw where "parseRow name raw = Inr p" using map_result_set [OF ps \<open>p \<in> set perms\<close>] by blast
    then have "ParsePermission raw = Inr p" by (auto simp: parseRow_def split: sum.splits)
    then show ?thesis using ParsePermission_Inr(1) wf_perm_scope by (auto simp: scoped_wf_def)
  qed
  moreover have "wf_scope scope"
    using sc by (auto split: option.splits sum.splits dest: ParseDefaultScope_Inr)
  ultimately show "wf_role (snd nr)" using nr by (simp add: wf_role_def list_all_iff)
qed

lemma buildRoles_Inr:
  assumes "map_result (buildRole snap) rows = Inr byName"
  shows "map fst byName = map fst rows" and "wf_catalog byName" and "graphOf byName (snapParents snap)"
proof -
  have l: "list_all2 (\<lambda>x y. buildRole snap x = Inr y) rows byName"
    using assms by (simp add: map_result_Inr)
  then show "map fst byName = map fst rows"
    by (induction rule: list_all2_induct) (auto dest: buildRole_Inr(1))
  have each: "\<exists>row. buildRole snap row = Inr nr" if "nr \<in> set byName" for nr
    using map_result_set [OF assms that] by blast
  then show "wf_catalog byName"
    unfolding wf_catalog_def list_all_iff comp_def using buildRole_Inr(2) by blast
  show "graphOf byName (snapParents snap)"
    unfolding graphOf_def
  proof (intro allI impI)
    fix n p
    assume "parentOf byName n = Some p"
    then obtain r where "map_of byName n = Some r" and r: "ParentRole r = p" "p \<noteq> []"
      by (auto simp: parentOf_def split: option.splits if_splits)
    then obtain row where "buildRole snap row = Inr (n, r)" using each map_of_SomeD by metis
    from buildRole_Inr(3) [OF this] r show "map_of (snapParents snap) n = Some p"
      by (auto split: option.splits)
  qed
qed

lemma NewEnforcer_Inr:
  assumes "NewEnforcerFromSnapshot (Some snap) = Inr e"
  obtains byName flat where
    "validateRoleGraph (map fst byName) (snapParents snap) = Inr ()"
    "map_result (buildRole snap) (snapRoles snap) = Inr byName"
    "flattenRoleGraph byName = Inr flat"
    "rolesByAID e = bindMembers flat (snapMembership snap)" "revokedAIDs e = snapRevoked snap"
  using assms buildRoles_Inr(1)
  by (auto simp: NewEnforcerFromSnapshot_def split: sum.splits)

lemma boundRoles_set: "role \<in> set (boundRoles cat names) \<longleftrightarrow> (\<exists>n \<in> set names. map_of cat n = Some role)"
  by (induction names) (auto simp: boundRoles_def List.map_filter_simps split: option.splits)

lemma bindMembers_lookup:
  assumes "map_of (bindMembers cat ms) aid = Some rs" and "role \<in> set rs"
  shows "\<exists>names n. (aid, names) \<in> set ms \<and> n \<in> set names \<and> map_of cat n = Some role"
proof -
  from assms(1) have "(aid, rs) \<in> set (bindMembers cat ms)" by (rule map_of_SomeD)
  then obtain names where "(aid, names) \<in> set ms" "rs = boundRoles cat names"
    by (auto simp: bindMembers_def)
  with assms(2) boundRoles_set show ?thesis by blast
qed

lemma NewEnforcer_wf:
  assumes "NewEnforcerFromSnapshot osnap = Inr e"
  shows "wf_enforcer e"
proof (cases osnap)
  case None
  with assms show ?thesis by (auto simp: NewEnforcerFromSnapshot_def wf_enforcer_def)
next
  case (Some snap)
  with assms obtain byName flat where v: "validateRoleGraph (map fst byName) (snapParents snap) = Inr ()"
    and b: "map_result (buildRole snap) (snapRoles snap) = Inr byName"
    and f: "flattenRoleGraph byName = Inr flat"
    and e: "rolesByAID e = bindMembers flat (snapMembership snap)"
    using NewEnforcer_Inr by metis
  have "wf_role r" if "map_of flat n = Some r" for n r
    using resolved_wf [OF v buildRoles_Inr(3) [OF b] f buildRoles_Inr(2) [OF b] that] .
  then show ?thesis
    unfolding wf_enforcer_def e by (auto simp: bindMembers_def list_all_iff boundRoles_set)
qed

section \<open>The resolver and the gate agree\<close>

definition pairScopes :: "string \<Rightarrow> string \<Rightarrow> (permission \<times> scope_expr option) list \<Rightarrow> scope_expr option set" where
  "pairScopes r a pairs = {effectiveScope p s | p s. (p, s) \<in> set pairs \<and> covers p r a}"

lemma pairScopes_simps [simp]:
  "pairScopes r a [] = {}"
  "pairScopes r a ((p, s) # rest) =
     (if covers p r a then insert (effectiveScope p s) (pairScopes r a rest) else pairScopes r a rest)"
  by (auto simp: pairScopes_def)

lemma purviewLoop_None: "purviewLoop r a seen pairs = None \<longleftrightarrow> None \<in> pairScopes r a pairs"
  by (induction r a seen pairs rule: purviewLoop.induct) (auto split: option.splits)

lemma purviewLoop_subset: "purviewLoop r a seen pairs = Some xs \<Longrightarrow> Some ` set xs \<subseteq> pairScopes r a pairs"
proof (induction r a seen pairs arbitrary: xs rule: purviewLoop.induct)
  case (2 r a seen p s rest)
  show ?case
  proof (cases "covers p r a")
    case True
    with "2.prems" obtain eff where eff: "effectiveScope p s = Some eff" by (auto split: option.splits)
    show ?thesis
    proof (cases "exprString eff \<in> set seen")
      case True
      with 2 eff \<open>covers p r a\<close> show ?thesis by auto
    next
      case False
      with "2.prems" eff \<open>covers p r a\<close> obtain ys where "xs = eff # ys"
        and ys: "purviewLoop r a (exprString eff # seen) rest = Some ys" by auto
      with "2.IH"(3) [OF _ eff False ys] eff \<open>covers p r a\<close> show ?thesis by auto
    qed
  qed (use 2 in auto)
qed simp

lemma purviewLoop_keeps:
  "purviewLoop r a seen pairs = Some xs \<Longrightarrow> \<forall>s \<in> pairScopes r a pairs. wf_scope s \<Longrightarrow>
     Some x \<in> pairScopes r a pairs \<Longrightarrow> exprString x \<notin> set seen \<Longrightarrow> x \<in> set xs"
proof (induction r a seen pairs arbitrary: xs rule: purviewLoop.induct)
  case (2 r a seen p s rest)
  show ?case
  proof (cases "covers p r a")
    case False
    with 2 show ?thesis by simp
  next
    case True
    with "2.prems"(1) obtain eff where eff: "effectiveScope p s = Some eff" by (auto split: option.splits)
    have wf: "wf_expr eff" "wf_expr x" using "2.prems"(2,3) True eff by (fastforce simp: wf_scope_def)+
    show ?thesis
    proof (cases "exprString eff \<in> set seen")
      case True
      with "2.prems" eff \<open>covers p r a\<close> "2.IH"(2) show ?thesis by auto
    next
      case False
      with "2.prems"(1) eff \<open>covers p r a\<close> obtain ys where xs: "xs = eff # ys"
        "purviewLoop r a (exprString eff # seen) rest = Some ys" by auto
      show ?thesis
      proof (cases "x = eff")
        case True
        with xs show ?thesis by simp
      next
        case ne: False
        then have "exprString x \<noteq> exprString eff" using exprString_inject [OF wf(2,1)] by blast
        with "2.IH"(3) [OF _ eff False] xs "2.prems" \<open>covers p r a\<close> ne eff show ?thesis by auto
      qed
    qed
  qed
qed simp

lemma purviewLoop_set:
  assumes "purviewLoop r a [] pairs = Some xs" and "\<forall>s \<in> pairScopes r a pairs. wf_scope s"
  shows "Some ` set xs = pairScopes r a pairs"
proof
  show "Some ` set xs \<subseteq> pairScopes r a pairs" using purviewLoop_subset [OF assms(1)] .
  show "pairScopes r a pairs \<subseteq> Some ` set xs"
  proof
    fix s assume s: "s \<in> pairScopes r a pairs"
    have "s \<noteq> None" using purviewLoop_None [of r a "[]" pairs] assms(1) s by (cases s) auto
    then obtain x where x: "s = Some x" by blast
    with purviewLoop_keeps [OF assms] s have "x \<in> set xs" by simp
    with x show "s \<in> Some ` set xs" by simp
  qed
qed

lemma pairScopes_held:
  "s \<in> pairScopes r a (heldPairs roles) \<longleftrightarrow>
     (\<exists>role \<in> set roles. \<exists>p \<in> set (Permissions role). covers p r a \<and> s = effectiveScope p (DefaultScope role))"
  by (auto simp: pairScopes_def heldPairs_def)

lemma effectiveScope_wf:
  "wf_role role \<Longrightarrow> p \<in> set (Permissions role) \<Longrightarrow> wf_scope (effectiveScope p (DefaultScope role))"
  by (auto simp: effectiveScope_def wf_role_def list_all_iff scoped_wf_def)

lemma held_grants:
  "(\<exists>s \<in> pairScopes r a (heldPairs roles). evalScope s inp) \<longleftrightarrow> (\<exists>role \<in> set roles. roleGrants role r a inp)"
  by (fastforce simp: pairScopes_held roleGrants_def grantsInRole_def list_ex_iff)

lemma Match_ResolvePurview:
  assumes "wf_enforcer e"
  shows "Match (ResolvePurview e aid r a) inp \<longleftrightarrow>
    \<not> IsRevoked e aid \<and> (\<exists>role \<in> set (rolesFor e aid). roleGrants role r a inp)"
proof (cases "IsRevoked e aid \<or> map_of (rolesByAID e) aid = None")
  case True
  then show ?thesis by (auto simp: ResolvePurview_def Match_def noPurview_def rolesFor_def)
next
  case False
  then obtain roles where roles: "map_of (rolesByAID e) aid = Some roles" "rolesFor e aid = roles"
    by (auto simp: rolesFor_def)
  have wf: "\<forall>s \<in> pairScopes r a (heldPairs roles). wf_scope s"
    using wf_enforcer_roles [OF assms, of _ aid] roles effectiveScope_wf by (auto simp: pairScopes_held)
  show ?thesis
  proof (cases "purviewLoop r a [] (heldPairs roles)")
    case None
    then have "None \<in> pairScopes r a (heldPairs roles)" by (simp add: purviewLoop_None)
    then have "\<exists>role \<in> set roles. roleGrants role r a inp"
      using held_grants [of r a roles inp] evalScope_simps(1) by blast
    with None False roles show ?thesis by (simp add: ResolvePurview_def Match_def noPurview_def)
  next
    case (Some xs)
    have "Match (ResolvePurview e aid r a) inp \<longleftrightarrow> (\<exists>x \<in> set xs. evalScope (Some x) inp)"
      using Some False roles by (auto simp: ResolvePurview_def Match_def noPurview_def list_ex_iff)
    also have "\<dots> \<longleftrightarrow> (\<exists>s \<in> pairScopes r a (heldPairs roles). evalScope s inp)"
      using purviewLoop_set [OF Some wf] by (metis (no_types, lifting) imageE imageI)
    finally show ?thesis using False roles held_grants by simp
  qed
qed

lemma Check_iff:
  "Check e aid r a ctx = Inr () \<longleftrightarrow>
     r \<noteq> [] \<and> a \<noteq> [] \<and> \<not> IsRevoked e aid \<and>
     (\<exists>role \<in> set (rolesFor e aid). roleGrants role r a (scopeInputFromContext ctx))"
  by (auto simp: Check_def IsRevoked_def roleGrants_def MatchesInRole_grants list_ex_iff
      split: option.splits)

lemma Holds_ResolvePurview:
  assumes "wf_enforcer e"
  shows "Holds (ResolvePurview e aid r a) \<longleftrightarrow>
    \<not> IsRevoked e aid \<and> (\<exists>role \<in> set (rolesFor e aid). \<exists>p \<in> set (Permissions role). covers p r a)"
proof (cases "IsRevoked e aid \<or> map_of (rolesByAID e) aid = None")
  case True
  then show ?thesis by (auto simp: ResolvePurview_def Holds_def noPurview_def rolesFor_def)
next
  case False
  then obtain roles where roles: "map_of (rolesByAID e) aid = Some roles" "rolesFor e aid = roles"
    by (auto simp: rolesFor_def)
  have wf: "\<forall>s \<in> pairScopes r a (heldPairs roles). wf_scope s"
    using wf_enforcer_roles [OF assms, of _ aid] roles effectiveScope_wf by (auto simp: pairScopes_held)
  have ex: "pairScopes r a (heldPairs roles) \<noteq> {} \<longleftrightarrow>
      (\<exists>role \<in> set roles. \<exists>p \<in> set (Permissions role). covers p r a)"
    using pairScopes_held [of _ r a roles] by blast
  show ?thesis
  proof (cases "purviewLoop r a [] (heldPairs roles)")
    case None
    then have "pairScopes r a (heldPairs roles) \<noteq> {}" by (auto simp: purviewLoop_None)
    with ex None False roles show ?thesis by (simp add: ResolvePurview_def Holds_def noPurview_def)
  next
    case (Some xs)
    then have "xs \<noteq> [] \<longleftrightarrow> pairScopes r a (heldPairs roles) \<noteq> {}"
      using purviewLoop_set [OF Some wf] by (metis image_is_empty set_empty)
    with ex Some False roles show ?thesis
      by (auto simp: ResolvePurview_def Holds_def noPurview_def)
        (metis length_0_conv length_sort)+
  qed
qed

section \<open>The list of effective permissions\<close>

lemma permissionsLoop_None:
  "permissionsLoop seen ps = None \<longleftrightarrow> (\<exists>p \<in> set ps. IsWildcard p \<and> Scope p = None)"
  by (induction seen ps rule: permissionsLoop.induct) (auto split: option.splits)

lemma permissionsLoop_pairs:
  "permissionsLoop seen ps = Some (prs, ws) \<Longrightarrow> p \<in> set ps \<Longrightarrow> \<not> IsWildcard p \<Longrightarrow> (Resource p, Action p) \<in> set prs"
  by (induction seen ps arbitrary: prs ws rule: permissionsLoop.induct)
    (auto split: option.splits if_splits)

lemma permissionsLoop_wild:
  "permissionsLoop seen ps = Some (prs, ws) \<Longrightarrow> \<forall>q \<in> set ps. scoped_wf q \<Longrightarrow> p \<in> set ps \<Longrightarrow>
     IsWildcard p \<Longrightarrow> Scope p = Some s \<Longrightarrow> exprString s \<notin> set seen \<Longrightarrow> s \<in> set ws"
proof (induction seen ps arbitrary: prs ws rule: permissionsLoop.induct)
  case (2 seen q ps)
  show ?case
  proof (cases "IsWildcard q")
    case False
    with 2 show ?thesis by (auto split: option.splits)
  next
    case True
    with "2.prems"(1) obtain x where x: "Scope q = Some x" by (auto split: option.splits)
    have wf: "wf_expr x" "wf_expr s"
      using "2.prems"(2,3,5) x by (force simp: scoped_wf_def)+
    then have ne: "exprString x \<noteq> []" using trimmed_expr trimmed_def by blast
    show ?thesis
    proof (cases "exprString x \<in> set seen")
      case seen: True
      with "2.prems" x have "p \<in> set ps" by auto
      with 2 True x seen show ?thesis by (auto split: option.splits)
    next
      case False
      with "2.prems"(1) True x ne obtain prs' ws' where l: "ws = x # ws'"
        "permissionsLoop (exprString x # seen) ps = Some (prs', ws')" by auto
      show ?thesis
      proof (cases "s = x")
        case True
        with l show ?thesis by simp
      next
        case diff: False
        then have "exprString s \<noteq> exprString x" using exprString_inject [OF wf(2,1)] by blast
        moreover have "p \<in> set ps" using "2.prems"(3,5) diff x by auto
        ultimately show ?thesis
          using "2.IH"(2) [OF True x _ l(2)] "2.prems"(2,4-6) False ne l(1) by auto
      qed
    qed
  qed
qed simp

lemma set_PermissionsOf:
  assumes "\<not> IsRevoked e aid" and "rolesFor e aid \<noteq> []"
    and "permissionsLoop [] (concat (map Permissions (rolesFor e aid))) = Some (prs, ws)"
  shows "set (PermissionsOf e aid) =
    (if ws \<noteq> [] then {wildcardEntry (sort_key exprString ws)} else {}) \<union>
    (\<lambda>(r, a). \<lparr>epWildcard = False, epResource = r, epAction = a,
        epScope = ResolvePurview e aid r a\<rparr>) ` set prs"
  using assms by (simp add: PermissionsOf_def del: sort_key_simps)

section \<open>Properties\<close>

text \<open>A snapshot the witnesses share.\<close>

definition sampleSnap :: snapshot where
  "sampleSnap = \<lparr>snapRoles = [(''ops'', [permString samplePerm]), (''root'', [''*''])], snapScopes = [],
     snapParents = [], snapMembership = [(''alice'', [''ops'']), (''eve'', [''root'']), (''bob'', [''root''])],
     snapRevoked = [(''eve'', 7)], snapRevokedJWTs = []\<rparr>"

definition starPerm :: permission where
  "starPerm = \<lparr>IsWildcard = True, Resource = [], Action = [], Scope = None\<rparr>"

definition opsRole :: role where
  "opsRole = \<lparr>Name = ''ops'', Permissions = [samplePerm], DefaultScope = None, ParentRole = [], InertPermissions = []\<rparr>"

definition rootRole :: role where
  "rootRole = \<lparr>Name = ''root'', Permissions = [starPerm], DefaultScope = None, ParentRole = [], InertPermissions = []\<rparr>"

definition sampleEnforcer :: enforcer where
  "sampleEnforcer = \<lparr>rolesByAID = [(''alice'', [opsRole]), (''eve'', [rootRole]), (''bob'', [rootRole])],
     allRoles = [opsRole, rootRole], revokedAIDs = [(''eve'', 7)], revokedJWTs = []\<rparr>"

lemma starPerm_parsed: "ParsePermission ''*'' = Inr starPerm"
  using ParsePermission_canonical [of starPerm]
  by (simp add: starPerm_def wf_perm_def readable_def permString_def)

lemma sampleSnap_loads: "NewEnforcerFromSnapshot (Some sampleSnap) = Inr sampleEnforcer"
proof -
  have b: "map_result (buildRole sampleSnap) (snapRoles sampleSnap) = Inr [(''ops'', opsRole), (''root'', rootRole)]"
    using samplePerm_parsed starPerm_parsed
    by (simp add: sampleSnap_def buildRole_def parseRow_def opsRole_def rootRole_def)
  have "flattenRoleGraph [(''ops'', opsRole), (''root'', rootRole)] = Inr [(''ops'', opsRole), (''root'', rootRole)]"
    by (simp add: flattenRoleGraph_def maxRoleChainDepth_def eval_nat_numeral opsRole_def rootRole_def)
  with b show ?thesis
    by (simp add: NewEnforcerFromSnapshot_def validateRoleGraph_def)
      (simp add: sampleSnap_def sampleEnforcer_def bindMembers_def boundRoles_def List.map_filter_simps)
qed

definition sampleCtx :: req_context where
  "sampleCtx = [''host'' \<mapsto> ''a'', ''sid'' \<mapsto> ''w1'']"

lemma sample_allowed: "Check sampleEnforcer ''alice'' ''incarnation'' ''run'' sampleCtx = Inr ()"
  by (simp add: Check_iff IsRevoked_def rolesFor_def sampleEnforcer_def opsRole_def roleGrants_def
      grantsInRole_def covers_def effectiveScope_def samplePerm_def sampleExpr_def evalCond_def anyInSet_def
      scopeInputFromContext_def sampleCtx_def anyGlobMatch_def matchString_def compileGlob_def runes_def
      code_def dim_defs)

text \<open>
  (C1) Gate and resolver agree: for an enforcer built from a snapshot, \<open>Check\<close> allows a request exactly
  when its context lies inside the purview resolved for the same operator, resource and action. So a
  read filtered by the purview and a mutation gated by \<open>Check\<close> have one and the same boundary.
\<close>

theorem check_agrees_with_purview:
  assumes "NewEnforcerFromSnapshot snap = Inr e" and "resource \<noteq> []" and "action \<noteq> []"
  shows "Check e aid resource action ctx = Inr () \<longleftrightarrow>
    Match (ResolvePurview e aid resource action) (scopeInputFromContext ctx)"
  using Check_iff [of e aid resource action ctx]
    Match_ResolvePurview [OF NewEnforcer_wf [OF assms(1)], of aid resource action "scopeInputFromContext ctx"]
    assms(2,3) by simp

theorem check_agrees_with_purview_witness:
  "Match (ResolvePurview sampleEnforcer ''alice'' ''incarnation'' ''run'') (scopeInputFromContext sampleCtx)"
  using check_agrees_with_purview [OF sampleSnap_loads, of "''incarnation''" "''run''" "''alice''" sampleCtx]
    sample_allowed by simp

text \<open>
  A decision stays inside the chain: when \<open>Check\<close> allows a request, the operator is not revoked and
  holds by membership a role of the snapshot that gives it, and so does the resolved form of every
  ancestor of that role.
\<close>

theorem check_within_role_chain:
  assumes "NewEnforcerFromSnapshot (Some snap) = Inr e" and "Check e aid resource action ctx = Inr ()"
  shows "\<not> IsRevoked e aid \<and>
    (\<exists>byName flat names name role.
       map_result (buildRole snap) (snapRoles snap) = Inr byName \<and> flattenRoleGraph byName = Inr flat \<and>
       (aid, names) \<in> set (snapMembership snap) \<and> name \<in> set names \<and> map_of flat name = Some role \<and>
       roleGrants role resource action (scopeInputFromContext ctx) \<and>
       (\<forall>up. ancestor byName name up \<longrightarrow>
          (\<exists>top. map_of flat up = Some top \<and> roleGrants top resource action (scopeInputFromContext ctx))))"
proof -
  let ?inp = "scopeInputFromContext ctx"
  obtain byName flat where v: "validateRoleGraph (map fst byName) (snapParents snap) = Inr ()"
    and b: "map_result (buildRole snap) (snapRoles snap) = Inr byName"
    and f: "flattenRoleGraph byName = Inr flat"
    and e: "rolesByAID e = bindMembers flat (snapMembership snap)"
    using NewEnforcer_Inr [OF assms(1)] by metis
  from assms(2) obtain role where nr: "\<not> IsRevoked e aid" and role: "role \<in> set (rolesFor e aid)"
    and gr: "roleGrants role resource action ?inp" by (auto simp: Check_iff)
  then obtain rs where "map_of (bindMembers flat (snapMembership snap)) aid = Some rs" "role \<in> set rs"
    using rolesFor_bound [OF role] unfolding e by blast
  from bindMembers_lookup [OF this] obtain names name where
    m: "(aid, names) \<in> set (snapMembership snap)" "name \<in> set names" "map_of flat name = Some role" by blast
  have up: "\<exists>top. map_of flat up = Some top \<and> roleGrants top resource action ?inp"
    if anc: "ancestor byName name up" for up
  proof -
    obtain top where "map_of flat up = Some top" "derivesFrom\<^sup>*\<^sup>* top role"
      using ancestor_derives [OF anc v buildRoles_Inr(3) [OF b] f buildRoles_Inr(2) [OF b] m(3)] by blast
    then show ?thesis
      using derivation.chain_gives [of top role "(resource, action, ?inp)"] gr by (auto simp: role_gives_def)
  qed
  show ?thesis using nr b f m gr up by blast
qed

theorem check_within_role_chain_witness:
  "\<exists>names. (''alice'', names) \<in> set (snapMembership sampleSnap)"
  using check_within_role_chain [OF sampleSnap_loads sample_allowed] by blast

text \<open>
  A revoked operator has nothing, whatever its roles: every request is refused, with the
  revocation as the reason, the purview admits no node, no action is held, the permission list is empty
  and no coven label is in scope.
\<close>

theorem revoked_has_nothing:
  assumes "IsRevoked e aid" and "resource \<noteq> []" and "action \<noteq> []"
  shows "(\<exists>t. Check e aid resource action ctx = Inl (ErrOperatorRevoked aid t))
    \<and> \<not> Match (ResolvePurview e aid resource action) inp \<and> \<not> HoldsAction e aid resource action
    \<and> PermissionsOf e aid = [] \<and> CovenScope e aid resource action = ([], False)"
  using assms
  by (auto simp: Check_def IsRevoked_def ResolvePurview_def Match_def HoldsAction_def holdsFromPurview_def
      Holds_def PermissionsOf_def CovenScope_def covensFromPurview_def noPurview_def sortedKeys_def)

theorem revoked_has_nothing_witness:
  "HasWildcard sampleEnforcer ''eve'' \<and> PermissionsOf sampleEnforcer ''eve'' = []"
  using revoked_has_nothing [of sampleEnforcer "''eve''" "''soul''" "''list''"]
  by (simp add: IsRevoked_def sampleEnforcer_def HasWildcard_def rolesFor_def rootRole_def starPerm_def)

text \<open>
  A cluster administrator can do everything: an operator whom \<open>HasWildcard\<close> counts, and who is not
  revoked, passes every check in every context and has an unrestricted purview. This is what makes the
  self-lockout count of \<open>ClusterAdmins\<close> meaningful.
\<close>

theorem cluster_admin_unrestricted:
  assumes "HasWildcard e aid" and "\<not> IsRevoked e aid" and "resource \<noteq> []" and "action \<noteq> []"
  shows "Check e aid resource action ctx = Inr () \<and> Unrestricted (ResolvePurview e aid resource action)"
proof -
  from assms(1) obtain role p where role: "role \<in> set (rolesFor e aid)" "p \<in> set (Permissions role)"
    "IsWildcard p" "Scope p = None" by (auto simp: HasWildcard_def list_ex_iff)
  then have eff: "covers p resource action" "effectiveScope p (DefaultScope role) = None"
    by (auto simp: covers_def effectiveScope_def)
  obtain roles where roles: "map_of (rolesByAID e) aid = Some roles" "rolesFor e aid = roles"
    using rolesFor_bound [OF role(1)] by blast
  have "None \<in> pairScopes resource action (heldPairs roles)"
    using role eff roles by (auto simp: pairScopes_held) metis
  then have "purviewLoop resource action [] (heldPairs roles) = None" by (simp add: purviewLoop_None)
  then have "Unrestricted (ResolvePurview e aid resource action)"
    using assms(2) roles by (simp add: ResolvePurview_def noPurview_def)
  moreover have "Check e aid resource action ctx = Inr ()"
    using assms(2-4) role eff unfolding Check_iff roleGrants_def grantsInRole_def list_ex_iff
    by (metis evalScope_simps(1))
  ultimately show ?thesis by blast
qed

theorem cluster_admin_unrestricted_witness:
  "Check sampleEnforcer ''bob'' ''operator'' ''create'' Map.empty = Inr ()"
  using cluster_admin_unrestricted [of sampleEnforcer "''bob''" "''operator''" "''create''" Map.empty]
  by (simp add: IsRevoked_def sampleEnforcer_def HasWildcard_def rolesFor_def rootRole_def starPerm_def)

text \<open>
  The existence gate is exact: \<open>HoldsAction\<close> is true exactly for an operator that is not revoked
  and holds, in some role, a permission naming that resource and action, in whatever scope.
\<close>

theorem HoldsAction_exact:
  assumes "NewEnforcerFromSnapshot snap = Inr e"
  shows "HoldsAction e aid resource action \<longleftrightarrow> \<not> IsRevoked e aid \<and>
    list_ex (\<lambda>role. list_ex (\<lambda>p. covers p resource action) (Permissions role)) (rolesFor e aid)"
  using Holds_ResolvePurview [OF NewEnforcer_wf [OF assms], of aid resource action]
  by (simp add: HoldsAction_def holdsFromPurview_def list_ex_iff)

theorem HoldsAction_exact_witness:
  "HoldsAction sampleEnforcer ''alice'' ''incarnation'' ''run'' \<and>
   \<not> HoldsAction sampleEnforcer ''alice'' ''incarnation'' ''create''"
  using HoldsAction_exact [OF sampleSnap_loads, of "''alice''" "''incarnation''" "''run''"]
    HoldsAction_exact [OF sampleSnap_loads, of "''alice''" "''incarnation''" "''create''"]
  by (simp add: IsRevoked_def sampleEnforcer_def rolesFor_def opsRole_def samplePerm_def covers_def)

text \<open>
  The list of effective permissions is complete: if a request is allowed, then \<open>PermissionsOf\<close> of
  that operator has an entry that accounts for it, the unrestricted wildcard marker, or the scoped
  wildcard or the entry of that resource with the action or \<open>*\<close>, with a purview that admits the request.
\<close>

theorem PermissionsOf_complete:
  assumes "NewEnforcerFromSnapshot snap = Inr e" and "Check e aid resource action ctx = Inr ()"
  shows "\<exists>x \<in> set (PermissionsOf e aid).
    x = wildcardEntry [] \<or>
    Match (epScope x) (scopeInputFromContext ctx) \<and>
      (epWildcard x \<or> epResource x = resource \<and> (epAction x = ''*'' \<or> epAction x = action))"
proof -
  let ?inp = "scopeInputFromContext ctx" and ?ps = "concat (map Permissions (rolesFor e aid))"
  note wf = NewEnforcer_wf [OF assms(1)]
  from assms(2) obtain role where nr: "\<not> IsRevoked e aid" and role: "role \<in> set (rolesFor e aid)"
    and gr: "roleGrants role resource action ?inp" by (auto simp: Check_iff)
  then obtain p where p: "p \<in> set (Permissions role)" "covers p resource action"
    "evalScope (effectiveScope p (DefaultScope role)) ?inp"
    by (auto simp: roleGrants_def grantsInRole_def list_ex_iff)
  then have pin: "p \<in> set ?ps" using role by auto
  have wfp: "\<forall>q \<in> set ?ps. scoped_wf q"
    using wf_enforcer_roles [OF wf, of _ aid] by (auto simp: wf_role_def list_all_iff)
  have ne: "rolesFor e aid \<noteq> []" using role by auto
  show ?thesis
  proof (cases "permissionsLoop [] ?ps")
    case None
    then show ?thesis using nr ne by (simp add: PermissionsOf_def)
  next
    case (Some pw)
    then obtain prs ws where l: "permissionsLoop [] ?ps = Some (prs, ws)" by (cases pw) auto
    show ?thesis
    proof (cases "IsWildcard p")
      case True
      then have "Scope p \<noteq> None" using l pin permissionsLoop_None [of "[]" ?ps] by fastforce
      then obtain s where s: "Scope p = Some s" by blast
      then have "s \<in> set ws" using permissionsLoop_wild [OF l wfp pin True] by simp
      moreover have "evalScope (Some s) ?inp" using p(3) s by (simp add: effectiveScope_def)
      ultimately have "Match (noPurview\<lparr>Exprs := sort_key exprString ws\<rparr>) ?inp" and "ws \<noteq> []"
        by (auto simp: Match_def noPurview_def list_ex_iff)
      then show ?thesis using l nr ne
        by (intro bexI [of _ "wildcardEntry (sort_key exprString ws)"])
          (auto simp: set_PermissionsOf wildcardEntry_def)
    next
      case False
      let ?x = "\<lparr>epWildcard = False, epResource = Resource p, epAction = Action p,
        epScope = ResolvePurview e aid (Resource p) (Action p)\<rparr>"
      have "roleGrants role (Resource p) (Action p) ?inp"
        using p covers_self [of p] by (auto simp: roleGrants_def grantsInRole_def list_ex_iff)
      then have "Match (epScope ?x) ?inp"
        using Match_ResolvePurview [OF wf] nr role by auto
      moreover have "?x \<in> set (PermissionsOf e aid)"
        using permissionsLoop_pairs [OF l pin False] l nr ne by (force simp: set_PermissionsOf)
      moreover have "Resource p = resource \<and> (Action p = ''*'' \<or> Action p = action)"
        using p(2) False by (auto simp: covers_def split: if_splits)
      ultimately show ?thesis by (intro bexI [of _ ?x]) auto
    qed
  qed
qed

theorem PermissionsOf_complete_witness:
  "\<exists>x \<in> set (PermissionsOf sampleEnforcer ''alice'').
    x = wildcardEntry [] \<or>
    Match (epScope x) (scopeInputFromContext sampleCtx) \<and>
      (epWildcard x \<or> epResource x = ''incarnation'' \<and> (epAction x = ''*'' \<or> epAction x = ''run''))"
  using PermissionsOf_complete [OF sampleSnap_loads sample_allowed] .

lemma covensFromPurview_iff:
  "v \<in> set (covensFromPurview p) \<longleftrightarrow>
     (\<exists>x \<in> set (Exprs p). \<exists>cj \<in> set (dnfOrNothing x). pureCoven cj \<and> (\<exists>c \<in> set cj. v \<in> set (cValues c)))"
  by (auto simp: covensFromPurview_def sortedKeys_def)

text \<open>
  The coven projection is sound where each coven-only disjunct is a single condition: a node that
  carries a projected label then satisfies the purview, so a bulk operation bounded by the label stays
  inside it.
\<close>

theorem coven_projection_sound:
  assumes "\<forall>x \<in> set (Exprs p). wf_expr x"
    and "\<forall>x \<in> set (Exprs p). \<forall>cj \<in> set (dnfOrNothing x). pureCoven cj \<longrightarrow> length cj \<le> 1"
    and "\<not> Deny p" and "v \<in> set (covensFromPurview p)" and "v \<in> set (inCovens inp)"
  shows "Match p inp"
proof -
  from assms(4) obtain x cj c where x: "x \<in> set (Exprs p)" "cj \<in> set (dnfOrNothing x)" "pureCoven cj"
    and c: "c \<in> set cj" "v \<in> set (cValues c)" by (auto simp: covensFromPurview_iff)
  with assms(2) have "length cj \<le> 1" by blast
  with c(1) have "cj = [c]" by (cases cj) auto
  moreover have "evalCond c inp"
    using x(3) c assms(5) by (auto simp: pureCoven_def list_all_iff evalCond_in candidates_def anyInSet_def list_ex_iff)
  ultimately have "evalDNF (dnfOrNothing x) inp"
    using x(2) unfolding evalDNF_iff by (intro bexI [of _ cj]) simp_all
  then have "evalNode x inp" using dnfOrNothing_sound(2) assms(1) x(1) by blast
  with x(1) assms(3) show ?thesis by (auto simp: Match_def list_ex_iff)
qed

definition covenLeaf :: "string list \<Rightarrow> scope_expr" where
  "covenLeaf vs = OpLeaf (inCond dimCoven [] vs)"

definition covenInput :: "string list \<Rightarrow> scope_input" where
  "covenInput vs = \<lparr>inCovens = vs, inServices = [], inIncarnations = [], inHosts = [], inTraits = Map.empty\<rparr>"

lemma covenLeaf_wf: "vs \<noteq> [] \<Longrightarrow> list_all wf_value vs \<Longrightarrow> wf_expr (covenLeaf vs)"
  by (simp add: covenLeaf_def wf_inCond scopeDims_def)

theorem coven_projection_sound_witness:
  "Match (noPurview\<lparr>Exprs := [covenLeaf [''web'']]\<rparr>) (covenInput [''db'', ''web''])"
proof (rule coven_projection_sound [where v = "''web''"])
  show "\<forall>x \<in> set (Exprs (noPurview\<lparr>Exprs := [covenLeaf [''web'']]\<rparr>)). wf_expr x"
    using covenLeaf_wf [of "[''web'']"] by (simp add: wf_value_w)
qed (simp_all add: noPurview_def covensFromPurview_def covenLeaf_def dnfOrNothing_def pureCoven_def
      sortedKeys_def covenInput_def)

text \<open>
  In general the coven projection is wider than the purview: a scope that asks for two covens at
  once, \<open>coven=a AND coven=b\<close>, is a coven-only disjunct and projects to both labels, although a node that
  carries only one of them is outside the purview.
\<close>

theorem coven_projection_too_wide:
  "\<exists>e. set (fst (CovenScope e ''op'' ''soul'' ''coven-assign'')) = {''a'', ''b''}
     \<and> \<not> snd (CovenScope e ''op'' ''soul'' ''coven-assign'')
     \<and> \<not> Match (ResolvePurview e ''op'' ''soul'' ''coven-assign'') (covenInput [''a''])
     \<and> Match (ResolvePurview e ''op'' ''soul'' ''coven-assign'') (covenInput [''a'', ''b''])"
proof -
  let ?p = "\<lparr>IsWildcard = False, Resource = ''soul'', Action = ''coven-assign'',
    Scope = Some (OpAnd [covenLeaf [''a''], covenLeaf [''b'']])\<rparr>"
  let ?e = "\<lparr>rolesByAID = [(''op'', [opsRole\<lparr>Permissions := [?p]\<rparr>])], allRoles = [],
    revokedAIDs = [], revokedJWTs = []\<rparr>"
  have r: "ResolvePurview ?e ''op'' ''soul'' ''coven-assign'' =
      noPurview\<lparr>Exprs := [OpAnd [covenLeaf [''a''], covenLeaf [''b'']]]\<rparr>"
    by (simp add: ResolvePurview_def IsRevoked_def heldPairs_def opsRole_def covers_def effectiveScope_def)
  show ?thesis
    by (intro exI [of _ ?e], simp only: r CovenScope_def Let_def)
      (simp add: noPurview_def covensFromPurview_def covenLeaf_def dnfOrNothing_def dnfProduct_def
        maxDNFConjuncts_def pureCoven_def sortedKeys_def Match_def evalCond_def anyInSet_def covenInput_def)
qed

end
