(* ===== verification/Rbac_Writes.thy ===== *)
theory Rbac_Writes
  imports Rbac_Roles
begin

text \<open>
  The write gates of the role catalog (\<^verbatim>\<open>attenuate.go\<close>, \<^verbatim>\<open>cascade.go\<close>, \<^verbatim>\<open>root_role.go\<close> and
  \<^verbatim>\<open>role_visibility.go\<close> of \<^verbatim>\<open>keeper/internal/rbac\<close>): a derived role against its parent, pinning of a
  scope, the blast radius of an edit, minting of a plain role, and which roles a caller may see. What
  the database returns (the chain of a role, its subtree, the caller's rows, the number of operators) is
  an argument. The lemmas show that each gate enforces the containment it announces, and that a change
  that moves a derived role never passes unreported.
\<close>

section \<open>Errors and parsing of stored rows\<close>

datatype write_error =
    WPermission string perm_error
  | WScope string scope_error
  | WTooComplex string scope_error
  | WExceedsParent string "string list"
  | WInvalidScopeMode string
  | WParentCycle string
  | WRoleNotFound string
  | WChain role_error
  | WGrant may_grant_error
  | WRootRole string

definition parsePermissions :: "string list \<Rightarrow> (write_error, permission list) result" where
  "parsePermissions raw =
     map_result (\<lambda>s. case ParsePermission s of Inl e \<Rightarrow> Inl (WPermission s e) | Inr p \<Rightarrow> Inr p) raw"

definition parseScopePtr :: "string option \<Rightarrow> (write_error, scope_expr option) result" where
  "parseScopePtr raw =
     (case raw of
        None \<Rightarrow> Inr None
      | Some s \<Rightarrow> (case ParseDefaultScope s of Inl e \<Rightarrow> Inl (WScope s e) | Inr x \<Rightarrow> Inr x))"

section \<open>Scope modes\<close>

definition ScopeModeNone :: string where "ScopeModeNone = []"
definition ScopeModeTrack :: string where "ScopeModeTrack = ''track''"
definition ScopeModePin :: string where "ScopeModePin = ''pin''"

definition Valid :: "string \<Rightarrow> bool" where
  "Valid mode \<longleftrightarrow> mode = ScopeModeNone \<or> mode = ScopeModeTrack \<or> mode = ScopeModePin"

definition checkScopeMode :: "string \<Rightarrow> bool \<Rightarrow> (write_error, unit) result" where
  "checkScopeMode mode derived =
     (if \<not> Valid mode then Inl (WInvalidScopeMode mode)
      else if mode \<noteq> ScopeModeNone \<and> \<not> derived then Inl (WInvalidScopeMode mode)
      else Inr ())"

section \<open>A derived role against its parent\<close>

definition attenuateRaw ::
  "role \<Rightarrow> string \<Rightarrow> string list \<Rightarrow> string option \<Rightarrow> (write_error, attenuation) result" where
  "attenuateRaw parent childName childPerms childScope =
     (case parsePermissions childPerms of
        Inl e \<Rightarrow> Inl e
      | Inr own \<Rightarrow>
          (case parseScopePtr childScope of
             Inl e \<Rightarrow> Inl e
           | Inr delta \<Rightarrow>
               (case attenuate parent own delta of
                  Inl e \<Rightarrow> Inl (WTooComplex childName e)
                | Inr att \<Rightarrow> Inr att)))"

definition assertWithinParent ::
  "role \<Rightarrow> string \<Rightarrow> string list \<Rightarrow> string option \<Rightarrow> (write_error, role) result" where
  "assertWithinParent parent childName childPerms childScope =
     (case attenuateRaw parent childName childPerms childScope of
        Inl e \<Rightarrow> Inl e
      | Inr att \<Rightarrow>
          if aRejected att \<noteq> [] then Inl (WExceedsParent (Name parent) (permStrings (aRejected att)))
          else Inr \<lparr>Name = childName, Permissions = aKept att, DefaultScope = aScope att,
                    ParentRole = Name parent, InertPermissions = []\<rparr>)"

definition plainRole :: "string \<Rightarrow> string list \<Rightarrow> string option \<Rightarrow> (write_error, role) result" where
  "plainRole name rawPerms rawScope =
     (case parsePermissions rawPerms of
        Inl e \<Rightarrow> Inl e
      | Inr perms \<Rightarrow>
          (case parseScopePtr rawScope of
             Inl e \<Rightarrow> Inl e
           | Inr scope \<Rightarrow>
               Inr \<lparr>Name = name, Permissions = perms, DefaultScope = scope, ParentRole = [],
                    InertPermissions = []\<rparr>))"

definition pinnedDelta :: "role \<Rightarrow> string option \<Rightarrow> (write_error, string option) result" where
  "pinnedDelta parent delta =
     (case parseScopePtr delta of
        Inl e \<Rightarrow> Inl e
      | Inr own \<Rightarrow>
          (case andScopes (DefaultScope parent) own of
             None \<Rightarrow> Inr None
           | Some pinned \<Rightarrow>
               (case checkScopeResolvable (Some pinned) of
                  Inl e \<Rightarrow> Inl (WTooComplex [] e)
                | Inr _ \<Rightarrow> Inr (Some (exprString pinned)))))"

definition effectiveRoleRights ::
  "role option \<Rightarrow> string list \<Rightarrow> string option \<Rightarrow> (write_error, permission list) result" where
  "effectiveRoleRights parent rawPerms rawScope =
     (if rawPerms = [] then Inr []
      else
        (case parent of
           None \<Rightarrow>
             (case parseScopePtr rawScope of
                Inl e \<Rightarrow> Inl e
              | Inr scope \<Rightarrow>
                  (case parsePermissions rawPerms of
                     Inl e \<Rightarrow> Inl e
                   | Inr perms \<Rightarrow> Inr (effectivePermissions perms scope)))
         | Some p \<Rightarrow>
             (case attenuateRaw p [] rawPerms rawScope of
                Inl e \<Rightarrow> Inl e
              | Inr att \<Rightarrow> Inr (effectivePermissions (aKept att) (aScope att)))))"

section \<open>The chain of a role\<close>

text \<open>One row of \<^verbatim>\<open>selectRoleChainSQL\<close> and of \<^verbatim>\<open>selectRoleSubtreeSQL\<close>, nulls as \<open>None\<close>.\<close>

record chain_row =
  rowName :: string
  rowParent :: "string option"
  rowScope :: "string option"
  rowPerm :: "string option"

text \<open>The three maps the loop fills, in insertion order.\<close>

record chain_state =
  csRoles :: catalog
  csScopes :: "(string \<times> string) list"
  csParents :: "(string \<times> string) list"

definition nonEmpty :: "string option \<Rightarrow> string option" where
  "nonEmpty s = (case s of Some x \<Rightarrow> if x = [] then None else Some x | None \<Rightarrow> None)"

definition seeRole :: "chain_state \<Rightarrow> chain_row \<Rightarrow> chain_state" where
  "seeRole st row =
     (if map_of (csRoles st) (rowName row) \<noteq> None then st
      else
        (let parent = nonEmpty (rowParent row) in
         st\<lparr>csRoles := csRoles st @ [(rowName row, \<lparr>Name = rowName row, Permissions = [], DefaultScope = None,
              ParentRole = (case parent of None \<Rightarrow> [] | Some p \<Rightarrow> p), InertPermissions = []\<rparr>)],
            csParents := csParents st @ (case parent of None \<Rightarrow> [] | Some p \<Rightarrow> [(rowName row, p)]),
            csScopes := csScopes st @ (case nonEmpty (rowScope row) of None \<Rightarrow> [] | Some s \<Rightarrow> [(rowName row, s)])\<rparr>))"

definition addPerm :: "catalog \<Rightarrow> string \<Rightarrow> permission \<Rightarrow> catalog" where
  "addPerm cat name p =
     map (\<lambda>(n, r). (n, if n = name then r\<lparr>Permissions := Permissions r @ [p]\<rparr> else r)) cat"

fun chainLoop :: "chain_state \<Rightarrow> chain_row list \<Rightarrow> (write_error, chain_state) result" where
  "chainLoop st [] = Inr st"
| "chainLoop st (row # rows) =
     (let st1 = seeRole st row in
      case rowPerm row of
        None \<Rightarrow> chainLoop st1 rows
      | Some raw \<Rightarrow>
          (case ParsePermission raw of
             Inl e \<Rightarrow> Inl (WPermission raw e)
           | Inr p \<Rightarrow> chainLoop (st1\<lparr>csRoles := addPerm (csRoles st1) (rowName row) p\<rparr>) rows))"

definition setScope :: "catalog \<Rightarrow> string \<Rightarrow> scope_expr option \<Rightarrow> catalog" where
  "setScope cat name s = map (\<lambda>(n, r). (n, if n = name then r\<lparr>DefaultScope := s\<rparr> else r)) cat"

fun scopeLoop :: "catalog \<Rightarrow> (string \<times> string) list \<Rightarrow> (write_error, catalog) result" where
  "scopeLoop cat [] = Inr cat"
| "scopeLoop cat ((name, raw) # rest) =
     (case ParseDefaultScope raw of
        Inl e \<Rightarrow> Inl (WScope raw e)
      | Inr s \<Rightarrow> scopeLoop (setScope cat name s) rest)"

definition resolveRoleChain :: "chain_row list \<Rightarrow> string \<Rightarrow> (write_error, role) result" where
  "resolveRoleChain rows name =
     (case chainLoop \<lparr>csRoles = [], csScopes = [], csParents = []\<rparr> rows of
        Inl e \<Rightarrow> Inl e
      | Inr st \<Rightarrow>
          if map_of (csRoles st) name = None then Inl (WRoleNotFound name)
          else
            (case scopeLoop (csRoles st) (csScopes st) of
               Inl e \<Rightarrow> Inl e
             | Inr byName \<Rightarrow>
                 (case validateRoleGraph (map fst byName) (csParents st) of
                    Inl e \<Rightarrow> Inl (WChain e)
                  | Inr _ \<Rightarrow>
                      (case flattenRoleGraph byName of
                         Inl e \<Rightarrow> Inl (WChain e)
                       | Inr flat \<Rightarrow>
                           (case map_of flat name of
                              None \<Rightarrow> Inl (WChain (NilRole name))
                            | Some r \<Rightarrow> Inr r)))))"

definition resolveParentCeiling ::
  "(string \<Rightarrow> chain_row list) \<Rightarrow> (string \<Rightarrow> (string \<times> string option) list) \<Rightarrow> string \<Rightarrow> string \<Rightarrow> string
     \<Rightarrow> (write_error, role) result" where
  "resolveParentCeiling chainOf permsOf childName parentName callerAID =
     (if childName = parentName then Inl (WParentCycle childName)
      else
        (case resolveRoleChain (chainOf parentName) parentName of
           Inl e \<Rightarrow> Inl e
         | Inr parent \<Rightarrow>
             (case assertCallerMayGrant permsOf callerAID
                     (effectivePermissions (Permissions parent) (DefaultScope parent)) of
                Inl e \<Rightarrow> Inl (WGrant e)
              | Inr _ \<Rightarrow> Inr parent)))"

section \<open>Minting a plain role\<close>

definition rootRolePermission :: permission where
  "rootRolePermission = \<lparr>IsWildcard = False, Resource = ''role'', Action = ''create-root'', Scope = None\<rparr>"

definition assertCallerMayMintRootRole ::
  "(string \<Rightarrow> (string \<times> string option) list) \<Rightarrow> string \<Rightarrow> permission list \<Rightarrow> (write_error, unit) result" where
  "assertCallerMayMintRootRole permsOf callerAID granting =
     (if granting = [] then Inr ()
      else if callerAID = [] then Inl (WRootRole ''missing caller'')
      else
        (case callerPermissions (permsOf callerAID) of
           Inl e \<Rightarrow> Inl (WGrant (GrantLoad e))
         | Inr callerPerms \<Rightarrow>
             if callerHolds callerPerms rootRolePermission then Inr ()
             else Inl (WRootRole (permString rootRolePermission))))"

section \<open>Visibility\<close>

record role_view =
  viewName :: string
  EffectivePermissions :: "string list"
  EffectiveScope :: string

definition effectiveScopePtr :: "role_view \<Rightarrow> string option" where
  "effectiveScopePtr v = (if EffectiveScope v = [] then None else Some (EffectiveScope v))"

definition callerHoldsFullCatalog :: "permission list \<Rightarrow> bool" where
  "callerHoldsFullCatalog callerPerms =
     callerHolds callerPerms \<lparr>IsWildcard = False, Resource = ''role'', Action = ''list-all'', Scope = None\<rparr>"

definition callerMaySeeRole :: "permission list \<Rightarrow> role_view \<Rightarrow> (write_error, bool) result" where
  "callerMaySeeRole callerPerms v =
     (case effectiveRoleRights None (EffectivePermissions v) (effectiveScopePtr v) of
        Inl e \<Rightarrow> Inl e
      | Inr required \<Rightarrow> Inr (is_ok (assertCallerCovers callerPerms required)))"

fun visibleRoleViews :: "permission list \<Rightarrow> role_view list \<Rightarrow> (write_error, role_view list) result" where
  "visibleRoleViews callerPerms [] = Inr []"
| "visibleRoleViews callerPerms (v # views) =
     (case callerMaySeeRole callerPerms v of
        Inl e \<Rightarrow> Inl e
      | Inr shown \<Rightarrow>
          (case visibleRoleViews callerPerms views of
             Inl e \<Rightarrow> Inl e
           | Inr out \<Rightarrow> Inr (if shown then v # out else out)))"

section \<open>The blast radius of an edit\<close>

record RoleCascade =
  Widened :: "string list"
  Narrowed :: "string list"
  Operators :: nat

definition Empty :: "RoleCascade \<Rightarrow> bool" where
  "Empty c \<longleftrightarrow> Widened c = [] \<and> Narrowed c = []"

record subtree_role =
  stName :: string
  stParent :: string
  stScope :: "scope_expr option"
  stPerms :: "permission list"

definition materialize :: "subtree_role \<Rightarrow> role" where
  "materialize raw = \<lparr>Name = stName raw, Permissions = stPerms raw, DefaultScope = stScope raw,
     ParentRole = stParent raw, InertPermissions = []\<rparr>"

text \<open>
  The loop of \<open>resolveSubtree\<close>: \<open>resolved\<close> and \<open>out\<close> are its two maps, the latest binding first.
\<close>

fun subtreeLoop ::
  "catalog \<Rightarrow> (string \<times> permission list) list \<Rightarrow> subtree_role list
     \<Rightarrow> (role_error, (string \<times> permission list) list) result" where
  "subtreeLoop resolved out [] = Inr out"
| "subtreeLoop resolved out (raw # subtree) =
     (case map_of resolved (stParent raw) of
        None \<Rightarrow> subtreeLoop resolved out subtree
      | Some parent \<Rightarrow>
          (let r = materialize raw in
           case attenuate parent (Permissions r) (DefaultScope r) of
             Inl e \<Rightarrow> Inl (ErrRoleScopeTooComplex (Name r) e)
           | Inr att \<Rightarrow>
               (let r1 = r\<lparr>Permissions := aKept att, DefaultScope := aScope att\<rparr> in
                subtreeLoop ((Name r1, r1) # resolved)
                  ((Name r1, effectivePermissions (Permissions r1) (DefaultScope r1)) # out) subtree)))"

definition resolveSubtree ::
  "role \<Rightarrow> subtree_role list \<Rightarrow> (role_error, (string \<times> permission list) list) result" where
  "resolveSubtree root subtree = subtreeLoop [(Name root, root)] [] subtree"

definition permsAt :: "(string \<times> permission list) list \<Rightarrow> string \<Rightarrow> permission list" where
  "permsAt m name = (case map_of m name of None \<Rightarrow> [] | Some ps \<Rightarrow> ps)"

definition roleEff :: "role \<Rightarrow> permission list" where
  "roleEff r = effectivePermissions (Permissions r) (DefaultScope r)"

definition cascadeImpact :: "role \<Rightarrow> role \<Rightarrow> subtree_role list \<Rightarrow> (role_error, RoleCascade) result" where
  "cascadeImpact before after subtree =
     (case resolveSubtree before subtree of
        Inl e \<Rightarrow> Inl e
      | Inr was \<Rightarrow>
          (case resolveSubtree after subtree of
             Inl e \<Rightarrow> Inl e
           | Inr now \<Rightarrow>
               (let unparented = (ParentRole before \<noteq> [] \<and> ParentRole after = []);
                    names = remdups (map fst now)
                in Inr \<lparr>Widened = sort (
                           (if unparented \<and> uncovered (roleEff before) (roleEff after) then [Name before] else [])
                           @ filter (\<lambda>n. uncovered (permsAt was n) (permsAt now n)) names),
                        Narrowed = sort (
                           (if unparented \<and> uncovered (roleEff after) (roleEff before) then [Name before] else [])
                           @ filter (\<lambda>n. uncovered (permsAt now n) (permsAt was n)) names),
                        Operators = 0\<rparr>)))"

datatype cascade_error = CascadeResolve role_error | ErrRoleCascadeNeedsConfirm RoleCascade

definition assertCascadeConfirmed ::
  "(RoleCascade \<Rightarrow> nat) \<Rightarrow> subtree_role list \<Rightarrow> role \<Rightarrow> role \<Rightarrow> bool \<Rightarrow> (cascade_error, unit) result" where
  "assertCascadeConfirmed countOperators subtree before after confirmed =
     (case cascadeImpact before after subtree of
        Inl e \<Rightarrow> Inl (CascadeResolve e)
      | Inr c \<Rightarrow>
          if Empty c \<or> confirmed then Inr ()
          else Inl (ErrRoleCascadeNeedsConfirm (c\<lparr>Operators := countOperators c\<rparr>)))"

section \<open>Stored rows are well formed\<close>

lemma parsePermissions_wf:
  assumes "parsePermissions raws = Inr ps"
  shows "list_all scoped_wf ps"
  unfolding list_all_iff
proof
  fix p assume "p \<in> set ps"
  then obtain raw where "ParsePermission raw = Inr p"
    using map_result_set [OF assms [unfolded parsePermissions_def]] by (fastforce split: sum.splits)
  then show "scoped_wf p" using ParsePermission_Inr(1) wf_perm_scope by (auto simp: scoped_wf_def)
qed

lemma parseScopePtr_wf: "parseScopePtr raw = Inr s \<Longrightarrow> wf_scope s"
  by (auto simp: parseScopePtr_def split: option.splits sum.splits dest: ParseDefaultScope_Inr)

lemma attenuateRaw_Inr:
  assumes "attenuateRaw parent name perms scope = Inr att"
  obtains own delta where "parsePermissions perms = Inr own" "parseScopePtr scope = Inr delta"
    "attenuate parent own delta = Inr att"
  using assms by (auto simp: attenuateRaw_def split: sum.splits)

lemma assertWithinParent_Inr:
  assumes "assertWithinParent parent name perms scope = Inr child"
  obtains own delta att where "parsePermissions perms = Inr own" "parseScopePtr scope = Inr delta"
    "attenuate parent own delta = Inr att" "aRejected att = []"
    "child = \<lparr>Name = name, Permissions = aKept att, DefaultScope = aScope att,
       ParentRole = Name parent, InertPermissions = []\<rparr>"
proof -
  from assms obtain att where a: "attenuateRaw parent name perms scope = Inr att" "aRejected att = []"
    "child = \<lparr>Name = name, Permissions = aKept att, DefaultScope = aScope att,
       ParentRole = Name parent, InertPermissions = []\<rparr>"
    by (auto simp: assertWithinParent_def split: sum.splits if_splits)
  from a(1) show thesis by (rule attenuateRaw_Inr) (use a that in blast)
qed

lemma roleGrants_eff: "roleGrants r res a inp = grantsAny (roleEff r) res a inp"
  by (simp add: roleGrants_def roleEff_def effectivePermissions_grants)

lemma effectiveRoleRights_wf:
  assumes "effectiveRoleRights None perms scope = Inr ps"
  shows "list_all scoped_wf ps"
  using assms parsePermissions_wf parseScopePtr_wf effectivePermissions_wf
  by (auto simp: effectiveRoleRights_def split: if_splits sum.splits)

section \<open>A resolved chain is well formed\<close>

definition chainInv :: "chain_state \<Rightarrow> bool" where
  "chainInv st \<longleftrightarrow> wf_catalog (csRoles st) \<and> graphOf (csRoles st) (csParents st) \<and>
     fst ` set (csParents st) \<subseteq> fst ` set (csRoles st)"

lemma map_of_mapped:
  "map_of (map (\<lambda>(n, r). (n, if n = name then f r else r)) cat) n =
     map_option (\<lambda>r. if n = name then f r else r) (map_of cat n)"
  by (induction cat) auto

lemma parentOf_mapped:
  "(\<And>r. ParentRole (f r) = ParentRole r) \<Longrightarrow>
     parentOf (map (\<lambda>(n, r). (n, if n = name then f r else r)) cat) n = parentOf cat n"
  by (simp add: parentOf_def map_of_mapped split: option.split)

lemma wf_catalog_mapped:
  "wf_catalog cat \<Longrightarrow> (\<And>r. wf_role r \<Longrightarrow> wf_role (f r)) \<Longrightarrow>
     wf_catalog (map (\<lambda>(n, r). (n, if n = name then f r else r)) cat)"
  by (induction cat) (auto simp: wf_catalog_def)

lemma fst_mapped: "fst ` set (map (\<lambda>(n, r). (n, if n = name then f r else r)) cat) = fst ` set cat"
  by (induction cat) auto

lemma chainInv_seeRole: "chainInv st \<Longrightarrow> chainInv (seeRole st row)"
proof (cases "map_of (csRoles st) (rowName row)")
  case (Some r)
  then show "chainInv st \<Longrightarrow> ?thesis" by (simp add: seeRole_def)
next
  case None
  assume inv: "chainInv st"
  have new: "map_of (csParents st) (rowName row) = None"
    using None inv by (auto simp: chainInv_def map_of_eq_None_iff)
  let ?p = "nonEmpty (rowParent row)"
  have pne: "p \<noteq> []" if "?p = Some p" for p
    using that by (auto simp: nonEmpty_def split: option.splits if_splits)
  have "graphOf (csRoles (seeRole st row)) (csParents (seeRole st row))"
    using inv None new pne
    by (auto simp: graphOf_def parentOf_def seeRole_def Let_def chainInv_def map_add_def
        split: option.splits if_splits)
  moreover have "wf_catalog (csRoles (seeRole st row))"
    using inv None by (auto simp: seeRole_def Let_def chainInv_def wf_catalog_def wf_role_def)
  ultimately show ?thesis
    using inv None by (auto simp: chainInv_def seeRole_def Let_def split: option.splits)
qed

lemma chainInv_addPerm:
  assumes "chainInv st" and "scoped_wf p"
  shows "chainInv (st\<lparr>csRoles := addPerm (csRoles st) name p\<rparr>)"
proof -
  have "wf_role (r\<lparr>Permissions := Permissions r @ [p]\<rparr>)" if "wf_role r" for r
    using that assms(2) by (simp add: wf_role_def)
  then have "wf_catalog (addPerm (csRoles st) name p)"
    using assms(1) by (simp only: chainInv_def addPerm_def wf_catalog_mapped)
  moreover have "graphOf (addPerm (csRoles st) name p) (csParents st)"
    using assms(1) by (simp add: chainInv_def graphOf_def addPerm_def parentOf_mapped)
  moreover have "fst ` set (csParents st) \<subseteq> fst ` set (addPerm (csRoles st) name p)"
    using assms(1) by (simp only: chainInv_def addPerm_def fst_mapped)
  ultimately show ?thesis by (simp add: chainInv_def)
qed

lemma chainLoop_inv: "chainLoop st rows = Inr st' \<Longrightarrow> chainInv st \<Longrightarrow> chainInv st'"
proof (induction st rows rule: chainLoop.induct)
  case (2 st row rows)
  show ?case
  proof (cases "rowPerm row")
    case None
    with 2 chainInv_seeRole show ?thesis by (simp add: Let_def)
  next
    case (Some raw)
    with "2.prems"(1) obtain p where p: "ParsePermission raw = Inr p" by (auto simp: Let_def split: sum.splits)
    have "scoped_wf p" using ParsePermission_Inr(1) [OF p] wf_perm_scope by (simp add: scoped_wf_def)
    with "2.IH"(2) [OF refl Some p] "2.prems" Some p chainInv_seeRole chainInv_addPerm show ?thesis
      by (simp add: Let_def)
  qed
qed simp

lemma scopeLoop_inv:
  "scopeLoop cat raws = Inr cat' \<Longrightarrow> wf_catalog cat \<and> graphOf cat parents \<Longrightarrow>
     wf_catalog cat' \<and> graphOf cat' parents"
proof (induction cat raws rule: scopeLoop.induct)
  case (2 cat name raw rest)
  then obtain s where s: "ParseDefaultScope raw = Inr s" and l: "scopeLoop (setScope cat name s) rest = Inr cat'"
    by (auto split: sum.splits)
  have "wf_role (r\<lparr>DefaultScope := s\<rparr>)" if "wf_role r" for r
    using that ParseDefaultScope_Inr [OF s] by (simp add: wf_role_def)
  then have "wf_catalog (setScope cat name s)"
    using "2.prems"(2) by (simp only: setScope_def wf_catalog_mapped)
  moreover have "graphOf (setScope cat name s) parents"
    using "2.prems"(2) by (simp add: graphOf_def setScope_def parentOf_mapped)
  ultimately show ?case using "2.IH" [OF s l] by blast
qed simp

lemma resolveRoleChain_wf:
  assumes "resolveRoleChain rows name = Inr r"
  shows "wf_role r"
proof -
  obtain st byName flat where st: "chainLoop \<lparr>csRoles = [], csScopes = [], csParents = []\<rparr> rows = Inr st"
    and b: "scopeLoop (csRoles st) (csScopes st) = Inr byName"
    and v: "validateRoleGraph (map fst byName) (csParents st) = Inr ()"
    and f: "flattenRoleGraph byName = Inr flat" and r: "map_of flat name = Some r"
    using assms by (auto simp: resolveRoleChain_def split: sum.splits if_splits option.splits)
  have "chainInv st"
    using chainLoop_inv [OF st] by (simp add: chainInv_def wf_catalog_def graphOf_def parentOf_def)
  then have "wf_catalog byName" "graphOf byName (csParents st)"
    using scopeLoop_inv [OF b] by (auto simp: chainInv_def)
  with resolved_wf [OF v _ f _ r] show ?thesis by blast
qed

section \<open>Subtrees\<close>

definition wf_subtree :: "subtree_role list \<Rightarrow> bool" where
  "wf_subtree ts = list_all (\<lambda>t. wf_role (materialize t)) ts"

definition wf_perms_map :: "(string \<times> permission list) list \<Rightarrow> bool" where
  "wf_perms_map m = list_all (\<lambda>(n, ps). list_all scoped_wf ps) m"

lemma subtreeLoop_wf:
  "subtreeLoop resolved out ts = Inr m \<Longrightarrow> wf_catalog resolved \<Longrightarrow> wf_perms_map out \<Longrightarrow> wf_subtree ts \<Longrightarrow>
     wf_perms_map m"
proof (induction resolved out ts rule: subtreeLoop.induct)
  case (2 resolved out raw ts)
  show ?case
  proof (cases "map_of resolved (stParent raw)")
    case None
    with 2 show ?thesis by (simp add: wf_subtree_def)
  next
    case (Some parent)
    let ?r = "materialize raw"
    from Some "2.prems"(1) obtain att where att: "attenuate parent (Permissions ?r) (DefaultScope ?r) = Inr att"
      and m: "subtreeLoop ((Name ?r, ?r\<lparr>Permissions := aKept att, DefaultScope := aScope att\<rparr>) # resolved)
        ((Name ?r, effectivePermissions (aKept att) (aScope att)) # out) ts = Inr m"
      by (auto simp: Let_def split: sum.splits)
    have "wf_role parent" using wf_catalog_lookup "2.prems"(2) Some by blast
    moreover have wr: "wf_role ?r" using "2.prems"(4) by (simp add: wf_subtree_def)
    ultimately have w: "wf_scope (aScope att)" "list_all scoped_wf (aKept att)"
      using attenuate_wf [OF _ _ _ att] by (auto simp: wf_role_def)
    then have "wf_catalog ((Name ?r, ?r\<lparr>Permissions := aKept att, DefaultScope := aScope att\<rparr>) # resolved)"
      "wf_perms_map ((Name ?r, effectivePermissions (aKept att) (aScope att)) # out)"
      using "2.prems"(2,3) effectivePermissions_wf
      by (auto simp: wf_catalog_def wf_role_def wf_perms_map_def)
    with "2.IH"(2) [OF Some refl att refl] m "2.prems"(4) show ?thesis
      by (simp add: wf_subtree_def)
  qed
qed simp

lemma resolveSubtree_wf:
  "resolveSubtree root ts = Inr m \<Longrightarrow> wf_role root \<Longrightarrow> wf_subtree ts \<Longrightarrow> list_all scoped_wf (permsAt m n)"
  using subtreeLoop_wf [of "[(Name root, root)]" "[]" ts m]
  by (cases "map_of m n")
    (auto simp: resolveSubtree_def wf_catalog_def wf_perms_map_def permsAt_def list_all_iff
      dest!: map_of_SomeD)

lemma cascadeImpact_Inr:
  assumes "cascadeImpact before after ts = Inr c"
  shows "\<exists>was now. resolveSubtree before ts = Inr was \<and> resolveSubtree after ts = Inr now \<and>
    (\<forall>n \<in> fst ` set now. uncovered (permsAt was n) (permsAt now n) \<longrightarrow> n \<in> set (Widened c)) \<and>
    (\<forall>n \<in> fst ` set now. uncovered (permsAt now n) (permsAt was n) \<longrightarrow> n \<in> set (Narrowed c))"
    and "ParentRole before \<noteq> [] \<Longrightarrow> ParentRole after = [] \<Longrightarrow> uncovered (roleEff before) (roleEff after) \<Longrightarrow>
      Name before \<in> set (Widened c)"
    and "ParentRole before \<noteq> [] \<Longrightarrow> ParentRole after = [] \<Longrightarrow> uncovered (roleEff after) (roleEff before) \<Longrightarrow>
      Name before \<in> set (Narrowed c)"
  using assms unfolding cascadeImpact_def Let_def
  by (auto simp: set_insort_key image_iff split: sum.splits) force+

lemma wf_role_eff: "wf_role r \<Longrightarrow> list_all scoped_wf (roleEff r)"
  by (simp add: wf_role_def roleEff_def effectivePermissions_wf)

section \<open>An accepted scope that does not reload\<close>

definition deepPerm :: permission where
  "deepPerm = \<lparr>IsWildcard = False, Resource = ''incarnation'', Action = ''run'', Scope = Some deepExpr\<rparr>"

lemma deepPerm_wf: "wf_perm deepPerm"
  using samplePerm_facts(1) deepExpr_wf by (simp add: deepPerm_def samplePerm_def wf_perm_def)

lemma deepText_visible: "trimmed deepText"
  by (simp add: trimmed_def deepText_def visible_def code_def)

lemma deepPerm_head: "permHead deepPerm = ''incarnation.run''"
  by (simp add: permHead_def deepPerm_def)

lemma deepPerm_accepted: "ParsePermission (''incarnation.run'' @ '' on '' @ deepText) = Inr deepPerm"
proof -
  note head = permHead_facts [OF deepPerm_wf]
  have "deepText \<noteq> []" by (simp add: deepText_def)
  then have "parseTail deepText = Inr (Scope deepPerm)"
    using deepText_accepted by (simp add: parseTail_def deepPerm_def)
  from ParsePermission_split [OF splitOn_canonical(2) [OF head deepText_visible]
      trimmed_append [OF head(2) deepText_visible] this deepPerm_wf]
  show ?thesis by (simp add: deepPerm_head)
qed

lemma deepPerm_refused: "ParsePermission (permString deepPerm) = Inl (PermBadScope ErrNestingTooDeep)"
proof -
  note head = permHead_facts [OF deepPerm_wf]
  have t: "trimmed (exprString deepExpr)" using trimmed_expr [OF deepExpr_wf] .
  have s: "permString deepPerm = permHead deepPerm @ '' on '' @ exprString deepExpr"
    by (simp add: permString_def permHead_def deepPerm_def)
  have "parseTail (exprString deepExpr) = Inl (PermBadScope ErrNestingTooDeep)"
    using deepExpr_refused t by (simp add: parseTail_def trimmed_def)
  moreover have "trimSpace (permHead deepPerm @ '' on '' @ exprString deepExpr) =
      permHead deepPerm @ '' on '' @ exprString deepExpr"
    using trimmed_append [OF head(2) t] trimmed_trimSpace by blast
  moreover have "parseHead (permHead deepPerm) = Inr (''incarnation'', ''run'')"
    using parseHead_canonical [OF deepPerm_wf] by (simp add: deepPerm_def permHead_def)
  moreover have "permHead deepPerm \<noteq> ''*''" by (simp add: deepPerm_head)
  ultimately show ?thesis
    unfolding s ParsePermission_def Let_def
    using splitOn_canonical(2) [OF head t] by simp
qed

section \<open>Properties\<close>

definition opsParent :: role where
  "opsParent = \<lparr>Name = ''ops'', Permissions = [samplePerm], DefaultScope = None, ParentRole = [], InertPermissions = []\<rparr>"

lemma opsParent_wf: "wf_role opsParent"
  using sampleExpr_wf by (simp add: wf_role_def opsParent_def scoped_wf_def samplePerm_def)

lemma samplePerm_self: "callerHolds [samplePerm] samplePerm"
proof -
  have "is_ok (toDNF sampleExpr)"
    using toDNF_ok_iff [OF wf_expr_orNonempty] sampleExpr_facts by blast
  then show ?thesis
    using sampleExpr_wf by (intro callerHolds_refl) (auto simp: resolvable_def samplePerm_def)
qed

lemma sample_within:
  "assertWithinParent opsParent ''child'' [permString samplePerm] None =
     Inr \<lparr>Name = ''child'', Permissions = [samplePerm], DefaultScope = None, ParentRole = ''ops'',
          InertPermissions = []\<rparr>"
proof -
  have "is_ok (toDNF sampleExpr)"
    using toDNF_ok_iff [OF wf_expr_orNonempty] sampleExpr_facts by blast
  then obtain d where "toDNF sampleExpr = Inr d" by (cases "toDNF sampleExpr") auto
  moreover have "Scope samplePerm = Some sampleExpr" by (simp add: samplePerm_def)
  ultimately show ?thesis
    using samplePerm_parsed samplePerm_self
    by (simp add: assertWithinParent_def attenuateRaw_def parsePermissions_def parseScopePtr_def
        attenuate_def opsParent_def andScopes_def checkScopeResolvable_def cappedPerm_top
        requestedPerm_scoped effectivePermissions_def)
qed

text \<open>
  The structural write gate: a derived role that \<open>assertWithinParent\<close> accepts keeps every row it
  was written with, names the parent, and gives nothing its parent does not give.
\<close>

theorem assertWithinParent_sound:
  assumes "wf_role parent" and "assertWithinParent parent name rawPerms rawScope = Inr child"
  shows "ParentRole child = Name parent \<and> length (Permissions child) = length rawPerms \<and>
    (\<forall>r a inp. roleGrants child r a inp \<longrightarrow> roleGrants parent r a inp)"
  using assms(2)
proof (rule assertWithinParent_Inr)
  fix own delta att
  assume a: "parsePermissions rawPerms = Inr own" "parseScopePtr rawScope = Inr delta"
    "attenuate parent own delta = Inr att" "aRejected att = []"
    "child = \<lparr>Name = name, Permissions = aKept att, DefaultScope = aScope att,
       ParentRole = Name parent, InertPermissions = []\<rparr>"
  have "filter (\<lambda>p. \<not> callerHolds (effectivePermissions (Permissions parent) (DefaultScope parent))
      (requestedPerm (aScope att) p)) (map (cappedPerm (DefaultScope parent)) own) = []"
    using attenuate_Inr(3) [OF a(3)] a(4) by simp
  then have "aKept att = map (cappedPerm (DefaultScope parent)) own"
    unfolding attenuate_Inr(2) [OF a(3)] by (auto simp: filter_empty_conv filter_id_conv)
  moreover have "length own = length rawPerms"
    using a(1) unfolding parsePermissions_def map_result_Inr by (simp add: list_all2_lengthD)
  moreover have "roleGrants parent r a inp" if "roleGrants child r a inp" for r a inp
    using that a(5) attenuate_within_parent [OF assms(1) parsePermissions_wf [OF a(1)] parseScopePtr_wf [OF a(2)] a(3)]
    by (auto simp: roleGrants_def list_ex_iff)
  ultimately show ?thesis using a(5) by simp
qed

theorem assertWithinParent_sound_witness:
  "\<exists>child. assertWithinParent opsParent ''child'' [permString samplePerm] None = Inr child \<and>
     ParentRole child = Name opsParent \<and>
     (\<forall>r a inp. roleGrants child r a inp \<longrightarrow> roleGrants opsParent r a inp)"
  using assertWithinParent_sound [OF opsParent_wf sample_within] sample_within by blast

text \<open>
  Pinning protects against widening: where the pinned text fits the parser's caps it reloads as the
  conjunction of the parent's scope at that time and the delta, and whatever scope the parent has later,
  the child's effective scope stays inside both.
\<close>

theorem pinnedDelta_protects:
  assumes "wf_role parent" and "pinnedDelta parent delta = Inr (Some text)" and "parseScopePtr delta = Inr own"
    and "readable (andScopes (DefaultScope parent) own)"
  shows "\<exists>pinned. ParseDefaultScope text = Inr (Some pinned) \<and>
    (\<forall>later inp. wf_scope later \<longrightarrow> evalScope (andScopes later (Some pinned)) inp \<longrightarrow>
       evalScope (DefaultScope parent) inp \<and> evalScope own inp)"
proof -
  have wf: "wf_scope (DefaultScope parent)" "wf_scope own"
    using assms(1,3) parseScopePtr_wf by (auto simp: wf_role_def)
  obtain e where e: "andScopes (DefaultScope parent) own = Some e" "text = exprString e"
    using assms(2,3) by (auto simp: pinnedDelta_def split: option.splits sum.splits)
  have we: "wf_expr e" using andScopes_wf [OF wf] e(1) by simp
  then have "parseScopeExpr (exprString e) = Inr e"
    using assms(4) e(1) by (intro parseScopeExpr_canonical) (auto simp: readable_def)
  moreover have "trimmed (exprString e)" using trimmed_expr we by blast
  ultimately have "ParseDefaultScope text = Inr (Some e)"
    using e(2) by (simp add: ParseDefaultScope_def trimmed_trimSpace) (simp add: trimmed_def)
  moreover have "evalScope (DefaultScope parent) inp \<and> evalScope own inp"
    if "wf_scope later" "evalScope (andScopes later (Some e)) inp" for later inp
    using andScopes_eval [OF that(1), of "Some e" inp] andScopes_eval [OF wf, of inp] that(2) we e(1) by simp
  ultimately show ?thesis by blast
qed

definition pinParent :: role where
  "pinParent = opsParent\<lparr>DefaultScope := Some sampleExpr\<rparr>"

lemma pinParent_delta: "pinnedDelta pinParent None = Inr (Some (exprString sampleExpr))"
proof -
  have "is_ok (toDNF sampleExpr)"
    using toDNF_ok_iff [OF wf_expr_orNonempty] sampleExpr_facts by blast
  then obtain d where "toDNF sampleExpr = Inr d" by (cases "toDNF sampleExpr") auto
  then show ?thesis
    by (simp add: pinnedDelta_def parseScopePtr_def pinParent_def opsParent_def andScopes_def
        checkScopeResolvable_def)
qed

theorem pinnedDelta_protects_witness:
  "\<exists>pinned. ParseDefaultScope ''host in (a, b) AND host matches w?'' = Inr (Some pinned) \<and>
    (\<forall>inp. evalScope (andScopes None (Some pinned)) inp \<longrightarrow> evalScope (Some sampleExpr) inp)"
proof -
  have "wf_role pinParent" using opsParent_wf sampleExpr_wf by (simp add: wf_role_def pinParent_def)
  moreover have "readable (andScopes (DefaultScope pinParent) None)"
    using sampleExpr_facts by (simp add: andScopes_def pinParent_def readable_def)
  ultimately have "\<exists>pinned. ParseDefaultScope (exprString sampleExpr) = Inr (Some pinned) \<and>
    (\<forall>later inp. wf_scope later \<longrightarrow> evalScope (andScopes later (Some pinned)) inp \<longrightarrow>
       evalScope (DefaultScope pinParent) inp \<and> evalScope None inp)"
    using pinnedDelta_protects [OF _ pinParent_delta, of None] by (simp add: parseScopePtr_def)
  then obtain pinned where pinned: "ParseDefaultScope (exprString sampleExpr) = Inr (Some pinned)"
    "\<forall>later inp. wf_scope later \<longrightarrow> evalScope (andScopes later (Some pinned)) inp \<longrightarrow>
       evalScope (DefaultScope pinParent) inp" by blast
  have "\<forall>inp. evalScope (andScopes None (Some pinned)) inp \<longrightarrow> evalScope (Some sampleExpr) inp"
    using spec [OF pinned(2), of None] by (simp add: pinParent_def)
  with pinned(1) sampleExpr_text show ?thesis by (intro exI [of _ pinned]) simp
qed

text \<open>
  No silent cascade: when an edit passes \<open>assertCascadeConfirmed\<close> without confirmation, every
  request has the same answer before and after for each role derived from the edited one.
\<close>

theorem unconfirmed_edit_moves_nothing:
  assumes "assertCascadeConfirmed count subtree before after False = Inr ()"
    and "wf_role before" and "wf_role after" and "wf_subtree subtree"
  shows "\<exists>was now. resolveSubtree before subtree = Inr was \<and> resolveSubtree after subtree = Inr now \<and>
    list_all (\<lambda>n. \<forall>r a inp. grantsAny (permsAt now n) r a inp = grantsAny (permsAt was n) r a inp) (map fst now)"
proof -
  from assms(1) obtain c where c: "cascadeImpact before after subtree = Inr c" and e: "Empty c"
    by (auto simp: assertCascadeConfirmed_def split: sum.splits if_splits)
  obtain was now where wn: "resolveSubtree before subtree = Inr was" "resolveSubtree after subtree = Inr now"
    and w: "\<forall>n \<in> fst ` set now. uncovered (permsAt was n) (permsAt now n) \<longrightarrow> n \<in> set (Widened c)"
    and v: "\<forall>n \<in> fst ` set now. uncovered (permsAt now n) (permsAt was n) \<longrightarrow> n \<in> set (Narrowed c)"
    using cascadeImpact_Inr(1) [OF c] by blast
  have "grantsAny (permsAt now n) r a inp = grantsAny (permsAt was n) r a inp" if "n \<in> fst ` set now" for n r a inp
  proof -
    have "\<not> uncovered (permsAt was n) (permsAt now n)" "\<not> uncovered (permsAt now n) (permsAt was n)"
      using w v e that by (auto simp: Empty_def)
    then show ?thesis
      using uncovered_gained resolveSubtree_wf [OF wn(1) assms(2,4)] resolveSubtree_wf [OF wn(2) assms(3,4)]
      by blast
  qed
  with wn show ?thesis by (auto simp: list_all_iff)
qed

lemma sample_subtree: "wf_subtree [\<lparr>stName = ''kid'', stParent = ''ops'', stScope = None, stPerms = []\<rparr>]"
  by (simp add: wf_subtree_def materialize_def wf_role_def)

theorem unconfirmed_edit_moves_nothing_witness:
  "\<exists>was. resolveSubtree opsParent [\<lparr>stName = ''kid'', stParent = ''ops'', stScope = None, stPerms = []\<rparr>] = Inr was"
proof -
  have "assertCascadeConfirmed (\<lambda>_. 0) [\<lparr>stName = ''kid'', stParent = ''ops'', stScope = None, stPerms = []\<rparr>]
      opsParent (opsParent\<lparr>Permissions := []\<rparr>) False = Inr ()"
    by (simp add: assertCascadeConfirmed_def cascadeImpact_def resolveSubtree_def materialize_def opsParent_def
        attenuate_def andScopes_def checkScopeResolvable_def effectivePermissions_def Empty_def uncovered_def
        widenedRights_def permsAt_def)
  moreover have "wf_role (opsParent\<lparr>Permissions := []\<rparr>)" by (simp add: wf_role_def opsParent_def)
  ultimately show ?thesis
    using unconfirmed_edit_moves_nothing [OF _ opsParent_wf _ sample_subtree] by blast
qed

text \<open>
  The report is complete in both directions, and covers the edited role itself when the edit takes
  its parent away: whoever gains a request is listed as widened, whoever loses one as narrowed.
\<close>

theorem cascadeImpact_complete:
  assumes "cascadeImpact before after subtree = Inr c"
    and "wf_role before" and "wf_role after" and "wf_subtree subtree"
    and "ParentRole before \<noteq> []" and "ParentRole after = []"
  shows "(\<forall>r a inp. roleGrants after r a inp \<longrightarrow> roleGrants before r a inp \<or> Name before \<in> set (Widened c)) \<and>
    (\<forall>r a inp. roleGrants before r a inp \<longrightarrow> roleGrants after r a inp \<or> Name before \<in> set (Narrowed c))"
proof -
  show ?thesis
    using cascadeImpact_Inr(2,3) [OF assms(1,5,6)]
      uncovered_gained [OF wf_role_eff [OF assms(2)] wf_role_eff [OF assms(3)]]
      uncovered_gained [OF wf_role_eff [OF assms(3)] wf_role_eff [OF assms(2)]]
    unfolding roleGrants_eff by blast
qed

theorem cascadeImpact_complete_witness:
  "\<exists>c. cascadeImpact (opsParent\<lparr>ParentRole := ''top'', Permissions := []\<rparr>) opsParent [] = Inr c \<and>
     Name opsParent \<in> set (Widened c)"
proof -
  let ?b = "opsParent\<lparr>ParentRole := ''top'', Permissions := []\<rparr>"
  let ?i = "hostInput ''a''\<lparr>inHosts := [''a'', ''w1'']\<rparr>"
  have "grants samplePerm ''incarnation'' ''run'' ?i"
    by (simp add: grants_def covers_def samplePerm_def sampleExpr_def evalCond_def anyInSet_def hostInput_def
        anyGlobMatch_def matchString_def compileGlob_def runes_def code_def)
  then have gain: "roleGrants opsParent ''incarnation'' ''run'' ?i \<and> \<not> roleGrants ?b ''incarnation'' ''run'' ?i"
    using roleGrants_eff [of opsParent] roleGrants_eff [of ?b]
    by (simp add: roleEff_def opsParent_def effectivePermissions_def grantsAny_def)
  obtain c where c: "cascadeImpact ?b opsParent [] = Inr c"
    by (simp add: cascadeImpact_def resolveSubtree_def Let_def)
  moreover have "wf_role ?b" by (simp add: wf_role_def opsParent_def)
  ultimately have "Name ?b \<in> set (Widened c)"
    using cascadeImpact_complete [of ?b opsParent "[]" c] opsParent_wf gain
    by (auto simp: wf_subtree_def opsParent_def)
  with c show ?thesis by auto
qed

text \<open>
  Deriving needs the parent's rights: when \<open>resolveParentCeiling\<close> returns a parent that grants
  anything, the child is another role, the caller is named, and the caller's own effective permissions
  give every request the parent gives. The chain rows and the caller's rows are arbitrary.
\<close>

theorem parent_ceiling_held:
  assumes "resolveParentCeiling chainOf permsOf child parentName caller = Inr parent"
    and "roleGrants parent r a inp"
  shows "child \<noteq> parentName \<and> caller \<noteq> [] \<and>
    (\<exists>own. callerPermissions (permsOf caller) = Inr own \<and> grantsAny own r a inp)"
proof -
  from assms(1) have ne: "child \<noteq> parentName" and wf: "wf_role parent"
    and g: "assertCallerMayGrant permsOf caller (roleEff parent) = Inr ()"
    by (auto simp: resolveParentCeiling_def roleEff_def resolveRoleChain_wf split: if_splits sum.splits)
  have some: "roleEff parent \<noteq> []" using assms(2) by (auto simp: roleGrants_eff grantsAny_def)
  with g obtain own where own: "callerPermissions (permsOf caller) = Inr own"
    and cov: "assertCallerCovers own (roleEff parent) = Inr ()" and aid: "caller \<noteq> []"
    by (auto simp: assertCallerMayGrant_def split: if_splits sum.splits)
  have "grantsAny own r a inp"
    using assertCallerCovers_within [OF callerPermissions_wf [OF own] wf_role_eff [OF wf] cov]
      assms(2) by (simp add: roleGrants_eff)
  with ne aid own show ?thesis by blast
qed

definition opsRow :: chain_row where
  "opsRow = \<lparr>rowName = ''ops'', rowParent = None, rowScope = None, rowPerm = Some (permString samplePerm)\<rparr>"

lemma opsRow_resolved: "resolveRoleChain [opsRow] ''ops'' = Inr opsParent"
  using samplePerm_parsed
  by (simp add: resolveRoleChain_def opsRow_def seeRole_def nonEmpty_def addPerm_def validateRoleGraph_def
      flattenRoleGraph_def maxRoleChainDepth_def eval_nat_numeral opsParent_def Let_def)

lemma sample_ceiling:
  "resolveParentCeiling (\<lambda>_. [opsRow]) (\<lambda>_. [(permString samplePerm, None)]) ''kid'' ''ops'' ''archon'' = Inr opsParent"
  using opsRow_resolved sample_query samplePerm_self
  by (simp add: resolveParentCeiling_def assertCallerMayGrant_def opsParent_def effectivePermissions_def)

theorem parent_ceiling_held_witness:
  "\<exists>own. callerPermissions [(permString samplePerm, None)] = Inr own \<and>
     grantsAny own ''incarnation'' ''run'' (hostInput ''a''\<lparr>inHosts := [''a'', ''w1'']\<rparr>)"
proof -
  have "roleGrants opsParent ''incarnation'' ''run'' (hostInput ''a''\<lparr>inHosts := [''a'', ''w1'']\<rparr>)"
    by (simp add: roleGrants_def opsParent_def grantsInRole_def effectiveScope_def covers_def samplePerm_def
        sampleExpr_def evalCond_def anyInSet_def hostInput_def anyGlobMatch_def matchString_def
        compileGlob_def runes_def code_def)
  from parent_ceiling_held [OF sample_ceiling this] show ?thesis by blast
qed

text \<open>
  Minting a role with no parent that grants something takes an unrestricted \<open>role.create-root\<close>: the
  caller must hold a permission covering it that carries no scope.
\<close>

theorem mint_root_role_needs_right:
  assumes "assertCallerMayMintRootRole permsOf caller granting = Inr ()" and "granting \<noteq> []"
  shows "\<exists>own. callerPermissions (permsOf caller) = Inr own \<and>
    (\<exists>p \<in> set own. covers p ''role'' ''create-root'' \<and> Scope p = None)"
proof -
  from assms obtain own where "callerPermissions (permsOf caller) = Inr own" "callerHolds own rootRolePermission"
    by (auto simp: assertCallerMayMintRootRole_def split: if_splits sum.splits)
  then show ?thesis
    by (auto simp: callerHolds_def rootRolePermission_def callerUnrestrictedOn_iff)
qed

lemma star_row: "callerPermissions [(''*'', None)] =
  Inr [\<lparr>IsWildcard = True, Resource = [], Action = [], Scope = None\<rparr>]"
  using ParsePermission_canonical [of "\<lparr>IsWildcard = True, Resource = [], Action = [], Scope = None\<rparr>"]
  by (simp add: callerPermissions_def callerRow_def permString_def wf_perm_def readable_def)

theorem mint_root_role_needs_right_witness:
  "\<exists>own. callerPermissions [(''*'', None)] = Inr own \<and>
    (\<exists>p \<in> set own. covers p ''role'' ''create-root'' \<and> Scope p = None)"
proof -
  have "assertCallerMayMintRootRole (\<lambda>_. [(''*'', None)]) ''archon'' [samplePerm] = Inr ()"
    using star_row
    by (simp add: assertCallerMayMintRootRole_def callerHolds_def rootRolePermission_def callerUnrestrictedOn_def)
  from mint_root_role_needs_right [OF this] show ?thesis by simp
qed

lemma visibleRoleViews_mem:
  "visibleRoleViews ps views = Inr out \<Longrightarrow> v \<in> set out \<Longrightarrow> v \<in> set views \<and> callerMaySeeRole ps v = Inr True"
  by (induction views arbitrary: out) (auto split: sum.splits if_splits)

text \<open>
  The catalog shows only what the caller could grant: a role view that survives the filter is one of
  the catalog's, its effective rights parse, and the caller's permissions give every request they give.
\<close>

theorem visible_role_within_caller:
  assumes "visibleRoleViews callerPerms views = Inr shown" and "v \<in> set shown"
    and "\<forall>p \<in> set callerPerms. wf_scope (Scope p)"
  shows "v \<in> set views \<and> (\<exists>rights.
    effectiveRoleRights None (EffectivePermissions v) (effectiveScopePtr v) = Inr rights \<and>
    (\<forall>r a inp. grantsAny rights r a inp \<longrightarrow> grantsAny callerPerms r a inp))"
proof -
  from visibleRoleViews_mem [OF assms(1,2)] have m: "v \<in> set views"
    and s: "callerMaySeeRole callerPerms v = Inr True" by auto
  from s obtain rights where r: "effectiveRoleRights None (EffectivePermissions v) (effectiveScopePtr v) = Inr rights"
    and ok: "is_ok (assertCallerCovers callerPerms rights)"
    by (auto simp: callerMaySeeRole_def split: sum.splits)
  then have "assertCallerCovers callerPerms rights = Inr ()" by (cases "assertCallerCovers callerPerms rights") auto
  moreover have "list_all scoped_wf callerPerms" using assms(3) by (simp add: list_all_iff scoped_wf_def)
  ultimately show ?thesis
    using m r assertCallerCovers_within [OF _ effectiveRoleRights_wf [OF r]] by blast
qed

definition opsView :: role_view where
  "opsView = \<lparr>viewName = ''ops'', EffectivePermissions = [permString samplePerm], EffectiveScope = []\<rparr>"

theorem visible_role_within_caller_witness:
  "opsView \<in> set [opsView] \<and> (\<exists>rights.
    effectiveRoleRights None (EffectivePermissions opsView) (effectiveScopePtr opsView) = Inr rights \<and>
    (\<forall>r a inp. grantsAny rights r a inp \<longrightarrow> grantsAny [samplePerm] r a inp))"
proof (rule visible_role_within_caller)
  show "visibleRoleViews [samplePerm] [opsView] = Inr [opsView]"
    using samplePerm_parsed samplePerm_self
    by (simp add: callerMaySeeRole_def opsView_def effectiveRoleRights_def effectiveScopePtr_def
        parseScopePtr_def parsePermissions_def effectivePermissions_def)
  show "opsView \<in> set [opsView]" by simp
  show "\<forall>p \<in> set [samplePerm]. wf_scope (Scope p)" using sampleExpr_wf by (simp add: samplePerm_def)
qed

text \<open>
  Rendering can break the catalog: a permission text the parser accepts may render as an effective
  permission it refuses, and one such role makes \<open>visibleRoleViews\<close> fail for the whole list, for every
  caller.
\<close>

theorem rendered_permission_breaks_listing:
  "\<exists>p. ParsePermission
        ''incarnation.run on ((host=a AND host=b OR host=c) AND host=d OR host=e) AND host=f'' = Inr p
     \<and> (\<forall>callerPerms name. visibleRoleViews callerPerms
          [\<lparr>viewName = name, EffectivePermissions = permStrings [p], EffectiveScope = []\<rparr>] =
        Inl (WPermission (permString p) (PermBadScope ErrNestingTooDeep)))"
  using deepPerm_accepted deepPerm_refused
  by (intro exI [of _ deepPerm])
    (simp add: deepText_def permStrings_def callerMaySeeRole_def effectiveRoleRights_def
      effectiveScopePtr_def parseScopePtr_def parsePermissions_def)

end
