(* ===== verification/Rbac_Sql.thy ===== *)
theory Rbac_Sql
  imports Rbac_Enforcer
begin

text \<open>
  The SQL form of a purview (\<^verbatim>\<open>scope_sql.go\<close>, \<^verbatim>\<open>scope_traits.go\<close>, \<^verbatim>\<open>globToSQLLike\<close> of \<^verbatim>\<open>scope_glob.go\<close>) and its two users, the souls and
  the incarnations (\<^verbatim>\<open>soulpurview/resolve.go\<close>, \<^verbatim>\<open>api/handlers/incarnation.go\<close>): a list narrows in the database, a single
  read in Go, and the two must answer alike.

  A fragment is the tree of the expression the code writes, with \<open>sqlText\<close> its text. Its value on a row is one of true, false and
  null, as \<open>bool option\<close>, and a row is selected when it is true. Of PostgreSQL the model states what the fragment uses: \<^verbatim>\<open>&&\<close>,
  \<^verbatim>\<open>= ANY\<close>, \<^verbatim>\<open>LIKE\<close> with its escape, \<^verbatim>\<open>EXISTS\<close> and the access operators of jsonb. An operand of a wrong type has no value.
\<close>

section \<open>JSON as the database stores it\<close>

text \<open>
  A number is its token. How a container is printed is the argument \<open>render\<close> of what reads a text of any value; the raw
  bytes of \<^verbatim>\<open>TraitValues\<close> are that text, so their first byte is the kind and a slice of them is the text of the value.
\<close>

datatype jsonb = JNull | JBool bool | JNum string | JStr string | JArr "jsonb list" | JObj "(string \<times> jsonb) list"

fun scalarToken :: "jsonb \<Rightarrow> string option" where
  "scalarToken (JBool b) = Some (if b then ''true'' else ''false'')"
| "scalarToken (JNum t) = Some t"
| "scalarToken (JStr s) = Some s"
| "scalarToken j = None"

text \<open>\<^verbatim>\<open>traitScalarText\<close>: null and the containers have none.\<close>

definition traitScalarText :: "jsonb \<Rightarrow> string option" where
  "traitScalarText j = scalarToken j"

fun traitTexts :: "jsonb \<Rightarrow> string list" where
  "traitTexts JNull = []"
| "traitTexts (JArr es) = List.map_filter traitScalarText es"
| "traitTexts (JObj kvs) = []"
| "traitTexts j = (case scalarToken j of None \<Rightarrow> [] | Some t \<Rightarrow> [t])"

definition TraitValues :: "jsonb option \<Rightarrow> string \<Rightarrow> string list option" where
  "TraitValues raw k =
     (case raw of
        Some (JObj kvs) \<Rightarrow>
          (case map_of kvs k of
             None \<Rightarrow> None
           | Some v \<Rightarrow> if traitTexts v = [] then None else Some (traitTexts v))
      | _ \<Rightarrow> None)"

fun traitElemText :: "(jsonb \<Rightarrow> string) \<Rightarrow> jsonb \<Rightarrow> string" where
  "traitElemText render (JStr s) = s"
| "traitElemText render (JNum t) = t"
| "traitElemText render (JBool b) = (if b then ''true'' else ''false'')"
| "traitElemText render JNull = ''null''"
| "traitElemText render j = render j"

fun traitPairTexts :: "(jsonb \<Rightarrow> string) \<Rightarrow> jsonb \<Rightarrow> string list" where
  "traitPairTexts render (JArr es) = map (traitElemText render) es"
| "traitPairTexts render j = [traitElemText render j]"

definition TraitPairTexts :: "(jsonb \<Rightarrow> string) \<Rightarrow> jsonb option \<Rightarrow> string \<Rightarrow> string list option" where
  "TraitPairTexts render raw k =
     (case raw of
        Some (JObj kvs) \<Rightarrow>
          (case map_of kvs k of
             None \<Rightarrow> None
           | Some v \<Rightarrow> if traitPairTexts render v = [] then None else Some (traitPairTexts render v))
      | _ \<Rightarrow> None)"

section \<open>Fragments\<close>

record scope_columns =
  colCoven :: string
  colHost :: string
  colService :: string
  colIncarnation :: string
  colTraits :: string

text \<open>A placeholder is its number.\<close>

datatype sql =
  SqlTrue
| SqlFalse
| SqlAnd "sql list"
| SqlOr "sql list"
| SqlOverlap string nat
| SqlAny string nat
| SqlLike string nat
| SqlTrait string nat nat

datatype sql_arg = ArgText string | ArgTexts "string list"

fun decimal :: "nat \<Rightarrow> string" where
  "decimal n = (if n < 10 then [char_of (48 + n)] else decimal (n div 10) @ [char_of (48 + n mod 10)])"

declare decimal.simps [simp del]

definition phText :: "nat \<Rightarrow> string" where
  "phText n = ''$'' @ decimal n"

definition CovenScopeSQL :: "string \<Rightarrow> nat \<Rightarrow> string" where
  "CovenScopeSQL col n = col @ '' && '' @ phText n @ ''::text[]''"

definition TraitScopeSQL :: "string \<Rightarrow> nat \<Rightarrow> nat \<Rightarrow> string" where
  "TraitScopeSQL col k vs =
     (let at = col @ '' -> '' @ phText k;
          elems = ''CASE WHEN jsonb_typeof('' @ at @ '') = 'array' THEN '' @ at @ '' ELSE '[]'::jsonb END''
      in ''((jsonb_typeof('' @ at @ '') NOT IN ('object', 'array') AND '' @ col @ '' ->> '' @ phText k @ '' = ANY('' @ phText vs @ ''))''
         @ '' OR EXISTS (SELECT 1 FROM jsonb_array_elements('' @ elems @ '') AS _trait_elem''
         @ '' WHERE jsonb_typeof(_trait_elem) NOT IN ('object', 'array')''
         @ '' AND _trait_elem #>> '{}' = ANY('' @ phText vs @ '')))'')"

fun sqlText :: "sql \<Rightarrow> string" where
  "sqlText SqlTrue = ''TRUE''"
| "sqlText SqlFalse = ''FALSE''"
| "sqlText (SqlAnd qs) = ''('' @ join '' AND '' (map sqlText qs) @ '')''"
| "sqlText (SqlOr qs) = ''('' @ join '' OR '' (map sqlText qs) @ '')''"
| "sqlText (SqlOverlap c n) = CovenScopeSQL c n"
| "sqlText (SqlAny c n) = c @ '' = ANY('' @ phText n @ ''::text[])''"
| "sqlText (SqlLike c n) = c @ '' LIKE '' @ phText n @ '' ESCAPE '' @ [CHR 0x27, CHR 0x5C, CHR 0x27]"
| "sqlText (SqlTrait c k vs) = TraitScopeSQL c k vs"

section \<open>The builder\<close>

record sql_builder =
  b_args :: "sql_arg list"
  b_idx :: nat

definition ph :: "sql_arg \<Rightarrow> sql_builder \<Rightarrow> nat \<times> sql_builder" where
  "ph v b = (b_idx b, \<lparr>b_args = b_args b @ [v], b_idx = b_idx b + 1\<rparr>)"

definition inList :: "string \<Rightarrow> string list \<Rightarrow> sql_builder \<Rightarrow> sql \<times> sql_builder" where
  "inList col vs b = (if col = [] then (SqlFalse, b) else (case ph (ArgTexts vs) b of (n, b') \<Rightarrow> (SqlAny col n, b')))"

fun likeByte :: "char \<Rightarrow> string" where
  "likeByte c =
     (if c = CHR ''*'' then [CHR ''%''] else if c = CHR ''?'' then [CHR ''_'']
      else if c \<in> {CHR ''%'', CHR ''_'', CHR 0x5C} then [CHR 0x5C, c] else [c])"

definition globToSQLLike :: "string \<Rightarrow> string" where
  "globToSQLLike g = concat (map likeByte g)"

definition globSQL :: "string \<Rightarrow> string \<Rightarrow> sql_builder \<Rightarrow> sql \<times> sql_builder" where
  "globSQL col g b =
     (if col = [] then (SqlFalse, b) else (case ph (ArgText (globToSQLLike g)) b of (n, b') \<Rightarrow> (SqlLike col n, b')))"

text \<open>\<^verbatim>\<open>c.Values[0]\<close> is \<open>hd\<close>: the parser gives every glob condition its glob as the one value.\<close>

definition condSQL :: "scope_columns \<Rightarrow> scope_cond \<Rightarrow> sql_builder \<Rightarrow> sql \<times> sql_builder" where
  "condSQL cols c b =
     (if cDim c = dimCoven then
        (if colCoven cols = [] then (SqlFalse, b)
         else (case ph (ArgTexts (cValues c)) b of (n, b') \<Rightarrow> (SqlOverlap (colCoven cols) n, b')))
      else if cDim c = dimService then inList (colService cols) (cValues c) b
      else if cDim c = dimIncarnation then
        (if cMatch c = MatchGlob then globSQL (colIncarnation cols) (hd (cValues c)) b
         else inList (colIncarnation cols) (cValues c) b)
      else if cDim c = dimHost then
        (if cMatch c = MatchGlob then globSQL (colHost cols) (hd (cValues c)) b
         else inList (colHost cols) (cValues c) b)
      else if cDim c = dimTrait then
        (if colTraits cols = [] then (SqlFalse, b)
         else (case ph (ArgTexts (cValues c)) b of (vs, b1) \<Rightarrow>
                (case ph (ArgText (cKey c)) b1 of (k, b2) \<Rightarrow> (SqlTrait (colTraits cols) k vs, b2))))
      else (SqlFalse, b))"

fun exprSQL :: "scope_columns \<Rightarrow> scope_expr \<Rightarrow> sql_builder \<Rightarrow> sql \<times> sql_builder"
  and childrenSQL :: "scope_columns \<Rightarrow> scope_expr list \<Rightarrow> sql_builder \<Rightarrow> sql list \<times> sql_builder" where
  "exprSQL cols (OpLeaf c) b = condSQL cols c b"
| "exprSQL cols (OpAnd cs) b = (case childrenSQL cols cs b of (qs, b') \<Rightarrow> (SqlAnd qs, b'))"
| "exprSQL cols (OpOr cs) b = (case childrenSQL cols cs b of (qs, b') \<Rightarrow> (SqlOr qs, b'))"
| "childrenSQL cols [] b = ([], b)"
| "childrenSQL cols (c # cs) b =
     (case exprSQL cols c b of (q, b1) \<Rightarrow> (case childrenSQL cols cs b1 of (qs, b2) \<Rightarrow> (q # qs, b2)))"

definition PurviewSQL :: "purview \<Rightarrow> scope_columns \<Rightarrow> nat \<Rightarrow> sql \<times> sql_arg list \<times> nat" where
  "PurviewSQL p cols startIdx =
     (if Unrestricted p then (SqlTrue, [], startIdx)
      else if IsEmpty p \<or> Deny p then (SqlFalse, [], startIdx)
      else (case childrenSQL cols (Exprs p) \<lparr>b_args = [], b_idx = startIdx\<rparr> of
              (qs, b) \<Rightarrow> (SqlOr qs, b_args b, b_idx b)))"

section \<open>The value of a fragment\<close>

datatype sql_value = NullV | TextV string | TextsV "string list" | JsonV jsonb

definition sqlAnd :: "bool option list \<Rightarrow> bool option" where
  "sqlAnd vs = (if Some False \<in> set vs then Some False else if None \<in> set vs then None else Some True)"

definition sqlOr :: "bool option list \<Rightarrow> bool option" where
  "sqlOr vs = (if Some True \<in> set vs then Some True else if None \<in> set vs then None else Some False)"

text \<open>A pattern and a text are code points; a pattern that ends with the escape is refused.\<close>

fun likeRunes :: "nat list \<Rightarrow> nat list \<Rightarrow> bool" where
  "likeRunes [] rs \<longleftrightarrow> rs = []"
| "likeRunes (p # ps) rs \<longleftrightarrow>
     (if p = 37 then likeRunes ps rs \<or> (case rs of [] \<Rightarrow> False | r # rs' \<Rightarrow> likeRunes (p # ps) rs')
      else if p = 92 then
        (case ps of [] \<Rightarrow> False | q # ps' \<Rightarrow> (case rs of [] \<Rightarrow> False | r # rs' \<Rightarrow> r = q \<and> likeRunes ps' rs'))
      else (case rs of [] \<Rightarrow> False | r # rs' \<Rightarrow> (p = 95 \<or> r = p) \<and> likeRunes ps rs'))"

declare likeRunes.simps(2) [simp del]

fun jsonbTypeof :: "jsonb \<Rightarrow> string" where
  "jsonbTypeof JNull = ''null''"
| "jsonbTypeof (JBool b) = ''boolean''"
| "jsonbTypeof (JNum t) = ''number''"
| "jsonbTypeof (JStr s) = ''string''"
| "jsonbTypeof (JArr es) = ''array''"
| "jsonbTypeof (JObj kvs) = ''object''"

text \<open>\<^verbatim>\<open>j -> k\<close> and the text of a value, \<^verbatim>\<open>->>\<close> and \<^verbatim>\<open>#>> '{}'\<close>; null where SQL yields NULL.\<close>

fun jsonbGet :: "jsonb \<Rightarrow> string \<Rightarrow> jsonb option" where
  "jsonbGet (JObj kvs) k = map_of kvs k"
| "jsonbGet j k = None"

fun jsonbText :: "(jsonb \<Rightarrow> string) \<Rightarrow> jsonb \<Rightarrow> string option" where
  "jsonbText render JNull = None"
| "jsonbText render (JArr es) = Some (render (JArr es))"
| "jsonbText render (JObj kvs) = Some (render (JObj kvs))"
| "jsonbText render j = scalarToken j"

definition anyOf :: "string option \<Rightarrow> string list \<Rightarrow> bool option" where
  "anyOf t vs = map_option (\<lambda>x. x \<in> set vs) t"

definition notContainer :: "jsonb option \<Rightarrow> bool option" where
  "notContainer j = map_option (\<lambda>x. jsonbTypeof x \<notin> {''object'', ''array''}) j"

definition traitElems :: "jsonb option \<Rightarrow> jsonb list" where
  "traitElems v = (case v of Some (JArr es) \<Rightarrow> es | _ \<Rightarrow> [])"

definition traitSQL :: "(jsonb \<Rightarrow> string) \<Rightarrow> jsonb \<Rightarrow> string \<Rightarrow> string list \<Rightarrow> bool option" where
  "traitSQL render j k vs =
     (let v = jsonbGet j k
      in sqlOr [sqlAnd [notContainer v, anyOf (Option.bind v (jsonbText render)) vs],
                Some (list_ex (\<lambda>e. sqlAnd [notContainer (Some e), anyOf (jsonbText render e) vs] = Some True) (traitElems v))])"

definition argAt :: "sql_arg list \<Rightarrow> nat \<Rightarrow> sql_arg option" where
  "argAt as n = (if 1 \<le> n \<and> n \<le> length as then Some (as ! (n - 1)) else None)"

fun evalSQL :: "(jsonb \<Rightarrow> string) \<Rightarrow> (string \<Rightarrow> sql_value) \<Rightarrow> sql_arg list \<Rightarrow> sql \<Rightarrow> bool option" where
  "evalSQL render row as SqlTrue = Some True"
| "evalSQL render row as SqlFalse = Some False"
| "evalSQL render row as (SqlAnd qs) = sqlAnd (map (evalSQL render row as) qs)"
| "evalSQL render row as (SqlOr qs) = sqlOr (map (evalSQL render row as) qs)"
| "evalSQL render row as (SqlOverlap c n) =
     (case (row c, argAt as n) of (TextsV xs, Some (ArgTexts vs)) \<Rightarrow> Some (list_ex (\<lambda>x. x \<in> set vs) xs) | _ \<Rightarrow> None)"
| "evalSQL render row as (SqlAny c n) =
     (case (row c, argAt as n) of (TextV s, Some (ArgTexts vs)) \<Rightarrow> Some (s \<in> set vs) | _ \<Rightarrow> None)"
| "evalSQL render row as (SqlLike c n) =
     (case (row c, argAt as n) of (TextV s, Some (ArgText p)) \<Rightarrow> Some (likeRunes (runes p) (runes s)) | _ \<Rightarrow> None)"
| "evalSQL render row as (SqlTrait c k n) =
     (case (row c, argAt as k, argAt as n) of
        (JsonV j, Some (ArgText key), Some (ArgTexts vs)) \<Rightarrow> traitSQL render j key vs | _ \<Rightarrow> None)"

definition selects :: "(jsonb \<Rightarrow> string) \<Rightarrow> (string \<Rightarrow> sql_value) \<Rightarrow> sql_arg list \<Rightarrow> sql \<Rightarrow> bool" where
  "selects render row as q \<longleftrightarrow> evalSQL render row as q = Some True"

section \<open>Three values\<close>

lemma sqlAnd_True: "sqlAnd vs = Some True \<longleftrightarrow> (\<forall>v \<in> set vs. v = Some True)"
proof (cases "Some False \<in> set vs \<or> None \<in> set vs")
  case False
  have "v = Some True" if v: "v \<in> set vs" for v
  proof (cases v)
    case (Some b)
    then show ?thesis using v False by (cases b) auto
  qed (use v False in auto)
  then show ?thesis using False by (simp add: sqlAnd_def)
qed (auto simp: sqlAnd_def)

lemma sqlOr_True: "sqlOr vs = Some True \<longleftrightarrow> Some True \<in> set vs"
  by (simp add: sqlOr_def)

lemma selects_simps [simp]:
  "selects render row as SqlTrue" "\<not> selects render row as SqlFalse"
  "selects render row as (SqlAnd qs) \<longleftrightarrow> (\<forall>q \<in> set qs. selects render row as q)"
  "selects render row as (SqlOr qs) \<longleftrightarrow> (\<exists>q \<in> set qs. selects render row as q)"
  using image_iff [of "Some True" "evalSQL render row as" "set qs"] eq_commute [of "Some True"]
  by (auto simp: selects_def sqlAnd_True sqlOr_True)

section \<open>LIKE and globs\<close>

text \<open>
  The pattern of an ASCII glob means what its regular expression means, on texts without a line feed: \<^verbatim>\<open>.\<close> does not match one
  and \<^verbatim>\<open>_\<close> does. A byte above ASCII is a code point of its own to \<open>globToRE2\<close> and a part of one here.
\<close>

lemma likeRunes_star: "likeRunes (37 # ps) rs \<longleftrightarrow> likeRunes ps rs \<or> (case rs of [] \<Rightarrow> False | r # rs' \<Rightarrow> likeRunes (37 # ps) rs')"
  by (subst likeRunes.simps(2)) simp

lemma code_eq: "code c = code d \<longleftrightarrow> c = d"
  by (simp add: code_def)

lemma glob_Cons [simp]:
  "globToSQLLike (c # g) = likeByte c @ globToSQLLike g" "globToSQLLike [] = []"
  "compileGlob (c # g) = globItem c # compileGlob g" "compileGlob [] = []"
  by (simp_all add: globToSQLLike_def compileGlob_def)

lemma like_star:
  assumes "\<And>rs. 10 \<notin> set rs \<Longrightarrow> likeRunes L rs \<longleftrightarrow> glob_runes G rs" "10 \<notin> set rs"
  shows "likeRunes (37 # L) rs \<longleftrightarrow> glob_runes (GStar # G) rs"
  using assms(2)
proof (induction rs)
  case Nil
  then show ?case using assms(1) [of "[]"] by (simp add: likeRunes_star)
next
  case (Cons r rs)
  then show ?case using assms(1) [of "r # rs"] by (simp add: likeRunes_star [of L "r # rs"])
qed

lemma like_glob_runes:
  "10 \<notin> set rs \<Longrightarrow> likeRunes (map code (globToSQLLike g)) rs \<longleftrightarrow> glob_runes (compileGlob g) rs"
proof (induction g arbitrary: rs)
  case (Cons c g)
  have bytes: "code (CHR ''%'') = 37" "code (CHR ''_'') = 95" "code (CHR 0x5C) = 92" by (simp_all add: code_def)
  have eqs: "code c = 37 \<longleftrightarrow> c = CHR ''%''" "code c = 95 \<longleftrightarrow> c = CHR ''_''" "code c = 92 \<longleftrightarrow> c = CHR 0x5C"
    using code_eq [of c] bytes by metis+
  show ?case
  proof (cases "c = CHR ''*''")
    case True
    then show ?thesis using like_star [OF Cons.IH Cons.prems] by (simp add: bytes)
  next
    case False
    then show ?thesis using Cons.IH [of "tl rs"] Cons.prems
      by (cases rs) (auto simp: likeRunes.simps(2) bytes eqs)
  qed
qed simp

lemma like_ascii: "is_ascii g \<Longrightarrow> is_ascii (globToSQLLike g)"
proof (induction g)
  case (Cons c g)
  have "is_ascii (likeByte c)" using Cons.prems by (simp add: is_ascii_def code_def)
  then show ?case using Cons by (simp add: is_ascii_def del: likeByte.simps)
qed simp

lemma like_matches:
  assumes "is_ascii g" "10 \<notin> set (runes s)"
  shows "likeRunes (runes (globToSQLLike g)) (runes s) \<longleftrightarrow> matchString (compileGlob g) s"
  using like_glob_runes [OF assms(2), of g] runes_ascii [OF like_ascii [OF assms(1)]] by (simp add: matchString_def)

section \<open>Traits\<close>

lemma scalar_text:
  "sqlAnd [notContainer (Some e), anyOf (jsonbText render e) vs] = Some True \<longleftrightarrow>
     (\<exists>t. traitScalarText e = Some t \<and> t \<in> set vs)"
  by (cases e) (auto simp: sqlAnd_True notContainer_def anyOf_def traitScalarText_def)

lemma traitTexts_in:
  "t \<in> set (traitTexts v) \<longleftrightarrow>
     traitScalarText v = Some t \<or> (\<exists>e \<in> set (traitElems (Some v)). traitScalarText e = Some t)"
  by (cases v) (auto simp: traitScalarText_def traitElems_def map_filter_def image_iff split: option.splits)

lemma TraitValues_in:
  "(\<exists>ts. TraitValues (Some j) k = Some ts \<and> t \<in> set ts) \<longleftrightarrow> (\<exists>v. jsonbGet j k = Some v \<and> t \<in> set (traitTexts v))"
  by (cases j) (auto simp: TraitValues_def split: option.splits)

lemma traitSQL_selects:
  "traitSQL render j k vs = Some True \<longleftrightarrow> (\<exists>v t. jsonbGet j k = Some v \<and> t \<in> set (traitTexts v) \<and> t \<in> set vs)"
proof (cases "jsonbGet j k")
  case None
  then show ?thesis by (simp add: traitSQL_def sqlOr_True sqlAnd_def traitElems_def notContainer_def anyOf_def)
next
  case (Some v)
  have "traitSQL render j k vs = Some True \<longleftrightarrow>
      sqlAnd [notContainer (Some v), anyOf (jsonbText render v) vs] = Some True \<or>
      (\<exists>e \<in> set (traitElems (Some v)). sqlAnd [notContainer (Some e), anyOf (jsonbText render e) vs] = Some True)"
    unfolding traitSQL_def Some Let_def sqlOr_True by (auto simp: list_ex_iff)
  then show ?thesis unfolding scalar_text using Some by (auto simp: traitTexts_in)
qed

section \<open>Placeholders\<close>

text \<open>Arguments \<open>as\<close> hold the list \<open>ys\<close> from placeholder \<open>s\<close> on.\<close>

definition holdsArgs :: "nat \<Rightarrow> sql_arg list \<Rightarrow> sql_arg list \<Rightarrow> bool" where
  "holdsArgs s as ys \<longleftrightarrow> (\<forall>i < length ys. argAt as (s + i) = Some (ys ! i))"

definition numbered :: "nat \<Rightarrow> sql_builder \<Rightarrow> bool" where
  "numbered s b \<longleftrightarrow> b_idx b = s + length (b_args b)"

definition extends :: "nat \<Rightarrow> sql_builder \<Rightarrow> sql_builder \<Rightarrow> bool" where
  "extends s b b' \<longleftrightarrow> numbered s b' \<and> (\<exists>ys. b_args b' = b_args b @ ys)"

lemma holdsArgs_prefix: "holdsArgs s as (xs @ ys) \<Longrightarrow> holdsArgs s as xs"
  by (auto simp: holdsArgs_def nth_append split: if_splits)

lemma extends_refl: "numbered s b \<Longrightarrow> extends s b b"
  by (simp add: extends_def)

lemma extends_trans: "extends s a b \<Longrightarrow> extends s b c \<Longrightarrow> extends s a c"
  by (auto simp: extends_def)

lemma extends_holds: "extends s b b' \<Longrightarrow> holdsArgs s as (b_args b') \<Longrightarrow> holdsArgs s as (b_args b)"
  by (auto simp: extends_def intro: holdsArgs_prefix)

lemma ph_extends:
  assumes "ph v b = (n, b')" "numbered s b"
  shows "extends s b b'" "holdsArgs s as (b_args b') \<Longrightarrow> argAt as n = Some v"
  using assms by (auto simp: ph_def numbered_def extends_def holdsArgs_def nth_append)

lemma holdsArgs_middle: "length pre + 1 = s \<Longrightarrow> holdsArgs s (pre @ ys @ post) ys"
  by (auto simp: holdsArgs_def argAt_def nth_append)

section \<open>Surfaces\<close>

text \<open>
  A surface is a kind of resource with its columns, its rows and what its single-object gate hands to \<open>Match\<close>. The
  laws say that the two read the same columns. A coven, a trait or a service it does not have is the empty column of the
  SQL and the empty field of the input.
\<close>

locale scope_surface =
  fixes cols :: scope_columns and row :: "'a \<Rightarrow> string \<Rightarrow> sql_value" and input :: "'a \<Rightarrow> scope_input"
  assumes coven_col: "if colCoven cols = [] then inCovens (input x) = [] else row x (colCoven cols) = TextsV (inCovens (input x))"
    and service_col: "if colService cols = [] then inServices (input x) = []
      else \<exists>v. row x (colService cols) = TextV v \<and> inServices (input x) = [v]"
    and incarnation_col: "if colIncarnation cols = [] then inIncarnations (input x) = []
      else \<exists>v. row x (colIncarnation cols) = TextV v \<and> inIncarnations (input x) = [v]"
    and host_col: "if colHost cols = [] then inHosts (input x) = []
      else \<exists>v. row x (colHost cols) = TextV v \<and> inHosts (input x) = [v]"
    and traits_col: "if colTraits cols = [] then inTraits (input x) = Map.empty
      else \<exists>j. row x (colTraits cols) = JsonV j \<and> inTraits (input x) = TraitValues (Some j)"

text \<open>Globs of ASCII bytes, and names without a line feed.\<close>

fun asciiGlobs :: "scope_expr \<Rightarrow> bool" where
  "asciiGlobs (OpLeaf c) \<longleftrightarrow> cMatch c \<noteq> MatchGlob \<or> list_all is_ascii (cValues c)"
| "asciiGlobs (OpAnd cs) \<longleftrightarrow> list_all asciiGlobs cs"
| "asciiGlobs (OpOr cs) \<longleftrightarrow> list_all asciiGlobs cs"

definition oneLine :: "scope_input \<Rightarrow> bool" where
  "oneLine inp \<longleftrightarrow> (\<forall>s \<in> set (inHosts inp) \<union> set (inIncarnations inp). 10 \<notin> set (runes s))"

lemma wf_glob:
  "wf_cond c \<Longrightarrow> cMatch c = MatchGlob \<Longrightarrow> \<exists>g. cValues c = [g] \<and> cGlob c = Some (compileGlob g)"
proof -
  assume wf: "wf_cond c" and glob: "cMatch c = MatchGlob"
  have "cMatch (inCond d k vs) = MatchIn" for d k vs by (simp add: inCond_def)
  then have "c \<noteq> inCond d k vs" for d k vs using glob by (metis match_op.distinct(1))
  then obtain g where "c = newGlobCond (cDim c) g" using wf unfolding wf_cond_def by (metis (full_types))
  moreover have "cValues (newGlobCond d g) = [g]" "cGlob (newGlobCond d g) = Some (compileGlob g)" for d
    by (simp_all add: newGlobCond_def)
  ultimately show ?thesis by metis
qed

context scope_surface begin

text \<open>A list of values against one column.\<close>

lemma inList_selects:
  assumes "inList col vs b = (q, b')" "numbered s b"
    "if col = [] then xs = [] else \<exists>v. row x col = TextV v \<and> xs = [v]"
  shows "extends s b b' \<and> (holdsArgs s as (b_args b') \<longrightarrow> selects render (row x) as q = anyInSet xs vs)"
  using assms ph_extends(1) [where v = "ArgTexts vs" and b = b and b' = b' and s = s]
    ph_extends(2) [where v = "ArgTexts vs" and b = b and b' = b' and s = s and as = as] extends_refl
  by (auto simp: inList_def anyInSet_def selects_def split: if_splits prod.splits)

lemma globSQL_selects:
  assumes "globSQL col g b = (q, b')" "numbered s b"
    "if col = [] then xs = [] else \<exists>v. row x col = TextV v \<and> xs = [v]"
    "is_ascii g" "\<forall>v \<in> set xs. 10 \<notin> set (runes v)"
  shows "extends s b b' \<and> (holdsArgs s as (b_args b') \<longrightarrow> selects render (row x) as q = list_ex (matchString (compileGlob g)) xs)"
  using assms ph_extends(1) [where v = "ArgText (globToSQLLike g)" and b = b and b' = b' and s = s]
    ph_extends(2) [where v = "ArgText (globToSQLLike g)" and b = b and b' = b' and s = s and as = as] extends_refl like_matches [OF assms(4)]
  by (auto simp: globSQL_def selects_def split: if_splits prod.splits)

lemma condSQL_selects:
  assumes run: "condSQL cols c b = (q, b')" and b: "numbered s b" and wf: "wf_cond c"
    and glob: "cMatch c = MatchGlob \<longrightarrow> list_all is_ascii (cValues c)" and line: "oneLine (input x)"
  shows "extends s b b' \<and> (holdsArgs s as (b_args b') \<longrightarrow> selects render (row x) as q = evalCond c (input x))"
proof -
  have lines: "\<forall>v \<in> set (inHosts (input x)). 10 \<notin> set (runes v)" "\<forall>v \<in> set (inIncarnations (input x)). 10 \<notin> set (runes v)"
    using line by (auto simp: oneLine_def)
  have g: "\<exists>g. cValues c = [g] \<and> cGlob c = Some (compileGlob g) \<and> is_ascii g" if "cMatch c = MatchGlob"
    using wf_glob [OF wf that] glob that by auto
  consider "cDim c = dimCoven" | "cDim c = dimService" | "cDim c = dimIncarnation" | "cDim c = dimHost" | "cDim c = dimTrait"
    | "cDim c \<notin> {dimCoven, dimService, dimIncarnation, dimHost, dimTrait}" by auto
  then show ?thesis
  proof cases
    case 1
    then show ?thesis using run b coven_col [of x] extends_refl
        ph_extends(1) [where v = "ArgTexts (cValues c)" and b = b and b' = b' and s = s]
    ph_extends(2) [where v = "ArgTexts (cValues c)" and b = b and b' = b' and s = s and as = as]
      by (auto simp: condSQL_def evalCond_def selects_def anyInSet_def split: if_splits prod.splits)
  next
    case 2
    then have "inList (colService cols) (cValues c) b = (q, b')" using run by (simp add: condSQL_def dim_defs)
    from inList_selects [OF this b service_col] show ?thesis using 2 by (simp add: evalCond_def dim_defs)
  next
    case 3
    show ?thesis
    proof (cases "cMatch c = MatchGlob")
      case True
      then obtain g where g': "cValues c = [g]" "cGlob c = Some (compileGlob g)" "is_ascii g" using g by blast
      then have "globSQL (colIncarnation cols) g b = (q, b')" using run 3 True by (simp add: condSQL_def dim_defs)
      from globSQL_selects [OF this b incarnation_col g'(3) lines(2)] show ?thesis
        using 3 True g' by (simp add: evalCond_def dim_defs anyGlobMatch_def)
    next
      case False
      then have "inList (colIncarnation cols) (cValues c) b = (q, b')" using run 3 by (simp add: condSQL_def dim_defs)
      from inList_selects [OF this b incarnation_col] show ?thesis using 3 False by (simp add: evalCond_def dim_defs)
    qed
  next
    case 4
    show ?thesis
    proof (cases "cMatch c = MatchGlob")
      case True
      then obtain g where g': "cValues c = [g]" "cGlob c = Some (compileGlob g)" "is_ascii g" using g by blast
      then have "globSQL (colHost cols) g b = (q, b')" using run 4 True by (simp add: condSQL_def dim_defs)
      from globSQL_selects [OF this b host_col g'(3) lines(1)] show ?thesis
        using 4 True g' by (simp add: evalCond_def dim_defs anyGlobMatch_def)
    next
      case False
      then have "inList (colHost cols) (cValues c) b = (q, b')" using run 4 by (simp add: condSQL_def dim_defs)
      from inList_selects [OF this b host_col] show ?thesis using 4 False by (simp add: evalCond_def dim_defs)
    qed
  next
    case 5
    show ?thesis
    proof (cases "colTraits cols = []")
      case True
      then show ?thesis using run b 5 traits_col [of x] extends_refl
        by (auto simp: condSQL_def evalCond_def dim_defs anyInSet_def traitsOf_def)
    next
      case False
      obtain vs b1 where 1: "ph (ArgTexts (cValues c)) b = (vs, b1)" by (cases "ph (ArgTexts (cValues c)) b")
      obtain k b2 where 2: "ph (ArgText (cKey c)) b1 = (k, b2)" by (cases "ph (ArgText (cKey c)) b1")
      have q: "q = SqlTrait (colTraits cols) k vs" "b' = b2" using run 5 False 1 2 by (simp_all add: condSQL_def dim_defs)
      note e1 = ph_extends [OF 1 b]
      have n1: "numbered s b1" using e1(1) by (simp add: extends_def)
      note e2 = ph_extends [OF 2 n1]
      obtain j where j: "row x (colTraits cols) = JsonV j" "inTraits (input x) = TraitValues (Some j)"
        using traits_col [of x] False by auto
      have "selects render (row x) as q = evalCond c (input x)" if "holdsArgs s as (b_args b')"
      proof -
        have "argAt as k = Some (ArgText (cKey c))" "argAt as vs = Some (ArgTexts (cValues c))"
          using e2(2) e1(2) extends_holds [OF e2(1)] that q(2) by blast+
        then have "selects render (row x) as q \<longleftrightarrow> (\<exists>ts. TraitValues (Some j) (cKey c) = Some ts \<and> (\<exists>t \<in> set ts. t \<in> set (cValues c)))"
          using j(1) traitSQL_selects [of render j "cKey c" "cValues c"] TraitValues_in [of j "cKey c"]
          by (simp add: selects_def q(1)) blast
        then show ?thesis using 5 j(2)
          by (cases "TraitValues (Some j) (cKey c)") (auto simp: evalCond_def dim_defs anyInSet_def traitsOf_def list_ex_iff)
      qed
      then show ?thesis using extends_trans [OF e1(1) e2(1)] q(2) by simp
    qed
  next
    case 6
    then show ?thesis using run b extends_refl by (auto simp: condSQL_def evalCond_def)
  qed
qed

text \<open>An expression whose fragment, numbered from \<open>s\<close>, selects the rows that satisfy it.\<close>

definition compiles :: "nat \<Rightarrow> sql_arg list \<Rightarrow> (jsonb \<Rightarrow> string) \<Rightarrow> 'a \<Rightarrow> scope_expr \<Rightarrow> bool" where
  "compiles s as render x e \<longleftrightarrow>
     (\<forall>b q b'. exprSQL cols e b = (q, b') \<longrightarrow> numbered s b \<longrightarrow>
        extends s b b' \<and> (holdsArgs s as (b_args b') \<longrightarrow> selects render (row x) as q = evalNode e (input x)))"

lemma children_compile:
  assumes "\<forall>e \<in> set es. compiles s as render x e" "childrenSQL cols es b = (qs, b')" "numbered s b"
  shows "extends s b b' \<and> (holdsArgs s as (b_args b') \<longrightarrow>
      list_all2 (\<lambda>e q. selects render (row x) as q = evalNode e (input x)) es qs)"
  using assms
proof (induction es arbitrary: b qs)
  case Nil
  then show ?case by (simp add: extends_refl)
next
  case (Cons e es)
  obtain q b1 where 1: "exprSQL cols e b = (q, b1)" by (cases "exprSQL cols e b")
  obtain qs' where 2: "childrenSQL cols es b1 = (qs', b')" and eq: "qs = q # qs'"
    using Cons.prems(2) 1 by (cases "childrenSQL cols es b1") auto
  have e: "extends s b b1" "holdsArgs s as (b_args b1) \<Longrightarrow> selects render (row x) as q = evalNode e (input x)"
    using Cons.prems(1,3) 1 by (auto simp: compiles_def)
  have "numbered s b1" using e(1) by (simp add: extends_def)
  then have rest: "extends s b1 b'" "holdsArgs s as (b_args b') \<Longrightarrow>
      list_all2 (\<lambda>e q. selects render (row x) as q = evalNode e (input x)) es qs'"
    using Cons.IH [OF _ 2] Cons.prems(1) by auto
  show ?case using eq e rest extends_trans [OF e(1) rest(1)] extends_holds [OF rest(1)] by auto
qed

lemma all2_values:
  "list_all2 (\<lambda>e q. P q = Q e) es qs \<Longrightarrow> ((\<forall>q \<in> set qs. P q) \<longleftrightarrow> list_all Q es) \<and> ((\<exists>q \<in> set qs. P q) \<longleftrightarrow> list_ex Q es)"
  by (induction rule: list_all2_induct) auto

lemma expr_compiles:
  "wf_expr e \<Longrightarrow> asciiGlobs e \<Longrightarrow> oneLine (input x) \<Longrightarrow> compiles s as render x e"
proof (induction e)
  case (OpLeaf c)
  then show ?case using condSQL_selects [of c _ _ _ s x as render] by (auto simp: compiles_def)
next
  case (OpAnd es)
  then have all: "\<forall>e \<in> set es. compiles s as render x e" by (auto simp: list_all_iff)
  show ?case
    using children_compile [OF all] all2_values [of "selects render (row x) as" "\<lambda>e. evalNode e (input x)" es]
    by (auto simp: compiles_def split: prod.splits)
next
  case (OpOr es)
  then have all: "\<forall>e \<in> set es. compiles s as render x e" by (auto simp: list_all_iff)
  show ?case
    using children_compile [OF all] all2_values [of "selects render (row x) as" "\<lambda>e. evalNode e (input x)" es]
    by (auto simp: compiles_def split: prod.splits)
qed

text \<open>The fragment of a purview selects a row exactly when \<open>Match\<close> accepts its input, whatever arguments stand around its own.\<close>

lemma purview_agrees:
  assumes "list_all wf_expr (Exprs p)" "list_all asciiGlobs (Exprs p)" "\<not> (Unrestricted p \<and> Deny p)" "oneLine (input x)"
    and "PurviewSQL p cols (length pre + 1) = (q, as, free)"
  shows "selects render (row x) (pre @ as @ post) q \<longleftrightarrow> Match p (input x)" "free = length pre + 1 + length as"
proof -
  let ?s = "length pre + 1" and ?all = "pre @ as @ post"
  have "(selects render (row x) ?all q \<longleftrightarrow> Match p (input x)) \<and> free = ?s + length as"
  proof (cases "Unrestricted p \<or> IsEmpty p \<or> Deny p")
    case True
    then show ?thesis using assms(3,5) by (auto simp: PurviewSQL_def Match_def IsEmpty_def split: if_splits)
  next
    case False
    let ?b = "\<lparr>b_args = [], b_idx = ?s\<rparr>"
    obtain qs b where run: "childrenSQL cols (Exprs p) ?b = (qs, b)" by (cases "childrenSQL cols (Exprs p) ?b")
    have eq: "q = SqlOr qs" "as = b_args b" "free = b_idx b" using assms(5) False run by (auto simp: PurviewSQL_def)
    have all: "\<forall>e \<in> set (Exprs p). compiles ?s ?all render x e"
      using assms(1,2,4) expr_compiles by (auto simp: list_all_iff)
    have "numbered ?s ?b" by (simp add: numbered_def)
    note c = children_compile [OF all run this]
    have "holdsArgs ?s ?all (b_args b)" using holdsArgs_middle [of pre ?s as post] eq(2) by simp
    then have "list_all2 (\<lambda>e q. selects render (row x) ?all q = evalNode e (input x)) (Exprs p) qs" using c by blast
    then have "(\<exists>q \<in> set qs. selects render (row x) ?all q) \<longleftrightarrow> list_ex (\<lambda>e. evalNode e (input x)) (Exprs p)"
      using all2_values [of "selects render (row x) ?all" "\<lambda>e. evalNode e (input x)" "Exprs p" qs] by simp
    then show ?thesis using False c eq by (simp add: Match_def extends_def numbered_def)
  qed
  then show "selects render (row x) ?all q \<longleftrightarrow> Match p (input x)" "free = ?s + length as" by simp_all
qed

end

section \<open>Souls and incarnations\<close>

record soul_row =
  soulSid :: string
  soulCovens :: "string list"
  soulTraits :: jsonb

text \<open>\<^verbatim>\<open>Columns\<close> and \<^verbatim>\<open>InScope\<close> of \<^verbatim>\<open>soulpurview\<close>; the columns are not null.\<close>

definition soulColumns :: scope_columns where
  "soulColumns =
     \<lparr>colCoven = ''souls.coven'', colHost = ''souls.sid'', colService = [], colIncarnation = [], colTraits = ''souls.traits''\<rparr>"

definition soulValues :: "soul_row \<Rightarrow> string \<Rightarrow> sql_value" where
  "soulValues r c =
     (if c = ''souls.coven'' then TextsV (soulCovens r) else if c = ''souls.sid'' then TextV (soulSid r)
      else if c = ''souls.traits'' then JsonV (soulTraits r) else NullV)"

definition soulInput :: "soul_row \<Rightarrow> scope_input" where
  "soulInput r =
     \<lparr>inCovens = soulCovens r, inServices = [], inIncarnations = [], inHosts = [soulSid r],
      inTraits = TraitValues (Some (soulTraits r))\<rparr>"

definition InScope :: "purview \<Rightarrow> soul_row \<Rightarrow> bool" where
  "InScope p r = Match p (soulInput r)"

record incarnation_row =
  incID :: string
  incService :: string
  incCovens :: "string list"
  incTraits :: jsonb

definition incScopeColumns :: scope_columns where
  "incScopeColumns =
     \<lparr>colCoven = ''covens'', colHost = [], colService = ''service'', colIncarnation = ''id'', colTraits = ''traits''\<rparr>"

definition incValues :: "incarnation_row \<Rightarrow> string \<Rightarrow> sql_value" where
  "incValues r c =
     (if c = ''covens'' then TextsV (incCovens r) else if c = ''id'' then TextV (incID r)
      else if c = ''service'' then TextV (incService r) else if c = ''traits'' then JsonV (incTraits r) else NullV)"

definition incInput :: "incarnation_row \<Rightarrow> scope_input" where
  "incInput r =
     \<lparr>inCovens = incCovens r, inServices = [incService r], inIncarnations = [incID r], inHosts = [],
      inTraits = TraitValues (Some (incTraits r))\<rparr>"

definition GetInScope :: "purview \<Rightarrow> incarnation_row \<Rightarrow> bool" where
  "GetInScope p r = Match p (incInput r)"

interpretation souls: scope_surface soulColumns soulValues soulInput
  by unfold_locales (simp_all add: soulColumns_def soulValues_def soulInput_def)

interpretation incarnations: scope_surface incScopeColumns incValues incInput
  by unfold_locales (simp_all add: incScopeColumns_def incValues_def incInput_def)

section \<open>The properties\<close>

text \<open>
  (C20) The list of souls and the read of one soul answer alike for a purview of well-formed scopes with ASCII globs that is not
  both unrestricted and denied, and a soul whose name is one line: the fragment \<open>WhereSQL\<close> builds for the purview selects
  the row exactly when \<open>InScope\<close> accepts it, with the placeholders numbered after the arguments before it and the
  next number right for the arguments after it. Beyond ASCII the two differ (\<open>non_ascii_glob_differs\<close>).
\<close>

theorem souls_list_agrees_with_gate:
  assumes "list_all wf_expr (Exprs p)" "list_all asciiGlobs (Exprs p)" "\<not> (Unrestricted p \<and> Deny p)" "oneLine (soulInput r)"
    and "PurviewSQL p soulColumns (length pre + 1) = (q, as, free)"
  shows "(selects render (soulValues r) (pre @ as @ post) q \<longleftrightarrow> InScope p r) \<and> free = length (pre @ as) + 1"
  using souls.purview_agrees [OF assms] by (simp add: InScope_def)

text \<open>
  (C21) The list of incarnations and the gate of one incarnation answer alike for a purview of well-formed scopes with ASCII globs
  that is not both unrestricted and denied, and an incarnation whose name is one line: the fragment selects the row exactly
  when \<open>GetInScope\<close> accepts it, with the placeholders right among the other arguments. A condition on hosts
  selects no incarnation in either of them.
\<close>

theorem incarnations_list_agrees_with_gate:
  assumes "list_all wf_expr (Exprs p)" "list_all asciiGlobs (Exprs p)" "\<not> (Unrestricted p \<and> Deny p)" "oneLine (incInput r)"
    and "PurviewSQL p incScopeColumns (length pre + 1) = (q, as, free)"
  shows "(selects render (incValues r) (pre @ as @ post) q \<longleftrightarrow> GetInScope p r) \<and> free = length (pre @ as) + 1"
  using incarnations.purview_agrees [OF assms] by (simp add: GetInScope_def)

lemma traitPair_superset: "set (traitTexts v) \<subseteq> set (traitPairTexts render v)"
proof (cases v)
  case (JArr es)
  have "traitScalarText e = Some t \<Longrightarrow> traitElemText render e = t" for e t
    by (cases e) (auto simp: traitScalarText_def)
  then show ?thesis using JArr by (force simp: map_filter_def)
qed auto

text \<open>
  (C22) The gate of a trait write is never laxer than the reads it guards: every text by which a stored value can be reached is
  among the pairs the gate asks for when that value is written.
\<close>

theorem trait_gate_covers_reads:
  assumes "TraitValues raw k = Some ts"
  shows "\<exists>ps. TraitPairTexts render raw k = Some ps \<and> set ts \<subseteq> set ps"
proof -
  obtain kvs v where v: "raw = Some (JObj kvs)" "map_of kvs k = Some v" "ts = traitTexts v" "traitTexts v \<noteq> []"
    using assms by (auto simp: TraitValues_def split: option.splits jsonb.splits if_splits)
  have "traitPairTexts render v \<noteq> []"
    using traitPair_superset [of v render] v(4) by (cases "traitTexts v") auto
  then show ?thesis using v traitPair_superset [of v render] by (simp add: TraitPairTexts_def)
qed

section \<open>Witnesses\<close>

definition demoPurview :: purview where
  "demoPurview =
     \<lparr>Unrestricted = False, Deny = False,
      Exprs = [OpLeaf (inCond dimCoven [] [''eu'']), OpAnd [OpLeaf (newGlobCond dimHost ''web-?*''), OpLeaf (inCond dimTrait ''env'' [''prod''])],
               OpAnd [OpLeaf (newGlobCond dimIncarnation ''db*''), OpLeaf (inCond dimTrait ''env'' [''prod''])]]\<rparr>"

definition demoTraits :: jsonb where
  "demoTraits = JObj [(''env'', JArr [JStr ''prod'', JNull, JNum ''7''])]"

definition demoSoul :: soul_row where
  "demoSoul = \<lparr>soulSid = ''web-12'', soulCovens = [''us''], soulTraits = demoTraits\<rparr>"

definition demoIncarnation :: incarnation_row where
  "demoIncarnation = \<lparr>incID = ''db1'', incService = ''pg'', incCovens = [], incTraits = demoTraits\<rparr>"

lemma demoPurview_ok:
  "list_all wf_expr (Exprs demoPurview)" "list_all asciiGlobs (Exprs demoPurview)" "\<not> (Unrestricted demoPurview \<and> Deny demoPurview)"
proof -
  have v: "wf_value v" if "v \<in> {''eu'', ''web-?*'', ''prod'', ''db*''}" for v
    using that by (auto simp: wf_value_def maxScopeValueLen_def)
  have "wf_cond (newGlobCond dimHost ''web-?*'')" "wf_cond (newGlobCond dimIncarnation ''db*'')"
    using v [of "''web-?*''"] v [of "''db*''"] unfolding wf_cond_def
    by (auto simp: dim_defs scopeDims_def newGlobCond_def)
  moreover have "wf_cond (inCond dimCoven [] [''eu''])" "wf_cond (inCond dimTrait ''env'' [''prod''])"
    using v [of "''eu''"] v [of "''prod''"] by (auto simp: wf_cond_def dim_defs scopeDims_def inCond_def reScopeTraitKey_def is_lower_def byte_in_def code_def traitKeyByte_def)
  ultimately show "list_all wf_expr (Exprs demoPurview)" by (simp add: demoPurview_def)
  show "list_all asciiGlobs (Exprs demoPurview)" by code_simp
  show "\<not> (Unrestricted demoPurview \<and> Deny demoPurview)" by (simp add: demoPurview_def)
qed

theorem souls_list_agrees_with_gate_witness:
  "\<exists>q as free. PurviewSQL demoPurview soulColumns 2 = (q, as, free) \<and> free = 8 \<and>
     selects (\<lambda>_. []) (soulValues demoSoul) ([ArgText ''x''] @ as @ [ArgText ''y'']) q"
proof -
  obtain q as free where run: "PurviewSQL demoPurview soulColumns (length [ArgText ''x''] + 1) = (q, as, free)"
    by (metis prod_cases3)
  have "oneLine (soulInput demoSoul)" by code_simp
  note t = souls_list_agrees_with_gate [OF demoPurview_ok this run, of "\<lambda>_. []" "[ArgText ''y'']"]
  have "InScope demoPurview demoSoul" by code_simp
  then have s: "selects (\<lambda>_. []) (soulValues demoSoul) ([ArgText ''x''] @ as @ [ArgText ''y'']) q" using t by blast
  have run2: "PurviewSQL demoPurview soulColumns 2 = (q, as, free)" using run by (simp add: numeral_2_eq_2)
  moreover have "snd (snd (PurviewSQL demoPurview soulColumns 2)) = 8" by code_simp
  ultimately show ?thesis using s by (intro exI [of _ q] exI [of _ as] exI [of _ free]) simp
qed

theorem incarnations_list_agrees_with_gate_witness:
  "\<exists>q as free. PurviewSQL demoPurview incScopeColumns 1 = (q, as, free) \<and>
     selects (\<lambda>_. []) (incValues demoIncarnation) as q"
proof -
  obtain q as free where run: "PurviewSQL demoPurview incScopeColumns (length ([] :: sql_arg list) + 1) = (q, as, free)"
    by (metis prod_cases3)
  have "oneLine (incInput demoIncarnation)" by code_simp
  note t = incarnations_list_agrees_with_gate [OF demoPurview_ok this run, of "\<lambda>_. []" "[]"]
  have "GetInScope demoPurview demoIncarnation" by code_simp
  then show ?thesis using t run by simp
qed

theorem trait_gate_covers_reads_witness:
  "\<exists>ps. TraitPairTexts (\<lambda>_. []) (Some demoTraits) ''env'' = Some ps \<and> set [''prod'', ''7''] \<subseteq> set ps"
proof (rule trait_gate_covers_reads)
  show "TraitValues (Some demoTraits) ''env'' = Some [''prod'', ''7'']" by code_simp
qed

section \<open>Where the two differ\<close>

text \<open>
  Beyond ASCII a glob is not the same in the two: \<open>globToRE2\<close> reads a byte as a code point, so the two bytes of one letter
  are two letters to the gate and one to the database.
\<close>

theorem non_ascii_glob_differs:
  "\<exists>p r. list_all wf_expr (Exprs p) \<and> (case PurviewSQL p soulColumns 1 of (q, as, _) \<Rightarrow> selects (\<lambda>_. []) (soulValues r) as q) \<and> \<not> InScope p r"
proof -
  let ?g = "[CHR 0xC3, CHR 0xA9]"
  let ?p = "\<lparr>Unrestricted = False, Deny = False, Exprs = [OpLeaf (newGlobCond dimHost ?g)]\<rparr>"
  let ?r = "\<lparr>soulSid = ?g, soulCovens = [], soulTraits = JNull\<rparr>"
  have "wf_value ?g" by (simp add: wf_value_def maxScopeValueLen_def)
  then have "wf_cond (newGlobCond dimHost ?g)" unfolding wf_cond_def by (auto simp: dim_defs scopeDims_def newGlobCond_def)
  moreover have "case PurviewSQL ?p soulColumns 1 of (q, as, _) \<Rightarrow> selects (\<lambda>_. []) (soulValues ?r) as q" by code_simp
  moreover have "\<not> InScope ?p ?r" by code_simp
  ultimately show ?thesis by (intro exI [of _ ?p] exI [of _ ?r]) simp
qed

end
