(* ===== verification/State_Value.thy ===== *)
theory State_Value
  imports Complex_Main "HOL-Library.Sublist" Go_Prelude
begin

text \<open>
  The dynamic values an incarnation's state is made of, shared by the state migrations and the state
  verbs: Go's \<^verbatim>\<open>any\<close> holding decoded JSON or YAML, the copy by a JSON round trip
  (\<^verbatim>\<open>keeper/internal/statemigrate/helpers.go\<close> and \<^verbatim>\<open>keeper/internal/stateop/ops.go\<close>), deep equality, and the
  laws of a store addressed by key paths, as a locale with the lemmas its clients share.

  A map is an association list with distinct keys. Its order stands for the iteration order of Go,
  which is unspecified, so a theorem for every association list covers every order. Strings are
  valid UTF-8, which is all that YAML, JSONB and CEL produce, and encoding/json keeps such a string.
  A container is never shared between two places of a state: the code builds a fresh one wherever it
  stores a value (\<^verbatim>\<open>toNative\<close>, \<^verbatim>\<open>interpolateValue\<close>, the JSON copy), so updating in place is modelled by
  returning the updated tree.
\<close>

named_theorems value_simps \<open>evaluation of the operations on state values\<close>

section \<open>Values\<close>

text \<open>A float64: the finite ones by the rational they denote, the others apart.\<close>

datatype float64 = Finite rat | NaN | Infinite bool

datatype go_value =
    VNil
  | VBool bool
  | VInt int
  | VUint nat
  | VFloat float64
  | VStr string
  | VList "go_value list"
  | VMap "(string \<times> go_value) list"

type_synonym gomap = "(string \<times> go_value) list"

abbreviation put :: "string \<Rightarrow> go_value \<Rightarrow> gomap \<Rightarrow> gomap" where
  "put \<equiv> AList.update"

abbreviation del :: "string \<Rightarrow> gomap \<Rightarrow> gomap" where
  "del \<equiv> AList.delete"

lemma size_entry [termination_simp]:
  "(k, v) \<in> set m \<Longrightarrow> size v < Suc (size_list (size_prod (\<lambda>_. 0) size) m)"
  by (induction m) auto

lemma size_entry' [termination_simp]:
  "e \<in> set m \<Longrightarrow> size (snd e) < Suc (size_list (size_prod (\<lambda>_. 0) size) m)"
  using size_entry by (cases e) auto

lemma size_zip_left [termination_simp]:
  fixes xs :: "'a::size list"
  shows "(x, y) \<in> set (zip xs ys) \<Longrightarrow> size x < Suc (size_list size xs)"
  by (auto dest!: set_zip_leftD intro: size_list_estimation' le_imp_less_Suc)

text \<open>Every map in a value has distinct keys.\<close>

fun wf_value :: "go_value \<Rightarrow> bool" where
  "wf_value (VList xs) \<longleftrightarrow> list_all wf_value xs"
| "wf_value (VMap m) \<longleftrightarrow> distinct (map fst m) \<and> list_all (\<lambda>e. wf_value (snd e)) m"
| "wf_value _ \<longleftrightarrow> True"

abbreviation wf_map :: "gomap \<Rightarrow> bool" where
  "wf_map m \<equiv> wf_value (VMap m)"

lemma wf_map_lookup: "wf_map m \<Longrightarrow> map_of m k = Some v \<Longrightarrow> wf_value v"
  by (auto simp: list_all_iff dest!: map_of_SomeD)

lemma wf_map_put [intro]:
  assumes "wf_map m" "wf_value v" shows "wf_map (put k v m)"
proof -
  have "x = (k, v) \<or> x \<in> set m" if "x \<in> set (put k v m)" for x
    using that by (induction m) (auto split: if_splits)
  then have "\<forall>x \<in> set (put k v m). wf_value (snd x)" using assms by (fastforce simp: list_all_iff)
  then show ?thesis using assms(1) by (simp add: list_all_iff distinct_update)
qed

lemma wf_map_del [intro]: "wf_map m \<Longrightarrow> wf_map (del k m)"
  by (auto simp: list_all_iff AList.delete_eq distinct_map_filter)

section \<open>The copy by a JSON round trip\<close>

text \<open>
  \<open>json.Unmarshal\<close> decodes a number into float64: an integer is rounded to the nearest value of 53
  significant bits, ties to even. \<open>bits n\<close> is the number of binary digits.
\<close>

fun bits :: "nat \<Rightarrow> nat" where
  "bits n = (if n = 0 then 0 else Suc (bits (n div 2)))"

declare bits.simps [simp del]

definition roundMag :: "nat \<Rightarrow> nat" where
  "roundMag n =
     (if n < 2 ^ 53 then n
      else let e = bits n - 53; q = n div 2 ^ e; r = n mod 2 ^ e; half = 2 ^ (e - 1)
        in (if half < r \<or> r = half \<and> odd q then Suc q else q) * 2 ^ e)"

definition toFloat64 :: "int \<Rightarrow> float64" where
  "toFloat64 n = Finite (of_int (sgn n * int (roundMag (nat \<bar>n\<bar>))))"

text \<open>
  Marshal and unmarshal. An infinity or a NaN makes \<open>json.Marshal\<close> fail.
\<close>

fun jsonCopy :: "go_value \<Rightarrow> (unit, go_value) result" where
  "jsonCopy VNil = Inr VNil"
| "jsonCopy (VBool b) = Inr (VBool b)"
| "jsonCopy (VInt n) = Inr (VFloat (toFloat64 n))"
| "jsonCopy (VUint n) = Inr (VFloat (toFloat64 (int n)))"
| "jsonCopy (VFloat x) = (case x of Finite r \<Rightarrow> Inr (VFloat (Finite r)) | _ \<Rightarrow> Inl ())"
| "jsonCopy (VStr s) = Inr (VStr s)"
| "jsonCopy (VList xs) = (case map_result jsonCopy xs of Inl e \<Rightarrow> Inl e | Inr ys \<Rightarrow> Inr (VList ys))"
| "jsonCopy (VMap m) =
     (case map_result (\<lambda>e. case jsonCopy (snd e) of Inl er \<Rightarrow> Inl er | Inr v \<Rightarrow> Inr (fst e, v)) m of
        Inl e \<Rightarrow> Inl e
      | Inr m' \<Rightarrow> Inr (VMap m'))"

text \<open>\<open>deepCopyMap\<close> of both packages: a failed round trip gives the empty map.\<close>

definition deepCopyMap :: "gomap \<Rightarrow> gomap" where
  "deepCopyMap m =
     (if m = [] then []
      else case jsonCopy (VMap m) of Inr (VMap m') \<Rightarrow> m' | _ \<Rightarrow> [])"

text \<open>\<open>deepCopyValue\<close>: a failed round trip gives the value itself.\<close>

definition deepCopyValue :: "go_value \<Rightarrow> go_value" where
  "deepCopyValue v = (case jsonCopy v of Inl _ \<Rightarrow> v | Inr v' \<Rightarrow> v')"

text \<open>The values \<open>json.Unmarshal\<close> produces: no Go integer, no infinity and no NaN.\<close>

fun json_value :: "go_value \<Rightarrow> bool" where
  "json_value (VInt n) \<longleftrightarrow> False"
| "json_value (VUint n) \<longleftrightarrow> False"
| "json_value (VFloat x) \<longleftrightarrow> (case x of Finite r \<Rightarrow> True | _ \<Rightarrow> False)"
| "json_value (VList xs) \<longleftrightarrow> list_all json_value xs"
| "json_value (VMap m) \<longleftrightarrow> list_all (\<lambda>e. json_value (snd e)) m"
| "json_value _ \<longleftrightarrow> True"

lemma jsonCopy_json: "jsonCopy v = Inr v' \<Longrightarrow> json_value v' \<and> (wf_value v \<longrightarrow> wf_value v')"
proof (induction v arbitrary: v' rule: jsonCopy.induct)
  case (7 xs)
  then obtain ys where ys: "map_result jsonCopy xs = Inr ys" "v' = VList ys"
    by (auto split: sum.splits)
  have "json_value y \<and> (wf_value x \<longrightarrow> wf_value y)" if "(x, y) \<in> set (zip xs ys)" for x y
    using 7(1) [of x y] ys(1) that set_zip_leftD [OF that] unfolding map_result_Inr list_all2_iff by fast
  then show ?case using ys
    by (fastforce simp: list_all_length map_result_Inr list_all2_conv_all_nth in_set_zip)
next
  case (8 m)
  let ?f = "\<lambda>e. case jsonCopy (snd e) of Inl er \<Rightarrow> Inl er | Inr v \<Rightarrow> Inr (fst e, v)"
  from 8(2) obtain m' where m': "map_result ?f m = Inr m'" "v' = VMap m'"
    by (auto split: sum.splits)
  have all: "list_all2 (\<lambda>x y. fst x = fst y \<and> json_value (snd y) \<and> (wf_value (snd x) \<longrightarrow> wf_value (snd y))) m m'"
    using m'(1) 8(1) unfolding map_result_Inr list_all2_iff
    by (fastforce split: sum.splits dest: set_zip_leftD)
  have "map fst m' = map fst m"
    using all by (auto simp: list_all2_conv_all_nth intro!: nth_equalityI)
  then show ?case using all m'(2)
    by (auto simp: list_all_length list_all2_conv_all_nth)
qed (auto split: float64.splits simp: toFloat64_def)

lemma jsonCopy_id: "json_value v \<Longrightarrow> jsonCopy v = Inr v"
proof (induction v rule: jsonCopy.induct)
  case (7 xs)
  then have "map_result jsonCopy xs = Inr xs"
    by (auto simp: map_result_Inr list_all_iff list_all2_same)
  then show ?case by simp
next
  case (8 m)
  then have "map_result (\<lambda>e. case jsonCopy (snd e) of Inl er \<Rightarrow> Inl er | Inr v \<Rightarrow> Inr (fst e, v)) m = Inr m"
    by (auto simp: map_result_Inr list_all_iff list_all2_same split: sum.splits)
  then show ?case by simp
qed (auto split: float64.splits)

lemma deepCopyMap_json: "json_value (VMap (deepCopyMap m))"
  using jsonCopy_json [of "VMap m"] by (auto simp: deepCopyMap_def split: sum.splits go_value.splits)

lemma deepCopyMap_wf: "wf_map m \<Longrightarrow> wf_map (deepCopyMap m)"
  using jsonCopy_json [of "VMap m"] by (auto simp: deepCopyMap_def split: sum.splits go_value.splits)

lemma deepCopyMap_id: "json_value (VMap m) \<Longrightarrow> deepCopyMap m = m"
  using jsonCopy_id [of "VMap m"] by (auto simp: deepCopyMap_def)

lemma deepCopyMap_idem [simp]: "deepCopyMap (deepCopyMap m) = deepCopyMap m"
  by (rule deepCopyMap_id [OF deepCopyMap_json])

section \<open>Deep equality\<close>

text \<open>
  \<^verbatim>\<open>reflect.DeepEqual\<close>: equal dynamic types and equal contents, maps by key, a NaN unequal to itself.
\<close>

fun floatEq :: "float64 \<Rightarrow> float64 \<Rightarrow> bool" where
  "floatEq NaN y = False"
| "floatEq x y = (x = y)"

fun deepEqual :: "go_value \<Rightarrow> go_value \<Rightarrow> bool" where
  "deepEqual (VFloat x) (VFloat y) = floatEq x y"
| "deepEqual (VList xs) (VList ys) =
     (length xs = length ys \<and> list_all (\<lambda>e. deepEqual (fst e) (snd e)) (zip xs ys))"
| "deepEqual (VMap m) (VMap n) =
     (length m = length n \<and>
      list_all (\<lambda>e. case map_of n (fst e) of None \<Rightarrow> False | Some w \<Rightarrow> deepEqual (snd e) w) m)"
| "deepEqual v w = (v = w)"

lemma floatEq_imp: "floatEq x y \<Longrightarrow> x = y"
  by (cases x) auto

text \<open>On decoded JSON deep equality is reflexive.\<close>

lemma deepEqual_refl: "json_value v \<Longrightarrow> wf_value v \<Longrightarrow> deepEqual v v"
proof (induction v)
  case (VFloat x)
  then show ?case by (cases x) auto
next
  case (VList xs)
  then show ?case by (auto simp: list_all_iff set_zip dest!: nth_mem)
next
  case (VMap m)
  have "deepEqual (snd e) (snd e) \<and> map_of m (fst e) = Some (snd e)" if "e \<in> set m" for e
    using VMap that by (cases e) (fastforce simp: list_all_iff)
  then show ?case by (auto simp: list_all_iff)
qed auto

section \<open>Key paths\<close>

text \<open>What stands at a path of keys, from a value down through maps.\<close>

fun lookup_in :: "go_value \<Rightarrow> string list \<Rightarrow> go_value option" where
  "lookup_in v [] = Some v"
| "lookup_in (VMap m) (k # ks) = (case map_of m k of None \<Rightarrow> None | Some v \<Rightarrow> lookup_in v ks)"
| "lookup_in _ _ = None"

abbreviation lookup :: "gomap \<Rightarrow> string list \<Rightarrow> go_value option" where
  "lookup m \<equiv> lookup_in (VMap m)"

lemma lookup_in_append:
  "lookup_in v (p @ q) = (case lookup_in v p of None \<Rightarrow> None | Some w \<Rightarrow> lookup_in w q)"
  by (induction v p rule: lookup_in.induct) (auto split: option.splits)

lemma parallel_Cons_same [simp]: "(k # ks) \<parallel> (k # qs) \<longleftrightarrow> ks \<parallel> qs"
  by (auto simp: parallel_def)

lemma parallel_Nil [simp]: "\<not> [] \<parallel> q" "\<not> p \<parallel> []"
  by (auto simp: parallel_def)

lemma lookup_Nil_map [simp]: "q \<noteq> [] \<Longrightarrow> lookup [] q = None"
  by (cases q) auto

lemma lookup_in_scalar [simp]: "ks \<noteq> [] \<Longrightarrow> (\<And>m. v \<noteq> VMap m) \<Longrightarrow> lookup_in v ks = None"
  by (cases v; cases ks) auto

text \<open>
  What a state shows at a path: the scalar or the list there, or that there is a map. Two states that
  show the same at every path are the same up to the order of map entries.
\<close>

definition shownAt :: "gomap \<Rightarrow> string list \<Rightarrow> go_value option" where
  "shownAt m p = map_option (\<lambda>v. case v of VMap _ \<Rightarrow> VMap [] | _ \<Rightarrow> v) (lookup m p)"

text \<open>A list of writes, one after the other.\<close>

fun store_all :: "('s \<Rightarrow> 'k list \<Rightarrow> 'v \<Rightarrow> 's option) \<Rightarrow> 's \<Rightarrow> ('k list \<times> 'v) list \<Rightarrow> 's option" where
  "store_all store s [] = Some s"
| "store_all store s ((p, v) # ws) = (case store s p v of None \<Rightarrow> None | Some s' \<Rightarrow> store_all store s' ws)"

text \<open>
  The contract of writing to a store addressed by paths: what is stored is found, and a path that neither
  contains nor is contained in the written one is not touched.
\<close>

locale path_writes =
  fixes look :: "'s \<Rightarrow> 'k list \<Rightarrow> 'v option"
    and store :: "'s \<Rightarrow> 'k list \<Rightarrow> 'v \<Rightarrow> 's option"
  assumes look_store: "p \<noteq> [] \<Longrightarrow> store s p v = Some s' \<Longrightarrow> look s' p = Some v"
    and look_store_apart: "store s p v = Some s' \<Longrightarrow> p \<parallel> q \<Longrightarrow> look s' q = look s q"
begin

lemma store_all_frame:
  "store_all store s ws = Some s' \<Longrightarrow> list_all (\<lambda>w. fst w \<parallel> q) ws \<Longrightarrow> look s' q = look s q"
  by (induction ws arbitrary: s) (auto simp: look_store_apart split: option.splits)

text \<open>Writes at pairwise separate paths all stand, whatever their order.\<close>

lemma store_all_stand:
  "store_all store s ws = Some s' \<Longrightarrow> sorted_wrt (\<lambda>a b. fst a \<parallel> fst b) ws \<Longrightarrow>
     list_all (\<lambda>w. fst w \<noteq> []) ws \<Longrightarrow> w \<in> set ws \<Longrightarrow> look s' (fst w) = Some (snd w)"
proof (induction ws arbitrary: s)
  case (Cons x ws)
  obtain p v where x: "x = (p, v)" by (cases x)
  with Cons.prems obtain s1 where s1: "store s p v = Some s1" "store_all store s1 ws = Some s'"
    by (auto split: option.splits)
  show ?case
  proof (cases "w \<in> set ws")
    case True
    then show ?thesis using Cons.IH [OF s1(2)] Cons.prems by simp
  next
    case False
    then have "w = (p, v)" using Cons.prems x by simp
    moreover have "list_all (\<lambda>w. fst w \<parallel> p) ws"
      using Cons.prems(2) x by (auto simp: list_all_iff parallel_commute)
    ultimately show ?thesis using store_all_frame [OF s1(2)] look_store [OF _ s1(1)] Cons.prems(3) x by simp
  qed
qed simp

end

text \<open>A store that also erases: what is erased is gone, and nothing else is.\<close>

locale path_store = path_writes +
  fixes erase :: "'s \<Rightarrow> 'k list \<Rightarrow> 's"
  assumes look_erase: "p \<noteq> [] \<Longrightarrow> look (erase s p) p = None"
    and look_erase_apart: "p \<parallel> q \<Longrightarrow> look (erase s p) q = look s q"
begin

text \<open>Moving a value: store it at the target, erase the source.\<close>

lemma move_target:
  assumes "from \<parallel> to" "store s to v = Some s'"
  shows "look (erase s' from) to = Some v"
  using assms look_store [of to s v s'] look_erase_apart [of "from" to s'] by (cases "to = []") auto

lemma move_source:
  assumes "from \<parallel> to"
  shows "look (erase s' from) from = None"
  using assms look_erase [of "from" s'] by (cases "from = []") auto

lemma move_frame:
  assumes "store s to v = Some s'" "from \<parallel> q" "to \<parallel> q"
  shows "look (erase s' from) q = look s q"
  using assms look_store_apart look_erase_apart by metis

end

end
