(* ===== verification/State_Migrate.thy ===== *)
theory State_Migrate
  imports State_Value
begin

text \<open>
  The executor of state_schema migrations, \<^verbatim>\<open>keeper/internal/statemigrate\<close>: addresses and their
  \<^verbatim>\<open>${ ... }\<close> segments (\<^verbatim>\<open>path.go\<close>), interpolation of values (\<^verbatim>\<open>value.go\<close>), the operations rename, set,
  delete and foreach (\<^verbatim>\<open>apply.go\<close>) and the run of a chain with its snapshots (\<^verbatim>\<open>statemigrate.go\<close>).

  The CEL engine is not part of the package: the port \<^verbatim>\<open>Evaluator\<close> is an argument, a record of its two
  methods. An error is its code or class with the address it carries; message texts are left out.
\<close>

section \<open>Data\<close>

datatype migrate_error =
    ParseError string
  | EvalError (evalClass: string) (evalPath: string)
  | StepError int int migrate_error

text \<open>The codes of a ParseError and the classes of an EvalError.\<close>

definition CodeOpFieldMissing :: string where "CodeOpFieldMissing = ''migration_op_field_missing''"
definition CodeEmptyDocument :: string where "CodeEmptyDocument = ''migration_empty_document''"
definition CodeYAMLParse :: string where "CodeYAMLParse = ''migration_yaml_parse_error''"
definition CodeVersionKey :: string where "CodeVersionKey = ''migration_version_key''"
definition CodeOpDiscriminator :: string where "CodeOpDiscriminator = ''migration_op_discriminator''"
definition CodeForeachMissingAs :: string where "CodeForeachMissingAs = ''migration_foreach_missing_as''"
definition ClassRenameToExists :: string where "ClassRenameToExists = ''migration_rename_to_exists''"
definition ClassPathTraverse :: string where "ClassPathTraverse = ''migration_path_traverse''"
definition ClassPathSegment :: string where "ClassPathSegment = ''migration_path_segment''"
definition ClassForeachType :: string where "ClassForeachType = ''migration_foreach_type''"
definition ClassCELInterp :: string where "ClassCELInterp = ''migration_cel_interp''"
definition ClassChainVersion :: string where "ClassChainVersion = ''migration_chain_version''"

lemmas error_codes = CodeOpFieldMissing_def CodeEmptyDocument_def CodeYAMLParse_def CodeVersionKey_def
  CodeOpDiscriminator_def CodeForeachMissingAs_def ClassRenameToExists_def ClassPathTraverse_def
  ClassPathSegment_def ClassForeachType_def ClassCELInterp_def ClassChainVersion_def

text \<open>
  One operation of a transform. The struct \<^verbatim>\<open>Op\<close> has a pointer per kind of which exactly one is set;
  \<open>NoOp\<close> is the zero struct, with none.
\<close>

datatype migrate_op =
    RenameOp string string
  | SetOp string go_value
  | DeleteOp string
  | ForeachOp string string "migrate_op list"
  | NoOp

record migration =
  FromVersion :: int
  ToVersion :: int
  migPath :: string
  Description :: string
  Transform :: "migrate_op list"

record scope =
  scState :: gomap
  scLoop :: gomap

record evaluator =
  Eval :: "string \<Rightarrow> scope \<Rightarrow> (string, go_value) result"
  Interpolate :: "string \<Rightarrow> scope \<Rightarrow> (string, go_value) result"

section \<open>Addresses\<close>

datatype path_segment = Literal string | Expr string

abbreviation fieldMissing :: "(migrate_error, 'a) result" where
  "fieldMissing \<equiv> Inl (ParseError CodeOpFieldMissing)"

text \<open>
  The loop of \<open>parsePath\<close> over the rest of the body, with the literal read so far. A block
  \<^verbatim>\<open>${ ... }\<close> ends at the next closing brace and has to fill its segment.
\<close>

function parseSegs :: "string \<Rightarrow> string \<Rightarrow> (migrate_error, path_segment list) result" where
  "parseSegs cur [] = Inr (if cur = [] then [] else [Literal cur])"
| "parseSegs cur (c # s) =
     (if c = CHR ''$'' \<and> hasPrefix s ''{'' then
        if cur \<noteq> [] then fieldMissing
        else case str_index (c # s) ''}'' of
          None \<Rightarrow> fieldMissing
        | Some close \<Rightarrow>
            let expr = trimSpace (take (close - 2) (drop 2 (c # s))) in
            if expr = [] then fieldMissing
            else case drop (close + 1) (c # s) of
              [] \<Rightarrow> Inr [Expr expr]
            | d # rest \<Rightarrow>
                if d \<noteq> CHR ''.'' \<or> rest = [] then fieldMissing
                else case parseSegs [] rest of Inl e \<Rightarrow> Inl e | Inr segs \<Rightarrow> Inr (Expr expr # segs)
      else if c = CHR ''.'' then
        if cur = [] \<or> s = [] then fieldMissing
        else case parseSegs [] s of Inl e \<Rightarrow> Inl e | Inr segs \<Rightarrow> Inr (Literal cur # segs)
      else parseSegs (cur @ [c]) s)"
  by pat_completeness auto
termination
proof (relation "measure (\<lambda>(cur, s). length s)")
  fix c :: char and cur s d rest :: string and x2 x21 x22
  assume "drop (x2 + 1) (c # s) = x21 # x22"
  then have "length (drop x2 s) = Suc (length x22)" by simp
  then show "(([], x22), cur, c # s) \<in> measure (\<lambda>(cur, s). length s)" by simp
qed auto

declare parseSegs.simps(2) [simp del]

definition parsePath :: "string \<Rightarrow> (migrate_error, path_segment list) result" where
  "parsePath raw =
     (let trimmed = trimSpace raw in
      if trimmed = ''state'' then Inr []
      else if hasPrefix trimmed ''state.'' then
        let body = drop (length ''state'' + 1) trimmed in
        if body = [] then fieldMissing else parseSegs [] body
      else fieldMissing)"

text \<open>Decimal digits, as \<^verbatim>\<open>%d\<close> prints an integer.\<close>

fun showNat :: "nat \<Rightarrow> string" where
  "showNat n = (if n < 10 then [char_of (48 + n)] else showNat (n div 10) @ [char_of (48 + n mod 10)])"

declare showNat.simps [simp del]

definition showInt :: "int \<Rightarrow> string" where
  "showInt n = (if n < 0 then ''-'' @ showNat (nat (- n)) else showNat (nat n))"

fun stringKey :: "go_value \<Rightarrow> string option" where
  "stringKey (VStr s) = Some s"
| "stringKey (VInt n) = Some (showInt n)"
| "stringKey (VUint n) = Some (showNat n)"
| "stringKey _ = None"

fun resolveSegment :: "evaluator \<Rightarrow> scope \<Rightarrow> path_segment \<Rightarrow> (migrate_error, string) result" where
  "resolveSegment ev sc (Literal s) = Inr s"
| "resolveSegment ev sc (Expr x) =
     (case Eval ev x sc of
        Inl _ \<Rightarrow> Inl (EvalError ClassCELInterp [])
      | Inr v \<Rightarrow> (case stringKey v of
          None \<Rightarrow> Inl (EvalError ClassPathSegment [])
        | Some key \<Rightarrow> Inr key))"

definition resolveSegments :: "path_segment list \<Rightarrow> evaluator \<Rightarrow> scope \<Rightarrow> (migrate_error, string list) result" where
  "resolveSegments segs ev sc = map_result (resolveSegment ev sc) segs"

definition resolvePath :: "string \<Rightarrow> evaluator \<Rightarrow> scope \<Rightarrow> (migrate_error, string list) result" where
  "resolvePath raw ev sc =
     (case parsePath raw of
        Inl e \<Rightarrow> Inl e
      | Inr segs \<Rightarrow> if segs = [] then Inl (EvalError ClassPathSegment raw) else resolveSegments segs ev sc)"

section \<open>Navigation\<close>

definition joinKeys :: "string list \<Rightarrow> string" where
  "joinKeys keys = ''state.'' @ join ''.'' keys"

text \<open>The loops keep the keys already passed, for the address of a traversal error.\<close>

fun getLoop :: "string list \<Rightarrow> gomap \<Rightarrow> string list \<Rightarrow> (migrate_error, go_value option) result" where
  "getLoop seen cur [] = Inr None"
| "getLoop seen cur (k # ks) =
     (case map_of cur k of
        None \<Rightarrow> Inr None
      | Some v \<Rightarrow>
          if ks = [] then Inr (Some v)
          else (case v of
            VMap next \<Rightarrow> getLoop (seen @ [k]) next ks
          | _ \<Rightarrow> Inl (EvalError ClassPathTraverse (joinKeys (seen @ [k])))))"

definition getPath :: "gomap \<Rightarrow> string list \<Rightarrow> (migrate_error, go_value option) result" where
  "getPath state keys = getLoop [] state keys"

fun setLoop :: "string list \<Rightarrow> gomap \<Rightarrow> string list \<Rightarrow> go_value \<Rightarrow> (migrate_error, gomap) result" where
  "setLoop seen cur [] val = Inr cur"
| "setLoop seen cur (k # ks) val =
     (if ks = [] then Inr (put k val cur)
      else case map_of cur k of
        None \<Rightarrow> (case setLoop (seen @ [k]) [] ks val of
            Inl e \<Rightarrow> Inl e
          | Inr next \<Rightarrow> Inr (put k (VMap next) cur))
      | Some v \<Rightarrow> (case v of
            VMap next \<Rightarrow> (case setLoop (seen @ [k]) next ks val of
                Inl e \<Rightarrow> Inl e
              | Inr next' \<Rightarrow> Inr (put k (VMap next') cur))
          | _ \<Rightarrow> Inl (EvalError ClassPathTraverse (joinKeys (seen @ [k])))))"

definition setPath :: "gomap \<Rightarrow> string list \<Rightarrow> go_value \<Rightarrow> (migrate_error, gomap) result" where
  "setPath state keys val = setLoop [] state keys val"

fun deletePath :: "gomap \<Rightarrow> string list \<Rightarrow> gomap" where
  "deletePath cur [] = cur"
| "deletePath cur (k # ks) =
     (if ks = [] then del k cur
      else case map_of cur k of
        Some (VMap next) \<Rightarrow> put k (VMap (deletePath next ks)) cur
      | _ \<Rightarrow> cur)"

section \<open>Operations\<close>

text \<open>Every string leaf with a \<^verbatim>\<open>${\<close> marker goes through the engine, everything else is kept.\<close>

fun interpolateValue :: "evaluator \<Rightarrow> scope \<Rightarrow> go_value \<Rightarrow> (migrate_error, go_value) result" where
  "interpolateValue ev sc (VMap m) =
     (case map_result (\<lambda>e. case interpolateValue ev sc (snd e) of Inl er \<Rightarrow> Inl er | Inr rv \<Rightarrow> Inr (fst e, rv)) m of
        Inl e \<Rightarrow> Inl e
      | Inr out \<Rightarrow> Inr (VMap out))"
| "interpolateValue ev sc (VList xs) =
     (case map_result (interpolateValue ev sc) xs of Inl e \<Rightarrow> Inl e | Inr out \<Rightarrow> Inr (VList out))"
| "interpolateValue ev sc (VStr t) =
     (if \<not> str_contains t ''${'' then Inr (VStr t)
      else case Interpolate ev t sc of
        Inl _ \<Rightarrow> Inl (EvalError ClassCELInterp [])
      | Inr res \<Rightarrow> Inr res)"
| "interpolateValue ev sc v = Inr v"

definition applyRename :: "string \<Rightarrow> string \<Rightarrow> gomap \<Rightarrow> evaluator \<Rightarrow> scope \<Rightarrow> (migrate_error, gomap) result" where
  "applyRename from to state ev sc =
     (case resolvePath from ev sc of
        Inl e \<Rightarrow> Inl e
      | Inr fromKeys \<Rightarrow> (case resolvePath to ev sc of
          Inl e \<Rightarrow> Inl e
        | Inr toKeys \<Rightarrow> (case getPath state fromKeys of
            Inl e \<Rightarrow> Inl e
          | Inr None \<Rightarrow> Inr state
          | Inr (Some val) \<Rightarrow> (case getPath state toKeys of
              Inl e \<Rightarrow> Inl e
            | Inr (Some _) \<Rightarrow> Inl (EvalError ClassRenameToExists to)
            | Inr None \<Rightarrow> (case setPath state toKeys val of
                Inl e \<Rightarrow> Inl e
              | Inr state' \<Rightarrow> Inr (deletePath state' fromKeys))))))"

definition applySet :: "string \<Rightarrow> go_value \<Rightarrow> gomap \<Rightarrow> evaluator \<Rightarrow> scope \<Rightarrow> (migrate_error, gomap) result" where
  "applySet path raw state ev sc =
     (case resolvePath path ev sc of
        Inl e \<Rightarrow> Inl e
      | Inr keys \<Rightarrow> (case interpolateValue ev sc raw of
          Inl e \<Rightarrow> Inl e
        | Inr val \<Rightarrow> setPath state keys val))"

definition applyDelete :: "string \<Rightarrow> gomap \<Rightarrow> evaluator \<Rightarrow> scope \<Rightarrow> (migrate_error, gomap) result" where
  "applyDelete path state ev sc =
     (case resolvePath path ev sc of Inl e \<Rightarrow> Inl e | Inr keys \<Rightarrow> Inr (deletePath state keys))"

definition evalCollection :: "string \<Rightarrow> evaluator \<Rightarrow> scope \<Rightarrow> (string, go_value) result" where
  "evalCollection coll ev sc = (if str_contains coll ''${'' then Interpolate ev coll sc else Eval ev coll sc)"

text \<open>\<open>sortedKeys\<close>: the keys of a map in the order of \<^verbatim>\<open>sort.Strings\<close>.\<close>

definition sortedKeys :: "gomap \<Rightarrow> string list" where
  "sortedKeys m = sort (map fst m)"

fun iterItems :: "go_value \<Rightarrow> (migrate_error, go_value list) result" where
  "iterItems (VList xs) = Inr xs"
| "iterItems (VMap m) = Inr (map (\<lambda>k. case map_of m k of None \<Rightarrow> VNil | Some v \<Rightarrow> v) (sortedKeys m))"
| "iterItems _ = Inl (EvalError ClassForeachType [])"

text \<open>
  The operations of a list in order, each on the state the previous one left. \<open>applyItems\<close> is the loop
  of \<open>applyForeach\<close> over the items of the collection.
\<close>

function (sequential)
  applyOps :: "evaluator \<Rightarrow> migrate_op list \<Rightarrow> gomap \<Rightarrow> gomap \<Rightarrow> (migrate_error, gomap) result" and
  applyOp :: "evaluator \<Rightarrow> migrate_op \<Rightarrow> gomap \<Rightarrow> gomap \<Rightarrow> (migrate_error, gomap) result" and
  applyItems :: "evaluator \<Rightarrow> migrate_op list \<Rightarrow> string \<Rightarrow> go_value list \<Rightarrow> gomap \<Rightarrow> gomap \<Rightarrow> (migrate_error, gomap) result"
where
  "applyOps ev [] loop state = Inr state"
| "applyOps ev (op # ops) loop state =
     (case applyOp ev op loop state of Inl e \<Rightarrow> Inl e | Inr state' \<Rightarrow> applyOps ev ops loop state')"
| "applyOp ev (RenameOp from to) loop state = applyRename from to state ev \<lparr>scState = state, scLoop = loop\<rparr>"
| "applyOp ev (SetOp path v) loop state = applySet path v state ev \<lparr>scState = state, scLoop = loop\<rparr>"
| "applyOp ev (DeleteOp path) loop state = applyDelete path state ev \<lparr>scState = state, scLoop = loop\<rparr>"
| "applyOp ev (ForeachOp coll as body) loop state =
     (if as = [] then Inl (EvalError ClassForeachType [])
      else case evalCollection coll ev \<lparr>scState = state, scLoop = loop\<rparr> of
        Inl _ \<Rightarrow> Inl (EvalError ClassCELInterp [])
      | Inr v \<Rightarrow> (case iterItems v of
          Inl e \<Rightarrow> Inl e
        | Inr items \<Rightarrow> applyItems ev body as items loop state))"
| "applyOp ev NoOp loop state = Inl (EvalError ClassPathSegment [])"
| "applyItems ev body as [] loop state = Inr state"
| "applyItems ev body as (item # items) loop state =
     (case applyOps ev body (put as item loop) state of
        Inl e \<Rightarrow> Inl e
      | Inr state' \<Rightarrow> applyItems ev body as items loop state')"
  by pat_completeness auto

text \<open>An operation is measured by its size, a loop by its body and then by the items left.\<close>

termination
  by (relation "measures
      [\<lambda>x. case x of Inl (_, ops, _) \<Rightarrow> size_list size ops | Inr (Inl (_, op, _)) \<Rightarrow> size op
             | Inr (Inr (_, body, _)) \<Rightarrow> size_list size body,
       \<lambda>x. case x of Inl _ \<Rightarrow> 0 | Inr (Inl _) \<Rightarrow> 0 | Inr (Inr (_, _, _, items, _)) \<Rightarrow> Suc (length items)]") auto

section \<open>Chains\<close>

record step_snapshot =
  stepFrom :: int
  stepTo :: int
  StateBefore :: gomap
  StateAfter :: gomap

record migrate_result =
  FinalState :: gomap
  Steps :: "step_snapshot list"

text \<open>
  The loop of \<open>Apply\<close>: the previous migration if there is one, the current state and the snapshots so
  far.
\<close>

fun applyChain :: "evaluator \<Rightarrow> migration option \<Rightarrow> gomap \<Rightarrow> step_snapshot list \<Rightarrow> migration list \<Rightarrow> (migrate_error, migrate_result) result" where
  "applyChain ev prev cur steps [] = Inr \<lparr>FinalState = cur, Steps = steps\<rparr>"
| "applyChain ev prev cur steps (m # ms) =
     (if (case prev of None \<Rightarrow> False | Some p \<Rightarrow> ToVersion p \<noteq> FromVersion m)
      then Inl (EvalError ClassChainVersion [])
      else case applyOps ev (Transform m) [] cur of
        Inl e \<Rightarrow> Inl (StepError (FromVersion m) (ToVersion m) e)
      | Inr cur' \<Rightarrow> applyChain ev (Some m) cur'
          (steps @ [\<lparr>stepFrom = FromVersion m, stepTo = ToVersion m,
                    StateBefore = deepCopyMap cur, StateAfter = deepCopyMap cur'\<rparr>]) ms)"

definition Apply :: "gomap \<Rightarrow> migration list \<Rightarrow> evaluator \<Rightarrow> (migrate_error, migrate_result) result" where
  "Apply state chain ev = applyChain ev None (deepCopyMap state) [] chain"

section \<open>The state as a path store\<close>

lemma getLoop_lookup: "getLoop seen m p = Inr r \<Longrightarrow> p \<noteq> [] \<Longrightarrow> r = lookup m p"
  by (induction seen m p arbitrary: r rule: getLoop.induct)
    (auto split: option.splits if_splits go_value.splits)

lemma setLoop_below: "setLoop seen m p v = Inr m' \<Longrightarrow> p \<noteq> [] \<Longrightarrow> lookup m' (p @ q) = lookup_in v q"
  by (induction seen m p v arbitrary: m' rule: setLoop.induct)
    (auto simp: update_conv' split: option.splits if_splits go_value.splits sum.splits)

lemma setLoop_apart: "setLoop seen m p v = Inr m' \<Longrightarrow> p \<parallel> q \<Longrightarrow> lookup m' q = lookup m q"
proof (induction seen m p v arbitrary: m' q rule: setLoop.induct)
  case (2 seen cur k ks val)
  obtain k' qs where q: "q = k' # qs" using 2(4) by (cases q) auto
  show ?case
  proof (cases "k' = k")
    case False
    then show ?thesis using 2(3) q
      by (auto simp: update_conv' split: if_splits option.splits go_value.splits sum.splits)
  next
    case True
    with 2(4) q have apart: "ks \<parallel> qs" "ks \<noteq> []" "qs \<noteq> []" by (auto simp: parallel_def)
    then show ?thesis using 2 q True
      by (auto simp: update_conv' split: option.splits go_value.splits sum.splits)
  qed
qed simp

lemma deletePath_gone: "p \<noteq> [] \<Longrightarrow> lookup (deletePath m p) p = None"
  by (induction m p rule: deletePath.induct)
    (auto simp: update_conv' delete_conv' split: option.splits go_value.splits)

lemma deletePath_apart: "p \<parallel> q \<Longrightarrow> lookup (deletePath m p) q = lookup m q"
proof (induction m p arbitrary: q rule: deletePath.induct)
  case (2 cur k ks)
  obtain k' qs where q: "q = k' # qs" using 2(2) by (cases q) auto
  show ?case
  proof (cases "k' = k")
    case False
    then show ?thesis using q
      by (auto simp: update_conv' delete_conv' split: option.splits go_value.splits)
  next
    case True
    with 2(2) q have "ks \<parallel> qs" "ks \<noteq> []" by auto
    then show ?thesis using 2(1) q True
      by (auto simp: update_conv' split: option.splits go_value.splits)
  qed
qed simp

definition storeAt :: "gomap \<Rightarrow> string list \<Rightarrow> go_value \<Rightarrow> gomap option" where
  "storeAt m p v = (case setPath m p v of Inl _ \<Rightarrow> None | Inr m' \<Rightarrow> Some m')"

lemma storeAt_Some: "storeAt m p v = Some m' \<longleftrightarrow> setPath m p v = Inr m'"
  by (auto simp: storeAt_def split: sum.splits)

interpretation tree: path_store lookup storeAt deletePath
proof unfold_locales
  show "lookup s' p = Some v" if "p \<noteq> []" "storeAt s p v = Some s'" for p s v s'
    using setLoop_below [of "[]" s p v s' "[]"] that by (simp add: storeAt_Some setPath_def)
  show "lookup s' q = lookup s q" if "storeAt s p v = Some s'" "p \<parallel> q" for s p v s' q
    using setLoop_apart that by (simp add: storeAt_Some setPath_def)
qed (auto intro: deletePath_gone deletePath_apart)

lemmas getPath_lookup = getLoop_lookup [of "[]", folded getPath_def]
lemmas setPath_below = setLoop_below [of "[]", folded setPath_def]
lemmas setPath_apart = setLoop_apart [of "[]", folded setPath_def]

section \<open>Well-formedness\<close>

text \<open>On proper maps an evaluator returns proper maps: distinct keys, as every Go map has.\<close>

definition wf_bindings :: "scope \<Rightarrow> bool" where
  "wf_bindings sc \<longleftrightarrow> wf_map (scState sc) \<and> wf_map (scLoop sc)"

definition wf_evaluator :: "evaluator \<Rightarrow> bool" where
  "wf_evaluator ev \<longleftrightarrow>
     (\<forall>x sc v. wf_bindings sc \<longrightarrow> Eval ev x sc = Inr v \<or> Interpolate ev x sc = Inr v \<longrightarrow> wf_value v)"

lemma iterItems_wf: "iterItems v = Inr items \<Longrightarrow> wf_value v \<Longrightarrow> list_all wf_value items"
  using wf_map_lookup by (cases v) (auto simp: list_all_iff simp del: wf_value.simps(2) split: option.splits)

fun wf_op :: "migrate_op \<Rightarrow> bool" where
  "wf_op (SetOp path v) \<longleftrightarrow> wf_value v"
| "wf_op (ForeachOp coll as body) \<longleftrightarrow> as \<noteq> [] \<and> list_all wf_op body"
| "wf_op NoOp \<longleftrightarrow> False"
| "wf_op _ \<longleftrightarrow> True"

lemma setLoop_wf: "setLoop seen m p v = Inr m' \<Longrightarrow> wf_map m \<Longrightarrow> wf_value v \<Longrightarrow> wf_map m'"
proof (induction seen m p v arbitrary: m' rule: setLoop.induct)
  case (2 seen cur k ks val)
  have sub: "wf_value w" if "map_of cur k = Some w" for w
    using wf_map_lookup [OF 2(4) that] .
  have nil: "wf_map []" by simp
  show ?case
  proof (cases "ks = []")
    case True
    then show ?thesis using 2(3-5) wf_map_put by auto
  next
    case False
    then show ?thesis using 2 sub nil
      by (auto simp del: wf_value.simps intro!: wf_map_put split: option.splits go_value.splits sum.splits)
  qed
qed simp

lemma deletePath_wf: "wf_map m \<Longrightarrow> wf_map (deletePath m p)"
proof (induction m p rule: deletePath.induct)
  case (2 cur k ks)
  then show ?case using wf_map_lookup [of cur k]
    by (auto simp del: wf_value.simps intro!: wf_map_put wf_map_del split: option.splits go_value.splits)
qed simp

lemma interpolateValue_wf:
  "interpolateValue ev sc v = Inr v' \<Longrightarrow> wf_value v \<Longrightarrow> wf_evaluator ev \<Longrightarrow> wf_bindings sc \<Longrightarrow> wf_value v'"
proof (induction ev sc v arbitrary: v' rule: interpolateValue.induct)
  case (1 ev sc m)
  let ?f = "\<lambda>e. case interpolateValue ev sc (snd e) of Inl er \<Rightarrow> Inl er | Inr rv \<Rightarrow> Inr (fst e, rv)"
  from 1(2) obtain out where out: "map_result ?f m = Inr out" "v' = VMap out"
    by (auto split: sum.splits)
  have all: "list_all2 (\<lambda>x y. fst x = fst y \<and> (wf_value (snd x) \<longrightarrow> wf_value (snd y))) m out"
    using out(1) 1(1,4,5) unfolding map_result_Inr list_all2_iff
    by (fastforce split: sum.splits dest: set_zip_leftD)
  have "map fst out = map fst m"
    using all by (auto simp: list_all2_conv_all_nth intro!: nth_equalityI)
  then show ?case using all out(2) 1(3) by (auto simp: list_all_length list_all2_conv_all_nth)
next
  case (2 ev sc xs)
  from 2(2) obtain ys where ys: "map_result (interpolateValue ev sc) xs = Inr ys" "v' = VList ys"
    by (auto split: sum.splits)
  have "wf_value y" if "(x, y) \<in> set (zip xs ys)" for x y
    using 2(1) [of x y] 2(3-5) ys(1) that set_zip_leftD [OF that]
    unfolding map_result_Inr list_all2_iff by (fastforce simp: list_all_iff)
  then show ?case using ys by (fastforce simp: list_all_length map_result_Inr list_all2_conv_all_nth in_set_zip)
next
  case (3 ev sc t)
  then show ?case by (fastforce simp: wf_evaluator_def split: if_splits sum.splits)
qed auto

lemma applyRename_Inr:
  "applyRename from to state ev sc = Inr state' \<longleftrightarrow>
     (\<exists>f t. resolvePath from ev sc = Inr f \<and> resolvePath to ev sc = Inr t \<and>
        (getPath state f = Inr None \<and> state' = state \<or>
         (\<exists>v state1. getPath state f = Inr (Some v) \<and> getPath state t = Inr None \<and>
            setPath state t v = Inr state1 \<and> state' = deletePath state1 f)))"
proof (cases "resolvePath from ev sc")
  case (Inr f)
  then show ?thesis
  proof (cases "resolvePath to ev sc")
    case (Inr t)
    then show ?thesis using \<open>resolvePath from ev sc = Inr f\<close>
      by (auto simp: applyRename_def split: sum.split option.split)
  qed (simp add: applyRename_def)
qed (simp add: applyRename_def)

lemma resolvePath_nonempty: "resolvePath raw ev sc = Inr keys \<Longrightarrow> keys \<noteq> []"
  by (auto simp: resolvePath_def resolveSegments_def map_result_Inr split: sum.splits if_splits)

lemma lookup_wf: "lookup_in v p = Some w \<Longrightarrow> wf_value v \<Longrightarrow> wf_value w"
proof (induction v p rule: lookup_in.induct)
  case (2 m k ks)
  then show ?case using wf_map_lookup [of m k] by (auto simp del: wf_value.simps split: option.splits)
qed auto

lemma applyRename_wf:
  assumes "applyRename from to state ev sc = Inr state'" "wf_map state"
  shows "wf_map state'"
proof -
  have "wf_map (deletePath state1 f)"
    if "resolvePath from ev sc = Inr f" "getPath state f = Inr (Some v)" "setPath state t v = Inr state1"
    for f t v state1
  proof -
    have "lookup state f = Some v" using getPath_lookup [OF that(2)] resolvePath_nonempty [OF that(1)] by simp
    then have "wf_value v" using lookup_wf assms(2) by blast
    then show ?thesis using that(3) setLoop_wf assms(2) deletePath_wf unfolding setPath_def by blast
  qed
  then show ?thesis using assms unfolding applyRename_Inr by blast
qed

lemma applySet_wf:
  assumes "applySet path v state ev sc = Inr state'" "wf_map state" "wf_value v" "wf_evaluator ev" "wf_bindings sc"
  shows "wf_map state'"
proof -
  from assms(1) obtain keys val where "interpolateValue ev sc v = Inr val" "setPath state keys val = Inr state'"
    by (auto simp: applySet_def split: sum.splits)
  then show ?thesis using setLoop_wf interpolateValue_wf assms(2-5) unfolding setPath_def by blast
qed

lemma applyForeach_wf:
  assumes "evalCollection coll ev sc = Inr v" "iterItems v = Inr items" "wf_evaluator ev" "wf_bindings sc"
  shows "list_all wf_value items"
proof -
  have "wf_value v" using assms by (auto simp: evalCollection_def wf_evaluator_def split: if_splits)
  then show ?thesis using iterItems_wf assms(2) by blast
qed

lemma applyOps_wf:
  shows "applyOps ev ops loop state = Inr state' \<Longrightarrow> list_all wf_op ops \<Longrightarrow> wf_map state \<Longrightarrow>
      wf_map loop \<Longrightarrow> wf_evaluator ev \<Longrightarrow> wf_map state'"
    and "applyOp ev op loop state = Inr state' \<Longrightarrow> wf_op op \<Longrightarrow> wf_map state \<Longrightarrow>
      wf_map loop \<Longrightarrow> wf_evaluator ev \<Longrightarrow> wf_map state'"
    and "applyItems ev ops as items loop state = Inr state' \<Longrightarrow> list_all wf_op ops \<Longrightarrow> list_all wf_value items \<Longrightarrow>
      wf_map state \<Longrightarrow> wf_map loop \<Longrightarrow> wf_evaluator ev \<Longrightarrow> wf_map state'"
proof (induction ev ops loop state and ev op loop state and ev ops as items loop state
    arbitrary: state' and state' and state' rule: applyOps_applyOp_applyItems.induct)
  case (2 ev op ops loop state)
  then show ?case by (cases "applyOp ev op loop state") (simp_all del: wf_value.simps)
next
  case (3 ev "from" to loop state)
  then show ?case using applyRename_wf by (simp del: wf_value.simps)
next
  case (4 ev path v loop state)
  then show ?case using applySet_wf by (simp add: wf_bindings_def del: wf_value.simps)
next
  case (5 ev path loop state)
  then show ?case using deletePath_wf by (auto simp: applyDelete_def simp del: wf_value.simps split: sum.splits)
next
  case (6 ev coll as body loop state)
  from 6(2,3) obtain v items where v: "evalCollection coll ev \<lparr>scState = state, scLoop = loop\<rparr> = Inr v"
      "iterItems v = Inr items" "applyItems ev body as items loop state = Inr state'"
    by (auto split: sum.splits)
  then have "list_all wf_value items" using applyForeach_wf 6(4-6) by (simp add: wf_bindings_def del: wf_value.simps)
  then show ?case using 6 v by (simp del: wf_value.simps)
next
  case (9 ev body as item items loop state)
  have "wf_map (put as item loop)" using 9 wf_map_put by (simp del: wf_value.simps)
  then show ?case using 9
    by (cases "applyOps ev body (put as item loop) state") (simp_all del: wf_value.simps)
qed simp_all

section \<open>Runs of a chain\<close>

text \<open>The ladder goes on where it stopped: every step starts at the version the previous one led to.\<close>

definition contiguous :: "migration list \<Rightarrow> bool" where
  "contiguous = successively (\<lambda>a b. ToVersion a = FromVersion b)"

text \<open>
  What a chain means: each step maps the state by its transform, and is recorded with the state before
  and after it.
\<close>

inductive migrates :: "evaluator \<Rightarrow> gomap \<Rightarrow> migration list \<Rightarrow> step_snapshot list \<Rightarrow> gomap \<Rightarrow> bool" for ev where
  stop: "migrates ev s [] [] s"
| step: "applyOps ev (Transform m) [] s = Inr s' \<Longrightarrow> migrates ev s' ms snaps t \<Longrightarrow>
    migrates ev s (m # ms)
      (\<lparr>stepFrom = FromVersion m, stepTo = ToVersion m, StateBefore = deepCopyMap s, StateAfter = deepCopyMap s'\<rparr>
        # snaps) t"

inductive_simps migrates_Nil [simp]: "migrates ev s [] snaps t"
inductive_simps migrates_Cons: "migrates ev s (m # ms) snaps t"
inductive_cases migrates_ConsE: "migrates ev s (m # ms) snaps t"

lemma applyChain_exact:
  "applyChain ev prev cur steps chain = Inr res \<longleftrightarrow>
     (case prev of None \<Rightarrow> contiguous chain | Some p \<Rightarrow> contiguous (p # chain)) \<and>
     (\<exists>snaps. Steps res = steps @ snaps \<and> migrates ev cur chain snaps (FinalState res))"
proof (induction chain arbitrary: prev cur steps)
  case Nil
  then show ?case by (cases res) (auto simp: contiguous_def split: option.splits)
next
  case (Cons m ms)
  have c: "(case prev of None \<Rightarrow> contiguous (m # ms) | Some p \<Rightarrow> contiguous (p # m # ms)) \<longleftrightarrow>
      \<not> (case prev of None \<Rightarrow> False | Some p \<Rightarrow> ToVersion p \<noteq> FromVersion m) \<and> contiguous (m # ms)"
    by (auto simp: contiguous_def split: option.splits)
  show ?case
  proof (cases "applyOps ev (Transform m) [] cur")
    case (Inr cur')
    then show ?thesis unfolding c by (auto simp: Cons.IH migrates_Cons)
  qed (auto simp: migrates_Cons)
qed

lemma Apply_Inr:
  "Apply s chain ev = Inr res \<longleftrightarrow>
     contiguous chain \<and> migrates ev (deepCopyMap s) chain (Steps res) (FinalState res)"
  by (simp add: Apply_def applyChain_exact)

lemma migrates_history:
  "migrates ev s chain snaps t \<Longrightarrow>
     map (\<lambda>x. (stepFrom x, stepTo x)) snaps = map (\<lambda>m. (FromVersion m, ToVersion m)) chain \<and>
     successively (\<lambda>a b. StateAfter a = StateBefore b) snaps \<and>
     (snaps \<noteq> [] \<longrightarrow> StateBefore (hd snaps) = deepCopyMap s \<and> StateAfter (last snaps) = deepCopyMap t)"
  by (induction rule: migrates.induct) (auto simp: successively_Cons elim: migrates.cases)

lemma migrates_append:
  "migrates ev s c x u \<Longrightarrow> migrates ev u d y t \<Longrightarrow> migrates ev s (c @ d) (x @ y) t"
  by (induction rule: migrates.induct) (auto intro: migrates.step)

lemma migrates_det:
  "migrates ev s c x u \<Longrightarrow> migrates ev s c x' u' \<Longrightarrow> x' = x \<and> u' = u"
  by (induction arbitrary: x' rule: migrates.induct) (auto elim!: migrates_ConsE)

lemma migrates_split:
  "migrates ev s (c @ d) z t \<Longrightarrow> \<exists>x u y. migrates ev s c x u \<and> migrates ev u d y t"
proof (induction c arbitrary: s z)
  case (Cons m c)
  from Cons.prems obtain s' snaps where "applyOps ev (Transform m) [] s = Inr s'"
    and "migrates ev s' (c @ d) snaps t" by (auto elim: migrates_ConsE)
  then show ?case using Cons.IH migrates.step by blast
qed (use migrates.stop in auto)

text \<open>
  (C37) A run is the ladder: \<open>Apply\<close> returns a result exactly when the versions of the chain connect and
  every transform succeeds, and then the final state and the snapshots are those of applying the
  transforms one after the other to a copy of the input.
\<close>

theorem Apply_exact:
  "Apply s chain ev = Inr res \<longleftrightarrow>
     contiguous chain \<and> migrates ev (deepCopyMap s) chain (Steps res) (FinalState res)"
  by (rule Apply_Inr)

text \<open>
  The recorded history has no gap: one snapshot per step with the step's versions, the first one
  starts at the input, each one starts where the previous one ended, in version and in state, and the
  last one ends at the final state.
\<close>

theorem Apply_history:
  assumes "Apply s chain ev = Inr res"
  shows "map (\<lambda>x. (stepFrom x, stepTo x)) (Steps res) = map (\<lambda>m. (FromVersion m, ToVersion m)) chain
    \<and> successively (\<lambda>a b. stepTo a = stepFrom b \<and> StateAfter a = StateBefore b) (Steps res)
    \<and> (chain = [] \<or> StateBefore (hd (Steps res)) = deepCopyMap s
         \<and> StateAfter (last (Steps res)) = deepCopyMap (FinalState res))"
proof -
  note A = assms [unfolded Apply_Inr]
  note H = migrates_history [OF conjunct2 [OF A]]
  have "successively (\<lambda>a b. snd a = fst b) (map (\<lambda>x. (stepFrom x, stepTo x)) (Steps res))"
    using H A by (simp add: successively_map contiguous_def)
  then have v: "successively (\<lambda>a b. stepTo a = stepFrom b) (Steps res)" by (simp add: successively_map)
  have "Steps res \<noteq> []" if "chain \<noteq> []" using H that by force
  then show ?thesis using H successively_conj [OF v] by auto
qed

text \<open>A small ladder: the first step stores a number, the second one uses it as a key.\<close>

definition readN :: evaluator where
  "readN = \<lparr>
     Eval = (\<lambda>x sc. if x = ''state.n'' then (case map_of (scState sc) ''n'' of None \<Rightarrow> Inl ''no such key'' | Some v \<Rightarrow> Inr v)
       else Inl ''undeclared reference''),
     Interpolate = (\<lambda>x sc. Inl ''undeclared reference'')\<rparr>"

definition stepSet :: migration where
  "stepSet = \<lparr>FromVersion = 1, ToVersion = 2, migPath = ''migrations/002_n/main.yml'', Description = [],
     Transform = [SetOp ''state.n'' (VUint 5)]\<rparr>"

definition stepUse :: migration where
  "stepUse = \<lparr>FromVersion = 2, ToVersion = 3, migPath = ''migrations/003_slot/main.yml'', Description = [],
     Transform = [SetOp ''state.slot.${ state.n }'' (VBool True)]\<rparr>"

lemma path_n: "parsePath ''state.n'' = Inr [Literal ''n'']"
proof -
  have "trimSpace ''state.n'' = ''state.n''"
    by (rule trimSpace_visible) (auto simp: visible_def code_def)
  then show ?thesis by (simp add: parsePath_def parseSegs.simps(2))
qed

lemma path_slot: "parsePath ''state.slot.${ state.n }'' = Inr [Literal ''slot'', Expr ''state.n'']"
proof -
  have "trimSpace ''state.slot.${ state.n }'' = ''state.slot.${ state.n }''"
    by (rule trimSpace_visible) (auto simp: visible_def code_def)
  moreover have "trimSpace '' state.n '' = ''state.n''"
    by (simp add: trimSpace_def space_seqs_def trimLeft.simps)
  ultimately show ?thesis by (simp add: parsePath_def parseSegs.simps(2))
qed

lemma stepSet_run: "applyOps ev (Transform stepSet) [] state = Inr (put ''n'' (VUint 5) state)"
  by (simp add: stepSet_def applySet_def resolvePath_def path_n resolveSegments_def setPath_def)

lemma stepUse_run:
  "applyOps readN (Transform stepUse) [] state =
     (case map_of state ''n'' of
        None \<Rightarrow> Inl (EvalError ClassCELInterp [])
      | Some v \<Rightarrow> (case stringKey v of
          None \<Rightarrow> Inl (EvalError ClassPathSegment [])
        | Some key \<Rightarrow> setPath state [''slot'', key] (VBool True)))"
  by (simp add: stepUse_def applySet_def resolvePath_def path_slot resolveSegments_def readN_def
      split: option.split sum.split)

lemma showNat_5: "showNat 5 = ''5''"
  by code_simp

lemma ladder_runs: "\<exists>res. Apply [] [stepSet, stepUse] readN = Inr res \<and>
    FinalState res = [(''n'', VUint 5), (''slot'', VMap [(''5'', VBool True)])]"
proof -
  have "ToVersion stepSet = FromVersion stepUse" by (simp add: stepSet_def stepUse_def)
  then show ?thesis
    by (simp add: Apply_def deepCopyMap_def stepSet_run stepUse_run showNat_5 setPath_def)
qed

theorem Apply_history_witness:
  "\<exists>res. Apply [] [stepSet, stepUse] readN = Inr res \<and> map (\<lambda>x. (stepFrom x, stepTo x)) (Steps res) = [(1, 2), (2, 3)]"
proof -
  obtain res where "Apply [] [stepSet, stepUse] readN = Inr res" using ladder_runs by blast
  then show ?thesis using Apply_history [of "[]" "[stepSet, stepUse]" readN res]
    by (auto simp: stepSet_def stepUse_def)
qed

text \<open>
  Two runs in sequence are one run of the concatenated chain, as long as the state in between is what
  decoding JSON gives: storing and reloading it is then no change.
\<close>

lemma Apply_append:
  assumes "Apply s c ev = Inr r1" "json_value (VMap (FinalState r1))" "contiguous (c @ d)"
    "Apply (FinalState r1) d ev = Inr r2"
  shows "Apply s (c @ d) ev = Inr \<lparr>FinalState = FinalState r2, Steps = Steps r1 @ Steps r2\<rparr>"
  using assms migrates_append by (auto simp: Apply_Inr deepCopyMap_id)

end
