(* ===== verification/State_Migrate_Laws.thy ===== *)
theory State_Migrate_Laws
  imports State_Migrate
begin

text \<open>
  What the operations of a migration promise: the laws of rename and set on the state as a path store,
  the round trip of addresses, the fixed order of \<^verbatim>\<open>foreach\<close> over a map, and two places where the
  executor does not do what its documentation says.
\<close>

section \<open>Addresses\<close>

text \<open>The text of an address, and the segments that have one.\<close>

fun segText :: "path_segment \<Rightarrow> string" where
  "segText (Literal s) = s"
| "segText (Expr x) = ''${'' @ x @ ''}''"

definition addressText :: "path_segment list \<Rightarrow> string" where
  "addressText segs = ''state.'' @ join ''.'' (map segText segs)"

fun wf_segment :: "path_segment \<Rightarrow> bool" where
  "wf_segment (Literal s) \<longleftrightarrow> s \<noteq> [] \<and> list_all (\<lambda>c. c \<noteq> CHR ''.'' \<and> c \<noteq> CHR ''$'') s \<and> visible (last s)"
| "wf_segment (Expr x) \<longleftrightarrow> x \<noteq> [] \<and> trimSpace x = x \<and> CHR ''}'' \<notin> set x"

lemma str_index_byte: "c \<notin> set s \<Longrightarrow> str_index (s @ c # t) [c] = Some (length s)"
  by (induction s) auto

lemma parseSegs_literal:
  "list_all (\<lambda>c. c \<noteq> CHR ''.'' \<and> c \<noteq> CHR ''$'') s \<Longrightarrow> parseSegs cur (s @ rest) = parseSegs (cur @ s) rest"
  by (induction s arbitrary: cur) (auto simp: parseSegs.simps(2))

lemma parseSegs_expr:
  assumes "wf_segment (Expr x)"
  shows "parseSegs [] (segText (Expr x) @ rest) =
    (case rest of
       [] \<Rightarrow> Inr [Expr x]
     | d # rest' \<Rightarrow>
         if d \<noteq> CHR ''.'' \<or> rest' = [] then fieldMissing
         else case parseSegs [] rest' of Inl e \<Rightarrow> Inl e | Inr segs \<Rightarrow> Inr (Expr x # segs))"
proof -
  have "str_index (CHR ''$'' # CHR ''{'' # x @ CHR ''}'' # rest) ''}'' = Some (length x + 2)"
    using str_index_byte [of "CHR ''}''" "CHR ''$'' # CHR ''{'' # x" rest] assms by simp
  then show ?thesis using assms by (simp add: parseSegs.simps(2) split: list.split)
qed

lemma segText_nonempty: "wf_segment x \<Longrightarrow> segText x \<noteq> []"
  by (cases x) auto

lemma join_nonempty: "segs \<noteq> [] \<Longrightarrow> list_all wf_segment segs \<Longrightarrow> join ''.'' (map segText segs) \<noteq> []"
  using segText_nonempty by (cases segs; cases "tl segs") auto

lemma parseSegs_join:
  "segs \<noteq> [] \<Longrightarrow> list_all wf_segment segs \<Longrightarrow> parseSegs [] (join ''.'' (map segText segs)) = Inr segs"
proof (induction segs)
  case (Cons x segs)
  show ?case
  proof (cases "segs = []")
    case True
    then show ?thesis using Cons.prems parseSegs_expr [of _ "[]"] parseSegs_literal [of _ "[]" "[]"]
      by (cases x) auto
  next
    case False
    then obtain y ys where segs: "segs = y # ys" by (cases segs) auto
    let ?r = "join ''.'' (map segText segs)"
    have r: "?r \<noteq> []" "parseSegs [] ?r = Inr segs" using Cons False join_nonempty by auto
    have t: "join ''.'' (map segText (x # segs)) = segText x @ CHR ''.'' # ?r" by (simp add: segs)
    show ?thesis unfolding t
    proof (cases x)
      case (Literal s)
      then show "parseSegs [] (segText x @ CHR ''.'' # ?r) = Inr (x # segs)"
        using Cons.prems r parseSegs_literal [of s "[]" "CHR ''.'' # ?r"] by (simp add: parseSegs.simps(2))
    next
      case (Expr e)
      then show "parseSegs [] (segText x @ CHR ''.'' # ?r) = Inr (x # segs)"
        using Cons.prems r parseSegs_expr [of e "CHR ''.'' # ?r"] by simp
    qed
  qed
qed simp

lemma visible_state: "visible (CHR ''s'')" "visible (CHR ''}'')"
  by (simp_all add: visible_def code_def)

lemma last_join: "segs \<noteq> [] \<Longrightarrow> list_all wf_segment segs \<Longrightarrow> visible (last (join ''.'' (map segText segs)))"
proof (induction segs)
  case (Cons x segs)
  show ?case
  proof (cases segs)
    case Nil
    then show ?thesis using Cons.prems visible_state by (cases x) auto
  next
    case (Cons y ys)
    then show ?thesis using Cons.IH Cons.prems join_nonempty [of segs] by simp
  qed
qed simp

lemma parsePath_address:
  assumes "segs \<noteq> []" and "list_all wf_segment segs"
  shows "parsePath (addressText segs) = Inr segs"
proof -
  let ?b = "join ''.'' (map segText segs)"
  have b: "?b \<noteq> []" "visible (last ?b)" using assms join_nonempty last_join by auto
  have "trimSpace (addressText segs) = addressText segs"
    by (rule trimSpace_visible) (use b in \<open>simp_all add: addressText_def visible_state(1)\<close>)
  then show ?thesis using b parseSegs_join [OF assms]
    by (simp add: parsePath_def addressText_def)
qed

text \<open>
  An address written from its segments is read back as those segments, literals without dots and
  dollar signs, and expressions without a closing brace.
\<close>

theorem address_roundtrip:
  assumes "segs \<noteq> []" and "list_all wf_segment segs"
  shows "parsePath (addressText segs) = Inr segs"
  using assms by (rule parsePath_address)

theorem address_roundtrip_witness:
  "parsePath ''state.redis_users.${name}.perms'' = Inr [Literal ''redis_users'', Expr ''name'', Literal ''perms'']"
proof -
  have "trimSpace ''name'' = ''name''" by (rule trimSpace_visible) (auto simp: visible_def code_def)
  then show ?thesis
    using address_roundtrip [of "[Literal ''redis_users'', Expr ''name'', Literal ''perms'']"]
    by (simp add: addressText_def visible_def code_def)
qed

section \<open>Operations\<close>

text \<open>
  A rename between separate addresses is a move: the target was free, it now holds the value, the
  source is gone, and no other address changes.
\<close>

theorem rename_moves:
  assumes "applyRename from to state ev sc = Inr state'"
    and "resolvePath from ev sc = Inr f" and "resolvePath to ev sc = Inr t" and "f \<parallel> t"
    and "lookup state f = Some v"
  shows "lookup state t = None \<and> lookup state' t = Some v \<and> lookup state' f = None \<and>
    (\<forall>q. f \<parallel> q \<and> t \<parallel> q \<longrightarrow> lookup state' q = lookup state q)"
proof -
  have ne: "f \<noteq> []" "t \<noteq> []" using assms(2,3) resolvePath_nonempty by blast+
  obtain w state1 where w: "getPath state f = Inr (Some w)" "getPath state t = Inr None"
      "setPath state t w = Inr state1" "state' = deletePath state1 f"
    using assms(1,2,3,5) getPath_lookup [OF _ ne(1)] unfolding applyRename_Inr by force
  then have free: "lookup state t = None" and st: "storeAt state t v = Some state1"
    using getPath_lookup [OF w(1) ne(1)] getPath_lookup [OF w(2) ne(2)] assms(5) by (auto simp: storeAt_Some)
  show ?thesis
    using free tree.move_target [OF assms(4) st] tree.move_source [OF assms(4)] tree.move_frame [OF st]
    unfolding w(4) by blast
qed

definition noEval :: evaluator where
  "noEval = \<lparr>Eval = (\<lambda>_ _. Inl ''no expressions''), Interpolate = (\<lambda>_ _. Inl ''no expressions'')\<rparr>"

definition usersState :: gomap where
  "usersState = [(''users'', VMap [(''ann'', VBool True)]), (''port'', VInt 6379)]"

definition emptyScope :: scope where
  "emptyScope = \<lparr>scState = [], scLoop = []\<rparr>"

lemma resolve_literal:
  assumes "segs \<noteq> []" "list_all (\<lambda>s. wf_segment (Literal s)) segs"
  shows "resolvePath (addressText (map Literal segs)) ev sc = Inr segs"
proof -
  have "parsePath (addressText (map Literal segs)) = Inr (map Literal segs)"
    using assms by (intro parsePath_address) (auto simp: list_all_iff)
  moreover have "map_result (resolveSegment ev sc) (map Literal segs) = Inr segs"
    by (simp add: map_result_Inr list_all2_map1 list_all2_same)
  ultimately show ?thesis using assms(1) by (simp add: resolvePath_def resolveSegments_def)
qed

lemma resolve_users: "resolvePath ''state.users'' ev sc = Inr [''users'']"
    "resolvePath ''state.people'' ev sc = Inr [''people'']"
    "resolvePath ''state.users.old'' ev sc = Inr [''users'', ''old'']"
  using resolve_literal [of "[''users'']" ev sc] resolve_literal [of "[''people'']" ev sc]
    resolve_literal [of "[''users'', ''old'']" ev sc]
  by (simp_all add: addressText_def visible_def code_def)

theorem rename_moves_witness:
  "\<exists>state'. applyRename ''state.users'' ''state.people'' usersState noEval emptyScope = Inr state' \<and>
     lookup state' [''people''] = Some (VMap [(''ann'', VBool True)]) \<and> lookup state' [''users''] = None"
proof -
  have "[''users''] \<parallel> [''people'']" by (simp add: parallel_def)
  moreover obtain state' where s: "applyRename ''state.users'' ''state.people'' usersState noEval emptyScope = Inr state'"
    by (simp add: applyRename_def resolve_users getPath_def setPath_def usersState_def)
  ultimately show ?thesis
    using rename_moves [OF s resolve_users(1,2), of "VMap [(''ann'', VBool True)]"] by (auto simp: usersState_def)
qed

text \<open>
  A rename into the moved value's own subtree drops the value: the target is written inside the
  source and then removed with it. The operation succeeds, and both addresses are empty afterwards.
\<close>

theorem rename_into_itself_loses:
  assumes "applyRename from to state ev sc = Inr state'"
    and "resolvePath from ev sc = Inr f" and "resolvePath to ev sc = Inr t" and "strict_prefix f t"
    and "lookup state f = Some v"
  shows "lookup state' f = None \<and> lookup state' t = None \<and>
    (\<forall>q. f \<parallel> q \<longrightarrow> lookup state' q = lookup state q)"
proof -
  have ne: "f \<noteq> []" using assms(2) resolvePath_nonempty by blast
  obtain r where t: "t = f @ r" using assms(4) by (auto simp: strict_prefix_def prefix_def)
  obtain w state1 where w: "setPath state t w = Inr state1" "state' = deletePath state1 f"
    using assms(1,2,3,5) getPath_lookup [OF _ ne] unfolding applyRename_Inr by force
  have gone: "lookup state' f = None" using deletePath_gone [OF ne] w(2) by simp
  moreover have "lookup state' t = None" unfolding t lookup_in_append gone by simp
  moreover have "lookup state' q = lookup state q" if "f \<parallel> q" for q
  proof -
    have "t \<parallel> q" using that t parallel_append by (metis append_Nil2)
    then show ?thesis using setPath_apart [OF w(1)] deletePath_apart [OF that] w(2) by simp
  qed
  ultimately show ?thesis by blast
qed

theorem rename_into_itself_loses_witness:
  "\<exists>state'. applyRename ''state.users'' ''state.users.old'' usersState noEval emptyScope = Inr state' \<and>
     lookup state' [''users''] = None \<and> lookup state' [''users'', ''old''] = None"
proof -
  obtain state' where s: "applyRename ''state.users'' ''state.users.old'' usersState noEval emptyScope = Inr state'"
    by (simp add: applyRename_def resolve_users getPath_def setPath_def usersState_def)
  then show ?thesis
    using rename_into_itself_loses [OF s resolve_users(1,3), of "VMap [(''ann'', VBool True)]"]
    by (auto simp: usersState_def strict_prefix_def)
qed

text \<open>A value without a marker is written as it stands.\<close>

fun noMarker :: "go_value \<Rightarrow> bool" where
  "noMarker (VStr s) \<longleftrightarrow> \<not> str_contains s ''${''"
| "noMarker (VList xs) \<longleftrightarrow> list_all noMarker xs"
| "noMarker (VMap m) \<longleftrightarrow> list_all (\<lambda>e. noMarker (snd e)) m"
| "noMarker _ \<longleftrightarrow> True"

lemma interpolateValue_id: "noMarker v \<Longrightarrow> interpolateValue ev sc v = Inr v"
proof (induction ev sc v rule: interpolateValue.induct)
  case (1 ev sc m)
  then have "map_result (\<lambda>e. case interpolateValue ev sc (snd e) of Inl er \<Rightarrow> Inl er | Inr rv \<Rightarrow> Inr (fst e, rv)) m = Inr m"
    by (auto simp: map_result_Inr list_all_iff list_all2_same split: sum.splits)
  then show ?case by simp
next
  case (2 ev sc xs)
  then have "map_result (interpolateValue ev sc) xs = Inr xs"
    by (auto simp: map_result_Inr list_all_iff list_all2_same)
  then show ?case by simp
qed auto

text \<open>
  A set of a value without markers writes exactly it: the address and everything below it show the
  value, and every separate address is unchanged.
\<close>

theorem set_writes:
  assumes "applySet path v state ev sc = Inr state'" and "resolvePath path ev sc = Inr keys" and "noMarker v"
  shows "lookup state' (keys @ q) = lookup_in v q \<and> (keys \<parallel> q \<longrightarrow> lookup state' q = lookup state q)"
proof -
  have "setPath state keys v = Inr state'"
    using assms interpolateValue_id by (simp add: applySet_def)
  then show ?thesis
    using setPath_below resolvePath_nonempty [OF assms(2)] setPath_apart by blast
qed

theorem set_writes_witness:
  "\<exists>state'. applySet ''state.users'' (VMap [(''bob'', VBool False)]) usersState noEval emptyScope = Inr state' \<and>
     lookup state' [''users'', ''bob''] = Some (VBool False)"
proof -
  let ?v = "VMap [(''bob'', VBool False)]"
  obtain state' where s: "applySet ''state.users'' ?v usersState noEval emptyScope = Inr state'"
    by (simp add: applySet_def resolve_users setPath_def)
  then show ?thesis using set_writes [OF s resolve_users(1), of "[''bob'']"] by auto
qed

section \<open>Reproducibility\<close>

text \<open>
  A foreach over a map does not depend on the iteration order of Go: two presentations of one map
  give the same items in the same order, one per key.
\<close>

theorem iterItems_deterministic:
  assumes "distinct (map fst m)" and "distinct (map fst m')" and "map_of m = map_of m'"
  shows "iterItems (VMap m) = iterItems (VMap m') \<and>
    (\<exists>items. iterItems (VMap m) = Inr items \<and> length items = length m)"
proof -
  have "set (map fst m) = set (map fst m')"
    using assms(3) by (metis dom_map_of_conv_image_fst set_map)
  then have "sortedKeys m = sortedKeys m'"
    unfolding sortedKeys_def using assms(1,2)
    by (metis sorted_list_of_set_sort_remdups distinct_remdups_id)
  then show ?thesis using assms(3) by (simp add: sortedKeys_def) (metis length_map length_sort)
qed

theorem iterItems_deterministic_witness:
  "iterItems (VMap [(''b'', VInt 2), (''a'', VInt 1)]) = Inr [VInt 1, VInt 2]"
proof -
  have "map_of [(''b'', VInt 2), (''a'', VInt 1)] = map_of [(''a'', VInt 1), (''b'', VInt 2)]"
    by (auto simp: fun_eq_iff)
  then have "iterItems (VMap [(''b'', VInt 2), (''a'', VInt 1)]) = iterItems (VMap [(''a'', VInt 1), (''b'', VInt 2)])"
    using iterItems_deterministic [of "[(''b'', VInt 2), (''a'', VInt 1)]" "[(''a'', VInt 1), (''b'', VInt 2)]"]
    by simp
  moreover have "sortedKeys [(''a'', VInt 1), (''b'', VInt 2)] = [''a'', ''b'']"
    by (simp add: sortedKeys_def)
  ultimately show ?thesis by simp
qed

text \<open>
  A migration keeps the state well formed: with an evaluator that returns proper maps, every map of
  the final state has distinct keys, and every snapshot is what decoding JSON gives.
\<close>

theorem Apply_wf:
  assumes "Apply s chain ev = Inr res" and "wf_evaluator ev" and "wf_map s"
    and "list_all (\<lambda>m. list_all wf_op (Transform m)) chain"
  shows "wf_map (FinalState res) \<and>
    list_all (\<lambda>x. json_value (VMap (StateBefore x)) \<and> json_value (VMap (StateAfter x))) (Steps res)"
proof -
  have gen: "wf_map u \<Longrightarrow> list_all (\<lambda>m. list_all wf_op (Transform m)) c \<Longrightarrow> wf_map t \<and>
      list_all (\<lambda>x. json_value (VMap (StateBefore x)) \<and> json_value (VMap (StateAfter x))) snaps"
    if "migrates ev u c snaps t" for u c snaps t
    using that
  proof (induction rule: migrates.induct)
    case (step m s s' ms snaps t)
    then have "wf_map s'" using applyOps_wf(1) [of ev "Transform m" "[]" s s'] assms(2) by simp
    then show ?case using step deepCopyMap_json by (simp del: wf_value.simps json_value.simps)
  qed simp
  show ?thesis using gen deepCopyMap_wf assms(1,3,4) unfolding Apply_Inr by blast
qed

theorem Apply_wf_witness:
  "\<exists>res. Apply [] [stepSet, stepUse] readN = Inr res \<and> wf_map (FinalState res)"
proof -
  obtain res where res: "Apply [] [stepSet, stepUse] readN = Inr res" using ladder_runs by blast
  moreover have "wf_evaluator readN"
    using wf_map_lookup by (auto simp: wf_evaluator_def readN_def wf_bindings_def simp del: wf_value.simps split: if_splits option.splits)
  ultimately show ?thesis
    using Apply_wf [OF res] by (simp add: stepSet_def stepUse_def)
qed

text \<open>
  A ladder climbed in two runs can fail where one run succeeds: the first step stores the YAML
  integer 5 and the second uses it as a key. In one run the key is an integer; once the state has been
  stored and loaded as JSON it is a float64, which a path segment refuses.
\<close>

theorem two_runs_differ:
  "(\<exists>res. Apply [] [stepSet, stepUse] readN = Inr res) \<and>
   (\<exists>mid. Apply [] [stepSet] readN = Inr mid \<and>
      Apply (FinalState mid) [stepUse] readN = Inl (StepError 2 3 (EvalError ClassPathSegment [])))"
proof -
  have "\<exists>mid. Apply [] [stepSet] readN = Inr mid \<and> FinalState mid = [(''n'', VUint 5)]"
    by (simp add: Apply_def deepCopyMap_def stepSet_run)
  moreover have "Apply [(''n'', VUint 5)] [stepUse] readN = Inl (StepError 2 3 (EvalError ClassPathSegment []))"
  proof -
    have "FromVersion stepUse = 2" "ToVersion stepUse = 3" by (simp_all add: stepUse_def)
    then show ?thesis by (simp add: Apply_def deepCopyMap_def stepUse_run)
  qed
  ultimately show ?thesis using ladder_runs by fastforce
qed

end
