(* ===== verification/State_Migrate_Parse.thy ===== *)
theory State_Migrate_Parse
  imports State_Migrate_Laws
begin

text \<open>
  Reading a step document, \<^verbatim>\<open>keeper/internal/statemigrate/parse.go\<close>: the discrimination of operations, both
  forms of foreach and the refusal of version headers. Decoding YAML is the library's: \<^verbatim>\<open>yaml.Unmarshal\<close>
  is an argument of \<open>Parse\<close>.
\<close>

record raw_migration =
  rawFrom :: "int option"
  rawTo :: "int option"
  rawDescription :: string
  rawTransform :: "gomap list"

abbreviation discriminatorError :: "(migrate_error, 'a) result" where
  "discriminatorError \<equiv> Inl (ParseError CodeOpDiscriminator)"

definition opKeys :: "string list" where
  "opKeys = [''rename'', ''set'', ''delete'', ''move'', ''foreach'']"

definition foreachSiblings :: "string list" where
  "foreachSiblings = [''as'', ''do'', ''in'']"

definition stringField :: "gomap \<Rightarrow> string \<Rightarrow> string option" where
  "stringField m key = (case map_of m key of Some (VStr s) \<Rightarrow> Some s | _ \<Rightarrow> None)"

text \<open>The string \<^verbatim>\<open>s, _ = stringField(m, key)\<close> leaves: empty where there is none.\<close>

definition stringOrEmpty :: "gomap \<Rightarrow> string \<Rightarrow> string" where
  "stringOrEmpty m key = (case stringField m key of None \<Rightarrow> [] | Some s \<Rightarrow> s)"

fun toRename :: "go_value \<Rightarrow> (migrate_error, migrate_op) result" where
  "toRename (VMap m) =
     (case (stringField m ''from'', stringField m ''to'') of
        (Some from, Some to) \<Rightarrow> Inr (RenameOp from to)
      | _ \<Rightarrow> fieldMissing)"
| "toRename _ = fieldMissing"

fun toSet :: "go_value \<Rightarrow> (migrate_error, migrate_op) result" where
  "toSet (VMap m) =
     (case stringField m ''path'' of
        None \<Rightarrow> fieldMissing
      | Some path \<Rightarrow> (case map_of m ''value'' of
          None \<Rightarrow> fieldMissing
        | Some val \<Rightarrow> Inr (SetOp path val)))"
| "toSet _ = fieldMissing"

fun toDelete :: "go_value \<Rightarrow> (migrate_error, migrate_op) result" where
  "toDelete (VMap m) =
     (case stringField m ''path'' of None \<Rightarrow> fieldMissing | Some path \<Rightarrow> Inr (DeleteOp path))"
| "toDelete _ = fieldMissing"

text \<open>The loop over \<open>opKeys\<close> that finds the one discriminator.\<close>

fun discLoop :: "gomap \<Rightarrow> string \<Rightarrow> string list \<Rightarrow> (migrate_error, string) result" where
  "discLoop item disc [] = Inr disc"
| "discLoop item disc (k # ks) =
     (if map_of item k \<noteq> None
      then if disc \<noteq> [] then discriminatorError else discLoop item k ks
      else discLoop item disc ks)"

text \<open>
  The first part of \<open>toForeach\<close>: the expression, the variable and the raw body, from the short or the
  structural form.
\<close>

definition orSibling :: "string \<Rightarrow> gomap \<Rightarrow> string" where
  "orSibling coll item = (if coll = [] then stringOrEmpty item ''in'' else coll)"

definition foreachParts :: "gomap \<Rightarrow> (migrate_error, string \<times> string \<times> go_value option) result" where
  "foreachParts item =
     (if list_ex (\<lambda>e. fst e \<noteq> ''foreach'' \<and> fst e \<notin> set foreachSiblings) item then discriminatorError
      else case map_of item ''foreach'' of
        Some (VStr fv) \<Rightarrow> Inr (orSibling fv item, stringOrEmpty item ''as'', map_of item ''do'')
      | Some (VMap fv) \<Rightarrow>
          Inr (orSibling (stringOrEmpty fv ''in'') item,
               (case stringField fv ''as'' of Some a \<Rightarrow> a | None \<Rightarrow> stringOrEmpty item ''as''),
               (case map_of fv ''do'' of Some d \<Rightarrow> Some d | None \<Rightarrow> map_of item ''do''))
      | _ \<Rightarrow> fieldMissing)"

definition foreachHead :: "gomap \<Rightarrow> (migrate_error, string \<times> string \<times> go_value option) result" where
  "foreachHead item =
     (case foreachParts item of
        Inl e \<Rightarrow> Inl e
      | Inr (coll, as, body) \<Rightarrow>
          if coll = [] then fieldMissing
          else if as = [] then Inl (ParseError CodeForeachMissingAs)
          else Inr (coll, as, body))"

fun asMap :: "go_value \<Rightarrow> (migrate_error, gomap) result" where
  "asMap (VMap m) = Inr m"
| "asMap _ = fieldMissing"

fun doMaps :: "go_value option \<Rightarrow> (migrate_error, gomap list) result" where
  "doMaps (Some (VList xs)) = map_result asMap xs"
| "doMaps _ = fieldMissing"

text \<open>For the recursion: the operations of a body are smaller than the document that holds it.\<close>

lemma map_of_size: "map_of m k = Some v \<Longrightarrow> size v < size (VMap m)"
  using size_entry [of k v m] by (auto dest!: map_of_SomeD)

lemma asMap_Inr: "asMap v = Inr m \<longleftrightarrow> v = VMap m"
  by (cases v) auto

lemma doMaps_Inr: "doMaps d = Inr raw \<longleftrightarrow> d = Some (VList (map VMap raw))"
proof -
  have "map_result asMap xs = Inr raw \<longleftrightarrow> xs = map VMap raw" for xs
    by (auto simp: map_result_Inr asMap_Inr list_all2_conv_all_nth list_eq_iff_nth_eq)
  then show ?thesis by (cases d rule: doMaps.cases) auto
qed

lemma foreachHead_size:
  assumes "foreachHead item = Inr (coll, as, Some v)"
  shows "size v < size (VMap item)"
proof -
  have "map_of item ''do'' = Some v \<or> (\<exists>fv. map_of item ''foreach'' = Some (VMap fv) \<and> map_of fv ''do'' = Some v)"
    using assms by (auto simp: foreachHead_def foreachParts_def split: sum.splits if_splits option.splits go_value.splits)
  then show ?thesis using map_of_size less_trans by blast
qed

function (sequential)
  toOps :: "gomap list \<Rightarrow> (migrate_error, migrate_op list) result" and
  toOp :: "gomap \<Rightarrow> (migrate_error, migrate_op) result"
where
  "toOps [] = Inr []"
| "toOps (item # raw) =
     (case toOp item of
        Inl e \<Rightarrow> Inl e
      | Inr op \<Rightarrow> (case toOps raw of Inl e \<Rightarrow> Inl e | Inr ops \<Rightarrow> Inr (op # ops)))"
| "toOp item =
     (case discLoop item [] opKeys of
        Inl e \<Rightarrow> Inl e
      | Inr disc \<Rightarrow>
          if disc = [] then discriminatorError
          else if disc \<noteq> ''foreach'' \<and> list_ex (\<lambda>e. fst e \<noteq> disc) item then discriminatorError
          else if disc = ''foreach'' then
            (case foreachHead item of
               Inl e \<Rightarrow> Inl e
             | Inr (coll, as, body) \<Rightarrow> (case doMaps body of
                 Inl e \<Rightarrow> Inl e
               | Inr raw \<Rightarrow> (case toOps raw of Inl e \<Rightarrow> Inl e | Inr ops \<Rightarrow> Inr (ForeachOp coll as ops))))
          else (case map_of item disc of
              None \<Rightarrow> discriminatorError
            | Some v \<Rightarrow>
                if disc = ''set'' then toSet v
                else if disc = ''delete'' then toDelete v
                else toRename v))"
  by pat_completeness auto
termination
proof (relation "measure (\<lambda>x. case x of Inl raw \<Rightarrow> size (VList (map VMap raw)) | Inr item \<Rightarrow> size (VMap item))")
  fix item h coll rest as body raw and disc :: string
  assume "disc = ''foreach''" "foreachHead item = Inr h" "(coll, rest) = h" "(as, body) = rest" "doMaps body = Inr raw"
  then have "foreachHead item = Inr (coll, as, Some (VList (map VMap raw)))" by (auto simp: doMaps_Inr)
  from foreachHead_size [OF this]
  show "(Inl raw, Inr item) \<in> measure (\<lambda>x. case x of Inl raw \<Rightarrow> size (VList (map VMap raw)) | Inr item \<Rightarrow> size (VMap item))"
    by simp
qed simp_all

declare toOp.simps [simp del]

definition Parse :: "(string \<Rightarrow> (string, raw_migration) result) \<Rightarrow> string \<Rightarrow> int \<Rightarrow> string \<Rightarrow> (migrate_error, migration) result" where
  "Parse unmarshal data toVersion path =
     (if data = [] then Inl (ParseError CodeEmptyDocument)
      else case unmarshal data of
        Inl _ \<Rightarrow> Inl (ParseError CodeYAMLParse)
      | Inr rm \<Rightarrow>
          if rawFrom rm \<noteq> None \<or> rawTo rm \<noteq> None then Inl (ParseError CodeVersionKey)
          else case toOps (rawTransform rm) of
            Inl e \<Rightarrow> Inl e
          | Inr ops \<Rightarrow> Inr \<lparr>FromVersion = toVersion - 1, ToVersion = toVersion, migPath = path,
                           Description = rawDescription rm, Transform = ops\<rparr>)"

section \<open>What the parser returns\<close>

lemma foreachHead_wf:
  assumes "foreachHead item = Inr (coll, as, body)" "wf_map item" "doMaps body = Inr raw"
  shows "coll \<noteq> [] \<and> as \<noteq> [] \<and> list_all wf_map raw"
proof -
  have "map_of item ''do'' = Some (VList (map VMap raw)) \<or>
      (\<exists>fv. map_of item ''foreach'' = Some (VMap fv) \<and> map_of fv ''do'' = Some (VList (map VMap raw)))"
    using assms(1,3) by (auto simp: doMaps_Inr foreachHead_def foreachParts_def
        split: sum.splits if_splits option.splits go_value.splits)
  then have "wf_value (VList (map VMap raw))" using wf_map_lookup assms(2) by blast
  moreover have "coll \<noteq> [] \<and> as \<noteq> []" using assms(1) by (auto simp: foreachHead_def split: sum.splits if_splits)
  ultimately show ?thesis by (auto simp: list_all_iff)
qed

lemma simple_op_wf:
  "toSet v = Inr op \<Longrightarrow> wf_value v \<Longrightarrow> wf_op op"
  "toDelete v = Inr op \<Longrightarrow> wf_op op"
  "toRename v = Inr op \<Longrightarrow> wf_op op"
  using wf_map_lookup
  by (cases v; fastforce simp del: wf_value.simps split: option.splits)+

lemma toOps_wf:
  shows "toOps raw = Inr ops \<Longrightarrow> list_all wf_map raw \<Longrightarrow> list_all wf_op ops"
    and "toOp item = Inr op \<Longrightarrow> wf_map item \<Longrightarrow> wf_op op"
proof (induction raw and item arbitrary: ops and op rule: toOps_toOp.induct)
  case (2 item raw)
  then show ?case by (auto simp del: wf_value.simps split: sum.splits)
next
  case (3 item)
  from 3(2) obtain disc where disc: "discLoop item [] opKeys = Inr disc" "disc \<noteq> []"
    by (auto simp: toOp.simps [of item] split: sum.splits if_splits)
  show ?case
  proof (cases "disc = ''foreach''")
    case True
    with 3(2) disc obtain coll as body raw ops where b: "foreachHead item = Inr (coll, as, body)"
        "doMaps body = Inr raw" "toOps raw = Inr ops" "op = ForeachOp coll as ops"
      by (auto simp: toOp.simps [of item] split: sum.splits)
    then show ?thesis using foreachHead_wf [OF b(1) 3(3) b(2)] 3(1) disc True by simp
  next
    case False
    with 3(2) disc obtain v where "map_of item disc = Some v"
        "op \<in> {op. toSet v = Inr op \<or> toDelete v = Inr op \<or> toRename v = Inr op}"
      by (auto simp: toOp.simps [of item] split: if_splits option.splits)
    then show ?thesis using simple_op_wf wf_map_lookup [OF 3(3)] by auto
  qed
qed simp

text \<open>
  Steps read from a ladder of directories numbered without a gap connect, so a run over them never
  fails for their versions; and no operation the parser returns is the empty one or a foreach without a
  variable, which the executor could only refuse.
\<close>

theorem parsed_ladder:
  assumes "list_all2 (\<lambda>(data, path, n) m. Parse unmarshal data n path = Inr m) docs chain"
    and "map (\<lambda>(data, path, n). n) docs = [from + 1 .. from + int (length docs)]"
    and "\<forall>data rm. unmarshal data = Inr rm \<longrightarrow> list_all wf_map (rawTransform rm)"
  shows "contiguous chain \<and> list_all (\<lambda>m. list_all wf_op (Transform m)) chain"
proof -
  have step: "ToVersion m = n \<and> FromVersion m = n - 1 \<and> list_all wf_op (Transform m)"
    if "Parse unmarshal data n path = Inr m" for data n path m
    using that assms(3) toOps_wf(1) by (fastforce simp: Parse_def split: if_splits sum.splits)
  have len: "length chain = length docs" using assms(1) by (simp add: list_all2_lengthD)
  have at: "ToVersion (chain ! i) = from + 1 + int i \<and> FromVersion (chain ! i) = from + int i
      \<and> list_all wf_op (Transform (chain ! i))" if "i < length chain" for i
  proof -
    obtain data path n where d: "docs ! i = (data, path, n)" by (cases "docs ! i") auto
    have "n = map (\<lambda>(data, path, n). n) docs ! i" using that len d by simp
    then have "n = from + 1 + int i" using that len unfolding assms(2) by simp
    moreover have "Parse unmarshal data n path = Inr (chain ! i)"
      using assms(1) that len d by (auto simp: list_all2_conv_all_nth)
    ultimately show ?thesis using step [of data n path "chain ! i"] by simp
  qed
  then have "contiguous chain" by (simp add: contiguous_def successively_conv_nth)
  with at show ?thesis by (simp add: list_all_length)
qed

definition deleteDoc :: raw_migration where
  "deleteDoc = \<lparr>rawFrom = None, rawTo = None, rawDescription = [],
     rawTransform = [[(''delete'', VMap [(''path'', VStr ''state.old'')])]]\<rparr>"

definition deleteStep :: "int \<Rightarrow> migration" where
  "deleteStep n = \<lparr>FromVersion = n - 1, ToVersion = n, migPath = ''main.yml'', Description = [],
     Transform = [DeleteOp ''state.old'']\<rparr>"

theorem parsed_ladder_witness: "contiguous [deleteStep 2, deleteStep 3]"
proof -
  let ?u = "\<lambda>_. Inr deleteDoc"
  have "Parse ?u ''x'' n ''main.yml'' = Inr (deleteStep n)" for n
    by (simp add: Parse_def deleteDoc_def deleteStep_def toOp.simps opKeys_def stringField_def)
  then have "list_all2 (\<lambda>(data, path, n) m. Parse ?u data n path = Inr m)
      [(''x'', ''main.yml'', 2), (''x'', ''main.yml'', 3)] [deleteStep 2, deleteStep 3]" by simp
  moreover have "[1 + 1 .. 1 + int (length [(''x'', ''main.yml'', 2), (''x'', ''main.yml'', 3 :: int)])] = [2, 3 :: int]"
    by (simp add: upto.simps)
  ultimately show ?thesis
    using parsed_ladder [of ?u "[(''x'', ''main.yml'', 2), (''x'', ''main.yml'', 3)]" "[deleteStep 2, deleteStep 3]" 1]
    by (auto simp: deleteDoc_def)
qed

section \<open>Documents of operations\<close>

fun opDoc :: "migrate_op \<Rightarrow> gomap" where
  "opDoc (RenameOp from to) = [(''rename'', VMap [(''from'', VStr from), (''to'', VStr to)])]"
| "opDoc (SetOp path v) = [(''set'', VMap [(''path'', VStr path), (''value'', v)])]"
| "opDoc (DeleteOp path) = [(''delete'', VMap [(''path'', VStr path)])]"
| "opDoc (ForeachOp coll as body) =
     [(''foreach'', VStr coll), (''as'', VStr as), (''do'', VList (map (\<lambda>op. VMap (opDoc op)) body))]"
| "opDoc NoOp = []"

fun documented :: "migrate_op \<Rightarrow> bool" where
  "documented (ForeachOp coll as body) \<longleftrightarrow> coll \<noteq> [] \<and> as \<noteq> [] \<and> list_all documented body"
| "documented NoOp \<longleftrightarrow> False"
| "documented _ \<longleftrightarrow> True"

lemma toOps_map: "(\<And>op. op \<in> set ops \<Longrightarrow> toOp (opDoc op) = Inr op) \<Longrightarrow> toOps (map opDoc ops) = Inr ops"
  by (induction ops) auto

lemma toOp_doc: "documented op \<Longrightarrow> toOp (opDoc op) = Inr op"
proof (induction op)
  case (ForeachOp coll as body)
  let ?item = "opDoc (ForeachOp coll as body)"
  have "toOps (map opDoc body) = Inr body"
    using ForeachOp by (intro toOps_map) (auto simp: list_all_iff)
  moreover have "foreachHead ?item = Inr (coll, as, Some (VList (map VMap (map opDoc body))))"
    using ForeachOp.prems
    by (simp add: foreachHead_def foreachParts_def foreachSiblings_def orSibling_def stringOrEmpty_def stringField_def)
  moreover have "doMaps (Some (VList (map VMap (map opDoc body)))) = Inr (map opDoc body)"
    by (simp only: doMaps_Inr)
  ultimately show ?case
    by (simp add: toOp.simps opKeys_def del: doMaps.simps)
qed (auto simp: toOp.simps opKeys_def stringField_def)

text \<open>
  Every transform has a document: written out operation by operation it is read back as it was, nested
  loops included.
\<close>

theorem transform_roundtrip:
  assumes "list_all documented ops"
  shows "toOps (map opDoc ops) = Inr ops"
  using assms toOp_doc by (intro toOps_map) (auto simp: list_all_iff)

definition loopOp :: migrate_op where
  "loopOp = ForeachOp ''${ state.users }'' ''u'' [RenameOp ''state.a'' ''state.b'', SetOp ''state.c'' (VStr ''${ u }'')]"

theorem transform_roundtrip_witness: "toOps [opDoc loopOp] = Inr [loopOp]"
  using transform_roundtrip [of "[loopOp]"] by (simp add: loopOp_def)

end
