(* ===== verification/Secret_Field.thy ===== *)
theory Secret_Field
  imports State_Value
begin

text \<open>
  Secrets declared in a service's state_schema, \<^verbatim>\<open>shared/config/secret_field.go\<close>, with the reserved names of
  \<^verbatim>\<open>reserved_namespace.go\<close> and the namespace fence of \<^verbatim>\<open>vault_namespace.go\<close>: the derivation of Vault paths, the
  collection of declarations from a schema, and the removal of declared values from a state record.

  An issue is its path and code; message and hint texts are left out. \<open>foldReserved\<close> lowers ASCII
  letters, which is all of \<^verbatim>\<open>strings.ToLower\<close> on a name made of path-segment bytes; every caller refuses
  any other name.
\<close>

section \<open>Schemas\<close>

text \<open>
  A node of the input dialect: its keys, and the schemas under it. A nil pointer is \<open>None\<close>;
  \<open>AdditionalProperties\<close> is nil, a bool or a schema. Of \<open>Default\<close>, \<open>Source\<close> and the AST node of
  \<^verbatim>\<open>required:\<close> only presence matters here.
\<close>

record schema_keys =
  Type :: string
  DefaultSet :: bool
  Enum :: "go_value list"
  Secret :: bool
  SchemaDescription :: string
  Required :: bool
  RequiredWhen :: string
  PrefillFromState :: string
  rawRequiredSet :: bool
  Pattern :: string
  Format :: string
  MinLength :: "int option"
  MaxLength :: "int option"
  AllowEmpty :: bool
  VaultScope :: string
  MinValue :: "float64 option"
  MaxValue :: "float64 option"
  ExclusiveMin :: "float64 option"
  ExclusiveMax :: "float64 option"
  MinItems :: "int option"
  MaxItems :: "int option"
  Unique :: bool
  Key :: string
  Label :: string
  SourceSet :: bool
  TypeRef :: string

datatype input_schema = InputSchema
  (keys: schema_keys)
  (Items: "input_schema option")
  (Properties: "(string \<times> input_schema option) list")
  (AdditionalProperties: "(bool + input_schema) option")

type_synonym schema_map = "(string \<times> input_schema option) list"

text \<open>The node under a name: \<^verbatim>\<open>m[name]\<close>, with a missing key and a nil pointer alike.\<close>

definition entry :: "schema_map \<Rightarrow> string \<Rightarrow> input_schema option" where
  "entry m name = (case map_of m name of None \<Rightarrow> None | Some s \<Rightarrow> s)"

lemma entry_mem: "entry m name = Some s \<Longrightarrow> (name, Some s) \<in> set m"
  by (auto simp: entry_def split: option.splits dest: map_of_SomeD)

definition SecretTypeName :: string where
  "SecretTypeName = ''secret''"

definition ScalarSecretVaultField :: string where
  "ScalarSecretVaultField = ''value''"

section \<open>Reserved names and path segments\<close>

definition defaultVaultMount :: string where
  "defaultVaultMount = ''secret''"

definition segmentByte :: "char \<Rightarrow> bool" where
  "segmentByte c \<longleftrightarrow> is_lower c \<or> is_upper c \<or> is_digit c \<or> c = CHR ''_'' \<or> c = CHR ''-''"

definition ValidVaultPathSegment :: "string \<Rightarrow> bool" where
  "ValidVaultPathSegment s \<longleftrightarrow> s \<noteq> [] \<and> list_all segmentByte s"

definition trimByte :: "char \<Rightarrow> string \<Rightarrow> string" where
  "trimByte c s = rev (dropWhile ((=) c) (rev (dropWhile ((=) c) s)))"

definition EffectiveVaultMount :: "string \<Rightarrow> string" where
  "EffectiveVaultMount mount =
     (let mount' = trimByte CHR ''/'' mount in if mount' = [] then defaultVaultMount else mount')"

definition reservedVaultNamespaces :: "string list" where
  "reservedVaultNamespaces = [''keeper'', ''herald'', ''provider'', ''internal'']"

definition reservedStateFields :: "string list" where
  "reservedStateFields = [''tls'']"

definition foldReserved :: "string \<Rightarrow> string" where
  "foldReserved name = map ascii_lower (trimSpace name)"

definition IsReservedVaultNamespace :: "string \<Rightarrow> bool" where
  "IsReservedVaultNamespace name \<longleftrightarrow> foldReserved name \<in> set reservedVaultNamespaces"

definition IsReservedStateField :: "string \<Rightarrow> bool" where
  "IsReservedStateField name \<longleftrightarrow> foldReserved name \<in> set reservedStateFields"

definition vaultRefMarker :: string where
  "vaultRefMarker = ''vault:''"

text \<open>
  The segments of a logical path as the Vault client sees them: marker and field selector stripped,
  empty and \<^verbatim>\<open>.\<close> segments dropped. Both predicates below start with it.
\<close>

definition clientSegments :: "string \<Rightarrow> string list" where
  "clientSegments p =
     (let p1 = (if hasPrefix p vaultRefMarker then drop (length vaultRefMarker) p else p);
          p2 = (case str_index p1 ''#'' of None \<Rightarrow> p1 | Some i \<Rightarrow> take i p1)
      in filter (\<lambda>seg. seg \<noteq> [] \<and> seg \<noteq> ''.'') (split_on CHR ''/'' p2))"

definition PathUnderReservedNamespace :: "string \<Rightarrow> bool" where
  "PathUnderReservedNamespace p \<longleftrightarrow> list_ex IsReservedVaultNamespace (take 2 (clientSegments p))"

definition PathAddressesOwnNamespace :: "string \<Rightarrow> string \<Rightarrow> bool" where
  "PathAddressesOwnNamespace p service \<longleftrightarrow>
     service \<noteq> [] \<and>
     (case clientSegments p of a # b # _ \<Rightarrow> a = service \<or> b = service | _ \<Rightarrow> False)"

section \<open>Derived paths\<close>

record secret_field =
  sfState :: string
  sfProperty :: string
  sfKey :: string
  sfLabel :: string
  sfPath :: string

definition Collection :: "secret_field \<Rightarrow> bool" where
  "Collection f \<longleftrightarrow> sfKey f \<noteq> []"

definition ID :: "secret_field \<Rightarrow> string" where
  "ID f = (if sfProperty f = [] then sfState f else sfState f @ ''.'' @ sfProperty f)"

definition VaultField :: "secret_field \<Rightarrow> string" where
  "VaultField f = (if sfProperty f = [] then ScalarSecretVaultField else sfProperty f)"

datatype vault_error = ReservedNamespace string | UnsafeSegment string string | KeyRequired string

text \<open>The loop over named segments that refuses the first unsafe one.\<close>

definition safeSegments :: "(string \<times> string) list \<Rightarrow> (vault_error, string list) result" where
  "safeSegments = map_result (\<lambda>s. if ValidVaultPathSegment (snd s) then Inr (snd s) else Inl (UnsafeSegment (fst s) (snd s)))"

definition IncarnationVaultPrefix :: "string \<Rightarrow> string \<Rightarrow> string \<Rightarrow> (vault_error, string) result" where
  "IncarnationVaultPrefix mount service incarnation =
     (if IsReservedVaultNamespace service then Inl (ReservedNamespace service)
      else case safeSegments [(''mount'', EffectiveVaultMount mount), (''service'', service), (''incarnation'', incarnation)] of
        Inl e \<Rightarrow> Inl e
      | Inr out \<Rightarrow> Inr (join ''/'' out))"

definition VaultPath :: "secret_field \<Rightarrow> string \<Rightarrow> string \<Rightarrow> string \<Rightarrow> string \<Rightarrow> (vault_error, string) result" where
  "VaultPath f mount service incarnation key =
     (case IncarnationVaultPrefix mount service incarnation of
        Inl e \<Rightarrow> Inl e
      | Inr base \<Rightarrow>
          if Collection f \<and> key = [] then Inl (KeyRequired (ID f))
          else case safeSegments ((''state field'', sfState f) # (if Collection f then [(''key'', key)] else [])) of
            Inl e \<Rightarrow> Inl e
          | Inr segs \<Rightarrow> Inr (join ''/'' (base # segs)))"

definition VaultRef :: "secret_field \<Rightarrow> string \<Rightarrow> string \<Rightarrow> string \<Rightarrow> string \<Rightarrow> (vault_error, string) result" where
  "VaultRef f mount service incarnation key =
     (case VaultPath f mount service incarnation key of
        Inl e \<Rightarrow> Inl e
      | Inr path \<Rightarrow> Inr (''vault:'' @ path @ ''#'' @ VaultField f))"

section \<open>Derived paths are apart\<close>

lemma segment_bytes: "segmentByte c \<Longrightarrow> c \<noteq> CHR ''/'' \<and> c \<noteq> CHR ''#'' \<and> c \<noteq> CHR ''.'' \<and> c \<noteq> CHR '':'' \<and> visible c"
  by (auto simp: segmentByte_def is_lower_def is_upper_def is_digit_def byte_in_def visible_def code_def)

lemma segment_clean:
  assumes "ValidVaultPathSegment s"
  shows "s \<noteq> []" "CHR ''/'' \<notin> set s" "CHR ''#'' \<notin> set s" "CHR ''.'' \<notin> set s" "CHR '':'' \<notin> set s"
  using assms segment_bytes by (auto simp: ValidVaultPathSegment_def list_all_iff)

text \<open>The segments a path is made of.\<close>

definition pathSegments :: "secret_field \<Rightarrow> string \<Rightarrow> string \<Rightarrow> string \<Rightarrow> string \<Rightarrow> string list" where
  "pathSegments f mount service incarnation key =
     [EffectiveVaultMount mount, service, incarnation, sfState f] @ (if Collection f then [key] else [])"

lemma VaultPath_Inr:
  "VaultPath f mount service incarnation key = Inr p \<longleftrightarrow>
     \<not> IsReservedVaultNamespace service \<and>
     list_all ValidVaultPathSegment (pathSegments f mount service incarnation key) \<and>
     p = join ''/'' (pathSegments f mount service incarnation key)"
proof -
  have "Collection f \<Longrightarrow> ValidVaultPathSegment key \<Longrightarrow> key \<noteq> []" using segment_clean by blast
  then show ?thesis
    by (auto simp: VaultPath_def IncarnationVaultPrefix_def safeSegments_def pathSegments_def)
qed

lemma VaultPath_split:
  assumes "VaultPath f mount service incarnation key = Inr p"
  shows "split_on CHR ''/'' p = pathSegments f mount service incarnation key"
proof -
  have "list_all (\<lambda>x. CHR ''/'' \<notin> set x) (pathSegments f mount service incarnation key)"
    using assms segment_clean(2) unfolding VaultPath_Inr by (auto simp: list_all_iff)
  moreover have "pathSegments f mount service incarnation key \<noteq> []" by (simp add: pathSegments_def)
  ultimately show ?thesis using assms split_on_join [of _ "CHR ''/''"] unfolding VaultPath_Inr by blast
qed

lemma join_set: "x \<in> set (join sep xs) \<Longrightarrow> x \<in> set sep \<or> (\<exists>y \<in> set xs. x \<in> set y)"
  by (induction sep xs rule: join.induct) auto

lemma VaultPath_bytes:
  assumes "VaultPath f mount service incarnation key = Inr p"
  shows "CHR ''#'' \<notin> set p" "CHR '':'' \<notin> set p"
  using assms segment_clean(3,5) join_set [of _ "''/''"] unfolding VaultPath_Inr
  by (fastforce simp: list_all_iff)+

lemma no_marker: "CHR '':'' \<notin> set p \<Longrightarrow> \<not> hasPrefix p vaultRefMarker"
  by (auto simp: hasPrefix_iff vaultRefMarker_def)

lemma str_index_absent: "c \<notin> set s \<Longrightarrow> str_index s [c] = None"
  by (induction s) auto

lemma str_index_at: "c \<notin> set s \<Longrightarrow> str_index (s @ c # t) [c] = Some (length s)"
  by (induction s) auto

text \<open>A derived path, alone or inside its reference, reaches the client as its own segments.\<close>

lemma clientSegments_derived:
  assumes "VaultPath f mount service incarnation key = Inr p"
  shows "clientSegments p = pathSegments f mount service incarnation key"
    and "clientSegments (''vault:'' @ p @ ''#'' @ field) = pathSegments f mount service incarnation key"
proof -
  let ?segs = "pathSegments f mount service incarnation key"
  have "filter (\<lambda>seg. seg \<noteq> [] \<and> seg \<noteq> ''.'') ?segs = ?segs"
    using assms segment_clean(1,4) unfolding VaultPath_Inr
    by (intro filter_True) (fastforce simp: list_all_iff)
  then have split: "filter (\<lambda>seg. seg \<noteq> [] \<and> seg \<noteq> ''.'') (split_on CHR ''/'' p) = ?segs"
    using VaultPath_split [OF assms] by simp
  show "clientSegments p = ?segs"
    using split VaultPath_bytes [OF assms] no_marker str_index_absent by (simp add: clientSegments_def)
  show "clientSegments (''vault:'' @ p @ ''#'' @ field) = ?segs"
    using split str_index_at [OF VaultPath_bytes(1) [OF assms]]
    by (simp add: clientSegments_def vaultRefMarker_def hasPrefix_iff)
qed

text \<open>
  (C25) Secrets never share a place: if two derivations under one mount give the same reference, they are
  for the same service, incarnation, state field, element key and property. So no element of a
  collection and no other service or incarnation can be made to read or overwrite it, whatever the key
  holds.
\<close>

theorem VaultRef_injective:
  assumes "VaultRef f mount service incarnation key = Inr r" and "VaultRef f' mount service' incarnation' key' = Inr r"
  shows "service = service' \<and> incarnation = incarnation' \<and> sfState f = sfState f' \<and>
    Collection f = Collection f' \<and> (Collection f \<longrightarrow> key = key') \<and> VaultField f = VaultField f'"
proof -
  obtain p where p: "VaultPath f mount service incarnation key = Inr p" "r = ''vault:'' @ p @ ''#'' @ VaultField f"
    using assms(1) by (auto simp: VaultRef_def split: sum.splits)
  obtain q where q: "VaultPath f' mount service' incarnation' key' = Inr q" "r = ''vault:'' @ q @ ''#'' @ VaultField f'"
    using assms(2) by (auto simp: VaultRef_def split: sum.splits)
  have eq: "p @ CHR ''#'' # VaultField f = q @ CHR ''#'' # VaultField f'" using p(2) q(2) by simp
  then have "str_index (p @ CHR ''#'' # VaultField f) ''#'' = Some (length q)"
    using str_index_at [OF VaultPath_bytes(1) [OF q(1)]] by simp
  then have "length p = length q" using str_index_at [OF VaultPath_bytes(1) [OF p(1)]] by simp
  with eq have pq: "p = q" and fields: "VaultField f = VaultField f'" by auto
  have "pathSegments f mount service incarnation key = pathSegments f' mount service' incarnation' key'"
    using VaultPath_split [OF p(1)] VaultPath_split [OF q(1)] pq by simp
  with fields show ?thesis by (auto simp: pathSegments_def split: if_splits)
qed

definition usersPassword :: secret_field where
  "usersPassword = \<lparr>sfState = ''users'', sfProperty = ''password'', sfKey = ''name'', sfLabel = [],
     sfPath = ''.users.items.properties.password''\<rparr>"

lemma sample_ref: "VaultRef usersPassword [] ''redis'' ''prod'' ''ann'' = Inr ''vault:secret/redis/prod/users/ann#password''"
proof -
  have "trimSpace ''redis'' = ''redis''" by (rule trimSpace_visible) (auto simp: visible_def code_def)
  then have "\<not> IsReservedVaultNamespace ''redis''"
    by (simp add: IsReservedVaultNamespace_def foldReserved_def reservedVaultNamespaces_def ascii_lower_def
        is_upper_def byte_in_def code_def)
  then have "VaultPath usersPassword [] ''redis'' ''prod'' ''ann'' = Inr ''secret/redis/prod/users/ann''"
    unfolding VaultPath_Inr
    by (simp add: pathSegments_def EffectiveVaultMount_def trimByte_def defaultVaultMount_def usersPassword_def
        Collection_def ValidVaultPathSegment_def segmentByte_def is_lower_def byte_in_def code_def)
  then show ?thesis by (simp add: VaultRef_def VaultField_def usersPassword_def)
qed

theorem VaultRef_injective_witness:
  "''redis'' = ''redis'' \<and> VaultField usersPassword = ''password'' \<and>
   VaultRef usersPassword [] ''redis'' ''prod'' ''ann'' \<noteq> VaultRef usersPassword [] ''redis'' ''prod'' ''bob''"
  using sample_ref VaultRef_injective [OF sample_ref, of usersPassword "''redis''" "''prod''" "''bob''"]
  by (auto simp: usersPassword_def Collection_def VaultField_def)

text \<open>
  Every derived reference is inside the fence: the scan that keeps authored paths out of the
  service's namespace recognises it, and, unless the mount itself has a reserved name, it is not under a
  namespace the platform writes to.
\<close>

theorem VaultRef_fenced:
  assumes "VaultRef f mount service incarnation key = Inr r"
  shows "PathAddressesOwnNamespace r service \<and>
    (PathUnderReservedNamespace r \<longleftrightarrow> IsReservedVaultNamespace (EffectiveVaultMount mount))"
proof -
  obtain p where p: "VaultPath f mount service incarnation key = Inr p" "r = ''vault:'' @ p @ ''#'' @ VaultField f"
    using assms by (auto simp: VaultRef_def split: sum.splits)
  have "clientSegments r = pathSegments f mount service incarnation key"
    using clientSegments_derived(2) [OF p(1)] p(2) by simp
  moreover have "service \<noteq> []" "\<not> IsReservedVaultNamespace service"
    using p(1) segment_clean(1) unfolding VaultPath_Inr by (auto simp: pathSegments_def)
  ultimately show ?thesis
    by (auto simp: PathAddressesOwnNamespace_def PathUnderReservedNamespace_def pathSegments_def)
qed

theorem VaultRef_fenced_witness:
  "PathAddressesOwnNamespace ''vault:secret/redis/prod/users/ann#password'' ''redis''"
  using VaultRef_fenced [OF sample_ref] by simp

section \<open>Declarations in a schema\<close>

record secret_issue =
  issuePath :: string
  issueCode :: string

abbreviation typeOf :: "input_schema \<Rightarrow> string" where
  "typeOf s \<equiv> Type (keys s)"

definition secretNodeForbidden :: "(string \<times> (input_schema \<Rightarrow> bool)) list" where
  "secretNodeForbidden =
    [(''$type'', \<lambda>s. TypeRef (keys s) \<noteq> []),
     (''additional_properties'', \<lambda>s. AdditionalProperties s \<noteq> None),
     (''allow_empty'', \<lambda>s. AllowEmpty (keys s)),
     (''default'', \<lambda>s. DefaultSet (keys s)),
     (''description'', \<lambda>s. SchemaDescription (keys s) \<noteq> []),
     (''enum'', \<lambda>s. Enum (keys s) \<noteq> []),
     (''exclusive_max'', \<lambda>s. ExclusiveMax (keys s) \<noteq> None),
     (''exclusive_min'', \<lambda>s. ExclusiveMin (keys s) \<noteq> None),
     (''format'', \<lambda>s. Format (keys s) \<noteq> []),
     (''items'', \<lambda>s. Items s \<noteq> None),
     (''max'', \<lambda>s. MaxValue (keys s) \<noteq> None),
     (''max_items'', \<lambda>s. MaxItems (keys s) \<noteq> None),
     (''max_length'', \<lambda>s. MaxLength (keys s) \<noteq> None),
     (''min'', \<lambda>s. MinValue (keys s) \<noteq> None),
     (''min_items'', \<lambda>s. MinItems (keys s) \<noteq> None),
     (''min_length'', \<lambda>s. MinLength (keys s) \<noteq> None),
     (''pattern'', \<lambda>s. Pattern (keys s) \<noteq> []),
     (''prefill_from_state'', \<lambda>s. PrefillFromState (keys s) \<noteq> []),
     (''properties'', \<lambda>s. Properties s \<noteq> []),
     (''required_when'', \<lambda>s. RequiredWhen (keys s) \<noteq> []),
     (''secret'', \<lambda>s. Secret (keys s)),
     (''source'', \<lambda>s. SourceSet (keys s)),
     (''unique'', \<lambda>s. Unique (keys s)),
     (''vault_scope'', \<lambda>s. VaultScope (keys s) \<noteq> [])]"

definition checkSecretNodeGrammar :: "input_schema \<Rightarrow> string \<Rightarrow> secret_issue list" where
  "checkSecretNodeGrammar node path =
     (let unknown = map fst (filter (\<lambda>k. snd k node) secretNodeForbidden) in
      if unknown = [] then [] else [\<lparr>issuePath = path, issueCode = ''secret_field_unknown_key''\<rparr>])"

definition requiredOnSecretIssue :: "input_schema \<Rightarrow> string \<Rightarrow> secret_issue list" where
  "requiredOnSecretIssue node path =
     (if \<not> Required (keys node) \<and> \<not> rawRequiredSet (keys node) then []
      else [\<lparr>issuePath = path @ ''.required'', issueCode = ''secret_field_required''\<rparr>])"

definition reservedStateFieldIssue :: "string \<Rightarrow> string \<Rightarrow> secret_issue list" where
  "reservedStateFieldIssue state path =
     (if IsReservedStateField state then [\<lparr>issuePath = path, issueCode = ''secret_field_reserved_state_name''\<rparr>] else [])"

definition nameIssue :: "string \<Rightarrow> string \<Rightarrow> secret_issue list" where
  "nameIssue name path =
     (if ValidVaultPathSegment name then [] else [\<lparr>issuePath = path, issueCode = ''secret_field_name_unsafe''\<rparr>])"

definition scalarSecretField :: "string \<Rightarrow> input_schema \<Rightarrow> string \<Rightarrow> secret_field \<times> secret_issue list" where
  "scalarSecretField name node path =
     (\<lparr>sfState = name, sfProperty = [], sfKey = [], sfLabel = Label (keys node), sfPath = path\<rparr>,
      requiredOnSecretIssue node path @ checkSecretNodeGrammar node path @
      (if Key (keys node) \<noteq> [] then [\<lparr>issuePath = path @ ''.key'', issueCode = ''secret_field_key_on_scalar''\<rparr>] else []) @
      nameIssue name path @ reservedStateFieldIssue name path)"

definition keyIssue :: "input_schema \<Rightarrow> string \<Rightarrow> string \<Rightarrow> secret_issue list" where
  "keyIssue items key path =
     (if key = [] then [\<lparr>issuePath = path, issueCode = ''secret_field_key_required''\<rparr>]
      else case entry (Properties items) key of
        Some sibling \<Rightarrow>
          if typeOf sibling \<noteq> ''string''
          then [\<lparr>issuePath = path @ ''.key'', issueCode = ''secret_field_key_not_string''\<rparr>] else []
      | None \<Rightarrow> [\<lparr>issuePath = path @ ''.key'', issueCode = ''secret_field_key_unknown''\<rparr>])"

definition collectionSecretField :: "string \<Rightarrow> string \<Rightarrow> input_schema \<Rightarrow> input_schema \<Rightarrow> string \<Rightarrow> secret_field \<times> secret_issue list" where
  "collectionSecretField state prop node items path =
     (\<lparr>sfState = state, sfProperty = prop, sfKey = Key (keys node), sfLabel = Label (keys node), sfPath = path\<rparr>,
      requiredOnSecretIssue node path @ checkSecretNodeGrammar node path @
      nameIssue state path @ nameIssue prop path @ reservedStateFieldIssue state path @
      keyIssue items (Key (keys node)) path)"

definition sortedMapKeys :: "(string \<times> 'a) list \<Rightarrow> string list" where
  "sortedMapKeys m = sort (map fst m)"

text \<open>Every secret node, wherever it stands, by the text of its path.\<close>

lemma size_schema_entry [termination_simp]:
  "(k, Some s) \<in> set m \<Longrightarrow> size s < Suc (size_list (size_prod (\<lambda>_. 0) (size_option size)) m)"
  by (induction m) auto

fun scanSecretNode :: "input_schema \<Rightarrow> string \<Rightarrow> string list" where
  "scanSecretNode (InputSchema k items props extra) path =
     (if TypeRef k \<noteq> [] then []
      else (if Type k = SecretTypeName then [path] else []) @
        (case items of None \<Rightarrow> [] | Some s \<Rightarrow> scanSecretNode s (path @ ''.items'')) @
        concat (map (\<lambda>e. case snd e of None \<Rightarrow> [] | Some s \<Rightarrow> scanSecretNode s (path @ ''.properties'' @ ''.'' @ fst e)) props) @
        (case extra of Some (Inr s) \<Rightarrow> scanSecretNode s (path @ ''.additional_properties'') | _ \<Rightarrow> []))"

definition scanSecretNodes :: "schema_map \<Rightarrow> string \<Rightarrow> string list" where
  "scanSecretNodes m path =
     concat (map (\<lambda>e. case snd e of None \<Rightarrow> [] | Some s \<Rightarrow> scanSecretNode s (path @ ''.'' @ fst e)) m)"

text \<open>
  What one top-level node claims: a scalar secret itself, a collection each secret property of its
  elements, with the field built for it and the issues found.
\<close>

definition collectionPath :: "string \<Rightarrow> string \<Rightarrow> string" where
  "collectionPath name prop = ''.'' @ name @ ''.items.properties.'' @ prop"

definition elementClaims :: "string \<Rightarrow> input_schema \<Rightarrow> string \<Rightarrow> (string \<times> secret_field \<times> secret_issue list) list" where
  "elementClaims name items prop =
     (case entry (Properties items) prop of
        None \<Rightarrow> []
      | Some pnode \<Rightarrow>
          if typeOf pnode \<noteq> SecretTypeName then []
          else [(collectionPath name prop, collectionSecretField name prop pnode items (collectionPath name prop))])"

definition nodeClaims :: "string \<Rightarrow> input_schema \<Rightarrow> (string \<times> secret_field \<times> secret_issue list) list" where
  "nodeClaims name node =
     (if typeOf node = SecretTypeName then [(''.'' @ name, scalarSecretField name node (''.'' @ name))]
      else if typeOf node = ''array'' then
        (case Items node of
           None \<Rightarrow> []
         | Some items \<Rightarrow>
             if TypeRef (keys items) \<noteq> [] then []
             else concat (map (elementClaims name items) (sortedMapKeys (Properties items))))
      else [])"

definition allClaims :: "schema_map \<Rightarrow> (string \<times> secret_field \<times> secret_issue list) list" where
  "allClaims schema =
     concat (map (\<lambda>name. case entry schema name of Some node \<Rightarrow> nodeClaims name node | None \<Rightarrow> [])
       (sortedMapKeys schema))"

definition CollectSecretFields :: "schema_map \<Rightarrow> secret_field list \<times> secret_issue list" where
  "CollectSecretFields schema =
     (let claims = allClaims schema;
          unclaimed = filter (\<lambda>path. path \<notin> fst ` set claims) (sort (remdups (scanSecretNodes schema [])))
      in (map (fst \<circ> snd) (filter (\<lambda>c. snd (snd c) = []) claims),
          concat (map (snd \<circ> snd) claims) @
          map (\<lambda>path. \<lparr>issuePath = path, issueCode = ''secret_field_unsupported_location''\<rparr>) unclaimed))"

section \<open>Removal from a state record\<close>

text \<open>
  \<open>collectionElements\<close> returns the records inside a collection, and \<open>StripDeclaredSecrets\<close> deletes the
  property in each of them in place; here the deletion is a function on the collection.
\<close>

fun collectionElements :: "go_value \<Rightarrow> gomap list" where
  "collectionElements (VList xs) = concat (map (\<lambda>el. case el of VMap m \<Rightarrow> [m] | _ \<Rightarrow> collectionElements el) xs)"
| "collectionElements (VMap n) =
     concat (map (\<lambda>e. case snd e of VMap m \<Rightarrow> [m] | _ \<Rightarrow> collectionElements (snd e)) n)"
| "collectionElements _ = []"

fun stripElements :: "string \<Rightarrow> go_value \<Rightarrow> go_value" where
  "stripElements prop (VList xs) = VList (map (\<lambda>el. case el of VMap m \<Rightarrow> VMap (del prop m) | _ \<Rightarrow> stripElements prop el) xs)"
| "stripElements prop (VMap n) =
     VMap (map (\<lambda>e. (fst e, case snd e of VMap m \<Rightarrow> VMap (del prop m) | _ \<Rightarrow> stripElements prop (snd e))) n)"
| "stripElements prop v = v"

definition stripField :: "secret_field \<Rightarrow> gomap \<Rightarrow> gomap" where
  "stripField f state =
     (if \<not> Collection f then del (sfState f) state
      else case map_of state (sfState f) of
        None \<Rightarrow> state
      | Some v \<Rightarrow> put (sfState f) (stripElements (sfProperty f) v) state)"

definition StripDeclaredSecrets :: "gomap \<Rightarrow> schema_map \<Rightarrow> gomap" where
  "StripDeclaredSecrets state schema =
     (if state = [] \<or> schema = [] then state else fold stripField (fst (CollectSecretFields schema)) state)"

text \<open>A record shows no value of a declared secret.\<close>

definition noSecret :: "gomap \<Rightarrow> secret_field \<Rightarrow> bool" where
  "noSecret state f \<longleftrightarrow>
     (if Collection f
      then (case map_of state (sfState f) of
              None \<Rightarrow> True
            | Some v \<Rightarrow> list_all (\<lambda>m. map_of m (sfProperty f) = None) (collectionElements v))
      else map_of state (sfState f) = None)"

definition elementOrDescend :: "go_value \<Rightarrow> gomap list" where
  "elementOrDescend el = (case el of VMap m \<Rightarrow> [m] | _ \<Rightarrow> collectionElements el)"

definition stripElement :: "string \<Rightarrow> go_value \<Rightarrow> go_value" where
  "stripElement p el = (case el of VMap m \<Rightarrow> VMap (del p m) | _ \<Rightarrow> stripElements p el)"

lemma elements_unfold:
  "collectionElements (VList xs) = concat (map elementOrDescend xs)"
  "collectionElements (VMap n) = concat (map (\<lambda>e. elementOrDescend (snd e)) n)"
  "stripElements p (VList xs) = VList (map (stripElement p) xs)"
  "stripElements p (VMap n) = VMap (map (\<lambda>e. (fst e, stripElement p (snd e))) n)"
  by (simp_all add: elementOrDescend_def stripElement_def cong: map_cong)

lemma element_strip:
  assumes "\<And>m. el \<noteq> VMap m \<Longrightarrow> collectionElements (stripElements p el) = map (del p) (collectionElements el)"
  shows "elementOrDescend (stripElement p el) = map (del p) (elementOrDescend el)"
  using assms by (cases el) (simp_all add: elementOrDescend_def stripElement_def elements_unfold(3)
      del: stripElements.simps(1) collectionElements.simps(1))

lemma elements_strip: "collectionElements (stripElements p v) = map (del p) (collectionElements v)"
proof (induction v)
  case (VList xs)
  then have "elementOrDescend (stripElement p el) = map (del p) (elementOrDescend el)" if "el \<in> set xs" for el
    using that by (intro element_strip) auto
  then show ?case by (simp add: elements_unfold map_concat comp_def del: collectionElements.simps stripElements.simps cong: map_cong)
next
  case (VMap n)
  have "elementOrDescend (stripElement p (snd e)) = map (del p) (elementOrDescend (snd e))" if "e \<in> set n" for e
    using VMap that by (intro element_strip) (cases e, auto)
  then show ?case by (simp add: elements_unfold map_concat comp_def del: collectionElements.simps stripElements.simps cong: map_cong)
qed auto

lemma stripField_removes: "noSecret (stripField f state) f"
  by (auto simp: noSecret_def stripField_def update_conv' delete_conv' elements_strip list_all_iff split: option.splits)

lemma stripField_keeps: "noSecret state f \<Longrightarrow> noSecret (stripField g state) f"
  by (auto simp: noSecret_def stripField_def update_conv' delete_conv' elements_strip list_all_iff
      split: option.splits if_splits)

lemma strip_keeps: "noSecret state f \<Longrightarrow> noSecret (fold stripField gs state) f"
  by (induction gs arbitrary: state) (auto intro: stripField_keeps)

lemma strip_all: "f \<in> set fs \<Longrightarrow> noSecret (fold stripField fs state) f"
  by (induction fs arbitrary: state) (auto intro: strip_keeps stripField_removes)

lemma Collect_Nil: "fst (CollectSecretFields []) = []"
  by (simp add: CollectSecretFields_def allClaims_def sortedMapKeys_def)

lemma StripDeclaredSecrets_clean:
  assumes "f \<in> set (fst (CollectSecretFields schema))"
  shows "noSecret (StripDeclaredSecrets state schema) f"
proof -
  have "noSecret [] f" by (simp add: noSecret_def)
  then show ?thesis using assms Collect_Nil strip_all by (auto simp: StripDeclaredSecrets_def)
qed

section \<open>No declaration slips through\<close>

text \<open>Positions inside a schema, by structure and not by text.\<close>

datatype step = InItems | InProperty string | InAdditional

fun nodeAt :: "input_schema \<Rightarrow> step list \<Rightarrow> input_schema option" where
  "nodeAt s [] = (if TypeRef (keys s) \<noteq> [] then None else Some s)"
| "nodeAt s (st # p) =
     (if TypeRef (keys s) \<noteq> [] then None
      else case st of
        InItems \<Rightarrow> (case Items s of None \<Rightarrow> None | Some t \<Rightarrow> nodeAt t p)
      | InProperty n \<Rightarrow> (case entry (Properties s) n of Some t \<Rightarrow> nodeAt t p | None \<Rightarrow> None)
      | InAdditional \<Rightarrow> (case AdditionalProperties s of Some (Inr t) \<Rightarrow> nodeAt t p | _ \<Rightarrow> None))"

text \<open>A secret node of the schema: reached without crossing an unresolved reference.\<close>

definition secretAt :: "schema_map \<Rightarrow> string \<Rightarrow> step list \<Rightarrow> bool" where
  "secretAt schema name p \<longleftrightarrow>
     (case entry schema name of
        Some node \<Rightarrow> (case nodeAt node p of None \<Rightarrow> False | Some t \<Rightarrow> typeOf t = SecretTypeName)
      | None \<Rightarrow> False)"

fun stepText :: "step \<Rightarrow> string" where
  "stepText InItems = ''.items''"
| "stepText (InProperty n) = ''.properties.'' @ n"
| "stepText InAdditional = ''.additional_properties''"

definition stepsText :: "step list \<Rightarrow> string" where
  "stepsText p = concat (map stepText p)"

lemma stepsText_simps [simp]: "stepsText [] = []" "stepsText (s # p) = stepText s @ stepsText p"
  by (simp_all add: stepsText_def)

lemma scan_complete:
  "nodeAt s p = Some t \<Longrightarrow> typeOf t = SecretTypeName \<Longrightarrow> path @ stepsText p \<in> set (scanSecretNode s path)"
proof (induction s p arbitrary: path rule: nodeAt.induct)
  case (1 s)
  then show ?case by (cases s) (auto split: if_splits)
next
  case (2 s st p)
  obtain k items props extra where s: "s = InputSchema k items props extra" by (cases s) auto
  show ?case
  proof (cases st)
    case InItems
    then show ?thesis using 2(1) [of _ "path @ ''.items''"] 2(4,5) s by (auto split: if_splits option.splits)
  next
    case (InProperty n)
    then obtain u where u: "entry props n = Some u" "nodeAt u p = Some t"
      using 2(4) s by (auto split: if_splits option.splits)
    then have "path @ ''.properties'' @ ''.'' @ n @ stepsText p \<in> set (scanSecretNode u (path @ ''.properties'' @ ''.'' @ n))"
      using 2(2) [of n u "path @ ''.properties'' @ ''.'' @ n"] 2(4,5) s InProperty by (auto split: if_splits)
    then show ?thesis using InProperty s 2(4) entry_mem [OF u(1)] by (force split: if_splits)
  next
    case InAdditional
    then obtain u where u: "extra = Some (Inr u)" "nodeAt u p = Some t"
      using 2(4) s by (auto split: if_splits option.splits sum.splits)
    then show ?thesis using InAdditional 2(3) [of "Inr u" u "path @ ''.additional_properties''"] 2(4,5) s
      by (auto split: if_splits)
  qed
qed

lemma dotted_split:
  assumes "a @ x = b @ y" "CHR ''.'' \<notin> set a" "CHR ''.'' \<notin> set b"
    "x = [] \<or> hd x = CHR ''.''" "y = [] \<or> hd y = CHR ''.''"
  shows "a = b \<and> x = y"
proof -
  have "takeWhile (\<lambda>c. c \<noteq> CHR ''.'') (s @ z) = s"
    if "CHR ''.'' \<notin> set s" "z = [] \<or> hd z = CHR ''.''" for s z :: string
    using that by (induction s) (cases z, auto)
  then have "a = b" using assms by metis
  with assms(1) show ?thesis by simp
qed

lemma stepText_dot: "stepsText p = [] \<and> p = [] \<or> hd (stepsText p) = CHR ''.'' \<and> CHR ''.'' \<in> set (stepsText p)"
proof (cases p)
  case (Cons s q)
  then show ?thesis by (cases s) auto
qed simp

text \<open>The only position whose text is that of an element property with a name free of dots.\<close>

lemma items_property_text:
  assumes "stepsText p = ''.items.properties.'' @ pr" "CHR ''.'' \<notin> set pr"
  shows "p = [InItems, InProperty pr]"
proof -
  obtain q where p: "p = InItems # q"
    using assms(1) by (cases p; cases "hd p") auto
  then have q: "stepsText q = ''.properties.'' @ pr" using assms(1) by simp
  then obtain n r where r: "q = InProperty n # r" by (cases q; cases "hd q") auto
  then have "n @ stepsText r = pr" using q by simp
  then show ?thesis using p r assms(2) stepText_dot [of r] by auto
qed

lemma allClaims_mem:
  assumes "c \<in> set (allClaims schema)"
  obtains name node where "entry schema name = Some node" "c \<in> set (nodeClaims name node)"
proof -
  obtain name where "c \<in> set (case entry schema name of Some node \<Rightarrow> nodeClaims name node | None \<Rightarrow> [])"
    using assms by (auto simp: allClaims_def)
  then show ?thesis using that by (cases "entry schema name") auto
qed

lemma nodeClaims_mem:
  assumes "(path, fi) \<in> set (nodeClaims name node)"
  shows "path = ''.'' @ name \<and> fi = scalarSecretField name node path \<or>
    (\<exists>pr pnode items. path = collectionPath name pr \<and> fi = collectionSecretField name pr pnode items path)"
proof (cases "typeOf node = SecretTypeName")
  case True
  then show ?thesis using assms by (simp add: nodeClaims_def)
next
  case False
  have arr: "typeOf node = ''array''"
    using assms False by (cases "typeOf node = ''array''") (simp_all add: nodeClaims_def)
  then obtain items where items: "Items node = Some items"
    using assms False by (cases "Items node") (simp_all add: nodeClaims_def)
  have "TypeRef (keys items) = []"
    using assms False arr items by (cases "TypeRef (keys items) = []") (simp_all add: nodeClaims_def)
  then have "(path, fi) \<in> set (concat (map (elementClaims name items) (sortedMapKeys (Properties items))))"
    using assms False arr items by (simp add: nodeClaims_def)
  then obtain pr where "(path, fi) \<in> set (elementClaims name items pr)" by auto
  then show ?thesis by (cases "entry (Properties items) pr") (auto simp: elementClaims_def split: if_splits)
qed

lemma CollectSecretFields_clean:
  assumes "CollectSecretFields schema = (fs, [])"
  shows "set (scanSecretNodes schema []) \<subseteq> fst ` set (allClaims schema)"
    and "c \<in> set (allClaims schema) \<Longrightarrow> snd (snd c) = [] \<and> fst (snd c) \<in> set fs"
  using assms by (auto simp: CollectSecretFields_def Let_def filter_empty_conv)

text \<open>
  Nothing declared is overlooked: if the collection reports no issue and no state field has a dot in
  its name, then every secret node of the schema, wherever it stands, is a top-level field or an element
  property of a top-level array, and its field is among those returned.
\<close>

lemma secrets_all_collected:
  assumes "CollectSecretFields schema = (fs, [])" and "\<forall>n \<in> fst ` set schema. CHR ''.'' \<notin> set n"
    and "secretAt schema name p"
  shows "\<exists>f \<in> set fs. sfState f = name \<and>
    (p = [] \<and> \<not> Collection f \<or> p = [InItems, InProperty (sfProperty f)] \<and> Collection f)"
proof -
  obtain node t where node: "entry schema name = Some node" and t: "nodeAt node p = Some t" "typeOf t = SecretTypeName"
    using assms(3) by (auto simp: secretAt_def split: option.splits)
  have "''.'' @ name @ stepsText p \<in> set (scanSecretNodes schema [])"
    using scan_complete [OF t, of "''.'' @ name"] entry_mem [OF node] by (force simp: scanSecretNodes_def)
  then obtain f iss where c: "(''.'' @ name @ stepsText p, f, iss) \<in> set (allClaims schema)"
    using CollectSecretFields_clean(1) [OF assms(1)] by force
  then have ok: "iss = []" "f \<in> set fs" using CollectSecretFields_clean(2) [OF assms(1) c] by auto
  obtain name' node' where n': "entry schema name' = Some node'"
      "(''.'' @ name @ stepsText p, f, iss) \<in> set (nodeClaims name' node')"
    using c by (rule allClaims_mem)
  have dots: "CHR ''.'' \<notin> set name" "CHR ''.'' \<notin> set name'"
    using assms(2) entry_mem [OF node] entry_mem [OF n'(1)] by force+
  have st: "stepsText p = [] \<or> hd (stepsText p) = CHR ''.''" using stepText_dot [of p] by blast
  from nodeClaims_mem [OF n'(2)] show ?thesis
  proof (elim disjE exE conjE)
    assume "''.'' @ name @ stepsText p = ''.'' @ name'"
      and f: "(f, iss) = scalarSecretField name' node' (''.'' @ name @ stepsText p)"
    then have "name = name' \<and> stepsText p = []" using dotted_split [of name "stepsText p" name' "[]"] dots st by simp
    then show ?thesis using f ok(2) stepText_dot [of p]
      by (intro bexI [of _ f]) (auto simp: scalarSecretField_def Collection_def)
  next
    fix pr pnode items
    assume e: "''.'' @ name @ stepsText p = collectionPath name' pr"
      and f: "(f, iss) = collectionSecretField name' pr pnode items (''.'' @ name @ stepsText p)"
    have s: "name = name' \<and> stepsText p = ''.items.properties.'' @ pr"
      using dotted_split [of name "stepsText p" name' "''.items.properties.'' @ pr"] dots st e
      by (simp add: collectionPath_def)
    have "ValidVaultPathSegment pr" "Key (keys pnode) \<noteq> []"
      using f ok(1) by (auto simp: collectionSecretField_def nameIssue_def keyIssue_def split: if_splits)
    then have "p = [InItems, InProperty pr]" using items_property_text s segment_clean(4) by blast
    then show ?thesis using f ok(2) s \<open>Key (keys pnode) \<noteq> []\<close>
      by (intro bexI [of _ f]) (auto simp: collectionSecretField_def Collection_def)
  qed
qed

text \<open>
  A declared secret never reaches the state record: when the schema has no issue and its fields have
  names without dots, as the name grammar of the dialect demands, every secret node of the schema,
  wherever it stands, is a top-level field, which the stripped record does not have, or an element
  property of a top-level array, which no record of the stripped collection has.
\<close>

lemma declared_secrets_stripped:
  assumes "CollectSecretFields schema = (fs, [])" and "\<forall>n \<in> fst ` set schema. CHR ''.'' \<notin> set n"
    and "secretAt schema name p"
  shows "if p = [] then map_of (StripDeclaredSecrets state schema) name = None
    else \<exists>pr. p = [InItems, InProperty pr] \<and>
      (\<forall>v m. map_of (StripDeclaredSecrets state schema) name = Some v \<longrightarrow>
         m \<in> set (collectionElements v) \<longrightarrow> map_of m pr = None)"
proof -
  obtain f where f: "f \<in> set fs" "sfState f = name"
      "p = [] \<and> \<not> Collection f \<or> p = [InItems, InProperty (sfProperty f)] \<and> Collection f"
    using secrets_all_collected [OF assms] by blast
  have "noSecret (StripDeclaredSecrets state schema) f"
    using StripDeclaredSecrets_clean [of f schema] f(1) assms(1) by simp
  then show ?thesis using f(2,3) by (auto simp: noSecret_def list_all_iff)
qed

definition plainKeys :: schema_keys where
  "plainKeys = \<lparr>Type = [], DefaultSet = False, Enum = [], Secret = False, SchemaDescription = [], Required = False,
     RequiredWhen = [], PrefillFromState = [], rawRequiredSet = False, Pattern = [], Format = [], MinLength = None,
     MaxLength = None, AllowEmpty = False, VaultScope = [], MinValue = None, MaxValue = None, ExclusiveMin = None,
     ExclusiveMax = None, MinItems = None, MaxItems = None, Unique = False, Key = [], Label = [], SourceSet = False,
     TypeRef = []\<rparr>"

definition usersSchema :: schema_map where
  "usersSchema =
    [(''users'', Some (InputSchema (plainKeys\<lparr>Type := ''array''\<rparr>)
       (Some (InputSchema (plainKeys\<lparr>Type := ''object''\<rparr>) None
         [(''name'', Some (InputSchema (plainKeys\<lparr>Type := ''string''\<rparr>) None [] None)),
          (''password'', Some (InputSchema (plainKeys\<lparr>Type := ''secret'', Key := ''name''\<rparr>) None [] None))] None))
       [] None))]"

lemma users_collected: "CollectSecretFields usersSchema = ([usersPassword], [])"
proof -
  have seg: "ValidVaultPathSegment ''users''" "ValidVaultPathSegment ''password''"
    by (simp_all add: ValidVaultPathSegment_def segmentByte_def is_lower_def byte_in_def code_def)
  have "trimSpace ''users'' = ''users''" by (rule trimSpace_visible) (auto simp: visible_def code_def)
  then have res: "\<not> IsReservedStateField ''users''"
    by (simp add: IsReservedStateField_def foldReserved_def reservedStateFields_def ascii_lower_def
        is_upper_def byte_in_def code_def)
  have keys: "sortedMapKeys usersSchema = [''users'']"
      "sortedMapKeys [(''name'', x), (''password'', y)] = [''name'', ''password'']" for x y :: "input_schema option"
    by (simp_all add: sortedMapKeys_def usersSchema_def)
  have claims: "allClaims usersSchema = [(''.users.items.properties.password'', usersPassword, [])]"
    unfolding allClaims_def keys
    by (simp add: usersSchema_def nodeClaims_def elementClaims_def entry_def keys(2) SecretTypeName_def plainKeys_def
        collectionSecretField_def requiredOnSecretIssue_def checkSecretNodeGrammar_def secretNodeForbidden_def
        nameIssue_def seg reservedStateFieldIssue_def res keyIssue_def collectionPath_def usersPassword_def)
  have "scanSecretNodes usersSchema [] = [''.users.items.properties.password'']"
    by (simp add: scanSecretNodes_def usersSchema_def plainKeys_def SecretTypeName_def)
  with claims show ?thesis by (simp add: CollectSecretFields_def)
qed

lemma users_secretAt: "secretAt usersSchema ''users'' [InItems, InProperty ''password'']"
  by (simp add: secretAt_def entry_def usersSchema_def plainKeys_def SecretTypeName_def)

lemma users_stripped:
  "map_of (StripDeclaredSecrets [(''users'', VList [VMap [(''name'', VStr ''ann''), (''password'', VStr ''x'')]])] usersSchema)
     ''users'' = Some (VList [VMap [(''name'', VStr ''ann'')]])"
  by (simp add: StripDeclaredSecrets_def users_collected stripField_def usersPassword_def Collection_def)
    (simp add: usersSchema_def)

end
