(* ===== verification/State_Op.thy ===== *)
theory State_Op
  imports Secret_Field
begin

text \<open>
  The state verbs, \<^verbatim>\<open>keeper/internal/stateop/ops.go\<close>: set, add, modify, remove, present, append and unset on an
  incarnation's state, and \<open>Merge\<close>, which applies a list of them to a copy of the state and removes the
  declared secrets at the end.

  The two CEL evaluators are arguments: \<open>matchEval\<close> for the identity predicate of add, \<open>opEval\<close> for the
  predicates and values of modify and remove. Error texts are values of \<open>op_error\<close>.
\<close>

section \<open>Operations as data\<close>

record rendered_op =
  Verb :: string
  Field :: string
  Value :: go_value
  opKey :: string
  opMatch :: string
  OnConflict :: string
  Patch :: gomap
  Expect :: string

definition VerbSet :: string where "VerbSet = ''set''"
definition VerbAdd :: string where "VerbAdd = ''add''"
definition VerbModify :: string where "VerbModify = ''modify''"
definition VerbRemove :: string where "VerbRemove = ''remove''"
definition VerbPresent :: string where "VerbPresent = ''present''"
definition VerbAppend :: string where "VerbAppend = ''append''"
definition VerbUnset :: string where "VerbUnset = ''unset''"
definition ExpectAny :: string where "ExpectAny = ''any''"
definition ExpectOne :: string where "ExpectOne = ''one''"
definition ExpectAtMostOne :: string where "ExpectAtMostOne = ''at_most_one''"
definition OnConflictSkip :: string where "OnConflictSkip = ''skip''"
definition OnConflictReplace :: string where "OnConflictReplace = ''replace''"
definition OnConflictError :: string where "OnConflictError = ''error''"

lemmas verb_defs = VerbSet_def VerbAdd_def VerbModify_def VerbRemove_def VerbPresent_def VerbAppend_def VerbUnset_def
lemmas policy_defs = ExpectAny_def ExpectOne_def ExpectAtMostOne_def OnConflictSkip_def OnConflictReplace_def
  OnConflictError_def

datatype op_error =
    EvalFailed string
  | MatchNotBool string
  | PatchNotObject
  | PatchFailed string op_error
  | NodeNotObject string
  | NotCollection string
  | ExpectFailed string nat
  | AppendToMap
  | AppendToObject
  | AppendToScalar
  | MatchOnMap
  | KeyMissing
  | KeyExists
  | KeyOnList
  | ElementExists
  | KindUnknown string
  | VerbUnknown string
  | InVerb string string op_error
  | InOp nat op_error

type_synonym match_eval = "string \<Rightarrow> go_value \<Rightarrow> go_value \<Rightarrow> (string, bool) result"
type_synonym op_eval = "string \<Rightarrow> gomap \<Rightarrow> bool \<Rightarrow> (string, go_value) result"

section \<open>Cardinality and predicates\<close>

definition checkExpect :: "rendered_op \<Rightarrow> nat \<Rightarrow> (op_error, unit) result" where
  "checkExpect op matched =
     (if Expect op = [] \<or> Expect op = ExpectAny then Inr ()
      else if Expect op = ExpectOne then (if matched \<noteq> 1 then Inl (ExpectFailed ExpectOne matched) else Inr ())
      else if Expect op = ExpectAtMostOne then (if 1 < matched then Inl (ExpectFailed ExpectAtMostOne matched) else Inr ())
      else Inr ())"

definition evalOpBool :: "op_eval \<Rightarrow> string \<Rightarrow> gomap \<Rightarrow> (op_error, bool) result" where
  "evalOpBool opEval match binds =
     (if match = [] then Inr False
      else case opEval match binds True of
        Inl e \<Rightarrow> Inl (EvalFailed e)
      | Inr (VBool b) \<Rightarrow> Inr b
      | Inr _ \<Rightarrow> Inl (MatchNotBool match))"

section \<open>Patches\<close>

text \<open>\<open>setNestedPath\<close> on the segments of its path; \<open>strings.Split\<close> never returns none.\<close>

fun nestedLoop :: "gomap \<Rightarrow> string list \<Rightarrow> go_value \<Rightarrow> (op_error, gomap) result" where
  "nestedLoop cur [] val = Inr cur"
| "nestedLoop cur (seg # rest) val =
     (if rest = [] then Inr (put seg val cur)
      else case map_of cur seg of
        None \<Rightarrow> (case nestedLoop [] rest val of
            Inl e \<Rightarrow> Inl e
          | Inr next \<Rightarrow> Inr (put seg (VMap next) cur))
      | Some v \<Rightarrow> (case v of
            VMap next \<Rightarrow> (case nestedLoop next rest val of
                Inl e \<Rightarrow> Inl e
              | Inr next' \<Rightarrow> Inr (put seg (VMap next') cur))
          | _ \<Rightarrow> Inl (NodeNotObject seg)))"

definition splitPath :: "string \<Rightarrow> string list" where
  "splitPath path = split_on CHR ''.'' path"

definition setNestedPath :: "gomap \<Rightarrow> string \<Rightarrow> go_value \<Rightarrow> (op_error, gomap) result" where
  "setNestedPath m path val = nestedLoop m (splitPath path) val"

fun renderPatchValue :: "go_value \<Rightarrow> gomap \<Rightarrow> op_eval \<Rightarrow> (op_error, go_value) result" where
  "renderPatchValue (VStr s) binds opEval =
     (case opEval s binds False of Inl e \<Rightarrow> Inl (EvalFailed e) | Inr v \<Rightarrow> Inr v)"
| "renderPatchValue v binds opEval = Inr v"

text \<open>The entries of a patch in the iteration order of its map.\<close>

fun patchLoop :: "op_eval \<Rightarrow> gomap \<Rightarrow> gomap \<Rightarrow> gomap \<Rightarrow> (op_error, gomap) result" where
  "patchLoop opEval binds [] target = Inr target"
| "patchLoop opEval binds ((path, raw) # patch) target =
     (case renderPatchValue raw binds opEval of
        Inl e \<Rightarrow> Inl (PatchFailed path e)
      | Inr val \<Rightarrow> (case setNestedPath target path val of
          Inl e \<Rightarrow> Inl (PatchFailed path e)
        | Inr target' \<Rightarrow> patchLoop opEval binds patch target'))"

definition applyPatch :: "go_value \<Rightarrow> gomap \<Rightarrow> gomap \<Rightarrow> op_eval \<Rightarrow> (op_error, go_value) result" where
  "applyPatch elem patch binds opEval =
     (case deepCopyValue elem of
        VMap target \<Rightarrow> (case patchLoop opEval binds patch target of
            Inl e \<Rightarrow> Inl e
          | Inr target' \<Rightarrow> Inr (VMap target'))
      | _ \<Rightarrow> Inl PatchNotObject)"

section \<open>Modify and remove\<close>

definition entryBinds :: "string \<times> go_value \<Rightarrow> gomap" where
  "entryBinds e = [(''key'', VStr (fst e)), (''value'', snd e)]"

definition elemBinds :: "go_value \<Rightarrow> gomap" where
  "elemBinds v = [(''elem'', v)]"

text \<open>
  The loop of \<open>applyModifyOp\<close> over one collection, as bindings and elements: the number of matches and the
  elements after it.
\<close>

fun modifyLoop :: "op_eval \<Rightarrow> rendered_op \<Rightarrow> (gomap \<times> go_value) list \<Rightarrow> (op_error, nat \<times> go_value list) result" where
  "modifyLoop opEval op [] = Inr (0, [])"
| "modifyLoop opEval op ((binds, v) # rest) =
     (case evalOpBool opEval (opMatch op) binds of
        Inl e \<Rightarrow> Inl e
      | Inr hit \<Rightarrow> (case (if hit then applyPatch v (Patch op) binds opEval else Inr v) of
          Inl e \<Rightarrow> Inl e
        | Inr v' \<Rightarrow> (case modifyLoop opEval op rest of
            Inl e \<Rightarrow> Inl e
          | Inr (n, vs) \<Rightarrow> Inr (if hit then Suc n else n, v' # vs))))"

definition applyModifyOp :: "gomap \<Rightarrow> rendered_op \<Rightarrow> op_eval \<Rightarrow> (op_error, gomap) result" where
  "applyModifyOp out op opEval =
     (case map_of out (Field op) of
        None \<Rightarrow> (case checkExpect op 0 of Inl e \<Rightarrow> Inl e | Inr _ \<Rightarrow> Inr out)
      | Some (VMap coll) \<Rightarrow> (case modifyLoop opEval op (map (\<lambda>e. (entryBinds e, snd e)) coll) of
          Inl e \<Rightarrow> Inl e
        | Inr (n, vs) \<Rightarrow> (case checkExpect op n of
            Inl e \<Rightarrow> Inl e
          | Inr _ \<Rightarrow> Inr (put (Field op) (VMap (zip (map fst coll) vs)) out)))
      | Some (VList coll) \<Rightarrow> (case modifyLoop opEval op (map (\<lambda>v. (elemBinds v, v)) coll) of
          Inl e \<Rightarrow> Inl e
        | Inr (n, vs) \<Rightarrow> (case checkExpect op n of
            Inl e \<Rightarrow> Inl e
          | Inr _ \<Rightarrow> Inr (put (Field op) (VList vs) out)))
      | Some _ \<Rightarrow> Inl (NotCollection (Field op)))"

text \<open>The elements with the answer of the predicate, or its first error.\<close>

definition matches :: "op_eval \<Rightarrow> rendered_op \<Rightarrow> ('a \<Rightarrow> gomap) \<Rightarrow> 'a list \<Rightarrow> (op_error, bool list) result" where
  "matches opEval op binds xs = map_result (\<lambda>x. evalOpBool opEval (opMatch op) (binds x)) xs"

definition unmatched :: "'a list \<Rightarrow> bool list \<Rightarrow> 'a list" where
  "unmatched xs hits = map fst (filter (\<lambda>p. \<not> snd p) (zip xs hits))"

definition countHits :: "bool list \<Rightarrow> nat" where
  "countHits hits = length (filter id hits)"

definition applyRemoveOp :: "gomap \<Rightarrow> rendered_op \<Rightarrow> op_eval \<Rightarrow> (op_error, gomap) result" where
  "applyRemoveOp out op opEval =
     (case map_of out (Field op) of
        None \<Rightarrow> (case checkExpect op 0 of Inl e \<Rightarrow> Inl e | Inr _ \<Rightarrow> Inr out)
      | Some (VMap coll) \<Rightarrow> (case matches opEval op entryBinds coll of
          Inl e \<Rightarrow> Inl e
        | Inr hits \<Rightarrow> (case checkExpect op (countHits hits) of
            Inl e \<Rightarrow> Inl e
          | Inr _ \<Rightarrow> Inr (put (Field op) (VMap (unmatched coll hits)) out)))
      | Some (VList coll) \<Rightarrow> (case matches opEval op elemBinds coll of
          Inl e \<Rightarrow> Inl e
        | Inr hits \<Rightarrow> (case checkExpect op (countHits hits) of
            Inl e \<Rightarrow> Inl e
          | Inr _ \<Rightarrow> Inr (put (Field op) (VList (unmatched coll hits)) out)))
      | Some _ \<Rightarrow> Inl (NotCollection (Field op)))"

section \<open>Append and add\<close>

definition schemaFieldType :: "schema_map \<Rightarrow> string \<Rightarrow> string" where
  "schemaFieldType schema field = (case entry schema field of None \<Rightarrow> [] | Some s \<Rightarrow> typeOf s)"

definition applyAppendOp :: "gomap \<Rightarrow> rendered_op \<Rightarrow> schema_map \<Rightarrow> (op_error, gomap) result" where
  "applyAppendOp out op schema =
     (case (case map_of out (Field op) of None \<Rightarrow> VNil | Some v \<Rightarrow> v) of
        VList xs \<Rightarrow> Inr (put (Field op) (VList (xs @ [Value op])) out)
      | VMap _ \<Rightarrow> Inl AppendToMap
      | VNil \<Rightarrow>
          if schemaFieldType schema (Field op) = ''object'' then Inl AppendToObject
          else Inr (put (Field op) (VList [Value op]) out)
      | _ \<Rightarrow> Inl AppendToScalar)"

text \<open>The first element identical to the added one: by the predicate, or by deep equality.\<close>

fun findListMatch :: "match_eval \<Rightarrow> rendered_op \<Rightarrow> go_value list \<Rightarrow> (op_error, nat option) result" where
  "findListMatch matchEval op [] = Inr None"
| "findListMatch matchEval op (x # xs) =
     (case (if opMatch op \<noteq> [] then (case matchEval (opMatch op) x (Value op) of Inl e \<Rightarrow> Inl (EvalFailed e) | Inr b \<Rightarrow> Inr b)
            else Inr (deepEqual x (Value op))) of
        Inl e \<Rightarrow> Inl e
      | Inr True \<Rightarrow> Inr (Some 0)
      | Inr False \<Rightarrow> (case findListMatch matchEval op xs of
          Inl e \<Rightarrow> Inl e
        | Inr i \<Rightarrow> Inr (map_option Suc i)))"

datatype coll_kind = collKindUnknown | collKindList | collKindMap

definition collectionKind :: "go_value option \<Rightarrow> schema_map \<Rightarrow> string \<Rightarrow> coll_kind" where
  "collectionKind existing schema field =
     (case existing of
        Some (VList _) \<Rightarrow> collKindList
      | Some (VMap _) \<Rightarrow> collKindMap
      | Some _ \<Rightarrow> collKindUnknown
      | None \<Rightarrow>
          if schemaFieldType schema field = ''array'' then collKindList
          else if schemaFieldType schema field = ''object'' then collKindMap
          else collKindUnknown)"

definition addToMap :: "gomap \<Rightarrow> rendered_op \<Rightarrow> (op_error, gomap) result" where
  "addToMap coll op =
     (if map_of coll (opKey op) \<noteq> None then
        if OnConflict op = OnConflictError then Inl KeyExists
        else if OnConflict op = OnConflictReplace then Inr (put (opKey op) (Value op) coll)
        else Inr coll
      else Inr (put (opKey op) (Value op) coll))"

definition addToList :: "go_value list \<Rightarrow> rendered_op \<Rightarrow> match_eval \<Rightarrow> (op_error, go_value list) result" where
  "addToList coll op matchEval =
     (case findListMatch matchEval op coll of
        Inl e \<Rightarrow> Inl e
      | Inr (Some idx) \<Rightarrow>
          if OnConflict op = OnConflictError then Inl ElementExists
          else if OnConflict op = OnConflictReplace then Inr (coll[idx := Value op])
          else Inr coll
      | Inr None \<Rightarrow> Inr (coll @ [Value op]))"

definition applyAddOp :: "gomap \<Rightarrow> rendered_op \<Rightarrow> schema_map \<Rightarrow> match_eval \<Rightarrow> (op_error, gomap) result" where
  "applyAddOp out op schema matchEval =
     (case collectionKind (map_of out (Field op)) schema (Field op) of
        collKindMap \<Rightarrow>
          if opKey op = [] then Inl (if opMatch op \<noteq> [] then MatchOnMap else KeyMissing)
          else (case addToMap (case map_of out (Field op) of Some (VMap m) \<Rightarrow> m | _ \<Rightarrow> []) op of
              Inl e \<Rightarrow> Inl e
            | Inr coll \<Rightarrow> Inr (put (Field op) (VMap coll) out))
      | collKindList \<Rightarrow>
          if opKey op \<noteq> [] then Inl KeyOnList
          else (case addToList (case map_of out (Field op) of Some (VList xs) \<Rightarrow> xs | _ \<Rightarrow> []) op matchEval of
              Inl e \<Rightarrow> Inl e
            | Inr coll \<Rightarrow> Inr (put (Field op) (VList coll) out))
      | collKindUnknown \<Rightarrow> Inl (KindUnknown (Field op)))"

section \<open>Merge\<close>

definition inVerb :: "rendered_op \<Rightarrow> (op_error, gomap) result \<Rightarrow> (op_error, gomap) result" where
  "inVerb op r = (case r of Inl e \<Rightarrow> Inl (InVerb (Verb op) (Field op) e) | Inr out \<Rightarrow> Inr out)"

definition applyStateOp :: "gomap \<Rightarrow> rendered_op \<Rightarrow> schema_map \<Rightarrow> match_eval \<Rightarrow> op_eval \<Rightarrow> (op_error, gomap) result" where
  "applyStateOp out op schema matchEval opEval =
     (if Verb op = VerbSet then Inr (put (Field op) (Value op) out)
      else if Verb op = VerbAdd then inVerb op (applyAddOp out op schema matchEval)
      else if Verb op = VerbModify then inVerb op (applyModifyOp out op opEval)
      else if Verb op = VerbRemove then inVerb op (applyRemoveOp out op opEval)
      else if Verb op = VerbPresent then
        Inr (case map_of out (Field op) of
            None \<Rightarrow> put (Field op) (Value op) out
          | Some cur \<Rightarrow> if cur = VNil then put (Field op) (Value op) out else out)
      else if Verb op = VerbAppend then inVerb op (applyAppendOp out op schema)
      else if Verb op = VerbUnset then Inr (del (Field op) out)
      else Inl (VerbUnknown (Verb op)))"

fun mergeLoop :: "nat \<Rightarrow> gomap \<Rightarrow> rendered_op list \<Rightarrow> schema_map \<Rightarrow> match_eval \<Rightarrow> op_eval \<Rightarrow> (op_error, gomap) result" where
  "mergeLoop i out [] schema matchEval opEval = Inr out"
| "mergeLoop i out (op # ops) schema matchEval opEval =
     (case applyStateOp out op schema matchEval opEval of
        Inl e \<Rightarrow> Inl (InOp i e)
      | Inr out' \<Rightarrow> mergeLoop (Suc i) out' ops schema matchEval opEval)"

definition Merge :: "gomap \<Rightarrow> rendered_op list \<Rightarrow> schema_map \<Rightarrow> match_eval \<Rightarrow> op_eval \<Rightarrow> (op_error, gomap) result" where
  "Merge stateBefore ops schema matchEval opEval =
     (case mergeLoop 0 (deepCopyMap stateBefore) ops schema matchEval opEval of
        Inl e \<Rightarrow> Inl e
      | Inr out \<Rightarrow> Inr (StripDeclaredSecrets out schema))"

section \<open>What a verb touches\<close>

lemma put_same: "map_of m k = Some v \<Longrightarrow> put k v m = m"
  by (induction m) auto

lemma inVerb_Inr [simp]: "inVerb op r = Inr out \<longleftrightarrow> r = Inr out"
  by (auto simp: inVerb_def split: sum.splits)

text \<open>Every verb either leaves the state alone or writes or drops its own field.\<close>

lemma add_writes: "applyAddOp out op schema me = Inr out' \<Longrightarrow> \<exists>v. out' = put (Field op) v out"
  by (auto simp: applyAddOp_def split: coll_kind.splits if_splits sum.splits)

lemma append_writes: "applyAppendOp out op schema = Inr out' \<Longrightarrow> \<exists>v. out' = put (Field op) v out"
  by (auto simp: applyAppendOp_def split: go_value.splits if_splits)

lemma modify_writes: "applyModifyOp out op oe = Inr out' \<Longrightarrow> out' = out \<or> (\<exists>v. out' = put (Field op) v out)"
  by (cases "map_of out (Field op)") (auto simp: applyModifyOp_def split: go_value.splits sum.splits)

lemma remove_writes: "applyRemoveOp out op oe = Inr out' \<Longrightarrow> out' = out \<or> (\<exists>v. out' = put (Field op) v out)"
  by (cases "map_of out (Field op)") (auto simp: applyRemoveOp_def split: go_value.splits sum.splits)

lemma applyStateOp_writes:
  assumes "applyStateOp out op schema me oe = Inr out'"
  shows "out' = out \<or> out' = del (Field op) out \<or> (\<exists>v. out' = put (Field op) v out)"
  using assms add_writes [of out op schema me] append_writes [of out op schema] modify_writes [of out op oe]
    remove_writes [of out op oe]
  by (auto simp: applyStateOp_def split: if_splits option.splits)

lemma applyStateOp_frame:
  "applyStateOp out op schema me oe = Inr out' \<Longrightarrow> g \<noteq> Field op \<Longrightarrow> map_of out' g = map_of out g"
  by (drule applyStateOp_writes) (auto simp: update_conv' delete_conv')

lemma mergeLoop_frame:
  "mergeLoop i out ops schema me oe = Inr out' \<Longrightarrow> g \<notin> Field ` set ops \<Longrightarrow> map_of out' g = map_of out g"
  by (induction ops arbitrary: i out) (auto simp: applyStateOp_frame split: sum.splits)

section \<open>Add\<close>

text \<open>The element is identical to itself, by the predicate given or by deep equality.\<close>

definition selfIdentical :: "match_eval \<Rightarrow> rendered_op \<Rightarrow> bool" where
  "selfIdentical me op \<longleftrightarrow>
     (if opMatch op \<noteq> [] then me (opMatch op) (Value op) (Value op) = Inr True else deepEqual (Value op) (Value op))"

lemma findListMatch_Some:
  "findListMatch me op xs = Inr (Some i) \<Longrightarrow> i < length xs"
  by (induction xs arbitrary: i) (auto split: if_splits sum.splits bool.splits)

lemma findListMatch_update:
  "findListMatch me op xs = Inr (Some i) \<Longrightarrow> selfIdentical me op \<Longrightarrow>
     findListMatch me op (xs[i := Value op]) = Inr (Some i)"
proof (induction xs arbitrary: i)
  case (Cons x xs)
  then show ?case
    by (cases i) (auto simp: selfIdentical_def split: if_splits sum.splits bool.splits)
qed simp

lemma findListMatch_append:
  "findListMatch me op xs = Inr None \<Longrightarrow> selfIdentical me op \<Longrightarrow>
     findListMatch me op (xs @ [Value op]) = Inr (Some (length xs))"
  by (induction xs) (auto simp: selfIdentical_def split: if_splits sum.splits bool.splits)

lemma addToList_again:
  assumes "addToList coll op me = Inr coll'" "selfIdentical me op" "OnConflict op \<noteq> OnConflictError"
  shows "addToList coll' op me = Inr coll'"
proof (cases "findListMatch me op coll")
  case (Inr r)
  show ?thesis
  proof (cases r)
    case None
    then show ?thesis using assms Inr findListMatch_append [of me op coll]
      by (auto simp: addToList_def policy_defs)
  next
    case (Some i)
    then show ?thesis using assms Inr findListMatch_update [of me op coll i] findListMatch_Some [of me op coll i]
      by (auto simp: addToList_def policy_defs split: if_splits)
  qed
qed (use assms in \<open>simp add: addToList_def\<close>)

lemma addToMap_again:
  assumes "addToMap coll op = Inr coll'" "OnConflict op \<noteq> OnConflictError"
  shows "addToMap coll' op = Inr coll'"
  using assms put_same [of coll' "opKey op" "Value op"]
  by (auto simp: addToMap_def update_conv' split: if_splits)

text \<open>
  A repeated add changes nothing: under every policy but error, applying the same add to its own
  result gives that result, for maps by key and for lists by the identity predicate, provided the added
  element is identical to itself.
\<close>

theorem add_idempotent:
  assumes "applyStateOp out op schema me oe = Inr out'" and "Verb op = VerbAdd"
    and "OnConflict op \<noteq> OnConflictError" and "selfIdentical me op"
  shows "applyStateOp out' op schema me oe = Inr out'"
proof -
  have a: "applyAddOp out op schema me = Inr out'"
    using assms(1,2) by (simp add: applyStateOp_def verb_defs)
  have "applyAddOp out' op schema me = Inr out'"
  proof (cases "collectionKind (map_of out (Field op)) schema (Field op)")
    case collKindUnknown
    then show ?thesis using a by (simp add: applyAddOp_def)
  next
    case collKindList
    with a obtain coll where "opKey op = []" "out' = put (Field op) (VList coll) out"
        "addToList (case map_of out (Field op) of Some (VList xs) \<Rightarrow> xs | _ \<Rightarrow> []) op me = Inr coll"
      by (auto simp: applyAddOp_def split: if_splits sum.splits)
    then show ?thesis using addToList_again assms(3,4)
      by (auto simp: applyAddOp_def collectionKind_def update_conv' put_same)
  next
    case collKindMap
    with a obtain coll where "opKey op \<noteq> []" "out' = put (Field op) (VMap coll) out"
        "addToMap (case map_of out (Field op) of Some (VMap m) \<Rightarrow> m | _ \<Rightarrow> []) op = Inr coll"
      by (auto simp: applyAddOp_def split: if_splits sum.splits)
    then show ?thesis using addToMap_again assms(3)
      by (auto simp: applyAddOp_def collectionKind_def update_conv' put_same)
  qed
  then show ?thesis using assms(2) by (simp add: applyStateOp_def verb_defs)
qed

definition noMatch :: match_eval where "noMatch = (\<lambda>_ _ _. Inl ''no predicate'')"
definition noOps :: op_eval where "noOps = (\<lambda>_ _ _. Inl ''no expression'')"

definition blankOp :: "string \<Rightarrow> string \<Rightarrow> rendered_op" where
  "blankOp v f = \<lparr>Verb = v, Field = f, Value = VNil, opKey = [], opMatch = [], OnConflict = [], Patch = [], Expect = []\<rparr>"

definition addAnn :: rendered_op where
  "addAnn = (blankOp VerbAdd ''users'')\<lparr>Value := VStr ''ann''\<rparr>"

theorem add_idempotent_witness:
  "applyStateOp [(''users'', VList [VStr ''bob'', VStr ''ann''])] addAnn [] noMatch noOps =
     Inr [(''users'', VList [VStr ''bob'', VStr ''ann''])]"
proof -
  have "applyStateOp [(''users'', VList [VStr ''bob''])] addAnn [] noMatch noOps =
      Inr [(''users'', VList [VStr ''bob'', VStr ''ann''])]"
    by (simp add: applyStateOp_def verb_defs addAnn_def blankOp_def applyAddOp_def collectionKind_def addToList_def)
  then show ?thesis
    using add_idempotent by (simp add: addAnn_def blankOp_def policy_defs selfIdentical_def verb_defs)
qed

section \<open>Modify and remove\<close>

text \<open>A loop over a collection: every element is kept or patched, in its place.\<close>

lemma modifyLoop_exact:
  "modifyLoop oe op xs = Inr (n, ys) \<Longrightarrow>
     length ys = length xs \<and> n = length (filter (\<lambda>x. evalOpBool oe (opMatch op) (fst x) = Inr True) xs) \<and>
     (\<forall>i < length xs.
        evalOpBool oe (opMatch op) (fst (xs ! i)) = Inr False \<and> ys ! i = snd (xs ! i) \<or>
        evalOpBool oe (opMatch op) (fst (xs ! i)) = Inr True \<and>
          applyPatch (snd (xs ! i)) (Patch op) (fst (xs ! i)) oe = Inr (ys ! i))"
proof (induction xs arbitrary: n ys)
  case (Cons x xs)
  obtain binds v where x: "x = (binds, v)" by (cases x)
  from Cons.prems x obtain hit v' n' vs where h: "evalOpBool oe (opMatch op) binds = Inr hit"
      "(if hit then applyPatch v (Patch op) binds oe else Inr v) = Inr v'"
      "modifyLoop oe op xs = Inr (n', vs)" "n = (if hit then Suc n' else n')" "ys = v' # vs"
    by (auto split: sum.splits prod.splits)
  show ?case using Cons.IH [OF h(3)] h x by (auto simp: nth_Cons split: nat.splits if_splits)
qed simp

lemma matches_exact:
  "matches oe op binds xs = Inr hits \<Longrightarrow>
     unmatched xs hits = filter (\<lambda>x. evalOpBool oe (opMatch op) (binds x) = Inr False) xs \<and>
     countHits hits = length (filter (\<lambda>x. evalOpBool oe (opMatch op) (binds x) = Inr True) xs) \<and>
     list_all (\<lambda>x. is_ok (evalOpBool oe (opMatch op) (binds x))) xs"
proof (induction xs arbitrary: hits)
  case Nil
  then show ?case by (simp add: matches_def unmatched_def countHits_def)
next
  case (Cons x xs)
  then obtain b bs where "hits = b # bs" "evalOpBool oe (opMatch op) (binds x) = Inr b" "matches oe op binds xs = Inr bs"
    by (auto simp: matches_def split: sum.splits)
  then show ?case using Cons.IH by (cases b) (auto simp: unmatched_def countHits_def)
qed

text \<open>The predicate is defined on the bindings and does not hold.\<close>

definition spares :: "op_eval \<Rightarrow> rendered_op \<Rightarrow> gomap \<Rightarrow> bool" where
  "spares oe op binds \<longleftrightarrow> evalOpBool oe (opMatch op) binds = Inr False"

text \<open>The number of matched elements is what the operation expects.\<close>

definition expected :: "rendered_op \<Rightarrow> nat \<Rightarrow> bool" where
  "expected op n \<longleftrightarrow> (Expect op = ExpectOne \<longrightarrow> n = 1) \<and> (Expect op = ExpectAtMostOne \<longrightarrow> n \<le> 1)"

lemma checkExpect_Inr: "checkExpect op n = Inr u \<longleftrightarrow> expected op n"
  by (auto simp: checkExpect_def expected_def policy_defs)

lemma matches_spares:
  assumes "matches oe op binds xs = Inr hits" "checkExpect op (countHits hits) = Inr u"
  shows "unmatched xs hits = filter (\<lambda>x. spares oe op (binds x)) xs \<and>
    expected op (length xs - length (filter (\<lambda>x. spares oe op (binds x)) xs))"
proof -
  note m = matches_exact [OF assms(1)]
  have "length xs = countHits hits + length (filter (\<lambda>x. spares oe op (binds x)) xs)"
  proof -
    have "(\<not> spares oe op (binds x)) = (evalOpBool oe (opMatch op) (binds x) = Inr True)" if "x \<in> set xs" for x
      using m that by (cases "evalOpBool oe (opMatch op) (binds x)") (auto simp: spares_def list_all_iff)
    then have "filter (\<lambda>x. evalOpBool oe (opMatch op) (binds x) = Inr True) xs = filter (\<lambda>x. \<not> spares oe op (binds x)) xs"
      by (intro filter_cong) auto
    then show ?thesis using m sum_length_filter_compl [of "\<lambda>x. spares oe op (binds x)" xs] by simp
  qed
  then show ?thesis using m assms(2) by (simp add: checkExpect_Inr spares_def)
qed

text \<open>
  Remove keeps exactly the elements its predicate spares, in their order, and only if the number of
  removed ones is what \<^verbatim>\<open>expect\<close> asks for; the predicate was defined on every element it kept.
\<close>

theorem remove_exact:
  assumes "applyStateOp out op schema me oe = Inr out'" and "Verb op = VerbRemove"
    and "map_of out (Field op) = Some v"
  shows "case v of
      VList xs \<Rightarrow> (let kept = filter (\<lambda>x. spares oe op (elemBinds x)) xs in
        map_of out' (Field op) = Some (VList kept) \<and> expected op (length xs - length kept))
    | VMap m \<Rightarrow> (let kept = filter (\<lambda>e. spares oe op (entryBinds e)) m in
        map_of out' (Field op) = Some (VMap kept) \<and> expected op (length m - length kept))
    | _ \<Rightarrow> False"
proof -
  have r: "applyRemoveOp out op oe = Inr out'" using assms(1,2) by (simp add: applyStateOp_def verb_defs)
  show ?thesis
  proof (cases v)
    case (VList xs)
    then obtain hits where "matches oe op elemBinds xs = Inr hits" "checkExpect op (countHits hits) = Inr ()"
        "out' = put (Field op) (VList (unmatched xs hits)) out"
      using r assms(3) by (auto simp: applyRemoveOp_def split: sum.splits)
    then show ?thesis using matches_spares [of oe op elemBinds xs hits] VList by (simp add: update_conv')
  next
    case (VMap m)
    then obtain hits where "matches oe op entryBinds m = Inr hits" "checkExpect op (countHits hits) = Inr ()"
        "out' = put (Field op) (VMap (unmatched m hits)) out"
      using r assms(3) by (auto simp: applyRemoveOp_def split: sum.splits)
    then show ?thesis using matches_spares [of oe op entryBinds m hits] VMap by (simp add: update_conv')
  qed (use r assms(3) in \<open>simp_all add: applyRemoveOp_def\<close>)
qed

text \<open>A predicate on bindings that holds for one element.\<close>

definition isAnn :: op_eval where
  "isAnn match binds boolOut = Inr (VBool (map_of binds ''elem'' = Some (VStr ''ann'')))"

definition removeAnn :: rendered_op where
  "removeAnn = (blankOp VerbRemove ''users'')\<lparr>opMatch := ''elem == ann'', Expect := ExpectOne\<rparr>"

theorem remove_exact_witness:
  "\<exists>out'. applyStateOp [(''users'', VList [VStr ''bob'', VStr ''ann''])] removeAnn [] noMatch isAnn = Inr out' \<and>
     map_of out' ''users'' = Some (VList [VStr ''bob''])"
proof -
  let ?s = "[(''users'', VList [VStr ''bob'', VStr ''ann''])]"
  obtain out' where out: "applyStateOp ?s removeAnn [] noMatch isAnn = Inr out'"
    by (simp add: applyStateOp_def verb_defs removeAnn_def blankOp_def applyRemoveOp_def matches_def evalOpBool_def
        isAnn_def elemBinds_def checkExpect_def policy_defs countHits_def)
  have "map_of ?s (Field removeAnn) = Some (VList [VStr ''bob'', VStr ''ann''])" "Verb removeAnn = VerbRemove"
    by (simp_all add: removeAnn_def blankOp_def)
  from remove_exact [OF out this(2) this(1)] have "map_of out' ''users'' = Some (VList [VStr ''bob''])"
    by (simp add: spares_def evalOpBool_def isAnn_def elemBinds_def removeAnn_def blankOp_def Let_def)
  with out show ?thesis by blast
qed

text \<open>
  Modify patches exactly the matching elements and leaves every other element as it is, at the same
  place and under the same key.
\<close>

theorem modify_exact:
  assumes "applyStateOp out op schema me oe = Inr out'" and "Verb op = VerbModify"
    and "map_of out (Field op) = Some v"
  shows "case v of
      VList xs \<Rightarrow> \<exists>ys. map_of out' (Field op) = Some (VList ys) \<and> length ys = length xs \<and>
        (\<forall>i < length xs. if spares oe op (elemBinds (xs ! i)) then ys ! i = xs ! i
           else applyPatch (xs ! i) (Patch op) (elemBinds (xs ! i)) oe = Inr (ys ! i))
    | VMap m \<Rightarrow> \<exists>n. map_of out' (Field op) = Some (VMap n) \<and> map fst n = map fst m \<and>
        (\<forall>i < length m. if spares oe op (entryBinds (m ! i)) then n ! i = m ! i
           else applyPatch (snd (m ! i)) (Patch op) (entryBinds (m ! i)) oe = Inr (snd (n ! i)))
    | _ \<Rightarrow> False"
proof -
  have r: "applyModifyOp out op oe = Inr out'" using assms(1,2) by (simp add: applyStateOp_def verb_defs)
  show ?thesis
  proof (cases v)
    case (VList xs)
    then obtain n ys where l: "modifyLoop oe op (map (\<lambda>v. (elemBinds v, v)) xs) = Inr (n, ys)"
        "out' = put (Field op) (VList ys) out"
      using r assms(3) by (auto simp: applyModifyOp_def split: sum.splits)
    show ?thesis using modifyLoop_exact [OF l(1)] l(2) VList by (auto simp: update_conv' spares_def)
  next
    case (VMap m)
    then obtain n ys where l: "modifyLoop oe op (map (\<lambda>e. (entryBinds e, snd e)) m) = Inr (n, ys)"
        "out' = put (Field op) (VMap (zip (map fst m) ys)) out"
      using r assms(3) by (auto simp: applyModifyOp_def split: sum.splits)
    show ?thesis using modifyLoop_exact [OF l(1)] l(2) VMap
      by (auto simp: update_conv' spares_def prod_eq_iff intro!: exI [of _ "zip (map fst m) ys"])
  qed (use r assms(3) in \<open>simp_all add: applyModifyOp_def\<close>)
qed

definition modifyAll :: rendered_op where
  "modifyAll = (blankOp VerbModify ''users'')\<lparr>Patch := [(''perms.acl'', VBool True)], opMatch := []\<rparr>"

theorem modify_exact_witness:
  "\<exists>out' ys. applyStateOp [(''users'', VList [VMap []])] modifyAll [] noMatch noOps = Inr out' \<and>
     map_of out' ''users'' = Some (VList ys) \<and> length ys = 1"
proof -
  let ?s = "[(''users'', VList [VMap []])]"
  obtain out' where out: "applyStateOp ?s modifyAll [] noMatch noOps = Inr out'"
    by (simp add: applyStateOp_def verb_defs modifyAll_def blankOp_def applyModifyOp_def evalOpBool_def checkExpect_def)
  have "map_of ?s (Field modifyAll) = Some (VList [VMap []])" "Verb modifyAll = VerbModify"
    by (simp_all add: modifyAll_def blankOp_def)
  from modify_exact [OF out this(2) this(1)] show ?thesis using out by (auto simp: modifyAll_def blankOp_def)
qed

text \<open>An empty predicate matches nothing.\<close>

lemma modifyLoop_none: "opMatch op = [] \<Longrightarrow> modifyLoop oe op xs = Inr (0, map snd xs)"
  by (induction xs) (auto simp: evalOpBool_def)

lemma matches_none: "opMatch op = [] \<Longrightarrow> matches oe op b xs = Inr (replicate (length xs) False)"
  by (induction xs) (auto simp: matches_def evalOpBool_def)

lemma hits_none [simp]:
  "unmatched xs (replicate (length xs) False) = xs" "countHits (replicate n False) = 0"
  by (induction xs) (auto simp: unmatched_def countHits_def)

lemma checkExpect_0:
  "checkExpect op 0 = (if Expect op = ExpectOne then Inl (ExpectFailed ExpectOne 0) else Inr ())"
  by (auto simp: checkExpect_def policy_defs)

text \<open>
  A forgotten predicate is harmless: modify or remove with an empty match leaves the state as it is,
  whatever the field holds, unless it asks for exactly one match, which is then refused.
\<close>

theorem empty_match_noop:
  assumes "Verb op = VerbModify \<or> Verb op = VerbRemove" and "opMatch op = []"
    and "case map_of out (Field op) of None \<Rightarrow> True | Some (VList _) \<Rightarrow> True | Some (VMap _) \<Rightarrow> True | Some _ \<Rightarrow> False"
  shows "applyStateOp out op schema me oe =
    (if Expect op = ExpectOne then Inl (InVerb (Verb op) (Field op) (ExpectFailed ExpectOne 0)) else Inr out)"
proof -
  have "applyModifyOp out op oe = (if Expect op = ExpectOne then Inl (ExpectFailed ExpectOne 0) else Inr out)"
    using assms(3) modifyLoop_none [OF assms(2)]
    by (cases "map_of out (Field op)")
      (auto simp: applyModifyOp_def checkExpect_0 comp_def zip_map_fst_snd put_same split: go_value.splits)
  moreover have "applyRemoveOp out op oe = (if Expect op = ExpectOne then Inl (ExpectFailed ExpectOne 0) else Inr out)"
    using assms(3)
    by (cases "map_of out (Field op)")
      (auto simp: applyRemoveOp_def matches_none [OF assms(2)] checkExpect_0 put_same split: go_value.splits)
  ultimately show ?thesis using assms(1) by (auto simp: applyStateOp_def verb_defs inVerb_def)
qed

theorem empty_match_noop_witness:
  "applyStateOp [(''users'', VList [VStr ''ann''])] (blankOp VerbRemove ''users'') [] noMatch noOps =
     Inr [(''users'', VList [VStr ''ann''])]"
  using empty_match_noop [of "blankOp VerbRemove ''users''" "[(''users'', VList [VStr ''ann''])]" "[]" noMatch noOps]
  by (simp add: blankOp_def policy_defs)

section \<open>Nested paths\<close>

lemma nestedLoop_below: "nestedLoop m p v = Inr m' \<Longrightarrow> p \<noteq> [] \<Longrightarrow> lookup m' p = Some v"
  by (induction m p v arbitrary: m' rule: nestedLoop.induct)
    (auto simp: update_conv' split: option.splits if_splits go_value.splits sum.splits)

lemma nestedLoop_apart: "nestedLoop m p v = Inr m' \<Longrightarrow> p \<parallel> q \<Longrightarrow> lookup m' q = lookup m q"
proof (induction m p v arbitrary: m' q rule: nestedLoop.induct)
  case (2 cur seg rest val)
  obtain k qs where q: "q = k # qs" using 2(4) by (cases q) auto
  show ?case
  proof (cases "k = seg")
    case False
    then show ?thesis using 2(3) q
      by (auto simp: update_conv' split: if_splits option.splits go_value.splits sum.splits)
  next
    case True
    with 2(4) q have apart: "rest \<parallel> qs" "rest \<noteq> []" "qs \<noteq> []" by (auto simp: parallel_def)
    then show ?thesis using 2 q True
      by (auto simp: update_conv' split: option.splits go_value.splits sum.splits)
  qed
qed simp

definition nestAt :: "gomap \<Rightarrow> string list \<Rightarrow> go_value \<Rightarrow> gomap option" where
  "nestAt m p v = (case nestedLoop m p v of Inl _ \<Rightarrow> None | Inr m' \<Rightarrow> Some m')"

lemma nestAt_Some: "nestAt m p v = Some m' \<longleftrightarrow> nestedLoop m p v = Inr m'"
  by (auto simp: nestAt_def split: sum.splits)

interpretation nest: path_writes lookup nestAt
proof unfold_locales
  show "lookup s' p = Some v" if "p \<noteq> []" "nestAt s p v = Some s'" for p s v s'
    using nestedLoop_below that by (simp add: nestAt_Some)
  show "lookup s' q = lookup s q" if "nestAt s p v = Some s'" "p \<parallel> q" for s p v s' q
    using nestedLoop_apart that by (simp add: nestAt_Some)
qed

lemma splitPath_nonempty [simp]: "splitPath path \<noteq> []" "[] \<noteq> splitPath path"
  by (cases path; auto simp: splitPath_def split: list.splits)+

text \<open>A patch is the sequence of its writes, with the values the evaluator gave.\<close>

lemma patchLoop_writes:
  "patchLoop oe binds patch target = Inr target' \<Longrightarrow>
     \<exists>vals. map_result (\<lambda>e. renderPatchValue (snd e) binds oe) patch = Inr vals \<and>
       store_all nestAt target (zip (map (\<lambda>e. splitPath (fst e)) patch) vals) = Some target'"
proof (induction patch arbitrary: target)
  case (Cons e patch)
  obtain path raw where e: "e = (path, raw)" by (cases e)
  from Cons.prems e obtain val t1 where v: "renderPatchValue raw binds oe = Inr val"
      "setNestedPath target path val = Inr t1" "patchLoop oe binds patch t1 = Inr target'"
    by (auto split: sum.splits)
  from Cons.IH [OF v(3)] obtain vals where
    "map_result (\<lambda>e. renderPatchValue (snd e) binds oe) patch = Inr vals"
    "store_all nestAt t1 (zip (map (\<lambda>e. splitPath (fst e)) patch) vals) = Some target'" by blast
  moreover have "nestAt target (splitPath path) val = Some t1" using v(2) by (simp add: nestAt_Some setNestedPath_def)
  ultimately show ?case using v e by simp
qed simp

text \<open>
  A patch is a merge: with pairwise separate paths, every path of the patch shows the value given for
  it and every path separate from all of them is as in the element, whatever the order in which Go
  iterates over the patch.
\<close>

theorem patch_merges:
  assumes "patchLoop oe binds patch target = Inr target'"
    and "sorted_wrt (\<lambda>a b. splitPath (fst a) \<parallel> splitPath (fst b)) patch"
  shows "((path, raw) \<in> set patch \<longrightarrow>
      (\<exists>val. renderPatchValue raw binds oe = Inr val \<and> lookup target' (splitPath path) = Some val))
    \<and> (list_all (\<lambda>e. splitPath (fst e) \<parallel> q) patch \<longrightarrow> lookup target' q = lookup target q)"
proof -
  obtain vals where v: "map_result (\<lambda>e. renderPatchValue (snd e) binds oe) patch = Inr vals"
      "store_all nestAt target (zip (map (\<lambda>e. splitPath (fst e)) patch) vals) = Some target'"
    using patchLoop_writes [OF assms(1)] by blast
  let ?ws = "zip (map (\<lambda>e. splitPath (fst e)) patch) vals"
  have len: "length vals = length patch" using v(1) by (simp add: map_result_Inr list_all2_lengthD)
  have sep: "sorted_wrt (\<lambda>a b. fst a \<parallel> fst b) ?ws" using assms(2) len by (simp add: sorted_wrt_iff_nth_less)
  have ne: "list_all (\<lambda>w. fst w \<noteq> []) ?ws" by (auto simp: list_all_iff dest!: set_zip_leftD)
  have "(path, raw) \<in> set patch \<longrightarrow>
      (\<exists>val. renderPatchValue raw binds oe = Inr val \<and> lookup target' (splitPath path) = Some val)"
  proof
    assume "(path, raw) \<in> set patch"
    then obtain i where i: "i < length patch" "patch ! i = (path, raw)" by (auto simp: in_set_conv_nth)
    then have "(splitPath path, vals ! i) \<in> set ?ws" using len by (force simp: set_zip intro!: exI [of _ i])
    from nest.store_all_stand [OF v(2) sep ne this] have "lookup target' (splitPath path) = Some (vals ! i)" by simp
    moreover have "renderPatchValue raw binds oe = Inr (vals ! i)"
      using v(1) i by (auto simp: map_result_Inr list_all2_conv_all_nth)
    ultimately show "\<exists>val. renderPatchValue raw binds oe = Inr val \<and> lookup target' (splitPath path) = Some val" by blast
  qed
  moreover have "lookup target' q = lookup target q" if "list_all (\<lambda>e. splitPath (fst e) \<parallel> q) patch"
  proof (rule nest.store_all_frame [OF v(2)])
    show "list_all (\<lambda>w. fst w \<parallel> q) ?ws" using that len by (auto simp: list_all_length)
  qed
  ultimately show ?thesis by blast
qed

theorem patch_merges_witness:
  "\<exists>target'. patchLoop noOps [] [(''conf.a'', VInt 1), (''conf.b'', VInt 2)] [(''name'', VStr ''x'')] = Inr target' \<and>
     lookup target' [''conf'', ''b''] = Some (VInt 2)"
proof -
  let ?p = "[(''conf.a'', VInt 1), (''conf.b'', VInt 2)]"
  have s: "splitPath ''conf.a'' = [''conf'', ''a'']" "splitPath ''conf.b'' = [''conf'', ''b'']"
    by (simp_all add: splitPath_def)
  obtain t' where t': "patchLoop noOps [] ?p [(''name'', VStr ''x'')] = Inr t'"
    by (simp add: setNestedPath_def s)
  have "sorted_wrt (\<lambda>a b. splitPath (fst a) \<parallel> splitPath (fst b)) ?p" by (simp add: s parallel_def)
  from patch_merges [OF t' this, of "''conf.b''" "VInt 2"] t' show ?thesis by (simp add: s)
qed

text \<open>
  Paths of one patch that overlap make its outcome depend on the iteration order of a Go map: with
  the field written first the nested path is refused, in the other order the patch succeeds.
\<close>

theorem patch_order_matters:
  "\<exists>patch patch' elem. map_of patch = map_of patch' \<and>
     applyPatch elem patch [] noOps = Inl (PatchFailed ''conf.a'' (NodeNotObject ''conf'')) \<and>
     applyPatch elem patch' [] noOps = Inr (VMap [(''conf'', VBool True)])"
proof (intro exI conjI)
  let ?p = "[(''conf'', VBool True), (''conf.a'', VBool False)]" and ?q = "[(''conf.a'', VBool False), (''conf'', VBool True)]"
  have s: "splitPath ''conf'' = [''conf'']" "splitPath ''conf.a'' = [''conf'', ''a'']" by (simp_all add: splitPath_def)
  show "map_of ?p = map_of ?q" by (auto simp: fun_eq_iff)
  show "applyPatch (VMap []) ?p [] noOps = Inl (PatchFailed ''conf.a'' (NodeNotObject ''conf''))"
    "applyPatch (VMap []) ?q [] noOps = Inr (VMap [(''conf'', VBool True)])"
    by (simp_all add: applyPatch_def deepCopyValue_def setNestedPath_def s)
qed

section \<open>Merged states\<close>

text \<open>
  (C24) A merge lets no declared secret into the state. When the schema has no issue and its fields have names without dots, then in the merged record a secret
  field is absent, and a secret element property is absent from every record of its collection, even if
  an operation has just written one.
\<close>

theorem merge_keeps_no_secret:
  assumes "Merge stateBefore ops schema me oe = Inr out" and "CollectSecretFields schema = (fs, [])"
    and "\<forall>n \<in> fst ` set schema. CHR ''.'' \<notin> set n" and "secretAt schema name p"
  shows "if p = [] then map_of out name = None
    else \<exists>pr. p = [InItems, InProperty pr] \<and>
      (\<forall>v m. map_of out name = Some v \<longrightarrow> m \<in> set (collectionElements v) \<longrightarrow> map_of m pr = None)"
proof -
  obtain s where "out = StripDeclaredSecrets s schema" using assms(1) by (auto simp: Merge_def split: sum.splits)
  then show ?thesis using declared_secrets_stripped [OF assms(2-4), of s] by (simp only:)
qed

definition setUsers :: rendered_op where
  "setUsers = (blankOp VerbSet ''users'')\<lparr>Value := VList [VMap [(''name'', VStr ''ann''), (''password'', VStr ''x'')]]\<rparr>"

theorem merge_keeps_no_secret_witness:
  "\<exists>out. Merge [] [setUsers] usersSchema noMatch noOps = Inr out \<and>
     map_of out ''users'' = Some (VList [VMap [(''name'', VStr ''ann'')]]) \<and>
     list_all (\<lambda>m. map_of m ''password'' = None) (collectionElements (VList [VMap [(''name'', VStr ''ann'')]]))"
proof -
  have "applyStateOp [] setUsers usersSchema noMatch noOps =
      Inr [(''users'', VList [VMap [(''name'', VStr ''ann''), (''password'', VStr ''x'')]])]"
    by (simp add: applyStateOp_def verb_defs setUsers_def blankOp_def)
  then obtain out where out: "Merge [] [setUsers] usersSchema noMatch noOps = Inr out"
      "map_of out ''users'' = Some (VList [VMap [(''name'', VStr ''ann'')]])"
    using users_stripped by (simp add: Merge_def deepCopyMap_def)
  moreover have "\<forall>n \<in> fst ` set usersSchema. CHR ''.'' \<notin> set n" by (simp add: usersSchema_def)
  ultimately show ?thesis
    using merge_keeps_no_secret [OF out(1) users_collected _ users_secretAt] by (auto simp: list_all_iff)
qed

end
