(* ===== verification/State_Verb.thy ===== *)
theory State_Verb
  imports State_Op
begin

text \<open>
  The author's side of a capture step, \<^verbatim>\<open>keeper/internal/stateop/verb.go\<close>: the table of states, the check of a
  task's parameters, the operation built from them, and the operations of a whole plan in order. The
  parameters of a task are the decoded map, absent for a skipped task.
\<close>

section \<open>The table of states\<close>

definition ParamField :: string where "ParamField = ''field''"
definition ParamValue :: string where "ParamValue = ''value''"
definition ParamKey :: string where "ParamKey = ''key''"
definition ParamMatch :: string where "ParamMatch = ''match''"
definition ParamPatch :: string where "ParamPatch = ''patch''"
definition ParamOnConflict :: string where "ParamOnConflict = ''on_conflict''"
definition ParamExpect :: string where "ParamExpect = ''expect''"

lemmas param_defs = ParamField_def ParamValue_def ParamKey_def ParamMatch_def ParamPatch_def ParamOnConflict_def
  ParamExpect_def

definition ModuleName :: string where "ModuleName = ''core.state''"

record spec =
  specVerb :: string
  TakesValue :: bool
  Element :: bool
  NeedsEval :: bool
  RequiredParams :: "string list"
  OptionalParams :: "string list"

definition States :: "(string \<times> spec) list" where
  "States =
    [(''set'', \<lparr>specVerb = VerbSet, TakesValue = True, Element = False, NeedsEval = False,
        RequiredParams = [], OptionalParams = []\<rparr>),
     (''present'', \<lparr>specVerb = VerbPresent, TakesValue = True, Element = False, NeedsEval = False,
        RequiredParams = [], OptionalParams = []\<rparr>),
     (''add'', \<lparr>specVerb = VerbAdd, TakesValue = True, Element = True, NeedsEval = True,
        RequiredParams = [], OptionalParams = [ParamKey, ParamMatch, ParamOnConflict]\<rparr>),
     (''append'', \<lparr>specVerb = VerbAppend, TakesValue = True, Element = True, NeedsEval = False,
        RequiredParams = [], OptionalParams = []\<rparr>),
     (''modify'', \<lparr>specVerb = VerbModify, TakesValue = False, Element = False, NeedsEval = True,
        RequiredParams = [ParamPatch], OptionalParams = [ParamMatch, ParamExpect]\<rparr>),
     (''remove'', \<lparr>specVerb = VerbRemove, TakesValue = False, Element = False, NeedsEval = True,
        RequiredParams = [], OptionalParams = [ParamMatch, ParamExpect]\<rparr>),
     (''unset'', \<lparr>specVerb = VerbUnset, TakesValue = False, Element = False, NeedsEval = False,
        RequiredParams = [], OptionalParams = []\<rparr>)]"

section \<open>Parameters\<close>

datatype param_error =
    ParamMissing string
  | ParamNotString string
  | ParamEmpty string
  | ParamUnknownValue string string
  | ParamNotObject string
  | ParamForeign string string
  | KeyAndMatch

definition StringParam :: "gomap \<Rightarrow> string \<Rightarrow> (param_error, string) result" where
  "StringParam params key =
     (case map_of params key of
        None \<Rightarrow> Inl (ParamMissing key)
      | Some VNil \<Rightarrow> Inl (ParamMissing key)
      | Some (VStr s) \<Rightarrow> if trimSpace s = [] then Inl (ParamEmpty key) else Inr s
      | Some _ \<Rightarrow> Inl (ParamNotString key))"

fun asString :: "go_value \<Rightarrow> string \<Rightarrow> (param_error, string) result" where
  "asString (VStr s) name = (if trimSpace s = [] then Inl (ParamEmpty name) else Inr s)"
| "asString _ name = Inl (ParamNotString name)"

definition asEnum :: "go_value \<Rightarrow> string \<Rightarrow> string list \<Rightarrow> (param_error, string) result" where
  "asEnum raw name allowed =
     (case asString raw name of
        Inl e \<Rightarrow> Inl e
      | Inr s \<Rightarrow> if s \<in> set allowed then Inr s else Inl (ParamUnknownValue name s))"

definition allowedParams :: "spec \<Rightarrow> string list" where
  "allowedParams spec =
     ParamField # (if TakesValue spec then [ParamValue] else []) @ RequiredParams spec @ OptionalParams spec"

definition CheckParams :: "gomap \<Rightarrow> spec \<Rightarrow> param_error list" where
  "CheckParams params spec =
     (case StringParam params ParamField of Inl e \<Rightarrow> [e] | Inr _ \<Rightarrow> []) @
     (if TakesValue spec \<and> map_of params ParamValue = None then [ParamMissing ParamValue] else []) @
     map ParamMissing (filter (\<lambda>name. map_of params name = None) (RequiredParams spec)) @
     map (\<lambda>name. ParamForeign name (specVerb spec)) (filter (\<lambda>name. name \<notin> set (allowedParams spec)) (sort (map fst params)))"

text \<open>An optional parameter: the reader runs where the parameter is given.\<close>

definition optional :: "gomap \<Rightarrow> string \<Rightarrow> 'a \<Rightarrow> (go_value \<Rightarrow> (param_error, 'a) result) \<Rightarrow> (param_error, 'a) result" where
  "optional params name dflt read = (case map_of params name of None \<Rightarrow> Inr dflt | Some raw \<Rightarrow> read raw)"

fun asObject :: "go_value \<Rightarrow> string \<Rightarrow> (param_error, gomap) result" where
  "asObject (VMap m) name = Inr m"
| "asObject _ name = Inl (ParamNotObject name)"

definition BuildOp :: "spec \<Rightarrow> string \<Rightarrow> gomap \<Rightarrow> (param_error, rendered_op) result" where
  "BuildOp spec field params =
     bind_result (optional params ParamKey [] (\<lambda>raw. asString raw ParamKey)) (\<lambda>key.
     bind_result (optional params ParamMatch [] (\<lambda>raw. asString raw ParamMatch)) (\<lambda>match.
     bind_result (optional params ParamOnConflict []
       (\<lambda>raw. asEnum raw ParamOnConflict [OnConflictSkip, OnConflictReplace, OnConflictError])) (\<lambda>conflict.
     bind_result (optional params ParamExpect []
       (\<lambda>raw. asEnum raw ParamExpect [ExpectAny, ExpectOne, ExpectAtMostOne])) (\<lambda>expect.
     bind_result (optional params ParamPatch [] (\<lambda>raw. asObject raw ParamPatch)) (\<lambda>patch.
     if key \<noteq> [] \<and> match \<noteq> [] then Inl KeyAndMatch
     else Inr \<lparr>Verb = specVerb spec, Field = field, Value = VNil, opKey = key, opMatch = match,
               OnConflict = conflict, Patch = patch, Expect = expect\<rparr>)))))"

section \<open>Plans\<close>

record rendered_task =
  taskName :: string
  Module :: string
  Params :: "gomap option"

datatype plan_error =
    UnknownState string string
  | BadParams string "param_error list"
  | BadOp string param_error

text \<open>\<^verbatim>\<open>strings.LastIndexByte\<close>: the part before the last dot and the part after it.\<close>

definition splitLast :: "char \<Rightarrow> string \<Rightarrow> (string \<times> string) option" where
  "splitLast c s =
     (if c \<notin> set s then None
      else let suffix = rev (takeWhile (\<lambda>x. x \<noteq> c) (rev s)) in
        Some (take (length s - length suffix - 1) s, suffix))"

definition SplitModuleAddr :: "string \<Rightarrow> (string \<times> string) option" where
  "SplitModuleAddr addr =
     (if addr = [] then None
      else case splitLast CHR ''.'' addr of
        None \<Rightarrow> Some (addr, [])
      | Some (name, state) \<Rightarrow> if name = [] \<or> state = [] then None else Some (name, state))"

text \<open>The \<^verbatim>\<open>value:\<close> of a state that takes one, assigned after \<open>BuildOp\<close>.\<close>

definition withValue :: "spec \<Rightarrow> gomap \<Rightarrow> rendered_op \<Rightarrow> rendered_op" where
  "withValue spec params op =
     (if TakesValue spec then op\<lparr>Value := (case map_of params ParamValue of None \<Rightarrow> VNil | Some v \<Rightarrow> v)\<rparr> else op)"

definition taskOp :: "rendered_task \<Rightarrow> (plan_error, rendered_op option) result" where
  "taskOp task =
     (case SplitModuleAddr (Module task) of
        None \<Rightarrow> Inr None
      | Some (name, verb) \<Rightarrow>
          if name \<noteq> ModuleName then Inr None
          else case Params task of
            None \<Rightarrow> Inr None
          | Some params \<Rightarrow> (case map_of States verb of
              None \<Rightarrow> Inl (UnknownState (taskName task) verb)
            | Some spec \<Rightarrow>
                if CheckParams params spec \<noteq> [] then Inl (BadParams (taskName task) (CheckParams params spec))
                else (case StringParam params ParamField of
                    Inl e \<Rightarrow> Inl (BadOp (taskName task) e)
                  | Inr field \<Rightarrow> (case BuildOp spec field params of
                      Inl e \<Rightarrow> Inl (BadOp (taskName task) e)
                    | Inr op \<Rightarrow> Inr (Some (withValue spec params op))))))"

fun OpsFromPlan :: "rendered_task list \<Rightarrow> (plan_error, rendered_op list) result" where
  "OpsFromPlan [] = Inr []"
| "OpsFromPlan (task # tasks) =
     (case taskOp task of
        Inl e \<Rightarrow> Inl e
      | Inr o1 \<Rightarrow> (case OpsFromPlan tasks of
          Inl e \<Rightarrow> Inl e
        | Inr ops \<Rightarrow> Inr (case o1 of None \<Rightarrow> ops | Some op \<Rightarrow> op # ops)))"

section \<open>What a plan yields\<close>

text \<open>An operation the engine understands, with parameters from the closed sets.\<close>

definition wf_rendered :: "rendered_op \<Rightarrow> bool" where
  "wf_rendered op \<longleftrightarrow>
     Verb op \<in> specVerb ` snd ` set States \<and> trimSpace (Field op) \<noteq> [] \<and>
     OnConflict op \<in> {[], OnConflictSkip, OnConflictReplace, OnConflictError} \<and>
     Expect op \<in> {[], ExpectAny, ExpectOne, ExpectAtMostOne} \<and>
     (opKey op = [] \<or> opMatch op = [])"

lemma asEnum_Inr: "asEnum raw name allowed = Inr s \<Longrightarrow> s \<in> set allowed"
  by (auto simp: asEnum_def split: sum.splits if_splits)

lemma optional_Inr: "optional params name dflt rd = Inr x \<Longrightarrow> x = dflt \<or> (\<exists>raw. rd raw = Inr x)"
  by (auto simp: optional_def split: option.splits)

lemma BuildOp_Inr:
  assumes "BuildOp spec field params = Inr op"
  shows "Verb op = specVerb spec \<and> Field op = field \<and> (opKey op = [] \<or> opMatch op = []) \<and>
    OnConflict op \<in> {[], OnConflictSkip, OnConflictReplace, OnConflictError} \<and>
    Expect op \<in> {[], ExpectAny, ExpectOne, ExpectAtMostOne}"
proof -
  obtain key match conflict expect patch where
    c: "optional params ParamOnConflict [] (\<lambda>raw. asEnum raw ParamOnConflict [OnConflictSkip, OnConflictReplace, OnConflictError]) = Inr conflict"
    and e: "optional params ParamExpect [] (\<lambda>raw. asEnum raw ParamExpect [ExpectAny, ExpectOne, ExpectAtMostOne]) = Inr expect"
    and op: "\<not> (key \<noteq> [] \<and> match \<noteq> [])"
      "op = \<lparr>Verb = specVerb spec, Field = field, Value = VNil, opKey = key, opMatch = match, OnConflict = conflict,
             Patch = patch, Expect = expect\<rparr>"
    using assms unfolding BuildOp_def by (auto simp: bind_result_Inr split: if_splits)
  have "conflict \<in> {[], OnConflictSkip, OnConflictReplace, OnConflictError}"
    using optional_Inr [OF c] asEnum_Inr by fastforce
  moreover have "expect \<in> {[], ExpectAny, ExpectOne, ExpectAtMostOne}"
    using optional_Inr [OF e] asEnum_Inr by fastforce
  ultimately show ?thesis using op by auto
qed

lemma StringParam_Inr: "StringParam params key = Inr s \<Longrightarrow> trimSpace s \<noteq> []"
  by (cases "map_of params key") (auto simp: StringParam_def split: go_value.splits if_splits)

lemma taskOp_wf:
  assumes "taskOp task = Inr (Some op)"
  shows "wf_rendered op"
proof -
  obtain verb params spec field op0 where
    s: "map_of States verb = Some spec" "StringParam params ParamField = Inr field" "BuildOp spec field params = Inr op0"
    and op: "op = withValue spec params op0"
    using assms unfolding taskOp_def by (auto split: option.splits if_splits sum.splits prod.splits)
  have "specVerb spec \<in> specVerb ` snd ` set States" using map_of_SomeD [OF s(1)] by force
  then show ?thesis using BuildOp_Inr [OF s(3)] StringParam_Inr [OF s(2)] op by (auto simp: wf_rendered_def withValue_def)
qed

lemma OpsFromPlan_wf: "OpsFromPlan tasks = Inr ops \<Longrightarrow> list_all wf_rendered ops"
  by (induction tasks arbitrary: ops) (auto simp: taskOp_wf split: sum.splits option.splits)

lemma wf_verb_known:
  assumes "wf_rendered op"
  shows "applyStateOp out op schema me oe \<noteq> Inl (VerbUnknown v)"
  using assms by (auto simp: wf_rendered_def States_def applyStateOp_def inVerb_def verb_defs split: sum.splits)

text \<open>
  A plan is never half understood: every operation built from it has a verb the engine knows, a
  field that is not blank, policies from their closed sets, and one kind of identity at most; so a merge of
  the plan never stops at an unknown verb.
\<close>

theorem planned_ops_sound:
  assumes "OpsFromPlan tasks = Inr ops"
  shows "list_all wf_rendered ops \<and> mergeLoop i out ops schema me oe \<noteq> Inl (InOp j (VerbUnknown v))"
proof -
  have wf: "list_all wf_rendered ops" using OpsFromPlan_wf assms by blast
  moreover have "mergeLoop i out ops schema me oe \<noteq> Inl (InOp j (VerbUnknown v))"
    using wf wf_verb_known by (induction ops arbitrary: i out) (auto split: sum.splits)
  ultimately show ?thesis by blast
qed

definition addTask :: rendered_task where
  "addTask = \<lparr>taskName = ''add ann'', Module = ''core.state.add'',
     Params = Some [(''field'', VStr ''users''), (''value'', VStr ''ann''), (''on_conflict'', VStr ''skip'')]\<rparr>"

lemma addTask_op: "OpsFromPlan [addTask] = Inr [(blankOp VerbAdd ''users'')\<lparr>Value := VStr ''ann'', OnConflict := ''skip''\<rparr>]"
proof -
  have t: "trimSpace ''users'' = ''users''" "trimSpace ''skip'' = ''skip''"
    by (rule trimSpace_visible; simp add: visible_def code_def)+
  have a: "SplitModuleAddr ''core.state.add'' = Some (''core.state'', ''add'')"
    by (simp add: SplitModuleAddr_def splitLast_def)
  show ?thesis
    by (simp add: taskOp_def addTask_def a ModuleName_def States_def CheckParams_def StringParam_def t param_defs
        allowedParams_def BuildOp_def optional_def asEnum_def policy_defs blankOp_def withValue_def)
qed

theorem planned_ops_sound_witness:
  "wf_rendered ((blankOp VerbAdd ''users'')\<lparr>Value := VStr ''ann'', OnConflict := ''skip''\<rparr>)"
  using planned_ops_sound [OF addTask_op] by simp

text \<open>
  A parameter the verb does not read is refused, wherever the task stands in the plan: it could look like a
  filter on a write that has none.
\<close>

theorem foreign_param_refused:
  assumes "task \<in> set tasks" and "SplitModuleAddr (Module task) = Some (ModuleName, verb)"
    and "Params task = Some params" and "map_of States verb = Some spec"
    and "name \<in> fst ` set params" and "name \<notin> set (allowedParams spec)"
  shows "\<exists>e. OpsFromPlan tasks = Inl e"
proof -
  have "CheckParams params spec \<noteq> []" using assms(5,6) by (auto simp: CheckParams_def filter_empty_conv)
  then have "\<exists>e. taskOp task = Inl e" using assms(2-4) by (simp add: taskOp_def)
  then show ?thesis using assms(1) by (induction tasks) (auto split: sum.splits)
qed

end
