(* ===== verification/Apply_Run.thy ===== *)
theory Apply_Run
  imports Go_Prelude
begin

text \<open>
  The registry of runs (\<^verbatim>\<open>keeper/internal/applyrun\<close>: \<^verbatim>\<open>applyrun.go\<close>, \<^verbatim>\<open>crud.go\<close>, \<^verbatim>\<open>lost.go\<close>) and the recovery
  scan of the reaper (\<^verbatim>\<open>keeper/internal/reaper/purger.go\<close>). The table \<^verbatim>\<open>apply_runs\<close> is the work queue between
  the keepers of a cluster: a row is one host of one step of a run, it is planned, claimed by a worker
  under a lease, handed to the agent of the host and closed by its result.

  A table is a list of rows, in an order that stands for the order of the storage, which nothing fixes.
  A statement that changes rows is a guard and an effect, applied to every row of the table; what
  the statement returns is the number of rows its guard holds of. Two statements read an older version of
  the table than the one they write: the claim and the recovery scan choose their rows in a snapshot and
  write to the current version. Both versions are arguments, so every interleaving of statements of other
  keepers between the read and the write is covered. \<^verbatim>\<open>NOW()\<close> is an argument.
\<close>

section \<open>Statuses\<close>

type_synonym status = string

definition StatusPlanned :: status where "StatusPlanned = ''planned''"
definition StatusClaimed :: status where "StatusClaimed = ''claimed''"
definition StatusRunning :: status where "StatusRunning = ''running''"
definition StatusDispatched :: status where "StatusDispatched = ''dispatched''"
definition StatusSuccess :: status where "StatusSuccess = ''success''"
definition StatusFailed :: status where "StatusFailed = ''failed''"
definition StatusCancelled :: status where "StatusCancelled = ''cancelled''"
definition StatusOrphaned :: status where "StatusOrphaned = ''orphaned''"
definition StatusNoMatch :: status where "StatusNoMatch = ''no_match''"

lemmas status_defs = StatusPlanned_def StatusClaimed_def StatusRunning_def StatusDispatched_def
  StatusSuccess_def StatusFailed_def StatusCancelled_def StatusOrphaned_def StatusNoMatch_def

definition ValidStatus :: "status \<Rightarrow> bool" where
  "ValidStatus s \<longleftrightarrow>
     s \<in> set [StatusPlanned, StatusClaimed, StatusRunning, StatusDispatched, StatusSuccess,
             StatusFailed, StatusCancelled, StatusOrphaned, StatusNoMatch]"

definition terminalStatuses :: "status list" where
  "terminalStatuses = [StatusSuccess, StatusNoMatch, StatusFailed, StatusOrphaned, StatusCancelled]"

definition terminal :: "status \<Rightarrow> bool" where
  "terminal s \<longleftrightarrow> s \<in> set terminalStatuses"

section \<open>Rows\<close>

text \<open>
  \<^verbatim>\<open>ApplyRun\<close>. The recipe is a document this package stores and hands back, of any type; a version that is
  not recorded is the empty string, an empty \<^verbatim>\<open>Input\<close> is a null column. The columns the struct does not
  carry are the extension \<open>run_row\<close>.
\<close>

record 'r apply_run =
  ApplyID :: string
  SID :: string
  IncarnationName :: string
  Scenario :: string
  TaskIdx :: "int option"
  Status :: status
  Passage :: int
  ErrorSummary :: "string option"
  StartedAt :: int
  FinishedAt :: "int option"
  StartedByAID :: "string option"
  ClaimByKID :: "string option"
  ClaimAt :: "int option"
  ClaimExpiresAt :: "int option"
  Attempt :: int
  Recipe :: "'r option"
  Input :: string
  KeeperVersion :: string
  SoulVersion :: string

record run_notice =
  Code :: string
  Module :: string
  Param :: string
  Message :: string

record 'r run_row = "'r apply_run" +
  FailedPlanIndex :: "int option"
  CancelRequested :: bool
  Dropped :: bool
  HandledMark :: bool
  Notices :: "run_notice list"

type_synonym run_key = "string \<times> string \<times> int"

definition rowKey :: "('r, 'z) apply_run_scheme \<Rightarrow> run_key" where
  "rowKey r = (ApplyID r, SID r, Passage r)"

text \<open>The host of a run: the rows of its steps share it.\<close>

definition rowHost :: "('r, 'z) apply_run_scheme \<Rightarrow> string \<times> string" where
  "rowHost r = (ApplyID r, SID r)"

type_synonym 'r run_table = "'r run_row list"

section \<open>Statements\<close>

definition update_where :: "('a \<Rightarrow> bool) \<Rightarrow> ('a \<Rightarrow> 'a) \<Rightarrow> 'a list \<Rightarrow> 'a list" where
  "update_where guard effect t = map (\<lambda>r. if guard r then effect r else r) t"

definition affected :: "('a \<Rightarrow> bool) \<Rightarrow> 'a list \<Rightarrow> nat" where
  "affected guard t = length (filter guard t)"

definition findRow :: "run_key \<Rightarrow> 'r run_table \<Rightarrow> 'r run_row option" where
  "findRow k t = find (\<lambda>r. rowKey r = k) t"

text \<open>SQL \<^verbatim>\<open>COALESCE\<close> of two nullable values.\<close>

fun coalesce :: "'a option \<Rightarrow> 'a option \<Rightarrow> 'a option" where
  "coalesce (Some x) y = Some x"
| "coalesce None y = y"

definition nullableVersion :: "string \<Rightarrow> string option" where
  "nullableVersion v = (if v = [] then None else Some v)"

definition derefVersion :: "string option \<Rightarrow> string" where
  "derefVersion v = (case v of None \<Rightarrow> [] | Some s \<Rightarrow> s)"

text \<open>
  The errors of the package. \<open>ErrApplyRunAlreadyTerminal\<close> and \<open>ErrWardLost\<close> carry what the probe read, which
  their messages name; \<open>IntegerOutOfRange\<close> is the failure to store a number in an \<^verbatim>\<open>INTEGER\<close> column.
\<close>

datatype run_error =
    EmptyArgument string
  | InvalidStatus status
  | NegativeIndex string int
  | NonPositive string int
  | MissingRecipe
  | ErrApplyRunAlreadyExists
  | ForeignKeyViolation
  | ErrApplyRunNotFound
  | ErrApplyRunNotClaimed status
  | ErrApplyRunAlreadyTerminal status
  | ErrWardLost status int
  | IntegerOutOfRange

definition maxInt4 :: int where "maxInt4 = 2147483647"

definition in_int4 :: "int \<Rightarrow> bool" where
  "in_int4 x \<longleftrightarrow> - maxInt4 - 1 \<le> x \<and> x \<le> maxInt4"

section \<open>Inserting rows\<close>

text \<open>
  Whether the rows a foreign key names exist (\<^verbatim>\<open>incarnation\<close>, \<^verbatim>\<open>operators\<close>) is the argument \<open>fk\<close>. An insert
  gives the new row the defaults of its columns.
\<close>

definition insertRow ::
  "('r run_row \<Rightarrow> bool) \<Rightarrow> 'r run_row \<Rightarrow> 'r run_table \<Rightarrow> (run_error, 'r run_table) result" where
  "insertRow fk row t =
     (if \<not> in_int4 (Passage row) \<or> (case TaskIdx row of None \<Rightarrow> False | Some i \<Rightarrow> \<not> in_int4 i)
      then Inl IntegerOutOfRange
      else if findRow (rowKey row) t \<noteq> None then Inl ErrApplyRunAlreadyExists
      else if \<not> fk row then Inl ForeignKeyViolation
      else Inr (t @ [row]))"

definition insertedRow :: "'r apply_run \<Rightarrow> int \<Rightarrow> 'r run_row" where
  "insertedRow run now =
     \<lparr>ApplyID = ApplyID run, SID = SID run, IncarnationName = IncarnationName run,
      Scenario = Scenario run, TaskIdx = TaskIdx run, Status = Status run, Passage = Passage run,
      ErrorSummary = ErrorSummary run, StartedAt = now,
      FinishedAt = (if terminal (Status run) then Some now else None),
      StartedByAID = StartedByAID run, ClaimByKID = None, ClaimAt = None, ClaimExpiresAt = None,
      Attempt = 0, Recipe = None, Input = Input run, KeeperVersion = KeeperVersion run,
      SoulVersion = SoulVersion run, FailedPlanIndex = None, CancelRequested = False,
      Dropped = False, HandledMark = False, Notices = []\<rparr>"

definition Insert ::
  "('r run_row \<Rightarrow> bool) \<Rightarrow> 'r apply_run \<Rightarrow> int \<Rightarrow> 'r run_table \<Rightarrow> (run_error, 'r run_table) result" where
  "Insert fk run now t =
     (if ApplyID run = [] then Inl (EmptyArgument ''apply_id'')
      else if SID run = [] then Inl (EmptyArgument ''sid'')
      else if IncarnationName run = [] then Inl (EmptyArgument ''incarnation_name'')
      else if Scenario run = [] then Inl (EmptyArgument ''scenario'')
      else if \<not> ValidStatus (Status run) then Inl (InvalidStatus (Status run))
      else insertRow fk (insertedRow run now) t)"

definition plannedRow :: "'r apply_run \<Rightarrow> int \<Rightarrow> 'r run_row" where
  "plannedRow run now =
     \<lparr>ApplyID = ApplyID run, SID = SID run, IncarnationName = IncarnationName run,
      Scenario = Scenario run, TaskIdx = None, Status = StatusPlanned, Passage = Passage run,
      ErrorSummary = None, StartedAt = now, FinishedAt = None,
      StartedByAID = StartedByAID run, ClaimByKID = None, ClaimAt = None, ClaimExpiresAt = None,
      Attempt = 0, Recipe = Recipe run, Input = Input run, KeeperVersion = [],
      SoulVersion = [], FailedPlanIndex = None, CancelRequested = False,
      Dropped = False, HandledMark = False, Notices = []\<rparr>"

definition InsertPlanned ::
  "('r run_row \<Rightarrow> bool) \<Rightarrow> 'r apply_run \<Rightarrow> int \<Rightarrow> 'r run_table \<Rightarrow> (run_error, 'r run_table) result" where
  "InsertPlanned fk run now t =
     (if ApplyID run = [] then Inl (EmptyArgument ''apply_id'')
      else if SID run = [] then Inl (EmptyArgument ''sid'')
      else if IncarnationName run = [] then Inl (EmptyArgument ''incarnation_name'')
      else if Scenario run = [] then Inl (EmptyArgument ''scenario'')
      else if Recipe run = None then Inl MissingRecipe
      else insertRow fk (plannedRow run now) t)"

section \<open>Closing rows\<close>

definition closeRow :: "status \<Rightarrow> string option \<Rightarrow> int \<Rightarrow> 'r run_row \<Rightarrow> 'r run_row" where
  "closeRow status summary now r =
     r\<lparr>Status := status, ErrorSummary := coalesce summary (ErrorSummary r), FinishedAt := Some now\<rparr>"

definition updateStatusGuard :: "run_key \<Rightarrow> 'r run_row \<Rightarrow> bool" where
  "updateStatusGuard k r \<longleftrightarrow> rowKey r = k \<and>
     Status r \<in> set [StatusPlanned, StatusClaimed, StatusRunning, StatusDispatched]"

definition updateStatusEffect :: "status \<Rightarrow> string option \<Rightarrow> int \<Rightarrow> 'r run_row \<Rightarrow> 'r run_row" where
  "updateStatusEffect status summary now r =
     r\<lparr>Status := status, ErrorSummary := coalesce summary (ErrorSummary r),
       FinishedAt := (if status = StatusRunning then FinishedAt r else Some now)\<rparr>"

definition UpdateStatus ::
  "string \<Rightarrow> string \<Rightarrow> int \<Rightarrow> status \<Rightarrow> string option \<Rightarrow> int \<Rightarrow> 'r run_table
     \<Rightarrow> (run_error, 'r run_table) result" where
  "UpdateStatus applyID sid passage status summary now t =
     (if applyID = [] then Inl (EmptyArgument ''apply_id'')
      else if sid = [] then Inl (EmptyArgument ''sid'')
      else if \<not> ValidStatus status then Inl (InvalidStatus status)
      else
        (let k = (applyID, sid, passage) in
         if affected (updateStatusGuard k) t = 1
         then Inr (update_where (updateStatusGuard k) (updateStatusEffect status summary now) t)
         else case findRow k t of
           None \<Rightarrow> Inl ErrApplyRunNotFound
         | Some r \<Rightarrow> Inl (ErrApplyRunAlreadyTerminal (Status r))))"

definition wardGuard :: "run_key \<Rightarrow> int \<Rightarrow> 'r run_row \<Rightarrow> bool" where
  "wardGuard k attempt r \<longleftrightarrow> rowKey r = k \<and> Attempt r = attempt \<and>
     Status r \<in> set [StatusClaimed, StatusDispatched]"

definition UpdateWardStatus ::
  "string \<Rightarrow> string \<Rightarrow> int \<Rightarrow> int \<Rightarrow> status \<Rightarrow> string option \<Rightarrow> int \<Rightarrow> 'r run_table
     \<Rightarrow> (run_error, 'r run_table) result" where
  "UpdateWardStatus applyID sid passage attempt status summary now t =
     (if applyID = [] then Inl (EmptyArgument ''apply_id'')
      else if sid = [] then Inl (EmptyArgument ''sid'')
      else if \<not> ValidStatus status \<or> \<not> terminal status then Inl (InvalidStatus status)
      else
        (let k = (applyID, sid, passage) in
         if affected (wardGuard k attempt) t = 1
         then Inr (update_where (wardGuard k attempt) (closeRow status summary now) t)
         else case findRow k t of
           None \<Rightarrow> Inl ErrApplyRunNotFound
         | Some r \<Rightarrow>
             if terminal (Status r) then Inl (ErrApplyRunAlreadyTerminal (Status r))
             else Inl (ErrWardLost (Status r) (Attempt r))))"

definition failLostGuard :: "run_key \<Rightarrow> 'r run_row \<Rightarrow> bool" where
  "failLostGuard k r \<longleftrightarrow> rowKey r = k \<and> Status r = StatusDispatched"

definition failLostEffect :: "string \<Rightarrow> int \<Rightarrow> 'r run_row \<Rightarrow> 'r run_row" where
  "failLostEffect summary now r =
     r\<lparr>Status := StatusFailed, ErrorSummary := coalesce (ErrorSummary r) (Some summary), FinishedAt := Some now\<rparr>"

definition FailLost ::
  "string \<Rightarrow> string \<Rightarrow> int \<Rightarrow> string \<Rightarrow> int \<Rightarrow> 'r run_table \<Rightarrow> 'r run_table \<times> bool" where
  "FailLost applyID sid passage summary now t =
     (let k = (applyID, sid, passage) in
      (update_where (failLostGuard k) (failLostEffect summary now) t, affected (failLostGuard k) t = 1))"

definition StampFinished :: "string \<Rightarrow> string \<Rightarrow> int \<Rightarrow> int \<Rightarrow> 'r run_table \<Rightarrow> 'r run_table" where
  "StampFinished applyID sid passage now t =
     update_where (\<lambda>r. rowKey r = (applyID, sid, passage) \<and> FinishedAt r = None)
       (\<lambda>r. r\<lparr>FinishedAt := Some now\<rparr>) t"

definition WithdrawUnsent :: "string \<Rightarrow> string \<Rightarrow> int \<Rightarrow> 'r run_table \<Rightarrow> 'r run_table \<times> bool" where
  "WithdrawUnsent applyID sid passage t =
     (let k = (applyID, sid, passage) in
      (filter (\<lambda>r. \<not> failLostGuard k r) t, affected (failLostGuard k) t = 1))"

section \<open>What a run reports on the way\<close>

definition RecordTaskFailure ::
  "string \<Rightarrow> string \<Rightarrow> int \<Rightarrow> int \<Rightarrow> int \<Rightarrow> string \<Rightarrow> 'r run_table \<Rightarrow> (run_error, 'r run_table) result" where
  "RecordTaskFailure applyID sid passage taskIdx planIndex summary t =
     (if applyID = [] then Inl (EmptyArgument ''apply_id'')
      else if sid = [] then Inl (EmptyArgument ''sid'')
      else if taskIdx < 0 then Inl (NegativeIndex ''task_idx'' taskIdx)
      else if planIndex < 0 then Inl (NegativeIndex ''plan_index'' planIndex)
      else if maxInt4 < taskIdx \<or> maxInt4 < planIndex then Inl IntegerOutOfRange
      else
        (let hit = (\<lambda>r. rowKey r = (applyID, sid, passage)) in
         if affected hit t = 0 then Inl ErrApplyRunNotFound
         else Inr (update_where hit
           (\<lambda>r. r\<lparr>TaskIdx := coalesce (TaskIdx r) (Some taskIdx),
                  ErrorSummary := coalesce (ErrorSummary r) (Some summary),
                  FailedPlanIndex := coalesce (FailedPlanIndex r) (Some planIndex)\<rparr>) t)))"

definition AppendRunNotices ::
  "string \<Rightarrow> string \<Rightarrow> int \<Rightarrow> run_notice list \<Rightarrow> 'r run_table \<Rightarrow> (run_error, 'r run_table) result" where
  "AppendRunNotices applyID sid passage notices t =
     (if notices = [] then Inr t
      else if applyID = [] then Inl (EmptyArgument ''apply_id'')
      else if sid = [] then Inl (EmptyArgument ''sid'')
      else
        (let hit = (\<lambda>r. rowKey r = (applyID, sid, passage)) in
         if affected hit t = 0 then Inl ErrApplyRunNotFound
         else Inr (update_where hit (\<lambda>r. r\<lparr>Notices := Notices r @ notices\<rparr>) t)))"

definition failureRow :: "run_key \<Rightarrow> 'r run_row \<Rightarrow> bool" where
  "failureRow k r \<longleftrightarrow> rowKey r = k \<and> Status r \<in> set [StatusFailed, StatusOrphaned]"

definition MarkDropped ::
  "string \<Rightarrow> string \<Rightarrow> int \<Rightarrow> 'r run_table \<Rightarrow> (run_error, 'r run_table) result" where
  "MarkDropped applyID sid passage t =
     (let hit = failureRow (applyID, sid, passage) in
      if affected hit t = 0 then Inl ErrApplyRunNotFound
      else Inr (update_where hit (\<lambda>r. r\<lparr>Dropped := True, HandledMark := False\<rparr>) t))"

definition MarkHandled ::
  "string \<Rightarrow> string \<Rightarrow> int \<Rightarrow> 'r run_table \<Rightarrow> (run_error, 'r run_table) result" where
  "MarkHandled applyID sid passage t =
     (let hit = (\<lambda>r. failureRow (applyID, sid, passage) r \<and> \<not> Dropped r) in
      if affected hit t = 0 then Inl ErrApplyRunNotFound
      else Inr (update_where hit (\<lambda>r. r\<lparr>HandledMark := True\<rparr>) t))"

section \<open>Cancellation\<close>

definition cancelGuard :: "string \<Rightarrow> 'r run_row \<Rightarrow> bool" where
  "cancelGuard applyID r \<longleftrightarrow> ApplyID r = applyID \<and>
     Status r \<in> set [StatusPlanned, StatusClaimed, StatusRunning]"

definition RequestCancel :: "string \<Rightarrow> 'r run_table \<Rightarrow> (run_error, 'r run_table \<times> nat) result" where
  "RequestCancel applyID t =
     (if applyID = [] then Inl (EmptyArgument ''apply_id'')
      else Inr (update_where (cancelGuard applyID) (\<lambda>r. r\<lparr>CancelRequested := True\<rparr>) t,
                affected (cancelGuard applyID) t))"

definition SelectCancelRequested ::
  "string \<Rightarrow> string \<Rightarrow> int \<Rightarrow> 'r run_table \<Rightarrow> (run_error, bool) result" where
  "SelectCancelRequested applyID sid passage t =
     (case findRow (applyID, sid, passage) t of
        None \<Rightarrow> Inl ErrApplyRunNotFound | Some r \<Rightarrow> Inr (CancelRequested r))"

definition RunCancelFlagged :: "string \<Rightarrow> 'r run_table \<Rightarrow> bool" where
  "RunCancelFlagged applyID t \<longleftrightarrow> list_ex (\<lambda>r. ApplyID r = applyID \<and> CancelRequested r) t"

section \<open>Claim, handoff and recovery\<close>

text \<open>
  The claim. Its inner select reads planned rows of the snapshot in the order they were started, skips the
  rows another transaction holds, takes a row only if its current version is still planned, and stops at
  the batch. The maximum of the attempts of the host is read in the snapshot, the attempt of the row in
  its current version.
\<close>

definition pickedKeys ::
  "run_key list \<Rightarrow> nat \<Rightarrow> 'r run_table \<Rightarrow> 'r run_table \<Rightarrow> run_key list" where
  "pickedKeys locked batch snap cur =
     map rowKey (take batch (filter
       (\<lambda>r. rowKey r \<notin> set locked
            \<and> list_ex (\<lambda>c. rowKey c = rowKey r \<and> Status c = StatusPlanned) cur)
       (sort_key StartedAt (filter (\<lambda>r. Status r = StatusPlanned) snap))))"

definition nextAttempt :: "'r run_table \<Rightarrow> 'r run_row \<Rightarrow> int" where
  "nextAttempt snap r =
     fold max (map Attempt (filter (\<lambda>h. rowHost h = rowHost r) snap)) (Attempt r) + 1"

definition claimGuard :: "run_key list \<Rightarrow> 'r run_row \<Rightarrow> bool" where
  "claimGuard picked r \<longleftrightarrow> rowKey r \<in> set picked \<and> Status r = StatusPlanned"

definition claimEffect ::
  "string \<Rightarrow> int \<Rightarrow> string \<Rightarrow> int \<Rightarrow> 'r run_table \<Rightarrow> 'r run_row \<Rightarrow> 'r run_row" where
  "claimEffect kid lease keeperVersion now snap r =
     r\<lparr>Status := StatusClaimed, ClaimByKID := Some kid, ClaimAt := Some now,
       ClaimExpiresAt := Some (now + lease), Attempt := nextAttempt snap r,
       KeeperVersion := derefVersion (coalesce (nullableVersion keeperVersion) (nullableVersion (KeeperVersion r)))\<rparr>"

definition scanClaimedRow :: "'r run_row \<Rightarrow> 'r apply_run" where
  "scanClaimedRow r = (apply_run.truncate r)\<lparr>Input := []\<rparr>"

definition ClaimNext ::
  "string \<Rightarrow> int \<Rightarrow> int \<Rightarrow> string \<Rightarrow> int \<Rightarrow> run_key list \<Rightarrow> 'r run_table \<Rightarrow> 'r run_table
     \<Rightarrow> (run_error, 'r run_table \<times> 'r apply_run list) result" where
  "ClaimNext kid lease batch keeperVersion now locked snap cur =
     (if kid = [] then Inl (EmptyArgument ''kid'')
      else if lease \<le> 0 then Inl (NonPositive ''lease'' lease)
      else if batch \<le> 0 then Inl (NonPositive ''batch'' batch)
      else
        (let guard = claimGuard (pickedKeys locked (nat batch) snap cur);
             effect = claimEffect kid lease keeperVersion now snap
         in if list_ex (\<lambda>r. guard r \<and> maxInt4 < nextAttempt snap r) cur then Inl IntegerOutOfRange
            else Inr (update_where guard effect cur,
                      map (\<lambda>r. scanClaimedRow (effect r)) (filter guard cur))))"

definition markGuard :: "run_key \<Rightarrow> int \<Rightarrow> 'r run_row \<Rightarrow> bool" where
  "markGuard k attempt r \<longleftrightarrow> rowKey r = k \<and> Attempt r = attempt \<and> Status r = StatusClaimed"

definition markEffect :: "string \<Rightarrow> 'r run_row \<Rightarrow> 'r run_row" where
  "markEffect soulVersion r =
     r\<lparr>Status := StatusDispatched,
       SoulVersion := derefVersion (coalesce (nullableVersion soulVersion) (nullableVersion (SoulVersion r)))\<rparr>"

definition MarkDispatched ::
  "string \<Rightarrow> string \<Rightarrow> int \<Rightarrow> int \<Rightarrow> string \<Rightarrow> 'r run_table \<Rightarrow> (run_error, 'r run_table) result" where
  "MarkDispatched applyID sid passage attempt soulVersion t =
     (if applyID = [] then Inl (EmptyArgument ''apply_id'')
      else if sid = [] then Inl (EmptyArgument ''sid'')
      else
        (let k = (applyID, sid, passage) in
         if affected (markGuard k attempt) t = 1
         then Inr (update_where (markGuard k attempt) (markEffect soulVersion) t)
         else case findRow k t of
           None \<Rightarrow> Inl ErrApplyRunNotFound
         | Some r \<Rightarrow>
             if Status r = StatusClaimed then Inl (ErrWardLost (Status r) (Attempt r))
             else Inl (ErrApplyRunNotClaimed (Status r))))"

text \<open>The recovery scan of the reaper, over a snapshot and the current version.\<close>

definition defaultBatchSize :: nat where "defaultBatchSize = 1000"

definition expiredWard :: "int \<Rightarrow> 'r run_row \<Rightarrow> bool" where
  "expiredWard now r \<longleftrightarrow> Status r = StatusClaimed \<and>
     (case ClaimExpiresAt r of None \<Rightarrow> False | Some e \<Rightarrow> e < now)"

definition expiredKeys :: "int \<Rightarrow> nat \<Rightarrow> 'r run_table \<Rightarrow> run_key list" where
  "expiredKeys now batch snap =
     map rowKey (take batch (sort_key (\<lambda>r. case ClaimExpiresAt r of None \<Rightarrow> 0 | Some e \<Rightarrow> e)
       (filter (expiredWard now) snap)))"

definition reclaimGuard :: "int \<Rightarrow> run_key list \<Rightarrow> 'r run_row \<Rightarrow> bool" where
  "reclaimGuard now picked r \<longleftrightarrow> expiredWard now r \<and> rowKey r \<in> set picked"

definition reclaimEffect :: "'r run_row \<Rightarrow> 'r run_row" where
  "reclaimEffect r = r\<lparr>Status := StatusPlanned, ClaimByKID := None, ClaimAt := None, ClaimExpiresAt := None\<rparr>"

definition ReclaimApplyRuns ::
  "int \<Rightarrow> int \<Rightarrow> int \<Rightarrow> 'r run_table \<Rightarrow> 'r run_table \<Rightarrow> (run_error, 'r run_table \<times> nat) result" where
  "ReclaimApplyRuns lease batchSize now snap cur =
     (if lease \<le> 0 then Inl (NonPositive ''lease'' lease)
      else
        (let batch = (if batchSize \<le> 0 then defaultBatchSize else nat batchSize);
             guard = reclaimGuard now (expiredKeys now batch snap)
         in Inr (update_where guard reclaimEffect cur, affected guard cur)))"

text \<open>The sweep on a roster of the agent: what the agent does not declare is lost.\<close>

record active_apply =
  aaApplyID :: string
  aaAttempt :: int
  aaPassage :: "int option"

definition orphanDispatchedErrorSummary :: string where
  "orphanDispatchedErrorSummary = ''orphaned: RunResult lost, Soul does not track apply_id''"

definition declaredAlive :: "active_apply option list \<Rightarrow> 'r run_row \<Rightarrow> bool" where
  "declaredAlive known r \<longleftrightarrow>
     list_ex (\<lambda>a. case a of
         None \<Rightarrow> False
       | Some a \<Rightarrow> aaApplyID a \<noteq> [] \<and> aaApplyID a = ApplyID r
           \<and> (case aaPassage a of None \<Rightarrow> True | Some p \<Rightarrow> p = Passage r)) known"

definition orphanGuard :: "string \<Rightarrow> active_apply option list \<Rightarrow> 'r run_row \<Rightarrow> bool" where
  "orphanGuard sid known r \<longleftrightarrow> SID r = sid \<and> Status r = StatusDispatched \<and> \<not> declaredAlive known r"

definition orphanEffect :: "int \<Rightarrow> 'r run_row \<Rightarrow> 'r run_row" where
  "orphanEffect now r =
     r\<lparr>Status := StatusOrphaned, ErrorSummary := Some orphanDispatchedErrorSummary, FinishedAt := Some now\<rparr>"

definition OrphanDispatched ::
  "string \<Rightarrow> active_apply option list \<Rightarrow> int \<Rightarrow> 'r run_table \<Rightarrow> (run_error, 'r run_table \<times> nat) result" where
  "OrphanDispatched sid known now t =
     (if sid = [] then Inl (EmptyArgument ''sid'')
      else Inr (update_where (orphanGuard sid known) (orphanEffect now) t, affected (orphanGuard sid known) t))"

definition SelectIncarnationByApplyID ::
  "string \<Rightarrow> string \<Rightarrow> int \<Rightarrow> 'r run_table \<Rightarrow> (run_error, string \<times> string \<times> int) result" where
  "SelectIncarnationByApplyID applyID sid passage t =
     (case findRow (applyID, sid, passage) t of
        None \<Rightarrow> Inl ErrApplyRunNotFound
      | Some r \<Rightarrow> Inr (IncarnationName r, Scenario r, Attempt r))"

section \<open>Well-formed rows and how a row evolves\<close>

text \<open>
  A row that the package keeps: it names a run and a host, its attempt fits the column and is positive from the first claim on, it has
  a finish time exactly when it is terminal, a claimed row has a lease, and only a failure is marked, once.
\<close>

definition row_ok :: "'r run_row \<Rightarrow> bool" where
  "row_ok r \<longleftrightarrow> ApplyID r \<noteq> [] \<and> SID r \<noteq> [] \<and> ValidStatus (Status r) \<and> in_int4 (Passage r) \<and> 0 \<le> Attempt r \<and> Attempt r \<le> maxInt4
     \<and> (Status r = StatusClaimed \<longrightarrow> 0 < Attempt r \<and> ClaimExpiresAt r \<noteq> None)
     \<and> (FinishedAt r \<noteq> None \<longleftrightarrow> terminal (Status r))
     \<and> (Dropped r \<or> HandledMark r \<longrightarrow> Status r = StatusFailed \<or> Status r = StatusOrphaned)
     \<and> \<not> (Dropped r \<and> HandledMark r)"

definition table_ok :: "'r run_table \<Rightarrow> bool" where
  "table_ok t \<longleftrightarrow> distinct (map rowKey t) \<and> list_all row_ok t"

text \<open>A row the inline path inserted and may withdraw: handed off, and never claimed.\<close>

definition withdrawable :: "'r run_row \<Rightarrow> bool" where
  "withdrawable r \<longleftrightarrow> Status r = StatusDispatched \<and> Attempt r = 0"

text \<open>
  How a row may change while it stays: the attempt does not fall, a terminal status and its attempt are
  final, and a row that was handed off stays handed off at its attempt until it is closed.
\<close>

definition row_evolves :: "'r run_row \<Rightarrow> 'r run_row \<Rightarrow> bool" where
  "row_evolves old new \<longleftrightarrow> rowKey new = rowKey old \<and> Attempt old \<le> Attempt new
     \<and> (terminal (Status old) \<longrightarrow>
          Status new = Status old \<and> Attempt new = Attempt old \<and> FinishedAt new = FinishedAt old)
     \<and> (Status old = StatusDispatched \<longrightarrow>
          (Status new = StatusDispatched \<or> terminal (Status new)) \<and> Attempt new = Attempt old)
     \<and> (withdrawable new \<longrightarrow> withdrawable old)"

definition in_flight :: "'r run_row \<Rightarrow> bool" where
  "in_flight r \<longleftrightarrow> Status r = StatusClaimed \<or> Status r = StatusDispatched"

lemmas run_defs = status_defs terminal_def terminalStatuses_def ValidStatus_def

lemma terminal_simps [simp]:
  "terminal StatusSuccess" "terminal StatusNoMatch" "terminal StatusFailed" "terminal StatusOrphaned"
  "terminal StatusCancelled" "\<not> terminal StatusPlanned" "\<not> terminal StatusClaimed"
  "\<not> terminal StatusRunning" "\<not> terminal StatusDispatched"
  by (simp_all add: run_defs)

lemma status_distinct [simp]:
  "StatusPlanned \<noteq> StatusClaimed" "StatusPlanned \<noteq> StatusRunning"
  "StatusPlanned \<noteq> StatusDispatched" "StatusPlanned \<noteq> StatusSuccess"
  "StatusPlanned \<noteq> StatusFailed" "StatusPlanned \<noteq> StatusCancelled"
  "StatusPlanned \<noteq> StatusOrphaned" "StatusPlanned \<noteq> StatusNoMatch"
  "StatusClaimed \<noteq> StatusPlanned" "StatusClaimed \<noteq> StatusRunning"
  "StatusClaimed \<noteq> StatusDispatched" "StatusClaimed \<noteq> StatusSuccess"
  "StatusClaimed \<noteq> StatusFailed" "StatusClaimed \<noteq> StatusCancelled"
  "StatusClaimed \<noteq> StatusOrphaned" "StatusClaimed \<noteq> StatusNoMatch"
  "StatusRunning \<noteq> StatusPlanned" "StatusRunning \<noteq> StatusClaimed"
  "StatusRunning \<noteq> StatusDispatched" "StatusRunning \<noteq> StatusSuccess"
  "StatusRunning \<noteq> StatusFailed" "StatusRunning \<noteq> StatusCancelled"
  "StatusRunning \<noteq> StatusOrphaned" "StatusRunning \<noteq> StatusNoMatch"
  "StatusDispatched \<noteq> StatusPlanned" "StatusDispatched \<noteq> StatusClaimed"
  "StatusDispatched \<noteq> StatusRunning" "StatusDispatched \<noteq> StatusSuccess"
  "StatusDispatched \<noteq> StatusFailed" "StatusDispatched \<noteq> StatusCancelled"
  "StatusDispatched \<noteq> StatusOrphaned" "StatusDispatched \<noteq> StatusNoMatch"
  "StatusSuccess \<noteq> StatusPlanned" "StatusSuccess \<noteq> StatusClaimed"
  "StatusSuccess \<noteq> StatusRunning" "StatusSuccess \<noteq> StatusDispatched"
  "StatusSuccess \<noteq> StatusFailed" "StatusSuccess \<noteq> StatusCancelled"
  "StatusSuccess \<noteq> StatusOrphaned" "StatusSuccess \<noteq> StatusNoMatch"
  "StatusFailed \<noteq> StatusPlanned" "StatusFailed \<noteq> StatusClaimed"
  "StatusFailed \<noteq> StatusRunning" "StatusFailed \<noteq> StatusDispatched"
  "StatusFailed \<noteq> StatusSuccess" "StatusFailed \<noteq> StatusCancelled"
  "StatusFailed \<noteq> StatusOrphaned" "StatusFailed \<noteq> StatusNoMatch"
  "StatusCancelled \<noteq> StatusPlanned" "StatusCancelled \<noteq> StatusClaimed"
  "StatusCancelled \<noteq> StatusRunning" "StatusCancelled \<noteq> StatusDispatched"
  "StatusCancelled \<noteq> StatusSuccess" "StatusCancelled \<noteq> StatusFailed"
  "StatusCancelled \<noteq> StatusOrphaned" "StatusCancelled \<noteq> StatusNoMatch"
  "StatusOrphaned \<noteq> StatusPlanned" "StatusOrphaned \<noteq> StatusClaimed"
  "StatusOrphaned \<noteq> StatusRunning" "StatusOrphaned \<noteq> StatusDispatched"
  "StatusOrphaned \<noteq> StatusSuccess" "StatusOrphaned \<noteq> StatusFailed"
  "StatusOrphaned \<noteq> StatusCancelled" "StatusOrphaned \<noteq> StatusNoMatch"
  "StatusNoMatch \<noteq> StatusPlanned" "StatusNoMatch \<noteq> StatusClaimed"
  "StatusNoMatch \<noteq> StatusRunning" "StatusNoMatch \<noteq> StatusDispatched"
  "StatusNoMatch \<noteq> StatusSuccess" "StatusNoMatch \<noteq> StatusFailed"
  "StatusNoMatch \<noteq> StatusCancelled" "StatusNoMatch \<noteq> StatusOrphaned"
  by (simp_all add: status_defs)

lemma terminal_neq:
  assumes "terminal s"
  shows "s \<noteq> StatusPlanned" "s \<noteq> StatusClaimed" "s \<noteq> StatusRunning" "s \<noteq> StatusDispatched" "ValidStatus s"
  using assms by (auto simp: run_defs)

lemma valid_nonterminal:
  "ValidStatus s \<and> \<not> terminal s \<longleftrightarrow> s \<in> set [StatusPlanned, StatusClaimed, StatusRunning, StatusDispatched]"
  by (auto simp: run_defs)

lemma valid_simps [simp]:
  "ValidStatus StatusPlanned" "ValidStatus StatusClaimed" "ValidStatus StatusDispatched"
  "ValidStatus StatusFailed" "ValidStatus StatusOrphaned"
  by (simp_all add: run_defs)

lemma row_evolves_refl [simp, intro]: "row_evolves r r"
  by (simp add: row_evolves_def)

lemma row_evolves_trans [trans]: "row_evolves a b \<Longrightarrow> row_evolves b c \<Longrightarrow> row_evolves a c"
  by (auto simp: row_evolves_def dest: terminal_neq)

lemma row_evolves_key: "row_evolves a b \<Longrightarrow> rowKey b = rowKey a"
  by (simp add: row_evolves_def)

lemma row_evolves_host: "row_evolves a b \<Longrightarrow> rowHost b = rowHost a"
  by (simp add: row_evolves_def rowKey_def rowHost_def)

lemma row_evolves_open: "row_evolves a b \<Longrightarrow> \<not> terminal (Status b) \<Longrightarrow> \<not> terminal (Status a)"
  by (auto simp: row_evolves_def)

section \<open>Statements that keep rows well formed\<close>

text \<open>
  The contract of a statement: where its guard holds it keeps the row well formed and lets it evolve. A
  quiet statement claims nothing: it leaves attempts alone and puts no row in flight.
\<close>

locale row_statement =
  fixes guard :: "'r run_row \<Rightarrow> bool" and effect :: "'r run_row \<Rightarrow> 'r run_row"
  assumes effect_ok: "guard r \<Longrightarrow> row_ok r \<Longrightarrow> row_ok (effect r)"
    and effect_evolves: "guard r \<Longrightarrow> row_ok r \<Longrightarrow> row_evolves r (effect r)"
begin

lemma evolves: "list_all row_ok t \<Longrightarrow> list_all2 row_evolves t (update_where guard effect t)"
  by (auto simp: update_where_def list_all2_conv_all_nth list_all_length intro: effect_evolves)

lemma keys: "list_all row_ok t \<Longrightarrow> map rowKey (update_where guard effect t) = map rowKey t"
  by (auto simp: update_where_def list_all_iff intro: row_evolves_key effect_evolves)

lemma ok: "table_ok t \<Longrightarrow> table_ok (update_where guard effect t)"
  using keys by (auto simp: table_ok_def) (auto simp: update_where_def list_all_iff intro: effect_ok)

end

locale quiet_statement = row_statement +
  assumes quiet: "guard r \<Longrightarrow> Attempt (effect r) = Attempt r \<and> (in_flight (effect r) \<longrightarrow> in_flight r)"
begin

lemma stays_quiet:
  "r' \<in> set (update_where guard effect t) \<Longrightarrow> list_all row_ok t \<Longrightarrow>
     \<exists>r \<in> set t. row_evolves r r' \<and> Attempt r' = Attempt r \<and> (in_flight r' \<longrightarrow> in_flight r)"
  by (auto simp: update_where_def list_all_iff dest: quiet intro: effect_evolves split: if_splits)

end

lemmas statement_defs = row_ok_def row_evolves_def rowKey_def in_flight_def withdrawable_def

text \<open>Closing an open row: what every terminal write has in common.\<close>

lemma close_ok:
  assumes "row_ok r" and "\<not> terminal (Status r)" and "terminal s"
  shows "row_ok (r\<lparr>Status := s, ErrorSummary := e, FinishedAt := Some n\<rparr>)"
    and "row_evolves r (r\<lparr>Status := s, ErrorSummary := e, FinishedAt := Some n\<rparr>)"
proof -
  note t = terminal_neq [OF assms(3)]
  have "\<not> Dropped r" "\<not> HandledMark r" using assms(1,2) by (auto simp: row_ok_def)
  with assms t show "row_ok (r\<lparr>Status := s, ErrorSummary := e, FinishedAt := Some n\<rparr>)"
    by (simp add: row_ok_def)
  show "row_evolves r (r\<lparr>Status := s, ErrorSummary := e, FinishedAt := Some n\<rparr>)"
    using assms(2,3) t by (simp add: row_evolves_def rowKey_def withdrawable_def)
qed

lemma close_quiet: "terminal s \<Longrightarrow> \<not> in_flight (r\<lparr>Status := s, ErrorSummary := e, FinishedAt := Some n\<rparr>)"
  by (auto simp: in_flight_def)

lemma updateStatus_open: "updateStatusGuard k r \<Longrightarrow> \<not> terminal (Status r)"
  by (auto simp: updateStatusGuard_def)

lemma updateStatusEffect_terminal:
  "terminal s \<Longrightarrow> updateStatusEffect s summary now r
     = r\<lparr>Status := s, ErrorSummary := coalesce summary (ErrorSummary r), FinishedAt := Some now\<rparr>"
  by (auto simp: updateStatusEffect_def)

lemma updateStatus_quiet:
  "terminal s \<Longrightarrow> quiet_statement (updateStatusGuard k) (updateStatusEffect s summary now)"
  by unfold_locales (simp_all add: updateStatusEffect_terminal close_ok close_quiet updateStatus_open)

lemma wardGuard_open: "wardGuard k attempt r \<Longrightarrow> \<not> terminal (Status r)"
  by (auto simp: wardGuard_def)

lemma ward_quiet:
  "terminal s \<Longrightarrow> quiet_statement (wardGuard k attempt) (closeRow s summary now)"
  by unfold_locales (simp_all add: closeRow_def close_ok close_quiet wardGuard_open)

interpretation lost: quiet_statement "failLostGuard k" "failLostEffect summary now"
  by unfold_locales (simp_all add: failLostGuard_def failLostEffect_def close_ok close_quiet)

interpretation orphan: quiet_statement "orphanGuard sid known" "orphanEffect now"
  by unfold_locales (simp_all add: orphanGuard_def orphanEffect_def close_ok close_quiet)

interpretation cancel: quiet_statement "cancelGuard a" "\<lambda>r. r\<lparr>CancelRequested := True\<rparr>"
  by unfold_locales (auto simp: statement_defs)

interpretation marked: quiet_statement "markGuard k attempt" "markEffect v"
  by unfold_locales (auto simp: statement_defs markGuard_def markEffect_def)

interpretation reclaim: quiet_statement "reclaimGuard now picked" reclaimEffect
  by unfold_locales (auto simp: statement_defs reclaimGuard_def reclaimEffect_def expiredWard_def)

interpretation drop: quiet_statement "failureRow k" "\<lambda>r. r\<lparr>Dropped := True, HandledMark := False\<rparr>"
  by unfold_locales (auto simp: statement_defs failureRow_def)

interpretation handle: quiet_statement "\<lambda>r. failureRow k r \<and> \<not> Dropped r" "\<lambda>r. r\<lparr>HandledMark := True\<rparr>"
  by unfold_locales (auto simp: statement_defs failureRow_def)

interpretation failure: quiet_statement "\<lambda>r. rowKey r = k"
  "\<lambda>r. r\<lparr>TaskIdx := coalesce (TaskIdx r) i, ErrorSummary := coalesce (ErrorSummary r) s,
        FailedPlanIndex := coalesce (FailedPlanIndex r) p\<rparr>"
  by unfold_locales (auto simp: statement_defs)

interpretation notices: quiet_statement "\<lambda>r. rowKey r = k" "\<lambda>r. r\<lparr>Notices := Notices r @ ns\<rparr>"
  by unfold_locales (auto simp: statement_defs)

lemma fold_max_ge: "(x::int) \<le> fold max xs x" "y \<in> set xs \<Longrightarrow> y \<le> fold max xs x"
proof -
  have *: "x \<le> fold max xs x \<and> (\<forall>y \<in> set xs. y \<le> fold max xs x)" for x
    by (induction xs arbitrary: x) (auto, (metis max.bounded_iff)+)
  show "x \<le> fold max xs x" "y \<in> set xs \<Longrightarrow> y \<le> fold max xs x" using * by auto
qed

lemma nextAttempt_gt:
  "Attempt r < nextAttempt snap r"
  "h \<in> set snap \<Longrightarrow> rowHost h = rowHost r \<Longrightarrow> Attempt h < nextAttempt snap r"
  using fold_max_ge by (auto simp: nextAttempt_def intro: le_less_trans) 

interpretation claim: row_statement "\<lambda>r. claimGuard picked r \<and> nextAttempt snap r \<le> maxInt4"
  "claimEffect kid lease kv now snap"
  using nextAttempt_gt(1)
  by unfold_locales (auto simp: statement_defs claimGuard_def claimEffect_def intro: less_imp_le le_less_trans)

section \<open>Rows by key\<close>

lemma findRow_Some: "findRow k t = Some r \<Longrightarrow> r \<in> set t \<and> rowKey r = k"
  by (auto simp: findRow_def find_Some_iff)

lemma findRow_None: "findRow k t = None \<longleftrightarrow> (\<forall>r \<in> set t. rowKey r \<noteq> k)"
  by (auto simp: findRow_def find_None_iff)

lemma rowKey_unique:
  "distinct (map rowKey t) \<Longrightarrow> r \<in> set t \<Longrightarrow> r' \<in> set t \<Longrightarrow> rowKey r = rowKey r' \<Longrightarrow> r = r'"
  by (auto simp: distinct_map inj_on_def)

lemma findRow_in: "distinct (map rowKey t) \<Longrightarrow> r \<in> set t \<Longrightarrow> findRow (rowKey r) t = Some r"
  by (cases "findRow (rowKey r) t") (auto simp: findRow_None dest: findRow_Some rowKey_unique)

text \<open>A statement on one key touches at most one row, and one exactly if its guard holds of that row.\<close>

lemma affected_key:
  assumes "distinct (map rowKey t)" and "\<And>r. guard r \<Longrightarrow> rowKey r = k"
  shows "affected guard t = (case findRow k t of None \<Rightarrow> 0 | Some r \<Rightarrow> if guard r then 1 else 0)"
proof (cases "findRow k t")
  case None
  then have "filter guard t = []" using assms(2) by (auto simp: findRow_None filter_empty_conv)
  with None show ?thesis by (simp add: affected_def)
next
  case (Some r)
  have "filter guard t = (if guard r then [r] else [])"
  proof -
    obtain xs ys where t: "t = xs @ r # ys" using findRow_Some [OF Some] by (meson split_list)
    have "rowKey x \<noteq> rowKey r" if "x \<in> set xs \<union> set ys" for x
      using that assms(1) unfolding t by (auto simp: image_iff)
    then have "\<not> guard x" if "x \<in> set xs \<union> set ys" for x
      using that assms(2) findRow_Some [OF Some] by metis
    then have "filter guard xs = []" "filter guard ys = []" by (auto simp: filter_empty_conv)
    with t show ?thesis by simp
  qed
  with Some show ?thesis by (simp add: affected_def)
qed

lemma affected_one:
  assumes "table_ok t" and "\<And>r. guard r \<Longrightarrow> rowKey r = k"
  shows "affected guard t = 1 \<longleftrightarrow> (\<exists>r. findRow k t = Some r \<and> guard r)"
  using affected_key [of t guard k] assms by (auto simp: table_ok_def split: option.splits if_splits)

lemma guards_key:
  "updateStatusGuard k r \<Longrightarrow> rowKey r = k" "wardGuard k a r \<Longrightarrow> rowKey r = k"
  "failLostGuard k r \<Longrightarrow> rowKey r = k" "markGuard k a r \<Longrightarrow> rowKey r = k" "failureRow k r \<Longrightarrow> rowKey r = k"
  by (simp_all add: updateStatusGuard_def wardGuard_def failLostGuard_def markGuard_def failureRow_def)

lemma update_where_id: "(\<And>r. r \<in> set t \<Longrightarrow> \<not> guard r) \<Longrightarrow> update_where guard effect t = t"
  by (simp add: update_where_def map_idI)

text \<open>Inserting.\<close>

lemma insertRow_ok:
  assumes "insertRow fk row t = Inr t'" and "table_ok t" and "row_ok row"
  shows "table_ok t' \<and> t' = t @ [row] \<and> (\<forall>r \<in> set t. rowKey r \<noteq> rowKey row)"
proof -
  from assms(1) have "t' = t @ [row]" and "\<forall>r \<in> set t. rowKey r \<noteq> rowKey row"
    by (auto simp: insertRow_def findRow_None simp del: not_None_eq split: if_splits)
  with assms(2,3) show ?thesis by (auto simp: table_ok_def)
qed

lemma insertRow_Inr: "insertRow fk row t = Inr t' \<Longrightarrow> in_int4 (Passage row)"
  by (auto simp: insertRow_def split: if_splits)

lemma Insert_Inr:
  assumes "Insert fk run now t = Inr t'"
  shows "insertRow fk (insertedRow run now) t = Inr t'" and "ValidStatus (Status run)"
    and "in_int4 (Passage run)" and "ApplyID run \<noteq> []" and "SID run \<noteq> []"
proof -
  show i: "insertRow fk (insertedRow run now) t = Inr t'" "ValidStatus (Status run)" "ApplyID run \<noteq> []" "SID run \<noteq> []"
    using assms by (auto simp: Insert_def split: if_splits)
  show "in_int4 (Passage run)" using insertRow_Inr [OF i(1)] by (simp add: insertedRow_def)
qed

lemma InsertPlanned_Inr:
  assumes "InsertPlanned fk run now t = Inr t'"
  shows "insertRow fk (plannedRow run now) t = Inr t'" and "in_int4 (Passage run)"
    and "ApplyID run \<noteq> []" and "SID run \<noteq> []"
proof -
  show i: "insertRow fk (plannedRow run now) t = Inr t'" "ApplyID run \<noteq> []" "SID run \<noteq> []"
    using assms by (auto simp: InsertPlanned_def split: if_splits)
  show "in_int4 (Passage run)" using insertRow_Inr [OF i(1)] by (simp add: plannedRow_def)
qed

lemma insertedRow_ok:
  "ValidStatus (Status run) \<Longrightarrow> in_int4 (Passage run) \<Longrightarrow> ApplyID run \<noteq> [] \<Longrightarrow> SID run \<noteq> [] \<Longrightarrow>
     Status run \<noteq> StatusClaimed \<Longrightarrow> row_ok (insertedRow run now)"
  by (auto simp: row_ok_def insertedRow_def maxInt4_def)

lemma plannedRow_ok:
  "in_int4 (Passage run) \<Longrightarrow> ApplyID run \<noteq> [] \<Longrightarrow> SID run \<noteq> [] \<Longrightarrow> row_ok (plannedRow run now)"
  by (auto simp: row_ok_def plannedRow_def maxInt4_def)

end
