(* ===== verification/Ward_Cluster.thy ===== *)
theory Ward_Cluster
  imports Apply_Run
begin

text \<open>
  The life of a queued step across the cluster: the worker of a keeper that claims a row, renders it, marks
  it and sends it (\<^verbatim>\<open>keeper/internal/scenario/claim.go\<close>), the fence of the agent
  (\<^verbatim>\<open>soul/internal/runtime/applyrunner.go\<close>, \<^verbatim>\<open>soul/cmd/soul/main.go\<close>), and the handlers of what comes back
  (\<^verbatim>\<open>keeper/internal/grpc/events_runresult.go\<close>, \<^verbatim>\<open>events_wardroster.go\<close>). The handlers are functions; the
  cluster is a step relation in which any number of workers, agents, reapers and run goroutines interleave
  statement by statement, workers die at any point, messages are lost and agents restart.
\<close>

section \<open>The worker\<close>

text \<open>
  \<open>execute\<close> runs four statements on the table, and other keepers write between them. So it is four functions,
  and a value of \<open>ward\<close> is the point the worker is at. What the render and the send do is their argument.
\<close>

datatype ('r, 't) ward =
    WClaimed "'r apply_run"
  | WRendered "'r apply_run" "'t list"
  | WChecked "'r apply_run" "'t list"
  | WMarked "'r apply_run" "'t list"

fun wardRun :: "('r, 't) ward \<Rightarrow> 'r apply_run" where
  "wardRun (WClaimed run) = run"
| "wardRun (WRendered run ts) = run"
| "wardRun (WChecked run ts) = run"
| "wardRun (WMarked run ts) = run"

datatype 't render_outcome =
    RenderFailed bool string
  | RenderedTasks "'t list"

record 't apply_request =
  rqSid :: string
  rqApplyId :: string
  rqTasks :: "'t list"
  rqAttempt :: int
  rqPassage :: int

text \<open>The Go conversion \<^verbatim>\<open>int32(n)\<close>.\<close>

definition int32 :: "int \<Rightarrow> int" where
  "int32 n = (n + 2147483648) mod 4294967296 - 2147483648"

definition closeWard ::
  "'r apply_run \<Rightarrow> status \<Rightarrow> string option \<Rightarrow> int \<Rightarrow> 'r run_table \<Rightarrow> (run_error, 'r run_table) result" where
  "closeWard run status summary now t =
     UpdateWardStatus (ApplyID run) (SID run) (Passage run) (Attempt run) status summary now t"

text \<open>A refused write is logged and leaves the table as it is.\<close>

definition written :: "'r run_table \<Rightarrow> (run_error, 'r run_table) result \<Rightarrow> 'r run_table" where
  "written t res = (case res of Inl _ \<Rightarrow> t | Inr t' \<Rightarrow> t')"

definition markFailed :: "'r apply_run \<Rightarrow> string \<Rightarrow> int \<Rightarrow> 'r run_table \<Rightarrow> 'r run_table" where
  "markFailed run summary now t = written t (closeWard run StatusFailed (Some summary) now t)"

definition executeRender ::
  "'t render_outcome \<Rightarrow> bool \<Rightarrow> int \<Rightarrow> 'r apply_run \<Rightarrow> 'r run_table
     \<Rightarrow> 'r run_table \<times> ('r, 't) ward option" where
  "executeRender outcome aborted now run t =
     (if Recipe run = None then (markFailed run ''recipe_missing'' now t, None)
      else case outcome of
        RenderFailed destroyed summary \<Rightarrow>
          if aborted then (t, None)
          else if destroyed then (written t (closeWard run StatusNoMatch None now t), None)
          else (markFailed run summary now t, None)
      | RenderedTasks hostTasks \<Rightarrow>
          if hostTasks = [] then (written t (closeWard run StatusNoMatch None now t), None)
          else (t, Some (WRendered run hostTasks)))"

definition executeCancelWindow ::
  "int \<Rightarrow> 'r apply_run \<Rightarrow> 't list \<Rightarrow> 'r run_table \<Rightarrow> 'r run_table \<times> ('r, 't) ward option" where
  "executeCancelWindow now run hostTasks t =
     (case SelectCancelRequested (ApplyID run) (SID run) (Passage run) t of
        Inl _ \<Rightarrow> (t, Some (WChecked run hostTasks))
      | Inr cancelled \<Rightarrow>
          if cancelled then (written t (closeWard run StatusCancelled None now t), None)
          else (t, Some (WChecked run hostTasks)))"

definition executeMark ::
  "bool \<Rightarrow> string \<Rightarrow> 'r apply_run \<Rightarrow> 't list \<Rightarrow> 'r run_table \<Rightarrow> 'r run_table \<times> ('r, 't) ward option" where
  "executeMark aborted soulVersion run hostTasks t =
     (if aborted then (t, None)
      else case MarkDispatched (ApplyID run) (SID run) (Passage run) (Attempt run) soulVersion t of
        Inl _ \<Rightarrow> (t, None)
      | Inr t' \<Rightarrow> (t', Some (WMarked run hostTasks)))"

definition applyRequest :: "'r apply_run \<Rightarrow> 't list \<Rightarrow> 't apply_request" where
  "applyRequest run hostTasks =
     \<lparr>rqSid = SID run, rqApplyId = ApplyID run, rqTasks = hostTasks,
      rqAttempt = int32 (Attempt run), rqPassage = int32 (Passage run)\<rparr>"

definition executeSend :: "bool \<Rightarrow> int \<Rightarrow> 'r apply_run \<Rightarrow> 'r run_table \<Rightarrow> 'r run_table" where
  "executeSend confirmed now run t =
     (if confirmed then t else markFailed run ''send_apply_failed'' now t)"

text \<open>The whole handler, when nobody else writes between its statements.\<close>

definition execute ::
  "'t render_outcome \<Rightarrow> bool \<Rightarrow> bool \<Rightarrow> string \<Rightarrow> bool \<Rightarrow> int \<Rightarrow> 'r apply_run \<Rightarrow> 'r run_table
     \<Rightarrow> 'r run_table \<times> 't apply_request option" where
  "execute outcome abortedRender abortedMark soulVersion confirmed now run t =
     (case executeRender outcome abortedRender now run t of
        (t1, Some (WRendered run hostTasks)) \<Rightarrow>
          (case executeCancelWindow now run hostTasks t1 of
             (t2, Some (WChecked run hostTasks)) \<Rightarrow>
               (case executeMark abortedMark soulVersion run hostTasks t2 of
                  (t3, Some (WMarked run hostTasks)) \<Rightarrow>
                    (executeSend confirmed now run t3, Some (applyRequest run hostTasks))
                | (t3, _) \<Rightarrow> (t3, None))
           | (t2, _) \<Rightarrow> (t2, None))
      | (t1, _) \<Rightarrow> (t1, None))"

section \<open>The agent\<close>

text \<open>A missing entry of the Go map reads zero.\<close>

definition lastSeen :: "(string \<rightharpoonup> int) \<Rightarrow> string \<Rightarrow> int" where
  "lastSeen seen applyID = (case seen applyID of None \<Rightarrow> 0 | Some a \<Rightarrow> a)"

definition AcceptAttempt ::
  "(string \<rightharpoonup> int) \<Rightarrow> string \<Rightarrow> int \<Rightarrow> (string \<rightharpoonup> int) \<times> bool" where
  "AcceptAttempt seen applyID attempt =
     (if attempt = 0 then (seen, True)
      else if attempt < lastSeen seen applyID then (seen, False)
      else (seen(applyID \<mapsto> attempt), True))"

section \<open>What comes back\<close>

datatype run_status =
    RUN_STATUS_UNSPECIFIED | RUN_STATUS_SUCCESS | RUN_STATUS_FAILED | RUN_STATUS_CANCELLED | RUN_STATUS_ERROR_LOCKED

definition runStatusToApplyStatus :: "run_status \<Rightarrow> status" where
  "runStatusToApplyStatus rs =
     (case rs of
        RUN_STATUS_SUCCESS \<Rightarrow> StatusSuccess
      | RUN_STATUS_CANCELLED \<Rightarrow> StatusCancelled
      | _ \<Rightarrow> StatusFailed)"

record run_result =
  rrApplyId :: string
  rrAttempt :: int
  rrPassage :: int
  rrStatus :: run_status

datatype correlation = NoRow | StaleDrop | NotWritten run_error | Correlated status

definition correlateRunResult ::
  "string \<Rightarrow> run_result \<Rightarrow> int \<Rightarrow> 'r run_table \<Rightarrow> 'r run_table \<times> correlation" where
  "correlateRunResult sid ev now t =
     (case SelectIncarnationByApplyID (rrApplyId ev) sid (rrPassage ev) t of
        Inl _ \<Rightarrow> (t, NoRow)
      | Inr (name, scenario, rowAttempt) \<Rightarrow>
          if rrAttempt ev \<noteq> 0 \<and> rrAttempt ev < rowAttempt then (t, StaleDrop)
          else
            (let status = runStatusToApplyStatus (rrStatus ev) in
             case UpdateStatus (rrApplyId ev) sid (rrPassage ev) status None now t of
               Inl e \<Rightarrow> (t, NotWritten e)
             | Inr t' \<Rightarrow> (t', Correlated status)))"

text \<open>The agent echoes the attempt and the passage of the request it ran.\<close>

definition resultOf :: "'t apply_request \<Rightarrow> run_status \<Rightarrow> run_result" where
  "resultOf q st = \<lparr>rrApplyId = rqApplyId q, rrAttempt = rqAttempt q, rrPassage = rqPassage q, rrStatus = st\<rparr>"

text \<open>The sweep: what the roster declares, and what was already routed to the session.\<close>

definition wardRosterToActive :: "active_apply option list \<Rightarrow> active_apply option list" where
  "wardRosterToActive src = filter (\<lambda>a. a \<noteq> None) src"

definition routedToSession :: "(string \<times> int) list \<Rightarrow> active_apply option list" where
  "routedToSession routed =
     map (\<lambda>(applyID, passage). Some \<lparr>aaApplyID = applyID, aaAttempt = 0, aaPassage = Some passage\<rparr>) routed"

definition handleWardRoster ::
  "string \<Rightarrow> active_apply option list \<Rightarrow> (string \<times> int) list \<Rightarrow> int \<Rightarrow> 'r run_table \<Rightarrow> 'r run_table" where
  "handleWardRoster sid roster routed now t =
     (case OrphanDispatched sid (wardRosterToActive roster @ routedToSession routed) now t of
        Inl _ \<Rightarrow> t | Inr (t', n) \<Rightarrow> t')"

section \<open>The cluster\<close>

text \<open>
  The state: the committed table and its earlier versions, the workers under way, the requests sent so far,
  those not yet delivered, those an agent accepted, and the fence of every agent.
\<close>

record ('r, 't) cluster =
  tbl :: "'r run_table"
  past :: "'r run_table list"
  wards :: "('r, 't) ward list"
  sent :: "'t apply_request list"
  net :: "'t apply_request list"
  accepted :: "'t apply_request list"
  seenBy :: "string \<Rightarrow> string \<rightharpoonup> int"

definition commit :: "'r run_table \<Rightarrow> ('r, 't) cluster \<Rightarrow> ('r, 't) cluster" where
  "commit t' s = s\<lparr>tbl := t', past := tbl s # past s\<rparr>"

text \<open>The statements of everybody but the workers. A run goroutine only writes terminal statuses.\<close>

inductive other_write :: "'r run_table list \<Rightarrow> 'r run_table \<Rightarrow> 'r run_table \<Rightarrow> bool" for vs where
  close: "terminal st \<Longrightarrow> UpdateStatus a sid p st summary now t = Inr t' \<Longrightarrow> other_write vs t t'"
| lost: "FailLost a sid p summary now t = (t', b) \<Longrightarrow> other_write vs t t'"
| cancel: "RequestCancel a t = Inr (t', n) \<Longrightarrow> other_write vs t t'"
| failure: "RecordTaskFailure a sid p i j summary t = Inr t' \<Longrightarrow> other_write vs t t'"
| notices: "AppendRunNotices a sid p ns t = Inr t' \<Longrightarrow> other_write vs t t'"
| dropped: "MarkDropped a sid p t = Inr t' \<Longrightarrow> other_write vs t t'"
| handled: "MarkHandled a sid p t = Inr t' \<Longrightarrow> other_write vs t t'"
| roster: "handleWardRoster sid roster routed now t = t' \<Longrightarrow> other_write vs t t'"
| reclaim: "snap \<in> set vs \<Longrightarrow> ReclaimApplyRuns lease batch now snap t = Inr (t', n) \<Longrightarrow> other_write vs t t'"

text \<open>
  A run sends a host its next step when the rows of its earlier steps are closed: a row is inserted open
  only for a host without an open row.
\<close>

definition host_closed :: "'r apply_run \<Rightarrow> 'r run_table \<Rightarrow> bool" where
  "host_closed run t \<longleftrightarrow> list_all (\<lambda>r. rowHost r = rowHost run \<longrightarrow> terminal (Status r)) t"

definition replaceWard :: "('r, 't) ward list \<Rightarrow> ('r, 't) ward option \<Rightarrow> ('r, 't) ward list \<Rightarrow> ('r, 't) ward list" where
  "replaceWard ws w ws' = ws @ (case w of None \<Rightarrow> [] | Some v \<Rightarrow> [v]) @ ws'"

inductive cstep :: "('r, 't) cluster \<Rightarrow> ('r, 't) cluster \<Rightarrow> bool" where
  plan: "InsertPlanned fk run now (tbl s) = Inr t' \<Longrightarrow> host_closed run (tbl s) \<Longrightarrow> cstep s (commit t' s)"
| insert: "Insert fk run now (tbl s) = Inr t' \<Longrightarrow> Status run \<noteq> StatusPlanned \<Longrightarrow> Status run \<noteq> StatusClaimed \<Longrightarrow>
    terminal (Status run) \<or> host_closed run (tbl s) \<Longrightarrow> cstep s (commit t' s)"
| withdraw: "WithdrawUnsent a sid p (tbl s) = (t', b) \<Longrightarrow>
    list_all (\<lambda>r. rowKey r = (a, sid, p) \<longrightarrow> Attempt r = 0) (tbl s) \<Longrightarrow> cstep s (commit t' s)"
| other: "other_write (tbl s # past s) (tbl s) t' \<Longrightarrow> cstep s (commit t' s)"
| claim: "snap \<in> set (tbl s # past s) \<Longrightarrow>
    ClaimNext kid lease batch kv now locked snap (tbl s) = Inr (t', runs) \<Longrightarrow>
    cstep s ((commit t' s)\<lparr>wards := wards s @ map WClaimed runs\<rparr>)"
| render: "wards s = ws @ WClaimed run # ws' \<Longrightarrow> executeRender outcome aborted now run (tbl s) = (t', w) \<Longrightarrow>
    cstep s ((commit t' s)\<lparr>wards := replaceWard ws w ws'\<rparr>)"
| window: "wards s = ws @ WRendered run ts # ws' \<Longrightarrow> executeCancelWindow now run ts (tbl s) = (t', w) \<Longrightarrow>
    cstep s ((commit t' s)\<lparr>wards := replaceWard ws w ws'\<rparr>)"
| mark: "wards s = ws @ WChecked run ts # ws' \<Longrightarrow> executeMark aborted sv run ts (tbl s) = (t', w) \<Longrightarrow>
    cstep s ((commit t' s)\<lparr>wards := replaceWard ws w ws'\<rparr>)"
| send: "wards s = ws @ WMarked run ts # ws' \<Longrightarrow> q = applyRequest run ts \<Longrightarrow>
    cstep s ((commit (executeSend confirmed now run (tbl s)) s)
      \<lparr>wards := ws @ ws', sent := sent s @ [q], net := net s @ (if transmitted then [q] else [])\<rparr>)"
| die: "wards s = ws @ w # ws' \<Longrightarrow> cstep s (s\<lparr>wards := ws @ ws'\<rparr>)"
| deliver: "net s = qs @ q # qs' \<Longrightarrow> AcceptAttempt (seenBy s (rqSid q)) (rqApplyId q) (rqAttempt q) = (seen', ok) \<Longrightarrow>
    cstep s (s\<lparr>net := qs @ qs', seenBy := (seenBy s)(rqSid q := seen'),
      accepted := accepted s @ (if ok then [q] else [])\<rparr>)"
| lose: "net s = qs @ q # qs' \<Longrightarrow> cstep s (s\<lparr>net := qs @ qs'\<rparr>)"
| restart: "cstep s (s\<lparr>seenBy := (seenBy s)(sid := Map.empty)\<rparr>)"
| result: "q \<in> set (accepted s) \<Longrightarrow> correlateRunResult (rqSid q) (resultOf q st) now (tbl s) = (t', c) \<Longrightarrow>
    cstep s (commit t' s)"

definition initial :: "('r, 't) cluster" where
  "initial = \<lparr>tbl = [], past = [], wards = [], sent = [], net = [], accepted = [], seenBy = (\<lambda>_. Map.empty)\<rparr>"

definition reachable :: "('r, 't) cluster \<Rightarrow> bool" where
  "reachable s \<longleftrightarrow> cstep\<^sup>*\<^sup>* initial s"

section \<open>Invariants of the table and its versions\<close>

text \<open>A host of a run has at most one open row.\<close>

definition one_open :: "'r run_table \<Rightarrow> bool" where
  "one_open t \<longleftrightarrow> (\<forall>r \<in> set t. \<forall>h \<in> set t. rowHost h = rowHost r \<and> \<not> terminal (Status r) \<and> \<not> terminal (Status h)
     \<longrightarrow> rowKey h = rowKey r)"

text \<open>A claimed or handed-off row carries the highest attempt of its host.\<close>

definition epoch :: "'r run_table \<Rightarrow> bool" where
  "epoch t \<longleftrightarrow> (\<forall>r \<in> set t. in_flight r \<and> 0 < Attempt r \<longrightarrow>
     (\<forall>h \<in> set t. rowHost h = rowHost r \<and> rowKey h \<noteq> rowKey r \<longrightarrow> Attempt h < Attempt r))"

definition table_evolves :: "'r run_table \<Rightarrow> 'r run_table \<Rightarrow> bool" where
  "table_evolves old t \<longleftrightarrow> (\<forall>r \<in> set old. \<not> withdrawable r \<longrightarrow> (\<exists>r' \<in> set t. row_evolves r r'))"

text \<open>
  As long as a row that was planned in an old version is open, the attempts of the other rows of its host
  are those the old version showed.
\<close>

definition frozen :: "'r run_table \<Rightarrow> 'r run_table \<Rightarrow> bool" where
  "frozen old t \<longleftrightarrow> (\<forall>r \<in> set old. \<forall>r' \<in> set t. \<forall>h \<in> set t.
     Status r = StatusPlanned \<and> rowKey r' = rowKey r \<and> \<not> terminal (Status r')
       \<and> rowHost h = rowHost r \<and> rowKey h \<noteq> rowKey r
     \<longrightarrow> Attempt h = 0 \<or> (\<exists>h0 \<in> set old. rowKey h0 = rowKey h \<and> Attempt h0 = Attempt h))"

definition table_inv :: "'r run_table list \<Rightarrow> 'r run_table \<Rightarrow> bool" where
  "table_inv vs t \<longleftrightarrow> table_ok t \<and> one_open t \<and> epoch t \<and> (\<forall>old \<in> set vs. table_evolves old t \<and> frozen old t)"

lemma rowHost_key: "rowKey a = rowKey b \<Longrightarrow> rowHost a = rowHost b"
  by (simp add: rowKey_def rowHost_def)

lemma table_evolves_refl: "table_evolves t t"
  by (auto simp: table_evolves_def)

lemma frozen_refl: "frozen t t"
  by (auto simp: frozen_def)

lemma table_inv_self: "table_inv vs t \<Longrightarrow> table_inv (t # vs) t"
  by (simp add: table_inv_def table_evolves_refl frozen_refl)

text \<open>A statement in place.\<close>

lemma in_place:
  assumes "list_all2 row_evolves t t'"
  shows "r' \<in> set t' \<Longrightarrow> \<exists>r \<in> set t. row_evolves r r'" and "r \<in> set t \<Longrightarrow> \<exists>r' \<in> set t'. row_evolves r r'"
  using assms by (auto simp: list_all2_conv_all_nth in_set_conv_nth) (metis nth_mem)+

lemma one_open_update:
  assumes "list_all2 row_evolves t t'" and "one_open t"
  shows "one_open t'"
  unfolding one_open_def
proof (intro ballI impI)
  fix r' h' assume rh: "r' \<in> set t'" "h' \<in> set t'"
    and *: "rowHost h' = rowHost r' \<and> \<not> terminal (Status r') \<and> \<not> terminal (Status h')"
  obtain r h where 1: "r \<in> set t" "row_evolves r r'" "h \<in> set t" "row_evolves h h'"
    using in_place(1) [OF assms(1)] rh by metis
  have "rowHost h = rowHost r"
    using conjunct1 [OF *] unfolding row_evolves_host [OF 1(2)] row_evolves_host [OF 1(4)] .
  moreover have "\<not> terminal (Status r)" "\<not> terminal (Status h)"
    using * row_evolves_open [OF 1(2)] row_evolves_open [OF 1(4)] by blast+
  ultimately have "rowKey h = rowKey r" using assms(2) 1(1,3) unfolding one_open_def by blast
  then show "rowKey h' = rowKey r'" using row_evolves_key [OF 1(2)] row_evolves_key [OF 1(4)] by simp
qed

lemma table_evolves_update:
  assumes "list_all2 row_evolves t t'" and "table_evolves old t"
  shows "table_evolves old t'"
  using assms(2) in_place(2) [OF assms(1)] by (meson row_evolves_trans table_evolves_def)

lemma frozen_update:
  assumes "list_all2 row_evolves t t'" and "one_open t" and "frozen old t"
  shows "frozen old t'"
  unfolding frozen_def
proof (intro ballI impI)
  fix r r' h' assume r: "r \<in> set old" and rh: "r' \<in> set t'" "h' \<in> set t'"
    and *: "Status r = StatusPlanned \<and> rowKey r' = rowKey r \<and> \<not> terminal (Status r')
      \<and> rowHost h' = rowHost r \<and> rowKey h' \<noteq> rowKey r"
  obtain r1 h where 1: "r1 \<in> set t" "row_evolves r1 r'" "h \<in> set t" "row_evolves h h'"
    using in_place(1) [OF assms(1)] rh by metis
  note k = row_evolves_key [OF 1(2)] row_evolves_key [OF 1(4)] row_evolves_host [OF 1(4)] row_evolves_open [OF 1(2)]
  have "rowHost r1 = rowHost r" by (rule rowHost_key) (use * k in simp)
  then have "terminal (Status h)"
    using * k 1 assms(2) unfolding one_open_def by metis
  then have "Attempt h' = Attempt h" using 1(4) by (simp add: row_evolves_def)
  moreover have "Attempt h = 0 \<or> (\<exists>h0 \<in> set old. rowKey h0 = rowKey h \<and> Attempt h0 = Attempt h)"
    using assms(3) r 1 * k unfolding frozen_def by metis
  ultimately show "Attempt h' = 0 \<or> (\<exists>h0 \<in> set old. rowKey h0 = rowKey h' \<and> Attempt h0 = Attempt h')"
    using k by simp
qed

lemma statement_inv:
  assumes "row_statement g e" and "table_inv vs t" and "epoch (update_where g e t)"
  shows "table_inv vs (update_where g e t)"
proof -
  note ok = table_inv_def table_ok_def
  have l: "list_all2 row_evolves t (update_where g e t)"
    using row_statement.evolves [OF assms(1)] assms(2) by (simp add: ok)
  show ?thesis
    using assms row_statement.ok [OF assms(1)] one_open_update [OF l] table_evolves_update [OF l] frozen_update [OF l]
    by (simp add: table_inv_def)
qed

lemma epoch_quiet:
  assumes "quiet_statement g e" and "table_ok t" and "epoch t"
  shows "epoch (update_where g e t)"
  unfolding epoch_def
proof (intro ballI impI)
  fix r' h' assume rh: "r' \<in> set (update_where g e t)" "h' \<in> set (update_where g e t)"
    and *: "in_flight r' \<and> 0 < Attempt r'" "rowHost h' = rowHost r' \<and> rowKey h' \<noteq> rowKey r'"
  have ok: "list_all row_ok t" using assms(2) by (simp add: table_ok_def)
  obtain r where r: "r \<in> set t" "row_evolves r r'" "Attempt r' = Attempt r" "in_flight r' \<longrightarrow> in_flight r"
    using quiet_statement.stays_quiet [OF assms(1) rh(1) ok] by blast
  obtain h where h: "h \<in> set t" "row_evolves h h'" "Attempt h' = Attempt h"
    using quiet_statement.stays_quiet [OF assms(1) rh(2) ok] by blast
  have "Attempt h < Attempt r"
    using assms(3) r(1,3,4) h(1) * row_evolves_host [OF r(2)] row_evolves_host [OF h(2)]
      row_evolves_key [OF r(2)] row_evolves_key [OF h(2)] by (auto simp: epoch_def)
  then show "Attempt h' < Attempt r'" using r h by simp
qed

lemma quiet_inv:
  assumes "quiet_statement g e" and "table_inv vs t"
  shows "table_inv vs (update_where g e t)"
  using assms epoch_quiet [OF assms(1)] statement_inv [OF quiet_statement.axioms(1) [OF assms(1)]]
  by (simp add: table_inv_def)

text \<open>A new row.\<close>

lemma insert_inv:
  assumes "table_inv vs t" and "row_ok n" and "Attempt n = 0" and "\<forall>r \<in> set t. rowKey r \<noteq> rowKey n"
    and "terminal (Status n) \<or> (\<forall>r \<in> set t. rowHost r = rowHost n \<longrightarrow> terminal (Status r))"
  shows "table_inv vs (t @ [n])"
proof -
  have ok: "table_ok t" "one_open t" "epoch t" using assms(1) by (simp_all add: table_inv_def)
  have "rowKey n \<notin> rowKey ` set t" using assms(4) by (auto simp: image_iff)
  then have "table_ok (t @ [n])" using ok(1) assms(2) by (simp add: table_ok_def)
  moreover have "one_open (t @ [n])"
    unfolding one_open_def
  proof (intro ballI impI)
    fix r h assume rh: "r \<in> set (t @ [n])" "h \<in> set (t @ [n])"
      "rowHost h = rowHost r \<and> \<not> terminal (Status r) \<and> \<not> terminal (Status h)"
    then have "r \<in> set t \<or> r = n" "h \<in> set t \<or> h = n" by auto
    with rh(3) show "rowKey h = rowKey r"
      using ok(2) assms(5) unfolding one_open_def by metis
  qed
  moreover have "epoch (t @ [n])"
    unfolding epoch_def
  proof (intro ballI impI)
    fix r h assume "r \<in> set (t @ [n])" "h \<in> set (t @ [n])" "in_flight r \<and> 0 < Attempt r"
      "rowHost h = rowHost r \<and> rowKey h \<noteq> rowKey r"
    then show "Attempt h < Attempt r"
      using ok(3) assms(3) unfolding epoch_def by (cases "r = n"; cases "h = n") simp_all
  qed
  moreover have "table_evolves old (t @ [n]) \<and> frozen old (t @ [n])" if "old \<in> set vs" for old
  proof
    have old: "table_evolves old t" "frozen old t" using assms(1) that by (auto simp: table_inv_def)
    then show "table_evolves old (t @ [n])" by (fastforce simp: table_evolves_def)
    have new: "rowKey n \<noteq> rowKey r" if "r \<in> set old" "Status r = StatusPlanned" for r
      using old(1) that assms(4) by (fastforce simp: table_evolves_def withdrawable_def dest: row_evolves_key)
    show "frozen old (t @ [n])"
      using old(2) assms(3) new unfolding frozen_def by auto
  qed
  ultimately show ?thesis by (simp add: table_inv_def)
qed

text \<open>A withdrawn row.\<close>

lemma mem_filter_set: "x \<in> set (filter P xs) \<longleftrightarrow> x \<in> set xs \<and> P x"
  by auto

lemma frozen_subset: "frozen old t \<Longrightarrow> set t' \<subseteq> set t \<Longrightarrow> frozen old t'"
  unfolding frozen_def by (meson subsetD)

lemma filter_inv:
  assumes "table_inv vs t" and "\<And>r. r \<in> set t \<Longrightarrow> \<not> P r \<Longrightarrow> withdrawable r"
  shows "table_inv vs (filter P t)"
proof -
  have "table_ok (filter P t)"
    using assms(1) by (auto simp: table_inv_def table_ok_def distinct_map_filter list_all_iff)
  moreover have "one_open (filter P t)" "epoch (filter P t)"
    using assms(1) by (auto simp: table_inv_def one_open_def epoch_def)
  moreover have "table_evolves old (filter P t) \<and> frozen old (filter P t)" if "old \<in> set vs" for old
  proof
    have old: "table_evolves old t" "frozen old t" using assms(1) that by (auto simp: table_inv_def)
    show "table_evolves old (filter P t)"
      using old(1) assms(2) unfolding table_evolves_def by (metis (full_types) mem_filter_set row_evolves_def)
    show "frozen old (filter P t)"
      by (rule frozen_subset [OF old(2) filter_is_subset])
  qed
  ultimately show ?thesis by (simp add: table_inv_def)
qed

text \<open>A claim, whatever snapshot of the past it read.\<close>

lemma pickedKeys_planned:
  "k \<in> set (pickedKeys locked batch snap cur) \<Longrightarrow> \<exists>r \<in> set snap. rowKey r = k \<and> Status r = StatusPlanned"
  by (auto simp: pickedKeys_def dest!: in_set_takeD)

lemma claimEffect_simps [simp]:
  "rowKey (claimEffect kid lease kv now snap r) = rowKey r"
  "rowHost (claimEffect kid lease kv now snap r) = rowHost r"
  "Status (claimEffect kid lease kv now snap r) = StatusClaimed"
  "Attempt (claimEffect kid lease kv now snap r) = nextAttempt snap r"
  by (simp_all add: claimEffect_def rowKey_def rowHost_def)

text \<open>The attempt a claim gives is above every attempt of the host.\<close>

lemma nextAttempt_above:
  assumes "table_inv vs t" and "snap \<in> set vs" and "r \<in> set t" and "claimGuard (pickedKeys locked batch snap t) r"
    and "h \<in> set t" and "rowHost h = rowHost r" and "rowKey h \<noteq> rowKey r"
  shows "Attempt h < nextAttempt snap r" and "terminal (Status h)"
proof -
  have inv: "table_ok t" "one_open t" "frozen snap t" using assms(1,2) by (auto simp: table_inv_def)
  have p: "Status r = StatusPlanned" "rowKey r \<in> set (pickedKeys locked batch snap t)"
    using assms(4) by (simp_all add: claimGuard_def)
  obtain r0 where r0: "r0 \<in> set snap" "rowKey r0 = rowKey r" "Status r0 = StatusPlanned"
    using pickedKeys_planned [OF p(2)] by blast
  have host: "rowHost h = rowHost r0" using assms(6) rowHost_key [OF r0(2)] by simp
  have "0 \<le> Attempt r" using inv(1) assms(3) by (auto simp: table_ok_def list_all_iff row_ok_def)
  then have pos: "0 < nextAttempt snap r" using nextAttempt_gt(1) [of r snap] by linarith
  have "Attempt h = 0 \<or> (\<exists>h0 \<in> set snap. rowKey h0 = rowKey h \<and> Attempt h0 = Attempt h)"
  proof -
    have "\<not> terminal (Status r)" "rowKey r = rowKey r0" "rowKey h \<noteq> rowKey r0" using p r0 assms(7) by auto
    with inv(3) r0(1,3) assms(3,5) host show ?thesis unfolding frozen_def by blast
  qed
  then show "Attempt h < nextAttempt snap r"
    using pos nextAttempt_gt(2) [of _ snap r] assms(6) by (metis rowHost_key)
  show "terminal (Status h)"
    using inv(2) assms(3,5,6,7) p(1) unfolding one_open_def by (metis terminal_simps(6))
qed

lemma ClaimNext_Inr:
  assumes "ClaimNext kid lease batch kv now locked snap cur = Inr (t', runs)"
  defines "g \<equiv> \<lambda>r. claimGuard (pickedKeys locked (nat batch) snap cur) r \<and> nextAttempt snap r \<le> maxInt4"
  shows "t' = update_where g (claimEffect kid lease kv now snap) cur"
    and "runs = map (\<lambda>r. scanClaimedRow (claimEffect kid lease kv now snap r)) (filter g cur)"
proof -
  let ?g = "claimGuard (pickedKeys locked (nat batch) snap cur)"
  have fits: "\<forall>r \<in> set cur. ?g r \<longrightarrow> nextAttempt snap r \<le> maxInt4"
    and t: "t' = update_where ?g (claimEffect kid lease kv now snap) cur"
    and runs: "runs = map (\<lambda>r. scanClaimedRow (claimEffect kid lease kv now snap r)) (filter ?g cur)"
    using assms(1) by (auto simp: ClaimNext_def Let_def list_ex_iff split: if_splits)
  show "t' = update_where g (claimEffect kid lease kv now snap) cur"
    unfolding t update_where_def g_def using fits by (intro map_cong) auto
  have "filter ?g cur = filter g cur" unfolding g_def using fits by (intro filter_cong) auto
  then show "runs = map (\<lambda>r. scanClaimedRow (claimEffect kid lease kv now snap r)) (filter g cur)"
    using runs by simp
qed

lemma claim_inv:
  assumes "table_inv vs t" and "snap \<in> set vs" and "ClaimNext kid lease batch kv now locked snap t = Inr (t', runs)"
  shows "table_inv vs t'"
proof -
  define g where "g = (\<lambda>r. claimGuard (pickedKeys locked (nat batch) snap t) r \<and> nextAttempt snap r \<le> maxInt4)"
  define e where "e = claimEffect kid lease kv now snap"
  have t': "t' = update_where g e t" using ClaimNext_Inr(1) [OF assms(3)] by (simp add: g_def e_def)
  have st: "row_statement g e" unfolding g_def e_def by (rule claim.row_statement_axioms)
  have above: "Attempt h < nextAttempt snap r" "terminal (Status h)"
    if "r \<in> set t" "g r" "h \<in> set t" "rowHost h = rowHost r" "rowKey h \<noteq> rowKey r" for r h
    using nextAttempt_above [OF assms(1,2)] that by (auto simp: g_def)
  have open_g: "\<not> terminal (Status r)" if "g r" for r using that by (simp add: g_def claimGuard_def)
  have e_simps: "rowKey (e r) = rowKey r" "rowHost (e r) = rowHost r" "Attempt (e r) = nextAttempt snap r" for r
    by (simp_all add: e_def)
  have ep: "epoch t" and oo: "one_open t" using assms(1) by (simp_all add: table_inv_def)
  have "epoch (update_where g e t)"
    unfolding epoch_def
  proof (intro ballI impI)
    fix r' h' assume rh: "r' \<in> set (update_where g e t)" "h' \<in> set (update_where g e t)"
      and *: "in_flight r' \<and> 0 < Attempt r'" "rowHost h' = rowHost r' \<and> rowKey h' \<noteq> rowKey r'"
    obtain r h where r: "r \<in> set t" "r' = (if g r then e r else r)" and h: "h \<in> set t" "h' = (if g h then e h else h)"
      using rh by (auto simp: update_where_def)
    have k: "rowHost h = rowHost r" "rowKey h \<noteq> rowKey r" using * r(2) h(2) e_simps by (auto split: if_splits)
    show "Attempt h' < Attempt r'"
    proof (cases "g r")
      case True
      then have "\<not> g h" using above(2) [OF r(1) True h(1) k] open_g by blast
      then show ?thesis using above(1) [OF r(1) True h(1) k] r(2) h(2) True e_simps by simp
    next
      case False
      have "\<not> g h"
      proof
        assume "g h"
        then have "terminal (Status r)" using above(2) [OF h(1) _ r(1)] k by metis
        then show False using * False r(2) by (auto simp: in_flight_def)
      qed
      then show ?thesis using ep r h k * False unfolding epoch_def by simp
    qed
  qed
  then show ?thesis unfolding t' by (rule statement_inv [OF st assms(1)])
qed

section \<open>Every statement is one of these\<close>

text \<open>A write that leaves the table or runs one quiet statement on it.\<close>

definition quiet_write :: "'r run_table \<Rightarrow> 'r run_table \<Rightarrow> bool" where
  "quiet_write t t' \<longleftrightarrow> t' = t \<or> (\<exists>g e. quiet_statement g e \<and> t' = update_where g e t)"

lemma quiet_writeI [intro]: "quiet_statement g e \<Longrightarrow> quiet_write t (update_where g e t)"
  by (auto simp: quiet_write_def)

lemma quiet_write_refl [simp, intro]: "quiet_write t t"
  by (simp add: quiet_write_def)

lemma quiet_write_inv: "quiet_write t t' \<Longrightarrow> table_inv vs t \<Longrightarrow> table_inv vs t'"
  by (auto simp: quiet_write_def intro: quiet_inv)

lemma UpdateStatus_quiet:
  "terminal st \<Longrightarrow> UpdateStatus a sid p st summary now t = Inr t' \<Longrightarrow> quiet_write t t'"
  by (auto simp: UpdateStatus_def Let_def updateStatus_quiet split: if_splits option.splits)

lemma closeWard_quiet: "quiet_write t (written t (closeWard run st summary now t))"
  by (auto simp: written_def closeWard_def UpdateWardStatus_def Let_def ward_quiet split: sum.splits if_splits option.splits)

lemma markFailed_quiet: "quiet_write t (markFailed run summary now t)"
  by (simp add: markFailed_def closeWard_quiet)

lemma MarkDispatched_quiet: "MarkDispatched a sid p n v t = Inr t' \<Longrightarrow> quiet_write t t'"
  by (auto simp: MarkDispatched_def Let_def marked.quiet_statement_axioms split: if_splits option.splits)

lemma other_write_quiet: "other_write vs t t' \<Longrightarrow> quiet_write t t'"
proof (induction rule: other_write.induct)
  case (close st a sid p summary now t t')
  then show ?case by (rule UpdateStatus_quiet)
next
  case (lost a sid p summary now t t' b)
  then show ?case by (auto simp: FailLost_def Let_def lost.quiet_statement_axioms)
next
  case (cancel a t t' n)
  then show ?case by (auto simp: RequestCancel_def cancel.quiet_statement_axioms split: if_splits)
next
  case (failure a sid p i j summary t t')
  then show ?case by (auto simp: RecordTaskFailure_def Let_def failure.quiet_statement_axioms split: if_splits)
next
  case (notices a sid p ns t t')
  then show ?case by (auto simp: AppendRunNotices_def Let_def notices.quiet_statement_axioms split: if_splits)
next
  case (dropped a sid p t t')
  then show ?case by (auto simp: MarkDropped_def Let_def drop.quiet_statement_axioms split: if_splits)
next
  case (handled a sid p t t')
  then show ?case by (auto simp: MarkHandled_def Let_def handle.quiet_statement_axioms split: if_splits)
next
  case (roster sid roster routed now t t')
  then show ?case
    by (auto simp: handleWardRoster_def OrphanDispatched_def orphan.quiet_statement_axioms split: if_splits)
next
  case (reclaim snap lease batch now t t' n)
  then show ?case by (auto simp: ReclaimApplyRuns_def Let_def reclaim.quiet_statement_axioms split: if_splits)
qed

lemma runStatus_terminal [simp]: "terminal (runStatusToApplyStatus st)"
  by (cases st) (simp_all add: runStatusToApplyStatus_def)

lemma correlate_quiet: "correlateRunResult sid ev now t = (t', c) \<Longrightarrow> quiet_write t t'"
  by (auto simp: correlateRunResult_def Let_def split: sum.splits prod.splits if_splits
      intro: UpdateStatus_quiet [OF runStatus_terminal])

lemma executeRender_quiet: "executeRender outcome aborted now run t = (t', w) \<Longrightarrow> quiet_write t t'"
  by (auto simp: executeRender_def markFailed_quiet closeWard_quiet split: if_splits render_outcome.splits)

lemma executeCancelWindow_quiet: "executeCancelWindow now run ts t = (t', w) \<Longrightarrow> quiet_write t t'"
  by (auto simp: executeCancelWindow_def closeWard_quiet split: if_splits sum.splits)

lemma executeMark_quiet: "executeMark aborted sv run ts t = (t', w) \<Longrightarrow> quiet_write t t'"
  by (auto simp: executeMark_def MarkDispatched_quiet split: if_splits sum.splits)

lemma executeSend_quiet: "quiet_write t (executeSend confirmed now run t)"
  by (simp add: executeSend_def markFailed_quiet)

section \<open>The invariant of the cluster\<close>

definition rqKey :: "'t apply_request \<Rightarrow> run_key" where
  "rqKey q = (rqApplyId q, rqSid q, rqPassage q)"

fun markedRequests :: "('r, 't) ward list \<Rightarrow> 't apply_request list" where
  "markedRequests [] = []"
| "markedRequests (WMarked run ts # ws) = applyRequest run ts # markedRequests ws"
| "markedRequests (_ # ws) = markedRequests ws"

text \<open>What was handed off: marked and about to be sent, or sent.\<close>

definition handed :: "('r, 't) cluster \<Rightarrow> 't apply_request list" where
  "handed s = markedRequests (wards s) @ sent s"

text \<open>The row of a request that was handed off is at the attempt of the request, and dispatched or closed.\<close>

definition backed :: "'r run_table \<Rightarrow> 't apply_request \<Rightarrow> bool" where
  "backed t q \<longleftrightarrow> (\<exists>r \<in> set t. rowKey r = rqKey q \<and> Attempt r = rqAttempt q \<and> 0 < Attempt r
     \<and> (Status r = StatusDispatched \<or> terminal (Status r)))"

definition ward_ok :: "('r, 't) ward \<Rightarrow> bool" where
  "ward_ok w \<longleftrightarrow> 0 < Attempt (wardRun w) \<and> Attempt (wardRun w) \<le> maxInt4 \<and> in_int4 (Passage (wardRun w))"

text \<open>An agent has seen no attempt its host did not reach.\<close>

definition fence_ok :: "'r run_table \<Rightarrow> (string \<Rightarrow> string \<rightharpoonup> int) \<Rightarrow> bool" where
  "fence_ok t seen \<longleftrightarrow> (\<forall>sid a. lastSeen (seen sid) a \<le> 0
     \<or> (\<exists>r \<in> set t. rowHost r = (a, sid) \<and> lastSeen (seen sid) a \<le> Attempt r))"

definition cluster_inv :: "('r, 't) cluster \<Rightarrow> bool" where
  "cluster_inv s \<longleftrightarrow> table_inv (past s) (tbl s) \<and> list_all ward_ok (wards s)
     \<and> list_all (backed (tbl s)) (handed s) \<and> distinct (map rqKey (handed s))
     \<and> distinct (map rqKey (net s @ accepted s)) \<and> set (net s @ accepted s) \<subseteq> set (sent s)
     \<and> fence_ok (tbl s) (seenBy s)"

lemma int32_id: "in_int4 n \<Longrightarrow> int32 n = n"
  by (simp add: int32_def in_int4_def maxInt4_def)

lemma applyRequest_key:
  "ward_ok w \<Longrightarrow> wardRun w = run \<Longrightarrow> rqKey (applyRequest run ts) = rowKey run \<and> rqAttempt (applyRequest run ts) = Attempt run"
  by (auto simp: rqKey_def applyRequest_def rowKey_def ward_ok_def int32_id in_int4_def [of "Attempt run"] maxInt4_def
      intro!: int32_id) 

lemma markedRequests_append [simp]: "markedRequests (ws @ ws') = markedRequests ws @ markedRequests ws'"
  by (induction ws rule: markedRequests.induct) auto

lemma backed_evolves: "backed t q \<Longrightarrow> table_evolves t t' \<Longrightarrow> backed t' q"
  unfolding backed_def table_evolves_def
  by (metis row_evolves_def withdrawable_def less_irrefl)

lemma fence_evolves: "fence_ok t seen \<Longrightarrow> table_evolves t t' \<Longrightarrow> fence_ok t' seen"
  unfolding fence_ok_def table_evolves_def
  by (smt (verit) row_evolves_def row_evolves_host withdrawable_def)

section \<open>Every step keeps the invariant\<close>

lemma inv_self: "cluster_inv s \<Longrightarrow> table_inv (tbl s # past s) (tbl s)"
  by (simp add: cluster_inv_def table_inv_self)

lemma commit_inv:
  assumes "cluster_inv s" and "table_inv (tbl s # past s) t'"
  shows "cluster_inv (commit t' s)"
proof -
  have ev: "table_evolves (tbl s) t'" using assms(2) by (simp add: table_inv_def)
  have "list_all (backed t') (handed s)"
    using assms(1) backed_evolves [OF _ ev] by (auto simp: cluster_inv_def list_all_iff)
  moreover have "fence_ok t' (seenBy s)" using assms(1) fence_evolves [OF _ ev] by (simp add: cluster_inv_def)
  ultimately show ?thesis using assms by (simp add: cluster_inv_def commit_def handed_def)
qed

lemma commit_quiet_inv: "cluster_inv s \<Longrightarrow> quiet_write (tbl s) t' \<Longrightarrow> cluster_inv (commit t' s)"
  by (rule commit_inv [OF _ quiet_write_inv [OF _ inv_self]])

lemma commit_simps [simp]:
  "tbl (commit t' s) = t'" "wards (commit t' s) = wards s" "sent (commit t' s) = sent s"
  "net (commit t' s) = net s" "accepted (commit t' s) = accepted s" "seenBy (commit t' s) = seenBy s"
  by (simp_all add: commit_def)

lemma wards_inv:
  assumes "cluster_inv s" and "list_all ward_ok ws" and "markedRequests ws = markedRequests (wards s)"
  shows "cluster_inv (s\<lparr>wards := ws\<rparr>)"
  using assms by (simp add: cluster_inv_def handed_def)

lemma fewer_wards_inv:
  assumes "cluster_inv s" and "wards s = ws @ w # ws'"
  shows "cluster_inv (s\<lparr>wards := ws @ ws'\<rparr>)"
  using assms by (cases w) (auto simp: cluster_inv_def handed_def)

text \<open>A worker that goes on without a mark, or ends.\<close>

lemma unmarked_inv:
  assumes "cluster_inv s" and "quiet_write (tbl s) t'" and "wards s = ws @ v # ws'"
    and "w = None \<or> (\<exists>u. w = Some u \<and> wardRun u = wardRun v \<and> markedRequests [u] = markedRequests [v])"
  shows "cluster_inv ((commit t' s)\<lparr>wards := replaceWard ws w ws'\<rparr>)"
proof (cases w)
  case None
  have "cluster_inv (commit t' s)" by (rule commit_quiet_inv [OF assms(1,2)])
  then show ?thesis using fewer_wards_inv [of "commit t' s" ws v ws'] assms(3) None by (simp add: replaceWard_def)
next
  case (Some u)
  with assms(4) have u: "wardRun u = wardRun v" "markedRequests [u] = markedRequests [v]" by auto
  have "markedRequests (ws @ [u] @ ws') = markedRequests (ws @ [v] @ ws')"
    using u(2) by (simp only: markedRequests_append)
  moreover have "ward_ok u" using assms(1,3) u(1) by (simp add: cluster_inv_def ward_ok_def)
  ultimately show ?thesis
    using assms(1,3) Some wards_inv [OF commit_quiet_inv [OF assms(1,2)], of "ws @ [u] @ ws'"]
    by (simp add: replaceWard_def cluster_inv_def)
qed

lemma markedRequests_claimed [simp]: "markedRequests (map WClaimed runs) = []"
  by (induction runs) simp_all

lemma claimed_ward_ok:
  assumes "table_ok t" and "ClaimNext kid lease batch kv now locked snap t = Inr (t', runs)"
  shows "list_all ward_ok (map WClaimed runs)"
proof -
  have "ward_ok (WClaimed (scanClaimedRow (claimEffect kid lease kv now snap r)))"
    if "r \<in> set t" "nextAttempt snap r \<le> maxInt4" for r
  proof -
    have "row_ok r" using assms(1) that(1) by (auto simp: table_ok_def list_all_iff)
    then show ?thesis
      using that(2) nextAttempt_gt(1) [of r snap]
      by (simp add: ward_ok_def scanClaimedRow_def claimEffect_def apply_run.truncate_def row_ok_def)
  qed
  then show ?thesis unfolding ClaimNext_Inr(2) [OF assms(2)] by (auto simp: list_all_iff)
qed

lemma MarkDispatched_Inr:
  assumes "table_ok t" and "MarkDispatched a sid p n v t = Inr t'"
  shows "\<exists>r \<in> set t. rowKey r = (a, sid, p) \<and> Attempt r = n \<and> Status r = StatusClaimed"
    and "\<exists>r \<in> set t'. rowKey r = (a, sid, p) \<and> Attempt r = n \<and> Status r = StatusDispatched"
proof -
  let ?g = "markGuard (a, sid, p) n"
  have t': "t' = update_where ?g (markEffect v) t" and one: "affected ?g t = 1"
    using assms(2) by (auto simp: MarkDispatched_def Let_def split: if_splits option.splits)
  obtain r where r: "findRow (a, sid, p) t = Some r" "?g r"
    using one affected_one [OF assms(1), of ?g "(a, sid, p)"] guards_key(4) by blast
  note r' = findRow_Some [OF r(1)]
  show "\<exists>r \<in> set t. rowKey r = (a, sid, p) \<and> Attempt r = n \<and> Status r = StatusClaimed"
    using r' r(2) by (auto simp: markGuard_def)
  have "markEffect v r \<in> set t'" using r' r(2) by (force simp: t' update_where_def)
  moreover have "rowKey (markEffect v r) = (a, sid, p) \<and> Attempt (markEffect v r) = n
      \<and> Status (markEffect v r) = StatusDispatched"
    using r(2) by (simp add: markGuard_def markEffect_def rowKey_def)
  ultimately show "\<exists>r \<in> set t'. rowKey r = (a, sid, p) \<and> Attempt r = n \<and> Status r = StatusDispatched" by blast
qed

text \<open>The mark: no request of this row was handed off before, since its row would not be claimed.\<close>

lemma mark_inv:
  assumes "cluster_inv s" and "wards s = ws @ WChecked run ts # ws'"
    and "MarkDispatched (ApplyID run) (SID run) (Passage run) (Attempt run) v (tbl s) = Inr t'"
  shows "cluster_inv ((commit t' s)\<lparr>wards := ws @ WMarked run ts # ws'\<rparr>)"
proof -
  let ?q = "applyRequest run ts"
  have ok: "table_ok (tbl s)" and b: "list_all (backed (tbl s)) (handed s)" and d: "distinct (map rqKey (handed s))"
    and w: "ward_ok (WChecked run ts)" and ws: "list_all ward_ok (ws @ ws')"
    using assms(1,2) by (simp_all add: cluster_inv_def table_inv_def)
  have q: "rqKey ?q = (ApplyID run, SID run, Passage run)" "rqAttempt ?q = Attempt run"
    using applyRequest_key [OF w, of run ts] by (simp_all add: rowKey_def)
  note m = MarkDispatched_Inr [OF ok assms(3)]
  have new: "rqKey x \<noteq> rqKey ?q" if x: "x \<in> set (handed s)" for x
  proof
    assume eq: "rqKey x = rqKey ?q"
    obtain r where r: "r \<in> set (tbl s)" "rowKey r = rqKey x" "Status r = StatusDispatched \<or> terminal (Status r)"
      using b x unfolding list_all_iff backed_def by blast
    obtain c where "c \<in> set (tbl s)" "rowKey c = rqKey x" "Status c = StatusClaimed" using m(1) q eq by auto
    then show False using r ok rowKey_unique [of "tbl s" r c] by (auto simp: table_ok_def)
  qed
  have inv: "cluster_inv (commit t' s)" by (rule commit_quiet_inv [OF assms(1) MarkDispatched_quiet [OF assms(3)]])
  have bk: "backed t' ?q" using m(2) q w unfolding backed_def ward_ok_def by auto
  have "rqKey ?q \<notin> rqKey ` set (handed s)" using new by (metis imageE)
  then show ?thesis
    using inv bk w ws d assms(2) by (auto simp: cluster_inv_def handed_def ward_ok_def)
qed

lemma move_last: "distinct (map f (xs @ q # ys @ zs)) \<Longrightarrow> distinct (map f (xs @ ys @ zs @ [q]))"
  by auto

lemma send_inv:
  assumes "cluster_inv s" and "wards s = ws @ WMarked run ts # ws'" and "q = applyRequest run ts"
  shows "cluster_inv (s\<lparr>wards := ws @ ws', sent := sent s @ [q], net := net s @ (if b then [q] else [])\<rparr>)"
proof -
  have h: "handed s = markedRequests ws @ q # markedRequests ws' @ sent s"
    using assms(2,3) by (simp add: handed_def)
  have d: "distinct (map rqKey (handed s))" and sub: "set (net s @ accepted s) \<subseteq> set (sent s)"
    using assms(1) by (simp_all add: cluster_inv_def)
  have "rqKey q \<notin> rqKey ` set (sent s)" using d unfolding h by auto
  then have q: "rqKey q \<notin> rqKey ` set (net s)" "rqKey q \<notin> rqKey ` set (accepted s)" using sub by auto
  have "distinct (map rqKey (net s @ accepted s))" using assms(1) by (simp add: cluster_inv_def)
  with q have "distinct (map rqKey ((net s @ (if b then [q] else [])) @ accepted s))" by simp
  moreover have "distinct (map rqKey (markedRequests (ws @ ws') @ sent s @ [q]))"
    using move_last [OF d [unfolded h]] by simp
  moreover have "list_all (backed (tbl s)) (markedRequests (ws @ ws') @ sent s @ [q])"
    using assms(1) unfolding cluster_inv_def h by simp
  moreover have "set ((net s @ (if b then [q] else [])) @ accepted s) \<subseteq> set (sent s @ [q])" using sub by auto
  moreover have "list_all ward_ok (ws @ ws')" using assms(1,2) by (simp add: cluster_inv_def)
  ultimately show ?thesis using assms(1) by (simp add: cluster_inv_def handed_def)
qed

lemma accept_fence:
  assumes "fence_ok t seen" and "backed t q"
    and "AcceptAttempt (seen (rqSid q)) (rqApplyId q) (rqAttempt q) = (seen', ok)"
  shows "fence_ok t (seen(rqSid q := seen'))"
proof -
  obtain r where r: "r \<in> set t" "rowKey r = rqKey q" "Attempt r = rqAttempt q" using assms(2) by (auto simp: backed_def)
  then have "rowHost r = (rqApplyId q, rqSid q)" by (simp add: rowKey_def rqKey_def rowHost_def)
  moreover have "seen' = seen (rqSid q) \<or> seen' = (seen (rqSid q))(rqApplyId q \<mapsto> rqAttempt q)"
    using assms(3) by (auto simp: AcceptAttempt_def split: if_splits)
  ultimately have "lastSeen ((seen(rqSid q := seen')) sid) a = lastSeen (seen sid) a
      \<or> (rowHost r = (a, sid) \<and> lastSeen ((seen(rqSid q := seen')) sid) a = Attempt r)" for sid a
    using r(3) by (auto simp: lastSeen_def split: if_splits)
  then show ?thesis using assms(1) r(1) unfolding fence_ok_def by (metis order_refl)
qed


lemma cstep_inv: "cstep s s' \<Longrightarrow> cluster_inv s \<Longrightarrow> cluster_inv s'"
proof (induction rule: cstep.induct)
  case (plan fk run now s t')
  note i = InsertPlanned_Inr [OF plan(1)]
  have n: "row_ok (plannedRow run now)" "Attempt (plannedRow run now) = 0" "rowHost (plannedRow run now) = rowHost run"
    using plannedRow_ok [OF i(2-4)] by (simp_all add: plannedRow_def rowHost_def)
  have t': "t' = tbl s @ [plannedRow run now]" "\<forall>r \<in> set (tbl s). rowKey r \<noteq> rowKey (plannedRow run now)"
    using insertRow_ok [OF i(1) _ n(1)] plan(3) by (auto simp: cluster_inv_def table_inv_def)
  show ?case
    using plan(2) n t'(2) unfolding t'(1)
    by (intro commit_inv [OF plan(3)] insert_inv [OF inv_self [OF plan(3)]]) (simp_all add: host_closed_def list_all_iff)
next
  case (insert fk run now s t')
  note i = Insert_Inr [OF insert(1)]
  have n: "row_ok (insertedRow run now)" "Attempt (insertedRow run now) = 0" "rowHost (insertedRow run now) = rowHost run"
    "Status (insertedRow run now) = Status run"
    using insertedRow_ok [OF i(2-5) insert(3)] by (simp_all add: insertedRow_def rowHost_def)
  have t': "t' = tbl s @ [insertedRow run now]" "\<forall>r \<in> set (tbl s). rowKey r \<noteq> rowKey (insertedRow run now)"
    using insertRow_ok [OF i(1) _ n(1)] insert(5) by (auto simp: cluster_inv_def table_inv_def)
  show ?case
    using insert(4) n t'(2) unfolding t'(1)
    by (intro commit_inv [OF insert(5)] insert_inv [OF inv_self [OF insert(5)]]) (simp_all add: host_closed_def list_all_iff)
next
  case (withdraw a sid p s t' b)
  have "table_inv (tbl s # past s) (filter (\<lambda>r. \<not> failLostGuard (a, sid, p) r) (tbl s))"
    using withdraw(2) by (intro filter_inv [OF inv_self [OF withdraw(3)]])
      (auto simp: failLostGuard_def withdrawable_def list_all_iff)
  then show ?case using withdraw(1) by (intro commit_inv [OF withdraw(3)]) (simp add: WithdrawUnsent_def Let_def)
next
  case (other s t')
  then show ?case using commit_quiet_inv other_write_quiet by blast
next
  case (claim snap s kid lease batch kv now locked t' runs)
  have inv: "cluster_inv (commit t' s)"
    by (rule commit_inv [OF claim(3) claim_inv [OF inv_self [OF claim(3)] claim(1,2)]])
  have "list_all ward_ok (map WClaimed runs)"
    using claimed_ward_ok [OF _ claim(2)] claim(3) by (simp add: cluster_inv_def table_inv_def)
  moreover have "list_all ward_ok (wards s)" using claim(3) by (simp add: cluster_inv_def)
  ultimately show ?case by (intro wards_inv [OF inv]) simp_all
next
  case (render s ws run ws' outcome aborted now t' w)
  have "w = None \<or> (\<exists>u. w = Some u \<and> wardRun u = wardRun (WClaimed run :: ('a, 'b) ward)
      \<and> markedRequests [u] = markedRequests [WClaimed run :: ('a, 'b) ward])"
    using render(2) by (auto simp: executeRender_def split: if_splits render_outcome.splits)
  then show ?case by (rule unmarked_inv [OF render(3) executeRender_quiet [OF render(2)] render(1)])
next
  case (window s ws run ts ws' now t' w)
  have "w = None \<or> (\<exists>u. w = Some u \<and> wardRun u = wardRun (WRendered run ts)
      \<and> markedRequests [u] = markedRequests [WRendered run ts])"
    using window(2) by (auto simp: executeCancelWindow_def split: if_splits sum.splits)
  then show ?case by (rule unmarked_inv [OF window(3) executeCancelWindow_quiet [OF window(2)] window(1)])
next
  case (mark s ws run ts ws' aborted sv t' w)
  show ?case
  proof (cases w)
    case None
    then show ?thesis by (intro unmarked_inv [OF mark(3) executeMark_quiet [OF mark(2)] mark(1)]) simp
  next
    case (Some u)
    then have "MarkDispatched (ApplyID run) (SID run) (Passage run) (Attempt run) sv (tbl s) = Inr t'" "u = WMarked run ts"
      using mark(2) by (auto simp: executeMark_def split: if_splits sum.splits)
    with mark_inv [OF mark(3,1)] Some show ?thesis by (simp add: replaceWard_def)
  qed
next
  case (send s ws run ts ws' q transmitted confirmed now)
  have "cluster_inv (commit (executeSend confirmed now run (tbl s)) s)"
    by (rule commit_quiet_inv [OF send(3) executeSend_quiet])
  from send_inv [OF this, of ws run ts ws' q transmitted] send(1,2) show ?case by simp
next
  case (die s ws w ws')
  then show ?case by (intro fewer_wards_inv)
next
  case (deliver s qs q qs' seen' ok)
  have "q \<in> set (sent s)" using deliver(1,3) by (auto simp: cluster_inv_def)
  then have "backed (tbl s) q" using deliver(3) by (auto simp: cluster_inv_def handed_def list_all_iff)
  then have "fence_ok (tbl s) ((seenBy s)(rqSid q := seen'))"
    using accept_fence [of "tbl s" "seenBy s" q seen' ok] deliver(2,3) by (simp add: cluster_inv_def)
  then show ?case using deliver(1,3) by (auto simp: cluster_inv_def handed_def)
next
  case (lose s qs q qs')
  then show ?case by (auto simp: cluster_inv_def handed_def)
next
  case (restart s sid)
  then show ?case by (auto simp: cluster_inv_def handed_def fence_ok_def lastSeen_def)
next
  case (result q s st now t' c)
  then show ?case using commit_quiet_inv correlate_quiet by blast
qed

lemma initial_inv: "cluster_inv initial"
  by (simp add: cluster_inv_def initial_def table_inv_def table_ok_def one_open_def epoch_def handed_def
      fence_ok_def lastSeen_def)

lemma reachable_inv: "reachable s \<Longrightarrow> cluster_inv s"
  unfolding reachable_def by (induction rule: rtranclp_induct) (auto intro: initial_inv cstep_inv)

end
