(* ===== verification/Ward_Safety.thy ===== *)
theory Ward_Safety
  imports Ward_Cluster
begin

text \<open>
  What the invariant of the cluster gives: a step is sent once and run once, the fence of the agent never
  turns away the live request, the epoch check of the keeper never meets a result it does not expect, a
  terminal is final. And a small cluster, one step of one host from the plan to its execution, on which the
  theorems are applied.
\<close>

section \<open>A small cluster\<close>

definition demoRun :: "unit apply_run" where
  "demoRun =
     \<lparr>ApplyID = ''a'', SID = ''h'', IncarnationName = ''i'', Scenario = ''s'', TaskIdx = None, Status = [],
      Passage = 0, ErrorSummary = None, StartedAt = 0, FinishedAt = None, StartedByAID = None,
      ClaimByKID = None, ClaimAt = None, ClaimExpiresAt = None, Attempt = 0, Recipe = Some (),
      Input = [], KeeperVersion = [], SoulVersion = []\<rparr>"

definition demoPlanned :: "unit run_row" where "demoPlanned = plannedRow demoRun 1"
definition demoClaimed :: "unit run_row" where
  "demoClaimed = demoPlanned\<lparr>Status := StatusClaimed, ClaimByKID := Some ''k'', ClaimAt := Some 2,
     ClaimExpiresAt := Some 62, Attempt := 1\<rparr>"
definition demoMarked :: "unit run_row" where "demoMarked = demoClaimed\<lparr>Status := StatusDispatched\<rparr>"
definition demoWard :: "unit apply_run" where "demoWard = scanClaimedRow demoClaimed"
definition demoRequest :: "nat apply_request" where "demoRequest = applyRequest demoWard [7]"

definition demo1 :: "(unit, nat) cluster" where "demo1 = commit [demoPlanned] initial"
definition demo2 :: "(unit, nat) cluster" where "demo2 = (commit [demoClaimed] demo1)\<lparr>wards := [WClaimed demoWard]\<rparr>"
definition demo3 :: "(unit, nat) cluster" where "demo3 = (commit [demoClaimed] demo2)\<lparr>wards := [WRendered demoWard [7]]\<rparr>"
definition demo4 :: "(unit, nat) cluster" where "demo4 = (commit [demoClaimed] demo3)\<lparr>wards := [WChecked demoWard [7]]\<rparr>"
definition demo5 :: "(unit, nat) cluster" where "demo5 = (commit [demoMarked] demo4)\<lparr>wards := [WMarked demoWard [7]]\<rparr>"
definition demo6 :: "(unit, nat) cluster" where
  "demo6 = (commit [demoMarked] demo5)\<lparr>wards := [], sent := [demoRequest], net := [demoRequest]\<rparr>"
definition demo7 :: "(unit, nat) cluster" where
  "demo7 = demo6\<lparr>net := [], seenBy := (seenBy demo6)(''h'' := [''a'' \<mapsto> 1]), accepted := [demoRequest]\<rparr>"

definition demoDone :: "unit run_row" where
  "demoDone = demoMarked\<lparr>Status := StatusSuccess, FinishedAt := Some 9\<rparr>"
definition demo8 :: "(unit, nat) cluster" where "demo8 = commit [demoDone] demo7"
definition demo9 :: "(unit, nat) cluster" where "demo9 = demo8\<lparr>seenBy := (seenBy demo8)(''h'' := Map.empty)\<rparr>"

lemmas demo_rows = demoRun_def demoPlanned_def plannedRow_def demoClaimed_def demoMarked_def rowKey_def rowHost_def

lemma demoWard_simps [simp]:
  "ApplyID demoWard = ''a''" "SID demoWard = ''h''" "Passage demoWard = 0" "Attempt demoWard = 1" "Recipe demoWard = Some ()"
  by (simp_all add: demoWard_def scanClaimedRow_def apply_run.truncate_def demo_rows)

lemma demoRow_simps [simp]:
  "Status demoPlanned = StatusPlanned" "Status demoClaimed = StatusClaimed" "Status demoMarked = StatusDispatched"
  "rowKey demoPlanned = (''a'', ''h'', 0)" "rowKey demoClaimed = (''a'', ''h'', 0)" "rowKey demoMarked = (''a'', ''h'', 0)"
  "rowHost demoPlanned = (''a'', ''h'')" "rowHost demoClaimed = (''a'', ''h'')" "rowHost demoMarked = (''a'', ''h'')"
  "Attempt demoPlanned = 0" "Attempt demoClaimed = 1" "Attempt demoMarked = 1" "CancelRequested demoClaimed = False"
  by (simp_all add: demo_rows)

lemma demo_tables [simp]:
  "tbl demo1 = [demoPlanned]" "tbl demo2 = [demoClaimed]" "tbl demo3 = [demoClaimed]" "tbl demo4 = [demoClaimed]"
  "tbl demo5 = [demoMarked]" "tbl demo6 = [demoMarked]" "tbl demo7 = [demoMarked]"
  "net demo6 = [demoRequest]" "seenBy demo6 = (\<lambda>_. Map.empty)" "accepted demo6 = []"
  "sent demo7 = [demoRequest]" "accepted demo7 = [demoRequest]"
  by (simp_all add: demo1_def demo2_def demo3_def demo4_def demo5_def demo6_def demo7_def initial_def)

lemma demo_wards [simp]:
  "wards demo1 = []" "wards demo2 = [WClaimed demoWard]" "wards demo3 = [WRendered demoWard [7]]"
  "wards demo4 = [WChecked demoWard [7]]" "wards demo5 = [WMarked demoWard [7]]" "sent demo5 = []" "net demo5 = []"
  by (simp_all add: demo1_def demo2_def demo3_def demo4_def demo5_def initial_def)

lemma demoRequest_simps [simp]:
  "rqKey demoRequest = (''a'', ''h'', 0)" "rqSid demoRequest = ''h''" "rqApplyId demoRequest = ''a''"
  "rqAttempt demoRequest = 1" "rqPassage demoRequest = 0"
  by (simp_all add: demoRequest_def applyRequest_def rqKey_def int32_def)

lemma demo_claim:
  "ClaimNext ''k'' 60 5 [] 2 [] [demoPlanned] [demoPlanned] = Inr ([demoClaimed], [demoWard])"
proof -
  have n: "nextAttempt [demoPlanned] demoPlanned = 1" by (simp add: nextAttempt_def)
  then have e: "claimEffect ''k'' 60 [] 2 [demoPlanned] demoPlanned = demoClaimed"
    by (simp add: claimEffect_def demo_rows nullableVersion_def derefVersion_def)
  show ?thesis
    by (simp add: ClaimNext_def Let_def pickedKeys_def claimGuard_def update_where_def n e demoWard_def maxInt4_def)
qed

lemma demo_mark: "MarkDispatched ''a'' ''h'' 0 1 [] [demoClaimed] = Inr [demoMarked]"
proof -
  have "markEffect [] demoClaimed = demoMarked"
    by (simp add: markEffect_def demo_rows nullableVersion_def derefVersion_def)
  then show ?thesis by (simp add: MarkDispatched_def Let_def markGuard_def affected_def update_where_def)
qed

lemma demo_steps:
  "cstep initial demo1" "cstep demo1 demo2" "cstep demo2 demo3" "cstep demo3 demo4" "cstep demo4 demo5"
  "cstep demo5 demo6" "cstep demo6 demo7"
proof -
  show "cstep initial demo1"
    unfolding demo1_def
    by (rule cstep.plan [of "\<lambda>_. True" demoRun 1])
      (simp_all add: initial_def InsertPlanned_def insertRow_def findRow_def host_closed_def in_int4_def maxInt4_def demo_rows)
  show "cstep demo1 demo2"
    using cstep.claim [of "[demoPlanned]" demo1 "''k''" 60 5 "[]" 2 "[]" "[demoClaimed]" "[demoWard]"] demo_claim
    by (simp add: demo2_def)
  show "cstep demo2 demo3"
    using cstep.render [of demo2 "[]" demoWard "[]" "RenderedTasks [7]" False 3 "[demoClaimed]" "Some (WRendered demoWard [7])"]
    by (simp add: demo3_def executeRender_def replaceWard_def)
  show "cstep demo3 demo4"
    using cstep.window [of demo3 "[]" demoWard "[7]" "[]" 3 "[demoClaimed]" "Some (WChecked demoWard [7])"]
    by (simp add: demo4_def executeCancelWindow_def SelectCancelRequested_def findRow_def replaceWard_def)
  show "cstep demo4 demo5"
    using cstep.mark [of demo4 "[]" demoWard "[7]" "[]" False "[]" "[demoMarked]" "Some (WMarked demoWard [7])"] demo_mark
    by (simp add: demo5_def executeMark_def replaceWard_def)
  show "cstep demo5 demo6"
    using cstep.send [of demo5 "[]" demoWard "[7]" "[]" demoRequest True True 4]
    by (simp add: demo6_def executeSend_def demoRequest_def)
  show "cstep demo6 demo7"
    using cstep.deliver [of demo6 "[]" demoRequest "[]" "[''a'' \<mapsto> 1]" True]
    by (simp add: demo7_def AcceptAttempt_def lastSeen_def)
qed

lemma demo_result: "cstep demo7 demo8"
proof -
  have "updateStatusEffect StatusSuccess None 9 demoMarked = demoDone"
    by (simp add: updateStatusEffect_def demoDone_def demo_rows)
  then have "correlateRunResult ''h'' (resultOf demoRequest RUN_STATUS_SUCCESS) 9 [demoMarked] = ([demoDone], Correlated StatusSuccess)"
    by (simp add: correlateRunResult_def resultOf_def SelectIncarnationByApplyID_def findRow_def UpdateStatus_def
        runStatusToApplyStatus_def affected_def updateStatusGuard_def update_where_def ValidStatus_def)
  then show ?thesis
    using cstep.result [of demoRequest demo7 RUN_STATUS_SUCCESS 9 "[demoDone]"] by (simp add: demo8_def)
qed

lemma demo_reachable:
  "reachable demo1" "reachable demo6" "reachable demo7" "reachable demo8" "cstep\<^sup>*\<^sup>* demo8 demo9"
  using demo_steps demo_result cstep.restart [of demo8 "''h''"] unfolding reachable_def demo9_def unfolding reachable_def by (meson rtranclp.rtrancl_into_rtrancl rtranclp.rtrancl_refl)+

section \<open>Sent once, run once\<close>

text \<open>
  (C3) However workers, recovery scans, sweeps and run goroutines interleave, no step of a host is
  sent twice and none is run twice: among the requests sent by workers, and among those an agent accepted,
  there is at most one for each row.
\<close>

theorem sent_and_run_at_most_once:
  assumes "reachable s"
  shows "distinct (map rqKey (sent s)) \<and> distinct (map rqKey (accepted s))"
  using reachable_inv [OF assms] by (simp add: cluster_inv_def handed_def)

theorem sent_and_run_at_most_once_witness:
  "distinct (map rqKey (sent demo7)) \<and> accepted demo7 = [demoRequest]"
  using sent_and_run_at_most_once [OF demo_reachable(3)] by simp

lemma backed_request:
  assumes "reachable s" and "q \<in> set (sent s)"
  shows "backed (tbl s) q"
  using reachable_inv [OF assms(1)] assms(2) by (auto simp: cluster_inv_def handed_def list_all_iff)

text \<open>
  (C26) The agent never turns away the request it is waited for: when a request arrives while its row is still
  dispatched, the fence accepts it, whatever the agent saw of the run before.
\<close>

theorem live_request_accepted:
  assumes "reachable s" and "q \<in> set (net s)" and "r \<in> set (tbl s)" and "rowKey r = rqKey q"
    and "Status r = StatusDispatched"
  shows "snd (AcceptAttempt (seenBy s (rqSid q)) (rqApplyId q) (rqAttempt q))"
proof -
  note inv = reachable_inv [OF assms(1)]
  have q: "q \<in> set (sent s)" and ok: "table_ok (tbl s)" and ep: "epoch (tbl s)" and fence: "fence_ok (tbl s) (seenBy s)"
    using inv assms(2) by (auto simp: cluster_inv_def table_inv_def)
  obtain c where c: "c \<in> set (tbl s)" "rowKey c = rqKey q" "Attempt c = rqAttempt q" "0 < Attempt c"
    using backed_request [OF assms(1) q] by (auto simp: backed_def)
  then have r: "Attempt r = rqAttempt q" "0 < Attempt r"
    using rowKey_unique [of "tbl s" r c] ok assms(3,4) by (auto simp: table_ok_def)
  have host: "rowHost r = (rqApplyId q, rqSid q)" using assms(4) by (simp add: rowKey_def rqKey_def rowHost_def)
  have "Attempt h \<le> Attempt r" if "h \<in> set (tbl s)" "rowHost h = rowHost r" for h
  proof (cases "rowKey h = rowKey r")
    case True
    then show ?thesis using rowKey_unique [of "tbl s" h r] that(1) assms(3) ok by (simp add: table_ok_def)
  next
    case False
    then show ?thesis using ep assms(3,5) r(2) that unfolding epoch_def in_flight_def by (meson less_imp_le)
  qed
  then have "lastSeen (seenBy s (rqSid q)) (rqApplyId q) \<le> Attempt r"
    using fence host r(2) unfolding fence_ok_def by (metis less_imp_le order_trans)
  then show ?thesis using r by (simp add: AcceptAttempt_def)
qed

theorem live_request_accepted_witness:
  "snd (AcceptAttempt (seenBy demo6 (rqSid demoRequest)) (rqApplyId demoRequest) (rqAttempt demoRequest))"
  using live_request_accepted [OF demo_reachable(2), of demoRequest demoMarked] by simp

section \<open>Results\<close>

lemma UpdateStatus_cases:
  assumes "table_ok t" and "a \<noteq> []" and "sid \<noteq> []" and "ValidStatus st" and "findRow (a, sid, p) t = Some r"
  shows "UpdateStatus a sid p st summary now t =
    (if terminal (Status r) then Inl (ErrApplyRunAlreadyTerminal (Status r))
     else Inr (update_where (updateStatusGuard (a, sid, p)) (updateStatusEffect st summary now) t))"
proof -
  let ?g = "updateStatusGuard (a, sid, p)"
  have "row_ok r" using assms(1) findRow_Some [OF assms(5)] by (auto simp: table_ok_def list_all_iff)
  then have "?g r \<longleftrightarrow> \<not> terminal (Status r)"
    using findRow_Some [OF assms(5)] valid_nonterminal [of "Status r"] by (auto simp: row_ok_def updateStatusGuard_def)
  then have "affected ?g t = 1 \<longleftrightarrow> \<not> terminal (Status r)"
    using affected_one [OF assms(1), of ?g "(a, sid, p)"] guards_key(1) assms(5) by auto
  then show ?thesis using assms(2-5) by (simp add: UpdateStatus_def Let_def)
qed

text \<open>A request that was accepted has its row, at the attempt it carries.\<close>

lemma accepted_row:
  assumes "reachable s" and "q \<in> set (accepted s)"
  obtains r where "table_ok (tbl s)" "findRow (rqKey q) (tbl s) = Some r" "row_ok r" "Attempt r = rqAttempt q"
    "rqApplyId q \<noteq> []" "rqSid q \<noteq> []"
proof -
  have inv: "table_ok (tbl s)" "q \<in> set (sent s)"
    using reachable_inv [OF assms(1)] assms(2) by (auto simp: cluster_inv_def table_inv_def)
  obtain r where r: "r \<in> set (tbl s)" "rowKey r = rqKey q" "Attempt r = rqAttempt q"
    using backed_request [OF assms(1) inv(2)] by (auto simp: backed_def)
  have f: "findRow (rqKey q) (tbl s) = Some r" using findRow_in [of "tbl s" r] inv(1) r(1,2) by (simp add: table_ok_def)
  have ok: "row_ok r" using inv(1) r(1) by (auto simp: table_ok_def list_all_iff)
  then have ne: "rqApplyId q \<noteq> []" "rqSid q \<noteq> []" using r(2) by (auto simp: row_ok_def rowKey_def rqKey_def)
  show ?thesis by (rule that [OF inv(1) f ok r(3) ne])
qed

text \<open>The status statement writes the one open row of its key and no other.\<close>

lemma UpdateStatus_writes:
  assumes "table_ok t" and "findRow k t = Some r" and "\<not> terminal (Status r)" and "terminal st"
  shows "update_where (updateStatusGuard k) (updateStatusEffect st None now) t =
      map (\<lambda>x. if rowKey x = k then r\<lparr>Status := st, FinishedAt := Some now\<rparr> else x) t"
proof -
  have "row_ok r" using assms(1) findRow_Some [OF assms(2)] by (auto simp: table_ok_def list_all_iff)
  then have g: "updateStatusGuard k r"
    using findRow_Some [OF assms(2)] valid_nonterminal [of "Status r"] assms(3)
    by (auto simp: row_ok_def updateStatusGuard_def)
  have "x = r" if "x \<in> set t" "rowKey x = k" for x
    using findRow_in [of t x] that assms(1,2) by (simp add: table_ok_def)
  then show ?thesis
    using g terminal_neq(3) [OF assms(4)]
    by (auto simp: update_where_def updateStatusEffect_def updateStatusGuard_def)
qed

lemma findRow_written:
  assumes "findRow k t = Some r" and "rowKey r' = k"
  shows "findRow k (map (\<lambda>x. if rowKey x = k then r' else x) t) = Some r'"
  using assms by (induction t) (auto simp: findRow_def)

text \<open>
  (C27) The result of an accepted request finds its row at exactly the attempt it echoes: the epoch check neither
  drops it nor meets the case the code calls impossible. The first result writes its status and the
  time of its arrival into that row and touches nothing else; if the row is already terminal the table stays as
  it is. Either way the row is terminal afterwards.
\<close>

theorem result_meets_its_row:
  assumes "reachable s" and "q \<in> set (accepted s)"
  shows "\<exists>r. findRow (rqKey q) (tbl s) = Some r \<and> Attempt r = rrAttempt (resultOf q st) \<and>
    correlateRunResult (rqSid q) (resultOf q st) now (tbl s) =
      (if terminal (Status r) then (tbl s, NotWritten (ErrApplyRunAlreadyTerminal (Status r)))
       else (map (\<lambda>x. if rowKey x = rqKey q
                      then r\<lparr>Status := runStatusToApplyStatus st, FinishedAt := Some now\<rparr> else x) (tbl s),
             Correlated (runStatusToApplyStatus st))) \<and>
    (\<exists>r'. findRow (rqKey q) (fst (correlateRunResult (rqSid q) (resultOf q st) now (tbl s))) = Some r' \<and>
       terminal (Status r'))"
proof -
  obtain r where r: "table_ok (tbl s)" "findRow (rqKey q) (tbl s) = Some r" "row_ok r" "Attempt r = rqAttempt q"
    "rqApplyId q \<noteq> []" "rqSid q \<noteq> []" by (rule accepted_row [OF assms])
  define r' where "r' = r\<lparr>Status := runStatusToApplyStatus st, FinishedAt := Some now\<rparr>"
  note v = terminal_neq(5) [OF runStatus_terminal [of st]]
    and f = r(2) [unfolded rqKey_def] and key = rqKey_def [of q]
  have c: "correlateRunResult (rqSid q) (resultOf q st) now (tbl s) =
      (if terminal (Status r) then (tbl s, NotWritten (ErrApplyRunAlreadyTerminal (Status r)))
       else (map (\<lambda>x. if rowKey x = rqKey q then r' else x) (tbl s), Correlated (runStatusToApplyStatus st)))"
    using UpdateStatus_cases [OF r(1,5,6) v f] UpdateStatus_writes [OF r(1,2) _ runStatus_terminal] r(4) f
    by (simp add: correlateRunResult_def resultOf_def SelectIncarnationByApplyID_def key r'_def Let_def)
  have "rowKey r' = rqKey q" using findRow_Some [OF r(2)] by (simp add: r'_def rowKey_def)
  then have "findRow (rqKey q) (map (\<lambda>x. if rowKey x = rqKey q then r' else x) (tbl s)) = Some r'"
    by (rule findRow_written [OF r(2)])
  moreover have "terminal (Status r')" by (simp add: r'_def)
  moreover have "Attempt r = rrAttempt (resultOf q st)" using r(4) by (simp add: resultOf_def)
  ultimately show ?thesis using r(2) unfolding c r'_def by auto
qed

theorem result_meets_its_row_witness:
  "correlateRunResult ''h'' (resultOf demoRequest RUN_STATUS_SUCCESS) 9 [demoMarked] =
     ([demoMarked\<lparr>Status := StatusSuccess, FinishedAt := Some 9\<rparr>], Correlated StatusSuccess)"
  using result_meets_its_row [OF demo_reachable(3), of demoRequest RUN_STATUS_SUCCESS 9]
  by (auto simp: findRow_def runStatusToApplyStatus_def)

section \<open>A terminal is final\<close>

lemma table_evolves_trans: "table_evolves a b \<Longrightarrow> table_evolves b c \<Longrightarrow> table_evolves a c"
  unfolding table_evolves_def by (metis row_evolves_def row_evolves_trans)

lemma cstep_evolves:
  assumes "cstep s s'" and "cluster_inv s"
  shows "table_evolves (tbl s) (tbl s')"
proof -
  have "tbl s' = tbl s \<or> past s' = tbl s # past s" using assms(1) by cases (auto simp: commit_def)
  then show ?thesis
    using cstep_inv [OF assms] table_evolves_refl by (auto simp: cluster_inv_def table_inv_def)
qed

lemma run_evolves: "cstep\<^sup>*\<^sup>* s s' \<Longrightarrow> cluster_inv s \<Longrightarrow> cluster_inv s' \<and> table_evolves (tbl s) (tbl s')"
  by (induction rule: rtranclp_induct) (auto intro: table_evolves_refl cstep_inv dest: cstep_evolves table_evolves_trans)

text \<open>
  (C28) The first terminal of a row wins: from then on, whatever the cluster does, the row keeps its status, its
  attempt and its finish time.
\<close>

theorem terminal_is_final:
  assumes "reachable s" and "cstep\<^sup>*\<^sup>* s s'" and "findRow k (tbl s) = Some r" and "terminal (Status r)"
  shows "\<exists>r'. findRow k (tbl s') = Some r' \<and> Status r' = Status r \<and> Attempt r' = Attempt r \<and> FinishedAt r' = FinishedAt r"
proof -
  note r = findRow_Some [OF assms(3)] and e = run_evolves [OF assms(2) reachable_inv [OF assms(1)]]
  have "\<not> withdrawable r" using assms(4) by (auto simp: withdrawable_def)
  then obtain r' where r': "r' \<in> set (tbl s')" "row_evolves r r'"
    using e r unfolding table_evolves_def by blast
  have "findRow (rowKey r') (tbl s') = Some r'"
    using e r'(1) by (intro findRow_in) (auto simp: cluster_inv_def table_inv_def table_ok_def)
  then show ?thesis using r r' assms(4) by (auto simp: row_evolves_def)
qed


theorem terminal_is_final_witness:
  "\<exists>r'. findRow (''a'', ''h'', 0) (tbl demo9) = Some r' \<and> Status r' = StatusSuccess \<and> FinishedAt r' = Some 9"
proof -
  have "findRow (''a'', ''h'', 0) (tbl demo8) = Some demoDone" "Status demoDone = StatusSuccess" "FinishedAt demoDone = Some 9"
    by (simp_all add: demo8_def findRow_def demoDone_def demo_rows)
  with terminal_is_final [OF demo_reachable(4,5)] show ?thesis by fastforce
qed

section \<open>The table\<close>

text \<open>
  In every reachable state of the cluster the keys of the table are unique, every row is well formed (its
  attempt fits the column, it has a finish time exactly when it is terminal, only failures are marked
  dropped or handled and never both), and a host has at most one open row.
\<close>

theorem table_stays_consistent:
  assumes "reachable s"
  shows "table_ok (tbl s) \<and> one_open (tbl s)"
  using reachable_inv [OF assms] by (simp add: cluster_inv_def table_inv_def)

theorem table_stays_consistent_witness: "table_ok [demoMarked] \<and> one_open [demoMarked]"
  using table_stays_consistent [OF demo_reachable(2)] by simp

text \<open>
  The attempt a claim stamps is above every attempt the host reached in the run, its earlier steps
  included, even when the claim read any older committed version of the table; and it fits the column.
\<close>

theorem claim_above_host:
  assumes "reachable s" and "snap \<in> set (tbl s # past s)"
    and "ClaimNext kid lease batch kv now locked snap (tbl s) = Inr (t', runs)"
    and "run \<in> set runs" and "h \<in> set (tbl s)" and "rowHost h = rowHost run"
  shows "Attempt h < Attempt run \<and> Attempt run \<le> maxInt4"
proof -
  have inv: "table_inv (tbl s # past s) (tbl s)" by (rule inv_self [OF reachable_inv [OF assms(1)]])
  obtain r where r: "r \<in> set (tbl s)" "claimGuard (pickedKeys locked (nat batch) snap (tbl s)) r"
    "nextAttempt snap r \<le> maxInt4" "run = scanClaimedRow (claimEffect kid lease kv now snap r)"
    using assms(4) unfolding ClaimNext_Inr(2) [OF assms(3)] by auto
  have run: "Attempt run = nextAttempt snap r" "rowHost run = rowHost r"
    by (simp_all add: r(4) scanClaimedRow_def apply_run.truncate_def claimEffect_def rowHost_def)
  show ?thesis
  proof (cases "rowKey h = rowKey r")
    case True
    then have "h = r" using rowKey_unique [of "tbl s" h r] inv assms(5) r(1) by (simp add: table_inv_def table_ok_def)
    then show ?thesis using run r(3) nextAttempt_gt(1) by simp
  next
    case False
    then show ?thesis
      using nextAttempt_above(1) [OF inv assms(2) r(1,2) assms(5) _ False] assms(6) run r(3) by simp
  qed
qed

theorem claim_above_host_witness:
  "ClaimNext ''k'' 60 5 [] 2 [] [demoPlanned] (tbl demo1) = Inr ([demoClaimed], [demoWard])
   \<and> Attempt demoPlanned < Attempt demoWard"
  using claim_above_host [OF demo_reachable(1), of "[demoPlanned]" "''k''" 60 5 "[]" 2 "[]" "[demoClaimed]" "[demoWard]" demoWard demoPlanned]
    demo_claim by (simp add: rowHost_def demo_rows)

section \<open>The queue is served in order\<close>

lemma sorted_take_drop:
  "x \<in> set (take n (sort_key f xs)) \<Longrightarrow> y \<in> set (drop n (sort_key f xs)) \<Longrightarrow> f x \<le> f y"
proof -
  assume xy: "x \<in> set (take n (sort_key f xs))" "y \<in> set (drop n (sort_key f xs))"
  have "sorted (map f (take n (sort_key f xs)) @ map f (drop n (sort_key f xs)))"
    by (simp flip: map_append)
  then show ?thesis using xy by (auto simp: sorted_append)
qed

lemma pickedKeys_now:
  "pickedKeys [] n t t = map rowKey (take n (sort_key StartedAt (filter (\<lambda>r. Status r = StatusPlanned) t)))"
proof -
  have "filter (\<lambda>r. rowKey r \<notin> set [] \<and> list_ex (\<lambda>c. rowKey c = rowKey r \<and> Status c = StatusPlanned) t)
      (sort_key StartedAt (filter (\<lambda>r. Status r = StatusPlanned) t))
    = sort_key StartedAt (filter (\<lambda>r. Status r = StatusPlanned) t)"
    by (rule filter_True) (auto simp: list_ex_iff)
  then show ?thesis by (simp only: pickedKeys_def)
qed

lemma claimGuard_now:
  assumes "distinct (map rowKey t)" and "r \<in> set t"
  shows "claimGuard (pickedKeys [] n t t) r \<longleftrightarrow> r \<in> set (take n (sort_key StartedAt (filter (\<lambda>r. Status r = StatusPlanned) t)))"
proof -
  let ?p = "take n (sort_key StartedAt (filter (\<lambda>r. Status r = StatusPlanned) t))"
  have p: "x \<in> set t \<and> Status x = StatusPlanned" if "x \<in> set ?p" for x using in_set_takeD [OF that] by simp
  show ?thesis
  proof
    assume "claimGuard (pickedKeys [] n t t) r"
    then obtain x where "x \<in> set ?p" "rowKey x = rowKey r" unfolding claimGuard_def pickedKeys_now by auto
    then show "r \<in> set ?p" using rowKey_unique [OF assms(1) _ assms(2)] p by metis
  next
    assume r: "r \<in> set ?p"
    show "claimGuard (pickedKeys [] n t t) r"
      unfolding claimGuard_def pickedKeys_now set_map using imageI [OF r] p [OF r] by blast
  qed
qed

lemma scan_simps [simp]:
  "rowKey (scanClaimedRow (claimEffect kid lease kv now snap r)) = rowKey r"
  "StartedAt (scanClaimedRow (claimEffect kid lease kv now snap r)) = StartedAt r"
  "Attempt (scanClaimedRow (claimEffect kid lease kv now snap r)) = nextAttempt snap r"
  by (simp_all add: scanClaimedRow_def apply_run.truncate_def claimEffect_def rowKey_def)

text \<open>
  A claim takes as many planned rows as the batch allows, and the oldest of them: when no competitor
  holds a row, it returns the smaller of the batch and the number of planned rows, and no planned row it
  leaves was started before one it took.
\<close>

theorem claim_takes_the_oldest:
  assumes "table_ok t" and "ClaimNext kid lease batch kv now [] t t = Inr (t', runs)"
  shows "length runs = min (nat batch) (length (filter (\<lambda>r. Status r = StatusPlanned) t)) \<and>
    (\<forall>run r. run \<in> set runs \<and> r \<in> set t \<and> Status r = StatusPlanned \<and> rowKey r \<notin> rowKey ` set runs
       \<longrightarrow> StartedAt run \<le> StartedAt r)"
proof -
  define planned where "planned = filter (\<lambda>r. Status r = StatusPlanned) t"
  define picked where "picked = take (nat batch) (sort_key StartedAt planned)"
  let ?g = "claimGuard (pickedKeys [] (nat batch) t t)"
  have d: "distinct (map rowKey t)" "distinct t" using assms(1) by (auto simp: table_ok_def distinct_map)
  have runs: "runs = map (\<lambda>r. scanClaimedRow (claimEffect kid lease kv now t r)) (filter ?g t)"
    using assms(2) by (auto simp: ClaimNext_def Let_def split: if_splits)
  have picked: "filter ?g t = filter (\<lambda>r. r \<in> set picked) t"
    using claimGuard_now [OF d(1)] by (auto simp: picked_def planned_def intro!: filter_cong)
  have sub: "set picked \<subseteq> set planned" "set planned \<subseteq> set t"
    by (auto simp: picked_def planned_def dest: in_set_takeD)
  have dp: "distinct picked" "distinct planned" using d(2) by (simp_all add: picked_def planned_def)
  have "set (filter (\<lambda>r. r \<in> set picked) t) = set picked" using sub by auto
  then have "length (filter (\<lambda>r. r \<in> set picked) t) = length picked"
    using dp(1) d(2) by (metis distinct_card distinct_filter)
  then have len: "length runs = min (nat batch) (length planned)" unfolding runs picked by (simp add: picked_def)
  have "StartedAt run \<le> StartedAt r"
    if run: "run \<in> set runs" and r: "r \<in> set t" "Status r = StatusPlanned" "rowKey r \<notin> rowKey ` set runs" for run r
  proof -
    obtain x where x: "x \<in> set picked" "run = scanClaimedRow (claimEffect kid lease kv now t x)"
      using run unfolding runs picked by auto
    have "rowKey ` set runs = rowKey ` (set t \<inter> set picked)"
      unfolding runs picked by (auto simp: image_iff)
    then have "r \<notin> set picked" using r(1,3) by blast
    moreover have "r \<in> set (sort_key StartedAt planned)" using r(1,2) by (simp add: planned_def)
    ultimately have "r \<in> set (drop (nat batch) (sort_key StartedAt planned))"
      unfolding picked_def by (metis Un_iff append_take_drop_id set_append)
    from sorted_take_drop [OF x(1) [unfolded picked_def] this] show ?thesis by (simp add: x(2))
  qed
  with len show ?thesis unfolding planned_def by blast
qed

theorem claim_takes_the_oldest_witness:
  "table_ok [demoPlanned] \<and> length [demoWard] = min (nat 5) (length (filter (\<lambda>r. Status r = StatusPlanned) [demoPlanned]))"
proof -
  have "table_ok [demoPlanned]" using reachable_inv [OF demo_reachable(1)] by (simp add: cluster_inv_def table_inv_def)
  with claim_takes_the_oldest [OF this demo_claim] show ?thesis by blast
qed

section \<open>Recovery\<close>

text \<open>
  The recovery scan, whatever older version of the table it chose its rows in, returns to the queue only
  rows that are still claimed under an expired lease when it writes; it leaves every other row, a dispatched
  or terminal one above all, untouched, and it keeps the attempt.
\<close>

theorem reclaim_only_expired:
  assumes "ReclaimApplyRuns lease batch now snap t = Inr (t', n)"
  shows "length t' = length t \<and> n \<le> length t \<and> (\<forall>i < length t.
    (t' ! i = t ! i \<or> (Status (t ! i) = StatusClaimed \<and> (\<exists>e. ClaimExpiresAt (t ! i) = Some e \<and> e < now)
       \<and> Status (t' ! i) = StatusPlanned \<and> Attempt (t' ! i) = Attempt (t ! i) \<and> rowKey (t' ! i) = rowKey (t ! i))))"
proof -
  obtain picked where "t' = update_where (reclaimGuard now picked) reclaimEffect t" "n = affected (reclaimGuard now picked) t"
    using assms by (auto simp: ReclaimApplyRuns_def Let_def split: if_splits)
  then show ?thesis
    by (auto simp: update_where_def affected_def reclaimGuard_def reclaimEffect_def expiredWard_def rowKey_def
        split: option.splits)
qed

theorem reclaim_only_expired_witness:
  "ReclaimApplyRuns 60 5 99 [demoClaimed] [demoMarked] = Inr ([demoMarked], 0)
   \<and> (\<exists>t' n. ReclaimApplyRuns 60 5 99 [demoClaimed] [demoMarked] = Inr (t', n) \<and> length t' = 1)"
proof -
  have r: "ReclaimApplyRuns 60 5 99 [demoClaimed] [demoMarked] = Inr ([demoMarked], 0)"
    by (simp add: ReclaimApplyRuns_def Let_def update_where_def affected_def reclaimGuard_def expiredWard_def)
  with reclaim_only_expired [OF r] show ?thesis by auto
qed

lemma expiredKeys_all:
  assumes "length (filter (expiredWard now) t) \<le> n" and "r \<in> set t" and "expiredWard now r"
  shows "rowKey r \<in> set (expiredKeys now n t)"
  using assms by (simp add: expiredKeys_def)

text \<open>
  A claim whose worker died comes back: once its lease has expired, a recovery scan whose batch holds the
  expired claims and then a claim whose batch holds the planned rows give the row to a worker again, at a
  higher attempt.
\<close>

theorem lost_claim_comes_back:
  assumes "table_ok t" and "r \<in> set t" and "expiredWard now r"
    and "0 < n" and "length (filter (expiredWard now) t) \<le> nat n"
    and "ReclaimApplyRuns lease n now t t = Inr (t1, c)"
    and "ClaimNext kid lease2 batch kv now2 [] t1 t1 = Inr (t2, runs)"
    and "length (filter (\<lambda>r. Status r = StatusPlanned) t1) \<le> nat batch"
  shows "\<exists>run \<in> set runs. rowKey run = rowKey r \<and> Attempt r < Attempt run"
proof -
  let ?g = "reclaimGuard now (expiredKeys now (nat n) t)"
  have t1: "t1 = update_where ?g reclaimEffect t"
    using assms(4,6) by (auto simp: ReclaimApplyRuns_def Let_def split: if_splits)
  have "?g r" using expiredKeys_all [OF assms(5,2,3)] assms(3) by (simp add: reclaimGuard_def)
  then have r1: "reclaimEffect r \<in> set t1" "Status (reclaimEffect r) = StatusPlanned"
    "rowKey (reclaimEffect r) = rowKey r" "Attempt (reclaimEffect r) = Attempt r"
    using assms(2) by (force simp: t1 update_where_def, simp_all add: reclaimEffect_def rowKey_def)
  have ok: "table_ok t1" unfolding t1 by (rule reclaim.ok [OF assms(1)])
  let ?h = "claimGuard (pickedKeys [] (nat batch) t1 t1)"
  have "?h (reclaimEffect r)"
    using claimGuard_now [of t1 "reclaimEffect r" "nat batch"] ok r1 assms(8) by (simp add: table_ok_def)
  moreover have "runs = map (\<lambda>r. scanClaimedRow (claimEffect kid lease2 kv now2 t1 r)) (filter ?h t1)"
    using assms(7) by (auto simp: ClaimNext_def Let_def split: if_splits)
  ultimately have "scanClaimedRow (claimEffect kid lease2 kv now2 t1 (reclaimEffect r)) \<in> set runs" using r1(1) by auto
  then show ?thesis using r1 nextAttempt_gt(1) [of "reclaimEffect r" t1] by force
qed


theorem lost_claim_comes_back_witness:
  "\<exists>t1 t2 runs. ReclaimApplyRuns 60 5 99 [demoClaimed] [demoClaimed] = Inr (t1, 1)
     \<and> ClaimNext ''k2'' 60 5 [] 100 [] t1 t1 = Inr (t2, runs) \<and> map Attempt runs = [2]
     \<and> (\<exists>run \<in> set runs. Attempt demoClaimed < Attempt run)"
proof -
  have ok: "table_ok [demoClaimed]" by (simp add: table_ok_def row_ok_def in_int4_def maxInt4_def demo_rows)
  have ex: "expiredWard 99 demoClaimed" by (simp add: expiredWard_def demo_rows)
  have reclaim: "ReclaimApplyRuns 60 5 99 [demoClaimed] [demoClaimed] = Inr ([reclaimEffect demoClaimed], 1)"
    using ex by (simp add: ReclaimApplyRuns_def Let_def update_where_def affected_def reclaimGuard_def expiredKeys_def)
  let ?r = "reclaimEffect demoClaimed"
  have r: "Status ?r = StatusPlanned" "rowKey ?r = (''a'', ''h'', 0)" "rowHost ?r = (''a'', ''h'')" "Attempt ?r = 1"
    by (simp_all add: reclaimEffect_def demo_rows)
  have "nextAttempt [?r] ?r = 2" using r by (simp add: nextAttempt_def)
  then have claim: "ClaimNext ''k2'' 60 5 [] 100 [] [?r] [?r] =
      Inr ([claimEffect ''k2'' 60 [] 100 [?r] ?r], [scanClaimedRow (claimEffect ''k2'' 60 [] 100 [?r] ?r)])"
    and "map Attempt [scanClaimedRow (claimEffect ''k2'' 60 [] 100 [?r] ?r)] = [2]"
    using r by (simp_all add: ClaimNext_def Let_def pickedKeys_def claimGuard_def update_where_def maxInt4_def)
  with lost_claim_comes_back [OF ok _ ex _ _ reclaim claim] ex reclaim show ?thesis by (simp add: r)
qed

end
