(* ===== verification/Run_View.thy ===== *)
theory Run_View
  imports Apply_Run
begin

text \<open>
  What an operator sees of runs (\<^verbatim>\<open>keeper/internal/applyrun\<close>: \<^verbatim>\<open>runsview.go\<close>, \<^verbatim>\<open>runsglobal.go\<close>, and the notices
  of \<^verbatim>\<open>crud.go\<close>). The rows of a run fold into one status, once in Go and once in SQL; the two folds agree on
  every table the package keeps, and a run has a finish time exactly when it is over. The search text and
  the sort of the list become parts of a query, and neither can say more than it was given for.
\<close>

section \<open>The status of a run\<close>

definition RunStatusApplying :: string where "RunStatusApplying = ''applying''"
definition RunStatusSuccess :: string where "RunStatusSuccess = ''success''"
definition RunStatusFailed :: string where "RunStatusFailed = ''failed''"
definition RunStatusPartialFailed :: string where "RunStatusPartialFailed = ''partial_failed''"
definition RunStatusCancelled :: string where "RunStatusCancelled = ''cancelled''"

lemmas run_status_defs = RunStatusApplying_def RunStatusSuccess_def RunStatusFailed_def
  RunStatusPartialFailed_def RunStatusCancelled_def

definition RunStatuses :: "string list" where
  "RunStatuses = [RunStatusApplying, RunStatusSuccess, RunStatusFailed, RunStatusPartialFailed, RunStatusCancelled]"

definition ValidRunStatus :: "string \<Rightarrow> bool" where
  "ValidRunStatus s \<longleftrightarrow> s \<in> set RunStatuses"

text \<open>The loop over the rows, with the early return of its default branch.\<close>

fun foldStatuses :: "status list \<Rightarrow> nat \<Rightarrow> bool \<Rightarrow> (nat \<times> bool) option" where
  "foldStatuses [] failures hasCancelled = Some (failures, hasCancelled)"
| "foldStatuses (s # ss) failures hasCancelled =
     (if s = StatusSuccess \<or> s = StatusNoMatch then foldStatuses ss failures hasCancelled
      else if s = StatusFailed \<or> s = StatusOrphaned then foldStatuses ss (failures + 1) hasCancelled
      else if s = StatusCancelled then foldStatuses ss failures True
      else None)"

definition AggregateRunStatus :: "status list \<Rightarrow> nat \<Rightarrow> nat \<Rightarrow> bool \<Rightarrow> string" where
  "AggregateRunStatus statuses dropped handled lockHeld =
     (if lockHeld \<or> statuses = [] then RunStatusApplying
      else case foldStatuses statuses 0 False of
        None \<Rightarrow> RunStatusApplying
      | Some (failures, hasCancelled) \<Rightarrow>
          if dropped + handled < failures then RunStatusFailed
          else if hasCancelled then RunStatusCancelled
          else if 0 < dropped then RunStatusPartialFailed
          else RunStatusSuccess)"

text \<open>
  The applying lock of the incarnation of a row: the joined row of \<^verbatim>\<open>incarnation\<close>, if any, is its status and
  the run that holds the lock.
\<close>

type_synonym incarnations = "string \<Rightarrow> (string \<times> string option) option"

definition runLockHeld :: "incarnations \<Rightarrow> 'r run_row \<Rightarrow> bool" where
  "runLockHeld inc r =
     (case inc (IncarnationName r) of
        None \<Rightarrow> False
      | Some (st, applying) \<Rightarrow> st = ''applying'' \<and> applying = Some (ApplyID r))"

definition runRows :: "string \<Rightarrow> 'r run_table \<Rightarrow> 'r run_table" where
  "runRows applyID t = filter (\<lambda>r. ApplyID r = applyID) t"

definition foldRun :: "incarnations \<Rightarrow> 'r run_table \<Rightarrow> string" where
  "foldRun inc rows =
     AggregateRunStatus (map Status rows) (length (filter Dropped rows))
       (length (filter (\<lambda>r. \<not> Dropped r \<and> HandledMark r) rows)) (list_ex (runLockHeld inc) rows)"

definition SelectRunStatus :: "incarnations \<Rightarrow> string \<Rightarrow> 'r run_table \<Rightarrow> string" where
  "SelectRunStatus inc applyID t = foldRun inc (runRows applyID t)"

text \<open>The status column of \<^verbatim>\<open>runsAggregateSelect\<close>, over the rows of one group.\<close>

definition runsAggregateStatus :: "incarnations \<Rightarrow> 'r run_table \<Rightarrow> string" where
  "runsAggregateStatus inc rows =
     (if list_ex (runLockHeld inc) rows then RunStatusApplying
      else if list_ex (\<lambda>r. Status r \<notin> set terminalStatuses) rows then RunStatusApplying
      else if list_ex (\<lambda>r. Status r \<in> set [StatusFailed, StatusOrphaned] \<and> \<not> Dropped r \<and> \<not> HandledMark r) rows
      then RunStatusFailed
      else if list_ex (\<lambda>r. Status r = StatusCancelled) rows then RunStatusCancelled
      else if list_ex Dropped rows then RunStatusPartialFailed
      else RunStatusSuccess)"

text \<open>The finish time column, and the same answer in the loop of \<open>SelectRunDetail\<close>.\<close>

definition runsAggregateFinished :: "incarnations \<Rightarrow> 'r run_table \<Rightarrow> int option" where
  "runsAggregateFinished inc rows =
     (if list_all (\<lambda>r. FinishedAt r \<noteq> None) rows \<and> \<not> list_ex (runLockHeld inc) rows
      then (case List.map_filter FinishedAt rows of [] \<Rightarrow> None | x # xs \<Rightarrow> Some (fold max xs x))
      else None)"

record run_host_status =
  hsSID :: string
  hsStatus :: status
  hsPassage :: int
  hsFailedTaskIdx :: "int option"
  hsFailedPlanIndex :: "int option"
  hsErrorSummary :: "string option"
  hsAttempt :: int
  hsCancelRequested :: bool
  hsDropped :: bool
  hsHandled :: bool
  hsNotices :: "run_notice list"

section \<open>Notices\<close>

definition noticeKey :: "run_notice \<Rightarrow> string \<times> string \<times> string" where
  "noticeKey n = (Code n, Module n, Param n)"

fun dedupeLoop :: "(string \<times> string \<times> string) list \<Rightarrow> run_notice list \<Rightarrow> run_notice list" where
  "dedupeLoop seen [] = []"
| "dedupeLoop seen (n # ns) =
     (if noticeKey n \<in> set seen then dedupeLoop seen ns
      else n # dedupeLoop (noticeKey n # seen) ns)"

text \<open>
  The comparison of \<^verbatim>\<open>sort.Slice\<close>. The keys of what is sorted are distinct, so the order it gives does not depend
  on the algorithm: it is the insertion into a sorted list.
\<close>

definition noticeLess :: "run_notice \<Rightarrow> run_notice \<Rightarrow> bool" where
  "noticeLess a b =
     (if Code a \<noteq> Code b then Code a < Code b
      else if Module a \<noteq> Module b then Module a < Module b
      else Param a < Param b)"

fun insertNotice :: "run_notice \<Rightarrow> run_notice list \<Rightarrow> run_notice list" where
  "insertNotice n [] = [n]"
| "insertNotice n (m # ms) = (if noticeLess m n then m # insertNotice n ms else n # m # ms)"

definition DedupeNotices :: "run_notice list \<Rightarrow> run_notice list" where
  "DedupeNotices ns = foldr insertNotice (dedupeLoop [] ns) []"

section \<open>One run\<close>

definition runHostStatus :: "'r run_row \<Rightarrow> run_host_status" where
  "runHostStatus r =
     \<lparr>hsSID = SID r, hsStatus = Status r, hsPassage = Passage r, hsFailedTaskIdx = TaskIdx r,
      hsFailedPlanIndex = FailedPlanIndex r, hsErrorSummary = ErrorSummary r, hsAttempt = Attempt r,
      hsCancelRequested = CancelRequested r, hsDropped = Dropped r,
      hsHandled = (\<not> Dropped r \<and> (HandledMark r \<or> (Status r = StatusSuccess \<and> FailedPlanIndex r \<noteq> None))),
      hsNotices = DedupeNotices (Notices r)\<rparr>"

record run_detail =
  rdApplyID :: string
  rdScenario :: string
  rdStatus :: string
  rdStartedAt :: int
  rdFinishedAt :: "int option"
  rdStartedByAID :: "string option"
  rdHosts :: "run_host_status list"

text \<open>
  The rows of \<open>SelectRunDetail\<close>, ordered by host and step. Its input, failure and service version come from
  documents this package does not interpret and are left out.
\<close>

definition hostOrder :: "'r run_table \<Rightarrow> 'r run_table" where
  "hostOrder t = sort_key SID (sort_key Passage t)"

fun detailLoop ::
  "'r run_table \<Rightarrow> bool \<Rightarrow> int option \<Rightarrow> int option \<Rightarrow> bool \<times> int option \<times> int option" where
  "detailLoop [] allFinished maxFinished started = (allFinished, maxFinished, started)"
| "detailLoop (r # rs) allFinished maxFinished started =
     (let started' = (case started of None \<Rightarrow> Some (StartedAt r)
                      | Some s \<Rightarrow> Some (if StartedAt r < s then StartedAt r else s))
      in case FinishedAt r of
           None \<Rightarrow> detailLoop rs False maxFinished started'
         | Some f \<Rightarrow> detailLoop rs allFinished
             (case maxFinished of None \<Rightarrow> Some f | Some m \<Rightarrow> Some (if m < f then f else m)) started')"

definition SelectRunDetail ::
  "incarnations \<Rightarrow> string \<Rightarrow> string \<Rightarrow> 'r run_table \<Rightarrow> (run_error, run_detail) result" where
  "SelectRunDetail inc applyID incarnation t =
     (case hostOrder (filter (\<lambda>r. ApplyID r = applyID \<and> IncarnationName r = incarnation) t) of
        [] \<Rightarrow> Inl ErrApplyRunNotFound
      | r # rs \<Rightarrow>
          (let rows = r # rs;
               lockHeld = runLockHeld inc (last rows);
               (allFinished, maxFinished, started) = detailLoop rows True None None
           in Inr \<lparr>rdApplyID = applyID, rdScenario = Scenario r,
                rdStatus = AggregateRunStatus (map Status rows) (length (filter Dropped rows))
                  (length (filter (\<lambda>r. \<not> Dropped r \<and> HandledMark r) rows)) lockHeld,
                rdStartedAt = (case started of None \<Rightarrow> StartedAt r | Some s \<Rightarrow> s),
                rdFinishedAt = (if allFinished \<and> \<not> lockHeld then maxFinished else None),
                rdStartedByAID = StartedByAID r, rdHosts = map runHostStatus rows\<rparr>))"

section \<open>Counters\<close>

record runs_status_counts =
  Total :: int
  Applying :: int
  Success :: int
  Failed :: int
  PartialFailed :: int
  Cancelled :: int

definition countsAdd :: "string \<Rightarrow> int \<Rightarrow> runs_status_counts \<Rightarrow> runs_status_counts" where
  "countsAdd s n c =
     (let c' = c\<lparr>Total := Total c + n\<rparr> in
      if s = RunStatusApplying then c'\<lparr>Applying := Applying c + n\<rparr>
      else if s = RunStatusSuccess then c'\<lparr>Success := Success c + n\<rparr>
      else if s = RunStatusFailed then c'\<lparr>Failed := Failed c + n\<rparr>
      else if s = RunStatusPartialFailed then c'\<lparr>PartialFailed := PartialFailed c + n\<rparr>
      else if s = RunStatusCancelled then c'\<lparr>Cancelled := Cancelled c + n\<rparr>
      else c')"

section \<open>Sort and search\<close>

datatype runs_query_error = ErrInvalidRunsSortField string | ErrInvalidRunsSortDir string

definition runsSortableColumns :: "(string \<times> string) list" where
  "runsSortableColumns =
     [(''started_at'', ''started_at''), (''finished_at'', ''finished_at''), (''status'', ''status''),
      (''incarnation'', ''incarnation''), (''service'', ''service''), (''scenario'', ''scenario'')]"

definition runsSortDirSQL :: "string \<Rightarrow> (runs_query_error, string) result" where
  "runsSortDirSQL d =
     (if d = [] \<or> d = ''desc'' then Inr ''DESC''
      else if d = ''asc'' then Inr ''ASC''
      else Inl (ErrInvalidRunsSortDir d))"

definition buildRunsOrderBy :: "string \<Rightarrow> string \<Rightarrow> (runs_query_error, string) result" where
  "buildRunsOrderBy sortField sortDir =
     (let sort' = (if sortField = [] then ''started_at'' else sortField) in
      case map_of runsSortableColumns sort' of
        None \<Rightarrow> Inl (ErrInvalidRunsSortField sort')
      | Some col \<Rightarrow>
          (case runsSortDirSQL sortDir of
             Inl e \<Rightarrow> Inl e
           | Inr dir \<Rightarrow>
               (let nulls = (if sort' = ''finished_at'' then '' NULLS LAST'' else [])
                in Inr (col @ '' '' @ dir @ nulls @ '', apply_id DESC''))))"

fun escapeLike :: "string \<Rightarrow> string" where
  "escapeLike [] = []"
| "escapeLike (c # s) =
     (if c = CHR 0x5C \<or> c = CHR ''%'' \<or> c = CHR ''_'' then CHR 0x5C # c # escapeLike s
      else c # escapeLike s)"

text \<open>
  The \<^verbatim>\<open>LIKE\<close> of Postgres with its default escape, over the comparison of single characters that tells \<^verbatim>\<open>ILIKE\<close>
  from \<^verbatim>\<open>LIKE\<close>. A pattern that ends in a bare escape is an error there; it matches nothing here.
\<close>

function like :: "(char \<Rightarrow> char \<Rightarrow> bool) \<Rightarrow> string \<Rightarrow> string \<Rightarrow> bool" where
  "like eq [] s \<longleftrightarrow> s = []"
| "like eq (p # ps) s \<longleftrightarrow>
     (if p = CHR ''%'' then like eq ps s \<or> (case s of [] \<Rightarrow> False | c # s' \<Rightarrow> like eq (p # ps) s')
      else case s of
        [] \<Rightarrow> False
      | c # s' \<Rightarrow>
          if p = CHR ''_'' then like eq ps s'
          else if p = CHR 0x5C then (case ps of [] \<Rightarrow> False | q # qs \<Rightarrow> eq q c \<and> like eq qs s')
          else eq p c \<and> like eq ps s')"
  by pat_completeness auto
termination
  by (relation "measure (\<lambda>(eq, ps, s). length ps + length s)") auto

declare like.simps(2) [simp del]

definition searchPattern :: "string \<Rightarrow> string" where
  "searchPattern q = ''%'' @ escapeLike q @ ''%''"

section \<open>The two folds agree\<close>

lemma run_status_distinct [simp]:
  "RunStatusSuccess \<noteq> RunStatusApplying" "RunStatusFailed \<noteq> RunStatusApplying"
  "RunStatusPartialFailed \<noteq> RunStatusApplying" "RunStatusCancelled \<noteq> RunStatusApplying"
  by (simp_all add: run_status_defs)

definition failing :: "status \<Rightarrow> bool" where
  "failing = (\<lambda>s. s = StatusFailed \<or> s = StatusOrphaned)"

lemma terminal_cases:
  "terminal s \<longleftrightarrow> s = StatusSuccess \<or> s = StatusNoMatch \<or> failing s \<or> s = StatusCancelled"
  by (auto simp: terminal_def terminalStatuses_def failing_def)

lemma foldStatuses_eq:
  "foldStatuses ss f c =
     (if list_all terminal ss then Some (f + length (filter failing ss), c \<or> StatusCancelled \<in> set ss) else None)"
  by (induction ss f c rule: foldStatuses.induct) (auto simp: terminal_cases failing_def)

text \<open>The failures of well-formed rows are the dropped, the handled, and the rest.\<close>

lemma failures_split:
  assumes "list_all row_ok rows"
  shows "length (filter (\<lambda>r. failing (Status r)) rows) =
    length (filter Dropped rows) + length (filter (\<lambda>r. \<not> Dropped r \<and> HandledMark r) rows)
      + length (filter (\<lambda>r. failing (Status r) \<and> \<not> Dropped r \<and> \<not> HandledMark r) rows)"
  using assms by (induction rows) (auto simp: row_ok_def failing_def)

lemma filter_nonempty: "filter P xs \<noteq> [] \<longleftrightarrow> list_ex P xs"
  by (induction xs) auto

lemma foldRun_eq:
  assumes "list_all row_ok rows" and "rows \<noteq> []"
  shows "foldRun inc rows = runsAggregateStatus inc rows"
proof (cases "list_ex (runLockHeld inc) rows \<or> list_ex (\<lambda>r. \<not> terminal (Status r)) rows")
  case True
  then have "foldStatuses (map Status rows) 0 False = None" if "\<not> list_ex (runLockHeld inc) rows"
    using that by (auto simp: foldStatuses_eq list_ex_iff list_all_iff)
  with True assms(2) show ?thesis
    by (auto simp: foldRun_def AggregateRunStatus_def runsAggregateStatus_def terminal_def)
next
  case False
  then have ok: "list_all terminal (map Status rows)" by (simp add: list_ex_iff list_all_iff)
  have len: "length (filter failing (map Status rows)) = length (filter (\<lambda>r. failing (Status r)) rows)"
    by (simp add: filter_map comp_def)
  have fails: "length (filter Dropped rows) + length (filter (\<lambda>r. \<not> Dropped r \<and> HandledMark r) rows)
      < length (filter failing (map Status rows))
    \<longleftrightarrow> list_ex (\<lambda>r. Status r \<in> set [StatusFailed, StatusOrphaned] \<and> \<not> Dropped r \<and> \<not> HandledMark r) rows"
    unfolding len failures_split [OF assms(1)] by (simp add: filter_nonempty failing_def)
  have canc: "StatusCancelled \<in> set (map Status rows) \<longleftrightarrow> list_ex (\<lambda>r. Status r = StatusCancelled) rows"
    by (force simp: list_ex_iff image_iff)
  have closed: "\<not> list_ex (\<lambda>r. Status r \<notin> set terminalStatuses) rows"
    using ok by (simp add: list_ex_iff list_all_iff terminal_def)
  show ?thesis
    using False assms(2) ok fails canc closed
    by (simp add: foldRun_def AggregateRunStatus_def runsAggregateStatus_def foldStatuses_eq filter_nonempty)
qed

lemma runRows_ok: "table_ok t \<Longrightarrow> list_all row_ok (runRows a t)"
  by (auto simp: table_ok_def runRows_def list_all_iff)

text \<open>
  The status the runs API folds in Go and the status column the global list computes in SQL are the same,
  for every run of a table the package keeps.
\<close>

theorem run_status_twins_agree:
  assumes "table_ok t" and "runRows applyID t \<noteq> []"
  shows "SelectRunStatus inc applyID t = runsAggregateStatus inc (runRows applyID t)"
  unfolding SelectRunStatus_def by (rule foldRun_eq [OF runRows_ok [OF assms(1)] assms(2)])

definition sampleRow :: "string \<Rightarrow> status \<Rightarrow> bool \<Rightarrow> bool \<Rightarrow> unit run_row" where
  "sampleRow sid st dropped handled =
     \<lparr>ApplyID = ''a'', SID = sid, IncarnationName = ''i'', Scenario = ''s'', TaskIdx = None, Status = st,
      Passage = 0, ErrorSummary = None, StartedAt = 1, FinishedAt = (if terminal st then Some 5 else None),
      StartedByAID = None, ClaimByKID = None, ClaimAt = None, ClaimExpiresAt = None, Attempt = 1,
      Recipe = None, Input = [], KeeperVersion = [], SoulVersion = [], FailedPlanIndex = None,
      CancelRequested = False, Dropped = dropped, HandledMark = handled, Notices = []\<rparr>"

definition sampleTable :: "unit run_table" where
  "sampleTable = [sampleRow ''h1'' StatusSuccess False False, sampleRow ''h2'' StatusFailed True False,
     sampleRow ''h3'' StatusOrphaned False True]"

lemma sampleTable_ok: "table_ok sampleTable" "runRows ''a'' sampleTable = sampleTable" "sampleTable \<noteq> []"
  by (simp_all add: table_ok_def sampleTable_def sampleRow_def row_ok_def rowKey_def runRows_def in_int4_def maxInt4_def
      ValidStatus_def)

theorem run_status_twins_agree_witness:
  "SelectRunStatus (\<lambda>_. None) ''a'' sampleTable = runsAggregateStatus (\<lambda>_. None) sampleTable
   \<and> runsAggregateStatus (\<lambda>_. None) sampleTable = RunStatusPartialFailed"
  using run_status_twins_agree [of sampleTable "''a''" "\<lambda>_. None"] sampleTable_ok
  by (simp add: runsAggregateStatus_def sampleTable_def sampleRow_def runLockHeld_def terminalStatuses_def)

section \<open>Finish time\<close>

lemma foldRun_applying:
  assumes "rows \<noteq> []"
  shows "foldRun inc rows = RunStatusApplying \<longleftrightarrow>
    list_ex (runLockHeld inc) rows \<or> list_ex (\<lambda>r. \<not> terminal (Status r)) rows"
  using assms by (auto simp: foldRun_def AggregateRunStatus_def foldStatuses_eq list_ex_iff list_all_iff)

lemma map_filter_Some: "list_all (\<lambda>r. f r \<noteq> None) rows \<Longrightarrow> List.map_filter f rows = map (the \<circ> f) rows"
  by (induction rows) (auto simp: List.map_filter_def)

text \<open>A run has a finish time exactly when its status says that it is over.\<close>

theorem finished_iff_over:
  assumes "table_ok t" and "runRows applyID t \<noteq> []"
  shows "runsAggregateFinished inc (runRows applyID t) \<noteq> None \<longleftrightarrow>
    SelectRunStatus inc applyID t \<noteq> RunStatusApplying"
proof -
  let ?rows = "runRows applyID t"
  have fin: "list_all (\<lambda>r. FinishedAt r \<noteq> None) ?rows \<longleftrightarrow> \<not> list_ex (\<lambda>r. \<not> terminal (Status r)) ?rows"
    using runRows_ok [OF assms(1), of applyID] by (auto simp: list_all_iff list_ex_iff row_ok_def)
  have "List.map_filter FinishedAt ?rows \<noteq> []" if "list_all (\<lambda>r. FinishedAt r \<noteq> None) ?rows"
    using map_filter_Some [OF that] assms(2) by simp
  then have "runsAggregateFinished inc ?rows \<noteq> None \<longleftrightarrow>
      list_all (\<lambda>r. FinishedAt r \<noteq> None) ?rows \<and> \<not> list_ex (runLockHeld inc) ?rows"
    by (auto simp: runsAggregateFinished_def split: list.splits)
  then show ?thesis using fin foldRun_applying [OF assms(2), of inc] by (auto simp: SelectRunStatus_def)
qed

theorem finished_iff_over_witness:
  "runsAggregateFinished (\<lambda>_. None) sampleTable = Some 5 \<and> SelectRunStatus (\<lambda>_. None) ''a'' sampleTable \<noteq> RunStatusApplying"
proof -
  have "runsAggregateFinished (\<lambda>_. None) sampleTable = Some 5"
    by (simp add: runsAggregateFinished_def sampleTable_def sampleRow_def runLockHeld_def List.map_filter_def)
  with finished_iff_over [of sampleTable "''a''" "\<lambda>_. None"] sampleTable_ok show ?thesis by simp
qed

section \<open>Canonical notices\<close>

lemma noticeLess_key: "noticeLess a b \<longleftrightarrow>
    Code a < Code b \<or> (Code a = Code b \<and> (Module a < Module b \<or> (Module a = Module b \<and> Param a < Param b)))"
  by (auto simp: noticeLess_def)

lemma insertNotice_set [simp]: "set (insertNotice n ms) = insert n (set ms)"
  by (induction ms) auto

lemma noticeLess_total: "noticeKey a \<noteq> noticeKey b \<Longrightarrow> noticeLess a b \<or> noticeLess b a"
  by (auto simp: noticeLess_key noticeKey_def)

lemma noticeLess_trans: "noticeLess a b \<Longrightarrow> noticeLess b c \<Longrightarrow> noticeLess a c"
  by (auto simp: noticeLess_key dest: less_trans)

lemma insertNotice_sorted:
  "sorted_wrt noticeLess ms \<Longrightarrow> \<forall>m \<in> set ms. noticeKey m \<noteq> noticeKey n \<Longrightarrow> sorted_wrt noticeLess (insertNotice n ms)"
proof (induction ms)
  case (Cons m ms)
  then have "noticeLess m n \<or> noticeLess n m" using noticeLess_total by auto
  with Cons show ?case by (auto intro: noticeLess_trans)
qed simp

lemma dedupeLoop_keys: "noticeKey ` set (dedupeLoop seen ns) = noticeKey ` set ns - set seen"
  by (induction ns arbitrary: seen) auto

lemma dedupeLoop_distinct: "distinct (map noticeKey (dedupeLoop seen ns))"
proof (induction ns arbitrary: seen)
  case (Cons n ns)
  have "noticeKey n \<notin> noticeKey ` set (dedupeLoop (noticeKey n # seen) ns)" by (simp add: dedupeLoop_keys)
  with Cons show ?case by simp
qed simp

lemma dedupeLoop_subset: "set (dedupeLoop seen ns) \<subseteq> set ns"
  by (induction ns arbitrary: seen) auto

lemma foldr_insertNotice:
  assumes "distinct (map noticeKey ns)"
  shows "sorted_wrt noticeLess (foldr insertNotice ns []) \<and> set (foldr insertNotice ns []) = set ns"
  using assms
proof (induction ns)
  case (Cons n ns)
  then have "\<forall>m \<in> set (foldr insertNotice ns []). noticeKey m \<noteq> noticeKey n" by (auto simp: image_iff)
  with Cons show ?case by (simp add: insertNotice_sorted)
qed simp

text \<open>
  Folding the log of notices keeps one notice of each kind, nothing that was not reported, and in an order
  that depends on the kinds alone: the result is strictly sorted by code, module and parameter, and its kinds
  are exactly the kinds of the log.
\<close>

theorem dedupe_notices_canonical:
  "sorted_wrt noticeLess (DedupeNotices ns) \<and> set (DedupeNotices ns) \<subseteq> set ns
   \<and> noticeKey ` set (DedupeNotices ns) = noticeKey ` set ns"
  unfolding DedupeNotices_def
  using foldr_insertNotice [OF dedupeLoop_distinct [of "[]" ns]] dedupeLoop_keys [of "[]" ns] dedupeLoop_subset [of "[]" ns]
  by simp


section \<open>Search and sort text\<close>

lemma like_escape:
  "like eq (escapeLike q @ p) s \<longleftrightarrow> (\<exists>u v. s = u @ v \<and> list_all2 eq q u \<and> like eq p v)"
proof (induction q arbitrary: s)
  case (Cons c q)
  have "like eq (escapeLike (c # q) @ p) s \<longleftrightarrow> (\<exists>d s'. s = d # s' \<and> eq c d \<and> like eq (escapeLike q @ p) s')"
    by (auto simp: like.simps split: list.split)
  then show ?case unfolding Cons.IH by (auto simp: list_all2_Cons1) (metis append_Cons)
qed simp

lemma like_percent: "like eq (CHR ''%'' # p) s \<longleftrightarrow> (\<exists>u v. s = u @ v \<and> like eq p v)"
proof (induction s)
  case Nil
  then show ?case by (simp add: like.simps)
next
  case (Cons c s)
  have "like eq (CHR ''%'' # p) (c # s) \<longleftrightarrow> like eq p (c # s) \<or> like eq (CHR ''%'' # p) s"
    by (subst like.simps) simp
  then show ?case unfolding Cons by (auto simp: Cons_eq_append_conv)
qed

text \<open>
  Free search is a substring search: whatever metacharacters the operator types, the pattern built from his
  text matches a value exactly when the value contains the text, letter by letter.
\<close>

theorem search_is_substring:
  "like eq (searchPattern q) s \<longleftrightarrow> (\<exists>u v w. s = u @ v @ w \<and> list_all2 eq q v)"
proof -
  have "like eq ''%'' w" for w by (simp add: like_percent)
  then show ?thesis by (auto simp: searchPattern_def like_percent like_escape)
qed

lemma sortable_columns:
  "map_of runsSortableColumns f = Some col \<Longrightarrow> f = col \<and> (col, col) \<in> set runsSortableColumns"
  by (auto simp: runsSortableColumns_def split: if_splits)

text \<open>The order clause is one of the clauses of the closed list, whatever text the request carries.\<close>

theorem order_clause_closed:
  assumes "buildRunsOrderBy sortField sortDir = Inr clause"
  shows "\<exists>col \<in> set (map snd runsSortableColumns). \<exists>dir \<in> set [''ASC'', ''DESC'']. \<exists>nulls \<in> set [[], '' NULLS LAST''].
    clause = col @ '' '' @ dir @ nulls @ '', apply_id DESC''"
proof -
  obtain col dir nulls where "map_of runsSortableColumns (if sortField = [] then ''started_at'' else sortField) = Some col"
    and dir: "runsSortDirSQL sortDir = Inr dir" and "nulls \<in> set [[], '' NULLS LAST'']"
    and "clause = col @ '' '' @ dir @ nulls @ '', apply_id DESC''"
    using assms unfolding buildRunsOrderBy_def Let_def by (auto split: option.splits sum.splits if_splits)
  moreover have "dir \<in> set [''ASC'', ''DESC'']" using dir by (auto simp: runsSortDirSQL_def split: if_splits)
  ultimately show ?thesis using sortable_columns by (force simp: image_iff)
qed

theorem order_clause_closed_witness:
  "buildRunsOrderBy ''finished_at'' ''asc'' = Inr ''finished_at ASC NULLS LAST, apply_id DESC''
   \<and> (\<exists>col dir nulls. ''finished_at ASC NULLS LAST, apply_id DESC'' = col @ '' '' @ dir @ nulls @ '', apply_id DESC'')"
proof -
  have "buildRunsOrderBy ''finished_at'' ''asc'' = Inr ''finished_at ASC NULLS LAST, apply_id DESC''"
    by (simp add: buildRunsOrderBy_def runsSortableColumns_def runsSortDirSQL_def)
  with order_clause_closed [OF this] show ?thesis by blast
qed

lemma countsAdd_total:
  "Total (countsAdd s n c) = Total c + n"
  "ValidRunStatus s \<Longrightarrow> Total c = Applying c + Success c + Failed c + PartialFailed c + Cancelled c \<Longrightarrow>
     (let c' = countsAdd s n c in Total c' = Applying c' + Success c' + Failed c' + PartialFailed c' + Cancelled c')"
  by (auto simp: countsAdd_def Let_def ValidRunStatus_def RunStatuses_def)

section \<open>The detail of a run agrees with the list\<close>

definition finishedMax :: "'r run_table \<Rightarrow> int" where
  "finishedMax rows = Max ((the \<circ> FinishedAt) ` set rows)"

lemma detailLoop_all: "fst (detailLoop rows af mf st) \<longleftrightarrow> af \<and> list_all (\<lambda>r. FinishedAt r \<noteq> None) rows"
  by (induction rows arbitrary: af mf st) (auto simp: Let_def split: option.splits)

lemma detailLoop_max:
  "list_all (\<lambda>r. FinishedAt r \<noteq> None) rows \<Longrightarrow> fst (snd (detailLoop rows af (Some m) st)) =
     Some (Max (insert m ((the \<circ> FinishedAt) ` set rows)))"
proof (induction rows arbitrary: af m st)
  case (Cons r rows)
  then obtain f where f: "FinishedAt r = Some f" by auto
  have "Max (insert m (insert f A)) = Max (insert (if m < f then f else m) A)" if "finite A" for A :: "int set"
    using that by (cases "A = {}") (auto simp: max_def)
  with Cons f show ?case by (simp add: Let_def)
qed simp

lemma detailLoop_first:
  assumes "list_all (\<lambda>r. FinishedAt r \<noteq> None) rows" and "rows \<noteq> []"
  shows "fst (snd (detailLoop rows af None st)) = Some (finishedMax rows)"
proof (cases rows)
  case (Cons r rs)
  then obtain f where "FinishedAt r = Some f" using assms(1) by auto
  with Cons assms(1) show ?thesis by (simp add: Let_def detailLoop_max finishedMax_def)
qed (use assms in simp)

lemma aggregate_finished:
  assumes "rows \<noteq> []"
  shows "runsAggregateFinished inc rows =
    (if list_all (\<lambda>r. FinishedAt r \<noteq> None) rows \<and> \<not> list_ex (runLockHeld inc) rows then Some (finishedMax rows) else None)"
proof -
  have "(case map (the \<circ> FinishedAt) rows of [] \<Rightarrow> None | x # xs \<Rightarrow> Some (fold max xs x)) = Some (finishedMax rows)"
    using assms Max.set_eq_fold [of "(the \<circ> FinishedAt) (hd rows)" "map (the \<circ> FinishedAt) (tl rows)"]
    by (cases rows) (simp_all add: finishedMax_def)
  then show ?thesis by (simp add: runsAggregateFinished_def map_filter_Some)
qed

lemma aggregate_status_set: "set rows = set rows' \<Longrightarrow> runsAggregateStatus inc rows = runsAggregateStatus inc rows'"
  by (simp only: runsAggregateStatus_def list_ex_iff)

text \<open>
  The page of one run and the lists of runs say the same of it: when all rows of the run belong to the
  incarnation that is asked about, as the run writes them, its status and its finish time are those of the fold.
\<close>

theorem detail_agrees_with_list:
  assumes "table_ok t" and "SelectRunDetail inc applyID incarnation t = Inr d"
    and "list_all (\<lambda>r. IncarnationName r = incarnation) (runRows applyID t)"
  shows "rdStatus d = SelectRunStatus inc applyID t \<and> rdFinishedAt d = runsAggregateFinished inc (runRows applyID t)"
proof -
  let ?rows = "runRows applyID t"
  define rows where "rows = hostOrder ?rows"
  have "filter (\<lambda>r. ApplyID r = applyID \<and> IncarnationName r = incarnation) t = ?rows"
    using assms(3) unfolding runRows_def by (auto simp: list_all_iff intro!: filter_cong)
  then have rows: "hostOrder (filter (\<lambda>r. ApplyID r = applyID \<and> IncarnationName r = incarnation) t) = rows"
    by (simp add: rows_def)
  have s: "set rows = set ?rows" by (simp add: rows_def hostOrder_def)
  have ne: "rows \<noteq> []" using assms(2) rows by (auto simp: SelectRunDetail_def)
  then have ne': "?rows \<noteq> []" using s by auto
  have ok: "list_all row_ok rows" using runRows_ok [OF assms(1), of applyID] s by (simp add: list_all_iff)
  have ids: "ApplyID r = applyID \<and> IncarnationName r = incarnation" if "r \<in> set rows" for r
    using that s assms(3) by (auto simp: runRows_def list_all_iff)
  have same: "runLockHeld inc r = runLockHeld inc (last rows)" if "r \<in> set rows" for r
    using ids [OF that] ids [OF last_in_set [OF ne]] unfolding runLockHeld_def by metis
  then have lock: "runLockHeld inc (last rows) = list_ex (runLockHeld inc) rows"
    using last_in_set [OF ne] unfolding list_ex_iff by blast
  obtain r rs where rr: "rows = r # rs" using ne by (cases rows) auto
  have d: "rdStatus d = foldRun inc rows"
    "rdFinishedAt d = (if fst (detailLoop rows True None None) \<and> \<not> runLockHeld inc (last rows)
       then fst (snd (detailLoop rows True None None)) else None)"
    using assms(2) lock unfolding SelectRunDetail_def rows rr
    by (auto simp: foldRun_def Let_def split: prod.splits)
  have "rdStatus d = SelectRunStatus inc applyID t"
    using d(1) foldRun_eq [OF ok ne] foldRun_eq [OF runRows_ok [OF assms(1)] ne'] aggregate_status_set [OF s]
    by (simp add: SelectRunStatus_def)
  moreover have "rdFinishedAt d = runsAggregateFinished inc ?rows"
    using s unfolding d(2) aggregate_finished [OF ne'] lock
    by (auto simp: detailLoop_all detailLoop_first [OF _ ne] finishedMax_def list_all_iff list_ex_iff)
  ultimately show ?thesis by blast
qed

theorem detail_agrees_with_list_witness:
  "\<exists>d. SelectRunDetail (\<lambda>_. None) ''a'' ''i'' sampleTable = Inr d \<and> rdStatus d = RunStatusPartialFailed \<and> rdFinishedAt d = Some 5"
proof -
  obtain d where d: "SelectRunDetail (\<lambda>_. None) ''a'' ''i'' sampleTable = Inr d"
    by (simp add: SelectRunDetail_def hostOrder_def sampleTable_def sampleRow_def Let_def)
  have "list_all (\<lambda>r. IncarnationName r = ''i'') (runRows ''a'' sampleTable)"
    by (simp add: runRows_def sampleTable_def sampleRow_def)
  from detail_agrees_with_list [OF sampleTable_ok(1) d this] d sampleTable_ok(2)
  show ?thesis
    by (simp add: SelectRunStatus_def foldRun_def AggregateRunStatus_def runsAggregateFinished_def sampleTable_def
        sampleRow_def runLockHeld_def List.map_filter_def)
qed

end
