(* ===== verification/Soul_Rescue.thy ===== *)
theory Soul_Rescue
  imports Go_Prelude
begin

text \<open>
  The rescue rule of a run (\<^verbatim>\<open>shared/config/rescue_rule.go\<close>): which failures of a host's tasks are
  sources, which unit holds them, and when a unit handles them. The Soul drives it in message order
  and the Keeper at its step barriers.

  A Go map is a partial function; reading a missing key gives the zero value (\<open>taskAt\<close>), and a nil
  map entry of pointer type is \<open>None\<close>. Positions and unit ids are Go ints, of which only comparison
  is used, so they are \<open>int\<close>. The invariant \<open>rule_inv\<close> says that the counter \<open>held\<close> counts the held
  sources and that the sources of a unit are strictly sorted, which is what \<^verbatim>\<open>slices.BinarySearch\<close>
  needs.
\<close>

named_theorems rule_simps \<open>evaluation of the rescue rule\<close>

section \<open>slices.BinarySearch and slices.Insert\<close>

function bsearch_loop :: "int list \<Rightarrow> int \<Rightarrow> nat \<Rightarrow> nat \<Rightarrow> nat" where
  "bsearch_loop xs t i j =
     (if i < j then
        (let h = (i + j) div 2 in if xs ! h < t then bsearch_loop xs t (h + 1) j else bsearch_loop xs t i h)
      else i)"
  by pat_completeness auto
termination
  by (relation "measure (\<lambda>(xs, t, i, j). j - i)") auto

declare bsearch_loop.simps [simp del]

definition binarySearch :: "int list \<Rightarrow> int \<Rightarrow> nat \<times> bool" where
  "binarySearch xs t =
     (let i = bsearch_loop xs t 0 (length xs) in (i, i < length xs \<and> xs ! i = t))"

definition sliceInsert :: "'a list \<Rightarrow> nat \<Rightarrow> 'a \<Rightarrow> 'a list" where
  "sliceInsert xs i x = take i xs @ x # drop i xs"

text \<open>On a sorted slice the search stops at the first element that is not below the target.\<close>

lemma bsearch_loop_spec:
  assumes "sorted xs" "i \<le> j" "j \<le> length xs"
    and "\<forall>k < i. xs ! k < t" and "\<forall>k. j \<le> k \<and> k < length xs \<longrightarrow> t \<le> xs ! k"
  shows "bsearch_loop xs t i j \<le> length xs \<and> (\<forall>k < bsearch_loop xs t i j. xs ! k < t) \<and>
    (\<forall>k. bsearch_loop xs t i j \<le> k \<and> k < length xs \<longrightarrow> t \<le> xs ! k)"
  using assms
proof (induction xs t i j rule: bsearch_loop.induct)
  case (1 xs t i j)
  show ?case
  proof (cases "i < j")
    case False
    then show ?thesis using 1(4-7) by (subst (1 2 3) bsearch_loop.simps) auto
  next
    case True
    define h where "h = (i + j) div 2"
    have h: "i \<le> h" "h < j" using True by (auto simp: h_def)
    show ?thesis
    proof (cases "xs ! h < t")
      case below: True
      have "xs ! k < t" if "k < h + 1" for k
        using sorted_nth_mono [OF 1(3), of k h] that below h 1(5) by simp
      with 1(1) [OF True h_def below 1(3)] h 1(5,7) show ?thesis
        by (subst (1 2 3) bsearch_loop.simps) (simp add: Let_def True below flip: h_def)
    next
      case above: False
      have "t \<le> xs ! k" if "h \<le> k" "k < length xs" for k
        using sorted_nth_mono [OF 1(3), of h k] that above by simp
      with 1(2) [OF True h_def above 1(3)] h 1(5,6) show ?thesis
        by (subst (1 2 3) bsearch_loop.simps) (simp add: Let_def True above flip: h_def)
    qed
  qed
qed

lemma binarySearch_spec:
  assumes "sorted xs"
  shows "fst (binarySearch xs t) \<le> length xs"
    and "\<forall>k < fst (binarySearch xs t). xs ! k < t"
    and "\<forall>k. fst (binarySearch xs t) \<le> k \<and> k < length xs \<longrightarrow> t \<le> xs ! k"
  using bsearch_loop_spec [OF assms, of 0 "length xs" t] by (auto simp: binarySearch_def Let_def)

lemma binarySearch_found:
  assumes "sorted xs"
  shows "snd (binarySearch xs t) \<longleftrightarrow> t \<in> set xs"
proof
  assume "snd (binarySearch xs t)"
  then show "t \<in> set xs" by (simp add: binarySearch_def Let_def) (metis nth_mem)
next
  assume "t \<in> set xs"
  then obtain k where k: "k < length xs" "xs ! k = t" by (auto simp: in_set_conv_nth)
  let ?i = "fst (binarySearch xs t)"
  have "?i \<le> k" using binarySearch_spec(2) [OF assms, of t] k by (metis less_irrefl not_le)
  then have "xs ! ?i \<le> t" "?i < length xs" using assms k sorted_nth_mono by fastforce+
  moreover have "t \<le> xs ! ?i" using binarySearch_spec(3) [OF assms, of t] \<open>?i < length xs\<close> by blast
  ultimately show "snd (binarySearch xs t)" by (simp add: binarySearch_def Let_def)
qed

lemma strict_sorted_append:
  "sorted_wrt (<) (xs @ (y::int) # ys) \<longleftrightarrow>
     sorted_wrt (<) (xs @ ys) \<and> (\<forall>x \<in> set xs. x < y) \<and> (\<forall>x \<in> set ys. y < x)"
  by (auto simp: sorted_wrt_append)

lemma insert_sorted_strict:
  assumes "sorted_wrt (<) xs" "\<not> snd (binarySearch xs t)"
  shows "sorted_wrt (<) (sliceInsert xs (fst (binarySearch xs t)) t)"
    and "set (sliceInsert xs (fst (binarySearch xs t)) t) = insert t (set xs)"
proof -
  let ?i = "fst (binarySearch xs t)"
  have srt: "sorted xs" using assms(1) by (simp add: strict_sorted_imp_sorted)
  note spec = binarySearch_spec [OF srt, of t]
  have out: "t \<notin> set xs" using assms(2) binarySearch_found [OF srt] by blast
  have lo: "x < t" if "x \<in> set (take ?i xs)" for x
    using that spec(1,2) by (auto simp: in_set_conv_nth)
  have hi: "t < x" if x: "x \<in> set (drop ?i xs)" for x
  proof -
    have "t \<le> x" using x spec(1,3) by (auto simp: in_set_conv_nth)
    moreover have "x \<in> set xs" using x by (rule in_set_dropD)
    ultimately show ?thesis using out by (metis order_le_less)
  qed
  show "sorted_wrt (<) (sliceInsert xs ?i t)"
    using assms(1) lo hi by (simp add: sliceInsert_def strict_sorted_append)
  show "set (sliceInsert xs ?i t) = insert t (set xs)"
    by (simp add: sliceInsert_def) (metis append_take_drop_id set_append)
qed

section \<open>State\<close>

record rule_task =
  t_unit :: int
  t_terminal :: bool
  t_children :: "int list"
  t_named :: "int list"

record rule_unit =
  u_sources :: "int list"
  u_executed :: bool
  u_failed :: bool
  u_decided :: bool
  u_sourceFailed :: bool
  u_lost :: bool

record rule_failure =
  f_err :: string
  f_handled :: bool

record rescue_rule =
  r_tasks :: "int \<rightharpoonup> rule_task"
  r_units :: "int \<rightharpoonup> rule_unit"
  r_failures :: "int \<rightharpoonup> rule_failure"
  r_held :: int

definition zero_task :: rule_task where
  "zero_task = \<lparr>t_unit = 0, t_terminal = False, t_children = [], t_named = []\<rparr>"

definition zero_unit :: rule_unit where
  "zero_unit = \<lparr>u_sources = [], u_executed = False, u_failed = False, u_decided = False,
     u_sourceFailed = False, u_lost = False\<rparr>"

definition newRescueRule :: rescue_rule where
  "newRescueRule = \<lparr>r_tasks = Map.empty, r_units = Map.empty, r_failures = Map.empty, r_held = 0\<rparr>"

definition taskAt :: "rescue_rule \<Rightarrow> int \<Rightarrow> rule_task" where
  "taskAt r pos = (case r_tasks r pos of None \<Rightarrow> zero_task | Some t \<Rightarrow> t)"

text \<open>\<open>r.unit(id)\<close> creates the unit on first use and returns the stored pointer.\<close>

definition unitOr :: "rescue_rule \<Rightarrow> int \<Rightarrow> rule_unit" where
  "unitOr r uid = (case r_units r uid of None \<Rightarrow> zero_unit | Some u \<Rightarrow> u)"

definition setUnit :: "int \<Rightarrow> rule_unit \<Rightarrow> rescue_rule \<Rightarrow> rescue_rule" where
  "setUnit uid u r = r\<lparr>r_units := (r_units r)(uid \<mapsto> u)\<rparr>"

section \<open>Queries\<close>

definition Held :: "rescue_rule \<Rightarrow> int \<Rightarrow> bool" where
  "Held r pos = (case r_failures r pos of None \<Rightarrow> False | Some f \<Rightarrow> \<not> f_handled f)"

definition AnyHeld :: "rescue_rule \<Rightarrow> bool" where
  "AnyHeld r \<longleftrightarrow> r_held r > 0"

definition Fires :: "rescue_rule \<Rightarrow> int \<Rightarrow> bool" where
  "Fires r uid = (case r_units r uid of None \<Rightarrow> False | Some u \<Rightarrow> list_ex (Held r) (u_sources u))"

definition NamesHeld :: "rescue_rule \<Rightarrow> int \<Rightarrow> bool" where
  "NamesHeld r pos = list_ex (Held r) (t_named (taskAt r pos))"

definition UnitOf :: "rescue_rule \<Rightarrow> int \<Rightarrow> int" where
  "UnitOf r pos = t_unit (taskAt r pos)"

definition UnitFailed :: "rescue_rule \<Rightarrow> int \<Rightarrow> bool" where
  "UnitFailed r uid = (case r_units r uid of None \<Rightarrow> False | Some u \<Rightarrow> u_failed u)"

definition Counts :: "rescue_rule \<Rightarrow> int \<Rightarrow> bool" where
  "Counts r pos =
     (case r_failures r pos of
        Some f \<Rightarrow> \<not> f_handled f
      | None \<Rightarrow> if t_unit (taskAt r pos) \<noteq> 0 then Fires r (t_unit (taskAt r pos)) else True)"

definition Sources :: "rescue_rule \<Rightarrow> int \<Rightarrow> int list" where
  "Sources r uid = (case r_units r uid of None \<Rightarrow> [] | Some u \<Rightarrow> u_sources u)"

definition errOf :: "rescue_rule \<Rightarrow> int \<Rightarrow> string" where
  "errOf r pos = (case r_failures r pos of None \<Rightarrow> [] | Some f \<Rightarrow> f_err f)"

definition HeldErrors :: "rescue_rule \<Rightarrow> int \<Rightarrow> string" where
  "HeldErrors r uid =
     (case r_units r uid of
        None \<Rightarrow> []
      | Some u \<Rightarrow> join ''; '' (map (errOf r) (filter (\<lambda>s. Held r s \<and> errOf r s \<noteq> []) (u_sources u))))"

section \<open>Operations\<close>

definition addPosition :: "int list \<Rightarrow> int \<Rightarrow> int list" where
  "addPosition xs pos = (if pos < 0 \<or> pos \<in> set xs then xs else xs @ [pos])"

definition namedOf :: "rescue_rule \<Rightarrow> int list \<Rightarrow> int list" where
  "namedOf r nm =
     foldl (\<lambda>acc s. if t_terminal (taskAt r s) then foldl addPosition acc (t_children (taskAt r s))
                     else addPosition acc s) [] nm"

definition addSource :: "int list \<Rightarrow> int \<Rightarrow> int list" where
  "addSource xs s =
     (case binarySearch xs s of (i, found) \<Rightarrow> if found then xs else sliceInsert xs i s)"

definition Task :: "rescue_rule \<Rightarrow> int \<Rightarrow> int \<Rightarrow> int list \<Rightarrow> bool \<Rightarrow> int list \<Rightarrow> rescue_rule" where
  "Task r pos un nm trm ch =
     (let t = \<lparr>t_unit = un, t_terminal = trm, t_children = ch, t_named = namedOf r nm\<rparr>;
          r1 = r\<lparr>r_tasks := (r_tasks r)(pos \<mapsto> t)\<rparr>
      in if un = 0 then r1
         else let u = unitOr r1 un
           in setUnit un (u\<lparr>u_sources := foldl addSource (u_sources u) (t_named t)\<rparr>) r1)"

definition Ran :: "rescue_rule \<Rightarrow> int \<Rightarrow> bool \<Rightarrow> rescue_rule" where
  "Ran r pos ex =
     (let t = taskAt r pos
      in if ex \<and> t_unit t \<noteq> 0 \<and> \<not> t_terminal t
         then setUnit (t_unit t) ((unitOr r (t_unit t))\<lparr>u_executed := True\<rparr>) r else r)"

text \<open>A failure observed for the first time is a held source, and marks every undecided unit of it.\<close>

definition holdSource :: "rescue_rule \<Rightarrow> int \<Rightarrow> string \<Rightarrow> rescue_rule" where
  "holdSource r pos msg =
     (if r_failures r pos \<noteq> None then r
      else r\<lparr>r_failures := (r_failures r)(pos \<mapsto> \<lparr>f_err = msg, f_handled = False\<rparr>),
             r_held := r_held r + 1,
             r_units := (\<lambda>uid. map_option
               (\<lambda>u. if snd (binarySearch (u_sources u) pos) \<and> \<not> u_decided u
                     then u\<lparr>u_sourceFailed := True\<rparr> else u) (r_units r uid))\<rparr>)"

definition Fail :: "rescue_rule \<Rightarrow> int \<Rightarrow> string \<Rightarrow> rescue_rule" where
  "Fail r pos msg =
     (let t = taskAt r pos; u = unitOr r (t_unit t)
      in if t_terminal t then r
         else if t_unit t \<noteq> 0 \<and> u_decided u then r
         else if t_unit t \<noteq> 0 \<and> (Fires r (t_unit t) \<or> u_sourceFailed u)
           then setUnit (t_unit t) (u\<lparr>u_failed := True\<rparr>) r
         else if t_unit t \<noteq> 0
           then holdSource (setUnit (t_unit t) (u\<lparr>u_lost := True\<rparr>) r) pos msg
         else holdSource r pos msg)"

definition handleOne :: "rescue_rule \<Rightarrow> int \<Rightarrow> rescue_rule" where
  "handleOne r s =
     (if Held r s
      then r\<lparr>r_failures := (r_failures r)(s \<mapsto> \<lparr>f_err = errOf r s, f_handled = True\<rparr>), r_held := r_held r - 1\<rparr>
      else r)"

definition succeeds :: "rule_unit \<Rightarrow> bool \<Rightarrow> bool" where
  "succeeds u stopped \<longleftrightarrow> \<not> (stopped \<or> \<not> u_executed u \<or> u_failed u \<or> u_lost u)"

definition Decide :: "rescue_rule \<Rightarrow> int \<Rightarrow> bool \<Rightarrow> rescue_rule \<times> int list" where
  "Decide r uid stopped =
     (let u = unitOr r uid
      in if u_decided u then (setUnit uid u r, [])
         else let r1 = setUnit uid (u\<lparr>u_decided := True\<rparr>) r
           in if \<not> succeeds u stopped then (r1, [])
              else (foldl handleOne r1 (u_sources u), filter (Held r1) (u_sources u)))"

definition Reopen :: "rescue_rule \<Rightarrow> int \<Rightarrow> rescue_rule" where
  "Reopen r pos =
     (case r_failures r pos of
        None \<Rightarrow> r
      | Some f \<Rightarrow> if \<not> f_handled f then r
                  else r\<lparr>r_failures := (r_failures r)(pos \<mapsto> \<lparr>f_err = f_err f, f_handled = False\<rparr>),
                         r_held := r_held r + 1\<rparr>)"

lemmas rule_query_defs = Held_def Fires_def NamesHeld_def UnitOf_def UnitFailed_def Counts_def
  taskAt_def unitOr_def

section \<open>The invariant\<close>

definition heldSet :: "rescue_rule \<Rightarrow> int set" where
  "heldSet r = {p. Held r p}"

definition Handled :: "rescue_rule \<Rightarrow> int \<Rightarrow> bool" where
  "Handled r p = (case r_failures r p of None \<Rightarrow> False | Some f \<Rightarrow> f_handled f)"

definition rule_inv :: "rescue_rule \<Rightarrow> bool" where
  "rule_inv r \<longleftrightarrow>
     finite (dom (r_failures r)) \<and> r_held r = int (card (heldSet r)) \<and>
     (\<forall>uid u. r_units r uid = Some u \<longrightarrow> sorted_wrt (<) (u_sources u))"

lemma heldSet_finite: "finite (dom (r_failures r)) \<Longrightarrow> finite (heldSet r)"
  by (rule finite_subset [of _ "dom (r_failures r)"])
    (auto simp: heldSet_def Held_def split: option.splits)

lemma rule_inv_anyHeld:
  assumes "rule_inv r" shows "AnyHeld r \<longleftrightarrow> (\<exists>p. Held r p)"
proof -
  have "finite (heldSet r)" using assms by (simp add: rule_inv_def heldSet_finite)
  then have "card (heldSet r) > 0 \<longleftrightarrow> heldSet r \<noteq> {}" by (simp add: card_gt_0_iff)
  then show ?thesis using assms by (auto simp: AnyHeld_def rule_inv_def heldSet_def)
qed

text \<open>What an operation changes of the units and of the failures, one at a time.\<close>

lemma rule_inv_unitOr: "rule_inv r \<Longrightarrow> sorted_wrt (<) (u_sources (unitOr r uid))"
  by (auto simp: rule_inv_def unitOr_def zero_unit_def split: option.split)

lemma setUnit_simps [simp]:
  "r_failures (setUnit uid u r) = r_failures r" "r_held (setUnit uid u r) = r_held r"
  "r_tasks (setUnit uid u r) = r_tasks r" "r_units (setUnit uid u r) = (r_units r)(uid \<mapsto> u)"
  by (simp_all add: setUnit_def)

lemma heldSet_cong: "r_failures r = r_failures q \<Longrightarrow> heldSet r = heldSet q"
  by (simp add: heldSet_def Held_def)

lemma rule_inv_setUnit:
  "rule_inv r \<Longrightarrow> sorted_wrt (<) (u_sources u) \<Longrightarrow> rule_inv (setUnit uid u r)"
  by (simp add: rule_inv_def heldSet_cong [of "setUnit uid u r" r])

lemma heldSet_fail:
  "r_failures q = (r_failures r)(p \<mapsto> f) \<Longrightarrow> \<not> f_handled f \<Longrightarrow> heldSet q = insert p (heldSet r)"
  by (auto simp: heldSet_def Held_def)

lemma heldSet_handle:
  "r_failures q = (r_failures r)(p \<mapsto> f) \<Longrightarrow> f_handled f \<Longrightarrow> heldSet q = heldSet r - {p}"
  by (auto simp: heldSet_def Held_def split: if_splits)

lemma addSource_inv:
  assumes "sorted_wrt (<) xs"
  shows "sorted_wrt (<) (addSource xs s) \<and> set (addSource xs s) = insert s (set xs)"
proof (cases "snd (binarySearch xs s)")
  case True
  have "s \<in> set xs"
    using True by (simp add: binarySearch_found [OF strict_sorted_imp_sorted [OF assms]])
  with True assms show ?thesis by (simp add: addSource_def insert_absorb case_prod_beta)
next
  case False
  with insert_sorted_strict [OF assms False] show ?thesis
    by (simp add: addSource_def case_prod_beta)
qed

lemma addSources_inv:
  "sorted_wrt (<) xs \<Longrightarrow>
     sorted_wrt (<) (foldl addSource xs ss) \<and> set (foldl addSource xs ss) = set xs \<union> set ss"
  by (induction ss arbitrary: xs) (auto simp: addSource_inv)

lemma rule_inv_Task: "rule_inv r \<Longrightarrow> rule_inv (Task r pos un nm trm ch)"
proof -
  assume inv: "rule_inv r"
  define t where "t = \<lparr>t_unit = un, t_terminal = trm, t_children = ch, t_named = namedOf r nm\<rparr>"
  define r1 where "r1 = r\<lparr>r_tasks := (r_tasks r)(pos \<mapsto> t)\<rparr>"
  have inv1: "rule_inv r1" using inv by (simp add: rule_inv_def r1_def heldSet_cong [of "r\<lparr>r_tasks := _\<rparr>" r])
  then have "sorted_wrt (<) (foldl addSource (u_sources (unitOr r1 un)) (t_named t))"
    using rule_inv_unitOr addSources_inv by blast
  then show ?thesis
    using inv1 by (simp add: Task_def Let_def rule_inv_setUnit flip: t_def r1_def)
qed

lemma rule_inv_Ran: "rule_inv r \<Longrightarrow> rule_inv (Ran r pos ex)"
  by (simp add: Ran_def Let_def rule_inv_setUnit rule_inv_unitOr)

lemma rule_inv_holdSource:
  assumes "rule_inv r" shows "rule_inv (holdSource r pos msg)"
proof (cases "r_failures r pos")
  case (Some f)
  then show ?thesis using assms by (simp add: holdSource_def)
next
  case None
  then have new: "pos \<notin> heldSet r" by (simp add: heldSet_def Held_def)
  have "heldSet (holdSource r pos msg) = insert pos (heldSet r)"
    by (rule heldSet_fail [where f = "\<lparr>f_err = msg, f_handled = False\<rparr>"]) (simp_all add: holdSource_def None)
  moreover have "finite (heldSet r)" using assms by (simp add: rule_inv_def heldSet_finite)
  ultimately show ?thesis
    using assms new by (auto simp: rule_inv_def holdSource_def None)
qed

lemma rule_inv_Fail: "rule_inv r \<Longrightarrow> rule_inv (Fail r pos msg)"
  by (simp add: Fail_def Let_def rule_inv_setUnit rule_inv_unitOr rule_inv_holdSource)

lemma handleOne_inv:
  assumes "rule_inv r" shows "rule_inv (handleOne r s)"
proof (cases "Held r s")
  case False
  then show ?thesis using assms by (simp add: handleOne_def)
next
  case True
  have "heldSet (handleOne r s) = heldSet r - {s}"
    by (rule heldSet_handle [where f = "\<lparr>f_err = errOf r s, f_handled = True\<rparr>"]) (simp_all add: handleOne_def True)
  moreover have "finite (heldSet r)" using assms by (simp add: rule_inv_def heldSet_finite)
  moreover have "s \<in> heldSet r" using True by (simp add: heldSet_def)
  moreover have "card (heldSet r) > 0" using calculation(2,3) by (auto simp: card_gt_0_iff)
  ultimately show ?thesis
    using assms True by (auto simp: rule_inv_def handleOne_def card_Diff_singleton)
qed

lemma handleAll_inv: "rule_inv r \<Longrightarrow> rule_inv (foldl handleOne r ss)"
  by (induction ss arbitrary: r) (simp_all add: handleOne_inv)

lemma rule_inv_Decide: "rule_inv r \<Longrightarrow> rule_inv (fst (Decide r uid stopped))"
  by (simp add: Decide_def Let_def rule_inv_setUnit rule_inv_unitOr handleAll_inv)

lemma rule_inv_Reopen:
  assumes "rule_inv r" shows "rule_inv (Reopen r pos)"
proof (cases "Handled r pos")
  case False
  then show ?thesis using assms by (auto simp: Reopen_def Handled_def split: option.splits)
next
  case True
  then obtain f where f: "r_failures r pos = Some f" "f_handled f"
    by (auto simp: Handled_def split: option.splits)
  have "heldSet (Reopen r pos) = insert pos (heldSet r)"
    by (rule heldSet_fail [where f = "\<lparr>f_err = f_err f, f_handled = False\<rparr>"]) (simp_all add: Reopen_def f)
  moreover have "pos \<notin> heldSet r" using f by (simp add: heldSet_def Held_def)
  moreover have "finite (heldSet r)" using assms by (simp add: rule_inv_def heldSet_finite)
  ultimately show ?thesis using assms f by (auto simp: rule_inv_def Reopen_def)
qed

lemma rule_inv_new: "rule_inv newRescueRule"
  by (simp add: rule_inv_def newRescueRule_def heldSet_def Held_def)

section \<open>What the operations do to the failures\<close>

lemma Held_handleAll:
  "Held (foldl handleOne r ss) p \<longleftrightarrow> Held r p \<and> p \<notin> set ss"
proof (induction ss arbitrary: r)
  case (Cons s ss)
  have "Held (handleOne r s) p \<longleftrightarrow> Held r p \<and> p \<noteq> s"
    by (auto simp: handleOne_def Held_def split: option.splits)
  with Cons show ?case by auto
qed simp

lemma Held_setUnit [simp]: "Held (setUnit uid u r) p = Held r p"
  by (simp add: Held_def)

text \<open>Deciding a unit handles the sources it holds, exactly when it succeeds.\<close>

lemma Held_Decide:
  "Held (fst (Decide r uid stopped)) p \<longleftrightarrow>
     Held r p \<and>
     \<not> (\<not> u_decided (unitOr r uid) \<and> succeeds (unitOr r uid) stopped \<and>
         p \<in> set (u_sources (unitOr r uid)))"
  by (auto simp: Decide_def Let_def Held_handleAll)

lemma Decide_once:
  "snd (Decide (fst (Decide r uid b)) uid b') = [] \<and>
   r_failures (fst (Decide (fst (Decide r uid b)) uid b')) = r_failures (fst (Decide r uid b))"
proof -
  have keep: "r_units (foldl handleOne q ss) = r_units q" for q ss
    by (induction ss arbitrary: q) (simp_all add: handleOne_def)
  have "u_decided (unitOr (fst (Decide r uid b)) uid)"
    by (auto simp: Decide_def Let_def unitOr_def keep)
  then show ?thesis by (simp add: Decide_def [of "fst (Decide r uid b)"] Let_def)
qed

lemma failures_Ran [simp]: "r_failures (Ran r pos ex) = r_failures r"
  by (simp add: Ran_def Let_def)

lemma failures_Fail:
  "r_failures (Fail r pos msg) = r_failures r \<or>
   r_failures r pos = None \<and> r_failures (Fail r pos msg) = (r_failures r)(pos \<mapsto> \<lparr>f_err = msg, f_handled = False\<rparr>)"
  by (auto simp: Fail_def Let_def holdSource_def)

lemma failures_handleAll:
  "Handled r p \<Longrightarrow> Handled (foldl handleOne r ss) p"
proof (induction ss arbitrary: r)
  case (Cons s ss)
  have "Handled (handleOne r s) p"
    using Cons.prems by (auto simp: handleOne_def Handled_def Held_def split: option.splits)
  with Cons.IH show ?case by simp
qed simp

section \<open>Drivers of the rule\<close>

text \<open>
  A driver calls the operations in some order. An operation that keeps the invariant, and one that
  in addition never takes back a handled source: every operation but \<open>Reopen\<close>.
\<close>

locale rule_op =
  fixes opr :: "'a \<Rightarrow> rescue_rule \<Rightarrow> rescue_rule"
  assumes keeps: "rule_inv r \<Longrightarrow> rule_inv (opr x r)"
begin

lemma fold_keeps: "rule_inv r \<Longrightarrow> rule_inv (fold opr xs r)"
  by (induction xs arbitrary: r) (simp_all add: keeps)

end

locale final_op = rule_op +
  assumes handled_stays: "Handled r p \<Longrightarrow> Handled (opr x r) p"
begin

lemma fold_handled: "Handled r p \<Longrightarrow> Handled (fold opr xs r) p"
  by (induction xs arbitrary: r) (simp_all add: handled_stays)

end

interpretation ran: final_op "\<lambda>(pos, ex) r. Ran r pos ex"
  by unfold_locales (auto simp: rule_inv_Ran Handled_def)

interpretation fails: final_op "\<lambda>(pos, msg) r. Fail r pos msg"
proof (unfold_locales, goal_cases)
  case (1 r x)
  then show ?case by (simp add: rule_inv_Fail split: prod.split)
next
  case (2 r p x)
  then show ?case
    using failures_Fail [of r "fst x" "snd x"]
    by (auto simp: Handled_def split: option.splits prod.splits if_splits)
qed

interpretation decides: final_op "\<lambda>(uid, stopped) r. fst (Decide r uid stopped)"
proof (unfold_locales, goal_cases)
  case (1 r x)
  then show ?case by (simp add: rule_inv_Decide split: prod.split)
next
  case (2 r p x)
  then have "Handled (setUnit uid u r) p" for uid u by (simp add: Handled_def)
  then show ?case by (auto simp: Decide_def Let_def failures_handleAll split: prod.split)
qed

interpretation registers: final_op "\<lambda>(pos, un, nm, trm, ch) r. Task r pos un nm trm ch"
proof (unfold_locales, goal_cases)
  case (1 r x)
  then show ?case by (simp add: rule_inv_Task split: prod.split)
next
  case (2 r p x)
  then show ?case by (simp add: Task_def Let_def Handled_def split: prod.split)
qed

interpretation reopens: rule_op "\<lambda>pos r. Reopen r pos"
  by unfold_locales (rule rule_inv_Reopen)

end
