(* ===== verification/Soul_Task.thy ===== *)
theory Soul_Task
  imports State_Value Soul_Rescue
begin

text \<open>
  One task of an apply message on a host (\<^verbatim>\<open>soul/internal/runtime/applyrunner.go\<close>, \<^verbatim>\<open>plantask.go\<close>,
  \<^verbatim>\<open>paramcheck.go\<close>): the parameter contract, one attempt of the module, the predicates after it, the
  retry loop, the dry run, and the register a task leaves.

  What runs outside the sources is the \<open>host\<close>: the modules found in the registry and what each call
  of one returns (a call is named by the task's position and the attempt, so two calls may differ),
  the declared input of a module, the CEL evaluator of predicates and the registers a predicate
  names, and the duration parser. Logging, metrics and tracing change nothing and are left out. A
  fixed task is never nil: the wire decodes no nil task.

  A \<^verbatim>\<open>structpb.Struct\<close> that is written is a partial function from field names to values; params and
  module outputs, which are iterated, are association lists. A message text is built as the source
  builds it; \<open>goQ\<close> is \<^verbatim>\<open>%q\<close> on printable ASCII, which is what names of tasks, modules and params are.
\<close>

section \<open>Wire data\<close>

type_synonym struct = "string \<rightharpoonup> go_value"

datatype task_status = TS_UNSPECIFIED | TS_OK | TS_CHANGED | TS_FAILED | TS_TIMED_OUT | TS_SKIPPED | TS_CANCELLED

record task_error =
  te_code :: string
  te_module :: string
  te_message :: string

record task_notice =
  tn_code :: string
  tn_module :: string
  tn_param :: string
  tn_message :: string

record task_event =
  ev_idx :: int
  ev_status :: task_status
  ev_error :: "task_error option"
  ev_register :: "struct option"
  ev_notices :: "task_notice list"

record wire_task =
  w_name :: string
  w_module :: string
  w_params :: gomap
  w_timeout :: string
  w_onchanges :: "int list"
  w_onfail :: "int list"
  w_aggregate :: "int list"
  w_async :: bool
  w_require :: "int list"
  w_requireAll :: bool
  w_when :: string
  w_changedWhen :: string
  w_failedWhen :: string
  w_flow :: gomap
  w_register :: string
  w_until :: string
  w_retryCount :: int
  w_rescueUnit :: int
  w_planIndex :: int

section \<open>The host\<close>

record apply_ev =
  ae_changed :: bool
  ae_failed :: bool
  ae_message :: string
  ae_output :: "gomap option"

text \<open>One call of \<^verbatim>\<open>Apply\<close>: the error it returns, the events it sent, whether its deadline passed.\<close>

record apply_outcome =
  ao_err :: "string option"
  ao_events :: "apply_ev list"
  ao_expired :: bool

record plan_outcome =
  po_err :: "string option"
  po_changed :: "bool list"

record cel_vars =
  cv_input :: gomap
  cv_vars :: gomap
  cv_incarnation :: gomap
  cv_self :: gomap
  cv_register :: "string \<rightharpoonup> struct"

record host =
  h_found :: "string \<Rightarrow> bool"
  h_input :: "string \<Rightarrow> string \<Rightarrow> (string \<times> string option) list option"
  h_apply :: "int \<Rightarrow> nat \<Rightarrow> string \<Rightarrow> string \<Rightarrow> gomap \<Rightarrow> apply_outcome"
  h_planSafe :: "string \<Rightarrow> bool"
  h_plan :: "int \<Rightarrow> string \<Rightarrow> string \<Rightarrow> gomap \<Rightarrow> plan_outcome"
  h_eval :: "string \<Rightarrow> cel_vars \<Rightarrow> (string, bool) result"
  h_refs :: "string \<Rightarrow> string list"
  h_duration :: "string \<Rightarrow> int option"

section \<open>Texts\<close>

definition goQ :: "string \<Rightarrow> string" where
  "goQ s =
     [CHR 0x22] @ concat (map (\<lambda>c. if c = CHR 0x22 \<or> c = CHR 0x5C then [CHR 0x5C, c] else [c]) s)
     @ [CHR 0x22]"

fun digitsOf :: "nat \<Rightarrow> string" where
  "digitsOf n = (if n < 10 then [char_of (48 + n)] else digitsOf (n div 10) @ [char_of (48 + n mod 10)])"

declare digitsOf.simps [simp del]

definition splitModuleAddr :: "string \<Rightarrow> (string \<times> string) option" where
  "splitModuleAddr a =
     (if a = [] then None
      else let tl = takeWhile (\<lambda>c. c \<noteq> CHR ''.'') (rev a)
        in if length tl = length a then Some (a, [])
           else let i = length a - length tl - 1
             in if i = 0 \<or> i = length a - 1 then None else Some (take i a, drop (i + 1) a))"

section \<open>Registers\<close>

definition boolField :: "struct option \<Rightarrow> string \<Rightarrow> bool" where
  "boolField rd k = (case rd of None \<Rightarrow> False | Some m \<Rightarrow> m k = Some (VBool True))"

definition outputOf :: "apply_ev option \<Rightarrow> gomap" where
  "outputOf l = (case l of None \<Rightarrow> [] | Some e \<Rightarrow> (case ae_output e of None \<Rightarrow> [] | Some m \<Rightarrow> m))"

definition buildRegisterData :: "task_status \<Rightarrow> apply_ev option \<Rightarrow> struct" where
  "buildRegisterData st l =
     [''changed'' \<mapsto> VBool (st = TS_CHANGED),
      ''failed'' \<mapsto> VBool (st = TS_FAILED \<or> st = TS_TIMED_OUT),
      ''timed_out'' \<mapsto> VBool (st = TS_TIMED_OUT),
      ''skipped'' \<mapsto> VBool (st = TS_SKIPPED)] ++ map_of (outputOf l)"

definition selfRegisterData :: "bool \<Rightarrow> bool \<Rightarrow> apply_ev option \<Rightarrow> struct" where
  "selfRegisterData ch fl l =
     [''changed'' \<mapsto> VBool ch, ''failed'' \<mapsto> VBool fl, ''timed_out'' \<mapsto> VBool False]
     ++ map_of (outputOf l)"

definition mergeRegisterSelf :: "(string \<rightharpoonup> struct) \<Rightarrow> struct \<Rightarrow> string \<rightharpoonup> struct" where
  "mergeRegisterSelf prev slf = prev(''self'' \<mapsto> slf)"

definition registerStruct :: "struct \<Rightarrow> struct" where
  "registerStruct slf = slf(''skipped'' \<mapsto> VBool False)"

definition skippedTaskEvent :: "int \<Rightarrow> task_event" where
  "skippedTaskEvent idx =
     \<lparr>ev_idx = idx, ev_status = TS_SKIPPED, ev_error = None,
      ev_register = Some (buildRegisterData TS_SKIPPED None), ev_notices = []\<rparr>"

section \<open>Predicates\<close>

definition flowSection :: "gomap \<Rightarrow> string \<Rightarrow> gomap" where
  "flowSection fc k = (case map_of fc k of Some (VMap m) \<Rightarrow> m | _ \<Rightarrow> [])"

definition flowControlVars :: "gomap \<Rightarrow> (string \<rightharpoonup> struct) \<Rightarrow> cel_vars" where
  "flowControlVars fc regs =
     \<lparr>cv_input = flowSection fc ''input'', cv_vars = flowSection fc ''vars'',
      cv_incarnation = flowSection fc ''incarnation'', cv_self = flowSection fc ''self'',
      cv_register = regs\<rparr>"

definition evalFlowPredicate ::
    "host \<Rightarrow> string \<Rightarrow> wire_task \<Rightarrow> (string \<rightharpoonup> struct) \<Rightarrow> (string, bool) result" where
  "evalFlowPredicate h e t regs = h_eval h e (flowControlVars (w_flow t) regs)"

definition evalWhen :: "host \<Rightarrow> wire_task \<Rightarrow> (string \<rightharpoonup> struct) \<Rightarrow> (string, bool) result" where
  "evalWhen h t regs = (if w_when t = [] then Inr True else evalFlowPredicate h (w_when t) t regs)"

definition evalUntil ::
    "host \<Rightarrow> wire_task \<Rightarrow> (string \<rightharpoonup> struct) \<Rightarrow> struct \<Rightarrow> (string, bool) result" where
  "evalUntil h t regs slf = evalFlowPredicate h (w_until t) t (mergeRegisterSelf regs slf)"

definition flowControlErrorMessage :: "string \<Rightarrow> wire_task \<Rightarrow> string \<Rightarrow> string" where
  "flowControlErrorMessage kind t reason = kind @ '' of task '' @ goQ (w_name t) @ '' '' @ reason"

definition flowControlErrorEvent ::
    "int \<Rightarrow> string \<Rightarrow> string \<Rightarrow> wire_task \<Rightarrow> string \<Rightarrow> task_event" where
  "flowControlErrorEvent idx cd kind t reason =
     \<lparr>ev_idx = idx, ev_status = TS_FAILED,
      ev_error = Some \<lparr>te_code = cd, te_module = w_module t,
                        te_message = flowControlErrorMessage kind t reason\<rparr>,
      ev_register = Some (buildRegisterData TS_FAILED None), ev_notices = []\<rparr>"

section \<open>The parameter contract\<close>

definition transportParams :: "string \<Rightarrow> string list" where
  "transportParams addr =
     (if addr = ''core.file.rendered'' then [''template_content'', ''render_context''] else [])"

definition quoteList :: "string list \<Rightarrow> string" where
  "quoteList ns = (if ns = [] then ''no params'' else join '', '' (map goQ ns))"

definition upgradeHint :: "string \<Rightarrow> string" where
  "upgradeHint m =
     (if hasPrefix m ''core.'' then ''upgrade the soul binary''
      else ''upgrade the module (its manifest ships beside its binary)'')"

definition isDeprecated :: "(string \<times> string option) list \<Rightarrow> string \<Rightarrow> bool" where
  "isDeprecated decl n = (case map_of decl n of Some (Some _) \<Rightarrow> True | _ \<Rightarrow> False)"

definition unknownParams :: "(string \<times> string option) list \<Rightarrow> string \<Rightarrow> gomap \<Rightarrow> string list" where
  "unknownParams decl addr ps =
     sort (filter (\<lambda>n. map_of decl n = None \<and> n \<notin> set (transportParams addr)) (map fst ps))"

definition paramNotice :: "(string \<times> string option) list \<Rightarrow> string \<Rightarrow> string \<Rightarrow> task_notice" where
  "paramNotice decl addr n =
     \<lparr>tn_code = ''deprecated_param'', tn_module = addr, tn_param = n,
      tn_message = (case map_of decl n of Some (Some d) \<Rightarrow> d | _ \<Rightarrow> [])\<rparr>"

definition checkParams ::
    "host \<Rightarrow> string \<Rightarrow> string \<Rightarrow> string \<Rightarrow> gomap \<Rightarrow> task_notice list \<times> task_error option" where
  "checkParams h m st nm ps =
     (case h_input h m st of
        None \<Rightarrow> ([], None)
      | Some decl \<Rightarrow>
          let addr = m @ ''.'' @ st;
              unk = unknownParams decl addr ps;
              nts = map (paramNotice decl addr) (sort (filter (isDeprecated decl) (map fst ps)))
          in (nts,
              if unk = [] then None
              else Some \<lparr>te_code = ''module.unknown_param'', te_module = m,
                te_message = addr @ '' does not accept '' @ quoteList unk @ '' (task '' @ goQ nm
                  @ '') - this host implements '' @ quoteList (sort (map fst decl))
                  @ ''; the task was NOT applied, '' @ upgradeHint m
                  @ '' or drop the param (ADR-0076)''\<rparr>))"

section \<open>One attempt\<close>

definition failedEvent :: "int \<Rightarrow> task_notice list \<Rightarrow> task_error \<Rightarrow> struct option \<Rightarrow> task_event" where
  "failedEvent idx nts e rd =
     \<lparr>ev_idx = idx, ev_status = TS_FAILED, ev_error = Some e, ev_register = rd, ev_notices = nts\<rparr>"

definition badAddress :: "wire_task \<Rightarrow> task_error" where
  "badAddress t =
     \<lparr>te_code = ''module.bad_address'', te_module = w_module t,
      te_message = ''expected <namespace>.<module>.<state>, got '' @ goQ (w_module t)\<rparr>"

definition notFound :: "string \<Rightarrow> wire_task \<Rightarrow> task_error" where
  "notFound m t =
     \<lparr>te_code = ''module.not_found'', te_module = m,
      te_message = ''module '' @ goQ m @ '' is not registered (task '' @ goQ (w_name t) @ '')''\<rparr>"

text \<open>A timeout limits an attempt only when it parses to a positive duration.\<close>

definition limited :: "host \<Rightarrow> wire_task \<Rightarrow> bool" where
  "limited h t =
     (w_timeout t \<noteq> [] \<and> (case h_duration h (w_timeout t) of None \<Rightarrow> False | Some d \<Rightarrow> d > 0))"

text \<open>The module's own verdict, before the predicates.\<close>

definition baseOutcome ::
    "string \<Rightarrow> apply_outcome \<Rightarrow> apply_ev option \<Rightarrow> bool \<times> bool \<times> task_error option" where
  "baseOutcome m out l =
     (case ao_err out of
        Some e \<Rightarrow> (False, True, Some \<lparr>te_code = ''module.error'', te_module = m, te_message = e\<rparr>)
      | None \<Rightarrow>
          (case l of
             None \<Rightarrow> (False, False, None)
           | Some e \<Rightarrow>
               if ae_failed e then
                 (False, True, Some \<lparr>te_code = ''module.failed'', te_module = m, te_message = ae_message e\<rparr>)
               else (ae_changed e, False, None)))"

definition lastEvent :: "apply_outcome \<Rightarrow> apply_ev option" where
  "lastEvent out = (if ao_events out = [] then None else Some (last (ao_events out)))"

text \<open>An override predicate: the value it gives, and the register it leaves for the next one.\<close>

definition overrideBy ::
    "host \<Rightarrow> wire_task \<Rightarrow> (string \<rightharpoonup> struct) \<Rightarrow> string \<Rightarrow> string \<Rightarrow> bool \<Rightarrow> struct
     \<Rightarrow> (string, bool \<times> struct) result" where
  "overrideBy h t regs e key b slf =
     (if e = [] then Inr (b, slf)
      else case evalFlowPredicate h e t (mergeRegisterSelf regs slf) of
             Inl er \<Rightarrow> Inl er
           | Inr v \<Rightarrow> Inr (v, slf(key \<mapsto> VBool v)))"

definition finishAttempt ::
    "int \<Rightarrow> task_notice list \<Rightarrow> string \<Rightarrow> wire_task \<Rightarrow> bool \<Rightarrow> bool \<Rightarrow> task_error option \<Rightarrow> struct
     \<Rightarrow> task_event \<times> struct option" where
  "finishAttempt idx nts m t ch fl merr slf =
     (let st = (if fl then TS_FAILED else if ch then TS_CHANGED else TS_OK);
          e = (if \<not> fl then None
               else case merr of
                 Some x \<Rightarrow> Some x
               | None \<Rightarrow> Some \<lparr>te_code = ''flowcontrol.failed_when'', te_module = m,
                   te_message = ''failed_when of task '' @ goQ (w_name t) @ '' evaluated to true''\<rparr>);
          note = (case merr of Some x \<Rightarrow> if fl then Map.empty else [''ignored_error'' \<mapsto> VStr (te_message x)]
                  | None \<Rightarrow> Map.empty)
      in (\<lparr>ev_idx = idx, ev_status = st, ev_error = e, ev_register = Some (registerStruct slf ++ note),
           ev_notices = nts\<rparr>, Some (slf ++ note)))"

definition afterApply ::
    "host \<Rightarrow> int \<Rightarrow> task_notice list \<Rightarrow> string \<Rightarrow> wire_task \<Rightarrow> (string \<rightharpoonup> struct) \<Rightarrow> apply_outcome
     \<Rightarrow> task_event \<times> struct option" where
  "afterApply h idx nts m t regs out =
     (let l = lastEvent out; (bc, bf, merr) = baseOutcome m out l
      in case overrideBy h t regs (w_changedWhen t) ''changed'' bc (selfRegisterData bc bf l) of
           Inl er \<Rightarrow> (flowControlErrorEvent idx ''flowcontrol.changed_when_error'' ''changed_when'' t er, None)
         | Inr (ch, slf1) \<Rightarrow>
             (case overrideBy h t regs (w_failedWhen t) ''failed'' bf slf1 of
                Inl er \<Rightarrow> (flowControlErrorEvent idx ''flowcontrol.failed_when_error'' ''failed_when'' t er, None)
              | Inr (fl, slf2) \<Rightarrow> finishAttempt idx nts m t ch fl merr slf2))"

definition timedOutEvent :: "int \<Rightarrow> task_notice list \<Rightarrow> string \<Rightarrow> wire_task \<Rightarrow> apply_ev option \<Rightarrow> task_event" where
  "timedOutEvent idx nts m t l =
     \<lparr>ev_idx = idx, ev_status = TS_TIMED_OUT,
      ev_error = Some \<lparr>te_code = ''task.timed_out'', te_module = m,
        te_message = ''task '' @ goQ (w_name t) @ '' timed out after '' @ w_timeout t\<rparr>,
      ev_register = Some (buildRegisterData TS_TIMED_OUT l), ev_notices = nts\<rparr>"

definition runTask ::
    "host \<Rightarrow> int \<Rightarrow> nat \<Rightarrow> wire_task \<Rightarrow> (string \<rightharpoonup> struct) \<Rightarrow> task_event \<times> struct option" where
  "runTask h idx att t regs =
     (case splitModuleAddr (w_module t) of
        None \<Rightarrow> (failedEvent idx [] (badAddress t) None, None)
      | Some (m, st) \<Rightarrow>
          if \<not> h_found h m then (failedEvent idx [] (notFound m t) None, None)
          else case checkParams h m st (w_name t) (w_params t) of
                 (nts, Some e) \<Rightarrow> (failedEvent idx nts e None, None)
               | (nts, None) \<Rightarrow>
                   let out = h_apply h idx att m st (w_params t)
                   in if limited h t \<and> ao_expired out
                      then (timedOutEvent idx nts m t (lastEvent out), None)
                      else afterApply h idx nts m t regs out)"

section \<open>Retries and the dry run\<close>

definition failedStatus :: "task_status \<Rightarrow> bool" where
  "failedStatus s \<longleftrightarrow> s = TS_FAILED \<or> s = TS_TIMED_OUT"

definition maxAttempts :: "wire_task \<Rightarrow> nat" where
  "maxAttempts t = (if w_retryCount t < 1 then 1 else nat (w_retryCount t))"

definition untilExhaustedEvent :: "int \<Rightarrow> wire_task \<Rightarrow> task_event" where
  "untilExhaustedEvent idx t =
     failedEvent idx [] \<lparr>te_code = ''flowcontrol.until_exhausted'', te_module = w_module t,
       te_message = ''until of task '' @ goQ (w_name t) @ '' did not become truthy after ''
         @ digitsOf (maxAttempts t) @ '' attempts''\<rparr> (Some (buildRegisterData TS_FAILED None))"

text \<open>
  What one attempt leaves to do: return an event, or try again. The loop makes at most
  \<open>maxAttempts\<close> attempts; \<open>left\<close> counts those after this one. A Cancel during it returns the
  current event, which the caller replaces by CANCELLED.
\<close>

definition attemptVerdict ::
    "host \<Rightarrow> int \<Rightarrow> wire_task \<Rightarrow> (string \<rightharpoonup> struct) \<Rightarrow> task_event \<times> struct option \<Rightarrow> task_event option" where
  "attemptVerdict h idx t regs res =
     (case res of (ev, slf) \<Rightarrow>
       if w_until t = [] then (if failedStatus (ev_status ev) then None else Some ev)
       else if ev_status ev = TS_TIMED_OUT then None
       else case slf of
              None \<Rightarrow> Some ev
            | Some s \<Rightarrow>
                (case evalUntil h t regs s of
                   Inl er \<Rightarrow> Some (flowControlErrorEvent idx ''flowcontrol.until_error'' ''until'' t er)
                 | Inr True \<Rightarrow> Some ev
                 | Inr False \<Rightarrow> None))"

fun retryLoop ::
    "host \<Rightarrow> int \<Rightarrow> wire_task \<Rightarrow> (string \<rightharpoonup> struct) \<Rightarrow> nat \<Rightarrow> nat \<Rightarrow> task_event" where
  "retryLoop h idx t regs att left =
     (case attemptVerdict h idx t regs (runTask h idx att t regs) of
        Some ev \<Rightarrow> ev
      | None \<Rightarrow>
          (case left of
             0 \<Rightarrow> if w_until t \<noteq> [] then untilExhaustedEvent idx t else fst (runTask h idx att t regs)
           | Suc k \<Rightarrow> retryLoop h idx t regs (Suc att) k))"

declare retryLoop.simps [simp del]

definition planTask :: "host \<Rightarrow> int \<Rightarrow> wire_task \<Rightarrow> task_event" where
  "planTask h idx t =
     (let bad = Some (buildRegisterData TS_FAILED None)
      in case splitModuleAddr (w_module t) of
           None \<Rightarrow> failedEvent idx [] (badAddress t) bad
         | Some (m, st) \<Rightarrow>
             if \<not> h_found h m then failedEvent idx [] (notFound m t) bad
             else case checkParams h m st (w_name t) (w_params t) of
                    (nts, Some e) \<Rightarrow> failedEvent idx nts e bad
                  | (nts, None) \<Rightarrow>
                      if \<not> h_planSafe h m then
                        failedEvent idx nts \<lparr>te_code = ''plan.unsupported'', te_module = m,
                          te_message = ''module '' @ goQ m
                            @ '' did not declare a read-safe Plan - drift on dry_run is unsupported (task ''
                            @ goQ (w_name t) @ '')''\<rparr> bad
                      else let out = h_plan h idx m st (w_params t)
                        in case po_err out of
                             Some e \<Rightarrow> failedEvent idx nts \<lparr>te_code = ''plan.error'', te_module = m, te_message = e\<rparr> bad
                           | None \<Rightarrow>
                               if po_changed out = [] then
                                 failedEvent idx nts \<lparr>te_code = ''plan.no_result'', te_module = m,
                                   te_message = ''module '' @ goQ m
                                     @ '' declared a read-safe Plan but sent no PlanEvent (task ''
                                     @ goQ (w_name t) @ '')''\<rparr> bad
                               else let s = (if last (po_changed out) then TS_CHANGED else TS_OK)
                                 in \<lparr>ev_idx = idx, ev_status = s, ev_error = None,
                                     ev_register = Some (buildRegisterData s None), ev_notices = nts\<rparr>)"

definition runTaskWithRetry ::
    "host \<Rightarrow> int \<Rightarrow> wire_task \<Rightarrow> (string \<rightharpoonup> struct) \<Rightarrow> bool \<Rightarrow> task_event" where
  "runTaskWithRetry h idx t regs dryRun =
     (if dryRun then planTask h idx t
      else if maxAttempts t = 1 \<and> w_until t = [] then fst (runTask h idx 1 t regs)
      else retryLoop h idx t regs 1 (maxAttempts t - 1))"

section \<open>What a task reports\<close>

text \<open>
  The outcome of a task that was run: its position, a terminal status, and an error exactly when it
  failed.
\<close>

definition settledAs :: "int \<Rightarrow> task_event \<Rightarrow> bool" where
  "settledAs i ev \<longleftrightarrow>
     ev_idx ev = i \<and> ev_status ev \<in> {TS_OK, TS_CHANGED, TS_FAILED, TS_TIMED_OUT} \<and>
     (ev_error ev \<noteq> None \<longleftrightarrow> failedStatus (ev_status ev))"

lemma settled_failedEvent [simp]: "settledAs i (failedEvent i nts e rd)"
  by (simp add: settledAs_def failedEvent_def failedStatus_def)

lemma settled_flowError [simp]: "settledAs i (flowControlErrorEvent i cd kind t er)"
  by (simp add: settledAs_def flowControlErrorEvent_def failedStatus_def)

lemma settled_finish: "settledAs i (fst (finishAttempt i nts m t ch fl merr slf))"
  by (auto simp: settledAs_def finishAttempt_def failedStatus_def Let_def split: option.split)

lemma settled_afterApply: "settledAs i (fst (afterApply h i nts m t regs out))"
  using settled_finish [of i nts m t]
  by (auto simp: afterApply_def Let_def split: prod.split sum.split)

lemma settled_timedOut [simp]: "settledAs i (timedOutEvent i nts m t l)"
  by (simp add: settledAs_def timedOutEvent_def failedStatus_def)

lemma settled_runTask: "settledAs i (fst (runTask h i att t regs))"
  using settled_afterApply [of i h _ _ t regs]
  by (auto simp: runTask_def Let_def split: option.split prod.split)

lemma settled_verdict:
  "attemptVerdict h i t regs (ev, slf) = Some ev' \<Longrightarrow> settledAs i ev \<Longrightarrow> settledAs i ev'"
  by (auto simp: attemptVerdict_def split: if_splits option.splits sum.splits bool.splits)

lemma settled_retry: "settledAs i (retryLoop h i t regs att left)"
proof (induction left arbitrary: att)
  have v: "attemptVerdict h i t regs (runTask h i att t regs) = Some ev \<Longrightarrow> settledAs i ev" for att ev
    using settled_verdict [of h i t regs "fst (runTask h i att t regs)" "snd (runTask h i att t regs)" ev]
      settled_runTask by simp
  case 0
  show ?case
    by (subst retryLoop.simps) (auto simp: v settled_runTask untilExhaustedEvent_def split: option.split)
  case (Suc left)
  then show ?case by (subst retryLoop.simps) (auto simp: v split: option.split)
qed

lemma settled_plan: "settledAs i (planTask h i t)"
  by (auto simp: planTask_def Let_def settledAs_def failedStatus_def failedEvent_def
      split: option.split prod.split)

lemma settled_runTaskWithRetry: "settledAs i (runTaskWithRetry h i t regs d)"
  by (simp add: runTaskWithRetry_def settled_plan settled_runTask settled_retry)

section \<open>The retry loop by its attempts\<close>

text \<open>The attempt that decides a task, looked up among all it may make, and what is left if none does.\<close>

definition retrySpec :: "host \<Rightarrow> int \<Rightarrow> wire_task \<Rightarrow> (string \<rightharpoonup> struct) \<Rightarrow> nat list \<Rightarrow> task_event" where
  "retrySpec h i t regs atts =
     (let verdict = (\<lambda>a. attemptVerdict h i t regs (runTask h i a t regs))
      in case find (\<lambda>a. verdict a \<noteq> None) atts of
           Some a \<Rightarrow> the (verdict a)
         | None \<Rightarrow> if w_until t \<noteq> [] then untilExhaustedEvent i t else fst (runTask h i (last atts) t regs))"

lemma retryLoop_spec: "retryLoop h i t regs att left = retrySpec h i t regs [att..<Suc (att + left)]"
proof (induction left arbitrary: att)
  case 0
  show ?case by (subst retryLoop.simps) (auto simp: retrySpec_def split: option.split)
next
  case (Suc left)
  have "[att..<Suc (att + Suc left)] = att # [Suc att..<Suc (Suc att + left)]"
    by (simp add: upt_conv_Cons)
  moreover have "[Suc att..<Suc (Suc att + left)] \<noteq> []" by simp
  ultimately show ?case
    using Suc.IH [of "Suc att"]
    by (subst retryLoop.simps) (simp add: retrySpec_def Let_def del: upt_Suc split: option.split)
qed

lemma runTaskWithRetry_spec:
  "runTaskWithRetry h i t regs False = retrySpec h i t regs [1..<Suc (maxAttempts t)]"
proof -
  have "1 + (maxAttempts t - 1) = maxAttempts t" by (simp add: maxAttempts_def)
  then have "runTaskWithRetry h i t regs False = retryLoop h i t regs 1 (maxAttempts t - 1)"
    if "\<not> (maxAttempts t = 1 \<and> w_until t = [])"
    using that by (auto simp: runTaskWithRetry_def)
  moreover have "fst (runTask h i 1 t regs) = retrySpec h i t regs [1..<Suc 1]" if "w_until t = []"
    using that by (auto simp: retrySpec_def attemptVerdict_def Let_def split: prod.split)
  ultimately show ?thesis
    using retryLoop_spec [of h i t regs 1 "maxAttempts t - 1"] \<open>1 + (maxAttempts t - 1) = maxAttempts t\<close>
    by (cases "maxAttempts t = 1 \<and> w_until t = []") (simp_all add: runTaskWithRetry_def del: upt_Suc)
qed

end
