(* ===== verification/Soul_Run.thy ===== *)
theory Soul_Run
  imports Soul_Task
begin

text \<open>
  A run of one apply message on a host (\<^verbatim>\<open>soul/internal/runtime/applyrunner.go\<close>, \<open>Run\<close>, \<open>executeTask\<close>,
  \<open>launchAsync\<close>; \<^verbatim>\<open>async.go\<close>; \<^verbatim>\<open>rescueunit.go\<close>): the main flow takes the tasks in plan order, waits at
  barriers, gates, and executes or launches; every launched flow runs beside it.

  The machine \<open>act\<close> makes one move of one flow, and a schedule is a list of moves. The main flow has
  four moves per task: the Cancel check at the top (\<open>Top\<close>), the barriers and the gating (\<open>Gate\<close>,
  enabled once every flow it waits for is done), the start of the module, made together with the
  gating, and its end (\<open>Exec\<close>). A flow starts once the flows it requires are done and a slot is free,
  and ends. A Cancel comes at any moment. Flows share only the registers and the sink; what one move
  does between two such accesses is not observable, so a move is atomic.

  A sink error, which ends \<open>Run\<close> with an error and no result, is not modelled: the daemon's sink is the
  relay, whose sends never fail.
\<close>

section \<open>Barriers\<close>

datatype stage = Waiting | Running task_event | Done task_event

record flow =
  fl_idx :: int
  fl_name :: string
  fl_task :: wire_task
  fl_wait :: "int list"
  fl_stage :: stage

definition flowAt :: "flow list \<Rightarrow> int \<Rightarrow> flow option" where
  "flowAt fs i = find (\<lambda>f. fl_idx f = i) fs"

fun doneEvent :: "stage \<Rightarrow> task_event option" where
  "doneEvent (Done ev) = Some ev"
| "doneEvent _ = None"

definition isDone :: "flow \<Rightarrow> bool" where
  "isDone f \<longleftrightarrow> doneEvent (fl_stage f) \<noteq> None"

definition allDone :: "flow list \<Rightarrow> int list \<Rightarrow> bool" where
  "allDone fs is \<longleftrightarrow> list_all (\<lambda>i. case flowAt fs i of None \<Rightarrow> True | Some f \<Rightarrow> isDone f) is"

definition flowEvent :: "flow list \<Rightarrow> int \<Rightarrow> task_event option" where
  "flowEvent fs i = (case flowAt fs i of None \<Rightarrow> None | Some f \<Rightarrow> doneEvent (fl_stage f))"

definition flowFailed :: "flow list \<Rightarrow> int \<Rightarrow> bool" where
  "flowFailed fs i = (case flowEvent fs i of None \<Rightarrow> False | Some ev \<Rightarrow> failedStatus (ev_status ev))"

definition flowCancelled :: "flow list \<Rightarrow> int \<Rightarrow> bool" where
  "flowCancelled fs i = (case flowEvent fs i of None \<Rightarrow> False | Some ev \<Rightarrow> ev_status ev = TS_CANCELLED)"

definition anyFailed :: "flow list \<Rightarrow> int list \<Rightarrow> bool" where
  "anyFailed fs is = list_ex (flowFailed fs) is"

definition anyCancelled :: "flow list \<Rightarrow> int list \<Rightarrow> bool" where
  "anyCancelled fs is = list_ex (flowCancelled fs) is"

text \<open>A set of flows to wait for, without duplicates, by position.\<close>

definition addFlow :: "int list \<Rightarrow> int \<Rightarrow> int list" where
  "addFlow acc i = (if i \<in> set acc then acc else acc @ [i])"

definition addIdx :: "flow list \<Rightarrow> int list \<Rightarrow> int list \<Rightarrow> int list" where
  "addIdx fs is acc = foldl addFlow acc (filter (\<lambda>i. flowAt fs i \<noteq> None) is)"

definition named :: "flow list \<Rightarrow> string \<Rightarrow> int list" where
  "named fs n = map fl_idx (filter (\<lambda>f. fl_name f \<noteq> [] \<and> fl_name f = n) fs)"

definition addNames :: "host \<Rightarrow> flow list \<Rightarrow> string \<Rightarrow> int list \<Rightarrow> int list" where
  "addNames h fs e acc =
     (if e = [] then acc else foldl addFlow acc (concat (map (named fs) (h_refs h e))))"

definition addAll :: "flow list \<Rightarrow> int list \<Rightarrow> int list" where
  "addAll fs acc = foldl addFlow acc (map fl_idx fs)"

definition gateBarrier :: "host \<Rightarrow> flow list \<Rightarrow> wire_task \<Rightarrow> int list" where
  "gateBarrier h fs t =
     addNames h fs (w_when t)
       (addIdx fs (w_aggregate t) (addIdx fs (w_onfail t) (addIdx fs (w_onchanges t) [])))"

definition startBarrier :: "host \<Rightarrow> flow list \<Rightarrow> wire_task \<Rightarrow> int list" where
  "startBarrier h fs t =
     addNames h fs (w_until t) (addNames h fs (w_failedWhen t) (addNames h fs (w_changedWhen t)
       (if w_requireAll t then addAll fs [] else addIdx fs (w_require t) [])))"

definition barriers :: "host \<Rightarrow> flow list \<Rightarrow> wire_task \<Rightarrow> int list \<times> int list" where
  "barriers h fs t = (if fs = [] then ([], []) else (gateBarrier h fs t, startBarrier h fs t))"

section \<open>Rescue units of a message\<close>

record soul_unit =
  s_id :: int
  s_last :: int
  s_flows :: "int list"

text \<open>\<open>su_pending\<close> is \<^verbatim>\<open>order[next:]\<close>: the units not decided yet, by their last position.\<close>

record soul_units =
  su_rule :: rescue_rule
  su_pending :: "soul_unit list"

fun markUnit :: "int \<Rightarrow> int \<Rightarrow> soul_unit list \<Rightarrow> soul_unit list" where
  "markUnit uid i [] = [\<lparr>s_id = uid, s_last = i, s_flows = []\<rparr>]"
| "markUnit uid i (u # us) = (if s_id u = uid then u\<lparr>s_last := i\<rparr> # us else u # markUnit uid i us)"

definition markUnits :: "wire_task list \<Rightarrow> soul_unit list" where
  "markUnits ts =
     foldl (\<lambda>us (i, t). if w_rescueUnit t = 0 then us else markUnit (w_rescueUnit t) i us)
       [] (zip (map int [0..<length ts]) ts)"

definition ruleOf :: "wire_task list \<Rightarrow> rescue_rule" where
  "ruleOf ts =
     foldl (\<lambda>r (i, t). Task r i (w_rescueUnit t) (w_onfail t) (w_aggregate t \<noteq> []) (w_aggregate t))
       newRescueRule (zip (map int [0..<length ts]) ts)"

definition newRescueUnits :: "wire_task list \<Rightarrow> soul_units option" where
  "newRescueUnits ts =
     (if list_all (\<lambda>t. w_rescueUnit t = 0) ts then None
      else Some \<lparr>su_rule = ruleOf ts, su_pending = sort_key s_last (markUnits ts)\<rparr>)"

definition errText :: "task_event \<Rightarrow> string" where
  "errText ev = (case ev_error ev of None \<Rightarrow> [] | Some e \<Rightarrow> te_message e)"

text \<open>\<open>observe\<close> folds in the awaited flows that failed.\<close>

definition observeOne :: "flow list \<Rightarrow> int \<Rightarrow> rescue_rule \<Rightarrow> rescue_rule" where
  "observeOne fs i r =
     (case flowEvent fs i of
        None \<Rightarrow> r
      | Some ev \<Rightarrow> if failedStatus (ev_status ev) then Fail r i (errText ev) else r)"

definition observe :: "flow list \<Rightarrow> int list \<Rightarrow> rescue_rule \<Rightarrow> rescue_rule" where
  "observe fs is r = fold (observeOne fs) is r"

definition ranTask :: "rescue_rule \<Rightarrow> int \<Rightarrow> task_event \<Rightarrow> rescue_rule" where
  "ranTask r i ev =
     (let r1 = Ran r i (ev_status ev \<noteq> TS_SKIPPED)
      in if failedStatus (ev_status ev) then Fail r1 i (errText ev) else r1)"

fun settleUnits :: "flow list \<Rightarrow> int \<Rightarrow> rescue_rule \<Rightarrow> soul_unit list \<Rightarrow> rescue_rule \<times> soul_unit list" where
  "settleUnits fs pos r [] = (r, [])"
| "settleUnits fs pos r (u # us) =
     (if s_last u < pos
      then settleUnits fs pos (fst (Decide (observe fs (s_flows u) r) (s_id u) (anyCancelled fs (s_flows u)))) us
      else (r, u # us))"

definition settle :: "flow list \<Rightarrow> int \<Rightarrow> soul_units \<Rightarrow> soul_units" where
  "settle fs pos x =
     (case settleUnits fs pos (su_rule x) (su_pending x) of (r, us) \<Rightarrow> x\<lparr>su_rule := r, su_pending := us\<rparr>)"

definition settleWaits :: "int \<Rightarrow> soul_units \<Rightarrow> int list" where
  "settleWaits pos x = concat (map s_flows (takeWhile (\<lambda>u. s_last u < pos) (su_pending x)))"

definition launchedUnit :: "int \<Rightarrow> soul_units \<Rightarrow> soul_units" where
  "launchedUnit i x =
     (let uid = UnitOf (su_rule x) i
      in if uid = 0 then x
         else x\<lparr>su_rule := Ran (su_rule x) i True,
                su_pending := map (\<lambda>u. if s_id u = uid then u\<lparr>s_flows := s_flows u @ [i]\<rparr> else u)
                  (su_pending x)\<rparr>)"

definition skipOnChanges :: "int list \<Rightarrow> (int \<Rightarrow> struct option) \<Rightarrow> bool" where
  "skipOnChanges is st \<longleftrightarrow> is \<noteq> [] \<and> \<not> list_ex (\<lambda>i. boolField (st i) ''changed'') is"

definition skipOnFail :: "int list \<Rightarrow> (int \<Rightarrow> struct option) \<Rightarrow> bool" where
  "skipOnFail is st \<longleftrightarrow> is \<noteq> [] \<and> \<not> list_ex (\<lambda>i. boolField (st i) ''failed'') is"

definition onfailUnmet :: "soul_units option \<Rightarrow> int \<Rightarrow> wire_task \<Rightarrow> (int \<Rightarrow> struct option) \<Rightarrow> bool" where
  "onfailUnmet ux i t st =
     (case ux of
        None \<Rightarrow> skipOnFail (w_onfail t) st
      | Some x \<Rightarrow> w_onfail t \<noteq> [] \<and> \<not> NamesHeld (su_rule x) i)"

definition skipUnitTask :: "soul_units \<Rightarrow> int \<Rightarrow> wire_task \<Rightarrow> bool" where
  "skipUnitTask x i t =
     (let u = UnitOf (su_rule x) i
      in u \<noteq> 0 \<and> (UnitFailed (su_rule x) u \<or> \<not> Fires (su_rule x) u
                    \<or> onfailUnmet (Some x) i t (\<lambda>_. None)))"

definition failureCounts :: "soul_units option \<Rightarrow> int \<Rightarrow> bool" where
  "failureCounts ux i = (case ux of None \<Rightarrow> True | Some x \<Rightarrow> Counts (su_rule x) i)"

definition aggregateRegisterData :: "int list \<Rightarrow> (int \<Rightarrow> struct option) \<Rightarrow> soul_units option \<Rightarrow> struct" where
  "aggregateRegisterData is st ux =
     [''changed'' \<mapsto> VBool (list_ex (\<lambda>i. boolField (st i) ''changed'') is),
      ''failed'' \<mapsto> VBool (list_ex (\<lambda>i. failureCounts ux i \<and> boolField (st i) ''failed'') is),
      ''timed_out'' \<mapsto> VBool (list_ex (\<lambda>i. failureCounts ux i \<and> boolField (st i) ''timed_out'') is),
      ''skipped'' \<mapsto> VBool False]"

definition hasMessage :: "gomap \<Rightarrow> bool" where
  "hasMessage ps =
     (case map_of ps ''message'' of
        None \<Rightarrow> False
      | Some VNil \<Rightarrow> False
      | Some (VStr s) \<Rightarrow> s \<noteq> []
      | Some _ \<Rightarrow> True)"

definition withDefaultMessage :: "soul_units \<Rightarrow> int \<Rightarrow> wire_task \<Rightarrow> wire_task" where
  "withDefaultMessage x i t =
     (let u = UnitOf (su_rule x) i; msg = HeldErrors (su_rule x) u
      in if u = 0 \<or> splitModuleAddr (w_module t) \<noteq> Some (''core.task'', ''failed'')
            \<or> hasMessage (w_params t) \<or> msg = [] then t
         else t\<lparr>w_params := AList.update ''message'' (VStr msg) (w_params t)\<rparr>)"

section \<open>The machine\<close>

datatype run_status = RS_SUCCESS | RS_FAILED | RS_CANCELLED

record apply_request =
  q_tasks :: "wire_task list"
  q_attempt :: int
  q_passage :: int
  q_dryRun :: bool

record run_result =
  rr_status :: run_status
  rr_attempt :: int
  rr_passage :: int

record sent_event =
  se_plan :: int
  se_passage :: int
  se_event :: task_event

datatype mode = Top | Gate | Exec wire_task task_event | Drain | Ended run_result

record machine =
  m_pc :: nat
  m_mode :: mode
  m_byIdx :: "int \<Rightarrow> struct option"
  m_byName :: "string \<rightharpoonup> struct"
  m_flows :: "flow list"
  m_units :: "soul_units option"
  m_status :: run_status
  m_failed :: bool
  m_dead :: bool
  m_sent :: "sent_event list"

definition initial :: "apply_request \<Rightarrow> machine" where
  "initial q =
     \<lparr>m_pc = 0, m_mode = Top, m_byIdx = (\<lambda>_. None), m_byName = Map.empty, m_flows = [],
      m_units = newRescueUnits (q_tasks q), m_status = RS_SUCCESS, m_failed = False,
      m_dead = False, m_sent = []\<rparr>"

text \<open>\<open>sendTaskEvent\<close> and \<open>registerIndex.record\<close>, which every finished or skipped task goes through.\<close>

definition report :: "apply_request \<Rightarrow> wire_task \<Rightarrow> task_event \<Rightarrow> machine \<Rightarrow> machine" where
  "report q t ev s =
     s\<lparr>m_sent := m_sent s @ [\<lparr>se_plan = w_planIndex t, se_passage = q_passage q, se_event = ev\<rparr>],
       m_byIdx := (m_byIdx s)(ev_idx ev := ev_register ev),
       m_byName := (if w_register t = [] then m_byName s
                    else (m_byName s)(w_register t \<mapsto>
                      (case ev_register ev of None \<Rightarrow> Map.empty | Some m \<Rightarrow> m)))\<rparr>"

definition blankEvent :: "int \<Rightarrow> task_event" where
  "blankEvent i = \<lparr>ev_idx = i, ev_status = TS_UNSPECIFIED, ev_error = None, ev_register = None, ev_notices = []\<rparr>"

text \<open>\<open>executeTask\<close>: the start of the module, and what it finalizes.\<close>

definition startEvent :: "host \<Rightarrow> bool \<Rightarrow> bool \<Rightarrow> int \<Rightarrow> wire_task \<Rightarrow> (string \<rightharpoonup> struct) \<Rightarrow> task_event" where
  "startEvent h dead dry i t regs =
     (if dead then blankEvent i else runTaskWithRetry h i t regs dry)"

definition cancelEvent :: "task_event \<Rightarrow> task_event" where
  "cancelEvent ev =
     ev\<lparr>ev_status := TS_CANCELLED,
        ev_error := Some \<lparr>te_code = ''apply.cancelled'',
          te_module = (case ev_error ev of None \<Rightarrow> [] | Some e \<Rightarrow> te_module e),
          te_message = ''apply cancelled by Keeper''\<rparr>,
        ev_register := Some (buildRegisterData TS_CANCELLED None)\<rparr>"

definition finalEvent :: "machine \<Rightarrow> soul_units option \<Rightarrow> wire_task \<Rightarrow> task_event \<Rightarrow> task_event" where
  "finalEvent s ux t ev =
     (if m_dead s then cancelEvent ev
      else if w_aggregate t \<noteq> []
      then ev\<lparr>ev_register := Some (aggregateRegisterData (w_aggregate t) (m_byIdx s) ux)\<rparr>
      else ev)"

definition nextTask :: "machine \<Rightarrow> machine" where
  "nextTask s = s\<lparr>m_pc := Suc (m_pc s), m_mode := Top\<rparr>"

text \<open>A failed task of the main flow: the units record it, or the run is failed for good.\<close>

definition noteRan :: "int \<Rightarrow> task_event \<Rightarrow> machine \<Rightarrow> machine" where
  "noteRan i ev s =
     (case m_units s of
        Some x \<Rightarrow> s\<lparr>m_units := Some (x\<lparr>su_rule := ranTask (su_rule x) i ev\<rparr>)\<rparr>
      | None \<Rightarrow> if failedStatus (ev_status ev) then s\<lparr>m_status := RS_FAILED, m_failed := True\<rparr> else s)"

definition launchFlow :: "wire_task \<Rightarrow> int \<Rightarrow> int list \<Rightarrow> machine \<Rightarrow> machine" where
  "launchFlow t i wt s =
     s\<lparr>m_flows := m_flows s @ [\<lparr>fl_idx = i, fl_name = w_register t, fl_task = t, fl_wait = wt,
                                fl_stage = Waiting\<rparr>],
       m_units := map_option (launchedUnit i) (m_units s)\<rparr>"

definition isAsync :: "apply_request \<Rightarrow> wire_task \<Rightarrow> bool" where
  "isAsync q t \<longleftrightarrow> w_async t \<and> \<not> q_dryRun q"

text \<open>What the main flow waits for at the task: its barriers, and the units it decides there.\<close>

definition seenAt :: "host \<Rightarrow> apply_request \<Rightarrow> flow list \<Rightarrow> wire_task \<Rightarrow> int list" where
  "seenAt h q fs t =
     (case barriers h fs t of (g, st) \<Rightarrow> g @ (if isAsync q t then [] else st))"

definition awaited :: "host \<Rightarrow> apply_request \<Rightarrow> machine \<Rightarrow> wire_task \<Rightarrow> int list" where
  "awaited h q s t =
     (case m_units s of None \<Rightarrow> [] | Some x \<Rightarrow> settleWaits (int (m_pc s)) x) @ seenAt h q (m_flows s) t"

text \<open>The units decided and the failures observed at the barriers.\<close>

definition collected :: "host \<Rightarrow> apply_request \<Rightarrow> wire_task \<Rightarrow> machine \<Rightarrow> machine" where
  "collected h q t s =
     (case m_units s of
        Some x \<Rightarrow>
          let x1 = settle (m_flows s) (int (m_pc s)) x
          in s\<lparr>m_units := Some (x1\<lparr>su_rule := observe (m_flows s) (seenAt h q (m_flows s) t) (su_rule x1)\<rparr>)\<rparr>
      | None \<Rightarrow>
          if anyFailed (m_flows s) (seenAt h q (m_flows s) t)
          then s\<lparr>m_status := RS_FAILED, m_failed := True\<rparr> else s)"

datatype verdict = Skipped | Folded | WhenFailed string | Runs wire_task

definition halted :: "machine \<Rightarrow> bool" where
  "halted s =
     (case m_units s of
        Some x \<Rightarrow> AnyHeld (su_rule x) \<and> UnitOf (su_rule x) (int (m_pc s)) = 0
      | None \<Rightarrow> m_failed s)"

definition unitSkips :: "machine \<Rightarrow> wire_task \<Rightarrow> bool" where
  "unitSkips s t = (case m_units s of Some x \<Rightarrow> skipUnitTask x (int (m_pc s)) t | None \<Rightarrow> False)"

definition defaultMessage :: "machine \<Rightarrow> wire_task \<Rightarrow> wire_task" where
  "defaultMessage s t =
     (case m_units s of Some x \<Rightarrow> withDefaultMessage x (int (m_pc s)) t | None \<Rightarrow> t)"

definition gating :: "host \<Rightarrow> machine \<Rightarrow> wire_task \<Rightarrow> verdict" where
  "gating h s t =
     (if unitSkips s t then Skipped
      else if halted s \<and> w_onfail t = [] then (if w_aggregate t \<noteq> [] then Folded else Skipped)
      else case evalWhen h t (m_byName s) of
             Inl er \<Rightarrow> WhenFailed er
           | Inr w \<Rightarrow>
               if \<not> w \<or> skipOnChanges (w_onchanges t) (m_byIdx s)
                  \<or> onfailUnmet (m_units s) (int (m_pc s)) t (m_byIdx s)
               then Skipped
               else Runs (defaultMessage s t))"

definition foldedEvent :: "machine \<Rightarrow> wire_task \<Rightarrow> task_event" where
  "foldedEvent s t =
     \<lparr>ev_idx = int (m_pc s), ev_status = TS_OK, ev_error = None,
      ev_register = Some (aggregateRegisterData (w_aggregate t) (m_byIdx s) (m_units s)),
      ev_notices = []\<rparr>"

definition whenErrorEvent :: "int \<Rightarrow> wire_task \<Rightarrow> string \<Rightarrow> task_event" where
  "whenErrorEvent i t er = flowControlErrorEvent i ''flowcontrol.when_error'' ''when'' t er"

definition gateMove :: "host \<Rightarrow> apply_request \<Rightarrow> wire_task \<Rightarrow> machine \<Rightarrow> machine" where
  "gateMove h q t s =
     (let i = int (m_pc s); s1 = collected h q t s
      in case gating h s1 t of
           Skipped \<Rightarrow> nextTask (report q t (skippedTaskEvent i) s1)
         | Folded \<Rightarrow> nextTask (report q t (foldedEvent s1 t) s1)
         | WhenFailed er \<Rightarrow>
             nextTask (noteRan i (whenErrorEvent i t er) (report q t (whenErrorEvent i t er) s1))
         | Runs t' \<Rightarrow>
             if isAsync q t then nextTask (launchFlow t' i (snd (barriers h (m_flows s) t)) s1)
             else s1\<lparr>m_mode := Exec t' (startEvent h (m_dead s1) (q_dryRun q) i t' (m_byName s1))\<rparr>)"

definition execMove :: "apply_request \<Rightarrow> wire_task \<Rightarrow> task_event \<Rightarrow> machine \<Rightarrow> machine" where
  "execMove q t ev s =
     (let ev' = finalEvent s (m_units s) t ev; s1 = report q t ev' s
      in if ev_status ev' = TS_CANCELLED then s1\<lparr>m_status := RS_CANCELLED, m_mode := Drain\<rparr>
         else nextTask (noteRan (int (m_pc s)) ev' s1))"

text \<open>The end of the message: the last units, the final barrier, the result.\<close>

definition drainMove :: "apply_request \<Rightarrow> machine \<Rightarrow> machine" where
  "drainMove q s =
     (let every = map fl_idx (m_flows s); cancelled = (m_status s = RS_CANCELLED);
          x2 = map_option (\<lambda>x. let x1 = (if cancelled then x else settle (m_flows s) (int (length (q_tasks q))) x)
                                 in x1\<lparr>su_rule := observe (m_flows s) every (su_rule x1)\<rparr>) (m_units s);
          st = (case x2 of
                  Some x \<Rightarrow> if cancelled \<or> anyCancelled (m_flows s) every then RS_CANCELLED
                             else if AnyHeld (su_rule x) then RS_FAILED else m_status s
                | None \<Rightarrow> if anyFailed (m_flows s) every \<and> m_status s = RS_SUCCESS then RS_FAILED
                          else m_status s)
      in s\<lparr>m_units := x2, m_status := st,
           m_mode := Ended \<lparr>rr_status = st, rr_attempt = q_attempt q, rr_passage = q_passage q\<rparr>\<rparr>)"

definition mainMove :: "host \<Rightarrow> apply_request \<Rightarrow> machine \<Rightarrow> machine option" where
  "mainMove h q s =
     (case m_mode s of
        Top \<Rightarrow>
          if m_pc s < length (q_tasks q) then
            if m_dead s then Some (s\<lparr>m_status := RS_CANCELLED, m_mode := Drain\<rparr>)
            else Some (s\<lparr>m_mode := Gate\<rparr>)
          else Some (s\<lparr>m_mode := Drain\<rparr>)
      | Gate \<Rightarrow>
          let t = q_tasks q ! m_pc s
          in if allDone (m_flows s) (awaited h q s t) then Some (gateMove h q t s) else None
      | Exec t ev \<Rightarrow> Some (execMove q t ev s)
      | Drain \<Rightarrow> if list_all isDone (m_flows s) then Some (drainMove q s) else None
      | Ended r \<Rightarrow> None)"

text \<open>A flow takes a slot once its barrier is met; a cancelled run queues for none.\<close>

definition isRunning :: "flow \<Rightarrow> bool" where
  "isRunning f = (case fl_stage f of Running _ \<Rightarrow> True | _ \<Rightarrow> False)"

fun isWaiting :: "stage \<Rightarrow> bool" where
  "isWaiting Waiting = True"
| "isWaiting _ = False"

lemma equal_Waiting [code_unfold]: "HOL.equal st Waiting \<longleftrightarrow> isWaiting st"
  by (cases st) (simp_all add: equal)

definition slotFree :: "nat \<Rightarrow> machine \<Rightarrow> bool" where
  "slotFree limit s \<longleftrightarrow> limit = 0 \<or> m_dead s \<or> length (filter isRunning (m_flows s)) < limit"

definition setStage :: "nat \<Rightarrow> stage \<Rightarrow> machine \<Rightarrow> machine" where
  "setStage k st s = s\<lparr>m_flows := (m_flows s)[k := (m_flows s ! k)\<lparr>fl_stage := st\<rparr>]\<rparr>"

definition startMove :: "host \<Rightarrow> nat \<Rightarrow> nat \<Rightarrow> machine \<Rightarrow> machine option" where
  "startMove h limit k s =
     (if k < length (m_flows s) \<and> fl_stage (m_flows s ! k) = Waiting
         \<and> allDone (m_flows s) (fl_wait (m_flows s ! k)) \<and> slotFree limit s
      then let f = m_flows s ! k
        in Some (setStage k (Running (startEvent h (m_dead s) False (fl_idx f) (fl_task f) (m_byName s))) s)
      else None)"

definition finishMove :: "apply_request \<Rightarrow> nat \<Rightarrow> machine \<Rightarrow> machine option" where
  "finishMove q k s =
     (if k < length (m_flows s) then
        (case fl_stage (m_flows s ! k) of
           Running ev \<Rightarrow>
             let t = fl_task (m_flows s ! k); ev' = finalEvent s None t ev
             in Some (setStage k (Done ev') (report q t ev' s))
         | _ \<Rightarrow> None)
      else None)"

datatype move = Main | Start nat | Finish nat | Cancel

definition ended :: "machine \<Rightarrow> bool" where
  "ended s = (case m_mode s of Ended _ \<Rightarrow> True | _ \<Rightarrow> False)"

fun act :: "host \<Rightarrow> nat \<Rightarrow> apply_request \<Rightarrow> move \<Rightarrow> machine \<Rightarrow> machine option" where
  "act h limit q Main s = mainMove h q s"
| "act h limit q (Start k) s = startMove h limit k s"
| "act h limit q (Finish k) s = finishMove q k s"
| "act h limit q Cancel s = (if m_dead s \<or> ended s then None else Some (s\<lparr>m_dead := True\<rparr>))"

text \<open>A schedule, as a list of moves; \<open>None\<close> when a move is not enabled.\<close>

fun perform :: "host \<Rightarrow> nat \<Rightarrow> apply_request \<Rightarrow> move list \<Rightarrow> machine \<Rightarrow> machine option" where
  "perform h limit q [] s = Some s"
| "perform h limit q (c # cs) s =
     (case act h limit q c s of None \<Rightarrow> None | Some s' \<Rightarrow> perform h limit q cs s')"

inductive reachable :: "host \<Rightarrow> nat \<Rightarrow> apply_request \<Rightarrow> machine \<Rightarrow> bool" for h limit q where
  start: "reachable h limit q (initial q)"
| step: "reachable h limit q s \<Longrightarrow> act h limit q c s = Some s' \<Longrightarrow> reachable h limit q s'"

lemma reachable_perform:
  "reachable h limit q s \<Longrightarrow> perform h limit q cs s = Some s' \<Longrightarrow> reachable h limit q s'"
  by (induction cs arbitrary: s) (auto split: option.splits intro: reachable.step)

end
