(* ===== verification/Soul_Order.thy ===== *)
theory Soul_Order
  imports Soul_Run "HOL-Library.Multiset"
begin

text \<open>
  What a run of a message does, whatever the schedule of its flows: \<open>runSoul\<close> is the run in which every
  launched flow ends before the main flow goes on, and every completed schedule without a Cancel
  sends the same events and the same result.

  It needs of the CEL engine that a predicate reads only the registers it names (\<open>evalLocal\<close>), which is
  what the barriers rely on, and of the plan what \<open>planOrdered\<close> says: a flow's register is its own, and
  its predicates name nothing a later task registers.
\<close>

named_theorems flow_simps \<open>facts on flows and barriers\<close>

section \<open>Predicates read the registers they name\<close>

definition evalLocal :: "host \<Rightarrow> bool" where
  "evalLocal h \<longleftrightarrow>
     (\<forall>e v w. cv_input v = cv_input w \<and> cv_vars v = cv_vars w \<and>
        cv_incarnation v = cv_incarnation w \<and> cv_self v = cv_self w \<and>
        (\<forall>n \<in> set (h_refs h e) \<union> {''self''}. cv_register v n = cv_register w n)
        \<longrightarrow> h_eval h e v = h_eval h e w)"

definition refsOf :: "host \<Rightarrow> string \<Rightarrow> string set" where
  "refsOf h e = (if e = [] then {} else set (h_refs h e))"

definition startRefs :: "host \<Rightarrow> wire_task \<Rightarrow> string set" where
  "startRefs h t = refsOf h (w_changedWhen t) \<union> refsOf h (w_failedWhen t) \<union> refsOf h (w_until t)"

definition agreeOn :: "string set \<Rightarrow> (string \<rightharpoonup> struct) \<Rightarrow> (string \<rightharpoonup> struct) \<Rightarrow> bool" where
  "agreeOn ns a b \<longleftrightarrow> (\<forall>n \<in> ns. a n = b n)"

lemma agreeOn_mono: "agreeOn ns a b \<Longrightarrow> ms \<subseteq> ns \<Longrightarrow> agreeOn ms a b"
  by (auto simp: agreeOn_def)

lemma evalWhen_local:
  assumes "evalLocal h" "a ''self'' = b ''self''" "agreeOn (refsOf h (w_when t)) a b"
  shows "evalWhen h t a = evalWhen h t b"
  using assms
  by (auto simp: evalWhen_def evalFlowPredicate_def flowControlVars_def evalLocal_def agreeOn_def refsOf_def)

lemma evalPredicate_local:
  assumes "evalLocal h" "e \<noteq> []" "agreeOn (refsOf h e) a b"
  shows "evalFlowPredicate h e t (mergeRegisterSelf a s) = evalFlowPredicate h e t (mergeRegisterSelf b s)"
  using assms
  by (auto simp: evalFlowPredicate_def flowControlVars_def evalLocal_def agreeOn_def refsOf_def mergeRegisterSelf_def)

lemma overrideBy_local:
  assumes "evalLocal h" "agreeOn (refsOf h e) a b"
  shows "overrideBy h t a e key x s = overrideBy h t b e key x s"
  using evalPredicate_local [OF assms(1) _ assms(2)] by (simp add: overrideBy_def)

lemma runTask_local:
  assumes "evalLocal h" "agreeOn (startRefs h t) a b"
  shows "runTask h i att t a = runTask h i att t b"
proof -
  have "overrideBy h t a (w_changedWhen t) key x s = overrideBy h t b (w_changedWhen t) key x s"
    and "overrideBy h t a (w_failedWhen t) key x s = overrideBy h t b (w_failedWhen t) key x s" for key x s
    by (rule overrideBy_local [OF assms(1)], rule agreeOn_mono [OF assms(2)], auto simp: startRefs_def)+
  then have "afterApply h i nts m t a out = afterApply h i nts m t b out" for nts m out
    by (auto simp: afterApply_def Let_def split: sum.split prod.split)
  then show ?thesis by (auto simp: runTask_def Let_def split: option.split prod.split)
qed

lemma retryLoop_local:
  assumes "evalLocal h" "agreeOn (startRefs h t) a b"
  shows "retryLoop h i t a att left = retryLoop h i t b att left"
proof (induction left arbitrary: att)
  have "w_until t \<noteq> [] \<Longrightarrow> evalUntil h t a s = evalUntil h t b s" for s
    unfolding evalUntil_def
    by (rule evalPredicate_local [OF assms(1)])
      (auto intro: agreeOn_mono [OF assms(2)] simp: startRefs_def)
  then have v: "attemptVerdict h i t a r = attemptVerdict h i t b r" for r
    by (simp add: attemptVerdict_def split: prod.split option.split)
  case 0
  then show ?case
    by (subst (1 2) retryLoop.simps) (simp add: v runTask_local [OF assms] split: option.split)
  case (Suc left)
  then show ?case
    by (subst (1 2) retryLoop.simps) (simp add: v runTask_local [OF assms] split: option.split)
qed

lemma runTaskWithRetry_local:
  assumes "evalLocal h" "agreeOn (startRefs h t) a b"
  shows "runTaskWithRetry h i t a d = runTaskWithRetry h i t b d"
  by (simp add: runTaskWithRetry_def runTask_local [OF assms] retryLoop_local [OF assms])

section \<open>Flows seen by their position and name\<close>

definition label :: "flow \<Rightarrow> int \<times> string" where
  "label f = (fl_idx f, fl_name f)"

lemma flowAt_label:
  assumes "map label fs = map label gs" shows "flowAt fs i = None \<longleftrightarrow> flowAt gs i = None"
proof -
  have "flowAt fs i = None \<longleftrightarrow> i \<notin> fst ` set (map label fs)" for fs
    by (auto simp: flowAt_def find_None_iff label_def image_iff)
  then show ?thesis by (simp only: assms)
qed

lemma named_label:
  assumes "map label fs = map label gs" shows "named fs n = named gs n"
proof -
  have "named fs n = map fst (filter (\<lambda>l. snd l \<noteq> [] \<and> snd l = n) (map label fs))" for fs
    by (simp add: named_def label_def filter_map comp_def)
  then show ?thesis by (simp only: assms)
qed

lemma barriers_label:
  assumes "map label fs = map label gs" shows "barriers h fs t = barriers h gs t"
proof -
  have idx: "addIdx fs is acc = addIdx gs is acc" for "is" acc
    by (simp add: addIdx_def flowAt_label [OF assms])
  have nms: "addNames h fs e acc = addNames h gs e acc" for e acc
    by (simp add: addNames_def named_label [OF assms] cong: map_cong)
  have "map fl_idx fs = map fst (map label fs)" for fs by (simp add: label_def)
  then have "map fl_idx fs = map fl_idx gs" by (simp only: assms)
  then have al: "addAll fs acc = addAll gs acc" for acc by (simp add: addAll_def)
  have "fs = [] \<longleftrightarrow> gs = []" using assms by (cases fs; cases gs) simp_all
  then show ?thesis
    unfolding barriers_def gateBarrier_def startBarrier_def idx nms al by simp
qed

text \<open>What is in a barrier.\<close>

lemma set_addFlows: "set (foldl addFlow acc xs) = set acc \<union> set xs"
  by (induction xs arbitrary: acc) (auto simp: addFlow_def)

lemma flowAt_Some: "f \<in> set fs \<Longrightarrow> flowAt fs (fl_idx f) \<noteq> None"
  by (auto simp: flowAt_def find_None_iff)

lemma set_addIdx: "set (addIdx fs is acc) = set acc \<union> {i \<in> set is. flowAt fs i \<noteq> None}"
  by (simp add: addIdx_def set_addFlows)

lemma set_addNames:
  "set (addNames h fs e acc) = set acc \<union> {fl_idx f | f. f \<in> set fs \<and> fl_name f \<noteq> [] \<and> fl_name f \<in> refsOf h e}"
  by (auto simp: addNames_def set_addFlows refsOf_def named_def)

lemma set_gateBarrier:
  "set (gateBarrier h fs t) =
     {i \<in> set (w_onchanges t) \<union> set (w_onfail t) \<union> set (w_aggregate t). flowAt fs i \<noteq> None}
     \<union> {fl_idx f | f. f \<in> set fs \<and> fl_name f \<noteq> [] \<and> fl_name f \<in> refsOf h (w_when t)}"
  by (simp add: gateBarrier_def set_addNames set_addIdx) blast

lemma in_gateBarrier:
  assumes "f \<in> set fs"
    and "fl_idx f \<in> set (w_onchanges t) \<union> set (w_onfail t) \<union> set (w_aggregate t)
      \<or> fl_name f \<noteq> [] \<and> fl_name f \<in> refsOf h (w_when t)"
  shows "fl_idx f \<in> set (fst (barriers h fs t))"
proof -
  have "fs \<noteq> []" using assms(1) by auto
  then show ?thesis using assms(2) flowAt_Some [OF assms(1)] assms(1)
    by (simp add: barriers_def set_gateBarrier) blast
qed

lemma in_startBarrier:
  assumes "f \<in> set fs" and "fl_name f \<noteq> []" and "fl_name f \<in> startRefs h t"
  shows "fl_idx f \<in> set (snd (barriers h fs t))"
proof -
  have "fs \<noteq> []" using assms(1) by auto
  then show ?thesis using assms
    by (simp add: barriers_def startBarrier_def set_addNames startRefs_def) blast
qed

lemma barriers_sub: "set (fst (barriers h fs t)) \<union> set (snd (barriers h fs t)) \<subseteq> fl_idx ` set fs"
proof -
  have "flowAt fs i \<noteq> None \<Longrightarrow> i \<in> fl_idx ` set fs" for i
    by (auto simp: flowAt_def find_None_iff)
  then have idx: "set acc \<subseteq> fl_idx ` set fs \<Longrightarrow> set (addIdx fs is acc) \<subseteq> fl_idx ` set fs" for "is" acc
    by (auto simp: addIdx_def set_addFlows)
  have nms: "set acc \<subseteq> fl_idx ` set fs \<Longrightarrow> set (addNames h fs e acc) \<subseteq> fl_idx ` set fs" for e acc
    by (auto simp: addNames_def set_addFlows named_def)
  have al: "set acc \<subseteq> fl_idx ` set fs \<Longrightarrow> set (addAll fs acc) \<subseteq> fl_idx ` set fs" for acc
    by (auto simp: addAll_def set_addFlows)
  show ?thesis
    by (simp add: barriers_def gateBarrier_def startBarrier_def idx nms al)
qed

lemma allDone_flow:
  assumes "allDone fs is" "distinct (map fl_idx fs)" "f \<in> set fs" "fl_idx f \<in> set is"
  shows "isDone f"
proof -
  obtain g where g: "flowAt fs (fl_idx f) = Some g" using flowAt_Some [OF assms(3)] by blast
  then have "g \<in> set fs" "fl_idx g = fl_idx f"
    by (auto simp: flowAt_def find_Some_iff in_set_conv_nth)
  then have "g = f" using assms(2,3) by (auto simp: distinct_map dest: inj_onD)
  with g assms(1,4) show ?thesis by (fastforce simp: allDone_def list_all_iff)
qed

section \<open>What the main flow learns at a barrier\<close>

definition sameEvents :: "int list \<Rightarrow> flow list \<Rightarrow> flow list \<Rightarrow> bool" where
  "sameEvents is fs gs \<longleftrightarrow> (\<forall>i \<in> set is. flowEvent fs i = flowEvent gs i)"

lemma sameEvents_append [simp]:
  "sameEvents (a @ b) fs gs \<longleftrightarrow> sameEvents a fs gs \<and> sameEvents b fs gs"
  by (auto simp: sameEvents_def)

lemma anyFailed_same: "sameEvents is fs gs \<Longrightarrow> anyFailed fs is = anyFailed gs is"
  by (auto simp: anyFailed_def list_ex_iff flowFailed_def sameEvents_def)

lemma anyCancelled_same: "sameEvents is fs gs \<Longrightarrow> anyCancelled fs is = anyCancelled gs is"
  by (auto simp: anyCancelled_def list_ex_iff flowCancelled_def sameEvents_def)

lemma observe_same: "sameEvents is fs gs \<Longrightarrow> observe fs is r = observe gs is r"
  unfolding observe_def by (rule fold_cong) (auto simp: observeOne_def sameEvents_def)

lemma settleUnits_same:
  "sameEvents (concat (map s_flows (takeWhile (\<lambda>u. s_last u < pos) us))) fs gs
   \<Longrightarrow> settleUnits fs pos r us = settleUnits gs pos r us"
  by (induction us arbitrary: r) (auto simp: observe_same anyCancelled_same)

lemma settle_same: "sameEvents (settleWaits pos x) fs gs \<Longrightarrow> settle fs pos x = settle gs pos x"
  by (simp add: settle_def settleWaits_def settleUnits_same)

section \<open>The run in plan order\<close>

text \<open>A launched flow that ends at once.\<close>

definition instantFlow :: "host \<Rightarrow> apply_request \<Rightarrow> machine \<Rightarrow> machine" where
  "instantFlow h q s =
     (let k = length (m_flows s) - 1; f = m_flows s ! k;
          ev = finalEvent s None (fl_task f)
            (startEvent h (m_dead s) False (fl_idx f) (fl_task f) (m_byName s))
      in setStage k (Done ev) (report q (fl_task f) ev s))"

definition planStep :: "host \<Rightarrow> apply_request \<Rightarrow> machine \<Rightarrow> machine" where
  "planStep h q s =
     (let s1 = gateMove h q (q_tasks q ! m_pc s) s
      in case m_mode s1 of
           Exec t ev \<Rightarrow> execMove q t ev s1
         | _ \<Rightarrow> if length (m_flows s) < length (m_flows s1) then instantFlow h q s1 else s1)"

fun planned :: "host \<Rightarrow> apply_request \<Rightarrow> nat \<Rightarrow> machine" where
  "planned h q 0 = initial q"
| "planned h q (Suc n) = planStep h q (planned h q n)"

definition runSoul :: "host \<Rightarrow> apply_request \<Rightarrow> machine" where
  "runSoul h q = drainMove q (planned h q (length (q_tasks q)))"

text \<open>What the plan owes its flows.\<close>

definition taskOrdered :: "host \<Rightarrow> wire_task list \<Rightarrow> nat \<Rightarrow> bool" where
  "taskOrdered h ts i =
     (let t = ts ! i
      in w_aggregate t = [] \<and> w_register t \<noteq> ''self''
         \<and> list_all (\<lambda>j. j = i \<or> w_register (ts ! j) \<noteq> w_register t \<or> w_register t = []) [0..<length ts]
         \<and> list_all (\<lambda>j. w_register (ts ! j) = [] \<or> w_register (ts ! j) \<notin> startRefs h t) [i..<length ts])"

definition planOrdered :: "host \<Rightarrow> wire_task list \<Rightarrow> bool" where
  "planOrdered h ts = list_all (\<lambda>i. w_async (ts ! i) \<longrightarrow> taskOrdered h ts i) [0..<length ts]"

lemma planOrderedD:
  assumes "planOrdered h ts" "i < length ts" "w_async (ts ! i)"
  shows "w_aggregate (ts ! i) = []" "w_register (ts ! i) \<noteq> ''self''"
    and "j < length ts \<Longrightarrow> w_register (ts ! j) = w_register (ts ! i) \<Longrightarrow> w_register (ts ! i) \<noteq> [] \<Longrightarrow> j = i"
    and "i \<le> j \<Longrightarrow> j < length ts \<Longrightarrow> w_register (ts ! j) \<noteq> [] \<Longrightarrow> w_register (ts ! j) \<notin> startRefs h (ts ! i)"
proof -
  have "taskOrdered h ts i" using assms by (simp add: planOrdered_def list_all_iff)
  note t = this [unfolded taskOrdered_def Let_def list_all_iff]
  from t show "w_aggregate (ts ! i) = []" "w_register (ts ! i) \<noteq> ''self''" by auto
  from t show "j < length ts \<Longrightarrow> w_register (ts ! j) = w_register (ts ! i) \<Longrightarrow> w_register (ts ! i) \<noteq> [] \<Longrightarrow> j = i"
    by auto
  from t show "i \<le> j \<Longrightarrow> j < length ts \<Longrightarrow> w_register (ts ! j) \<noteq> [] \<Longrightarrow> w_register (ts ! j) \<notin> startRefs h (ts ! i)"
    by auto
qed

section \<open>Agreement of a schedule with the run in plan order\<close>

definition flowMatches :: "flow \<Rightarrow> flow \<Rightarrow> bool" where
  "flowMatches f g \<longleftrightarrow>
     label f = label g \<and> fl_task f = fl_task g \<and> fl_wait f = fl_wait g \<and>
     (\<exists>ev. fl_stage g = Done ev \<and> (fl_stage f = Waiting \<or> fl_stage f = Running ev \<or> fl_stage f = Done ev))"

definition openIdx :: "machine \<Rightarrow> int set" where
  "openIdx s = {fl_idx f | f. f \<in> set (m_flows s) \<and> \<not> isDone f}"

definition openNames :: "machine \<Rightarrow> string set" where
  "openNames s = {fl_name f | f. f \<in> set (m_flows s) \<and> \<not> isDone f \<and> fl_name f \<noteq> []}"

definition sentOf :: "apply_request \<Rightarrow> flow \<Rightarrow> sent_event" where
  "sentOf q f =
     \<lparr>se_plan = w_planIndex (fl_task f), se_passage = q_passage q,
      se_event = (case fl_stage f of Done ev \<Rightarrow> ev | _ \<Rightarrow> blankEvent (fl_idx f))\<rparr>"

definition doneSent :: "apply_request \<Rightarrow> machine \<Rightarrow> sent_event multiset" where
  "doneSent q s = mset (map (sentOf q) (filter isDone (m_flows s)))"

definition agrees :: "apply_request \<Rightarrow> machine \<Rightarrow> machine \<Rightarrow> bool" where
  "agrees q s c \<longleftrightarrow>
     m_pc s = m_pc c \<and> m_units s = m_units c \<and> m_status s = m_status c \<and> m_failed s = m_failed c \<and>
     \<not> m_dead s \<and> \<not> m_dead c \<and>
     list_all2 flowMatches (m_flows s) (m_flows c) \<and>
     (\<forall>i. i \<notin> openIdx s \<longrightarrow> m_byIdx s i = m_byIdx c i) \<and>
     (\<forall>n. n \<notin> openNames s \<longrightarrow> m_byName s n = m_byName c n) \<and>
     (\<exists>M. mset (m_sent s) = M + doneSent q s \<and> mset (m_sent c) = M + doneSent q c)"

lemma agrees_labels: "agrees q s c \<Longrightarrow> map label (m_flows s) = map label (m_flows c)"
  by (auto simp: agrees_def list_all2_conv_all_nth flowMatches_def intro!: nth_equalityI)

text \<open>What is known of the flows of the run in plan order.\<close>

definition recordedAs :: "machine \<Rightarrow> flow \<Rightarrow> task_event \<Rightarrow> bool" where
  "recordedAs c f ev \<longleftrightarrow>
     m_byIdx c (fl_idx f) = ev_register ev \<and>
     (fl_name f \<noteq> [] \<longrightarrow>
        m_byName c (fl_name f) = Some (case ev_register ev of None \<Rightarrow> Map.empty | Some m \<Rightarrow> m))"

definition flowKnown :: "host \<Rightarrow> apply_request \<Rightarrow> machine \<Rightarrow> flow \<Rightarrow> bool" where
  "flowKnown h q c f \<longleftrightarrow>
     (\<exists>i ps. fl_idx f = int i \<and> i < m_pc c \<and> i < length (q_tasks q) \<and> w_async (q_tasks q ! i) \<and>
        fl_task f = (q_tasks q ! i)\<lparr>w_params := ps\<rparr> \<and> fl_name f = w_register (q_tasks q ! i) \<and>
        (\<exists>ev. fl_stage f = Done ev \<and>
          (\<forall>regs. agreeOn (startRefs h (fl_task f)) regs (m_byName c)
             \<longrightarrow> runTaskWithRetry h (fl_idx f) (fl_task f) regs False = ev) \<and>
          recordedAs c f ev) \<and>
        (\<forall>g \<in> set (m_flows c). fl_idx g < fl_idx f \<and> fl_name g \<noteq> [] \<and> fl_name g \<in> startRefs h (fl_task f)
          \<longrightarrow> fl_idx g \<in> set (fl_wait f)))"

definition plannedInv :: "host \<Rightarrow> apply_request \<Rightarrow> machine \<Rightarrow> bool" where
  "plannedInv h q c \<longleftrightarrow>
     sorted_wrt (<) (map fl_idx (m_flows c)) \<and> (\<forall>f \<in> set (m_flows c). flowKnown h q c f) \<and> \<not> m_dead c"

lemma agrees_distinct:
  assumes "plannedInv h q c0" "m_flows c = m_flows c0" "agrees q s c"
  shows "distinct (map fl_idx (m_flows s))"
proof -
  have "map fl_idx (m_flows s) = map fl_idx (m_flows c)"
    using agrees_labels [OF assms(3)] by (auto simp: label_def list_eq_iff_nth_eq)
  with assms(1,2) show ?thesis by (auto simp: plannedInv_def strict_sorted_iff)
qed

lemmas plannedInv_distinct = agrees_distinct [OF _ refl]

text \<open>An awaited flow is closed, so its event and its register are known.\<close>

lemma flowEvent_match:
  assumes "list_all2 flowMatches fs gs" "case flowAt fs i of None \<Rightarrow> True | Some f \<Rightarrow> isDone f"
  shows "flowEvent fs i = flowEvent gs i"
  using assms
proof (induction fs gs rule: list_all2_induct)
  case (Cons f fs g gs)
  then show ?case
    by (cases "fl_idx f = i") (auto simp: flowEvent_def flowAt_def flowMatches_def label_def isDone_def)
qed simp

lemma awaited_closed:
  assumes "plannedInv h q c" "agrees q s c" "allDone (m_flows s) ws"
  shows "sameEvents ws (m_flows s) (m_flows c)" and "set ws \<inter> openIdx s = {}"
proof -
  have match: "list_all2 flowMatches (m_flows s) (m_flows c)" using assms(2) by (simp add: agrees_def)
  show "set ws \<inter> openIdx s = {}"
    using allDone_flow [OF assms(3) plannedInv_distinct [OF assms(1,2)]] by (auto simp: openIdx_def)
  show "sameEvents ws (m_flows s) (m_flows c)"
    using assms(3) flowEvent_match [OF match] by (auto simp: sameEvents_def allDone_def list_all_iff)
qed

lemma reads_closed:
  assumes "plannedInv h q c" "agrees q s c" "allDone (m_flows s) (awaited h q s t)"
  shows "i \<in> set (w_onchanges t) \<union> set (w_onfail t) \<union> set (w_aggregate t) \<Longrightarrow> i \<notin> openIdx s"
    and "n \<in> refsOf h (w_when t) \<Longrightarrow> n \<notin> openNames s"
    and "\<not> isAsync q t \<Longrightarrow> n \<in> startRefs h t \<Longrightarrow> n \<notin> openNames s"
proof -
  have closed: "isDone f" if "f \<in> set (m_flows s)" "fl_idx f \<in> set (awaited h q s t)" for f
    using allDone_flow [OF assms(3) plannedInv_distinct [OF assms(1,2)] that] .
  have gate: "isDone f" if "f \<in> set (m_flows s)"
      "fl_idx f \<in> set (w_onchanges t) \<union> set (w_onfail t) \<union> set (w_aggregate t)
        \<or> fl_name f \<noteq> [] \<and> fl_name f \<in> refsOf h (w_when t)" for f
    using closed [OF that(1)] in_gateBarrier [OF that] by (simp add: awaited_def seenAt_def case_prod_beta)
  then show "i \<in> set (w_onchanges t) \<union> set (w_onfail t) \<union> set (w_aggregate t) \<Longrightarrow> i \<notin> openIdx s"
    and "n \<in> refsOf h (w_when t) \<Longrightarrow> n \<notin> openNames s"
    unfolding openIdx_def openNames_def by blast+
  have "isDone f" if "f \<in> set (m_flows s)" "\<not> isAsync q t" "fl_name f \<noteq> []" "fl_name f \<in> startRefs h t" for f
    using closed [OF that(1)] in_startBarrier [OF that(1,3,4)] that(2)
    by (simp add: awaited_def seenAt_def case_prod_beta)
  then show "\<not> isAsync q t \<Longrightarrow> n \<in> startRefs h t \<Longrightarrow> n \<notin> openNames s"
    unfolding openNames_def by blast
qed

section \<open>Agreement is kept\<close>

text \<open>The part of a machine that the flows share, as against what only the main flow reads.\<close>

definition sameFrame :: "machine \<Rightarrow> machine \<Rightarrow> bool" where
  "sameFrame s s' \<longleftrightarrow>
     m_byIdx s' = m_byIdx s \<and> m_byName s' = m_byName s \<and> m_flows s' = m_flows s \<and>
     m_dead s' = m_dead s \<and> m_sent s' = m_sent s"

lemma open_cong:
  assumes "m_flows s' = m_flows s"
  shows "openIdx s' = openIdx s" "openNames s' = openNames s" "doneSent q s' = doneSent q s"
  by (simp_all add: openIdx_def openNames_def doneSent_def assms)

lemma agrees_control:
  assumes "agrees q s c" "sameFrame s s'" "sameFrame c c'"
    and "m_pc s' = m_pc c'" "m_units s' = m_units c'" "m_status s' = m_status c'" "m_failed s' = m_failed c'"
  shows "agrees q s' c'"
proof -
  note os = open_cong [of s' s] open_cong [of c' c]
  show ?thesis using assms by (simp add: agrees_def sameFrame_def os)
qed

lemma sameFrame_simps [simp]:
  "sameFrame s (nextTask s)" "sameFrame s (noteRan i ev s)" "sameFrame s (collected h q t s)"
  "sameFrame s (s\<lparr>m_mode := md\<rparr>)" "sameFrame s s"
  by (auto simp: sameFrame_def nextTask_def noteRan_def collected_def Let_def split: option.split)

lemma pc_simps [simp]:
  "m_pc (noteRan i ev s) = m_pc s" "m_pc (collected h q t s) = m_pc s" "m_pc (report q t ev s) = m_pc s"
  "m_pc (launchFlow t i wt s) = m_pc s"
  by (auto simp: noteRan_def collected_def report_def launchFlow_def Let_def split: option.split)

lemma agreesD:
  assumes "agrees q s c"
  shows "m_pc s = m_pc c" "m_units s = m_units c" "m_status s = m_status c" "m_failed s = m_failed c"
    "\<not> m_dead s" "\<not> m_dead c"
  using assms by (auto simp: agrees_def)

lemma agrees_next:
  assumes "agrees q s c" shows "agrees q (nextTask s) (nextTask c)"
  by (rule agrees_control [OF assms]) (simp_all add: nextTask_def sameFrame_def agreesD [OF assms])

lemma agrees_noteRan:
  assumes "agrees q s c" shows "agrees q (noteRan i ev s) (noteRan i ev c)"
  by (rule agrees_control [OF assms]) (auto simp: noteRan_def sameFrame_def agreesD [OF assms] split: option.split)

lemma agrees_report:
  assumes "agrees q s c" shows "agrees q (report q t ev s) (report q t ev c)"
proof -
  obtain M where M: "mset (m_sent s) = M + doneSent q s" "mset (m_sent c) = M + doneSent q c"
    using assms by (auto simp: agrees_def)
  have os: "openIdx (report q t ev s) = openIdx s" "openNames (report q t ev s) = openNames s"
    "doneSent q (report q t ev s) = doneSent q s" "doneSent q (report q t ev c) = doneSent q c"
    by (rule open_cong, simp add: report_def)+
  show ?thesis
    unfolding agrees_def os using assms M
    by (auto simp: agrees_def report_def intro!: exI [of _ "M + {#_#}"])
qed

lemma agrees_collected:
  assumes "plannedInv h q c" "agrees q s c" "allDone (m_flows s) (awaited h q s t)"
  shows "agrees q (collected h q t s) (collected h q t c)"
proof -
  note eqs = agreesD [OF assms(2)]
  have seen: "seenAt h q (m_flows s) t = seenAt h q (m_flows c) t"
    by (simp add: seenAt_def barriers_label [OF agrees_labels [OF assms(2)]])
  have same: "sameEvents (seenAt h q (m_flows c) t) (m_flows s) (m_flows c)"
    using awaited_closed(1) [OF assms] by (simp add: awaited_def seen)
  have "m_units (collected h q t s) = m_units (collected h q t c) \<and>
      m_status (collected h q t s) = m_status (collected h q t c) \<and>
      m_failed (collected h q t s) = m_failed (collected h q t c)"
  proof (cases "m_units c")
    case None
    then show ?thesis by (simp add: collected_def eqs seen anyFailed_same [OF same])
  next
    case (Some x)
    have "settle (m_flows s) (int (m_pc c)) x = settle (m_flows c) (int (m_pc c)) x"
      using awaited_closed(1) [OF assms] eqs Some by (intro settle_same) (simp add: awaited_def)
    then show ?thesis by (simp add: collected_def Let_def eqs seen Some observe_same [OF same])
  qed
  then show ?thesis by (intro agrees_control [OF assms(2)]) (simp_all add: eqs)
qed

section \<open>The gating of a schedule is that of the plan\<close>

lemma gating_task:
  assumes "gating h s t = Runs t'" shows "\<exists>ps. t' = t\<lparr>w_params := ps\<rparr>"
proof -
  have "\<exists>ps. defaultMessage s t = t\<lparr>w_params := ps\<rparr>"
    by (auto simp: defaultMessage_def withDefaultMessage_def Let_def split: option.split
        intro: exI [of _ "w_params t"])
  moreover have "t' = defaultMessage s t"
    using assms by (auto simp: gating_def split: if_splits sum.splits)
  ultimately show ?thesis by simp
qed

lemma agrees_reads:
  assumes "agrees q s c" "\<forall>i \<in> set is. i \<notin> openIdx s"
  shows "list_ex (\<lambda>i. P i \<and> boolField (m_byIdx s i) k) is = list_ex (\<lambda>i. P i \<and> boolField (m_byIdx c i) k) is"
  using assms by (auto simp: agrees_def list_ex_iff)

lemma aggregate_agrees:
  assumes "agrees q s c" "\<forall>i \<in> set is. i \<notin> openIdx s"
  shows "aggregateRegisterData is (m_byIdx s) ux = aggregateRegisterData is (m_byIdx c) ux"
  using agrees_reads [OF assms, of "\<lambda>_. True"] agrees_reads [OF assms, of "failureCounts ux"]
  by (simp add: aggregateRegisterData_def)

lemma gating_agrees:
  assumes "agrees q s c" "evalLocal h" "''self'' \<notin> openNames s"
    and "\<forall>i \<in> set (w_onchanges t) \<union> set (w_onfail t) \<union> set (w_aggregate t). i \<notin> openIdx s"
    and "\<forall>n \<in> refsOf h (w_when t). n \<notin> openNames s"
  shows "gating h s t = gating h c t"
proof -
  note eqs = agreesD [OF assms(1)]
  have names: "m_byName s n = m_byName c n" if "n \<notin> openNames s" for n
    using assms(1) that by (auto simp: agrees_def)
  have w: "evalWhen h t (m_byName s) = evalWhen h t (m_byName c)"
    using assms(2,3,5) names by (intro evalWhen_local) (auto simp: agreeOn_def)
  have oc: "skipOnChanges (w_onchanges t) (m_byIdx s) = skipOnChanges (w_onchanges t) (m_byIdx c)"
    using agrees_reads [OF assms(1), of "w_onchanges t" "\<lambda>_. True"] assms(4) by (simp add: skipOnChanges_def)
  have "skipOnFail (w_onfail t) (m_byIdx s) = skipOnFail (w_onfail t) (m_byIdx c)"
    using agrees_reads [OF assms(1), of "w_onfail t" "\<lambda>_. True"] assms(4) by (simp add: skipOnFail_def)
  then have uf: "onfailUnmet ux i t (m_byIdx s) = onfailUnmet ux i t (m_byIdx c)" for ux i
    by (simp add: onfailUnmet_def split: option.split)
  show ?thesis
    unfolding gating_def unitSkips_def halted_def defaultMessage_def eqs w oc uf by (rule refl)
qed

lemma startRefs_params [simp]: "startRefs h (t\<lparr>w_params := ps\<rparr>) = startRefs h t"
  by (simp add: startRefs_def)

lemma self_not_open:
  assumes "plannedInv h q c" "agrees q s c" "planOrdered h (q_tasks q)"
  shows "''self'' \<notin> openNames s"
proof -
  have "fl_name f \<noteq> ''self''" if "f \<in> set (m_flows c)" for f
    using assms(1) that planOrderedD(2) [OF assms(3)] by (auto simp: plannedInv_def flowKnown_def)
  moreover have "\<exists>g \<in> set (m_flows c). label g = label f" if "f \<in> set (m_flows s)" for f
    using that agrees_labels [OF assms(2)] by (metis (no_types, lifting) image_iff list.set_map)
  ultimately show ?thesis by (fastforce simp: openNames_def label_def)
qed

text \<open>A launched flow, open in the schedule and closed in the plan.\<close>

lemma agrees_launch:
  assumes "agrees q s c" "w_aggregate t = []"
  shows "agrees q (nextTask (launchFlow t i wt s)) (instantFlow h q (nextTask (launchFlow t i wt c)))"
    (is "agrees q ?s ?c")
proof -
  define ev where "ev = runTaskWithRetry h i t (m_byName c) False"
  define f where "f = \<lparr>fl_idx = i, fl_name = w_register t, fl_task = t, fl_wait = wt, fl_stage = Waiting\<rparr>"
  have lf: "fl_idx f = i" "fl_name f = w_register t" by (simp_all add: f_def)
  have idx: "ev_idx ev = i" using settled_runTaskWithRetry by (auto simp: ev_def settledAs_def)
  have dead: "\<not> m_dead c" using agreesD [OF assms(1)] by simp
  have fs: "m_flows ?s = m_flows s @ [f]" by (simp add: nextTask_def launchFlow_def f_def)
  have ic: "?c = setStage (length (m_flows c)) (Done ev) (report q t ev (nextTask (launchFlow t i wt c)))"
    using dead assms(2)
    by (simp add: instantFlow_def Let_def nextTask_def launchFlow_def startEvent_def finalEvent_def ev_def)
  have fc: "m_flows ?c = m_flows c @ [f\<lparr>fl_stage := Done ev\<rparr>]"
    unfolding ic by (simp add: setStage_def report_def nextTask_def launchFlow_def f_def)
  have "\<not> isDone f" "isDone (f\<lparr>fl_stage := Done ev\<rparr>)" by (simp_all add: f_def isDone_def)
  then have ds: "doneSent q ?s = doneSent q s"
    and dc: "doneSent q ?c = doneSent q c + {#sentOf q (f\<lparr>fl_stage := Done ev\<rparr>)#}"
    by (simp_all add: doneSent_def fs fc)
  have oi: "openIdx ?s = insert i (openIdx s)"
    and on: "openNames ?s = openNames s \<union> (if w_register t = [] then {} else {w_register t})"
    using \<open>\<not> isDone f\<close> lf by (auto simp: openIdx_def openNames_def fs intro: exI [of _ f])
  obtain M where M: "mset (m_sent s) = M + doneSent q s" "mset (m_sent c) = M + doneSent q c"
    using assms(1) by (auto simp: agrees_def)
  have "mset (m_sent ?s) = M + doneSent q ?s"
    using M ds by (simp add: nextTask_def launchFlow_def)
  moreover have "mset (m_sent ?c) = M + doneSent q ?c"
    unfolding dc unfolding ic
    using M by (simp add: setStage_def report_def nextTask_def launchFlow_def sentOf_def f_def)
  moreover have "list_all2 flowMatches (m_flows ?s) (m_flows ?c)"
    using assms(1) by (simp add: fs fc agrees_def list_all2_appendI flowMatches_def f_def label_def)
  moreover have "m_byIdx ?s j = m_byIdx ?c j" if "j \<notin> openIdx ?s" for j
    using assms(1) that unfolding oi ic
    by (auto simp: agrees_def idx setStage_def report_def nextTask_def launchFlow_def)
  moreover have "m_byName ?s n = m_byName ?c n" if "n \<notin> openNames ?s" for n
    using assms(1) that unfolding on ic
    by (auto simp: agrees_def setStage_def report_def nextTask_def launchFlow_def split: if_splits)
  moreover have "m_pc ?s = m_pc ?c \<and> m_units ?s = m_units ?c \<and> m_status ?s = m_status ?c \<and>
      m_failed ?s = m_failed ?c \<and> \<not> m_dead ?s \<and> \<not> m_dead ?c"
    unfolding ic
    using agreesD [OF assms(1)] by (simp add: setStage_def report_def nextTask_def launchFlow_def)
  ultimately show ?thesis unfolding agrees_def by blast
qed

text \<open>The move of the main flow at a task, beside the step of the plan.\<close>

lemma isAsync_params: "isAsync q (t\<lparr>w_params := ps\<rparr>) = isAsync q t"
  by (simp add: isAsync_def)

lemma gateMove_agrees:
  assumes inv: "plannedInv h q c" and agr: "agrees q s c" and wait: "allDone (m_flows s) (awaited h q s t)"
    and t: "t = q_tasks q ! m_pc s" "m_pc s < length (q_tasks q)"
    and h: "evalLocal h" "planOrdered h (q_tasks q)"
  shows "(\<exists>t' ev ps. t' = t\<lparr>w_params := ps\<rparr> \<and> m_mode (gateMove h q t s) = Exec t' ev \<and>
            m_mode (gateMove h q t c) = Exec t' ev \<and> agrees q (gateMove h q t s) (gateMove h q t c) \<and>
            settledAs (int (m_pc s)) ev \<and> m_pc (gateMove h q t s) = m_pc s \<and>
            (\<forall>i \<in> set (w_aggregate t'). i \<notin> openIdx (gateMove h q t s)))
       \<or> m_mode (gateMove h q t s) = Top \<and> agrees q (gateMove h q t s) (planStep h q c)"
proof -
  let ?s = "collected h q t s" and ?c = "collected h q t c"
  have agr1: "agrees q ?s ?c" by (rule agrees_collected [OF inv agr wait])
  have fl: "m_flows ?s = m_flows s" "m_flows ?c = m_flows c"
    using sameFrame_simps(3) by (auto simp: sameFrame_def)
  have op: "openIdx ?s = openIdx s" "openNames ?s = openNames s" by (rule open_cong, rule fl(1))+
  note closed = reads_closed [OF inv agr wait]
  have g: "gating h ?s t = gating h ?c t"
    using closed(1,2) self_not_open [OF inv agr h(2)] by (intro gating_agrees [OF agr1 h(1)]) (auto simp: op)
  have pc: "m_pc c = m_pc s" and tc: "q_tasks q ! m_pc c = t" using agreesD [OF agr] t by auto
  have bar: "barriers h (m_flows s) t = barriers h (m_flows c) t"
    by (rule barriers_label [OF agrees_labels [OF agr]])
  note gm = gateMove_def [of h q t s] gateMove_def [of h q t c]
  show ?thesis
  proof (cases "gating h ?c t")
    case Skipped
    then show ?thesis
      using agrees_next [OF agrees_report [OF agr1]] g pc tc fl
      by (simp add: planStep_def gm Let_def) (simp add: nextTask_def report_def)
  next
    case Folded
    have "foldedEvent ?s t = foldedEvent ?c t"
      using aggregate_agrees [OF agr1, of "w_aggregate t"] closed(1) agreesD [OF agr1]
      by (simp add: foldedEvent_def op)
    then show ?thesis
      using agrees_next [OF agrees_report [OF agr1]] g pc tc fl Folded
      by (simp add: planStep_def gm Let_def) (simp add: nextTask_def report_def)
  next
    case (WhenFailed er)
    have "m_flows (noteRan i ev x) = m_flows x" for i ev x
      using sameFrame_simps(2) by (auto simp: sameFrame_def)
    then show ?thesis
      using agrees_next [OF agrees_noteRan [OF agrees_report [OF agr1]]] g pc tc fl WhenFailed
      by (simp add: planStep_def gm Let_def) (simp add: nextTask_def report_def)
  next
    case (Runs t')
    then obtain ps where t': "t' = t\<lparr>w_params := ps\<rparr>" using gating_task by blast
    show ?thesis
    proof (cases "isAsync q t")
      case True
      then have "w_aggregate t' = []" using planOrderedD(1) [OF h(2)] t t' by (auto simp: isAsync_def)
      note al = agrees_launch [OF agr1 this, of "int (m_pc s)" "snd (barriers h (m_flows c) t)" h]
      show ?thesis
        using al g pc tc fl Runs True bar
        by (simp add: planStep_def gm Let_def) (simp add: nextTask_def launchFlow_def)
    next
      case False
      have "agreeOn (startRefs h t') (m_byName ?s) (m_byName ?c)"
        using closed(3) [OF False] agr1 by (auto simp: t' agreeOn_def agrees_def op)
      then have ev: "startEvent h (m_dead ?s) (q_dryRun q) i t' (m_byName ?s)
          = startEvent h (m_dead ?c) (q_dryRun q) i t' (m_byName ?c)" for i
        using agreesD [OF agr1] by (simp add: startEvent_def runTaskWithRetry_local [OF h(1)])
      let ?ev = "startEvent h (m_dead ?c) (q_dryRun q) (int (m_pc s)) t' (m_byName ?c)"
      have st: "settledAs (int (m_pc s)) ?ev"
        using agreesD [OF agr1] by (simp add: startEvent_def settled_runTaskWithRetry)
      have "agrees q (?s\<lparr>m_mode := Exec t' ?ev\<rparr>) (?c\<lparr>m_mode := Exec t' ?ev\<rparr>)"
        by (rule agrees_control [OF agr1]) (simp_all add: agreesD [OF agr1] pc)
      moreover have "openIdx (?s\<lparr>m_mode := md\<rparr>) = openIdx ?s" for md by (rule open_cong) simp
      then have "i \<notin> openIdx (?s\<lparr>m_mode := md\<rparr>)" if "i \<in> set (w_aggregate t')" for i md
        using closed(1) that by (simp add: t' op)
      ultimately show ?thesis
        using g pc fl Runs False st ev
        by (intro disjI1 exI [of _ t'] exI [of _ ?ev] exI [of _ ps]) (simp add: gm Let_def t')
    qed
  qed
qed

section \<open>The run in plan order keeps what is known of its flows\<close>

text \<open>What a task adds: its register under its own name, and at most one flow, at its position.\<close>

lemma report_byName:
  "n \<noteq> w_register t \<or> n = [] \<Longrightarrow> m_byName (report q t ev s) n = m_byName s n"
  by (auto simp: report_def)

definition stepsTo :: "machine \<Rightarrow> wire_task \<Rightarrow> machine \<Rightarrow> bool" where
  "stepsTo c t c' \<longleftrightarrow>
     m_pc c' = Suc (m_pc c) \<and> \<not> m_dead c' \<and>
     (\<forall>n. n \<noteq> w_register t \<or> n = [] \<longrightarrow> m_byName c' n = m_byName c n) \<and>
     (\<forall>i. i \<noteq> int (m_pc c) \<longrightarrow> m_byIdx c' i = m_byIdx c i)"

lemma flowKnown_mono:
  assumes "flowKnown h q c f" "stepsTo c (q_tasks q ! m_pc c) c'" "m_pc c < length (q_tasks q)"
    and "planOrdered h (q_tasks q)"
    and "\<forall>g \<in> set (m_flows c'). g \<in> set (m_flows c) \<or> fl_idx g = int (m_pc c)"
  shows "flowKnown h q c' f"
proof -
  obtain i ps ev where f: "fl_idx f = int i" "i < m_pc c" "i < length (q_tasks q)" "w_async (q_tasks q ! i)"
      "fl_task f = (q_tasks q ! i)\<lparr>w_params := ps\<rparr>" "fl_name f = w_register (q_tasks q ! i)"
      "fl_stage f = Done ev"
    and run: "\<forall>regs. agreeOn (startRefs h (fl_task f)) regs (m_byName c)
      \<longrightarrow> runTaskWithRetry h (fl_idx f) (fl_task f) regs False = ev"
    and rec: "recordedAs c f ev"
    and wt: "\<forall>g \<in> set (m_flows c). fl_idx g < fl_idx f \<and> fl_name g \<noteq> [] \<and> fl_name g \<in> startRefs h (fl_task f)
      \<longrightarrow> fl_idx g \<in> set (fl_wait f)"
    using assms(1) unfolding flowKnown_def by blast
  have keep: "m_byName c' n = m_byName c n" if n: "n \<in> startRefs h (fl_task f)" for n
  proof -
    have "n \<noteq> w_register (q_tasks q ! m_pc c) \<or> n = []"
      using planOrderedD(4) [OF assms(4) f(3,4), of "m_pc c"] f(2) assms(3) n by (auto simp: f(5))
    then show ?thesis using assms(2) by (simp add: stepsTo_def)
  qed
  then have "\<forall>regs. agreeOn (startRefs h (fl_task f)) regs (m_byName c')
      \<longrightarrow> runTaskWithRetry h (fl_idx f) (fl_task f) regs False = ev"
    using run by (simp add: agreeOn_def)
  moreover have "\<forall>g \<in> set (m_flows c'). fl_idx g < fl_idx f \<and> fl_name g \<noteq> [] \<and> fl_name g \<in> startRefs h (fl_task f)
      \<longrightarrow> fl_idx g \<in> set (fl_wait f)"
    using wt assms(5) f(1,2) by fastforce
  moreover have "recordedAs c' f ev"
  proof -
    have "fl_name f \<noteq> w_register (q_tasks q ! m_pc c)" if "fl_name f \<noteq> []"
      using planOrderedD(3) [OF assms(4) f(3,4), of "m_pc c"] f(2,6) assms(3) that by auto
    then show ?thesis using rec assms(2) f(1,2) by (auto simp: recordedAs_def stepsTo_def)
  qed
  moreover have "i < m_pc c'" using f(2) assms(2) by (simp add: stepsTo_def)
  ultimately show ?thesis unfolding flowKnown_def using f by blast
qed

lemma plannedInv_quiet:
  assumes "plannedInv h q c" "stepsTo c (q_tasks q ! m_pc c) c'" "m_flows c' = m_flows c"
    and "m_pc c < length (q_tasks q)" "planOrdered h (q_tasks q)"
  shows "plannedInv h q c'"
  using assms flowKnown_mono [OF _ assms(2,4,5)] by (auto simp: plannedInv_def stepsTo_def)

text \<open>A launched flow waits for every earlier flow that registers a name it reads.\<close>

lemma plannedInv_launch:
  assumes "plannedInv h q c" "sameFrame c c1" "m_pc c1 = m_pc c" "m_pc c < length (q_tasks q)"
    and "planOrdered h (q_tasks q)" "evalLocal h" "w_async (q_tasks q ! m_pc c)"
    and t: "t' = (q_tasks q ! m_pc c)\<lparr>w_params := ps\<rparr>"
  shows "plannedInv h q (instantFlow h q (nextTask (launchFlow t' (int (m_pc c))
    (snd (barriers h (m_flows c) (q_tasks q ! m_pc c))) c1)))" (is "plannedInv h q ?c")
proof -
  let ?t = "q_tasks q ! m_pc c"
  define wt where "wt = snd (barriers h (m_flows c) ?t)"
  define ev where "ev = runTaskWithRetry h (int (m_pc c)) t' (m_byName c) False"
  define f where "f = \<lparr>fl_idx = int (m_pc c), fl_name = w_register t', fl_task = t', fl_wait = wt, fl_stage = Done ev\<rparr>"
  have frame: "m_byName c1 = m_byName c" "m_byIdx c1 = m_byIdx c" "m_flows c1 = m_flows c" "\<not> m_dead c1"
    using assms(1,2) by (auto simp: sameFrame_def plannedInv_def)
  have agg: "w_aggregate t' = []" using planOrderedD(1) [OF assms(5,4,7)] t by simp
  have idx: "ev_idx ev = int (m_pc c)" using settled_runTaskWithRetry by (auto simp: ev_def settledAs_def)
  have ic: "?c = setStage (length (m_flows c)) (Done ev) (report q t' ev (nextTask (launchFlow t' (int (m_pc c)) wt c1)))"
    using frame agg
    by (simp add: instantFlow_def Let_def nextTask_def launchFlow_def startEvent_def finalEvent_def ev_def wt_def)
  have fc: "m_flows ?c = m_flows c @ [f]"
    unfolding ic by (simp add: setStage_def report_def nextTask_def launchFlow_def f_def frame)
  have to: "stepsTo c ?t ?c"
    unfolding ic stepsTo_def
    using assms(3) frame t idx
    by (auto simp: setStage_def report_def nextTask_def launchFlow_def sameFrame_def)
  have old: "flowKnown h q ?c g" if "g \<in> set (m_flows c)" for g
    using assms(1) that by (intro flowKnown_mono [OF _ to assms(4,5)]) (auto simp: plannedInv_def fc f_def)
  have self: "w_register ?t = [] \<or> w_register ?t \<notin> startRefs h ?t"
    using planOrderedD(4) [OF assms(5,4,7), of "m_pc c"] assms(4) by blast
  have "runTaskWithRetry h (int (m_pc c)) t' regs False = ev" if "agreeOn (startRefs h t') regs (m_byName ?c)" for regs
  proof -
    have "m_byName ?c n = m_byName c n" if "n \<in> startRefs h t'" for n
    proof -
      have "n \<noteq> w_register ?t \<or> n = []" using that self by (auto simp: t)
      then show ?thesis using to by (simp add: stepsTo_def)
    qed
    then have "agreeOn (startRefs h t') regs (m_byName c)"
      using that by (simp add: agreeOn_def)
    then show ?thesis unfolding ev_def by (rule runTaskWithRetry_local [OF assms(6)])
  qed
  moreover have "fl_idx g \<in> set wt" if "g \<in> set (m_flows ?c)" "fl_idx g < int (m_pc c)" "fl_name g \<noteq> []"
      "fl_name g \<in> startRefs h t'" for g
  proof -
    have "g \<in> set (m_flows c)" using that(1,2) unfolding fc by (auto simp: f_def)
    then show ?thesis using in_startBarrier [OF _ that(3)] that(4) by (simp add: wt_def t)
  qed
  moreover have "recordedAs ?c f ev"
    unfolding ic
    by (simp add: recordedAs_def f_def setStage_def report_def nextTask_def launchFlow_def idx)
  ultimately have "flowKnown h q ?c f"
    unfolding flowKnown_def using assms(4,7) t to
    by (intro exI [of _ "m_pc c"] exI [of _ ps]) (auto simp: f_def stepsTo_def)
  moreover have "fl_idx g < int (m_pc c)" if "g \<in> set (m_flows c)" for g
    using assms(1) that by (auto simp: plannedInv_def flowKnown_def)
  ultimately show ?thesis
    using assms(1) to old unfolding plannedInv_def stepsTo_def fc
    by (auto simp: sorted_wrt_append f_def)
qed

text \<open>The end of a task of the main flow that was not cancelled.\<close>

lemma execMove_running:
  assumes "\<not> m_dead s" "settledAs i ev"
  shows "execMove q t ev s =
    nextTask (noteRan (int (m_pc s)) (finalEvent s (m_units s) t ev)
      (report q t (finalEvent s (m_units s) t ev) s))"
proof -
  have "ev_status (finalEvent s (m_units s) t ev) \<noteq> TS_CANCELLED"
    using assms by (auto simp: finalEvent_def settledAs_def)
  then show ?thesis by (simp add: execMove_def Let_def)
qed

lemma report_frame [simp]:
  "m_flows (report q t ev s) = m_flows s" "m_dead (report q t ev s) = m_dead s"
  "m_byIdx (report q t ev s) = (m_byIdx s)(ev_idx ev := ev_register ev)"
  by (simp_all add: report_def)

lemma finalEvent_idx [simp]: "ev_idx (finalEvent s ux t ev) = ev_idx ev"
  by (simp add: finalEvent_def cancelEvent_def)

lemma stepsTo_report:
  assumes "\<not> m_dead c" "sameFrame c c1" "m_pc c1 = m_pc c" "w_register t' = w_register t"
    "ev_idx ev = int (m_pc c)" "sameFrame (report q t' ev c1) c2" "m_pc c2 = Suc (m_pc c)"
  shows "stepsTo c t c2" "m_flows c2 = m_flows c"
  using assms report_byName [of _ t' q ev c1] by (auto simp: stepsTo_def sameFrame_def)

lemma sameFrame_trans: "sameFrame a b \<Longrightarrow> sameFrame b c \<Longrightarrow> sameFrame a c"
  by (simp add: sameFrame_def)

lemma planStep_inv:
  assumes inv: "plannedInv h q c" and pc: "m_pc c < length (q_tasks q)"
    and h: "evalLocal h" "planOrdered h (q_tasks q)"
  shows "plannedInv h q (planStep h q c) \<and> m_pc (planStep h q c) = Suc (m_pc c)"
proof -
  define t where "t = q_tasks q ! m_pc c"
  let ?c = "collected h q t c"
  have dead: "\<not> m_dead c" using inv by (simp add: plannedInv_def)
  have fl: "m_flows ?c = m_flows c" "m_dead ?c = m_dead c"
    using sameFrame_simps(3) by (auto simp: sameFrame_def)
  have quiet: "plannedInv h q (nextTask c2) \<and> m_pc (nextTask c2) = Suc (m_pc c)"
    if "sameFrame (report q t' ev ?c) c2" "m_pc c2 = m_pc c" "w_register t' = w_register t"
      "ev_idx ev = int (m_pc c)" for c2 t' ev
  proof -
    have fr: "sameFrame (report q t' ev ?c) (nextTask c2)"
      by (rule sameFrame_trans [OF that(1)]) simp
    have "m_pc (nextTask c2) = Suc (m_pc c)" using that(2) by (simp add: nextTask_def)
    note st = stepsTo_report [OF dead sameFrame_simps(3) pc_simps(2) that(3,4) fr this]
    show ?thesis
      using plannedInv_quiet [OF inv st(1) [unfolded t_def] st(2) pc h(2)] that(2)
      by (simp add: nextTask_def)
  qed
  have idxs: "ev_idx (skippedTaskEvent i) = i" "ev_idx (foldedEvent ?c t) = int (m_pc c)"
    "ev_idx (whenErrorEvent i t er) = i" for i er
    by (simp_all add: skippedTaskEvent_def foldedEvent_def whenErrorEvent_def flowControlErrorEvent_def)
  have note_ran: "m_flows (noteRan i ev x) = m_flows x" for i ev x
    using sameFrame_simps(2) by (auto simp: sameFrame_def)
  note gm = gateMove_def [of h q t c] t_def [symmetric]
  show ?thesis
  proof (cases "gating h ?c t")
    case Skipped
    then show ?thesis
      using quiet [of t "skippedTaskEvent (int (m_pc c))" "report q t (skippedTaskEvent (int (m_pc c))) ?c"] fl idxs
      by (simp add: planStep_def gm Let_def) (simp add: nextTask_def)
  next
    case Folded
    then show ?thesis
      using quiet [of t "foldedEvent ?c t" "report q t (foldedEvent ?c t) ?c"] fl idxs
      by (simp add: planStep_def gm Let_def) (simp add: nextTask_def)
  next
    case (WhenFailed er)
    then show ?thesis
      using quiet [of t "whenErrorEvent (int (m_pc c)) t er"
          "noteRan (int (m_pc c)) (whenErrorEvent (int (m_pc c)) t er) (report q t (whenErrorEvent (int (m_pc c)) t er) ?c)"] fl idxs
      by (simp add: planStep_def gm Let_def) (simp add: nextTask_def note_ran)
  next
    case (Runs t')
    then obtain ps where t': "t' = t\<lparr>w_params := ps\<rparr>" using gating_task by blast
    show ?thesis
    proof (cases "isAsync q t")
      case True
      have "plannedInv h q (instantFlow h q (nextTask (launchFlow t' (int (m_pc c)) (snd (barriers h (m_flows c) t)) ?c)))"
        using True t' plannedInv_launch [OF inv sameFrame_simps(3) pc_simps(2) pc h(2) h(1), of t' ps]
        by (simp add: t_def isAsync_def)
      then show ?thesis
        using Runs True fl
        by (simp add: planStep_def gm Let_def)
          (simp add: nextTask_def launchFlow_def instantFlow_def setStage_def report_def Let_def)
    next
      case False
      let ?ev = "startEvent h (m_dead c) (q_dryRun q) (int (m_pc c)) t' (m_byName ?c)"
      let ?x = "?c\<lparr>m_mode := Exec t' ?ev\<rparr>"
      have st: "settledAs (int (m_pc c)) ?ev"
        using dead by (simp add: startEvent_def settled_runTaskWithRetry)
      have "planStep h q c = execMove q t' ?ev ?x"
        using Runs False fl by (simp add: planStep_def gm Let_def)
      also have "\<dots> = nextTask (noteRan (int (m_pc ?x)) (finalEvent ?x (m_units ?x) t' ?ev)
          (report q t' (finalEvent ?x (m_units ?x) t' ?ev) ?x))"
        by (rule execMove_running [OF _ st]) (simp add: fl dead)
      finally have step: "planStep h q c = \<dots>" .
      have "sameFrame (report q t' ev ?c) (report q t' ev ?x)" for ev
        by (simp add: sameFrame_def report_def)
      then have "sameFrame (report q t' ev ?c) (noteRan i ev' (report q t' ev ?x))" for ev ev' i
        using sameFrame_trans sameFrame_simps(2) by blast
      then show ?thesis
        unfolding step using st by (intro quiet [of t' "finalEvent ?x (m_units ?x) t' ?ev"]) (simp_all add: t' settledAs_def)
    qed
  qed
qed

lemma planned_inv:
  assumes "evalLocal h" "planOrdered h (q_tasks q)" "n \<le> length (q_tasks q)"
  shows "plannedInv h q (planned h q n) \<and> m_pc (planned h q n) = n"
  using assms(3)
proof (induction n)
  case 0
  then show ?case by (simp add: plannedInv_def initial_def)
next
  case (Suc n)
  then show ?case using planStep_inv [OF _ _ assms(1,2), of "planned h q n"] by simp
qed

section \<open>A flow that starts or ends\<close>

lemma setStage_same [simp]:
  "m_pc (setStage k st s) = m_pc s" "m_mode (setStage k st s) = m_mode s"
  "m_units (setStage k st s) = m_units s" "m_status (setStage k st s) = m_status s"
  "m_failed (setStage k st s) = m_failed s" "m_dead (setStage k st s) = m_dead s"
  "m_byIdx (setStage k st s) = m_byIdx s" "m_byName (setStage k st s) = m_byName s"
  "m_sent (setStage k st s) = m_sent s"
  "m_flows (setStage k st s) = (m_flows s)[k := (m_flows s ! k)\<lparr>fl_stage := st\<rparr>]"
  by (simp_all add: setStage_def)

lemma open_setStage:
  assumes "k < length (m_flows s)" "doneEvent st = None" "\<not> isDone (m_flows s ! k)"
  shows "openIdx (setStage k st s) = openIdx s" "openNames (setStage k st s) = openNames s"
    "doneSent q (setStage k st s) = doneSent q s"
proof -
  let ?f = "(m_flows s ! k)\<lparr>fl_stage := st\<rparr>"
  have nd: "\<not> isDone ?f" using assms(2) by (simp add: isDone_def)
  have split: "m_flows s = take k (m_flows s) @ m_flows s ! k # drop (Suc k) (m_flows s)"
    using assms(1) by (simp add: id_take_nth_drop)
  have upd: "(m_flows s)[k := ?f] = take k (m_flows s) @ ?f # drop (Suc k) (m_flows s)"
    using assms(1) by (simp add: upd_conv_take_nth_drop)
  let ?P = "set (take k (m_flows s)) \<union> set (drop (Suc k) (m_flows s))"
  have sets: "set (m_flows s) = insert (m_flows s ! k) ?P"
    "set ((m_flows s)[k := ?f]) = insert ?f ?P"
    by (subst split, simp) (simp add: upd)
  show "openIdx (setStage k st s) = openIdx s" "openNames (setStage k st s) = openNames s"
    unfolding openIdx_def openNames_def setStage_same sets
    using nd assms(3) by (auto intro: exI [of _ ?f] exI [of _ "m_flows s ! k"])
  have "filter isDone ((m_flows s)[k := ?f]) = filter isDone (m_flows s)"
    by (subst (2) split) (simp add: upd nd assms(3))
  then show "doneSent q (setStage k st s) = doneSent q s" by (simp add: doneSent_def)
qed

lemma doneSent_setStage:
  assumes "k < length (m_flows s)" "\<not> isDone (m_flows s ! k)"
  shows "doneSent q (setStage k (Done ev) s) =
    add_mset (sentOf q ((m_flows s ! k)\<lparr>fl_stage := Done ev\<rparr>)) (doneSent q s)"
proof -
  let ?f = "(m_flows s ! k)\<lparr>fl_stage := Done ev\<rparr>"
  have split: "m_flows s = take k (m_flows s) @ m_flows s ! k # drop (Suc k) (m_flows s)"
    using assms(1) by (simp add: id_take_nth_drop)
  have "isDone ?f" by (simp add: isDone_def)
  then have "filter isDone ((m_flows s)[k := ?f]) =
      filter isDone (take k (m_flows s)) @ ?f # filter isDone (drop (Suc k) (m_flows s))"
    using assms(1) by (simp add: upd_conv_take_nth_drop)
  moreover have "filter isDone (m_flows s) =
      filter isDone (take k (m_flows s)) @ filter isDone (drop (Suc k) (m_flows s))"
    by (subst split) (simp add: assms(2))
  ultimately show ?thesis by (simp add: doneSent_def)
qed

lemma matches_setStage:
  assumes "list_all2 flowMatches (m_flows s) gs" "k < length (m_flows s)"
    and "fl_stage (gs ! k) = Done ev" "st = Running ev \<or> st = Done ev"
  shows "list_all2 flowMatches (m_flows (setStage k st s)) gs"
  unfolding list_all2_conv_all_nth
proof (intro conjI allI impI)
  show "length (m_flows (setStage k st s)) = length gs" using assms(1) by (simp add: list_all2_lengthD)
  fix j assume "j < length (m_flows (setStage k st s))"
  then have "flowMatches (m_flows s ! j) (gs ! j)" using assms(1) by (simp add: list_all2_conv_all_nth)
  then show "flowMatches (m_flows (setStage k st s) ! j) (gs ! j)"
    using assms(2-4) by (cases "j = k") (auto simp: flowMatches_def label_def)
qed

text \<open>The flow of the plan beside a flow of the schedule.\<close>

lemma known_flow:
  assumes "plannedInv h q c0" "m_flows c = m_flows c0" "agrees q s c" "k < length (m_flows s)"
  shows "flowKnown h q c0 (m_flows c ! k)" "flowMatches (m_flows s ! k) (m_flows c ! k)"
    "m_flows c ! k \<in> set (m_flows c0)"
proof -
  have l: "list_all2 flowMatches (m_flows s) (m_flows c)" using assms(3) by (simp add: agrees_def)
  then show "flowMatches (m_flows s ! k) (m_flows c ! k)" using assms(4) by (simp add: list_all2_conv_all_nth)
  show "m_flows c ! k \<in> set (m_flows c0)"
    using l assms(2,4) by (metis list_all2_lengthD nth_mem)
  then show "flowKnown h q c0 (m_flows c ! k)" using assms(1) by (simp add: plannedInv_def)
qed

lemma start_refs_closed:
  assumes c0: "plannedInv h q c0" "m_flows c = m_flows c0" "agrees q s c"
    and k: "k < length (m_flows s)" "allDone (m_flows s) (fl_wait (m_flows s ! k))"
    and ord: "planOrdered h (q_tasks q)"
    and n: "n \<in> startRefs h (fl_task (m_flows c ! k))"
  shows "n \<notin> openNames s"
proof
  assume "n \<in> openNames s"
  then obtain f where f: "f \<in> set (m_flows s)" "\<not> isDone f" "fl_name f = n" "n \<noteq> []"
    by (auto simp: openNames_def)
  then obtain j where j: "j < length (m_flows s)" "m_flows s ! j = f" by (auto simp: in_set_conv_nth)
  note gk = known_flow [OF c0 k(1)] and gj = known_flow [OF c0 j(1)]
  let ?g = "m_flows c ! k" and ?g' = "m_flows c ! j"
  obtain i ps where i: "fl_idx ?g = int i" "i < length (q_tasks q)" "w_async (q_tasks q ! i)"
      "fl_task ?g = (q_tasks q ! i)\<lparr>w_params := ps\<rparr>"
    and wt: "\<forall>g \<in> set (m_flows c0). fl_idx g < fl_idx ?g \<and> fl_name g \<noteq> [] \<and> fl_name g \<in> startRefs h (fl_task ?g)
      \<longrightarrow> fl_idx g \<in> set (fl_wait ?g)"
    using gk(1) unfolding flowKnown_def by blast
  obtain i' where i': "fl_idx ?g' = int i'" "i' < length (q_tasks q)" "fl_name ?g' = w_register (q_tasks q ! i')"
    using gj(1) unfolding flowKnown_def by blast
  have same: "fl_idx ?g' = fl_idx f" "fl_name ?g' = n" "fl_wait ?g = fl_wait (m_flows s ! k)"
    using gj(2) gk(2) j f by (auto simp: flowMatches_def label_def)
  have "i' < i"
    using planOrderedD(4) [OF ord i(2,3), of i'] i' same f(4) n
    by (cases "i \<le> i'") (auto simp: i(4))
  then have "fl_idx f \<in> set (fl_wait (m_flows s ! k))"
    using wt gj(3) same n f(4) i(1) i'(1) by (metis of_nat_less_iff)
  then have "isDone f"
    using allDone_flow [OF k(2) agrees_distinct [OF c0] f(1)] by simp
  then show False using f(2) by simp
qed

lemma agrees_start:
  assumes c0: "plannedInv h q c0" "m_flows c = m_flows c0" "agrees q s c" "m_byName c = m_byName c0"
    and st: "startMove h limit k s = Some s'"
    and h: "evalLocal h" "planOrdered h (q_tasks q)"
  shows "agrees q s' c"
proof -
  let ?f = "m_flows s ! k" and ?g = "m_flows c ! k"
  have k: "k < length (m_flows s)" "fl_stage ?f = Waiting" "allDone (m_flows s) (fl_wait ?f)"
    and s': "s' = setStage k (Running (startEvent h (m_dead s) False (fl_idx ?f) (fl_task ?f) (m_byName s))) s"
    using st by (auto simp: startMove_def Let_def split: if_splits)
  note g = known_flow [OF c0(1-3) k(1)]
  obtain ev where ev: "fl_stage ?g = Done ev"
    and run: "\<forall>regs. agreeOn (startRefs h (fl_task ?g)) regs (m_byName c0)
      \<longrightarrow> runTaskWithRetry h (fl_idx ?g) (fl_task ?g) regs False = ev"
    using g(1) unfolding flowKnown_def by blast
  have "agreeOn (startRefs h (fl_task ?g)) (m_byName s) (m_byName c0)"
    using start_refs_closed [OF c0(1-3) k(1,3) h(2)] c0(3,4) by (auto simp: agreeOn_def agrees_def)
  then have e: "startEvent h (m_dead s) False (fl_idx ?f) (fl_task ?f) (m_byName s) = ev"
    using run g(2) agreesD [OF c0(3)] by (simp add: startEvent_def flowMatches_def label_def)
  have "\<not> isDone ?f" using k(2) by (simp add: isDone_def)
  note os = open_setStage [OF k(1) _ this, of "Running ev"]
  have "list_all2 flowMatches (m_flows s') (m_flows c)"
    unfolding s' e using c0(3) k(1) ev by (intro matches_setStage) (auto simp: agrees_def)
  then show ?thesis
    using c0(3) unfolding agrees_def s' e by (simp add: os)
qed

lemma agrees_finish:
  assumes c0: "plannedInv h q c0" "m_flows c = m_flows c0" "agrees q s c" "m_byName c = m_byName c0"
      "m_byIdx c = m_byIdx c0"
    and st: "finishMove q k s = Some s'"
    and ord: "planOrdered h (q_tasks q)"
  shows "agrees q s' c"
proof -
  let ?f = "m_flows s ! k" and ?g = "m_flows c ! k"
  obtain ev where k: "k < length (m_flows s)" "fl_stage ?f = Running ev"
    and s0: "s' = setStage k (Done (finalEvent s None (fl_task ?f) ev))
      (report q (fl_task ?f) (finalEvent s None (fl_task ?f) ev) s)"
    using st by (auto simp: finishMove_def Let_def split: if_splits stage.splits)
  note g = known_flow [OF c0(1-3) k(1)]
  have match: "fl_idx ?f = fl_idx ?g" "fl_name ?f = fl_name ?g" "fl_task ?f = fl_task ?g" "fl_stage ?g = Done ev"
    using g(2) k(2) by (auto simp: flowMatches_def label_def)
  obtain i ps where i: "i < length (q_tasks q)" "w_async (q_tasks q ! i)" "fl_name ?g = w_register (q_tasks q ! i)"
      "fl_task ?g = (q_tasks q ! i)\<lparr>w_params := ps\<rparr>"
    and run: "\<forall>regs. agreeOn (startRefs h (fl_task ?g)) regs (m_byName c0)
      \<longrightarrow> runTaskWithRetry h (fl_idx ?g) (fl_task ?g) regs False = ev"
    and rec: "recordedAs c0 ?g ev"
    using g(1) match(4) unfolding flowKnown_def by force
  have idx: "ev_idx ev = fl_idx ?g"
    using run settled_runTaskWithRetry [of "fl_idx ?g" h "fl_task ?g" "m_byName c0" False]
    by (auto simp: agreeOn_def settledAs_def)
  have s': "s' = setStage k (Done ev) (report q (fl_task ?f) ev s)"
    using s0 agreesD [OF c0(3)] planOrderedD(1) [OF ord i(1,2)] match(3) i(4) by (simp add: finalEvent_def)
  have nd: "\<not> isDone ?f" using k(2) by (simp add: isDone_def)
  let ?r = "report q (fl_task ?f) ev s"
  have ds: "doneSent q s' = add_mset (sentOf q (?f\<lparr>fl_stage := Done ev\<rparr>)) (doneSent q s)"
    unfolding s' using doneSent_setStage [of k ?r q ev] k(1) nd by (simp add: doneSent_def)
  obtain M where M: "mset (m_sent s) = M + doneSent q s" "mset (m_sent c) = M + doneSent q c"
    using c0(3) by (auto simp: agrees_def)
  then have sent: "mset (m_sent s') = M + doneSent q s'"
    unfolding ds by (simp add: s' report_def sentOf_def)
  have sub: "f \<in> set (m_flows s') \<or> f = ?f" if "f \<in> set (m_flows s)" for f
    using that unfolding s' by (auto simp: in_set_conv_nth) (metis nth_list_update_neq)
  then have oi: "openIdx s \<subseteq> openIdx s' \<union> {fl_idx ?f}" and on: "openNames s \<subseteq> openNames s' \<union> {fl_name ?f}"
    by (auto simp: openIdx_def openNames_def)
  have "m_byIdx s' j = m_byIdx c j" if "j \<notin> openIdx s'" for j
  proof (cases "j = fl_idx ?f")
    case True
    then show ?thesis using rec idx match(1) c0(5) by (simp add: s' recordedAs_def)
  next
    case False
    then have "j \<notin> openIdx s" using oi that by blast
    then show ?thesis using False c0(3) idx match(1) by (simp add: s' agrees_def)
  qed
  moreover have "m_byName s' n = m_byName c n" if "n \<notin> openNames s'" for n
  proof (cases "n = fl_name ?f \<and> n \<noteq> []")
    case True
    then show ?thesis using rec match i c0(4) by (auto simp: s' report_def recordedAs_def)
  next
    case False
    have "[] \<notin> openNames s" by (simp add: openNames_def)
    then have "n \<notin> openNames s" using on that False by blast
    moreover have "m_byName s' n = m_byName s n"
      unfolding s' using False match i by (simp add: report_byName)
    ultimately show ?thesis using c0(3) by (simp add: agrees_def)
  qed
  moreover have "list_all2 flowMatches (m_flows s') (m_flows c)"
    unfolding s' using c0(3) k(1) match(4) matches_setStage [of ?r "m_flows c" k ev "Done ev"]
    by (simp add: agrees_def)
  moreover have "m_pc s' = m_pc c \<and> m_units s' = m_units c \<and> m_status s' = m_status c \<and>
      m_failed s' = m_failed c \<and> \<not> m_dead s' \<and> \<not> m_dead c"
    using agreesD [OF c0(3)] by (simp add: s') (simp add: report_def)
  ultimately show ?thesis
    using sent M(2) unfolding agrees_def by blast
qed

section \<open>Every schedule is the plan\<close>

text \<open>Where a schedule stands beside the run in plan order, as long as nothing was cancelled.\<close>

definition inStep :: "host \<Rightarrow> apply_request \<Rightarrow> machine \<Rightarrow> bool" where
  "inStep h q s \<longleftrightarrow>
     (case m_mode s of
        Top \<Rightarrow> m_pc s \<le> length (q_tasks q) \<and> agrees q s (planned h q (m_pc s))
      | Gate \<Rightarrow> m_pc s < length (q_tasks q) \<and> agrees q s (planned h q (m_pc s))
      | Exec t ev \<Rightarrow>
          m_pc s < length (q_tasks q) \<and> settledAs (int (m_pc s)) ev \<and>
          (\<forall>i \<in> set (w_aggregate t). i \<notin> openIdx s) \<and>
          (let c = gateMove h q (q_tasks q ! m_pc s) (planned h q (m_pc s))
           in m_mode c = Exec t ev \<and> agrees q s c)
      | Drain \<Rightarrow> m_pc s = length (q_tasks q) \<and> agrees q s (planned h q (m_pc s))
      | Ended r \<Rightarrow>
          Ended r = m_mode (runSoul h q) \<and> mset (m_sent s) = mset (m_sent (runSoul h q)))"

lemma agrees_initial: "agrees q (initial q) (initial q)"
  by (simp add: agrees_def initial_def doneSent_def)

lemma agrees_mode:
  assumes "agrees q s c" shows "agrees q (s\<lparr>m_mode := md\<rparr>) c"
  by (rule agrees_control [OF assms]) (simp_all add: agreesD [OF assms])

text \<open>A machine whose task is executing shares its flows and registers with the one before it.\<close>

lemma gateMove_exec:
  assumes "m_mode (gateMove h q t c) = Exec t' ev"
  shows "sameFrame c (gateMove h q t c)"
proof -
  have "sameFrame (collected h q t c) (gateMove h q t c)"
    using assms by (auto simp: gateMove_def Let_def nextTask_def sameFrame_def split: verdict.splits if_splits)
  then show ?thesis using sameFrame_trans sameFrame_simps(3) by blast
qed

text \<open>All flows done: the schedule holds the very flows of the plan.\<close>

lemma agrees_done:
  assumes "agrees q s c" "list_all isDone (m_flows s)"
  shows "m_flows s = m_flows c"
proof -
  have "list_all2 (=) (m_flows s) (m_flows c)"
    unfolding list_all2_conv_all_nth
  proof (intro conjI allI impI)
    show "length (m_flows s) = length (m_flows c)"
      using assms(1) by (auto simp: agrees_def dest: list_all2_lengthD)
    fix k assume k: "k < length (m_flows s)"
    then have "isDone (m_flows s ! k)" using assms(2) by (simp add: list_all_length)
    moreover have "flowMatches (m_flows s ! k) (m_flows c ! k)"
      using assms(1) k by (simp add: agrees_def list_all2_conv_all_nth)
    ultimately show "m_flows s ! k = m_flows c ! k"
      by (auto simp: flowMatches_def label_def isDone_def intro: flow.equality)
  qed
  then show ?thesis by (simp add: list_all2_eq)
qed

lemma drain_agrees:
  assumes "agrees q s c" "list_all isDone (m_flows s)"
  shows "m_mode (drainMove q s) = m_mode (drainMove q c)"
    and "mset (m_sent (drainMove q s)) = mset (m_sent (drainMove q c))"
proof -
  note fl = agrees_done [OF assms]
  show "m_mode (drainMove q s) = m_mode (drainMove q c)"
    unfolding drainMove_def Let_def fl agreesD(1-4) [OF assms(1)] by simp
  have "doneSent q s = doneSent q c" by (simp add: doneSent_def fl)
  then show "mset (m_sent (drainMove q s)) = mset (m_sent (drainMove q c))"
    using assms(1) by (auto simp: drainMove_def Let_def agrees_def)
qed

lemma execMove_agrees:
  assumes "agrees q s c" "settledAs (int (m_pc s)) ev" "\<forall>i \<in> set (w_aggregate t). i \<notin> openIdx s"
  shows "agrees q (execMove q t ev s) (execMove q t ev c)" "m_mode (execMove q t ev s) = Top"
proof -
  note eqs = agreesD [OF assms(1)]
  have fe: "finalEvent s (m_units s) t ev = finalEvent c (m_units c) t ev"
    using aggregate_agrees [OF assms(1,3)] eqs by (simp add: finalEvent_def)
  note s = execMove_running [OF eqs(5) assms(2), of q t]
  note c = execMove_running [OF eqs(6) assms(2), of q t]
  show "agrees q (execMove q t ev s) (execMove q t ev c)"
    unfolding s c fe eqs(1) by (intro agrees_next agrees_noteRan agrees_report assms(1))
  show "m_mode (execMove q t ev s) = Top" unfolding s by (simp add: nextTask_def)
qed

text \<open>The steps of a schedule keep it in step with the plan.\<close>

lemma inStep_main:
  assumes s: "inStep h q s" "\<not> m_dead s" "mainMove h q s = Some s'"
    and h: "evalLocal h" "planOrdered h (q_tasks q)"
  shows "inStep h q s'"
proof (cases "m_mode s")
  case Top
  then have a: "agrees q s (planned h q (m_pc s))" "m_pc s \<le> length (q_tasks q)"
    using s(1) by (auto simp: inStep_def)
  then show ?thesis
    using s(2,3) Top agrees_mode [OF a(1)] by (auto simp: mainMove_def inStep_def split: if_splits)
next
  case Gate
  then have a: "agrees q s (planned h q (m_pc s))" and pc: "m_pc s < length (q_tasks q)"
    using s(1) by (auto simp: inStep_def)
  define t where "t = q_tasks q ! m_pc s"
  have w: "allDone (m_flows s) (awaited h q s t)" and s': "s' = gateMove h q t s"
    using s(3) Gate by (auto simp: mainMove_def Let_def t_def split: if_splits)
  have inv: "plannedInv h q (planned h q (m_pc s))" using planned_inv [OF h] pc by simp
  have inv': "m_pc (planned h q (Suc (m_pc s))) = Suc (m_pc s)" using planned_inv [OF h, of "Suc (m_pc s)"] pc by simp
  from gateMove_agrees [OF inv a w t_def pc h] show ?thesis
  proof (elim disjE exE conjE)
    fix t' ev ps
    assume "m_mode (gateMove h q t s) = Exec t' ev" "m_mode (gateMove h q t (planned h q (m_pc s))) = Exec t' ev"
      "agrees q (gateMove h q t s) (gateMove h q t (planned h q (m_pc s)))" "settledAs (int (m_pc s)) ev"
      "m_pc (gateMove h q t s) = m_pc s" "\<forall>i \<in> set (w_aggregate t'). i \<notin> openIdx (gateMove h q t s)"
    then show ?thesis using pc by (simp add: inStep_def s' t_def)
  next
    assume top: "m_mode (gateMove h q t s) = Top"
      and ag: "agrees q (gateMove h q t s) (planStep h q (planned h q (m_pc s)))"
    then have "m_pc s' = Suc (m_pc s)" using inv' agreesD(1) [OF ag] by (simp add: s')
    then show ?thesis using top ag pc by (simp add: inStep_def s')
  qed
next
  case (Exec t ev)
  let ?c = "gateMove h q (q_tasks q ! m_pc s) (planned h q (m_pc s))"
  have e: "m_pc s < length (q_tasks q)" "settledAs (int (m_pc s)) ev" "\<forall>i \<in> set (w_aggregate t). i \<notin> openIdx s"
      "m_mode ?c = Exec t ev" "agrees q s ?c"
    using s(1) Exec by (auto simp: inStep_def Let_def)
  have s': "s' = execMove q t ev s" using s(3) Exec by (simp add: mainMove_def)
  have pc: "m_pc (planned h q (m_pc s)) = m_pc s" "m_pc (planned h q (Suc (m_pc s))) = Suc (m_pc s)"
    using planned_inv [OF h, of "m_pc s"] planned_inv [OF h, of "Suc (m_pc s)"] e(1) by auto
  have "planned h q (Suc (m_pc s)) = execMove q t ev ?c"
    using e(4) by (simp add: planStep_def pc Let_def)
  with execMove_agrees [OF e(5,2,3)] have "agrees q s' (planned h q (Suc (m_pc s)))" "m_mode s' = Top"
    by (simp_all add: s')
  then show ?thesis using agreesD(1) pc(2) e(1) by (fastforce simp: inStep_def)
next
  case Drain
  then have a: "agrees q s (planned h q (length (q_tasks q)))" using s(1) by (auto simp: inStep_def)
  have d: "list_all isDone (m_flows s)" and s': "s' = drainMove q s"
    using s(3) Drain by (auto simp: mainMove_def split: if_splits)
  obtain r where "m_mode s' = Ended r" by (simp add: s' drainMove_def Let_def)
  then show ?thesis using drain_agrees [OF a d] by (simp add: inStep_def s' runSoul_def)
next
  case (Ended r)
  then show ?thesis using s(3) by (simp add: mainMove_def)
qed

text \<open>A flow's own move changes the stage of that flow, and nothing of where the main flow stands.\<close>

lemma startMoveD:
  assumes "startMove h limit k s = Some s'"
  shows "k < length (m_flows s)" "fl_stage (m_flows s ! k) = Waiting"
    "s' = setStage k (Running (startEvent h (m_dead s) False (fl_idx (m_flows s ! k)) (fl_task (m_flows s ! k)) (m_byName s))) s"
    "allDone (m_flows s) (fl_wait (m_flows s ! k))" "slotFree limit s"
  using assms by (auto simp: startMove_def Let_def split: if_splits)

lemma finishMoveD:
  assumes "finishMove q k s = Some s'"
  obtains ev where "k < length (m_flows s)" "fl_stage (m_flows s ! k) = Running ev"
    "s' = setStage k (Done (finalEvent s None (fl_task (m_flows s ! k)) ev))
      (report q (fl_task (m_flows s ! k)) (finalEvent s None (fl_task (m_flows s ! k)) ev) s)"
  using assms by (auto simp: finishMove_def Let_def split: if_splits stage.splits)

lemma report_control [simp]:
  "m_mode (report q t ev s) = m_mode s" "m_units (report q t ev s) = m_units s"
  "m_status (report q t ev s) = m_status s" "m_failed (report q t ev s) = m_failed s"
  by (simp_all add: report_def)

lemma flowMove:
  assumes "startMove h limit k s = Some s' \<or> finishMove q k s = Some s'"
  shows "k < length (m_flows s)" "\<not> isDone (m_flows s ! k)"
    "\<exists>st. m_flows s' = (m_flows s)[k := (m_flows s ! k)\<lparr>fl_stage := st\<rparr>]"
    "m_mode s' = m_mode s" "m_pc s' = m_pc s" "m_units s' = m_units s" "m_status s' = m_status s"
    "m_failed s' = m_failed s" "m_dead s' = m_dead s"
proof -
  have "k < length (m_flows s) \<and> \<not> isDone (m_flows s ! k) \<and>
      (\<exists>st. m_flows s' = (m_flows s)[k := (m_flows s ! k)\<lparr>fl_stage := st\<rparr>]) \<and>
      m_mode s' = m_mode s \<and> m_pc s' = m_pc s \<and> m_units s' = m_units s \<and> m_status s' = m_status s \<and>
      m_failed s' = m_failed s \<and> m_dead s' = m_dead s"
    using assms
  proof (elim disjE)
    assume "startMove h limit k s = Some s'"
    note d = startMoveD [OF this]
    show ?thesis using d(1,2) unfolding d(3) by (auto simp: isDone_def)
  next
    assume "finishMove q k s = Some s'"
    then obtain ev where d: "k < length (m_flows s)" "fl_stage (m_flows s ! k) = Running ev"
      "s' = setStage k (Done (finalEvent s None (fl_task (m_flows s ! k)) ev))
        (report q (fl_task (m_flows s ! k)) (finalEvent s None (fl_task (m_flows s ! k)) ev) s)"
      by (rule finishMoveD)
    show ?thesis using d(1,2) unfolding d(3) by (auto simp: isDone_def)
  qed
  then show "k < length (m_flows s)" "\<not> isDone (m_flows s ! k)"
    "\<exists>st. m_flows s' = (m_flows s)[k := (m_flows s ! k)\<lparr>fl_stage := st\<rparr>]"
    "m_mode s' = m_mode s" "m_pc s' = m_pc s" "m_units s' = m_units s" "m_status s' = m_status s"
    "m_failed s' = m_failed s" "m_dead s' = m_dead s"
    by blast+
qed

lemma flowMove_open:
  assumes "startMove h limit k s = Some s' \<or> finishMove q k s = Some s'"
  shows "openIdx s' \<subseteq> openIdx s"
proof -
  note d = flowMove [OF assms]
  obtain st where st: "m_flows s' = (m_flows s)[k := (m_flows s ! k)\<lparr>fl_stage := st\<rparr>]" using d(3) by blast
  have "f \<in> set (m_flows s) \<or> f = (m_flows s ! k)\<lparr>fl_stage := st\<rparr>" if "f \<in> set (m_flows s')" for f
    using that set_update_subset_insert [of "m_flows s" k] by (auto simp: st)
  then show ?thesis using d(1,2) nth_mem [of k "m_flows s"] unfolding openIdx_def by force
qed

lemma inStep_flow:
  assumes s: "inStep h q s" "\<not> m_dead s" and c: "c = Start k \<or> c = Finish k" "act h limit q c s = Some s'"
    and h: "evalLocal h" "planOrdered h (q_tasks q)"
    and running: "\<not> ended s"
  shows "inStep h q s'"
proof -
  have step: "startMove h limit k s = Some s' \<or> finishMove q k s = Some s'" using c by auto
  note same = flowMove(4,5) [OF step]
  note opn = flowMove_open [OF step]
  have keep: "agrees q s' c'" if "agrees q s c'" "m_flows c' = m_flows (planned h q (m_pc s))"
      "m_byName c' = m_byName (planned h q (m_pc s))" "m_byIdx c' = m_byIdx (planned h q (m_pc s))"
      "m_pc s \<le> length (q_tasks q)" for c'
  proof -
    have inv: "plannedInv h q (planned h q (m_pc s))" using planned_inv [OF h that(5)] by simp
    from step show ?thesis
      using agrees_start [OF inv that(2,1,3) _ h] agrees_finish [OF inv that(2,1,3,4) _ h(2)] by blast
  qed
  show ?thesis
  proof (cases "m_mode s")
    case (Exec t ev)
    let ?c = "gateMove h q (q_tasks q ! m_pc s) (planned h q (m_pc s))"
    have e: "m_mode ?c = Exec t ev" "agrees q s ?c" "m_pc s \<le> length (q_tasks q)"
      using s(1) Exec by (auto simp: inStep_def Let_def)
    have "agrees q s' ?c"
      using gateMove_exec [OF e(1)] by (intro keep e(2,3)) (simp_all add: sameFrame_def)
    then show ?thesis using s(1) opn Exec by (auto simp: inStep_def same Let_def)
  next
    case (Ended r)
    then show ?thesis using running by (simp add: ended_def)
  qed (use s(1) keep in \<open>auto simp: inStep_def same\<close>)
qed

end
