(* ===== verification/Soul_Live.thy ===== *)
theory Soul_Live
  imports Soul_Order
begin

text \<open>
  What holds of every schedule of a message, cancelled or not: some move is always enabled until the
  run has ended, no schedule is longer than a bound of the plan, every position is reported once,
  and what the result says of the failures. The invariants are by rule induction over \<open>reachable\<close>;
  the effect of a move is stated once (\<open>gateMove_effect\<close>, \<open>flowMove\<close>) and used by all of them.
\<close>

section \<open>The effect of a move\<close>

definition sentAs :: "apply_request \<Rightarrow> wire_task \<Rightarrow> task_event \<Rightarrow> sent_event" where
  "sentAs q t ev = \<lparr>se_plan = w_planIndex t, se_passage = q_passage q, se_event = ev\<rparr>"

lemma sent_report: "m_sent (report q t ev s) = m_sent s @ [sentAs q t ev]"
  by (simp add: report_def sentAs_def)

lemma frame_collected [simp]:
  "m_flows (collected h q t s) = m_flows s" "m_dead (collected h q t s) = m_dead s"
  "m_sent (collected h q t s) = m_sent s" "m_byIdx (collected h q t s) = m_byIdx s"
  "m_byName (collected h q t s) = m_byName s"
  using sameFrame_simps(3) by (auto simp: sameFrame_def)

lemma frame_noteRan [simp]:
  "m_flows (noteRan i ev s) = m_flows s" "m_dead (noteRan i ev s) = m_dead s"
  "m_sent (noteRan i ev s) = m_sent s"
  using sameFrame_simps(2) by (auto simp: sameFrame_def)

lemma nextTask_simps [simp]:
  "m_pc (nextTask s) = Suc (m_pc s)" "m_mode (nextTask s) = Top" "m_flows (nextTask s) = m_flows s"
  "m_dead (nextTask s) = m_dead s" "m_sent (nextTask s) = m_sent s" "m_units (nextTask s) = m_units s"
  "m_status (nextTask s) = m_status s" "m_failed (nextTask s) = m_failed s"
  by (simp_all add: nextTask_def)

text \<open>What the main flow does at a task: it reports it, launches it, or starts it.\<close>

definition reportsAt :: "apply_request \<Rightarrow> machine \<Rightarrow> task_event \<Rightarrow> machine \<Rightarrow> bool" where
  "reportsAt q s ev s' \<longleftrightarrow>
     ev_idx ev = int (m_pc s) \<and> m_mode s' = Top \<and> m_pc s' = Suc (m_pc s) \<and> m_flows s' = m_flows s \<and>
     m_dead s' = m_dead s \<and> m_sent s' = m_sent s @ [sentAs q (q_tasks q ! m_pc s) ev]"

definition launchesAt :: "apply_request \<Rightarrow> machine \<Rightarrow> flow \<Rightarrow> machine \<Rightarrow> bool" where
  "launchesAt q s f s' \<longleftrightarrow>
     fl_idx f = int (m_pc s) \<and> fl_stage f = Waiting \<and> set (fl_wait f) \<subseteq> fl_idx ` set (m_flows s) \<and>
     (\<exists>ps. fl_task f = (q_tasks q ! m_pc s)\<lparr>w_params := ps\<rparr>) \<and>
     m_mode s' = Top \<and> m_pc s' = Suc (m_pc s) \<and> m_flows s' = m_flows s @ [f] \<and>
     m_dead s' = m_dead s \<and> m_sent s' = m_sent s"

definition startsAt :: "apply_request \<Rightarrow> machine \<Rightarrow> wire_task \<Rightarrow> task_event \<Rightarrow> machine \<Rightarrow> bool" where
  "startsAt q s t ev s' \<longleftrightarrow>
     ev_idx ev = int (m_pc s) \<and> (\<exists>ps. t = (q_tasks q ! m_pc s)\<lparr>w_params := ps\<rparr>) \<and>
     m_mode s' = Exec t ev \<and> m_pc s' = m_pc s \<and> m_flows s' = m_flows s \<and>
     m_dead s' = m_dead s \<and> m_sent s' = m_sent s"

lemma startEvent_idx [simp]: "ev_idx (startEvent h dd dry i t regs) = i"
  using settled_runTaskWithRetry [of i h t regs dry]
  by (auto simp: startEvent_def blankEvent_def settledAs_def)

lemma verdict_idx [simp]:
  "ev_idx (skippedTaskEvent i) = i" "ev_idx (foldedEvent s t) = int (m_pc s)" "ev_idx (whenErrorEvent i t er) = i"
  by (simp_all add: skippedTaskEvent_def foldedEvent_def whenErrorEvent_def flowControlErrorEvent_def)

lemma gateMove_effect:
  assumes t: "t = q_tasks q ! m_pc s" and g_def: "g = gating h (collected h q t s) t"
  shows "g = Skipped \<Longrightarrow> reportsAt q s (skippedTaskEvent (int (m_pc s))) (gateMove h q t s)"
    and "g = Folded \<Longrightarrow> reportsAt q s (foldedEvent (collected h q t s) t) (gateMove h q t s)"
    and "g = WhenFailed er \<Longrightarrow> reportsAt q s (whenErrorEvent (int (m_pc s)) t er) (gateMove h q t s)"
    and "g = Runs t' \<Longrightarrow> isAsync q t \<Longrightarrow>
      launchesAt q s \<lparr>fl_idx = int (m_pc s), fl_name = w_register t', fl_task = t',
        fl_wait = snd (barriers h (m_flows s) t), fl_stage = Waiting\<rparr> (gateMove h q t s)"
    and "g = Runs t' \<Longrightarrow> \<not> isAsync q t \<Longrightarrow>
      startsAt q s t' (startEvent h (m_dead s) (q_dryRun q) (int (m_pc s)) t' (m_byName s)) (gateMove h q t s)"
proof -
  note gm = gateMove_def [of h q t s] Let_def
  show "g = Skipped \<Longrightarrow> reportsAt q s (skippedTaskEvent (int (m_pc s))) (gateMove h q t s)"
    "g = Folded \<Longrightarrow> reportsAt q s (foldedEvent (collected h q t s) t) (gateMove h q t s)"
    "g = WhenFailed er \<Longrightarrow> reportsAt q s (whenErrorEvent (int (m_pc s)) t er) (gateMove h q t s)"
    unfolding g_def by (simp_all add: gm reportsAt_def sent_report flip: t)
  assume g: "g = Runs t'"
  then have "\<exists>ps. t' = t\<lparr>w_params := ps\<rparr>" unfolding g_def by (rule gating_task)
  moreover have "set (snd (barriers h (m_flows s) t)) \<subseteq> fl_idx ` set (m_flows s)"
    using barriers_sub by blast
  ultimately show
    "isAsync q t \<Longrightarrow> launchesAt q s \<lparr>fl_idx = int (m_pc s), fl_name = w_register t', fl_task = t',
        fl_wait = snd (barriers h (m_flows s) t), fl_stage = Waiting\<rparr> (gateMove h q t s)"
    "\<not> isAsync q t \<Longrightarrow>
      startsAt q s t' (startEvent h (m_dead s) (q_dryRun q) (int (m_pc s)) t' (m_byName s)) (gateMove h q t s)"
    using g unfolding g_def launchesAt_def startsAt_def by (simp_all add: gm launchFlow_def flip: t)
qed

text \<open>The same, with the case forgotten.\<close>

lemma gateMove_does:
  assumes "t = q_tasks q ! m_pc s"
  shows "(\<exists>ev. reportsAt q s ev (gateMove h q t s)) \<or> (\<exists>f. launchesAt q s f (gateMove h q t s)) \<or>
    (\<exists>t' ev. startsAt q s t' ev (gateMove h q t s))"
  using gateMove_effect [OF assms refl, of h]
  by (cases "gating h (collected h q t s) t"; cases "isAsync q t") blast+

section \<open>Some move is always enabled\<close>

definition flowsOrdered :: "machine \<Rightarrow> bool" where
  "flowsOrdered s \<longleftrightarrow>
     sorted_wrt (<) (map fl_idx (m_flows s)) \<and>
     (\<forall>f \<in> set (m_flows s). fl_idx f < int (m_pc s) \<and> (\<forall>i \<in> set (fl_wait f). i < fl_idx f) \<and>
        (\<forall>ev. fl_stage f = Running ev \<longrightarrow> ev_idx ev = fl_idx f))"

definition placed :: "apply_request \<Rightarrow> machine \<Rightarrow> bool" where
  "placed q s \<longleftrightarrow>
     (case m_mode s of
        Top \<Rightarrow> m_pc s \<le> length (q_tasks q)
      | Gate \<Rightarrow> m_pc s < length (q_tasks q)
      | Exec t ev \<Rightarrow> m_pc s < length (q_tasks q) \<and> ev_idx ev = int (m_pc s)
      | _ \<Rightarrow> m_pc s \<le> length (q_tasks q))"

lemma act_cases [consumes 1, case_names Main Flow Cancel]:
  assumes "act h limit q c s = Some s'"
  obtains "c = Main" "mainMove h q s = Some s'"
  | k where "c = Start k \<or> c = Finish k" "startMove h limit k s = Some s' \<or> finishMove q k s = Some s'"
  | "c = Cancel" "\<not> m_dead s" "\<not> ended s" "s' = s\<lparr>m_dead := True\<rparr>"
  using assms by (cases c) (auto split: if_splits)

lemma mainMove_cases [consumes 1, case_names Stop Open Close Task Over Drain]:
  assumes "mainMove h q s = Some s'"
  obtains "m_mode s = Top" "m_dead s" "m_pc s < length (q_tasks q)" "s' = s\<lparr>m_status := RS_CANCELLED, m_mode := Drain\<rparr>"
  | "m_mode s = Top" "\<not> m_dead s" "m_pc s < length (q_tasks q)" "s' = s\<lparr>m_mode := Gate\<rparr>"
  | "m_mode s = Top" "\<not> m_pc s < length (q_tasks q)" "s' = s\<lparr>m_mode := Drain\<rparr>"
  | "m_mode s = Gate" "allDone (m_flows s) (awaited h q s (q_tasks q ! m_pc s))"
      "s' = gateMove h q (q_tasks q ! m_pc s) s"
  | t ev where "m_mode s = Exec t ev" "s' = execMove q t ev s"
  | "m_mode s = Drain" "list_all isDone (m_flows s)" "s' = drainMove q s"
  using assms by (auto simp: mainMove_def Let_def split: mode.splits if_splits)

lemma execMove_frame [simp]:
  "m_flows (execMove q t ev s) = m_flows s" "m_dead (execMove q t ev s) = m_dead s"
  "m_sent (execMove q t ev s) = m_sent s @ [sentAs q t (finalEvent s (m_units s) t ev)]"
  by (simp_all add: execMove_def Let_def sent_report)

lemma execMove_mode:
  "m_mode (execMove q t ev s) = Drain \<and> m_pc (execMove q t ev s) = m_pc s \<and> m_status (execMove q t ev s) = RS_CANCELLED
     \<or> m_mode (execMove q t ev s) = Top \<and> m_pc (execMove q t ev s) = Suc (m_pc s)"
  by (simp add: execMove_def Let_def)

lemma drainMove_frame [simp]:
  "m_flows (drainMove q s) = m_flows s" "m_dead (drainMove q s) = m_dead s" "m_sent (drainMove q s) = m_sent s"
  "m_pc (drainMove q s) = m_pc s"
  by (simp_all add: drainMove_def Let_def)

lemma flowsOrdered_same:
  "flowsOrdered s \<Longrightarrow> m_flows s' = m_flows s \<Longrightarrow> m_pc s \<le> m_pc s' \<Longrightarrow> flowsOrdered s'"
  unfolding flowsOrdered_def by force

lemma placed_main:
  assumes "placed q s" "flowsOrdered s" "mainMove h q s = Some s'"
  shows "placed q s' \<and> flowsOrdered s'"
  using assms(3)
proof (cases rule: mainMove_cases)
  case Task
  have pc: "m_pc s < length (q_tasks q)" using assms(1) Task(1) by (simp add: placed_def)
  from gateMove_does [OF refl, of q s h] show ?thesis
  proof (elim disjE exE)
    fix ev assume "reportsAt q s ev (gateMove h q (q_tasks q ! m_pc s) s)"
    then show ?thesis
      using pc flowsOrdered_same [OF assms(2)] by (auto simp: reportsAt_def placed_def Task(3))
  next
    fix f assume "launchesAt q s f (gateMove h q (q_tasks q ! m_pc s) s)"
    then show ?thesis
      using pc assms(2) by (auto simp: launchesAt_def placed_def Task(3) flowsOrdered_def sorted_wrt_append)
  next
    fix t ev assume "startsAt q s t ev (gateMove h q (q_tasks q ! m_pc s) s)"
    then show ?thesis
      using pc flowsOrdered_same [OF assms(2)] by (auto simp: startsAt_def placed_def Task(3))
  qed
next
  case (Over t ev)
  then show ?thesis
    using execMove_mode [of q t ev s] flowsOrdered_same [OF assms(2), of s'] assms(1)
    by (auto simp: placed_def)
next
  case Drain
  then show ?thesis
    using flowsOrdered_same [OF assms(2), of s'] assms(1)
    by (auto simp: placed_def) (simp add: drainMove_def Let_def)
qed (use assms(1) flowsOrdered_same [OF assms(2), of s'] in \<open>auto simp: placed_def\<close>)

lemma flowsOrdered_stage:
  assumes "flowsOrdered s" "k < length (m_flows s)" "m_flows s' = (m_flows s)[k := (m_flows s ! k)\<lparr>fl_stage := st\<rparr>]"
    and "m_pc s' = m_pc s" "\<And>ev. st = Running ev \<Longrightarrow> ev_idx ev = fl_idx (m_flows s ! k)"
  shows "flowsOrdered s'"
proof -
  let ?g = "(m_flows s ! k)\<lparr>fl_stage := st\<rparr>"
  have idx: "map fl_idx (m_flows s') = map fl_idx (m_flows s)"
    using assms(2) by (auto simp: assms(3) nth_list_update intro: nth_equalityI)
  have "m_flows s ! k \<in> set (m_flows s)" using assms(2) by simp
  then have g: "fl_idx ?g < int (m_pc s) \<and> (\<forall>i \<in> set (fl_wait ?g). i < fl_idx ?g) \<and>
      (\<forall>ev. fl_stage ?g = Running ev \<longrightarrow> ev_idx ev = fl_idx ?g)"
    using assms(1,5) by (simp add: flowsOrdered_def)
  have "set (m_flows s') \<subseteq> insert ?g (set (m_flows s))"
    unfolding assms(3) by (rule set_update_subset_insert)
  then have "\<forall>f \<in> set (m_flows s'). fl_idx f < int (m_pc s) \<and> (\<forall>i \<in> set (fl_wait f). i < fl_idx f) \<and>
      (\<forall>ev. fl_stage f = Running ev \<longrightarrow> ev_idx ev = fl_idx f)"
    using g assms(1) unfolding flowsOrdered_def by blast
  then show ?thesis using assms(1) by (simp add: flowsOrdered_def idx assms(4))
qed

lemma reachable_ordered: "reachable h limit q s \<Longrightarrow> placed q s \<and> flowsOrdered s"
proof (induction rule: reachable.induct)
  case start
  then show ?case by (simp add: placed_def flowsOrdered_def initial_def)
next
  case (step s c s')
  from step.hyps(2) show ?case
  proof (cases rule: act_cases)
    case Main
    then show ?thesis using placed_main step.IH by blast
  next
    case (Flow k)
    note d = flowMove [OF Flow(2)]
    have "placed q s'" using step.IH unfolding placed_def d(4,5) by simp
    moreover have "flowsOrdered s'"
      using Flow(2)
    proof
      assume "startMove h limit k s = Some s'"
      note e = startMoveD [OF this]
      show ?thesis
        using step.IH e(1) flowsOrdered_stage [OF _ e(1), of s' "Running (startEvent h (m_dead s) False
          (fl_idx (m_flows s ! k)) (fl_task (m_flows s ! k)) (m_byName s))"]
        by (simp add: e(3))
    next
      assume "finishMove q k s = Some s'"
      then obtain ev where e: "k < length (m_flows s)" "s' = setStage k (Done (finalEvent s None (fl_task (m_flows s ! k)) ev))
          (report q (fl_task (m_flows s ! k)) (finalEvent s None (fl_task (m_flows s ! k)) ev) s)"
        by (rule finishMoveD)
      show ?thesis
        using step.IH e(1) flowsOrdered_stage [OF _ e(1), of s' "Done (finalEvent s None (fl_task (m_flows s ! k)) ev)"]
        by (simp add: e(2))
    qed
    ultimately show ?thesis ..
  next
    case Cancel
    then show ?thesis using step.IH by (auto simp: placed_def flowsOrdered_def split: mode.splits)
  qed
qed

lemma progress:
  assumes "reachable h limit q s" "\<not> ended s"
  shows "\<exists>c s'. c \<noteq> Cancel \<and> act h limit q c s = Some s'"
proof (cases "list_all isDone (m_flows s)")
  case True
  then have "allDone (m_flows s) is" for "is"
    by (auto simp: allDone_def list_all_iff flowAt_def find_Some_iff split: option.split)
  then have "mainMove h q s \<noteq> None"
    using assms(2) True by (auto simp: mainMove_def ended_def Let_def split: mode.splits)
  then show ?thesis by (intro exI [of _ Main]) auto
next
  case False
  have ord: "flowsOrdered s" using reachable_ordered [OF assms(1)] ..
  define k where "k = (LEAST k. k < length (m_flows s) \<and> \<not> isDone (m_flows s ! k))"
  have ex: "\<exists>k. k < length (m_flows s) \<and> \<not> isDone (m_flows s ! k)"
    using False by (auto simp: list_all_length)
  then have k: "k < length (m_flows s)" "\<not> isDone (m_flows s ! k)"
    unfolding k_def using LeastI_ex [OF ex] by blast+
  have before: "isDone (m_flows s ! j)" if "j < k" for j
    using not_less_Least [of j] that k(1) unfolding k_def by (metis (mono_tags, lifting) order_less_trans k_def)
  show ?thesis
  proof (cases "fl_stage (m_flows s ! k)")
    case (Done ev)
    then show ?thesis using k(2) by (simp add: isDone_def)
  next
    case (Running ev)
    then have "finishMove q k s \<noteq> None" using k(1) by (simp add: finishMove_def Let_def)
    then show ?thesis by (intro exI [of _ "Finish k"]) auto
  next
    case Waiting
    have wait: "allDone (m_flows s) (fl_wait (m_flows s ! k))"
      unfolding allDone_def list_all_iff
    proof (rule ballI)
      fix i assume i: "i \<in> set (fl_wait (m_flows s ! k))"
      show "case flowAt (m_flows s) i of None \<Rightarrow> True | Some f \<Rightarrow> isDone f"
      proof (cases "flowAt (m_flows s) i")
        case (Some f)
        then obtain j where j: "j < length (m_flows s)" "m_flows s ! j = f" "fl_idx f = i"
          by (auto simp: flowAt_def find_Some_iff)
        have "i < fl_idx (m_flows s ! k)"
          using ord i nth_mem [OF k(1)] by (auto simp: flowsOrdered_def)
        then have "j < k"
          using ord j k(1) by (auto simp: flowsOrdered_def sorted_wrt_iff_nth_less)
            (metis linorder_neqE_nat order_less_asym order_less_irrefl)
        then show ?thesis using before j Some by auto
      qed simp
    qed
    show ?thesis
    proof (cases "slotFree limit s")
      case True
      then have "startMove h limit k s \<noteq> None" using k(1) Waiting wait by (simp add: startMove_def Let_def)
      then show ?thesis by (intro exI [of _ "Start k"]) auto
    next
      case False
      then have "filter isRunning (m_flows s) \<noteq> []" by (auto simp: slotFree_def)
      then obtain j where j: "j < length (m_flows s)" "isRunning (m_flows s ! j)"
        by (auto simp: filter_empty_conv in_set_conv_nth)
      then have "finishMove q j s \<noteq> None"
        by (auto simp: finishMove_def isRunning_def Let_def split: stage.splits)
      then show ?thesis by (intro exI [of _ "Finish j"]) auto
    qed
  qed
qed

section \<open>No schedule is longer than a bound of the plan\<close>

fun stageWeight :: "stage \<Rightarrow> nat" where
  "stageWeight Waiting = 2"
| "stageWeight (Running ev) = 1"
| "stageWeight (Done ev) = 0"

definition flowsWeight :: "flow list \<Rightarrow> nat" where
  "flowsWeight fs = sum_list (map (stageWeight \<circ> fl_stage) fs)"

definition mainWeight :: "nat \<Rightarrow> machine \<Rightarrow> nat" where
  "mainWeight n s =
     (case m_mode s of
        Top \<Rightarrow> 5 * (n - m_pc s) + 2
      | Gate \<Rightarrow> 5 * (n - m_pc s) + 1
      | Exec t ev \<Rightarrow> 5 * (n - m_pc s)
      | Drain \<Rightarrow> 1
      | Ended r \<Rightarrow> 0)"

definition movesLeft :: "apply_request \<Rightarrow> machine \<Rightarrow> nat" where
  "movesLeft q s = mainWeight (length (q_tasks q)) s + flowsWeight (m_flows s) + (if m_dead s then 0 else 1)"

lemma main_decreases:
  assumes "placed q s" "mainMove h q s = Some s'"
  shows "movesLeft q s' < movesLeft q s"
  using assms(2)
proof (cases rule: mainMove_cases)
  case Task
  have pc: "m_pc s < length (q_tasks q)" using assms(1) Task(1) by (simp add: placed_def)
  then have n: "length (q_tasks q) - m_pc s = Suc (length (q_tasks q) - Suc (m_pc s))" by simp
  from gateMove_does [OF refl, of q s h] show ?thesis
    by (auto simp: Task(1,3) reportsAt_def launchesAt_def startsAt_def movesLeft_def mainWeight_def
        flowsWeight_def n)
next
  case (Over t ev)
  then have "m_pc s < length (q_tasks q)" using assms(1) by (simp add: placed_def)
  then have n: "length (q_tasks q) - m_pc s = Suc (length (q_tasks q) - Suc (m_pc s))" by simp
  show ?thesis
    using execMove_mode [of q t ev s] by (auto simp: Over movesLeft_def mainWeight_def n)
next
  case Drain
  have "\<exists>r. m_mode s' = Ended r" by (simp add: Drain drainMove_def Let_def)
  then show ?thesis using Drain by (auto simp: movesLeft_def mainWeight_def)
qed (auto simp: movesLeft_def mainWeight_def)

lemma flowsWeight_update:
  assumes "k < length fs" "stageWeight st < stageWeight (fl_stage (fs ! k))"
  shows "flowsWeight (fs[k := (fs ! k)\<lparr>fl_stage := st\<rparr>]) < flowsWeight fs"
proof -
  have "fs = take k fs @ fs ! k # drop (Suc k) fs" using assms(1) by (simp add: id_take_nth_drop)
  then have "flowsWeight fs = flowsWeight (take k fs @ fs ! k # drop (Suc k) fs)" by simp
  also have "\<dots> > flowsWeight (take k fs @ (fs ! k)\<lparr>fl_stage := st\<rparr> # drop (Suc k) fs)"
    using assms(2) by (simp add: flowsWeight_def)
  finally show ?thesis using assms(1) by (simp add: upd_conv_take_nth_drop)
qed

lemma act_decreases:
  assumes "reachable h limit q s" "act h limit q c s = Some s'"
  shows "movesLeft q s' < movesLeft q s"
  using assms(2)
proof (cases rule: act_cases)
  case Main
  then show ?thesis using main_decreases reachable_ordered [OF assms(1)] by blast
next
  case (Flow k)
  note d = flowMove [OF Flow(2)]
  have "flowsWeight (m_flows s') < flowsWeight (m_flows s)"
    using Flow(2)
  proof
    assume "startMove h limit k s = Some s'"
    note e = startMoveD [OF this]
    show ?thesis using flowsWeight_update [OF e(1)] e(2) by (simp add: e(3))
  next
    assume "finishMove q k s = Some s'"
    then obtain ev where e: "k < length (m_flows s)" "fl_stage (m_flows s ! k) = Running ev"
        "s' = setStage k (Done (finalEvent s None (fl_task (m_flows s ! k)) ev))
          (report q (fl_task (m_flows s ! k)) (finalEvent s None (fl_task (m_flows s ! k)) ev) s)"
      by (rule finishMoveD)
    show ?thesis using flowsWeight_update [OF e(1)] e(2) by (simp add: e(3))
  qed
  moreover have "mainWeight n s' = mainWeight n s" for n unfolding mainWeight_def d(4,5) ..
  ultimately show ?thesis by (simp add: movesLeft_def d(9))
next
  case Cancel
  have "mainWeight n (s\<lparr>m_dead := True\<rparr>) = mainWeight n s" for n
    by (simp add: mainWeight_def split: mode.split)
  then show ?thesis using Cancel by (simp add: movesLeft_def)
qed

lemma perform_length:
  assumes "reachable h limit q s" "perform h limit q cs s = Some s'"
  shows "length cs + movesLeft q s' \<le> movesLeft q s"
  using assms
proof (induction cs arbitrary: s)
  case (Cons c cs)
  then obtain s1 where "act h limit q c s = Some s1" "perform h limit q cs s1 = Some s'"
    by (auto split: option.splits)
  moreover from this have "reachable h limit q s1" using Cons.prems(1) reachable.step by blast
  ultimately show ?case using Cons.IH act_decreases [OF Cons.prems(1)] by fastforce
qed simp

lemma movesLeft_initial: "movesLeft q (initial q) = 5 * length (q_tasks q) + 3"
  by (simp add: movesLeft_def mainWeight_def flowsWeight_def initial_def)

section \<open>Every position is reported once\<close>

definition reported :: "machine \<Rightarrow> int multiset" where
  "reported s = mset (map (ev_idx \<circ> se_event) (m_sent s))"

definition openFlows :: "machine \<Rightarrow> int multiset" where
  "openFlows s = mset (map fl_idx (filter (Not \<circ> isDone) (m_flows s)))"

definition upTo :: "nat \<Rightarrow> int multiset" where
  "upTo n = mset (map int [0..<n])"

lemma upTo_Suc: "upTo (Suc n) = add_mset (int n) (upTo n)"
  by (simp add: upTo_def)

text \<open>The positions before the program counter are reported or open.\<close>

definition accounted :: "apply_request \<Rightarrow> machine \<Rightarrow> bool" where
  "accounted q s \<longleftrightarrow>
     (case m_mode s of
        Drain \<Rightarrow> (\<exists>m \<le> length (q_tasks q). reported s + openFlows s = upTo m \<and>
                   (m_status s \<noteq> RS_CANCELLED \<longrightarrow> m = length (q_tasks q)))
      | Ended r \<Rightarrow> list_all isDone (m_flows s) \<and> (\<exists>m \<le> length (q_tasks q). reported s = upTo m \<and>
                   (rr_status r \<noteq> RS_CANCELLED \<longrightarrow> m = length (q_tasks q)))
      | _ \<Rightarrow> reported s + openFlows s = upTo (m_pc s) \<and> m_status s \<noteq> RS_CANCELLED)"

lemma drained_status:
  assumes "m_mode (drainMove q s) = Ended r" "rr_status r \<noteq> RS_CANCELLED"
  shows "m_status s \<noteq> RS_CANCELLED"
  using assms by (auto simp: drainMove_def Let_def split: option.splits if_splits)

lemma status_kept:
  "m_status (noteRan i ev s) = RS_CANCELLED \<Longrightarrow> m_status s = RS_CANCELLED"
  "m_status (collected h q t s) = RS_CANCELLED \<Longrightarrow> m_status s = RS_CANCELLED"
  by (auto simp: noteRan_def collected_def Let_def split: option.splits if_splits)

lemma status_gateMove: "m_status (gateMove h q t s) = RS_CANCELLED \<Longrightarrow> m_status s = RS_CANCELLED"
  by (auto simp: gateMove_def Let_def launchFlow_def split: verdict.splits if_splits
      dest!: status_kept)

lemma status_execMove:
  "m_mode (execMove q t ev s) = Top \<Longrightarrow> m_status (execMove q t ev s) = RS_CANCELLED \<Longrightarrow> m_status s = RS_CANCELLED"
  by (auto simp: execMove_def Let_def split: if_splits dest!: status_kept)

lemma accounted_main:
  assumes acc: "accounted q s" and ord: "placed q s" and m: "mainMove h q s = Some s'"
  shows "accounted q s'"
  using m
proof (cases rule: mainMove_cases)
  case Stop
  then show ?thesis using acc by (auto simp: accounted_def reported_def openFlows_def intro: exI [of _ "m_pc s"])
next
  case Open
  then show ?thesis using acc by (simp add: accounted_def reported_def openFlows_def)
next
  case Close
  then have "m_pc s = length (q_tasks q)" using ord by (simp add: placed_def)
  then show ?thesis using acc Close by (auto simp: accounted_def reported_def openFlows_def)
next
  case Task
  have a: "reported s + openFlows s = upTo (m_pc s)" "m_status s' \<noteq> RS_CANCELLED"
    using acc Task status_gateMove by (auto simp: accounted_def)
  from gateMove_does [OF refl, of q s h] show ?thesis
  proof (elim disjE exE)
    fix ev assume r: "reportsAt q s ev (gateMove h q (q_tasks q ! m_pc s) s)"
    then have "m_mode s' = Top" "m_pc s' = Suc (m_pc s)" "reported s' = add_mset (int (m_pc s)) (reported s)"
      "openFlows s' = openFlows s"
      by (simp_all add: reportsAt_def Task(3) reported_def openFlows_def sentAs_def)
    then show ?thesis using a by (simp add: accounted_def upTo_Suc)
  next
    fix f assume r: "launchesAt q s f (gateMove h q (q_tasks q ! m_pc s) s)"
    then have "m_mode s' = Top" "m_pc s' = Suc (m_pc s)" "reported s' = reported s"
      "openFlows s' = add_mset (int (m_pc s)) (openFlows s)"
      by (auto simp: launchesAt_def Task(3) reported_def openFlows_def isDone_def)
    then show ?thesis using a by (simp add: accounted_def upTo_Suc)
  next
    fix t ev assume r: "startsAt q s t ev (gateMove h q (q_tasks q ! m_pc s) s)"
    then have "m_mode s' = Exec t ev" "m_pc s' = m_pc s" "reported s' = reported s" "openFlows s' = openFlows s"
      by (auto simp: startsAt_def Task(3) reported_def openFlows_def)
    then show ?thesis using a by (simp add: accounted_def)
  qed
next
  case (Over t ev)
  then have o: "m_pc s < length (q_tasks q)" "ev_idx ev = int (m_pc s)" using ord by (auto simp: placed_def)
  have "reported s' = add_mset (int (m_pc s)) (reported s)" "openFlows s' = openFlows s"
    using o(2) by (simp_all add: Over(2) reported_def sentAs_def openFlows_def)
  then have all: "reported s' + openFlows s' = upTo (Suc (m_pc s))"
    using acc Over(1) by (simp add: accounted_def upTo_Suc)
  from execMove_mode [of q t ev s] show ?thesis
  proof
    assume "m_mode (execMove q t ev s) = Drain \<and> m_pc (execMove q t ev s) = m_pc s \<and>
      m_status (execMove q t ev s) = RS_CANCELLED"
    then show ?thesis using all o(1) by (auto simp: accounted_def Over(2) intro!: exI [of _ "Suc (m_pc s)"])
  next
    assume e: "m_mode (execMove q t ev s) = Top \<and> m_pc (execMove q t ev s) = Suc (m_pc s)"
    then have "m_status s' \<noteq> RS_CANCELLED"
      using acc Over(1) status_execMove [of q t ev s] by (auto simp: accounted_def Over(2))
    then show ?thesis using all e by (simp add: accounted_def Over(2))
  qed
next
  case Drain
  have "openFlows s = {#}" using Drain(2) by (auto simp: openFlows_def list_all_iff filter_empty_conv)
  moreover obtain r where "m_mode s' = Ended r" by (simp add: Drain(3) drainMove_def Let_def)
  ultimately show ?thesis
    using acc Drain drained_status [of q s r] by (auto simp: accounted_def reported_def)
qed

lemma filter_update_same:
  assumes "k < length xs" "P y" "P (xs ! k)" "f y = f (xs ! k)"
  shows "mset (map f (filter P (xs[k := y]))) = mset (map f (filter P xs))"
proof -
  have "xs = take k xs @ xs ! k # drop (Suc k) xs" using assms(1) by (simp add: id_take_nth_drop)
  then have "mset (map f (filter P xs)) = mset (map f (filter P (take k xs @ xs ! k # drop (Suc k) xs)))" by simp
  then show ?thesis using assms by (simp add: upd_conv_take_nth_drop)
qed

lemma filter_update_out:
  assumes "k < length xs" "\<not> P y" "P (xs ! k)"
  shows "mset (map f (filter P xs)) = add_mset (f (xs ! k)) (mset (map f (filter P (xs[k := y]))))"
proof -
  have "xs = take k xs @ xs ! k # drop (Suc k) xs" using assms(1) by (simp add: id_take_nth_drop)
  then have "mset (map f (filter P xs)) = mset (map f (filter P (take k xs @ xs ! k # drop (Suc k) xs)))" by simp
  then show ?thesis using assms by (simp add: upd_conv_take_nth_drop)
qed

lemma accounted_flow:
  assumes acc: "accounted q s" and ord: "flowsOrdered s"
    and c: "startMove h limit k s = Some s' \<or> finishMove q k s = Some s'"
  shows "accounted q s'"
proof -
  note d = flowMove [OF c]
  have "reported s' + openFlows s' = reported s + openFlows s"
    using c
  proof
    assume "startMove h limit k s = Some s'"
    note e = startMoveD [OF this]
    have "openFlows s' = openFlows s"
      unfolding openFlows_def e(3) setStage_same
      by (rule filter_update_same [OF e(1)]) (simp_all add: isDone_def e(2))
    then show ?thesis by (simp add: e(3) reported_def)
  next
    assume "finishMove q k s = Some s'"
    then obtain ev where e: "k < length (m_flows s)" "fl_stage (m_flows s ! k) = Running ev"
        "s' = setStage k (Done (finalEvent s None (fl_task (m_flows s ! k)) ev))
          (report q (fl_task (m_flows s ! k)) (finalEvent s None (fl_task (m_flows s ! k)) ev) s)"
      by (rule finishMoveD)
    have "ev_idx ev = fl_idx (m_flows s ! k)" using ord e(1,2) by (auto simp: flowsOrdered_def)
    then have "reported s' = add_mset (fl_idx (m_flows s ! k)) (reported s)"
      by (simp add: e(3) reported_def sent_report sentAs_def)
    moreover have "openFlows s = add_mset (fl_idx (m_flows s ! k)) (openFlows s')"
      unfolding openFlows_def e(3) setStage_same report_frame
      by (rule filter_update_out [OF e(1)]) (simp_all add: isDone_def e(2))
    ultimately show ?thesis by simp
  qed
  moreover have "\<not> list_all isDone (m_flows s)" using d(1,2) by (auto simp: list_all_length)
  ultimately show ?thesis
    using acc unfolding accounted_def d(4,5,7) by (simp split: mode.splits)
qed

lemma reachable_accounted: "reachable h limit q s \<Longrightarrow> accounted q s"
proof (induction rule: reachable.induct)
  case start
  then show ?case by (simp add: accounted_def initial_def reported_def openFlows_def upTo_def)
next
  case (step s c s')
  note ord = reachable_ordered [OF step.hyps(1)]
  from step.hyps(2) show ?case
  proof (cases rule: act_cases)
    case Main
    then show ?thesis using accounted_main step.IH ord by blast
  next
    case (Flow k)
    then show ?thesis using accounted_flow step.IH ord by blast
  next
    case Cancel
    then show ?thesis using step.IH by (simp add: accounted_def reported_def openFlows_def split: mode.splits)
  qed
qed

lemma ended_done: "reachable h limit q s \<Longrightarrow> ended s \<Longrightarrow> list_all isDone (m_flows s)"
  using reachable_accounted [of h limit q s] by (auto simp: accounted_def ended_def split: mode.splits)

section \<open>A schedule without a Cancel is the plan\<close>

lemma dead_stays:
  assumes "act h limit q c s = Some s'" "m_dead s" shows "m_dead s'"
  using assms(1)
proof (cases rule: act_cases)
  case Main
  from Main(2) show ?thesis
  proof (cases rule: mainMove_cases)
    case Task
    show ?thesis
      using assms(2) gateMove_does [OF refl, of q s h]
      by (auto simp: Task reportsAt_def launchesAt_def startsAt_def)
  qed (use assms(2) in auto)
next
  case (Flow k)
  then show ?thesis using flowMove(9) [OF Flow(2)] assms(2) by simp
qed simp

lemma reachable_inStep:
  assumes "reachable h limit q s" "\<not> m_dead s" "evalLocal h" "planOrdered h (q_tasks q)"
  shows "inStep h q s"
  using assms(1,2)
proof (induction rule: reachable.induct)
  case start
  then show ?case using agrees_initial by (simp add: inStep_def) (simp add: initial_def)
next
  case (step s c s')
  have alive: "\<not> m_dead s" using dead_stays [OF step.hyps(2)] step.prems by blast
  note ih = step.IH [OF alive]
  from step.hyps(2) show ?case
  proof (cases rule: act_cases)
    case Main
    then show ?thesis using inStep_main [OF ih alive _ assms(3,4)] by blast
  next
    case (Flow k)
    have "\<not> ended s"
      using ended_done [OF step.hyps(1)] flowMove(1,2) [OF Flow(2)] by (auto simp: list_all_length)
    then show ?thesis using inStep_flow [OF ih alive Flow(1) step.hyps(2) assms(3,4)] by blast
  next
    case Cancel
    then show ?thesis using step.prems by simp
  qed
qed

end
