(* ===== verification/Keeper_Step.thy ===== *)
theory Keeper_Step
  imports Soul_Live Apply_Run
begin

text \<open>
  One step of a run on the Keeper, from the rendered plan to the messages of its hosts: names of
  requisites resolved to indexes (\<^verbatim>\<open>render/onchanges.go\<close>, \<^verbatim>\<open>require.go\<close>), the tasks of a step grouped by host
  and split into waves (\<^verbatim>\<open>scenario/dispatch.go\<close>), requisites on earlier steps decided from recorded facts
  (\<^verbatim>\<open>scenario/crosspassage.go\<close>), hosts settled before anything is sent (\<^verbatim>\<open>scenario/keeper_flow.go\<close>), the wire
  form of a host's slice (\<^verbatim>\<open>render/prototask.go\<close>), and the barrier that reads the rows (\<^verbatim>\<open>dispatch.go\<close>).

  A map keyed by host is an association list whose order stands for the unspecified iteration order; a
  map keyed by index is a partial function. Indexes and positions are those of one plan, far below the
  width of the wire's \<^verbatim>\<open>int32\<close>, so the narrowing is the identity and left out. A nil pointer to a task does
  not occur: the pipeline makes none. The wire tasks are those the Soul executes (\<open>wire_task\<close>), without the
  two fields no decision reads (\<^verbatim>\<open>SecretOutput\<close>, \<^verbatim>\<open>RetryDelay\<close>).
\<close>

section \<open>Rendered tasks\<close>

record flow_failure =
  ff_predicate :: string
  ff_code :: string
  ff_message :: string

record host_flow =
  hf_skip :: bool
  hf_unrendered :: bool
  hf_failure :: "flow_failure option"
  hf_when :: string
  hf_changedWhen :: string
  hf_failedWhen :: string
  hf_until :: string
  hf_rendered :: bool

record rendered_task =
  rt_index :: int
  rt_name :: string
  rt_module :: string
  rt_params :: gomap
  rt_register :: string
  rt_passage :: int
  rt_timeout :: string
  rt_when :: string
  rt_changedWhen :: string
  rt_failedWhen :: string
  rt_until :: string
  rt_retryCount :: int
  rt_flowContext :: gomap
  rt_onChangesIdx :: "int list"
  rt_onChangesNames :: "string list"
  rt_onFailIdx :: "int list"
  rt_onFailNames :: "string list"
  rt_async :: bool
  rt_requireIdx :: "int list"
  rt_requireAll :: bool
  rt_requireNames :: "string list"
  rt_aggregateOf :: "int list"
  rt_renderContextBySID :: "(string \<times> gomap) list"
  rt_paramsBySID :: "(string \<times> gomap) list"
  rt_flowBySID :: "(string \<times> host_flow) list"
  rt_grouped :: bool
  rt_rescueUnit :: string
  rt_onFailure :: string

record dispatch_plan =
  pl_taskIndex :: int
  pl_targetSIDs :: "string list"
  pl_serialWidth :: int
  pl_keeper :: bool
  pl_notReached :: "string list"

definition KeeperTargetSID :: string where "KeeperTargetSID = ''keeper''"

text \<open>The zero value of a missing key.\<close>

definition noFlow :: host_flow where
  "noFlow = \<lparr>hf_skip = False, hf_unrendered = False, hf_failure = None, hf_when = [], hf_changedWhen = [],
     hf_failedWhen = [], hf_until = [], hf_rendered = False\<rparr>"

definition flowOf :: "rendered_task \<Rightarrow> string \<Rightarrow> host_flow" where
  "flowOf t sid = (case map_of (rt_flowBySID t) sid of None \<Rightarrow> noFlow | Some hf \<Rightarrow> hf)"

definition whenFailed :: "flow_failure option \<Rightarrow> bool" where
  "whenFailed f = (case f of None \<Rightarrow> False | Some x \<Rightarrow> ff_predicate x = ''when'')"

section \<open>Requisite names\<close>

datatype render_error = ErrOnChangesUnknownRegister string string | ErrOnFailUnknownRegister string string
  | ErrRequireUnknownRegister string string | ErrRequireCrossPassage string string

definition registerIndex :: "rendered_task list \<Rightarrow> string \<Rightarrow> int list option" where
  "registerIndex ts n =
     (let is = map rt_index (filter (\<lambda>t. rt_register t \<noteq> [] \<and> rt_register t = n) ts)
      in if is = [] then None else Some is)"

fun resolveRegisterNames ::
    "(string \<Rightarrow> int list option) \<Rightarrow> string list \<Rightarrow> string \<Rightarrow> (string \<Rightarrow> string \<Rightarrow> render_error)
     \<Rightarrow> (render_error, int list) result" where
  "resolveRegisterNames m [] nm unknownErr = Inr []"
| "resolveRegisterNames m (n # ns) nm unknownErr =
     (case m n of
        None \<Rightarrow> Inl (unknownErr nm n)
      | Some is \<Rightarrow> (case resolveRegisterNames m ns nm unknownErr of Inl e \<Rightarrow> Inl e | Inr js \<Rightarrow> Inr (is @ js)))"

definition resolveOnChanges :: "rendered_task list \<Rightarrow> (render_error, rendered_task list) result" where
  "resolveOnChanges ts =
     map_result (\<lambda>t. if rt_onChangesNames t = [] then Inr t
       else case resolveRegisterNames (registerIndex ts) (rt_onChangesNames t) (rt_name t) ErrOnChangesUnknownRegister of
              Inl e \<Rightarrow> Inl e
            | Inr is \<Rightarrow> Inr (t\<lparr>rt_onChangesIdx := is\<rparr>)) ts"

definition resolveOnFail :: "rendered_task list \<Rightarrow> (render_error, rendered_task list) result" where
  "resolveOnFail ts =
     map_result (\<lambda>t. if rt_onFailNames t = [] then Inr t
       else case resolveRegisterNames (registerIndex ts) (rt_onFailNames t) (rt_name t) ErrOnFailUnknownRegister of
              Inl e \<Rightarrow> Inl e
            | Inr is \<Rightarrow> Inr (t\<lparr>rt_onFailIdx := is\<rparr>)) ts"

text \<open>A key that is missing reads as zero.\<close>

definition passageIndex :: "rendered_task list \<Rightarrow> int \<Rightarrow> int" where
  "passageIndex ts i =
     (case map_of (rev (map (\<lambda>t. (rt_index t, rt_passage t)) ts)) i of None \<Rightarrow> 0 | Some p \<Rightarrow> p)"

fun requireNamed ::
    "rendered_task list \<Rightarrow> rendered_task \<Rightarrow> string list \<Rightarrow> (render_error, int list) result" where
  "requireNamed ts t [] = Inr []"
| "requireNamed ts t (n # ns) =
     (case resolveRegisterNames (registerIndex ts) [n] (rt_name t) ErrRequireUnknownRegister of
        Inl e \<Rightarrow> Inl e
      | Inr is \<Rightarrow>
          if list_ex (\<lambda>i. passageIndex ts i > rt_passage t) is then Inl (ErrRequireCrossPassage (rt_name t) n)
          else (case requireNamed ts t ns of Inl e \<Rightarrow> Inl e | Inr js \<Rightarrow> Inr (is @ js)))"

definition resolveRequire :: "rendered_task list \<Rightarrow> (render_error, rendered_task list) result" where
  "resolveRequire ts =
     map_result (\<lambda>t. if rt_requireNames t = [] then Inr t
       else case requireNamed ts t (rt_requireNames t) of
              Inl e \<Rightarrow> Inl e
            | Inr is \<Rightarrow> Inr (t\<lparr>rt_requireIdx := is\<rparr>)) ts"

section \<open>The wire form of a host's slice\<close>

definition localIndexMap :: "rendered_task list \<Rightarrow> int \<rightharpoonup> int" where
  "localIndexMap ts = map_of (rev (zip (map rt_index ts) (map int [0..<length ts])))"

definition outOfRangeRequisite :: int where "outOfRangeRequisite = - 1"

definition remapRequisites :: "int list \<Rightarrow> (int \<rightharpoonup> int) \<Rightarrow> int list" where
  "remapRequisites gs m = map (\<lambda>g. case m g of Some l \<Rightarrow> l | None \<Rightarrow> outOfRangeRequisite) gs"

record wire_flow =
  wf_when :: string
  wf_changedWhen :: string
  wf_failedWhen :: string
  wf_until :: string
  wf_context :: gomap
  wf_rendered :: bool

definition skippedWhen :: string where "skippedWhen = ''false''"

definition flowForHost :: "rendered_task \<Rightarrow> string \<Rightarrow> wire_flow" where
  "flowForHost t sid =
     (case (if sid = [] then None else map_of (rt_flowBySID t) sid) of
        None \<Rightarrow> \<lparr>wf_when = rt_when t, wf_changedWhen = rt_changedWhen t, wf_failedWhen = rt_failedWhen t,
                 wf_until = rt_until t, wf_context = rt_flowContext t, wf_rendered = False\<rparr>
      | Some hf \<Rightarrow>
          if hf_skip hf
          then \<lparr>wf_when = skippedWhen, wf_changedWhen = [], wf_failedWhen = [], wf_until = [], wf_context = [],
                wf_rendered = False\<rparr>
          else \<lparr>wf_when = hf_when hf, wf_changedWhen = hf_changedWhen hf, wf_failedWhen = hf_failedWhen hf,
                wf_until = hf_until hf, wf_context = [], wf_rendered = hf_rendered hf\<rparr>)"

definition SentFlow :: "rendered_task \<Rightarrow> string \<Rightarrow> host_flow" where
  "SentFlow t sid =
     (let f = flowForHost t sid
      in noFlow\<lparr>hf_when := wf_when f, hf_changedWhen := wf_changedWhen f, hf_failedWhen := wf_failedWhen f,
                hf_until := wf_until f, hf_rendered := wf_rendered f\<rparr>)"

definition paramsForHost :: "rendered_task \<Rightarrow> string \<Rightarrow> gomap" where
  "paramsForHost t sid =
     (if sid = [] then rt_params t
      else if hf_unrendered (flowOf t sid) then []
      else case map_of (rt_paramsBySID t) sid of
             Some st \<Rightarrow> st
           | None \<Rightarrow>
               (case map_of (rt_renderContextBySID t) sid of
                  None \<Rightarrow> rt_params t
                | Some rc \<Rightarrow> AList.update ''render_context'' (VMap rc) (rt_params t)))"

definition PlanIsPerHost :: "rendered_task list \<Rightarrow> bool" where
  "PlanIsPerHost ts = list_ex (\<lambda>t. rt_paramsBySID t \<noteq> [] \<or> rt_flowBySID t \<noteq> []) ts"

definition toProtoTask :: "(int \<rightharpoonup> int) \<Rightarrow> string \<Rightarrow> rendered_task \<Rightarrow> wire_task" where
  "toProtoTask m sid t =
     (let f = flowForHost t sid
      in \<lparr>w_name = rt_name t, w_module = rt_module t, w_params = paramsForHost t sid, w_timeout = rt_timeout t,
          w_onchanges = remapRequisites (rt_onChangesIdx t) m, w_onfail = remapRequisites (rt_onFailIdx t) m,
          w_aggregate = remapRequisites (rt_aggregateOf t) m, w_async = rt_async t,
          w_require = remapRequisites (rt_requireIdx t) m, w_requireAll = rt_requireAll t,
          w_when = wf_when f, w_changedWhen = wf_changedWhen f, w_failedWhen = wf_failedWhen f,
          w_flow = wf_context f, w_register = rt_register t, w_until = wf_until f,
          w_retryCount = rt_retryCount t, w_rescueUnit = 0, w_planIndex = rt_index t\<rparr>)"

definition ToProtoTasksForHost :: "rendered_task list \<Rightarrow> string \<Rightarrow> wire_task list" where
  "ToProtoTasksForHost ts sid = map (toProtoTask (localIndexMap ts) sid) ts"

definition ToProtoTasks :: "rendered_task list \<Rightarrow> wire_task list" where
  "ToProtoTasks ts = ToProtoTasksForHost ts []"

section \<open>Requisites on earlier steps\<close>

type_synonym task_key = "string \<times> int"

record cross_gate =
  cg_passageByIndex :: "int \<rightharpoonup> int"
  cg_aggregateOf :: "int \<rightharpoonup> int list"
  cg_keeperSide :: "int \<Rightarrow> bool"
  cg_changed :: "task_key set"
  cg_failed :: "task_key set"
  cg_unitFailed :: "(string \<Rightarrow> string \<Rightarrow> bool) option"

definition newCrossPassageGate ::
    "rendered_task list \<Rightarrow> dispatch_plan list \<Rightarrow> task_key set \<Rightarrow> task_key set \<Rightarrow> cross_gate" where
  "newCrossPassageGate ts plans changed failed =
     \<lparr>cg_passageByIndex = map_of (rev (map (\<lambda>t. (rt_index t, rt_passage t)) ts)),
      cg_aggregateOf = map_of (rev (map (\<lambda>t. (rt_index t, rt_aggregateOf t)) (filter (\<lambda>t. rt_aggregateOf t \<noteq> []) ts))),
      cg_keeperSide = (\<lambda>i. list_ex (\<lambda>pl. pl_keeper pl \<and> pl_taskIndex pl = i) plans),
      cg_changed = changed, cg_failed = failed, cg_unitFailed = None\<rparr>"

text \<open>A source in an earlier step than the consumer; an unknown one counts as of the same step.\<close>

definition isCross :: "cross_gate \<Rightarrow> int \<Rightarrow> int \<Rightarrow> bool" where
  "isCross g p i = (case cg_passageByIndex g i of None \<Rightarrow> False | Some p' \<Rightarrow> p' < p)"

definition splitRequisite :: "cross_gate \<Rightarrow> int list \<Rightarrow> int \<Rightarrow> int list \<times> int list" where
  "splitRequisite g is p = (filter (isCross g p) is, filter (\<lambda>i. \<not> isCross g p i) is)"

definition factIndices :: "cross_gate \<Rightarrow> int \<Rightarrow> int list" where
  "factIndices g i = (case cg_aggregateOf g i of Some ch \<Rightarrow> ch | None \<Rightarrow> [i])"

definition anyKey :: "cross_gate \<Rightarrow> task_key set \<Rightarrow> string \<Rightarrow> int list \<Rightarrow> bool" where
  "anyKey g ks sid srcs =
     list_ex (\<lambda>i. list_ex (\<lambda>f. (if cg_keeperSide g f then KeeperTargetSID else sid, f) \<in> ks) (factIndices g i)) srcs"

text \<open>The requisites of one kind left on the wire; \<open>None\<close> excludes the task from the host.\<close>

definition resolveKind ::
    "cross_gate \<Rightarrow> task_key set \<Rightarrow> string \<Rightarrow> int list \<Rightarrow> int list \<Rightarrow> int list option" where
  "resolveKind g ks sid cross same =
     (if cross = [] then Some same
      else if anyKey g ks sid cross then Some []
      else if same \<noteq> [] then Some same
      else None)"

definition resolveTask :: "cross_gate \<Rightarrow> rendered_task \<Rightarrow> string \<Rightarrow> int \<Rightarrow> rendered_task option" where
  "resolveTask g t sid p =
     (let (chCross, chSame) = splitRequisite g (rt_onChangesIdx t) p;
          (flCross, flSame) = splitRequisite g (rt_onFailIdx t) p
      in if chCross = [] \<and> flCross = [] then Some t
         else case (resolveKind g (cg_changed g) sid chCross chSame, resolveKind g (cg_failed g) sid flCross flSame) of
                (Some ch, Some fl) \<Rightarrow> Some (t\<lparr>rt_onChangesIdx := ch, rt_onFailIdx := fl\<rparr>)
              | _ \<Rightarrow> None)"

type_synonym per_host = "(string \<times> rendered_task list) list"

definition applyGate :: "cross_gate option \<Rightarrow> per_host \<Rightarrow> int \<Rightarrow> per_host" where
  "applyGate go ph p =
     (case go of
        None \<Rightarrow> ph
      | Some g \<Rightarrow>
          filter (\<lambda>(sid, ts). ts \<noteq> []) (map (\<lambda>(sid, ts). (sid, List.map_filter (\<lambda>t. resolveTask g t sid p) ts)) ph))"

section \<open>Hosts settled on the Keeper\<close>

record keeper_record =
  kr_task :: rendered_task
  kr_localIdx :: int
  kr_status :: task_status
  kr_failure :: "flow_failure option"

record settled_host =
  sh_records :: "keeper_record list"
  sh_failed :: bool

record task_verdict =
  tv_task :: rendered_task
  tv_pos :: int
  tv_skip :: bool
  tv_failure :: "flow_failure option"

definition hostVerdict :: "cross_gate option \<Rightarrow> rendered_task \<Rightarrow> string \<Rightarrow> int \<Rightarrow> int \<Rightarrow> task_verdict" where
  "hostVerdict go t sid p pos =
     (let hf = flowOf t sid;
          v = \<lparr>tv_task = t, tv_pos = pos, tv_skip = False, tv_failure = None\<rparr>;
          unitLost = (case go of None \<Rightarrow> False
            | Some g \<Rightarrow> (case cg_unitFailed g of None \<Rightarrow> False
                | Some f \<Rightarrow> rt_rescueUnit t \<noteq> [] \<and> f sid (rt_rescueUnit t)))
      in if unitLost then v\<lparr>tv_skip := True\<rparr>
         else if whenFailed (hf_failure hf) then v\<lparr>tv_failure := hf_failure hf\<rparr>
         else if hf_skip hf then v\<lparr>tv_skip := True\<rparr>
         else case (case go of None \<Rightarrow> Some t | Some g \<Rightarrow> resolveTask g t sid p) of
                None \<Rightarrow> v\<lparr>tv_skip := True\<rparr>
              | Some t' \<Rightarrow> if hf_failure hf \<noteq> None then v\<lparr>tv_failure := hf_failure hf\<rparr> else v\<lparr>tv_task := t'\<rparr>)"

definition skippedOn :: "rendered_task \<Rightarrow> string \<Rightarrow> rendered_task" where
  "skippedOn t sid =
     t\<lparr>rt_flowBySID := [(sid, noFlow\<lparr>hf_skip := True, hf_unrendered := hf_unrendered (flowOf t sid)\<rparr>)],
       rt_onChangesIdx := [], rt_onFailIdx := [], rt_requireIdx := [], rt_requireAll := False\<rparr>"

definition recordAs :: "task_verdict \<Rightarrow> task_status \<Rightarrow> flow_failure option \<Rightarrow> keeper_record" where
  "recordAs v st f = \<lparr>kr_task = tv_task v, kr_localIdx = tv_pos v, kr_status = st, kr_failure = f\<rparr>"

definition siblingFailure :: "task_verdict \<Rightarrow> flow_failure option" where
  "siblingFailure why =
     map_option (\<lambda>f. f\<lparr>ff_message := ''task '' @ goQ (rt_name (tv_task why)) @ '' failed on this host before dispatch: ''
       @ ff_message f\<rparr>) (tv_failure why)"

definition failedHost :: "task_verdict list \<Rightarrow> nat \<Rightarrow> settled_host" where
  "failedHost vs cause =
     (let why = vs ! cause; sib = siblingFailure why;
          others = map snd (filter (\<lambda>(i, v). i \<noteq> cause) (zip [0..<length vs] vs))
      in \<lparr>sh_records = recordAs why TS_FAILED (tv_failure why) #
            map (\<lambda>v. if tv_skip v then recordAs v TS_SKIPPED None
                     else if tv_failure v \<noteq> None then recordAs v TS_FAILED (tv_failure v)
                     else recordAs v TS_FAILED sib) others,
          sh_failed = True\<rparr>)"

text \<open>The position of the first verdict that fails, if any.\<close>

definition causeOf :: "task_verdict list \<Rightarrow> nat option" where
  "causeOf vs = find (\<lambda>i. tv_failure (vs ! i) \<noteq> None) [0..<length vs]"

definition keptOf :: "string \<Rightarrow> task_verdict list \<Rightarrow> rendered_task list" where
  "keptOf sid vs =
     List.map_filter (\<lambda>v. if \<not> tv_skip v then Some (tv_task v)
       else if rt_grouped (tv_task v) then Some (skippedOn (tv_task v) sid) else None) vs"

definition skippedRecords :: "task_verdict list \<Rightarrow> keeper_record list" where
  "skippedRecords vs =
     map (\<lambda>v. recordAs v TS_SKIPPED None) (filter (\<lambda>v. tv_skip v \<and> \<not> rt_grouped (tv_task v)) vs)"

text \<open>What one host is sent, and what the Keeper records for it.\<close>

definition settleHost ::
    "cross_gate option \<Rightarrow> int \<Rightarrow> string \<Rightarrow> rendered_task list \<Rightarrow> rendered_task list \<times> settled_host option" where
  "settleHost go p sid ts =
     (let vs = map (\<lambda>(pos, t). hostVerdict go t sid p (int pos)) (zip [0..<length ts] ts)
      in case causeOf vs of
           Some c \<Rightarrow> ([], Some (failedHost vs c))
         | None \<Rightarrow>
             (keptOf sid vs,
              if skippedRecords vs = [] then None
              else Some \<lparr>sh_records = skippedRecords vs, sh_failed = False\<rparr>))"

definition settleHosts ::
    "per_host \<Rightarrow> cross_gate option \<Rightarrow> int \<Rightarrow> per_host \<times> (string \<times> settled_host) list" where
  "settleHosts ph go p =
     (filter (\<lambda>(sid, ts). ts \<noteq> []) (map (\<lambda>(sid, ts). (sid, fst (settleHost go p sid ts))) ph),
      List.map_filter (\<lambda>(sid, ts). map_option (Pair sid) (snd (settleHost go p sid ts))) ph)"

definition numberedAfter :: "keeper_record list \<Rightarrow> nat \<Rightarrow> keeper_record list" where
  "numberedAfter rs sent = map (\<lambda>(i, r). r\<lparr>kr_localIdx := int (sent + i)\<rparr>) (zip [0..<length rs] rs)"

definition sendsIn :: "string list \<Rightarrow> (string \<Rightarrow> bool) \<Rightarrow> string list" where
  "sendsIn wave failed = filter (\<lambda>sid. \<not> failed sid) wave"

definition failedBeforeSend :: "(string \<times> settled_host) list \<Rightarrow> string list \<Rightarrow> string \<Rightarrow> bool" where
  "failedBeforeSend settled cs sid =
     (sid \<in> set cs \<and> (case map_of settled sid of None \<Rightarrow> False | Some sh \<Rightarrow> sh_failed sh))"

definition closedHosts :: "(string \<times> settled_host) list \<Rightarrow> per_host \<Rightarrow> string list" where
  "closedHosts settled ph = sort (filter (\<lambda>sid. map_of ph sid = None) (map fst settled))"

definition keeperRecordRegister :: "task_status \<Rightarrow> struct" where
  "keeperRecordRegister st =
     [''changed'' \<mapsto> VBool False, ''failed'' \<mapsto> VBool (st = TS_FAILED), ''timed_out'' \<mapsto> VBool False,
      ''skipped'' \<mapsto> VBool (st = TS_SKIPPED)]"

definition recordEvent :: "keeper_record \<Rightarrow> int \<Rightarrow> sent_event" where
  "recordEvent r p =
     \<lparr>se_plan = rt_index (kr_task r), se_passage = p,
      se_event = \<lparr>ev_idx = kr_localIdx r, ev_status = kr_status r,
        ev_error = map_option (\<lambda>f. \<lparr>te_code = ff_code f, te_module = rt_module (kr_task r), te_message = ff_message f\<rparr>)
          (kr_failure r),
        ev_register = Some (keeperRecordRegister (kr_status r)), ev_notices = []\<rparr>\<rparr>"

definition closedStatus :: "settled_host \<Rightarrow> status" where
  "closedStatus sh = (if sh_failed sh then StatusFailed else StatusSuccess)"

section \<open>Dispatch\<close>

definition tasksForPassage ::
    "rendered_task list \<Rightarrow> dispatch_plan list \<Rightarrow> int \<Rightarrow> rendered_task list \<times> dispatch_plan list" where
  "tasksForPassage ts plans p =
     (let ts' = filter (\<lambda>t. rt_passage t = p) ts
      in (ts', filter (\<lambda>pl. \<not> pl_keeper pl \<and> pl_taskIndex pl \<in> set (map rt_index ts')) plans))"

definition taskByIndex :: "rendered_task list \<Rightarrow> int \<Rightarrow> rendered_task option" where
  "taskByIndex ts i = find (\<lambda>t. rt_index t = i) (rev ts)"

definition addTask :: "rendered_task \<Rightarrow> per_host \<Rightarrow> string \<Rightarrow> per_host" where
  "addTask t ph sid =
     AList.update sid ((case map_of ph sid of None \<Rightarrow> [] | Some ts \<Rightarrow> ts) @ [t]) ph"

definition groupPlan :: "rendered_task list \<Rightarrow> per_host \<Rightarrow> dispatch_plan \<Rightarrow> per_host" where
  "groupPlan ts ph pl =
     (if pl_keeper pl then ph
      else case taskByIndex ts (pl_taskIndex pl) of
             None \<Rightarrow> ph
           | Some t \<Rightarrow> foldl (addTask t) ph (pl_targetSIDs pl))"

definition groupByHost :: "rendered_task list \<Rightarrow> dispatch_plan list \<Rightarrow> per_host" where
  "groupByHost ts plans = foldl (groupPlan ts) [] plans"

definition sortedSIDs :: "per_host \<Rightarrow> string list" where
  "sortedSIDs ph = sort (map fst ph)"

definition effectiveSerialWidth :: "dispatch_plan list \<Rightarrow> int" where
  "effectiveSerialWidth plans =
     foldl (\<lambda>w pl. if pl_serialWidth pl \<le> 0 then w
                   else if w = 0 \<or> pl_serialWidth pl < w then pl_serialWidth pl else w) 0 plans"

function waveLoop :: "'a list \<Rightarrow> nat \<Rightarrow> 'a list list" where
  "waveLoop xs w = (if xs = [] \<or> w = 0 then [] else take w xs # waveLoop (drop w xs) w)"
  by pat_completeness auto
termination
  by (relation "measure (\<lambda>(xs, w). length xs)") auto

declare waveLoop.simps [simp del]

definition splitWaves :: "string list \<Rightarrow> int \<Rightarrow> string list list" where
  "splitWaves sids width =
     (if width \<le> 0 \<or> width \<ge> int (length sids) then [sids] else waveLoop sids (nat width))"

text \<open>
  The hosts of a step before its first wave (\<^verbatim>\<open>dispatchPassage\<close>): what each is sent, the hosts closed at once with
  every task skipped, and the waves of the others, in which a host the Keeper failed takes its place.
\<close>

record step_plan =
  sp_perHost :: per_host
  sp_settled :: "(string \<times> settled_host) list"
  sp_skipped :: "string list"
  sp_waves :: "string list list"

definition planStep ::
    "bool \<Rightarrow> cross_gate option \<Rightarrow> int \<Rightarrow> rendered_task list \<Rightarrow> dispatch_plan list \<Rightarrow> step_plan" where
  "planStep isLinear go p ts plans =
     (let (ph, settled) = (if isLinear then settleHosts (groupByHost ts plans) go p
                           else (applyGate go (groupByHost ts plans) p, []));
          cs = closedHosts settled ph;
          early = failedBeforeSend settled cs;
          sids = sort (sortedSIDs ph @ filter early cs)
      in \<lparr>sp_perHost = ph, sp_settled = settled, sp_skipped = filter (\<lambda>sid. \<not> early sid) cs,
          sp_waves = if sids = [] then [] else splitWaves sids (effectiveSerialWidth plans)\<rparr>)"

section \<open>The barrier\<close>

definition cancelRequested :: "'r run_row list \<Rightarrow> bool" where
  "cancelRequested rs = list_ex CancelRequested rs"

definition onlyDispatchedOpen :: "'r run_row list \<Rightarrow> bool" where
  "onlyDispatchedOpen rs \<longleftrightarrow>
     list_ex (\<lambda>r. Status r = StatusDispatched) rs \<and>
     \<not> list_ex (\<lambda>r. Status r = StatusPlanned \<or> Status r = StatusClaimed) rs"

definition failureReason :: "'r run_row \<Rightarrow> string" where
  "failureReason r = (case ErrorSummary r of None \<Rightarrow> Status r | Some s \<Rightarrow> s)"

definition failedPlanIndex :: "'r run_row \<Rightarrow> int option" where
  "failedPlanIndex r = (case FailedPlanIndex r of Some i \<Rightarrow> Some i | None \<Rightarrow> TaskIdx r)"

text \<open>The loop of \<open>classifyExcept\<close>: the error names the host, its status and the reason.\<close>

fun classifyLoop ::
    "int \<Rightarrow> (string \<Rightarrow> bool) \<Rightarrow> nat \<Rightarrow> 'r run_row list \<Rightarrow> (string \<times> status \<times> string, nat) result" where
  "classifyLoop p early n [] = Inr n"
| "classifyLoop p early n (r # rs) =
     (if Passage r \<noteq> p \<or> SID r = KeeperTargetSID then classifyLoop p early n rs
      else if Status r = StatusSuccess \<or> Status r = StatusNoMatch then classifyLoop p early (Suc n) rs
      else if Status r = StatusFailed \<or> Status r = StatusCancelled \<or> Status r = StatusOrphaned then
        (if Status r = StatusFailed \<and> early (SID r) then classifyLoop p early (Suc n) rs
         else Inl (SID r, Status r, failureReason r))
      else classifyLoop p early n rs)"

definition classifyExcept ::
    "'r run_row list \<Rightarrow> int \<Rightarrow> nat \<Rightarrow> (string \<Rightarrow> bool) \<Rightarrow> (string \<times> status \<times> string, bool) result" where
  "classifyExcept rs p want early =
     (case classifyLoop p early 0 rs of Inl e \<Rightarrow> Inl e | Inr n \<Rightarrow> Inr (n \<ge> want))"

definition classify :: "'r run_row list \<Rightarrow> int \<Rightarrow> nat \<Rightarrow> (string \<times> status \<times> string, bool) result" where
  "classify rs p want = classifyExcept rs p want (\<lambda>_. False)"

section \<open>Rescue routing\<close>

definition rescueIndices :: "rendered_task list \<Rightarrow> cross_gate option \<Rightarrow> int \<Rightarrow> int \<rightharpoonup> bool" where
  "rescueIndices ts go p =
     (case go of
        None \<Rightarrow> Map.empty
      | Some g \<Rightarrow>
          let own = map rt_index (filter (\<lambda>t. fst (splitRequisite g (rt_onFailIdx t) p) \<noteq> []) ts)
          in foldl (\<lambda>m t. if list_ex (\<lambda>c. m c = Some True) (rt_aggregateOf t) then m(rt_index t \<mapsto> False) else m)
               (\<lambda>i. if i \<in> set own then Some True else None) ts)"

definition rescueFires ::
    "cross_gate option \<Rightarrow> int \<Rightarrow> rendered_task list \<Rightarrow> string \<Rightarrow> int \<Rightarrow> bool" where
  "rescueFires go p ts sid i =
     (case (go, taskByIndex ts i) of
        (Some g, Some t) \<Rightarrow> anyKey g (cg_failed g) sid (fst (splitRequisite g (rt_onFailIdx t) p))
      | _ \<Rightarrow> False)"

fun rescueWave ::
    "string list \<Rightarrow> per_host \<Rightarrow> (string \<Rightarrow> bool) \<Rightarrow> (string \<times> settled_host) list \<Rightarrow> (int \<rightharpoonup> bool)
     \<Rightarrow> (string \<Rightarrow> int \<Rightarrow> bool) \<Rightarrow> string list \<times> per_host" where
  "rescueWave [] ph early settled rescues fires = ([], ph)"
| "rescueWave (sid # wave) ph early settled rescues fires =
     (if early sid then
        (let stays = (case map_of settled sid of
                        Some sh \<Rightarrow> (case sh_records sh of
                            r # _ \<Rightarrow> rescues (rt_index (kr_task r)) = Some True \<and> fires sid (rt_index (kr_task r))
                          | [] \<Rightarrow> False)
                      | None \<Rightarrow> False);
             (out, ph') = rescueWave wave ph early settled rescues fires
         in (if stays then sid # out else out, ph'))
      else
        (let ts = (case map_of ph sid of None \<Rightarrow> [] | Some ts \<Rightarrow> ts);
             keep = filter (\<lambda>t. rescues (rt_index t) \<noteq> None) ts;
             firing = list_ex (\<lambda>t. rescues (rt_index t) = Some True \<and> fires sid (rt_index t)) ts
         in if firing
            then (let (out, ph') = rescueWave wave (AList.update sid keep ph) early settled rescues fires in (sid # out, ph'))
            else rescueWave wave ph early settled rescues fires))"

definition targetedTasks :: "rendered_task list \<Rightarrow> dispatch_plan list \<Rightarrow> rendered_task list" where
  "targetedTasks ts plans =
     filter (\<lambda>t. list_ex (\<lambda>pl. pl_targetSIDs pl \<noteq> [] \<and> pl_taskIndex pl = rt_index t) plans) ts"

definition rescueAhead :: "(int \<times> string list) list \<Rightarrow> int \<Rightarrow> bool" where
  "rescueAhead steps step = list_ex (\<lambda>(s, _). s > step) steps"

end
