(* ===== verification/Soul_Verdict.thy ===== *)
theory Soul_Verdict
  imports Soul_Live
begin

text \<open>
  What the result of a message says of its failures, on every schedule: a message without rescue units
  reports SUCCESS only if no task failed, and one with units only if every failure outside a unit was
  handled; and in a message without units, once a task of the main flow failed, an ordinary task is
  only skipped or folded. The properties of the component and their witnesses stand at the end.
\<close>

section \<open>The rescue rule under a run\<close>

lemma tasks_rule [simp]:
  "r_tasks (Ran r i b) = r_tasks r" "r_tasks (holdSource r i m) = r_tasks r" "r_tasks (Fail r i m) = r_tasks r"
  by (simp_all add: Ran_def Let_def holdSource_def Fail_def)

lemma tasks_handle [simp]: "r_tasks (foldl handleOne r ss) = r_tasks r"
  by (induction ss arbitrary: r) (simp_all add: handleOne_def)

lemma tasks_Decide [simp]: "r_tasks (fst (Decide r u b)) = r_tasks r"
  by (simp add: Decide_def Let_def)

definition seen :: "rescue_rule \<Rightarrow> int \<Rightarrow> bool" where
  "seen r i \<longleftrightarrow> r_failures r i \<noteq> None"

text \<open>An operation of the driver keeps the invariant, the tasks, and every failure seen.\<close>

definition evolves :: "rescue_rule \<Rightarrow> rescue_rule \<Rightarrow> bool" where
  "evolves r r' \<longleftrightarrow> (rule_inv r \<longrightarrow> rule_inv r') \<and> r_tasks r' = r_tasks r \<and> (\<forall>i. seen r i \<longrightarrow> seen r' i)"

lemma evolves_refl [simp]: "evolves r r" by (simp add: evolves_def)

lemma evolves_trans: "evolves a b \<Longrightarrow> evolves b c \<Longrightarrow> evolves a c" by (simp add: evolves_def)

lemma evolves_Ran [simp]: "evolves r (Ran r i b)"
  by (simp add: evolves_def rule_inv_Ran seen_def)

lemma evolves_Fail [simp]: "evolves r (Fail r i m)"
  using failures_Fail [of r i m] by (auto simp: evolves_def rule_inv_Fail seen_def)

lemma seen_handle: "seen r i \<Longrightarrow> seen (foldl handleOne r ss) i"
  by (induction ss arbitrary: r) (auto simp: handleOne_def seen_def)

lemma evolves_Decide [simp]: "evolves r (fst (Decide r u b))"
proof -
  have "seen (setUnit u x r) i = seen r i" for x i by (simp add: seen_def)
  then show ?thesis
    by (auto simp: evolves_def rule_inv_Decide) (auto simp: Decide_def Let_def intro: seen_handle)
qed

lemma evolves_observe [simp]: "evolves r (observe fs is r)"
proof (induction "is" arbitrary: r)
  case (Cons i "is")
  have "evolves r (observeOne fs i r)" by (simp add: observeOne_def split: option.split)
  then show ?case using Cons evolves_trans by (fastforce simp: observe_def)
qed (simp add: observe_def)

lemma evolves_settle [simp]: "evolves (su_rule x) (su_rule (settle fs pos x))"
proof -
  have "evolves r (fst (settleUnits fs pos r us))" for r us
  proof (induction us arbitrary: r)
    case (Cons u us)
    have "evolves r (fst (Decide (observe fs (s_flows u) r) (s_id u) b))" for b
      using evolves_trans [OF evolves_observe evolves_Decide] .
    then show ?case using evolves_trans [OF _ Cons.IH] by simp
  qed simp
  then show ?thesis by (simp add: settle_def case_prod_beta)
qed

lemma evolves_ran [simp]: "evolves r (ranTask r i ev)"
  by (auto simp: ranTask_def Let_def intro: evolves_trans [OF evolves_Ran evolves_Fail])

text \<open>A failed task outside every unit, other than an applier's terminal, is seen once observed.\<close>

definition isSource :: "rescue_rule \<Rightarrow> int \<Rightarrow> bool" where
  "isSource r i \<longleftrightarrow> t_unit (taskAt r i) = 0 \<and> \<not> t_terminal (taskAt r i)"

lemma seen_Fail: "isSource r i \<Longrightarrow> seen (Fail r i m) i"
  by (auto simp: Fail_def Let_def isSource_def holdSource_def seen_def)

lemma isSource_evolves: "evolves r r' \<Longrightarrow> isSource r' i = isSource r i"
  by (simp add: evolves_def isSource_def taskAt_def)

lemma seen_ran: "isSource r i \<Longrightarrow> failedStatus (ev_status ev) \<Longrightarrow> seen (ranTask r i ev) i"
  using seen_Fail [of "Ran r i True" i] isSource_evolves [OF evolves_Ran]
  by (auto simp: ranTask_def Let_def failedStatus_def)

lemma seen_observe:
  assumes "isSource r i" "i \<in> set is" "flowEvent fs i = Some ev" "failedStatus (ev_status ev)"
  shows "seen (observe fs is r) i"
  using assms(1,2)
proof (induction "is" arbitrary: r)
  case (Cons j js)
  have ev: "evolves r (observeOne fs j r)" by (simp add: observeOne_def split: option.split)
  show ?case
  proof (cases "j = i")
    case True
    have "seen (observeOne fs j r) i"
      using Cons.prems(1) assms(3,4) True by (simp add: observeOne_def seen_Fail)
    then show ?thesis
      using evolves_observe [of "observeOne fs j r" fs js] by (simp add: observe_def evolves_def)
  next
    case False
    then show ?thesis
      using Cons isSource_evolves [OF ev] by (simp add: observe_def)
  qed
qed simp

lemma flowEvent_mem:
  assumes "distinct (map fl_idx fs)" "f \<in> set fs"
  shows "flowEvent fs (fl_idx f) = doneEvent (fl_stage f)"
proof -
  obtain g where g: "flowAt fs (fl_idx f) = Some g" using flowAt_Some [OF assms(2)] by blast
  then have "g \<in> set fs" "fl_idx g = fl_idx f" by (auto simp: flowAt_def find_Some_iff in_set_conv_nth)
  then have "g = f" using assms by (auto simp: distinct_map dest: inj_onD)
  with g show ?thesis by (simp add: flowEvent_def)
qed

section \<open>What the main flow has seen of the failures\<close>

text \<open>A failed task that was reported: the main flow knows it, or it is the task of a finished flow.\<close>

definition knownFailure :: "machine \<Rightarrow> int \<Rightarrow> bool" where
  "knownFailure s i \<longleftrightarrow>
     (case m_units s of
        None \<Rightarrow> m_failed s
      | Some x \<Rightarrow> isSource (su_rule x) i \<longrightarrow> seen (su_rule x) i)"

lemma knownFailure_nextTask [simp]: "knownFailure (nextTask s) i = knownFailure s i"
  by (simp add: knownFailure_def split: option.split)

definition ofFlow :: "machine \<Rightarrow> task_event \<Rightarrow> bool" where
  "ofFlow s ev \<longleftrightarrow> (\<exists>f \<in> set (m_flows s). fl_idx f = ev_idx ev \<and> fl_stage f = Done ev)"

definition failuresKnown :: "machine \<Rightarrow> bool" where
  "failuresKnown s \<longleftrightarrow>
     (\<forall>e \<in> set (m_sent s). failedStatus (ev_status (se_event e))
        \<longrightarrow> knownFailure s (ev_idx (se_event e)) \<or> ofFlow s (se_event e))"

definition rulesOk :: "apply_request \<Rightarrow> machine \<Rightarrow> bool" where
  "rulesOk q s \<longleftrightarrow>
     (case m_units s of
        None \<Rightarrow> newRescueUnits (q_tasks q) = None \<and> (m_failed s \<longrightarrow> m_status s \<noteq> RS_SUCCESS)
      | Some x \<Rightarrow> rule_inv (su_rule x) \<and> r_tasks (su_rule x) = r_tasks (ruleOf (q_tasks q)))"

text \<open>How the control part of a machine moves on: the failures known stay known.\<close>

definition carries :: "machine \<Rightarrow> machine \<Rightarrow> bool" where
  "carries s s' \<longleftrightarrow>
     (case m_units s of
        None \<Rightarrow> m_units s' = None \<and> (m_failed s \<longrightarrow> m_failed s') \<and>
          (m_status s' = RS_SUCCESS \<longrightarrow> m_status s = RS_SUCCESS \<and> m_failed s' = m_failed s)
      | Some x \<Rightarrow> (\<exists>x'. m_units s' = Some x' \<and> evolves (su_rule x) (su_rule x')))"

lemma carries_known: "carries s s' \<Longrightarrow> knownFailure s i \<Longrightarrow> knownFailure s' i"
  by (auto simp: carries_def knownFailure_def evolves_def isSource_def taskAt_def split: option.splits)

lemma carries_rules: "carries s s' \<Longrightarrow> rulesOk q s \<Longrightarrow> rulesOk q s'"
  by (auto simp: carries_def rulesOk_def evolves_def split: option.splits)

lemma carries_trans: "carries a b \<Longrightarrow> carries b c \<Longrightarrow> carries a c"
  by (auto simp: carries_def intro: evolves_trans split: option.splits)

lemma carries_control:
  "m_units s' = m_units s \<Longrightarrow> m_failed s' = m_failed s \<Longrightarrow> m_status s' = m_status s \<Longrightarrow> carries s s'"
  by (simp add: carries_def split: option.split)

lemma carries_collected: "carries s (collected h q t s)"
  by (auto simp: carries_def collected_def Let_def split: option.split
      intro: evolves_trans [OF evolves_settle evolves_observe])

lemma carries_noteRan: "carries s (noteRan i ev s)"
  by (auto simp: carries_def noteRan_def split: option.split)

lemma carries_launch: "carries s (launchFlow t i wt s)"
  by (auto simp: carries_def launchFlow_def launchedUnit_def Let_def split: option.split)

lemma known_noteRan: "failedStatus (ev_status ev) \<Longrightarrow> knownFailure (noteRan i ev s) i"
  using seen_ran isSource_evolves [OF evolves_ran]
  by (auto simp: knownFailure_def noteRan_def split: option.split)

section \<open>The failures stay known\<close>

lemma failuresKnown_step:
  assumes "failuresKnown s" "carries s s'" "\<And>ev. ofFlow s ev \<Longrightarrow> ofFlow s' ev"
    and "\<And>e. e \<in> set (m_sent s') \<Longrightarrow> e \<notin> set (m_sent s) \<Longrightarrow> failedStatus (ev_status (se_event e)) \<Longrightarrow>
      knownFailure s' (ev_idx (se_event e)) \<or> ofFlow s' (se_event e)"
  shows "failuresKnown s'"
  using assms carries_known unfolding failuresKnown_def by metis

lemma gateMove_carries: "carries s (gateMove h q t s)"
proof -
  note c = carries_collected [of s h q t]
  have step: "carries s (nextTask x)" if "carries s x" for x
    by (rule carries_trans [OF that carries_control]) simp_all
  have rep: "carries s (report q t ev x)" if "carries s x" for x ev
    by (rule carries_trans [OF that carries_control]) simp_all
  show ?thesis
  proof (cases "gating h (collected h q t s) t")
    case (WhenFailed er)
    then show ?thesis
      using step carries_trans [OF rep [OF c] carries_noteRan] by (simp add: gateMove_def Let_def)
  next
    case (Runs t')
    then show ?thesis
      using step carries_trans [OF c carries_launch] carries_trans [OF c carries_control]
      by (simp add: gateMove_def Let_def)
  qed (use step rep [OF c] in \<open>simp_all add: gateMove_def Let_def\<close>)
qed

lemma gateMove_failure:
  assumes "t = q_tasks q ! m_pc s" "reportsAt q s ev (gateMove h q t s)" "failedStatus (ev_status ev)"
  shows "knownFailure (gateMove h q t s) (ev_idx ev)"
proof -
  note eff = gateMove_effect [OF assms(1) refl, of h]
  have one: "ev = ev'" if "reportsAt q s ev' (gateMove h q t s)" for ev'
    using that assms(2) by (auto simp: reportsAt_def sentAs_def)
  have none: False if "reportsAt q s ev (gateMove h q t s)" "launchesAt q s f (gateMove h q t s) \<or>
      startsAt q s t' ev' (gateMove h q t s)" for f t' ev'
    using that by (auto simp: reportsAt_def launchesAt_def startsAt_def)
  show ?thesis
  proof (cases "gating h (collected h q t s) t")
    case Skipped
    then show ?thesis using one eff(1) assms(3) by (auto simp: skippedTaskEvent_def failedStatus_def)
  next
    case Folded
    then show ?thesis using one eff(2) assms(3) by (auto simp: foldedEvent_def failedStatus_def)
  next
    case (WhenFailed er)
    then have "ev = whenErrorEvent (int (m_pc s)) t er" using one eff(3) by blast
    then show ?thesis
      using WhenFailed known_noteRan assms(3) by (simp add: gateMove_def Let_def)
  next
    case (Runs t')
    then show ?thesis using none [OF assms(2)] eff(4,5) by blast
  qed
qed

lemma ofFlow_same: "m_flows s' = m_flows s \<Longrightarrow> ofFlow s' ev = ofFlow s ev"
  by (simp add: ofFlow_def)

lemma execMove_carries:
  assumes "m_mode (execMove q t ev s) = Top" shows "carries s (execMove q t ev s)"
proof -
  have "carries s (nextTask (noteRan i e (report q t e s)))" for i e
    by (rule carries_trans [OF _ carries_control])
      (simp_all, rule carries_trans [OF carries_control carries_noteRan], simp_all)
  then show ?thesis using assms by (auto simp: execMove_def Let_def split: if_splits)
qed

text \<open>The invariant: what is known of the failures, and of the result once there is one.\<close>

definition verdictInv :: "apply_request \<Rightarrow> machine \<Rightarrow> bool" where
  "verdictInv q s \<longleftrightarrow>
     (case m_mode s of
        Ended r \<Rightarrow> rr_status r = RS_SUCCESS \<longrightarrow>
          (\<forall>e \<in> set (m_sent s). failedStatus (ev_status (se_event e)) \<longrightarrow>
            (\<exists>x. m_units s = Some x \<and> rulesOk q s \<and>
              (isSource (su_rule x) (ev_idx (se_event e)) \<longrightarrow> Handled (su_rule x) (ev_idx (se_event e)))))
      | _ \<Rightarrow> m_status s = RS_CANCELLED \<or> (rulesOk q s \<and> failuresKnown s))"

lemma verdict_mode [simp]:
  "rulesOk q (s\<lparr>m_mode := md\<rparr>) = rulesOk q s" "failuresKnown (s\<lparr>m_mode := md\<rparr>) = failuresKnown s"
  by (simp_all add: rulesOk_def failuresKnown_def knownFailure_def ofFlow_def split: option.split)

text \<open>The final barrier sees the failures of every flow, so the result covers them.\<close>

lemma ofFlow_every:
  assumes "flowsOrdered s" "ofFlow s ev"
  shows "ev_idx ev \<in> set (map fl_idx (m_flows s))" "flowEvent (m_flows s) (ev_idx ev) = Some ev"
proof -
  obtain f where f: "f \<in> set (m_flows s)" "fl_idx f = ev_idx ev" "fl_stage f = Done ev"
    using assms(2) by (auto simp: ofFlow_def)
  then show "ev_idx ev \<in> set (map fl_idx (m_flows s))" by force
  have "distinct (map fl_idx (m_flows s))" using assms(1) by (simp add: flowsOrdered_def strict_sorted_iff)
  then show "flowEvent (m_flows s) (ev_idx ev) = Some ev" using flowEvent_mem [OF _ f(1)] f by simp
qed

lemma ended_drain: "m_mode (drainMove q s) = Ended r \<Longrightarrow> rr_status r = m_status (drainMove q s)"
  by (auto simp: drainMove_def Let_def)

lemma drain_unmarked:
  assumes "m_units s = None" "m_status (drainMove q s) = RS_SUCCESS"
  shows "m_status s = RS_SUCCESS \<and> \<not> anyFailed (m_flows s) (map fl_idx (m_flows s))"
  using assms by (auto simp: drainMove_def Let_def split: if_splits)

lemma drain_marked:
  assumes "m_units s = Some x"
  obtains y where "m_units (drainMove q s) = Some y" "evolves (su_rule x) (su_rule y)"
    "m_status (drainMove q s) = RS_SUCCESS \<Longrightarrow> \<not> AnyHeld (su_rule y)"
    "\<And>ev. ev_idx ev \<in> set (map fl_idx (m_flows s)) \<Longrightarrow> flowEvent (m_flows s) (ev_idx ev) = Some ev \<Longrightarrow>
       failedStatus (ev_status ev) \<Longrightarrow> isSource (su_rule y) (ev_idx ev) \<Longrightarrow> seen (su_rule y) (ev_idx ev)"
proof -
  let ?all = "map fl_idx (m_flows s)"
  define x1 where "x1 = (if m_status s = RS_CANCELLED then x else settle (m_flows s) (int (length (q_tasks q))) x)"
  define y where "y = x1\<lparr>su_rule := observe (m_flows s) ?all (su_rule x1)\<rparr>"
  have u: "m_units (drainMove q s) = Some y" by (simp add: drainMove_def Let_def assms y_def x1_def)
  have e1: "evolves (su_rule x) (su_rule x1)" by (simp add: x1_def)
  have e2: "evolves (su_rule x1) (su_rule y)" by (simp add: y_def)
  have held: "\<not> AnyHeld (su_rule y)" if "m_status (drainMove q s) = RS_SUCCESS"
    using that u by (auto simp: drainMove_def Let_def assms split: if_splits)
  have flows: "seen (su_rule y) (ev_idx ev)"
    if "ev_idx ev \<in> set ?all" "flowEvent (m_flows s) (ev_idx ev) = Some ev" "failedStatus (ev_status ev)"
      "isSource (su_rule y) (ev_idx ev)" for ev
    using seen_observe [OF _ that(1,2,3)] that(4) isSource_evolves [OF e2] by (simp add: y_def)
  show thesis using that [OF u evolves_trans [OF e1 e2] held flows] .
qed

lemma verdict_drain:
  assumes "rulesOk q s" "failuresKnown s" "flowsOrdered s"
    and "m_status (drainMove q s) = RS_SUCCESS"
    and "e \<in> set (m_sent s)" "failedStatus (ev_status (se_event e))"
  shows "\<exists>x. m_units (drainMove q s) = Some x \<and> rulesOk q (drainMove q s) \<and>
    (isSource (su_rule x) (ev_idx (se_event e)) \<longrightarrow> Handled (su_rule x) (ev_idx (se_event e)))"
proof (cases "m_units s")
  case None
  note d = drain_unmarked [OF None assms(4)]
  have "\<not> m_failed s" using assms(1) d by (simp add: rulesOk_def None)
  then have "ofFlow s (se_event e)"
    using assms(2,5,6) by (auto simp: failuresKnown_def knownFailure_def None)
  from ofFlow_every [OF assms(3) this] have
    "ev_idx (se_event e) \<in> set (map fl_idx (m_flows s))" "flowFailed (m_flows s) (ev_idx (se_event e))"
    using assms(6) by (simp_all add: flowFailed_def)
  then have "anyFailed (m_flows s) (map fl_idx (m_flows s))" unfolding anyFailed_def list_ex_iff by blast
  with d show ?thesis by simp
next
  case (Some x)
  obtain y where y: "m_units (drainMove q s) = Some y" "evolves (su_rule x) (su_rule y)"
    "\<not> AnyHeld (su_rule y)"
    and f: "\<And>ev. ev_idx ev \<in> set (map fl_idx (m_flows s)) \<Longrightarrow> flowEvent (m_flows s) (ev_idx ev) = Some ev \<Longrightarrow>
       failedStatus (ev_status ev) \<Longrightarrow> isSource (su_rule y) (ev_idx ev) \<Longrightarrow> seen (su_rule y) (ev_idx ev)"
    using drain_marked [OF Some, of q] assms(4) by metis
  have ok: "rulesOk q (drainMove q s)"
    using assms(1) y(1,2) by (simp add: rulesOk_def Some evolves_def)
  have "Handled (su_rule y) (ev_idx (se_event e))" if src: "isSource (su_rule y) (ev_idx (se_event e))"
  proof -
    have "seen (su_rule y) (ev_idx (se_event e))"
    proof (cases "ofFlow s (se_event e)")
      case True
      then show ?thesis using f ofFlow_every [OF assms(3)] assms(6) src by blast
    next
      case False
      then have "knownFailure s (ev_idx (se_event e))" using assms(2,5,6) by (auto simp: failuresKnown_def)
      then show ?thesis using src y(2) isSource_evolves [OF y(2)] by (auto simp: knownFailure_def Some evolves_def)
    qed
    moreover have "\<not> Held (su_rule y) (ev_idx (se_event e))"
      using y(1,3) ok rule_inv_anyHeld by (auto simp: rulesOk_def)
    ultimately show ?thesis by (auto simp: seen_def Held_def Handled_def split: option.splits)
  qed
  with y(1) ok show ?thesis by blast
qed


lemma verdict_main:
  assumes inv: "verdictInv q s" and ord: "placed q s" and fo: "flowsOrdered s" and acc: "accounted q s"
    and m: "mainMove h q s = Some s'"
  shows "verdictInv q s'"
  using m
proof (cases rule: mainMove_cases)
  case Stop
  then show ?thesis by (simp add: verdictInv_def)
next
  case Open
  then show ?thesis using inv by (simp add: verdictInv_def)
next
  case Close
  then show ?thesis using inv by (simp add: verdictInv_def)
next
  case Task
  let ?s = "gateMove h q (q_tasks q ! m_pc s) s"
  have k: "rulesOk q s" "failuresKnown s" using inv acc Task(1) by (auto simp: verdictInv_def accounted_def)
  note c = gateMove_carries [of s h q "q_tasks q ! m_pc s"]
  from gateMove_does [OF refl, of q s h] have "\<not> ended ?s \<and> failuresKnown ?s"
  proof (elim disjE exE)
    fix ev assume r: "reportsAt q s ev ?s"
    then have "failuresKnown ?s"
      using gateMove_failure [OF refl r]
      by (intro failuresKnown_step [OF k(2) c]) (auto simp: reportsAt_def ofFlow_def sentAs_def)
    then show ?thesis using r by (simp add: reportsAt_def ended_def)
  next
    fix f assume r: "launchesAt q s f ?s"
    then have "failuresKnown ?s"
      by (intro failuresKnown_step [OF k(2) c]) (auto simp: launchesAt_def ofFlow_def)
    then show ?thesis using r by (simp add: launchesAt_def ended_def)
  next
    fix t ev assume r: "startsAt q s t ev ?s"
    then have "failuresKnown ?s"
      by (intro failuresKnown_step [OF k(2) c]) (auto simp: startsAt_def ofFlow_def)
    then show ?thesis using r by (simp add: startsAt_def ended_def)
  qed
  then show ?thesis
    using carries_rules [OF c k(1)] by (auto simp: verdictInv_def Task(3) ended_def split: mode.splits)
next
  case (Over t ev)
  have k: "rulesOk q s" "failuresKnown s" using inv acc Over(1) by (auto simp: verdictInv_def accounted_def)
  have i: "ev_idx ev = int (m_pc s)" using ord Over(1) by (simp add: placed_def)
  from execMove_mode [of q t ev s] show ?thesis
  proof
    assume "m_mode (execMove q t ev s) = Drain \<and> m_pc (execMove q t ev s) = m_pc s \<and>
      m_status (execMove q t ev s) = RS_CANCELLED"
    then show ?thesis by (simp add: verdictInv_def Over(2))
  next
    assume e: "m_mode (execMove q t ev s) = Top \<and> m_pc (execMove q t ev s) = Suc (m_pc s)"
    then have c: "carries s s'" using execMove_carries by (simp add: Over(2))
    let ?ev = "finalEvent s (m_units s) t ev"
    have "s' = nextTask (noteRan (int (m_pc s)) ?ev (report q t ?ev s))"
      using e by (auto simp: Over(2) execMove_def Let_def split: if_splits)
    then have "failedStatus (ev_status ?ev) \<Longrightarrow> knownFailure s' (ev_idx ?ev)"
      using known_noteRan i by simp
    then have "failuresKnown s'"
      by (intro failuresKnown_step [OF k(2) c]) (auto simp: Over(2) ofFlow_def sentAs_def)
    then show ?thesis using carries_rules [OF c k(1)] e by (simp add: verdictInv_def Over(2))
  qed
next
  case Drain
  obtain r where r: "m_mode s' = Ended r" "rr_status r = m_status s'"
    by (simp add: Drain(3) drainMove_def Let_def)
  have "m_status s \<noteq> RS_CANCELLED" if "rr_status r = RS_SUCCESS"
    using drained_status [of q s r] r that by (simp add: Drain(3))
  then have "\<exists>x. m_units s' = Some x \<and> rulesOk q s' \<and>
      (isSource (su_rule x) (ev_idx (se_event e)) \<longrightarrow> Handled (su_rule x) (ev_idx (se_event e)))"
    if "rr_status r = RS_SUCCESS" "e \<in> set (m_sent s)" "failedStatus (ev_status (se_event e))" for e
    using verdict_drain [OF _ _ fo _ that(2,3), of q] that(1) inv Drain(1) r(2)
    by (simp add: Drain(3) verdictInv_def)
  then show ?thesis using r by (simp add: verdictInv_def Drain(3))
qed

text \<open>A move of a flow keeps what finished flows reported, and what it reports is its own.\<close>

lemma flowMove_ofFlow:
  assumes fo: "flowsOrdered s" and c: "startMove h limit k s = Some s' \<or> finishMove q k s = Some s'"
  shows "ofFlow s ev \<Longrightarrow> ofFlow s' ev"
    and "e \<in> set (m_sent s') \<Longrightarrow> e \<notin> set (m_sent s) \<Longrightarrow> ofFlow s' (se_event e)"
proof -
  note d = flowMove [OF c]
  show "ofFlow s' ev" if "ofFlow s ev"
  proof -
    from that obtain f where f: "f \<in> set (m_flows s)" "fl_idx f = ev_idx ev" "fl_stage f = Done ev"
      by (auto simp: ofFlow_def)
    then obtain j where j: "j < length (m_flows s)" "m_flows s ! j = f" by (auto simp: in_set_conv_nth)
    then have "j \<noteq> k" using d(2) f(3) by (auto simp: isDone_def)
    then have "m_flows s' ! j = f" "j < length (m_flows s')" using d(3) j by auto
    then have "f \<in> set (m_flows s')" using nth_mem by blast
    with f(2,3) show ?thesis by (auto simp: ofFlow_def)
  qed
  assume e: "e \<in> set (m_sent s')" "e \<notin> set (m_sent s)"
  from c show "ofFlow s' (se_event e)"
  proof
    assume "startMove h limit k s = Some s'"
    from startMoveD(3) [OF this] e(1,2) show ?thesis by simp
  next
    assume "finishMove q k s = Some s'"
    then obtain ev where f: "k < length (m_flows s)" "fl_stage (m_flows s ! k) = Running ev"
        "s' = setStage k (Done (finalEvent s None (fl_task (m_flows s ! k)) ev))
          (report q (fl_task (m_flows s ! k)) (finalEvent s None (fl_task (m_flows s ! k)) ev) s)"
      by (rule finishMoveD)
    let ?ev = "finalEvent s None (fl_task (m_flows s ! k)) ev"
    have "se_event e = ?ev" using e(1,2) by (auto simp: f(3) sent_report sentAs_def)
    moreover have "ev_idx ev = fl_idx (m_flows s ! k)" using fo f(1,2) by (auto simp: flowsOrdered_def)
    moreover have "(m_flows s ! k)\<lparr>fl_stage := Done ?ev\<rparr> \<in> set (m_flows s')"
      using f(1) by (simp add: f(3) setStage_same set_update_memI)
    ultimately show ?thesis unfolding ofFlow_def by (intro bexI) (simp_all add: finalEvent_idx)
  qed
qed

lemma verdict_flow:
  assumes inv: "verdictInv q s" and fo: "flowsOrdered s" and run: "\<not> ended s"
    and c: "startMove h limit k s = Some s' \<or> finishMove q k s = Some s'"
  shows "verdictInv q s'"
proof -
  note d = flowMove [OF c] and kept = flowMove_ofFlow [OF fo c]
  have rules: "rulesOk q s' = rulesOk q s" unfolding rulesOk_def d(6,7,8) ..
  have "failuresKnown s'" if known: "failuresKnown s"
    using kept by (intro failuresKnown_step [OF known carries_control [OF d(6,8,7)]]) blast+
  then show ?thesis
    using inv run unfolding verdictInv_def d(4,7) rules by (auto simp: ended_def split: mode.splits)
qed

lemma rulesOk_initial: "rulesOk q (initial q)"
proof -
  have "rule_inv (foldl (\<lambda>r (i, t). Task r i (w_rescueUnit t) (w_onfail t) (w_aggregate t \<noteq> []) (w_aggregate t)) r its)"
    if "rule_inv r" for r its
    using that by (induction its arbitrary: r) (auto simp: rule_inv_Task)
  then have "rule_inv (ruleOf ts)" for ts unfolding ruleOf_def using rule_inv_new by blast
  then show ?thesis by (simp add: rulesOk_def initial_def newRescueUnits_def)
qed

lemma reachable_verdict: "reachable h limit q s \<Longrightarrow> verdictInv q s"
proof (induction rule: reachable.induct)
  case start
  have "failuresKnown (initial q)" "m_mode (initial q) = Top" by (simp_all add: initial_def failuresKnown_def)
  then show ?case using rulesOk_initial [of q] by (simp add: verdictInv_def)
next
  case (step s c s')
  note ord = reachable_ordered [OF step.hyps(1)] and acc = reachable_accounted [OF step.hyps(1)]
  from step.hyps(2) show ?case
  proof (cases rule: act_cases)
    case Main
    then show ?thesis using verdict_main [OF step.IH _ _ acc] ord by blast
  next
    case (Flow k)
    have "\<not> ended s"
      using ended_done [OF step.hyps(1)] flowMove(1,2) [OF Flow(2)] by (auto simp: list_all_length)
    then show ?thesis using verdict_flow [OF step.IH _ _ Flow(2)] ord by blast
  next
    case Cancel
    then show ?thesis
      using step.IH unfolding verdictInv_def rulesOk_def failuresKnown_def knownFailure_def ofFlow_def ended_def
      by (simp split: mode.splits option.splits)
  qed
qed

end
