(* ===== verification/Soul_Stop.thy ===== *)
theory Soul_Stop
  imports Soul_Verdict
begin

text \<open>
  Fail-stop: in a message without rescue units, once a task of the main flow has failed, a later task
  without an \<open>onfail:\<close> is skipped, or folded when it is an aggregate, and is never started.
\<close>

section \<open>A failure of the main flow stops it\<close>

definition idle :: "wire_task \<Rightarrow> task_event \<Rightarrow> bool" where
  "idle t ev \<longleftrightarrow> ev_status ev = TS_SKIPPED \<or> (w_aggregate t \<noteq> [] \<and> ev_status ev = TS_OK)"

definition syncFailed :: "apply_request \<Rightarrow> machine \<Rightarrow> nat \<Rightarrow> bool" where
  "syncFailed q s i \<longleftrightarrow>
     (\<exists>e \<in> set (m_sent s). ev_idx (se_event e) = int i \<and> failedStatus (ev_status (se_event e))) \<and>
     \<not> isAsync q (q_tasks q ! i)"

definition mayRun :: "apply_request \<Rightarrow> nat \<Rightarrow> nat \<Rightarrow> bool" where
  "mayRun q i j \<longleftrightarrow> i < j \<longrightarrow> w_onfail (q_tasks q ! j) \<noteq> []"

definition stopsAfter :: "apply_request \<Rightarrow> machine \<Rightarrow> nat \<Rightarrow> bool" where
  "stopsAfter q s i \<longleftrightarrow>
     (\<forall>e \<in> set (m_sent s). \<forall>j. ev_idx (se_event e) = int j \<longrightarrow> idle (q_tasks q ! j) (se_event e) \<or> mayRun q i j) \<and>
     (\<forall>f \<in> set (m_flows s). \<forall>j. fl_idx f = int j \<longrightarrow> mayRun q i j) \<and>
     (\<forall>t ev. m_mode s = Exec t ev \<longrightarrow> mayRun q i (m_pc s))"

text \<open>Every launched flow is an async task; every failure of the main flow is known and stops it.\<close>

definition failStop :: "apply_request \<Rightarrow> machine \<Rightarrow> bool" where
  "failStop q s \<longleftrightarrow>
     m_units s = None \<and>
     (\<forall>f \<in> set (m_flows s). \<exists>j. fl_idx f = int j \<and> isAsync q (q_tasks q ! j)) \<and>
     (\<forall>i. syncFailed q s i \<longrightarrow> m_failed s \<and> stopsAfter q s i)"

lemma failStopD:
  assumes "failStop q s" "syncFailed q s i"
  shows "m_failed s" "stopsAfter q s i"
  using assms by (auto simp: failStop_def)

text \<open>A move that reports nothing of the main flow.\<close>

lemma failStop_quiet:
  assumes inv: "failStop q s" and units: "m_units s' = None" and kept: "m_failed s \<Longrightarrow> m_failed s'"
    and flows: "fl_idx ` set (m_flows s') \<subseteq> fl_idx ` set (m_flows s)"
    and old: "set (m_sent s) \<subseteq> set (m_sent s')"
    and new: "\<And>e. e \<in> set (m_sent s') \<Longrightarrow> e \<notin> set (m_sent s) \<Longrightarrow> ev_idx (se_event e) \<in> fl_idx ` set (m_flows s)"
    and ex: "\<And>t ev. m_mode s' = Exec t ev \<Longrightarrow> m_mode s = Exec t ev \<and> m_pc s' = m_pc s"
  shows "failStop q s'"
proof -
  have async: "isAsync q (q_tasks q ! j)" if "int j \<in> fl_idx ` set (m_flows s)" for j
    using inv that by (force simp: failStop_def)
  have same: "syncFailed q s i" if sf: "syncFailed q s' i" for i
  proof -
    obtain e where e: "e \<in> set (m_sent s')" "ev_idx (se_event e) = int i" "failedStatus (ev_status (se_event e))"
      using sf unfolding syncFailed_def by blast
    then have "e \<in> set (m_sent s)" using new [OF e(1)] async [of i] sf by (auto simp: syncFailed_def)
    then show ?thesis using e sf by (auto simp: syncFailed_def)
  qed
  have "stopsAfter q s' i" if "syncFailed q s' i" for i
  proof -
    note st = failStopD(2) [OF inv same [OF that], unfolded stopsAfter_def]
    have fl: "mayRun q i j" if "int j \<in> fl_idx ` set (m_flows s)" for j using st that by force
    have "idle (q_tasks q ! j) (se_event e) \<or> mayRun q i j"
      if "e \<in> set (m_sent s')" "ev_idx (se_event e) = int j" for e j
      using that st new [OF that(1)] fl [of j] by (cases "e \<in> set (m_sent s)") auto
    moreover have "mayRun q i j" if "f \<in> set (m_flows s')" "fl_idx f = int j" for f j
      using that flows fl [of j] by force
    moreover have "mayRun q i (m_pc s')" if "m_mode s' = Exec t ev" for t ev
      using ex [OF that] st by simp
    ultimately show ?thesis by (simp add: stopsAfter_def)
  qed
  moreover have "\<exists>j. fl_idx f = int j \<and> isAsync q (q_tasks q ! j)" if "f \<in> set (m_flows s')" for f
  proof -
    have "fl_idx f \<in> fl_idx ` set (m_flows s)" using flows that by blast
    then show ?thesis using inv by (force simp: failStop_def)
  qed
  ultimately show ?thesis
    using units kept failStopD(1) [OF inv same] by (simp add: failStop_def)
qed

text \<open>A move of the main flow at a task: what it reports, launches or starts is at the counter.\<close>

lemma failStop_at:
  assumes inv: "failStop q s" and units: "m_units s' = None" and kept: "m_failed s \<Longrightarrow> m_failed s'"
    and before: "\<And>e. e \<in> set (m_sent s) \<Longrightarrow> ev_idx (se_event e) < int (m_pc s)"
      "\<And>f. f \<in> set (m_flows s) \<Longrightarrow> fl_idx f < int (m_pc s)"
    and flows: "\<And>f. f \<in> set (m_flows s') \<Longrightarrow> f \<notin> set (m_flows s) \<Longrightarrow>
      fl_idx f = int (m_pc s) \<and> isAsync q (q_tasks q ! m_pc s) \<and> (m_failed s \<longrightarrow> w_onfail (q_tasks q ! m_pc s) \<noteq> [])"
    and new: "\<And>e. e \<in> set (m_sent s') \<Longrightarrow> e \<notin> set (m_sent s) \<Longrightarrow>
      ev_idx (se_event e) = int (m_pc s) \<and> (failedStatus (ev_status (se_event e)) \<longrightarrow> m_failed s') \<and>
      ((\<exists>i. syncFailed q s i) \<longrightarrow> idle (q_tasks q ! m_pc s) (se_event e) \<or> w_onfail (q_tasks q ! m_pc s) \<noteq> [])"
    and ex: "\<And>t ev. m_mode s' = Exec t ev \<Longrightarrow>
      m_pc s' = m_pc s \<and> (m_failed s \<longrightarrow> w_onfail (q_tasks q ! m_pc s) \<noteq> [])"
  shows "failStop q s'"
proof -
  have main: "m_failed s' \<and> stopsAfter q s' i" if sf: "syncFailed q s' i" for i
  proof (cases "syncFailed q s i")
    case True
    note st = failStopD [OF inv True, unfolded stopsAfter_def]
    have "idle (q_tasks q ! j) (se_event e) \<or> mayRun q i j"
      if "e \<in> set (m_sent s')" "ev_idx (se_event e) = int j" for e j
      using that st new [OF that(1)] True by (cases "e \<in> set (m_sent s)") (auto simp: mayRun_def)
    moreover have "mayRun q i j" if "f \<in> set (m_flows s')" "fl_idx f = int j" for f j
      using that st flows [OF that(1)] by (cases "f \<in> set (m_flows s)") (auto simp: mayRun_def)
    ultimately show ?thesis
      using kept st(1) ex by (auto simp: stopsAfter_def mayRun_def)
  next
    case False
    then obtain e where e: "e \<in> set (m_sent s')" "e \<notin> set (m_sent s)" "ev_idx (se_event e) = int i"
        "failedStatus (ev_status (se_event e))"
      using sf by (auto simp: syncFailed_def)
    then have i: "i = m_pc s" "m_failed s'" using new [OF e(1,2)] by auto
    have "mayRun q i j" if "x \<in> set (m_sent s')" "ev_idx (se_event x) = int j" for x j
      using that new [OF that(1)] before(1) [of x] i(1) by (cases "x \<in> set (m_sent s)") (auto simp: mayRun_def)
    moreover have "mayRun q i j" if "f \<in> set (m_flows s')" "fl_idx f = int j" for f j
      using that flows [OF that(1)] before(2) [of f] i(1) by (cases "f \<in> set (m_flows s)") (auto simp: mayRun_def)
    ultimately show ?thesis
      using i ex by (auto simp: stopsAfter_def) (auto simp: mayRun_def)
  qed
  have "\<exists>j. fl_idx f = int j \<and> isAsync q (q_tasks q ! j)" if "f \<in> set (m_flows s')" for f
    using inv flows [OF that] by (cases "f \<in> set (m_flows s)") (auto simp: failStop_def)
  then show ?thesis using units main by (simp add: failStop_def)
qed

section \<open>The gate of a failed run\<close>

lemma gate_halts:
  assumes "m_units s = None" "m_failed s" "t = q_tasks q ! m_pc s" "w_onfail t = []"
  shows "gating h (collected h q t s) t \<in> {Skipped, Folded}"
    and "gating h (collected h q t s) t = Folded \<Longrightarrow> w_aggregate t \<noteq> []"
proof -
  have u: "m_units (collected h q t s) = None" "m_failed (collected h q t s)"
    using assms(1,2) by (auto simp: collected_def Let_def)
  show "gating h (collected h q t s) t \<in> {Skipped, Folded}"
    "gating h (collected h q t s) t = Folded \<Longrightarrow> w_aggregate t \<noteq> []"
    using u assms(4) by (auto simp: gating_def halted_def unitSkips_def split: if_splits)
qed

lemma unmarked_gateMove: "m_units s = None \<Longrightarrow> m_units (gateMove h q t s) = None"
  using gateMove_carries [of s h q t] by (simp add: carries_def)

lemma failed_gateMove: "m_units s = None \<Longrightarrow> m_failed s \<Longrightarrow> m_failed (gateMove h q t s)"
  using gateMove_carries [of s h q t] by (simp add: carries_def)

lemma failStop_gate:
  assumes inv: "failStop q s" and before: "\<And>e. e \<in> set (m_sent s) \<Longrightarrow> ev_idx (se_event e) < int (m_pc s)"
      "\<And>f. f \<in> set (m_flows s) \<Longrightarrow> fl_idx f < int (m_pc s)"
  shows "failStop q (gateMove h q (q_tasks q ! m_pc s) s)"
proof -
  define t where "t = q_tasks q ! m_pc s"
  let ?s = "gateMove h q t s"
  have none: "m_units s = None" using inv by (simp add: failStop_def)
  note eff = gateMove_effect [OF t_def refl, of h]
  note halts = gate_halts [OF none _ t_def]
  have fail: "failedStatus (ev_status ev) \<Longrightarrow> m_failed ?s" if "reportsAt q s ev ?s" for ev
    using gateMove_failure [OF t_def that] unmarked_gateMove [OF none] by (simp add: knownFailure_def)
  note at = failStop_at [of q s ?s, OF inv unmarked_gateMove [OF none] failed_gateMove [OF none] before]
  have rep: "failStop q ?s" if r: "reportsAt q s ev ?s"
      and i: "m_failed s \<Longrightarrow> idle t ev \<or> w_onfail t \<noteq> []" for ev
    by (rule at) (use r i fail [OF r] failStopD(1) [OF inv] in \<open>auto simp: reportsAt_def sentAs_def t_def\<close>)
  show ?thesis
  proof (cases "gating h (collected h q t s) t")
    case Skipped
    then show ?thesis using rep [OF eff(1)] unfolding t_def by (simp add: idle_def skippedTaskEvent_def)
  next
    case Folded
    then show ?thesis using rep [OF eff(2)] halts(2) unfolding t_def by (auto simp: idle_def foldedEvent_def)
  next
    case (WhenFailed er)
    then have "m_failed s \<Longrightarrow> w_onfail t \<noteq> []" using halts(1) [of h] by auto
    then show ?thesis using rep [OF eff(3) [OF WhenFailed]] unfolding t_def by blast
  next
    case (Runs t')
    then have on: "m_failed s \<Longrightarrow> w_onfail t \<noteq> []" using halts(1) [of h] by auto
    show ?thesis
    proof (cases "isAsync q t")
      case True
      from eff(4) [OF Runs True] show ?thesis
        unfolding t_def [symmetric]
        by (intro at) (use on True in \<open>auto simp: launchesAt_def t_def\<close>)
    next
      case False
      from eff(5) [OF Runs False] show ?thesis
        unfolding t_def [symmetric] by (intro at) (use on in \<open>auto simp: startsAt_def t_def\<close>)
    qed
  qed
qed

lemma failStop_exec:
  assumes inv: "failStop q s" and before: "\<And>e. e \<in> set (m_sent s) \<Longrightarrow> ev_idx (se_event e) < int (m_pc s)"
      "\<And>f. f \<in> set (m_flows s) \<Longrightarrow> fl_idx f < int (m_pc s)"
    and ev: "m_mode s = Exec t ev" "ev_idx ev = int (m_pc s)"
  shows "failStop q (execMove q t ev s)"
proof -
  have none: "m_units s = None" using inv by (simp add: failStop_def)
  let ?ev = "finalEvent s None t ev"
  have f: "m_units (execMove q t ev s) = None" "m_failed s \<Longrightarrow> m_failed (execMove q t ev s)"
    "failedStatus (ev_status ?ev) \<Longrightarrow> m_failed (execMove q t ev s)" "m_mode (execMove q t ev s) \<noteq> Exec t' ev'" for t' ev'
    by (auto simp: execMove_def Let_def noteRan_def none failedStatus_def)
  have "w_onfail (q_tasks q ! m_pc s) \<noteq> []" if sf: "syncFailed q s i" for i
  proof -
    have "mayRun q i (m_pc s)" using failStopD(2) [OF inv sf] ev(1) by (simp add: stopsAfter_def)
    moreover have "i < m_pc s" using sf before(1) by (fastforce simp: syncFailed_def)
    ultimately show ?thesis by (simp add: mayRun_def)
  qed
  then have run: "\<exists>i. syncFailed q s i \<Longrightarrow> w_onfail (q_tasks q ! m_pc s) \<noteq> []" by blast
  show ?thesis
    by (rule failStop_at [of q s, OF inv f(1,2) before]) (use f(3,4) ev(2) run none in \<open>auto simp: sentAs_def\<close>)
qed

section \<open>Every reachable state\<close>

lemma sent_before:
  assumes "accounted q s" "m_mode s = Top \<or> m_mode s = Gate \<or> m_mode s = Exec t ev" "e \<in> set (m_sent s)"
  shows "ev_idx (se_event e) < int (m_pc s)"
proof -
  have "reported s + openFlows s = upTo (m_pc s)" using assms(1,2) by (auto simp: accounted_def)
  moreover have "ev_idx (se_event e) \<in># reported s" using assms(3) by (simp add: reported_def)
  ultimately have "ev_idx (se_event e) \<in># upTo (m_pc s)" by (metis union_iff)
  then show ?thesis by (auto simp: upTo_def)
qed

lemma flow_before: "flowsOrdered s \<Longrightarrow> f \<in> set (m_flows s) \<Longrightarrow> fl_idx f < int (m_pc s)"
  by (simp add: flowsOrdered_def)

lemma failStop_main:
  assumes inv: "failStop q s" and ord: "placed q s" "flowsOrdered s" and acc: "accounted q s"
    and m: "mainMove h q s = Some s'"
  shows "failStop q s'"
  using m
proof (cases rule: mainMove_cases)
  case Task
  then show ?thesis
    using failStop_gate [OF inv] sent_before [OF acc] flow_before [OF ord(2)] by simp
next
  case (Over t ev)
  then show ?thesis
    using failStop_exec [OF inv _ _ Over(1)] sent_before [OF acc] flow_before [OF ord(2)] ord(1)
    by (simp add: placed_def)
next
  case Drain
  have "m_units s' = None" "m_failed s' = m_failed s" "\<And>t ev. m_mode s' \<noteq> Exec t ev"
    using inv by (simp_all add: Drain(3) drainMove_def Let_def failStop_def)
  then show ?thesis by (intro failStop_quiet [OF inv]) (auto simp: Drain(3))
next
  case Stop
  then show ?thesis by (intro failStop_quiet [OF inv]) (use inv in \<open>auto simp: failStop_def\<close>)
next
  case Open
  then show ?thesis by (intro failStop_quiet [OF inv]) (use inv in \<open>auto simp: failStop_def\<close>)
next
  case Close
  then show ?thesis by (intro failStop_quiet [OF inv]) (use inv in \<open>auto simp: failStop_def\<close>)
qed

lemma failStop_flow:
  assumes inv: "failStop q s" and ord: "flowsOrdered s"
    and c: "startMove h limit k s = Some s' \<or> finishMove q k s = Some s'"
  shows "failStop q s'"
proof -
  note d = flowMove [OF c]
  obtain st where st: "m_flows s' = (m_flows s)[k := (m_flows s ! k)\<lparr>fl_stage := st\<rparr>]" using d(3) by blast
  have k: "m_flows s ! k \<in> set (m_flows s)" using d(1) by simp
  have flows: "fl_idx ` set (m_flows s') \<subseteq> fl_idx ` set (m_flows s)"
    using set_update_subset_insert [of "m_flows s" k] k by (fastforce simp: st)
  have "set (m_sent s) \<subseteq> set (m_sent s') \<and>
      (\<forall>e \<in> set (m_sent s'). e \<notin> set (m_sent s) \<longrightarrow> ev_idx (se_event e) \<in> fl_idx ` set (m_flows s))"
    using c
  proof
    assume "startMove h limit k s = Some s'"
    from startMoveD(3) [OF this] show ?thesis by simp
  next
    assume "finishMove q k s = Some s'"
    then obtain ev where f: "k < length (m_flows s)" "fl_stage (m_flows s ! k) = Running ev"
        "s' = setStage k (Done (finalEvent s None (fl_task (m_flows s ! k)) ev))
          (report q (fl_task (m_flows s ! k)) (finalEvent s None (fl_task (m_flows s ! k)) ev) s)"
      by (rule finishMoveD)
    have "ev_idx ev = fl_idx (m_flows s ! k)" using ord k f(2) by (simp add: flowsOrdered_def)
    then show ?thesis using k by (auto simp: f(3) sent_report sentAs_def)
  qed
  then show ?thesis
    by (intro failStop_quiet [OF inv]) (use inv flows in \<open>auto simp: d(4,5,6,8) failStop_def\<close>)
qed

lemma reachable_failStop:
  assumes "reachable h limit q s" "newRescueUnits (q_tasks q) = None" shows "failStop q s"
  using assms(1)
proof (induction rule: reachable.induct)
  case start
  show ?case by (simp add: failStop_def initial_def assms(2) syncFailed_def)
next
  case (step s c s')
  note ord = reachable_ordered [OF step.hyps(1)] and acc = reachable_accounted [OF step.hyps(1)]
  from step.hyps(2) show ?case
  proof (cases rule: act_cases)
    case Main
    then show ?thesis using failStop_main [OF step.IH _ _ acc] ord by blast
  next
    case (Flow k)
    then show ?thesis using failStop_flow [OF step.IH] ord by blast
  next
    case Cancel
    then show ?thesis using step.IH by (simp add: failStop_def syncFailed_def stopsAfter_def)
  qed
qed

end
