(* ===== verification/Soul_Calls.thy ===== *)
theory Soul_Calls
  imports Soul_Rescue
begin

text \<open>
  The rescue rule under any sequence of its calls: the counter counts the held sources, and a handled
  source lies in a unit that was decided, ran something of its own and lost nothing.
\<close>

section \<open>Sequences of calls of the rescue rule\<close>

datatype rule_call =
  CTask int int "int list" bool "int list"
| CRan int bool
| CFail int string
| CDecide int bool
| CReopen int

fun ruleCall :: "rule_call \<Rightarrow> rescue_rule \<Rightarrow> rescue_rule" where
  "ruleCall (CTask pos un nm trm ch) r = Task r pos un nm trm ch"
| "ruleCall (CRan pos ex) r = Ran r pos ex"
| "ruleCall (CFail pos msg) r = Fail r pos msg"
| "ruleCall (CDecide uid stopped) r = fst (Decide r uid stopped)"
| "ruleCall (CReopen pos) r = Reopen r pos"

interpretation calls: rule_op ruleCall
proof (unfold_locales, goal_cases)
  case (1 r x)
  then show ?case
    by (cases x) (simp_all add: rule_inv_Task rule_inv_Ran rule_inv_Fail rule_inv_Decide rule_inv_Reopen)
qed

text \<open>A unit that handles: it was decided, ran something of its own, and lost nothing.\<close>

definition handlesBy :: "rescue_rule \<Rightarrow> int \<Rightarrow> rule_unit \<Rightarrow> bool" where
  "handlesBy r uid u \<longleftrightarrow>
     r_units r uid = Some u \<and> u_decided u \<and> u_executed u \<and> \<not> u_failed u \<and> \<not> u_lost u"

definition handledOk :: "rescue_rule \<Rightarrow> bool" where
  "handledOk r \<longleftrightarrow> (\<forall>p. Handled r p \<longrightarrow> (\<exists>uid u. handlesBy r uid u \<and> p \<in> set (u_sources u)))"

text \<open>A unit that handles stays one, with at least its sources.\<close>

definition unitsGrow :: "rescue_rule \<Rightarrow> rescue_rule \<Rightarrow> bool" where
  "unitsGrow r r' \<longleftrightarrow>
     (\<forall>uid u. handlesBy r uid u \<longrightarrow> (\<exists>u'. handlesBy r' uid u' \<and> set (u_sources u) \<subseteq> set (u_sources u')))"

lemma unitsGrow_refl [simp]: "unitsGrow r r"
  by (auto simp: unitsGrow_def)

lemma unitsGrow_trans: "unitsGrow a b \<Longrightarrow> unitsGrow b c \<Longrightarrow> unitsGrow a c"
  unfolding unitsGrow_def by (meson order_trans)

lemma unitsGrow_same: "r_units r' = r_units r \<Longrightarrow> unitsGrow r r'"
  by (auto simp: unitsGrow_def handlesBy_def)

lemma unitsGrow_setUnit:
  assumes "u0 = unitOr r uid"
    and "u_decided u0 \<Longrightarrow> u_decided u \<and> (u_executed u0 \<longrightarrow> u_executed u) \<and> (u_failed u \<longrightarrow> u_failed u0) \<and>
      (u_lost u \<longrightarrow> u_lost u0) \<and> set (u_sources u0) \<subseteq> set (u_sources u)"
  shows "unitsGrow r (setUnit uid u r)"
  using assms by (auto simp: unitsGrow_def handlesBy_def unitOr_def split: option.splits)

lemma handledOk_grow:
  "handledOk r \<Longrightarrow> unitsGrow r r' \<Longrightarrow> (\<And>p. Handled r' p \<Longrightarrow> Handled r p) \<Longrightarrow> handledOk r'"
  unfolding handledOk_def unitsGrow_def by (meson subsetD)

lemma addSource_keeps: "set xs \<subseteq> set (addSource xs s)"
proof -
  have "set (take i xs @ s # drop i xs) = insert s (set xs)" for i
    by (metis Un_insert_right append_take_drop_id list.set(2) set_append)
  then show ?thesis
    by (cases "binarySearch xs s"; cases "snd (binarySearch xs s)") (auto simp: addSource_def sliceInsert_def)
qed

lemma addSources_keep: "set xs \<subseteq> set (foldl addSource xs ss)"
proof (induction ss arbitrary: xs)
  case (Cons s ss)
  then show ?case using addSource_keeps by fastforce
qed simp

lemma grow_Task: "unitsGrow r (Task r pos un nm trm ch)"
proof -
  define t where "t = \<lparr>t_unit = un, t_terminal = trm, t_children = ch, t_named = namedOf r nm\<rparr>"
  define r1 where "r1 = r\<lparr>r_tasks := (r_tasks r)(pos \<mapsto> t)\<rparr>"
  have g1: "unitsGrow r r1" by (rule unitsGrow_same) (simp add: r1_def)
  have "unitsGrow r1 (setUnit un ((unitOr r1 un)\<lparr>u_sources := foldl addSource (u_sources (unitOr r1 un)) (t_named t)\<rparr>) r1)"
    by (rule unitsGrow_setUnit [OF refl]) (use addSources_keep in auto)
  then show ?thesis
    using g1 unitsGrow_trans by (auto simp: Task_def Let_def simp flip: t_def r1_def)
qed

lemma grow_Ran: "unitsGrow r (Ran r pos ex)"
  by (auto simp: Ran_def Let_def intro!: unitsGrow_setUnit [OF refl])

lemma grow_hold: "unitsGrow r (holdSource r pos msg)"
  by (auto simp: holdSource_def unitsGrow_def handlesBy_def)

lemma grow_Fail: "unitsGrow r (Fail r pos msg)"
proof -
  let ?un = "t_unit (taskAt r pos)"
  let ?u = "unitOr r ?un"
  have "unitsGrow r (setUnit ?un (?u\<lparr>u_failed := True\<rparr>) r)" "unitsGrow r (setUnit ?un (?u\<lparr>u_lost := True\<rparr>) r)"
    if "\<not> u_decided ?u"
    by (rule unitsGrow_setUnit [OF refl], use that in auto)+
  then show ?thesis
    using grow_hold unitsGrow_trans by (auto simp: Fail_def Let_def)
qed

lemma units_handle [simp]: "r_units (foldl handleOne r ss) = r_units r"
  by (induction ss arbitrary: r) (simp_all add: handleOne_def)

lemma grow_Decide: "unitsGrow r (fst (Decide r uid b))"
proof -
  let ?u = "unitOr r uid"
  have a: "unitsGrow r (setUnit uid ?u r)" "unitsGrow r (setUnit uid (?u\<lparr>u_decided := True\<rparr>) r)"
    by (rule unitsGrow_setUnit [OF refl], simp)+
  have "unitsGrow q (foldl handleOne q ss)" for q ss by (rule unitsGrow_same) simp
  then show ?thesis using a unitsGrow_trans by (auto simp: Decide_def Let_def)
qed

lemma grow_call: "unitsGrow r (ruleCall c r)"
proof (cases c)
  case (CReopen pos)
  then show ?thesis by (auto simp: Reopen_def intro: unitsGrow_same split: option.split)
qed (simp_all add: grow_Task grow_Ran grow_Fail grow_Decide)

text \<open>The only call that handles a failure is the decision of a unit that succeeds and holds it.\<close>

lemma handled_foldl: "Handled (foldl handleOne r ss) p \<Longrightarrow> Handled r p \<or> p \<in> set ss"
proof (induction ss arbitrary: r)
  case (Cons s ss)
  have "Handled (handleOne r s) p \<Longrightarrow> Handled r p \<or> p = s"
    by (auto simp: handleOne_def Handled_def split: if_splits)
  with Cons show ?case by fastforce
qed simp

lemma handled_call:
  assumes "Handled (ruleCall c r) p"
  shows "Handled r p \<or> (\<exists>uid u. handlesBy (ruleCall c r) uid u \<and> p \<in> set (u_sources u))"
proof (cases c)
  case (CTask pos un nm trm ch)
  then show ?thesis using assms by (simp add: Task_def Let_def Handled_def split: if_splits)
next
  case (CRan pos ex)
  then show ?thesis using assms by (simp add: Handled_def)
next
  case (CFail pos msg)
  then show ?thesis using assms failures_Fail [of r pos msg] by (auto simp: Handled_def split: if_splits)
next
  case (CReopen pos)
  then show ?thesis using assms by (auto simp: Reopen_def Handled_def split: option.splits if_splits)
next
  case (CDecide uid b)
  let ?u = "unitOr r uid"
  let ?r1 = "setUnit uid (?u\<lparr>u_decided := True\<rparr>) r"
  have same: "Handled (setUnit uid x r) p = Handled r p" for x by (simp add: Handled_def)
  show ?thesis
  proof (cases "u_decided ?u \<or> \<not> succeeds ?u b")
    case True
    then show ?thesis using assms same by (auto simp: CDecide Decide_def Let_def)
  next
    case False
    then have d: "ruleCall c r = foldl handleOne ?r1 (u_sources ?u)"
      by (simp add: CDecide Decide_def Let_def)
    then have "handlesBy (ruleCall c r) uid (?u\<lparr>u_decided := True\<rparr>)"
      using False by (auto simp: handlesBy_def succeeds_def)
    moreover have "Handled r p \<or> p \<in> set (u_sources ?u)"
      using assms handled_foldl [of ?r1] same unfolding d by blast
    moreover have "u_sources (?u\<lparr>u_decided := True\<rparr>) = u_sources ?u" by simp
    ultimately show ?thesis by metis
  qed
qed

lemma handledOk_call: "handledOk r \<Longrightarrow> handledOk (ruleCall c r)"
  using grow_call [of r c] handled_call [of c r] unfolding handledOk_def unitsGrow_def by (meson subsetD)

lemma handledOk_calls: "handledOk (fold ruleCall cs newRescueRule)"
proof -
  have "handledOk (fold ruleCall cs r)" if "handledOk r" for r
    using that by (induction cs arbitrary: r) (simp_all add: handledOk_call)
  moreover have "handledOk newRescueRule" by (simp add: handledOk_def Handled_def newRescueRule_def)
  ultimately show ?thesis by blast
qed

end
