(* ===== verification/Soul_Late.thy ===== *)
theory Soul_Late
  imports Soul_Verdict
begin

text \<open>
  The result of a message whose main flow went through every task, whenever a Cancel came: an invariant of every schedule
  that follows each failure and each cancelled task to the event that reports it (\<^verbatim>\<open>applyrunner.go\<close>, the end of \<open>Run\<close>).
\<close>

section \<open>What was reported\<close>

definition reports :: "(task_status \<Rightarrow> bool) \<Rightarrow> machine \<Rightarrow> bool" where
  "reports P s \<longleftrightarrow> list_ex (\<lambda>e. P (ev_status (se_event e))) (m_sent s)"

abbreviation cancelledStatus :: "task_status \<Rightarrow> bool" where
  "cancelledStatus st \<equiv> st = TS_CANCELLED"

lemma reports_more: "reports P s \<Longrightarrow> set (m_sent s) \<subseteq> set (m_sent s') \<Longrightarrow> reports P s'"
  by (auto simp: reports_def list_ex_iff)

text \<open>A finished flow was reported, and a failed run without units has reported a failure.\<close>

definition flowsSent :: "machine \<Rightarrow> bool" where
  "flowsSent s \<longleftrightarrow> (\<forall>f \<in> set (m_flows s). \<forall>ev. fl_stage f = Done ev \<longrightarrow> ev \<in> se_event ` set (m_sent s))"

definition blamed :: "machine \<Rightarrow> bool" where
  "blamed s \<longleftrightarrow> (m_units s = None \<and> m_status s = RS_FAILED \<longrightarrow> reports failedStatus s)"

definition cancelsOfFlows :: "machine \<Rightarrow> bool" where
  "cancelsOfFlows s \<longleftrightarrow> (\<forall>e \<in> set (m_sent s). cancelledStatus (ev_status (se_event e)) \<longrightarrow> ofFlow s (se_event e))"

lemma flowEvent_sent:
  assumes "flowsSent s" "flowEvent (m_flows s) i = Some ev" "P (ev_status ev)"
  shows "reports P s"
proof -
  obtain f where f: "flowAt (m_flows s) i = Some f" "doneEvent (fl_stage f) = Some ev"
    using assms(2) by (auto simp: flowEvent_def split: option.splits)
  then have "f \<in> set (m_flows s)" unfolding flowAt_def find_Some_iff by (metis nth_mem)
  moreover have "fl_stage f = Done ev" using f(2) by (cases "fl_stage f") auto
  ultimately show ?thesis using assms(1,3) by (force simp: flowsSent_def reports_def list_ex_iff)
qed

lemma anyFlow_sent:
  "flowsSent s \<Longrightarrow> anyFailed (m_flows s) is \<Longrightarrow> reports failedStatus s"
  "flowsSent s \<Longrightarrow> anyCancelled (m_flows s) is \<Longrightarrow> reports cancelledStatus s"
  by (auto simp: anyFailed_def anyCancelled_def flowFailed_def flowCancelled_def list_ex_iff
      split: option.splits intro: flowEvent_sent)

section \<open>The moves\<close>

lemma blamed_collected: "flowsSent s \<Longrightarrow> blamed s \<Longrightarrow> blamed (collected h q t s)"
  using anyFlow_sent(1) [of s] by (auto simp: blamed_def collected_def Let_def reports_def split: option.split)

lemma blamed_report: "blamed s \<Longrightarrow> blamed (report q t ev s)"
  using reports_more [of failedStatus s "report q t ev s"] by (auto simp: blamed_def sent_report)

lemma blamed_noteRan: "blamed s \<Longrightarrow> (failedStatus (ev_status ev) \<Longrightarrow> reports failedStatus s) \<Longrightarrow> blamed (noteRan i ev s)"
  by (auto simp: blamed_def noteRan_def reports_def split: option.split)

lemma blamed_same: "blamed s \<Longrightarrow> m_units s' = m_units s \<or> m_units s' \<noteq> None \<Longrightarrow> m_status s' = m_status s \<Longrightarrow> m_sent s' = m_sent s \<Longrightarrow> blamed s'"
  by (auto simp: blamed_def reports_def)

lemma reported_last: "P (ev_status ev) \<Longrightarrow> reports P (report q t ev s)"
  by (simp add: reports_def sent_report sentAs_def)

lemma cancels_report:
  "cancelsOfFlows s \<Longrightarrow> \<not> cancelledStatus (ev_status ev) \<Longrightarrow> cancelsOfFlows (report q t ev s)"
  by (auto simp: cancelsOfFlows_def sent_report sentAs_def ofFlow_def)

lemma cancels_same:
  "cancelsOfFlows s \<Longrightarrow> m_sent s' = m_sent s \<Longrightarrow> set (m_flows s) \<subseteq> set (m_flows s') \<Longrightarrow> cancelsOfFlows s'"
  by (fastforce simp: cancelsOfFlows_def ofFlow_def)

lemma flowsSent_main: "flowsSent s \<Longrightarrow> m_flows s' = m_flows s \<Longrightarrow> set (m_sent s) \<subseteq> set (m_sent s') \<Longrightarrow> flowsSent s'"
  by (fastforce simp: flowsSent_def)

lemma units_collected [simp]: "(m_units (collected h q t s) = None) = (m_units s = None)"
  by (simp add: collected_def Let_def split: option.split)

lemma units_noteRan [simp]: "(m_units (noteRan i ev s) = None) = (m_units s = None)"
  by (simp add: noteRan_def split: option.split)

lemma late_gate:
  assumes "flowsSent s" "blamed s" "cancelsOfFlows s"
  shows "flowsSent (gateMove h q t s) \<and> blamed (gateMove h q t s) \<and> cancelsOfFlows (gateMove h q t s)
    \<and> (m_units (gateMove h q t s) = None \<longleftrightarrow> m_units s = None)"
proof -
  let ?c = "collected h q t s"
  have c: "flowsSent ?c" "blamed ?c" "cancelsOfFlows ?c"
    using assms blamed_collected flowsSent_main [OF assms(1), of ?c] cancels_same [OF assms(3), of ?c] by simp_all
  have r: "flowsSent (report q t ev ?c)" "blamed (report q t ev ?c)"
    "\<not> cancelledStatus (ev_status ev) \<Longrightarrow> cancelsOfFlows (report q t ev ?c)" for ev
    using flowsSent_main [OF c(1), of "report q t ev ?c"] blamed_report [OF c(2)] cancels_report [OF c(3)]
    by (auto simp: sent_report)
  have n: "flowsSent (nextTask x)" "blamed (nextTask x)" "cancelsOfFlows (nextTask x)"
    if "flowsSent x" "blamed x" "cancelsOfFlows x" for x
    using that flowsSent_main [of x "nextTask x"] blamed_same [of x "nextTask x"] cancels_same [of x "nextTask x"]
    by simp_all
  show ?thesis
  proof (cases "gating h ?c t")
    case Skipped
    then show ?thesis using n [OF r] by (simp add: gateMove_def Let_def skippedTaskEvent_def)
  next
    case Folded
    then show ?thesis using n [OF r] by (simp add: gateMove_def Let_def foldedEvent_def)
  next
    case (WhenFailed er)
    let ?ev = "whenErrorEvent (int (m_pc s)) t er"
    let ?x = "report q t ?ev ?c"
    have x: "flowsSent ?x" "blamed ?x" "cancelsOfFlows ?x"
      using r [of ?ev] by (simp_all add: whenErrorEvent_def flowControlErrorEvent_def)
    have "flowsSent (noteRan i ?ev ?x)" "blamed (noteRan i ?ev ?x)" "cancelsOfFlows (noteRan i ?ev ?x)" for i
      by (rule flowsSent_main [OF x(1)], simp_all, rule blamed_noteRan [OF x(2) reported_last], simp,
          rule cancels_same [OF x(3)], simp_all)
    then show ?thesis using WhenFailed n by (simp add: gateMove_def Let_def)
  next
    case (Runs t')
    let ?l = "launchFlow t' (int (m_pc s)) (snd (barriers h (m_flows s) t)) ?c"
    have "flowsSent ?l" using c(1) by (auto simp: flowsSent_def launchFlow_def)
    moreover have "blamed ?l" using c(2) by (simp add: blamed_def launchFlow_def reports_def)
    moreover have "cancelsOfFlows ?l" using cancels_same [OF c(3), of ?l] by (auto simp: launchFlow_def)
    moreover have "(m_units ?l = None) = (m_units s = None)" by (simp add: launchFlow_def)
    ultimately show ?thesis
      using Runs n [of ?l] flowsSent_main [OF c(1)] blamed_same [OF c(2)] cancels_same [OF c(3)]
      by (simp add: gateMove_def Let_def)
  qed
qed

lemma late_exec:
  assumes "flowsSent s" "blamed s" "cancelsOfFlows s" "m_mode (execMove q t ev s) = Top"
  shows "flowsSent (execMove q t ev s) \<and> blamed (execMove q t ev s) \<and> cancelsOfFlows (execMove q t ev s)"
proof -
  let ?ev = "finalEvent s (m_units s) t ev"
  let ?x = "noteRan (int (m_pc s)) ?ev (report q t ?ev s)"
  have e: "execMove q t ev s = nextTask ?x" "\<not> cancelledStatus (ev_status ?ev)"
    using assms(4) by (auto simp: execMove_def Let_def split: if_splits)
  have "blamed ?x" using blamed_noteRan [OF blamed_report [OF assms(2)] reported_last] .
  moreover have "cancelsOfFlows ?x" using cancels_same [OF cancels_report [OF assms(3) e(2)], of ?x] by simp
  ultimately show ?thesis
    using flowsSent_main [OF assms(1), of "execMove q t ev s"] blamed_same [of ?x "nextTask ?x"]
      cancels_same [of ?x "nextTask ?x"] unfolding e(1) by (auto simp: sent_report)
qed

lemma units_exec [simp]: "(m_units (execMove q t ev s) = None) = (m_units s = None)"
  by (simp add: execMove_def Let_def)

text \<open>The final barrier: the result by what the flows reported.\<close>

lemma drain_result:
  assumes "flowsSent s" "blamed s" "cancelsOfFlows s" "flowsOrdered s" "m_status s \<noteq> RS_CANCELLED"
    and "m_mode (drainMove q s) = Ended r"
  shows "if m_units s = None then rr_status r \<noteq> RS_CANCELLED \<and> (rr_status r = RS_FAILED \<longrightarrow> reports failedStatus s)
    else rr_status r = RS_CANCELLED \<longleftrightarrow> reports cancelledStatus s"
proof -
  let ?all = "map fl_idx (m_flows s)"
  have c: "anyCancelled (m_flows s) ?all \<longleftrightarrow> reports cancelledStatus s"
  proof
    assume "reports cancelledStatus s"
    then obtain e where "e \<in> set (m_sent s)" "cancelledStatus (ev_status (se_event e))"
      by (auto simp: reports_def list_ex_iff)
    then have "ofFlow s (se_event e)" "cancelledStatus (ev_status (se_event e))" using assms(3) by (auto simp: cancelsOfFlows_def)
    with ofFlow_every [OF assms(4), of "se_event e"] show "anyCancelled (m_flows s) ?all"
      unfolding anyCancelled_def list_ex_iff flowCancelled_def by (intro bexI [of _ "ev_idx (se_event e)"]) simp_all
  qed (rule anyFlow_sent(2) [OF assms(1)])
  show ?thesis
    using assms(2,5,6) anyFlow_sent(1) [OF assms(1), of ?all] c
    by (auto simp: drainMove_def Let_def blamed_def split: if_splits)
qed

lemma flowsSent_flow:
  assumes "flowsSent s" "startMove h limit k s = Some s' \<or> finishMove q k s = Some s'"
  shows "flowsSent s' \<and> set (m_sent s) \<subseteq> set (m_sent s')"
  using assms(2)
proof
  assume "startMove h limit k s = Some s'"
  note e = startMoveD(3) [OF this]
  show ?thesis
    using assms(1) by (auto simp: e setStage_same flowsSent_def dest!: set_update_subset_insert [THEN subsetD])
next
  assume "finishMove q k s = Some s'"
  then obtain ev where e: "s' = setStage k (Done (finalEvent s None (fl_task (m_flows s ! k)) ev))
      (report q (fl_task (m_flows s ! k)) (finalEvent s None (fl_task (m_flows s ! k)) ev) s)"
    by (rule finishMoveD)
  show ?thesis
    using assms(1)
    by (auto simp: e setStage_same flowsSent_def sent_report sentAs_def dest!: set_update_subset_insert [THEN subsetD])
qed

section \<open>The invariant\<close>

definition lateInv :: "apply_request \<Rightarrow> machine \<Rightarrow> bool" where
  "lateInv q s \<longleftrightarrow>
     flowsSent s \<and> (m_units s = None \<longleftrightarrow> newRescueUnits (q_tasks q) = None) \<and>
     (case m_mode s of
        Ended r \<Rightarrow> m_pc s = length (q_tasks q) \<longrightarrow>
          (if m_units s = None then rr_status r \<noteq> RS_CANCELLED \<and> (rr_status r = RS_FAILED \<longrightarrow> reports failedStatus s)
           else rr_status r = RS_CANCELLED \<longleftrightarrow> reports cancelledStatus s)
      | Drain \<Rightarrow> m_pc s = length (q_tasks q) \<longrightarrow> m_status s \<noteq> RS_CANCELLED \<and> blamed s \<and> cancelsOfFlows s
      | _ \<Rightarrow> m_status s \<noteq> RS_CANCELLED \<and> blamed s \<and> cancelsOfFlows s)"

lemma late_mode [simp]:
  "blamed (s\<lparr>m_mode := md\<rparr>) = blamed s" "cancelsOfFlows (s\<lparr>m_mode := md\<rparr>) = cancelsOfFlows s"
  "flowsSent (s\<lparr>m_mode := md\<rparr>) = flowsSent s" "flowsSent (s\<lparr>m_status := st\<rparr>) = flowsSent s"
  "reports P (s\<lparr>m_dead := b\<rparr>) = reports P s" "blamed (s\<lparr>m_dead := b\<rparr>) = blamed s"
  "cancelsOfFlows (s\<lparr>m_dead := b\<rparr>) = cancelsOfFlows s" "flowsSent (s\<lparr>m_dead := b\<rparr>) = flowsSent s"
  by (simp_all add: blamed_def cancelsOfFlows_def flowsSent_def reports_def ofFlow_def)

lemma late_main:
  assumes inv: "lateInv q s" and ord: "placed q s" "flowsOrdered s" and acc: "accounted q s'"
    and m: "mainMove h q s = Some s'"
  shows "lateInv q s'"
  using m
proof (cases rule: mainMove_cases)
  case Stop
  then show ?thesis using inv by (simp add: lateInv_def)
next
  case Open
  then show ?thesis using inv by (simp add: lateInv_def)
next
  case Close
  then show ?thesis using inv by (simp add: lateInv_def)
next
  case Task
  let ?s = "gateMove h q (q_tasks q ! m_pc s) s"
  have "flowsSent ?s \<and> blamed ?s \<and> cancelsOfFlows ?s \<and> (m_units ?s = None \<longleftrightarrow> m_units s = None)"
    using inv Task(1) by (intro late_gate) (auto simp: lateInv_def)
  moreover have "(case m_mode ?s of Drain \<Rightarrow> False | Ended r \<Rightarrow> False | _ \<Rightarrow> True)"
    using gateMove_does [OF refl, of q s h] by (auto simp: reportsAt_def launchesAt_def startsAt_def)
  moreover have "m_status ?s \<noteq> RS_CANCELLED"
    using inv Task(1) status_gateMove by (auto simp: lateInv_def)
  ultimately show ?thesis using inv by (auto simp: lateInv_def Task(3) split: mode.splits)
next
  case (Over t ev)
  have u: "m_pc s < length (q_tasks q)" using ord(1) Over(1) by (simp add: placed_def)
  have k: "flowsSent s" "blamed s" "cancelsOfFlows s" "m_status s \<noteq> RS_CANCELLED"
    "m_units s = None \<longleftrightarrow> newRescueUnits (q_tasks q) = None" using inv Over(1) by (auto simp: lateInv_def)
  from execMove_mode [of q t ev s] show ?thesis
  proof
    assume "m_mode (execMove q t ev s) = Drain \<and> m_pc (execMove q t ev s) = m_pc s \<and>
      m_status (execMove q t ev s) = RS_CANCELLED"
    then show ?thesis
      using u k flowsSent_main [OF k(1), of "execMove q t ev s"] by (auto simp: lateInv_def Over(2))
  next
    assume e: "m_mode (execMove q t ev s) = Top \<and> m_pc (execMove q t ev s) = Suc (m_pc s)"
    then show ?thesis
      using late_exec [OF k(1-3)] k(4,5) status_execMove [of q t ev s] by (auto simp: lateInv_def Over(2))
  qed
next
  case Drain
  obtain r where r: "m_mode s' = Ended r" by (simp add: Drain(3) drainMove_def Let_def)
  have u: "m_units s' = None \<longleftrightarrow> m_units s = None" by (simp add: Drain(3) drainMove_def Let_def)
  have "flowsSent s'" using inv flowsSent_main [of s s'] by (simp add: lateInv_def Drain(3))
  moreover have "reports P s' = reports P s" for P by (simp add: reports_def Drain(3))
  ultimately show ?thesis
    using inv r u drain_result [of s q r] ord(2) Drain(1) by (auto simp: lateInv_def Drain(3))
qed

lemma reachable_late: "reachable h limit q s \<Longrightarrow> lateInv q s"
proof (induction rule: reachable.induct)
  case start
  show ?case by (simp add: lateInv_def initial_def flowsSent_def blamed_def cancelsOfFlows_def)
next
  case (step s c s')
  note ord = reachable_ordered [OF step.hyps(1)]
  from step.hyps(2) show ?case
  proof (cases rule: act_cases)
    case Main
    then show ?thesis
      using late_main [OF step.IH _ _ reachable_accounted [OF reachable.step [OF step.hyps]]] ord by blast
  next
    case (Flow k)
    note d = flowMove [OF Flow(2)] and sent = flowsSent_flow [OF _ Flow(2)]
      and kept = flowMove_ofFlow [OF conjunct2 [OF ord] Flow(2)]
    have "\<not> ended s"
      using ended_done [OF step.hyps(1)] d(1,2) by (auto simp: list_all_length)
    moreover have "blamed s'" if "flowsSent s" "blamed s"
      using that reports_more [of failedStatus s s'] sent d(6,7) by (simp add: blamed_def)
    moreover have "cancelsOfFlows s'" if "cancelsOfFlows s"
      using that kept by (auto simp: cancelsOfFlows_def)
    ultimately show ?thesis
      using step.IH sent unfolding lateInv_def d(4,5,6,7) by (auto simp: ended_def split: mode.splits)
  next
    case Cancel
    then show ?thesis using step.IH by (auto simp: lateInv_def split: mode.splits)
  qed
qed

end
