(* ===== verification/Soul_Claims.thy ===== *)
theory Soul_Claims
  imports Soul_Stop Soul_Calls Soul_Late
begin

text \<open>
  The properties of the task executor of the Soul, with a small host and small messages on which
  their witnesses are evaluated.
\<close>

section \<open>What the rule registers of a message\<close>

lemma tasks_Task [simp]:
  "r_tasks (Task r pos un nm trm ch) =
     (r_tasks r)(pos \<mapsto> \<lparr>t_unit = un, t_terminal = trm, t_children = ch, t_named = namedOf r nm\<rparr>)"
  by (simp add: Task_def Let_def)

lemma ruleOf_task:
  assumes "i < length ts"
  shows "t_unit (taskAt (ruleOf ts) (int i)) = w_rescueUnit (ts ! i)"
    and "t_terminal (taskAt (ruleOf ts) (int i)) \<longleftrightarrow> w_aggregate (ts ! i) \<noteq> []"
proof -
  define step :: "rescue_rule \<Rightarrow> int \<times> wire_task \<Rightarrow> rescue_rule" where
    "step = (\<lambda>r (i, t). Task r i (w_rescueUnit t) (w_onfail t) (w_aggregate t \<noteq> []) (w_aggregate t))"
  have "\<exists>k. r_tasks (foldl step r (zip (map int [n..<n + length us]) us)) (int i) = Some k \<and>
      t_unit k = w_rescueUnit (us ! (i - n)) \<and> (t_terminal k \<longleftrightarrow> w_aggregate (us ! (i - n)) \<noteq> [])"
    if "n \<le> i" "i < n + length us" for r n us
    using that
  proof (induction us arbitrary: r rule: rev_induct)
    case (snoc u us)
    have z: "zip (map int [n..<n + length (us @ [u])]) (us @ [u]) =
        zip (map int [n..<n + length us]) us @ [(int (n + length us), u)]"
      by (simp add: zip_append)
    show ?case
    proof (cases "i = n + length us")
      case True
      then show ?thesis unfolding z by (simp add: step_def)
    next
      case False
      then have "i < n + length us" using snoc.prems by simp
      with snoc.IH [of r] snoc.prems False show ?thesis
        unfolding z by (auto simp: step_def nth_append)
    qed
  qed simp
  from this [of 0 ts newRescueRule] assms
  have "\<exists>k. r_tasks (ruleOf ts) (int i) = Some k \<and>
      t_unit k = w_rescueUnit (ts ! i) \<and> (t_terminal k \<longleftrightarrow> w_aggregate (ts ! i) \<noteq> [])"
    by (simp add: ruleOf_def step_def)
  then show "t_unit (taskAt (ruleOf ts) (int i)) = w_rescueUnit (ts ! i)"
    "t_terminal (taskAt (ruleOf ts) (int i)) \<longleftrightarrow> w_aggregate (ts ! i) \<noteq> []"
    by (auto simp: taskAt_def)
qed

section \<open>A small host\<close>

definition demoHost :: host where
  "demoHost =
     \<lparr>h_found = (\<lambda>m. m \<noteq> ''ghost.unit''), h_input = (\<lambda>_ _. None),
      h_apply = (\<lambda>i a m st ps.
        \<lparr>ao_err = None, ao_events = [\<lparr>ae_changed = True, ae_failed = (st = ''down''), ae_message = ''m'', ae_output = None\<rparr>],
         ao_expired = False\<rparr>),
      h_planSafe = (\<lambda>_. True), h_plan = (\<lambda>_ _ _ _. \<lparr>po_err = None, po_changed = [True]\<rparr>),
      h_eval = (\<lambda>_ _. Inr True), h_refs = (\<lambda>_. []), h_duration = (\<lambda>_. None)\<rparr>"

definition demoTask :: "string \<Rightarrow> wire_task" where
  "demoTask m =
     \<lparr>w_name = ''t'', w_module = m, w_params = [], w_timeout = [], w_onchanges = [], w_onfail = [],
      w_aggregate = [], w_async = False, w_require = [], w_requireAll = False, w_when = [],
      w_changedWhen = [], w_failedWhen = [], w_flow = [], w_register = [], w_until = [],
      w_retryCount = 0, w_rescueUnit = 0, w_planIndex = 0\<rparr>"

definition demoPlan :: "wire_task list \<Rightarrow> apply_request" where
  "demoPlan ts = \<lparr>q_tasks = ts, q_attempt = 1, q_passage = 0, q_dryRun = False\<rparr>"

lemma demo_local: "evalLocal demoHost"
  by (simp add: evalLocal_def demoHost_def)

text \<open>A task beside the main flow, a failure in it, a task the failure stops, and a rescue of it.\<close>

definition demoQ :: apply_request where
  "demoQ = demoPlan
     [(demoTask ''pkg.a.up'')\<lparr>w_async := True, w_register := ''a''\<rparr>, demoTask ''pkg.b.down'', demoTask ''pkg.c.up'',
      (demoTask ''pkg.d.up'')\<lparr>w_onfail := [1]\<rparr>]"

definition demoSchedule :: "move list" where
  "demoSchedule = [Main, Main, Main, Start 0, Main, Main, Main, Main, Finish 0, Main, Main, Main, Main, Main]"

definition demoEnd :: machine where
  "demoEnd = the (perform demoHost 1 demoQ demoSchedule (initial demoQ))"

lemma demo_end: "perform demoHost 1 demoQ demoSchedule (initial demoQ) = Some demoEnd"
proof -
  have "case perform demoHost 1 demoQ demoSchedule (initial demoQ) of None \<Rightarrow> False | Some s \<Rightarrow> True" by code_simp
  then show ?thesis by (auto simp: demoEnd_def split: option.splits)
qed

definition failedResult :: run_result where
  "failedResult = \<lparr>rr_status = RS_FAILED, rr_attempt = 1, rr_passage = 0\<rparr>"

fun endResult :: "mode \<Rightarrow> run_result option" where
  "endResult (Ended r) = Some r"
| "endResult _ = None"

lemma endResult_iff: "endResult md = Some r \<longleftrightarrow> md = Ended r"
  by (cases md) auto

lemma demoEnd_result: "m_mode demoEnd = Ended failedResult" "\<not> m_dead demoEnd"
proof -
  have "endResult (m_mode demoEnd) = Some failedResult" by code_simp
  then show "m_mode demoEnd = Ended failedResult" by (simp add: endResult_iff)
  show "\<not> m_dead demoEnd" by code_simp
qed

text \<open>A failure that a rescue unit handles.\<close>

definition rescueQ :: apply_request where
  "rescueQ = demoPlan [demoTask ''pkg.b.down'', (demoTask ''pkg.d.up'')\<lparr>w_onfail := [0], w_rescueUnit := 1\<rparr>]"

definition rescueEnd :: machine where
  "rescueEnd = the (perform demoHost 0 rescueQ (replicate 8 Main) (initial rescueQ))"

lemma rescue_end: "perform demoHost 0 rescueQ (replicate 8 Main) (initial rescueQ) = Some rescueEnd"
proof -
  have "case perform demoHost 0 rescueQ (replicate 8 Main) (initial rescueQ) of None \<Rightarrow> False | Some s \<Rightarrow> True" by code_simp
  then show ?thesis by (auto simp: rescueEnd_def split: option.splits)
qed

lemma rescue_result: "m_mode rescueEnd = Ended \<lparr>rr_status = RS_SUCCESS, rr_attempt = 1, rr_passage = 0\<rparr>"
proof -
  have "endResult (m_mode rescueEnd) = Some \<lparr>rr_status = RS_SUCCESS, rr_attempt = 1, rr_passage = 0\<rparr>" by code_simp
  then show ?thesis by (simp add: endResult_iff)
qed

section \<open>The run of a message\<close>

lemma reachable_run: "perform h limit q cs (initial q) = Some s \<Longrightarrow> reachable h limit q s"
  using reachable_perform reachable.start by blast

text \<open>
  (C4) Where a predicate reads only the registers it names, and every async task of the plan is no aggregate
  and shares its register with no other task, every schedule of a message that is not cancelled, under any limit of parallel flows,
  has the result of the run in plan order and sends the same events, up to their order.
\<close>

theorem schedule_does_not_matter:
  assumes "evalLocal h" "planOrdered h (q_tasks q)"
    and "perform h limit q cs (initial q) = Some s" "m_mode s = Ended r" "\<not> m_dead s"
  shows "m_mode (runSoul h q) = Ended r \<and> mset (m_sent s) = mset (m_sent (runSoul h q))"
  using reachable_inStep [OF reachable_run [OF assms(3)] assms(5,1,2)] by (simp add: inStep_def assms(4))

theorem schedule_does_not_matter_witness:
  "m_mode (runSoul demoHost demoQ) = Ended failedResult \<and>
   mset (m_sent demoEnd) = mset (m_sent (runSoul demoHost demoQ))"
proof -
  have "planOrdered demoHost (q_tasks demoQ)" by code_simp
  then show ?thesis using schedule_does_not_matter [OF demo_local _ demo_end demoEnd_result] by simp
qed

text \<open>
  (C30) A run that has not ended can always make a move other than a Cancel: no barrier, limit of parallel
  flows or Cancel leaves it waiting for ever.
\<close>

theorem run_never_stuck:
  assumes "perform h limit q cs (initial q) = Some s" "\<not> ended s"
  shows "\<exists>c s'. c \<noteq> Cancel \<and> act h limit q c s = Some s'"
  using progress [OF reachable_run [OF assms(1)] assms(2)] .

theorem run_never_stuck_witness: "\<exists>c s'. c \<noteq> Cancel \<and> act demoHost 1 demoQ c (initial demoQ) = Some s'"
proof -
  have "\<not> ended (initial demoQ)" by (simp add: initial_def ended_def)
  then show ?thesis using run_never_stuck [of demoHost 1 demoQ "[]"] by simp
qed

text \<open>
  No schedule of a message has more moves than five per task and three more, a Cancel included.\<close>

theorem run_bounded:
  assumes "perform h limit q cs (initial q) = Some s"
  shows "length cs \<le> 5 * length (q_tasks q) + 3"
  using perform_length [OF reachable.start assms] by (simp add: movesLeft_initial)

theorem run_bounded_witness: "length demoSchedule \<le> 5 * length (q_tasks demoQ) + 3"
  by (rule run_bounded [OF demo_end])

lemma perform_append:
  "perform h limit q (cs @ ds) s = (case perform h limit q cs s of None \<Rightarrow> None | Some s' \<Rightarrow> perform h limit q ds s')"
  by (induction cs arbitrary: s) (auto split: option.split)

lemma can_finish:
  "reachable h limit q s \<Longrightarrow> \<exists>cs s'. Cancel \<notin> set cs \<and> perform h limit q cs s = Some s' \<and> ended s'"
proof (induction "movesLeft q s" arbitrary: s rule: less_induct)
  case less
  show ?case
  proof (cases "ended s")
    case True
    then show ?thesis by (intro exI [of _ "[]"] exI [of _ s]) simp
  next
    case False
    then obtain c s1 where c: "c \<noteq> Cancel" "act h limit q c s = Some s1" using progress [OF less.prems] by blast
    then obtain cs s' where "Cancel \<notin> set cs" "perform h limit q cs s1 = Some s'" "ended s'"
      using less.hyps [OF act_decreases [OF less.prems c(2)] reachable.step [OF less.prems c(2)]] by blast
    with c show ?thesis by (intro exI [of _ "c # cs"] exI [of _ s']) auto
  qed
qed



text \<open>
  (C31) A run that ends and is not cancelled has sent one event for every task of the message, and no other.
\<close>

theorem every_task_reported_once:
  assumes "perform h limit q cs (initial q) = Some s" "m_mode s = Ended r" "rr_status r \<noteq> RS_CANCELLED"
  shows "mset (map (ev_idx \<circ> se_event) (m_sent s)) = mset (map int [0..<length (q_tasks q)])"
  using reachable_accounted [OF reachable_run [OF assms(1)]] assms(2,3)
  by (auto simp: accounted_def reported_def upTo_def)

theorem every_task_reported_once_witness:
  "mset (map (ev_idx \<circ> se_event) (m_sent demoEnd)) = {#0, 1, 2, 3#}"
  using every_task_reported_once [OF demo_end demoEnd_result(1)]
  by (simp add: failedResult_def demoQ_def demoPlan_def)

text \<open>
  (C5) A run that reports SUCCESS although a task failed had rescue units, and the failure of a task that
  is in no unit and is no aggregate was handled by them.
\<close>

theorem success_means_handled:
  assumes "perform h limit q cs (initial q) = Some s" "m_mode s = Ended r" "rr_status r = RS_SUCCESS"
    and "e \<in> set (m_sent s)" "failedStatus (ev_status (se_event e))"
  shows "\<exists>x i. m_units s = Some x \<and> ev_idx (se_event e) = int i \<and> i < length (q_tasks q) \<and>
    (w_rescueUnit (q_tasks q ! i) = 0 \<and> w_aggregate (q_tasks q ! i) = [] \<longrightarrow> Handled (su_rule x) (int i))"
proof -
  note r = reachable_run [OF assms(1)]
  obtain x where x: "m_units s = Some x" "rulesOk q s"
    "isSource (su_rule x) (ev_idx (se_event e)) \<longrightarrow> Handled (su_rule x) (ev_idx (se_event e))"
    using reachable_verdict [OF r] assms(2-5) by (fastforce simp: verdictInv_def)
  have "ev_idx (se_event e) \<in># reported s" using assms(4) by (simp add: reported_def)
  then obtain i where i: "ev_idx (se_event e) = int i" "i < length (q_tasks q)"
    using reachable_accounted [OF r] assms(2) by (auto simp: accounted_def upTo_def)
  have "isSource (su_rule x) (int i) \<longleftrightarrow> w_rescueUnit (q_tasks q ! i) = 0 \<and> w_aggregate (q_tasks q ! i) = []"
    using x(1,2) ruleOf_task [OF i(2)] by (simp add: rulesOk_def isSource_def taskAt_def)
  then show ?thesis using x(1,3) i by auto
qed

theorem success_means_handled_witness:
  "\<exists>x i. m_units rescueEnd = Some x \<and> int i = 0 \<and> Handled (su_rule x) (int i)"
proof -
  have "failedStatus (ev_status (se_event (hd (m_sent rescueEnd))))" "m_sent rescueEnd \<noteq> []"
      "ev_idx (se_event (hd (m_sent rescueEnd))) = 0"
    by (code_simp, code_simp, code_simp)
  with success_means_handled [OF rescue_end rescue_result, of "hd (m_sent rescueEnd)"]
  show ?thesis by (auto simp: rescueQ_def demoPlan_def demoTask_def)
qed

text \<open>
  (C29) Fail-stop: in a message without rescue units, after a failed task of the main flow every later task
  without an \<open>onfail:\<close>, async or not, is reported as skipped, or as folded if it is an aggregate.
\<close>

theorem failure_stops_the_run:
  assumes "perform h limit q cs (initial q) = Some s" "newRescueUnits (q_tasks q) = None"
    and "e \<in> set (m_sent s)" "ev_idx (se_event e) = int i" "failedStatus (ev_status (se_event e))"
    and "\<not> isAsync q (q_tasks q ! i)"
    and "f \<in> set (m_sent s)" "ev_idx (se_event f) = int j" "i < j" "w_onfail (q_tasks q ! j) = []"
  shows "ev_status (se_event f) = TS_SKIPPED \<or>
    (w_aggregate (q_tasks q ! j) \<noteq> [] \<and> ev_status (se_event f) = TS_OK)"
proof -
  have "syncFailed q s i" using assms(3-6) by (auto simp: syncFailed_def)
  then have "stopsAfter q s i"
    using reachable_failStop [OF reachable_run [OF assms(1)] assms(2)] by (simp add: failStop_def)
  then show ?thesis using assms(7-10) by (auto simp: stopsAfter_def mayRun_def idle_def)
qed

theorem failure_stops_the_run_witness: "ev_status (se_event (m_sent demoEnd ! 1)) = TS_SKIPPED"
proof -
  have "newRescueUnits (q_tasks demoQ) = None" by (simp add: newRescueUnits_def demoQ_def demoPlan_def demoTask_def)
  moreover have "length (m_sent demoEnd) = 4" "ev_idx (se_event (m_sent demoEnd ! 0)) = int 1"
    "failedStatus (ev_status (se_event (m_sent demoEnd ! 0)))" "\<not> isAsync demoQ (q_tasks demoQ ! 1)"
    "ev_idx (se_event (m_sent demoEnd ! 1)) = int 2" "w_onfail (q_tasks demoQ ! 2) = []"
    "w_aggregate (q_tasks demoQ ! 2) = []"
    by (code_simp, code_simp, code_simp, code_simp, code_simp, code_simp, code_simp)
  ultimately show ?thesis
    using failure_stops_the_run [OF demo_end, of "m_sent demoEnd ! 0" 1 "m_sent demoEnd ! 1" 2] by simp
qed

section \<open>One task\<close>

text \<open>
  A task with \<open>retry:\<close> reports what the first deciding attempt among its attempts gives: an attempt
  decides when it succeeds, or when its \<open>until:\<close> holds or cannot be evaluated. When none decides the
  task fails for the exhausted \<open>until:\<close>, or with what its last attempt gave.
\<close>

theorem retry_first_deciding:
  "runTaskWithRetry h i t regs False = retrySpec h i t regs [1..<Suc (maxAttempts t)]"
  by (rule runTaskWithRetry_spec)

text \<open>
  (C35) A task that was executed, applied or planned, reports its own position and one of the statuses OK,
  CHANGED, FAILED and TIMED_OUT, and carries an error exactly when it failed.
\<close>

theorem executed_task_settled:
  "ev_idx (runTaskWithRetry h i t regs dry) = i \<and>
   ev_status (runTaskWithRetry h i t regs dry) \<in> {TS_OK, TS_CHANGED, TS_FAILED, TS_TIMED_OUT} \<and>
   (ev_error (runTaskWithRetry h i t regs dry) \<noteq> None \<longleftrightarrow>
      ev_status (runTaskWithRetry h i t regs dry) \<in> {TS_FAILED, TS_TIMED_OUT})"
  using settled_runTaskWithRetry [of i h t regs dry] by (auto simp: settledAs_def failedStatus_def)

lemma checkParams_apply [simp]: "checkParams (h\<lparr>h_apply := f\<rparr>) m st nm ps = checkParams h m st nm ps"
  by (simp add: checkParams_def)

lemma planTask_apply [simp]: "planTask (h\<lparr>h_apply := f\<rparr>) i t = planTask h i t"
  unfolding planTask_def Let_def by (simp split: option.split prod.split)

lemma evalWhen_apply [simp]: "evalWhen (h\<lparr>h_apply := f\<rparr>) t regs = evalWhen h t regs"
  by (simp add: evalWhen_def evalFlowPredicate_def)

lemma barriers_apply [simp]: "barriers (h\<lparr>h_apply := f\<rparr>) fs t = barriers h fs t"
  by (simp add: barriers_def gateBarrier_def startBarrier_def addNames_def)

lemma waits_apply [simp]:
  "awaited (h\<lparr>h_apply := f\<rparr>) q s t = awaited h q s t" "collected (h\<lparr>h_apply := f\<rparr>) q t s = collected h q t s"
  "gating (h\<lparr>h_apply := f\<rparr>) s t = gating h s t"
  by (simp_all add: awaited_def collected_def seenAt_def gating_def Let_def split: option.split)

lemma dry_gateMove: "q_dryRun q \<Longrightarrow> gateMove (h\<lparr>h_apply := f\<rparr>) q t s = gateMove h q t s"
  unfolding gateMove_def Let_def
  by (simp add: startEvent_def runTaskWithRetry_def isAsync_def split: verdict.split)

lemma dry_act:
  assumes "q_dryRun q" "m_flows s = []"
  shows "act (h\<lparr>h_apply := f\<rparr>) limit q c s = act h limit q c s"
  using assms
  by (cases c) (simp_all add: mainMove_def Let_def dry_gateMove startMove_def split: mode.split)

lemma dry_flows:
  assumes "q_dryRun q" "m_flows s = []" "act h limit q c s = Some s'"
  shows "m_flows s' = []"
  using assms(3)
proof (cases rule: act_cases)
  case Main
  from Main(2) show ?thesis
  proof (cases rule: mainMove_cases)
    case Task
    have "\<not> isAsync q t" for t using assms(1) by (simp add: isAsync_def)
    then show ?thesis
      using assms(2) by (simp add: Task(3) gateMove_def Let_def split: verdict.split)
  qed (use assms(2) in auto)
next
  case (Flow k)
  then show ?thesis using flowMove(1) [OF Flow(2)] assms(2) by simp
qed (use assms(2) in simp)

text \<open>
  A dry run applies nothing: its whole course, on every schedule, is the same whatever the modules'
  \<^verbatim>\<open>Apply\<close> would do.
\<close>

theorem dry_run_applies_nothing:
  assumes "q_dryRun q"
  shows "perform (h\<lparr>h_apply := f\<rparr>) limit q cs (initial q) = perform h limit q cs (initial q)"
proof -
  have "perform (h\<lparr>h_apply := f\<rparr>) limit q cs s = perform h limit q cs s" if "m_flows s = []" for s
    using that
  proof (induction cs arbitrary: s)
    case (Cons c cs)
    then show ?case
      using dry_act [OF assms Cons.prems] dry_flows [OF assms Cons.prems] by (simp split: option.split)
  qed simp
  then show ?thesis by (simp add: initial_def)
qed

theorem dry_run_applies_nothing_witness:
  "perform (demoHost\<lparr>h_apply := (\<lambda>_ _ _ _ _. \<lparr>ao_err = Some ''boom'', ao_events = [], ao_expired = True\<rparr>)\<rparr>) 1
     (demoQ\<lparr>q_dryRun := True\<rparr>) (replicate 14 Main) (initial (demoQ\<lparr>q_dryRun := True\<rparr>)) =
   perform demoHost 1 (demoQ\<lparr>q_dryRun := True\<rparr>) (replicate 14 Main) (initial (demoQ\<lparr>q_dryRun := True\<rparr>))"
  by (rule dry_run_applies_nothing) simp

lemma checkParams_unknown:
  assumes "h_input h m st = Some decl" "unknownParams decl (m @ ''.'' @ st) ps \<noteq> []"
  obtains e nts where "checkParams h m st nm ps = (nts, Some e)" "te_code e = ''module.unknown_param''"
  using assms by (simp add: checkParams_def Let_def)

text \<open>An outcome that no attempt changes and no \<open>until:\<close> looks at is the outcome of the task.\<close>

lemma retry_constant:
  assumes "\<And>a. runTask h i a t regs = (ev, None)" "failedStatus (ev_status ev)" "ev_status ev \<noteq> TS_TIMED_OUT"
  shows "runTaskWithRetry h i t regs False = ev"
proof -
  obtain as where atts: "[1..<Suc (maxAttempts t)] = 1 # as" by (simp add: maxAttempts_def upt_conv_Cons del: upt_Suc)
  have v: "attemptVerdict h i t regs (runTask h i a t regs) = (if w_until t = [] then None else Some ev)" for a
    using assms by (simp add: attemptVerdict_def)
  show ?thesis
    unfolding runTaskWithRetry_spec atts retrySpec_def Let_def v
    using assms(1) by (auto simp: find_None_iff find_Some_iff split: option.split)
qed

text \<open>
  A task with a parameter its module does not declare is refused before the module is called, on
  every attempt, in an apply as in a dry run.
\<close>

theorem unknown_param_never_applied:
  assumes "splitModuleAddr (w_module t) = Some (m, st)" "h_found h m" "h_input h m st = Some decl"
    and "unknownParams decl (m @ ''.'' @ st) (w_params t) \<noteq> []"
  shows "\<exists>e. te_code e = ''module.unknown_param'' \<and>
    ev_error (runTaskWithRetry (h\<lparr>h_apply := f\<rparr>) i t regs dry) = Some e \<and>
    runTaskWithRetry (h\<lparr>h_apply := f\<rparr>) i t regs dry = runTaskWithRetry h i t regs dry"
proof -
  obtain e nts where c: "checkParams h m st (w_name t) (w_params t) = (nts, Some e)" "te_code e = ''module.unknown_param''"
    using checkParams_unknown [OF assms(3,4)] by metis
  have "runTaskWithRetry (h\<lparr>h_apply := g\<rparr>) i t regs False = failedEvent i nts e None" for g
    by (rule retry_constant) (simp_all add: runTask_def assms(1,2) c failedEvent_def failedStatus_def)
  from this [of f] this [of "h_apply h"] c(2) show ?thesis
    by (cases dry) (simp_all add: runTaskWithRetry_def planTask_def assms(1,2) c(1) failedEvent_def Let_def)
qed

definition strictHost :: host where
  "strictHost = demoHost\<lparr>h_input := (\<lambda>_ _. Some [(''path'', None)])\<rparr>"

theorem unknown_param_never_applied_witness:
  "\<exists>e. te_code e = ''module.unknown_param'' \<and>
    ev_error (runTaskWithRetry (strictHost\<lparr>h_apply := h_apply demoHost\<rparr>) 0
      ((demoTask ''pkg.b.up'')\<lparr>w_params := [(''mode'', VNil)]\<rparr>) Map.empty False) = Some e \<and>
    runTaskWithRetry (strictHost\<lparr>h_apply := h_apply demoHost\<rparr>) 0
      ((demoTask ''pkg.b.up'')\<lparr>w_params := [(''mode'', VNil)]\<rparr>) Map.empty False =
    runTaskWithRetry strictHost 0 ((demoTask ''pkg.b.up'')\<lparr>w_params := [(''mode'', VNil)]\<rparr>) Map.empty False"
proof (rule unknown_param_never_applied [where m = "''pkg.b''" and st = "''up''" and decl = "[(''path'', None)]"])
  show "splitModuleAddr (w_module ((demoTask ''pkg.b.up'')\<lparr>w_params := [(''mode'', VNil)]\<rparr>)) = Some (''pkg.b'', ''up'')"
    by code_simp
  show "unknownParams [(''path'', None)] (''pkg.b'' @ ''.'' @ ''up'')
      (w_params ((demoTask ''pkg.b.up'')\<lparr>w_params := [(''mode'', VNil)]\<rparr>)) \<noteq> []" by code_simp
qed (simp_all add: strictHost_def demoHost_def)

section \<open>Two behaviours of the code\<close>

text \<open>
  A failed task whose module the host does not have leaves no register, so in a message without rescue
  units the task that names it in \<open>onfail:\<close> is skipped, while the same task after a failed \<^verbatim>\<open>Apply\<close> runs.
\<close>

theorem unregistered_module_skips_rescue:
  "map (ev_status \<circ> se_event)
     (m_sent (runSoul demoHost (demoPlan [demoTask ''ghost.unit.up'', (demoTask ''pkg.d.up'')\<lparr>w_onfail := [0]\<rparr>]))) =
   [TS_FAILED, TS_SKIPPED] \<and>
   map (ev_status \<circ> se_event)
     (m_sent (runSoul demoHost (demoPlan [demoTask ''pkg.b.down'', (demoTask ''pkg.d.up'')\<lparr>w_onfail := [0]\<rparr>]))) =
   [TS_FAILED, TS_CHANGED]"
  by code_simp

definition lateCancel :: "move list" where
  "lateCancel = [Main, Main, Main, Main, Main, Start 0, Main, Main, Main, Cancel, Finish 0, Main]"

definition lateQ :: "int \<Rightarrow> apply_request" where
  "lateQ un = demoPlan
     [demoTask ''pkg.c.up'', (demoTask ''pkg.a.up'')\<lparr>w_async := True\<rparr>,
      (demoTask ''pkg.d.up'')\<lparr>w_onfail := [0], w_rescueUnit := un\<rparr>]"

text \<open>
  (C36) Once the main flow has gone through every task, a Cancel no longer shows in the result of a message without rescue
  units: it reports FAILED if some task failed and SUCCESS otherwise, however many async tasks the Cancel stopped. A message
  with rescue units reports CANCELLED then exactly if some task was reported cancelled.
\<close>

theorem late_cancel_result:
  assumes "perform h limit q cs (initial q) = Some s" "m_mode s = Ended r" "m_pc s = length (q_tasks q)"
  shows "if newRescueUnits (q_tasks q) = None
    then rr_status r = (if reports failedStatus s then RS_FAILED else RS_SUCCESS)
    else rr_status r = RS_CANCELLED \<longleftrightarrow> reports cancelledStatus s"
proof -
  note run = reachable_run [OF assms(1)]
  have late: "m_units s = None \<longleftrightarrow> newRescueUnits (q_tasks q) = None"
    "if m_units s = None then rr_status r \<noteq> RS_CANCELLED \<and> (rr_status r = RS_FAILED \<longrightarrow> reports failedStatus s)
     else rr_status r = RS_CANCELLED \<longleftrightarrow> reports cancelledStatus s"
    using reachable_late [OF run] assms(2,3) by (simp_all add: lateInv_def)
  have "\<not> reports failedStatus s" if "rr_status r = RS_SUCCESS" "m_units s = None"
    using reachable_verdict [OF run] assms(2) that by (auto simp: verdictInv_def reports_def list_ex_iff)
  then show ?thesis using late by (cases "rr_status r") (auto split: if_splits)
qed

definition lateEnd :: "int \<Rightarrow> machine" where
  "lateEnd un = the (perform demoHost 1 (lateQ un) lateCancel (initial (lateQ un)))"

lemma late_end: "un \<in> {0, 1} \<Longrightarrow> perform demoHost 1 (lateQ un) lateCancel (initial (lateQ un)) = Some (lateEnd un)"
proof -
  have "case perform demoHost 1 (lateQ 0) lateCancel (initial (lateQ 0)) of None \<Rightarrow> False | Some s \<Rightarrow> True"
    "case perform demoHost 1 (lateQ 1) lateCancel (initial (lateQ 1)) of None \<Rightarrow> False | Some s \<Rightarrow> True" by code_simp+
  moreover assume "un \<in> {0, 1}"
  ultimately show ?thesis by (auto simp: lateEnd_def split: option.splits)
qed

text \<open>The same Cancel: SUCCESS without a unit, CANCELLED with one.\<close>

theorem late_cancel_result_witness:
  "map_option rr_status (endResult (m_mode (lateEnd 0))) = Some RS_SUCCESS \<and> reports cancelledStatus (lateEnd 0)
   \<and> map_option rr_status (endResult (m_mode (lateEnd 1))) = Some RS_CANCELLED"
proof -
  have over: "endResult (m_mode (lateEnd 0)) \<noteq> None" "endResult (m_mode (lateEnd 1)) \<noteq> None"
    "m_pc (lateEnd 0) = length (q_tasks (lateQ 0))" "m_pc (lateEnd 1) = length (q_tasks (lateQ 1))" by code_simp+
  have sent: "reports cancelledStatus (lateEnd 0)" "\<not> reports failedStatus (lateEnd 0)" "reports cancelledStatus (lateEnd 1)"
    by code_simp+
  have units: "newRescueUnits (q_tasks (lateQ 0)) = None" "newRescueUnits (q_tasks (lateQ 1)) \<noteq> None"
    by (simp_all add: newRescueUnits_def lateQ_def demoPlan_def demoTask_def)
  obtain r r' where r: "m_mode (lateEnd 0) = Ended r" "m_mode (lateEnd 1) = Ended r'"
    using over(1,2) by (auto simp: endResult_iff)
  have "rr_status r = RS_SUCCESS"
    using late_cancel_result [OF late_end [of 0] r(1) over(3)] sent(2) units(1) by simp
  moreover have "rr_status r' = RS_CANCELLED"
    using late_cancel_result [OF late_end [of 1] r(2) over(4)] sent(3) units(2) by simp
  ultimately show ?thesis using r sent(1) by simp
qed

section \<open>The rescue rule\<close>

text \<open>
  After any sequence of calls of the rescue rule, the counter it stops the run by is the number of
  held sources, and a handled source is one of a unit that was decided after it ran something of its
  own, and of which no task failed.
\<close>

theorem rescue_counter_and_handling:
  "AnyHeld (fold ruleCall cs newRescueRule) = (\<exists>p. Held (fold ruleCall cs newRescueRule) p) \<and>
   r_held (fold ruleCall cs newRescueRule) = int (card {p. Held (fold ruleCall cs newRescueRule) p}) \<and>
   {p. Handled (fold ruleCall cs newRescueRule) p} \<subseteq>
     {p. \<exists>uid u. r_units (fold ruleCall cs newRescueRule) uid = Some u \<and> u_decided u \<and> u_executed u \<and>
        \<not> u_failed u \<and> \<not> u_lost u \<and> p \<in> set (u_sources u)}"
proof -
  have inv: "rule_inv (fold ruleCall cs newRescueRule)" by (rule calls.fold_keeps [OF rule_inv_new])
  then show ?thesis
    using rule_inv_anyHeld [OF inv] handledOk_calls [of cs]
    by (auto simp: rule_inv_def heldSet_def handledOk_def handlesBy_def)
qed

end
