(* ===== verification/Keeper_Claims.thy ===== *)
theory Keeper_Claims
  imports Keeper_Step Soul_Claims
begin

text \<open>
  The properties of a step on the Keeper, among them the one that spans the Keeper and the Soul: the
  requisites the Keeper decides, the indexes it rewrites and the gate of the Soul together are the
  disjunction over all sources, wherever each ran. What a host is sent and what is recorded for it is compared with the
  rules of a task on a host (\<open>failsOn\<close>, \<open>leftOut\<close>), stated without the routine that applies them.
\<close>

section \<open>What the Soul knows of absent sources\<close>

definition negFree :: "machine \<Rightarrow> bool" where
  "negFree s \<longleftrightarrow> (\<forall>i < 0. m_byIdx s i = None)"

lemma negFree_report: "negFree s \<Longrightarrow> 0 \<le> ev_idx ev \<Longrightarrow> negFree (report q t ev s)"
  by (simp add: negFree_def report_def)

lemma negFree_frame [simp]:
  "negFree (nextTask s) = negFree s" "negFree (noteRan i ev s) = negFree s"
  "negFree (launchFlow t i wt s) = negFree s" "negFree (collected h q t s) = negFree s"
  "negFree (setStage k st s) = negFree s" "negFree (s\<lparr>m_mode := md\<rparr>) = negFree s"
  "negFree (s\<lparr>m_status := rs\<rparr>) = negFree s" "negFree (s\<lparr>m_dead := b\<rparr>) = negFree s"
  "negFree (drainMove q s) = negFree s"
  by (simp_all add: negFree_def nextTask_def noteRan_def launchFlow_def setStage_def drainMove_def Let_def
      split: option.split)

lemma negFree_gate: "negFree s \<Longrightarrow> negFree (gateMove h q t s)"
  by (auto simp: gateMove_def Let_def intro!: negFree_report split: verdict.split)

lemma negFree_exec: "negFree s \<Longrightarrow> 0 \<le> ev_idx ev \<Longrightarrow> negFree (execMove q t ev s)"
  by (simp add: execMove_def Let_def negFree_report)

lemma open_flow_nonneg:
  assumes "accounted q s" "f \<in> set (m_flows s)" "\<not> isDone f"
  shows "0 \<le> fl_idx f"
proof (cases "ended s")
  case True
  then show ?thesis using assms by (auto simp: accounted_def ended_def list_all_iff split: mode.splits)
next
  case False
  then obtain m where "reported s + openFlows s = upTo m"
    using assms(1) by (auto simp: accounted_def ended_def split: mode.splits)
  moreover have "fl_idx f \<in># openFlows s" using assms(2,3) by (auto simp: openFlows_def)
  ultimately have "fl_idx f \<in># upTo m" by (metis union_iff)
  then show ?thesis by (auto simp: upTo_def)
qed

lemma reachable_negFree: "reachable h limit q s \<Longrightarrow> negFree s"
proof (induction rule: reachable.induct)
  case start
  then show ?case by (simp add: negFree_def initial_def)
next
  case (step s c s')
  note ord = reachable_ordered [OF step.hyps(1)] and acc = reachable_accounted [OF step.hyps(1)]
  from step.hyps(2) show ?case
  proof (cases rule: act_cases)
    case Main
    from Main(2) show ?thesis
    proof (cases rule: mainMove_cases)
      case (Over t ev)
      then show ?thesis using step.IH ord by (simp add: negFree_exec placed_def)
    qed (use step.IH negFree_gate in auto)
  next
    case (Flow k)
    from Flow(2) show ?thesis
    proof
      assume "startMove h limit k s = Some s'"
      from startMoveD(3) [OF this] show ?thesis using step.IH by simp
    next
      assume "finishMove q k s = Some s'"
      then obtain ev where f: "k < length (m_flows s)" "fl_stage (m_flows s ! k) = Running ev"
          "s' = setStage k (Done (finalEvent s None (fl_task (m_flows s ! k)) ev))
            (report q (fl_task (m_flows s ! k)) (finalEvent s None (fl_task (m_flows s ! k)) ev) s)"
        by (rule finishMoveD)
      have "m_flows s ! k \<in> set (m_flows s)" "\<not> isDone (m_flows s ! k)" using f(1,2) by (simp_all add: isDone_def)
      then have "0 \<le> ev_idx ev" using open_flow_nonneg [OF acc] ord f(2) by (force simp: flowsOrdered_def)
      then show ?thesis using step.IH by (simp add: f(3) negFree_report)
    qed
  next
    case Cancel
    then show ?thesis using step.IH by simp
  qed
qed

section \<open>Requisites across the Keeper and the Soul\<close>

text \<open>
  What a source says, wherever it ran: an earlier step's by the recorded facts, one of the same message by
  the register the Soul wrote at its position, any other by nothing.
\<close>

definition sourceSays ::
    "cross_gate \<Rightarrow> task_key set \<Rightarrow> string \<Rightarrow> string \<Rightarrow> int \<Rightarrow> rendered_task list \<Rightarrow> (int \<Rightarrow> struct option) \<Rightarrow> int \<Rightarrow> bool" where
  "sourceSays g ks key sid p slice st i =
     (if isCross g p i
      then \<exists>f \<in> set (factIndices g i). (if cg_keeperSide g f then KeeperTargetSID else sid, f) \<in> ks
      else \<exists>l. localIndexMap slice i = Some l \<and> boolField (st l) key)"

lemma anyKey_iff:
  "anyKey g ks sid srcs \<longleftrightarrow>
     (\<exists>i \<in> set srcs. \<exists>f \<in> set (factIndices g i). (if cg_keeperSide g f then KeeperTargetSID else sid, f) \<in> ks)"
  by (simp add: anyKey_def list_ex_iff)

text \<open>The gate of the Soul on remapped indexes: an absent source says nothing.\<close>

definition gateOpen :: "string \<Rightarrow> rendered_task list \<Rightarrow> (int \<Rightarrow> struct option) \<Rightarrow> int list \<Rightarrow> bool" where
  "gateOpen key slice st is \<longleftrightarrow>
     is = [] \<or> (\<exists>i \<in> set is. \<exists>l. localIndexMap slice i = Some l \<and> boolField (st l) key)"

lemma remapped_ex:
  assumes "st outOfRangeRequisite = None"
  shows "(\<exists>l \<in> set (remapRequisites is m). boolField (st l) key) \<longleftrightarrow>
    (\<exists>i \<in> set is. \<exists>l. m i = Some l \<and> boolField (st l) key)"
proof -
  have "boolField (st (case m i of Some l \<Rightarrow> l | None \<Rightarrow> outOfRangeRequisite)) key \<longleftrightarrow>
      (\<exists>l. m i = Some l \<and> boolField (st l) key)" for i
    using assms by (cases "m i") (auto simp: boolField_def)
  then show ?thesis by (auto simp: remapRequisites_def)
qed

lemma gateOpen_skips:
  assumes "st outOfRangeRequisite = None"
  shows "\<not> skipOnChanges (remapRequisites is (localIndexMap slice)) st \<longleftrightarrow> gateOpen ''changed'' slice st is"
    and "\<not> skipOnFail (remapRequisites is (localIndexMap slice)) st \<longleftrightarrow> gateOpen ''failed'' slice st is"
  using remapped_ex [of st, OF assms, of "is" "localIndexMap slice"]
  by (auto simp: skipOnChanges_def skipOnFail_def gateOpen_def list_ex_iff remapRequisites_def)

text \<open>One kind of requisite, resolved by the Keeper and gated by the Soul.\<close>

lemma resolveKind_gate:
  "(case resolveKind g ks sid (filter (isCross g p) idxs) (filter (\<lambda>i. \<not> isCross g p i) idxs) of
      None \<Rightarrow> False | Some wire \<Rightarrow> gateOpen key slice st wire) \<longleftrightarrow>
   idxs = [] \<or> (\<exists>i \<in> set idxs. sourceSays g ks key sid p slice st i)"
proof -
  let ?cross = "filter (isCross g p) idxs" and ?same = "filter (\<lambda>i. \<not> isCross g p i) idxs"
  have parts: "idxs = [] \<longleftrightarrow> ?cross = [] \<and> ?same = []" by (induction idxs) auto
  have says: "(\<exists>i \<in> set idxs. sourceSays g ks key sid p slice st i) \<longleftrightarrow>
      anyKey g ks sid ?cross \<or> (\<exists>i \<in> set ?same. \<exists>l. localIndexMap slice i = Some l \<and> boolField (st l) key)"
    unfolding anyKey_iff sourceSays_def by auto
  have none: "\<not> anyKey g ks sid []" by (simp add: anyKey_def)
  show ?thesis
    unfolding says parts resolveKind_def gateOpen_def using none by (auto simp: filter_empty_conv)
qed

lemma resolveTask_gate:
  "(case resolveTask g t sid p of
      None \<Rightarrow> False
    | Some t' \<Rightarrow> gateOpen ''changed'' slice st (rt_onChangesIdx t') \<and> gateOpen ''failed'' slice st (rt_onFailIdx t')) \<longleftrightarrow>
   (rt_onChangesIdx t = [] \<or> (\<exists>i \<in> set (rt_onChangesIdx t). sourceSays g (cg_changed g) ''changed'' sid p slice st i)) \<and>
   (rt_onFailIdx t = [] \<or> (\<exists>i \<in> set (rt_onFailIdx t). sourceSays g (cg_failed g) ''failed'' sid p slice st i))"
proof -
  let ?ch = "rt_onChangesIdx t" and ?fl = "rt_onFailIdx t"
  note k = resolveKind_gate [where g = g and ks = "cg_changed g" and sid = sid and p = p and idxs = ?ch
      and key = "''changed''" and slice = slice and st = st, symmetric]
    resolveKind_gate [where g = g and ks = "cg_failed g" and sid = sid and p = p and idxs = ?fl
      and key = "''failed''" and slice = slice and st = st, symmetric]
  show ?thesis
  proof (cases "filter (isCross g p) ?ch = [] \<and> filter (isCross g p) ?fl = []")
    case True
    then have "filter (\<lambda>i. \<not> isCross g p i) ?ch = ?ch" "filter (\<lambda>i. \<not> isCross g p i) ?fl = ?fl"
      by (auto simp: filter_empty_conv filter_id_conv)
    then show ?thesis
      unfolding k using True by (simp add: resolveTask_def splitRequisite_def resolveKind_def)
  next
    case False
    then show ?thesis
      unfolding k by (auto simp: resolveTask_def splitRequisite_def split: option.splits)
  qed
qed

text \<open>
  (C6) A task runs on a host, as far as its requisites go, exactly when for each kind it names no source or some
  source says so, wherever each source ran: the Keeper decides what earlier steps recorded, rewrites
  the indexes to positions in the message of the host, and the Soul decides the rest from the registers of that
  message, in any state a schedule of it reaches.
\<close>

theorem requisites_are_any_source:
  assumes "perform h limit q cs (initial q) = Some s"
  shows "(case resolveTask g t sid p of
      None \<Rightarrow> False
    | Some t' \<Rightarrow>
        \<not> skipOnChanges (w_onchanges (toProtoTask (localIndexMap slice) sid t')) (m_byIdx s) \<and>
        \<not> skipOnFail (w_onfail (toProtoTask (localIndexMap slice) sid t')) (m_byIdx s)) \<longleftrightarrow>
   (rt_onChangesIdx t = [] \<or>
      (\<exists>i \<in> set (rt_onChangesIdx t). sourceSays g (cg_changed g) ''changed'' sid p slice (m_byIdx s) i)) \<and>
   (rt_onFailIdx t = [] \<or>
      (\<exists>i \<in> set (rt_onFailIdx t). sourceSays g (cg_failed g) ''failed'' sid p slice (m_byIdx s) i))"
proof -
  have none: "m_byIdx s outOfRangeRequisite = None"
    using reachable_negFree [OF reachable_run [OF assms]] by (simp add: negFree_def outOfRangeRequisite_def)
  show ?thesis
    unfolding resolveTask_gate [symmetric]
    by (simp add: toProtoTask_def Let_def gateOpen_skips [of "m_byIdx s", OF none] split: option.split)
qed

section \<open>Hosts settled before anything is sent\<close>

lemma resolveTask_index: "resolveTask g t sid p = Some t' \<Longrightarrow> rt_index t' = rt_index t"
  by (auto simp: resolveTask_def splitRequisite_def Let_def split: if_splits option.splits)

lemma hostVerdict_index [simp]: "rt_index (tv_task (hostVerdict go t sid p pos)) = rt_index t"
  using resolveTask_index by (auto simp: hostVerdict_def Let_def split: option.split)

lemma skippedOn_index [simp]: "rt_index (skippedOn t sid) = rt_index t"
  by (simp add: skippedOn_def)

lemma recordAs_simps [simp]:
  "kr_task (recordAs v st f) = tv_task v" "kr_status (recordAs v st f) = st" "kr_failure (recordAs v st f) = f"
  by (simp_all add: recordAs_def)

definition recordsOf :: "settled_host option \<Rightarrow> keeper_record list" where
  "recordsOf sh = (case sh of None \<Rightarrow> [] | Some x \<Rightarrow> sh_records x)"

text \<open>A verdict is sent or recorded.\<close>

lemma kept_and_skipped:
  "mset (map rt_index (keptOf sid vs)) + mset (map (rt_index \<circ> kr_task) (skippedRecords vs)) =
   mset (map (rt_index \<circ> tv_task) vs)"
  by (induction vs) (simp_all add: keptOf_def skippedRecords_def map_filter_def)

lemma others_of: "map snd (filter (\<lambda>(i, x). i \<noteq> n + c) (zip [n..<n + length xs] xs)) = take c xs @ drop (Suc c) xs"
proof (induction xs arbitrary: n c)
  case (Cons x xs)
  have u: "[n..<n + length (x # xs)] = n # [Suc n..<Suc n + length xs]" by (simp add: upt_conv_Cons del: upt_Suc)
  show ?case
  proof (cases c)
    case 0
    have "filter (\<lambda>(i, x). i \<noteq> n) (zip [Suc n..<Suc n + length xs] xs) = zip [Suc n..<Suc n + length xs] xs"
      by (auto simp: filter_id_conv dest!: set_zip_leftD)
    then show ?thesis unfolding u by (simp add: 0 del: upt_Suc)
  next
    case (Suc d)
    then show ?thesis unfolding u using Cons.IH [of "Suc n" d] by (simp del: upt_Suc)
  qed
qed simp

lemma failedHost_records:
  assumes "c < length vs"
  shows "mset (map (rt_index \<circ> kr_task) (sh_records (failedHost vs c))) = mset (map (rt_index \<circ> tv_task) vs)"
proof -
  let ?f = "rt_index \<circ> tv_task"
  have others: "map snd (filter (\<lambda>(i, v). i \<noteq> c) (zip [0..<length vs] vs)) = take c vs @ drop (Suc c) vs"
    using others_of [of 0 c vs] by simp
  have "map ?f vs = map ?f (take c vs @ vs ! c # drop (Suc c) vs)" using id_take_nth_drop [OF assms] by simp
  moreover have "(rt_index \<circ> kr_task) \<circ> (\<lambda>v. if tv_skip v then recordAs v TS_SKIPPED None
      else if tv_failure v \<noteq> None then recordAs v TS_FAILED (tv_failure v)
      else recordAs v TS_FAILED (siblingFailure (vs ! c))) = ?f" by auto
  ultimately show ?thesis by (simp add: failedHost_def Let_def others)
qed

lemma causeOf_Some: "causeOf vs = Some c \<Longrightarrow> c < length vs \<and> tv_failure (vs ! c) \<noteq> None"
  by (auto simp: causeOf_def find_Some_iff)

text \<open>
  What the rules say of a task on a host, without the routine that applies them. Its rescue unit may be over
  there; its requisites rule it out when all sources of one kind belong to earlier steps and none of them said
  so.
\<close>

definition unitOver :: "cross_gate option \<Rightarrow> string \<Rightarrow> rendered_task \<Rightarrow> bool" where
  "unitOver go sid t \<longleftrightarrow>
     (case Option.bind go cg_unitFailed of None \<Rightarrow> False | Some f \<Rightarrow> rt_rescueUnit t \<noteq> [] \<and> f sid (rt_rescueUnit t))"

definition silentBefore :: "cross_gate \<Rightarrow> task_key set \<Rightarrow> string \<Rightarrow> int \<Rightarrow> int list \<Rightarrow> bool" where
  "silentBefore g ks sid p idxs \<longleftrightarrow> idxs \<noteq> [] \<and> list_all (isCross g p) idxs \<and> \<not> anyKey g ks sid idxs"

definition ruledOut :: "cross_gate option \<Rightarrow> string \<Rightarrow> int \<Rightarrow> rendered_task \<Rightarrow> bool" where
  "ruledOut go sid p t \<longleftrightarrow>
     (case go of None \<Rightarrow> False
      | Some g \<Rightarrow> silentBefore g (cg_changed g) sid p (rt_onChangesIdx t) \<or>
                  silentBefore g (cg_failed g) sid p (rt_onFailIdx t))"

text \<open>
  A task fails on the host when rendering it there failed and it was due: a \<^verbatim>\<open>when:\<close> that cannot be computed
  fails before any requisite is asked, any other predicate after them. It is left out when it is not due.
\<close>

definition failsOn :: "cross_gate option \<Rightarrow> int \<Rightarrow> string \<Rightarrow> rendered_task \<Rightarrow> bool" where
  "failsOn go p sid t \<longleftrightarrow> \<not> unitOver go sid t \<and> hf_failure (flowOf t sid) \<noteq> None \<and>
     (whenFailed (hf_failure (flowOf t sid)) \<or> \<not> hf_skip (flowOf t sid) \<and> \<not> ruledOut go sid p t)"

definition leftOut :: "cross_gate option \<Rightarrow> int \<Rightarrow> string \<Rightarrow> rendered_task \<Rightarrow> bool" where
  "leftOut go p sid t \<longleftrightarrow> unitOver go sid t \<or>
     \<not> whenFailed (hf_failure (flowOf t sid)) \<and> (hf_skip (flowOf t sid) \<or> ruledOut go sid p t)"

definition recordLine :: "keeper_record \<Rightarrow> int \<times> task_status \<times> flow_failure option" where
  "recordLine r = (rt_index (kr_task r), kr_status r, kr_failure r)"

text \<open>The line of a task next to the failing task \<open>t\<close>.\<close>

definition lineBeside ::
    "cross_gate option \<Rightarrow> int \<Rightarrow> string \<Rightarrow> rendered_task \<Rightarrow> rendered_task \<Rightarrow> int \<times> task_status \<times> flow_failure option" where
  "lineBeside go p sid t u =
     (if leftOut go p sid u then (rt_index u, TS_SKIPPED, None)
      else if failsOn go p sid u then (rt_index u, TS_FAILED, hf_failure (flowOf u sid))
      else (rt_index u, TS_FAILED,
        map_option (\<lambda>f. f\<lparr>ff_message := ''task '' @ goQ (rt_name t) @ '' failed on this host before dispatch: ''
          @ ff_message f\<rparr>) (hf_failure (flowOf t sid))))"

lemma resolveKind_None:
  "resolveKind g ks sid (filter (isCross g p) idxs) (filter (\<lambda>i. \<not> isCross g p i) idxs) = None \<longleftrightarrow>
   silentBefore g ks sid p idxs"
proof (cases "list_all (isCross g p) idxs")
  case True
  then have "filter (isCross g p) idxs = idxs" "filter (\<lambda>i. \<not> isCross g p i) idxs = []"
    by (auto simp: list_all_iff filter_id_conv filter_empty_conv)
  then show ?thesis using True by (simp add: resolveKind_def silentBefore_def)
next
  case False
  then have "filter (\<lambda>i. \<not> isCross g p i) idxs \<noteq> []" by (auto simp: list_all_iff filter_empty_conv)
  then show ?thesis using False by (simp add: resolveKind_def silentBefore_def)
qed

lemma resolveTask_None: "resolveTask g t sid p = None \<longleftrightarrow> ruledOut (Some g) sid p t"
proof -
  let ?out = "\<lambda>ks is. resolveKind g ks sid (filter (isCross g p) is) (filter (\<lambda>i. \<not> isCross g p i) is) = None"
  have "resolveTask g t sid p = None \<longleftrightarrow>
      ?out (cg_changed g) (rt_onChangesIdx t) \<or> ?out (cg_failed g) (rt_onFailIdx t)"
    by (auto simp: resolveTask_def splitRequisite_def resolveKind_def [of _ _ _ "[]"] split: option.splits)
  then show ?thesis by (simp add: resolveKind_None ruledOut_def)
qed

lemma hostVerdict_says [simp]:
  "tv_failure (hostVerdict go t sid p pos) = (if failsOn go p sid t then hf_failure (flowOf t sid) else None)"
  "tv_skip (hostVerdict go t sid p pos) = leftOut go p sid t"
proof -
  have w: "\<not> whenFailed None" by (simp add: whenFailed_def)
  note d = hostVerdict_def Let_def failsOn_def leftOut_def unitOver_def ruledOut_def [of None] resolveTask_None [symmetric]
  show "tv_failure (hostVerdict go t sid p pos) = (if failsOn go p sid t then hf_failure (flowOf t sid) else None)"
    using w by (cases go) (auto simp: d split: option.split)
  show "tv_skip (hostVerdict go t sid p pos) = leftOut go p sid t"
    using w by (cases go) (auto simp: d split: option.split)
qed

text \<open>The verdicts of a slice, and lists computed from them.\<close>

definition verdictsOf :: "cross_gate option \<Rightarrow> int \<Rightarrow> string \<Rightarrow> rendered_task list \<Rightarrow> task_verdict list" where
  "verdictsOf go p sid ts = map (\<lambda>(pos, t). hostVerdict go t sid p (int pos)) (zip [0..<length ts] ts)"

lemma settleHost_verdicts:
  "settleHost go p sid ts =
     (case causeOf (verdictsOf go p sid ts) of
        Some c \<Rightarrow> ([], Some (failedHost (verdictsOf go p sid ts) c))
      | None \<Rightarrow> (keptOf sid (verdictsOf go p sid ts),
          if skippedRecords (verdictsOf go p sid ts) = [] then None
          else Some \<lparr>sh_records = skippedRecords (verdictsOf go p sid ts), sh_failed = False\<rparr>))"
  unfolding settleHost_def verdictsOf_def Let_def ..

lemma verdictsOf_nth:
  "length (verdictsOf go p sid ts) = length ts"
  "i < length ts \<Longrightarrow> verdictsOf go p sid ts ! i = hostVerdict go (ts ! i) sid p (int i)"
  by (simp_all add: verdictsOf_def)

lemma verdictsOf_map:
  assumes "\<And>pos t. f (hostVerdict go t sid p pos) = g t"
  shows "map f (verdictsOf go p sid ts) = map g ts"
  by (rule nth_equalityI) (simp_all add: verdictsOf_nth assms)

lemma filter_concat: "map f (filter P xs) = concat (map (\<lambda>x. if P x then [f x] else []) xs)"
  by (induction xs) simp_all

lemma resolveTask_keeps:
  "resolveTask g t sid p = Some t' \<Longrightarrow>
     rt_name t' = rt_name t \<and> rt_grouped t' = rt_grouped t \<and> rt_flowBySID t' = rt_flowBySID t"
  by (auto simp: resolveTask_def splitRequisite_def Let_def split: if_splits option.splits)

lemma hostVerdict_keeps [simp]:
  "rt_name (tv_task (hostVerdict go t sid p pos)) = rt_name t"
  "rt_grouped (tv_task (hostVerdict go t sid p pos)) = rt_grouped t"
  "flowOf (tv_task (hostVerdict go t sid p pos)) = flowOf t"
proof -
  have "tv_task (hostVerdict go t sid p pos) = t \<or>
      (\<exists>g. go = Some g \<and> resolveTask g t sid p = Some (tv_task (hostVerdict go t sid p pos)))"
    by (simp add: hostVerdict_def Let_def split: option.split)
  from this show "rt_name (tv_task (hostVerdict go t sid p pos)) = rt_name t"
    "rt_grouped (tv_task (hostVerdict go t sid p pos)) = rt_grouped t"
    "flowOf (tv_task (hostVerdict go t sid p pos)) = flowOf t"
    using resolveTask_keeps unfolding flowOf_def by metis+
qed

lemma flowOf_skippedOn [simp]: "hf_skip (flowOf (skippedOn t sid) sid)"
  by (simp add: skippedOn_def flowOf_def)

text \<open>What reaches the host: a task that is left out only as a skip, and only if its group needs it.\<close>

definition sentLine :: "string \<Rightarrow> rendered_task \<Rightarrow> int \<times> bool" where
  "sentLine sid t = (rt_index t, hf_skip (flowOf t sid))"

lemma keptOf_lines:
  assumes "\<And>t. t \<in> set ts \<Longrightarrow> \<not> failsOn go p sid t"
  shows "map (sentLine sid) (keptOf sid (verdictsOf go p sid ts)) =
    map (\<lambda>t. (rt_index t, leftOut go p sid t)) (filter (\<lambda>t. \<not> (leftOut go p sid t \<and> \<not> rt_grouped t)) ts)"
proof -
  have w: "\<not> whenFailed None" by (simp add: whenFailed_def)
  have due: "hf_skip (flowOf t sid) \<longrightarrow> leftOut go p sid t" if "t \<in> set ts" for t
    using assms [OF that] w by (auto simp: failsOn_def leftOut_def)
  have "map (sentLine sid) (keptOf sid vs) = concat (map (\<lambda>v.
      if \<not> tv_skip v then [sentLine sid (tv_task v)]
      else if rt_grouped (tv_task v) then [(rt_index (tv_task v), True)] else []) vs)" for vs
    by (induction vs) (simp_all add: keptOf_def map_filter_def sentLine_def)
  also have "map (\<lambda>v. if \<not> tv_skip v then [sentLine sid (tv_task v)]
      else if rt_grouped (tv_task v) then [(rt_index (tv_task v), True)] else []) (verdictsOf go p sid ts) =
    map (\<lambda>t. if \<not> leftOut go p sid t then [(rt_index t, hf_skip (flowOf t sid))]
      else if rt_grouped t then [(rt_index t, True)] else []) ts"
    by (rule verdictsOf_map) (simp add: sentLine_def)
  also have "\<dots> = map (\<lambda>t. if \<not> (leftOut go p sid t \<and> \<not> rt_grouped t) then [(rt_index t, leftOut go p sid t)] else []) ts"
    using due by auto
  finally show ?thesis unfolding filter_concat .
qed

lemma skippedRecords_lines:
  "map recordLine (skippedRecords (verdictsOf go p sid ts)) =
    map (\<lambda>t. (rt_index t, TS_SKIPPED, None)) (filter (\<lambda>t. leftOut go p sid t \<and> \<not> rt_grouped t) ts)"
proof -
  have "map recordLine (skippedRecords vs) = map (\<lambda>v. (rt_index (tv_task v), TS_SKIPPED, None))
      (filter (\<lambda>v. tv_skip v \<and> \<not> rt_grouped (tv_task v)) vs)" for vs
    by (simp add: skippedRecords_def recordLine_def comp_def)
  moreover have "map (\<lambda>v. if tv_skip v \<and> \<not> rt_grouped (tv_task v) then [(rt_index (tv_task v), TS_SKIPPED, None :: flow_failure option)] else [])
      (verdictsOf go p sid ts) =
    map (\<lambda>t. if leftOut go p sid t \<and> \<not> rt_grouped t then [(rt_index t, TS_SKIPPED, None)] else []) ts"
    by (rule verdictsOf_map) simp
  ultimately show ?thesis unfolding filter_concat by simp
qed

lemma causeOf_verdicts:
  "causeOf (verdictsOf go p sid ts) = None \<longleftrightarrow> (\<forall>t \<in> set ts. \<not> failsOn go p sid t)"
  "causeOf (verdictsOf go p sid ts) = Some c \<Longrightarrow>
     c < length ts \<and> failsOn go p sid (ts ! c) \<and> (\<forall>j < c. \<not> failsOn go p sid (ts ! j))"
proof -
  have f: "tv_failure (verdictsOf go p sid ts ! i) = None \<longleftrightarrow> \<not> failsOn go p sid (ts ! i)" if "i < length ts" for i
    using that by (auto simp: verdictsOf_nth failsOn_def)
  show "causeOf (verdictsOf go p sid ts) = None \<longleftrightarrow> (\<forall>t \<in> set ts. \<not> failsOn go p sid t)"
    using f by (auto simp: causeOf_def find_None_iff verdictsOf_nth(1) all_set_conv_all_nth)
  assume "causeOf (verdictsOf go p sid ts) = Some c"
  then have "c < length ts" "tv_failure (verdictsOf go p sid ts ! c) \<noteq> None"
      "\<And>j. j < c \<Longrightarrow> tv_failure (verdictsOf go p sid ts ! j) = None"
    by (auto simp: causeOf_def find_Some_iff verdictsOf_nth(1))
  then show "c < length ts \<and> failsOn go p sid (ts ! c) \<and> (\<forall>j < c. \<not> failsOn go p sid (ts ! j))"
    using f by (metis less_trans)
qed

lemma first_failing:
  assumes "c < length ts" "failsOn go p sid (ts ! c)" "\<forall>j < c. \<not> failsOn go p sid (ts ! j)"
  shows "takeWhile (\<lambda>t. \<not> failsOn go p sid t) ts = take c ts"
    and "dropWhile (\<lambda>t. \<not> failsOn go p sid t) ts = ts ! c # drop (Suc c) ts"
proof -
  show t: "takeWhile (\<lambda>t. \<not> failsOn go p sid t) ts = take c ts"
    by (rule takeWhile_eq_take_P_nth) (use assms in auto)
  show "dropWhile (\<lambda>t. \<not> failsOn go p sid t) ts = ts ! c # drop (Suc c) ts"
    unfolding dropWhile_eq_drop t using assms(1) by (simp add: Cons_nth_drop_Suc)
qed

lemma failedHost_lines:
  assumes "c < length ts" "failsOn go p sid (ts ! c)"
  shows "map recordLine (sh_records (failedHost (verdictsOf go p sid ts) c)) =
    (rt_index (ts ! c), TS_FAILED, hf_failure (flowOf (ts ! c) sid)) #
    map (lineBeside go p sid (ts ! c)) (take c ts @ drop (Suc c) ts)"
proof -
  let ?vs = "verdictsOf go p sid ts"
  define why where "why = ?vs ! c"
  have why: "why = hostVerdict go (ts ! c) sid p (int c)" using assms(1) by (simp add: why_def verdictsOf_nth)
  have sib: "siblingFailure why = map_option (\<lambda>f. f\<lparr>ff_message := ''task '' @ goQ (rt_name (ts ! c)) @
      '' failed on this host before dispatch: '' @ ff_message f\<rparr>) (hf_failure (flowOf (ts ! c) sid))"
    using assms(2) by (simp add: siblingFailure_def why)
  let ?line = "\<lambda>v. if tv_skip v then (rt_index (tv_task v), TS_SKIPPED, None)
      else if tv_failure v \<noteq> None then (rt_index (tv_task v), TS_FAILED, tv_failure v)
      else (rt_index (tv_task v), TS_FAILED, siblingFailure why)"
  have v: "map ?line ?vs = map (lineBeside go p sid (ts ! c)) ts"
    by (rule verdictsOf_map) (auto simp: lineBeside_def sib failsOn_def)
  have "map snd (filter (\<lambda>(i, v). i \<noteq> c) (zip [0..<length ?vs] ?vs)) = take c ?vs @ drop (Suc c) ?vs"
    using others_of [of 0 c ?vs] by simp
  then have "map recordLine (sh_records (failedHost ?vs c)) =
      (rt_index (ts ! c), TS_FAILED, tv_failure why) # map ?line (take c ?vs @ drop (Suc c) ?vs)"
    by (simp add: failedHost_def Let_def recordLine_def why_def [symmetric] why comp_def if_distrib)
  then show ?thesis using v assms(2) by (simp add: why take_map [symmetric] drop_map [symmetric])
qed

text \<open>A slice in which no task fails, and one in which some do.\<close>

lemma settle_benign:
  assumes "dropWhile (\<lambda>t. \<not> failsOn go p sid t) ts = []"
  shows "map (sentLine sid) (fst (settleHost go p sid ts)) =
      map (\<lambda>t. (rt_index t, leftOut go p sid t)) (filter (\<lambda>t. \<not> (leftOut go p sid t \<and> \<not> rt_grouped t)) ts)"
    and "snd (settleHost go p sid ts) = None \<or> (\<exists>rs. snd (settleHost go p sid ts) = Some \<lparr>sh_records = rs, sh_failed = False\<rparr>)"
    and "map recordLine (recordsOf (snd (settleHost go p sid ts))) =
      map (\<lambda>t. (rt_index t, TS_SKIPPED, None)) (filter (\<lambda>t. leftOut go p sid t \<and> \<not> rt_grouped t) ts)"
proof -
  have n: "causeOf (verdictsOf go p sid ts) = None" "\<And>t. t \<in> set ts \<Longrightarrow> \<not> failsOn go p sid t"
    using assms by (auto simp: causeOf_verdicts(1))
  show "map (sentLine sid) (fst (settleHost go p sid ts)) =
      map (\<lambda>t. (rt_index t, leftOut go p sid t)) (filter (\<lambda>t. \<not> (leftOut go p sid t \<and> \<not> rt_grouped t)) ts)"
    using keptOf_lines [OF n(2)] by (simp add: settleHost_verdicts n(1))
  show "snd (settleHost go p sid ts) = None \<or> (\<exists>rs. snd (settleHost go p sid ts) = Some \<lparr>sh_records = rs, sh_failed = False\<rparr>)"
    by (simp add: settleHost_verdicts n(1))
  have "recordsOf (snd (settleHost go p sid ts)) = skippedRecords (verdictsOf go p sid ts)"
    by (simp add: settleHost_verdicts n(1) recordsOf_def)
  then show "map recordLine (recordsOf (snd (settleHost go p sid ts))) =
      map (\<lambda>t. (rt_index t, TS_SKIPPED, None)) (filter (\<lambda>t. leftOut go p sid t \<and> \<not> rt_grouped t) ts)"
    by (simp add: skippedRecords_lines)
qed

lemma settle_failing:
  assumes "dropWhile (\<lambda>t. \<not> failsOn go p sid t) ts = t # later"
  shows "fst (settleHost go p sid ts) = []"
    and "\<exists>rs. snd (settleHost go p sid ts) = Some \<lparr>sh_records = rs, sh_failed = True\<rparr> \<and>
      map recordLine rs = (rt_index t, TS_FAILED, hf_failure (flowOf t sid)) #
        map (lineBeside go p sid t) (takeWhile (\<lambda>t. \<not> failsOn go p sid t) ts @ later)"
proof -
  have "causeOf (verdictsOf go p sid ts) \<noteq> None"
    using assms causeOf_verdicts(1) [of go p sid ts] by (auto simp flip: dropWhile_eq_Nil_conv)
  then obtain c where c: "causeOf (verdictsOf go p sid ts) = Some c" by blast
  note f = causeOf_verdicts(2) [OF c]
  note first = first_failing [OF conjunct1 [OF f] conjunct1 [OF conjunct2 [OF f]] conjunct2 [OF conjunct2 [OF f]]]
  have t: "t = ts ! c" "later = drop (Suc c) ts" using assms first(2) by simp_all
  have h: "failedHost (verdictsOf go p sid ts) c =
      \<lparr>sh_records = sh_records (failedHost (verdictsOf go p sid ts) c), sh_failed = True\<rparr>"
    by (simp add: failedHost_def Let_def)
  show "fst (settleHost go p sid ts) = []" by (simp add: settleHost_verdicts c)
  show "\<exists>rs. snd (settleHost go p sid ts) = Some \<lparr>sh_records = rs, sh_failed = True\<rparr> \<and>
      map recordLine rs = (rt_index t, TS_FAILED, hf_failure (flowOf t sid)) #
        map (lineBeside go p sid t) (takeWhile (\<lambda>t. \<not> failsOn go p sid t) ts @ later)"
    using h failedHost_lines [of c ts go p sid] f
    by (intro exI [where x = "sh_records (failedHost (verdictsOf go p sid ts) c)"]) (simp add: settleHost_verdicts c first(1) t)
qed

lemma settle_accounts:
  "mset (map rt_index (fst (settleHost go p sid ts))) +
     mset (map (rt_index \<circ> kr_task) (recordsOf (snd (settleHost go p sid ts)))) = mset (map rt_index ts)"
proof -
  let ?S = "settleHost go p sid ts"
  have i: "map rt_index (fst ?S) = map fst (map (sentLine sid) (fst ?S))"
    "map (rt_index \<circ> kr_task) (recordsOf (snd ?S)) = map fst (map recordLine (recordsOf (snd ?S)))"
    by (simp_all add: sentLine_def recordLine_def)
  have b: "fst (lineBeside go p sid t u) = rt_index u" for t u by (simp add: lineBeside_def)
  show ?thesis
  proof (cases "dropWhile (\<lambda>t. \<not> failsOn go p sid t) ts")
    case Nil
    have "mset (map rt_index (filter (\<lambda>t. \<not> (leftOut go p sid t \<and> \<not> rt_grouped t)) us)) +
        mset (map rt_index (filter (\<lambda>t. leftOut go p sid t \<and> \<not> rt_grouped t) us)) = mset (map rt_index us)" for us
      by (induction us) auto
    then show ?thesis unfolding i settle_benign(1,3) [OF Nil] by (simp add: comp_def)
  next
    case (Cons t later)
    from settle_failing(2) [OF Cons] obtain rs where rs:
      "snd ?S = Some \<lparr>sh_records = rs, sh_failed = True\<rparr> \<and>
       map recordLine rs = (rt_index t, TS_FAILED, hf_failure (flowOf t sid)) #
        map (lineBeside go p sid t) (takeWhile (\<lambda>t. \<not> failsOn go p sid t) ts @ later)" ..
    have "mset (map rt_index ts) = mset (map rt_index (takeWhile (\<lambda>t. \<not> failsOn go p sid t) ts @ t # later))"
      unfolding Cons [symmetric] by simp
    moreover have "map (rt_index \<circ> kr_task) (recordsOf (snd ?S)) =
        rt_index t # map rt_index (takeWhile (\<lambda>t. \<not> failsOn go p sid t) ts @ later)"
      unfolding i(2) unfolding conjunct1 [OF rs] recordsOf_def option.case settled_host.simps
      unfolding conjunct2 [OF rs] by (simp add: b)
    ultimately show ?thesis unfolding settle_failing(1) [OF Cons] by simp
  qed
qed

text \<open>
  (C32) A task of a host's slice is either sent to the host or recorded by the Keeper, each exactly once. If no
  task of the slice fails while it is rendered for the host, the host is sent every task that is due, in order,
  and a task left out only as a skip that its group needs; every other task left out is recorded as
  SKIPPED. If some task fails, nothing is sent and the host is closed as failed: its first record is the first
  failing task, FAILED with its own error, and then every other task in order, SKIPPED if it was left
  out and FAILED otherwise, with its own error or one that names the first.
\<close>

theorem settled_host_accounts:
  "mset (map rt_index (fst (settleHost go p sid ts))) +
     mset (map (rt_index \<circ> kr_task) (recordsOf (snd (settleHost go p sid ts)))) = mset (map rt_index ts) \<and>
   (case dropWhile (\<lambda>t. \<not> failsOn go p sid t) ts of
      [] \<Rightarrow>
        map (sentLine sid) (fst (settleHost go p sid ts)) =
          map (\<lambda>t. (rt_index t, leftOut go p sid t)) (filter (\<lambda>t. \<not> (leftOut go p sid t \<and> \<not> rt_grouped t)) ts) \<and>
        map recordLine (recordsOf (snd (settleHost go p sid ts))) =
          map (\<lambda>t. (rt_index t, TS_SKIPPED, None)) (filter (\<lambda>t. leftOut go p sid t \<and> \<not> rt_grouped t) ts) \<and>
        (case snd (settleHost go p sid ts) of None \<Rightarrow> True | Some sh \<Rightarrow> closedStatus sh = StatusSuccess)
    | t # later \<Rightarrow>
        fst (settleHost go p sid ts) = [] \<and>
        (case snd (settleHost go p sid ts) of
           None \<Rightarrow> False
         | Some sh \<Rightarrow> closedStatus sh = StatusFailed \<and>
             map recordLine (sh_records sh) = (rt_index t, TS_FAILED, hf_failure (flowOf t sid)) #
               map (lineBeside go p sid t) (takeWhile (\<lambda>t. \<not> failsOn go p sid t) ts @ later)))"
proof (cases "dropWhile (\<lambda>t. \<not> failsOn go p sid t) ts")
  case Nil
  show ?thesis
    unfolding Nil list.case using settle_accounts [of go p sid ts] settle_benign [OF Nil]
    by (auto simp: closedStatus_def simp del: mset_map)
next
  case (Cons t later)
  show ?thesis
    unfolding Cons list.case using settle_accounts [of go p sid ts] settle_failing [OF Cons]
    by (auto simp: closedStatus_def simp del: mset_map)
qed

section \<open>Waves\<close>

lemma waveLoop_concat: "w > 0 \<Longrightarrow> concat (waveLoop xs w) = xs"
proof (induction xs w rule: waveLoop.induct)
  case (1 xs w)
  then show ?case by (cases "xs = []") (simp_all add: waveLoop.simps [of "[]" w] waveLoop.simps [of xs w])
qed

lemma waveLoop_width: "ys \<in> set (waveLoop xs w) \<Longrightarrow> length ys \<le> w \<and> ys \<noteq> []"
proof (induction xs w rule: waveLoop.induct)
  case (1 xs w)
  then show ?case by (auto simp: waveLoop.simps [of xs w] split: if_splits)
qed

lemma splitWaves_concat: "concat (splitWaves sids w) = sids"
  by (simp add: splitWaves_def waveLoop_concat)

lemma splitWaves_width: "ys \<in> set (splitWaves sids w) \<Longrightarrow> w > 0 \<Longrightarrow> int (length ys) \<le> w"
  using waveLoop_width by (fastforce simp: splitWaves_def split: if_splits)

lemma addTask_keys: "fst ` set (addTask t ph sid) = insert sid (fst ` set ph)"
  by (simp add: addTask_def dom_update)

lemma addTasks_keys: "fst ` set (foldl (addTask t) ph sids) = set sids \<union> fst ` set ph"
  by (induction sids arbitrary: ph) (auto simp: addTask_keys)

lemma addTask_distinct: "distinct (map fst ph) \<Longrightarrow> distinct (map fst (foldl (addTask t) ph sids))"
  by (induction sids arbitrary: ph) (simp_all add: addTask_def distinct_update)

definition targeted :: "rendered_task list \<Rightarrow> dispatch_plan list \<Rightarrow> string set" where
  "targeted ts plans =
     {sid. \<exists>pl \<in> set plans. \<not> pl_keeper pl \<and> pl_taskIndex pl \<in> rt_index ` set ts \<and> sid \<in> set (pl_targetSIDs pl)}"

lemma taskByIndex_None: "taskByIndex ts i = None \<longleftrightarrow> i \<notin> rt_index ` set ts"
  by (auto simp: taskByIndex_def find_None_iff)

lemma groupPlan_keys:
  "fst ` set (groupPlan ts ph pl) = fst ` set ph \<union> targeted ts [pl]"
  using taskByIndex_None [of ts "pl_taskIndex pl"]
  by (auto simp: groupPlan_def targeted_def addTasks_keys split: option.splits)

lemma groupByHost_keys: "fst ` set (groupByHost ts plans) = targeted ts plans"
proof -
  have "fst ` set (foldl (groupPlan ts) ph plans) = fst ` set ph \<union> targeted ts plans" for ph
  proof (induction plans arbitrary: ph)
    case (Cons pl plans)
    have "targeted ts (pl # plans) = targeted ts [pl] \<union> targeted ts plans" by (auto simp: targeted_def)
    then show ?case using Cons.IH [of "groupPlan ts ph pl"] by (simp add: groupPlan_keys Un_assoc)
  qed (simp add: targeted_def)
  then show ?thesis by (simp add: groupByHost_def)
qed

lemma groupByHost_distinct: "distinct (map fst (groupByHost ts plans))"
proof -
  have "distinct (map fst ph) \<Longrightarrow> distinct (map fst (foldl (groupPlan ts) ph plans))" for ph
    by (induction plans arbitrary: ph) (auto simp: groupPlan_def addTask_distinct split: option.split)
  then show ?thesis by (simp add: groupByHost_def)
qed

lemma width_le:
  assumes "pl \<in> set plans" "pl_serialWidth pl > 0"
  shows "0 < effectiveSerialWidth plans \<and> effectiveSerialWidth plans \<le> pl_serialWidth pl"
proof -
  define f :: "int \<Rightarrow> dispatch_plan \<Rightarrow> int" where "f = (\<lambda>w pl. if pl_serialWidth pl \<le> 0 then w
                   else if w = 0 \<or> pl_serialWidth pl < w then pl_serialWidth pl else w)"
  have mono: "0 < w \<Longrightarrow> 0 < foldl f w ps \<and> foldl f w ps \<le> w" for w ps
  proof (induction ps arbitrary: w)
    case (Cons q ps)
    have "0 < f w q \<and> f w q \<le> w" using Cons.prems by (auto simp: f_def)
    then show ?case using Cons.IH [of "f w q"] by auto
  qed simp
  have "0 \<le> w \<Longrightarrow> pl \<in> set ps \<Longrightarrow> 0 < foldl f w ps \<and> foldl f w ps \<le> pl_serialWidth pl" for w ps
  proof (induction ps arbitrary: w)
    case (Cons q ps)
    show ?case
    proof (cases "q = pl")
      case True
      have "0 < f w q \<and> f w q \<le> pl_serialWidth pl" using assms(2) Cons.prems(1) True by (auto simp: f_def)
      then show ?thesis using mono [of "f w q" ps] by auto
    next
      case False
      moreover have "0 \<le> f w q" using Cons.prems(1) by (auto simp: f_def)
      ultimately show ?thesis using Cons by simp
    qed
  qed simp
  from this [of 0 plans] show ?thesis using assms(1) by (simp add: effectiveSerialWidth_def f_def)
qed

lemma settleHost_nonempty:
  assumes "ts \<noteq> []" "fst (settleHost go p sid ts) = []"
  shows "snd (settleHost go p sid ts) \<noteq> None"
proof -
  define vs where "vs = map (\<lambda>(pos, t). hostVerdict go t sid p (int pos)) (zip [0..<length ts] ts)"
  have "length vs = length ts" by (simp add: vs_def)
  then have "vs \<noteq> []" using assms(1) by auto
  moreover have "settleHost go p sid ts = (case causeOf vs of Some c \<Rightarrow> ([], Some (failedHost vs c))
      | None \<Rightarrow> (keptOf sid vs, if skippedRecords vs = [] then None
          else Some \<lparr>sh_records = skippedRecords vs, sh_failed = False\<rparr>))"
    unfolding settleHost_def Let_def vs_def ..
  moreover have "keptOf sid vs = [] \<Longrightarrow> skippedRecords vs = [] \<Longrightarrow> vs = []"
    using kept_and_skipped [of sid vs] by simp
  ultimately show ?thesis using assms(2) by (auto split: option.splits)
qed

lemma in_set_updated: "e \<in> set (AList.update k v al) \<Longrightarrow> e = (k, v) \<or> e \<in> set al"
  by (induction al) (auto split: if_splits)

lemma addTask_filled: "\<forall>e \<in> set ph. snd e \<noteq> [] \<Longrightarrow> \<forall>e \<in> set (foldl (addTask t) ph sids). snd e \<noteq> []"
proof (induction sids arbitrary: ph)
  case (Cons sid sids)
  have "snd e \<noteq> []" if "e \<in> set (addTask t ph sid)" for e
    using that Cons.prems unfolding addTask_def by (auto dest: in_set_updated)
  then show ?case using Cons.IH [of "addTask t ph sid"] by simp
qed simp

lemma groupByHost_filled: "(sid, hs) \<in> set (groupByHost ts plans) \<Longrightarrow> hs \<noteq> []"
proof -
  have one: "\<forall>e \<in> set ph. snd e \<noteq> [] \<Longrightarrow> \<forall>e \<in> set (groupPlan ts ph pl). snd e \<noteq> []" for ph pl
    unfolding groupPlan_def using addTask_filled by (simp split: option.split)
  have "\<forall>e \<in> set ph. snd e \<noteq> [] \<Longrightarrow> \<forall>e \<in> set (foldl (groupPlan ts) ph plans). snd e \<noteq> []" for ph
  proof (induction plans arbitrary: ph)
    case (Cons pl plans)
    show ?case using Cons.IH [OF one [OF Cons.prems]] by simp
  qed simp
  from this [of "[]"] show "(sid, hs) \<in> set (groupByHost ts plans) \<Longrightarrow> hs \<noteq> []"
    by (auto simp: groupByHost_def)
qed

lemma settleHosts_keys:
  "fst ` set (fst (settleHosts ph go p)) = {sid. \<exists>hs. (sid, hs) \<in> set ph \<and> fst (settleHost go p sid hs) \<noteq> []}"
  "fst ` set (snd (settleHosts ph go p)) = {sid. \<exists>hs. (sid, hs) \<in> set ph \<and> snd (settleHost go p sid hs) \<noteq> None}"
  by (force simp: settleHosts_def image_iff) (force simp: settleHosts_def map_filter_def image_iff)

lemma settleHosts_distinct:
  assumes "distinct (map fst ph)"
  shows "distinct (map fst (fst (settleHosts ph go p)))" "distinct (map fst (snd (settleHosts ph go p)))"
proof -
  have m: "map fst (map (\<lambda>(sid, hs). (sid, fst (settleHost go p sid hs))) ph) = map fst ph" by (induction ph) auto
  show "distinct (map fst (fst (settleHosts ph go p)))"
    unfolding settleHosts_def fst_conv by (rule distinct_map_filter) (unfold m, rule assms)
  have "map fst (List.map_filter (\<lambda>(sid, hs). map_option (Pair sid) (snd (settleHost go p sid hs))) ph) =
      map fst (filter (\<lambda>(sid, hs). snd (settleHost go p sid hs) \<noteq> None) ph)"
    by (induction ph) (auto simp: map_filter_def)
  then show "distinct (map fst (snd (settleHosts ph go p)))"
    using assms by (simp add: settleHosts_def distinct_map_filter)
qed

lemma closedHosts_set: "set (closedHosts settled ph) = fst ` set settled - fst ` set ph"
  by (auto simp: closedHosts_def map_of_eq_None_iff)

lemma closedHosts_distinct: "distinct (map fst settled) \<Longrightarrow> distinct (closedHosts settled ph)"
  by (simp add: closedHosts_def)

text \<open>Every targeted host is sent something or closed.\<close>

lemma settled_or_sent:
  "fst ` set (fst (settleHosts (groupByHost ts plans) go p)) \<union>
   set (closedHosts (snd (settleHosts (groupByHost ts plans) go p)) (fst (settleHosts (groupByHost ts plans) go p))) =
   targeted ts plans"
proof -
  have "sid \<in> targeted ts plans \<longleftrightarrow> (\<exists>hs. (sid, hs) \<in> set (groupByHost ts plans))" for sid
    unfolding groupByHost_keys [symmetric] by force
  moreover have "fst (settleHost go p sid hs) \<noteq> [] \<or> snd (settleHost go p sid hs) \<noteq> None"
    if "(sid, hs) \<in> set (groupByHost ts plans)" for sid hs
    using settleHost_nonempty groupByHost_filled [OF that] by blast
  ultimately show ?thesis
    unfolding closedHosts_set settleHosts_keys by blast
qed

text \<open>The tasks of a step that target a host, in the order of the plan.\<close>

definition sliceOf :: "rendered_task list \<Rightarrow> dispatch_plan list \<Rightarrow> string \<Rightarrow> rendered_task list" where
  "sliceOf ts plans sid =
     concat (map (\<lambda>pl. if pl_keeper pl then []
       else case taskByIndex ts (pl_taskIndex pl) of
              None \<Rightarrow> []
            | Some t \<Rightarrow> replicate (count_list (pl_targetSIDs pl) sid) t) plans)"

definition entryOf :: "per_host \<Rightarrow> string \<Rightarrow> rendered_task list" where
  "entryOf ph sid = (case map_of ph sid of None \<Rightarrow> [] | Some ts \<Rightarrow> ts)"

lemma addTask_entry: "entryOf (addTask t ph s) sid = entryOf ph sid @ (if s = sid then [t] else [])"
  by (simp add: entryOf_def addTask_def update_conv')

lemma addTasks_entry: "entryOf (foldl (addTask t) ph sids) sid = entryOf ph sid @ replicate (count_list sids sid) t"
proof (induction sids arbitrary: ph)
  case (Cons s sids)
  then show ?case by (simp add: addTask_entry)
qed simp

lemma groupByHost_slice:
  "map_of (groupByHost ts plans) sid = (if sliceOf ts plans sid = [] then None else Some (sliceOf ts plans sid))"
proof -
  have "entryOf (foldl (groupPlan ts) ph plans) sid = entryOf ph sid @ sliceOf ts plans sid" for ph
  proof (induction plans arbitrary: ph)
    case (Cons pl plans)
    then show ?case by (auto simp: sliceOf_def groupPlan_def addTasks_entry split: option.split)
  qed (simp add: sliceOf_def)
  from this [of "[]"] have e: "entryOf (groupByHost ts plans) sid = sliceOf ts plans sid"
    by (simp add: groupByHost_def entryOf_def)
  show ?thesis
  proof (cases "map_of (groupByHost ts plans) sid")
    case None
    then show ?thesis using e by (simp add: entryOf_def)
  next
    case (Some hs)
    then have "hs \<noteq> []" using groupByHost_filled map_of_SomeD by metis
    then show ?thesis using e Some by (simp add: entryOf_def)
  qed
qed

lemma settleHosts_entry:
  assumes "distinct (map fst ph)"
  shows "map_of (fst (settleHosts ph go p)) sid =
      (case map_of ph sid of None \<Rightarrow> None
       | Some hs \<Rightarrow> if fst (settleHost go p sid hs) = [] then None else Some (fst (settleHost go p sid hs)))"
    and "map_of (snd (settleHosts ph go p)) sid = Option.bind (map_of ph sid) (\<lambda>hs. snd (settleHost go p sid hs))"
proof -
  let ?f = "\<lambda>ph. map_of (fst (settleHosts ph go p)) sid" and ?s = "\<lambda>ph. map_of (snd (settleHosts ph go p)) sid"
  have cons: "?f ((s, hs) # ph) = (if s = sid \<and> fst (settleHost go p s hs) \<noteq> [] then Some (fst (settleHost go p s hs)) else ?f ph)"
    "?s ((s, hs) # ph) = (if s = sid \<and> snd (settleHost go p s hs) \<noteq> None then snd (settleHost go p s hs) else ?s ph)" for s hs ph
    by (auto simp: settleHosts_def map_filter_def split: option.split)
  have nil: "settleHosts [] go p = ([], [])" by (simp add: settleHosts_def)
  have none: "map_of ph sid = None \<Longrightarrow> ?f ph = None \<and> ?s ph = None" for ph
  proof (induction ph)
    case (Cons e ph)
    then show ?case by (cases e) (auto simp: cons split: if_splits)
  qed (simp add: nil)
  show "?f ph = (case map_of ph sid of None \<Rightarrow> None
       | Some hs \<Rightarrow> if fst (settleHost go p sid hs) = [] then None else Some (fst (settleHost go p sid hs)))"
    using assms
  proof (induction ph)
    case (Cons e ph)
    then show ?case using none [of ph] by (cases e) (auto simp: cons simp flip: map_of_eq_None_iff split: option.split)
  qed (simp add: nil)
  show "?s ph = Option.bind (map_of ph sid) (\<lambda>hs. snd (settleHost go p sid hs))"
    using assms
  proof (induction ph)
    case (Cons e ph)
    then show ?case using none [of ph] by (cases e) (auto simp: cons simp flip: map_of_eq_None_iff)
  qed (simp add: nil)
qed

text \<open>The hosts of a step and its waves.\<close>

lemma step_hosts:
  "distinct (concat (sp_waves (planStep True go p ts plans)) @ sp_skipped (planStep True go p ts plans)) \<and>
   set (concat (sp_waves (planStep True go p ts plans)) @ sp_skipped (planStep True go p ts plans)) = targeted ts plans \<and>
   sorted (concat (sp_waves (planStep True go p ts plans))) \<and>
   list_all (\<lambda>wave. list_all (\<lambda>pl. pl_serialWidth pl \<le> 0 \<or> int (length wave) \<le> pl_serialWidth pl) plans)
     (sp_waves (planStep True go p ts plans))"
proof -
  define ph st where "ph = fst (settleHosts (groupByHost ts plans) go p)"
    and "st = snd (settleHosts (groupByHost ts plans) go p)"
  define cs where "cs = closedHosts st ph"
  define early where "early = failedBeforeSend st cs"
  define sids where "sids = sort (sortedSIDs ph @ filter early cs)"
  have s: "sp_waves (planStep True go p ts plans) = (if sids = [] then [] else splitWaves sids (effectiveSerialWidth plans))"
      "sp_skipped (planStep True go p ts plans) = filter (\<lambda>sid. \<not> early sid) cs"
    by (simp_all add: planStep_def Let_def case_prod_unfold ph_def st_def cs_def early_def sids_def)
  then have c: "concat (sp_waves (planStep True go p ts plans)) = sids" by (simp add: splitWaves_concat)
  have d: "distinct (map fst ph)" "distinct cs" "set cs \<inter> fst ` set ph = {}" "fst ` set ph \<union> set cs = targeted ts plans"
    using settleHosts_distinct [OF groupByHost_distinct] settled_or_sent [of ts plans go p]
    by (auto simp: ph_def st_def cs_def closedHosts_distinct closedHosts_set)
  have "pl_serialWidth pl \<le> 0 \<or> int (length wave) \<le> pl_serialWidth pl"
    if "wave \<in> set (splitWaves sids (effectiveSerialWidth plans))" "pl \<in> set plans" for wave pl
    using splitWaves_width [OF that(1)] width_le [OF that(2)] by linarith
  then have w: "list_all (\<lambda>wave. list_all (\<lambda>pl. pl_serialWidth pl \<le> 0 \<or> int (length wave) \<le> pl_serialWidth pl) plans)
      (sp_waves (planStep True go p ts plans))" by (simp add: s list_all_iff)
  have "distinct (sids @ filter (\<lambda>sid. \<not> early sid) cs)" "set (sids @ filter (\<lambda>sid. \<not> early sid) cs) = targeted ts plans"
    using d by (auto simp: sids_def sortedSIDs_def)
  moreover have "sorted sids" by (simp add: sids_def)
  ultimately show ?thesis using w unfolding c s(2) by blast
qed

text \<open>Where a targeted host goes, by what it is sent and how it was settled.\<close>

lemma planStep_host:
  assumes "map_of (groupByHost ts plans) sid = Some hs"
  shows "map_of (sp_perHost (planStep True go p ts plans)) sid =
      (if fst (settleHost go p sid hs) = [] then None else Some (fst (settleHost go p sid hs)))"
    and "map_of (sp_settled (planStep True go p ts plans)) sid = snd (settleHost go p sid hs)"
    and "sid \<in> set (concat (sp_waves (planStep True go p ts plans))) \<longleftrightarrow>
      fst (settleHost go p sid hs) \<noteq> [] \<or>
      (case snd (settleHost go p sid hs) of None \<Rightarrow> False | Some sh \<Rightarrow> sh_failed sh)"
    and "sid \<in> set (sp_skipped (planStep True go p ts plans)) \<longleftrightarrow>
      fst (settleHost go p sid hs) = [] \<and>
      (case snd (settleHost go p sid hs) of None \<Rightarrow> False | Some sh \<Rightarrow> \<not> sh_failed sh)"
proof -
  define ph st where "ph = fst (settleHosts (groupByHost ts plans) go p)"
    and "st = snd (settleHosts (groupByHost ts plans) go p)"
  define early where "early = failedBeforeSend st (closedHosts st ph)"
  define sids where "sids = sort (sortedSIDs ph @ filter early (closedHosts st ph))"
  have f: "sp_perHost (planStep True go p ts plans) = ph" "sp_settled (planStep True go p ts plans) = st"
      "sp_waves (planStep True go p ts plans) = (if sids = [] then [] else splitWaves sids (effectiveSerialWidth plans))"
      "sp_skipped (planStep True go p ts plans) = filter (\<lambda>sid. \<not> early sid) (closedHosts st ph)"
    by (simp_all add: planStep_def Let_def case_prod_unfold ph_def st_def early_def sids_def)
  then have "concat (sp_waves (planStep True go p ts plans)) = sids" by (simp add: splitWaves_concat)
  then have s: "sp_perHost (planStep True go p ts plans) = ph" "sp_settled (planStep True go p ts plans) = st"
      "set (concat (sp_waves (planStep True go p ts plans))) = fst ` set ph \<union> {x \<in> set (closedHosts st ph). early x}"
      "set (sp_skipped (planStep True go p ts plans)) = {x \<in> set (closedHosts st ph). \<not> early x}"
    using f by (auto simp: sids_def sortedSIDs_def simp del: set_concat)
  show "map_of (sp_perHost (planStep True go p ts plans)) sid =
      (if fst (settleHost go p sid hs) = [] then None else Some (fst (settleHost go p sid hs)))"
    unfolding s ph_def settleHosts_entry(1) [OF groupByHost_distinct] by (simp add: assms)
  then have k: "sid \<in> fst ` set ph \<longleftrightarrow> fst (settleHost go p sid hs) \<noteq> []"
    using map_of_eq_None_iff [of ph sid] by (simp add: s split: if_splits)
  show m: "map_of (sp_settled (planStep True go p ts plans)) sid = snd (settleHost go p sid hs)"
    unfolding s st_def settleHosts_entry(2) [OF groupByHost_distinct] by (simp add: assms)
  then have "sid \<in> fst ` set st \<longleftrightarrow> snd (settleHost go p sid hs) \<noteq> None"
    using map_of_eq_None_iff [of st sid] by (simp add: s)
  then have c: "sid \<in> set (closedHosts st ph) \<longleftrightarrow>
      fst (settleHost go p sid hs) = [] \<and> snd (settleHost go p sid hs) \<noteq> None"
    using k by (auto simp: closedHosts_set)
  show "sid \<in> set (concat (sp_waves (planStep True go p ts plans))) \<longleftrightarrow>
      fst (settleHost go p sid hs) \<noteq> [] \<or>
      (case snd (settleHost go p sid hs) of None \<Rightarrow> False | Some sh \<Rightarrow> sh_failed sh)"
    using k c m unfolding s by (auto simp: early_def failedBeforeSend_def split: option.splits)
  show "sid \<in> set (sp_skipped (planStep True go p ts plans)) \<longleftrightarrow>
      fst (settleHost go p sid hs) = [] \<and>
      (case snd (settleHost go p sid hs) of None \<Rightarrow> False | Some sh \<Rightarrow> \<not> sh_failed sh)"
    using c m unfolding s by (auto simp: early_def failedBeforeSend_def split: option.splits)
qed

text \<open>What becomes of one host.\<close>

lemma step_host:
  "if sliceOf ts plans sid = [] then sid \<notin> targeted ts plans
   else if list_ex (failsOn go p sid) (sliceOf ts plans sid) then
     sid \<in> set (concat (sp_waves (planStep True go p ts plans))) \<and>
     map_of (sp_perHost (planStep True go p ts plans)) sid = None \<and>
     (case map_of (sp_settled (planStep True go p ts plans)) sid of
        None \<Rightarrow> False | Some sh \<Rightarrow> closedStatus sh = StatusFailed)
   else if list_all (\<lambda>t. leftOut go p sid t \<and> \<not> rt_grouped t) (sliceOf ts plans sid) then
     sid \<in> set (sp_skipped (planStep True go p ts plans)) \<and>
     map_of (sp_perHost (planStep True go p ts plans)) sid = None \<and>
     (case map_of (sp_settled (planStep True go p ts plans)) sid of
        None \<Rightarrow> False
      | Some sh \<Rightarrow> closedStatus sh = StatusSuccess \<and>
          map recordLine (sh_records sh) = map (\<lambda>t. (rt_index t, TS_SKIPPED, None)) (sliceOf ts plans sid))
   else
     sid \<in> set (concat (sp_waves (planStep True go p ts plans))) \<and>
     (case map_of (sp_perHost (planStep True go p ts plans)) sid of
        None \<Rightarrow> False
      | Some sent \<Rightarrow> map (sentLine sid) sent = map (\<lambda>t. (rt_index t, leftOut go p sid t))
          (filter (\<lambda>t. \<not> (leftOut go p sid t \<and> \<not> rt_grouped t)) (sliceOf ts plans sid)))"
proof -
  define hs where "hs = sliceOf ts plans sid"
  consider (Absent) "hs = []" | (Fails) t later where "dropWhile (\<lambda>t. \<not> failsOn go p sid t) hs = t # later" "hs \<noteq> []"
    | (Benign) "dropWhile (\<lambda>t. \<not> failsOn go p sid t) hs = []" "hs \<noteq> []"
    by (cases "dropWhile (\<lambda>t. \<not> failsOn go p sid t) hs") auto
  then show ?thesis
  proof cases
    case Absent
    then have "map_of (groupByHost ts plans) sid = None" by (simp add: groupByHost_slice hs_def)
    then have "sid \<notin> targeted ts plans" unfolding groupByHost_keys [symmetric] by (simp add: map_of_eq_None_iff)
    then show ?thesis using Absent by (simp add: hs_def)
  next
    case Fails
    then have m: "map_of (groupByHost ts plans) sid = Some hs" by (simp add: groupByHost_slice hs_def)
    from settle_failing(2) [OF Fails(1)] obtain sh where sh: "snd (settleHost go p sid hs) = Some sh" "sh_failed sh"
      by auto
    have "\<not> list_all (\<lambda>t. \<not> failsOn go p sid t) hs" using Fails(1) by (auto simp: list_all_iff simp flip: dropWhile_eq_Nil_conv)
    then have "list_ex (failsOn go p sid) hs" by (auto simp: list_all_iff list_ex_iff)
    then show ?thesis
      using planStep_host [OF m, of go p] settle_failing(1) [OF Fails(1)] sh Fails(2)
      by (simp add: closedStatus_def flip: hs_def)
  next
    case Benign
    then have m: "map_of (groupByHost ts plans) sid = Some hs" by (simp add: groupByHost_slice hs_def)
    note b = settle_benign [OF Benign(1)]
    have nf: "\<not> list_ex (failsOn go p sid) hs" using Benign(1) by (auto simp: list_ex_iff)
    show ?thesis
    proof (cases "list_all (\<lambda>t. leftOut go p sid t \<and> \<not> rt_grouped t) hs")
      case True
      then have "fst (settleHost go p sid hs) = []" using arg_cong [OF b(1), of length] by (auto simp: list_all_iff filter_empty_conv)
      moreover obtain sh where "snd (settleHost go p sid hs) = Some sh"
        using settleHost_nonempty [OF Benign(2)] calculation by blast
      moreover have "filter (\<lambda>t. leftOut go p sid t \<and> \<not> rt_grouped t) hs = hs"
        using True by (simp add: list_all_iff filter_id_conv)
      ultimately show ?thesis
        using planStep_host [OF m, of go p] b(2,3) nf True Benign(2)
        by (auto simp: closedStatus_def recordsOf_def simp flip: hs_def)
    next
      case False
      then have "map (sentLine sid) (fst (settleHost go p sid hs)) \<noteq> []"
        unfolding b(1) by (auto simp: list_all_iff filter_empty_conv)
      then have "fst (settleHost go p sid hs) \<noteq> []" by auto
      then show ?thesis
        using planStep_host [OF m, of go p] b(1) nf False Benign(2) by (simp flip: hs_def)
    qed
  qed
qed

text \<open>
  (C33) In a linear run every host that a task of the step targets is in exactly one wave, or is closed before
  the first one. The waves go through the hosts in the order of their names, and none is wider than any
  \<^verbatim>\<open>serial:\<close> of the step. A host on which some task fails before anything is sent takes its place in its
  wave, is sent nothing and is closed as failed. Of the others, a host is closed before the first wave exactly
  when every task for it is left out and no group needs the skip: it is sent nothing and closed as a success
  with each task recorded as SKIPPED. Any other host is in its wave and is sent its tasks.
\<close>

theorem waves_cover_the_step:
  "distinct (concat (sp_waves (planStep True go p ts plans)) @ sp_skipped (planStep True go p ts plans)) \<and>
   set (concat (sp_waves (planStep True go p ts plans)) @ sp_skipped (planStep True go p ts plans)) = targeted ts plans \<and>
   sorted (concat (sp_waves (planStep True go p ts plans))) \<and>
   list_all (\<lambda>wave. list_all (\<lambda>pl. pl_serialWidth pl \<le> 0 \<or> int (length wave) \<le> pl_serialWidth pl) plans)
     (sp_waves (planStep True go p ts plans)) \<and>
   (if sliceOf ts plans sid = [] then sid \<notin> targeted ts plans
    else if list_ex (failsOn go p sid) (sliceOf ts plans sid) then
      sid \<in> set (concat (sp_waves (planStep True go p ts plans))) \<and>
      map_of (sp_perHost (planStep True go p ts plans)) sid = None \<and>
      (case map_of (sp_settled (planStep True go p ts plans)) sid of
         None \<Rightarrow> False | Some sh \<Rightarrow> closedStatus sh = StatusFailed)
    else if list_all (\<lambda>t. leftOut go p sid t \<and> \<not> rt_grouped t) (sliceOf ts plans sid) then
      sid \<in> set (sp_skipped (planStep True go p ts plans)) \<and>
      map_of (sp_perHost (planStep True go p ts plans)) sid = None \<and>
      (case map_of (sp_settled (planStep True go p ts plans)) sid of
         None \<Rightarrow> False
       | Some sh \<Rightarrow> closedStatus sh = StatusSuccess \<and>
           map recordLine (sh_records sh) = map (\<lambda>t. (rt_index t, TS_SKIPPED, None)) (sliceOf ts plans sid))
    else
      sid \<in> set (concat (sp_waves (planStep True go p ts plans))) \<and>
      (case map_of (sp_perHost (planStep True go p ts plans)) sid of
         None \<Rightarrow> False
       | Some sent \<Rightarrow> map (sentLine sid) sent = map (\<lambda>t. (rt_index t, leftOut go p sid t))
           (filter (\<lambda>t. \<not> (leftOut go p sid t \<and> \<not> rt_grouped t)) (sliceOf ts plans sid))))"
  using step_hosts [of go p ts plans] step_host [of ts plans sid go p] by blast

section \<open>The barrier\<close>

definition ofStep :: "int \<Rightarrow> 'r run_row \<Rightarrow> bool" where
  "ofStep p r \<longleftrightarrow> Passage r = p \<and> SID r \<noteq> KeeperTargetSID"

definition benign :: "(string \<Rightarrow> bool) \<Rightarrow> 'r run_row \<Rightarrow> bool" where
  "benign early r \<longleftrightarrow>
     Status r = StatusSuccess \<or> Status r = StatusNoMatch \<or> (Status r = StatusFailed \<and> early (SID r))"

lemma classifyLoop_Inr:
  "classifyLoop p early n rs = Inr m \<Longrightarrow> m = n + length (filter (\<lambda>r. ofStep p r \<and> benign early r) rs)"
proof (induction rs arbitrary: n)
  case (Cons r rs)
  have "classifyLoop p early (if ofStep p r \<and> benign early r then Suc n else n) rs = Inr m"
    using Cons.prems by (auto simp: ofStep_def benign_def status_defs split: if_splits)
  from Cons.IH [OF this] show ?case by (simp split: if_splits)
qed simp

lemma done_rows:
  assumes "classifyExcept rs p want early = Inr True"
  shows "want \<le> length (filter (\<lambda>r. ofStep p r \<and> benign early r) rs)"
  using assms classifyLoop_Inr [of p early 0 rs] by (auto simp: classifyExcept_def split: sum.splits)

text \<open>
  (C34) The barrier of a step opens only when every host of the step has a row of the step that succeeded,
  matched nothing, or is one the Keeper itself failed before sending. It needs that a host has one row per
  step, which is the key of the table, and that only hosts of the step have one.
\<close>

theorem barrier_waits_for_every_host:
  assumes "classifyExcept rs p (card H) early = Inr True" "finite H"
    and "distinct (map SID (filter (ofStep p) rs))" "list_all (\<lambda>r. ofStep p r \<longrightarrow> SID r \<in> H) rs" "sid \<in> H"
  shows "\<exists>r \<in> set rs. SID r = sid \<and> ofStep p r \<and> benign early r"
proof -
  let ?b = "filter (\<lambda>r. ofStep p r \<and> benign early r) rs"
  have "?b = filter (benign early) (filter (ofStep p) rs)" by (simp add: conj_commute)
  then have "distinct (map SID ?b)" using distinct_map_filter [OF assms(3)] by simp
  from distinct_card [OF this] have "card (SID ` set ?b) = length ?b" by simp
  moreover have "SID ` set ?b \<subseteq> H" using assms(4) by (auto simp: list_all_iff)
  ultimately have "SID ` set ?b = H"
    using done_rows [OF assms(1)] card_seteq [OF assms(2)] by simp
  then have "sid \<in> SID ` set ?b" using assms(5) by simp
  then show ?thesis by auto
qed

section \<open>Names and registers\<close>

lemma resolveRegisterNames_set:
  "resolveRegisterNames (registerIndex ts) ns nm er = Inr is \<Longrightarrow>
   set is = {rt_index u | u. u \<in> set ts \<and> rt_register u \<noteq> [] \<and> rt_register u \<in> set ns}"
proof (induction ns arbitrary: "is")
  case (Cons n ns)
  then obtain a b where ab: "registerIndex ts n = Some a" "resolveRegisterNames (registerIndex ts) ns nm er = Inr b" "is = a @ b"
    by (auto split: option.splits sum.splits)
  have "set a = {rt_index u | u. u \<in> set ts \<and> rt_register u \<noteq> [] \<and> rt_register u = n}"
    using ab(1) by (auto simp: registerIndex_def Let_def split: if_splits)
  then show ?case using Cons.IH [OF ab(2)] by (auto simp: ab(3))
qed simp

text \<open>
  A requisite by name stands for every task of the plan with that register, all iterations of a loop
  included.
\<close>

theorem requisite_names_complete:
  assumes "resolveOnChanges ts = Inr ts'" "i < length ts" "rt_onChangesNames (ts ! i) \<noteq> []"
  shows "set (rt_onChangesIdx (ts' ! i)) =
    {rt_index u | u. u \<in> set ts \<and> rt_register u \<noteq> [] \<and> rt_register u \<in> set (rt_onChangesNames (ts ! i))}"
proof -
  have "list_all2 (\<lambda>t t'. (if rt_onChangesNames t = [] then Inr t
       else case resolveRegisterNames (registerIndex ts) (rt_onChangesNames t) (rt_name t) ErrOnChangesUnknownRegister of
              Inl e \<Rightarrow> Inl e | Inr is \<Rightarrow> Inr (t\<lparr>rt_onChangesIdx := is\<rparr>)) = Inr t') ts ts'"
    using assms(1) by (simp add: resolveOnChanges_def map_result_Inr)
  then have "(case resolveRegisterNames (registerIndex ts) (rt_onChangesNames (ts ! i)) (rt_name (ts ! i))
      ErrOnChangesUnknownRegister of
      Inl e \<Rightarrow> Inl e | Inr is \<Rightarrow> Inr ((ts ! i)\<lparr>rt_onChangesIdx := is\<rparr>)) = Inr (ts' ! i)"
    using assms(2,3) by (auto simp: list_all2_conv_all_nth)
  then obtain js where "resolveRegisterNames (registerIndex ts) (rt_onChangesNames (ts ! i)) (rt_name (ts ! i))
      ErrOnChangesUnknownRegister = Inr js"
      "ts' ! i = (ts ! i)\<lparr>rt_onChangesIdx := js\<rparr>" by (auto split: sum.splits)
  then show ?thesis using resolveRegisterNames_set by simp
qed

text \<open>The register the Keeper records for a task is the one the Soul would have written.\<close>

lemma keeper_record_register:
  assumes "st = TS_FAILED \<or> st = TS_SKIPPED"
  shows "keeperRecordRegister st = buildRegisterData st None"
  using assms by (auto simp: keeperRecordRegister_def buildRegisterData_def outputOf_def)

section \<open>Small plans\<close>

definition demoRendered :: "int \<Rightarrow> rendered_task" where
  "demoRendered i =
     \<lparr>rt_index = i, rt_name = ''t'', rt_module = ''pkg.a.up'', rt_params = [], rt_register = ''r'', rt_passage = 0,
      rt_timeout = [], rt_when = [], rt_changedWhen = [], rt_failedWhen = [], rt_until = [], rt_retryCount = 0,
      rt_flowContext = [], rt_onChangesIdx = [], rt_onChangesNames = [], rt_onFailIdx = [], rt_onFailNames = [],
      rt_async = False, rt_requireIdx = [], rt_requireAll = False, rt_requireNames = [], rt_aggregateOf = [],
      rt_renderContextBySID = [], rt_paramsBySID = [], rt_flowBySID = [], rt_grouped = False, rt_rescueUnit = [],
      rt_onFailure = []\<rparr>"

definition demoConsumer :: rendered_task where
  "demoConsumer = (demoRendered 2)\<lparr>rt_passage := 1, rt_register := [], rt_onChangesNames := [''r''], rt_onChangesIdx := [0, 1]\<rparr>"

definition demoGate :: cross_gate where
  "demoGate = newCrossPassageGate [demoRendered 0, demoRendered 1, demoConsumer] [] {(''h1'', 1)} {}"

theorem requisites_are_any_source_witness:
  "resolveTask demoGate demoConsumer ''h1'' 1 \<noteq> None \<and> resolveTask demoGate demoConsumer ''h2'' 1 = None"
proof -
  have says: "\<exists>i \<in> set (rt_onChangesIdx demoConsumer). sourceSays demoGate (cg_changed demoGate) ''changed'' ''h1'' 1 [] (m_byIdx (initial demoQ)) i"
    "\<not> (\<exists>i \<in> set (rt_onChangesIdx demoConsumer). sourceSays demoGate (cg_changed demoGate) ''changed'' ''h2'' 1 [] (m_byIdx (initial demoQ)) i)"
    by (simp_all add: demoConsumer_def demoRendered_def sourceSays_def demoGate_def newCrossPassageGate_def isCross_def
        factIndices_def KeeperTargetSID_def)
  have on: "rt_onChangesIdx demoConsumer \<noteq> []" "rt_onFailIdx demoConsumer = []"
    by (simp_all add: demoConsumer_def demoRendered_def)
  note r = requisites_are_any_source [where h = demoHost and limit = 1 and q = demoQ and cs = "[]" and s = "initial demoQ"
      and g = demoGate and t = demoConsumer and p = 1 and slice = "[]"]
  have "resolveTask demoGate demoConsumer ''h1'' 1 \<noteq> None" using r [where sid = "''h1''"] says(1) on by (auto split: option.splits)
  moreover have "resolveTask demoGate demoConsumer ''h2'' 1 = None" 
    by code_simp
  ultimately show ?thesis by simp
qed

definition demoStepRow :: "string \<Rightarrow> status \<Rightarrow> unit run_row" where
  "demoStepRow sid st =
     \<lparr>ApplyID = ''a'', SID = sid, IncarnationName = ''i'', Scenario = ''s'', TaskIdx = None, Status = st, Passage = 1,
      ErrorSummary = None, StartedAt = 0, FinishedAt = None, StartedByAID = None, ClaimByKID = None, ClaimAt = None,
      ClaimExpiresAt = None, Attempt = 0, Recipe = None, Input = [], KeeperVersion = [], SoulVersion = [],
      FailedPlanIndex = None, CancelRequested = False, Dropped = False, HandledMark = False, Notices = []\<rparr>"

theorem barrier_waits_for_every_host_witness:
  "\<exists>r \<in> set [demoStepRow ''h1'' StatusSuccess, demoStepRow ''h2'' StatusNoMatch].
     SID r = ''h2'' \<and> ofStep 1 r \<and> benign (\<lambda>_. False) r"
proof (rule barrier_waits_for_every_host [where H = "{''h1'', ''h2''}"])
  show "classifyExcept [demoStepRow ''h1'' StatusSuccess, demoStepRow ''h2'' StatusNoMatch] 1 (card {''h1'', ''h2''})
      (\<lambda>_. False) = Inr True"
    by (simp add: classifyExcept_def demoStepRow_def KeeperTargetSID_def status_defs)
qed (simp_all add: demoStepRow_def ofStep_def)

theorem requisite_names_complete_witness:
  "\<exists>ts'. resolveOnChanges [demoRendered 0, demoRendered 1, demoConsumer\<lparr>rt_onChangesIdx := []\<rparr>] = Inr ts' \<and>
     set (rt_onChangesIdx (ts' ! 2)) = {0, 1}"
proof -
  let ?ts = "[demoRendered 0, demoRendered 1, demoConsumer\<lparr>rt_onChangesIdx := []\<rparr>]"
  have r: "resolveOnChanges ?ts = Inr [demoRendered 0, demoRendered 1, demoConsumer]"
    by (simp add: resolveOnChanges_def demoRendered_def demoConsumer_def registerIndex_def Let_def)
  have "set (rt_onChangesIdx ([demoRendered 0, demoRendered 1, demoConsumer] ! 2)) =
      {rt_index u | u. u \<in> set ?ts \<and> rt_register u \<noteq> [] \<and> rt_register u \<in> set (rt_onChangesNames (?ts ! 2))}"
    by (rule requisite_names_complete [OF r]) (simp_all add: demoConsumer_def)
  also have "\<dots> = rt_index ` set (filter (\<lambda>u. rt_register u \<noteq> [] \<and> rt_register u \<in> set (rt_onChangesNames (?ts ! 2))) ?ts)"
    unfolding set_filter by blast
  also have "\<dots> = {0, 1}"
    by (simp add: demoRendered_def demoConsumer_def)
  finally show ?thesis using r by blast
qed

end
