(* ===== verification/Fail_Judge.thy ===== *)
theory Fail_Judge
  imports Keeper_Step Soul_Calls "HOL-Library.Product_Lexorder"
begin

text \<open>
  How the barrier of a linear run judges one failed row (\<^verbatim>\<open>keeper/internal/scenario/failure_policy.go\<close>): what the
  Keeper settled for the host, the tasks a verdict reads, its radius, and the records left for a host
  that stopped reporting. The audit log's facts, what each host reported failed and executed, are arguments.

  Of the facts of a host only its labels are read here (\<open>host_facts\<close>). The tasks of a step have distinct indexes, so
  the map \<^verbatim>\<open>byIndex\<close> is the list of tasks with \<open>taskByIndex\<close>.
\<close>

section \<open>Settings\<close>

definition OnFailureScenario :: string where "OnFailureScenario = ''scenario''"
definition OnFailureHost :: string where "OnFailureHost = ''host''"
definition radiusCancelled :: string where "radiusCancelled = ''cancelled''"
definition RunSentinelSID :: string where "RunSentinelSID = ''__run__''"

record tolerate =
  to_N :: int
  to_Percent :: bool

text \<open>Division truncates toward zero; both operands are counts.\<close>

definition Limit :: "tolerate \<Rightarrow> int \<Rightarrow> int" where
  "Limit t hosts = (if \<not> to_Percent t then to_N t else to_N t * hosts div 100)"

definition Exceeded :: "tolerate \<Rightarrow> int \<Rightarrow> int \<Rightarrow> bool" where
  "Exceeded t dropped hosts \<longleftrightarrow> dropped > Limit t hosts"

record barrier_owner =
  bo_onFailure :: string
  bo_tolerate :: "tolerate option"

definition DefaultOwner :: barrier_owner where
  "DefaultOwner = \<lparr>bo_onFailure = OnFailureScenario, bo_tolerate = None\<rparr>"

definition stepOwner :: "barrier_owner list \<Rightarrow> int \<Rightarrow> barrier_owner" where
  "stepOwner settings p = (if 0 \<le> p \<and> p < int (length settings) then settings ! nat p else DefaultOwner)"

section \<open>Hosts and entries\<close>

record host_facts =
  hf_sid :: string
  hf_coven :: "string list"

definition factsOr :: "host_facts option \<Rightarrow> string \<Rightarrow> host_facts" where
  "factsOr h sid = (case h of None \<Rightarrow> \<lparr>hf_sid = sid, hf_coven = []\<rparr> | Some x \<Rightarrow> x)"

definition factsBySID :: "host_facts list \<Rightarrow> string \<Rightarrow> host_facts option" where
  "factsBySID roster = map_of (rev (map (\<lambda>h. (hf_sid h, h)) roster))"

definition HostCovered :: "host_facts \<Rightarrow> string list \<Rightarrow> bool" where
  "HostCovered h covens \<longleftrightarrow> list_all (\<lambda>want. want \<in> set (hf_coven h)) covens"

record failure_entry =
  fe_step :: int
  fe_sid :: string
  fe_task :: string
  fe_radius :: string
  fe_reason :: string
  fe_failedAt :: "int option"
  fe_rescues :: "string list"
  fe_held :: bool

text \<open>The state of a source; \<open>sourceNew\<close> is the zero value, before its barrier decided it.\<close>

datatype source_state = sourceNew | sourceHeld | sourceHandled | sourceJudged

record failed_source =
  fs_task :: string
  fs_register :: string
  fs_applier :: string
  fs_members :: "int list"
  fs_failedAt :: int
  fs_state :: source_state
  fs_changedAt :: int
  fs_radius :: string
  fs_reason :: string
  fs_lastUnit :: "int option"
  fs_unitErrs :: "string list"
  fs_rows :: "int list"

section \<open>The judge of a step\<close>

type_synonym key_facts = "task_key set"

record step_judge =
  j_step :: int
  j_owner :: barrier_owner
  j_tasks :: "rendered_task list"
  j_sent :: per_host
  j_settled :: "(string \<times> settled_host) list"
  j_failedAt :: "key_facts option"
  j_executed :: "key_facts option"
  j_recorded :: key_facts
  j_replayed :: "string set"
  j_decided :: "string set"
  j_swept :: bool

definition newStepJudge ::
    "barrier_owner list \<Rightarrow> int \<Rightarrow> rendered_task list \<Rightarrow> per_host \<Rightarrow> (string \<times> settled_host) list \<Rightarrow> step_judge" where
  "newStepJudge settings p ts sent settled =
     \<lparr>j_step = p, j_owner = stepOwner settings p, j_tasks = ts, j_sent = sent, j_settled = settled,
      j_failedAt = None, j_executed = None, j_recorded = {}, j_replayed = {}, j_decided = {}, j_swept = False\<rparr>"

definition byIndex :: "step_judge \<Rightarrow> int \<Rightarrow> rendered_task option" where
  "byIndex j i = taskByIndex (j_tasks j) i"

text \<open>Membership in a map of maps that may be nil.\<close>

definition inFacts :: "key_facts option \<Rightarrow> string \<Rightarrow> int \<Rightarrow> bool" where
  "inFacts ks sid i = (case ks of None \<Rightarrow> False | Some s \<Rightarrow> (sid, i) \<in> s)"

definition sentTo :: "step_judge \<Rightarrow> string \<Rightarrow> rendered_task list" where
  "sentTo j sid = (case map_of (j_sent j) sid of None \<Rightarrow> [] | Some ts \<Rightarrow> ts)"

definition rowFailed :: "status \<Rightarrow> bool" where
  "rowFailed s \<longleftrightarrow> s = StatusFailed \<or> s = StatusOrphaned"

definition rowTerminal :: "status \<Rightarrow> bool" where
  "rowTerminal s \<longleftrightarrow> s \<in> {StatusSuccess, StatusNoMatch, StatusFailed, StatusOrphaned, StatusCancelled}"

definition hasFailureToJudge :: "step_judge \<Rightarrow> 'r run_row list \<Rightarrow> bool" where
  "hasFailureToJudge j rs = list_ex (\<lambda>r. Passage r = j_step j \<and> SID r \<notin> j_replayed j \<and> rowFailed (Status r)) rs"

definition carriesUnit :: "step_judge \<Rightarrow> bool" where
  "carriesUnit j = list_ex (\<lambda>t. rt_rescueUnit t \<noteq> []) (j_tasks j)"

definition keeperFailed :: "step_judge \<Rightarrow> string \<Rightarrow> settled_host option" where
  "keeperFailed j sid =
     (case map_of (j_settled j) sid of
        Some sh \<Rightarrow> if sh_failed sh \<and> sh_records sh \<noteq> [] then Some sh else None
      | None \<Rightarrow> None)"

definition keeperFailedGroup :: "step_judge \<Rightarrow> string \<Rightarrow> bool" where
  "keeperFailedGroup j sid =
     (case keeperFailed j sid of
        None \<Rightarrow> False
      | Some sh \<Rightarrow> length (sh_records sh) > 1 \<and> rt_grouped (kr_task (hd (sh_records sh))))"

definition reportedFailure :: "step_judge \<Rightarrow> 'r run_row \<Rightarrow> rendered_task option" where
  "reportedFailure j r =
     (case FailedPlanIndex r of
        Some i \<Rightarrow> byIndex j i
      | None \<Rightarrow>
          (case TaskIdx r of
             Some i \<Rightarrow> if 0 \<le> i \<and> i < int (length (sentTo j (SID r))) then Some (sentTo j (SID r) ! nat i) else None
           | None \<Rightarrow> None))"

definition radiusOf :: "step_judge \<Rightarrow> rendered_task \<Rightarrow> string" where
  "radiusOf j t = (if rt_onFailure t = [] then bo_onFailure (j_owner j) else rt_onFailure t)"

text \<open>The indexes of the open sources that are no record of a host that stopped reporting.\<close>

definition judgedMembers :: "step_judge \<Rightarrow> string \<Rightarrow> failed_source list \<Rightarrow> int list" where
  "judgedMembers j sid opens =
     remdups (filter (\<lambda>m. (sid, m) \<notin> j_recorded j) (concat (map fs_members opens)))"

definition judgedTasks :: "step_judge \<Rightarrow> 'r run_row \<Rightarrow> failed_source list \<Rightarrow> rendered_task list" where
  "judgedTasks j r opens =
     (let member = judgedMembers j (SID r) opens
      in case keeperFailed j (SID r) of
           Some sh \<Rightarrow>
             (case find (\<lambda>rec. rt_index (kr_task rec) \<in> set member) (sh_records sh) of
                Some rec \<Rightarrow> [kr_task rec]
              | None \<Rightarrow> [])
         | None \<Rightarrow>
             (let first = (case reportedFailure j r of
                    Some t \<Rightarrow> if rt_index t \<in> set member then Some t else None
                  | None \<Rightarrow> None)
              in (case first of Some t \<Rightarrow> [t] | None \<Rightarrow> []) @
                 List.map_filter (\<lambda>i. case byIndex j i of
                     Some t \<Rightarrow> if i \<noteq> (case first of Some f \<Rightarrow> rt_index f | None \<Rightarrow> - 1) then Some t else None
                   | None \<Rightarrow> None) (sort member)))"

definition judgeVerdict :: "step_judge \<Rightarrow> 'r run_row \<Rightarrow> failed_source list \<Rightarrow> failure_entry" where
  "judgeVerdict j r opens =
     (let e = \<lparr>fe_step = j_step j, fe_sid = SID r, fe_task = [], fe_radius = [], fe_reason = failureReason r,
               fe_failedAt = None, fe_rescues = [], fe_held = False\<rparr>
      in if Status r = StatusCancelled then e\<lparr>fe_radius := radiusCancelled\<rparr>
         else case judgedTasks j r opens of
                [] \<Rightarrow> e\<lparr>fe_radius := bo_onFailure (j_owner j)\<rparr>
              | t # ts \<Rightarrow>
                  (let pick = (case find (\<lambda>u. radiusOf j u \<noteq> OnFailureHost) (t # ts) of Some u \<Rightarrow> u | None \<Rightarrow> t)
                   in e\<lparr>fe_task := rt_name pick, fe_radius := radiusOf j pick\<rparr>))"

text \<open>The hosts a run has targeted: one with a row, the Keeper's and the sentinel's and a \<open>no_match\<close> aside.\<close>

definition reachedHosts :: "'r run_row list \<Rightarrow> int" where
  "reachedHosts rs =
     int (card (set (map SID (filter (\<lambda>r. SID r \<noteq> KeeperTargetSID \<and> SID r \<noteq> RunSentinelSID \<and> Status r \<noteq> StatusNoMatch) rs))))"

section \<open>What a host was to be sent\<close>

text \<open>A record with no status is a task the host was to run.\<close>

record message_record =
  mr_task :: rendered_task
  mr_localIdx :: int
  mr_status :: "task_status option"
  mr_failure :: "flow_failure option"

definition ofRecord :: "keeper_record \<Rightarrow> message_record" where
  "ofRecord r = \<lparr>mr_task = kr_task r, mr_localIdx = kr_localIdx r, mr_status = Some (kr_status r), mr_failure = kr_failure r\<rparr>"

definition messageOf :: "step_judge \<Rightarrow> string \<Rightarrow> message_record list" where
  "messageOf j sid =
     (let sent = sentTo j sid
      in map (\<lambda>(i, t). \<lparr>mr_task = t, mr_localIdx = int i,
                        mr_status = (if hf_skip (flowOf t sid) then Some TS_SKIPPED else None), mr_failure = None\<rparr>)
           (zip [0..<length sent] sent) @
         (case map_of (j_settled j) sid of
            Some sh \<Rightarrow> if \<not> sh_failed sh then map ofRecord (numberedAfter (sh_records sh) (length sent)) else []
          | None \<Rightarrow> []))"

definition stopCodes :: "string list" where
  "stopCodes = [''soul_unavailable'', ''send_apply_failed'', ''recipe_missing'', ''push_transport_failed'',
     ''provider_not_routed'', ''soul_passage_unsupported'', StatusOrphaned]"

definition stopCode :: "string \<Rightarrow> string" where
  "stopCode reason = (let head = hd (split_on (CHR '':'') reason) in if head \<in> set stopCodes then head else [])"

definition stoppedAt :: "string \<Rightarrow> message_record \<Rightarrow> message_record" where
  "stoppedAt reason r =
     r\<lparr>mr_status := Some TS_FAILED,
       mr_failure := Some \<lparr>ff_predicate = [], ff_code = stopCode reason,
         ff_message = ''the host stopped reporting at this task: '' @ reason\<rparr>\<rparr>"

fun unreportedLoop :: "string \<Rightarrow> (int \<Rightarrow> bool) \<Rightarrow> bool \<Rightarrow> message_record list \<Rightarrow> message_record list" where
  "unreportedLoop reason told stopped [] = []"
| "unreportedLoop reason told stopped (r # rs) =
     (if told (rt_index (mr_task r)) then unreportedLoop reason told stopped rs
      else if mr_status r \<noteq> None then r # unreportedLoop reason told stopped rs
      else if stopped then r\<lparr>mr_status := Some TS_SKIPPED\<rparr> # unreportedLoop reason told stopped rs
      else stoppedAt reason r # unreportedLoop reason told True rs)"

definition unreported :: "message_record list \<Rightarrow> string \<Rightarrow> string \<Rightarrow> key_facts \<Rightarrow> message_record list" where
  "unreported msg sid reason told = unreportedLoop reason (\<lambda>i. (sid, i) \<in> told) False msg"

definition failedAtStep :: "step_judge \<Rightarrow> string \<Rightarrow> bool" where
  "failedAtStep j sid = list_ex (\<lambda>t. inFacts (j_failedAt j) sid (rt_index t)) (j_tasks j)"

text \<open>The hosts whose failure is tied to no task.\<close>

definition stoppedRows :: "step_judge \<Rightarrow> 'r run_row list \<Rightarrow> 'r run_row list" where
  "stoppedRows j rs =
     filter (\<lambda>r. Passage r = j_step j \<and> SID r \<noteq> KeeperTargetSID \<and> SID r \<notin> j_replayed j \<and> rowFailed (Status r) \<and>
       keeperFailed j (SID r) = None \<and> reportedFailure j r = None \<and> \<not> failedAtStep j (SID r) \<and> messageOf j (SID r) \<noteq> []) rs"

text \<open>The FAILED records whose audit write was confirmed.\<close>

definition recordUnreported ::
    "step_judge \<Rightarrow> 'r run_row list \<Rightarrow> key_facts \<Rightarrow> (string \<Rightarrow> int \<Rightarrow> bool) \<Rightarrow> key_facts" where
  "recordUnreported j rs told written =
     set (concat (map (\<lambda>r.
       map (\<lambda>m. (SID r, rt_index (mr_task m)))
         (filter (\<lambda>m. written (SID r) (rt_index (mr_task m)) \<and> mr_status m = Some TS_FAILED)
           (unreported (messageOf j (SID r)) (SID r) (failureReason r) told))) (stoppedRows j rs)))"

section \<open>What a host reported, as the replay reads it\<close>

definition failedOn :: "step_judge \<Rightarrow> 'r run_row \<Rightarrow> int \<Rightarrow> bool" where
  "failedOn j r i \<longleftrightarrow>
     inFacts (j_failedAt j) (SID r) i \<and> byIndex j i \<noteq> None \<or>
     (SID r, i) \<in> j_recorded j \<or>
     (case keeperFailed j (SID r) of
        Some sh \<Rightarrow> list_ex (\<lambda>rec. kr_status rec = TS_FAILED \<and> rt_index (kr_task rec) = i) (sh_records sh)
      | None \<Rightarrow> False) \<or>
     (case reportedFailure j r of Some t \<Rightarrow> rt_index t = i | None \<Rightarrow> False)"

definition replayMessage :: "step_judge \<Rightarrow> string \<Rightarrow> rendered_task list" where
  "replayMessage j sid =
     sort_key rt_index (map (\<lambda>t. case byIndex j (rt_index t) of Some orig \<Rightarrow> orig | None \<Rightarrow> t)
       (case keeperFailed j sid of
          Some sh \<Rightarrow> map kr_task (sh_records sh)
        | None \<Rightarrow> map mr_task (messageOf j sid)))"

section \<open>Steps of a construct\<close>

datatype step_node = StepNode (sn_step: int) (sn_group: bool) (sn_children: "step_node list option")

lemma size_last_child [termination_simp]: "cs \<noteq> [] \<Longrightarrow> size (last cs) \<le> size_list size cs"
  by (rule size_list_estimation' [OF last_in_set]) simp_all

lemma size_last_child_strict [termination_simp]:
  "cs \<noteq> [] \<Longrightarrow> size (last cs) < Suc (Suc (Suc (size c + size_list size cs)))"
  using size_last_child by fastforce

fun tailNode :: "step_node \<Rightarrow> step_node" where
  "tailNode (StepNode s g (Some (c # cs))) = tailNode (last (c # cs))"
| "tailNode n = n"

definition atoi :: "string \<Rightarrow> int option" where
  "atoi s =
     (let (neg, ds) = (case s of [] \<Rightarrow> (False, []) | c # cs \<Rightarrow>
            if c = CHR ''-'' then (True, cs) else if c = CHR ''+'' then (False, cs) else (False, s));
          n = foldl (\<lambda>n c. n * 10 + (int (code c) - 48)) 0 ds;
          v = (if neg then - n else n)
      in if ds = [] \<or> \<not> list_all is_digit ds \<or> v < - (2 ^ 63) \<or> v \<ge> 2 ^ 63 then None else Some v)"

fun spanOf :: "step_node list \<Rightarrow> string list \<Rightarrow> (int \<times> int) option" where
  "spanOf nodes [] = None"
| "spanOf nodes (part # parts) =
     (case atoi part of
        None \<Rightarrow> None
      | Some pos \<Rightarrow>
          if pos < 0 \<or> pos \<ge> int (length nodes) then None
          else (let node = nodes ! nat pos
                in case sn_children node of
                     None \<Rightarrow> if parts \<noteq> [] \<and> \<not> sn_group node then None else Some (sn_step node, sn_step node)
                   | Some cs \<Rightarrow> if parts = [] then Some (sn_step node, sn_step (tailNode node)) else spanOf cs parts))"

definition StepSpan :: "step_node list \<Rightarrow> string \<Rightarrow> (int \<times> int) option" where
  "StepSpan steps path = (if path = [] then None else spanOf steps (split_on (CHR ''/'') path))"

text \<open>The spans of the default blocks, in the order of the walk.\<close>

fun blocksOf :: "step_node \<Rightarrow> (int \<times> int) list" where
  "blocksOf (StepNode s g None) = []"
| "blocksOf (StepNode s g (Some cs)) =
     (if cs = [] then [] else (s, sn_step (tailNode (StepNode s g (Some cs)))) # concat (map blocksOf cs))"

end
