(* ===== verification/Fail_State.thy ===== *)
theory Fail_State
  imports Fail_Judge
begin

text \<open>
  The failure state of a linear run (\<^verbatim>\<open>keeper/internal/scenario/failure_state.go\<close>): each host's failed sources
  with the state the barriers decided, and each host's standing. A barrier replays what a host reported through the
  host's rescue rule (\<open>rescue_rule\<close>), holds a failure a unit ahead may handle, returns a host whose failures are all
  handled, and judges the rest.

  The pointers \<^verbatim>\<open>*failedSource\<close> are keys of the map of sources, a rule is stored back under its host, and the maps that
  are iterated are association lists. The text of the lead of a run's error is its class (\<open>end_lead\<close>).
\<close>

section \<open>State\<close>

type_synonym source_key = "string \<times> int"
type_synonym run_row_key = "string \<times> int"

record hold_period =
  hp_heldFrom :: int
  hp_returnedAt :: "int option"
  hp_missed :: "string \<Rightarrow> struct option"

record host_failures =
  hx_facts :: host_facts
  hx_periods :: "hold_period list"
  hx_droppedAt :: "int option"

record rescue_cover =
  rc_path :: string
  rc_sources :: "string list"
  rc_first :: int
  rc_last :: int
  rc_rescueUnit :: string
  rc_decidedAt :: int
  rc_covens :: "string list"

datatype end_lead = LeadNone | LeadStepFailed int | LeadNoHostLeft int | LeadTolerate int int int
  | LeadHeld | LeadWithout int

record run_failures =
  rf_entries :: "failure_entry list"
  rf_closed :: bool
  rf_roster :: "host_facts list"
  rf_hosts :: "(string \<times> host_failures) list"
  rf_sources :: "(source_key \<times> failed_source) list"
  rf_bySID :: "string \<Rightarrow> source_key list"
  rf_sourceless :: "string \<Rightarrow> int list"
  rf_failedRows :: "run_row_key set"
  rf_rules :: "(string \<times> rescue_rule) list"
  rf_covers :: "rescue_cover list"
  rf_steps :: "step_node list"
  rf_blocks :: "(int \<times> int) list"
  rf_unitIDs :: "(string \<times> int) list"
  rf_unitKeys :: "string list"
  rf_unitSteps :: "int list"
  rf_unitFails :: "string \<Rightarrow> string \<Rightarrow> int option"
  rf_ended :: bool
  rf_endedAt :: int
  rf_endLead :: end_lead

definition newRunFailures :: run_failures where
  "newRunFailures =
     \<lparr>rf_entries = [], rf_closed = False, rf_roster = [], rf_hosts = [], rf_sources = [], rf_bySID = (\<lambda>_. []),
      rf_sourceless = (\<lambda>_. []), rf_failedRows = {}, rf_rules = [], rf_covers = [], rf_steps = [], rf_blocks = [],
      rf_unitIDs = [], rf_unitKeys = [], rf_unitSteps = [], rf_unitFails = (\<lambda>_ _. None), rf_ended = False,
      rf_endedAt = 0, rf_endLead = LeadNone\<rparr>"

definition sourceOf :: "run_failures \<Rightarrow> source_key \<Rightarrow> failed_source option" where
  "sourceOf f k = map_of (rf_sources f) k"

definition setSource :: "source_key \<Rightarrow> failed_source \<Rightarrow> run_failures \<Rightarrow> run_failures" where
  "setSource k s f = f\<lparr>rf_sources := AList.update k s (rf_sources f)\<rparr>"

definition hostOf :: "run_failures \<Rightarrow> string \<Rightarrow> host_failures option" where
  "hostOf f sid = map_of (rf_hosts f) sid"

definition setHost :: "string \<Rightarrow> host_failures \<Rightarrow> run_failures \<Rightarrow> run_failures" where
  "setHost sid h f = f\<lparr>rf_hosts := AList.update sid h (rf_hosts f)\<rparr>"

section \<open>The standing of a host\<close>

definition reachedAt :: "int option \<Rightarrow> int \<Rightarrow> int option" where
  "reachedAt a step = (case a of None \<Rightarrow> None | Some x \<Rightarrow> if x > step then None else Some x)"

definition atStep :: "host_failures \<Rightarrow> int \<Rightarrow> host_failures \<times> bool" where
  "atStep h step =
     (let ps = map (\<lambda>p. p\<lparr>hp_returnedAt := reachedAt (hp_returnedAt p) step\<rparr>)
                 (takeWhile (\<lambda>p. hp_heldFrom p \<le> step) (hx_periods h));
          d = reachedAt (hx_droppedAt h) step
      in (h\<lparr>hx_periods := ps, hx_droppedAt := d\<rparr>, ps \<noteq> [] \<or> d \<noteq> None))"

definition away :: "host_failures \<Rightarrow> bool" where
  "away h \<longleftrightarrow> hx_droppedAt h \<noteq> None \<or> hx_periods h \<noteq> [] \<and> hp_returnedAt (last (hx_periods h)) = None"

definition isOpen :: "host_failures \<Rightarrow> bool" where
  "isOpen h \<longleftrightarrow> hx_droppedAt h = None \<and> hx_periods h \<noteq> [] \<and> hp_returnedAt (last (hx_periods h)) = None"

definition openPeriod :: "host_failures option \<Rightarrow> hold_period option" where
  "openPeriod ho = (case ho of None \<Rightarrow> None | Some h \<Rightarrow> if isOpen h then Some (last (hx_periods h)) else None)"

definition heldAt :: "host_failures option \<Rightarrow> int \<Rightarrow> hold_period option" where
  "heldAt ho step =
     (case ho of
        None \<Rightarrow> None
      | Some h \<Rightarrow>
          if hx_droppedAt h \<noteq> None \<or> hx_periods h = [] then None
          else (let p = last (hx_periods h)
                in if hp_heldFrom p > step \<or> (case hp_returnedAt p of None \<Rightarrow> False | Some x \<Rightarrow> x \<le> step) then None
                   else Some p))"

text \<open>A change of the last period, through the pointer the two functions above return.\<close>

definition setLast :: "(hold_period \<Rightarrow> hold_period) \<Rightarrow> host_failures \<Rightarrow> host_failures" where
  "setLast g h = h\<lparr>hx_periods := butlast (hx_periods h) @ [g (last (hx_periods h))]\<rparr>"

section \<open>The plan\<close>

definition useRoster :: "host_facts list \<Rightarrow> run_failures \<Rightarrow> run_failures" where
  "useRoster roster f = f\<lparr>rf_roster := roster\<rparr>"

definition setPlan :: "rescue_cover list \<Rightarrow> step_node list \<Rightarrow> run_failures \<Rightarrow> run_failures" where
  "setPlan covers steps f =
     f\<lparr>rf_covers := covers, rf_steps := steps, rf_blocks := rf_blocks f @ concat (map blocksOf steps)\<rparr>"

definition anyFailed :: "run_failures \<Rightarrow> bool" where
  "anyFailed f \<longleftrightarrow> rf_sources f \<noteq> [] \<or> rf_entries f \<noteq> []"

definition anyHeldSource :: "run_failures \<Rightarrow> bool" where
  "anyHeldSource f = list_ex (\<lambda>(k, s). fs_state s = sourceHeld) (rf_sources f)"

definition holdsUnits :: "run_failures \<Rightarrow> bool" where
  "holdsUnits f \<longleftrightarrow> rf_covers f \<noteq> []"

definition decidesAt :: "run_failures \<Rightarrow> int \<Rightarrow> bool" where
  "decidesAt f step = list_ex (\<lambda>c. rc_decidedAt c = step) (rf_covers f)"

definition decidedStep :: "run_failures \<Rightarrow> string \<Rightarrow> int" where
  "decidedStep f key =
     (case StepSpan (rf_steps f) (hd (split_on (CHR ''@'') key)) of Some (_, l) \<Rightarrow> l | None \<Rightarrow> - 1)"

definition unitID :: "run_failures \<Rightarrow> string \<Rightarrow> run_failures \<times> int" where
  "unitID f key =
     (if key = [] then (f, 0)
      else case map_of (rf_unitIDs f) key of
             Some i \<Rightarrow> (f, i)
           | None \<Rightarrow>
               (let n = int (length (rf_unitSteps f)) + 1
                in (f\<lparr>rf_unitKeys := rf_unitKeys f @ [key], rf_unitSteps := rf_unitSteps f @ [decidedStep f key],
                      rf_unitIDs := AList.update key n (rf_unitIDs f)\<rparr>, n)))"

text \<open>Asked only of a key that has an id.\<close>

definition unitDecidedAt :: "run_failures \<Rightarrow> string \<Rightarrow> int" where
  "unitDecidedAt f key = rf_unitSteps f ! nat (snd (unitID f key) - 1)"

definition recordUnitFails :: "string \<Rightarrow> int list \<Rightarrow> int \<Rightarrow> run_failures \<Rightarrow> run_failures" where
  "recordUnitFails sid ids step f =
     foldl (\<lambda>f u. (let key = rf_unitKeys f ! nat (u - 1)
                    in case rf_unitFails f sid key of
                         Some _ \<Rightarrow> f
                       | None \<Rightarrow> f\<lparr>rf_unitFails := (rf_unitFails f)(sid := (rf_unitFails f sid)(key \<mapsto> step))\<rparr>)) f ids"

definition ruleFor :: "run_failures \<Rightarrow> string \<Rightarrow> rescue_rule" where
  "ruleFor f sid = (case map_of (rf_rules f) sid of None \<Rightarrow> newRescueRule | Some r \<Rightarrow> r)"

definition setRule :: "string \<Rightarrow> rescue_rule \<Rightarrow> run_failures \<Rightarrow> run_failures" where
  "setRule sid r f = f\<lparr>rf_rules := AList.update sid r (rf_rules f)\<rparr>"

definition sourceKeys :: "run_failures \<Rightarrow> source_key list" where
  "sourceKeys f = sort (map fst (rf_sources f))"

section \<open>The replay of one message\<close>

record replayed =
  rp_sources :: "int list"
  rp_units :: "int list"
  rp_unitFirst :: "int \<Rightarrow> int option"
  rp_unitsFailed :: "int list"
  rp_unitRow :: bool

record replay_plan =
  rq_state :: run_failures
  rq_rule :: rescue_rule
  rq_units :: "int list"
  rq_unitFirst :: "int \<Rightarrow> int option"
  rq_lastAt :: "int \<Rightarrow> nat option"
  rq_isSource :: "int set"

definition registerTask :: "step_judge \<Rightarrow> replay_plan \<Rightarrow> nat \<times> rendered_task \<Rightarrow> replay_plan" where
  "registerTask j q it =
     (case it of (i, t) \<Rightarrow>
       (let terminal = rt_aggregateOf t \<noteq> [];
            (f, u) = unitID (rq_state q) (rt_rescueUnit t);
            q1 = q\<lparr>rq_state := f,
                   rq_rule := Task (rq_rule q) (rt_index t) u (rt_onFailIdx t) terminal (rt_aggregateOf t)\<rparr>
        in if u \<noteq> 0 then
             (let q2 = (if rq_unitFirst q1 u = None
                        then q1\<lparr>rq_unitFirst := (rq_unitFirst q1)(u \<mapsto> rt_index t), rq_units := rq_units q1 @ [u]\<rparr>
                        else q1)
              in if unitDecidedAt f (rt_rescueUnit t) = j_step j
                 then q2\<lparr>rq_lastAt := (rq_lastAt q2)(u \<mapsto> i)\<rparr> else q2)
           else if \<not> terminal then q1\<lparr>rq_isSource := insert (rt_index t) (rq_isSource q1)\<rparr>
           else q1))"

definition registerAll :: "step_judge \<Rightarrow> run_failures \<Rightarrow> rescue_rule \<Rightarrow> rendered_task list \<Rightarrow> replay_plan" where
  "registerAll j f r msg =
     foldl (registerTask j)
       \<lparr>rq_state = f, rq_rule = r, rq_units = [], rq_unitFirst = (\<lambda>_. None), rq_lastAt = (\<lambda>_. None), rq_isSource = {}\<rparr>
       (zip [0..<length msg] msg)"

text \<open>A failure fed to the rule, and the positions it makes sources.\<close>

definition feedFail :: "int set \<Rightarrow> string \<Rightarrow> int \<Rightarrow> rescue_rule \<times> int list \<Rightarrow> rescue_rule \<times> int list" where
  "feedFail isSource reason i rs =
     (case rs of (r, srcs) \<Rightarrow>
       (let r1 = Fail r i reason
        in (r1, if i \<in> isSource \<or> UnitOf r1 i \<noteq> 0 \<and> Held r1 i then srcs @ [i] else srcs)))"

definition decideBefore :: "replay_plan \<Rightarrow> nat \<Rightarrow> rescue_rule \<Rightarrow> rescue_rule" where
  "decideBefore q i r =
     foldl (\<lambda>r u. case rq_lastAt q u of Some l \<Rightarrow> if l < i then fst (Decide r u False) else r | None \<Rightarrow> r) r (rq_units q)"

definition feedTask ::
    "step_judge \<Rightarrow> 'r run_row \<Rightarrow> replay_plan \<Rightarrow> bool \<Rightarrow> int \<Rightarrow> rescue_rule \<times> int list \<Rightarrow> nat \<times> rendered_task
     \<Rightarrow> rescue_rule \<times> int list" where
  "feedTask j hs q unitRow cause rs it =
     (case it of (i, t) \<Rightarrow>
       (let (r, srcs) = rs;
            r1 = (if unitRow then r else decideBefore q i r);
            idx = rt_index t
        in if idx = cause \<or> cause \<ge> 0 \<and> idx \<notin> rq_isSource q then (r1, srcs)
           else (let r2 = Ran r1 idx (failedOn j hs idx \<or> inFacts (j_executed j) (SID hs) idx)
                 in if failedOn j hs idx then feedFail (rq_isSource q) (failureReason hs) idx (r2, srcs) else (r2, srcs))))"

definition causeIndex :: "step_judge \<Rightarrow> 'r run_row \<Rightarrow> int" where
  "causeIndex j hs =
     (case keeperFailed j (SID hs) of
        Some sh \<Rightarrow> (let c = rt_index (kr_task (hd (sh_records sh))) in if failedOn j hs c then c else - 1)
      | None \<Rightarrow> - 1)"

definition replay ::
    "run_failures \<Rightarrow> step_judge \<Rightarrow> rescue_rule \<Rightarrow> 'r run_row \<Rightarrow> run_failures \<times> rescue_rule \<times> replayed" where
  "replay f j r hs =
     (let msg = replayMessage j (SID hs);
          q = registerAll j f r msg;
          unitRow = (rq_units q \<noteq> [] \<and> rq_isSource q = {});
          c = causeIndex j hs;
          start = (if c \<ge> 0 then feedFail (rq_isSource q) (failureReason hs) c (Ran (rq_rule q) c True, [])
                   else (rq_rule q, []));
          (r1, srcs) = foldl (feedTask j hs q unitRow c) start (zip [0..<length msg] msg)
      in (rq_state q, r1,
          \<lparr>rp_sources = srcs, rp_units = rq_units q, rp_unitFirst = rq_unitFirst q,
           rp_unitsFailed = filter (\<lambda>u. \<not> UnitFailed (rq_rule q) u \<and> UnitFailed r1 u) (rq_units q),
           rp_unitRow = unitRow\<rparr>))"

definition decideUnits :: "run_failures \<Rightarrow> int \<Rightarrow> rescue_rule \<Rightarrow> rescue_rule" where
  "decideUnits f step r =
     foldl (\<lambda>r (i, a). if a = step then fst (Decide r (int i + 1) False) else r) r
       (zip [0..<length (rf_unitSteps f)] (rf_unitSteps f))"

section \<open>Sources\<close>

definition applierOf :: "step_judge \<Rightarrow> int \<Rightarrow> string" where
  "applierOf j i =
     (case find (\<lambda>t. i \<in> set (rt_aggregateOf t)) (rev (j_tasks j)) of Some t \<Rightarrow> rt_register t | None \<Rightarrow> [])"

text \<open>The radius of a whole message the Keeper failed, empty for any other host.\<close>

definition wholeRadius :: "step_judge \<Rightarrow> string \<Rightarrow> int list \<Rightarrow> string" where
  "wholeRadius j sid positions =
     (case keeperFailed j sid of
        None \<Rightarrow> []
      | Some sh \<Rightarrow>
          (case List.map_filter (\<lambda>rec. case byIndex j (rt_index (kr_task rec)) of
                  Some t \<Rightarrow> if rt_index t \<in> set positions then Some t else None | None \<Rightarrow> None) (sh_records sh) of
             t # _ \<Rightarrow> radiusOf j t
           | [] \<Rightarrow> bo_onFailure (j_owner j)))"

definition freshSource :: "step_judge \<Rightarrow> 'r run_row \<Rightarrow> string \<Rightarrow> int \<Rightarrow> rendered_task \<Rightarrow> failed_source" where
  "freshSource j hs whole i t =
     \<lparr>fs_task = rt_name t, fs_register = rt_register t, fs_applier = applierOf j i, fs_members = [i],
      fs_failedAt = j_step j, fs_state = sourceNew, fs_changedAt = j_step j,
      fs_radius = (if whole \<noteq> [] then whole
                   else if (SID hs, i) \<in> j_recorded j then bo_onFailure (j_owner j) else radiusOf j t),
      fs_reason = failureReason hs, fs_lastUnit = None, fs_unitErrs = [], fs_rows = [j_step j]\<rparr>"

fun newSourcesLoop ::
    "step_judge \<Rightarrow> 'r run_row \<Rightarrow> string \<Rightarrow> int list \<Rightarrow> (string \<Rightarrow> source_key option) \<Rightarrow> source_key list
     \<Rightarrow> run_failures \<Rightarrow> run_failures \<times> source_key list" where
  "newSourcesLoop j hs whole [] byReg out f = (f, out)"
| "newSourcesLoop j hs whole (i # is) byReg out f =
     (case byIndex j i of
        None \<Rightarrow> newSourcesLoop j hs whole is byReg out f
      | Some t \<Rightarrow>
          (case (if rt_register t \<noteq> [] then byReg (rt_register t) else None) of
             Some k \<Rightarrow>
               (case sourceOf f k of
                  Some s \<Rightarrow> newSourcesLoop j hs whole is byReg out (setSource k (s\<lparr>fs_members := fs_members s @ [i]\<rparr>) f)
                | None \<Rightarrow> newSourcesLoop j hs whole is byReg out f)
           | None \<Rightarrow>
               (let key = (SID hs, i)
                in if sourceOf f key \<noteq> None then newSourcesLoop j hs whole is byReg out f
                   else (let f1 = setSource key (freshSource j hs whole i t) f;
                             f2 = f1\<lparr>rf_bySID := (rf_bySID f1)(SID hs := rf_bySID f1 (SID hs) @ [key])\<rparr>
                         in newSourcesLoop j hs whole is
                              (if rt_register t \<noteq> [] then byReg(rt_register t \<mapsto> key) else byReg) (out @ [key]) f2))))"

definition newSources :: "step_judge \<Rightarrow> 'r run_row \<Rightarrow> int list \<Rightarrow> run_failures \<Rightarrow> run_failures \<times> source_key list" where
  "newSources j hs positions f =
     (if positions = [] then (f, [])
      else newSourcesLoop j hs (wholeRadius j (SID hs) positions) (sort positions) (\<lambda>_. None) [] f)"

text \<open>One change of a source, where it has to change.\<close>

definition onSource :: "(failed_source \<Rightarrow> failed_source option) \<Rightarrow> run_failures \<Rightarrow> source_key \<Rightarrow> run_failures" where
  "onSource g f k =
     (case sourceOf f k of
        None \<Rightarrow> f
      | Some s \<Rightarrow> (case g s of None \<Rightarrow> f | Some s' \<Rightarrow> setSource k s' f))"

definition applyHandled :: "string \<Rightarrow> int \<Rightarrow> run_failures \<Rightarrow> run_failures" where
  "applyHandled sid step f =
     (case map_of (rf_rules f) sid of
        None \<Rightarrow> f
      | Some r \<Rightarrow>
          foldl (onSource (\<lambda>s. if fs_state s = sourceJudged \<or> fs_state s = sourceHandled \<or> list_ex (Held r) (fs_members s)
                                then None else Some (s\<lparr>fs_state := sourceHandled, fs_changedAt := step\<rparr>)))
            f (rf_bySID f sid))"

definition sourceAt :: "run_failures \<Rightarrow> string \<Rightarrow> int \<Rightarrow> source_key option" where
  "sourceAt f sid pos =
     find (\<lambda>k. case sourceOf f k of None \<Rightarrow> False | Some s \<Rightarrow> pos \<in> set (fs_members s)) (rf_bySID f sid)"

definition attachOne :: "int \<Rightarrow> string \<Rightarrow> failed_source \<Rightarrow> failed_source option" where
  "attachOne step reason s =
     (if fs_state s = sourceHandled then None
      else Some (s\<lparr>fs_unitErrs := fs_unitErrs s @ [reason],
                   fs_rows := (if step \<in> set (fs_rows s) then fs_rows s else fs_rows s @ [step])\<rparr>))"

text \<open>Each source of a failed unit once.\<close>

definition attachUnitFailures :: "string \<Rightarrow> rescue_rule \<Rightarrow> int list \<Rightarrow> int \<Rightarrow> string \<Rightarrow> run_failures \<Rightarrow> run_failures" where
  "attachUnitFailures sid r units step reason f =
     foldl (\<lambda>f u. foldl (onSource (attachOne step reason)) f
                     (remdups (List.map_filter (sourceAt f sid) (Sources r u)))) f units"

section \<open>Deciding a host\<close>

definition lastUnit :: "run_failures \<Rightarrow> failed_source \<Rightarrow> int \<Rightarrow> host_facts option \<Rightarrow> int option" where
  "lastUnit f s step ho =
     (case ho of
        None \<Rightarrow> None
      | Some h \<Rightarrow>
          foldl (\<lambda>acc c.
            if rc_last c \<le> step \<or> \<not> HostCovered h (rc_covens c) then acc
            else if fs_register s \<notin> set (rc_sources c) \<and> (fs_applier s = [] \<or> fs_applier s \<notin> set (rc_sources c)) then acc
            else case acc of None \<Rightarrow> Some (rc_decidedAt c)
                 | Some a \<Rightarrow> if rc_decidedAt c > a then Some (rc_decidedAt c) else acc) None (rf_covers f))"

definition holdHost :: "string \<Rightarrow> host_facts option \<Rightarrow> int \<Rightarrow> run_failures \<Rightarrow> run_failures" where
  "holdHost sid facts from f =
     (let h = (case hostOf f sid of None \<Rightarrow> \<lparr>hx_facts = factsOr facts sid, hx_periods = [], hx_droppedAt = None\<rparr> | Some h \<Rightarrow> h)
      in if hx_droppedAt h \<noteq> None \<or> openPeriod (Some h) \<noteq> None then f
         else setHost sid (h\<lparr>hx_facts := (case facts of Some x \<Rightarrow> x | None \<Rightarrow> hx_facts h),
                 hx_periods := hx_periods h @ [\<lparr>hp_heldFrom = from, hp_returnedAt = None, hp_missed = (\<lambda>_. None)\<rparr>]\<rparr>) f)"

definition judgeSource :: "int \<Rightarrow> failed_source \<Rightarrow> failed_source option" where
  "judgeSource step s = Some (s\<lparr>fs_state := sourceJudged, fs_changedAt := step\<rparr>)"

definition holdSources :: "int \<Rightarrow> (source_key \<times> int) list \<Rightarrow> run_failures \<Rightarrow> run_failures" where
  "holdSources step ls f =
     foldl (\<lambda>f (k, l). onSource (\<lambda>s. Some (s\<lparr>fs_state := sourceHeld, fs_changedAt := step, fs_lastUnit := Some l\<rparr>)) f k) f ls"

text \<open>The sources with the last unit ahead of each, if every one has one.\<close>

definition lastsOf :: "run_failures \<Rightarrow> (source_key \<times> failed_source) list \<Rightarrow> int \<Rightarrow> host_facts option \<Rightarrow> (source_key \<times> int) list option" where
  "lastsOf f opens step facts =
     (if list_all (\<lambda>(k, s). lastUnit f s step facts \<noteq> None) opens
      then Some (List.map_filter (\<lambda>(k, s). map_option (Pair k) (lastUnit f s step facts)) opens) else None)"

definition openSources :: "run_failures \<Rightarrow> source_key list \<Rightarrow> (source_key \<times> failed_source) list" where
  "openSources f ks =
     List.map_filter (\<lambda>k. case sourceOf f k of
         Some s \<Rightarrow> if fs_state s \<noteq> sourceHandled then Some (k, s) else None | None \<Rightarrow> None) ks"

definition decideHost ::
    "step_judge \<Rightarrow> 'r run_row \<Rightarrow> host_facts option \<Rightarrow> source_key list \<Rightarrow> bool \<Rightarrow> run_failures
     \<Rightarrow> run_failures \<times> failure_entry option" where
  "decideHost j hs facts fresh unitsOwn f =
     (let opens = openSources f fresh
      in if opens = [] then
           (if unitsOwn \<or> fresh \<noteq> [] then (f, None)
            else (f\<lparr>rf_sourceless := (rf_sourceless f)(SID hs := rf_sourceless f (SID hs) @ [j_step j])\<rparr>,
                  Some (judgeVerdict j hs [])))
         else case (if keeperFailedGroup j (SID hs) then None else lastsOf f opens (j_step j) facts) of
                Some ls \<Rightarrow> (holdHost (SID hs) facts (j_step j + 1) (holdSources (j_step j) ls f), None)
              | None \<Rightarrow> (foldl (onSource (judgeSource (j_step j))) f (map fst opens),
                         Some (judgeVerdict j hs (map snd opens))))"

section \<open>Return and sweep\<close>

definition rejoinPass :: "(int \<times> int) list \<Rightarrow> int \<Rightarrow> int \<Rightarrow> int" where
  "rejoinPass blocks heldFrom from =
     foldl (\<lambda>from (a, b). if a \<ge> heldFrom \<and> a < from \<and> b \<ge> from then b + 1 else from) from blocks"

text \<open>A pass that moved passed a block that was still going on.\<close>

lemma rejoinPass_ge: "from \<le> rejoinPass blocks heldFrom from"
proof (induction blocks arbitrary: "from")
  case (Cons b blocks)
  obtain x y where b: "b = (x, y)" by (cases b)
  let ?n = "if x \<ge> heldFrom \<and> x < from \<and> y \<ge> from then y + 1 else from"
  have "rejoinPass (b # blocks) heldFrom from = rejoinPass blocks heldFrom ?n" by (simp add: rejoinPass_def b)
  moreover have "?n \<le> rejoinPass blocks heldFrom ?n" by (rule Cons.IH)
  moreover have "from \<le> ?n" by simp
  ultimately show ?case by linarith
qed (simp add: rejoinPass_def)

lemma rejoinPass_moved:
  "rejoinPass blocks heldFrom from \<noteq> from \<Longrightarrow> \<exists>(a, b) \<in> set blocks. from \<le> b \<and> b < rejoinPass blocks heldFrom from"
proof (induction blocks)
  case (Cons b blocks)
  obtain x y where b: "b = (x, y)" by (cases b)
  show ?case
  proof (cases "x \<ge> heldFrom \<and> x < from \<and> y \<ge> from")
    case True
    then have "y + 1 \<le> rejoinPass (b # blocks) heldFrom from"
      using rejoinPass_ge [of "y + 1" blocks heldFrom] by (simp add: rejoinPass_def b)
    then show ?thesis using True by (auto simp: b)
  next
    case False
    then have "rejoinPass (b # blocks) heldFrom from = rejoinPass blocks heldFrom from"
      by (simp only: rejoinPass_def b foldl.simps case_prod_conv if_False)
    then show ?thesis using Cons by auto
  qed
qed (simp add: rejoinPass_def)

function rejoin :: "(int \<times> int) list \<Rightarrow> int \<Rightarrow> int \<Rightarrow> int" where
  "rejoin blocks heldFrom from =
     (let n = rejoinPass blocks heldFrom from in if n = from then from else rejoin blocks heldFrom n)"
  by pat_completeness auto
termination
proof (relation "measure (\<lambda>(blocks, heldFrom, from). length (filter (\<lambda>(a, b). from \<le> b) blocks))", simp)
  fix blocks :: "(int \<times> int) list" and heldFrom "from" n :: int
  assume n: "n = rejoinPass blocks heldFrom from" "n \<noteq> from"
  obtain a b where ab: "(a, b) \<in> set blocks" "from \<le> b" "b < n"
    using rejoinPass_moved [of blocks heldFrom "from"] n by auto
  have "filter (\<lambda>(a, b). n \<le> b) blocks = filter (\<lambda>(a, b). n \<le> b) (filter (\<lambda>(a, b). from \<le> b) blocks)"
    using rejoinPass_ge [of "from" blocks heldFrom] n(1) by (auto intro: filter_cong)
  moreover have "(a, b) \<in> set (filter (\<lambda>(a, b). from \<le> b) blocks)" "\<not> n \<le> b" using ab by auto
  ultimately have "length (filter (\<lambda>(a, b). n \<le> b) blocks) < length (filter (\<lambda>(a, b). from \<le> b) blocks)"
    by (metis (mono_tags, lifting) case_prod_conv length_filter_less)
  then show "((blocks, heldFrom, n), blocks, heldFrom, from) \<in>
      measure (\<lambda>(blocks, heldFrom, from). length (filter (\<lambda>(a, b). from \<le> b) blocks))" by simp
qed

declare rejoin.simps [simp del]

definition stateOf :: "run_failures \<Rightarrow> source_key \<Rightarrow> source_state" where
  "stateOf f k = (case sourceOf f k of None \<Rightarrow> sourceNew | Some s \<Rightarrow> fs_state s)"

definition returnHost :: "string \<Rightarrow> int \<Rightarrow> run_failures \<Rightarrow> run_failures" where
  "returnHost sid step f =
     (case hostOf f sid of
        None \<Rightarrow> f
      | Some h \<Rightarrow>
          (case openPeriod (Some h) of
             None \<Rightarrow> f
           | Some p \<Rightarrow>
               if list_ex (\<lambda>k. stateOf f k = sourceHeld \<or> stateOf f k = sourceJudged) (rf_bySID f sid) then f
               else setHost sid (setLast (\<lambda>p. p\<lparr>hp_returnedAt := Some (rejoin (rf_blocks f) (hp_heldFrom p) (step + 1))\<rparr>) h) f))"

definition dueSources :: "run_failures \<Rightarrow> string \<Rightarrow> int \<Rightarrow> (source_key \<times> failed_source) list" where
  "dueSources f sid step =
     sort_key (\<lambda>(k, s). hd (fs_members s))
       (List.map_filter (\<lambda>k. case sourceOf f k of
          Some s \<Rightarrow> if fs_state s = sourceHeld \<and> (case fs_lastUnit s of None \<Rightarrow> False | Some l \<Rightarrow> l \<le> step)
                     then Some (k, s) else None
        | None \<Rightarrow> None) (rf_bySID f sid))"

definition sweepHost :: "string \<Rightarrow> int \<Rightarrow> run_failures \<Rightarrow> run_failures \<times> failure_entry option" where
  "sweepHost sid step f =
     (let due = dueSources f sid step
      in case due of
           [] \<Rightarrow> (f, None)
         | d # ds \<Rightarrow>
             (let pick = (case find (\<lambda>s. fs_radius s \<noteq> OnFailureHost) (map snd due) of Some s \<Rightarrow> s | None \<Rightarrow> snd d)
              in (foldl (onSource (judgeSource step)) f (map fst due),
                  Some \<lparr>fe_step = step, fe_sid = sid, fe_task = fs_task pick, fe_radius = fs_radius pick,
                        fe_reason = fs_reason pick, fe_failedAt = Some (fs_failedAt pick),
                        fe_rescues = fs_unitErrs pick, fe_held = False\<rparr>)))"

section \<open>The barrier\<close>

text \<open>A unit row's failure is its units' where they fire.\<close>

definition failUnits :: "replayed \<Rightarrow> string \<Rightarrow> rescue_rule \<Rightarrow> rescue_rule \<times> int list" where
  "failUnits rp reason r =
     foldl (\<lambda>(r, us) u. if Fires r u
              then (Fail r (case rp_unitFirst rp u of None \<Rightarrow> 0 | Some i \<Rightarrow> i) reason, us @ [u]) else (r, us))
       (r, rp_unitsFailed rp) (rp_units rp)"

text \<open>The row was reported failed although every source of it reads handled: its first source is not.\<close>

definition reopenFirst :: "run_failures \<Rightarrow> source_key list \<Rightarrow> rescue_rule \<Rightarrow> rescue_rule" where
  "reopenFirst f fresh r =
     (case fresh of
        [] \<Rightarrow> r
      | k # _ \<Rightarrow>
          if list_ex (\<lambda>k. case sourceOf f k of None \<Rightarrow> False | Some s \<Rightarrow> list_ex (Held r) (fs_members s)) fresh then r
          else foldl Reopen r (case sourceOf f k of None \<Rightarrow> [] | Some s \<Rightarrow> fs_members s))"

definition judgeRow ::
    "step_judge \<Rightarrow> 'r run_row \<Rightarrow> host_facts option \<Rightarrow> run_failures \<Rightarrow> run_failures \<times> step_judge \<times> failure_entry option" where
  "judgeRow j hs facts f =
     (let sid = SID hs; failedHere = rowFailed (Status hs); reason = failureReason hs
      in if Status hs = StatusCancelled then (f, j, Some (judgeVerdict j hs []))
         else
           (let f0 = (if failedHere then f\<lparr>rf_failedRows := insert (sid, j_step j) (rf_failedRows f)\<rparr> else f)
            in if j_failedAt j = None \<and> j_executed j = None \<and> \<not> failedHere then (f0, j, None)
               else
                 (let (f1, r1, rp) = replay f0 j (ruleFor f0 sid) hs;
                      (r2, unitsFailed) =
                        (if failedHere \<and> rp_unitRow rp \<and> rp_unitsFailed rp = [] \<and> rp_sources rp = []
                         then failUnits rp reason r1 else (r1, rp_unitsFailed rp));
                      r3 = decideUnits f1 (j_step j) r2;
                      j1 = j\<lparr>j_decided := insert sid (j_decided j)\<rparr>;
                      (f2, fresh) = newSources j hs (filter (\<lambda>p. failedHere \<or> \<not> Held r3 p) (rp_sources rp)) f1;
                      r4 = (if failedHere then reopenFirst f2 fresh r3 else r3);
                      f3 = applyHandled sid (j_step j) (setRule sid r4 f2);
                      f4 = attachUnitFailures sid r4 unitsFailed (j_step j) reason f3;
                      f5 = recordUnitFails sid unitsFailed (j_step j) f4;
                      (f6, e1) = (if failedHere
                                  then decideHost j hs facts fresh (rp_unitRow rp \<and> unitsFailed \<noteq> []) f5 else (f5, None));
                      (f7, e2) = sweepHost sid (j_step j) (returnHost sid (j_step j) f6)
                  in (f7, j1,
                      case (e1, e2) of
                        (None, x) \<Rightarrow> x
                      | (Some a, None) \<Rightarrow> Some a
                      | (Some a, Some b) \<Rightarrow>
                          Some (if fe_radius a = OnFailureHost \<and> fe_radius b \<noteq> OnFailureHost then b else a)))))"

definition rowsToJudge :: "step_judge \<Rightarrow> 'r run_row list \<Rightarrow> 'r run_row list" where
  "rowsToJudge j rs =
     sort_key SID (filter (\<lambda>r. \<not> (Passage r \<noteq> j_step j \<or> SID r = KeeperTargetSID \<or> SID r = RunSentinelSID \<or>
       SID r \<in> j_replayed j \<or> \<not> rowTerminal (Status r) \<or> Status r = StatusNoMatch)) rs)"

fun judgeRows ::
    "(string \<Rightarrow> host_facts option) \<Rightarrow> 'r run_row list \<Rightarrow> step_judge \<Rightarrow> run_failures
     \<Rightarrow> run_failures \<times> step_judge \<times> failure_entry list" where
  "judgeRows facts [] j f = (f, j, [])"
| "judgeRows facts (r # rs) j f =
     (let j0 = j\<lparr>j_replayed := insert (SID r) (j_replayed j)\<rparr>;
          (f1, j1, e) = judgeRow j0 r (facts (SID r)) f;
          (f2, j2, es) = judgeRows facts rs j1 f1
      in (f2, j2, (case e of None \<Rightarrow> es | Some x \<Rightarrow> x # es)))"

fun sweepRules :: "string list \<Rightarrow> step_judge \<Rightarrow> run_failures \<Rightarrow> run_failures \<times> step_judge \<times> failure_entry list" where
  "sweepRules [] j f = (f, j, [])"
| "sweepRules (sid # sids) j f =
     (if sid \<in> j_decided j then sweepRules sids j f
      else
        (let j1 = j\<lparr>j_decided := insert sid (j_decided j)\<rparr>;
             f1 = setRule sid (decideUnits f (j_step j) (ruleFor f sid)) f;
             (f2, e) = sweepHost sid (j_step j) (returnHost sid (j_step j) (applyHandled sid (j_step j) f1));
             (f3, j2, es) = sweepRules sids j1 f2
         in (f3, j2, (case e of None \<Rightarrow> es | Some x \<Rightarrow> x # es))))"

definition barrier ::
    "step_judge \<Rightarrow> 'r run_row list \<Rightarrow> host_facts list \<Rightarrow> bool \<Rightarrow> run_failures
     \<Rightarrow> run_failures \<times> step_judge \<times> failure_entry list" where
  "barrier j rs roster isLast f =
     (let (f1, j1, es) = judgeRows (factsBySID roster) (rowsToJudge j rs) j f
      in if \<not> isLast then (f1, j1, es)
         else (let (f2, j2, es2) = sweepRules (sort (remdups (map fst (rf_rules f1)))) (j1\<lparr>j_swept := True\<rparr>) f1
               in (f2, j2, es @ es2)))"

end
