(* ===== verification/Fail_Policy.thy ===== *)
theory Fail_Policy
  imports Fail_State
begin

text \<open>
  The failure list of a linear run and its policy (\<^verbatim>\<open>keeper/internal/scenario/failure_policy.go\<close>), the barrier of one wave
  as a whole (\<^verbatim>\<open>judgeWave\<close>), and the state as a step sees it (\<^verbatim>\<open>failureView\<close> of \<^verbatim>\<open>failure_state.go\<close>). The reads of the audit log are
  the argument \<open>audit\<close>, absent without a reader; a read that fails ends the barrier with its error and is not modelled.
\<close>

section \<open>The failure list\<close>

datatype run_error =
  ErrListClosed nat
| ErrRunEnded
| ErrCancelledAfterEnd
| ErrFailures end_lead "failure_entry list"
| ErrOther string
| ErrJoin run_error run_error

text \<open>\<^verbatim>\<open>errors.Is\<close> on a sentinel.\<close>

fun errIs :: "run_error \<Rightarrow> run_error \<Rightarrow> bool" where
  "errIs (ErrJoin a b) e \<longleftrightarrow> errIs a e \<or> errIs b e"
| "errIs x e \<longleftrightarrow> x = e"

definition appendEntries :: "failure_entry list \<Rightarrow> run_failures \<Rightarrow> (run_error, run_failures) result" where
  "appendEntries es f =
     (if rf_closed f then Inl (ErrListClosed (length es)) else Inr (f\<lparr>rf_entries := rf_entries f @ es\<rparr>))"

definition heldEntry :: "source_key \<Rightarrow> failed_source \<Rightarrow> failure_entry" where
  "heldEntry k s =
     \<lparr>fe_step = fs_failedAt s, fe_sid = fst k, fe_task = fs_task s, fe_radius = fs_radius s, fe_reason = fs_reason s,
      fe_failedAt = None, fe_rescues = fs_unitErrs s, fe_held = True\<rparr>"

definition closeList :: "run_failures \<Rightarrow> run_failures" where
  "closeList f =
     (if rf_closed f then f
      else f\<lparr>rf_entries := rf_entries f @
              List.map_filter (\<lambda>k. case sourceOf f k of
                 Some s \<Rightarrow> if fs_state s = sourceHeld then Some (heldEntry k s) else None | None \<Rightarrow> None) (sourceKeys f),
            rf_closed := True\<rparr>)"

definition isDropped :: "run_failures \<Rightarrow> string \<Rightarrow> bool" where
  "isDropped f sid = (case hostOf f sid of None \<Rightarrow> False | Some h \<Rightarrow> hx_droppedAt h \<noteq> None)"

definition dropped_hosts :: "run_failures \<Rightarrow> string list" where
  "dropped_hosts f = map fst (filter (\<lambda>(sid, h). hx_droppedAt h \<noteq> None) (rf_hosts f))"

definition dropCount :: "run_failures \<Rightarrow> int" where
  "dropCount f = int (length (dropped_hosts f))"

definition drops :: "run_failures \<Rightarrow> string list" where
  "drops f = sort (dropped_hosts f)"

definition liveHosts :: "run_failures \<Rightarrow> host_facts list \<Rightarrow> host_facts list" where
  "liveHosts f roster =
     (if dropCount f = 0 then roster else filter (\<lambda>h. \<not> isDropped f (hf_sid h)) roster)"

definition errorOf :: "end_lead \<Rightarrow> run_failures \<Rightarrow> run_error" where
  "errorOf lead f = ErrFailures lead (rf_entries f)"

definition endRun :: "int \<Rightarrow> end_lead \<Rightarrow> run_failures \<Rightarrow> run_failures" where
  "endRun step lead f = f\<lparr>rf_ended := True, rf_endedAt := step, rf_endLead := lead\<rparr>"

text \<open>The hosts verdicts drop under radius \<open>host\<close>; the entries are those dropped now.\<close>

fun dropVerdicts ::
    "(string \<Rightarrow> host_facts option) \<Rightarrow> failure_entry list \<Rightarrow> run_failures \<Rightarrow> run_failures \<times> failure_entry list" where
  "dropVerdicts facts [] f = (f, [])"
| "dropVerdicts facts (v # vs) f =
     (if fe_radius v \<noteq> OnFailureHost then dropVerdicts facts vs f
      else
        (let h = (case hostOf f (fe_sid v) of
                    None \<Rightarrow> \<lparr>hx_facts = factsOr (facts (fe_sid v)) (fe_sid v), hx_periods = [], hx_droppedAt = None\<rparr>
                  | Some h \<Rightarrow> h)
         in if hx_droppedAt h \<noteq> None then dropVerdicts facts vs f
            else (let (f', out) = dropVerdicts facts vs (setHost (fe_sid v) (h\<lparr>hx_droppedAt := Some (fe_step v + 1)\<rparr>) f)
                  in (f', v # out))))"

definition dropHosts :: "failure_entry list \<Rightarrow> host_facts list \<Rightarrow> run_failures \<Rightarrow> run_failures \<times> failure_entry list" where
  "dropHosts vs roster f = dropVerdicts (factsBySID roster) vs f"

definition freshDrops :: "run_failures \<Rightarrow> failure_entry list \<Rightarrow> int" where
  "freshDrops f vs = int (length (filter (\<lambda>v. \<not> isDropped f (fe_sid v)) vs))"

text \<open>The end a policy without a Cancel gives verdicts, if it ends the run.\<close>

definition policyEnd ::
    "int \<Rightarrow> failure_entry list \<Rightarrow> barrier_owner \<Rightarrow> int \<Rightarrow> host_facts list \<Rightarrow> run_failures \<Rightarrow> end_lead option" where
  "policyEnd step vs owner nreached roster f =
     (case find (\<lambda>v. fe_radius v \<noteq> OnFailureHost) vs of
        Some v \<Rightarrow> Some (LeadStepFailed (fe_step v))
      | None \<Rightarrow>
          (let fresh = freshDrops f vs; out = dropCount f + fresh
           in if fresh > 0 \<and> int (length (liveHosts f roster)) - fresh \<le> 0 then Some (LeadNoHostLeft step)
              else case bo_tolerate owner of
                     None \<Rightarrow> None
                   | Some t \<Rightarrow> if out > 0 \<and> Exceeded t out nreached
                               then Some (LeadTolerate out (Limit t nreached) nreached) else None))"

definition settle_verdicts ::
    "int \<Rightarrow> failure_entry list \<Rightarrow> barrier_owner \<Rightarrow> int \<Rightarrow> host_facts list \<Rightarrow> run_failures
     \<Rightarrow> run_failures \<times> (run_error, failure_entry list) result" where
  "settle_verdicts step vs owner nreached roster f0 =
     (case appendEntries vs f0 of
        Inl e \<Rightarrow> (f0, Inl e)
      | Inr f \<Rightarrow>
          (case find (\<lambda>v. fe_radius v = radiusCancelled) vs of
             Some v \<Rightarrow> (f, Inl (if rf_ended f then ErrCancelledAfterEnd else errorOf (LeadStepFailed (fe_step v)) f))
           | None \<Rightarrow>
               if rf_ended f then (case dropHosts vs roster f of (f', out) \<Rightarrow> (f', Inr out))
               else (case policyEnd step vs owner nreached roster f of
                       Some lead \<Rightarrow> (endRun step lead f, Inl ErrRunEnded)
                     | None \<Rightarrow> (case dropHosts vs roster f of (f', out) \<Rightarrow> (f', Inr out)))))"

section \<open>The marks on rows\<close>

definition droppedRows :: "run_failures \<Rightarrow> string \<Rightarrow> int list" where
  "droppedRows f sid =
     remdups_adj (sort (rf_sourceless f sid @
       concat (map (\<lambda>k. case sourceOf f k of
           Some s \<Rightarrow> if fs_state s = sourceJudged then fs_rows s else [] | None \<Rightarrow> []) (rf_bySID f sid))))"

text \<open>Every row of every source, in the order of the keys, with whether the source is handled.\<close>

definition rowsOfSources :: "run_failures \<Rightarrow> (run_row_key \<times> bool) list" where
  "rowsOfSources f =
     concat (map (\<lambda>k. case sourceOf f k of
        Some s \<Rightarrow> map (\<lambda>step. ((fst k, step), fs_state s = sourceHandled)) (fs_rows s) | None \<Rightarrow> []) (sourceKeys f))"

definition handledMap :: "run_failures \<Rightarrow> (run_row_key \<times> bool) list" where
  "handledMap f =
     foldl (\<lambda>m (row, h). if row \<notin> rf_failedRows f then m
              else AList.update row ((case map_of m row of None \<Rightarrow> True | Some a \<Rightarrow> a) \<and> h) m) [] (rowsOfSources f)"

definition handledRows :: "run_failures \<Rightarrow> run_row_key list" where
  "handledRows f =
     sort (map fst (filter (\<lambda>(row, a). a \<and> snd row \<notin> set (rf_sourceless f (fst row))) (handledMap f)))"

section \<open>The end of a run\<close>

definition withEnd :: "run_error \<Rightarrow> run_failures \<Rightarrow> run_failures \<times> run_error" where
  "withEnd cause f =
     (let f' = closeList f; lst = errorOf (rf_endLead f') f'
      in (f', if errIs cause ErrRunEnded \<or> errIs cause ErrCancelledAfterEnd then lst else ErrJoin cause lst))"

definition joinErr :: "run_error option \<Rightarrow> run_error \<Rightarrow> run_error" where
  "joinErr cause e = (case cause of None \<Rightarrow> e | Some c \<Rightarrow> ErrJoin c e)"

definition withHeld :: "run_error option \<Rightarrow> run_failures \<Rightarrow> run_failures \<times> run_error option" where
  "withHeld cause f =
     (if rf_closed f then (f, cause)
      else (let f' = closeList f
            in if length (rf_entries f') = length (rf_entries f) then (f', cause)
               else (f', Some (joinErr cause (errorOf LeadHeld f')))))"

text \<open>What \<^verbatim>\<open>finishPartial\<close> marks: the rows a rescue handled, the rows the dropped hosts left by, and its error.\<close>

definition finishPartial :: "run_failures \<Rightarrow> run_failures \<times> run_row_key list \<times> run_row_key list \<times> run_error" where
  "finishPartial f =
     (let f' = closeList f; ds = drops f'
      in (f', handledRows f', concat (map (\<lambda>sid. map (Pair sid) (droppedRows f' sid)) ds),
          errorOf (LeadWithout (int (length ds))) f'))"

section \<open>What a host missed\<close>

definition missedRegister :: "rendered_task \<Rightarrow> struct" where
  "missedRegister t =
     (if rt_aggregateOf t \<noteq> [] then (keeperRecordRegister TS_SKIPPED)(''skipped'' \<mapsto> VBool False)
      else keeperRecordRegister TS_SKIPPED)"

definition missOne :: "int \<Rightarrow> rendered_task \<Rightarrow> run_failures \<Rightarrow> string \<Rightarrow> run_failures" where
  "missOne step t f sid =
     (case hostOf f sid of
        None \<Rightarrow> f
      | Some h \<Rightarrow>
          (case heldAt (Some h) step of
             None \<Rightarrow> f
           | Some _ \<Rightarrow>
               setHost sid (setLast (\<lambda>p. p\<lparr>hp_missed := (hp_missed p)(rt_register t \<mapsto> missedRegister t)\<rparr>) h) f))"

definition recordMissed :: "int \<Rightarrow> rendered_task list \<Rightarrow> dispatch_plan list \<Rightarrow> run_failures \<Rightarrow> run_failures" where
  "recordMissed step ts plans f =
     foldl (\<lambda>f pl. case taskByIndex ts (pl_taskIndex pl) of
               None \<Rightarrow> f
             | Some t \<Rightarrow> if rt_register t = [] then f else foldl (missOne step t) f (pl_notReached pl)) f plans"

text \<open>The records written for the tasks a held or dropped host does not receive.\<close>

definition notReachedByHost :: "rendered_task list \<Rightarrow> dispatch_plan list \<Rightarrow> per_host" where
  "notReachedByHost ts plans =
     foldl (\<lambda>ph pl. case taskByIndex ts (pl_taskIndex pl) of
               None \<Rightarrow> ph | Some t \<Rightarrow> foldl (addTask t) ph (pl_notReached pl)) [] plans"

definition writeNotReached :: "int \<Rightarrow> rendered_task list \<Rightarrow> dispatch_plan list \<Rightarrow> (string \<times> sent_event) list" where
  "writeNotReached p ts plans =
     (let ph = notReachedByHost ts plans
      in concat (map (\<lambda>sid. let hs = (case map_of ph sid of None \<Rightarrow> [] | Some x \<Rightarrow> x)
           in map (\<lambda>(i, t). (sid, \<lparr>se_plan = rt_index t, se_passage = p,
                se_event = \<lparr>ev_idx = int i, ev_status = TS_SKIPPED, ev_error = None, ev_register = None, ev_notices = []\<rparr>\<rparr>))
              (zip [0..<length hs] hs)) (sortedSIDs ph)))"

section \<open>One barrier\<close>

record audit_facts =
  af_failed :: key_facts
  af_executed :: key_facts
  af_reported :: "key_facts option"
  af_written :: "string \<Rightarrow> int \<Rightarrow> bool"

definition readFacts :: "audit_facts option \<Rightarrow> 'r run_row list \<Rightarrow> run_failures \<Rightarrow> step_judge \<Rightarrow> step_judge" where
  "readFacts audit rs f j =
     (case audit of
        None \<Rightarrow> j
      | Some a \<Rightarrow>
          if hasFailureToJudge j rs \<or> anyHeldSource f \<or> anyFailed f \<and> decidesAt f (j_step j)
          then j\<lparr>j_failedAt := Some (af_failed a), j_executed := (if carriesUnit j then Some (af_executed a) else j_executed j)\<rparr>
          else j)"

definition noteUnreported :: "audit_facts option \<Rightarrow> 'r run_row list \<Rightarrow> step_judge \<Rightarrow> step_judge" where
  "noteUnreported audit rs j =
     (case audit of
        None \<Rightarrow> j
      | Some a \<Rightarrow>
          (case af_reported a of
             None \<Rightarrow> j
           | Some ks \<Rightarrow>
               (let new = recordUnreported j rs ks (af_written a)
                in j\<lparr>j_recorded := {(sid, i). (sid, i) \<in> j_recorded j \<and> sid \<notin> fst ` new} \<union> new\<rparr>)))"

definition judgeWave ::
    "audit_facts option \<Rightarrow> 'r run_row list \<Rightarrow> host_facts list \<Rightarrow> bool \<Rightarrow> step_judge \<Rightarrow> run_failures
     \<Rightarrow> run_failures \<times> step_judge \<times> (run_error, failure_entry list) result" where
  "judgeWave audit rs roster isLast j f =
     (let (f1, j1, vs) = barrier (noteUnreported audit rs (readFacts audit rs f j)) rs roster isLast f;
          (f2, res) = settle_verdicts (j_step j) vs (j_owner j) (reachedHosts rs) roster f1
      in (f2, j1, res))"

definition sweepStep ::
    "audit_facts option \<Rightarrow> 'r run_row list \<Rightarrow> host_facts list \<Rightarrow> step_judge \<Rightarrow> run_failures
     \<Rightarrow> run_failures \<times> step_judge \<times> (run_error, failure_entry list) result" where
  "sweepStep audit rs roster j f =
     (if j_swept j \<or> \<not> holdsUnits f then (f, j, Inr []) else judgeWave audit rs roster True j f)"

definition needsRescueHold :: "bool \<Rightarrow> (int \<times> string list) list \<Rightarrow> run_failures \<Rightarrow> bool" where
  "needsRescueHold crossStepUnit rescueSteps f \<longleftrightarrow> crossStepUnit \<or> rescueSteps \<noteq> [] \<and> anyFailed f"

section \<open>The state as a step sees it\<close>

record failure_view =
  fv_step :: int
  fv_ended :: bool
  fv_endedAt :: int
  fv_roster :: "host_facts list"
  fv_hosts :: "(string \<times> host_failures) list"
  fv_sources :: "(source_key \<times> failed_source) list"
  fv_unitFails :: "string \<Rightarrow> string \<Rightarrow> int option"

fun mergeRoster :: "(string \<Rightarrow> bool) \<Rightarrow> host_facts list \<Rightarrow> host_facts list \<Rightarrow> host_facts list" where
  "mergeRoster isAway left [] = left"
| "mergeRoster isAway left (h # hs) =
     (if isAway (hf_sid h) then mergeRoster isAway left hs
      else takeWhile (\<lambda>l. hf_sid l < hf_sid h) left @ h # mergeRoster isAway (dropWhile (\<lambda>l. hf_sid l < hf_sid h) left) hs)"

definition runRoster :: "host_facts list \<Rightarrow> (string \<times> host_facts) list \<Rightarrow> host_facts list" where
  "runRoster roster aw =
     (if aw = [] then roster
      else mergeRoster (\<lambda>sid. map_of aw sid \<noteq> None) (sort_key hf_sid (map snd aw)) roster)"

definition viewHosts :: "run_failures \<Rightarrow> int \<Rightarrow> (string \<times> host_failures) list" where
  "viewHosts f step =
     List.map_filter (\<lambda>(sid, h). case atStep h step of (h', changed) \<Rightarrow> if changed then Some (sid, h') else None) (rf_hosts f)"

definition viewSource :: "int \<Rightarrow> failed_source \<Rightarrow> failed_source" where
  "viewSource step s = (if fs_changedAt s \<ge> step then s\<lparr>fs_state := sourceHeld\<rparr> else s)"

definition viewSources :: "run_failures \<Rightarrow> int \<Rightarrow> (source_key \<times> failed_source) list" where
  "viewSources f step =
     map (\<lambda>(k, s). (k, viewSource step s)) (filter (\<lambda>(k, s). fs_failedAt s < step) (rf_sources f))"

definition viewAt :: "run_failures \<Rightarrow> int \<Rightarrow> failure_view" where
  "viewAt f step =
     (let hs = viewHosts f step
      in \<lparr>fv_step = step, fv_ended = (rf_ended f \<and> rf_endedAt f < step), fv_endedAt = rf_endedAt f,
          fv_roster = runRoster (rf_roster f) (map (\<lambda>(sid, h). (sid, hx_facts h)) (filter (\<lambda>(sid, h). away h) hs)),
          fv_hosts = hs, fv_sources = viewSources f step,
          fv_unitFails = (\<lambda>sid key. case rf_unitFails f sid key of
             None \<Rightarrow> None | Some a \<Rightarrow> if a \<ge> step then None else Some a)\<rparr>)"

definition viewUnitFailed :: "failure_view \<Rightarrow> string \<Rightarrow> string \<Rightarrow> bool" where
  "viewUnitFailed v sid key \<longleftrightarrow> fv_unitFails v sid key \<noteq> None"

datatype standing = HostLive | HostHeld | HostDropped

definition standingOf :: "failure_view \<Rightarrow> string \<Rightarrow> standing" where
  "standingOf v sid =
     (case map_of (fv_hosts v) sid of
        None \<Rightarrow> HostLive
      | Some h \<Rightarrow> if hx_droppedAt h \<noteq> None then HostDropped
                  else if hp_returnedAt (last (hx_periods h)) = None then HostHeld else HostLive)"

definition splitHosts :: "failure_view \<Rightarrow> host_facts list \<times> host_facts list \<times> host_facts list" where
  "splitHosts v =
     (if fv_hosts v = [] then (fv_roster v, [], [])
      else (filter (\<lambda>h. standingOf v (hf_sid h) = HostLive) (fv_roster v),
            filter (\<lambda>h. standingOf v (hf_sid h) = HostHeld) (fv_roster v),
            filter (\<lambda>h. standingOf v (hf_sid h) = HostDropped) (fv_roster v)))"

definition allHosts :: "failure_view \<Rightarrow> host_facts list" where
  "allHosts v = (case splitHosts v of (l, h, d) \<Rightarrow> l @ h @ d)"

record rescue_view =
  rv_ended :: bool
  rv_endedAt :: int
  rv_failed :: "string \<Rightarrow> string \<Rightarrow> int option"
  rv_failedUnits :: "string \<Rightarrow> string \<Rightarrow> int option"
  rv_handledAt :: "string \<Rightarrow> string \<Rightarrow> int option"

definition namesOf :: "failed_source \<Rightarrow> string list" where
  "namesOf s = filter (\<lambda>n. n \<noteq> []) [fs_register s, fs_applier s]"

definition failedFirst :: "failure_view \<Rightarrow> string \<Rightarrow> string \<Rightarrow> int option" where
  "failedFirst v sid name =
     foldl (\<lambda>acc (k, s). if fst k = sid \<and> name \<in> set (namesOf s)
              then (case acc of None \<Rightarrow> Some (fs_failedAt s) | Some a \<Rightarrow> if fs_failedAt s < a then Some (fs_failedAt s) else acc)
              else acc) None (fv_sources v)"

definition handledLast :: "failure_view \<Rightarrow> string \<Rightarrow> string \<Rightarrow> int option" where
  "handledLast v sid name =
     (let ss = map snd (filter (\<lambda>(k, s). fst k = sid \<and> name \<in> set (namesOf s)) (fv_sources v))
      in if list_ex (\<lambda>s. fs_state s \<noteq> sourceHandled) ss then None
         else foldl (\<lambda>acc s. case acc of None \<Rightarrow> Some (fs_changedAt s)
                       | Some a \<Rightarrow> if fs_changedAt s > a then Some (fs_changedAt s) else acc) None ss)"

definition rescueView :: "failure_view \<Rightarrow> rescue_view option" where
  "rescueView v =
     (if \<not> fv_ended v \<and> fv_hosts v = [] then None
      else Some \<lparr>rv_ended = fv_ended v, rv_endedAt = fv_endedAt v, rv_failed = failedFirst v,
                 rv_failedUnits = fv_unitFails v, rv_handledAt = handledLast v\<rparr>)"

definition unhandledKeys :: "failure_view \<Rightarrow> task_key set" where
  "unhandledKeys v =
     set (concat (map (\<lambda>(k, s). if fs_state s = sourceHandled then [] else map (Pair (fst k)) (fs_members s)) (fv_sources v)))"

end
