(* ===== verification/Fail_Moves.thy ===== *)
theory Fail_Moves
  imports Fail_Policy
begin

text \<open>
  What the operations of a barrier change of the failure state: the sources of one host, its standing and its
  rule. A source changes its state once, from held to handled or judged, and keeps what it was recorded with.
\<close>

section \<open>Changes of sources\<close>

definition app :: "('a \<Rightarrow> 'a option) \<Rightarrow> 'a \<Rightarrow> 'a" where
  "app g s = (case g s of None \<Rightarrow> s | Some s' \<Rightarrow> s')"

lemma sourceOf_setSource [simp]: "sourceOf (setSource k s f) k' = (if k' = k then Some s else sourceOf f k')"
  by (simp add: sourceOf_def setSource_def update_conv')

lemma setSource_fields [simp]:
  "rf_hosts (setSource k s f) = rf_hosts f" "rf_bySID (setSource k s f) = rf_bySID f"
  "rf_rules (setSource k s f) = rf_rules f" "rf_covers (setSource k s f) = rf_covers f"
  "rf_blocks (setSource k s f) = rf_blocks f" "rf_unitFails (setSource k s f) = rf_unitFails f"
  "rf_entries (setSource k s f) = rf_entries f" "rf_closed (setSource k s f) = rf_closed f"
  "rf_roster (setSource k s f) = rf_roster f" "rf_ended (setSource k s f) = rf_ended f"
  "rf_endedAt (setSource k s f) = rf_endedAt f" "rf_sourceless (setSource k s f) = rf_sourceless f"
  "rf_failedRows (setSource k s f) = rf_failedRows f" "rf_unitSteps (setSource k s f) = rf_unitSteps f"
  "rf_unitKeys (setSource k s f) = rf_unitKeys f" "rf_endLead (setSource k s f) = rf_endLead f"
  by (simp_all add: setSource_def)

lemma sourceOf_onSource:
  "sourceOf (onSource g f k) k' = (if k' = k then map_option (app g) (sourceOf f k') else sourceOf f k')"
  by (simp add: onSource_def app_def split: option.split)

lemma onSource_fields [simp]:
  "rf_hosts (onSource g f k) = rf_hosts f" "rf_bySID (onSource g f k) = rf_bySID f"
  "rf_rules (onSource g f k) = rf_rules f" "rf_covers (onSource g f k) = rf_covers f"
  "rf_blocks (onSource g f k) = rf_blocks f" "rf_unitFails (onSource g f k) = rf_unitFails f"
  "rf_entries (onSource g f k) = rf_entries f" "rf_closed (onSource g f k) = rf_closed f"
  "rf_roster (onSource g f k) = rf_roster f" "rf_ended (onSource g f k) = rf_ended f"
  "rf_endedAt (onSource g f k) = rf_endedAt f" "rf_sourceless (onSource g f k) = rf_sourceless f"
  "rf_failedRows (onSource g f k) = rf_failedRows f" "rf_unitSteps (onSource g f k) = rf_unitSteps f"
  "rf_unitKeys (onSource g f k) = rf_unitKeys f" "rf_endLead (onSource g f k) = rf_endLead f"
  by (simp_all add: onSource_def split: option.split)

lemma onSources_fields [simp]:
  "rf_hosts (foldl (onSource g) f ks) = rf_hosts f" "rf_bySID (foldl (onSource g) f ks) = rf_bySID f"
  "rf_rules (foldl (onSource g) f ks) = rf_rules f" "rf_covers (foldl (onSource g) f ks) = rf_covers f"
  "rf_blocks (foldl (onSource g) f ks) = rf_blocks f" "rf_unitFails (foldl (onSource g) f ks) = rf_unitFails f"
  "rf_entries (foldl (onSource g) f ks) = rf_entries f" "rf_closed (foldl (onSource g) f ks) = rf_closed f"
  "rf_roster (foldl (onSource g) f ks) = rf_roster f" "rf_ended (foldl (onSource g) f ks) = rf_ended f"
  "rf_endedAt (foldl (onSource g) f ks) = rf_endedAt f" "rf_sourceless (foldl (onSource g) f ks) = rf_sourceless f"
  "rf_failedRows (foldl (onSource g) f ks) = rf_failedRows f" "rf_unitSteps (foldl (onSource g) f ks) = rf_unitSteps f"
  "rf_unitKeys (foldl (onSource g) f ks) = rf_unitKeys f" "rf_endLead (foldl (onSource g) f ks) = rf_endLead f"
  by (induction ks arbitrary: f) simp_all

lemma sourceOf_onSources_other: "k \<notin> set ks \<Longrightarrow> sourceOf (foldl (onSource g) f ks) k = sourceOf f k"
  by (induction ks arbitrary: f) (simp_all add: sourceOf_onSource)

text \<open>A change that is the same done twice is done once.\<close>

lemma sourceOf_onSources:
  assumes "\<And>s. app g (app g s) = app g s"
  shows "sourceOf (foldl (onSource g) f ks) k = (if k \<in> set ks then map_option (app g) (sourceOf f k) else sourceOf f k)"
proof (induction ks arbitrary: f)
  case (Cons x ks)
  then show ?case using assms by (cases "sourceOf f k") (auto simp: sourceOf_onSource)
qed simp

lemma onSources_rel:
  assumes "\<And>s. R s s" "\<And>a b c. R a b \<Longrightarrow> R b c \<Longrightarrow> R a c" "\<And>s. R s (app g s)"
  shows "rel_option R (sourceOf f k) (sourceOf (foldl (onSource g) f ks) k)"
proof (induction ks arbitrary: f)
  case Nil
  then show ?case using assms(1) by (cases "sourceOf f k") auto
next
  case (Cons x ks)
  have "rel_option R (sourceOf f k) (sourceOf (onSource g f x) k)"
    using assms(1,3) by (cases "sourceOf f k") (auto simp: sourceOf_onSource)
  with Cons [of "onSource g f x"] show ?case
    by (cases "sourceOf f k"; cases "sourceOf (onSource g f x) k"; cases "sourceOf (foldl (onSource g) (onSource g f x) ks) k")
      (auto intro: assms(2))
qed

section \<open>How a source grows\<close>

text \<open>What a barrier at step \<open>n\<close> may do to a source that was there.\<close>

definition grown :: "int \<Rightarrow> failed_source \<Rightarrow> failed_source \<Rightarrow> bool" where
  "grown n s s' \<longleftrightarrow>
     fs_failedAt s' = fs_failedAt s \<and> fs_register s' = fs_register s \<and> fs_applier s' = fs_applier s \<and>
     (fs_failedAt s \<noteq> n \<longrightarrow> fs_members s' = fs_members s) \<and>
     (fs_state s' = fs_state s \<and> fs_changedAt s' = fs_changedAt s \<or>
      fs_changedAt s' = n \<and> fs_state s \<noteq> sourceHandled \<and> fs_state s \<noteq> sourceJudged)"

lemma grown_refl [simp]: "grown n s s"
  by (simp add: grown_def)

lemma grown_trans: "grown n a b \<Longrightarrow> grown n b c \<Longrightarrow> grown n a c"
  by (auto simp: grown_def)

lemma app_handled [simp]:
  "app (\<lambda>s. if P s then None else Some (h s)) s = (if P s then s else h s)"
  by (simp add: app_def)

lemma app_Some [simp]: "app (\<lambda>s. Some (h s)) s = h s" "app (judgeSource n) s = s\<lparr>fs_state := sourceJudged, fs_changedAt := n\<rparr>"
  by (simp_all add: app_def judgeSource_def)

section \<open>New sources\<close>

lemma newSourcesLoop_fields:
  "newSourcesLoop j hs w is byReg out f = (f', ks) \<Longrightarrow>
     rf_hosts f' = rf_hosts f \<and> rf_rules f' = rf_rules f \<and> rf_covers f' = rf_covers f \<and> rf_blocks f' = rf_blocks f \<and>
     rf_unitFails f' = rf_unitFails f \<and> rf_entries f' = rf_entries f \<and> rf_closed f' = rf_closed f \<and>
     rf_roster f' = rf_roster f \<and> rf_ended f' = rf_ended f \<and> rf_endedAt f' = rf_endedAt f \<and>
     rf_sourceless f' = rf_sourceless f \<and> rf_failedRows f' = rf_failedRows f \<and> rf_endLead f' = rf_endLead f"
proof (induction "is" arbitrary: byReg out f)
  case (Cons i "is")
  then show ?case
    by (auto simp: Let_def split: option.splits if_splits)
qed simp

definition bornIn :: "step_judge \<Rightarrow> string \<Rightarrow> int set \<Rightarrow> run_failures \<Rightarrow> source_key \<Rightarrow> bool" where
  "bornIn j sid M f k \<longleftrightarrow>
     (\<exists>s. sourceOf f k = Some s \<and> fst k = sid \<and> fs_state s = sourceNew \<and> fs_failedAt s = j_step j \<and>
       fs_changedAt s = j_step j \<and> set (fs_members s) \<subseteq> M \<and> fs_members s \<noteq> [] \<and> fs_rows s = [j_step j])"

lemma bornIn_cong: "sourceOf f k = sourceOf g k \<Longrightarrow> bornIn j sid M f k = bornIn j sid M g k"
  by (simp add: bornIn_def)

lemma bornIn_member:
  assumes "bornIn j sid M f k" "sourceOf f k = Some s" "i \<in> M"
  shows "bornIn j sid M (setSource k (s\<lparr>fs_members := fs_members s @ [i]\<rparr>) f) k"
  using assms by (auto simp: bornIn_def)

lemma bornIn_fresh: "i \<in> M \<Longrightarrow> bornIn j (SID hs) M (setSource (SID hs, i) (freshSource j hs w i t) f) (SID hs, i)"
  by (simp add: bornIn_def freshSource_def)

text \<open>
  The keys listed are new, of the host, and hold sources of this step in the zero state; every other source is
  as it was; the order of the host is extended by the keys.
\<close>

definition listsNew ::
    "step_judge \<Rightarrow> string \<Rightarrow> int set \<Rightarrow> run_failures \<Rightarrow> run_failures \<Rightarrow> source_key list \<Rightarrow> source_key list \<Rightarrow> bool" where
  "listsNew j sid M f f' out ks \<longleftrightarrow>
     (\<exists>new. ks = out @ new \<and> (\<forall>k. k \<notin> set ks \<longrightarrow> sourceOf f' k = sourceOf f k) \<and>
       (\<forall>k \<in> set new. sourceOf f k = None) \<and> (\<forall>k \<in> set ks. bornIn j sid M f' k) \<and> distinct new \<and>
       rf_bySID f' = (rf_bySID f)(sid := rf_bySID f sid @ new))"

lemma listsNew_cons:
  assumes "listsNew j sid M f2 f' (out @ [key]) ks" "sourceOf f key = None" "sourceOf f2 key \<noteq> None"
    and "\<And>k. k \<noteq> key \<Longrightarrow> sourceOf f2 k = sourceOf f k"
    and "rf_bySID f2 = (rf_bySID f)(sid := rf_bySID f sid @ [key])"
  shows "listsNew j sid M f f' out ks"
proof -
  obtain new where new: "ks = (out @ [key]) @ new" "\<forall>k. k \<notin> set ks \<longrightarrow> sourceOf f' k = sourceOf f2 k"
      "\<forall>k \<in> set new. sourceOf f2 k = None" "\<forall>k \<in> set ks. bornIn j sid M f' k" "distinct new"
      "rf_bySID f' = (rf_bySID f2)(sid := rf_bySID f2 sid @ new)"
    using assms(1) unfolding listsNew_def by blast
  have k: "key \<notin> set new" using new(3) assms(3) by auto
  have "\<forall>k. k \<notin> set ks \<longrightarrow> sourceOf f' k = sourceOf f k"
    using new(1,2) assms(4) by auto
  moreover have "\<forall>k \<in> set (key # new). sourceOf f k = None"
    using new(3) assms(2,4) k by (metis set_ConsD)
  moreover have "rf_bySID f' = (rf_bySID f)(sid := rf_bySID f sid @ (key # new))"
    using new(6) assms(5) by auto
  ultimately show ?thesis
    unfolding listsNew_def using new(1,4,5) k by (intro exI [of _ "key # new"]) auto
qed

lemma newSourcesLoop_sources:
  assumes "newSourcesLoop j hs w is byReg out f = (f', ks)"
    and "\<And>r k. byReg r = Some k \<Longrightarrow> k \<in> set out" and "\<And>k. k \<in> set out \<Longrightarrow> bornIn j (SID hs) M f k" and "set is \<subseteq> M"
  shows "listsNew j (SID hs) M f f' out ks"
  using assms
proof (induction "is" arbitrary: byReg out f)
  case Nil
  then show ?case by (auto simp: listsNew_def)
next
  case (Cons i "is")
  note hyp = Cons.prems
  show ?case
  proof (cases "byIndex j i")
    case None
    show ?thesis by (rule Cons.IH [of byReg out f]) (use hyp None in auto)
  next
    case (Some t)
    note t = Some
    show ?thesis
    proof (cases "if rt_register t \<noteq> [] then byReg (rt_register t) else None")
      case (Some k)
      then have k: "k \<in> set out" using hyp(2) by (auto split: if_splits)
      obtain s where s: "sourceOf f k = Some s" using hyp(3) [OF k] by (auto simp: bornIn_def)
      let ?f1 = "setSource k (s\<lparr>fs_members := fs_members s @ [i]\<rparr>) f"
      have run: "newSourcesLoop j hs w is byReg out ?f1 = (f', ks)" using hyp(1) t Some s by simp
      have born: "bornIn j (SID hs) M ?f1 k'" if "k' \<in> set out" for k'
      proof (cases "k' = k")
        case True
        then show ?thesis using bornIn_member [OF hyp(3) [OF k] s] hyp(4) by simp
      next
        case False
        then show ?thesis using hyp(3) [OF that] bornIn_cong [of ?f1 k' f] by simp
      qed
      have "listsNew j (SID hs) M ?f1 f' out ks" by (rule Cons.IH [OF run]) (use hyp(2,4) born in auto)
      moreover have "sourceOf f k' = None \<longleftrightarrow> sourceOf ?f1 k' = None" for k' using s by simp
      ultimately show ?thesis using k unfolding listsNew_def by fastforce
    next
      case None
      show ?thesis
      proof (cases "sourceOf f (SID hs, i) \<noteq> None")
        case True
        have "newSourcesLoop j hs w is byReg out f = (f', ks)" using hyp(1) t None True by (simp add: Let_def)
        then show ?thesis by (rule Cons.IH) (use hyp in auto)
      next
        case False
        let ?key = "(SID hs, i)"
        let ?f1 = "setSource ?key (freshSource j hs w i t) f"
        let ?f2 = "?f1\<lparr>rf_bySID := (rf_bySID ?f1)(SID hs := rf_bySID ?f1 (SID hs) @ [?key])\<rparr>"
        let ?reg = "if rt_register t \<noteq> [] then byReg(rt_register t \<mapsto> ?key) else byReg"
        have look: "sourceOf ?f2 k' = sourceOf ?f1 k'" for k' by (simp add: sourceOf_def)
        have run: "newSourcesLoop j hs w is ?reg (out @ [?key]) ?f2 = (f', ks)"
          using hyp(1) t None False by (simp add: Let_def)
        have reg: "?reg r = Some k' \<Longrightarrow> k' \<in> set (out @ [?key])" for r k'
          using hyp(2) [of r k'] by (auto split: if_splits)
        have born: "bornIn j (SID hs) M ?f2 k'" if "k' \<in> set (out @ [?key])" for k'
        proof (cases "k' = ?key")
          case True
          then show ?thesis using bornIn_fresh [where i = i and M = M and j = j and hs = hs and f = f and w = w and t = t] hyp(4) bornIn_cong [OF look] by simp
        next
          case False
          then have k': "k' \<in> set out" and same: "sourceOf ?f2 k' = sourceOf f k'" using that look by auto
          show ?thesis unfolding bornIn_cong [OF same] by (rule hyp(3) [OF k'])
        qed
        have sub: "set is \<subseteq> M" using hyp(4) by simp
        have "listsNew j (SID hs) M ?f2 f' (out @ [?key]) ks"
          by (rule Cons.IH [OF run reg born sub])
        then show ?thesis
        proof (rule listsNew_cons)
          show "sourceOf f ?key = None" using False by simp
          show "sourceOf ?f2 ?key \<noteq> None" unfolding look by simp
          show "sourceOf ?f2 k' = sourceOf f k'" if "k' \<noteq> ?key" for k' using that unfolding look by simp
          show "rf_bySID ?f2 = (rf_bySID f)(SID hs := rf_bySID f (SID hs) @ [?key])" by simp
        qed
      qed
    qed
  qed
qed

lemma newSources_sources:
  assumes "newSources j hs ps f = (f', ks)"
  shows "listsNew j (SID hs) (set ps) f f' [] ks"
proof (cases "ps = []")
  case True
  then show ?thesis using assms by (auto simp: newSources_def listsNew_def)
next
  case False
  then have "newSourcesLoop j hs (wholeRadius j (SID hs) ps) (sort ps) (\<lambda>_. None) [] f = (f', ks)"
    using assms by (simp add: newSources_def)
  then show ?thesis by (rule newSourcesLoop_sources) auto
qed

section \<open>Hosts\<close>

text \<open>What a step sees of a host's standing.\<close>

definition obs :: "int \<Rightarrow> host_failures option \<Rightarrow> (int \<times> int option) list \<times> int option" where
  "obs step ho =
     (case ho of
        None \<Rightarrow> ([], None)
      | Some h \<Rightarrow> (map (\<lambda>p. (hp_heldFrom p, reachedAt (hp_returnedAt p) step))
                     (takeWhile (\<lambda>p. hp_heldFrom p \<le> step) (hx_periods h)), reachedAt (hx_droppedAt h) step))"

lemma hostOf_setHost [simp]: "hostOf (setHost sid h f) x = (if x = sid then Some h else hostOf f x)"
  by (simp add: hostOf_def setHost_def update_conv')

lemma setHost_fields [simp]:
  "sourceOf (setHost sid h f) = sourceOf f" "rf_bySID (setHost sid h f) = rf_bySID f"
  "rf_rules (setHost sid h f) = rf_rules f" "rf_covers (setHost sid h f) = rf_covers f"
  "rf_blocks (setHost sid h f) = rf_blocks f" "rf_unitFails (setHost sid h f) = rf_unitFails f"
  "rf_entries (setHost sid h f) = rf_entries f" "rf_closed (setHost sid h f) = rf_closed f"
  "rf_roster (setHost sid h f) = rf_roster f" "rf_ended (setHost sid h f) = rf_ended f"
  "rf_endedAt (setHost sid h f) = rf_endedAt f" "rf_sourceless (setHost sid h f) = rf_sourceless f"
  "rf_failedRows (setHost sid h f) = rf_failedRows f" "rf_endLead (setHost sid h f) = rf_endLead f"
  "rf_sources (setHost sid h f) = rf_sources f"
  by (simp_all add: setHost_def sourceOf_def fun_eq_iff)

lemma hostOf_cong: "rf_hosts f = rf_hosts g \<Longrightarrow> hostOf f = hostOf g"
  by (simp add: hostOf_def fun_eq_iff)

lemma sourceOf_cong: "rf_sources f = rf_sources g \<Longrightarrow> sourceOf f = sourceOf g"
  by (simp add: sourceOf_def fun_eq_iff)

lemma hostOf_onSources [simp]: "hostOf (foldl (onSource g) f ks) = hostOf f" "hostOf (setSource k s f) = hostOf f"
    "hostOf (onSource g f k) = hostOf f"
  by (rule hostOf_cong, simp)+

lemma obs_later: "step \<le> n \<Longrightarrow> n < x \<Longrightarrow> reachedAt (Some x) step = None"
  by (simp add: reachedAt_def)

lemma obs_append:
  assumes "step \<le> n" "n < hp_heldFrom p"
  shows "obs step (Some (h\<lparr>hx_facts := a, hx_periods := hx_periods h @ [p]\<rparr>)) = obs step (Some h)"
  using assms by (auto simp: obs_def takeWhile_append takeWhile_eq_all_conv [THEN iffD2])

lemma obs_return:
  assumes "step \<le> n" "n < x" "isOpen h"
  shows "obs step (Some (setLast (\<lambda>p. p\<lparr>hp_returnedAt := Some x\<rparr>) h)) = obs step (Some h)"
proof -
  obtain ps p where ps: "hx_periods h = ps @ [p]" using assms(3) by (cases "hx_periods h" rule: rev_cases) (auto simp: isOpen_def)
  have none: "hp_returnedAt p = None" using assms(3) by (simp add: isOpen_def ps)
  have "reachedAt (Some x) step = None" using assms(1,2) by (rule obs_later)
  then show ?thesis
    by (simp add: obs_def setLast_def ps takeWhile_append none) (simp add: reachedAt_def)
qed

lemma rejoin_ge: "from \<le> rejoin blocks heldFrom from"
proof (induction blocks heldFrom "from" rule: rejoin.induct)
  case (1 blocks heldFrom "from")
  then show ?case
    using rejoinPass_ge [of "from" blocks heldFrom]
    by (subst rejoin.simps) (auto simp: Let_def intro: order_trans)
qed

section \<open>What a barrier changes of one host\<close>

definition frame :: "run_failures \<Rightarrow> run_failures \<Rightarrow> bool" where
  "frame f f' \<longleftrightarrow>
     rf_covers f' = rf_covers f \<and> rf_blocks f' = rf_blocks f \<and> rf_entries f' = rf_entries f \<and> rf_closed f' = rf_closed f \<and>
     rf_roster f' = rf_roster f \<and> rf_ended f' = rf_ended f \<and> rf_endedAt f' = rf_endedAt f \<and> rf_endLead f' = rf_endLead f"

text \<open>Old sources grow, new ones are of this step.\<close>

definition sourcesGrow :: "int \<Rightarrow> run_failures \<Rightarrow> run_failures \<Rightarrow> bool" where
  "sourcesGrow n f f' \<longleftrightarrow>
     (\<forall>k. case sourceOf f k of
        Some s \<Rightarrow> (\<exists>s'. sourceOf f' k = Some s' \<and> grown n s s')
      | None \<Rightarrow> (case sourceOf f' k of None \<Rightarrow> True | Some s' \<Rightarrow> fs_failedAt s' = n \<and> fs_changedAt s' = n))"

definition onlyHost :: "string \<Rightarrow> run_failures \<Rightarrow> run_failures \<Rightarrow> bool" where
  "onlyHost sid f f' \<longleftrightarrow>
     (\<forall>k. fst k \<noteq> sid \<longrightarrow> sourceOf f' k = sourceOf f k) \<and>
     (\<forall>x. x \<noteq> sid \<longrightarrow> rf_bySID f' x = rf_bySID f x \<and> hostOf f' x = hostOf f x \<and> map_of (rf_rules f') x = map_of (rf_rules f) x) \<and>
     (map_of (rf_rules f) sid \<noteq> None \<longrightarrow> map_of (rf_rules f') sid \<noteq> None)"

definition failsGrow :: "int \<Rightarrow> run_failures \<Rightarrow> run_failures \<Rightarrow> bool" where
  "failsGrow n f f' \<longleftrightarrow>
     (\<forall>x key. rf_unitFails f' x key = rf_unitFails f x key \<or> rf_unitFails f x key = None \<and> rf_unitFails f' x key = Some n)"

definition sameView :: "int \<Rightarrow> run_failures \<Rightarrow> run_failures \<Rightarrow> bool" where
  "sameView n f f' \<longleftrightarrow> (\<forall>step x. step \<le> n \<longrightarrow> obs step (hostOf f' x) = obs step (hostOf f x))"

definition moved :: "string \<Rightarrow> int \<Rightarrow> run_failures \<Rightarrow> run_failures \<Rightarrow> bool" where
  "moved sid n f f' \<longleftrightarrow> frame f f' \<and> sourcesGrow n f f' \<and> onlyHost sid f f' \<and> failsGrow n f f' \<and> sameView n f f'"

lemma frame_refl [simp]: "frame f f"
  by (simp add: frame_def)

lemma moved_refl [simp]: "moved sid n f f"
  by (simp add: moved_def sourcesGrow_def onlyHost_def failsGrow_def sameView_def split: option.split)

lemma frame_trans: "frame f g \<Longrightarrow> frame g h \<Longrightarrow> frame f h"
  by (simp add: frame_def)

lemma sourcesGrow_trans:
  assumes "sourcesGrow n f g" "sourcesGrow n g h" shows "sourcesGrow n f h"
  unfolding sourcesGrow_def
proof
  fix k
  note a = assms(1) [unfolded sourcesGrow_def, rule_format, of k] and b = assms(2) [unfolded sourcesGrow_def, rule_format, of k]
  show "case sourceOf f k of
        Some s \<Rightarrow> (\<exists>s'. sourceOf h k = Some s' \<and> grown n s s')
      | None \<Rightarrow> (case sourceOf h k of None \<Rightarrow> True | Some s' \<Rightarrow> fs_failedAt s' = n \<and> fs_changedAt s' = n)"
  proof (cases "sourceOf f k")
    case (Some s)
    then obtain s' s'' where "sourceOf h k = Some s''" "grown n s s'" "grown n s' s''" using a b by auto
    then show ?thesis using Some grown_trans [of n s s' s''] by simp
  next
    case None
    show ?thesis
    proof (cases "sourceOf g k")
      case None
      then show ?thesis using a b \<open>sourceOf f k = None\<close> by simp
    next
      case (Some s)
      then obtain s' where "sourceOf h k = Some s'" "grown n s s'" using b by auto
      then show ?thesis using a \<open>sourceOf f k = None\<close> Some by (auto simp: grown_def)
    qed
  qed
qed

lemma onlyHost_trans: "onlyHost sid f g \<Longrightarrow> onlyHost sid g h \<Longrightarrow> onlyHost sid f h"
  by (simp add: onlyHost_def)

lemma failsGrow_trans: "failsGrow n f g \<Longrightarrow> failsGrow n g h \<Longrightarrow> failsGrow n f h"
  unfolding failsGrow_def by (metis option.distinct(1))

lemma sameView_trans: "sameView n f g \<Longrightarrow> sameView n g h \<Longrightarrow> sameView n f h"
  by (simp add: sameView_def)

lemma moved_trans: "moved sid n f g \<Longrightarrow> moved sid n g h \<Longrightarrow> moved sid n f h"
  unfolding moved_def
  by (blast intro: frame_trans sourcesGrow_trans onlyHost_trans failsGrow_trans sameView_trans)

text \<open>A change of nothing but the sources of the host, each of them grown.\<close>

lemma sourcesGrow_rel:
  "(\<And>k. rel_option (grown n) (sourceOf f k) (sourceOf f' k)) \<Longrightarrow> sourcesGrow n f f'"
proof -
  assume rel: "\<And>k. rel_option (grown n) (sourceOf f k) (sourceOf f' k)"
  have "case sourceOf f k of
        Some s \<Rightarrow> (\<exists>s'. sourceOf f' k = Some s' \<and> grown n s s')
      | None \<Rightarrow> (case sourceOf f' k of None \<Rightarrow> True | Some s' \<Rightarrow> fs_failedAt s' = n \<and> fs_changedAt s' = n)" for k
    using rel [of k] by (cases "sourceOf f k"; cases "sourceOf f' k") auto
  then show ?thesis by (simp add: sourcesGrow_def)
qed

lemma moved_onSources:
  assumes "\<And>k. k \<in> set ks \<Longrightarrow> fst k = sid" "\<And>s. grown n s (app g s)"
  shows "moved sid n f (foldl (onSource g) f ks)"
proof -
  have "sourcesGrow n f (foldl (onSource g) f ks)"
    by (rule sourcesGrow_rel, rule onSources_rel) (use grown_trans assms(2) in auto)
  moreover have "sourceOf (foldl (onSource g) f ks) k = sourceOf f k" if "fst k \<noteq> sid" for k
    by (rule sourceOf_onSources_other) (use assms(1) [of k] that in blast)
  ultimately show ?thesis
    unfolding moved_def frame_def by (simp add: onlyHost_def failsGrow_def sameView_def)
qed

end
