(* ===== verification/Fail_Rows.thy ===== *)
theory Fail_Rows
  imports Fail_Moves
begin

text \<open>
  One row and one host at a barrier: each operation of \<^verbatim>\<open>judgeRow\<close> moves only the host's part of the failure state, and
  when the row is judged every source of the host is decided, nothing held is due any more, and an entry names the
  host if a source of it was judged.
\<close>

declare split_paired_All [simp del] split_paired_Ex [simp del]

section \<open>Fields the operations leave alone\<close>

lemma core_updates [simp]:
  "sourceOf (f\<lparr>rf_failedRows := a\<rparr>) = sourceOf f" "hostOf (f\<lparr>rf_failedRows := a\<rparr>) = hostOf f"
  "sourceOf (f\<lparr>rf_sourceless := b\<rparr>) = sourceOf f" "hostOf (f\<lparr>rf_sourceless := b\<rparr>) = hostOf f"
  "sourceOf (f\<lparr>rf_unitFails := c\<rparr>) = sourceOf f" "hostOf (f\<lparr>rf_unitFails := c\<rparr>) = hostOf f"
  "sourceOf (f\<lparr>rf_entries := d\<rparr>) = sourceOf f" "hostOf (f\<lparr>rf_entries := d\<rparr>) = hostOf f"
  "sourceOf (f\<lparr>rf_unitKeys := u, rf_unitSteps := v, rf_unitIDs := w\<rparr>) = sourceOf f"
  "hostOf (f\<lparr>rf_unitKeys := u, rf_unitSteps := v, rf_unitIDs := w\<rparr>) = hostOf f"
  "sourceOf (setRule sid r f) = sourceOf f" "hostOf (setRule sid r f) = hostOf f"
  by (simp_all add: sourceOf_def hostOf_def setRule_def fun_eq_iff)

lemma setRule_fields [simp]:
  "rf_bySID (setRule sid r f) = rf_bySID f" "rf_unitFails (setRule sid r f) = rf_unitFails f"
  "rf_covers (setRule sid r f) = rf_covers f" "rf_blocks (setRule sid r f) = rf_blocks f"
  "rf_sourceless (setRule sid r f) = rf_sourceless f" "rf_failedRows (setRule sid r f) = rf_failedRows f"
  "rf_unitKeys (setRule sid r f) = rf_unitKeys f" "rf_unitSteps (setRule sid r f) = rf_unitSteps f"
  "map_of (rf_rules (setRule sid r f)) x = (if x = sid then Some r else map_of (rf_rules f) x)"
  by (simp_all add: setRule_def update_conv')

lemma frame_updates [simp]:
  "frame f (f\<lparr>rf_failedRows := a\<rparr>)" "frame f (f\<lparr>rf_sourceless := b\<rparr>)" "frame f (f\<lparr>rf_unitFails := c\<rparr>)"
  "frame f (setRule sid r f)" "frame f (setHost sid h f)" "frame f (setSource k s f)"
  by (simp_all add: frame_def setRule_def)

lemma moved_updates:
  "moved sid n f (f\<lparr>rf_failedRows := a\<rparr>)" "moved sid n f (f\<lparr>rf_sourceless := b\<rparr>)" "moved sid n f (setRule sid r f)"
  by (simp_all add: moved_def sourcesGrow_def onlyHost_def failsGrow_def sameView_def split: option.split)

text \<open>Only the table of unit ids.\<close>

definition sameCore :: "run_failures \<Rightarrow> run_failures \<Rightarrow> bool" where
  "sameCore f f' \<longleftrightarrow>
     (\<exists>u v w. f' = f\<lparr>rf_unitKeys := u, rf_unitSteps := v, rf_unitIDs := w\<rparr>)"

lemma sameCore_refl [simp]: "sameCore f f"
  unfolding sameCore_def by (intro exI [of _ "rf_unitKeys f"] exI [of _ "rf_unitSteps f"] exI [of _ "rf_unitIDs f"]) simp

lemma sameCore_trans: "sameCore f g \<Longrightarrow> sameCore g h \<Longrightarrow> sameCore f h"
  unfolding sameCore_def by fastforce

lemma sameCore_unitID: "sameCore f (fst (unitID f key))"
  by (auto simp: unitID_def sameCore_def Let_def split: option.split intro: sameCore_refl [unfolded sameCore_def])

lemma sameCore_registerTask: "sameCore (rq_state q) (rq_state (registerTask j q it))"
proof -
  obtain i t where it: "it = (i, t)" by (cases it)
  obtain f u where u: "unitID (rq_state q) (rt_rescueUnit t) = (f, u)" by (cases "unitID (rq_state q) (rt_rescueUnit t)")
  have "rq_state (registerTask j q it) = f" by (simp add: registerTask_def it u Let_def)
  then show ?thesis using sameCore_unitID [of "rq_state q" "rt_rescueUnit t"] u by simp
qed

lemma sameCore_registerTasks: "sameCore (rq_state q) (rq_state (foldl (registerTask j) q its))"
proof (induction its arbitrary: q)
  case (Cons it its)
  then show ?case using sameCore_trans [OF sameCore_registerTask [of q j it]] by simp
qed simp

lemma sameCore_replay: "replay f j r hs = (f', r', rp) \<Longrightarrow> sameCore f f'"
  using sameCore_registerTasks [of "\<lparr>rq_state = f, rq_rule = r, rq_units = [], rq_unitFirst = (\<lambda>_. None),
      rq_lastAt = (\<lambda>_. None), rq_isSource = {}\<rparr>" j "zip [0..<length (replayMessage j (SID hs))] (replayMessage j (SID hs))"]
  by (auto simp: replay_def registerAll_def Let_def split: prod.splits)

lemma sameCoreD:
  assumes "sameCore f f'"
  shows "sourceOf f' = sourceOf f" "hostOf f' = hostOf f" "rf_bySID f' = rf_bySID f" "rf_rules f' = rf_rules f"
    "rf_unitFails f' = rf_unitFails f" "frame f f'" "rf_sourceless f' = rf_sourceless f" "rf_failedRows f' = rf_failedRows f"
  using assms by (auto simp: sameCore_def frame_def)

lemma moved_sameCore: "sameCore f f' \<Longrightarrow> moved sid n f f'"
  using sameCoreD [of f f'] by (simp add: moved_def sourcesGrow_def onlyHost_def failsGrow_def sameView_def split: option.split)

section \<open>The keys of a host\<close>

definition keysIdx :: "run_failures \<Rightarrow> bool" where
  "keysIdx f \<longleftrightarrow>
     (\<forall>k s. sourceOf f k = Some s \<longrightarrow> k \<in> set (rf_bySID f (fst k))) \<and>
     (\<forall>sid k. k \<in> set (rf_bySID f sid) \<longrightarrow> fst k = sid \<and> sourceOf f k \<noteq> None)"

lemma keysIdx_in: "keysIdx f \<Longrightarrow> k \<in> set (rf_bySID f sid) \<longleftrightarrow> fst k = sid \<and> sourceOf f k \<noteq> None"
  unfolding keysIdx_def by (metis not_None_eq)

lemma keysIdx_same:
  assumes "keysIdx f" "rf_bySID f' = rf_bySID f" "\<And>k. sourceOf f' k = None \<longleftrightarrow> sourceOf f k = None"
  shows "keysIdx f'"
  using assms unfolding keysIdx_def by (metis not_None_eq)

lemma keysIdx_onSources [simp]: "keysIdx f \<Longrightarrow> keysIdx (foldl (onSource g) f ks)"
proof (rule keysIdx_same [of f])
  fix k
  have "rel_option (\<lambda>a b. True) (sourceOf f k) (sourceOf (foldl (onSource g) f ks) k)"
    by (rule onSources_rel) auto
  then show "sourceOf (foldl (onSource g) f ks) k = None \<longleftrightarrow> sourceOf f k = None"
    by (cases "sourceOf f k"; cases "sourceOf (foldl (onSource g) f ks) k") auto
qed simp_all

lemma listsNewD:
  assumes "listsNew j sid M f f' [] ks"
  shows "k \<notin> set ks \<Longrightarrow> sourceOf f' k = sourceOf f k" "k \<in> set ks \<Longrightarrow> sourceOf f k = None"
    "k \<in> set ks \<Longrightarrow> bornIn j sid M f' k" "rf_bySID f' = (rf_bySID f)(sid := rf_bySID f sid @ ks)" "distinct ks"
  using assms by (auto simp: listsNew_def)

lemma newSources_moved:
  assumes "newSources j hs ps f = (f', ks)"
  shows "moved (SID hs) (j_step j) f f'"
proof -
  have new: "listsNew j (SID hs) (set ps) f f' [] ks" by (rule newSources_sources [OF assms])
  have fields: "rf_hosts f' = rf_hosts f" "rf_rules f' = rf_rules f" "rf_unitFails f' = rf_unitFails f" "frame f f'"
    using assms newSourcesLoop_fields [of j hs _ _ _ _ f f' ks]
    by (auto simp: newSources_def frame_def split: if_splits)
  have "sourcesGrow (j_step j) f f'"
    unfolding sourcesGrow_def
  proof
    fix k
    show "case sourceOf f k of
        Some s \<Rightarrow> (\<exists>s'. sourceOf f' k = Some s' \<and> grown (j_step j) s s')
      | None \<Rightarrow> (case sourceOf f' k of None \<Rightarrow> True | Some s' \<Rightarrow> fs_failedAt s' = j_step j \<and> fs_changedAt s' = j_step j)"
      using listsNewD(1-3) [OF new, of k] by (cases "k \<in> set ks"; cases "sourceOf f k") (auto simp: bornIn_def)
  qed
  moreover have "sourceOf f' k = sourceOf f k" if "fst k \<noteq> SID hs" for k
    using listsNewD(1-3) [OF new, of k] that by (cases "k \<in> set ks") (auto simp: bornIn_def)
  then have "onlyHost (SID hs) f f'"
    using listsNewD(4) [OF new] fields hostOf_cong [of f' f] by (simp add: onlyHost_def)
  ultimately show ?thesis
    using fields hostOf_cong [of f' f] by (simp add: moved_def failsGrow_def sameView_def)
qed

lemma newSources_keysIdx:
  assumes "newSources j hs ps f = (f', ks)" "keysIdx f"
  shows "keysIdx f'"
proof -
  have new: "listsNew j (SID hs) (set ps) f f' [] ks" by (rule newSources_sources [OF assms(1)])
  note a = listsNewD(1) [OF new] and b = listsNewD(3) [OF new]
  have c: "set (rf_bySID f' x) = set (rf_bySID f x) \<union> (if x = SID hs then set ks else {})" for x
    using listsNewD(4) [OF new] by auto
  show ?thesis unfolding keysIdx_def
  proof (intro conjI allI impI)
    fix k s assume "sourceOf f' k = Some s"
    then show "k \<in> set (rf_bySID f' (fst k))"
      using a [of k] b [of k] c [of "fst k"] assms(2) by (cases "k \<in> set ks") (auto simp: bornIn_def keysIdx_def)
  next
    fix sid k assume k: "k \<in> set (rf_bySID f' sid)"
    then have "fst k = sid \<and> sourceOf f' k \<noteq> None"
      using a [of k] b [of k] c [of sid] assms(2) by (cases "k \<in> set ks") (auto simp: bornIn_def keysIdx_def split: if_splits)
    then show "fst k = sid" "sourceOf f' k \<noteq> None" by auto
  qed
qed

section \<open>The operations on a host\<close>

lemma applyHandled_moved:
  assumes "keysIdx f" shows "moved sid n f (applyHandled sid n f)"
proof (cases "map_of (rf_rules f) sid")
  case None
  then show ?thesis by (simp add: applyHandled_def)
next
  case (Some r)
  show ?thesis
    unfolding applyHandled_def Some option.case
    by (rule moved_onSources) (use keysIdx_in [OF assms] in \<open>auto simp: grown_def\<close>)
qed

lemma applyHandled_source:
  assumes "map_of (rf_rules f) sid = Some r"
  shows "sourceOf (applyHandled sid n f) k =
    (if k \<in> set (rf_bySID f sid)
     then map_option (\<lambda>s. if fs_state s = sourceJudged \<or> fs_state s = sourceHandled \<or> list_ex (Held r) (fs_members s) then s
                            else s\<lparr>fs_state := sourceHandled, fs_changedAt := n\<rparr>) (sourceOf f k)
     else sourceOf f k)"
  unfolding applyHandled_def assms option.case
  by (subst sourceOf_onSources, simp add: app_def, cases "sourceOf f k") (simp_all add: app_def)

lemma applyHandled_fields [simp]:
  "rf_bySID (applyHandled sid n f) = rf_bySID f" "rf_rules (applyHandled sid n f) = rf_rules f"
  "hostOf (applyHandled sid n f) = hostOf f" "rf_unitFails (applyHandled sid n f) = rf_unitFails f"
  "rf_sourceless (applyHandled sid n f) = rf_sourceless f" "rf_failedRows (applyHandled sid n f) = rf_failedRows f"
  "rf_covers (applyHandled sid n f) = rf_covers f"
  by (simp_all add: applyHandled_def split: option.split)

lemma applyHandled_keysIdx [simp]: "keysIdx f \<Longrightarrow> keysIdx (applyHandled sid n f)"
  by (simp add: applyHandled_def split: option.split)

text \<open>Nothing but errors and rows of sources.\<close>

definition sameSource :: "failed_source \<Rightarrow> failed_source \<Rightarrow> bool" where
  "sameSource s s' \<longleftrightarrow>
     fs_state s' = fs_state s \<and> fs_changedAt s' = fs_changedAt s \<and> fs_failedAt s' = fs_failedAt s \<and>
     fs_members s' = fs_members s \<and> fs_lastUnit s' = fs_lastUnit s \<and> fs_register s' = fs_register s \<and> fs_applier s' = fs_applier s"

lemma sameSource_refl [simp]: "sameSource s s"
  by (simp add: sameSource_def)

lemma sameSource_trans: "sameSource a b \<Longrightarrow> sameSource b c \<Longrightarrow> sameSource a c"
  by (simp add: sameSource_def)

lemma sameSource_option_trans:
  "rel_option sameSource a b \<Longrightarrow> rel_option sameSource b c \<Longrightarrow> rel_option sameSource a c"
  by (cases a; cases b; cases c) (auto elim: sameSource_trans)

lemma sameSource_attach: "sameSource s (app (attachOne n reason) s)"
  by (simp add: sameSource_def app_def attachOne_def)

lemma sameSource_grown: "sameSource s s' \<Longrightarrow> grown n s s'"
  by (simp add: sameSource_def grown_def)

lemma sourceAt_Some: "sourceAt f sid p = Some k \<Longrightarrow> k \<in> set (rf_bySID f sid)"
  by (auto simp: sourceAt_def find_Some_iff)

lemma attach_keys:
  assumes "keysIdx f" "k \<in> set (remdups (List.map_filter (sourceAt f sid) ps))"
  shows "fst k = sid"
proof -
  have "\<exists>p. sourceAt f sid p = Some k" using assms(2) by (auto simp: map_filter_def)
  then show ?thesis using sourceAt_Some keysIdx_in [OF assms(1)] by blast
qed

lemma attachUnitFailures_facts:
  assumes "keysIdx f"
  shows "moved sid n f (attachUnitFailures sid r us n reason f)" "keysIdx (attachUnitFailures sid r us n reason f)"
    "rel_option sameSource (sourceOf f k) (sourceOf (attachUnitFailures sid r us n reason f) k)"
    "rf_bySID (attachUnitFailures sid r us n reason f) = rf_bySID f" "rf_rules (attachUnitFailures sid r us n reason f) = rf_rules f"
    "hostOf (attachUnitFailures sid r us n reason f) = hostOf f"
proof -
  let ?one = "\<lambda>f u. foldl (onSource (attachOne n reason)) f (remdups (List.map_filter (sourceAt f sid) (Sources r u)))"
  have one: "moved sid n f (?one f u)" "keysIdx (?one f u)" "rel_option sameSource (sourceOf f k) (sourceOf (?one f u) k)"
    if "keysIdx f" for f u k
    by (rule moved_onSources, rule attach_keys [OF that], assumption, rule sameSource_grown [OF sameSource_attach],
      rule keysIdx_onSources [OF that], rule onSources_rel, simp, rule sameSource_trans, assumption+, rule sameSource_attach)
  have "moved sid n f (foldl ?one f us) \<and> keysIdx (foldl ?one f us) \<and>
      (\<forall>k. rel_option sameSource (sourceOf f k) (sourceOf (foldl ?one f us) k)) \<and>
      rf_bySID (foldl ?one f us) = rf_bySID f \<and> rf_rules (foldl ?one f us) = rf_rules f \<and> hostOf (foldl ?one f us) = hostOf f"
    using assms
  proof (induction us arbitrary: f)
    case Nil
    then show ?case by (auto simp: option.rel_refl)
  next
    case (Cons u us)
    note o = one [OF Cons.prems, where u = u]
    note ih = Cons.IH [OF o(2)]
    have "rel_option sameSource (sourceOf f k) (sourceOf (foldl ?one (?one f u) us) k)" for k
      by (rule sameSource_option_trans [OF o(3)]) (use ih in blast)
    then show ?case using ih moved_trans [OF o(1)] by simp
  qed
  then show "moved sid n f (attachUnitFailures sid r us n reason f)" "keysIdx (attachUnitFailures sid r us n reason f)"
    "rel_option sameSource (sourceOf f k) (sourceOf (attachUnitFailures sid r us n reason f) k)"
    "rf_bySID (attachUnitFailures sid r us n reason f) = rf_bySID f" "rf_rules (attachUnitFailures sid r us n reason f) = rf_rules f"
    "hostOf (attachUnitFailures sid r us n reason f) = hostOf f"
    by (simp_all add: attachUnitFailures_def)
qed

lemma recordUnitFails_facts:
  "sourceOf (recordUnitFails sid us n f) = sourceOf f \<and> hostOf (recordUnitFails sid us n f) = hostOf f \<and>
   rf_bySID (recordUnitFails sid us n f) = rf_bySID f \<and> rf_rules (recordUnitFails sid us n f) = rf_rules f \<and>
   rf_covers (recordUnitFails sid us n f) = rf_covers f \<and> moved sid n f (recordUnitFails sid us n f)"
proof -
  let ?one = "\<lambda>f u. (let key = rf_unitKeys f ! nat (u - 1) in case rf_unitFails f sid key of Some _ \<Rightarrow> f
      | None \<Rightarrow> f\<lparr>rf_unitFails := (rf_unitFails f)(sid := (rf_unitFails f sid)(key \<mapsto> n))\<rparr>)"
  have one: "sourceOf (?one f u) = sourceOf f \<and> hostOf (?one f u) = hostOf f \<and> rf_bySID (?one f u) = rf_bySID f \<and>
      rf_rules (?one f u) = rf_rules f \<and> rf_covers (?one f u) = rf_covers f \<and> moved sid n f (?one f u)" for f u
    by (simp add: Let_def moved_def sourcesGrow_def onlyHost_def failsGrow_def sameView_def split: option.split)
  have "sourceOf (foldl ?one f us) = sourceOf f \<and> hostOf (foldl ?one f us) = hostOf f \<and> rf_bySID (foldl ?one f us) = rf_bySID f \<and>
      rf_rules (foldl ?one f us) = rf_rules f \<and> rf_covers (foldl ?one f us) = rf_covers f \<and> moved sid n f (foldl ?one f us)"
  proof (induction us arbitrary: f)
    case (Cons u us)
    have "moved sid n f (foldl ?one (?one f u) us)"
      by (rule moved_trans [of sid n f "?one f u"]) (use one [of f u] Cons.IH [of "?one f u"] in blast)+
    then show ?case using Cons.IH [of "?one f u"] one [of f u] unfolding foldl_Cons by presburger
  qed simp
  then show ?thesis unfolding recordUnitFails_def .
qed

section \<open>Deciding a host\<close>

lemma moved_sourcesI:
  assumes "frame f f'" "rf_bySID f' = rf_bySID f" "hostOf f' = hostOf f" "rf_rules f' = rf_rules f"
    "rf_unitFails f' = rf_unitFails f" "\<And>k. fst k \<noteq> sid \<Longrightarrow> sourceOf f' k = sourceOf f k"
    "\<And>k. rel_option (grown n) (sourceOf f k) (sourceOf f' k)"
  shows "moved sid n f f'"
  using assms sourcesGrow_rel [of n f f'] by (simp add: moved_def onlyHost_def failsGrow_def sameView_def)

lemma holdSources_fields [simp]:
  "rf_bySID (holdSources n ls f) = rf_bySID f" "rf_rules (holdSources n ls f) = rf_rules f"
  "hostOf (holdSources n ls f) = hostOf f" "rf_unitFails (holdSources n ls f) = rf_unitFails f"
  "rf_blocks (holdSources n ls f) = rf_blocks f" "frame f (holdSources n ls f)"
proof -
  have "rf_bySID (holdSources n ls f) = rf_bySID f \<and> rf_rules (holdSources n ls f) = rf_rules f \<and>
      hostOf (holdSources n ls f) = hostOf f \<and> rf_unitFails (holdSources n ls f) = rf_unitFails f \<and>
      rf_blocks (holdSources n ls f) = rf_blocks f \<and> frame f (holdSources n ls f)"
    unfolding holdSources_def
  proof (induction ls arbitrary: f)
    case (Cons x ls)
    have "frame f (case x of (k, l) \<Rightarrow> onSource (\<lambda>s. Some (s\<lparr>fs_state := sourceHeld, fs_changedAt := n, fs_lastUnit := Some l\<rparr>)) f k)"
      by (simp add: frame_def split: prod.split)
    then show ?case using Cons.IH [of "case x of (k, l) \<Rightarrow>
        onSource (\<lambda>s. Some (s\<lparr>fs_state := sourceHeld, fs_changedAt := n, fs_lastUnit := Some l\<rparr>)) f k"] frame_trans
      by (auto split: prod.splits)
  qed simp
  then show "rf_bySID (holdSources n ls f) = rf_bySID f" "rf_rules (holdSources n ls f) = rf_rules f"
    "hostOf (holdSources n ls f) = hostOf f" "rf_unitFails (holdSources n ls f) = rf_unitFails f"
    "rf_blocks (holdSources n ls f) = rf_blocks f" "frame f (holdSources n ls f)" by auto
qed

lemma holdSources_source:
  "sourceOf (holdSources n ls f) k =
     (case map_of (rev ls) k of
        None \<Rightarrow> sourceOf f k
      | Some l \<Rightarrow> map_option (\<lambda>s. s\<lparr>fs_state := sourceHeld, fs_changedAt := n, fs_lastUnit := Some l\<rparr>) (sourceOf f k))"
proof (induction ls arbitrary: f)
  case Nil
  then show ?case by (simp add: holdSources_def)
next
  case (Cons x ls)
  obtain k' l' where x: "x = (k', l')" by (cases x)
  let ?g = "onSource (\<lambda>s. Some (s\<lparr>fs_state := sourceHeld, fs_changedAt := n, fs_lastUnit := Some l'\<rparr>)) f k'"
  have "holdSources n (x # ls) f = holdSources n ls ?g" by (simp add: holdSources_def x)
  then show ?case
    using Cons.IH [of ?g] by (cases "map_of (rev ls) k"; cases "sourceOf f k") (auto simp: x sourceOf_onSource app_def map_add_def)
qed

definition outOrHeld :: "host_failures option \<Rightarrow> bool" where
  "outOrHeld ho = (case ho of None \<Rightarrow> False | Some h \<Rightarrow> hx_droppedAt h \<noteq> None \<or> isOpen h)"

lemma holdHost_facts:
  fixes f sid facts n
  defines "f' \<equiv> holdHost sid facts (n + 1) f"
  shows "sourceOf f' = sourceOf f" "rf_bySID f' = rf_bySID f" "rf_rules f' = rf_rules f" "rf_blocks f' = rf_blocks f"
    "x \<noteq> sid \<Longrightarrow> hostOf f' x = hostOf f x" "outOrHeld (hostOf f' sid)" "outOrHeld (hostOf f sid) \<Longrightarrow> hostOf f' sid = hostOf f sid"
    "moved sid n f f'"
proof -
  define h where "h = (case hostOf f sid of None \<Rightarrow> \<lparr>hx_facts = factsOr facts sid, hx_periods = [], hx_droppedAt = None\<rparr> | Some h \<Rightarrow> h)"
  define p where "p = \<lparr>hp_heldFrom = n + 1, hp_returnedAt = None, hp_missed = (\<lambda>_. None)\<rparr>"
  define g where "g = h\<lparr>hx_facts := (case facts of Some x \<Rightarrow> x | None \<Rightarrow> hx_facts h), hx_periods := hx_periods h @ [p]\<rparr>"
  have f': "f' = (if hx_droppedAt h \<noteq> None \<or> isOpen h then f else setHost sid g f)"
    unfolding f'_def holdHost_def Let_def h_def [symmetric] p_def [symmetric] g_def [symmetric]
    by (simp add: openPeriod_def)
  have h0: "obs step (Some h) = obs step (hostOf f sid)" for step
    by (simp add: h_def obs_def reachedAt_def split: option.split)
  show "sourceOf f' = sourceOf f" "rf_bySID f' = rf_bySID f" "rf_rules f' = rf_rules f" "rf_blocks f' = rf_blocks f"
    "x \<noteq> sid \<Longrightarrow> hostOf f' x = hostOf f x" by (simp_all add: f')
  have some: "hx_droppedAt h \<noteq> None \<or> isOpen h \<Longrightarrow> hostOf f sid = Some h"
    by (auto simp: h_def isOpen_def split: option.splits)
  show "outOrHeld (hostOf f' sid)"
    using some by (auto simp: f' outOrHeld_def g_def p_def isOpen_def)
  show "outOrHeld (hostOf f sid) \<Longrightarrow> hostOf f' sid = hostOf f sid"
    by (auto simp: f' outOrHeld_def h_def split: option.splits)
  have "obs step (Some g) = obs step (hostOf f sid)" if "step \<le> n" for step
    using obs_append [OF that, of p h] h0 by (simp add: g_def p_def)
  then show "moved sid n f f'"
    by (auto simp: f' moved_def sourcesGrow_def onlyHost_def failsGrow_def sameView_def split: option.split)
qed

lemma openSources_keys: "map fst (openSources f ks) = filter (\<lambda>k. sourceOf f k \<noteq> None \<and> stateOf f k \<noteq> sourceHandled) ks"
  by (induction ks) (auto simp: openSources_def map_filter_def stateOf_def split: option.splits)

lemma lastsOf_keys: "lastsOf f ops n facts = Some ls \<Longrightarrow> map fst ls = map fst ops"
  by (induction ops arbitrary: ls) (auto simp: lastsOf_def map_filter_def split: if_splits option.splits)

text \<open>The sources a row brought, before they are decided.\<close>

definition undecidedAt :: "string \<Rightarrow> run_failures \<Rightarrow> source_key list \<Rightarrow> bool" where
  "undecidedAt sid f fresh \<longleftrightarrow>
     (\<forall>k \<in> set fresh. fst k = sid \<and> sourceOf f k \<noteq> None \<and> stateOf f k \<in> {sourceNew, sourceHandled})"

definition settledSource :: "failed_source option \<Rightarrow> bool" where
  "settledSource so = (case so of None \<Rightarrow> True | Some s \<Rightarrow> fs_state s \<noteq> sourceNew \<and> (fs_state s = sourceHeld \<longrightarrow> fs_lastUnit s \<noteq> None))"

lemma judgeVerdict_sid [simp]: "fe_sid (judgeVerdict j hs ss) = SID hs"
  by (simp add: judgeVerdict_def Let_def split: list.split)

text \<open>What deciding a host comes to.\<close>

definition hostDecided ::
    "string \<Rightarrow> int \<Rightarrow> source_key list \<Rightarrow> run_failures \<Rightarrow> run_failures \<Rightarrow> failure_entry option \<Rightarrow> bool" where
  "hostDecided sid n fresh f f' eo \<longleftrightarrow>
     moved sid n f f' \<and> rf_bySID f' = rf_bySID f \<and> rf_rules f' = rf_rules f \<and>
     (\<forall>k. k \<notin> set fresh \<longrightarrow> sourceOf f' k = sourceOf f k) \<and>
     (\<forall>k \<in> set fresh. sourceOf f' k \<noteq> None \<and> settledSource (sourceOf f' k) \<and> (stateOf f' k = sourceJudged \<longrightarrow> eo \<noteq> None)) \<and>
     (\<forall>e. eo = Some e \<longrightarrow> fe_sid e = sid) \<and>
     (outOrHeld (hostOf f sid) \<longrightarrow> hostOf f' sid = hostOf f sid) \<and>
     ((\<exists>k \<in> set fresh. stateOf f' k = sourceHeld) \<longrightarrow> outOrHeld (hostOf f' sid)) \<and>
     (hostOf f' sid \<noteq> hostOf f sid \<longrightarrow> (\<exists>k \<in> set fresh. stateOf f' k = sourceHeld))"

lemma stateOf_Some: "sourceOf f k = Some s \<Longrightarrow> stateOf f k = fs_state s"
  by (simp add: stateOf_def)

lemma decideHost_none:
  assumes und: "undecidedAt (SID hs) f fresh" and ops: "openSources f fresh = []"
    and dec: "decideHost j hs facts fresh uo f = (f', eo)"
  shows "hostDecided (SID hs) (j_step j) fresh f f' eo"
proof -
  have "filter (\<lambda>k. sourceOf f k \<noteq> None \<and> stateOf f k \<noteq> sourceHandled) fresh = []"
    using openSources_keys [of f fresh] ops by simp
  then have h: "k \<in> set fresh \<Longrightarrow> sourceOf f k \<noteq> None \<and> stateOf f k = sourceHandled" for k
    using und by (fastforce simp: undecidedAt_def filter_empty_conv)
  have "sourceOf f' = sourceOf f \<and> rf_bySID f' = rf_bySID f \<and> rf_rules f' = rf_rules f \<and> hostOf f' = hostOf f \<and>
      moved (SID hs) (j_step j) f f' \<and> (\<forall>e. eo = Some e \<longrightarrow> fe_sid e = SID hs)"
    using dec ops by (auto simp: decideHost_def Let_def moved_updates split: if_splits)
  moreover have "settledSource (sourceOf f k)" if "k \<in> set fresh" for k
    using h [OF that] by (auto simp: settledSource_def stateOf_def)
  ultimately show ?thesis using h by (auto simp: hostDecided_def stateOf_def)
qed

lemma decideHost_hold:
  assumes und: "undecidedAt (SID hs) f fresh" and ops: "openSources f fresh \<noteq> []"
    and ls: "lastsOf f (openSources f fresh) (j_step j) facts = Some ls" "\<not> keeperFailedGroup j (SID hs)"
    and dec: "decideHost j hs facts fresh uo f = (f', eo)"
  shows "hostDecided (SID hs) (j_step j) fresh f f' eo"
proof -
  define n where "n = j_step j"
  let ?f1 = "holdSources n ls f"
  have eo: "eo = None" and f': "f' = holdHost (SID hs) facts (n + 1) ?f1"
    using dec ops ls by (simp_all add: decideHost_def Let_def n_def)
  have keys: "set (map fst ls) = {k \<in> set fresh. stateOf f k \<noteq> sourceHandled}"
    using lastsOf_keys [OF ls(1)] und by (auto simp: openSources_keys undecidedAt_def)
  have dom: "map_of (rev ls) k = None \<longleftrightarrow> k \<notin> {k \<in> set fresh. stateOf f k \<noteq> sourceHandled}" for k
    using keys by (simp add: map_of_eq_None_iff)
  have src: "sourceOf f' k = (case map_of (rev ls) k of None \<Rightarrow> sourceOf f k
      | Some l \<Rightarrow> map_option (\<lambda>s. s\<lparr>fs_state := sourceHeld, fs_changedAt := n, fs_lastUnit := Some l\<rparr>) (sourceOf f k))" for k
    unfolding f' by (simp add: holdHost_facts holdSources_source)
  have "rel_option (grown n) (sourceOf f k) (sourceOf ?f1 k)" for k
    using dom [of k] und
    by (cases "map_of (rev ls) k"; cases "sourceOf f k")
      (auto simp: holdSources_source grown_def undecidedAt_def stateOf_def)
  moreover have "sourceOf ?f1 k = sourceOf f k" if "fst k \<noteq> SID hs" for k
    using dom [of k] und that by (cases "map_of (rev ls) k") (auto simp: holdSources_source undecidedAt_def)
  ultimately have "moved (SID hs) n f ?f1" by (intro moved_sourcesI) auto
  then have mv: "moved (SID hs) n f f'" using moved_trans holdHost_facts(8) unfolding f' by blast
  obtain k where k: "k \<in> set fresh" "stateOf f k \<noteq> sourceHandled" using openSources_keys [of f fresh] ops
    by (metis (mono_tags, lifting) filter_False map_is_Nil_conv)
  have held: "stateOf f' k = sourceHeld \<and> settledSource (sourceOf f' k)" if "k \<in> set fresh" "stateOf f k \<noteq> sourceHandled" for k
    using that dom [of k] und src [of k]
    by (cases "map_of (rev ls) k"; cases "sourceOf f k") (auto simp: undecidedAt_def stateOf_def settledSource_def)
  have other: "sourceOf f' k = sourceOf f k" if "k \<notin> set fresh \<or> stateOf f k = sourceHandled" for k
    using dom [of k] src [of k] that by (cases "map_of (rev ls) k") auto
  have all: "sourceOf f' k \<noteq> None \<and> settledSource (sourceOf f' k) \<and> stateOf f' k \<noteq> sourceJudged" if "k \<in> set fresh" for k
  proof (cases "stateOf f k = sourceHandled")
    case True
    then show ?thesis using other [of k] und that by (auto simp: undecidedAt_def stateOf_def settledSource_def)
  next
    case False
    then show ?thesis using held [OF that] src [of k] dom [of k] und that
      by (cases "map_of (rev ls) k") (auto simp: undecidedAt_def)
  qed
  have hf: "hostOf ?f1 = hostOf f" by simp
  note hh = holdHost_facts [where sid = "SID hs" and facts = facts and n = n and f = ?f1, folded f', unfolded hf holdSources_fields]
  show ?thesis
    unfolding hostDecided_def n_def [symmetric]
    using mv all other held [OF k] k hh eo hf by auto
qed

lemma decideHost_judge:
  assumes idx: "keysIdx f" and und: "undecidedAt (SID hs) f fresh" and ops: "openSources f fresh \<noteq> []"
    and ls: "(if keeperFailedGroup j (SID hs) then None else lastsOf f (openSources f fresh) (j_step j) facts) = None"
    and dec: "decideHost j hs facts fresh uo f = (f', eo)"
  shows "hostDecided (SID hs) (j_step j) fresh f f' eo"
proof -
  define n where "n = j_step j"
  let ?ks = "map fst (openSources f fresh)"
  have f': "f' = foldl (onSource (judgeSource n)) f ?ks" and eo: "\<exists>e. eo = Some e \<and> fe_sid e = SID hs"
    using dec ops ls by (auto simp: decideHost_def Let_def n_def)
  have ks: "k \<in> set ?ks \<longleftrightarrow> k \<in> set fresh \<and> stateOf f k \<noteq> sourceHandled" for k
    using und by (auto simp: openSources_keys undecidedAt_def)
  have src: "sourceOf f' k = (if k \<in> set ?ks then map_option (app (judgeSource n)) (sourceOf f k) else sourceOf f k)" for k
    unfolding f' by (rule sourceOf_onSources) (simp add: app_def judgeSource_def)
  have "rel_option (grown n) (sourceOf f k) (sourceOf f' k)" for k
    using src [of k] ks [of k] und by (cases "sourceOf f k") (auto simp: grown_def undecidedAt_def stateOf_def)
  moreover have "sourceOf f' k = sourceOf f k" if "fst k \<noteq> SID hs" for k
    using src [of k] ks [of k] und that by (auto simp: undecidedAt_def)
  ultimately have mv: "moved (SID hs) n f f'" by (intro moved_sourcesI) (auto simp: f' frame_def)
  have all: "sourceOf f' k \<noteq> None \<and> settledSource (sourceOf f' k) \<and> stateOf f' k \<noteq> sourceHeld" if "k \<in> set fresh" for k
    using src [of k] ks [of k] und that
    by (cases "sourceOf f k") (auto simp: undecidedAt_def stateOf_def settledSource_def)
  have "hostOf f' = hostOf f" "rf_bySID f' = rf_bySID f" "rf_rules f' = rf_rules f" by (simp_all add: f')
  then show ?thesis
    unfolding hostDecided_def n_def [symmetric] using mv all eo src ks by auto
qed

lemma decideHost_decided:
  assumes "keysIdx f" "undecidedAt (SID hs) f fresh" "decideHost j hs facts fresh uo f = (f', eo)"
  shows "hostDecided (SID hs) (j_step j) fresh f f' eo"
proof (cases "openSources f fresh = []")
  case True
  then show ?thesis using decideHost_none assms by blast
next
  case False
  show ?thesis
  proof (cases "if keeperFailedGroup j (SID hs) then None else lastsOf f (openSources f fresh) (j_step j) facts")
    case None
    then show ?thesis using decideHost_judge assms False by blast
  next
    case (Some ls)
    then have "\<not> keeperFailedGroup j (SID hs)" "lastsOf f (openSources f fresh) (j_step j) facts = Some ls"
      by (auto split: if_splits)
    then show ?thesis using decideHost_hold assms False by blast
  qed
qed

section \<open>Return and sweep\<close>

lemma returnHost_fields [simp]:
  "sourceOf (returnHost sid n f) = sourceOf f" "rf_bySID (returnHost sid n f) = rf_bySID f"
  "rf_rules (returnHost sid n f) = rf_rules f" "rf_unitFails (returnHost sid n f) = rf_unitFails f"
  "frame f (returnHost sid n f)" "stateOf (returnHost sid n f) = stateOf f"
proof -
  have "returnHost sid n f = f \<or> (\<exists>h. returnHost sid n f = setHost sid h f)"
    unfolding returnHost_def by (simp add: stateOf_def split: option.splits) blast
  then show "sourceOf (returnHost sid n f) = sourceOf f" "rf_bySID (returnHost sid n f) = rf_bySID f"
    "rf_rules (returnHost sid n f) = rf_rules f" "rf_unitFails (returnHost sid n f) = rf_unitFails f"
    "frame f (returnHost sid n f)" "stateOf (returnHost sid n f) = stateOf f"
    by (auto simp: stateOf_def fun_eq_iff)
qed

lemma returnHost_host:
  "hostOf (returnHost sid n f) x =
     (case hostOf f x of
        None \<Rightarrow> None
      | Some h \<Rightarrow>
          if x = sid \<and> isOpen h \<and> \<not> list_ex (\<lambda>k. stateOf f k = sourceHeld \<or> stateOf f k = sourceJudged) (rf_bySID f sid)
          then Some (setLast (\<lambda>q. q\<lparr>hp_returnedAt :=
            Some (rejoin (rf_blocks f) (hp_heldFrom (last (hx_periods h))) (n + 1))\<rparr>) h) else Some h)"
  by (cases "hostOf f sid"; cases "hostOf f x") (auto simp: returnHost_def openPeriod_def setLast_def)

lemma returnHost_moved: "moved sid n f (returnHost sid n f)"
proof -
  have "obs step (hostOf (returnHost sid n f) x) = obs step (hostOf f x)" if "step \<le> n" for step x
    using that obs_return [OF that, of "rejoin (rf_blocks f) (hp_heldFrom (last (hx_periods h))) (n + 1)" h for h]
      rejoin_ge [of "n + 1" "rf_blocks f"]
    by (auto simp: returnHost_host zless_iff_Suc_zadd add1_zle_eq split: option.split)
  then show ?thesis
    by (simp add: moved_def sourcesGrow_def onlyHost_def failsGrow_def sameView_def returnHost_host split: option.split)
qed

lemma setLast_closed: "isOpen h \<Longrightarrow> \<not> isOpen (setLast (\<lambda>q. q\<lparr>hp_returnedAt := Some x\<rparr>) h)"
  by (simp add: isOpen_def setLast_def)

lemma returnHost_open:
  assumes "hostOf (returnHost sid n f) sid = Some h" "isOpen h"
  shows "\<exists>k \<in> set (rf_bySID f sid). stateOf f k = sourceHeld \<or> stateOf f k = sourceJudged"
  using assms setLast_closed by (auto simp: returnHost_host list_ex_iff split: option.splits if_splits)

lemma returnHost_held:
  assumes "k \<in> set (rf_bySID f sid)" "stateOf f k = sourceHeld"
  shows "hostOf (returnHost sid n f) sid = hostOf f sid"
  using assms by (auto simp: returnHost_host list_ex_iff split: option.splits)

definition noDue :: "string \<Rightarrow> int \<Rightarrow> run_failures \<Rightarrow> bool" where
  "noDue sid n f \<longleftrightarrow>
     (\<forall>k s l. fst k = sid \<longrightarrow> sourceOf f k = Some s \<longrightarrow> fs_state s = sourceHeld \<longrightarrow> fs_lastUnit s = Some l \<longrightarrow> n < l)"

lemma dueSources_keys:
  "fst ` set (dueSources f sid n) =
     {k \<in> set (rf_bySID f sid). \<exists>s l. sourceOf f k = Some s \<and> fs_state s = sourceHeld \<and> fs_lastUnit s = Some l \<and> l \<le> n}"
  by (force simp: dueSources_def map_filter_def image_iff split: option.splits if_splits)

lemma sweepHost_source:
  assumes "sweepHost sid n f = (f', eo)"
  shows "sourceOf f' k =
     (if k \<in> fst ` set (dueSources f sid n)
      then map_option (\<lambda>s. s\<lparr>fs_state := sourceJudged, fs_changedAt := n\<rparr>) (sourceOf f k) else sourceOf f k)"
    and "rf_bySID f' = rf_bySID f" "rf_rules f' = rf_rules f" "hostOf f' = hostOf f" "frame f f'" "rf_unitFails f' = rf_unitFails f"
    "dueSources f sid n \<noteq> [] \<Longrightarrow> eo \<noteq> None" "eo = Some e \<Longrightarrow> fe_sid e = sid"
proof -
  have f': "f' = foldl (onSource (judgeSource n)) f (map fst (dueSources f sid n))"
    using assms by (auto simp: sweepHost_def Let_def split: list.splits)
  have "sourceOf f' k = (if k \<in> set (map fst (dueSources f sid n)) then map_option (app (judgeSource n)) (sourceOf f k) else sourceOf f k)"
    unfolding f' by (rule sourceOf_onSources) (simp add: app_def judgeSource_def)
  then show "sourceOf f' k = (if k \<in> fst ` set (dueSources f sid n)
      then map_option (\<lambda>s. s\<lparr>fs_state := sourceJudged, fs_changedAt := n\<rparr>) (sourceOf f k) else sourceOf f k)"
    by (cases "sourceOf f k") simp_all
  show "rf_bySID f' = rf_bySID f" "rf_rules f' = rf_rules f" "hostOf f' = hostOf f" "frame f f'" "rf_unitFails f' = rf_unitFails f"
    by (simp_all add: f' frame_def)
  show "dueSources f sid n \<noteq> [] \<Longrightarrow> eo \<noteq> None" "eo = Some e \<Longrightarrow> fe_sid e = sid"
    using assms by (auto simp: sweepHost_def Let_def split: list.splits)
qed

lemma sweepHost_facts:
  assumes idx: "keysIdx f" and sw: "sweepHost sid n f = (f', eo)"
  shows "moved sid n f f'" "keysIdx f'" "noDue sid n f'" "settledSource (sourceOf f k) \<Longrightarrow> settledSource (sourceOf f' k)"
    "stateOf f' k = sourceHeld \<Longrightarrow> stateOf f k = sourceHeld"
    "stateOf f k = sourceHeld \<or> stateOf f k = sourceJudged \<Longrightarrow> stateOf f' k = sourceHeld \<or> stateOf f' k = sourceJudged"
    "stateOf f' k = sourceJudged \<Longrightarrow> stateOf f k \<noteq> sourceJudged \<Longrightarrow> eo \<noteq> None"
proof -
  note src = sweepHost_source(1) [OF sw] and fields = sweepHost_source(2-8) [OF sw]
  note due = dueSources_keys [of f sid n]
  have "rel_option (grown n) (sourceOf f k) (sourceOf f' k)" for k
    using src [of k] due by (cases "sourceOf f k") (auto simp: grown_def)
  moreover have "sourceOf f' k = sourceOf f k" if "fst k \<noteq> sid" for k
    using src [of k] due keysIdx_in [OF idx] that by auto
  ultimately show "moved sid n f f'" by (intro moved_sourcesI) (use fields in auto)
  have none: "sourceOf f' k = None \<longleftrightarrow> sourceOf f k = None" for k using src [of k] by simp
  show "keysIdx f'" by (rule keysIdx_same [OF idx]) (use fields none in auto)
  show "noDue sid n f'"
    unfolding noDue_def
  proof (intro allI impI)
    fix k s l assume k: "fst k = sid" "sourceOf f' k = Some s" "fs_state s = sourceHeld" "fs_lastUnit s = Some l"
    then have nd: "k \<notin> fst ` set (dueSources f sid n)" and s: "sourceOf f k = Some s" using src [of k] by (auto split: if_splits)
    have "k \<in> set (rf_bySID f sid)" using s k(1) keysIdx_in [OF idx] by simp
    then have "\<not> l \<le> n" using nd s k(3,4) unfolding due by blast
    then show "n < l" by simp
  qed
  show "settledSource (sourceOf f k) \<Longrightarrow> settledSource (sourceOf f' k)"
    using src [of k] by (cases "sourceOf f k") (auto simp: settledSource_def split: if_splits)
  show "stateOf f' k = sourceHeld \<Longrightarrow> stateOf f k = sourceHeld"
    "stateOf f k = sourceHeld \<or> stateOf f k = sourceJudged \<Longrightarrow> stateOf f' k = sourceHeld \<or> stateOf f' k = sourceJudged"
    using src [of k] by (auto simp: stateOf_def split: option.splits if_splits)
  show "stateOf f' k = sourceJudged \<Longrightarrow> stateOf f k \<noteq> sourceJudged \<Longrightarrow> eo \<noteq> None"
    using src [of k] fields(6) by (cases "dueSources f sid n") (auto simp: stateOf_def split: option.splits if_splits)
qed

section \<open>One row\<close>

definition holdOk :: "run_failures \<Rightarrow> string \<Rightarrow> bool" where
  "holdOk f sid \<longleftrightarrow>
     (\<forall>h. hostOf f sid = Some h \<longrightarrow> isOpen h \<longrightarrow>
        (\<exists>k \<in> set (rf_bySID f sid). stateOf f k = sourceHeld \<or> stateOf f k = sourceJudged)) \<and>
     ((\<exists>k \<in> set (rf_bySID f sid). stateOf f k = sourceHeld) \<longrightarrow> outOrHeld (hostOf f sid))"

text \<open>What holds of the failure state between the rows of a barrier.\<close>

definition failInv :: "run_failures \<Rightarrow> bool" where
  "failInv f \<longleftrightarrow>
     keysIdx f \<and> (\<forall>k. settledSource (sourceOf f k)) \<and> (\<forall>sid. holdOk f sid) \<and>
     (\<forall>k. sourceOf f k \<noteq> None \<longrightarrow> map_of (rf_rules f) (fst k) \<noteq> None)"

text \<open>What judging one host leaves.\<close>

definition hostJudged :: "string \<Rightarrow> int \<Rightarrow> run_failures \<Rightarrow> run_failures \<Rightarrow> failure_entry option \<Rightarrow> bool" where
  "hostJudged sid n f f' eo \<longleftrightarrow>
     moved sid n f f' \<and> failInv f' \<and>
     (\<forall>k. stateOf f' k = sourceJudged \<longrightarrow> stateOf f k \<noteq> sourceJudged \<longrightarrow> eo \<noteq> None) \<and>
     (\<forall>e. eo = Some e \<longrightarrow> fe_sid e = sid)"

lemma onlyHostD:
  "onlyHost sid f f' \<Longrightarrow> x \<noteq> sid \<Longrightarrow>
     (fst k = x \<longrightarrow> sourceOf f' k = sourceOf f k) \<and> rf_bySID f' x = rf_bySID f x \<and> hostOf f' x = hostOf f x"
  by (auto simp: onlyHost_def)

lemma holdOk_other:
  assumes "moved sid n f f'" "x \<noteq> sid" "keysIdx f" "holdOk f x"
  shows "holdOk f' x"
proof -
  have o: "onlyHost sid f f'" using assms(1) by (simp add: moved_def)
  have b: "rf_bySID f' x = rf_bySID f x" "hostOf f' x = hostOf f x" using onlyHostD [OF o assms(2)] by blast+
  have "stateOf f' k = stateOf f k" if "k \<in> set (rf_bySID f x)" for k
    using onlyHostD [OF o assms(2), of k] keysIdx_in [OF assms(3)] that by (simp add: stateOf_def)
  then show ?thesis using assms(4) b by (simp add: holdOk_def)
qed

text \<open>The end of a barrier for one host: return it, then sweep it.\<close>

lemma returned_and_swept:
  assumes idx: "keysIdx g" and set: "\<And>k. settledSource (sourceOf g k)"
    and held: "(\<exists>k \<in> set (rf_bySID g sid). stateOf g k = sourceHeld) \<longrightarrow> outOrHeld (hostOf g sid)"
    and sw: "sweepHost sid n (returnHost sid n g) = (f', eo)"
  shows "moved sid n g f'" "keysIdx f'" "settledSource (sourceOf f' k)" "holdOk f' sid" "noDue sid n f'"
    "rf_bySID f' = rf_bySID g" "rf_rules f' = rf_rules g"
    "stateOf f' k = sourceJudged \<Longrightarrow> stateOf g k \<noteq> sourceJudged \<Longrightarrow> eo \<noteq> None" "eo = Some e \<Longrightarrow> fe_sid e = sid"
proof -
  let ?r = "returnHost sid n g"
  have idx': "keysIdx ?r" by (rule keysIdx_same [OF idx]) simp_all
  note facts = sweepHost_facts [OF idx' sw] and fields = sweepHost_source [OF sw]
  show "moved sid n g f'" using moved_trans [OF returnHost_moved facts(1)] .
  show "keysIdx f'" "noDue sid n f'" by (rule facts)+
  show "settledSource (sourceOf f' k)" using facts(4) set by simp
  show "rf_bySID f' = rf_bySID g" "rf_rules f' = rf_rules g" using fields by simp_all
  show "stateOf f' k = sourceJudged \<Longrightarrow> stateOf g k \<noteq> sourceJudged \<Longrightarrow> eo \<noteq> None" using facts(7) by simp
  show "eo = Some e \<Longrightarrow> fe_sid e = sid" using fields(8) .
  have "\<exists>k \<in> set (rf_bySID f' sid). stateOf f' k = sourceHeld \<or> stateOf f' k = sourceJudged"
    if "hostOf f' sid = Some h" "isOpen h" for h
  proof -
    have "hostOf ?r sid = Some h" using that(1) fields(4) by simp
    from returnHost_open [OF this that(2)] obtain k where "k \<in> set (rf_bySID g sid)"
      "stateOf g k = sourceHeld \<or> stateOf g k = sourceJudged" by blast
    then show ?thesis using facts(6) [of k] fields(2) by auto
  qed
  moreover have "outOrHeld (hostOf f' sid)" if "k \<in> set (rf_bySID f' sid)" "stateOf f' k = sourceHeld" for k
  proof -
    have k: "k \<in> set (rf_bySID g sid)" "stateOf g k = sourceHeld" using that facts(5) [of k] fields(2) by simp_all
    then show ?thesis using held returnHost_held [OF k] fields(4) by auto
  qed
  ultimately show "holdOk f' sid" by (auto simp: holdOk_def)
qed

end
