(* ===== verification/Fail_Run.thy ===== *)
theory Fail_Run
  imports Fail_Rows
begin

text \<open>
  A barrier: it keeps the invariant \<open>failInv\<close> of the failure state, an entry names every host it judges, and once it
  is the last of its step nothing held is due any more.
\<close>

section \<open>A judged row\<close>

lemma judgeVerdict_step [simp]: "fe_step (judgeVerdict j hs ss) = j_step j"
  by (simp add: judgeVerdict_def Let_def split: list.split)

lemma judgeRow_cases:
  assumes "judgeRow j hs facts f = (f', j', eo)"
  obtains (cancelled) e where "f' = f" "j' = j" "eo = Some e" "fe_sid e = SID hs" "fe_step e = j_step j"
  | (quiet) a where "f' = f\<lparr>rf_failedRows := a\<rparr>" "j' = j" "eo = None"
  | (judged) a f1 f2 fresh ps r us f6 e1 e2 u where
      "sameCore (f\<lparr>rf_failedRows := a\<rparr>) f1" "newSources j hs ps f1 = (f2, fresh)"
      "\<not> rowFailed (Status hs) \<Longrightarrow> \<forall>p \<in> set ps. \<not> Held r p"
      "(f6, e1) = (if rowFailed (Status hs)
         then decideHost j hs facts fresh u (recordUnitFails (SID hs) us (j_step j) (attachUnitFailures (SID hs) r us (j_step j)
                (failureReason hs) (applyHandled (SID hs) (j_step j) (setRule (SID hs) r f2))))
         else (recordUnitFails (SID hs) us (j_step j) (attachUnitFailures (SID hs) r us (j_step j)
                (failureReason hs) (applyHandled (SID hs) (j_step j) (setRule (SID hs) r f2))), None))"
      "sweepHost (SID hs) (j_step j) (returnHost (SID hs) (j_step j) f6) = (f', e2)"
      "j' = j\<lparr>j_decided := insert (SID hs) (j_decided j)\<rparr>" "eo = e1 \<or> eo = e2" "eo = None \<longleftrightarrow> e1 = None \<and> e2 = None"
proof (cases "Status hs = StatusCancelled")
  case True
  then show ?thesis using assms cancelled [of "judgeVerdict j hs []"] by (auto simp: judgeRow_def Let_def)
next
  case False
  note nc = False
  define fh where "fh = rowFailed (Status hs)"
  define a where "a = (if fh then insert (SID hs, j_step j) (rf_failedRows f) else rf_failedRows f)"
  define f0 where "f0 = (if fh then f\<lparr>rf_failedRows := insert (SID hs, j_step j) (rf_failedRows f)\<rparr> else f)"
  have f0: "f0 = f\<lparr>rf_failedRows := a\<rparr>" by (simp add: f0_def a_def)
  show ?thesis
  proof (cases "j_failedAt j = None \<and> j_executed j = None \<and> \<not> fh")
    case True
    then have "judgeRow j hs facts f = (f0, j, None)"
      using nc unfolding judgeRow_def Let_def fh_def f0_def by simp
    then show ?thesis using assms quiet f0 by simp
  next
    case False
    obtain f1 r1 rp where rp: "replay f0 j (ruleFor f0 (SID hs)) hs = (f1, r1, rp)"
      by (cases "replay f0 j (ruleFor f0 (SID hs)) hs")
    obtain r2 us where r2: "(if fh \<and> rp_unitRow rp \<and> rp_unitsFailed rp = [] \<and> rp_sources rp = []
        then failUnits rp (failureReason hs) r1 else (r1, rp_unitsFailed rp)) = (r2, us)" by force
    define r3 where "r3 = decideUnits f1 (j_step j) r2"
    define ps where "ps = filter (\<lambda>p. fh \<or> \<not> Held r3 p) (rp_sources rp)"
    obtain f2 fresh where f2: "newSources j hs ps f1 = (f2, fresh)" by (cases "newSources j hs ps f1")
    define r4 where "r4 = (if fh then reopenFirst f2 fresh r3 else r3)"
    define f5 where "f5 = recordUnitFails (SID hs) us (j_step j) (attachUnitFailures (SID hs) r4 us (j_step j)
       (failureReason hs) (applyHandled (SID hs) (j_step j) (setRule (SID hs) r4 f2)))"
    obtain f6 e1 where f6: "(if fh then decideHost j hs facts fresh (rp_unitRow rp \<and> us \<noteq> []) f5 else (f5, None)) = (f6, e1)"
      by force
    obtain f7 e2 where f7: "sweepHost (SID hs) (j_step j) (returnHost (SID hs) (j_step j) f6) = (f7, e2)"
      by (cases "sweepHost (SID hs) (j_step j) (returnHost (SID hs) (j_step j) f6)")
    have "judgeRow j hs facts f = (f7, j\<lparr>j_decided := insert (SID hs) (j_decided j)\<rparr>,
        case (e1, e2) of (None, x) \<Rightarrow> x | (Some a, None) \<Rightarrow> Some a
        | (Some a, Some b) \<Rightarrow> Some (if fe_radius a = OnFailureHost \<and> fe_radius b \<noteq> OnFailureHost then b else a))"
      unfolding judgeRow_def Let_def fh_def [symmetric] f0_def [symmetric] if_not_P [OF nc] if_not_P [OF False]
      by (simp add: rp r2 f2 f7 f6 [unfolded f5_def r4_def r3_def] flip: r3_def ps_def r4_def)
    then have eq: "f' = f7" "j' = j\<lparr>j_decided := insert (SID hs) (j_decided j)\<rparr>"
        "eo = e1 \<or> eo = e2" "eo = None \<longleftrightarrow> e1 = None \<and> e2 = None"
      using assms by (cases e1; cases e2; auto)+
    show ?thesis
    proof (rule judged [of a f1 ps f2 fresh r4 f6 e1 "rp_unitRow rp \<and> us \<noteq> []" us e2])
      show "sameCore (f\<lparr>rf_failedRows := a\<rparr>) f1" using sameCore_replay [OF rp] f0 by simp
      show "newSources j hs ps f1 = (f2, fresh)" by (rule f2)
      show "\<not> rowFailed (Status hs) \<Longrightarrow> \<forall>p \<in> set ps. \<not> Held r4 p" by (simp add: ps_def r4_def fh_def)
      show "(f6, e1) = (if rowFailed (Status hs)
         then decideHost j hs facts fresh (rp_unitRow rp \<and> us \<noteq> []) (recordUnitFails (SID hs) us (j_step j)
            (attachUnitFailures (SID hs) r4 us (j_step j) (failureReason hs) (applyHandled (SID hs) (j_step j) (setRule (SID hs) r4 f2))))
         else (recordUnitFails (SID hs) us (j_step j) (attachUnitFailures (SID hs) r4 us (j_step j)
                (failureReason hs) (applyHandled (SID hs) (j_step j) (setRule (SID hs) r4 f2))), None))"
        using f6 [symmetric] unfolding f5_def fh_def .
    qed (use f7 eq in auto)
  qed
qed

lemma stateOf_cong: "sourceOf f k = sourceOf g k \<Longrightarrow> stateOf f k = stateOf g k"
  by (simp add: stateOf_def)

lemma settled_not_new: "settledSource (sourceOf f k) \<Longrightarrow> sourceOf f k \<noteq> None \<Longrightarrow> stateOf f k \<noteq> sourceNew"
  by (auto simp: settledSource_def stateOf_def)

lemma sameSource_state: "rel_option sameSource (sourceOf f k) (sourceOf g k) \<Longrightarrow> stateOf g k = stateOf f k"
  by (cases "sourceOf f k"; cases "sourceOf g k") (auto simp: stateOf_def sameSource_def)

lemma sameSource_settled:
  "rel_option sameSource (sourceOf f k) (sourceOf g k) \<Longrightarrow> settledSource (sourceOf g k) = settledSource (sourceOf f k)"
  by (cases "sourceOf f k"; cases "sourceOf g k") (auto simp: settledSource_def sameSource_def)

text \<open>The state before the host is decided: what the row brought is new or handled, the rest is settled.\<close>

lemma before_deciding:
  assumes inv: "failInv f" and core: "sameCore (f\<lparr>rf_failedRows := a\<rparr>) f1"
    and new: "newSources j hs ps f1 = (f2, fresh)"
    and g: "g = recordUnitFails (SID hs) us (j_step j) (attachUnitFailures (SID hs) r us (j_step j) reason
       (applyHandled (SID hs) (j_step j) (setRule (SID hs) r f2)))"
  shows "moved (SID hs) (j_step j) f g" "keysIdx g" "undecidedAt (SID hs) g fresh" "map_of (rf_rules g) (SID hs) \<noteq> None"
    "hostOf g = hostOf f"
    "k \<notin> set fresh \<Longrightarrow> settledSource (sourceOf g k) \<and> (stateOf g k = stateOf f k \<or> stateOf g k = sourceHandled)"
    "\<forall>p \<in> set ps. \<not> Held r p \<Longrightarrow> k \<in> set fresh \<Longrightarrow> stateOf g k = sourceHandled"
proof -
  let ?sid = "SID hs" and ?n = "j_step j"
  let ?f3 = "applyHandled ?sid ?n (setRule ?sid r f2)"
  let ?f4 = "attachUnitFailures ?sid r us ?n reason ?f3"
  have idx: "keysIdx f" using inv by (simp add: failInv_def)
  have f1: "sourceOf f1 = sourceOf f" "hostOf f1 = hostOf f" "rf_bySID f1 = rf_bySID f" "rf_rules f1 = rf_rules f"
    using sameCoreD [OF core] by simp_all
  have idx1: "keysIdx f1" by (rule keysIdx_same [OF idx]) (simp_all add: f1)
  have m1: "moved ?sid ?n f f1" using moved_trans [OF moved_updates(1) moved_sameCore [OF core]] .
  have idx2: "keysIdx f2" by (rule newSources_keysIdx [OF new idx1])
  have m2: "moved ?sid ?n f f2" using moved_trans [OF m1 newSources_moved [OF new]] .
  have idx2': "keysIdx (setRule ?sid r f2)" by (rule keysIdx_same [OF idx2]) simp_all
  have idx3: "keysIdx ?f3" using idx2' by simp
  have m3: "moved ?sid ?n f ?f3"
    using moved_trans [OF moved_trans [OF m2 moved_updates(3)] applyHandled_moved [OF idx2']] .
  note att = attachUnitFailures_facts [OF idx3, where sid = ?sid and r = r and us = us and n = ?n and reason = reason]
  note rec = recordUnitFails_facts [of ?sid us ?n ?f4, folded g]
  show "moved ?sid ?n f g" using moved_trans [OF moved_trans [OF m3 att(1)]] rec by blast
  show idxg: "keysIdx g" by (rule keysIdx_same [OF att(2)]) (use rec in auto)
  show "map_of (rf_rules g) ?sid \<noteq> None" using rec att(5) by simp
  have h2: "hostOf f2 = hostOf f" 
    using f1(2) newSourcesLoop_fields [of j hs _ _ _ _ f1 f2 fresh] hostOf_cong [of f2 f1] new
    by (auto simp: newSources_def split: if_splits)
  show "hostOf g = hostOf f" using rec att(6) h2 by simp
  note ln = listsNewD [OF newSources_sources [OF new]]
  have same: "rel_option sameSource (sourceOf ?f3 k) (sourceOf g k)" for k using att(3) [of k] rec by simp
  have src3: "sourceOf ?f3 k = (if k \<in> set (rf_bySID f2 ?sid)
     then map_option (\<lambda>s. if fs_state s = sourceJudged \<or> fs_state s = sourceHandled \<or> list_ex (Held r) (fs_members s) then s
                            else s\<lparr>fs_state := sourceHandled, fs_changedAt := ?n\<rparr>) (sourceOf f2 k)
     else sourceOf f2 k)" for k
    using applyHandled_source [of "setRule ?sid r f2" ?sid r ?n k] by simp
  have st3: "stateOf ?f3 k = stateOf f2 k \<or> stateOf ?f3 k = sourceHandled" for k
    using src3 [of k] by (cases "sourceOf f2 k") (auto simp: stateOf_def split: if_splits)
  have fr2: "\<exists>s. sourceOf f2 k = Some s \<and> fst k = ?sid \<and> fs_state s = sourceNew \<and> set (fs_members s) \<subseteq> set ps"
    if "k \<in> set fresh" for k
    using ln(3) [OF that] by (auto simp: bornIn_def)
  show "undecidedAt ?sid g fresh"
    unfolding undecidedAt_def
  proof
    fix k assume k: "k \<in> set fresh"
    from fr2 [OF k] obtain s where s: "sourceOf f2 k = Some s" "fst k = ?sid" "fs_state s = sourceNew" by blast
    have "sourceOf ?f3 k \<noteq> None" using s(1) src3 [of k] by simp
    then have "sourceOf g k \<noteq> None" using same [of k] by (cases "sourceOf g k") auto
    moreover have "stateOf g k \<in> {sourceNew, sourceHandled}"
      using st3 [of k] s(1,3) sameSource_state [OF same, of k] by (auto simp: stateOf_def)
    ultimately show "fst k = ?sid \<and> sourceOf g k \<noteq> None \<and> stateOf g k \<in> {sourceNew, sourceHandled}" using s(2) by blast
  qed
  show "settledSource (sourceOf g k) \<and> (stateOf g k = stateOf f k \<or> stateOf g k = sourceHandled)" if "k \<notin> set fresh"
  proof -
    have f2: "sourceOf f2 k = sourceOf f k" using ln(1) [OF that] f1 by simp
    have "settledSource (sourceOf f k)" using inv by (simp add: failInv_def)
    then have "settledSource (sourceOf ?f3 k)"
      using src3 [of k] f2 by (cases "sourceOf f k") (auto simp: settledSource_def split: if_splits)
    then show ?thesis
      using sameSource_settled [OF same, of k] sameSource_state [OF same, of k] st3 [of k] stateOf_cong [OF f2] by auto
  qed
  show "stateOf g k = sourceHandled" if "\<forall>p \<in> set ps. \<not> Held r p" "k \<in> set fresh"
  proof -
    from fr2 [OF that(2)] obtain s where s: "sourceOf f2 k = Some s" "fs_state s = sourceNew" "set (fs_members s) \<subseteq> set ps" by blast
    have "\<not> list_ex (Held r) (fs_members s)" using s(3) that(1) by (auto simp: list_ex_iff)
    moreover have "k \<in> set (rf_bySID f2 ?sid)" using ln(4) that(2) by simp
    ultimately have "stateOf ?f3 k = sourceHandled" using src3 [of k] s by (simp add: stateOf_def)
    then show ?thesis using sameSource_state [OF same, of k] by simp
  qed
qed

lemma failInv_moved:
  assumes inv: "failInv f" and mv: "moved sid n f f'" and idx: "keysIdx f'" and set: "\<And>k. settledSource (sourceOf f' k)"
    and ok: "holdOk f' sid" and rule: "map_of (rf_rules f') sid \<noteq> None"
  shows "failInv f'"
  unfolding failInv_def
proof (intro conjI allI impI)
  show "holdOk f' x" for x
    using ok holdOk_other [OF mv, of x] inv by (cases "x = sid") (auto simp: failInv_def)
  show "map_of (rf_rules f') (fst k) \<noteq> None" if "sourceOf f' k \<noteq> None" for k
  proof (cases "fst k = sid")
    case False
    then have "sourceOf f k = sourceOf f' k" "map_of (rf_rules f') (fst k) = map_of (rf_rules f) (fst k)"
      using mv by (simp_all add: moved_def onlyHost_def)
    then show ?thesis using that inv by (simp add: failInv_def)
  qed (use rule in simp)
qed (use idx set in auto)

lemma failInv_failedRows [simp]: "failInv (f\<lparr>rf_failedRows := a\<rparr>) = failInv f"
  by (simp add: failInv_def keysIdx_def holdOk_def stateOf_def)

lemma stateOf_failedRows [simp]: "stateOf (f\<lparr>rf_failedRows := a\<rparr>) = stateOf f"
  by (simp add: stateOf_def fun_eq_iff)

lemma noDue_failedRows [simp]: "noDue sid n (f\<lparr>rf_failedRows := a\<rparr>) = noDue sid n f"
  by (simp add: noDue_def)

lemma judgeRow_judged:
  assumes inv: "failInv f" and run: "judgeRow j hs facts f = (f', j', eo)"
  shows "hostJudged (SID hs) (j_step j) f f' eo"
    and "j' = j \<and> sourceOf f' = sourceOf f \<or> j' = j\<lparr>j_decided := insert (SID hs) (j_decided j)\<rparr> \<and> noDue (SID hs) (j_step j) f'"
  using run
proof (atomize (full), cases rule: judgeRow_cases)
  case (cancelled e)
  then show "hostJudged (SID hs) (j_step j) f f' eo \<and> (j' = j \<and> sourceOf f' = sourceOf f \<or> j' = j\<lparr>j_decided := insert (SID hs) (j_decided j)\<rparr> \<and> noDue (SID hs) (j_step j) f')"
    using inv by (simp add: hostJudged_def)
next
  case (quiet a)
  then show "hostJudged (SID hs) (j_step j) f f' eo \<and> (j' = j \<and> sourceOf f' = sourceOf f \<or> j' = j\<lparr>j_decided := insert (SID hs) (j_decided j)\<rparr> \<and> noDue (SID hs) (j_step j) f')"
    using inv by (simp add: hostJudged_def moved_updates)
next
  case (judged a f1 f2 fresh ps r us f6 e1 e2 u)
  let ?sid = "SID hs" and ?n = "j_step j"
  define g where "g = recordUnitFails ?sid us ?n (attachUnitFailures ?sid r us ?n (failureReason hs)
     (applyHandled ?sid ?n (setRule ?sid r f2)))"
  note b = before_deciding [OF inv judged(1,2) g_def]
  have idx: "keysIdx f" using inv by (simp add: failInv_def)
  have f6: "(f6, e1) = (if rowFailed (Status hs) then decideHost j hs facts fresh u g else (g, None))"
    using judged(4) by (simp add: g_def)
  have d: "hostDecided ?sid ?n fresh g f6 e1"
  proof (cases "rowFailed (Status hs)")
    case True
    then show ?thesis using decideHost_decided [OF b(2,3)] f6 by simp
  next
    case False
    then have "f6 = g" "e1 = None" "\<forall>p \<in> set ps. \<not> Held r p" using f6 judged(3) by simp_all
    moreover have "sourceOf g k \<noteq> None" if "k \<in> set fresh" for k using b(3) that by (auto simp: undecidedAt_def)
    ultimately show ?thesis
      using b(7) by (fastforce simp: hostDecided_def settledSource_def stateOf_def split: option.splits)
  qed
  have idx6: "keysIdx f6"
  proof (rule keysIdx_same [OF b(2)])
    show "rf_bySID f6 = rf_bySID g" using d by (simp add: hostDecided_def)
    show "sourceOf f6 k = None \<longleftrightarrow> sourceOf g k = None" for k
      using d b(3) by (cases "k \<in> set fresh") (auto simp: hostDecided_def undecidedAt_def)
  qed
  have set6: "settledSource (sourceOf f6 k)" for k
    using d b(6) [of k] by (cases "k \<in> set fresh") (auto simp: hostDecided_def)
  have st6: "stateOf f6 k = stateOf f k \<or> stateOf f6 k = sourceHandled" if "k \<notin> set fresh" for k
    using d b(6) [OF that] that stateOf_cong [of f6 k g] by (auto simp: hostDecided_def)
  have held6: "(\<exists>k \<in> set (rf_bySID f6 ?sid). stateOf f6 k = sourceHeld) \<longrightarrow> outOrHeld (hostOf f6 ?sid)"
  proof
    assume "\<exists>k \<in> set (rf_bySID f6 ?sid). stateOf f6 k = sourceHeld"
    then obtain k where k: "k \<in> set (rf_bySID f6 ?sid)" "stateOf f6 k = sourceHeld" by blast
    show "outOrHeld (hostOf f6 ?sid)"
    proof (cases "k \<in> set fresh")
      case True
      then show ?thesis using d k(2) by (auto simp: hostDecided_def)
    next
      case False
      then have held: "stateOf f k = sourceHeld" using st6 [of k] k(2) by auto
      then have "sourceOf f k \<noteq> None" by (auto simp: stateOf_def split: option.splits)
      moreover have "fst k = ?sid" using k(1) keysIdx_in [OF idx6] by blast
      ultimately have "k \<in> set (rf_bySID f ?sid)" using keysIdx_in [OF idx] by blast
      then have "outOrHeld (hostOf g ?sid)" using inv held b(5) unfolding failInv_def holdOk_def by metis
      then show ?thesis using d by (simp add: hostDecided_def)
    qed
  qed
  note rs = returned_and_swept [OF idx6 set6 held6 judged(5)]
  have mv: "moved ?sid ?n f f'"
    using moved_trans [OF moved_trans [OF b(1)] rs(1)] d by (simp add: hostDecided_def)
  have rule: "map_of (rf_rules f') ?sid \<noteq> None" using rs(7) d b(4) by (simp add: hostDecided_def)
  have "failInv f'" by (rule failInv_moved [OF inv mv rs(2,3,4) rule])
  moreover have "eo \<noteq> None" if "stateOf f' k = sourceJudged" "stateOf f k \<noteq> sourceJudged" for k
  proof (cases "stateOf f6 k = sourceJudged")
    case False
    then show ?thesis using rs(8) [of k] that judged(8) by auto
  next
    case True
    then have "k \<in> set fresh" using st6 [of k] that(2) by auto
    then show ?thesis using True d judged(8) by (auto simp: hostDecided_def)
  qed
  moreover have "fe_sid e = ?sid" if "eo = Some e" for e
    using that judged(7) d rs(9) by (auto simp: hostDecided_def)
  ultimately show "hostJudged (SID hs) (j_step j) f f' eo \<and> (j' = j \<and> sourceOf f' = sourceOf f \<or> j' = j\<lparr>j_decided := insert (SID hs) (j_decided j)\<rparr> \<and> noDue (SID hs) (j_step j) f')"
    using mv rs(5) judged(6) by (simp add: hostJudged_def)
qed

section \<open>A barrier\<close>

text \<open>What a barrier at step \<open>n\<close> may change, whatever the host.\<close>

definition movedAny :: "int \<Rightarrow> run_failures \<Rightarrow> run_failures \<Rightarrow> bool" where
  "movedAny n f f' \<longleftrightarrow> frame f f' \<and> sourcesGrow n f f' \<and> failsGrow n f f' \<and> sameView n f f'"

lemma movedAny_of: "moved sid n f f' \<Longrightarrow> movedAny n f f'"
  by (simp add: moved_def movedAny_def)

lemma movedAny_refl [simp]: "movedAny n f f"
  by (rule movedAny_of [OF moved_refl])

lemma movedAny_trans: "movedAny n f g \<Longrightarrow> movedAny n g h \<Longrightarrow> movedAny n f h"
  unfolding movedAny_def by (blast intro: frame_trans sourcesGrow_trans failsGrow_trans sameView_trans)

lemma noDue_other: "moved sid n f f' \<Longrightarrow> x \<noteq> sid \<Longrightarrow> noDue x m f \<Longrightarrow> noDue x m f'"
  unfolding noDue_def moved_def onlyHost_def by metis

text \<open>What judging some hosts at a step comes to: the entries name every host with a source judged.\<close>

definition judgedThrough ::
    "step_judge \<Rightarrow> run_failures \<Rightarrow> step_judge \<Rightarrow> run_failures \<Rightarrow> failure_entry list \<Rightarrow> bool" where
  "judgedThrough j f j' f' es \<longleftrightarrow>
     movedAny (j_step j) f f' \<and> failInv f' \<and> j_step j' = j_step j \<and> j_decided j \<subseteq> j_decided j' \<and>
     (\<forall>k. stateOf f' k = sourceJudged \<longrightarrow> stateOf f k \<noteq> sourceJudged \<longrightarrow> fst k \<in> fe_sid ` set es) \<and>
     ((\<forall>sid \<in> j_decided j. noDue sid (j_step j) f) \<longrightarrow> (\<forall>sid \<in> j_decided j'. noDue sid (j_step j) f')) \<and>
     (\<forall>sid. map_of (rf_rules f) sid \<noteq> None \<longrightarrow> map_of (rf_rules f') sid \<noteq> None)"

lemma judgedThrough_refl: "failInv f \<Longrightarrow> judgedThrough j f j f []"
  by (simp add: judgedThrough_def)

lemma judgedThrough_trans:
  assumes "judgedThrough j f j1 f1 es" "judgedThrough j1 f1 j2 f2 es2"
  shows "judgedThrough j f j2 f2 (es @ es2)"
proof -
  have "fst k \<in> fe_sid ` set (es @ es2)" if "stateOf f2 k = sourceJudged" "stateOf f k \<noteq> sourceJudged" for k
    using assms that unfolding judgedThrough_def by (cases "stateOf f1 k = sourceJudged") auto
  then show ?thesis
    using assms movedAny_trans unfolding judgedThrough_def by (auto dest: movedAny_trans)
qed

text \<open>One host.\<close>

lemma hostJudged_through:
  assumes inv: "failInv f" and h: "hostJudged sid (j_step j) f f' eo"
    and d: "j' = j \<and> sourceOf f' = sourceOf f \<or> j' = j\<lparr>j_decided := insert sid (j_decided j)\<rparr> \<and> noDue sid (j_step j) f'"
  shows "judgedThrough j f j' f' (case eo of None \<Rightarrow> [] | Some e \<Rightarrow> [e])"
proof -
  have mv: "moved sid (j_step j) f f'" using h by (simp add: hostJudged_def)
  then have oh: "onlyHost sid f f'" by (simp add: moved_def)
  have "fst k \<in> fe_sid ` set (case eo of None \<Rightarrow> [] | Some e \<Rightarrow> [e])"
    if jk: "stateOf f' k = sourceJudged" "stateOf f k \<noteq> sourceJudged" for k
  proof -
    have "fst k = sid" using jk oh stateOf_cong [of f' k f] unfolding onlyHost_def by metis
    moreover obtain e where "eo = Some e" "fe_sid e = sid" using h jk unfolding hostJudged_def by (cases eo) auto
    ultimately show ?thesis by simp
  qed
  moreover have "\<forall>x \<in> j_decided j'. noDue x (j_step j) f'" if old: "\<forall>x \<in> j_decided j. noDue x (j_step j) f"
  proof
    fix x assume x: "x \<in> j_decided j'"
    show "noDue x (j_step j) f'"
    proof (cases "x = sid")
      case False
      then show ?thesis using noDue_other [OF mv] old x d by auto
    next
      case True
      show ?thesis
      proof (cases "noDue sid (j_step j) f'")
        case False
        then have s: "sourceOf f' = sourceOf f" "j' = j" using d by auto
        then have "noDue x (j_step j) f" using old x by simp
        then show ?thesis unfolding noDue_def s(1) .
      qed (use True in simp)
    qed
  qed
  moreover have "map_of (rf_rules f') x \<noteq> None" if "map_of (rf_rules f) x \<noteq> None" for x
    using oh that unfolding onlyHost_def by (cases "x = sid") auto
  ultimately show ?thesis
    using h movedAny_of [OF mv] d unfolding judgedThrough_def hostJudged_def by auto
qed

lemma judgedThrough_replayed:
  "judgedThrough (j\<lparr>j_replayed := a\<rparr>) f j' f' es \<longleftrightarrow> judgedThrough j f j' f' es"
  "judgedThrough (j\<lparr>j_swept := b\<rparr>) f j' f' es \<longleftrightarrow> judgedThrough j f j' f' es"
  by (simp_all add: judgedThrough_def)

lemma judgeRows_through:
  assumes "failInv f" "judgeRows facts rs j f = (f', j', es)"
  shows "judgedThrough j f j' f' es \<and> j_swept j' = j_swept j \<and> j_tasks j' = j_tasks j"
  using assms
proof (induction rs arbitrary: j f es)
  case Nil
  then show ?case by (simp add: judgedThrough_refl)
next
  case (Cons r rs)
  let ?j0 = "j\<lparr>j_replayed := insert (SID r) (j_replayed j)\<rparr>"
  obtain f1 j1 e where one: "judgeRow ?j0 r (facts (SID r)) f = (f1, j1, e)"
    by (cases "judgeRow ?j0 r (facts (SID r)) f")
  obtain es' where rest: "judgeRows facts rs j1 f1 = (f', j', es')" and es: "es = (case e of None \<Rightarrow> [] | Some x \<Rightarrow> [x]) @ es'"
    using Cons.prems(2) one by (cases "judgeRows facts rs j1 f1") (auto simp: Let_def split: option.splits)
  have "judgedThrough ?j0 f j1 f1 (case e of None \<Rightarrow> [] | Some x \<Rightarrow> [x])"
    by (rule hostJudged_through [OF Cons.prems(1)]) (use judgeRow_judged [OF Cons.prems(1) one] in auto)
  then have t: "judgedThrough j f j1 f1 (case e of None \<Rightarrow> [] | Some x \<Rightarrow> [x])" by (simp add: judgedThrough_replayed)
  moreover have "j_swept j1 = j_swept j \<and> j_tasks j1 = j_tasks j" using judgeRow_judged(2) [OF Cons.prems(1) one] by auto
  moreover have "failInv f1" using t by (simp add: judgedThrough_def)
  ultimately show ?case using Cons.IH [OF _ rest] judgedThrough_trans es by auto
qed

lemma sweep_one:
  assumes inv: "failInv f" and r: "map_of (rf_rules f) sid \<noteq> None"
    and sw: "sweepHost sid n (returnHost sid n (applyHandled sid n (setRule sid q f))) = (f', eo)"
  shows "hostJudged sid n f f' eo" "noDue sid n f'"
proof -
  let ?f1 = "setRule sid q f"
  let ?g = "applyHandled sid n ?f1"
  have idx: "keysIdx f" and set: "settledSource (sourceOf f k)" for k using inv by (auto simp: failInv_def)
  have idx1: "keysIdx ?f1" by (rule keysIdx_same [OF idx]) simp_all
  have src: "sourceOf ?g k = (if k \<in> set (rf_bySID f sid)
     then map_option (\<lambda>s. if fs_state s = sourceJudged \<or> fs_state s = sourceHandled \<or> list_ex (Held q) (fs_members s) then s
                            else s\<lparr>fs_state := sourceHandled, fs_changedAt := n\<rparr>) (sourceOf f k)
     else sourceOf f k)" for k
    using applyHandled_source [of ?f1 sid q n k] by simp
  have st: "stateOf ?g k = stateOf f k \<or> stateOf ?g k = sourceHandled" for k
    using src [of k] by (cases "sourceOf f k") (auto simp: stateOf_def split: if_splits)
  have set': "settledSource (sourceOf ?g k)" for k
    using src [of k] set [of k] by (cases "sourceOf f k") (auto simp: settledSource_def split: if_splits)
  have "(\<exists>k \<in> set (rf_bySID ?g sid). stateOf ?g k = sourceHeld) \<longrightarrow> outOrHeld (hostOf ?g sid)"
    using st inv unfolding failInv_def holdOk_def
    by simp (metis source_state.distinct(7))
  note rs = returned_and_swept [OF applyHandled_keysIdx [OF idx1] set' this sw]
  have mv: "moved sid n f f'"
    using moved_trans [OF moved_trans [OF moved_updates(3) applyHandled_moved [OF idx1]] rs(1)] .
  have "failInv f'" by (rule failInv_moved [OF inv mv rs(2,3,4)]) (simp add: rs(7))
  moreover have "eo \<noteq> None" if "stateOf f' k = sourceJudged" "stateOf f k \<noteq> sourceJudged" for k
    using rs(8) [OF that(1)] st [of k] that(2) by auto
  ultimately show "hostJudged sid n f f' eo" "noDue sid n f'" using mv rs(5,9) by (auto simp: hostJudged_def)
qed

lemma sweepRules_through:
  assumes "failInv f" "sweepRules sids j f = (f', j', es)" "\<forall>sid \<in> set sids. map_of (rf_rules f) sid \<noteq> None"
  shows "judgedThrough j f j' f' es \<and> j_swept j' = j_swept j \<and> set sids \<subseteq> j_decided j' \<and> map fst (rf_rules f') = map fst (rf_rules f)"
  using assms
proof (induction sids arbitrary: j f es)
  case Nil
  then show ?case by (simp add: judgedThrough_refl)
next
  case (Cons sid sids)
  show ?case
  proof (cases "sid \<in> j_decided j")
    case True
    then have rest: "sweepRules sids j f = (f', j', es)" using Cons.prems(2) by simp
    have "judgedThrough j f j' f' es \<and> j_swept j' = j_swept j \<and> set sids \<subseteq> j_decided j' \<and> map fst (rf_rules f') = map fst (rf_rules f)"
      by (rule Cons.IH [OF Cons.prems(1) rest]) (use Cons.prems(3) in simp)
    then show ?thesis using True unfolding judgedThrough_def by auto
  next
    case False
    let ?j1 = "j\<lparr>j_decided := insert sid (j_decided j)\<rparr>"
    let ?q = "decideUnits f (j_step j) (ruleFor f sid)"
    obtain f2 e where one: "sweepHost sid (j_step j) (returnHost sid (j_step j) (applyHandled sid (j_step j) (setRule sid ?q f))) = (f2, e)"
      by (cases "sweepHost sid (j_step j) (returnHost sid (j_step j) (applyHandled sid (j_step j) (setRule sid ?q f)))")
    obtain es' where rest: "sweepRules sids ?j1 f2 = (f', j', es')" and es: "es = (case e of None \<Rightarrow> [] | Some x \<Rightarrow> [x]) @ es'"
      using Cons.prems(2) one False by (cases "sweepRules sids ?j1 f2") (auto simp: Let_def split: option.splits)
    have r: "map_of (rf_rules f) sid \<noteq> None" using Cons.prems(3) by simp
    note so = sweep_one [OF Cons.prems(1) r one]
    have t: "judgedThrough j f ?j1 f2 (case e of None \<Rightarrow> [] | Some x \<Rightarrow> [x])"
      by (rule hostJudged_through [OF Cons.prems(1)]) (use so in auto)
    have rules: "map fst (rf_rules f2) = map fst (rf_rules f)"
    proof -
      have "rf_rules f2 = AList.update sid ?q (rf_rules f)"
        using sweepHost_source(3) [OF one] by (simp add: setRule_def)
      moreover have "sid \<in> set (map fst (rf_rules f))" using r by (auto simp: map_of_eq_None_iff)
      ultimately show ?thesis by (simp add: update_keys)
    qed
    have rest': "judgedThrough ?j1 f2 j' f' es' \<and> j_swept j' = j_swept ?j1 \<and> set sids \<subseteq> j_decided j' \<and> map fst (rf_rules f') = map fst (rf_rules f2)"
    proof (rule Cons.IH [OF _ rest])
      show "failInv f2" using t by (simp add: judgedThrough_def)
      show "\<forall>x \<in> set sids. map_of (rf_rules f2) x \<noteq> None" using t Cons.prems(3) by (simp add: judgedThrough_def)
    qed
    have "judgedThrough j f j' f' es" unfolding es by (rule judgedThrough_trans [OF t]) (use rest' in blast)
    moreover have "sid \<in> j_decided j'" using rest' by (auto simp: judgedThrough_def)
    ultimately show ?thesis using rest' rules by simp
  qed
qed

lemma barrier_through:
  assumes inv: "failInv f" and run: "barrier j rs roster isLast f = (f', j', es)"
  shows "judgedThrough j f j' f' es" "j_swept j' \<longleftrightarrow> j_swept j \<or> isLast"
    "isLast \<Longrightarrow> \<forall>sid \<in> j_decided j. noDue sid (j_step j) f \<Longrightarrow> noDue sid (j_step j) f'"
proof (atomize (full), goal_cases)
  case 1
  obtain f1 j1 es1 where one: "judgeRows (factsBySID roster) (rowsToJudge j rs) j f = (f1, j1, es1)"
    by (cases "judgeRows (factsBySID roster) (rowsToJudge j rs) j f")
  have t: "judgedThrough j f j1 f1 es1" "j_swept j1 = j_swept j" using judgeRows_through [OF inv one] by auto
  show ?case
  proof (cases isLast)
    case False
    then show ?thesis using run one t by (simp add: barrier_def)
  next
    case True
    let ?sids = "sort (remdups (map fst (rf_rules f1)))"
    obtain f2 j2 es2 where two: "sweepRules ?sids (j1\<lparr>j_swept := True\<rparr>) f1 = (f2, j2, es2)"
      by (cases "sweepRules ?sids (j1\<lparr>j_swept := True\<rparr>) f1")
    have eq: "f' = f2" "j' = j2" "es = es1 @ es2" using run one two True by (simp_all add: barrier_def)
    have inv1: "failInv f1" using t by (simp add: judgedThrough_def)
    have "\<forall>sid \<in> set ?sids. map_of (rf_rules f1) sid \<noteq> None" by (auto simp: map_of_eq_None_iff)
    from sweepRules_through [OF inv1 two this]
    have s: "judgedThrough j1 f1 j2 f2 es2" "j_swept j2" "set (map fst (rf_rules f1)) \<subseteq> j_decided j2"
      "map fst (rf_rules f2) = map fst (rf_rules f1)" by (simp_all add: judgedThrough_replayed)
    have all: "judgedThrough j f j2 f2 (es1 @ es2)" by (rule judgedThrough_trans [OF t(1) s(1)])
    have "noDue sid (j_step j) f2" if "\<forall>sid \<in> j_decided j. noDue sid (j_step j) f" for sid
    proof (cases "sid \<in> j_decided j2")
      case True
      then show ?thesis using all that by (auto simp: judgedThrough_def)
    next
      case False
      have inv2: "failInv f2" using all by (simp add: judgedThrough_def)
      have "sourceOf f2 k = None" if "fst k = sid" for k
      proof (rule ccontr)
        assume "sourceOf f2 k \<noteq> None"
        then have "map_of (rf_rules f2) sid \<noteq> None" using inv2 that by (auto simp: failInv_def)
        then have "sid \<in> set (map fst (rf_rules f2))" by (auto simp: map_of_eq_None_iff)
        then show False using s(3,4) False by auto
      qed
      then show ?thesis by (simp add: noDue_def)
    qed
    then show ?thesis using all s(2) eq True by simp
  qed
qed

end
