(* ===== verification/Fail_Wave.thy ===== *)
theory Fail_Wave
  imports Fail_Run
begin

text \<open>
  One wave (\<^verbatim>\<open>judgeWave\<close>): its barrier and the policy after it. The tables keep one entry per key, the entries
  of a barrier carry its step, and the policy changes no source. A run is any sequence of plans, rosters, records and
  waves (\<open>linear_run\<close>), with the invariant \<open>runInv\<close>.
\<close>

section \<open>One entry per key\<close>

definition uniq :: "run_failures \<Rightarrow> bool" where
  "uniq f \<longleftrightarrow> distinct (map fst (rf_sources f)) \<and> distinct (map fst (rf_hosts f))"

lemma uniq_same: "rf_sources f' = rf_sources f \<Longrightarrow> rf_hosts f' = rf_hosts f \<Longrightarrow> uniq f' = uniq f"
  by (simp add: uniq_def)

lemma uniq_updates [simp]:
  "uniq (f\<lparr>rf_failedRows := a\<rparr>) = uniq f" "uniq (f\<lparr>rf_sourceless := b\<rparr>) = uniq f" "uniq (f\<lparr>rf_unitFails := c\<rparr>) = uniq f"
  "uniq (f\<lparr>rf_bySID := d\<rparr>) = uniq f" "uniq (f\<lparr>rf_unitKeys := u, rf_unitSteps := v, rf_unitIDs := w\<rparr>) = uniq f"
  "uniq (f\<lparr>rf_entries := es\<rparr>) = uniq f" "uniq (f\<lparr>rf_roster := rs\<rparr>) = uniq f"
  by (simp_all add: uniq_def)

lemma uniq_setSource [simp]: "uniq f \<Longrightarrow> uniq (setSource k s f)"
  by (simp add: uniq_def setSource_def distinct_update)

lemma uniq_setHost [simp]: "uniq f \<Longrightarrow> uniq (setHost sid h f)"
  by (simp add: uniq_def setHost_def distinct_update)

lemma uniq_setRule [simp]: "uniq (setRule sid r f) = uniq f"
  by (rule uniq_same) (simp_all add: setRule_def)

lemma uniq_onSource [simp]: "uniq f \<Longrightarrow> uniq (onSource g f k)"
  by (simp add: onSource_def split: option.split)

lemma uniq_onSources [simp]: "uniq f \<Longrightarrow> uniq (foldl (onSource g) f ks)"
  by (induction ks arbitrary: f) simp_all

lemma uniq_sameCore: "sameCore f f' \<Longrightarrow> uniq f' = uniq f"
  by (auto simp: sameCore_def)

lemma uniq_newSourcesLoop:
  "uniq f \<Longrightarrow> newSourcesLoop j hs w is byReg out f = (f', ks) \<Longrightarrow> uniq f'"
proof (induction "is" arbitrary: byReg out f)
  case (Cons i "is")
  from Cons.prems show ?case
    by (auto simp: Let_def split: option.splits if_splits intro!: Cons.IH [rotated])
qed simp

lemma uniq_newSources: "uniq f \<Longrightarrow> newSources j hs ps f = (f', ks) \<Longrightarrow> uniq f'"
  by (auto simp: newSources_def intro: uniq_newSourcesLoop split: if_splits)

lemma uniq_applyHandled [simp]: "uniq f \<Longrightarrow> uniq (applyHandled sid n f)"
  by (simp add: applyHandled_def split: option.split)

lemma uniq_attach [simp]: "uniq f \<Longrightarrow> uniq (attachUnitFailures sid r us n reason f)"
  unfolding attachUnitFailures_def by (induction us arbitrary: f) simp_all

lemma uniq_recordUnitFails [simp]: "uniq f \<Longrightarrow> uniq (recordUnitFails sid us n f)"
proof (induction us arbitrary: f)
  case (Cons u us)
  then show ?case by (simp add: recordUnitFails_def Let_def split: option.split)
qed (simp add: recordUnitFails_def)

lemma uniq_holdSources [simp]: "uniq f \<Longrightarrow> uniq (holdSources n ls f)"
proof (induction ls arbitrary: f)
  case (Cons x ls)
  then show ?case by (cases x) (simp add: holdSources_def)
qed (simp add: holdSources_def)

lemma uniq_holdHost [simp]: "uniq f \<Longrightarrow> uniq (holdHost sid facts n f)"
  by (simp add: holdHost_def Let_def)

lemma uniq_returnHost [simp]: "uniq f \<Longrightarrow> uniq (returnHost sid n f)"
  by (simp add: returnHost_def split: option.split)

lemma uniq_sweepHost: "uniq f \<Longrightarrow> sweepHost sid n f = (f', eo) \<Longrightarrow> uniq f'"
  by (auto simp: sweepHost_def Let_def split: list.splits)

lemma uniq_decideHost: "uniq f \<Longrightarrow> decideHost j hs facts fresh uo f = (f', eo) \<Longrightarrow> uniq f'"
  by (auto simp: decideHost_def Let_def split: if_splits option.splits)

lemma uniq_judgeRow:
  assumes "uniq f" "judgeRow j hs facts f = (f', j', eo)"
  shows "uniq f'"
  using assms(2)
proof (cases rule: judgeRow_cases)
  case (judged a f1 f2 fresh ps r us f6 e1 e2 u)
  let ?g = "recordUnitFails (SID hs) us (j_step j) (attachUnitFailures (SID hs) r us (j_step j) (failureReason hs)
      (applyHandled (SID hs) (j_step j) (setRule (SID hs) r f2)))"
  have "uniq f1" using uniq_sameCore [OF judged(1)] assms(1) by simp
  then have "uniq f2" by (rule uniq_newSources [OF _ judged(2)])
  then have g: "uniq ?g" by simp
  have "uniq f6"
  proof (cases "rowFailed (Status hs)")
    case True
    then show ?thesis using uniq_decideHost [OF g, of j hs facts fresh u f6 e1] judged(4) by simp
  next
    case False
    then show ?thesis using judged(4) g by simp
  qed
  then show ?thesis by (intro uniq_sweepHost [OF _ judged(5)]) simp
qed (use assms(1) in auto)

section \<open>The step of an entry\<close>

lemma decideHost_step: "decideHost j hs facts fresh uo f = (f', Some e) \<Longrightarrow> fe_step e = j_step j"
  by (auto simp: decideHost_def Let_def split: if_splits option.splits)

lemma sweepHost_step: "sweepHost sid n f = (f', Some e) \<Longrightarrow> fe_step e = n"
  by (auto simp: sweepHost_def Let_def split: list.splits)

lemma judgeRow_step:
  assumes "judgeRow j hs facts f = (f', j', Some e)"
  shows "fe_step e = j_step j"
  using assms
proof (cases rule: judgeRow_cases)
  case (judged a f1 f2 fresh ps r us f6 e1 e2 u)
  have "fe_step x = j_step j" if "e1 = Some x" for x
    using judged(4) that decideHost_step by (auto split: if_splits dest!: sym [of "(f6, Some x)"])
  then show ?thesis using judged(5,7) sweepHost_step by auto
qed auto

lemma judgeRows_unique:
  "judgeRows facts rs j f = (f', j', es) \<Longrightarrow>
     (uniq f \<longrightarrow> uniq f') \<and> j_step j' = j_step j \<and> (\<forall>e \<in> set es. fe_step e = j_step j)"
proof (induction rs arbitrary: j f es)
  case (Cons r rs)
  let ?j0 = "j\<lparr>j_replayed := insert (SID r) (j_replayed j)\<rparr>"
  obtain f1 j1 e where one: "judgeRow ?j0 r (facts (SID r)) f = (f1, j1, e)"
    by (cases "judgeRow ?j0 r (facts (SID r)) f")
  obtain es' where rest: "judgeRows facts rs j1 f1 = (f', j', es')" and es: "es = (case e of None \<Rightarrow> [] | Some x \<Rightarrow> [x]) @ es'"
    using Cons.prems one by (cases "judgeRows facts rs j1 f1") (auto simp: Let_def split: option.splits)
  have "j_step j1 = j_step j" by (rule judgeRow_cases [OF one]) simp_all
  then show ?case
    using Cons.IH [OF rest] uniq_judgeRow [OF _ one] judgeRow_step [of ?j0 r "facts (SID r)" f f1 j1] one es
    by (auto split: option.splits)
qed simp

lemma sweepRules_unique:
  "sweepRules sids j f = (f', j', es) \<Longrightarrow> (uniq f \<longrightarrow> uniq f') \<and> (\<forall>e \<in> set es. fe_step e = j_step j)"
proof (induction sids arbitrary: j f es)
  case (Cons sid sids)
  show ?case
  proof (cases "sid \<in> j_decided j")
    case True
    then show ?thesis using Cons by simp
  next
    case False
    let ?j1 = "j\<lparr>j_decided := insert sid (j_decided j)\<rparr>"
    let ?g = "returnHost sid (j_step j) (applyHandled sid (j_step j) (setRule sid (decideUnits f (j_step j) (ruleFor f sid)) f))"
    obtain f2 e where one: "sweepHost sid (j_step j) ?g = (f2, e)" by (cases "sweepHost sid (j_step j) ?g")
    obtain es' where rest: "sweepRules sids ?j1 f2 = (f', j', es')" and es: "es = (case e of None \<Rightarrow> [] | Some x \<Rightarrow> [x]) @ es'"
      using Cons.prems one False by (cases "sweepRules sids ?j1 f2") (auto simp: Let_def split: option.splits)
    have "uniq f2" if "uniq f" using uniq_sweepHost [OF _ one] that by simp
    then show ?thesis using Cons.IH [OF rest] sweepHost_step one es by (auto split: option.splits)
  qed
qed simp

lemma barrier_unique:
  assumes "barrier j rs roster isLast f = (f', j', es)"
  shows "uniq f \<Longrightarrow> uniq f'" "e \<in> set es \<Longrightarrow> fe_step e = j_step j"
proof -
  obtain f1 j1 es1 where one: "judgeRows (factsBySID roster) (rowsToJudge j rs) j f = (f1, j1, es1)"
    by (cases "judgeRows (factsBySID roster) (rowsToJudge j rs) j f")
  note a = judgeRows_unique [OF one]
  obtain f2 j2 es2 where two: "sweepRules (sort (remdups (map fst (rf_rules f1)))) (j1\<lparr>j_swept := True\<rparr>) f1 = (f2, j2, es2)"
    by (cases "sweepRules (sort (remdups (map fst (rf_rules f1)))) (j1\<lparr>j_swept := True\<rparr>) f1")
  note b = sweepRules_unique [OF two]
  show "uniq f \<Longrightarrow> uniq f'" "e \<in> set es \<Longrightarrow> fe_step e = j_step j"
    using assms one two a b by (auto simp: barrier_def split: if_splits)
qed

section \<open>The hosts a policy drops\<close>

text \<open>Only hosts change, and one that does is out from the step after \<open>n\<close>.\<close>

definition hostsDropped :: "int \<Rightarrow> run_failures \<Rightarrow> run_failures \<Rightarrow> bool" where
  "hostsDropped n f f' \<longleftrightarrow>
     (\<forall>x. hostOf f' x = hostOf f x \<or>
       (\<exists>h. hostOf f' x = Some h \<and> hx_droppedAt h = Some (n + 1) \<and>
         (case hostOf f x of None \<Rightarrow> hx_periods h = []
          | Some g \<Rightarrow> hx_droppedAt g = None \<and> hx_periods h = hx_periods g)))"

lemma hostsDropped_refl [simp]: "hostsDropped n f f"
  by (simp add: hostsDropped_def)

lemma hostsDropped_trans:
  assumes "hostsDropped n f g" "hostsDropped n g h" shows "hostsDropped n f h"
  unfolding hostsDropped_def
proof
  fix x
  show "hostOf h x = hostOf f x \<or> (\<exists>y. hostOf h x = Some y \<and> hx_droppedAt y = Some (n + 1) \<and>
         (case hostOf f x of None \<Rightarrow> hx_periods y = [] | Some g \<Rightarrow> hx_droppedAt g = None \<and> hx_periods y = hx_periods g))"
    using assms [unfolded hostsDropped_def, THEN spec [of _ x]] by (cases "hostOf f x") auto
qed

definition baseHost :: "(string \<Rightarrow> host_facts option) \<Rightarrow> run_failures \<Rightarrow> string \<Rightarrow> host_failures" where
  "baseHost facts f sid =
     (case hostOf f sid of None \<Rightarrow> \<lparr>hx_facts = factsOr (facts sid) sid, hx_periods = [], hx_droppedAt = None\<rparr> | Some h \<Rightarrow> h)"

lemma dropVerdicts_cons:
  "dropVerdicts facts (v # vs) f =
     (if fe_radius v \<noteq> OnFailureHost \<or> isDropped f (fe_sid v) then dropVerdicts facts vs f
      else (case dropVerdicts facts vs (setHost (fe_sid v) ((baseHost facts f (fe_sid v))\<lparr>hx_droppedAt := Some (fe_step v + 1)\<rparr>) f)
            of (f', out) \<Rightarrow> (f', v # out)))"
  by (simp add: baseHost_def isDropped_def Let_def split: option.split)

declare dropVerdicts.simps(2) [simp del]

lemma isDropped_setHost:
  "isDropped (setHost sid h f) x = (if x = sid then hx_droppedAt h \<noteq> None else isDropped f x)"
  by (simp add: isDropped_def)

lemma hostsDropped_one:
  "\<not> isDropped f sid \<Longrightarrow> hostsDropped n f (setHost sid ((baseHost facts f sid)\<lparr>hx_droppedAt := Some (n + 1)\<rparr>) f)"
  by (auto simp: hostsDropped_def baseHost_def isDropped_def split: option.split)

lemma update_dropped:
  assumes "distinct (map fst hs)" "hx_droppedAt h \<noteq> None"
    "\<not> (case map_of hs sid of None \<Rightarrow> False | Some g \<Rightarrow> hx_droppedAt g \<noteq> None)"
  shows "length (filter (\<lambda>(x, g). hx_droppedAt g \<noteq> None) (AList.update sid h hs)) =
     Suc (length (filter (\<lambda>(x, g). hx_droppedAt g \<noteq> None) hs))"
  using assms
proof (induction hs)
  case (Cons p hs)
  show ?case
  proof (cases "fst p = sid")
    case True
    then show ?thesis using Cons.prems by (cases p) auto
  next
    case False
    then have "length (filter (\<lambda>(x, g). hx_droppedAt g \<noteq> None) (AList.update sid h hs)) =
        Suc (length (filter (\<lambda>(x, g). hx_droppedAt g \<noteq> None) hs))" using Cons by (cases p) auto
    then show ?thesis using False by (cases p) auto
  qed
qed auto

lemma dropCount_setHost:
  assumes "uniq f" "\<not> isDropped f sid" "hx_droppedAt h \<noteq> None"
  shows "dropCount (setHost sid h f) = dropCount f + 1"
  using update_dropped [of "rf_hosts f" h sid] assms
  by (simp add: dropCount_def dropped_hosts_def uniq_def setHost_def isDropped_def hostOf_def)

lemma dropVerdicts_facts:
  "dropVerdicts facts vs f = (f', out) \<Longrightarrow>
     (\<exists>hs. f' = f\<lparr>rf_hosts := hs\<rparr>) \<and> (uniq f \<longrightarrow> uniq f' \<and> dropCount f' = dropCount f + int (length out)) \<and>
     ((\<forall>v \<in> set vs. fe_step v = n) \<longrightarrow> hostsDropped n f f') \<and>
     (\<forall>x. isDropped f' x \<longleftrightarrow> isDropped f x \<or> (\<exists>v \<in> set vs. fe_sid v = x \<and> fe_radius v = OnFailureHost)) \<and>
     fe_sid ` set out = {x. isDropped f' x \<and> \<not> isDropped f x} \<and>
     length out \<le> length (filter (\<lambda>v. \<not> isDropped f (fe_sid v)) vs)"
proof (induction vs arbitrary: f out)
  case Nil
  then show ?case by (auto intro: exI [of _ "rf_hosts f"])
next
  case (Cons v vs)
  show ?case
  proof (cases "fe_radius v \<noteq> OnFailureHost \<or> isDropped f (fe_sid v)")
    case True
    then have run: "dropVerdicts facts vs f = (f', out)" using Cons.prems by (simp add: dropVerdicts_cons)
    show ?thesis using Cons.IH [OF run] True by auto
  next
    case False
    let ?h = "(baseHost facts f (fe_sid v))\<lparr>hx_droppedAt := Some (fe_step v + 1)\<rparr>"
    let ?f = "setHost (fe_sid v) ?h f"
    obtain out' where run: "dropVerdicts facts vs ?f = (f', out')" and out: "out = v # out'"
      using Cons.prems False by (auto simp: dropVerdicts_cons split: prod.splits)
    note ih = Cons.IH [OF run]
    have le: "length (filter (\<lambda>v. \<not> isDropped ?f (fe_sid v)) vs) \<le> length (filter (\<lambda>v. \<not> isDropped f (fe_sid v)) vs)"
      by (induction vs) (auto simp: isDropped_setHost)
    obtain hs where hs: "f' = ?f\<lparr>rf_hosts := hs\<rparr>" using ih by blast
    have "f' = f\<lparr>rf_hosts := hs\<rparr>" by (simp add: hs setHost_def)
    moreover have "uniq f' \<and> dropCount f' = dropCount f + int (length out)" if "uniq f"
      using ih that dropCount_setHost [of f "fe_sid v" ?h] False out by simp
    moreover have "hostsDropped n f f'" if all: "\<forall>u \<in> set (v # vs). fe_step u = n"
    proof (rule hostsDropped_trans)
      show "hostsDropped n f ?f" using hostsDropped_one [of f "fe_sid v" n facts] all False by simp
      show "hostsDropped n ?f f'" using ih all by simp
    qed
    moreover have "length out \<le> length (filter (\<lambda>v. \<not> isDropped f (fe_sid v)) (v # vs))"
      using ih le out False by simp
    moreover have d: "isDropped f' x \<longleftrightarrow> isDropped f x \<or> (\<exists>u \<in> set (v # vs). fe_sid u = x \<and> fe_radius u = OnFailureHost)" for x
      using ih False by (auto simp: isDropped_setHost)
    moreover have "fe_sid ` set out = {x. isDropped f' x \<and> \<not> isDropped f x}"
    proof -
      have "fe_sid ` set out' = {x. isDropped f' x \<and> \<not> isDropped ?f x}" using ih by blast
      moreover have "isDropped f' (fe_sid v)" using d False by auto
      ultimately show ?thesis using out False by (auto simp: isDropped_setHost)
    qed
    ultimately show ?thesis by blast
  qed
qed

section \<open>What a wave leaves\<close>

text \<open>What the policy of a step \<open>n\<close> does with verdicts \<open>vs\<close>.\<close>

definition policed :: "int \<Rightarrow> failure_entry list \<Rightarrow> run_failures \<Rightarrow> run_failures \<Rightarrow> bool" where
  "policed n vs f f' \<longleftrightarrow>
     rf_sources f' = rf_sources f \<and> rf_bySID f' = rf_bySID f \<and> rf_rules f' = rf_rules f \<and> rf_unitFails f' = rf_unitFails f \<and>
     rf_closed f' = rf_closed f \<and> rf_entries f' = rf_entries f @ vs \<and> (uniq f \<longrightarrow> uniq f') \<and>
     hostsDropped n f f' \<and> (if rf_ended f then rf_ended f' \<and> rf_endedAt f' = rf_endedAt f else rf_ended f' \<longrightarrow> rf_endedAt f' = n)"

lemma policed_dropped:
  assumes "dropHosts vs roster (f\<lparr>rf_entries := rf_entries f @ vs\<rparr>) = (f', out)" "\<forall>v \<in> set vs. fe_step v = n"
    "rf_ended f' \<longrightarrow> rf_ended f"
  shows "policed n vs f f'"
proof -
  let ?g = "f\<lparr>rf_entries := rf_entries f @ vs\<rparr>"
  note d = dropVerdicts_facts [OF assms(1) [unfolded dropHosts_def], of n]
  obtain hs where hs: "f' = ?g\<lparr>rf_hosts := hs\<rparr>" using d by blast
  have "hostsDropped n ?g f'" using d assms(2) by blast
  then have "hostsDropped n f f'" by (simp add: hostsDropped_def)
  then show ?thesis using d assms(3) hs by (auto simp: policed_def)
qed

lemma settle_policed:
  assumes "settle_verdicts n vs owner reached roster f = (f', res)" "\<forall>v \<in> set vs. fe_step v = n" "\<not> rf_closed f"
  shows "policed n vs f f'"
proof -
  let ?g = "f\<lparr>rf_entries := rf_entries f @ vs\<rparr>"
  obtain h out where dr: "dropHosts vs roster ?g = (h, out)" by (cases "dropHosts vs roster ?g")
  have ended: "rf_ended h = rf_ended f"
    using dropVerdicts_facts [OF dr [unfolded dropHosts_def], of n] by auto
  have same: "policed n vs f ?g" by (simp add: policed_def hostsDropped_def)
  have end_: "policed n vs f (endRun n lead ?g)" if "\<not> rf_ended f" for lead
    using that by (simp add: policed_def hostsDropped_def endRun_def hostOf_def uniq_def)
  have drop_: "policed n vs f h" by (rule policed_dropped [OF dr assms(2)]) (simp add: ended)
  show ?thesis
    using assms(1,3) same end_ drop_
    by (auto simp: settle_verdicts_def appendEntries_def dr split: option.splits if_splits)
qed

text \<open>A wave is a barrier and the policy.\<close>

lemma judgeWave_cases:
  assumes "judgeWave audit rs roster isLast j f = (f', j', res)"
  obtains j0 f1 vs where "barrier j0 rs roster isLast f = (f1, j', vs)" "j_step j0 = j_step j" "j_decided j0 = j_decided j"
    "settle_verdicts (j_step j) vs (j_owner j) (reachedHosts rs) roster f1 = (f', res)"
proof -
  let ?j0 = "noteUnreported audit rs (readFacts audit rs f j)"
  obtain f1 j1 vs where b: "barrier ?j0 rs roster isLast f = (f1, j1, vs)" by (cases "barrier ?j0 rs roster isLast f")
  show ?thesis
  proof (rule that [of ?j0 f1 vs])
    show "j_step ?j0 = j_step j" "j_decided ?j0 = j_decided j"
      by (simp_all add: noteUnreported_def readFacts_def Let_def split: option.split)
    show "barrier ?j0 rs roster isLast f = (f1, j', vs)" using assms b by (auto simp: judgeWave_def split: prod.splits)
    show "settle_verdicts (j_step j) vs (j_owner j) (reachedHosts rs) roster f1 = (f', res)"
      using assms b by (auto simp: judgeWave_def split: prod.splits)
  qed
qed

lemma policed_source:
  assumes "policed n vs f f'"
  shows "sourceOf f' = sourceOf f" "stateOf f' = stateOf f" "noDue sid m f' = noDue sid m f"
  using assms sourceOf_cong [of f' f] by (simp_all add: policed_def noDue_def stateOf_def fun_eq_iff)

lemma hostsDropped_out:
  assumes "hostsDropped n f f'"
  shows "outOrHeld (hostOf f x) \<Longrightarrow> outOrHeld (hostOf f' x)" "hostOf f' x = Some h \<Longrightarrow> isOpen h \<Longrightarrow> hostOf f x = Some h"
  using assms [unfolded hostsDropped_def, THEN spec [of _ x]] by (auto simp: outOrHeld_def isOpen_def)

lemma policed_failInv:
  assumes "policed n vs f f'" "failInv f"
  shows "failInv f'"
proof -
  have same: "rf_bySID f' = rf_bySID f" "rf_rules f' = rf_rules f" and hd: "hostsDropped n f f'"
    using assms(1) by (simp_all add: policed_def)
  note src = policed_source [OF assms(1)]
  have "holdOk f' x" for x
    using assms(2) hostsDropped_out [OF hd] unfolding failInv_def holdOk_def same src by metis
  moreover have "keysIdx f'" by (rule keysIdx_same [of f]) (use assms(2) same src in \<open>simp_all add: failInv_def\<close>)
  ultimately show ?thesis using assms(2) unfolding failInv_def same src by blast
qed

lemma policed_failed: "policed n vs f f' \<Longrightarrow> sourcesGrow n f f' \<and> failsGrow n f f'"
  using policed_source(1) [of n vs f f'] by (simp add: sourcesGrow_def failsGrow_def policed_def split: option.split)

lemma hostsDropped_view: "hostsDropped n f f' \<Longrightarrow> sameView n f f'"
  unfolding sameView_def
proof (intro allI impI)
  fix step x assume hd: "hostsDropped n f f'" and le: "step \<le> n"
  have "reachedAt (Some (n + 1)) step = None" using le by (simp add: reachedAt_def)
  then show "obs step (hostOf f' x) = obs step (hostOf f x)"
    using hd [unfolded hostsDropped_def, THEN spec [of _ x]] by (auto simp: obs_def reachedAt_def split: option.splits)
qed

text \<open>What a wave keeps of the history, what it reports, and what is left of the held failures.\<close>

definition waved :: "int \<Rightarrow> run_failures \<Rightarrow> run_failures \<Rightarrow> failure_entry list \<Rightarrow> bool" where
  "waved n f f' vs \<longleftrightarrow>
     sourcesGrow n f f' \<and> failsGrow n f f' \<and> sameView n f f' \<and> rf_closed f' = rf_closed f \<and>
     rf_entries f' = rf_entries f @ vs \<and> (\<forall>v \<in> set vs. fe_step v = n) \<and>
     (if rf_ended f then rf_ended f' \<and> rf_endedAt f' = rf_endedAt f else rf_ended f' \<longrightarrow> rf_endedAt f' = n) \<and>
     (\<forall>k. stateOf f' k = sourceJudged \<longrightarrow> stateOf f k \<noteq> sourceJudged \<longrightarrow> fst k \<in> fe_sid ` set vs)"

lemma judgeWave_waved:
  assumes inv: "failInv f" "uniq f" and run: "judgeWave audit rs roster isLast j f = (f', j', res)" and cl: "\<not> rf_closed f"
  shows "failInv f'" "uniq f'" "\<exists>vs. waved (j_step j) f f' vs" "j_step j' = j_step j"
    "\<forall>sid \<in> j_decided j. noDue sid (j_step j) f \<Longrightarrow> \<forall>sid \<in> j_decided j'. noDue sid (j_step j) f'"
    "\<forall>sid \<in> j_decided j. noDue sid (j_step j) f \<Longrightarrow> isLast \<Longrightarrow> noDue sid (j_step j) f'"
proof -
  let ?n = "j_step j"
  obtain j0 f1 vs where b: "barrier j0 rs roster isLast f = (f1, j', vs)" and j0: "j_step j0 = ?n" "j_decided j0 = j_decided j"
    and s: "settle_verdicts ?n vs (j_owner j) (reachedHosts rs) roster f1 = (f', res)"
    by (rule judgeWave_cases [OF run])
  note t = barrier_through [OF inv(1) b, unfolded j0] and u = barrier_unique [OF b, unfolded j0]
  have steps: "\<forall>v \<in> set vs. fe_step v = ?n" using u(2) by blast
  have mv: "movedAny ?n f f1" and inv1: "failInv f1" using t(1) by (simp_all add: judgedThrough_def j0)
  then have frame: "frame f f1" by (simp add: movedAny_def)
  have p: "policed ?n vs f1 f'" by (rule settle_policed [OF s steps]) (use frame cl in \<open>simp add: frame_def\<close>)
  have hd: "hostsDropped ?n f1 f'" using p by (simp add: policed_def)
  note src = policed_source [OF p]
  show "failInv f'" by (rule policed_failInv [OF p inv1])
  show "uniq f'" using p u(1) inv(2) by (simp add: policed_def)
  show "j_step j' = ?n" using t(1) by (simp add: judgedThrough_def j0)
  show "\<forall>sid \<in> j_decided j'. noDue sid ?n f'" if "\<forall>sid \<in> j_decided j. noDue sid ?n f"
    using t(1) that unfolding judgedThrough_def src j0 by blast
  show "noDue sid ?n f'" if "\<forall>sid \<in> j_decided j. noDue sid ?n f" isLast
    using t(3) [OF that(2,1), of sid] unfolding src .
  have "sourcesGrow ?n f f'" "failsGrow ?n f f'" "sameView ?n f f'"
    using mv policed_failed [OF p] hostsDropped_view [OF hd] unfolding movedAny_def
    by (blast intro: sourcesGrow_trans failsGrow_trans sameView_trans)+
  moreover have "fst k \<in> fe_sid ` set vs" if "stateOf f' k = sourceJudged" "stateOf f k \<noteq> sourceJudged" for k
    using t(1) that unfolding judgedThrough_def src j0 by blast
  ultimately have "waved ?n f f' vs"
    using p frame steps by (simp add: waved_def policed_def frame_def split: if_splits)
  then show "\<exists>vs. waved ?n f f' vs" by blast
qed

section \<open>Runs\<close>

text \<open>The failure state and the judge of the step a run is at; \<open>'r\<close> is what a row carries to be sent, which nothing here reads.\<close>

inductive linear_run :: "'r itself \<Rightarrow> run_failures \<Rightarrow> step_judge \<Rightarrow> bool" for R :: "'r itself" where
  start: "linear_run R newRunFailures (newStepJudge settings 0 ts sent settled)"
| plan: "linear_run R f j \<Longrightarrow> linear_run R (setPlan covers steps f) j"
| roster: "linear_run R f j \<Longrightarrow> linear_run R (useRoster hs f) j"
| missed: "linear_run R f j \<Longrightarrow> linear_run R (recordMissed n ts plans f) j"
| step: "linear_run R f j \<Longrightarrow> j_step j < p \<Longrightarrow> linear_run R f (newStepJudge settings p ts sent settled)"
| wave: "linear_run R f j \<Longrightarrow> judgeWave audit (rs :: 'r run_row list) hs isLast j f = (f', j', res)
         \<Longrightarrow> linear_run R f' j'"

text \<open>Every judged source has an entry of its host, a host decided at the step holds nothing due, and the list is not closed.\<close>

definition runInv :: "run_failures \<Rightarrow> step_judge \<Rightarrow> bool" where
  "runInv f j \<longleftrightarrow>
     failInv f \<and> uniq f \<and> (\<forall>k. stateOf f k = sourceJudged \<longrightarrow> fst k \<in> fe_sid ` set (rf_entries f)) \<and>
     (\<forall>sid \<in> j_decided j. noDue sid (j_step j) f) \<and> \<not> rf_closed f"

text \<open>What a missed record changes: the registers of the last period of a host.\<close>

definition sameHosts :: "run_failures \<Rightarrow> run_failures \<Rightarrow> bool" where
  "sameHosts f f' \<longleftrightarrow>
     rf_sources f' = rf_sources f \<and> rf_bySID f' = rf_bySID f \<and> rf_rules f' = rf_rules f \<and> rf_entries f' = rf_entries f \<and>
     rf_closed f' = rf_closed f \<and> (uniq f \<longrightarrow> uniq f') \<and> (\<forall>x. map_option isOpen (hostOf f' x) = map_option isOpen (hostOf f x)) \<and>
     (\<forall>x. outOrHeld (hostOf f' x) = outOrHeld (hostOf f x))"

lemma sameHosts_trans: "sameHosts f g \<Longrightarrow> sameHosts g h \<Longrightarrow> sameHosts f h"
  by (simp add: sameHosts_def)

lemma sameHosts_setHost:
  assumes "hostOf f sid = Some h" "isOpen h' = isOpen h" "hx_droppedAt h' = hx_droppedAt h"
  shows "sameHosts f (setHost sid h' f)"
  using assms by (simp add: sameHosts_def outOrHeld_def)

lemma sameHosts_refl [simp]: "sameHosts f f"
  by (simp add: sameHosts_def)

lemma sameHosts_missOne: "sameHosts f (missOne n t f sid)"
proof (cases "missOne n t f sid = f")
  case False
  then obtain h p where h: "hostOf f sid = Some h" "heldAt (Some h) n = Some p"
    by (auto simp: missOne_def split: option.splits)
  then have "hx_periods h \<noteq> []" by (auto simp: heldAt_def split: if_splits)
  then have "isOpen (setLast (\<lambda>p. p\<lparr>hp_missed := (hp_missed p)(rt_register t \<mapsto> missedRegister t)\<rparr>) h) = isOpen h"
    by (simp add: isOpen_def setLast_def)
  then show ?thesis using sameHosts_setHost [OF h(1)] h by (simp add: missOne_def setLast_def)
qed simp

lemma sameHosts_foldl: "(\<And>f x. sameHosts f (g f x)) \<Longrightarrow> sameHosts f (foldl g f xs)"
proof (induction xs arbitrary: f)
  case (Cons x xs)
  show ?case using sameHosts_trans [OF Cons.prems [of f x] Cons.IH [OF Cons.prems, of "g f x"]] by simp
qed simp

lemma sameHosts_missed: "sameHosts f (recordMissed n ts plans f)"
  unfolding recordMissed_def
  by (rule sameHosts_foldl) (auto simp: sameHosts_missOne intro: sameHosts_foldl split: option.split)

lemma sameHosts_plan: "sameHosts f (setPlan covers steps f)" "sameHosts f (useRoster hs f)"
  by (simp_all add: sameHosts_def setPlan_def useRoster_def uniq_def hostOf_def)

lemma runInv_sameHosts:
  assumes "sameHosts f f'" "runInv f j" shows "runInv f' j"
proof -
  have same: "rf_bySID f' = rf_bySID f" "rf_rules f' = rf_rules f" "rf_entries f' = rf_entries f" "rf_closed f' = rf_closed f"
    and src: "sourceOf f' = sourceOf f" using assms(1) sourceOf_cong [of f' f] by (simp_all add: sameHosts_def)
  have st: "stateOf f' = stateOf f" by (simp add: stateOf_def fun_eq_iff src)
  have ok: "holdOk f' x" for x
  proof -
    have "holdOk f x" using assms(2) by (simp add: runInv_def failInv_def)
    moreover have "outOrHeld (hostOf f' x) = outOrHeld (hostOf f x)" "map_option isOpen (hostOf f' x) = map_option isOpen (hostOf f x)"
      using assms(1) by (simp_all add: sameHosts_def)
    ultimately show ?thesis unfolding holdOk_def same st by (cases "hostOf f' x"; cases "hostOf f x") auto
  qed
  have "keysIdx f'" by (rule keysIdx_same [of f]) (use assms(2) same src in \<open>simp_all add: runInv_def failInv_def\<close>)
  then have "failInv f'" using ok assms(2) unfolding failInv_def runInv_def same src by blast
  moreover have "uniq f'" using assms by (simp add: sameHosts_def runInv_def)
  ultimately show ?thesis using assms(2) unfolding runInv_def noDue_def same st src by blast
qed

lemma failInv_new: "failInv newRunFailures"
  by (simp add: failInv_def keysIdx_def settledSource_def holdOk_def newRunFailures_def sourceOf_def hostOf_def)

lemma linear_run_inv: "linear_run R f j \<Longrightarrow> runInv f j"
proof (induction rule: linear_run.induct)
  case (start settings ts sent settled)
  show ?case using failInv_new
    by (simp add: runInv_def newStepJudge_def uniq_def stateOf_def sourceOf_def) (simp add: newRunFailures_def)
next
  case (plan f j covers steps)
  show ?case by (rule runInv_sameHosts [OF sameHosts_plan(1) plan.IH])
next
  case (roster f j hs)
  show ?case by (rule runInv_sameHosts [OF sameHosts_plan(2) roster.IH])
next
  case (missed f j n ts plans)
  show ?case by (rule runInv_sameHosts [OF sameHosts_missed missed.IH])
next
  case (step f j p settings ts sent settled)
  then show ?case by (simp add: runInv_def newStepJudge_def)
next
  case (wave f j audit rs hs isLast f' j' res)
  have inv: "failInv f" "uniq f" "\<not> rf_closed f" and old: "\<forall>sid \<in> j_decided j. noDue sid (j_step j) f"
    using wave.IH by (simp_all add: runInv_def)
  note w = judgeWave_waved [OF inv(1,2) wave.hyps(2) inv(3)]
  obtain vs where vs: "waved (j_step j) f f' vs" using w(3) by blast
  have "fst k \<in> fe_sid ` set (rf_entries f')" if "stateOf f' k = sourceJudged" for k
  proof (cases "stateOf f k = sourceJudged")
    case True
    then show ?thesis using wave.IH vs by (auto simp: runInv_def waved_def)
  next
    case False
    then show ?thesis using vs that unfolding waved_def by (metis UnI2 image_Un set_append)
  qed
  moreover have "\<not> rf_closed f'" using vs inv(3) by (simp add: waved_def)
  ultimately show ?case using w(1,2,4) w(5) [OF old] by (simp add: runInv_def)
qed

end
