(* ===== verification/Fail_Claims.thy ===== *)
theory Fail_Claims
  imports Fail_Wave
begin

text \<open>
  The properties of a linear run under its failure policy: what a barrier leaves undecided, what the error of the run
  names, when the run goes on, what a step sees of the history, and the marks on the rows.
\<close>

section \<open>The failure list\<close>

lemma sourceKeys_in: "k \<in> set (sourceKeys f) \<longleftrightarrow> sourceOf f k \<noteq> None"
  by (simp add: sourceKeys_def sourceOf_def map_of_eq_None_iff)

lemma map_filter_in: "x \<in> set (List.map_filter g xs) \<longleftrightarrow> (\<exists>k \<in> set xs. g k = Some x)"
  by (induction xs) (auto simp: map_filter_simps split: option.splits)

definition heldOf :: "run_failures \<Rightarrow> source_key \<Rightarrow> failure_entry option" where
  "heldOf f k = (case sourceOf f k of
     Some s \<Rightarrow> if fs_state s = sourceHeld then Some (heldEntry k s) else None | None \<Rightarrow> None)"

lemma heldOf_Some: "heldOf f k = Some e \<longleftrightarrow> (\<exists>s. sourceOf f k = Some s \<and> fs_state s = sourceHeld \<and> e = heldEntry k s)"
  by (auto simp: heldOf_def split: option.split)

lemma closeList_held:
  assumes "\<not> rf_closed f"
  shows "sid \<in> fe_sid ` set (rf_entries f) \<Longrightarrow> sid \<in> fe_sid ` set (rf_entries (closeList f))"
    "stateOf f k = sourceHeld \<Longrightarrow> fst k \<in> fe_sid ` set (rf_entries (closeList f))"
proof -
  have e: "rf_entries (closeList f) = rf_entries f @ List.map_filter (heldOf f) (sourceKeys f)"
    using assms by (simp add: closeList_def heldOf_def [abs_def])
  show "sid \<in> fe_sid ` set (rf_entries f) \<Longrightarrow> sid \<in> fe_sid ` set (rf_entries (closeList f))" by (auto simp: e)
  assume "stateOf f k = sourceHeld"
  then obtain s where s: "sourceOf f k = Some s" "fs_state s = sourceHeld" by (auto simp: stateOf_def split: option.splits)
  then have "k \<in> set (sourceKeys f)" by (simp add: sourceKeys_in)
  then have "heldEntry k s \<in> set (rf_entries (closeList f))"
    using heldOf_Some s unfolding e by (auto simp: map_filter_in)
  then show "fst k \<in> fe_sid ` set (rf_entries (closeList f))" by (force simp: heldEntry_def)
qed

section \<open>The view of a step\<close>

lemma map_of_map_filter:
  "distinct (map fst xs) \<Longrightarrow>
     map_of (List.map_filter (\<lambda>(k, v). map_option (Pair k) (g v)) xs) k = Option.bind (map_of xs k) g"
proof (induction xs)
  case (Cons p xs)
  obtain a b where p: "p = (a, b)" by (cases p)
  have "map_of xs a = None" using Cons.prems p by (auto simp: map_of_eq_None_iff)
  then show ?case using Cons p by (cases "g b") (auto simp: map_filter_simps)
qed (simp add: map_filter_simps)

lemma viewHosts_of:
  assumes "uniq f"
  shows "map_of (viewHosts f s) x =
     (case hostOf f x of None \<Rightarrow> None | Some h \<Rightarrow> if snd (atStep h s) then Some (fst (atStep h s)) else None)"
proof -
  have "viewHosts f s = List.map_filter (\<lambda>(k, v). map_option (Pair k)
      (if snd (atStep v s) then Some (fst (atStep v s)) else None)) (rf_hosts f)"
    unfolding viewHosts_def by (rule arg_cong [of _ _ "\<lambda>g. List.map_filter g (rf_hosts f)"]) (auto simp: fun_eq_iff split: prod.split)
  then show ?thesis
    using map_of_map_filter [of "rf_hosts f" "\<lambda>v. if snd (atStep v s) then Some (fst (atStep v s)) else None" x] assms
    by (simp add: uniq_def hostOf_def split: option.split)
qed

text \<open>The standing at a step is a function of what the step observes of the host.\<close>

definition standingObs :: "(int \<times> int option) list \<times> int option \<Rightarrow> standing" where
  "standingObs ob = (if snd ob \<noteq> None then HostDropped
     else if fst ob \<noteq> [] \<and> snd (last (fst ob)) = None then HostHeld else HostLive)"

lemma standingOf_view: "uniq f \<Longrightarrow> standingOf (viewAt f s) x = standingObs (obs s (hostOf f x))"
  by (auto simp: standingOf_def viewAt_def Let_def viewHosts_of atStep_def standingObs_def obs_def last_map split: option.splits)

definition unhandledBefore :: "int \<Rightarrow> failed_source \<Rightarrow> int \<Rightarrow> bool" where
  "unhandledBefore n s m \<longleftrightarrow>
     fs_failedAt s < n \<and> (fs_state s = sourceHandled \<longrightarrow> fs_changedAt s \<ge> n) \<and> m \<in> set (fs_members s)"

lemma unhandledKeys_view:
  assumes "uniq f"
  shows "(sid, m) \<in> unhandledKeys (viewAt f n) \<longleftrightarrow>
     (\<exists>k s. sourceOf f k = Some s \<and> fst k = sid \<and> unhandledBefore n s m)"
proof -
  have set: "ks \<in> set (rf_sources f) \<longleftrightarrow> sourceOf f (fst ks) = Some (snd ks)" for ks
    using assms by (cases ks) (simp add: uniq_def sourceOf_def)
  have "(sid, m) \<in> unhandledKeys (viewAt f n) \<longleftrightarrow>
      (\<exists>ks \<in> set (rf_sources f). fst (fst ks) = sid \<and> unhandledBefore n (snd ks) m)"
    by (auto simp: unhandledKeys_def viewAt_def viewSources_def viewSource_def unhandledBefore_def Let_def split_beta split: if_splits)
  then show ?thesis unfolding Bex_def set by (metis fst_conv snd_conv)
qed

lemma unhandled_step:
  assumes "sourcesGrow n f f'" "m \<le> n"
  shows "(\<exists>s. sourceOf f' k = Some s \<and> unhandledBefore m s i) \<longleftrightarrow> (\<exists>s. sourceOf f k = Some s \<and> unhandledBefore m s i)"
  using assms(1) [unfolded sourcesGrow_def, THEN spec [of _ k]] assms(2)
  by (cases "sourceOf f k"; cases "sourceOf f' k") (auto simp: grown_def unhandledBefore_def)

section \<open>Marks on rows\<close>

text \<open>A row of the map is marked when every source on it is handled.\<close>

definition markRow :: "run_row_key set \<Rightarrow> (run_row_key \<times> bool) list \<Rightarrow> run_row_key \<times> bool \<Rightarrow> (run_row_key \<times> bool) list" where
  "markRow F m p = (if fst p \<notin> F then m
     else AList.update (fst p) ((case map_of m (fst p) of None \<Rightarrow> True | Some a \<Rightarrow> a) \<and> snd p) m)"

lemma handledMap_fold: "handledMap f = foldl (markRow (rf_failedRows f)) [] (rowsOfSources f)"
  unfolding handledMap_def by (rule arg_cong [of _ _ "\<lambda>g. foldl g [] (rowsOfSources f)"]) (simp add: fun_eq_iff markRow_def split: prod.split)

lemma marked_rows:
  "(map_of (foldl (markRow F) m ps) row = Some True \<longrightarrow>
      (map_of m row = Some True \<or> map_of m row = None \<and> row \<in> fst ` set ps \<and> row \<in> F) \<and> (\<forall>a. (row, a) \<in> set ps \<longrightarrow> row \<in> F \<longrightarrow> a)) \<and>
   (distinct (map fst m) \<longrightarrow> distinct (map fst (foldl (markRow F) m ps)))"
proof (induction ps arbitrary: m)
  case (Cons p ps)
  show ?case using Cons.IH [of "markRow F m p"]
    by (cases p) (auto simp: markRow_def update_conv' distinct_update split: if_splits option.splits)
qed simp

lemma handledRows_all:
  assumes "row \<in> set (handledRows f)"
  shows "row \<in> rf_failedRows f" "snd row \<notin> set (rf_sourceless f (fst row))" "(row, a) \<in> set (rowsOfSources f) \<Longrightarrow> a"
    "row \<in> fst ` set (rowsOfSources f)"
proof -
  have r: "(row, True) \<in> set (handledMap f)" "snd row \<notin> set (rf_sourceless f (fst row))"
    using assms by (auto simp: handledRows_def)
  have "distinct (map fst (handledMap f))" using marked_rows [of "rf_failedRows f" "[]" "rowsOfSources f" row] by (simp add: handledMap_fold)
  then have "map_of (foldl (markRow (rf_failedRows f)) [] (rowsOfSources f)) row = Some True"
    using r(1) by (simp add: handledMap_fold)
  from marked_rows [of "rf_failedRows f" "[]" "rowsOfSources f" row] this r
  show "row \<in> rf_failedRows f" "snd row \<notin> set (rf_sourceless f (fst row))" "(row, a) \<in> set (rowsOfSources f) \<Longrightarrow> a"
    "row \<in> fst ` set (rowsOfSources f)" by auto
qed

lemma rowsOfSources_in:
  "(row, a) \<in> set (rowsOfSources f) \<longleftrightarrow>
     (\<exists>k s. sourceOf f k = Some s \<and> fst k = fst row \<and> snd row \<in> set (fs_rows s) \<and> (a \<longleftrightarrow> fs_state s = sourceHandled))"
proof -
  have one: "(row, a) \<in> set (case sourceOf f k of
        Some s \<Rightarrow> map (\<lambda>step. ((fst k, step), fs_state s = sourceHandled)) (fs_rows s) | None \<Rightarrow> []) \<longleftrightarrow>
      (\<exists>s. sourceOf f k = Some s \<and> fst k = fst row \<and> snd row \<in> set (fs_rows s) \<and> (a \<longleftrightarrow> fs_state s = sourceHandled))" for k
    by (cases row; cases "sourceOf f k") auto
  have mem: "x \<in> set (concat (map h ks)) \<longleftrightarrow> (\<exists>k \<in> set ks. x \<in> set (h k))"
    for x :: "run_row_key \<times> bool" and h and ks :: "source_key list" by simp
  show ?thesis unfolding rowsOfSources_def mem one Bex_def sourceKeys_in by auto
qed

lemma droppedRows_in:
  "n \<in> set (droppedRows f sid) \<longleftrightarrow>
     n \<in> set (rf_sourceless f sid) \<or>
     (\<exists>k \<in> set (rf_bySID f sid). \<exists>s. sourceOf f k = Some s \<and> fs_state s = sourceJudged \<and> n \<in> set (fs_rows s))"
  unfolding droppedRows_def by (auto split: option.splits if_splits)

lemma marks_apart:
  assumes "keysIdx f" "(sid, n) \<in> set (handledRows f)" "n \<in> set (droppedRows f sid)"
  shows False
proof -
  note h = handledRows_all [OF assms(2)]
  have "n \<notin> set (rf_sourceless f sid)" using h(2) by simp
  then obtain k s where k: "k \<in> set (rf_bySID f sid)" "sourceOf f k = Some s" "fs_state s = sourceJudged" "n \<in> set (fs_rows s)"
    using assms(3) unfolding droppedRows_in by blast
  have "fst k = sid" using keysIdx_in [OF assms(1)] k(1) by blast
  then have "((sid, n), False) \<in> set (rowsOfSources f)" using k(2-4) unfolding rowsOfSources_in by (intro exI [of _ k] exI [of _ s]) simp
  then show False using h(3) by blast
qed

section \<open>The policy\<close>

lemma liveHosts_filter: "liveHosts f roster = filter (\<lambda>h. \<not> isDropped f (hf_sid h)) roster"
proof (cases "dropCount f = 0")
  case True
  then have none: "\<forall>p \<in> set (rf_hosts f). hx_droppedAt (snd p) = None"
    by (auto simp: dropCount_def dropped_hosts_def filter_empty_conv)
  have "hx_droppedAt h = None" if "map_of (rf_hosts f) x = Some h" for x h
  proof -
    have "(x, h) \<in> set (rf_hosts f)" by (rule map_of_SomeD [OF that])
    then have "hx_droppedAt (snd (x, h)) = None" using none by blast
    then show ?thesis by simp
  qed
  then have "\<not> isDropped f x" for x
    by (auto simp: isDropped_def hostOf_def split: option.split)
  then show ?thesis using True by (simp add: liveHosts_def)
qed (simp add: liveHosts_def)

lemma policyEnd_None:
  assumes "policyEnd n vs owner reached roster f = None"
  shows "\<forall>v \<in> set vs. fe_radius v = OnFailureHost"
    "freshDrops f vs > 0 \<Longrightarrow> freshDrops f vs < int (length (liveHosts f roster))"
    "bo_tolerate owner = Some t \<Longrightarrow> dropCount f + freshDrops f vs > 0 \<Longrightarrow> dropCount f + freshDrops f vs \<le> Limit t reached"
  using assms by (auto simp: policyEnd_def Let_def Exceeded_def find_None_iff split: option.splits if_splits)

lemma settle_goes_on:
  assumes s: "settle_verdicts n vs owner reached roster f = (f', Inr out)" and f: "\<not> rf_ended f" "uniq f"
  shows "\<not> rf_ended f'" "v \<in> set vs \<Longrightarrow> fe_radius v = OnFailureHost \<and> isDropped f' (fe_sid v)"
    "bo_tolerate owner = Some t \<Longrightarrow> dropCount f' > 0 \<Longrightarrow> dropCount f' \<le> Limit t reached"
    "out \<noteq> [] \<Longrightarrow> distinct (map hf_sid roster) \<Longrightarrow> liveHosts f' roster \<noteq> []"
proof -
  let ?g = "f\<lparr>rf_entries := rf_entries f @ vs\<rparr>"
  have end_: "policyEnd n vs owner reached roster ?g = None" and run: "dropVerdicts (factsBySID roster) vs ?g = (f', out)"
    using s f(1) by (auto simp: settle_verdicts_def appendEntries_def dropHosts_def split: if_splits option.splits prod.splits)
  note d = dropVerdicts_facts [OF run, of n] and p = policyEnd_None [OF end_]
  show "\<not> rf_ended f'" using d f(1) by auto
  show "v \<in> set vs \<Longrightarrow> fe_radius v = OnFailureHost \<and> isDropped f' (fe_sid v)" using d p(1) by blast
  have count: "dropCount f' = dropCount ?g + int (length out)" using d f(2) by simp
  have le: "int (length out) \<le> freshDrops ?g vs" using d by (simp add: freshDrops_def)
  show "dropCount f' \<le> Limit t reached" if "bo_tolerate owner = Some t" "dropCount f' > 0"
    using p(3) [OF that(1)] that(2) count le by linarith
  show "liveHosts f' roster \<noteq> []" if "out \<noteq> []" "distinct (map hf_sid roster)"
  proof
    assume none: "liveHosts f' roster = []"
    have "hf_sid ` set (liveHosts ?g roster) \<subseteq> fe_sid ` set out"
      using none d unfolding liveHosts_filter by (auto simp: filter_empty_conv)
    then have "card (hf_sid ` set (liveHosts ?g roster)) \<le> length out"
      by (meson card_length card_mono finite_imageI finite_set le_trans card_image_le)
    moreover have "distinct (map hf_sid (liveHosts ?g roster))"
      unfolding liveHosts_filter using that(2) by (simp add: distinct_map_filter)
    then have "card (hf_sid ` set (liveHosts ?g roster)) = length (liveHosts ?g roster)"
      by (metis distinct_card length_map set_map)
    moreover have "freshDrops ?g vs > 0" using le that(1) by (cases out) auto
    ultimately show False using p(2) le by linarith
  qed
qed

section \<open>The properties\<close>

text \<open>
  (C8) After the last barrier of a step no failure is left undecided: every source is handled, or judged with
  an entry of the failure list that names its host, or held for a rescue unit whose steps end later, and then its host is out of the
  run or still held.
\<close>

theorem last_barrier_decides:
  fixes rs :: "'r run_row list"
  assumes run: "linear_run TYPE('r) f j"
    and wave: "judgeWave audit rs roster True j f = (f', j', res)"
    and s: "sourceOf f' k = Some s"
  shows "fs_state s = sourceHandled \<or>
     fs_state s = sourceJudged \<and> fst k \<in> fe_sid ` set (rf_entries f') \<or>
     fs_state s = sourceHeld \<and> (\<exists>l. fs_lastUnit s = Some l \<and> j_step j < l) \<and>
       (\<exists>h. hostOf f' (fst k) = Some h \<and> (hx_droppedAt h \<noteq> None \<or> isOpen h))"
proof -
  have inv: "runInv f j" and inv': "runInv f' j'" using linear_run_inv run linear_run.wave [OF run wave] by blast+
  have nd: "noDue (fst k) (j_step j) f'"
    by (rule judgeWave_waved(6) [OF _ _ wave]) (use inv in \<open>auto simp: runInv_def\<close>)
  have ok: "settledSource (Some s)" "keysIdx f'" "holdOk f' (fst k)" using inv' s unfolding runInv_def failInv_def by metis+
  show ?thesis
  proof (cases "fs_state s")
    case sourceHeld
    then obtain l where l: "fs_lastUnit s = Some l" using ok(1) by (auto simp: settledSource_def)
    have "k \<in> set (rf_bySID f' (fst k))" using keysIdx_in [OF ok(2)] s by simp
    then have "outOrHeld (hostOf f' (fst k))" using ok(3) sourceHeld stateOf_Some [OF s] unfolding holdOk_def by auto
    then show ?thesis using nd s sourceHeld l by (auto simp: noDue_def outOrHeld_def split: option.splits)
  qed (use ok(1) inv' stateOf_Some [OF s] in \<open>auto simp: settledSource_def runInv_def\<close>)
qed

text \<open>
  (C7) No failure goes unreported: once the failure list of a run is closed, every source that no rescue handled has an
  entry that names its host, whatever the barriers decided and wherever the run stopped.
\<close>

theorem no_failure_unreported:
  assumes run: "linear_run R f j" and s: "sourceOf f k = Some s" "fs_state s \<noteq> sourceHandled"
  shows "fst k \<in> fe_sid ` set (rf_entries (closeList f))"
proof -
  have inv: "runInv f j" by (rule linear_run_inv [OF run])
  then have cl: "\<not> rf_closed f" and set: "settledSource (Some s)" using s unfolding runInv_def failInv_def by metis+
  show ?thesis
  proof (cases "fs_state s")
    case sourceJudged
    then show ?thesis using inv stateOf_Some [OF s(1)] closeList_held(1) [OF cl] by (auto simp: runInv_def)
  qed (use s set closeList_held(2) [OF cl, of k] stateOf_Some [OF s(1)] in \<open>auto simp: settledSource_def\<close>)
qed

text \<open>
  (C10) A barrier that lets the run go on kept to the policy: every failure it judged was one of a single host, that host is
  out, the hosts out are within what \<open>tolerate\<close> allows of the hosts reached, and if a host left now another is still in the run.
\<close>

theorem run_goes_on_within_policy:
  fixes rs :: "'r run_row list"
  assumes run: "linear_run TYPE('r) f j" "\<not> rf_ended f"
    and wave: "judgeWave audit rs roster isLast j f = (f', j', Inr out)"
  shows "\<not> rf_ended f' \<and>
     (\<forall>v \<in> set (drop (length (rf_entries f)) (rf_entries f')). fe_radius v = OnFailureHost \<and> isDropped f' (fe_sid v)) \<and>
     (\<forall>t. bo_tolerate (j_owner j) = Some t \<longrightarrow> dropCount f' > 0 \<longrightarrow> dropCount f' \<le> Limit t (reachedHosts rs)) \<and>
     (out \<noteq> [] \<longrightarrow> distinct (map hf_sid roster) \<longrightarrow> liveHosts f' roster \<noteq> [])"
proof -
  have inv: "failInv f" "uniq f" "\<not> rf_closed f" using linear_run_inv [OF run(1)] by (simp_all add: runInv_def)
  obtain j0 f1 vs where b: "barrier j0 rs roster isLast f = (f1, j', vs)" and j0: "j_step j0 = j_step j"
    and s: "settle_verdicts (j_step j) vs (j_owner j) (reachedHosts rs) roster f1 = (f', Inr out)"
    by (rule judgeWave_cases [OF wave])
  have "frame f f1" using barrier_through(1) [OF inv(1) b] by (simp add: judgedThrough_def movedAny_def)
  then have f1: "rf_ended f1 = rf_ended f" "rf_entries f1 = rf_entries f" "rf_closed f1 = rf_closed f" by (simp_all add: frame_def)
  have u: "uniq f1" by (rule barrier_unique(1) [OF b inv(2)])
  have "policed (j_step j) vs f1 f'"
    by (rule settle_policed [OF s]) (use barrier_unique(2) [OF b] j0 f1 inv in auto)
  then have "drop (length (rf_entries f)) (rf_entries f') = vs" by (simp add: policed_def f1)
  then show ?thesis using settle_goes_on [OF s _ u] f1 run(2) by simp
qed

text \<open>
  (C9) The view of a step is history: no wave of that step or of a later one changes whether the run had ended for
  it, which hosts it sees live, held and dropped, which failures it sees unhandled, and which units failed.
\<close>

theorem view_is_history:
  fixes rs :: "'r run_row list"
  assumes run: "linear_run TYPE('r) f j"
    and wave: "judgeWave audit rs roster isLast j f = (f', j', res)"
    and m: "m \<le> j_step j"
  shows "fv_ended (viewAt f' m) = fv_ended (viewAt f m) \<and>
     standingOf (viewAt f' m) = standingOf (viewAt f m) \<and>
     unhandledKeys (viewAt f' m) = unhandledKeys (viewAt f m) \<and>
     viewUnitFailed (viewAt f' m) = viewUnitFailed (viewAt f m)"
proof -
  have inv: "failInv f" "uniq f" "\<not> rf_closed f" using linear_run_inv [OF run] by (simp_all add: runInv_def)
  note w = judgeWave_waved [OF inv(1,2) wave inv(3)]
  obtain vs where v: "waved (j_step j) f f' vs" using w(3) by blast
  have ended: "fv_ended (viewAt f' m) = fv_ended (viewAt f m)"
    using v m by (auto simp: viewAt_def Let_def waved_def split: if_splits)
  have standing: "standingOf (viewAt f' m) x = standingOf (viewAt f m) x" for x
    using v m by (simp add: standingOf_view w(2) inv(2) waved_def sameView_def)
  have keys: "p \<in> unhandledKeys (viewAt f' m) \<longleftrightarrow> p \<in> unhandledKeys (viewAt f m)" for p
  proof (cases p)
    case (Pair sid i)
    have grow: "sourcesGrow (j_step j) f f'" using v by (simp add: waved_def)
    show ?thesis
      unfolding Pair unhandledKeys_view [OF w(2)] unhandledKeys_view [OF inv(2)]
      using unhandled_step [OF grow m] by blast
  qed
  have units: "viewUnitFailed (viewAt f' m) sid key = viewUnitFailed (viewAt f m) sid key" for sid key
  proof -
    have "rf_unitFails f' sid key = rf_unitFails f sid key \<or> rf_unitFails f sid key = None \<and> rf_unitFails f' sid key = Some (j_step j)"
      using v by (simp add: waved_def failsGrow_def)
    then show ?thesis using m by (cases "rf_unitFails f sid key") (auto simp: viewUnitFailed_def viewAt_def Let_def)
  qed
  show ?thesis using ended standing keys units by (auto simp: fun_eq_iff)
qed

text \<open>
  (C11) The marks a run without its dropped hosts leaves are apart: a row marked handled is a failed row of which every failure is
  handled, and no row is marked both handled and dropped.
\<close>

theorem marks_are_apart:
  assumes run: "linear_run R f j" and fin: "finishPartial f = (f', handled, dropped, e)"
  shows "set handled \<inter> set dropped = {} \<and>
     (\<forall>row \<in> set handled. row \<in> rf_failedRows f \<and>
        (\<forall>i s. sourceOf f (fst row, i) = Some s \<longrightarrow> snd row \<in> set (fs_rows s) \<longrightarrow> fs_state s = sourceHandled))"
proof -
  let ?g = "closeList f"
  have g: "rf_sources ?g = rf_sources f" "rf_bySID ?g = rf_bySID f" "rf_failedRows ?g = rf_failedRows f"
    by (simp_all add: closeList_def)
  have src: "sourceOf ?g = sourceOf f" by (rule sourceOf_cong) (rule g)
  have "keysIdx f" using linear_run_inv [OF run] by (simp add: runInv_def failInv_def)
  then have idx: "keysIdx ?g" by (rule keysIdx_same) (simp_all add: g src)
  have out: "handled = handledRows ?g" "dropped = concat (map (\<lambda>sid. map (Pair sid) (droppedRows ?g sid)) (drops ?g))"
    using fin by (auto simp: finishPartial_def Let_def)
  have "set handled \<inter> set dropped = {}" using marks_apart [OF idx] unfolding out by auto
  moreover have "row \<in> rf_failedRows f \<and>
      (\<forall>i s. sourceOf f (fst row, i) = Some s \<longrightarrow> snd row \<in> set (fs_rows s) \<longrightarrow> fs_state s = sourceHandled)"
    if "row \<in> set handled" for row
  proof -
    note h = handledRows_all [OF that [unfolded out(1)]]
    have "(row, fs_state s = sourceHandled) \<in> set (rowsOfSources ?g)"
      if "sourceOf f (fst row, i) = Some s" "snd row \<in> set (fs_rows s)" for i s
      unfolding rowsOfSources_in src using that by force
    then show ?thesis using h(1,3) g(3) by auto
  qed
  ultimately show ?thesis by blast
qed

section \<open>Witnesses\<close>

text \<open>
  Two hosts. The first fails its task at step 0 under radius \<open>host\<close>; a rescue unit of step 1 could handle it, but does
  not run. The failure is held at the first barrier and judged at the second, which drops the host.
\<close>

definition failTask :: rendered_task where
  "failTask =
     \<lparr>rt_index = 0, rt_name = ''t'', rt_module = ''pkg.a.up'', rt_params = [], rt_register = ''r'', rt_passage = 0,
      rt_timeout = [], rt_when = [], rt_changedWhen = [], rt_failedWhen = [], rt_until = [], rt_retryCount = 0,
      rt_flowContext = [], rt_onChangesIdx = [], rt_onChangesNames = [], rt_onFailIdx = [], rt_onFailNames = [],
      rt_async = False, rt_requireIdx = [], rt_requireAll = False, rt_requireNames = [], rt_aggregateOf = [],
      rt_renderContextBySID = [], rt_paramsBySID = [], rt_flowBySID = [], rt_grouped = False, rt_rescueUnit = [],
      rt_onFailure = []\<rparr>"

definition failRow :: "string \<Rightarrow> status \<Rightarrow> int option \<Rightarrow> unit run_row" where
  "failRow sid st idx =
     \<lparr>ApplyID = ''a'', SID = sid, IncarnationName = ''i'', Scenario = ''s'', TaskIdx = idx, Status = st, Passage = 0,
      ErrorSummary = None, StartedAt = 0, FinishedAt = None, StartedByAID = None, ClaimByKID = None, ClaimAt = None,
      ClaimExpiresAt = None, Attempt = 0, Recipe = None, Input = [], KeeperVersion = [], SoulVersion = [],
      FailedPlanIndex = None, CancelRequested = False, Dropped = False, HandledMark = False, Notices = []\<rparr>"

definition failRows :: "unit run_row list" where
  "failRows = [failRow ''h1'' StatusFailed (Some 0), failRow ''h2'' StatusSuccess None]"

definition failRoster :: "host_facts list" where
  "failRoster = [\<lparr>hf_sid = ''h1'', hf_coven = []\<rparr>, \<lparr>hf_sid = ''h2'', hf_coven = []\<rparr>]"

definition failOwner :: barrier_owner where
  "failOwner = \<lparr>bo_onFailure = OnFailureHost, bo_tolerate = Some \<lparr>to_N = 1, to_Percent = False\<rparr>\<rparr>"

definition failCover :: rescue_cover where
  "failCover = \<lparr>rc_path = ''1'', rc_sources = [''r''], rc_first = 1, rc_last = 1, rc_rescueUnit = [], rc_decidedAt = 1, rc_covens = []\<rparr>"

definition failPlanned :: run_failures where
  "failPlanned = setPlan [failCover] [StepNode 0 False None, StepNode 1 False None] newRunFailures"

definition failJudge0 :: step_judge where
  "failJudge0 = newStepJudge [failOwner, failOwner] 0 [failTask] [(''h1'', [failTask]), (''h2'', [failTask])] []"

definition failWave0 :: "run_failures \<times> step_judge \<times> (run_error, failure_entry list) result" where
  "failWave0 = judgeWave None failRows failRoster True failJudge0 failPlanned"

definition failJudge1 :: step_judge where
  "failJudge1 = newStepJudge [failOwner, failOwner] 1 [] [] []"

definition failWave1 :: "run_failures \<times> step_judge \<times> (run_error, failure_entry list) result" where
  "failWave1 = judgeWave None failRows failRoster True failJudge1 (fst failWave0)"

lemma failWave0_state: "map (\<lambda>(k, s). (k, fs_state s, fs_lastUnit s, fs_rows s)) (rf_sources (fst failWave0)) = [((''h1'', 0), sourceHeld, Some 1, [0])]"
  by code_simp

lemma failWave1_state: "map (\<lambda>(k, s). (k, fs_state s)) (rf_sources (fst failWave1)) = [((''h1'', 0), sourceJudged)]"
  by code_simp

lemma failRun0: "linear_run TYPE(unit) failPlanned failJudge0"
  unfolding failPlanned_def failJudge0_def by (intro linear_run.plan linear_run.start)

lemma failWave0_eq: "judgeWave None failRows failRoster True failJudge0 failPlanned = (fst failWave0, fst (snd failWave0), snd (snd failWave0))"
  by (simp add: failWave0_def)

lemma failWave1_eq: "judgeWave None failRows failRoster True failJudge1 (fst failWave0) = (fst failWave1, fst (snd failWave1), snd (snd failWave1))"
  by (simp add: failWave1_def)

lemma failRun1: "linear_run TYPE(unit) (fst failWave0) failJudge1"
proof -
  have "j_step (fst (snd failWave0)) < 1" by code_simp
  then show ?thesis unfolding failJudge1_def by (rule linear_run.step [OF linear_run.wave [OF failRun0 failWave0_eq]])
qed

lemma failRun2: "linear_run TYPE(unit) (fst failWave1) (fst (snd failWave1))"
  by (rule linear_run.wave [OF failRun1 failWave1_eq])

lemma failSource:
  "map_option fs_state (sourceOf (fst failWave0) (''h1'', 0)) = Some sourceHeld"
  "map_option fs_state (sourceOf (fst failWave1) (''h1'', 0)) = Some sourceJudged"
  by code_simp+

theorem last_barrier_decides_witness:
  "\<exists>s. sourceOf (fst failWave1) (''h1'', 0) = Some s \<and> fs_state s = sourceJudged \<and>
     ''h1'' \<in> fe_sid ` set (rf_entries (fst failWave1))"
proof -
  obtain s where s: "sourceOf (fst failWave1) (''h1'', 0) = Some s" "fs_state s = sourceJudged" using failSource(2) by auto
  then show ?thesis using last_barrier_decides [OF failRun1 failWave1_eq s(1)] by simp
qed

theorem no_failure_unreported_witness: "''h1'' \<in> fe_sid ` set (rf_entries (closeList (fst failWave0)))"
proof -
  obtain s where s: "sourceOf (fst failWave0) (''h1'', 0) = Some s" "fs_state s = sourceHeld" using failSource(1) by auto
  then show ?thesis using no_failure_unreported [OF failRun1 s(1)] by simp
qed

theorem run_goes_on_within_policy_witness:
  "\<not> rf_ended (fst failWave1) \<and> dropCount (fst failWave1) \<le> 1 \<and> liveHosts (fst failWave1) failRoster \<noteq> []"
proof -
  have "\<not> rf_ended (fst failWave0)" by code_simp
  moreover have "case snd (snd failWave1) of Inl _ \<Rightarrow> False | Inr out \<Rightarrow> out \<noteq> []" by code_simp
  then obtain out where out: "snd (snd failWave1) = Inr out" "out \<noteq> []" by (auto split: sum.splits)
  moreover have "bo_tolerate (j_owner failJudge1) = Some \<lparr>to_N = 1, to_Percent = False\<rparr>" "dropCount (fst failWave1) > 0" by code_simp+
  moreover have "distinct (map hf_sid failRoster)" by code_simp
  moreover have "Limit \<lparr>to_N = 1, to_Percent = False\<rparr> n = 1" for n by (simp add: Limit_def)
  ultimately show ?thesis
    using run_goes_on_within_policy [OF failRun1 _ failWave1_eq [unfolded out(1)]] by auto
qed

theorem view_is_history_witness:
  "standingOf (viewAt (fst failWave1) 1) ''h1'' = HostHeld \<and> standingOf (viewAt (fst failWave1) 2) ''h1'' = HostDropped"
proof -
  have "1 \<le> j_step failJudge1" by code_simp
  then have "standingOf (viewAt (fst failWave1) 1) = standingOf (viewAt (fst failWave0) 1)"
    using view_is_history [OF failRun1 failWave1_eq] by blast
  moreover have "standingOf (viewAt (fst failWave0) 1) ''h1'' = HostHeld" by code_simp
  moreover have "standingOf (viewAt (fst failWave1) 2) ''h1'' = HostDropped" by code_simp
  ultimately show ?thesis by simp
qed

theorem marks_are_apart_witness: "(''h1'', 0) \<notin> set (fst (snd (finishPartial (fst failWave1))))"
proof -
  have "(''h1'', 0) \<in> set (fst (snd (snd (finishPartial (fst failWave1)))))" by code_simp
  then show ?thesis
    using marks_are_apart [OF failRun2, of "fst (finishPartial (fst failWave1))" "fst (snd (finishPartial (fst failWave1)))"
        "fst (snd (snd (finishPartial (fst failWave1))))" "snd (snd (snd (finishPartial (fst failWave1))))"] by auto
qed

end
