(* ===== verification/Plan_Task.thy ===== *)
theory Plan_Task
  imports Fail_Judge
begin

text \<open>
  A task of a scenario's plan as the planner sees it (\<^verbatim>\<open>shared/config\<close>): the struct \<^verbatim>\<open>Task\<close> of \<^verbatim>\<open>scenario_task.go\<close> with the
  keys the planner reads, the levels of \<^verbatim>\<open>settings:\<close> and their merge (\<^verbatim>\<open>scenario_settings.go\<close>), and the side a task runs on
  (\<^verbatim>\<open>module_side.go\<close>, \<^verbatim>\<open>coremanifest/side.go\<close>). A key of type \<^verbatim>\<open>any\<close> is a \<open>go_value\<close>, \<open>VNil\<close> where it is absent. The parser
  of durations is an argument (\<open>dur\<close>), as on the agent.
\<close>

section \<open>Settings\<close>

record settings =
  st_onFailure :: "string option"
  st_tolerate :: "tolerate option"
  st_soulTimeout :: "int option"
  st_taskTimeout :: "int option"
  st_scenarioTimeout :: "int option"
  st_serialScope :: "string option"

definition SerialScopeTask :: string where "SerialScopeTask = ''task''"
definition SerialScopeBlock :: string where "SerialScopeBlock = ''block''"

definition DefaultScenarioSettings :: settings where
  "DefaultScenarioSettings =
     \<lparr>st_onFailure = Some OnFailureScenario, st_tolerate = None, st_soulTimeout = Some (60 * 10 ^ 9),
      st_taskTimeout = Some 0, st_scenarioTimeout = Some (24 * 3600 * 10 ^ 9), st_serialScope = Some SerialScopeTask\<rparr>"

text \<open>A key the child wrote wins.\<close>

definition over :: "'a option \<Rightarrow> 'a option \<Rightarrow> 'a option" where
  "over p c = (case c of None \<Rightarrow> p | Some _ \<Rightarrow> c)"

lemma over_simps [simp]: "over p None = p" "over p (Some x) = Some x"
  by (simp_all add: over_def)

lemma over_assoc: "over (over a b) c = over a (over b c)"
  by (simp add: over_def split: option.split)

definition MergeSettings :: "settings \<Rightarrow> settings \<Rightarrow> settings" where
  "MergeSettings p c =
     \<lparr>st_onFailure = over (st_onFailure p) (st_onFailure c),
      st_tolerate = over (st_tolerate p) (st_tolerate c),
      st_soulTimeout = over (st_soulTimeout p) (st_soulTimeout c),
      st_taskTimeout = over (st_taskTimeout p) (st_taskTimeout c),
      st_scenarioTimeout = over (st_scenarioTimeout p) (st_scenarioTimeout c),
      st_serialScope = over (st_serialScope p) (st_serialScope c)\<rparr>"

definition noSettings :: settings where
  "noSettings = \<lparr>st_onFailure = None, st_tolerate = None, st_soulTimeout = None, st_taskTimeout = None,
     st_scenarioTimeout = None, st_serialScope = None\<rparr>"

lemma MergeSettings_assoc: "MergeSettings (MergeSettings a b) c = MergeSettings a (MergeSettings b c)"
  by (simp add: MergeSettings_def over_assoc)

lemma MergeSettings_none [simp]: "MergeSettings a noSettings = a"
  by (simp add: MergeSettings_def noSettings_def)

text \<open>The defaults under the scenario's own level.\<close>

definition scenarioLevel :: "settings option \<Rightarrow> settings" where
  "scenarioLevel sc =
     (case sc of None \<Rightarrow> DefaultScenarioSettings | Some s \<Rightarrow> MergeSettings DefaultScenarioSettings s)"

section \<open>Tasks\<close>

record loop_spec =
  lp_items :: go_value
  lp_when :: string

record module_task =
  mt_module :: string
  mt_params :: gomap

record task_keys =
  tk_name :: string
  tk_vars :: gomap
  tk_when :: string
  tk_loop :: "loop_spec option"
  tk_register :: string
  tk_output :: gomap
  tk_onchanges :: "string list"
  tk_onfail :: "string list"
  tk_changedWhen :: string
  tk_failedWhen :: string
  tk_timeout :: string
  tk_on :: go_value
  tk_where :: string
  tk_serial :: go_value
  tk_settings :: "settings option"
  tk_module :: "module_task option"
  tk_applyInput :: "gomap option"
  tk_assert :: "string list option"

datatype plan_task = PlanTask (keys: task_keys) (Block: "plan_task list option")

text \<open>The children, none where the task is no block.\<close>

definition childrenOf :: "plan_task \<Rightarrow> plan_task list" where
  "childrenOf t = (case Block t of None \<Rightarrow> [] | Some cs \<Rightarrow> cs)"

lemma childrenOf_PlanTask [simp]:
  "childrenOf (PlanTask k None) = []" "childrenOf (PlanTask k (Some cs)) = cs"
  by (simp_all add: childrenOf_def)

lemma size_children [termination_simp]: "c \<in> set (childrenOf t) \<Longrightarrow> size c < size t"
proof (cases t)
  case (PlanTask k b)
  assume "c \<in> set (childrenOf t)"
  with PlanTask obtain cs where "b = Some cs" "c \<in> set cs" by (cases b) auto
  with PlanTask show ?thesis using size_list_estimation' [of c cs "size c" size] by simp
qed

definition taskDisplayName :: "plan_task \<Rightarrow> string" where
  "taskDisplayName t =
     (if tk_name (keys t) \<noteq> [] then tk_name (keys t)
      else if tk_register (keys t) \<noteq> [] then tk_register (keys t)
      else ''<unnamed>'')"

definition OwnSettings :: "(string \<Rightarrow> int option) \<Rightarrow> plan_task \<Rightarrow> settings" where
  "OwnSettings dur t =
     (let s = (case tk_settings (keys t) of None \<Rightarrow> noSettings | Some s \<Rightarrow> s)
      in if st_taskTimeout s = None \<and> tk_timeout (keys t) \<noteq> []
         then (case dur (tk_timeout (keys t)) of None \<Rightarrow> s | Some d \<Rightarrow> s\<lparr>st_taskTimeout := Some d\<rparr>)
         else s)"

definition EffectiveOnFailure :: "settings option \<Rightarrow> plan_task \<Rightarrow> string" where
  "EffectiveOnFailure sc t =
     (let eff = scenarioLevel sc;
          eff = (case tk_settings (keys t) of None \<Rightarrow> eff | Some s \<Rightarrow> MergeSettings eff s)
      in the (st_onFailure eff))"

definition InheritSettings :: "(string \<Rightarrow> int option) \<Rightarrow> settings option \<Rightarrow> plan_task \<Rightarrow> settings option" where
  "InheritSettings dur blk child =
     (case blk of
        None \<Rightarrow> tk_settings (keys child)
      | Some b \<Rightarrow> Some (MergeSettings b (OwnSettings dur child)))"

definition EffectiveTaskTimeout :: "(string \<Rightarrow> int option) \<Rightarrow> settings option \<Rightarrow> plan_task \<Rightarrow> int" where
  "EffectiveTaskTimeout dur sc t = the (st_taskTimeout (MergeSettings (scenarioLevel sc) (OwnSettings dur t)))"

section \<open>The side of a task\<close>

definition StateModuleAddr :: string where "StateModuleAddr = ''core.state''"

definition keeperSideCore :: "string list" where
  "keeperSideCore =
     [''core.bootstrap'', ''core.cert'', ''core.choir'', ''core.soul'', ''core.ssh'', StateModuleAddr, ''core.vault'']"

definition IsKeeperSide :: "string \<Rightarrow> bool" where
  "IsKeeperSide addr \<longleftrightarrow> addr \<in> set keeperSideCore"

definition KeeperSideModule :: "string \<Rightarrow> bool" where
  "KeeperSideModule addr =
     (case splitModuleAddr addr of None \<Rightarrow> False | Some (name, _) \<Rightarrow> IsKeeperSide name)"

definition keeperSide :: "string \<Rightarrow> bool \<Rightarrow> bool" where
  "keeperSide addr lit \<longleftrightarrow> KeeperSideModule addr \<or> lit"

definition KeeperTarget :: string where "KeeperTarget = ''keeper''"

definition IsKeeperSideTask :: "plan_task \<Rightarrow> bool" where
  "IsKeeperSideTask t =
     keeperSide (case tk_module (keys t) of None \<Rightarrow> [] | Some m \<Rightarrow> mt_module m) (tk_on (keys t) = VStr KeeperTarget)"

definition stateCaptureVerb :: "plan_task \<Rightarrow> string option" where
  "stateCaptureVerb t =
     (case tk_module (keys t) of
        None \<Rightarrow> None
      | Some m \<Rightarrow>
          (case splitModuleAddr (mt_module m) of
             None \<Rightarrow> None
           | Some (name, verb) \<Rightarrow> if name \<noteq> StateModuleAddr then None else Some verb))"

end
