(* ===== verification/Plan_Refs.thy ===== *)
theory Plan_Refs
  imports Plan_Task
begin

text \<open>
  What a task of a plan reads, by the text of its fields: the registers (\<^verbatim>\<open>shared/config/task_refs.go\<close>, \<^verbatim>\<open>passage.go\<close>), the
  roster (\<^verbatim>\<open>passage_refresh.go\<close>) and Vault (\<^verbatim>\<open>passage_vault.go\<close>), and what it emits on each of the three axes. The patterns
  are those of the sources; a scan finds the leftmost match and goes on behind it, as \<^verbatim>\<open>FindAllStringSubmatch\<close> does. Every
  character class is ASCII, so a byte of a longer rune is matched by the negated classes only.
\<close>

section \<open>CEL text\<close>

definition quote_byte :: "char \<Rightarrow> bool" where
  "quote_byte c \<longleftrightarrow> c = CHR 0x27 \<or> c = CHR 0x22"

text \<open>\<^verbatim>\<open>celStringLiteral\<close>: a quoted piece is replaced by an empty literal; a quote without a partner stays.\<close>

function stripLiterals :: "string \<Rightarrow> string" where
  "stripLiterals [] = []"
| "stripLiterals (c # s) =
     (if quote_byte c \<and> c \<in> set s
      then CHR 0x22 # CHR 0x22 # stripLiterals (tl (dropWhile (\<lambda>x. x \<noteq> c) s))
      else c # stripLiterals s)"
  by pat_completeness auto
termination
proof (relation "measure length")
  fix c and s :: string
  show "(tl (dropWhile (\<lambda>x. x \<noteq> c) s), c # s) \<in> measure length"
    using length_dropWhile_le [of "\<lambda>x. x \<noteq> c" s] by simp
qed simp_all

definition wordByte :: "char \<Rightarrow> bool" where
  "wordByte c \<longleftrightarrow> is_lower c \<or> is_upper c \<or> is_digit c \<or> c = CHR ''_''"

definition refByte :: "char \<Rightarrow> bool" where
  "refByte c \<longleftrightarrow> is_lower c \<or> is_digit c \<or> c = CHR ''_''"

text \<open>The class \<^verbatim>\<open>[^A-Za-z0-9_.]\<close> before a root identifier.\<close>

definition rootBoundary :: "char \<Rightarrow> bool" where
  "rootBoundary c \<longleftrightarrow> \<not> wordByte c \<and> c \<noteq> CHR ''.''"

section \<open>Registers\<close>

definition nameAt :: "string \<Rightarrow> (string \<times> string) option" where
  "nameAt s =
     (case s of
        [] \<Rightarrow> None
      | c # t \<Rightarrow> if is_lower c then Some (takeWhile refByte s, dropWhile refByte s) else None)"

record register_ref =
  rr_hosts :: bool
  rr_name :: string
  rr_call :: bool

text \<open>The part of \<^verbatim>\<open>reRegisterCELRef\<close> behind the boundary: the match and the text behind it.\<close>

definition registerAt :: "string \<Rightarrow> (register_ref \<times> string) option" where
  "registerAt s =
     (if \<not> hasPrefix s ''register.'' then None
      else let t = drop 9 s;
               hop = (if hasPrefix t ''hosts.'' then nameAt (drop 6 t) else None);
               found = (case hop of Some (n, r) \<Rightarrow> Some (True, n, r)
                        | None \<Rightarrow> (case nameAt t of Some (n, r) \<Rightarrow> Some (False, n, r) | None \<Rightarrow> None))
           in case found of
                None \<Rightarrow> None
              | Some (h, n, r) \<Rightarrow>
                  Some (\<lparr>rr_hosts = h, rr_name = n, rr_call = hasPrefix r ''(''\<rparr>,
                        if hasPrefix r ''('' then tl r else r))"

lemma nameAt_shorter: "nameAt s = Some (n, r) \<Longrightarrow> length r \<le> length s"
  by (cases s) (auto simp: nameAt_def intro: le_SucI length_dropWhile_le split: if_splits)

lemma registerAt_shorter: "registerAt s = Some (m, r) \<Longrightarrow> length r < length s"
proof -
  assume a: "registerAt s = Some (m, r)"
  then have p: "hasPrefix s ''register.''" by (auto simp: registerAt_def split: if_splits)
  then obtain t where s: "s = ''register.'' @ t" by (auto simp: hasPrefix_iff)
  have "length r \<le> length t"
    using a by (auto simp: registerAt_def s hasPrefix_iff split: if_splits option.splits dest!: nameAt_shorter)
  then show ?thesis by (simp add: s)
qed

function scanRefs :: "bool \<Rightarrow> string \<Rightarrow> register_ref list" where
  "scanRefs start s =
     (case (if start then registerAt s else None) of
        Some (m, r) \<Rightarrow> m # scanRefs False r
      | None \<Rightarrow>
          (case s of
             [] \<Rightarrow> []
           | c # t \<Rightarrow>
               (case (if rootBoundary c then registerAt t else None) of
                  Some (m, r) \<Rightarrow> m # scanRefs False r
                | None \<Rightarrow> scanRefs False t)))"
  by pat_completeness auto
termination
  by (relation "measure (\<lambda>(b, s). length s)")
     (auto split: if_splits dest!: registerAt_shorter)

declare scanRefs.simps [simp del]

definition registerHostsAccessor :: string where "registerHostsAccessor = ''hosts''"

definition countsAsRef :: "register_ref \<Rightarrow> bool" where
  "countsAsRef m \<longleftrightarrow>
     \<not> (rr_name m = ''self'' \<or> rr_hosts m \<and> rr_call m \<or> \<not> rr_hosts m \<and> rr_name m = registerHostsAccessor)"

definition ExtractRegisterRefs :: "string \<Rightarrow> string list" where
  "ExtractRegisterRefs expr =
     sort (remdups (map rr_name (filter countsAsRef (scanRefs True (stripLiterals expr)))))"

fun addValueRefs :: "go_value \<Rightarrow> string list" where
  "addValueRefs (VStr s) = ExtractRegisterRefs s"
| "addValueRefs (VMap m) = concat (map (\<lambda>e. addValueRefs (snd e)) m)"
| "addValueRefs (VList xs) = concat (map addValueRefs xs)"
| "addValueRefs _ = []"

definition addMapRefs :: "gomap \<Rightarrow> string list" where
  "addMapRefs m = concat (map (\<lambda>e. addValueRefs (snd e)) m)"

definition taskOwnReads :: "plan_task \<Rightarrow> string list" where
  "taskOwnReads t =
     (let k = keys t
      in ExtractRegisterRefs (tk_where k)
         @ (case tk_loop k of None \<Rightarrow> [] | Some l \<Rightarrow> ExtractRegisterRefs (lp_when l) @ addValueRefs (lp_items l))
         @ addMapRefs (tk_vars k) @ addMapRefs (tk_output k)
         @ (case tk_module k of None \<Rightarrow> [] | Some m \<Rightarrow> addMapRefs (mt_params m))
         @ (case tk_applyInput k of None \<Rightarrow> [] | Some m \<Rightarrow> addMapRefs m))"

fun collectTaskReads :: "plan_task \<Rightarrow> string list" where
  "collectTaskReads t = taskOwnReads t @ concat (map collectTaskReads (childrenOf t))"

fun taskEmittedRegisters :: "plan_task \<Rightarrow> string list" where
  "taskEmittedRegisters t =
     (if tk_register (keys t) \<noteq> [] then [tk_register (keys t)] else [])
     @ concat (map taskEmittedRegisters (childrenOf t))"

definition taskEmitsRegister :: "plan_task \<Rightarrow> bool" where
  "taskEmitsRegister t \<longleftrightarrow> taskEmittedRegisters t \<noteq> []"

definition taskRegisterReads :: "plan_task \<Rightarrow> string list" where
  "taskRegisterReads t =
     sort (remdups (filter (\<lambda>n. n \<notin> set (taskEmittedRegisters t)) (collectTaskReads t)))"

declare collectTaskReads.simps [simp del] taskEmittedRegisters.simps [simp del]

lemma set_taskRegisterReads:
  "set (taskRegisterReads t) = set (collectTaskReads t) - set (taskEmittedRegisters t)"
  by (auto simp: taskRegisterReads_def)

section \<open>A value that holds some text\<close>

fun valueReads :: "(string \<Rightarrow> bool) \<Rightarrow> go_value \<Rightarrow> bool" where
  "valueReads p (VStr s) = p s"
| "valueReads p (VMap m) = list_ex (\<lambda>e. valueReads p (snd e)) m"
| "valueReads p (VList xs) = list_ex (valueReads p) xs"
| "valueReads p _ = False"

definition mapReads :: "(string \<Rightarrow> bool) \<Rightarrow> gomap \<Rightarrow> bool" where
  "mapReads p m = list_ex (\<lambda>e. valueReads p (snd e)) m"

text \<open>The fields both axes scan: where, loop, vars, output, params and the input of an applier.\<close>

definition fieldsRead :: "(string \<Rightarrow> bool) \<Rightarrow> plan_task \<Rightarrow> bool" where
  "fieldsRead p t =
     (let k = keys t
      in p (tk_where k)
         \<or> (case tk_loop k of None \<Rightarrow> False | Some l \<Rightarrow> p (lp_when l) \<or> valueReads p (lp_items l))
         \<or> mapReads p (tk_vars k) \<or> mapReads p (tk_output k)
         \<or> (case tk_module k of None \<Rightarrow> False | Some m \<Rightarrow> mapReads p (mt_params m))
         \<or> (case tk_applyInput k of None \<Rightarrow> False | Some m \<Rightarrow> mapReads p m))"

section \<open>The roster\<close>

definition refreshModuleAddr :: string where "refreshModuleAddr = ''core.soul.registered''"

definition taskIsRefreshEmitter :: "plan_task \<Rightarrow> bool" where
  "taskIsRefreshEmitter t =
     (case tk_module (keys t) of
        None \<Rightarrow> False
      | Some m \<Rightarrow> mt_module m = refreshModuleAddr \<and> map_of (mt_params m) ''refresh_soulprint'' = Some (VBool True))"

fun taskHasRefreshEmitter :: "plan_task \<Rightarrow> bool" where
  "taskHasRefreshEmitter t \<longleftrightarrow> taskIsRefreshEmitter t \<or> list_ex taskHasRefreshEmitter (childrenOf t)"

definition HasRefreshEmitter :: "plan_task list \<Rightarrow> bool" where
  "HasRefreshEmitter tasks = list_ex taskHasRefreshEmitter tasks"

text \<open>\<^verbatim>\<open>\bsoulprint\b\<close>; the first argument tells whether the byte before is a word byte.\<close>

fun soulprintIn :: "bool \<Rightarrow> string \<Rightarrow> bool" where
  "soulprintIn w [] = False"
| "soulprintIn w (c # s) =
     (\<not> w \<and> hasPrefix (c # s) ''soulprint'' \<and> (case drop 9 (c # s) of [] \<Rightarrow> True | d # _ \<Rightarrow> \<not> wordByte d)
      \<or> soulprintIn (wordByte c) s)"

definition exprReadsSoulprint :: "string \<Rightarrow> bool" where
  "exprReadsSoulprint expr \<longleftrightarrow> expr \<noteq> [] \<and> soulprintIn False (stripLiterals expr)"

definition onTargetsRoster :: "go_value \<Rightarrow> bool" where
  "onTargetsRoster on \<longleftrightarrow> on = VNil"

fun taskReadsRoster :: "plan_task \<Rightarrow> bool" where
  "taskReadsRoster t \<longleftrightarrow>
     \<not> IsKeeperSideTask t \<and> onTargetsRoster (tk_on (keys t))
     \<or> fieldsRead exprReadsSoulprint t
     \<or> (case tk_assert (keys t) of None \<Rightarrow> False | Some that \<Rightarrow> list_ex exprReadsSoulprint that)
     \<or> list_ex taskReadsRoster (childrenOf t)"

definition AssertReadsRoster :: "plan_task \<Rightarrow> bool" where
  "AssertReadsRoster t =
     (case tk_assert (keys t) of
        None \<Rightarrow> False
      | Some that \<Rightarrow> exprReadsSoulprint (tk_when (keys t)) \<or> list_ex exprReadsSoulprint that)"

fun taskHasStateCapture :: "plan_task \<Rightarrow> bool" where
  "taskHasStateCapture t \<longleftrightarrow> stateCaptureVerb t \<noteq> None \<or> list_ex taskHasStateCapture (childrenOf t)"

definition HasStateCapture :: "plan_task list \<Rightarrow> bool" where
  "HasStateCapture tasks = list_ex taskHasStateCapture tasks"

section \<open>Vault\<close>

definition vaultEmitterModuleAddr :: string where "vaultEmitterModuleAddr = ''core.vault.kv-present''"

definition taskIsVaultEmitter :: "plan_task \<Rightarrow> bool" where
  "taskIsVaultEmitter t =
     (case tk_module (keys t) of None \<Rightarrow> False | Some m \<Rightarrow> mt_module m = vaultEmitterModuleAddr)"

definition regexpSpace :: "char \<Rightarrow> bool" where
  "regexpSpace c \<longleftrightarrow> c \<in> {CHR 0x09, CHR 0x0A, CHR 0x0C, CHR 0x0D, CHR 0x20}"

definition vaultAt :: "string \<Rightarrow> bool" where
  "vaultAt s \<longleftrightarrow> hasPrefix s ''vault'' \<and> hasPrefix (dropWhile regexpSpace (drop 5 s)) ''(''"

text \<open>\<^verbatim>\<open>reVaultRead\<close> behind the first position, where the boundary is a byte.\<close>

fun vaultIn :: "string \<Rightarrow> bool" where
  "vaultIn [] = False"
| "vaultIn (c # s) \<longleftrightarrow> rootBoundary c \<and> vaultAt s \<or> vaultIn s"

definition exprReadsVault :: "string \<Rightarrow> bool" where
  "exprReadsVault expr \<longleftrightarrow> expr \<noteq> [] \<and> (vaultAt (stripLiterals expr) \<or> vaultIn (stripLiterals expr))"

fun taskReadsVaultSecret :: "plan_task \<Rightarrow> bool" where
  "taskReadsVaultSecret t \<longleftrightarrow> fieldsRead exprReadsVault t \<or> list_ex taskReadsVaultSecret (childrenOf t)"

declare taskHasRefreshEmitter.simps [simp del] taskReadsRoster.simps [simp del]
  taskHasStateCapture.simps [simp del] taskReadsVaultSecret.simps [simp del]

section \<open>Flow control and requisites\<close>

record flow_read =
  fl_name :: string
  fl_kind :: string

fun taskFlowControlReads :: "plan_task \<Rightarrow> flow_read list" where
  "taskFlowControlReads t =
     concat (map (\<lambda>(expr, kind). map (\<lambda>n. \<lparr>fl_name = n, fl_kind = kind\<rparr>) (ExtractRegisterRefs expr))
       [(tk_when (keys t), ''when''), (tk_changedWhen (keys t), ''changed_when''), (tk_failedWhen (keys t), ''failed_when'')])
     @ concat (map taskFlowControlReads (childrenOf t))"

record task_requisite =
  rq_name :: string
  rq_kind :: string

definition ownRequisites :: "plan_task \<Rightarrow> task_requisite list" where
  "ownRequisites t =
     map (\<lambda>n. \<lparr>rq_name = n, rq_kind = ''onchanges''\<rparr>) (tk_onchanges (keys t))
     @ map (\<lambda>n. \<lparr>rq_name = n, rq_kind = ''onfail''\<rparr>) (tk_onfail (keys t))"

fun taskRequisites :: "plan_task \<Rightarrow> task_requisite list" where
  "taskRequisites t = ownRequisites t @ concat (map taskRequisites (childrenOf t))"

declare taskFlowControlReads.simps [simp del] taskRequisites.simps [simp del]

section \<open>What the scan finds\<close>

text \<open>
  An argument that starts with a register directly behind the parenthesis of a call on a register is not found: the
  optional group that stands for a lookahead takes the parenthesis, and with it the boundary of the next reference.
\<close>

theorem register_behind_call_missed:
  "ExtractRegisterRefs ''register.hosts.get(register.leader.host)'' = []"
  "ExtractRegisterRefs ''register.hosts.get( register.leader.host)'' = [''leader'']"
  by code_simp+

end
