(* ===== verification/Plan_Layers.thy ===== *)
theory Plan_Layers
  imports Main
begin

text \<open>
  The walk that numbers a graph in layers: the closure \<^verbatim>\<open>visit\<close> of \<^verbatim>\<open>Stratify\<close> (\<^verbatim>\<open>shared/config/passage.go\<close>), a depth-first
  search with a mark and a memo for each task. A task's edges are given as a list of pairs of a task and the number of
  layers it has to lie above it, in the order the loops of \<^verbatim>\<open>visit\<close> follow them.

  The recursion goes through the marks, so it runs on fuel; one unit for each task that is not visited yet is enough
  (\<open>visit_visits\<close>). The locale \<open>layering\<close> states what the edges of a plan promise, and its lemmas give the walk's result:
  the least numbering that respects all edges, or an error where no numbering does.
\<close>

section \<open>The walk\<close>

datatype mark = Unvisited | OnStack | Visited

record walk_state =
  ws_state :: "mark list"
  ws_memo :: "nat list"

type_synonym edges = "nat \<Rightarrow> (nat \<times> nat) list"

text \<open>\<open>Inl i\<close> is the cycle error at task \<open>i\<close>, \<open>None\<close> the end of the fuel.\<close>

type_synonym 'a walk = "(nat + 'a \<times> walk_state) option"

fun visitEach :: "(nat \<Rightarrow> walk_state \<Rightarrow> nat walk) \<Rightarrow> (nat \<times> nat) list \<Rightarrow> nat \<Rightarrow> walk_state \<Rightarrow> nat walk" where
  "visitEach v [] level s = Some (Inr (level, s))"
| "visitEach v ((j, w) # js) level s =
     (case v j s of
        None \<Rightarrow> None
      | Some (Inl e) \<Rightarrow> Some (Inl e)
      | Some (Inr (p, s')) \<Rightarrow> visitEach v js (if p + w > level then p + w else level) s')"

fun visit :: "edges \<Rightarrow> nat \<Rightarrow> nat \<Rightarrow> walk_state \<Rightarrow> nat walk" where
  "visit E 0 i s = None"
| "visit E (Suc fuel) i s =
     (case ws_state s ! i of
        Visited \<Rightarrow> Some (Inr (ws_memo s ! i, s))
      | OnStack \<Rightarrow> Some (Inl i)
      | Unvisited \<Rightarrow>
          (case visitEach (visit E fuel) (E i) 0 (s\<lparr>ws_state := (ws_state s)[i := OnStack]\<rparr>) of
             None \<Rightarrow> None
           | Some (Inl e) \<Rightarrow> Some (Inl e)
           | Some (Inr (level, s')) \<Rightarrow>
               Some (Inr (level, s'\<lparr>ws_state := (ws_state s')[i := Visited], ws_memo := (ws_memo s')[i := level]\<rparr>))))"

text \<open>The loop over all tasks, with the highest layer so far.\<close>

fun visitAll :: "edges \<Rightarrow> nat \<Rightarrow> nat list \<Rightarrow> nat \<Rightarrow> walk_state \<Rightarrow> nat walk" where
  "visitAll E fuel [] best s = Some (Inr (best, s))"
| "visitAll E fuel (i # js) best s =
     (case visit E fuel i s of
        None \<Rightarrow> None
      | Some (Inl e) \<Rightarrow> Some (Inl e)
      | Some (Inr (p, s')) \<Rightarrow> visitAll E fuel js (if p > best then p else best) s')"

definition startState :: "nat \<Rightarrow> walk_state" where
  "startState n = \<lparr>ws_state = replicate n Unvisited, ws_memo = replicate n 0\<rparr>"

definition layers :: "edges \<Rightarrow> nat \<Rightarrow> nat walk" where
  "layers E n = visitAll E (Suc n) [0..<n] 0 (startState n)"

section \<open>Numberings\<close>

definition obeys :: "edges \<Rightarrow> nat \<Rightarrow> (nat \<Rightarrow> nat) \<Rightarrow> bool" where
  "obeys E n f \<longleftrightarrow> (\<forall>i < n. \<forall>j w. (j, w) \<in> set (E i) \<longrightarrow> f j + w \<le> f i)"

locale layering =
  fixes E :: edges and n :: nat
  assumes edge_target: "i < n \<Longrightarrow> (j, w) \<in> set (E i) \<Longrightarrow> j < n"
    and flat_edge_back: "i < n \<Longrightarrow> (j, 0) \<in> set (E i) \<Longrightarrow> j < i"
begin

definition reaches :: "(nat \<times> nat) set" where
  "reaches = {(i, j). i < n \<and> (\<exists>w. (j, w) \<in> set (E i))}\<^sup>+"

lemma edge_reaches: "i < n \<Longrightarrow> (j, w) \<in> set (E i) \<Longrightarrow> (i, j) \<in> reaches"
  unfolding reaches_def by blast

text \<open>Along a path the pair of number and position falls.\<close>

lemma reaches_below:
  assumes "obeys E n f" "(i, j) \<in> reaches"
  shows "f j < f i \<or> f j = f i \<and> j < i"
  using assms(2) unfolding reaches_def
proof (induction rule: trancl_induct)
  case (base j)
  then obtain w where e: "i < n" "(j, w) \<in> set (E i)" by blast
  with assms(1) have "f j + w \<le> f i" by (auto simp: obeys_def)
  with e flat_edge_back [of i j] show ?case by (cases w) auto
next
  case (step j k)
  then obtain w where e: "j < n" "(k, w) \<in> set (E j)" by blast
  with assms(1) have "f k + w \<le> f j" by (auto simp: obeys_def)
  with e flat_edge_back [of j k] step.IH show ?case by (cases w) auto
qed

lemma cycle_no_numbering: "(i, i) \<in> reaches \<Longrightarrow> \<not> obeys E n f"
  using reaches_below by blast

definition stacked :: "walk_state \<Rightarrow> nat set" where
  "stacked s = {i. i < n \<and> ws_state s ! i = OnStack}"

definition visited :: "walk_state \<Rightarrow> nat set" where
  "visited s = {i. i < n \<and> ws_state s ! i = Visited}"

definition fresh :: "walk_state \<Rightarrow> nat set" where
  "fresh s = {i. i < n \<and> ws_state s ! i = Unvisited}"

text \<open>A visited task respects its edges, its targets are visited, and its number is below that of every numbering.\<close>

definition sound :: "walk_state \<Rightarrow> bool" where
  "sound s \<longleftrightarrow>
     length (ws_state s) = n \<and> length (ws_memo s) = n
     \<and> (\<forall>i \<in> visited s. \<forall>j w. (j, w) \<in> set (E i) \<longrightarrow> j \<in> visited s \<and> ws_memo s ! j + w \<le> ws_memo s ! i)
     \<and> (\<forall>i \<in> visited s. \<forall>f. obeys E n f \<longrightarrow> ws_memo s ! i \<le> f i)"

lemma soundD:
  assumes "sound s"
  shows "length (ws_state s) = n" "length (ws_memo s) = n"
    and "i \<in> visited s \<Longrightarrow> (j, w) \<in> set (E i) \<Longrightarrow> j \<in> visited s"
    and "i \<in> visited s \<Longrightarrow> (j, w) \<in> set (E i) \<Longrightarrow> ws_memo s ! j + w \<le> ws_memo s ! i"
    and "i \<in> visited s \<Longrightarrow> obeys E n f \<Longrightarrow> ws_memo s ! i \<le> f i"
  using assms unfolding sound_def by blast+

definition grows :: "walk_state \<Rightarrow> walk_state \<Rightarrow> bool" where
  "grows s s' \<longleftrightarrow> stacked s' = stacked s \<and> visited s \<subseteq> visited s' \<and> (\<forall>i \<in> visited s. ws_memo s' ! i = ws_memo s ! i)"

lemma grows_refl: "grows s s"
  by (simp add: grows_def)

lemma grows_trans: "grows a b \<Longrightarrow> grows b c \<Longrightarrow> grows a c"
  by (auto simp: grows_def)

lemma fresh_rest: "length (ws_state s) = n \<Longrightarrow> fresh s = {..<n} - stacked s - visited s"
  by (auto simp: fresh_def stacked_def visited_def intro: mark.exhaust)

lemma grows_fresh: "sound s \<Longrightarrow> sound s' \<Longrightarrow> grows s s' \<Longrightarrow> fresh s' \<subseteq> fresh s"
  by (auto simp: fresh_rest sound_def grows_def)

text \<open>What a visit of \<open>i\<close> does: it returns the number of \<open>i\<close>, or the stack closes a cycle.\<close>

definition visits :: "nat \<Rightarrow> walk_state \<Rightarrow> nat walk \<Rightarrow> bool" where
  "visits i s r \<longleftrightarrow>
     (case r of
        None \<Rightarrow> False
      | Some (Inl e) \<Rightarrow> \<exists>k. (k, k) \<in> reaches
      | Some (Inr (p, s')) \<Rightarrow> sound s' \<and> grows s s' \<and> i \<in> visited s' \<and> p = ws_memo s' ! i)"

text \<open>What the loop over the edges of a task has reached.\<close>

definition climbs :: "(nat \<times> nat) list \<Rightarrow> nat \<Rightarrow> walk_state \<Rightarrow> nat walk \<Rightarrow> bool" where
  "climbs js level s r \<longleftrightarrow>
     (case r of
        None \<Rightarrow> False
      | Some (Inl e) \<Rightarrow> \<exists>k. (k, k) \<in> reaches
      | Some (Inr (l, s')) \<Rightarrow>
          sound s' \<and> grows s s' \<and> level \<le> l
          \<and> (\<forall>j w. (j, w) \<in> set js \<longrightarrow> j \<in> visited s' \<and> ws_memo s' ! j + w \<le> l)
          \<and> (l = level \<or> (\<exists>j w. (j, w) \<in> set js \<and> l = ws_memo s' ! j + w)))"

lemma visitEach_climbs:
  assumes v: "\<And>j w t. (j, w) \<in> set js \<Longrightarrow> sound t \<Longrightarrow> grows s t \<Longrightarrow> visits j t (v j t)"
    and "sound s"
  shows "climbs js level s (visitEach v js level s)"
  using assms
proof (induction js arbitrary: level s)
  case Nil
  then show ?case by (simp add: climbs_def grows_refl)
next
  case (Cons e js)
  obtain j w where e: "e = (j, w)" by (cases e)
  have j: "visits j s (v j s)" using Cons.prems e grows_refl by auto
  show ?case
  proof (cases "v j s")
    case None
    with j show ?thesis by (simp add: visits_def)
  next
    case (Some r)
    show ?thesis
    proof (cases r)
      case (Inl x)
      with j Some e show ?thesis by (simp add: visits_def climbs_def)
    next
      case (Inr q)
      obtain p t where q: "q = (p, t)" by (cases q)
      with j Some Inr have t: "sound t" "grows s t" "j \<in> visited t" "p = ws_memo t ! j"
        by (auto simp: visits_def)
      let ?l = "if p + w > level then p + w else level"
      have IH: "climbs js ?l t (visitEach v js ?l t)"
        using Cons.prems t grows_trans [OF t(2)] by (intro Cons.IH) auto
      show ?thesis
      proof (cases "visitEach v js ?l t")
        case None
        with IH show ?thesis by (simp add: climbs_def)
      next
        case some: (Some y)
        show ?thesis
        proof (cases y)
          case (Inl x)
          with IH some show ?thesis by (simp add: climbs_def e Some Inr q)
        next
          case right: (Inr z)
          obtain l u where z: "z = (l, u)" by (cases z)
          have u: "sound u" "grows t u" "?l \<le> l" "\<forall>j w. (j, w) \<in> set js \<longrightarrow> j \<in> visited u \<and> ws_memo u ! j + w \<le> l"
            "l = ?l \<or> (\<exists>j w. (j, w) \<in> set js \<and> l = ws_memo u ! j + w)"
            using IH some right z by (auto simp: climbs_def)
          have ju: "j \<in> visited u" "ws_memo u ! j = p" using u(2) t by (auto simp: grows_def)
          have "level \<le> l" "p + w \<le> l" using u(3) by (auto split: if_splits)
          moreover have "l = level \<or> l = p + w \<or> (\<exists>j w. (j, w) \<in> set js \<and> l = ws_memo u ! j + w)"
            using u(5) by (auto split: if_splits)
          ultimately show ?thesis
            using u grows_trans [OF t(2) u(2)] ju by (auto simp: climbs_def e Some Inr q some right z)
        qed
      qed
    qed
  qed
qed

text \<open>Putting a task on the stack, and taking it off with its number.\<close>

abbreviation push :: "nat \<Rightarrow> walk_state \<Rightarrow> walk_state" where
  "push i s \<equiv> s\<lparr>ws_state := (ws_state s)[i := OnStack]\<rparr>"

abbreviation pop :: "nat \<Rightarrow> nat \<Rightarrow> walk_state \<Rightarrow> walk_state" where
  "pop i l s \<equiv> s\<lparr>ws_state := (ws_state s)[i := Visited], ws_memo := (ws_memo s)[i := l]\<rparr>"

lemma push_sets:
  assumes "sound s" "i \<in> fresh s"
  shows "sound (push i s)" "stacked (push i s) = insert i (stacked s)" "visited (push i s) = visited s"
    "fresh (push i s) = fresh s - {i}"
proof -
  have len: "length (ws_state s) = n" "i < n" "ws_state s ! i = Unvisited"
    using assms by (simp_all add: sound_def fresh_def)
  have mark: "ws_state (push i s) ! k = (if k = i then OnStack else ws_state s ! k)" if "k < n" for k
    using that len(1) by (simp add: nth_list_update)
  show "stacked (push i s) = insert i (stacked s)"
    using len(2) by (auto simp only: stacked_def mem_Collect_eq mark split: if_splits)
  show st: "visited (push i s) = visited s"
    using len(2,3) by (auto simp only: visited_def mem_Collect_eq mark mark.distinct split: if_splits)
  show "fresh (push i s) = fresh s - {i}"
    using len(2,3) by (auto simp only: fresh_def mem_Collect_eq mark mark.distinct split: if_splits)
  show "sound (push i s)" using assms(1) st by (simp add: sound_def)
qed

lemma pop_sets:
  assumes "length (ws_state s) = n" "i \<in> stacked s"
  shows "stacked (pop i l s) = stacked s - {i}" "visited (pop i l s) = insert i (visited s)"
  using assms by (auto simp: stacked_def visited_def nth_list_update)

lemma pop_sound:
  assumes "sound s" "i \<in> stacked s"
    and above: "\<And>j w. (j, w) \<in> set (E i) \<Longrightarrow> j \<in> visited s \<and> ws_memo s ! j + w \<le> l"
    and least: "l = 0 \<or> (\<exists>j w. (j, w) \<in> set (E i) \<and> l = ws_memo s ! j + w)"
  shows "sound (pop i l s)"
proof -
  have len: "length (ws_state s) = n" "length (ws_memo s) = n" "i < n" "i \<notin> visited s"
    using soundD(1,2) [OF assms(1)] assms(2) by (simp_all add: stacked_def visited_def)
  have vis: "visited (pop i l s) = insert i (visited s)" using pop_sets [OF len(1) assms(2)] by simp
  have memo: "ws_memo (pop i l s) ! k = (if k = i then l else ws_memo s ! k)" if "k < n" for k
    using that len by (simp add: nth_list_update)
  have old: "ws_memo (pop i l s) ! k = ws_memo s ! k" if "k \<in> visited s" for k
    using that len memo by (auto simp: visited_def)
  have "l \<le> f i" if f: "obeys E n f" for f
  proof (cases "l = 0")
    case False
    then obtain j w where jw: "(j, w) \<in> set (E i)" "l = ws_memo s ! j + w" using least by blast
    have "ws_memo s ! j \<le> f j" using above [OF jw(1)] soundD(5) [OF assms(1) _ f] by blast
    moreover have "f j + w \<le> f i" using f jw(1) len(3) by (auto simp: obeys_def)
    ultimately show ?thesis using jw(2) by simp
  qed simp
  then have "ws_memo (pop i l s) ! k \<le> f k" if "k \<in> visited (pop i l s)" "obeys E n f" for k f
    using that soundD(5) [OF assms(1)] old memo [OF len(3)] unfolding vis by auto
  moreover have "j \<in> visited (pop i l s) \<and> ws_memo (pop i l s) ! j + w \<le> ws_memo (pop i l s) ! k"
    if k: "k \<in> visited (pop i l s)" and e: "(j, w) \<in> set (E k)" for k j w
  proof (cases "k = i")
    case True
    with above e old memo [OF len(3)] vis show ?thesis by auto
  next
    case False
    then have "k \<in> visited s" using k vis by simp
    with soundD(3,4) [OF assms(1) _ e] e old vis show ?thesis by auto
  qed
  ultimately show ?thesis using len by (simp add: sound_def)
qed

lemma visit_visits:
  assumes "sound s" "i < n" "\<And>k. k \<in> stacked s \<Longrightarrow> (k, i) \<in> reaches" "card (fresh s) < fuel"
  shows "visits i s (visit E fuel i s)"
  using assms
proof (induction fuel arbitrary: i s)
  case 0
  then show ?case by simp
next
  case (Suc fuel)
  show ?case
  proof (cases "ws_state s ! i")
    case Visited
    with Suc.prems show ?thesis by (simp add: visits_def grows_refl visited_def)
  next
    case OnStack
    then have "i \<in> stacked s" using Suc.prems(2) by (simp add: stacked_def)
    with Suc.prems(3) OnStack show ?thesis by (auto simp: visits_def)
  next
    case Unvisited
    then have fr: "i \<in> fresh s" using Suc.prems(2) by (simp add: fresh_def)
    note push = push_sets [OF Suc.prems(1) fr]
    have fin: "finite (fresh s)" by (simp add: fresh_def)
    then have card: "card (fresh (push i s)) < fuel"
      using Suc.prems(4) fr card_Diff1_less [OF fin fr] by (simp add: push(4))
    have "climbs (E i) 0 (push i s) (visitEach (visit E fuel) (E i) 0 (push i s))"
    proof (rule visitEach_climbs [OF _ push(1)])
      fix j w t
      assume e: "(j, w) \<in> set (E i)" and t: "sound t" "grows (push i s) t"
      have "(k, j) \<in> reaches" if "k \<in> stacked t" for k
      proof -
        have "k = i \<or> k \<in> stacked s" using that t(2) push(2) by (simp add: grows_def)
        then show ?thesis
          using Suc.prems(2,3) e edge_reaches unfolding reaches_def by (blast intro: trancl_trans)
      qed
      moreover have "card (fresh t) < fuel"
        using card_mono [OF _ grows_fresh [OF push(1) t]] card fin push(4) by simp
      ultimately show "visits j t (visit E fuel j t)"
        using Suc.IH t(1) edge_target [OF Suc.prems(2) e] by blast
    qed
    then obtain r where r: "visitEach (visit E fuel) (E i) 0 (push i s) = Some r" "climbs (E i) 0 (push i s) (Some r)"
      by (cases "visitEach (visit E fuel) (E i) 0 (push i s)") (auto simp: climbs_def)
    show ?thesis
    proof (cases r)
      case (Inl e)
      with r Unvisited show ?thesis by (simp add: visits_def climbs_def)
    next
      case (Inr z)
      obtain l u where z: "z = (l, u)" by (cases z)
      with r Inr have u: "sound u" "grows (push i s) u"
        "\<And>j w. (j, w) \<in> set (E i) \<Longrightarrow> j \<in> visited u \<and> ws_memo u ! j + w \<le> l"
        "l = 0 \<or> (\<exists>j w. (j, w) \<in> set (E i) \<and> l = ws_memo u ! j + w)"
        by (auto simp: climbs_def)
      have iu: "i \<in> stacked u" using u(2) push(2) by (simp add: grows_def)
      have len: "length (ws_state u) = n" "length (ws_memo u) = n" using u(1) by (auto simp: sound_def)
      have "grows s (pop i l u)"
      proof -
        have out: "i \<notin> stacked s" "i \<notin> visited s" using Unvisited by (auto simp: stacked_def visited_def)
        have "(ws_memo u)[i := l] ! k = ws_memo s ! k" if "k \<in> visited s" for k
          using that out(2) u(2) push(3) by (cases "k = i") (simp_all add: grows_def)
        then show ?thesis
          using out u(2) push(2,3) pop_sets [OF len(1) iu] by (auto simp: grows_def)
      qed
      then show ?thesis
        using r Inr z Unvisited pop_sound [OF u(1) iu u(3,4)] pop_sets(2) [OF len(1) iu] len Suc.prems(2)
        by (simp add: visits_def)
    qed
  qed
qed

lemma visitAll_runs:
  assumes "sound s" "stacked s = {}" "set js \<subseteq> {..<n}" "card (fresh s) < fuel"
  shows "(\<exists>e k. visitAll E fuel js best s = Some (Inl e) \<and> (k, k) \<in> reaches)
    \<or> (\<exists>b u. visitAll E fuel js best s = Some (Inr (b, u)) \<and> sound u \<and> grows s u \<and> set js \<subseteq> visited u
         \<and> best \<le> b \<and> (\<forall>i \<in> set js. ws_memo u ! i \<le> b) \<and> (b = best \<or> (\<exists>i \<in> set js. b = ws_memo u ! i)))"
  using assms
proof (induction js arbitrary: best s)
  case Nil
  then show ?case by (simp add: grows_refl)
next
  case (Cons i js)
  have v: "visits i s (visit E fuel i s)"
    using Cons.prems by (intro visit_visits) simp_all
  then obtain r where r: "visit E fuel i s = Some r" by (auto simp: visits_def split: option.splits)
  show ?case
  proof (cases r)
    case (Inl e)
    with v r show ?thesis by (auto simp: visits_def)
  next
    case (Inr z)
    obtain p t where z: "z = (p, t)" by (cases z)
    with v r Inr have t: "sound t" "grows s t" "i \<in> visited t" "p = ws_memo t ! i" by (auto simp: visits_def)
    let ?b = "if p > best then p else best"
    have "card (fresh t) \<le> card (fresh s)"
      by (rule card_mono [OF _ grows_fresh [OF Cons.prems(1) t(1,2)]]) (simp add: fresh_def)
    then have f: "stacked t = {}" "card (fresh t) < fuel" using Cons.prems t(2) by (auto simp: grows_def)
    have step: "visitAll E fuel (i # js) best s = visitAll E fuel js ?b t" using r Inr z by simp
    have in_range: "set js \<subseteq> {..<n}" using Cons.prems(3) by simp
    consider (cycle) e k where "visitAll E fuel js ?b t = Some (Inl e)" "(k, k) \<in> reaches"
      | (ends) b u where "visitAll E fuel js ?b t = Some (Inr (b, u))" "sound u" "grows t u" "set js \<subseteq> visited u"
          "?b \<le> b" "\<forall>k \<in> set js. ws_memo u ! k \<le> b" "b = ?b \<or> (\<exists>k \<in> set js. b = ws_memo u ! k)"
      using Cons.IH [OF t(1) f(1) in_range f(2), of ?b] by (elim disjE [of "\<exists>e k. _ e k"]) blast+
    then show ?thesis
    proof cases
      case ends
      note u = ends
      have "i \<in> visited u" "ws_memo u ! i = p" using t(3,4) u(3) by (auto simp: grows_def)
      then show ?thesis
        using step u grows_trans [OF t(2) u(3)] by (intro disjI2 exI [of _ b] exI [of _ u]) (auto split: if_splits)
    next
      case cycle
      then show ?thesis unfolding step by blast
    qed
  qed
qed

text \<open>The walk over all tasks ends, with the least numbering if there is one and an error if there is none.\<close>

lemma layers_decides:
  "(\<exists>e. layers E n = Some (Inl e)) \<and> (\<forall>f. \<not> obeys E n f)
    \<or> (\<exists>b u. layers E n = Some (Inr (b, u)) \<and> length (ws_memo u) = n \<and> obeys E n ((!) (ws_memo u))
         \<and> (\<forall>f. obeys E n f \<longrightarrow> (\<forall>i < n. ws_memo u ! i \<le> f i))
         \<and> (\<forall>i < n. ws_memo u ! i \<le> b) \<and> (b = 0 \<or> (\<exists>i < n. b = ws_memo u ! i)))"
proof -
  have s: "sound (startState n)" "stacked (startState n) = {}"
    by (auto simp: sound_def startState_def visited_def stacked_def)
  have "card (fresh (startState n)) \<le> card {..<n}" by (rule card_mono) (auto simp: fresh_def)
  then have "card (fresh (startState n)) < Suc n" by simp
  have in_range: "set [0..<n] \<subseteq> {..<n}" by auto
  consider (cycle) e k where "layers E n = Some (Inl e)" "(k, k) \<in> reaches"
    | (ends) b u where "layers E n = Some (Inr (b, u))" "sound u" "set [0..<n] \<subseteq> visited u"
        "\<forall>i \<in> set [0..<n]. ws_memo u ! i \<le> b" "b = 0 \<or> (\<exists>i \<in> set [0..<n]. b = ws_memo u ! i)"
    using visitAll_runs [OF s in_range \<open>card (fresh (startState n)) < Suc n\<close>, of 0]
    unfolding layers_def by (elim disjE [of "\<exists>e k. _ e k"]) blast+
  then show ?thesis
  proof cases
    case cycle
    then show ?thesis using cycle_no_numbering by auto
  next
    case ends
    note u = ends
    have all: "i \<in> visited u" if "i < n" for i using that u(3) by auto
    then have "obeys E n ((!) (ws_memo u))" using soundD(4) [OF u(2)] by (simp add: obeys_def)
    moreover have "ws_memo u ! i \<le> f i" if "obeys E n f" "i < n" for f i
      using that soundD(5) [OF u(2) all] by blast
    ultimately show ?thesis
      using u(1,4,5) soundD(2) [OF u(2)] by (intro disjI2 exI [of _ b] exI [of _ u]) auto
  qed
qed

lemma layers_total: "layers E n \<noteq> None"
  using layers_decides by auto

lemma layers_Inr:
  assumes "layers E n = Some (Inr (b, u))"
  shows "length (ws_memo u) = n" "obeys E n ((!) (ws_memo u))"
    "obeys E n f \<Longrightarrow> i < n \<Longrightarrow> ws_memo u ! i \<le> f i"
    "i < n \<Longrightarrow> ws_memo u ! i \<le> b" "b = 0 \<or> (\<exists>i < n. b = ws_memo u ! i)"
  using layers_decides assms by auto

lemma layers_Inl: "layers E n = Some (Inl e) \<Longrightarrow> \<not> obeys E n f"
  using layers_decides by auto

end

end
