(* ===== verification/Plan_Stratify.thy ===== *)
theory Plan_Stratify
  imports Plan_Refs Plan_Layers
begin

text \<open>
  The stratification of a staged run (\<^verbatim>\<open>shared/config/passage.go\<close>): \<open>Stratify\<close> numbers the top-level tasks of a plan in
  Passages, \<open>RefreshBoundaries\<close> (\<^verbatim>\<open>passage_refresh.go\<close>) says before which of them the roster is resolved again, and the
  detectors refuse what a numbering of top-level tasks cannot order. The order a plan needs is the predicate \<open>ordered\<close>.
\<close>

section \<open>Emitters\<close>

definition emitterIndex :: "plan_task list \<Rightarrow> string \<Rightarrow> nat option" where
  "emitterIndex tasks =
     foldl (\<lambda>m (i, t). foldl (\<lambda>m name. m(name \<mapsto> i)) m (taskEmittedRegisters t)) Map.empty (enumerate 0 tasks)"

lemma foldl_puts: "foldl (\<lambda>m name. m(name \<mapsto> (i::'b))) m names = (\<lambda>x. if x \<in> set names then Some i else m x)"
  by (induction names arbitrary: m) auto

lemma emitterIndex_snoc:
  "emitterIndex (ts @ [t]) r = (if r \<in> set (taskEmittedRegisters t) then Some (length ts) else emitterIndex ts r)"
  by (simp add: emitterIndex_def enumerate_append_eq foldl_puts)

text \<open>The last task that emits the name.\<close>

lemma emitterIndex_iff:
  "emitterIndex tasks r = Some e \<longleftrightarrow>
     e < length tasks \<and> r \<in> set (taskEmittedRegisters (tasks ! e))
     \<and> (\<forall>k < length tasks. e < k \<longrightarrow> r \<notin> set (taskEmittedRegisters (tasks ! k)))"
proof (induction tasks rule: rev_induct)
  case Nil
  then show ?case by (simp add: emitterIndex_def)
next
  case (snoc t ts)
  show ?case
  proof (cases "r \<in> set (taskEmittedRegisters t)")
    case True
    then show ?thesis by (auto simp: emitterIndex_snoc nth_append less_Suc_eq)
  next
    case False
    then show ?thesis by (auto simp: emitterIndex_snoc snoc.IH nth_append less_Suc_eq)
  qed
qed

lemma emitterIndex_None: "emitterIndex tasks r = None \<longleftrightarrow> (\<forall>t \<in> set tasks. r \<notin> set (taskEmittedRegisters t))"
  by (induction tasks rule: rev_induct) (auto simp: emitterIndex_snoc, simp add: emitterIndex_def)

section \<open>Stratify\<close>

record passage =
  ps_task :: "nat list"
  ps_count :: nat

datatype stratify_error = UnknownRegister nat string | DependencyCycle nat

definition refreshEmitters :: "plan_task list \<Rightarrow> nat list" where
  "refreshEmitters tasks = filter (\<lambda>i. taskIsRefreshEmitter (tasks ! i)) [0..<length tasks]"

definition vaultEmitters :: "plan_task list \<Rightarrow> nat list" where
  "vaultEmitters tasks = filter (\<lambda>i. taskIsVaultEmitter (tasks ! i)) [0..<length tasks]"

text \<open>
  The edges of \<^verbatim>\<open>visit\<close>, each loop's in its order: the emitters of the registers the task reads, all tasks before an
  emitter, the refresh emitters before a roster reader, and the vault emitters before a vault reader.
\<close>

definition registerEdges :: "plan_task list \<Rightarrow> edges" where
  "registerEdges tasks i =
     map (\<lambda>j. (j, 1)) (filter (\<lambda>j. j \<noteq> i)
       (map (\<lambda>name. case emitterIndex tasks name of None \<Rightarrow> 0 | Some j \<Rightarrow> j) (taskRegisterReads (tasks ! i))))"

definition programEdges :: "plan_task list \<Rightarrow> edges" where
  "programEdges tasks i = (if taskEmitsRegister (tasks ! i) then map (\<lambda>j. (j, 0)) [0..<i] else [])"

definition rosterEdges :: "plan_task list \<Rightarrow> edges" where
  "rosterEdges tasks i =
     (if refreshEmitters tasks \<noteq> [] \<and> taskReadsRoster (tasks ! i)
      then map (\<lambda>j. (j, 1)) (takeWhile (\<lambda>j. j < i) (refreshEmitters tasks)) else [])"

definition vaultEdges :: "plan_task list \<Rightarrow> edges" where
  "vaultEdges tasks i =
     (if vaultEmitters tasks \<noteq> [] \<and> taskReadsVaultSecret (tasks ! i)
      then map (\<lambda>j. (j, 1)) (takeWhile (\<lambda>j. j < i) (vaultEmitters tasks)) else [])"

definition stratifyEdges :: "plan_task list \<Rightarrow> edges" where
  "stratifyEdges tasks i =
     registerEdges tasks i @ programEdges tasks i @ rosterEdges tasks i @ vaultEdges tasks i"

text \<open>The first read of a register that no task emits.\<close>

definition danglingRead :: "plan_task list \<Rightarrow> (nat \<times> string) option" where
  "danglingRead tasks =
     firstSome (\<lambda>i. map_option (Pair i) (List.find (\<lambda>name. emitterIndex tasks name = None) (taskRegisterReads (tasks ! i))))
       [0..<length tasks]"

text \<open>\<open>None\<close> would be the end of the fuel of the walk.\<close>

definition Stratify :: "plan_task list \<Rightarrow> (stratify_error + passage) option" where
  "Stratify tasks =
     (if tasks = [] then Some (Inr \<lparr>ps_task = [], ps_count = 1\<rparr>)
      else case danglingRead tasks of
        Some (i, name) \<Rightarrow> Some (Inl (UnknownRegister i name))
      | None \<Rightarrow>
          (case layers (stratifyEdges tasks) (length tasks) of
             None \<Rightarrow> None
           | Some (Inl i) \<Rightarrow> Some (Inl (DependencyCycle i))
           | Some (Inr (maxP, s)) \<Rightarrow> Some (Inr \<lparr>ps_task = ws_memo s, ps_count = maxP + 1\<rparr>)))"

section \<open>The order of a plan\<close>

text \<open>
  \<open>f\<close> puts every reader of a register above the task that emits it, no emitter below a task before it, and every reader
  of the roster or of Vault above the refresh and the vault steps before it.
\<close>

definition ordered :: "plan_task list \<Rightarrow> (nat \<Rightarrow> nat) \<Rightarrow> bool" where
  "ordered tasks f \<longleftrightarrow>
     (\<forall>i < length tasks.
        (\<forall>r \<in> set (taskRegisterReads (tasks ! i)). \<forall>e. emitterIndex tasks r = Some e \<longrightarrow> f e < f i)
        \<and> (\<forall>j < i.
             (taskEmitsRegister (tasks ! i) \<longrightarrow> f j \<le> f i)
             \<and> (taskReadsRoster (tasks ! i) \<and> taskIsRefreshEmitter (tasks ! j) \<longrightarrow> f j < f i)
             \<and> (taskReadsVaultSecret (tasks ! i) \<and> taskIsVaultEmitter (tasks ! j) \<longrightarrow> f j < f i)))"

lemma takeWhile_upt: "k \<le> n \<Longrightarrow> takeWhile (\<lambda>j. j < k) (filter p [0..<n]) = filter p [0..<k]"
proof -
  assume "k \<le> n"
  then have "[0..<n] = [0..<k] @ [k..<n]" using upt_add_eq_append [of 0 k "n - k"] by simp
  moreover have "filter p [k..<n] = [] \<or> \<not> hd (filter p [k..<n]) < k"
    using hd_in_set [of "filter p [k..<n]"] by auto
  then have "takeWhile (\<lambda>j. j < k) (filter p [k..<n]) = []" by (simp add: takeWhile_eq_Nil_iff)
  ultimately show ?thesis using takeWhile_append2 [of "filter p [0..<k]" "\<lambda>j. j < k" "filter p [k..<n]"] by auto
qed

text \<open>A loop over the emitters that stops at the task itself runs through those before it.\<close>

lemma emitters_before:
  assumes "i < n"
  shows "(if filter p [0..<n] \<noteq> [] \<and> r then map (\<lambda>j. (j, 1::nat)) (takeWhile (\<lambda>j. j < i) (filter p [0..<n])) else [])
    = (if r then map (\<lambda>j. (j, 1)) (filter p [0..<i]) else [])"
proof (cases "filter p [0..<n] = []")
  case True
  then have "filter p [0..<i] = []" using assms by (auto simp: filter_empty_conv)
  with True show ?thesis by simp
next
  case False
  then show ?thesis using assms by (simp only: takeWhile_upt [OF less_imp_le]) simp
qed

lemma danglingRead_None:
  "danglingRead tasks = None \<longleftrightarrow>
     (\<forall>i < length tasks. \<forall>r \<in> set (taskRegisterReads (tasks ! i)). \<exists>e. emitterIndex tasks r = Some e)"
  by (auto simp: danglingRead_def find_None_iff)

text \<open>A task does not read what it emits, so the edge to itself that \<^verbatim>\<open>visit\<close> skips never arises.\<close>

lemma emitter_not_self: "r \<in> set (taskRegisterReads (tasks ! i)) \<Longrightarrow> emitterIndex tasks r = Some e \<Longrightarrow> e \<noteq> i"
  by (auto simp: set_taskRegisterReads emitterIndex_iff)

lemma registerEdges_iff:
  assumes "danglingRead tasks = None" "i < length tasks"
  shows "(j, w) \<in> set (registerEdges tasks i) \<longleftrightarrow>
     w = 1 \<and> (\<exists>r \<in> set (taskRegisterReads (tasks ! i)). emitterIndex tasks r = Some j)"
proof -
  have known: "\<exists>e. emitterIndex tasks r = Some e \<and> e \<noteq> i" if "r \<in> set (taskRegisterReads (tasks ! i))" for r
    using assms that emitter_not_self [OF that] unfolding danglingRead_None by blast
  have "(j, w) \<in> set (registerEdges tasks i) \<longleftrightarrow>
    w = 1 \<and> j \<noteq> i \<and> (\<exists>r \<in> set (taskRegisterReads (tasks ! i)). j = (case emitterIndex tasks r of None \<Rightarrow> 0 | Some j \<Rightarrow> j))"
    unfolding registerEdges_def set_map set_filter by blast
  also have "\<dots> \<longleftrightarrow> w = 1 \<and> (\<exists>r \<in> set (taskRegisterReads (tasks ! i)). emitterIndex tasks r = Some j)"
    using known by (metis option.simps(5) option.inject)
  finally show ?thesis .
qed

lemma programEdges_iff: "(j, w) \<in> set (programEdges tasks i) \<longleftrightarrow> w = 0 \<and> j < i \<and> taskEmitsRegister (tasks ! i)"
  by (auto simp: programEdges_def)

lemma rosterEdges_iff:
  assumes "i < length tasks"
  shows "(j, w) \<in> set (rosterEdges tasks i) \<longleftrightarrow>
     w = 1 \<and> j < i \<and> taskReadsRoster (tasks ! i) \<and> taskIsRefreshEmitter (tasks ! j)"
  unfolding rosterEdges_def refreshEmitters_def emitters_before [OF assms] by auto

lemma vaultEdges_iff:
  assumes "i < length tasks"
  shows "(j, w) \<in> set (vaultEdges tasks i) \<longleftrightarrow>
     w = 1 \<and> j < i \<and> taskReadsVaultSecret (tasks ! i) \<and> taskIsVaultEmitter (tasks ! j)"
  unfolding vaultEdges_def vaultEmitters_def emitters_before [OF assms] by auto

lemma obeys_ordered:
  assumes "danglingRead tasks = None"
  shows "obeys (stratifyEdges tasks) (length tasks) f \<longleftrightarrow> ordered tasks f"
  unfolding obeys_def ordered_def
proof (intro iff_allI imp_cong refl)
  fix i assume "i < length tasks"
  note iffs = registerEdges_iff [OF assms this] programEdges_iff rosterEdges_iff [OF this] vaultEdges_iff [OF this]
  show "(\<forall>j w. (j, w) \<in> set (stratifyEdges tasks i) \<longrightarrow> f j + w \<le> f i) \<longleftrightarrow>
    (\<forall>r \<in> set (taskRegisterReads (tasks ! i)). \<forall>e. emitterIndex tasks r = Some e \<longrightarrow> f e < f i)
    \<and> (\<forall>j < i. (taskEmitsRegister (tasks ! i) \<longrightarrow> f j \<le> f i)
         \<and> (taskReadsRoster (tasks ! i) \<and> taskIsRefreshEmitter (tasks ! j) \<longrightarrow> f j < f i)
         \<and> (taskReadsVaultSecret (tasks ! i) \<and> taskIsVaultEmitter (tasks ! j) \<longrightarrow> f j < f i))"
    unfolding stratifyEdges_def set_append Un_iff iffs by (auto simp: Suc_le_eq)
qed

text \<open>The edges of a plan meet what the walk asks of them.\<close>

interpretation plan: layering "stratifyEdges tasks" "length tasks" for tasks
proof
  fix i j w
  assume i: "i < length tasks" and e: "(j, w) \<in> set (stratifyEdges tasks i)"
  have "j < length tasks" if "(j, w) \<in> set (registerEdges tasks i)"
    using that i by (auto simp: registerEdges_def emitterIndex_iff split: option.splits)
  with i e show "j < length tasks"
    by (auto simp: stratifyEdges_def programEdges_iff rosterEdges_iff vaultEdges_iff)
next
  fix i j
  assume i: "i < length tasks" and e: "(j, 0) \<in> set (stratifyEdges tasks i)"
  have "(j, 0) \<notin> set (registerEdges tasks i)" by (auto simp: registerEdges_def)
  with i e show "j < i" by (auto simp: stratifyEdges_def programEdges_iff rosterEdges_iff vaultEdges_iff)
qed

section \<open>What Stratify returns\<close>

lemma ordered_nil [simp]: "ordered [] f"
  by (simp add: ordered_def)

lemma Stratify_Inr:
  assumes "Stratify tasks = Some (Inr p)"
  shows "danglingRead tasks = None" "length (ps_task p) = length tasks" "ordered tasks ((!) (ps_task p))"
    "ordered tasks f \<Longrightarrow> i < length tasks \<Longrightarrow> ps_task p ! i \<le> f i"
    "i < length tasks \<Longrightarrow> ps_task p ! i < ps_count p"
    "tasks \<noteq> [] \<Longrightarrow> \<exists>i < length tasks. ps_task p ! i + 1 = ps_count p"
proof -
  have "danglingRead tasks = None \<and> length (ps_task p) = length tasks \<and> ordered tasks ((!) (ps_task p))
    \<and> (\<forall>f. ordered tasks f \<longrightarrow> (\<forall>i < length tasks. ps_task p ! i \<le> f i))
    \<and> (\<forall>i < length tasks. ps_task p ! i < ps_count p)
    \<and> (tasks \<noteq> [] \<longrightarrow> (\<exists>i < length tasks. ps_task p ! i + 1 = ps_count p))"
  proof (cases "tasks = []")
    case True
    with assms show ?thesis by (auto simp: Stratify_def danglingRead_None)
  next
    case False
    with assms have d: "danglingRead tasks = None" by (auto simp: Stratify_def split: option.splits)
    with assms False obtain b u where u: "layers (stratifyEdges tasks) (length tasks) = Some (Inr (b, u))"
      "p = \<lparr>ps_task = ws_memo u, ps_count = b + 1\<rparr>"
      by (auto simp: Stratify_def split: option.splits sum.splits)
    note L = plan.layers_Inr [OF u(1)]
    note ob = obeys_ordered [OF d]
    have "\<exists>i < length tasks. ws_memo u ! i = b"
      using L(4,5) False by (metis gr0I le_zero_eq length_greater_0_conv)
    then show ?thesis using d L u(2) False by (auto simp: ob less_Suc_eq_le)
  qed
  then show "danglingRead tasks = None" "length (ps_task p) = length tasks" "ordered tasks ((!) (ps_task p))"
    "ordered tasks f \<Longrightarrow> i < length tasks \<Longrightarrow> ps_task p ! i \<le> f i"
    "i < length tasks \<Longrightarrow> ps_task p ! i < ps_count p"
    "tasks \<noteq> [] \<Longrightarrow> \<exists>i < length tasks. ps_task p ! i + 1 = ps_count p"
    by blast+
qed

lemma Stratify_cycle: "Stratify tasks = Some (Inl (DependencyCycle i)) \<Longrightarrow> \<not> ordered tasks f"
  using plan.layers_Inl obeys_ordered [of tasks f]
  by (auto simp: Stratify_def split: if_splits option.splits sum.splits)

lemma Stratify_total: "Stratify tasks \<noteq> None"
  using plan.layers_total [of tasks]
  by (auto simp: Stratify_def split: if_splits option.splits sum.splits)

end
