(* ===== verification/Plan_Detect.thy ===== *)
theory Plan_Detect
  imports Plan_Stratify
begin

text \<open>
  What is derived from a plan in Passages, and the detectors that refuse what no numbering of top-level tasks can order
  (\<^verbatim>\<open>shared/config/passage.go\<close>, \<^verbatim>\<open>passage_refresh.go\<close>, \<^verbatim>\<open>state_capture_order.go\<close>): the boundaries of the roster, requisites
  and conditions across Passages, a register read from a sibling in the same block, and a capture that comes after a use.
\<close>

section \<open>Boundaries of the roster\<close>

definition markBoundary :: "plan_task list \<Rightarrow> passage \<Rightarrow> bool list \<Rightarrow> nat \<Rightarrow> bool list" where
  "markBoundary tasks p out i =
     (if \<not> taskIsRefreshEmitter (tasks ! i) then out
      else let next = ps_task p ! i + 1 in if next < ps_count p then out[next := True] else out)"

definition RefreshBoundaries :: "plan_task list \<Rightarrow> passage \<Rightarrow> bool list" where
  "RefreshBoundaries tasks p =
     (let out = replicate (ps_count p) False
      in if ps_count p \<le> 1 \<or> length (ps_task p) \<noteq> length tasks then out
         else foldl (markBoundary tasks p) out [0..<length tasks])"

section \<open>Requisites and conditions across Passages\<close>

record cross_info =
  ci_consumer :: string
  ci_name :: string
  ci_kind :: string
  ci_consumerPassage :: nat
  ci_sourcePassage :: nat

text \<open>The first link of task \<open>i\<close> to an emitter in another Passage.\<close>

definition crossLink :: "plan_task list \<Rightarrow> passage \<Rightarrow> nat \<Rightarrow> (string \<times> string) \<Rightarrow> cross_info option" where
  "crossLink tasks p i = (\<lambda>(name, kind).
     (case emitterIndex tasks name of
        None \<Rightarrow> None
      | Some src \<Rightarrow>
          if ps_task p ! src \<noteq> ps_task p ! i
          then Some \<lparr>ci_consumer = taskDisplayName (tasks ! i), ci_name = name, ci_kind = kind,
                     ci_consumerPassage = ps_task p ! i, ci_sourcePassage = ps_task p ! src\<rparr>
          else None))"

definition CrossPassageRequisite :: "plan_task list \<Rightarrow> passage \<Rightarrow> cross_info option" where
  "CrossPassageRequisite tasks p =
     (if ps_count p \<le> 1 \<or> length (ps_task p) \<noteq> length tasks then None
      else firstSome (\<lambda>i. firstSome (\<lambda>rq. crossLink tasks p i (rq_name rq, rq_kind rq)) (taskRequisites (tasks ! i)))
             [0..<length tasks])"

definition CrossPassageWhenGating :: "plan_task list \<Rightarrow> passage \<Rightarrow> cross_info option" where
  "CrossPassageWhenGating tasks p =
     (if ps_count p \<le> 1 \<or> length (ps_task p) \<noteq> length tasks then None
      else firstSome (\<lambda>i. firstSome (\<lambda>fl. if fl_name fl \<in> set (taskEmittedRegisters (tasks ! i)) then None
                                          else crossLink tasks p i (fl_name fl, fl_kind fl))
                            (taskFlowControlReads (tasks ! i)))
             [0..<length tasks])"

section \<open>A sibling's register\<close>

record within_block_info =
  wb_reader :: string
  wb_register :: string
  wb_emitter :: string

definition collectBlockEmits :: "plan_task \<Rightarrow> (string \<rightharpoonup> string) \<Rightarrow> string \<rightharpoonup> string" where
  "collectBlockEmits child m = foldl (\<lambda>m reg. m(reg \<mapsto> taskDisplayName child)) m (taskEmittedRegisters child)"

definition blockEmits :: "plan_task \<Rightarrow> string \<rightharpoonup> string" where
  "blockEmits container = foldl (\<lambda>m c. collectBlockEmits c m) Map.empty (childrenOf container)"

definition childPeerRead :: "plan_task \<Rightarrow> (string \<rightharpoonup> string) \<Rightarrow> within_block_info option" where
  "childPeerRead child emits =
     firstSome (\<lambda>reg. if reg \<in> set (taskEmittedRegisters child) then None
                      else (case emits reg of
                              None \<Rightarrow> None
                            | Some emitter \<Rightarrow> Some \<lparr>wb_reader = taskDisplayName child, wb_register = reg, wb_emitter = emitter\<rparr>))
       (sort (remdups (collectTaskReads child)))"

fun blockPeerRegisterRead :: "plan_task \<Rightarrow> within_block_info option" where
  "blockPeerRegisterRead container =
     (if list_all (\<lambda>c. taskEmittedRegisters c = []) (childrenOf container) then None
      else firstSome (\<lambda>c. case childPeerRead c (blockEmits container) of
                            Some info \<Rightarrow> Some info
                          | None \<Rightarrow> (if Block c = None then None else blockPeerRegisterRead c))
             (childrenOf container))"

declare blockPeerRegisterRead.simps [simp del]

definition WithinBlockRegisterDependency :: "plan_task list \<Rightarrow> within_block_info option" where
  "WithinBlockRegisterDependency tasks =
     firstSome (\<lambda>t. if Block t = None then None else blockPeerRegisterRead t) tasks"

section \<open>Order around a capture\<close>

fun orderedWalk :: "nat \<Rightarrow> plan_task \<Rightarrow> (nat \<times> plan_task) list" where
  "orderedWalk idx t = (idx, t) # concat (map (orderedWalk idx) (childrenOf t))"

declare orderedWalk.simps [simp del]

definition flattenOrdered :: "plan_task list \<Rightarrow> (nat \<times> plan_task) list" where
  "flattenOrdered tasks = concat (map (\<lambda>(i, t). orderedWalk i t) (enumerate 0 tasks))"

record state_order_info =
  so_capture :: string
  so_verb :: string
  so_other :: string
  so_ref :: string

text \<open>A consumer at position \<open>ui\<close> of the walk that is no capture and whose top-level task is before that of the capture.\<close>

definition usesBefore :: "(nat \<times> plan_task) list \<Rightarrow> nat \<Rightarrow> string \<Rightarrow> nat \<Rightarrow> bool" where
  "usesBefore nodes ci ref ui \<longleftrightarrow>
     ui \<noteq> ci \<and> ref \<in> set (taskOwnReads (snd (nodes ! ui))) \<and> stateCaptureVerb (snd (nodes ! ui)) = None
     \<and> \<not> fst (nodes ! ci) \<le> fst (nodes ! ui)"

definition StoreAfterUse :: "plan_task list \<Rightarrow> state_order_info option" where
  "StoreAfterUse tasks =
     (let nodes = flattenOrdered tasks
      in firstSome (\<lambda>ci.
           case stateCaptureVerb (snd (nodes ! ci)) of
             None \<Rightarrow> None
           | Some verb \<Rightarrow>
               firstSome (\<lambda>ref. map_option (\<lambda>ui. \<lparr>so_capture = taskDisplayName (snd (nodes ! ci)), so_verb = verb,
                                                    so_other = taskDisplayName (snd (nodes ! ui)), so_ref = ref\<rparr>)
                                  (List.find (usesBefore nodes ci ref) [0..<length nodes]))
                 (sort (remdups (taskOwnReads (snd (nodes ! ci))))))
         [0..<length nodes])"

text \<open>A modify or remove that selects the whole collection: its match absent, blank or the literal \<^verbatim>\<open>true\<close>.\<close>

definition trimPrefix :: "string \<Rightarrow> string \<Rightarrow> string" where
  "trimPrefix s p = (if hasPrefix s p then drop (length p) s else s)"

definition trimSuffix :: "string \<Rightarrow> string \<Rightarrow> string" where
  "trimSuffix s p = rev (trimPrefix (rev s) (rev p))"

definition isConstTrueMatch :: "string \<Rightarrow> bool" where
  "isConstTrueMatch expr \<longleftrightarrow> trimSpace (trimSuffix (trimPrefix (trimSpace expr) ''${'') ''}'') = ''true''"

text \<open>A parameter as Go's assertion to a string reads it, with the empty string where it fails.\<close>

definition stringParam :: "string \<Rightarrow> plan_task \<Rightarrow> string" where
  "stringParam k t =
     (case tk_module (keys t) of
        None \<Rightarrow> []
      | Some m \<Rightarrow> (case map_of (mt_params m) k of Some (VStr s) \<Rightarrow> s | _ \<Rightarrow> []))"

definition captureField :: "plan_task \<Rightarrow> string option" where
  "captureField t =
     (let field = stringParam ''field'' t in if field = [] \<or> str_contains field ''${'' then None else Some field)"

definition WideStateMatch :: "plan_task list \<Rightarrow> state_order_info list" where
  "WideStateMatch tasks =
     List.map_filter (\<lambda>(idx, t).
       case stateCaptureVerb t of
         None \<Rightarrow> None
       | Some verb \<Rightarrow>
           if (verb \<noteq> ''modify'' \<and> verb \<noteq> ''remove'')
              \<or> trimSpace (stringParam ''match'' t) \<noteq> [] \<and> \<not> isConstTrueMatch (stringParam ''match'' t) then None
           else Some \<lparr>so_capture = tk_name (keys t), so_verb = verb, so_other = [],
                       so_ref = (case captureField t of None \<Rightarrow> [] | Some f \<Rightarrow> f)\<rparr>)
       (flattenOrdered tasks)"

section \<open>A boundary stands before every reader of a new roster\<close>

lemma markBoundary_nth:
  "b < length out \<Longrightarrow> markBoundary ts p out i ! b \<longleftrightarrow>
     out ! b \<or> taskIsRefreshEmitter (ts ! i) \<and> ps_task p ! i + 1 = b \<and> b < ps_count p"
  by (cases "ps_task p ! i + 1 = b") (auto simp: markBoundary_def Let_def)

lemma markBoundary_length [simp]: "length (markBoundary ts p out i) = length out"
  by (simp add: markBoundary_def Let_def)

lemma boundary_fold:
  "b < length out \<Longrightarrow> foldl (markBoundary ts p) out js ! b \<longleftrightarrow>
     out ! b \<or> (\<exists>i \<in> set js. taskIsRefreshEmitter (ts ! i) \<and> ps_task p ! i + 1 = b \<and> b < ps_count p)"
  by (induction js arbitrary: out) (auto simp: markBoundary_nth)

lemma boundary_length: "length (foldl (markBoundary ts p) out js) = length out"
  by (induction js arbitrary: out) simp_all

lemma RefreshBoundaries_length: "length (RefreshBoundaries tasks p) = ps_count p"
  by (simp add: RefreshBoundaries_def boundary_length Let_def)

lemma RefreshBoundaries_iff:
  assumes "length (ps_task p) = length tasks" "b < ps_count p"
  shows "RefreshBoundaries tasks p ! b \<longleftrightarrow>
    1 < ps_count p \<and> (\<exists>i < length tasks. taskIsRefreshEmitter (tasks ! i) \<and> ps_task p ! i + 1 = b)"
  using assms by (auto simp: RefreshBoundaries_def Let_def boundary_fold Bex_def)

section \<open>What the check of a block leaves\<close>

lemma collectBlockEmits_dom: "collectBlockEmits c m r = None \<longleftrightarrow> m r = None \<and> r \<notin> set (taskEmittedRegisters c)"
  by (auto simp: collectBlockEmits_def foldl_puts)

lemma blockEmits_None: "blockEmits t r = None \<longleftrightarrow> (\<forall>c \<in> set (childrenOf t). r \<notin> set (taskEmittedRegisters c))"
proof -
  have "foldl (\<lambda>m c. collectBlockEmits c m) m cs r = None \<longleftrightarrow> m r = None \<and> (\<forall>c \<in> set cs. r \<notin> set (taskEmittedRegisters c))"
    for m and cs :: "plan_task list"
    by (induction cs arbitrary: m) (auto simp: collectBlockEmits_dom)
  then show ?thesis by (simp add: blockEmits_def)
qed

lemma childPeerRead_None:
  "childPeerRead c m = None \<longleftrightarrow> (\<forall>r \<in> set (collectTaskReads c). r \<in> set (taskEmittedRegisters c) \<or> m r = None)"
  by (auto simp: childPeerRead_def split: option.splits)

text \<open>A task of a plan, at any depth, with the registers its enclosing blocks set themselves.\<close>

fun enclosed :: "string list \<Rightarrow> plan_task \<Rightarrow> (string list \<times> plan_task) list" where
  "enclosed up t = (up, t) # concat (map (enclosed (tk_register (keys t) # up)) (childrenOf t))"

declare enclosed.simps [simp del]

lemma enclosed_Cons:
  "(ups, v) \<in> set (enclosed up t) \<longleftrightarrow>
     (ups, v) = (up, t) \<or> (\<exists>c \<in> set (childrenOf t). (ups, v) \<in> set (enclosed (tk_register (keys t) # up) c))"
  by (subst enclosed.simps) auto

lemma enclosed_up: "(ups, v) \<in> set (enclosed up t) \<Longrightarrow> set up \<subseteq> set ups"
proof (induction up t rule: enclosed.induct)
  case (1 up t)
  then show ?case by (subst (asm) enclosed_Cons) fastforce
qed

lemma enclosed_reads: "(ups, v) \<in> set (enclosed up t) \<Longrightarrow> r \<in> set (taskOwnReads v) \<Longrightarrow> r \<in> set (collectTaskReads t)"
proof (induction up t rule: enclosed.induct)
  case (1 up t)
  from 1(2) consider "v = t" | c where "c \<in> set (childrenOf t)" "(ups, v) \<in> set (enclosed (tk_register (keys t) # up) c)"
    by (auto simp: enclosed_Cons [of ups v up t])
  then show ?case using 1 by cases (subst collectTaskReads.simps; auto)+
qed

text \<open>A block that passes the check has no task that reads a register one of its other tasks sets.\<close>

lemma block_reads_settled:
  assumes "blockPeerRegisterRead t = None" "(ups, v) \<in> set (enclosed up t)" "v \<noteq> t \<or> ups \<noteq> up"
    and "r \<in> set (taskOwnReads v)" "r \<in> set (taskEmittedRegisters t)"
  shows "r \<in> set (taskEmittedRegisters v) \<or> r \<in> set ups"
  using assms
proof (induction t arbitrary: up rule: blockPeerRegisterRead.induct)
  case (1 t)
  obtain c where c: "c \<in> set (childrenOf t)" "(ups, v) \<in> set (enclosed (tk_register (keys t) # up) c)"
    using 1(3,4) by (auto simp: enclosed_Cons [of ups v up t])
  have own: "tk_register (keys t) \<in> set ups" using enclosed_up [OF c(2)] by simp
  show ?case
  proof (cases "r \<in> set (taskEmittedRegisters c)")
    case True
    show ?thesis
    proof (cases "v = c")
      case False
      with c(2) have "Block c \<noteq> None"
        by (cases "Block c") (auto simp: enclosed_Cons [of ups v _ c] childrenOf_def)
      moreover have ne: "\<not> list_all (\<lambda>c. taskEmittedRegisters c = []) (childrenOf t)"
        using True c(1) by (force simp: list_all_iff)
      ultimately have p: "childPeerRead c (blockEmits t) = None" "blockPeerRegisterRead c = None"
        using 1(2) c(1) by (subst (asm) blockPeerRegisterRead.simps, auto split: option.splits if_splits)+
      show ?thesis using 1(1) [OF ne c(1) p(1) \<open>Block c \<noteq> None\<close> p(2) c(2)] False 1(5) True by blast
    qed (use True in simp)
  next
    case False
    have read: "r \<in> set (collectTaskReads c)" using enclosed_reads [OF c(2) 1(5)] .
    show ?thesis
    proof (cases "\<exists>d \<in> set (childrenOf t). r \<in> set (taskEmittedRegisters d)")
      case True
      then have "\<not> list_all (\<lambda>c. taskEmittedRegisters c = []) (childrenOf t)" by (force simp: list_all_iff)
      then have "childPeerRead c (blockEmits t) = None"
        using 1(2) c(1) by (subst (asm) blockPeerRegisterRead.simps) (auto split: option.splits)
      with read False True show ?thesis by (auto simp: childPeerRead_None blockEmits_None)
    next
      case none: False
      with 1(6) have "r = tk_register (keys t)" by (subst (asm) taskEmittedRegisters.simps) (auto split: if_splits)
      with own show ?thesis by simp
    qed
  qed
qed


section \<open>The run a staged plan admits\<close>

text \<open>
  (C12) A staged plan is always numbered or refused: it is refused for a register no task emits, or because no numbering puts
  every reader above what it reads; otherwise the Passages respect the order of the plan, no other numbering gives a task a
  smaller one, and their number is exact.
\<close>

theorem passages_are_the_least_order:
  "case Stratify tasks of
     None \<Rightarrow> False
   | Some (Inl (UnknownRegister i r)) \<Rightarrow>
       i < length tasks \<and> r \<in> set (taskRegisterReads (tasks ! i)) \<and> (\<forall>t \<in> set tasks. r \<notin> set (taskEmittedRegisters t))
   | Some (Inl (DependencyCycle i)) \<Rightarrow> \<not> (\<exists>f. ordered tasks f)
   | Some (Inr p) \<Rightarrow>
       length (ps_task p) = length tasks \<and> ordered tasks ((!) (ps_task p))
       \<and> (\<forall>f i. ordered tasks f \<and> i < length tasks \<longrightarrow> ps_task p ! i \<le> f i)
       \<and> (\<forall>i < length tasks. ps_task p ! i < ps_count p)
       \<and> (if tasks = [] then ps_count p = 1 else \<exists>i < length tasks. ps_task p ! i + 1 = ps_count p)"
proof (cases "Stratify tasks")
  case None
  then show ?thesis using Stratify_total by simp
next
  case (Some r)
  show ?thesis
  proof (cases r)
    case (Inr p)
    note S = Stratify_Inr [OF Some [unfolded Inr]]
    have "tasks = [] \<Longrightarrow> ps_count p = 1" using Some Inr by (auto simp: Stratify_def)
    with S(2-6) Some Inr show ?thesis by auto
  next
    case (Inl e)
    show ?thesis
    proof (cases e)
      case (UnknownRegister i r)
      with Some Inl have "danglingRead tasks = Some (i, r)"
        by (auto simp: Stratify_def split: if_splits option.splits sum.splits)
      then have "i < length tasks \<and> r \<in> set (taskRegisterReads (tasks ! i)) \<and> emitterIndex tasks r = None"
        by (auto simp: danglingRead_def find_Some_iff dest!: firstSome_Some)
      with Some Inl UnknownRegister show ?thesis by (simp add: emitterIndex_None)
    next
      case (DependencyCycle i)
      with Some Inl Stratify_cycle show ?thesis by auto
    qed
  qed
qed

text \<open>
  In a staged plan that passes the check of its blocks, a task at any depth that reads a register reads one of its own, one its
  enclosing blocks set themselves, or one whose last emitter runs in an earlier Passage.
\<close>

lemma stratified_reads_settled:
  assumes "Stratify tasks = Some (Inr p)" and "WithinBlockRegisterDependency tasks = None"
    and "i < length tasks" and "(ups, v) \<in> set (enclosed [] (tasks ! i))" and "r \<in> set (taskOwnReads v)"
  shows "r \<in> set (taskEmittedRegisters v) \<or> r \<in> set ups
    \<or> (\<exists>e < length tasks. r \<in> set (taskEmittedRegisters (tasks ! e))
         \<and> (\<forall>k. e < k \<and> k < length tasks \<longrightarrow> r \<notin> set (taskEmittedRegisters (tasks ! k)))
         \<and> ps_task p ! e < ps_task p ! i)"
proof (cases "r \<in> set (taskEmittedRegisters (tasks ! i))")
  case True
  show ?thesis
  proof (cases "v = tasks ! i")
    case False
    then have "Block (tasks ! i) \<noteq> None"
      using assms(4) by (cases "Block (tasks ! i)") (auto simp: enclosed_Cons [of ups v _ "tasks ! i"] childrenOf_def)
    with assms(2,3) have "blockPeerRegisterRead (tasks ! i) = None"
      by (auto simp: WithinBlockRegisterDependency_def dest!: bspec [OF _ nth_mem])
    from block_reads_settled [OF this assms(4) _ assms(5) True] False show ?thesis by blast
  qed (use True in simp)
next
  case False
  have "r \<in> set (collectTaskReads (tasks ! i))" using enclosed_reads [OF assms(4,5)] .
  with False have read: "r \<in> set (taskRegisterReads (tasks ! i))" by (simp add: set_taskRegisterReads)
  then obtain e where e: "emitterIndex tasks r = Some e"
    using Stratify_Inr(1) [OF assms(1)] assms(3) unfolding danglingRead_None by blast
  then have "ps_task p ! e < ps_task p ! i"
    using Stratify_Inr(3) [OF assms(1)] assms(3) read unfolding ordered_def by blast
  with e show ?thesis unfolding emitterIndex_iff by blast
qed

text \<open>
  (C14) In a staged run a task that reads the roster and stands after a refresh step renders in a Passage with a boundary between
  it and the refresh: the roster is resolved again after the Passage of the refresh and at the latest before that of the task.
\<close>

theorem new_roster_is_read:
  assumes "Stratify tasks = Some (Inr p)" and "j < i" "i < length tasks"
    and "taskIsRefreshEmitter (tasks ! j)" "taskReadsRoster (tasks ! i)"
  shows "\<exists>b. ps_task p ! j < b \<and> b \<le> ps_task p ! i \<and> b < length (RefreshBoundaries tasks p)
    \<and> RefreshBoundaries tasks p ! b"
proof -
  note S = Stratify_Inr [OF assms(1)]
  have below: "ps_task p ! j < ps_task p ! i" using S(3) assms(2-5) by (auto simp: ordered_def)
  have "ps_task p ! i < ps_count p" using S(5) assms(3) .
  with below have b: "ps_task p ! j + 1 < ps_count p" "1 < ps_count p" by auto
  then have "RefreshBoundaries tasks p ! (ps_task p ! j + 1)"
    using RefreshBoundaries_iff [OF S(2) b(1)] assms(2-4) less_trans [OF assms(2,3)] by blast
  with below b(1) show ?thesis by (intro exI [of _ "ps_task p ! j + 1"]) (auto simp: RefreshBoundaries_length)
qed

section \<open>A plan\<close>

text \<open>
  A probe, a block whose task selects hosts by the probe's register, a refresh of the roster, and a task on the whole roster.
\<close>

definition bareKeys :: task_keys where
  "bareKeys = \<lparr>tk_name = [], tk_vars = [], tk_when = [], tk_loop = None, tk_register = [], tk_output = [],
     tk_onchanges = [], tk_onfail = [], tk_changedWhen = [], tk_failedWhen = [], tk_timeout = [], tk_on = VNil,
     tk_where = [], tk_serial = VNil, tk_settings = None, tk_module = None, tk_applyInput = None, tk_assert = None\<rparr>"

definition planProbe :: plan_task where
  "planProbe = PlanTask (bareKeys\<lparr>tk_register := ''probe'', tk_on := VList [VStr ''web''],
     tk_module := Some \<lparr>mt_module = ''core.exec.run'', mt_params = []\<rparr>\<rparr>) None"

definition planReader :: plan_task where
  "planReader = PlanTask (bareKeys\<lparr>tk_where := ''register.probe.rc == 0'', tk_on := VList [VStr ''web''],
     tk_module := Some \<lparr>mt_module = ''core.pkg.present'', mt_params = []\<rparr>\<rparr>) None"

definition planBlock :: plan_task where
  "planBlock = PlanTask (bareKeys\<lparr>tk_on := VList [VStr ''web'']\<rparr>) (Some [planReader])"

definition planRefresh :: plan_task where
  "planRefresh = PlanTask (bareKeys\<lparr>tk_module := Some \<lparr>mt_module = ''core.soul.registered'',
     mt_params = [(''refresh_soulprint'', VBool True)]\<rparr>\<rparr>) None"

definition planAll :: plan_task where
  "planAll = PlanTask (bareKeys\<lparr>tk_module := Some \<lparr>mt_module = ''core.pkg.present'', mt_params = []\<rparr>\<rparr>) None"

definition planDemo :: "plan_task list" where
  "planDemo = [planProbe, planBlock, planRefresh, planAll]"

lemma planDemo_runs: "Stratify planDemo = Some (Inr \<lparr>ps_task = [0, 1, 0, 1], ps_count = 2\<rparr>)"
  by code_simp

lemma planDemo_blocks: "WithinBlockRegisterDependency planDemo = None"
  by code_simp

theorem passages_are_the_least_order_witness:
  "ordered planDemo ((!) [0, 1, 0, 1]) \<and> \<not> (\<exists>f. ordered planDemo f \<and> f 3 = 0)"
proof -
  have "length planDemo = 4" by (simp add: planDemo_def)
  then show ?thesis
    using passages_are_the_least_order [of planDemo] by (fastforce simp: planDemo_runs numeral_eq_Suc)
qed

theorem new_roster_is_read_witness: "RefreshBoundaries planDemo \<lparr>ps_task = [0, 1, 0, 1], ps_count = 2\<rparr> ! 1"
proof -
  have "taskIsRefreshEmitter (planDemo ! 2)" "taskReadsRoster (planDemo ! 3)" by code_simp+
  moreover have "length planDemo = 4" by (simp add: planDemo_def)
  ultimately obtain b where "0 < b" "b \<le> (1::nat)"
    "RefreshBoundaries planDemo \<lparr>ps_task = [0, 1, 0, 1], ps_count = 2\<rparr> ! b"
    using new_roster_is_read [OF planDemo_runs, of 2 3] by (auto simp: numeral_eq_Suc)
  then show ?thesis by (simp add: le_Suc_eq)
qed

text \<open>
  The check asks the children only: a block that selects its hosts by the register of its own child passes it and is one
  Passage, although the block's \<^verbatim>\<open>where:\<close> is merged into every child when it renders.
\<close>

definition planSelfBlock :: plan_task where
  "planSelfBlock = PlanTask (bareKeys\<lparr>tk_where := ''register.probe.rc == 0''\<rparr>) (Some [planProbe, planAll])"

theorem block_where_not_checked:
  "Stratify [planSelfBlock] = Some (Inr \<lparr>ps_task = [0], ps_count = 1\<rparr>)"
  "WithinBlockRegisterDependency [planSelfBlock] = None"
  "''probe'' \<in> set (taskOwnReads planSelfBlock)" "''probe'' \<in> set (taskEmittedRegisters planProbe)"
  by code_simp+

end
