(* ===== verification/Plan_Steps.thy ===== *)
theory Plan_Steps
  imports Plan_Detect
begin

text \<open>
  The numbering of a linear run (\<^verbatim>\<open>shared/config/passage_linear.go\<close>, \<^verbatim>\<open>passage_linear_settings.go\<close>): the steps of a plan,
  the place of a task by its path, the settings of each step, and which blocks roll as a group. The nodes and \<open>StepSpan\<close> are those of the failure policy.
\<close>

section \<open>Groups\<close>

definition LinearBlockChild :: "(string \<Rightarrow> int option) \<Rightarrow> plan_task \<Rightarrow> plan_task \<Rightarrow> plan_task" where
  "LinearBlockChild dur block child =
     PlanTask ((keys child)\<lparr>tk_settings := InheritSettings dur (tk_settings (keys block)) child,
                 tk_serial := (if tk_serial (keys child) = VNil then tk_serial (keys block) else tk_serial (keys child))\<rparr>)
       (Block child)"

lemma LinearBlockChild_shape [simp]:
  "Block (LinearBlockChild dur b c) = Block c" "childrenOf (LinearBlockChild dur b c) = childrenOf c"
  "size (LinearBlockChild dur b c) = size c"
  by (cases c; simp add: LinearBlockChild_def childrenOf_def)+

definition BlockRollsAsGroup :: "settings option \<Rightarrow> plan_task \<Rightarrow> bool" where
  "BlockRollsAsGroup sc block =
     (if Block block = None \<or> tk_serial (keys block) = VNil then False
      else let eff = scenarioLevel sc;
               eff = (case tk_settings (keys block) of None \<Rightarrow> eff | Some s \<Rightarrow> MergeSettings eff s)
           in st_serialScope eff = Some SerialScopeBlock)"

section \<open>Steps\<close>

lemma size_childrenOf: "size_list size (childrenOf t) < size t"
  by (cases t rule: plan_task.exhaust, rename_tac k b, case_tac b) auto

function (sequential)
  linearStepNode :: "(string \<Rightarrow> int option) \<Rightarrow> settings option \<Rightarrow> plan_task \<Rightarrow> int \<Rightarrow> step_node \<times> int" and
  linearChildren :: "(string \<Rightarrow> int option) \<Rightarrow> settings option \<Rightarrow> plan_task \<Rightarrow> plan_task list \<Rightarrow> int \<Rightarrow> step_node list \<times> int"
where
  "linearStepNode dur sc t nx =
     (if Block t = None \<or> BlockRollsAsGroup sc t \<or> childrenOf t = []
      then (StepNode nx (BlockRollsAsGroup sc t) None, nx + 1)
      else case linearChildren dur sc t (childrenOf t) nx of (cs, n) \<Rightarrow> (StepNode nx False (Some cs), n))"
| "linearChildren dur sc t [] nx = ([], nx)"
| "linearChildren dur sc t (c # cs) nx =
     (case linearStepNode dur sc (LinearBlockChild dur t c) nx of
        (n, k) \<Rightarrow> (case linearChildren dur sc t cs k of (ns, m) \<Rightarrow> (n # ns, m)))"
  by pat_completeness auto
termination
  by (relation "measure (\<lambda>x. case x of Inl (dur, sc, t, nx) \<Rightarrow> size t | Inr (dur, sc, t, cs, nx) \<Rightarrow> size_list size cs)")
     (simp_all add: size_childrenOf)

declare linearStepNode.simps [simp del]

fun linearNodes :: "(string \<Rightarrow> int option) \<Rightarrow> settings option \<Rightarrow> plan_task list \<Rightarrow> int \<Rightarrow> step_node list \<times> int" where
  "linearNodes dur sc [] nx = ([], nx)"
| "linearNodes dur sc (t # ts) nx =
     (case linearStepNode dur sc t nx of
        (n, k) \<Rightarrow> (case linearNodes dur sc ts k of (ns, m) \<Rightarrow> (n # ns, m)))"

definition LinearPassage ::
    "(string \<Rightarrow> int option) \<Rightarrow> plan_task list \<Rightarrow> settings option \<Rightarrow> passage \<times> step_node list" where
  "LinearPassage dur tasks sc =
     (case linearNodes dur sc tasks 0 of
        (nodes, nx) \<Rightarrow>
          (\<lparr>ps_task = map (\<lambda>n. nat (sn_step n)) nodes, ps_count = (if nx = 0 then 1 else nat nx)\<rparr>, nodes))"

definition StepPath :: "string \<Rightarrow> nat \<Rightarrow> string" where
  "StepPath parent pos = (if parent = [] then digitsOf pos else parent @ ''/'' @ digitsOf pos)"

section \<open>Settings of a step\<close>

function (sequential)
  appendStepSettings :: "(string \<Rightarrow> int option) \<Rightarrow> settings option \<Rightarrow> settings \<Rightarrow> plan_task \<Rightarrow> settings list" and
  childrenSettings :: "(string \<Rightarrow> int option) \<Rightarrow> settings option \<Rightarrow> settings \<Rightarrow> plan_task \<Rightarrow> plan_task list \<Rightarrow> settings list"
where
  "appendStepSettings dur sc base t =
     (if Block t = None \<or> BlockRollsAsGroup sc t \<or> childrenOf t = []
      then [MergeSettings base (OwnSettings dur t)]
      else childrenSettings dur sc base t (childrenOf t))"
| "childrenSettings dur sc base t [] = []"
| "childrenSettings dur sc base t (c # cs) =
     appendStepSettings dur sc base (LinearBlockChild dur t c) @ childrenSettings dur sc base t cs"
  by pat_completeness auto
termination
  by (relation "measure (\<lambda>x. case x of Inl (dur, sc, base, t) \<Rightarrow> size t | Inr (dur, sc, base, t, cs) \<Rightarrow> size_list size cs)")
     (simp_all add: size_childrenOf)

declare appendStepSettings.simps [simp del]

definition StepSettings :: "(string \<Rightarrow> int option) \<Rightarrow> plan_task list \<Rightarrow> settings option \<Rightarrow> settings list" where
  "StepSettings dur tasks sc =
     (let out = concat (map (appendStepSettings dur sc (scenarioLevel sc)) tasks)
      in if out = [] then [scenarioLevel sc] else out)"

section \<open>The numbering covers the plan\<close>

text \<open>The steps of the leaves below a node, in plan order.\<close>

fun leafSteps :: "step_node \<Rightarrow> int list" where
  "leafSteps (StepNode s g None) = [s]"
| "leafSteps (StepNode s g (Some cs)) = concat (map leafSteps cs)"

text \<open>A node as the numbering makes it: a block has children and starts with its first one, and is no group.\<close>

fun wf_node :: "step_node \<Rightarrow> bool" where
  "wf_node (StepNode s g None) \<longleftrightarrow> True"
| "wf_node (StepNode s g (Some cs)) \<longleftrightarrow> cs \<noteq> [] \<and> s = sn_step (hd cs) \<and> \<not> g \<and> list_all wf_node cs"

lemma upto_append: "i \<le> j \<Longrightarrow> j \<le> k \<Longrightarrow> [i..j - 1] @ [j..k - 1] = [i..k - (1::int)]"
  using upto_split1 [of i "j - 1" "k - 1"] upto_split2 [of i "j - 1" "k - 1"] by (cases "i = j") simp_all

lemma leafSteps_nonempty: "wf_node n \<Longrightarrow> leafSteps n \<noteq> [] \<and> hd (leafSteps n) = sn_step n"
proof (induction n rule: wf_node.induct)
  case (2 s g cs)
  then obtain c ds where cs: "cs = c # ds" by (cases cs) auto
  with 2 have "leafSteps c \<noteq> [] \<and> hd (leafSteps c) = sn_step c" by simp
  with 2(2) cs show ?case by simp
qed simp

lemma linear_numbers:
  "linearStepNode dur sc t nx = (n, k) \<Longrightarrow>
     nx < k \<and> leafSteps n = [nx..k - 1] \<and> sn_step n = nx \<and> wf_node n"
  "linearChildren dur sc t cs nx = (ns, k) \<Longrightarrow>
     nx \<le> k \<and> concat (map leafSteps ns) = [nx..k - 1] \<and> list_all wf_node ns \<and> length ns = length cs
     \<and> (cs \<noteq> [] \<longrightarrow> sn_step (hd ns) = nx)"
proof (induction dur sc t nx and dur sc t cs nx arbitrary: n k and ns k rule: linearStepNode_linearChildren.induct)
  case (1 dur sc t nx)
  show ?case
  proof (cases "Block t = None \<or> BlockRollsAsGroup sc t \<or> childrenOf t = []")
    case True
    with 1(2) show ?thesis by (auto simp: linearStepNode.simps)
  next
    case False
    obtain cs m where c: "linearChildren dur sc t (childrenOf t) nx = (cs, m)" by fastforce
    with 1(2) False have n: "n = StepNode nx False (Some cs)" "k = m" by (auto simp: linearStepNode.simps)
    have IH: "nx \<le> m" "concat (map leafSteps cs) = [nx..m - 1]" "list_all wf_node cs"
      "length cs = length (childrenOf t)" "sn_step (hd cs) = nx"
      using 1(1) [OF False c] False by auto
    have ne: "cs \<noteq> []" using IH(4) False by auto
    then have "leafSteps (hd cs) \<noteq> []" using IH(3) leafSteps_nonempty by (cases cs) auto
    then have "[nx..m - 1] \<noteq> []" using IH(2) ne by (cases cs) auto
    with IH ne n show ?thesis by (auto simp: neq_Nil_conv)
  qed
next
  case (2 dur sc t nx)
  then show ?case by simp
next
  case (3 dur sc t c cs nx)
  obtain n m where n: "linearStepNode dur sc (LinearBlockChild dur t c) nx = (n, m)" by fastforce
  obtain ns' m' where r: "linearChildren dur sc t cs m = (ns', m')" by fastforce
  from 3(3) n r have e: "ns = n # ns'" "k = m'" by auto
  from 3(1) [OF n] 3(2) [OF n [symmetric] r] show ?case unfolding e by (auto simp: upto_append)
qed

section \<open>Paths\<close>

definition pathOf :: "nat list \<Rightarrow> string" where
  "pathOf ps = foldl StepPath [] ps"

lemma digitsOf_text: "list_all is_digit (digitsOf n) \<and> digitsOf n \<noteq> []"
proof (induction n rule: digitsOf.induct)
  case (1 n)
  have digit: "is_digit (char_of (48 + k))" if "k < 10" for k :: nat
    using that by (simp add: is_digit_def byte_in_def code_def)
  show ?case
  proof (cases "n < 10")
    case True
    then show ?thesis using digit by (subst (1 2) digitsOf.simps) simp
  next
    case False
    with 1 digit [of "n mod 10"] show ?thesis by (subst (1 2) digitsOf.simps) simp
  qed
qed

lemma digitsOf_value: "foldl (\<lambda>n c. n * 10 + (int (code c) - 48)) 0 (digitsOf n) = int n"
proof (induction n rule: digitsOf.induct)
  case (1 n)
  have val: "code (char_of (48 + k)) = 48 + k" if "k < 10" for k :: nat
    using that by (simp add: code_def)
  show ?case
  proof (cases "n < 10")
    case True
    then show ?thesis using val by (subst digitsOf.simps) simp
  next
    case False
    with 1 val [of "n mod 10"] show ?thesis by (subst digitsOf.simps) (simp add: zdiv_int zmod_int)
  qed
qed

lemma digit_no_sign: "is_digit c \<Longrightarrow> c \<noteq> CHR ''-'' \<and> c \<noteq> CHR ''+'' \<and> c \<noteq> CHR ''/''"
  by (auto simp: is_digit_def byte_in_def code_def)

lemma atoi_digitsOf:
  assumes "n < 2 ^ 63" shows "atoi (digitsOf n) = Some (int n)"
proof -
  obtain c cs where ds: "digitsOf n = c # cs" using digitsOf_text by (cases "digitsOf n") auto
  then have digits: "list_all is_digit (c # cs)" using digitsOf_text [of n] by simp
  have "int n < 2 ^ 63" using assms by (simp flip: of_nat_less_iff [of n "2 ^ 63", where 'a = int])
  then show ?thesis
    using digits digit_no_sign [of c] digitsOf_value [of n] unfolding atoi_def ds by (simp add: Let_def)
qed

lemma split_on_nonempty: "split_on d s \<noteq> []"
  by (cases s) (auto split: list.split)

lemma split_on_snoc: "d \<notin> set b \<Longrightarrow> split_on d (a @ d # b) = split_on d a @ [b]"
  by (induction a) (auto simp: split_on_clean split_on_nonempty split: list.splits)

lemma pathOf_snoc: "pathOf (ps @ [p]) = StepPath (pathOf ps) p"
  by (simp add: pathOf_def)

lemma pathOf_parts: "ps \<noteq> [] \<Longrightarrow> pathOf ps \<noteq> [] \<and> split_on (CHR ''/'') (pathOf ps) = map digitsOf ps"
proof (induction ps rule: rev_induct)
  case (snoc p ps)
  have d: "CHR ''/'' \<notin> set (digitsOf p)" using digitsOf_text [of p] digit_no_sign by (auto simp: list_all_iff)
  show ?case
  proof (cases "ps = []")
    case True
    with d show ?thesis using digitsOf_text [of p] by (simp add: pathOf_def StepPath_def split_on_clean)
  next
    case False
    with snoc.IH d show ?thesis by (simp add: pathOf_snoc StepPath_def split_on_snoc)
  qed
qed simp

text \<open>The node at a position; every position below a group is the group's.\<close>

fun nodeAt :: "step_node list \<Rightarrow> nat list \<Rightarrow> step_node option" where
  "nodeAt ns [] = None"
| "nodeAt ns (p # ps) =
     (if p \<ge> length ns then None
      else case sn_children (ns ! p) of
        None \<Rightarrow> if ps = [] \<or> sn_group (ns ! p) then Some (ns ! p) else None
      | Some cs \<Rightarrow> if ps = [] then Some (ns ! p) else nodeAt cs ps)"

lemma spanOf_nodeAt:
  "\<forall>p \<in> set ps. p < 2 ^ 63 \<Longrightarrow>
     spanOf ns (map digitsOf ps) = map_option (\<lambda>n. (sn_step n, sn_step (tailNode n))) (nodeAt ns ps)"
proof (induction ns ps rule: nodeAt.induct)
  case (2 ns p ps)
  have leaf: "sn_children n = None \<Longrightarrow> tailNode n = n" for n by (cases n) simp
  from 2 show ?case by (auto simp: atoi_digitsOf Let_def leaf split: option.split)
qed simp

lemma wf_node_nth: "list_all wf_node ns \<Longrightarrow> nodeAt ns ps = Some n \<Longrightarrow> wf_node n"
proof (induction ns ps rule: nodeAt.induct)
  case (2 ns p ps)
  show ?case
  proof (cases "sn_children (ns ! p)")
    case None
    with 2 show ?thesis by (auto simp: list_all_length split: if_splits)
  next
    case (Some cs)
    have "list_all wf_node cs" if "p < length ns"
    proof -
      have "wf_node (ns ! p)" using 2(2) that by (auto simp: list_all_length)
      with Some show ?thesis by (cases "ns ! p") auto
    qed
    with 2 Some show ?thesis by (auto simp: list_all_length split: if_splits)
  qed
qed simp

lemma tail_last: "wf_node n \<Longrightarrow> sn_step (tailNode n) = last (leafSteps n)"
proof (induction n rule: tailNode.induct)
  case (1 s g c cs)
  let ?l = "last (c # cs)"
  have "list_all wf_node (c # cs)" using 1(2) by simp
  then have l: "wf_node ?l" using last_in_set [of "c # cs"] unfolding list_all_iff by blast
  have "leafSteps (StepNode s g (Some (c # cs))) = concat (map leafSteps (butlast (c # cs))) @ leafSteps ?l"
    by (subst append_butlast_last_id [of "c # cs", symmetric]) (simp_all del: last.simps butlast.simps append_butlast_last_id)
  with 1(1) [OF l] leafSteps_nonempty [OF l] show ?case by (simp del: leafSteps.simps last.simps)
qed auto

section \<open>Settings and steps have the same length\<close>

lemma settings_per_step:
  "int (length (appendStepSettings dur sc base t)) = snd (linearStepNode dur sc t nx) - nx"
  "int (length (childrenSettings dur sc base t cs)) = snd (linearChildren dur sc t cs nx) - nx"
proof (induction dur sc base t and dur sc base t cs arbitrary: nx and nx rule: appendStepSettings_childrenSettings.induct)
  case (1 dur sc base t)
  show ?case
  proof (cases "Block t = None \<or> BlockRollsAsGroup sc t \<or> childrenOf t = []")
    case True
    then show ?thesis by (simp add: linearStepNode.simps appendStepSettings.simps)
  next
    case False
    with 1 [OF False, of nx] show ?thesis
      by (auto simp: linearStepNode.simps [of _ _ t] appendStepSettings.simps [of _ _ _ t] split: prod.split)
  qed
next
  case (3 dur sc base t c cs)
  obtain n k where n: "linearStepNode dur sc (LinearBlockChild dur t c) nx = (n, k)" by fastforce
  show ?case using 3(1) [of nx] 3(2) [of k] by (simp add: n split: prod.split)
qed simp


section \<open>The task of a step\<close>

text \<open>The tasks that are one step each, in plan order, with what their blocks hand them.\<close>

function (sequential)
  stepTasks :: "(string \<Rightarrow> int option) \<Rightarrow> settings option \<Rightarrow> plan_task \<Rightarrow> plan_task list" and
  childTasks :: "(string \<Rightarrow> int option) \<Rightarrow> settings option \<Rightarrow> plan_task \<Rightarrow> plan_task list \<Rightarrow> plan_task list"
where
  "stepTasks dur sc t =
     (if Block t = None \<or> BlockRollsAsGroup sc t \<or> childrenOf t = [] then [t]
      else childTasks dur sc t (childrenOf t))"
| "childTasks dur sc t [] = []"
| "childTasks dur sc t (c # cs) = stepTasks dur sc (LinearBlockChild dur t c) @ childTasks dur sc t cs"
  by pat_completeness auto
termination
  by (relation "measure (\<lambda>x. case x of Inl (dur, sc, t) \<Rightarrow> size t | Inr (dur, sc, t, cs) \<Rightarrow> size_list size cs)")
     (simp_all add: size_childrenOf)

declare stepTasks.simps [simp del]

lemma settings_of_tasks:
  "appendStepSettings dur sc base t = map (\<lambda>t. MergeSettings base (OwnSettings dur t)) (stepTasks dur sc t)"
  "childrenSettings dur sc base t cs = map (\<lambda>t. MergeSettings base (OwnSettings dur t)) (childTasks dur sc t cs)"
  by (induction dur sc base t and dur sc base t cs rule: appendStepSettings_childrenSettings.induct)
     (auto simp: appendStepSettings.simps stepTasks.simps)

lemma nodes_number:
  "linearNodes dur sc ts nx = (ns, k) \<Longrightarrow>
     nx \<le> k \<and> concat (map leafSteps ns) = [nx..k - 1] \<and> list_all wf_node ns \<and> length ns = length ts
     \<and> k - nx = int (length (concat (map (stepTasks dur sc) ts))) \<and> (ts \<noteq> [] \<longrightarrow> nx < k)"
proof (induction ts arbitrary: nx ns k)
  case (Cons t ts)
  obtain n m where n: "linearStepNode dur sc t nx = (n, m)" by fastforce
  obtain ns' m' where r: "linearNodes dur sc ts m = (ns', m')" by fastforce
  from Cons.prems n r have e: "ns = n # ns'" "k = m'" by auto
  have len: "int (length (stepTasks dur sc t)) = m - nx"
    using settings_per_step(1) [of dur sc noSettings t nx] by (simp add: n settings_of_tasks)
  from linear_numbers(1) [OF n] Cons.IH [OF r] len show ?case unfolding e by (auto simp: upto_append)
qed simp

lemma linear_count:
  assumes "LinearPassage dur tasks sc = (p, nodes)"
  shows "ps_count p = max 1 (length (concat (map (stepTasks dur sc) tasks)))"
proof -
  obtain k where k: "linearNodes dur sc tasks 0 = (nodes, k)" "ps_count p = (if k = 0 then 1 else nat k)"
    using assms by (auto simp: LinearPassage_def split: prod.splits)
  define m where "m = length (concat (map (stepTasks dur sc) tasks))"
  have "k = int m" using nodes_number [OF k(1)] by (simp only: m_def) simp
  with k(2) show ?thesis by (simp add: max_def flip: m_def)
qed

lemma map_int_upto: "map int [0..<m] = [0..int m - 1]"
  by (induction m) (simp_all add: upto_rec2)

text \<open>The task at a position, with what its blocks hand it; every position below a group is the group's.\<close>

fun planTaskAt :: "(string \<Rightarrow> int option) \<Rightarrow> settings option \<Rightarrow> plan_task list \<Rightarrow> nat list \<Rightarrow> plan_task option" where
  "planTaskAt dur sc ts [] = None"
| "planTaskAt dur sc ts (q # qs) =
     (if q \<ge> length ts then None
      else let t = ts ! q
           in if Block t = None \<or> BlockRollsAsGroup sc t \<or> childrenOf t = []
              then (if qs = [] \<or> BlockRollsAsGroup sc t then Some t else None)
              else if qs = [] then Some t
              else planTaskAt dur sc (map (LinearBlockChild dur t) (childrenOf t)) qs)"

lemma linearChildren_nodes: "linearChildren dur sc t cs nx = linearNodes dur sc (map (LinearBlockChild dur t) cs) nx"
  by (induction cs arbitrary: nx) auto

lemma childTasks_nodes: "childTasks dur sc t cs = concat (map (stepTasks dur sc) (map (LinearBlockChild dur t) cs))"
  by (induction cs) auto

lemma step_length: "linearStepNode dur sc t nx = (n, k) \<Longrightarrow> k = nx + int (length (stepTasks dur sc t))"
  using settings_per_step(1) [of dur sc noSettings t nx] by (simp add: settings_of_tasks)

lemma linearNodes_nth:
  "linearNodes dur sc ts nx = (ns, k) \<Longrightarrow> q < length ts \<Longrightarrow>
     \<exists>m. linearStepNode dur sc (ts ! q) (nx + int (length (concat (map (stepTasks dur sc) (take q ts))))) = (ns ! q, m)"
proof (induction ts arbitrary: nx ns q)
  case (Cons t ts)
  obtain n m where n: "linearStepNode dur sc t nx = (n, m)" by fastforce
  obtain ns' m' where r: "linearNodes dur sc ts m = (ns', m')" by fastforce
  have e: "ns = n # ns'" "k = m'" using Cons.prems(1) n r by auto
  show ?case
  proof (cases q)
    case 0
    with n e show ?thesis by simp
  next
    case (Suc p)
    with Cons.IH [of m ns' p] Cons.prems(2) r e step_length [OF n] show ?thesis by (simp add: add.assoc)
  qed
qed simp

text \<open>The leaves of the node at a position are the slice of the plan's steps that the task there stands for.\<close>

lemma nodeAt_taskAt:
  assumes "linearNodes dur sc ts nx = (ns, k)"
  shows "case nodeAt ns ps of
      None \<Rightarrow> planTaskAt dur sc ts ps = None
    | Some n \<Rightarrow> \<exists>t pre post. planTaskAt dur sc ts ps = Some t \<and> concat (map (stepTasks dur sc) ts) = pre @ stepTasks dur sc t @ post
        \<and> leafSteps n = [nx + int (length pre)..nx + int (length pre) + int (length (stepTasks dur sc t)) - 1]"
  using assms
proof (induction ps arbitrary: ts nx ns k)
  case (Cons q qs)
  have len: "length ns = length ts" using nodes_number [OF Cons.prems] by simp
  show ?case
  proof (cases "q < length ts")
    case False
    with len show ?thesis by simp
  next
    case True
    let ?t = "ts ! q" and ?pre = "concat (map (stepTasks dur sc) (take q ts))"
    let ?post = "concat (map (stepTasks dur sc) (drop (Suc q) ts))"
    let ?nx = "nx + int (length ?pre)"
    obtain m where m: "linearStepNode dur sc ?t ?nx = (ns ! q, m)" using linearNodes_nth [OF Cons.prems True] by blast
    have all: "concat (map (stepTasks dur sc) ts) = ?pre @ stepTasks dur sc ?t @ ?post"
      by (subst id_take_nth_drop [OF True]) simp
    have leaves: "leafSteps (ns ! q) = [?nx..?nx + int (length (stepTasks dur sc ?t)) - 1]"
      using linear_numbers(1) [OF m] step_length [OF m] by simp
    show ?thesis
    proof (cases "Block ?t = None \<or> BlockRollsAsGroup sc ?t \<or> childrenOf ?t = []")
      case leaf: True
      then have "ns ! q = StepNode ?nx (BlockRollsAsGroup sc ?t) None" using m by (simp add: linearStepNode.simps)
      with leaf True len all leaves show ?thesis by (auto simp: Let_def simp del: leafSteps.simps)
    next
      case block: False
      obtain cs j where c: "linearNodes dur sc (map (LinearBlockChild dur ?t) (childrenOf ?t)) ?nx = (cs, j)" by fastforce
      with m block have n: "ns ! q = StepNode ?nx False (Some cs)"
        by (simp add: linearStepNode.simps linearChildren_nodes)
      show ?thesis
      proof (cases "qs = []")
        case here: True
        with True len all leaves block n show ?thesis by (auto simp: Let_def simp del: leafSteps.simps)
      next
        case below: False
        have st: "stepTasks dur sc ?t = concat (map (stepTasks dur sc) (map (LinearBlockChild dur ?t) (childrenOf ?t)))"
          using block by (auto simp: stepTasks.simps [of _ _ ?t] childTasks_nodes simp del: map_map)
        from Cons.IH [OF c] show ?thesis
        proof (cases "nodeAt cs qs")
          case None
          with Cons.IH [OF c] below True len block n show ?thesis by (simp add: Let_def)
        next
          case (Some x)
          with Cons.IH [OF c] obtain t pre post where t:
            "planTaskAt dur sc (map (LinearBlockChild dur ?t) (childrenOf ?t)) qs = Some t"
            "stepTasks dur sc ?t = pre @ stepTasks dur sc t @ post"
            "leafSteps x = [?nx + int (length pre)..?nx + int (length pre) + int (length (stepTasks dur sc t)) - 1]"
            unfolding st by auto
          have "concat (map (stepTasks dur sc) ts) = (?pre @ pre) @ stepTasks dur sc t @ (post @ ?post)"
            using all t(2) by simp
          moreover have "leafSteps x = [nx + int (length (?pre @ pre))..nx + int (length (?pre @ pre)) + int (length (stepTasks dur sc t)) - 1]"
            using t(3) by (simp add: add.assoc)
          moreover have "nodeAt ns (q # qs) = Some x" "planTaskAt dur sc ts (q # qs) = Some t"
            using t(1) Some below True len block n by (auto simp: Let_def)
          ultimately show ?thesis unfolding \<open>nodeAt ns (q # qs) = Some x\<close> option.case by blast
        qed
      qed
    qed
  qed
qed simp


text \<open>
  (C16) The settings a step's barrier is judged by are those of the task that is the step: there is one entry for each step, with
  the radius its task's failures have and the timeout its task runs under.
\<close>

theorem step_judged_as_its_task:
  assumes "LinearPassage dur tasks sc = (p, nodes)" and "tasks \<noteq> []"
  shows "length (StepSettings dur tasks sc) = ps_count p
    \<and> (\<forall>s < ps_count p.
         let t = concat (map (stepTasks dur sc) tasks) ! s
         in st_onFailure (StepSettings dur tasks sc ! s) = Some (EffectiveOnFailure sc t)
            \<and> st_taskTimeout (StepSettings dur tasks sc ! s) = Some (EffectiveTaskTimeout dur sc t))"
proof -
  define ts where "ts = concat (map (stepTasks dur sc) tasks)"
  have out: "concat (map (appendStepSettings dur sc (scenarioLevel sc)) tasks)
    = map (\<lambda>t. MergeSettings (scenarioLevel sc) (OwnSettings dur t)) ts"
    unfolding ts_def by (induction tasks) (simp_all add: settings_of_tasks)
  have count: "ps_count p = max 1 (length ts)" unfolding ts_def by (rule linear_count [OF assms(1)])
  have "stepTasks dur sc t \<noteq> []" for t
    using linear_numbers(1) [of dur sc t 0] settings_per_step(1) [of dur sc noSettings t 0]
    by (cases "linearStepNode dur sc t 0") (auto simp: settings_of_tasks)
  then have ne: "ts \<noteq> []" using assms(2) unfolding ts_def by (cases tasks) auto
  then have eq: "StepSettings dur tasks sc = map (\<lambda>t. MergeSettings (scenarioLevel sc) (OwnSettings dur t)) ts"
    unfolding StepSettings_def Let_def out using ne by simp
  have fail: "st_onFailure (MergeSettings (scenarioLevel sc) (OwnSettings dur t)) = Some (EffectiveOnFailure sc t)" for t
    by (auto simp: MergeSettings_def OwnSettings_def EffectiveOnFailure_def scenarioLevel_def DefaultScenarioSettings_def
      noSettings_def over_def Let_def split: option.split)
  have time: "st_taskTimeout (MergeSettings (scenarioLevel sc) (OwnSettings dur t)) = Some (EffectiveTaskTimeout dur sc t)" for t
    by (auto simp: MergeSettings_def EffectiveTaskTimeout_def scenarioLevel_def DefaultScenarioSettings_def over_def
      split: option.split)
  have "ps_count p = length ts" using ne count by (cases ts) auto
  then show ?thesis unfolding ts_def [symmetric] by (simp add: eq fail time Let_def)
qed

section \<open>A linear plan\<close>

text \<open>A task and a block of two, the block's radius its children's.\<close>

definition planPair :: "plan_task list" where
  "planPair = [planProbe, PlanTask (bareKeys\<lparr>tk_settings := Some (noSettings\<lparr>st_onFailure := Some ''host''\<rparr>)\<rparr>) (Some [planAll, planAll])]"

definition pairNodes :: "step_node list" where
  "pairNodes = [StepNode 0 False None, StepNode 1 False (Some [StepNode 1 False None, StepNode 2 False None])]"

lemma planPair_numbers:
  "LinearPassage (\<lambda>_. None) planPair None = (\<lparr>ps_task = [0, 1], ps_count = 3\<rparr>, pairNodes)"
  by code_simp


theorem step_judged_as_its_task_witness:
  "length (StepSettings (\<lambda>_. None) planPair None) = 3
    \<and> st_onFailure (StepSettings (\<lambda>_. None) planPair None ! 2) = Some ''host''"
proof -
  have "EffectiveOnFailure None (concat (map (stepTasks (\<lambda>_. None) None) planPair) ! 2) = ''host''" by code_simp
  moreover have "planPair \<noteq> []" by (simp add: planPair_def)
  ultimately show ?thesis
    using step_judged_as_its_task [OF planPair_numbers] by (auto simp: Let_def)
qed

end
