(* ===== verification/Plan_Rescue.thy ===== *)
theory Plan_Rescue
  imports Plan_Steps
begin

text \<open>
  The requisites of a linear plan (\<^verbatim>\<open>shared/config/passage_linear.go\<close>) and its rescue units (\<^verbatim>\<open>rescue_unit.go\<close>): the links of
  the steps, the steps that hold a rescue, the units as the walk collects them, and the units that a Keeper decides
  across steps.

  The walk appends to the registers of the units by their index; the model passes its state along. A Go map from names to
  slices is a function to lists, empty where the name is missing.
\<close>

section \<open>Links\<close>

record step_link =
  sl_task :: plan_task
  sl_step :: int
  sl_reqs :: "task_requisite list"

text \<open>The nodes of the children: at the step of a task that is one step, else those of the block as far as they reach.\<close>

definition childNodes :: "plan_task \<Rightarrow> step_node \<Rightarrow> (plan_task \<times> step_node) list" where
  "childNodes t node =
     (case sn_children node of
        None \<Rightarrow> map (\<lambda>c. (c, StepNode (sn_step node) False None)) (childrenOf t)
      | Some ns \<Rightarrow> zip (childrenOf t) ns)"

lemma childNodes_child: "(c, n) \<in> set (childNodes t node) \<Longrightarrow> c \<in> set (childrenOf t)"
  by (auto simp: childNodes_def dest: set_zip_leftD split: option.splits)

function collectStepLinks :: "plan_task \<Rightarrow> step_node \<Rightarrow> task_requisite list \<Rightarrow> step_link list" where
  "collectStepLinks t node inherited =
     (let reqs = inherited @ ownRequisites t
      in (if sn_children node = None then [\<lparr>sl_task = t, sl_step = sn_step node, sl_reqs = reqs\<rparr>] else [])
         @ concat (map (\<lambda>(c, n). collectStepLinks c n reqs) (childNodes t node)))"
  by pat_completeness auto
termination
  by (relation "measure (\<lambda>(t, n, r). size t)") (auto dest!: childNodes_child size_children)

declare collectStepLinks.simps [simp del]

definition planStepLinks :: "plan_task list \<Rightarrow> step_node list \<Rightarrow> step_link list" where
  "planStepLinks tasks steps = concat (map (\<lambda>(t, n). collectStepLinks t n []) (zip tasks steps))"

definition RegisterSteps :: "plan_task list \<Rightarrow> step_node list \<Rightarrow> string \<Rightarrow> int list" where
  "RegisterSteps tasks steps name =
     (if length steps \<noteq> length tasks \<or> name = [] then []
      else map sl_step (filter (\<lambda>l. tk_register (keys (sl_task l)) = name) (planStepLinks tasks steps)))"

definition CrossStepRequisite :: "plan_task list \<Rightarrow> step_node list \<Rightarrow> (string \<times> task_requisite \<times> int \<times> int) option" where
  "CrossStepRequisite tasks steps =
     (if length steps \<noteq> length tasks then None
      else firstSome (\<lambda>l. firstSome (\<lambda>req. firstSome (\<lambda>src.
               if src \<noteq> sl_step l then Some (taskDisplayName (sl_task l), req, sl_step l, src) else None)
             (RegisterSteps tasks steps (rq_name req))) (sl_reqs l)) (planStepLinks tasks steps))"

definition noteRescue :: "(string \<Rightarrow> int list) \<Rightarrow> int \<Rightarrow> (int \<Rightarrow> string list) \<Rightarrow> task_requisite \<Rightarrow> int \<Rightarrow> string list" where
  "noteRescue emitted step out req =
     (if rq_kind req \<noteq> ''onfail'' \<or> rq_name req \<in> set (out step) then out
      else if list_ex (\<lambda>src. src < step) (emitted (rq_name req)) then out(step := out step @ [rq_name req])
      else out)"

definition RescueSteps :: "plan_task list \<Rightarrow> step_node list \<Rightarrow> int \<Rightarrow> string list" where
  "RescueSteps tasks steps =
     (if length steps \<noteq> length tasks then (\<lambda>_. [])
      else foldl (\<lambda>out l. if IsKeeperSideTask (sl_task l) then out
                          else foldl (noteRescue (RegisterSteps tasks steps) (sl_step l)) out (sl_reqs l))
             (\<lambda>_. []) (planStepLinks tasks steps))"

section \<open>Units\<close>

record rescue_unit =
  ru_source :: string
  ru_path :: string
  ru_task :: plan_task
  ru_registers :: "string list"

definition holdsPath :: "string \<Rightarrow> string \<Rightarrow> bool" where
  "holdsPath unit path \<longleftrightarrow> path = unit \<or> hasPrefix path (unit @ ''/'')"

record rescue_visit =
  rv_task :: plan_task
  rv_path :: string
  rv_inUnit :: bool

record rescue_walk =
  rw_units :: "rescue_unit list"
  rw_visits :: "rescue_visit list"

text \<open>The loop over the sources a task names: what it claims, the units that hold it, and the units so far.\<close>

definition claimSource ::
    "plan_task \<Rightarrow> string \<Rightarrow> string list \<times> nat list \<times> rescue_unit list \<Rightarrow> string \<Rightarrow> string list \<times> nat list \<times> rescue_unit list" where
  "claimSource t path = (\<lambda>(inner, holding, units) src.
     if src \<in> set inner then (inner, holding, units)
     else (src # inner, holding @ [length units],
           units @ [\<lparr>ru_source = src, ru_path = path, ru_task = t, ru_registers = []\<rparr>]))"

definition addRegister :: "string \<Rightarrow> rescue_unit list \<Rightarrow> nat \<Rightarrow> rescue_unit list" where
  "addRegister reg units u = units[u := (units ! u)\<lparr>ru_registers := ru_registers (units ! u) @ [reg]\<rparr>]"

lemma walk_measure: "Suc (2 * size_list size (childrenOf t)) < 2 * size t"
  using size_childrenOf [of t] by linarith

function (sequential)
  walkTask :: "plan_task \<Rightarrow> string \<Rightarrow> string list \<Rightarrow> nat list \<Rightarrow> rescue_walk \<Rightarrow> rescue_walk" and
  walkTasks :: "plan_task list \<Rightarrow> nat \<Rightarrow> string \<Rightarrow> string list \<Rightarrow> nat list \<Rightarrow> rescue_walk \<Rightarrow> rescue_walk"
where
  "walkTask t path claimed opened w =
     (case (if IsKeeperSideTask t then (claimed, opened, rw_units w)
            else foldl (claimSource t path) (claimed, opened, rw_units w) (tk_onfail (keys t))) of
        (inner, holding, units) \<Rightarrow>
          let units' = (if tk_register (keys t) \<noteq> [] then foldl (addRegister (tk_register (keys t))) units holding else units);
              w' = \<lparr>rw_units = units',
                    rw_visits = rw_visits w @ [\<lparr>rv_task = t, rv_path = path, rv_inUnit = holding \<noteq> []\<rparr>]\<rparr>
          in if Block t = None then w' else walkTasks (childrenOf t) 0 path inner holding w')"
| "walkTasks [] i parent claimed opened w = w"
| "walkTasks (t # ts) i parent claimed opened w =
     walkTasks ts (Suc i) parent claimed opened (walkTask t (StepPath parent i) claimed opened w)"
  by pat_completeness auto
termination
  by (relation "measure (\<lambda>x. case x of Inl (t, p, c, h, w) \<Rightarrow> 2 * size t | Inr (ts, i, p, c, h, w) \<Rightarrow> Suc (2 * size_list size ts))")
     (simp_all add: walk_measure)

declare walkTask.simps [simp del]

definition walkRescueUnits :: "plan_task list \<Rightarrow> rescue_walk" where
  "walkRescueUnits tasks = walkTasks tasks 0 [] [] [] \<lparr>rw_units = [], rw_visits = []\<rparr>"

definition RescueUnits :: "plan_task list \<Rightarrow> rescue_unit list" where
  "RescueUnits tasks = rw_units (walkRescueUnits tasks)"

section \<open>Units decided across steps\<close>

text \<open>The outermost units in plan order, each with the sources of the units it holds.\<close>

definition addOuter :: "(string \<times> string list) list \<Rightarrow> rescue_unit \<Rightarrow> (string \<times> string list) list" where
  "addOuter outer u =
     (if outer = [] \<or> \<not> holdsPath (fst (last outer)) (ru_path u) then outer @ [(ru_path u, [ru_source u])]
      else butlast outer @ [(fst (last outer), snd (last outer) @ [ru_source u])])"

definition registerSetters :: "step_node list \<Rightarrow> rescue_visit list \<Rightarrow> string \<Rightarrow> (int \<times> nat) list" where
  "registerSetters steps visits name =
     List.map_filter (\<lambda>(i, v).
       if name = [] \<or> tk_register (keys (rv_task v)) \<noteq> name then None
       else map_option (\<lambda>(step, _). (step, i)) (StepSpan steps (rv_path v))) (enumerate 0 visits)"

definition sourcesOutside :: "string list \<Rightarrow> int \<Rightarrow> int \<Rightarrow> nat \<Rightarrow> (string \<Rightarrow> (int \<times> nat) list) \<Rightarrow> bool" where
  "sourcesOutside sources first final unit setters \<longleftrightarrow>
     list_all (\<lambda>name. setters name \<noteq> []
       \<and> \<not> list_ex (\<lambda>(step, order). step \<ge> first \<and> step \<le> final \<and> order < unit) (setters name)) sources"

text \<open>The position of a path in the walk; a path is visited once.\<close>

definition visitOrder :: "rescue_visit list \<Rightarrow> string \<Rightarrow> nat" where
  "visitOrder visits path = length (takeWhile (\<lambda>v. rv_path v \<noteq> path) visits)"

definition CrossStepUnits :: "plan_task list \<Rightarrow> step_node list \<Rightarrow> string list" where
  "CrossStepUnits tasks steps =
     (if length steps \<noteq> length tasks then []
      else let w = walkRescueUnits tasks;
               outer = foldl addOuter [] (rw_units w);
               setters = registerSetters steps (rw_visits w)
           in map fst (filter (\<lambda>(key, sources).
                case StepSpan steps key of
                  None \<Rightarrow> False
                | Some (first, final) \<Rightarrow> sourcesOutside sources first final (visitOrder (rw_visits w) key) setters) outer))"


section \<open>The units of a plan\<close>

text \<open>The sources a task makes a unit of below tasks that claimed \<open>inner\<close>, and the units and visits of a subtree.\<close>

fun freshSources :: "string list \<Rightarrow> string list \<Rightarrow> string list" where
  "freshSources inner [] = []"
| "freshSources inner (s # ss) = (if s \<in> set inner then freshSources inner ss else s # freshSources (s # inner) ss)"

definition unitSources :: "plan_task \<Rightarrow> string list \<Rightarrow> string list" where
  "unitSources t claimed = (if IsKeeperSideTask t then [] else freshSources claimed (tk_onfail (keys t)))"

abbreviation unitOf :: "plan_task \<Rightarrow> string \<Rightarrow> string list \<Rightarrow> string \<Rightarrow> rescue_unit" where
  "unitOf t path regs s \<equiv> \<lparr>ru_source = s, ru_path = path, ru_task = t, ru_registers = regs\<rparr>"

function (sequential)
  unitsOf :: "plan_task \<Rightarrow> string \<Rightarrow> string list \<Rightarrow> rescue_unit list" and
  unitsOfList :: "plan_task list \<Rightarrow> nat \<Rightarrow> string \<Rightarrow> string list \<Rightarrow> rescue_unit list"
where
  "unitsOf t path claimed =
     map (unitOf t path (taskEmittedRegisters t)) (unitSources t claimed)
     @ unitsOfList (childrenOf t) 0 path (rev (unitSources t claimed) @ claimed)"
| "unitsOfList [] i parent claimed = []"
| "unitsOfList (t # ts) i parent claimed = unitsOf t (StepPath parent i) claimed @ unitsOfList ts (Suc i) parent claimed"
  by pat_completeness auto
termination
  by (relation "measure (\<lambda>x. case x of Inl (t, p, c) \<Rightarrow> 2 * size t | Inr (ts, i, p, c) \<Rightarrow> Suc (2 * size_list size ts))")
     (simp_all add: walk_measure)

function (sequential)
  visitsOf :: "plan_task \<Rightarrow> string \<Rightarrow> string list \<Rightarrow> bool \<Rightarrow> rescue_visit list" and
  visitsOfList :: "plan_task list \<Rightarrow> nat \<Rightarrow> string \<Rightarrow> string list \<Rightarrow> bool \<Rightarrow> rescue_visit list"
where
  "visitsOf t path claimed held =
     \<lparr>rv_task = t, rv_path = path, rv_inUnit = (held \<or> unitSources t claimed \<noteq> [])\<rparr>
     # visitsOfList (childrenOf t) 0 path (rev (unitSources t claimed) @ claimed) (held \<or> unitSources t claimed \<noteq> [])"
| "visitsOfList [] i parent claimed held = []"
| "visitsOfList (t # ts) i parent claimed held =
     visitsOf t (StepPath parent i) claimed held @ visitsOfList ts (Suc i) parent claimed held"
  by pat_completeness auto
termination
  by (relation "measure (\<lambda>x. case x of Inl (t, p, c, h) \<Rightarrow> 2 * size t | Inr (ts, i, p, c, h) \<Rightarrow> Suc (2 * size_list size ts))")
     (simp_all add: walk_measure)

declare unitsOf.simps [simp del] visitsOf.simps [simp del]

text \<open>Registers appended to the units of some indexes.\<close>

definition withRegs :: "nat list \<Rightarrow> string list \<Rightarrow> rescue_unit list \<Rightarrow> rescue_unit list" where
  "withRegs os rs us = map (\<lambda>i. if i \<in> set os then (us ! i)\<lparr>ru_registers := ru_registers (us ! i) @ rs\<rparr> else us ! i) [0..<length us]"

lemma withRegs_length [simp]: "length (withRegs os rs us) = length us"
  by (simp add: withRegs_def)

lemma withRegs_nth:
  "i < length us \<Longrightarrow> withRegs os rs us ! i = (if i \<in> set os then (us ! i)\<lparr>ru_registers := ru_registers (us ! i) @ rs\<rparr> else us ! i)"
  by (simp add: withRegs_def)

lemma withRegs_none [simp]: "withRegs os [] us = us"
  by (rule nth_equalityI) (auto simp: withRegs_nth)

lemma withRegs_empty [simp]: "withRegs [] rs us = us"
  by (rule nth_equalityI) (auto simp: withRegs_nth)

lemma withRegs_extend: "withRegs os rs' (withRegs os rs us) = withRegs os (rs @ rs') us"
  by (rule nth_equalityI) (auto simp: withRegs_nth)

lemma withRegs_append: "set os \<subseteq> {..<length us} \<Longrightarrow> withRegs os rs (us @ vs) = withRegs os rs us @ vs"
  by (rule nth_equalityI) (auto simp: withRegs_nth nth_append)

lemma addRegisters: 
  "distinct os \<Longrightarrow> set os \<subseteq> {..<length us} \<Longrightarrow> foldl (addRegister r) us os = withRegs os [r] us"
proof (induction os arbitrary: us)
  case (Cons u os)
  have "length (addRegister r us u) = length us" by (simp add: addRegister_def)
  then have "foldl (addRegister r) us (u # os) = withRegs os [r] (addRegister r us u)"
    using Cons.IH [of "addRegister r us u"] Cons.prems by simp
  also have "\<dots> = withRegs (u # os) [r] us"
    using Cons.prems by (intro nth_equalityI) (auto simp: withRegs_nth addRegister_def nth_list_update)
  finally show ?case .
qed simp

lemma withRegs_new:
  assumes "set os \<subseteq> {..<length us}"
  shows "withRegs (os @ [length us..<length us + length vs]) rs (us @ vs)
    = withRegs os rs us @ map (\<lambda>v. v\<lparr>ru_registers := ru_registers v @ rs\<rparr>) vs"
  using assms by (intro nth_equalityI) (auto simp: withRegs_nth nth_append)

lemma claimSources:
  "foldl (claimSource t path) (inner, holding, us) ss =
     (rev (freshSources inner ss) @ inner, holding @ [length us..<length us + length (freshSources inner ss)],
      us @ map (unitOf t path []) (freshSources inner ss))"
proof (induction ss arbitrary: inner holding us)
  case (Cons s ss)
  show ?case
  proof (cases "s \<in> set inner")
    case False
    have "[length us..<Suc (length us + k)] = length us # [Suc (length us)..<Suc (length us + k)]" for k
      by (rule upt_conv_Cons) simp
    moreover have "claimSource t path (inner, holding, us) s = (s # inner, holding @ [length us], us @ [unitOf t path [] s])"
      using False by (simp add: claimSource_def)
    ultimately show ?thesis using False Cons.IH by simp
  next
    case True
    then have "claimSource t path (inner, holding, us) s = (inner, holding, us)" by (simp add: claimSource_def)
    with True Cons.IH show ?thesis by simp
  qed
qed simp

lemma walk_collects:
  "distinct opened \<Longrightarrow> set opened \<subseteq> {..<length (rw_units w)} \<Longrightarrow>
     walkTask t path claimed opened w =
       \<lparr>rw_units = withRegs opened (taskEmittedRegisters t) (rw_units w) @ unitsOf t path claimed,
        rw_visits = rw_visits w @ visitsOf t path claimed (opened \<noteq> [])\<rparr>"
  "distinct opened \<Longrightarrow> set opened \<subseteq> {..<length (rw_units w)} \<Longrightarrow>
     walkTasks ts i parent claimed opened w =
       \<lparr>rw_units = withRegs opened (concat (map taskEmittedRegisters ts)) (rw_units w) @ unitsOfList ts i parent claimed,
        rw_visits = rw_visits w @ visitsOfList ts i parent claimed (opened \<noteq> [])\<rparr>"
proof (induction t path claimed opened w and ts i parent claimed opened w rule: walkTask_walkTasks.induct)
  case (1 t path claimed opened w)
  let ?us = "rw_units w" and ?new = "unitSources t claimed"
  let ?own = "map (unitOf t path []) ?new" and ?inner = "rev ?new @ claimed"
  let ?holding = "opened @ [length ?us..<length ?us + length ?own]"
  let ?r = "if tk_register (keys t) \<noteq> [] then [tk_register (keys t)] else []"
  have start: "(if IsKeeperSideTask t then (claimed, opened, ?us)
      else foldl (claimSource t path) (claimed, opened, ?us) (tk_onfail (keys t))) = (?inner, ?holding, ?us @ ?own)"
    by (simp add: unitSources_def claimSources)
  have hold: "distinct ?holding" "set ?holding \<subseteq> {..<length (?us @ ?own)}" using 1(2,3) by auto
  define us' where "us' = (if tk_register (keys t) \<noteq> [] then foldl (addRegister (tk_register (keys t))) (?us @ ?own) ?holding else ?us @ ?own)"
  define w' where "w' = \<lparr>rw_units = us', rw_visits = rw_visits w @ [\<lparr>rv_task = t, rv_path = path, rv_inUnit = ?holding \<noteq> []\<rparr>]\<rparr>"
  have us': "us' = withRegs ?holding ?r (?us @ ?own)" unfolding us'_def using addRegisters [OF hold] by simp
  have held: "?holding \<noteq> [] \<longleftrightarrow> opened \<noteq> [] \<or> ?new \<noteq> []" by auto
  have emitted: "taskEmittedRegisters t = ?r @ concat (map taskEmittedRegisters (childrenOf t))"
    by (subst taskEmittedRegisters.simps) simp
  have unfold: "walkTask t path claimed opened w = (if Block t = None then w' else walkTasks (childrenOf t) 0 path ?inner ?holding w')"
    unfolding walkTask.simps [of t] start w'_def us'_def by (simp add: Let_def)
  have "walkTask t path claimed opened w = walkTasks (childrenOf t) 0 path ?inner ?holding w'"
    unfolding unfold by (simp add: childrenOf_def)
  also have "\<dots> = \<lparr>rw_units = withRegs ?holding (concat (map taskEmittedRegisters (childrenOf t))) us' @ unitsOfList (childrenOf t) 0 path ?inner,
      rw_visits = rw_visits w' @ visitsOfList (childrenOf t) 0 path ?inner (?holding \<noteq> [])\<rparr>"
  proof (cases "Block t = None")
    case True
    then show ?thesis by (simp add: childrenOf_def w'_def)
  next
    case False
    have "set ?holding \<subseteq> {..<length (rw_units w')}" using hold(2) by (simp add: w'_def us')
    from 1(1) [OF start [symmetric] refl us'_def w'_def False hold(1) this] show ?thesis by (simp add: w'_def)
  qed
  also have "withRegs ?holding (concat (map taskEmittedRegisters (childrenOf t))) us' = withRegs opened (taskEmittedRegisters t) ?us
      @ map (unitOf t path (taskEmittedRegisters t)) ?new"
  proof -
    have "withRegs ?holding (concat (map taskEmittedRegisters (childrenOf t))) us' = withRegs ?holding (taskEmittedRegisters t) (?us @ ?own)"
      unfolding us' withRegs_extend emitted ..
    then show ?thesis unfolding withRegs_new [OF 1(3)] by (simp add: comp_def)
  qed
  finally show ?case
    unfolding w'_def rescue_walk.select_convs held by (simp add: unitsOf.simps [of t] visitsOf.simps [of t])
next
  case (2 i parent claimed opened w)
  then show ?case by simp
next
  case (3 t ts i parent claimed opened w)
  let ?w = "walkTask t (StepPath parent i) claimed opened w"
  note one = 3(1) [OF 3(3,4)]
  have "set opened \<subseteq> {..<length (rw_units ?w)}" using 3(4) unfolding one by auto
  from 3(2) [OF 3(3) this] show ?case
    using 3(4) unfolding walkTasks.simps one by (simp add: withRegs_extend withRegs_append)
qed

lemma RescueUnits_list: "RescueUnits tasks = unitsOfList tasks 0 [] []"
  by (simp add: RescueUnits_def walkRescueUnits_def walk_collects)

lemma rescueVisits_list: "rw_visits (walkRescueUnits tasks) = visitsOfList tasks 0 [] [] False"
  by (simp add: walkRescueUnits_def walk_collects)

section \<open>A unit is the outermost task that names its source\<close>

definition rescues :: "plan_task \<Rightarrow> string \<Rightarrow> bool" where
  "rescues t s \<longleftrightarrow> \<not> IsKeeperSideTask t \<and> s \<in> set (tk_onfail (keys t))"

text \<open>The task written at a position, below groups as well.\<close>

fun writtenAt :: "plan_task list \<Rightarrow> nat list \<Rightarrow> plan_task option" where
  "writtenAt ts [] = None"
| "writtenAt ts (q # qs) =
     (if q \<ge> length ts then None
      else if qs = [] then Some (ts ! q) else writtenAt (childrenOf (ts ! q)) qs)"

lemma set_freshSources: "set (freshSources inner ss) = set ss - set inner"
  by (induction inner ss rule: freshSources.induct) auto

lemma distinct_freshSources: "distinct (freshSources inner ss)"
  by (induction inner ss rule: freshSources.induct) (auto simp: set_freshSources)

lemma set_unitSources: "s \<in> set (unitSources t claimed) \<longleftrightarrow> rescues t s \<and> s \<notin> set claimed"
  by (auto simp: unitSources_def rescues_def set_freshSources)

text \<open>The task at a position, if it is the first on the way there that rescues \<open>s\<close>.\<close>

fun unitTask :: "plan_task list \<Rightarrow> nat list \<Rightarrow> string \<Rightarrow> plan_task option" where
  "unitTask ts [] s = None"
| "unitTask ts (q # qs) s =
     (if q \<ge> length ts then None
      else if rescues (ts ! q) s then (if qs = [] then Some (ts ! q) else None)
      else unitTask (childrenOf (ts ! q)) qs s)"

lemma unitTask_iff:
  "unitTask ts ps s = Some v \<longleftrightarrow>
     writtenAt ts ps = Some v \<and> rescues v s
     \<and> (\<forall>k w. k < length ps \<and> writtenAt ts (take k ps) = Some w \<longrightarrow> \<not> rescues w s)"
proof (induction ts ps s rule: unitTask.induct)
  case (2 ts q qs s)
  show ?case
  proof (cases "q < length ts \<and> qs \<noteq> []")
    case False
    then show ?thesis by (auto simp: less_Suc_eq_0_disj)
  next
    case True
    have "(\<forall>k w. k < length (q # qs) \<and> writtenAt ts (take k (q # qs)) = Some w \<longrightarrow> \<not> rescues w s)
      \<longleftrightarrow> \<not> rescues (ts ! q) s
        \<and> (\<forall>k w. k < length qs \<and> writtenAt (childrenOf (ts ! q)) (take k qs) = Some w \<longrightarrow> \<not> rescues w s)"
      (is "?l \<longleftrightarrow> ?r")
    proof
      assume l: ?l
      have "\<not> rescues (ts ! q) s" using l [rule_format, of 1] True by simp
      moreover have "\<not> rescues w s" if "k < length qs" "writtenAt (childrenOf (ts ! q)) (take k qs) = Some w" for k w
        using l [rule_format, of "Suc k" w] that True by (cases "take k qs") auto
      ultimately show ?r by blast
    next
      assume r: ?r
      have "\<not> rescues w s" if "k < length (q # qs)" "writtenAt ts (take k (q # qs)) = Some w" for k w
        using r that True by (cases k) (auto split: if_splits)
      then show ?l by blast
    qed
    then show ?thesis using 2 True by auto
  qed
qed simp

lemma units_by_position:
  "u \<in> set (unitsOf t path claimed) \<longleftrightarrow>
     (\<exists>qs v. unitTask [t] (0 # qs) (ru_source u) = Some v \<and> ru_source u \<notin> set claimed
        \<and> u = unitOf v (foldl StepPath path qs) (taskEmittedRegisters v) (ru_source u))"
  "u \<in> set (unitsOfList ts i path claimed) \<longleftrightarrow>
     (\<exists>q qs v. unitTask ts (q # qs) (ru_source u) = Some v \<and> ru_source u \<notin> set claimed
        \<and> u = unitOf v (foldl StepPath path ((i + q) # qs)) (taskEmittedRegisters v) (ru_source u))"
proof (induction t path claimed and ts i path claimed rule: unitsOf_unitsOfList.induct)
  case (1 t path claimed)
  let ?s = "ru_source u"
  have own: "u \<in> set (map (unitOf t path (taskEmittedRegisters t)) (unitSources t claimed)) \<longleftrightarrow>
    rescues t ?s \<and> ?s \<notin> set claimed \<and> u = unitOf t path (taskEmittedRegisters t) ?s"
    by (auto simp: set_unitSources image_iff)
  have "u \<in> set (unitsOf t path claimed) \<longleftrightarrow>
    rescues t ?s \<and> ?s \<notin> set claimed \<and> u = unitOf t path (taskEmittedRegisters t) ?s
    \<or> (\<exists>q qs v. unitTask (childrenOf t) (q # qs) ?s = Some v \<and> \<not> rescues t ?s \<and> ?s \<notin> set claimed
         \<and> u = unitOf v (foldl StepPath path (q # qs)) (taskEmittedRegisters v) ?s)"
    unfolding unitsOf.simps [of t] set_append Un_iff own 1 by (auto simp: set_unitSources)
  also have "\<dots> \<longleftrightarrow> (\<exists>qs v. unitTask [t] (0 # qs) ?s = Some v \<and> ?s \<notin> set claimed
      \<and> u = unitOf v (foldl StepPath path qs) (taskEmittedRegisters v) ?s)" (is "?a \<longleftrightarrow> ?b")
  proof
    assume ?a
    then show ?b
    proof (elim disjE exE conjE)
      fix q qs v
      assume "unitTask (childrenOf t) (q # qs) ?s = Some v" "\<not> rescues t ?s" "?s \<notin> set claimed"
        "u = unitOf v (foldl StepPath path (q # qs)) (taskEmittedRegisters v) ?s"
      then show ?b by (intro exI [of _ "q # qs"] exI [of _ v]) simp
    qed (auto intro!: exI [of _ "[]"])
  next
    assume ?b
    then obtain qs v where b: "unitTask [t] (0 # qs) ?s = Some v" "?s \<notin> set claimed"
      "u = unitOf v (foldl StepPath path qs) (taskEmittedRegisters v) ?s" by blast
    show ?a
    proof (cases qs)
      case Nil
      with b(1) have "rescues t ?s \<and> v = t" by (simp split: if_splits)
      with b Nil show ?a by simp
    next
      case (Cons q rs)
      with b(1) have "\<not> rescues t ?s" "unitTask (childrenOf t) (q # rs) ?s = Some v"
        by (auto simp del: unitTask.simps(2) simp: unitTask.simps(2) [of "[t]"] split: if_splits)
      with b Cons show ?a by blast
    qed
  qed
  finally show ?case .
next
  case (3 t ts i path claimed)
  let ?s = "ru_source u"
  have split: "unitTask (t # ts) (q # qs) ?s = (case q of 0 \<Rightarrow> unitTask [t] (0 # qs) ?s | Suc p \<Rightarrow> unitTask ts (p # qs) ?s)" for q qs
    by (cases q) auto
  have "(\<exists>q qs v. unitTask (t # ts) (q # qs) ?s = Some v \<and> ?s \<notin> set claimed
        \<and> u = unitOf v (foldl StepPath path ((i + q) # qs)) (taskEmittedRegisters v) ?s)
    \<longleftrightarrow> (\<exists>qs v. unitTask [t] (0 # qs) ?s = Some v \<and> ?s \<notin> set claimed
        \<and> u = unitOf v (foldl StepPath (StepPath path i) qs) (taskEmittedRegisters v) ?s)
      \<or> (\<exists>q qs v. unitTask ts (q # qs) ?s = Some v \<and> ?s \<notin> set claimed
        \<and> u = unitOf v (foldl StepPath path ((Suc i + q) # qs)) (taskEmittedRegisters v) ?s)" (is "?a \<longleftrightarrow> ?b \<or> ?c")
  proof
    assume ?a
    then obtain q qs v where a: "unitTask (t # ts) (q # qs) ?s = Some v" "?s \<notin> set claimed"
      "u = unitOf v (foldl StepPath path ((i + q) # qs)) (taskEmittedRegisters v) ?s" by blast
    show "?b \<or> ?c"
    proof (cases q)
      case 0
      with a show ?thesis unfolding split by (intro disjI1 exI [of _ qs] exI [of _ v]) (simp del: unitTask.simps)
    next
      case (Suc p)
      with a show ?thesis unfolding split
        by (intro disjI2 exI [of _ p] exI [of _ qs] exI [of _ v]) (simp del: unitTask.simps)
    qed
  next
    assume "?b \<or> ?c"
    then show ?a
    proof
      assume ?b
      then obtain qs v where "unitTask [t] (0 # qs) ?s = Some v" "?s \<notin> set claimed"
        "u = unitOf v (foldl StepPath (StepPath path i) qs) (taskEmittedRegisters v) ?s" by blast
      then show ?a unfolding split
        by (intro exI [of _ 0] exI [of _ qs] exI [of _ v]) (simp del: unitTask.simps)
    next
      assume ?c
      then obtain q qs v where "unitTask ts (q # qs) ?s = Some v" "?s \<notin> set claimed"
        "u = unitOf v (foldl StepPath path ((Suc i + q) # qs)) (taskEmittedRegisters v) ?s" by blast
      then show ?a unfolding split
        by (intro exI [of _ "Suc q"] exI [of _ qs] exI [of _ v]) (simp del: unitTask.simps)
    qed
  qed
  with 3 show ?case by (simp del: unitTask.simps foldl_Cons)
qed simp

section \<open>Paths and positions\<close>

lemma digitsOf_inj: "digitsOf m = digitsOf n \<Longrightarrow> m = n"
proof -
  assume "digitsOf m = digitsOf n"
  then have "int m = int n" using digitsOf_value [of m] digitsOf_value [of n] by metis
  then show ?thesis by simp
qed

lemma map_digitsOf_inj: "map digitsOf ps = map digitsOf qs \<Longrightarrow> ps = qs"
  by (rule map_injective) (auto intro: injI digitsOf_inj)

lemma pathOf_nil_iff: "pathOf ps = [] \<longleftrightarrow> ps = []"
  using pathOf_parts [of ps] by (cases "ps = []") (simp_all add: pathOf_def)

lemma pathOf_inj: "pathOf ps = pathOf qs \<Longrightarrow> ps = qs"
proof (cases "ps = [] \<or> qs = []")
  case True
  assume "pathOf ps = pathOf qs"
  with True show ?thesis using pathOf_nil_iff by metis
next
  case False
  assume "pathOf ps = pathOf qs"
  with False pathOf_parts have "map digitsOf ps = map digitsOf qs" by metis
  then show ?thesis by (rule map_digitsOf_inj)
qed

lemma foldl_StepPath: "foldl StepPath (pathOf base) qs = pathOf (base @ qs)"
  by (simp add: pathOf_def)

lemma split_on_app: "split_on d (a @ d # b) = split_on d a @ split_on d b"
proof (induction a)
  case (Cons c a)
  obtain w ws where "split_on d a = w # ws" using split_on_nonempty by (cases "split_on d a") auto
  with Cons show ?case by simp
qed simp

lemma pathOf_append: "ps \<noteq> [] \<Longrightarrow> pathOf (ps @ q # qs) = pathOf ps @ ''/'' @ pathOf (q # qs)"
proof (induction qs rule: rev_induct)
  case Nil
  then show ?case using pathOf_nil_iff [of ps] by (simp add: pathOf_snoc StepPath_def) (simp add: pathOf_def StepPath_def)
next
  case (snoc r rs)
  have "pathOf (ps @ q # rs @ [r]) = StepPath (pathOf (ps @ q # rs)) r" using pathOf_snoc [of "ps @ q # rs" r] by simp
  moreover have "pathOf (q # rs @ [r]) = StepPath (pathOf (q # rs)) r" using pathOf_snoc [of "q # rs" r] by simp
  ultimately show ?case using snoc pathOf_nil_iff [of "q # rs"] by (simp add: StepPath_def)
qed

text \<open>A unit holds exactly the positions at and below its own.\<close>

lemma holdsPath_prefix:
  assumes "ps \<noteq> []"
  shows "holdsPath (pathOf ps) (pathOf qs) \<longleftrightarrow> (\<exists>rs. qs = ps @ rs)"
proof
  assume h: "holdsPath (pathOf ps) (pathOf qs)"
  show "\<exists>rs. qs = ps @ rs"
  proof (cases "pathOf qs = pathOf ps")
    case True
    then show ?thesis using pathOf_inj by fastforce
  next
    case False
    with h obtain x where x: "pathOf qs = pathOf ps @ CHR ''/'' # x" by (auto simp: holdsPath_def hasPrefix_iff)
    then have "pathOf qs \<noteq> []" by simp
    then have "qs \<noteq> []" using pathOf_nil_iff [of qs] by blast
    then have "map digitsOf qs = map digitsOf ps @ split_on (CHR ''/'') x"
      using x pathOf_parts [OF assms] pathOf_parts [of qs] split_on_app [of "CHR ''/''" "pathOf ps" x] by simp
    then have "map digitsOf (take (length ps) qs) = map digitsOf ps" by (metis append_eq_conv_conj length_map take_map)
    then have "take (length ps) qs = ps" by (rule map_digitsOf_inj)
    then show ?thesis by (metis append_take_drop_id)
  qed
next
  assume "\<exists>rs. qs = ps @ rs"
  then obtain rs where rs: "qs = ps @ rs" ..
  show "holdsPath (pathOf ps) (pathOf qs)"
  proof (cases rs)
    case (Cons r rs')
    then show ?thesis unfolding rs using pathOf_append [OF assms] by (simp add: holdsPath_def hasPrefix_iff)
  qed (simp add: rs holdsPath_def)
qed

lemma units_iff:
  "u \<in> set (RescueUnits tasks) \<longleftrightarrow>
     (\<exists>ps v. writtenAt tasks ps = Some v \<and> rescues v (ru_source u)
        \<and> (\<forall>k w. k < length ps \<and> writtenAt tasks (take k ps) = Some w \<longrightarrow> \<not> rescues w (ru_source u))
        \<and> u = unitOf v (pathOf ps) (taskEmittedRegisters v) (ru_source u))"
proof -
  have "u \<in> set (RescueUnits tasks) \<longleftrightarrow>
    (\<exists>q qs v. unitTask tasks (q # qs) (ru_source u) = Some v \<and> u = unitOf v (pathOf (q # qs)) (taskEmittedRegisters v) (ru_source u))"
    unfolding RescueUnits_list units_by_position by (simp add: pathOf_def del: unitTask.simps)
  also have "\<dots> \<longleftrightarrow> (\<exists>ps v. unitTask tasks ps (ru_source u) = Some v \<and> u = unitOf v (pathOf ps) (taskEmittedRegisters v) (ru_source u))"
    by (metis neq_Nil_conv option.distinct(1) unitTask.simps(1))
  finally show ?thesis unfolding unitTask_iff by blast
qed

lemma writtenAt_nonempty: "writtenAt ts ps = Some v \<Longrightarrow> ps \<noteq> []"
  by (cases ps) auto

text \<open>A block that rescues the probe and tries it again in a task that names it, too.\<close>

definition planHandles :: plan_task where
  "planHandles = PlanTask (bareKeys\<lparr>tk_onfail := [''probe'']\<rparr>)
     (Some [PlanTask ((keys planProbe)\<lparr>tk_onfail := [''probe'']\<rparr>) None])"

text \<open>
  (C17) The rescue units of a plan are, for each source, the outermost tasks that name it: a unit for the task at each position
  that rescues the source when no task around it does, with the registers set at and below it; a keeper-side task is none;
  and no unit of a source holds another of the same source.
\<close>

theorem units_are_outermost:
  "(u \<in> set (RescueUnits tasks) \<longleftrightarrow>
     (\<exists>ps v. writtenAt tasks ps = Some v \<and> rescues v (ru_source u)
        \<and> (\<forall>k w. k < length ps \<and> writtenAt tasks (take k ps) = Some w \<longrightarrow> \<not> rescues w (ru_source u))
        \<and> u = unitOf v (pathOf ps) (taskEmittedRegisters v) (ru_source u)))
   \<and> (u \<in> set (RescueUnits tasks) \<and> u' \<in> set (RescueUnits tasks) \<and> ru_source u = ru_source u'
        \<and> holdsPath (ru_path u) (ru_path u') \<longrightarrow> u = u')"
proof -
  have "u = u'" if both: "u \<in> set (RescueUnits tasks)" "u' \<in> set (RescueUnits tasks)"
    and same: "ru_source u = ru_source u'" and holds: "holdsPath (ru_path u) (ru_path u')"
  proof -
    from both obtain ps v ps' v' where
      u: "writtenAt tasks ps = Some v" "rescues v (ru_source u)" "u = unitOf v (pathOf ps) (taskEmittedRegisters v) (ru_source u)"
      and u': "writtenAt tasks ps' = Some v'"
        "\<forall>k w. k < length ps' \<and> writtenAt tasks (take k ps') = Some w \<longrightarrow> \<not> rescues w (ru_source u')"
        "u' = unitOf v' (pathOf ps') (taskEmittedRegisters v') (ru_source u')"
      unfolding units_iff by blast
    have "ru_path u = pathOf ps" "ru_path u' = pathOf ps'" using u(3) u'(3) by (metis rescue_unit.select_convs(2))+
    then obtain rs where rs: "ps' = ps @ rs" using holds holdsPath_prefix [OF writtenAt_nonempty [OF u(1)]] by auto
    have "rs = []"
    proof (rule ccontr)
      assume "rs \<noteq> []"
      then show False using u'(2) [rule_format, of "length ps" v] u(1,2) same rs by simp
    qed
    then have "v = v'" "ps = ps'" using rs u(1) u'(1) by auto
    then show ?thesis using u(3) u'(3) same by simp
  qed
  then show ?thesis using units_iff by blast
qed

theorem units_are_outermost_witness:
  "\<exists>u \<in> set (RescueUnits [planProbe, planHandles]). ru_source u = ''probe'' \<and> ru_path u = ''1''
    \<and> (\<forall>u' \<in> set (RescueUnits [planProbe, planHandles]). ru_source u' = ''probe'' \<and> holdsPath ''1'' (ru_path u') \<longrightarrow> u' = u)"
proof -
  let ?ts = "[planProbe, planHandles]"
  let ?u = "unitOf planHandles ''1'' [''probe''] ''probe''"
  have "RescueUnits ?ts = [?u]" by code_simp
  then have u: "?u \<in> set (RescueUnits ?ts)" by simp
  have one: "u' = ?u" if "u' \<in> set (RescueUnits ?ts)" "ru_source u' = ''probe''" "holdsPath ''1'' (ru_path u')" for u'
    using conjunct2 [OF units_are_outermost [of ?u ?ts u']] u that by simp
  show ?thesis
  proof (intro bexI [OF _ u] conjI ballI impI)
    show "ru_source ?u = ''probe''" "ru_path ?u = ''1''" by simp_all
  next
    fix u'
    assume "u' \<in> set (RescueUnits ?ts)" "ru_source u' = ''probe'' \<and> holdsPath ''1'' (ru_path u')"
    then show "u' = ?u" using one by blast
  qed
qed

end
