(* ===== verification/Plan_Groups.thy ===== *)
theory Plan_Groups
  imports Plan_Rescue
begin

text \<open>
  The blocks a linear run rolls as one group, as three walks find them: the Keeper's check of a group's registers
  (\<^verbatim>\<open>shared/config/passage_linear.go\<close>), its check of the rescue units a group holds (\<^verbatim>\<open>rescue_unit.go\<close>), and the linter's
  frames (\<^verbatim>\<open>serial_scope.go\<close>). A diagnostic is the record of what its message names.
\<close>

section \<open>The Keeper's walks\<close>

function groupPeerRegisterRead ::
    "(string \<Rightarrow> int option) \<Rightarrow> settings option \<Rightarrow> plan_task \<Rightarrow> within_block_info option" where
  "groupPeerRegisterRead dur sc t =
     (if Block t = None then None
      else if BlockRollsAsGroup sc t then blockPeerRegisterRead t
      else firstSome (\<lambda>c. groupPeerRegisterRead dur sc (LinearBlockChild dur t c)) (childrenOf t))"
  by pat_completeness auto
termination
  by (relation "measure (\<lambda>(d, s, t). size t)") (auto dest: size_children)

declare groupPeerRegisterRead.simps [simp del]

definition WithinGroupRegisterDependency ::
    "(string \<Rightarrow> int option) \<Rightarrow> plan_task list \<Rightarrow> settings option \<Rightarrow> within_block_info option" where
  "WithinGroupRegisterDependency dur tasks sc = firstSome (groupPeerRegisterRead dur sc) tasks"

definition taskLabel :: "plan_task \<Rightarrow> string" where
  "taskLabel t =
     (if trimSpace (tk_name (keys t)) \<noteq> [] then trimSpace (tk_name (keys t))
      else case tk_module (keys t) of
        Some m \<Rightarrow> mt_module m
      | None \<Rightarrow> if Block t \<noteq> None then ''unnamed block'' else ''unnamed task'')"

text \<open>A unit the group is counted by: the label of its task and its source; units that hold the whole group are one entry.\<close>

record held_units =
  hu_labels :: "(string \<times> string) list list"
  hu_whole :: "nat option"
  hu_seen :: "string list"

definition countUnit :: "string list \<Rightarrow> string \<Rightarrow> held_units \<Rightarrow> rescue_unit \<Rightarrow> held_units" where
  "countUnit inside path h u =
     (let holdsAll = holdsPath (ru_path u) path;
          label = (taskLabel (ru_task u), ru_source u)
      in if ru_source u \<in> set inside \<or> ru_path u \<in> set (hu_seen h)
            \<or> \<not> (holdsAll \<or> ru_path u \<noteq> path \<and> holdsPath path (ru_path u)) then h
         else let h = h\<lparr>hu_seen := ru_path u # hu_seen h\<rparr>
              in case (holdsAll, hu_whole h) of
                   (True, Some w) \<Rightarrow> h\<lparr>hu_labels := (hu_labels h)[w := hu_labels h ! w @ [label]]\<rparr>
                 | (True, None) \<Rightarrow> h\<lparr>hu_whole := Some (length (hu_labels h)), hu_labels := hu_labels h @ [[label]]\<rparr>
                 | (False, _) \<Rightarrow> h\<lparr>hu_labels := hu_labels h @ [[label]]\<rparr>)"

record group_diag =
  gd_block :: string
  gd_units :: "(string \<times> string) list list"

definition groupDiag :: "rescue_unit list \<Rightarrow> plan_task \<Rightarrow> string \<Rightarrow> group_diag list" where
  "groupDiag units t path =
     (let inside = concat (map taskEmittedRegisters (childrenOf t));
          held = hu_labels (foldl (countUnit inside path) \<lparr>hu_labels = [], hu_whole = None, hu_seen = []\<rparr> units)
      in if length held < 2 then [] else [\<lparr>gd_block = taskLabel t, gd_units = held\<rparr>])"

function (sequential)
  groupRescueUnits :: "(string \<Rightarrow> int option) \<Rightarrow> settings option \<Rightarrow> rescue_unit list \<Rightarrow> plan_task \<Rightarrow> string \<Rightarrow> group_diag list" and
  childRescueUnits :: "(string \<Rightarrow> int option) \<Rightarrow> settings option \<Rightarrow> rescue_unit list \<Rightarrow> plan_task \<Rightarrow> plan_task list \<Rightarrow> nat \<Rightarrow> string \<Rightarrow> group_diag list"
where
  "groupRescueUnits dur sc units t path =
     (if Block t = None then []
      else if BlockRollsAsGroup sc t then groupDiag units t path
      else childRescueUnits dur sc units t (childrenOf t) 0 path)"
| "childRescueUnits dur sc units t [] j path = []"
| "childRescueUnits dur sc units t (c # cs) j path =
     groupRescueUnits dur sc units (LinearBlockChild dur t c) (StepPath path j) @ childRescueUnits dur sc units t cs (Suc j) path"
  by pat_completeness auto
termination
  by (relation "measure (\<lambda>x. case x of Inl (d, s, u, t, p) \<Rightarrow> size t | Inr (d, s, u, t, cs, j, p) \<Rightarrow> size_list size cs)")
     (simp_all add: size_childrenOf)

declare groupRescueUnits.simps [simp del]

definition GroupMultipleRescueUnits ::
    "(string \<Rightarrow> int option) \<Rightarrow> settings option \<Rightarrow> plan_task list \<Rightarrow> group_diag list" where
  "GroupMultipleRescueUnits dur sc tasks =
     concat (map (\<lambda>(i, t). groupRescueUnits dur sc (RescueUnits tasks) t (StepPath [] i)) (enumerate 0 tasks))"

section \<open>The linter's frames\<close>

record serial_frame =
  sf_scope :: string
  sf_serial :: bool

definition scenarioSerialFrame :: "settings option \<Rightarrow> serial_frame" where
  "scenarioSerialFrame s =
     \<lparr>sf_scope = (case s of None \<Rightarrow> SerialScopeTask | Some x \<Rightarrow>
                    (case st_serialScope x of None \<Rightarrow> SerialScopeTask | Some v \<Rightarrow> v)), sf_serial = False\<rparr>"

definition enter :: "serial_frame \<Rightarrow> plan_task \<Rightarrow> serial_frame" where
  "enter f t =
     (let f = (case tk_settings (keys t) of None \<Rightarrow> f | Some s \<Rightarrow>
                 (case st_serialScope s of None \<Rightarrow> f | Some v \<Rightarrow> f\<lparr>sf_scope := v\<rparr>))
      in if tk_serial (keys t) \<noteq> VNil then f\<lparr>sf_serial := True\<rparr> else f)"

definition frameGroup :: "serial_frame \<Rightarrow> bool" where
  "frameGroup f \<longleftrightarrow> sf_serial f \<and> sf_scope f = SerialScopeBlock"

record unread_key =
  uk_key :: string
  uk_task :: string
  uk_group :: string

text \<open>The keys of a task that its group does not read; \<^verbatim>\<open>tolerate\<close> is the one key of the barrier.\<close>

definition unreadKeys :: "plan_task \<Rightarrow> string list" where
  "unreadKeys c =
     (if tk_serial (keys c) \<noteq> VNil then [''serial:''] else [])
     @ (case tk_settings (keys c) of None \<Rightarrow> []
        | Some s \<Rightarrow> if st_tolerate s \<noteq> None then [''settings.tolerate''] else [])"

function collectGroupChildKeys :: "plan_task \<Rightarrow> plan_task list \<Rightarrow> unread_key list" where
  "collectGroupChildKeys grp cs =
     concat (map (\<lambda>c. map (\<lambda>k. \<lparr>uk_key = k, uk_task = taskLabel c, uk_group = taskLabel grp\<rparr>) (unreadKeys c)
                      @ (if Block c = None then [] else collectGroupChildKeys grp (childrenOf c))) cs)"
  by pat_completeness auto
termination
proof (relation "measure (\<lambda>(g, cs). size_list size cs)")
  fix cs and c :: plan_task
  assume "c \<in> set cs"
  then have "size_list size (childrenOf c) < size_list size cs"
    using size_childrenOf [of c] size_list_estimation' [of c cs "size c" size] by simp
  then show "((grp, childrenOf c), grp, cs) \<in> measure (\<lambda>(g, cs). size_list size cs)" for grp :: plan_task by simp
qed simp

declare collectGroupChildKeys.simps [simp del]

function walkGroups :: "plan_task \<Rightarrow> serial_frame \<Rightarrow> unread_key list" where
  "walkGroups t up =
     (if Block t = None then []
      else let f = enter up t
           in if frameGroup f then collectGroupChildKeys t (childrenOf t)
              else concat (map (\<lambda>c. walkGroups c f) (childrenOf t)))"
  by pat_completeness auto
termination
  by (relation "measure (\<lambda>(t, f). size t)") (auto dest: size_children)

declare walkGroups.simps [simp del]

definition GroupChildKeysUnread :: "settings option \<Rightarrow> plan_task list \<Rightarrow> unread_key list" where
  "GroupChildKeysUnread sc tasks = concat (map (\<lambda>t. walkGroups t (scenarioSerialFrame sc)) tasks)"

section \<open>The walks find the groups of the numbering\<close>

text \<open>The steps that are groups, with what their blocks hand them.\<close>

definition groupSteps :: "(string \<Rightarrow> int option) \<Rightarrow> settings option \<Rightarrow> plan_task list \<Rightarrow> plan_task list" where
  "groupSteps dur sc tasks = filter (BlockRollsAsGroup sc) (concat (map (stepTasks dur sc) tasks))"

lemma stepTasks_unfold:
  "stepTasks dur sc t =
     (if Block t = None \<or> BlockRollsAsGroup sc t \<or> childrenOf t = [] then [t]
      else concat (map (\<lambda>c. stepTasks dur sc (LinearBlockChild dur t c)) (childrenOf t)))"
  by (simp add: stepTasks.simps [of _ _ t] childTasks_nodes comp_def)

lemma concat_map_concat: "concat (map f (concat (map g cs))) = concat (map (\<lambda>c. concat (map f (g c))) cs)"
  by (induction cs) auto

lemma no_block_no_group: "Block t = None \<Longrightarrow> \<not> BlockRollsAsGroup sc t"
  by (simp add: BlockRollsAsGroup_def)

lemma firstSome_append: "firstSome f (xs @ ys) = (case firstSome f xs of None \<Rightarrow> firstSome f ys | Some y \<Rightarrow> Some y)"
  by (induction xs) (simp_all del: firstSome_None split: option.split)

lemma firstSome_concat: "firstSome f (concat xss) = firstSome (firstSome f) xss"
  by (induction xss) (simp_all add: firstSome_append del: firstSome_None split: option.split)

lemma firstSome_map: "firstSome f (map g xs) = firstSome (\<lambda>x. f (g x)) xs"
  by (induction xs) (simp_all del: firstSome_None split: option.split)

lemma firstSome_ext: "(\<And>x. x \<in> set xs \<Longrightarrow> f x = g x) \<Longrightarrow> firstSome f xs = firstSome g xs"
  by (rule firstSome_cong) auto

lemma groupPeer_steps:
  "groupPeerRegisterRead dur sc t = firstSome blockPeerRegisterRead (filter (BlockRollsAsGroup sc) (stepTasks dur sc t))"
proof (induction dur sc t rule: groupPeerRegisterRead.induct)
  case (1 dur sc t)
  show ?case
  proof (cases "Block t = None \<or> BlockRollsAsGroup sc t")
    case True
    then show ?thesis using no_block_no_group [of t sc]
      by (auto simp: groupPeerRegisterRead.simps [of _ _ t] stepTasks_unfold [of _ _ t] split: option.split)
  next
    case False
    then have "groupPeerRegisterRead dur sc t
      = firstSome (\<lambda>c. firstSome blockPeerRegisterRead (filter (BlockRollsAsGroup sc) (stepTasks dur sc (LinearBlockChild dur t c))))
          (childrenOf t)"
      using 1 by (cases "Block t") (simp_all add: groupPeerRegisterRead.simps [of _ _ t] cong: firstSome_cong)
    also have "\<dots> = firstSome blockPeerRegisterRead (filter (BlockRollsAsGroup sc) (stepTasks dur sc t))"
      using False by (cases "childrenOf t = []")
        (auto simp: stepTasks_unfold [of _ _ t] filter_concat firstSome_concat firstSome_map comp_def)
    finally show ?thesis .
  qed
qed

text \<open>A frame says of a block what the block with its inherited keys says.\<close>

definition scopeOf :: "settings option \<Rightarrow> string option" where
  "scopeOf s = (case s of None \<Rightarrow> None | Some x \<Rightarrow> st_serialScope x)"

definition frameOf :: "settings option \<Rightarrow> serial_frame \<Rightarrow> plan_task \<Rightarrow> bool" where
  "frameOf sc f t \<longleftrightarrow>
     sf_serial f = (tk_serial (keys t) \<noteq> VNil)
     \<and> Some (sf_scope f) = over (st_serialScope (scenarioLevel sc)) (scopeOf (tk_settings (keys t)))"

lemma BlockRollsAsGroup_scope:
  "BlockRollsAsGroup sc t \<longleftrightarrow> Block t \<noteq> None \<and> tk_serial (keys t) \<noteq> VNil
     \<and> over (st_serialScope (scenarioLevel sc)) (scopeOf (tk_settings (keys t))) = Some SerialScopeBlock"
  by (auto simp: BlockRollsAsGroup_def scopeOf_def MergeSettings_def Let_def split: option.split)

lemma frame_group: "frameOf sc f t \<Longrightarrow> Block t \<noteq> None \<Longrightarrow> frameGroup f \<longleftrightarrow> BlockRollsAsGroup sc t"
  by (auto simp: frameOf_def frameGroup_def BlockRollsAsGroup_scope)

lemma frame_root: "frameOf sc (enter (scenarioSerialFrame sc) t) t"
  by (auto simp: frameOf_def enter_def scenarioSerialFrame_def scopeOf_def scenarioLevel_def MergeSettings_def
    DefaultScenarioSettings_def over_def Let_def split: option.split)

lemma OwnSettings_scope: "st_serialScope (OwnSettings dur t) = scopeOf (tk_settings (keys t))"
  by (auto simp: OwnSettings_def scopeOf_def noSettings_def Let_def split: option.split)

lemma InheritSettings_scope:
  "scopeOf (InheritSettings dur b c) = over (scopeOf b) (scopeOf (tk_settings (keys c)))"
  by (cases b) (simp_all add: InheritSettings_def MergeSettings_def OwnSettings_scope scopeOf_def over_def split: option.split)

lemma frame_child: "frameOf sc f t \<Longrightarrow> frameOf sc (enter f c) (LinearBlockChild dur t c)"
proof -
  assume f: "frameOf sc f t"
  have "sf_serial (enter f c) = (tk_serial (keys (LinearBlockChild dur t c)) \<noteq> VNil)"
    using f by (auto simp: frameOf_def enter_def LinearBlockChild_def Let_def split: option.split)
  moreover have "Some (sf_scope (enter f c)) = over (Some (sf_scope f)) (scopeOf (tk_settings (keys c)))"
    by (auto simp: enter_def scopeOf_def over_def Let_def split: option.split)
  ultimately show ?thesis
    using f by (simp add: frameOf_def LinearBlockChild_def InheritSettings_scope over_assoc)
qed

lemma taskLabel_child [simp]: "taskLabel (LinearBlockChild dur b c) = taskLabel c"
  by (cases "Block c") (simp_all add: taskLabel_def LinearBlockChild_def)

lemma collectGroupChildKeys_label: "taskLabel g = taskLabel g' \<Longrightarrow> collectGroupChildKeys g cs = collectGroupChildKeys g' cs"
proof (induction g cs rule: collectGroupChildKeys.induct)
  case (1 g cs)
  then show ?case
    by (subst (1 2) collectGroupChildKeys.simps) (auto intro!: arg_cong [of _ _ concat])
qed

text \<open>Two tasks the walks treat alike: the merged one and the written one.\<close>

lemma walkGroups_steps:
  assumes "frameOf sc (enter up t) t'" "Block t' = Block t" "taskLabel t' = taskLabel t"
  shows "walkGroups t up =
    concat (map (\<lambda>g. collectGroupChildKeys g (childrenOf g)) (filter (BlockRollsAsGroup sc) (stepTasks dur sc t')))"
  using assms
proof (induction t up arbitrary: t' rule: walkGroups.induct)
  case (1 t up)
  have kids: "childrenOf t' = childrenOf t" using 1(3) by (simp add: childrenOf_def)
  show ?case
  proof (cases "Block t = None")
    case True
    with 1(3) show ?thesis using no_block_no_group [of t' sc]
      by (simp add: walkGroups.simps [of t] stepTasks_unfold [of _ _ t'])
  next
    case block: False
    show ?thesis
    proof (cases "BlockRollsAsGroup sc t'")
      case True
      with block 1(2,3) have "frameGroup (enter up t)" using frame_group by metis
      with True block show ?thesis using collectGroupChildKeys_label [OF 1(4)] kids
        by (cases "Block t") (simp_all add: walkGroups.simps [of t] stepTasks_unfold [of _ _ t'])
    next
      case False
      with block 1(2,3) have nogroup: "\<not> frameGroup (enter up t)" using frame_group by metis
      have IH: "walkGroups c (enter up t) = concat (map (\<lambda>g. collectGroupChildKeys g (childrenOf g))
          (filter (BlockRollsAsGroup sc) (stepTasks dur sc (LinearBlockChild dur t' c))))" if "c \<in> set (childrenOf t)" for c
        by (rule 1(1) [OF block refl nogroup that frame_child [OF 1(2)]]) simp_all
      have "walkGroups t up = concat (map (\<lambda>c. walkGroups c (enter up t)) (childrenOf t))"
        using block nogroup by (cases "Block t") (simp_all add: walkGroups.simps [of t] Let_def)
      also have "\<dots> = concat (map (\<lambda>c. concat (map (\<lambda>g. collectGroupChildKeys g (childrenOf g))
          (filter (BlockRollsAsGroup sc) (stepTasks dur sc (LinearBlockChild dur t' c))))) (childrenOf t))"
        using IH by (auto intro!: arg_cong [of _ _ concat])
      also have "\<dots> = concat (map (\<lambda>g. collectGroupChildKeys g (childrenOf g)) (filter (BlockRollsAsGroup sc) (stepTasks dur sc t')))"
        using False block 1(3) kids
        by (cases "childrenOf t = []") (auto simp: stepTasks_unfold [of _ _ t'] filter_concat concat_map_concat comp_def)
      finally show ?thesis .
    qed
  qed
qed

text \<open>
  (C18) The Keeper's check of the groups and the linter's walk find the same groups, those of the numbering: both are the sum over
  the steps that are groups, although the linter never merges the settings a block hands its children.
\<close>

theorem walks_agree_on_groups:
  "WithinGroupRegisterDependency dur tasks sc = firstSome blockPeerRegisterRead (groupSteps dur sc tasks)
   \<and> GroupChildKeysUnread sc tasks = concat (map (\<lambda>g. collectGroupChildKeys g (childrenOf g)) (groupSteps dur sc tasks))"
proof
  show "WithinGroupRegisterDependency dur tasks sc = firstSome blockPeerRegisterRead (groupSteps dur sc tasks)"
    by (simp add: WithinGroupRegisterDependency_def groupSteps_def groupPeer_steps filter_concat firstSome_concat
      firstSome_map comp_def cong: firstSome_cong)
  have "walkGroups t (scenarioSerialFrame sc) = concat (map (\<lambda>g. collectGroupChildKeys g (childrenOf g))
    (filter (BlockRollsAsGroup sc) (stepTasks dur sc t)))" for t
    by (rule walkGroups_steps [OF frame_root]) simp_all
  then show "GroupChildKeysUnread sc tasks = concat (map (\<lambda>g. collectGroupChildKeys g (childrenOf g)) (groupSteps dur sc tasks))"
    by (simp add: GroupChildKeysUnread_def groupSteps_def filter_concat concat_map_concat comp_def)
qed

end
