(* ===== verification/Plan_Admit.thy ===== *)
theory Plan_Admit
  imports Plan_Groups
begin

text \<open>
  What a run does with its plan before the first task is rendered (\<^verbatim>\<open>keeper/internal/scenario/run.go\<close>, sections 4.9 to
  4.955): it numbers the plan by its execution model and refuses what that numbering cannot serve, in the order of the
  source. The plan is the scenario after the expansion of its includes; \<open>reader\<close> tells whether an audit reader is configured.
\<close>

datatype plan_refusal =
  RenderFailed stratify_error
| WithinBlock within_block_info
| GroupUnits group_diag
| WhenGating cross_info
| StepRequisite "string \<times> task_requisite \<times> int \<times> int"
| PassageRequisite cross_info

record admitted =
  ad_passage :: passage
  ad_steps :: "step_node list"
  ad_settings :: "settings list"
  ad_boundaries :: "bool list"

definition numberPlan ::
    "(string \<Rightarrow> int option) \<Rightarrow> bool \<Rightarrow> settings option \<Rightarrow> plan_task list \<Rightarrow> (plan_refusal + admitted) option" where
  "numberPlan dur lin sc tasks =
     (if lin
      then (case LinearPassage dur tasks sc of
              (p, steps) \<Rightarrow> Some (Inr \<lparr>ad_passage = p, ad_steps = steps, ad_settings = StepSettings dur tasks sc,
                                      ad_boundaries = RefreshBoundaries tasks p\<rparr>))
      else (case Stratify tasks of
              None \<Rightarrow> None
            | Some (Inl e) \<Rightarrow> Some (Inl (RenderFailed e))
            | Some (Inr p) \<Rightarrow> Some (Inr \<lparr>ad_passage = p, ad_steps = [], ad_settings = [],
                                      ad_boundaries = RefreshBoundaries tasks p\<rparr>)))"

text \<open>The refusals behind the numbering, the first that applies.\<close>

definition refusePlan ::
    "(string \<Rightarrow> int option) \<Rightarrow> bool \<Rightarrow> bool \<Rightarrow> settings option \<Rightarrow> plan_task list \<Rightarrow> admitted \<Rightarrow> plan_refusal option" where
  "refusePlan dur lin reader sc tasks a =
     (case (if lin then WithinGroupRegisterDependency dur tasks sc else WithinBlockRegisterDependency tasks) of
        Some info \<Rightarrow> Some (WithinBlock info)
      | None \<Rightarrow>
     (case (if lin then GroupMultipleRescueUnits dur sc tasks else []) of
        d # _ \<Rightarrow> Some (GroupUnits d)
      | [] \<Rightarrow>
     (case (if lin then None else CrossPassageWhenGating tasks (ad_passage a)) of
        Some info \<Rightarrow> Some (WhenGating info)
      | None \<Rightarrow>
          if ps_count (ad_passage a) > 1 \<and> \<not> reader
          then (if lin then map_option StepRequisite (CrossStepRequisite tasks (ad_steps a))
                else map_option PassageRequisite (CrossPassageRequisite tasks (ad_passage a)))
          else None)))"

definition admitPlan ::
    "(string \<Rightarrow> int option) \<Rightarrow> bool \<Rightarrow> bool \<Rightarrow> settings option \<Rightarrow> plan_task list \<Rightarrow> (plan_refusal + admitted) option" where
  "admitPlan dur lin reader sc tasks =
     (case numberPlan dur lin sc tasks of
        Some (Inr a) \<Rightarrow>
          (case refusePlan dur lin reader sc tasks a of None \<Rightarrow> Some (Inr a) | Some r \<Rightarrow> Some (Inl r))
      | other \<Rightarrow> other)"

lemma admitPlan_total: "admitPlan dur lin reader sc tasks \<noteq> None"
  using Stratify_total [of tasks]
  by (auto simp: admitPlan_def numberPlan_def split: option.splits sum.splits prod.splits)

lemma admitPlan_Inr:
  assumes "admitPlan dur lin reader sc tasks = Some (Inr a)"
  shows "numberPlan dur lin sc tasks = Some (Inr a)" "refusePlan dur lin reader sc tasks a = None"
  using assms by (auto simp: admitPlan_def split: option.splits sum.splits)

lemma refusePlan_None:
  assumes "refusePlan dur lin reader sc tasks a = None"
  shows "lin \<Longrightarrow> WithinGroupRegisterDependency dur tasks sc = None"
    "\<not> lin \<Longrightarrow> WithinBlockRegisterDependency tasks = None"
    "lin \<Longrightarrow> GroupMultipleRescueUnits dur sc tasks = []"
    "\<not> lin \<Longrightarrow> CrossPassageWhenGating tasks (ad_passage a) = None"
    "lin \<Longrightarrow> ps_count (ad_passage a) > 1 \<Longrightarrow> \<not> reader \<Longrightarrow> CrossStepRequisite tasks (ad_steps a) = None"
    "\<not> lin \<Longrightarrow> ps_count (ad_passage a) > 1 \<Longrightarrow> \<not> reader \<Longrightarrow> CrossPassageRequisite tasks (ad_passage a) = None"
  using assms by (auto simp: refusePlan_def split: option.splits list.splits if_splits)

lemma WithinGroup_steps:
  "WithinGroupRegisterDependency dur tasks sc = firstSome blockPeerRegisterRead (groupSteps dur sc tasks)"
  by (simp add: WithinGroupRegisterDependency_def groupSteps_def groupPeer_steps filter_concat firstSome_concat
      firstSome_map comp_def cong: firstSome_cong)

lemma group_reads_settled:
  assumes "WithinGroupRegisterDependency dur tasks sc = None" "g \<in> set (groupSteps dur sc tasks)"
    "(ups, v) \<in> set (enclosed [] g)" "v \<noteq> g" "r \<in> set (taskOwnReads v)" "r \<in> set (taskEmittedRegisters g)"
  shows "r \<in> set (taskEmittedRegisters v) \<or> r \<in> set ups"
proof -
  have "blockPeerRegisterRead g = None"
    using assms(1,2) by (simp add: WithinGroup_steps)
  then show ?thesis using block_reads_settled assms(3-6) by blast
qed

text \<open>
  (C13) In an admitted staged run a register that a task at any depth reads is one that it or a task below it sets, one that a
  block around it sets itself, or one whose last emitter runs in an earlier Passage. In an admitted linear run a task below
  the top of a group that reads a register set in the group reads one that it, a task below it or a block around it sets.
  What a block, or the task at the top of a group, itself reads of its own children is not refused
  (\<open>block_where_not_checked\<close>).
\<close>

theorem admitted_reads_settled:
  assumes "admitPlan dur lin reader sc tasks = Some (Inr a)" and "r \<in> set (taskOwnReads v)"
  shows "(lin \<and> g \<in> set (groupSteps dur sc tasks) \<and> (ups, v) \<in> set (enclosed [] g) \<and> v \<noteq> g
        \<and> r \<in> set (taskEmittedRegisters g)
      \<longrightarrow> r \<in> set (taskEmittedRegisters v) \<or> r \<in> set ups)
    \<and> (\<not> lin \<and> i < length tasks \<and> (ups, v) \<in> set (enclosed [] (tasks ! i))
      \<longrightarrow> r \<in> set (taskEmittedRegisters v) \<or> r \<in> set ups
        \<or> (\<exists>e < length tasks. r \<in> set (taskEmittedRegisters (tasks ! e))
             \<and> (\<forall>k. e < k \<and> k < length tasks \<longrightarrow> r \<notin> set (taskEmittedRegisters (tasks ! k)))
             \<and> ps_task (ad_passage a) ! e < ps_task (ad_passage a) ! i))"
proof (cases lin)
  case True
  then show ?thesis
    using group_reads_settled refusePlan_None(1) [OF admitPlan_Inr(2) [OF assms(1)]] assms(2) by blast
next
  case False
  have "Stratify tasks = Some (Inr (ad_passage a))"
    using admitPlan_Inr(1) [OF assms(1)] False by (auto simp: numberPlan_def split: option.splits sum.splits)
  with False show ?thesis
    using stratified_reads_settled refusePlan_None(2) [OF admitPlan_Inr(2) [OF assms(1)]] assms(2) by blast
qed

section \<open>Steps of the links\<close>

lemma link_in_leaves: "l \<in> set (collectStepLinks t n inh) \<Longrightarrow> sl_step l \<in> set (leafSteps n)"
proof (induction t n inh rule: collectStepLinks.induct)
  case (1 t n inh)
  obtain s g cs where n: "n = StepNode s g cs" by (cases n)
  have sub: "set (leafSteps n') \<subseteq> set (leafSteps n)" if "(c, n') \<in> set (childNodes t n)" for c n'
    using that by (cases cs) (auto simp: n childNodes_def dest: set_zip_rightD)
  from 1(2) consider (own) "cs = None" "sl_step l = s"
    | (child) c n' where "(c, n') \<in> set (childNodes t n)" "l \<in> set (collectStepLinks c n' (inh @ ownRequisites t))"
    by (auto simp: n collectStepLinks.simps [of t] Let_def split: if_splits)
  then show ?case
  proof cases
    case own
    then show ?thesis by (simp add: n)
  next
    case child
    then show ?thesis using 1(1) [OF refl child(1) refl child(2)] sub [OF child(1)] by auto
  qed
qed

lemma linear_length: "LinearPassage dur tasks sc = (p, nodes) \<Longrightarrow> length nodes = length tasks"
  using nodes_number [of dur sc tasks 0] by (auto simp: LinearPassage_def split: prod.splits)

lemma link_step_bound:
  assumes "LinearPassage dur tasks sc = (p, nodes)" "l \<in> set (planStepLinks tasks nodes)"
  shows "0 \<le> sl_step l \<and> sl_step l < int (ps_count p)"
proof -
  obtain k where k: "linearNodes dur sc tasks 0 = (nodes, k)" "ps_count p = (if k = 0 then 1 else nat k)"
    using assms(1) by (auto simp: LinearPassage_def split: prod.splits)
  obtain t n where tn: "(t, n) \<in> set (zip tasks nodes)" "l \<in> set (collectStepLinks t n [])"
    using assms(2) by (auto simp: planStepLinks_def)
  then have "sl_step l \<in> set (concat (map leafSteps nodes))"
    using link_in_leaves [OF tn(2)] set_zip_rightD [OF tn(1)] by auto
  then have "sl_step l \<in> set [0..k - 1]" using nodes_number [OF k(1)] by metis
  then show ?thesis using k(2) by auto
qed

text \<open>
  (C19) A run admitted without an audit reader has no requisite to resolve across messages: in a linear run every source of a
  requisite is set at the step of the task that reads it, in a staged run in its Passage.
\<close>

theorem no_reader_no_cross_requisite:
  assumes "admitPlan dur lin False sc tasks = Some (Inr a)"
  shows "(lin \<and> l \<in> set (planStepLinks tasks (ad_steps a)) \<and> rq \<in> set (sl_reqs l)
        \<and> l' \<in> set (planStepLinks tasks (ad_steps a)) \<and> tk_register (keys (sl_task l')) = rq_name rq \<and> rq_name rq \<noteq> []
      \<longrightarrow> sl_step l' = sl_step l)
    \<and> (\<not> lin \<and> i < length tasks \<and> rq \<in> set (taskRequisites (tasks ! i)) \<and> emitterIndex tasks (rq_name rq) = Some e
      \<longrightarrow> ps_task (ad_passage a) ! e = ps_task (ad_passage a) ! i)"
proof (cases lin)
  case True
  note num = admitPlan_Inr(1) [OF assms]
  obtain p nodes where p: "LinearPassage dur tasks sc = (p, nodes)" by fastforce
  with num True have a: "ad_passage a = p" "ad_steps a = nodes" by (auto simp: numberPlan_def)
  have "sl_step l' = sl_step l"
    if l: "l \<in> set (planStepLinks tasks nodes)" "rq \<in> set (sl_reqs l)" "l' \<in> set (planStepLinks tasks nodes)"
      and reg: "tk_register (keys (sl_task l')) = rq_name rq" "rq_name rq \<noteq> []"
  proof (cases "ps_count p > 1")
    case True
    then have "CrossStepRequisite tasks nodes = None"
      using refusePlan_None(5) [OF admitPlan_Inr(2) [OF assms]] \<open>lin\<close> a by simp
    moreover have "sl_step l' \<in> set (RegisterSteps tasks nodes (rq_name rq))"
      using l(3) reg linear_length [OF p] by (auto simp: RegisterSteps_def)
    ultimately show ?thesis
      using l(1,2) linear_length [OF p] by (auto simp: CrossStepRequisite_def split: if_splits)
  next
    case False
    then show ?thesis using link_step_bound [OF p l(1)] link_step_bound [OF p l(3)] by linarith
  qed
  with True a show ?thesis by blast
next
  case False
  have s: "Stratify tasks = Some (Inr (ad_passage a))"
    using admitPlan_Inr(1) [OF assms] False by (auto simp: numberPlan_def split: option.splits sum.splits)
  note S = Stratify_Inr [OF s]
  have "ps_task (ad_passage a) ! e = ps_task (ad_passage a) ! i"
    if i: "i < length tasks" "rq \<in> set (taskRequisites (tasks ! i))" "emitterIndex tasks (rq_name rq) = Some e"
  proof (cases "ps_count (ad_passage a) > 1")
    case True
    then have "CrossPassageRequisite tasks (ad_passage a) = None"
      using refusePlan_None(6) [OF admitPlan_Inr(2) [OF assms]] False by simp
    then have "\<forall>x < length tasks. \<forall>r \<in> set (taskRequisites (tasks ! x)).
      crossLink tasks (ad_passage a) x (rq_name r, rq_kind r) = None"
      using True S(2) by (auto simp: CrossPassageRequisite_def)
    then have "crossLink tasks (ad_passage a) i (rq_name rq, rq_kind rq) = None" using i(1,2) by blast
    then show ?thesis using i(3) by (simp add: crossLink_def split: if_splits)
  next
    case False
    have "e < length tasks" using i(3) by (simp add: emitterIndex_iff)
    then show ?thesis using S(5) [of e] S(5) [of i] i(1) False by simp
  qed
  with False show ?thesis by blast
qed

section \<open>Plans\<close>

text \<open>A group whose task waits for its sibling.\<close>

definition planFollow :: plan_task where
  "planFollow = PlanTask (bareKeys\<lparr>tk_onchanges := [''inner''],
     tk_module := Some \<lparr>mt_module = ''core.service.running'', mt_params = []\<rparr>\<rparr>) None"

definition planInner :: plan_task where
  "planInner = PlanTask (bareKeys\<lparr>tk_register := ''inner'',
     tk_module := Some \<lparr>mt_module = ''core.file.present'', mt_params = []\<rparr>\<rparr>) None"

definition planGroup :: plan_task where
  "planGroup = PlanTask (bareKeys\<lparr>tk_serial := VInt 1, tk_settings := Some (noSettings\<lparr>st_serialScope := Some ''block''\<rparr>)\<rparr>)
     (Some [planInner, planFollow])"

abbreviation noDuration :: "string \<Rightarrow> int option" where
  "noDuration \<equiv> \<lambda>_. None"

lemma planDemo_admitted:
  "admitPlan noDuration False True None planDemo = Some (Inr \<lparr>ad_passage = \<lparr>ps_task = [0, 1, 0, 1], ps_count = 2\<rparr>,
     ad_steps = [], ad_settings = [], ad_boundaries = [False, True]\<rparr>)"
  by code_simp

theorem admitted_reads_settled_witness:
  "''probe'' \<in> set (taskOwnReads planReader)
    \<and> (\<exists>e < 4. ''probe'' \<in> set (taskEmittedRegisters (planDemo ! e)) \<and> [0, 1, 0, 1::nat] ! e < 1)"
proof -
  have read: "''probe'' \<in> set (taskOwnReads planReader)" by code_simp
  have "([[]], planReader) \<in> set (enclosed [] (planDemo ! 1))" by code_simp
  moreover have "''probe'' \<notin> set (taskEmittedRegisters planReader)" by code_simp
  moreover have "1 < length planDemo" "length planDemo = 4" by (simp_all add: planDemo_def)
  ultimately show ?thesis
    using admitted_reads_settled [OF planDemo_admitted read, of planGroup "[[]]" 1] read by auto
qed

text \<open>Without a reader the group is admitted: its requisite is resolved inside its message.\<close>

abbreviation planWaits :: "plan_task list" where
  "planWaits \<equiv> [planAll, planGroup]"

abbreviation waitNodes :: "step_node list" where
  "waitNodes \<equiv> [StepNode 0 False None, StepNode 1 True None]"

abbreviation waitLinks :: "step_link list" where
  "waitLinks \<equiv> planStepLinks planWaits waitNodes"

lemma planWaits_numbered: "LinearPassage noDuration planWaits None = (\<lparr>ps_task = [0, 1], ps_count = 2\<rparr>, waitNodes)"
  by code_simp

lemma planWaits_groups: "WithinGroupRegisterDependency noDuration planWaits None = None"
  by code_simp

lemma planWaits_blocks: "Block planAll = None" "Block planGroup = Some [planInner, planFollow]"
  "Block planInner = None" "Block planFollow = None"
  by (simp_all add: planAll_def planGroup_def planInner_def planFollow_def)

lemma planWaits_own: "ownRequisites planAll = []" "ownRequisites planGroup = []" "ownRequisites planInner = []"
  "ownRequisites planFollow = [\<lparr>rq_name = ''inner'', rq_kind = ''onchanges''\<rparr>]"
  by code_simp+

lemma planWaits_kind: "BlockRollsAsGroup None planGroup" "RescueUnits planWaits = []"
  by code_simp+

lemma planWaits_units: "GroupMultipleRescueUnits noDuration None planWaits = []"
  by (simp add: GroupMultipleRescueUnits_def planWaits_kind groupRescueUnits.simps [of _ _ _ planAll]
      groupRescueUnits.simps [of _ _ _ planGroup] planWaits_blocks groupDiag_def)

lemma waitLinks_are:
  "waitLinks = [\<lparr>sl_task = planAll, sl_step = 0, sl_reqs = []\<rparr>, \<lparr>sl_task = planGroup, sl_step = 1, sl_reqs = []\<rparr>,
     \<lparr>sl_task = planInner, sl_step = 1, sl_reqs = []\<rparr>,
     \<lparr>sl_task = planFollow, sl_step = 1, sl_reqs = [\<lparr>rq_name = ''inner'', rq_kind = ''onchanges''\<rparr>]\<rparr>]"
  by (simp add: planStepLinks_def collectStepLinks.simps [of planAll] collectStepLinks.simps [of planGroup]
      collectStepLinks.simps [of planInner] collectStepLinks.simps [of planFollow] childNodes_def childrenOf_def
      planWaits_blocks planWaits_own)

lemma planWaits_registers: "tk_register (keys planAll) \<noteq> ''inner''" "tk_register (keys planGroup) \<noteq> ''inner''"
  "tk_register (keys planInner) = ''inner''" "tk_register (keys planFollow) \<noteq> ''inner''"
  by code_simp+

lemma planWaits_requisites: "CrossStepRequisite planWaits waitNodes = None"
  by (simp add: CrossStepRequisite_def RegisterSteps_def waitLinks_are planWaits_registers)

lemma planWaits_admitted:
  "admitPlan noDuration True False None planWaits = Some (Inr \<lparr>ad_passage = \<lparr>ps_task = [0, 1], ps_count = 2\<rparr>,
     ad_steps = waitNodes, ad_settings = StepSettings noDuration planWaits None,
     ad_boundaries = RefreshBoundaries planWaits \<lparr>ps_task = [0, 1], ps_count = 2\<rparr>\<rparr>)"
  unfolding admitPlan_def numberPlan_def refusePlan_def planWaits_numbered planWaits_groups planWaits_units
  by (simp add: planWaits_requisites)

theorem no_reader_no_cross_requisite_witness:
  "\<exists>a. admitPlan noDuration True False None planWaits = Some (Inr a)
    \<and> sl_step (planStepLinks planWaits (ad_steps a) ! 2) = sl_step (planStepLinks planWaits (ad_steps a) ! 3)"
proof -
  let ?rq = "\<lparr>rq_name = ''inner'', rq_kind = ''onchanges''\<rparr>"
  have links: "\<lparr>sl_task = planInner, sl_step = 1, sl_reqs = []\<rparr> \<in> set waitLinks"
    "\<lparr>sl_task = planFollow, sl_step = 1, sl_reqs = [?rq]\<rparr> \<in> set waitLinks"
    unfolding waitLinks_are by simp_all
  have "sl_step \<lparr>sl_task = planInner, sl_step = 1, sl_reqs = []\<rparr> = sl_step \<lparr>sl_task = planFollow, sl_step = 1, sl_reqs = [?rq]\<rparr>"
    using conjunct1 [OF no_reader_no_cross_requisite [OF planWaits_admitted, of
      "\<lparr>sl_task = planFollow, sl_step = 1, sl_reqs = [?rq]\<rparr>" ?rq "\<lparr>sl_task = planInner, sl_step = 1, sl_reqs = []\<rparr>"]]
      links planWaits_registers by simp
  then have "sl_step (waitLinks ! 2) = sl_step (waitLinks ! 3)" unfolding waitLinks_are by simp
  with planWaits_admitted show ?thesis by force
qed

end
