(* ===== verification/Spec2Isabelle.thy ===== *)
theory Spec2Isabelle
  imports Rbac_Enforcer Rbac_Writes Rbac_Sql State_Migrate_Parse State_Verb Ward_Safety Run_View Keeper_Claims Fail_Claims Plan_Admit
begin

text \<open>
  \<^bold>\<open>Verification of the decision, state, planning, dispatch and execution cores of soul-stack\<close>

  soul-stack is a configuration-management platform: a cluster of keepers serves operators and stores the
  state of incarnations of services, souls run on the hosts. This development models six cores, in which a
  mistake is a security hole, lost data, a change applied twice or a failure nobody hears of.

  \<^bold>\<open>Authorization\<close> (\<^verbatim>\<open>keeper/internal/rbac\<close>). A request names a resource, an action and a context. A role is a
  list of permissions with an optional scope predicate; a derived role is capped by its parent; an
  operator holds roles by membership. The snapshot of all this is compiled into an enforcer that answers
  every request, and the write gates keep a caller from giving away more than he holds.

  \<^item> \<^verbatim>\<open>Rbac_Scope\<close>: the scope predicate as a tree, host globs, evaluation on a node and the disjunctive normal
    form (\<^verbatim>\<open>scope_ast.go\<close>, \<^verbatim>\<open>scope_glob.go\<close>, \<^verbatim>\<open>permission.go\<close>). The normal form means the same and fails
    exactly above the cap.
  \<^item> \<^verbatim>\<open>Rbac_Scope_Text\<close>, \<^verbatim>\<open>Rbac_Scope_Roundtrip\<close>: lexer, parser and printer of scopes (\<^verbatim>\<open>scope_ast.go\<close>). The parser
    always returns, what it accepts is well formed, and inside the caps the canonical text is read back.
  \<^item> \<^verbatim>\<open>Rbac_Permission\<close>: permissions, the closed catalog, parser and printer (\<^verbatim>\<open>permission.go\<close>, \<^verbatim>\<open>parser.go\<close>,
    \<^verbatim>\<open>catalog.go\<close>). Only catalog names and the wildcard are accepted.
  \<^item> \<^verbatim>\<open>Rbac_Subset\<close>: the containment check behind every grant (\<^verbatim>\<open>subset.go\<close>), as the locale \<open>containment\<close> and its
    interpretation. What it admits gives nothing new.
  \<^item> \<^verbatim>\<open>Rbac_Roles\<close>: the parent graph, attenuation and resolution of the catalog (\<^verbatim>\<open>derived.go\<close>, \<^verbatim>\<open>flatten.go\<close>), with
    the locale \<open>narrowing\<close>. A resolved role is within all its ancestors.
  \<^item> \<^verbatim>\<open>Rbac_Enforcer\<close>: the compiled snapshot and every question asked of it (\<^verbatim>\<open>enforcer.go\<close>, \<^verbatim>\<open>purview.go\<close>). The gate
    and the purview agree, a revoked operator has nothing, the permission list is complete.
  \<^item> \<^verbatim>\<open>Rbac_Writes\<close>: the gates of role writes, the cascade report and the visibility filter (\<^verbatim>\<open>attenuate.go\<close>,
    \<^verbatim>\<open>cascade.go\<close>, \<^verbatim>\<open>root_role.go\<close>, \<^verbatim>\<open>role_visibility.go\<close>). The rows of the queries are arguments.
  \<^item> \<^verbatim>\<open>Rbac_Sql\<close>: the SQL form of a purview (\<^verbatim>\<open>scope_sql.go\<close>, \<^verbatim>\<open>scope_traits.go\<close>) with its value on a row, and the locale
    \<open>scope_surface\<close> with the souls and the incarnations as its interpretations. The list narrowed in the database and the
    gate of a single read answer alike.

  \<^bold>\<open>State\<close> (\<^verbatim>\<open>keeper/internal/statemigrate\<close>, \<^verbatim>\<open>keeper/internal/stateop\<close>, \<^verbatim>\<open>shared/config\<close>). The state of an incarnation is
    a tree of decoded JSON. A migration ladder rewrites it when the schema changes, capture steps write it
  at the end of a run, and a value the schema declares secret lives in Vault and never in the state.

  \<^item> \<^verbatim>\<open>State_Value\<close>: Go values, the copy by a JSON round trip, deep equality, and the locales \<open>path_writes\<close> and
    \<open>path_store\<close>, the contract of a store addressed by key paths.
  \<^item> \<^verbatim>\<open>State_Migrate\<close>, \<^verbatim>\<open>State_Migrate_Laws\<close>: addresses, the operations rename, set, delete and foreach, and the run
    of a chain (\<^verbatim>\<open>path.go\<close>, \<^verbatim>\<open>value.go\<close>, \<^verbatim>\<open>apply.go\<close>, \<^verbatim>\<open>statemigrate.go\<close>). A run is the step relation \<open>migrates\<close>, its
    snapshots connect, a rename is a move, addresses are read back, a foreach does not depend on map order.
  \<^item> \<^verbatim>\<open>State_Migrate_Parse\<close>: reading a step document (\<^verbatim>\<open>parse.go\<close>). Parsed steps connect and have no operation the
    executor can only refuse.
  \<^item> \<^verbatim>\<open>Secret_Field\<close>: declared secrets (\<^verbatim>\<open>secret_field.go\<close>, \<^verbatim>\<open>reserved_namespace.go\<close>, \<^verbatim>\<open>vault_namespace.go\<close>). Derived
    references are apart and fenced; no declaration slips through the collection.
  \<^item> \<^verbatim>\<open>State_Op\<close>: the verbs set, add, modify, remove, present, append and unset, and their merge (\<^verbatim>\<open>ops.go\<close>). Each
    verb does exactly what it says, and a merged state holds no declared secret.
  \<^item> \<^verbatim>\<open>State_Verb\<close>: the parameters of a capture step and the operations of a plan (\<^verbatim>\<open>verb.go\<close>).

  \<^bold>\<open>Plan\<close> (\<^verbatim>\<open>shared/config\<close>, \<^verbatim>\<open>keeper/internal/scenario/run.go\<close>). Before the first task is rendered the keeper numbers the
  plan of a scenario. A staged run puts a task in a later Passage than what it reads: a register another task sets, the roster
  a refresh changes, a secret another task writes. A linear run numbers the tasks one by one, and rolls a block with a
  \<^verbatim>\<open>serial:\<close> as one group. What no numbering can serve is refused.

  \<^item> \<^verbatim>\<open>Plan_Task\<close>: a task with the keys the planner reads, settings and their merge, the side a task runs on
    (\<^verbatim>\<open>scenario_task.go\<close>, \<^verbatim>\<open>scenario_settings.go\<close>, \<^verbatim>\<open>module_side.go\<close>).
  \<^item> \<^verbatim>\<open>Plan_Refs\<close>: what the text of a task reads and what it emits (\<^verbatim>\<open>task_refs.go\<close>, \<^verbatim>\<open>passage.go\<close>, \<^verbatim>\<open>passage_refresh.go\<close>,
    \<^verbatim>\<open>passage_vault.go\<close>); each regular expression is the scan its engine makes.
  \<^item> \<^verbatim>\<open>Plan_Layers\<close>, \<^verbatim>\<open>Plan_Stratify\<close>: the memoised walk over the dependencies, with the locale \<open>layering\<close>, its contract, and the
    edges of a plan as its interpretation (\<open>Stratify\<close>). It gives the least numbering, or an error where there is none.
  \<^item> \<^verbatim>\<open>Plan_Detect\<close>: boundaries of the roster and the detectors of a staged run (\<^verbatim>\<open>passage.go\<close>, \<^verbatim>\<open>state_capture_order.go\<close>).
  \<^item> \<^verbatim>\<open>Plan_Steps\<close>: the steps of a linear run and their settings (\<^verbatim>\<open>passage_linear.go\<close>, \<^verbatim>\<open>passage_linear_settings.go\<close>). They are
    without a gap, in plan order, and \<open>StepSpan\<close> of the failure policy reads them back.
  \<^item> \<^verbatim>\<open>Plan_Rescue\<close>: links between steps and the rescue units of a plan (\<^verbatim>\<open>rescue_unit.go\<close>). The walk with its claimed
    sources gives the outermost tasks that name a source.
  \<^item> \<^verbatim>\<open>Plan_Groups\<close>: the groups as the Keeper and the linter find them (\<^verbatim>\<open>serial_scope.go\<close>), which are the same.
  \<^item> \<^verbatim>\<open>Plan_Admit\<close>: the numbering and the refusals of a run in their order. An admitted run reads no register of its own
    message.

  \<^bold>\<open>Dispatch\<close> (\<^verbatim>\<open>keeper/internal/applyrun\<close>, \<^verbatim>\<open>keeper/internal/scenario/claim.go\<close>, \<^verbatim>\<open>keeper/internal/grpc\<close>,
  \<^verbatim>\<open>keeper/internal/reaper\<close>, \<^verbatim>\<open>soul/internal/runtime\<close>). A run plans a row for every host of a step; a worker of any
  keeper claims the row under a lease, renders it, marks it as handed off and sends it; the agent fences
  stale attempts and answers with a result; a recovery scan returns claims of dead workers to the queue, and
  a sweep closes rows an agent does not know of.

  \<^item> \<^verbatim>\<open>Apply_Run\<close>: the table of runs and every statement on it (\<^verbatim>\<open>applyrun.go\<close>, \<^verbatim>\<open>crud.go\<close>, \<^verbatim>\<open>lost.go\<close>, the recovery scan of
    \<^verbatim>\<open>purger.go\<close>), with the locales \<open>row_statement\<close> and \<open>quiet_statement\<close>, the contract of a statement, and an
    interpretation for each of them.
  \<^item> \<^verbatim>\<open>Ward_Cluster\<close>: the worker (\<^verbatim>\<open>claim.go\<close>), the fence of the agent (\<^verbatim>\<open>applyrunner.go\<close>), the handlers of results and
    rosters (\<^verbatim>\<open>events_runresult.go\<close>, \<^verbatim>\<open>events_wardroster.go\<close>), and the cluster as a step relation \<open>cstep\<close> with its
    invariant.
  \<^item> \<^verbatim>\<open>Ward_Safety\<close>: a step is sent once and run once, the live request passes the fence, a result meets its row, a
    terminal is final, the queue is served in order and a lost claim comes back.
  \<^item> \<^verbatim>\<open>Run_View\<close>: what an operator sees of runs (\<^verbatim>\<open>runsview.go\<close>, \<^verbatim>\<open>runsglobal.go\<close>). The fold in Go, the fold in SQL and
    the page of one run agree; search is substring search.

  \<^item> \<^verbatim>\<open>Keeper_Step\<close>: one step of a run before anything is sent: names of requisites, the gate over earlier steps, hosts
    settled on the Keeper, waves, the wire form of a slice, the reading of the barrier and the routing of rescues
    (\<^verbatim>\<open>scenario/dispatch.go\<close>, \<^verbatim>\<open>crosspassage.go\<close>, \<^verbatim>\<open>keeper_flow.go\<close>, \<^verbatim>\<open>rescue.go\<close>, \<^verbatim>\<open>render/prototask.go\<close>, \<^verbatim>\<open>onchanges.go\<close>, \<^verbatim>\<open>require.go\<close>).
  \<^item> \<^verbatim>\<open>Keeper_Claims\<close>: the split of a requisite between Keeper and Soul is the plain meaning of the requisite, in any
    state the Soul reaches; a task is sent or recorded as the rules for its host say (\<open>failsOn\<close>, \<open>leftOut\<close>), and the first
    failing one is the cause; the waves hold every host once, and what is sent and recorded decides where a host
    goes; a barrier that passes has seen every host.

  \<^bold>\<open>Failure\<close> (\<^verbatim>\<open>failure_policy.go\<close>, \<^verbatim>\<open>failure_state.go\<close> of \<^verbatim>\<open>keeper/internal/scenario\<close>, \<^verbatim>\<open>StepSpan\<close> of \<^verbatim>\<open>shared/config/passage_linear.go\<close>).
  After every wave of a step the keeper replays what each host reported into the rescue rule of the host. A failure a rescue
  unit ahead may handle is held with its host; when its last unit is over it is handled or judged. A judged failure ends
  the run or drops its host, as its radius and \<open>tolerate\<close> say, and the run ends with the list of all of them.

  \<^item> \<^verbatim>\<open>Fail_Judge\<close>: the judge of a step (\<^verbatim>\<open>stepJudge\<close>): radius and verdict of a row, what a host was to be sent, the records
    of a host that stopped reporting.
  \<^item> \<^verbatim>\<open>Fail_State\<close>: the failure state (\<^verbatim>\<open>runFailures\<close>): sources, standing of hosts, replay, hold, return, sweep and the barrier.
    The loop of \<open>rejoin\<close> ends because a pass that moves leaves a block behind.
  \<^item> \<^verbatim>\<open>Fail_Policy\<close>: the list and its end, the policy (\<^verbatim>\<open>settle\<close>), marks on rows, one wave (\<^verbatim>\<open>judgeWave\<close>) and the view of a step.
  \<^item> \<^verbatim>\<open>Fail_Moves\<close>, \<^verbatim>\<open>Fail_Rows\<close>, \<^verbatim>\<open>Fail_Run\<close>, \<^verbatim>\<open>Fail_Wave\<close>: what an operation, a row, a barrier and a wave may change, composed from
    one to the next; a run is the relation \<open>linear_run\<close> with the invariant \<open>runInv\<close>.
  \<^item> \<^verbatim>\<open>Fail_Claims\<close>: no failure is lost between held and reported, a run goes on only within its policy, and what a step saw
    is never changed afterwards.

  \<^bold>\<open>Execution\<close> (\<^verbatim>\<open>soul/internal/runtime\<close>, \<^verbatim>\<open>shared/config/rescue_rule.go\<close>). A message carries the tasks of one host in plan
  order. The main flow waits for what a task names, gates it, and runs it or launches it beside itself; a
  failure stops the ordinary tasks, and the tasks that name it in \<open>onfail:\<close> run. Marked rescue units may handle a
  failure, after which the message goes on.

  \<^item> \<^verbatim>\<open>Soul_Rescue\<close>, \<^verbatim>\<open>Soul_Calls\<close>: the rescue rule (\<^verbatim>\<open>rescue_rule.go\<close>), with the locales \<open>rule_op\<close> and \<open>final_op\<close>, the contract
    of an operation on it. Its counter is exact and only a unit that succeeded handles.
  \<^item> \<^verbatim>\<open>Soul_Task\<close>: one attempt of a task, its registers and predicates, retries, the dry run and the parameter check
    (\<^verbatim>\<open>applyrunner.go\<close>, \<^verbatim>\<open>plantask.go\<close>, \<^verbatim>\<open>paramcheck.go\<close>). The loop of attempts is the first that decides.
  \<^item> \<^verbatim>\<open>Soul_Run\<close>: the run of a message (\<open>Run\<close>, \<open>executeTask\<close>, \<open>launchAsync\<close>, \<^verbatim>\<open>async.go\<close>, \<^verbatim>\<open>rescueunit.go\<close>) as a machine that makes one
    move of one flow, with a Cancel at any moment; a schedule is a list of moves.
  \<^item> \<^verbatim>\<open>Soul_Order\<close>: the run in plan order, and that every schedule agrees with it.
  \<^item> \<^verbatim>\<open>Soul_Live\<close>, \<^verbatim>\<open>Soul_Verdict\<close>, \<^verbatim>\<open>Soul_Stop\<close>, \<^verbatim>\<open>Soul_Late\<close>: invariants of every schedule by rule induction: it is never
    stuck, it is bounded and ends, it reports each task once, its result covers the failures, a failure stops it, and
    what a late Cancel leaves of the result.
  \<^item> \<^verbatim>\<open>Soul_Claims\<close>: the properties of this part and their witnesses.

  \<^verbatim>\<open>Go_Prelude\<close> holds what all of them use of Go: byte strings, UTF-8, results, sorting.

  \<^bold>\<open>Conventions.\<close> A struct is a record, a tagged union a datatype, a pair of value and error a sum with the
  error on the left; a Go map is an association list whose order stands for the unspecified iteration
  order; a Go string is a list of bytes. A SQL statement that writes is a guard and an effect on rows, atomic,
  and reads the version of the table it is given, which may be older than the one it writes; a table is a
  list of rows in the unspecified order of the storage. Numbers stored in an \<^verbatim>\<open>INTEGER\<close> column are kept to its
  range and the conversion to \<^verbatim>\<open>int32\<close> on the wire is written out. Versions and counts are unbounded integers, far from the
  bounds of a Go int. Error values carry the class of the error and not its text.

  \<^bold>\<open>Loops and fuel.\<close> Every loop is a total function: structural, or with a measure. The scope parser and the
  resolution of roles carry the depth bounds of the source (\<open>maxScopeDepth\<close>, \<open>maxRoleChainDepth\<close>) as their
  recursion argument, so the bound of the code is the bound of the model; parsing a migration document
  recurses on the size of the document. The walk over the dependencies of a plan goes through its own marks and runs on
  fuel, one unit more than there are tasks; every call deeper marks a task, so it never runs out (\<open>Stratify_total\<close>).

  \<^bold>\<open>Arguments.\<close> The rows of SQL queries, the CEL evaluators, the YAML decoder and the operator count of a
  cascade are arguments of the definitions that use them, arbitrary unless a theorem says otherwise. Two
  theorems ask an evaluator or decoder to return maps with distinct keys, which every Go map has.

  The cluster relation relies on three facts of its surroundings, each a premise of a rule: a run inserts an open
  row for a host only when its earlier rows are closed, it withdraws only rows it inserted itself and
  never queued, and a message is delivered at most once. Purging of old finished rows is outside the relation.

  A plan is the scenario after the expansion of its includes; a key of type \<^verbatim>\<open>any\<close> is a \<open>go_value\<close>. The parser of durations is
  the argument \<open>dur\<close> of what reads a \<^verbatim>\<open>timeout:\<close>, arbitrary in every theorem. A position of a plan is below \<open>2 ^ 63\<close> where the text
  of a path is read back.

  The modules of a host, what each call of one returns, the CEL evaluator and the duration parser are the record
  \<open>host\<close>, arbitrary but for one premise of the agreement of schedules: a predicate reads only the registers it
  names (\<open>evalLocal\<close>), which is how the engine finds them. The other, \<open>planOrdered\<close>, is about the plan: an async task
  is no aggregate and shares its register with no other task. Moves are atomic, since flows share only the
  registers and the sink. A sink that fails ends the process of the message and is not modelled.

  \<^bold>\<open>Where the code differs from its documentation\<close>, as theorems: \<open>coven_projection_too_wide\<close>,
  \<open>rendered_permission_breaks_listing\<close>, \<open>canonical_text_can_be_refused\<close>, \<open>rename_into_itself_loses\<close>,
  \<open>two_runs_differ\<close>, \<open>patch_order_matters\<close>, \<open>late_cancel_result\<close>, \<open>unregistered_module_skips_rescue\<close>,
  \<open>non_ascii_glob_differs\<close>, \<open>register_behind_call_missed\<close>, \<open>block_where_not_checked\<close>.

  \<^bold>\<open>Not modelled.\<close> What talks to the outside, the database, Vault, gRPC, HTTP and the plugins of the agent; the
  loading of configuration, which is YAML decoding with positional diagnostics, its validators and the expansion of includes; the
  rendering of tasks, which evaluates CEL and templates; the CEL engine, a wrapper of a library; the orchestration of
  voyages, schedules and windows, which is SQL and timers around the run modelled here; a statement that fails half way,
  which the database rolls back; a read of the audit log that fails, which ends the barrier with its error.
\<close>

end
